(* ===== verification/Prelude.thy ===== *)
theory Prelude
  imports Main "HOL-Library.Word" "HOL-Library.Multiset"
begin

unbundle bit_operations_syntax

text \<open>
  Shared ground of the development: the machine-integer types of the code, the ways in which
  a run of the code can stop without a result (\<open>fault\<close>), sequencing of operations that can
  stop (\<open>bindE\<close>), and the generic facts on words, lists, maps and sums the components use.
  Unsigned integers are words of their width; signed integers are \<open>int\<close> with the wrap-around
  of the width written out (\<open>swrap\<close>).
\<close>

section \<open>Machine integers\<close>

type_synonym u8 = "8 word"
type_synonym u32 = "32 word"
type_synonym u64 = "64 word"

text \<open>The value of a signed \<open>n\<close>-bit integer after the conversion of \<open>x\<close> to that width.\<close>

definition swrap :: "nat \<Rightarrow> int \<Rightarrow> int" where
  "swrap n x = (x + 2 ^ (n - 1)) mod 2 ^ n - 2 ^ (n - 1)"

text \<open>C's integer division and remainder, which truncate towards zero.\<close>

definition tdiv :: "int \<Rightarrow> int \<Rightarrow> int" where
  "tdiv a b = sgn a * sgn b * (\<bar>a\<bar> div \<bar>b\<bar>)"

definition tmod :: "int \<Rightarrow> int \<Rightarrow> int" where
  "tmod a b = a - tdiv a b * b"

lemma swrap_id: "0 < n \<Longrightarrow> - (2 ^ (n - 1)) \<le> x \<Longrightarrow> x < 2 ^ (n - 1) \<Longrightarrow> swrap n x = x"
proof -
  assume "0 < n" and lo: "- (2 ^ (n - 1)) \<le> x" and hi: "x < 2 ^ (n - 1)"
  then have "(2::int) ^ n = 2 * 2 ^ (n - 1)" by (cases n) auto
  with lo hi show ?thesis by (simp add: swrap_def)
qed

lemma tdiv_nonneg: "0 \<le> a \<Longrightarrow> 0 < b \<Longrightarrow> tdiv a b = a div b"
  by (cases "a = 0") (simp_all add: tdiv_def)

lemma tmod_nonneg: "0 \<le> a \<Longrightarrow> 0 < b \<Longrightarrow> tmod a b = a mod b"
  by (simp add: tmod_def tdiv_nonneg minus_div_mult_eq_mod)

lemma tdiv_mult_exact: "0 < b \<Longrightarrow> tdiv (k * b) b = k"
proof -
  assume b: "0 < b"
  then have "\<bar>k * b\<bar> div \<bar>b\<bar> = \<bar>k\<bar>" by (simp add: abs_mult)
  with b show ?thesis by (simp add: tdiv_def sgn_mult sgn_mult_abs)
qed

section \<open>Words\<close>

lemma unat_min: "unat (min a b) = min (unat a) (unat (b :: 'a::len word))"
  by (simp add: min_def word_le_nat_alt)

lemma unat_diff_le: "b \<le> a \<Longrightarrow> unat (a - b) = unat a - unat (b :: 'a::len word)"
  by (simp add: unat_sub)

lemma unat_pos_iff: "0 < unat (a :: 'a::len word) \<longleftrightarrow> a \<noteq> 0"
  by (simp add: unat_gt_0)

lemma unat_add_small:
  "unat a + unat b < 2 ^ LENGTH('a) \<Longrightarrow> unat (a + b) = unat a + unat (b :: 'a::len word)"
  by (simp add: unat_word_ariths)

lemma unat_inc_small:
  "unat a + 1 < 2 ^ LENGTH('a) \<Longrightarrow> unat (a + 1) = unat (a :: 'a::len word) + 1"
  by (simp add: unat_word_ariths)

lemma unat_of_nat_small: "n < 2 ^ LENGTH('a) \<Longrightarrow> unat (of_nat n :: 'a::len word) = n"
  by (simp add: unsigned_of_nat take_bit_nat_eq_self)

lemma unat_of_nat_mod: "unat (of_nat n :: 'a::len word) = n mod 2 ^ LENGTH('a)"
  by (simp add: unsigned_of_nat take_bit_eq_mod)

lemma unat_inj: "unat a = unat b \<Longrightarrow> a = (b :: 'a::len word)"
  by (rule unsigned_word_eqI)

lemma unat_two_power:
  assumes "k < LENGTH('a)"
  shows "unat (2 ^ k :: 'a::len word) = 2 ^ k"
  using unat_of_nat_small [of "2 ^ k", where 'a = 'a] assms by simp

lemma unat_ucast_u32: "unat (ucast (a :: u32) :: u64) = unat a"
proof -
  have "unat a < 2 ^ 32" using unsigned_less [of a] by simp
  then show ?thesis by (simp add: unsigned_ucast_eq take_bit_nat_eq_self_iff)
qed

section \<open>Runs that stop without a result\<close>

text \<open>
  \<open>Assert_Fail\<close> and \<open>Fatal_Exit\<close> are the \<open>ASSERT\<close> and \<open>FATAL\<close> of \<open>common/macros.h\<close>: both
  print and call \<open>exit\<close>. \<open>Null_Deref\<close> and \<open>Bad_Access\<close> are undefined behaviour (a null
  pointer, or a slot that holds no object or lies outside its array). \<open>Out_Of_Range\<close> is the
  exception of \<open>std::array::at\<close>. \<open>Diverges\<close> stands for a loop that does not return.
\<close>

datatype fault =
    Assert_Fail string
  | Fatal_Exit string
  | Null_Deref
  | Bad_Access
  | Out_Of_Range
  | Diverges

type_synonym 'a result = "fault + 'a"

text \<open>Run \<open>m\<close>, then \<open>f\<close> on its value; a fault ends the run.\<close>

definition bindE :: "'a result \<Rightarrow> ('a \<Rightarrow> 'b result) \<Rightarrow> 'b result" where
  "bindE m f = (case m of Inl e \<Rightarrow> Inl e | Inr x \<Rightarrow> f x)"

text \<open>\<open>ASSERT(cond, msg)\<close>.\<close>

definition ASSERT :: "bool \<Rightarrow> string \<Rightarrow> unit result" where
  "ASSERT c msg = (if c then Inr () else Inl (Assert_Fail msg))"

text \<open>\<open>FATAL(msg)\<close>.\<close>

definition FATAL :: "string \<Rightarrow> 'a result" where
  "FATAL msg = Inl (Fatal_Exit msg)"

text \<open>Dereference of a pointer that may be null, and of a slot that may hold no object.\<close>

definition deref :: "'a option \<Rightarrow> 'a result" where
  "deref p = (case p of None \<Rightarrow> Inl Null_Deref | Some x \<Rightarrow> Inr x)"

definition access :: "'a option \<Rightarrow> 'a result" where
  "access p = (case p of None \<Rightarrow> Inl Bad_Access | Some x \<Rightarrow> Inr x)"

lemma bindE_simps [simp]: "bindE (Inl e) f = Inl e" "bindE (Inr x) f = f x"
  by (simp_all add: bindE_def)

lemma bindE_eq_Inr: "bindE m f = Inr y \<longleftrightarrow> (\<exists>x. m = Inr x \<and> f x = Inr y)"
  by (cases m) auto

lemma bindE_assoc: "bindE (bindE m f) g = bindE m (\<lambda>x. bindE (f x) g)"
  by (cases m) auto

lemma ASSERT_simps [simp]: "ASSERT True m = Inr ()" "ASSERT False m = Inl (Assert_Fail m)"
  by (simp_all add: ASSERT_def)

lemma ASSERT_eq_Inr: "ASSERT c m = Inr u \<longleftrightarrow> c"
  by (simp add: ASSERT_def)

lemma deref_simps [simp]: "deref None = Inl Null_Deref" "deref (Some x) = Inr x"
  by (simp_all add: deref_def)

lemma access_simps [simp]: "access None = Inl Bad_Access" "access (Some x) = Inr x"
  by (simp_all add: access_def)

section \<open>Lists and maps\<close>

lemma set_last_in: "xs \<noteq> [] \<Longrightarrow> last xs \<in> set xs"
  by simp

lemma finite_dom_upd: "finite (dom m) \<Longrightarrow> finite (dom (m(k := v)))"
  by (metis finite_insert rev_finite_subset dom_fun_upd finite_Diff)

lemma sum_list_ge_member: "x \<in> set xs \<Longrightarrow> f x \<le> sum_list (map f xs)" for f :: "'a \<Rightarrow> nat"
  by (induction xs) auto

lemma sum_list_bound: "\<forall>x \<in> set xs. f x \<le> b \<Longrightarrow> sum_list (map f xs) \<le> length xs * b"
  for f :: "'a \<Rightarrow> nat"
  by (induction xs) auto

lemma takeWhile_shorter: "x \<in> set xs \<Longrightarrow> \<not> P x \<Longrightarrow> length (takeWhile P xs) < length xs"
  by (induction xs) auto

lemma split_list_at: "x \<in> set xs \<Longrightarrow> \<exists>as bs. xs = as @ x # bs \<and> x \<notin> set as"
  by (rule split_list_first)

end
