(* ===== verification/Types.thy ===== *)
theory Types
  imports Prelude
begin

text \<open>
  The constants and scalar types of \<open>common/types.h\<close>. An \<open>enum class\<close> with underlying type
  \<open>uint8_t\<close> can hold any byte; bytes that name no enumerator are the last constructor.
\<close>

section \<open>Capacities\<close>

definition kMaxSymbols :: nat where "kMaxSymbols = 8"
definition kMaxClientUpdates :: nat where "kMaxClientUpdates = 256 * 1024"
definition kMaxMarketUpdates :: nat where "kMaxMarketUpdates = 256 * 1024"
definition kMaxNumClients :: nat where "kMaxNumClients = 256"
definition kMaxOrderIds :: nat where "kMaxOrderIds = 1024 * 1024"
definition kMaxPriceLevels :: nat where "kMaxPriceLevels = 16 * 1024"

named_theorems capacity_defs

declare kMaxSymbols_def [capacity_defs] kMaxClientUpdates_def [capacity_defs]
  kMaxMarketUpdates_def [capacity_defs] kMaxNumClients_def [capacity_defs]
  kMaxOrderIds_def [capacity_defs] kMaxPriceLevels_def [capacity_defs]

section \<open>Identifiers, prices and quantities\<close>

type_synonym OrderId = u64
type_synonym SymbolId = u32
type_synonym ClientId = u32
type_synonym Price = int  \<comment> \<open>the value of an \<open>int64_t\<close>\<close>
type_synonym Quantity = u32
type_synonym Priority = u64

datatype Side = BUY | SELL | Side_Other u8

text \<open>\<open>Side{}\<close>, the value-initialised side: the byte 0.\<close>

definition Side_zero :: Side where "Side_zero = Side_Other 0"

definition side_byte :: "Side \<Rightarrow> u8" where
  "side_byte s = (case s of BUY \<Rightarrow> 1 | SELL \<Rightarrow> 2 | Side_Other b \<Rightarrow> b)"

definition byte_side :: "u8 \<Rightarrow> Side" where
  "byte_side b = (if b = 1 then BUY else if b = 2 then SELL else Side_Other b)"

text \<open>A side read from a byte never is an unnamed byte that has a name.\<close>

definition wf_side :: "Side \<Rightarrow> bool" where
  "wf_side s \<longleftrightarrow> s \<noteq> Side_Other 1 \<and> s \<noteq> Side_Other 2"

lemma side_byte_inverse: "wf_side s \<Longrightarrow> byte_side (side_byte s) = s"
  by (cases s) (auto simp: wf_side_def side_byte_def byte_side_def)

lemma byte_side_inverse: "side_byte (byte_side b) = b"
  by (simp add: byte_side_def side_byte_def)

lemma wf_byte_side: "wf_side (byte_side b)"
  by (simp add: byte_side_def wf_side_def)

end
