(* ===== verification/Mem_Pool.thy ===== *)
theory Mem_Pool
  imports Types
begin

text \<open>
  The fixed-capacity object pool \<open>common::MemPool\<close> of \<open>common/mem_pool.h\<close>: slots are handed
  out from an intrusive free list first and from a bump cursor second. A pointer to an object
  is the index of its slot; \<open>MarkSlot_at\<close> and \<open>deallocate_at\<close> take the address itself, with the checks
  of the debug build on it, and agree with the indexed operations on every slot. The union \<open>ObjectBlock\<close> is a datatype whose constructor is the
  active member; \<open>Raw\<close> is storage that was never written. The debug build's slot flags are
  an optional component: \<open>None\<close> is a build with \<open>NDEBUG\<close>, where \<open>MarkSlot\<close> does nothing.
  The last part states what the pool promises its clients as a locale and shows that the
  model keeps the promise.
\<close>

section \<open>State\<close>

datatype 'a ObjectBlock = Raw | Object 'a | NextFree "nat option"

record 'a MemPool =
  mp_storage :: "nat \<Rightarrow> 'a ObjectBlock"
  mp_capacity :: nat
  mp_next_unused :: nat
  mp_free_head :: "nat option"
  mp_in_use :: nat
  mp_in_use_flags :: "(nat \<Rightarrow> bool) option"

definition new_pool :: "bool \<Rightarrow> nat \<Rightarrow> 'a MemPool" where
  "new_pool debug cap =
     \<lparr>mp_storage = (\<lambda>_. Raw), mp_capacity = cap, mp_next_unused = 0, mp_free_head = None,
      mp_in_use = 0, mp_in_use_flags = (if debug then Some (\<lambda>_. False) else None)\<rparr>"

section \<open>Operations\<close>

definition MarkSlot :: "nat \<Rightarrow> bool \<Rightarrow> 'a MemPool \<Rightarrow> 'a MemPool result" where
  "MarkSlot i in_use p =
     (case mp_in_use_flags p of
        None \<Rightarrow> Inr p
      | Some flags \<Rightarrow>
          bindE (ASSERT (i < mp_next_unused p) ''Element pointer does not belong to this pool'') (\<lambda>_.
          bindE (ASSERT (flags i \<noteq> in_use)
                  (if in_use then ''Free-list slot already in use at index: ''
                   else ''Double free at index: '')) (\<lambda>_.
          Inr (p\<lparr>mp_in_use_flags := Some (flags(i := in_use))\<rparr>))))"

definition allocate :: "'a \<Rightarrow> 'a MemPool \<Rightarrow> (nat \<times> 'a MemPool) result" where
  "allocate x p =
     bindE
       (case mp_free_head p of
          Some i \<Rightarrow>
            (case mp_storage p i of
               NextFree n \<Rightarrow> Inr (i, p\<lparr>mp_free_head := n\<rparr>)
             | _ \<Rightarrow> Inl Bad_Access)
        | None \<Rightarrow>
            bindE (ASSERT (mp_next_unused p < mp_capacity p) ''Memory pool exhausted'') (\<lambda>_.
            Inr (mp_next_unused p, p\<lparr>mp_next_unused := mp_next_unused p + 1\<rparr>)))
       (\<lambda>(i, p1). bindE (MarkSlot i True p1) (\<lambda>p2.
          Inr (i, p2\<lparr>mp_in_use := mp_in_use p2 + 1,
                     mp_storage := (mp_storage p2)(i := Object x)\<rparr>)))"

text \<open>\<open>--in_use_\<close> is the unsigned decrement of a 64-bit counter.\<close>

definition deallocate :: "nat \<Rightarrow> 'a MemPool \<Rightarrow> 'a MemPool result" where
  "deallocate i p =
     bindE (MarkSlot i False p) (\<lambda>p1.
       if mp_capacity p1 \<le> i then Inl Bad_Access
       else Inr (p1\<lparr>mp_storage := (mp_storage p1)(i := NextFree (mp_free_head p1)),
                    mp_free_head := Some i,
                    mp_in_use := (if mp_in_use p1 = 0 then 2 ^ 64 - 1 else mp_in_use p1 - 1)\<rparr>))"

text \<open>
  The same two operations on the pointer as the code gets it, a 64-bit address: \<open>storage\<close> is the
  address of the storage (0 is the null pointer) and \<open>block_size\<close> is \<open>sizeof(ObjectBlock)\<close>. \<open>MarkSlot\<close> above
  is what remains of \<open>MarkSlot_at\<close> for a pointer to a slot.
\<close>

definition slot_address :: "u64 \<Rightarrow> u64 \<Rightarrow> nat \<Rightarrow> u64" where
  "slot_address storage block_size i = storage + of_nat i * block_size"

definition MarkSlot_at :: "u64 \<Rightarrow> u64 \<Rightarrow> u64 \<Rightarrow> bool \<Rightarrow> 'a MemPool \<Rightarrow> 'a MemPool result" where
  "MarkSlot_at storage block_size block in_use p =
     (case mp_in_use_flags p of
        None \<Rightarrow> Inr p
      | Some flags \<Rightarrow>
          bindE (ASSERT (storage \<noteq> 0 \<and> block \<noteq> 0) ''Invalid element pointer'') (\<lambda>_.
          let offset = block - storage in
          bindE (ASSERT (storage \<le> block \<and> offset < of_nat (mp_next_unused p) * block_size \<and> offset mod block_size = 0)
                  ''Element pointer does not belong to this pool'') (\<lambda>_.
          let index = unat (offset div block_size) in
          bindE (ASSERT (flags index \<noteq> in_use)
                  (if in_use then ''Free-list slot already in use at index: ''
                   else ''Double free at index: '')) (\<lambda>_.
          Inr (p\<lparr>mp_in_use_flags := Some (flags(index := in_use))\<rparr>)))))"

text \<open>Without the checks a pointer that is no slot's is written through all the same, which the model
  does not follow.\<close>

definition deallocate_at :: "u64 \<Rightarrow> u64 \<Rightarrow> u64 \<Rightarrow> 'a MemPool \<Rightarrow> 'a MemPool result" where
  "deallocate_at storage block_size elem p =
     bindE (MarkSlot_at storage block_size elem False p) (\<lambda>p1.
       let offset = elem - storage; i = unat (offset div block_size) in
       if elem < storage \<or> offset mod block_size \<noteq> 0 \<or> mp_capacity p1 \<le> i then Inl Bad_Access
       else Inr (p1\<lparr>mp_storage := (mp_storage p1)(i := NextFree (mp_free_head p1)),
                    mp_free_head := Some i,
                    mp_in_use := (if mp_in_use p1 = 0 then 2 ^ 64 - 1 else mp_in_use p1 - 1)\<rparr>))"

text \<open>The accessors \<open>in_use\<close>, \<open>available\<close> and \<open>high_water\<close>.\<close>

definition pool_in_use :: "'a MemPool \<Rightarrow> nat" where "pool_in_use p = mp_in_use p"
definition available :: "'a MemPool \<Rightarrow> nat" where "available p = mp_capacity p - mp_in_use p"
definition high_water :: "'a MemPool \<Rightarrow> nat" where "high_water p = mp_next_unused p"

text \<open>
  \<open>Warmup\<close> only writes zero bytes; the model returns the byte offsets it writes, for slots of
  \<open>block_size\<close> bytes.
\<close>

definition kPageStride :: nat where "kPageStride = 4096"

function touch_from :: "nat \<Rightarrow> nat \<Rightarrow> nat list" where
  "touch_from offset limit =
     (if offset < limit then offset # touch_from (offset + kPageStride) limit else [])"
  by pat_completeness auto
termination
  by (relation "measure (\<lambda>(offset, limit). limit - offset)") (auto simp: kPageStride_def)

declare touch_from.simps [simp del]

definition Warmup :: "nat \<Rightarrow> nat \<Rightarrow> 'a MemPool \<Rightarrow> nat list" where
  "Warmup block_size n p =
     (let limit = min n (mp_capacity p) in
      if mp_capacity p = 0 \<or> limit \<le> mp_next_unused p then []
      else let b = mp_next_unused p * block_size; e = limit * block_size in
           touch_from b e @ [e - 1])"

text \<open>Reads and writes of a live object through its pointer.\<close>

definition lookup :: "'a MemPool \<Rightarrow> nat \<Rightarrow> 'a option" where
  "lookup p i = (case mp_storage p i of Object x \<Rightarrow> Some x | _ \<Rightarrow> None)"

definition store :: "nat \<Rightarrow> 'a \<Rightarrow> 'a MemPool \<Rightarrow> 'a MemPool" where
  "store i x p = p\<lparr>mp_storage := (mp_storage p)(i := Object x)\<rparr>"

section \<open>Invariant\<close>

text \<open>The free list as the sequence of slots the links go through.\<close>

fun free_chain :: "'a MemPool \<Rightarrow> nat option \<Rightarrow> nat list \<Rightarrow> bool" where
  "free_chain p h [] \<longleftrightarrow> h = None"
| "free_chain p h (i # is) \<longleftrightarrow>
     h = Some i \<and> (\<exists>n. mp_storage p i = NextFree n \<and> free_chain p n is)"

definition flags_ok :: "'a MemPool \<Rightarrow> bool" where
  "flags_ok p \<longleftrightarrow>
     (\<forall>flags. mp_in_use_flags p = Some flags \<longrightarrow> (\<forall>i. flags i \<longleftrightarrow> lookup p i \<noteq> None))"

definition pool_rel :: "'a MemPool \<Rightarrow> nat list \<Rightarrow> bool" where
  "pool_rel p fl \<longleftrightarrow>
     free_chain p (mp_free_head p) fl \<and> distinct fl \<and> set fl \<subseteq> {..<mp_next_unused p} \<and>
     (\<forall>i < mp_next_unused p. i \<notin> set fl \<longrightarrow> lookup p i \<noteq> None) \<and>
     (\<forall>i \<ge> mp_next_unused p. mp_storage p i = Raw) \<and>
     mp_next_unused p \<le> mp_capacity p \<and>
     mp_in_use p + length fl = mp_next_unused p \<and>
     flags_ok p"

definition pool_inv :: "'a MemPool \<Rightarrow> bool" where
  "pool_inv p \<longleftrightarrow> (\<exists>fl. pool_rel p fl)"

lemma free_chain_not_live: "free_chain p h fl \<Longrightarrow> i \<in> set fl \<Longrightarrow> lookup p i = None"
  by (induction fl arbitrary: h) (auto simp: lookup_def)

lemma free_chain_cong:
  "\<forall>i \<in> set fl. mp_storage q i = mp_storage p i \<Longrightarrow> free_chain q h fl = free_chain p h fl"
  by (induction fl arbitrary: h) auto

lemma lookup_storage_upd:
  "lookup (p\<lparr>mp_storage := (mp_storage p)(i := b)\<rparr>) =
     (lookup p)(i := (case b of Object x \<Rightarrow> Some x | _ \<Rightarrow> None))"
  by (auto simp: lookup_def fun_eq_iff)

lemma lookup_other_fields [simp]:
  "lookup (p\<lparr>mp_in_use := a\<rparr>) = lookup p"
  "lookup (p\<lparr>mp_free_head := h\<rparr>) = lookup p"
  "lookup (p\<lparr>mp_next_unused := n\<rparr>) = lookup p"
  "lookup (p\<lparr>mp_in_use_flags := f\<rparr>) = lookup p"
  by (auto simp: lookup_def fun_eq_iff)

lemma lookup_store: "lookup (store i x p) = (lookup p)(i \<mapsto> x)"
  by (simp add: store_def lookup_storage_upd)

lemma store_fields [simp]:
  "mp_capacity (store i x p) = mp_capacity p" "mp_next_unused (store i x p) = mp_next_unused p"
  "mp_free_head (store i x p) = mp_free_head p" "mp_in_use (store i x p) = mp_in_use p"
  "mp_in_use_flags (store i x p) = mp_in_use_flags p"
  by (simp_all add: store_def)

lemma new_pool_inv: "pool_inv (new_pool debug n)"
  unfolding pool_inv_def
  by (rule exI [of _ "[]"]) (auto simp: pool_rel_def flags_ok_def new_pool_def lookup_def)

lemma lookup_new_pool [simp]: "lookup (new_pool debug n) = Map.empty"
  by (auto simp: new_pool_def lookup_def fun_eq_iff)

lemma pool_inv_store: "pool_inv p \<Longrightarrow> lookup p i \<noteq> None \<Longrightarrow> pool_inv (store i x p)"
proof -
  assume "pool_inv p" and live: "lookup p i \<noteq> None"
  then obtain fl where fl: "pool_rel p fl" by (auto simp: pool_inv_def)
  have notin: "i \<notin> set fl"
    using fl live free_chain_not_live [of p "mp_free_head p" fl i] by (auto simp: pool_rel_def)
  have lt: "i < mp_next_unused p"
  proof (rule ccontr)
    assume "\<not> i < mp_next_unused p"
    then have "mp_storage p i = Raw" using fl by (simp add: pool_rel_def)
    with live show False by (simp add: lookup_def)
  qed
  have chain: "free_chain (store i x p) (mp_free_head p) fl"
  proof (subst free_chain_cong [of fl _ p])
    show "\<forall>j \<in> set fl. mp_storage (store i x p) j = mp_storage p j"
      using notin by (auto simp: store_def)
    show "free_chain p (mp_free_head p) fl" using fl by (simp add: pool_rel_def)
  qed
  have raw: "mp_storage (store i x p) j = Raw" if "mp_next_unused p \<le> j" for j
    using fl that lt by (auto simp: pool_rel_def store_def)
  have dom: "lookup (store i x p) j \<noteq> None \<longleftrightarrow> lookup p j \<noteq> None" for j
    using live by (simp add: lookup_store)
  have "pool_rel (store i x p) fl"
    using fl chain raw unfolding pool_rel_def flags_ok_def by (simp add: dom del: not_None_eq)
  then show ?thesis by (auto simp: pool_inv_def)
qed

lemma pool_live_card:
  assumes "pool_inv p"
  shows "finite (dom (lookup p))" "card (dom (lookup p)) = mp_in_use p"
    "dom (lookup p) \<subseteq> {..<mp_next_unused p}" "mp_next_unused p \<le> mp_capacity p"
proof -
  from assms obtain fl where fl: "pool_rel p fl" by (auto simp: pool_inv_def)
  have dom: "dom (lookup p) = {..<mp_next_unused p} - set fl"
  proof -
    have "i \<in> dom (lookup p) \<longleftrightarrow> i < mp_next_unused p \<and> i \<notin> set fl" for i
    proof (cases "i < mp_next_unused p")
      case True
      then show ?thesis
        using fl free_chain_not_live [of p "mp_free_head p" fl i] by (auto simp: pool_rel_def)
    next
      case False
      then have "mp_storage p i = Raw" using fl by (auto simp: pool_rel_def)
      with False show ?thesis by (auto simp: lookup_def)
    qed
    then show ?thesis by auto
  qed
  show "finite (dom (lookup p))" and "dom (lookup p) \<subseteq> {..<mp_next_unused p}" by (auto simp: dom)
  have "card (dom (lookup p)) = mp_next_unused p - length fl"
    unfolding dom using fl by (subst card_Diff_subset) (auto simp: pool_rel_def distinct_card)
  then show "card (dom (lookup p)) = mp_in_use p" using fl by (auto simp: pool_rel_def)
  show "mp_next_unused p \<le> mp_capacity p" using fl by (auto simp: pool_rel_def)
qed

section \<open>Allocation and release\<close>

lemma MarkSlot_Inr:
  assumes "flags_ok p" and "i < mp_next_unused p" and "lookup p i \<noteq> None \<longleftrightarrow> \<not> b"
  shows "MarkSlot i b p = Inr (p\<lparr>mp_in_use_flags := map_option (\<lambda>f. f(i := b)) (mp_in_use_flags p)\<rparr>)"
proof (cases "mp_in_use_flags p")
  case None
  then show ?thesis by (simp add: MarkSlot_def)
next
  case (Some flags)
  then have "flags i \<noteq> b" using assms by (auto simp: flags_ok_def)
  with Some assms(2) show ?thesis by (simp add: MarkSlot_def)
qed

text \<open>Where the next object goes: the head of the free list, else the bump cursor.\<close>

definition next_slot :: "'a MemPool \<Rightarrow> nat" where
  "next_slot p = (case mp_free_head p of Some i \<Rightarrow> i | None \<Rightarrow> mp_next_unused p)"

lemma pool_rel_head:
  assumes "pool_rel p fl" and "mp_free_head p = Some i"
  shows "\<exists>n is. fl = i # is \<and> mp_storage p i = NextFree n \<and> free_chain p n is"
  using assms by (cases fl) (auto simp: pool_rel_def)

lemma pool_rel_no_head:
  assumes "pool_rel p fl" and "mp_free_head p = None"
  shows "fl = []"
  using assms by (cases fl) (auto simp: pool_rel_def)

lemma allocate_reuse:
  assumes rel: "pool_rel p fl" and head: "mp_free_head p = Some i"
  shows "\<exists>p'. allocate x p = Inr (i, p') \<and> pool_rel p' (tl fl) \<and> lookup p i = None \<and>
    lookup p' = (lookup p)(i \<mapsto> x) \<and> mp_capacity p' = mp_capacity p \<and>
    mp_next_unused p' = mp_next_unused p \<and> mp_in_use p' = mp_in_use p + 1"
proof -
  from pool_rel_head [OF rel head] obtain n "is" where
    fl: "fl = i # is" and st: "mp_storage p i = NextFree n" and ch: "free_chain p n is" by blast
  let ?p1 = "p\<lparr>mp_free_head := n\<rparr>"
  let ?fl = "map_option (\<lambda>f. f(i := True)) (mp_in_use_flags p)"
  have none: "lookup p i = None" using st by (simp add: lookup_def)
  have "MarkSlot i True ?p1 = Inr (?p1\<lparr>mp_in_use_flags := ?fl\<rparr>)"
    using MarkSlot_Inr [of ?p1 i True] rel fl none
    by (simp add: pool_rel_def flags_ok_def)
  then have al: "allocate x p = Inr (i, ?p1\<lparr>mp_in_use_flags := ?fl, mp_in_use := mp_in_use p + 1,
      mp_storage := (mp_storage p)(i := Object x)\<rparr>)" (is "_ = Inr (i, ?q)")
    by (simp add: allocate_def head st)
  have lk: "lookup ?q = (lookup p)(i \<mapsto> x)" by (auto simp: lookup_def fun_eq_iff)
  have "free_chain ?q n is"
  proof (subst free_chain_cong [of "is" _ p])
    show "\<forall>j \<in> set is. mp_storage ?q j = mp_storage p j" using rel fl by (auto simp: pool_rel_def)
  qed (rule ch)
  then have "pool_rel ?q is"
    using rel fl unfolding pool_rel_def flags_ok_def lk by auto
  with al lk none fl show ?thesis by simp
qed

lemma allocate_bump:
  assumes rel: "pool_rel p fl" and head: "mp_free_head p = None"
    and room: "mp_next_unused p < mp_capacity p"
  shows "\<exists>p'. allocate x p = Inr (mp_next_unused p, p') \<and> pool_rel p' [] \<and>
    lookup p (mp_next_unused p) = None \<and> lookup p' = (lookup p)(mp_next_unused p \<mapsto> x) \<and>
    mp_capacity p' = mp_capacity p \<and> mp_next_unused p' = mp_next_unused p + 1 \<and>
    mp_in_use p' = mp_in_use p + 1 \<and> mp_in_use p = mp_next_unused p"
proof -
  let ?i = "mp_next_unused p"
  let ?p1 = "p\<lparr>mp_next_unused := ?i + 1\<rparr>"
  let ?fl = "map_option (\<lambda>f. f(?i := True)) (mp_in_use_flags p)"
  from pool_rel_no_head [OF rel head] have fl: "fl = []" .
  have none: "lookup p ?i = None" using rel by (simp add: lookup_def pool_rel_def)
  have "MarkSlot ?i True ?p1 = Inr (?p1\<lparr>mp_in_use_flags := ?fl\<rparr>)"
    using MarkSlot_Inr [of ?p1 ?i True] rel none
    by (simp add: pool_rel_def flags_ok_def)
  then have al: "allocate x p = Inr (?i, ?p1\<lparr>mp_in_use_flags := ?fl, mp_in_use := mp_in_use p + 1,
      mp_storage := (mp_storage p)(?i := Object x)\<rparr>)" (is "_ = Inr (?i, ?q)")
    by (simp add: allocate_def head room)
  have lk: "lookup ?q = (lookup p)(?i \<mapsto> x)" by (auto simp: lookup_def fun_eq_iff)
  have "pool_rel ?q []"
    using rel fl head room unfolding pool_rel_def flags_ok_def lk by (auto simp: less_Suc_eq)
  with al lk none rel fl show ?thesis by (auto simp: pool_rel_def)
qed

lemma allocate_ok:
  assumes inv: "pool_inv p" and room: "mp_in_use p < mp_capacity p"
  shows "\<exists>p'. allocate x p = Inr (next_slot p, p') \<and> pool_inv p' \<and> lookup p (next_slot p) = None \<and>
    lookup p' = (lookup p)(next_slot p \<mapsto> x) \<and> mp_capacity p' = mp_capacity p \<and>
    mp_in_use p' = mp_in_use p + 1"
proof -
  from inv obtain fl where rel: "pool_rel p fl" by (auto simp: pool_inv_def)
  show ?thesis
  proof (cases "mp_free_head p")
    case (Some i)
    with allocate_reuse [OF rel Some, of x] show ?thesis by (auto simp: next_slot_def pool_inv_def)
  next
    case None
    then have "fl = []" by (rule pool_rel_no_head [OF rel])
    then have "mp_next_unused p < mp_capacity p" using rel room by (simp add: pool_rel_def)
    from allocate_bump [OF rel None this, of x] None show ?thesis
      by (auto simp: next_slot_def pool_inv_def)
  qed
qed

lemma allocate_full:
  assumes inv: "pool_inv p" and full: "mp_capacity p \<le> mp_in_use p"
  shows "allocate x p = Inl (Assert_Fail ''Memory pool exhausted'')"
proof -
  from inv obtain fl where rel: "pool_rel p fl" by (auto simp: pool_inv_def)
  then have "length fl = 0" and "mp_next_unused p = mp_capacity p"
    using full unfolding pool_rel_def by linarith+
  with rel show ?thesis by (simp add: allocate_def pool_rel_def)
qed

lemma deallocate_ok:
  assumes inv: "pool_inv p" and live: "lookup p i \<noteq> None"
  shows "\<exists>p'. deallocate i p = Inr p' \<and> pool_inv p' \<and> lookup p' = (lookup p)(i := None) \<and>
    mp_capacity p' = mp_capacity p \<and> mp_next_unused p' = mp_next_unused p \<and>
    mp_in_use p' + 1 = mp_in_use p \<and> next_slot p' = i"
proof -
  from inv obtain fl where rel: "pool_rel p fl" by (auto simp: pool_inv_def)
  have lt: "i < mp_next_unused p" using pool_live_card(3) [OF inv] live by auto
  have notin: "i \<notin> set fl"
    using rel live free_chain_not_live [of p "mp_free_head p" fl i] by (auto simp: pool_rel_def)
  have pos: "0 < mp_in_use p"
    using pool_live_card(1,2) [OF inv] live by (metis card_gt_0_iff domI empty_iff not_None_eq)
  let ?fl = "map_option (\<lambda>f. f(i := False)) (mp_in_use_flags p)"
  let ?q = "p\<lparr>mp_in_use_flags := ?fl, mp_storage := (mp_storage p)(i := NextFree (mp_free_head p)),
      mp_free_head := Some i, mp_in_use := mp_in_use p - 1\<rparr>"
  have "MarkSlot i False p = Inr (p\<lparr>mp_in_use_flags := ?fl\<rparr>)"
    using MarkSlot_Inr [of p i False] rel live lt
    by (simp add: pool_rel_def flags_ok_def)
  moreover have "\<not> mp_capacity p \<le> i" using lt rel by (simp add: pool_rel_def)
  ultimately have de: "deallocate i p = Inr ?q" using pos by (simp add: deallocate_def)
  have lk: "lookup ?q = (lookup p)(i := None)" by (auto simp: lookup_def fun_eq_iff)
  have "free_chain ?q (mp_free_head p) fl"
  proof (subst free_chain_cong [of fl _ p])
    show "\<forall>j \<in> set fl. mp_storage ?q j = mp_storage p j" using notin by auto
    show "free_chain p (mp_free_head p) fl" using rel by (simp add: pool_rel_def)
  qed
  then have "pool_rel ?q (i # fl)"
    using rel lt notin pos unfolding pool_rel_def flags_ok_def lk by auto
  with de lk pos show ?thesis by (auto simp: pool_inv_def next_slot_def)
qed

section \<open>What the pool promises its clients\<close>

text \<open>
  The contract the order book, the snapshot synthesizer and the client-side book rely on: a
  pool is a finite map from pointers to objects of bounded size; \<open>alloc\<close> returns a pointer
  that was not live, \<open>free\<close> gives a live one back, \<open>wr\<close> writes through a live one, and no
  operation touches any other object.
\<close>

locale object_pool =
  fixes alloc :: "'a \<Rightarrow> 'p \<Rightarrow> (nat \<times> 'p) result"
    and free :: "nat \<Rightarrow> 'p \<Rightarrow> 'p result"
    and rd :: "'p \<Rightarrow> nat \<Rightarrow> 'a option"
    and wr :: "nat \<Rightarrow> 'a \<Rightarrow> 'p \<Rightarrow> 'p"
    and cap :: "'p \<Rightarrow> nat"
    and inv :: "'p \<Rightarrow> bool"
  assumes alloc_fresh: "inv p \<Longrightarrow> card (dom (rd p)) < cap p \<Longrightarrow>
      \<exists>i p'. alloc x p = Inr (i, p') \<and> inv p' \<and> rd p i = None \<and> rd p' = (rd p)(i \<mapsto> x) \<and>
        cap p' = cap p"
    and alloc_full: "inv p \<Longrightarrow> cap p \<le> card (dom (rd p)) \<Longrightarrow> \<exists>e. alloc x p = Inl e"
    and free_live: "inv p \<Longrightarrow> rd p i \<noteq> None \<Longrightarrow>
      \<exists>p'. free i p = Inr p' \<and> inv p' \<and> rd p' = (rd p)(i := None) \<and> cap p' = cap p"
    and wr_live: "inv p \<Longrightarrow> rd p i \<noteq> None \<Longrightarrow> inv (wr i x p)"
    and rd_wr: "rd (wr i x p) = (rd p)(i \<mapsto> x)"
    and cap_wr: "cap (wr i x p) = cap p"
    and live_finite: "inv p \<Longrightarrow> finite (dom (rd p))"
    and live_bound: "inv p \<Longrightarrow> card (dom (rd p)) \<le> cap p"
begin

lemma alloc_cases:
  assumes "inv p"
  obtains (ok) i p' where "alloc x p = Inr (i, p')" "inv p'" "rd p i = None"
      "rd p' = (rd p)(i \<mapsto> x)" "cap p' = cap p" "card (dom (rd p')) = card (dom (rd p)) + 1"
  | (full) e where "alloc x p = Inl e" "card (dom (rd p)) = cap p"
proof (cases "card (dom (rd p)) < cap p")
  case True
  then obtain i p' where p': "alloc x p = Inr (i, p')" "inv p'" "rd p i = None"
      "rd p' = (rd p)(i \<mapsto> x)" "cap p' = cap p"
    using alloc_fresh [OF assms, of x] by blast
  then have "i \<notin> dom (rd p)" by auto
  then have "card (dom (rd p')) = card (dom (rd p)) + 1"
    using p'(4) live_finite [OF assms] by simp
  with p' show ?thesis by (rule ok)
next
  case False
  then have "card (dom (rd p)) = cap p" using live_bound [OF assms] by simp
  then show ?thesis using alloc_full [OF assms, of x] full by auto
qed

lemma alloc_Inr:
  assumes "inv p" and "alloc x p = Inr (i, p')"
  shows "inv p' \<and> rd p i = None \<and> rd p' = (rd p)(i \<mapsto> x) \<and> cap p' = cap p"
  using assms by (cases rule: alloc_cases [of p x]) auto

lemma free_Inr:
  assumes "inv p" and "rd p i \<noteq> None" and "free i p = Inr p'"
  shows "inv p' \<and> rd p' = (rd p)(i := None) \<and> cap p' = cap p"
  using free_live [OF assms(1,2)] assms(3) by auto

lemma free_card:
  assumes "inv p" and "rd p i \<noteq> None" and "free i p = Inr p'"
  shows "card (dom (rd p')) + 1 = card (dom (rd p))"
proof -
  have "i \<in> dom (rd p)" using assms(2) by auto
  then have "card (dom (rd p) - {i}) + 1 = card (dom (rd p))"
    using live_finite [OF assms(1)] by (metis Suc_eq_plus1 card_Suc_Diff1)
  then show ?thesis using free_Inr [OF assms] by simp
qed

text \<open>A pointer just freed can be allocated again: the pool never leaks a slot.\<close>

lemma free_then_alloc:
  assumes "inv p" and "rd p i \<noteq> None" and "free i p = Inr p'"
  shows "\<exists>j q. alloc x p' = Inr (j, q) \<and> inv q \<and> card (dom (rd q)) = card (dom (rd p))"
proof -
  have inv': "inv p'" and cap': "cap p' = cap p" using free_Inr [OF assms] by auto
  have "card (dom (rd p')) < cap p'"
    using free_card [OF assms] live_bound [OF assms(1)] cap' by simp
  from alloc_fresh [OF inv' this, of x] obtain j q where
    q: "alloc x p' = Inr (j, q)" "inv q" "rd p' j = None" "rd q = (rd p')(j \<mapsto> x)" by blast
  then have "card (dom (rd q)) = card (dom (rd p')) + 1"
    using live_finite [OF inv'] by (simp add: domIff)
  with q free_card [OF assms] show ?thesis by auto
qed

end

interpretation mem_pool: object_pool allocate deallocate lookup store mp_capacity pool_inv
proof unfold_locales
  fix p :: "'a MemPool" and x
  assume "pool_inv p" and "card (dom (lookup p)) < mp_capacity p"
  then show "\<exists>i p'. allocate x p = Inr (i, p') \<and> pool_inv p' \<and> lookup p i = None \<and>
      lookup p' = (lookup p)(i \<mapsto> x) \<and> mp_capacity p' = mp_capacity p"
    using allocate_ok [of p x] pool_live_card(2) [of p] by auto
next
  fix p :: "'a MemPool" and x
  assume "pool_inv p" and "mp_capacity p \<le> card (dom (lookup p))"
  then show "\<exists>e. allocate x p = Inl e"
    using allocate_full [of p x] pool_live_card(2) [of p] by auto
next
  fix p :: "'a MemPool" and i
  assume "pool_inv p" and "lookup p i \<noteq> None"
  then show "\<exists>p'. deallocate i p = Inr p' \<and> pool_inv p' \<and> lookup p' = (lookup p)(i := None) \<and>
      mp_capacity p' = mp_capacity p"
    using deallocate_ok [of p i] by auto
next
  fix p :: "'a MemPool"
  assume inv: "pool_inv p"
  then obtain fl where "pool_rel p fl" by (auto simp: pool_inv_def)
  then have "mp_in_use p \<le> mp_capacity p" by (simp add: pool_rel_def)
  then show "card (dom (lookup p)) \<le> mp_capacity p" using pool_live_card(2) [OF inv] by simp
qed (auto simp: lookup_store pool_inv_store pool_live_card(1))

section \<open>High-water mark, double free and warm-up\<close>

text \<open>Every state a pool can reach by valid use, with the largest number of objects so far.\<close>

inductive pool_reach :: "bool \<Rightarrow> nat \<Rightarrow> 'a MemPool \<Rightarrow> nat \<Rightarrow> bool" for debug n where
  pool_start: "pool_reach debug n (new_pool debug n) 0"
| pool_alloc: "pool_reach debug n p k \<Longrightarrow> allocate x p = Inr (i, p') \<Longrightarrow>
    pool_reach debug n p' (max k (pool_in_use p'))"
| pool_free: "pool_reach debug n p k \<Longrightarrow> lookup p i \<noteq> None \<Longrightarrow> deallocate i p = Inr p' \<Longrightarrow>
    pool_reach debug n p' k"
| pool_write: "pool_reach debug n p k \<Longrightarrow> lookup p i \<noteq> None \<Longrightarrow> pool_reach debug n (store i x p) k"

lemma pool_reach_inv: "pool_reach debug n p k \<Longrightarrow> pool_inv p \<and> high_water p = k \<and> mp_capacity p = n"
proof (induction rule: pool_reach.induct)
  case pool_start
  then show ?case using new_pool_inv [of debug n] by (simp add: high_water_def new_pool_def)
next
  case (pool_alloc p k x i p')
  then obtain fl where rel: "pool_rel p fl" by (auto simp: pool_inv_def)
  show ?case
  proof (cases "mp_free_head p")
    case (Some j)
    from allocate_reuse [OF rel Some, of x] pool_alloc.hyps(2)
    have p': "pool_rel p' (tl fl)" "mp_next_unused p' = mp_next_unused p" "mp_capacity p' = mp_capacity p"
      by auto
    then have "mp_in_use p' \<le> mp_next_unused p'" by (simp add: pool_rel_def)
    with p' pool_alloc.IH show ?thesis
      by (auto simp: high_water_def pool_in_use_def pool_inv_def max_def)
  next
    case None
    then have "mp_next_unused p < mp_capacity p"
      using pool_alloc.hyps(2) by (auto simp: allocate_def bindE_eq_Inr ASSERT_eq_Inr)
    from allocate_bump [OF rel None this, of x] pool_alloc.hyps(2) pool_alloc.IH show ?thesis
      by (auto simp: high_water_def pool_in_use_def pool_inv_def)
  qed
next
  case (pool_free p k i p')
  then show ?case using deallocate_ok [of p i] by (auto simp: high_water_def)
next
  case (pool_write p k i x)
  then show ?case using pool_inv_store [of p i x] by (auto simp: high_water_def)
qed

text \<open>In every reachable state of a pool, \<open>high_water()\<close> (the bump cursor) is exactly the
  largest number of objects that were ever in use at once, and never exceeds the capacity.\<close>

theorem high_water_is_peak_use:
  assumes "pool_reach debug n p peak"
  shows "high_water p = peak \<and> high_water p \<le> n"
  using pool_reach_inv [OF assms] pool_live_card(4) [of p] by (auto simp: high_water_def)

theorem high_water_is_peak_use_witness:
  "high_water (snd (projr (allocate (7 :: nat) (new_pool True 2)))) = 1"
proof -
  have "pool_reach True 2 (snd (projr (allocate (7 :: nat) (new_pool True 2)))) (max 0 1)"
    using pool_alloc [OF pool_start [of True 2], of 7]
    by (simp add: allocate_def MarkSlot_def new_pool_def pool_in_use_def)
  from high_water_is_peak_use [OF this] show ?thesis by simp
qed

lemma debug_free_live:
  assumes "pool_inv p" and "mp_in_use_flags p = Some flags"
  shows "isl (deallocate i p) \<longleftrightarrow> lookup p i = None"
proof (cases "lookup p i")
  case None
  from assms have "\<not> flags i" using None by (auto simp: pool_inv_def pool_rel_def flags_ok_def)
  then have "isl (MarkSlot i False p)" using assms(2) by (simp add: MarkSlot_def ASSERT_def)
  with None show ?thesis by (cases "MarkSlot i False p") (auto simp: deallocate_def)
next
  case (Some x)
  with deallocate_ok [OF assms(1), of i] show ?thesis by auto
qed

text \<open>The storage lies in the address space: \<open>cap\<close> slots of \<open>block_size\<close> bytes from \<open>storage\<close> on, and no null.\<close>

definition storage_fits :: "u64 \<Rightarrow> u64 \<Rightarrow> nat \<Rightarrow> bool" where
  "storage_fits storage block_size cap \<longleftrightarrow> storage \<noteq> 0 \<and> block_size \<noteq> 0 \<and> unat storage + cap * unat block_size < 2 ^ 64"

lemma product_fits:
  assumes "storage_fits storage block_size cap" and "n \<le> cap"
  shows "unat (of_nat n * block_size) = n * unat block_size" "unat storage + n * unat block_size < 2 ^ 64"
proof -
  have "n * unat block_size \<le> cap * unat block_size" using assms(2) by (rule mult_le_mono1)
  then show sum: "unat storage + n * unat block_size < 2 ^ 64" using assms(1) unfolding storage_fits_def by linarith
  have "of_nat n * block_size = of_nat (n * unat block_size)" by simp
  then have "unat (of_nat n * block_size) = (n * unat block_size) mod 2 ^ 64" by (simp only: unat_of_nat) simp
  then show "unat (of_nat n * block_size) = n * unat block_size" using sum by simp
qed

lemma slot_address_facts:
  assumes fits: "storage_fits storage block_size cap" and i: "i < cap"
  shows "storage \<le> slot_address storage block_size i" "slot_address storage block_size i - storage = of_nat i * block_size"
    "slot_address storage block_size i \<noteq> 0" "(of_nat i * block_size) mod block_size = 0" "unat ((of_nat i * block_size) div block_size) = i"
proof -
  note p = product_fits [OF fits, of i]
  have u: "unat (slot_address storage block_size i) = unat storage + i * unat block_size"
    using p i unat_add_lem [of storage "of_nat i * block_size"] by (simp add: slot_address_def)
  then show "storage \<le> slot_address storage block_size i" by (simp add: word_le_nat_alt)
  show "slot_address storage block_size i - storage = of_nat i * block_size" by (simp add: slot_address_def)
  show "slot_address storage block_size i \<noteq> 0" using u fits by (auto simp: storage_fits_def unat_eq_0 [symmetric] simp del: unat_eq_0)
  have pos: "0 < unat block_size" using fits by (simp add: storage_fits_def unat_gt_0)
  show "(of_nat i * block_size) mod block_size = 0" using p(1) i by (simp add: word_arith_nat_mod)
  show "unat ((of_nat i * block_size) div block_size) = i" using p(1) i pos by (simp add: unat_div)
qed

text \<open>On the address of a slot the operations are those on its index.\<close>

lemma MarkSlot_at_slot:
  assumes fits: "storage_fits storage block_size (mp_capacity p)" and i: "i < mp_capacity p" and used: "mp_next_unused p \<le> mp_capacity p"
  shows "MarkSlot_at storage block_size (slot_address storage block_size i) b p = MarkSlot i b p"
proof (cases "mp_in_use_flags p")
  case None
  then show ?thesis by (simp add: MarkSlot_at_def MarkSlot_def)
next
  case (Some flags)
  note f = slot_address_facts [OF fits i]
  have "storage \<noteq> 0" "0 < unat block_size" using fits by (simp_all add: storage_fits_def unat_gt_0)
  moreover from this have "of_nat i * block_size < of_nat (mp_next_unused p) * block_size \<longleftrightarrow> i < mp_next_unused p"
    using product_fits(1) [OF fits, of i] product_fits(1) [OF fits used] i by (simp add: word_less_nat_alt)
  ultimately show ?thesis using Some f by (simp add: MarkSlot_at_def MarkSlot_def Let_def)
qed

lemma MarkSlot_capacity: "MarkSlot i b p = Inr p' \<Longrightarrow> mp_capacity p' = mp_capacity p"
  by (auto simp: MarkSlot_def bindE_eq_Inr split: option.splits)

lemma deallocate_at_slot:
  assumes fits: "storage_fits storage block_size (mp_capacity p)" and i: "i < mp_capacity p" and used: "mp_next_unused p \<le> mp_capacity p"
  shows "deallocate_at storage block_size (slot_address storage block_size i) p = deallocate i p"
proof (cases "MarkSlot i False p")
  case (Inr p1)
  note f = slot_address_facts [OF fits i]
  show ?thesis using Inr f i MarkSlot_capacity [OF Inr] MarkSlot_at_slot [OF assms]
    by (simp add: deallocate_at_def deallocate_def Let_def leD)
qed (simp add: deallocate_at_def deallocate_def MarkSlot_at_slot [OF assms])

text \<open>A pointer the checks let through is the address of a slot that was handed out.\<close>

lemma checked_pointer:
  assumes run: "MarkSlot_at storage block_size block b p = Inr p'" and debug: "mp_in_use_flags p = Some flags"
    and fits: "storage_fits storage block_size (mp_capacity p)" and used: "mp_next_unused p \<le> mp_capacity p"
  shows "\<exists>i < mp_next_unused p. block = slot_address storage block_size i"
proof -
  let ?o = "block - storage" and ?i = "unat ((block - storage) div block_size)"
  have c: "?o < of_nat (mp_next_unused p) * block_size" "?o mod block_size = 0"
    using run debug by (auto simp: MarkSlot_at_def Let_def bindE_eq_Inr ASSERT_eq_Inr)
  have "unat ?o < mp_next_unused p * unat block_size" using c(1) product_fits(1) [OF fits used] by (simp add: word_less_nat_alt)
  then have "?i < mp_next_unused p" by (simp add: unat_div less_mult_imp_div_less)
  moreover have "?o = of_nat ?i * block_size" using c(2) div_mult_mod_eq [of ?o block_size] by simp
  then have "block = slot_address storage block_size ?i" by (simp add: slot_address_def algebra_simps)
  ultimately show ?thesis by blast
qed

text \<open>C28: In a debug build \<open>deallocate\<close> accepts exactly the pointers to live objects of the pool: such a
  pointer gives its slot back, and every other address, be it null, before or behind the storage handed
  out, inside a slot or a slot that is free already, stops at an assertion. (The storage is not null, as
  for every capacity but 0, and lies within the address space.)\<close>

theorem debug_free_accepts_exactly_live:
  assumes "pool_inv p" and "mp_in_use_flags p = Some flags" and "storage_fits storage block_size (mp_capacity p)"
  shows "case deallocate_at storage block_size elem p of
      Inr p' \<Rightarrow> \<exists>i. elem = slot_address storage block_size i \<and> lookup p i \<noteq> None \<and> deallocate i p = Inr p' \<and> lookup p' = (lookup p)(i := None)
    | Inl e \<Rightarrow> (\<exists>msg. e = Assert_Fail msg) \<and> (\<forall>i. elem = slot_address storage block_size i \<longrightarrow> lookup p i = None)"
proof (cases "\<exists>i < mp_next_unused p. elem = slot_address storage block_size i")
  case True
  then obtain i where i: "i < mp_next_unused p" "elem = slot_address storage block_size i" by blast
  note live = pool_live_card(3,4) [OF assms(1)]
  have run: "deallocate_at storage block_size elem p = deallocate i p"
    unfolding i(2) by (rule deallocate_at_slot [OF assms(3)]) (use i(1) live(2) in simp_all)
  show ?thesis
  proof (cases "lookup p i = None")
    case True
    have "\<not> flags i" using assms(1,2) True by (auto simp: pool_inv_def pool_rel_def flags_ok_def)
    then have "deallocate i p = Inl (Assert_Fail ''Double free at index: '')"
      using assms(2) i(1) by (simp add: deallocate_def MarkSlot_def ASSERT_def)
    moreover have "lookup p j = None" if j: "elem = slot_address storage block_size j" for j
    proof (rule ccontr)
      assume "lookup p j \<noteq> None"
      then have "j < mp_capacity p" using live by auto
      then have "j = i" using slot_address_facts(2,5) [OF assms(3), of i] slot_address_facts(2,5) [OF assms(3), of j] i live(2) j
        by (metis less_le_trans)
      then show False using True \<open>lookup p j \<noteq> None\<close> by simp
    qed
    ultimately show ?thesis by (simp add: run)
  next
    case False
    obtain p' where "deallocate i p = Inr p'" "lookup p' = (lookup p)(i := None)" using deallocate_ok [OF assms(1) False] by blast
    then have "\<exists>j. elem = slot_address storage block_size j \<and> lookup p j \<noteq> None \<and> deallocate j p = deallocate i p \<and> lookup p' = (lookup p)(j := None)"
      using False i(2) by blast
    then show ?thesis by (simp add: run \<open>deallocate i p = Inr p'\<close>)
  qed
next
  case False
  have used: "mp_next_unused p \<le> mp_capacity p" and live: "dom (lookup p) \<subseteq> {..<mp_next_unused p}"
    using pool_live_card(3,4) [OF assms(1)] by simp_all
  have dead: "lookup p i = None" if "elem = slot_address storage block_size i" for i using False that live by blast
  have "\<not> (\<exists>p1. MarkSlot_at storage block_size elem False p = Inr p1)" using checked_pointer [OF _ assms(2,3) used] False by blast
  then have "\<exists>msg. MarkSlot_at storage block_size elem False p = Inl (Assert_Fail msg)"
    using assms(2) by (simp add: MarkSlot_at_def Let_def ASSERT_def split: if_splits)
  then show ?thesis using dead by (auto simp: deallocate_at_def)
qed

text \<open>A pool of two 16-byte slots at address 4096 with one object in it: its pointer is accepted; null,
  a pointer into the object, the other slot, an address before the storage and, once freed, the same
  pointer again are not.\<close>

definition one_object :: "nat MemPool" where
  "one_object = snd (projr (allocate 7 (new_pool True 2)))"

lemma one_object_facts:
  "pool_inv one_object" "mp_in_use_flags one_object = Some (\<lambda>i. i = 0)" "mp_capacity one_object = 2"
  "lookup one_object i = (if i = 0 then Some 7 else None)"
proof -
  have "allocate 7 (new_pool True 2 :: nat MemPool) = Inr (0, one_object)"
    by (simp add: one_object_def allocate_def MarkSlot_def new_pool_def)
  from mem_pool.alloc_Inr [OF new_pool_inv this] show "pool_inv one_object" by blast
  show "mp_in_use_flags one_object = Some (\<lambda>i. i = 0)" "mp_capacity one_object = 2"
    "lookup one_object i = (if i = 0 then Some 7 else None)"
    by (auto simp: one_object_def allocate_def MarkSlot_def new_pool_def lookup_def fun_eq_iff)
qed

theorem debug_free_accepts_exactly_live_witness:
  "(\<exists>p'. deallocate_at 4096 16 4096 one_object = Inr p' \<and> lookup p' 0 = None) \<and>
   isl (deallocate_at 4096 16 0 one_object) \<and> isl (deallocate_at 4096 16 4088 one_object) \<and>
   isl (deallocate_at 4096 16 4100 one_object) \<and> isl (deallocate_at 4096 16 4112 one_object)"
proof -
  have fits: "storage_fits 4096 16 (mp_capacity one_object)" by (simp add: storage_fits_def one_object_facts(3))
  note exact = debug_free_accepts_exactly_live [OF one_object_facts(1,2) fits]
  have a: "slot_address 4096 16 0 = 4096" by (simp add: slot_address_def)
  have "\<exists>p'. deallocate_at 4096 16 4096 one_object = Inr p' \<and> lookup p' 0 = None"
  proof (cases "deallocate_at 4096 16 4096 one_object")
    case (Inl e)
    then show ?thesis using exact [of 4096] a one_object_facts(4) [of 0] by auto
  next
    case (Inr p')
    then show ?thesis using exact [of 4096] one_object_facts(4) by (auto split: if_splits)
  qed
  moreover have "isl (deallocate_at 4096 16 elem one_object)" if "elem \<in> {0, 4088, 4100, 4112}" for elem
  proof (cases "deallocate_at 4096 16 elem one_object")
    case (Inr p')
    then obtain i where "elem = slot_address 4096 16 i" "lookup one_object i \<noteq> None" using exact [of elem] by auto
    then have "elem = 4096" using a one_object_facts(4) [of i] by (auto split: if_splits)
    then show ?thesis using that by auto
  qed simp
  ultimately show ?thesis by blast
qed

text \<open>In a release build the same double free goes through and links the slot to itself.\<close>

lemma release_double_free_self_link:
  assumes "mp_in_use_flags p = None" and "mp_free_head p = Some i" and "i < mp_capacity p"
  shows "\<exists>p'. deallocate i p = Inr p' \<and> mp_free_head p' = Some i \<and>
    mp_storage p' i = NextFree (Some i)"
  using assms by (simp add: deallocate_def MarkSlot_def)

lemma touch_from_bounds: "t \<in> set (touch_from b e) \<Longrightarrow> b \<le> t \<and> t < e"
proof (induction b e rule: touch_from.induct)
  case (1 b e)
  then show ?case by (subst (asm) (2) touch_from.simps) (auto split: if_splits)
qed

lemma touch_from_steps: "b + k * kPageStride < e \<Longrightarrow> b + k * kPageStride \<in> set (touch_from b e)"
proof (induction k arbitrary: b)
  case 0
  then show ?case by (subst touch_from.simps) simp
next
  case (Suc k)
  have "b + Suc k * kPageStride \<in> set (touch_from (b + kPageStride) e)"
    using Suc.IH [of "b + kPageStride"] Suc.prems by (simp add: algebra_simps)
  moreover have "b < e" using Suc.prems by simp
  ultimately show ?case by (subst touch_from.simps) simp
qed

lemma page_succ:
  assumes "u \<le> v" and "v < u + kPageStride" and "u div kPageStride \<noteq> v div kPageStride"
  shows "v div kPageStride = u div kPageStride + 1"
proof -
  have "u div kPageStride \<le> v div kPageStride" using assms(1) by (rule div_le_mono)
  moreover have "v div kPageStride \<le> (u + kPageStride) div kPageStride"
    using assms(2) by (intro div_le_mono) simp
  moreover have "(u + kPageStride) div kPageStride = u div kPageStride + 1"
    by (simp add: kPageStride_def)
  ultimately show ?thesis using assms(3) by linarith
qed

lemma page_between:
  assumes "v \<le> w" and "w < u + kPageStride" and "v div kPageStride = u div kPageStride + 1"
  shows "w div kPageStride = v div kPageStride"
proof -
  have "v div kPageStride \<le> w div kPageStride" using assms(1) by (rule div_le_mono)
  moreover have "w div kPageStride \<le> (u + kPageStride) div kPageStride"
    using assms(2) by (intro div_le_mono) simp
  moreover have "(u + kPageStride) div kPageStride = u div kPageStride + 1"
    by (simp add: kPageStride_def)
  ultimately show ?thesis using assms(3) by linarith
qed

text \<open>Every page that overlaps \<open>[b, e)\<close> holds a touched byte, wherever the storage starts.\<close>

lemma touch_covers_pages:
  assumes "b \<le> x" and "x < e"
  shows "\<exists>t \<in> set (touch_from b e @ [e - 1]). (base + t) div kPageStride = (base + x) div kPageStride"
proof -
  define k where "k = (x - b) div kPageStride"
  let ?s = "b + k * kPageStride"
  have P: "kPageStride = 4096" by (simp add: kPageStride_def)
  have lo: "?s \<le> x" and hi: "x < ?s + kPageStride"
    using assms(1) div_mult_mod_eq [of "x - b" kPageStride] mod_less_divisor [of kPageStride "x - b"]
    by (auto simp: k_def P)
  have s: "?s \<in> set (touch_from b e)" using lo assms(2) by (intro touch_from_steps) simp
  show ?thesis
  proof (cases "(base + ?s) div kPageStride = (base + x) div kPageStride")
    case True
    with s show ?thesis by (intro bexI [of _ ?s]) simp_all
  next
    case False
    have next_page: "(base + x) div kPageStride = (base + ?s) div kPageStride + 1"
      using page_succ [of "base + ?s" "base + x"] False lo hi by simp
    show ?thesis
    proof (cases "?s + kPageStride < e")
      case True
      then have "b + Suc k * kPageStride \<in> set (touch_from b e)"
        by (intro touch_from_steps) (simp add: algebra_simps)
      moreover have "(base + (b + Suc k * kPageStride)) div kPageStride = (base + x) div kPageStride"
        using next_page unfolding P by simp
      ultimately show ?thesis by (intro bexI [of _ "b + Suc k * kPageStride"]) simp_all
    next
      case end_near: False
      have "(base + (e - 1)) div kPageStride = (base + x) div kPageStride"
        using page_between [of "base + x" "base + (e - 1)" "base + ?s"] next_page end_near assms(2) by simp
      then show ?thesis by (intro bexI [of _ "e - 1"]) simp_all
    qed
  qed
qed

text \<open>\<open>Warmup\<close> writes only inside slots that were never handed out, and touches every
  page of that region at least once, whatever the alignment of the storage.\<close>

theorem Warmup_touches_every_unused_page:
  assumes "0 < block_size" and "mp_next_unused p < min n (mp_capacity p)"
    and "mp_next_unused p * block_size \<le> x" and "x < min n (mp_capacity p) * block_size"
  shows "(\<forall>t \<in> set (Warmup block_size n p). mp_next_unused p \<le> t div block_size \<and>
      t div block_size < mp_capacity p) \<and>
    (\<exists>t \<in> set (Warmup block_size n p). (base + t) div kPageStride = (base + x) div kPageStride)"
proof
  let ?b = "mp_next_unused p * block_size" and ?e = "min n (mp_capacity p) * block_size"
  have W: "Warmup block_size n p = touch_from ?b ?e @ [?e - 1]"
    using assms(2) by (auto simp: Warmup_def Let_def)
  have range: "?b \<le> t \<and> t < ?e" if "t \<in> set (Warmup block_size n p)" for t
    using that assms(3,4) touch_from_bounds [of t ?b ?e] unfolding W by auto
  show "\<forall>t \<in> set (Warmup block_size n p). mp_next_unused p \<le> t div block_size \<and>
      t div block_size < mp_capacity p"
  proof
    fix t assume "t \<in> set (Warmup block_size n p)"
    then have t: "?b \<le> t" "t < ?e" using range by auto
    have "mp_next_unused p \<le> t div block_size"
      using t(1) assms(1) by (simp add: less_eq_div_iff_mult_less_eq)
    moreover have "t div block_size < min n (mp_capacity p)"
      by (rule less_mult_imp_div_less [OF t(2)])
    ultimately show "mp_next_unused p \<le> t div block_size \<and> t div block_size < mp_capacity p"
      by simp
  qed
  show "\<exists>t \<in> set (Warmup block_size n p). (base + t) div kPageStride = (base + x) div kPageStride"
    unfolding W using touch_covers_pages [OF assms(3,4)] .
qed

theorem Warmup_touches_every_unused_page_witness:
  "\<exists>t \<in> set (Warmup 64 100 (new_pool False 100 :: nat MemPool)). (16 + t) div kPageStride = (16 + 5000) div kPageStride"
  using Warmup_touches_every_unused_page [of 64 "new_pool False 100 :: nat MemPool" 100 5000 16]
  by (simp add: new_pool_def)

end
