(* ===== verification/Occupancy.thy ===== *)
theory Occupancy
  imports Types
begin

text \<open>
  The occupancy bitmap of \<open>exchange/matcher/price_levels\<close>: one bit per tick in 256 words and one
  summary bit per word. \<open>MarkOccupied\<close>, \<open>ClearOccupied\<close> and \<open>FindBestTick\<close> of \<open>PriceLevels\<close>
  work on it; here they are shown to keep it equal to a set of ticks and to find the largest
  (buy side) or the smallest (sell side) of them.
\<close>

section \<open>Geometry\<close>

definition kTickCount :: nat where "kTickCount = kMaxPriceLevels"
definition kInvalidTick :: int where "kInvalidTick = -1"
definition kBitsPerWord :: nat where "kBitsPerWord = 64"
definition kOccupancyWords :: nat where "kOccupancyWords = kTickCount div kBitsPerWord"
definition kSummaryWords :: nat where
  "kSummaryWords = (kOccupancyWords + kBitsPerWord - 1) div kBitsPerWord"

lemma geometry [simp]:
  "kTickCount = 16384" "kBitsPerWord = 64" "kOccupancyWords = 256" "kSummaryWords = 4"
  by (simp_all add: kTickCount_def kBitsPerWord_def kOccupancyWords_def kSummaryWords_def
      kMaxPriceLevels_def)

section \<open>The bitmap and its operations\<close>

record bitmap =
  bm_summary :: "nat \<Rightarrow> u64"
  bm_occupancy :: "nat \<Rightarrow> u64"

definition empty_bitmap :: bitmap where
  "empty_bitmap = \<lparr>bm_summary = (\<lambda>_. 0), bm_occupancy = (\<lambda>_. 0)\<rparr>"

definition MarkOccupied :: "nat \<Rightarrow> bitmap \<Rightarrow> bitmap" where
  "MarkOccupied tick m =
     (let w = tick div kBitsPerWord in
      m\<lparr>bm_occupancy := (bm_occupancy m)
           (w := bm_occupancy m w OR push_bit (tick mod kBitsPerWord) 1),
        bm_summary := (bm_summary m)
           (w div kBitsPerWord := bm_summary m (w div kBitsPerWord) OR push_bit (w mod kBitsPerWord) 1)\<rparr>)"

definition ClearOccupied :: "nat \<Rightarrow> bitmap \<Rightarrow> bitmap" where
  "ClearOccupied tick m =
     (let w = tick div kBitsPerWord;
          occ = bm_occupancy m w AND NOT (push_bit (tick mod kBitsPerWord) 1);
          m' = m\<lparr>bm_occupancy := (bm_occupancy m)(w := occ)\<rparr>
      in if occ = 0 then
           m'\<lparr>bm_summary := (bm_summary m)
                (w div kBitsPerWord :=
                   bm_summary m (w div kBitsPerWord) AND NOT (push_bit (w mod kBitsPerWord) 1))\<rparr>
         else m')"

text \<open>\<open>std::countr_zero\<close> and \<open>std::countl_zero\<close> on 64 bits; both are 64 for 0.\<close>

definition countr_zero :: "u64 \<Rightarrow> nat" where
  "countr_zero w = length (takeWhile (\<lambda>i. \<not> bit w i) [0..<64])"

definition countl_zero :: "u64 \<Rightarrow> nat" where
  "countl_zero w = length (takeWhile (\<lambda>i. \<not> bit w i) (rev [0..<64]))"

text \<open>The loop of \<open>FindBestTick\<close> on the buy side, over the first \<open>n\<close> summary words from above.\<close>

fun find_highest :: "bitmap \<Rightarrow> nat \<Rightarrow> int" where
  "find_highest m 0 = kInvalidTick"
| "find_highest m (Suc n) =
     (let summary = bm_summary m n in
      if summary = 0 then find_highest m n
      else
        let w = n * kBitsPerWord + (kBitsPerWord - 1 - countl_zero summary);
            b = kBitsPerWord - 1 - countl_zero (bm_occupancy m w)
        in int (w * kBitsPerWord + b))"

text \<open>The loop on the sell side, from summary word \<open>n\<close> up, with \<open>left\<close> words to go.\<close>

fun find_lowest :: "bitmap \<Rightarrow> nat \<Rightarrow> nat \<Rightarrow> int" where
  "find_lowest m n 0 = kInvalidTick"
| "find_lowest m n (Suc left) =
     (let summary = bm_summary m n in
      if summary = 0 then find_lowest m (Suc n) left
      else
        let w = n * kBitsPerWord + countr_zero summary;
            b = countr_zero (bm_occupancy m w)
        in int (w * kBitsPerWord + b))"

definition FindBestTick :: "Side \<Rightarrow> bitmap \<Rightarrow> int" where
  "FindBestTick side m =
     (if side = BUY then find_highest m kSummaryWords else find_lowest m 0 kSummaryWords)"

section \<open>The set a bitmap stands for\<close>

definition bitmap_rel :: "bitmap \<Rightarrow> nat set \<Rightarrow> bool" where
  "bitmap_rel m S \<longleftrightarrow>
     S \<subseteq> {..<kTickCount} \<and>
     (\<forall>t < kTickCount. bit (bm_occupancy m (t div 64)) (t mod 64) \<longleftrightarrow> t \<in> S) \<and>
     (\<forall>w < kOccupancyWords. bit (bm_summary m (w div 64)) (w mod 64) \<longleftrightarrow> bm_occupancy m w \<noteq> 0)"

text \<open>The best tick of a set: none, the largest for a buyer, the smallest otherwise.\<close>

definition best_of :: "Side \<Rightarrow> nat set \<Rightarrow> int" where
  "best_of side S =
     (if S = {} then kInvalidTick else if side = BUY then int (Max S) else int (Min S))"

lemma empty_bitmap_rel: "bitmap_rel empty_bitmap {}"
  by (simp add: bitmap_rel_def empty_bitmap_def)

lemma bit_push_one [simp]: "bit (2 ^ n :: u64) i \<longleftrightarrow> i = n \<and> n < 64"
  by (auto simp: bit_exp_iff possible_bit_word)

lemma word_nonzero_iff: "(w :: u64) \<noteq> 0 \<longleftrightarrow> (\<exists>i < 64. bit w i)"
proof
  assume "w \<noteq> 0"
  then obtain i where "bit w i" by (metis bit_0_eq bot_apply bit_eqI bot_bool_def)
  then show "\<exists>i < 64. bit w i" using bit_imp_le_length [of w i] by auto
qed auto

lemma tick_split_eq: "(t :: nat) = s \<longleftrightarrow> t div 64 = s div 64 \<and> t mod 64 = s mod 64"
  by (metis div_mult_mod_eq)

lemma tick_word_bound: "(t :: nat) div 4096 \<le> n \<Longrightarrow> t div 64 \<le> n * 64 + 63"
proof -
  define u where "u = t div 64"
  assume "t div 4096 \<le> n"
  then have "u div 64 \<le> n" by (simp add: u_def div_mult2_eq [symmetric])
  then show ?thesis unfolding u_def [symmetric] by linarith
qed

lemma tick_word_bound_below: "n \<le> (t :: nat) div 4096 \<Longrightarrow> n * 64 \<le> t div 64"
proof -
  define u where "u = t div 64"
  assume "n \<le> t div 4096"
  then have "n \<le> u div 64" by (simp add: u_def div_mult2_eq [symmetric])
  then show ?thesis unfolding u_def [symmetric] by linarith
qed

lemma tick_word_less: "(s :: nat) < t \<Longrightarrow> s div 64 \<le> t div 64"
  by (simp add: div_le_mono)

lemma countr_zero_spec:
  assumes "w \<noteq> 0"
  shows "countr_zero w < 64" "bit w (countr_zero w)" "\<And>i. i < countr_zero w \<Longrightarrow> \<not> bit w i"
proof -
  let ?P = "\<lambda>i. \<not> bit w i"
  from assms obtain i where i: "i < 64" "bit w i" by (auto simp: word_nonzero_iff)
  then have "length (takeWhile ?P [0..<64]) < length [0..<64::nat]"
    by (intro takeWhile_shorter [of i]) auto
  then show lt: "countr_zero w < 64" by (simp add: countr_zero_def)
  then have "\<not> ?P ([0..<64] ! countr_zero w)"
    unfolding countr_zero_def by (intro nth_length_takeWhile) simp
  with lt show "bit w (countr_zero w)" by simp
  fix j assume j: "j < countr_zero w"
  then have "[0..<64] ! j \<in> set (takeWhile ?P [0..<64])"
    unfolding countr_zero_def by (metis nth_mem takeWhile_nth)
  then have "?P ([0..<64] ! j)" by (rule set_takeWhileD [THEN conjunct2])
  with j lt show "\<not> bit w j" by simp
qed

lemma countl_zero_spec:
  assumes "w \<noteq> 0"
  shows "countl_zero w < 64" "bit w (63 - countl_zero w)"
    "\<And>i. 63 - countl_zero w < i \<Longrightarrow> \<not> bit w i"
proof -
  let ?P = "\<lambda>i. \<not> bit w i" and ?xs = "rev [0..<64::nat]"
  have nth: "?xs ! j = 63 - j" if "j < 64" for j using that by (simp add: rev_nth)
  from assms obtain i where i: "i < 64" "bit w i" by (auto simp: word_nonzero_iff)
  then have "length (takeWhile ?P ?xs) < length ?xs"
    by (intro takeWhile_shorter [of i]) auto
  then show lt: "countl_zero w < 64" by (simp add: countl_zero_def)
  then have "\<not> ?P (?xs ! countl_zero w)"
    unfolding countl_zero_def by (intro nth_length_takeWhile) simp
  with lt show "bit w (63 - countl_zero w)" by (simp add: nth)
  fix j assume j: "63 - countl_zero w < j"
  show "\<not> bit w j"
  proof (cases "j < 64")
    case True
    then have "63 - j < countl_zero w" using j lt by linarith
    then have "?xs ! (63 - j) \<in> set (takeWhile ?P ?xs)"
      unfolding countl_zero_def by (metis nth_mem takeWhile_nth)
    then have "?P (?xs ! (63 - j))" by (rule set_takeWhileD [THEN conjunct2])
    with True show ?thesis by (simp add: nth)
  next
    case False
    then show ?thesis using bit_imp_le_length [of w j] by auto
  qed
qed

lemma bitmap_relD:
  assumes "bitmap_rel m S"
  shows "S \<subseteq> {..<16384}" "t < 16384 \<Longrightarrow> bit (bm_occupancy m (t div 64)) (t mod 64) \<longleftrightarrow> t \<in> S"
    "w < 256 \<Longrightarrow> bit (bm_summary m (w div 64)) (w mod 64) \<longleftrightarrow> bm_occupancy m w \<noteq> 0"
  using assms by (simp_all add: bitmap_rel_def)

lemma MarkOccupied_rel:
  assumes rel: "bitmap_rel m S" and t: "t < kTickCount"
  shows "bitmap_rel (MarkOccupied t m) (insert t S)"
proof -
  have occ: "bit (bm_occupancy (MarkOccupied t m) (s div 64)) (s mod 64) \<longleftrightarrow> s \<in> insert t S"
    if "s < 16384" for s
    using bitmap_relD(2) [OF rel that] tick_split_eq [of s t]
    by (auto simp: MarkOccupied_def Let_def bit_or_iff)
  have summ: "bit (bm_summary (MarkOccupied t m) (w div 64)) (w mod 64) \<longleftrightarrow>
      bm_occupancy (MarkOccupied t m) w \<noteq> 0" if "w < 256" for w
  proof (cases "w = t div 64")
    case True
    have "bit (bm_occupancy (MarkOccupied t m) w) (t mod 64)"
      using True by (simp add: MarkOccupied_def Let_def bit_or_iff)
    then have "bm_occupancy (MarkOccupied t m) w \<noteq> 0" by auto
    with True show ?thesis by (simp add: MarkOccupied_def Let_def bit_or_iff)
  next
    case False
    then show ?thesis
      using bitmap_relD(3) [OF rel that] tick_split_eq [of w "t div 64"]
      by (auto simp: MarkOccupied_def Let_def bit_or_iff)
  qed
  show ?thesis using occ summ bitmap_relD(1) [OF rel] t by (simp add: bitmap_rel_def)
qed

lemma ClearOccupied_rel:
  assumes rel: "bitmap_rel m S" and t: "t < kTickCount"
  shows "bitmap_rel (ClearOccupied t m) (S - {t})"
proof -
  have new_occ: "bm_occupancy (ClearOccupied t m) =
      (bm_occupancy m)(t div 64 := bm_occupancy m (t div 64) AND NOT (2 ^ (t mod 64)))"
    by (simp add: ClearOccupied_def Let_def)
  have occ: "bit (bm_occupancy (ClearOccupied t m) (s div 64)) (s mod 64) \<longleftrightarrow> s \<in> S - {t}"
    if "s < 16384" for s
    using bitmap_relD(2) [OF rel that] tick_split_eq [of s t] unfolding new_occ
    by (auto simp: bit_and_iff bit_not_iff)
  have summ: "bit (bm_summary (ClearOccupied t m) (w div 64)) (w mod 64) \<longleftrightarrow>
      bm_occupancy (ClearOccupied t m) w \<noteq> 0" if "w < 256" for w
  proof (cases "w = t div 64")
    case True
    let ?occ = "bm_occupancy m w AND NOT (2 ^ (t mod 64))"
    have new: "bm_occupancy (ClearOccupied t m) w = ?occ"
      using True by (simp add: ClearOccupied_def Let_def)
    show ?thesis
    proof (cases "?occ = 0")
      case zero: True
      then show ?thesis unfolding new using True
        by (simp add: ClearOccupied_def Let_def bit_and_iff bit_not_iff)
    next
      case False
      then have "bm_occupancy m w \<noteq> 0" by auto
      with False bitmap_relD(3) [OF rel that] show ?thesis unfolding new using True
        by (simp add: ClearOccupied_def Let_def)
    qed
  next
    case False
    then show ?thesis
      using bitmap_relD(3) [OF rel that] tick_split_eq [of w "t div 64"]
      by (auto simp: ClearOccupied_def Let_def bit_and_iff bit_not_iff)
  qed
  show ?thesis using occ summ bitmap_relD(1) [OF rel] by (auto simp: bitmap_rel_def)
qed

text \<open>The word of a non-zero summary bit holds a member; a zero summary word covers none.\<close>

lemma summary_zero_none:
  assumes rel: "bitmap_rel m S" and "n < 4" and z: "bm_summary m n = 0" and t: "t \<in> S"
  shows "t div 4096 \<noteq> n"
proof
  assume n: "t div 4096 = n"
  have "t < 16384" using bitmap_relD(1) [OF rel] t by auto
  then have "bit (bm_occupancy m (t div 64)) (t mod 64)" using bitmap_relD(2) [OF rel] t by simp
  then have "bm_occupancy m (t div 64) \<noteq> 0" by auto
  moreover have "t div 64 < 256" using \<open>t < 16384\<close> by simp
  ultimately have "bit (bm_summary m (t div 64 div 64)) (t div 64 mod 64)"
    using bitmap_relD(3) [OF rel] by simp
  moreover have "t div 64 div 64 = n" using n by (simp add: div_mult2_eq [symmetric])
  ultimately show False using z by simp
qed

lemma summary_bit_word:
  assumes rel: "bitmap_rel m S" and "n < 4" and "c < 64"
  shows "bit (bm_summary m n) c \<longleftrightarrow> bm_occupancy m (n * 64 + c) \<noteq> 0"
  using bitmap_relD(3) [OF rel, of "n * 64 + c"] assms(2,3) by simp

lemma occupancy_bit:
  assumes rel: "bitmap_rel m S" and "w < 256" and "b < 64"
  shows "bit (bm_occupancy m w) b \<longleftrightarrow> w * 64 + b \<in> S"
  using bitmap_relD(2) [OF rel, of "w * 64 + b"] assms(2,3) by simp

lemma find_highest_spec:
  assumes rel: "bitmap_rel m S" and "n \<le> 4" and "\<forall>t \<in> S. t div 4096 < n"
  shows "find_highest m n = best_of BUY S"
  using assms(2,3)
proof (induction n)
  case 0
  then have "S = {}" by auto
  then show ?case by (simp add: best_of_def)
next
  case (Suc n)
  show ?case
  proof (cases "bm_summary m n = 0")
    case True
    have "\<forall>t \<in> S. t div 4096 < n"
      using summary_zero_none [OF rel _ True] Suc.prems by (fastforce simp: less_Suc_eq)
    with Suc.IH Suc.prems True show ?thesis by simp
  next
    case False
    define c where "c = 63 - countl_zero (bm_summary m n)"
    define w where "w = n * 64 + c"
    define b where "b = 63 - countl_zero (bm_occupancy m w)"
    have n4: "n < 4" using Suc.prems by simp
    have c: "c < 64" "bit (bm_summary m n) c" "\<And>i. c < i \<Longrightarrow> \<not> bit (bm_summary m n) i"
      using countl_zero_spec [OF False] by (auto simp: c_def)
    have w: "w < 256" "bm_occupancy m w \<noteq> 0"
      using n4 c summary_bit_word [OF rel n4] by (auto simp: w_def)
    have b: "b < 64" "bit (bm_occupancy m w) b" "\<And>i. b < i \<Longrightarrow> \<not> bit (bm_occupancy m w) i"
      using countl_zero_spec [OF w(2)] by (auto simp: b_def)
    have mem: "w * 64 + b \<in> S" using occupancy_bit [OF rel w(1) b(1)] b(2) by simp
    have max: "t \<le> w * 64 + b" if t: "t \<in> S" for t
    proof (rule ccontr)
      assume "\<not> t \<le> w * 64 + b"
      then have gt: "w * 64 + b < t" by simp
      have tl: "t < 16384" using bitmap_relD(1) [OF rel] t by auto
      have bt: "bit (bm_occupancy m (t div 64)) (t mod 64)" using bitmap_relD(2) [OF rel tl] t by simp
      have "t div 4096 \<le> n" using Suc.prems(2) t by auto
      then have "t div 64 \<le> n * 64 + 63" by (intro tick_word_bound) simp
      show False
      proof (cases "t div 64 = w")
        case True
        then have "b < t mod 64" using gt div_mult_mod_eq [of t 64] by linarith
        with b(3) bt True show False by simp
      next
        case False
        then have "w < t div 64" using tick_word_less [OF gt] b(1) by simp
        then have "c < t div 64 - n * 64" "t div 64 - n * 64 < 64" "t div 64 = n * 64 + (t div 64 - n * 64)"
          using \<open>t div 64 \<le> n * 64 + 63\<close> by (auto simp: w_def)
        moreover have "bm_occupancy m (t div 64) \<noteq> 0" using bt by auto
        ultimately have "bit (bm_summary m n) (t div 64 - n * 64)"
          using summary_bit_word [OF rel n4] by metis
        with c(3) \<open>c < t div 64 - n * 64\<close> show False by blast
      qed
    qed
    have fin: "finite S" using bitmap_relD(1) [OF rel] finite_subset by blast
    have "Max S = w * 64 + b" using fin mem max by (intro Max_eqI) auto
    moreover have "S \<noteq> {}" using mem by auto
    moreover have "find_highest m (Suc n) = int (w * 64 + b)"
      using False by (simp add: Let_def w_def b_def c_def)
    ultimately show ?thesis by (simp add: best_of_def)
  qed
qed

lemma find_lowest_spec:
  assumes rel: "bitmap_rel m S" and "n + left = 4" and "\<forall>t \<in> S. n \<le> t div 4096"
  shows "find_lowest m n left = best_of SELL S"
  using assms(2,3)
proof (induction left arbitrary: n)
  case 0
  then have "S = {}" using bitmap_relD(1) [OF rel] by fastforce
  then show ?case by (simp add: best_of_def)
next
  case (Suc left)
  have n4: "n < 4" using Suc.prems by simp
  show ?case
  proof (cases "bm_summary m n = 0")
    case True
    have "\<forall>t \<in> S. Suc n \<le> t div 4096"
      using summary_zero_none [OF rel n4 True] Suc.prems(2) by (fastforce simp: Suc_le_eq le_neq_implies_less)
    with Suc.IH [of "Suc n"] Suc.prems True show ?thesis by simp
  next
    case False
    define c where "c = countr_zero (bm_summary m n)"
    define w where "w = n * 64 + c"
    define b where "b = countr_zero (bm_occupancy m w)"
    have c: "c < 64" "bit (bm_summary m n) c" "\<And>i. i < c \<Longrightarrow> \<not> bit (bm_summary m n) i"
      using countr_zero_spec [OF False] by (auto simp: c_def)
    have w: "w < 256" "bm_occupancy m w \<noteq> 0"
      using n4 c summary_bit_word [OF rel n4] by (auto simp: w_def)
    have b: "b < 64" "bit (bm_occupancy m w) b" "\<And>i. i < b \<Longrightarrow> \<not> bit (bm_occupancy m w) i"
      using countr_zero_spec [OF w(2)] by (auto simp: b_def)
    have mem: "w * 64 + b \<in> S" using occupancy_bit [OF rel w(1) b(1)] b(2) by simp
    have min: "w * 64 + b \<le> t" if t: "t \<in> S" for t
    proof (rule ccontr)
      assume "\<not> w * 64 + b \<le> t"
      then have lt: "t < w * 64 + b" by simp
      have tl: "t < 16384" using bitmap_relD(1) [OF rel] t by auto
      have bt: "bit (bm_occupancy m (t div 64)) (t mod 64)" using bitmap_relD(2) [OF rel tl] t by simp
      have lo: "n * 64 \<le> t div 64" using Suc.prems(2) t by (intro tick_word_bound_below) auto
      show False
      proof (cases "t div 64 = w")
        case True
        then have "t mod 64 < b" using lt div_mult_mod_eq [of t 64] by linarith
        with b(3) bt True show False by simp
      next
        case False
        then have "t div 64 < w" using tick_word_less [OF lt] b(1) by simp
        then have "t div 64 - n * 64 < c" "t div 64 - n * 64 < 64" "t div 64 = n * 64 + (t div 64 - n * 64)"
          using lo c(1) by (auto simp: w_def)
        moreover have "bm_occupancy m (t div 64) \<noteq> 0" using bt by auto
        ultimately have "bit (bm_summary m n) (t div 64 - n * 64)"
          using summary_bit_word [OF rel n4] by metis
        with c(3) \<open>t div 64 - n * 64 < c\<close> show False by blast
      qed
    qed
    have fin: "finite S" using bitmap_relD(1) [OF rel] finite_subset by blast
    have "Min S = w * 64 + b" using fin mem min by (intro Min_eqI) auto
    moreover have "S \<noteq> {}" using mem by auto
    moreover have "find_lowest m n (Suc left) = int (w * 64 + b)"
      using False by (simp add: Let_def w_def b_def c_def)
    ultimately show ?thesis by (simp add: best_of_def)
  qed
qed

lemma FindBestTick_rel:
  assumes rel: "bitmap_rel m S"
  shows "FindBestTick side m = best_of side S"
proof -
  have sub: "S \<subseteq> {..<16384}" by (rule bitmap_relD(1) [OF rel])
  have hi: "\<forall>t \<in> S. t div 4096 < 4" using sub by auto
  show ?thesis
  proof (cases "side = BUY")
    case True
    with find_highest_spec [OF rel _ hi] show ?thesis by (simp add: FindBestTick_def)
  next
    case False
    with find_lowest_spec [OF rel, of 0 4] show ?thesis by (simp add: FindBestTick_def best_of_def)
  qed
qed

section \<open>A history of updates\<close>

text \<open>The set after a sequence of arrivals and departures of ticks, and the bitmap after it.\<close>

datatype occ_op = Occupy nat | Vacate nat

definition occ_tick :: "occ_op \<Rightarrow> nat" where
  "occ_tick ev = (case ev of Occupy t \<Rightarrow> t | Vacate t \<Rightarrow> t)"

definition occ_set :: "nat set \<Rightarrow> occ_op \<Rightarrow> nat set" where
  "occ_set S ev = (case ev of Occupy t \<Rightarrow> insert t S | Vacate t \<Rightarrow> S - {t})"

definition occ_bitmap :: "bitmap \<Rightarrow> occ_op \<Rightarrow> bitmap" where
  "occ_bitmap m ev = (case ev of Occupy t \<Rightarrow> MarkOccupied t m | Vacate t \<Rightarrow> ClearOccupied t m)"

lemma occ_step_rel: "bitmap_rel m S \<Longrightarrow> occ_tick ev < kTickCount \<Longrightarrow>
    bitmap_rel (occ_bitmap m ev) (occ_set S ev)"
  using MarkOccupied_rel ClearOccupied_rel
  by (cases ev) (auto simp: occ_bitmap_def occ_set_def occ_tick_def)

lemma occ_run_rel:
  "bitmap_rel m S \<Longrightarrow> \<forall>ev \<in> set evs. occ_tick ev < kTickCount \<Longrightarrow>
    bitmap_rel (foldl occ_bitmap m evs) (foldl occ_set S evs)"
  by (induction evs arbitrary: m S) (auto intro: occ_step_rel simp del: geometry)

text \<open>C24: After any sequence of \<open>MarkOccupied\<close> and \<open>ClearOccupied\<close> calls on ticks of the grid,
  \<open>FindBestTick\<close> returns the largest occupied tick on the buy side, the smallest on the sell
  side, and \<open>kInvalidTick\<close> exactly when no tick is occupied.\<close>

theorem FindBestTick_correct:
  assumes "\<forall>ev \<in> set evs. occ_tick ev < kTickCount"
  shows "FindBestTick side (foldl occ_bitmap empty_bitmap evs) = best_of side (foldl occ_set {} evs)"
  using assms by (intro FindBestTick_rel occ_run_rel empty_bitmap_rel)

theorem FindBestTick_correct_witness:
  "FindBestTick BUY (foldl occ_bitmap empty_bitmap [Occupy 70, Occupy 5000, Vacate 5000]) = 70"
proof -
  have "\<forall>ev \<in> set [Occupy 70, Occupy 5000, Vacate 5000]. occ_tick ev < kTickCount"
    by (simp add: occ_tick_def)
  from FindBestTick_correct [OF this, of BUY] show ?thesis by (simp add: occ_set_def best_of_def)
qed

end
