(* ===== verification/Price_Levels.thy ===== *)
theory Price_Levels
  imports Mem_Pool Occupancy
begin

text \<open>
  One side of a single-symbol book, \<open>exchange::PriceLevels\<close> of \<open>exchange/matcher/price_levels\<close>:
  an array of FIFO price levels indexed by tick, the occupancy bitmap and the cached best tick.
  Resting orders are nodes of a doubly linked list in a pool shared with the other side. A
  pointer to an order is its pool slot; a pointer to a level is the side and the tick of the
  slot it points to, which is what \<open>Owns\<close> and \<open>IndexOf\<close> recover by pointer arithmetic.
\<close>

section \<open>The price band\<close>

record PriceBand =
  base_price :: Price
  tick_size :: Price

definition kPriceMax :: int where "kPriceMax = 2 ^ 63 - 1"

definition ToTick :: "PriceBand \<Rightarrow> Price \<Rightarrow> int" where
  "ToTick band price = swrap 32 (tdiv (swrap 64 (price - base_price band)) (tick_size band))"

definition ToPrice :: "PriceBand \<Rightarrow> int \<Rightarrow> Price" where
  "ToPrice band tick = swrap 64 (base_price band + swrap 64 (tick * tick_size band))"

definition IsValid :: "PriceBand \<Rightarrow> bool" where
  "IsValid band \<longleftrightarrow>
     tick_size band > 0 \<and> base_price band \<ge> 0 \<and>
     tdiv (kPriceMax - base_price band) (tick_size band) > int kTickCount"

definition kDefaultPriceBand :: PriceBand where
  "kDefaultPriceBand = \<lparr>base_price = 0, tick_size = 1\<rparr>"

section \<open>Orders, levels and one side of the book\<close>

type_synonym order_ptr = nat
type_synonym level_ptr = "Side \<times> nat"

record OrderNode =
  on_next :: "order_ptr option"
  on_prev :: "order_ptr option"
  on_level :: "level_ptr option"
  on_market_order_id :: OrderId
  on_client_order_id :: OrderId
  on_priority :: Priority
  on_remaining_quantity :: Quantity
  on_client_id :: ClientId

record FIFOLevel =
  first_order :: "order_ptr option"
  last_order :: "order_ptr option"
  next_priority :: Priority
  total_quantity :: u64

definition empty_level :: FIFOLevel where
  "empty_level = \<lparr>first_order = None, last_order = None, next_priority = 1, total_quantity = 0\<rparr>"

definition level_IsEmpty :: "FIFOLevel \<Rightarrow> bool" where
  "level_IsEmpty lv \<longleftrightarrow> first_order lv = None"

type_synonym order_pool = "OrderNode MemPool"

record PriceLevels =
  pl_side :: Side
  best_tick :: int
  pl_bitmap :: bitmap
  levels :: "nat \<Rightarrow> FIFOLevel"

definition new_PriceLevels :: "Side \<Rightarrow> PriceLevels result" where
  "new_PriceLevels side =
     bindE (ASSERT (side = BUY \<or> side = SELL) ''PriceLevels requires a directional side'') (\<lambda>_.
     Inr \<lparr>pl_side = side, best_tick = kInvalidTick, pl_bitmap = empty_bitmap,
          levels = (\<lambda>_. empty_level)\<rparr>)"

definition pl_IsEmpty :: "PriceLevels \<Rightarrow> bool" where
  "pl_IsEmpty pl \<longleftrightarrow> best_tick pl = kInvalidTick"

definition LevelAt :: "PriceLevels \<Rightarrow> int \<Rightarrow> FIFOLevel" where
  "LevelAt pl tick = levels pl (nat tick)"

definition IndexOf :: "PriceLevels \<Rightarrow> level_ptr \<Rightarrow> int" where
  "IndexOf pl lp = int (snd lp)"

definition Owns :: "PriceLevels \<Rightarrow> level_ptr \<Rightarrow> bool" where
  "Owns pl lp \<longleftrightarrow> fst lp = pl_side pl \<and> snd lp < kTickCount"

definition IsBetter :: "PriceLevels \<Rightarrow> int \<Rightarrow> int \<Rightarrow> bool" where
  "IsBetter pl candidate current \<longleftrightarrow>
     (if pl_side pl = BUY then candidate > current else candidate < current)"

text \<open>A write through an order pointer.\<close>

definition node_upd :: "order_ptr \<Rightarrow> (OrderNode \<Rightarrow> OrderNode) \<Rightarrow> order_pool \<Rightarrow> order_pool result" where
  "node_upd i f p = bindE (access (lookup p i)) (\<lambda>n. Inr (store i (f n) p))"

definition level_upd :: "nat \<Rightarrow> (FIFOLevel \<Rightarrow> FIFOLevel) \<Rightarrow> PriceLevels \<Rightarrow> PriceLevels" where
  "level_upd t f pl = pl\<lparr>levels := (levels pl)(t := f (levels pl t))\<rparr>"

section \<open>Operations\<close>

definition AddOrder ::
  "int \<Rightarrow> ClientId \<Rightarrow> OrderId \<Rightarrow> OrderId \<Rightarrow> Quantity \<Rightarrow> order_pool \<Rightarrow> PriceLevels \<Rightarrow>
   (order_ptr \<times> order_pool \<times> PriceLevels) result" where
  "AddOrder tick cid coid moid qty pool pl =
     bindE (ASSERT (0 \<le> tick \<and> tick < int kTickCount) ''Tick outside the price band'') (\<lambda>_.
     let t = nat tick; lv = levels pl t; was_empty = level_IsEmpty lv in
     bindE (allocate \<lparr>on_next = None, on_prev = last_order lv, on_level = Some (pl_side pl, t),
              on_market_order_id = moid, on_client_order_id = coid, on_priority = next_priority lv,
              on_remaining_quantity = qty, on_client_id = cid\<rparr> pool) (\<lambda>(order, pool1).
     bindE (if was_empty then Inr pool1
            else bindE (deref (last_order lv)) (\<lambda>l. node_upd l (\<lambda>n. n\<lparr>on_next := Some order\<rparr>) pool1))
       (\<lambda>pool2.
     let pl1 = level_upd t (\<lambda>v. v\<lparr>next_priority := next_priority v + 1,
                 first_order := (if was_empty then Some order else first_order v),
                 last_order := Some order,
                 total_quantity := total_quantity v + ucast qty\<rparr>) pl;
         pl2 = (if was_empty then
                  pl1\<lparr>pl_bitmap := MarkOccupied t (pl_bitmap pl1),
                      best_tick := (if pl_IsEmpty pl1 \<or> IsBetter pl1 tick (best_tick pl1) then tick
                                    else best_tick pl1)\<rparr>
                else pl1)
     in Inr (order, pool2, pl2))))"

text \<open>A level pointer of the other side would leave this instance; it is a fault of the model.\<close>

definition ApplyFill ::
  "order_ptr \<Rightarrow> Quantity \<Rightarrow> order_pool \<Rightarrow> PriceLevels \<Rightarrow> (order_pool \<times> PriceLevels) result" where
  "ApplyFill order qty pool pl =
     bindE (access (lookup pool order)) (\<lambda>n.
     bindE (ASSERT (on_level n \<noteq> None) ''Fill applied to an order that is not in the book'') (\<lambda>_.
     bindE (ASSERT (qty \<le> on_remaining_quantity n) ''Fill exceeds resting size'') (\<lambda>_.
     bindE (deref (on_level n)) (\<lambda>lp.
     if \<not> Owns pl lp then Inl Bad_Access
     else
       Inr (store order (n\<lparr>on_remaining_quantity := on_remaining_quantity n - qty\<rparr>) pool,
            level_upd (snd lp) (\<lambda>v. v\<lparr>total_quantity := total_quantity v - ucast qty\<rparr>) pl)))))"

definition RemoveOrder ::
  "order_ptr \<Rightarrow> order_pool \<Rightarrow> PriceLevels \<Rightarrow> (order_pool \<times> PriceLevels) result" where
  "RemoveOrder order pool pl =
     bindE (access (lookup pool order)) (\<lambda>n.
     bindE (ASSERT (on_level n \<noteq> None) ''Removing an order that is not in the book'') (\<lambda>_.
     bindE (deref (on_level n)) (\<lambda>lp.
     if \<not> Owns pl lp then Inl Bad_Access
     else let t = snd lp in
       bindE (case on_prev n of
                Some p \<Rightarrow> bindE (node_upd p (\<lambda>m. m\<lparr>on_next := on_next n\<rparr>) pool) (\<lambda>q. Inr (q, pl))
              | None \<Rightarrow> Inr (pool, level_upd t (\<lambda>v. v\<lparr>first_order := on_next n\<rparr>) pl)) (\<lambda>(pool1, pl1).
       bindE (access (lookup pool1 order)) (\<lambda>n1.
       bindE (case on_next n1 of
                Some s \<Rightarrow> bindE (node_upd s (\<lambda>m. m\<lparr>on_prev := on_prev n1\<rparr>) pool1) (\<lambda>q. Inr (q, pl1))
              | None \<Rightarrow> Inr (pool1, level_upd t (\<lambda>v. v\<lparr>last_order := on_prev n1\<rparr>) pl1)) (\<lambda>(pool2, pl2).
       bindE (access (lookup pool2 order)) (\<lambda>n2.
       let pl3 = level_upd t (\<lambda>v. v\<lparr>total_quantity :=
                    total_quantity v - ucast (on_remaining_quantity n2)\<rparr>) pl2;
           pool3 = store order (n2\<lparr>on_next := None, on_prev := None, on_level := None\<rparr>) pool2;
           pl4 = (if level_IsEmpty (levels pl3 t) then
                    let pl5 = level_upd t (\<lambda>v. v\<lparr>total_quantity := 0, next_priority := 1\<rparr>) pl3;
                        tick = IndexOf pl5 lp;
                        pl6 = pl5\<lparr>pl_bitmap := ClearOccupied (nat tick) (pl_bitmap pl5)\<rparr>
                    in if tick = best_tick pl6
                       then pl6\<lparr>best_tick := FindBestTick (pl_side pl6) (pl_bitmap pl6)\<rparr>
                       else pl6
                  else pl3)
       in bindE (deallocate order pool3) (\<lambda>pool4. Inr (pool4, pl4)))))))))"

section \<open>Queues in the pool\<close>

text \<open>The fields of a node that say where it is, and the ones that say what order it is.\<close>

definition node_links :: "OrderNode \<Rightarrow> order_ptr option \<times> order_ptr option \<times> level_ptr option" where
  "node_links n = (on_next n, on_prev n, on_level n)"

record resting =
  r_client :: ClientId
  r_coid :: OrderId
  r_moid :: OrderId
  r_qty :: Quantity
  r_prio :: Priority

definition resting_of :: "OrderNode \<Rightarrow> resting" where
  "resting_of n = \<lparr>r_client = on_client_id n, r_coid = on_client_order_id n,
     r_moid = on_market_order_id n, r_qty = on_remaining_quantity n, r_prio = on_priority n\<rparr>"

definition node_data :: "OrderNode \<Rightarrow> resting \<times> level_ptr option" where
  "node_data n = (resting_of n, on_level n)"

type_synonym heap = "order_ptr \<rightharpoonup> OrderNode"

abbreviation rest :: "heap \<Rightarrow> order_ptr \<Rightarrow> resting" where
  "rest h i \<equiv> resting_of (the (h i))"

definition head_or :: "'a option \<Rightarrow> 'a list \<Rightarrow> 'a option" where
  "head_or q xs = (case xs of [] \<Rightarrow> q | x # _ \<Rightarrow> Some x)"

definition last_or :: "'a option \<Rightarrow> 'a list \<Rightarrow> 'a option" where
  "last_or p xs = (if xs = [] then p else Some (last xs))"

lemma head_or_simps [simp]: "head_or q [] = q" "head_or q (x # xs) = Some x"
  "head_or q (xs @ ys) = head_or (head_or q ys) xs" "head_or None xs = None \<longleftrightarrow> xs = []"
  by (simp_all add: head_or_def split: list.splits)

lemma head_or_nonempty: "xs \<noteq> [] \<Longrightarrow> head_or q xs = Some (hd xs)"
  by (cases xs) simp_all

lemma last_or_simps [simp]: "last_or p [] = p" "last_or p (xs @ [x]) = Some x"
  "last_or p (x # xs) = last_or (Some x) xs" "last_or p (xs @ ys) = last_or (last_or p xs) ys"
  "last_or None xs = None \<longleftrightarrow> xs = []"
  by (auto simp: last_or_def)

text \<open>
  \<open>chain h lp p xs q\<close>: the nodes \<open>xs\<close> are linked in this order in the heap \<open>h\<close> and belong to
  the level \<open>lp\<close>; the first one points back to \<open>p\<close>, the last one forward to \<open>q\<close>.
\<close>

fun chain :: "heap \<Rightarrow> level_ptr \<Rightarrow> order_ptr option \<Rightarrow> order_ptr list \<Rightarrow> order_ptr option \<Rightarrow> bool" where
  "chain h lp p [] q \<longleftrightarrow> True"
| "chain h lp p (i # is) q \<longleftrightarrow>
     (\<exists>n. h i = Some n \<and> on_level n = Some lp \<and> on_prev n = p \<and> on_next n = head_or q is) \<and>
     chain h lp (Some i) is q"

lemma chain_append:
  "chain h lp p (xs @ ys) q \<longleftrightarrow> chain h lp p xs (head_or q ys) \<and> chain h lp (last_or p xs) ys q"
  by (induction xs arbitrary: p) auto

lemma chain_live: "chain h lp p xs q \<Longrightarrow> i \<in> set xs \<Longrightarrow> \<exists>n. h i = Some n \<and> on_level n = Some lp"
  by (induction xs arbitrary: p) auto

lemma chain_frame:
  "\<forall>i \<in> set xs. map_option node_links (h' i) = map_option node_links (h i) \<Longrightarrow>
    chain h lp p xs q \<Longrightarrow> chain h' lp p xs q"
proof (induction xs arbitrary: p)
  case (Cons i xs)
  then obtain n n' where "h i = Some n" "h' i = Some n'" "node_links n' = node_links n" by auto
  with Cons show ?case by (auto simp: node_links_def)
qed simp

lemma chain_set_next:
  assumes "chain h lp p xs q" and "distinct xs" and "xs \<noteq> []" and "h (last xs) = Some n"
  shows "chain (h(last xs \<mapsto> n\<lparr>on_next := q'\<rparr>)) lp p xs q'"
proof -
  obtain ys y where xs: "xs = ys @ [y]" using assms(3) by (metis append_butlast_last_id)
  with assms have ys: "chain h lp p ys (Some y)" and y: "h y = Some n" "on_level n = Some lp"
      "on_prev n = last_or p ys" "y \<notin> set ys"
    by (auto simp: chain_append)
  have "chain (h(y \<mapsto> n\<lparr>on_next := q'\<rparr>)) lp p ys (Some y)"
    by (rule chain_frame [OF _ ys]) (use y(4) in auto)
  with xs y show ?thesis by (simp add: chain_append)
qed

lemma chain_set_prev:
  assumes "chain h lp p (x # xs) q" and "x \<notin> set xs" and "h x = Some n"
  shows "chain (h(x \<mapsto> n\<lparr>on_prev := p'\<rparr>)) lp p' (x # xs) q"
proof -
  have "chain h lp (Some x) xs q" using assms by simp
  then have "chain (h(x \<mapsto> n\<lparr>on_prev := p'\<rparr>)) lp (Some x) xs q"
    by (rule chain_frame [rotated]) (use assms(2) in auto)
  with assms show ?thesis by auto
qed

section \<open>What a level and a side stand for\<close>

definition level_ok :: "heap \<Rightarrow> level_ptr \<Rightarrow> FIFOLevel \<Rightarrow> order_ptr list \<Rightarrow> bool" where
  "level_ok h lp lv q \<longleftrightarrow>
     chain h lp None q None \<and> distinct q \<and>
     first_order lv = head_or None q \<and> last_order lv = last_or None q \<and>
     total_quantity lv = (\<Sum>i\<leftarrow>q. ucast (r_qty (rest h i))) \<and>
     sorted_wrt (<) (map (\<lambda>i. r_prio (rest h i)) q) \<and>
     (\<forall>i \<in> set q. r_prio (rest h i) < next_priority lv) \<and>
     (q = [] \<longrightarrow> next_priority lv = 1)"

definition occupied :: "(nat \<Rightarrow> order_ptr list) \<Rightarrow> nat set" where
  "occupied qs = {t. qs t \<noteq> []}"

definition side_ptrs :: "(nat \<Rightarrow> order_ptr list) \<Rightarrow> order_ptr set" where
  "side_ptrs qs = (\<Union>t. set (qs t))"

definition side_rel :: "heap \<Rightarrow> PriceLevels \<Rightarrow> (nat \<Rightarrow> order_ptr list) \<Rightarrow> bool" where
  "side_rel h pl qs \<longleftrightarrow>
     (pl_side pl = BUY \<or> pl_side pl = SELL) \<and>
     (\<forall>t. level_ok h (pl_side pl, t) (levels pl t) (qs t)) \<and>
     bitmap_rel (pl_bitmap pl) (occupied qs) \<and>
     best_tick pl = best_of (pl_side pl) (occupied qs)"

lemma queue_data_cong:
  assumes "\<forall>i \<in> set q. rest h' i = rest h i"
  shows "(\<Sum>i\<leftarrow>q. ucast (r_qty (rest h' i)) :: u64) = (\<Sum>i\<leftarrow>q. ucast (r_qty (rest h i)))"
    "sorted_wrt (<) (map (\<lambda>i. r_prio (rest h' i)) q) = sorted_wrt (<) (map (\<lambda>i. r_prio (rest h i)) q)"
  using assms by (auto intro!: arg_cong [of _ _ sum_list] arg_cong [of _ _ "sorted_wrt _"] map_cong)

lemma level_ok_frame:
  assumes "\<forall>i \<in> set q. h' i = h i" and "level_ok h lp lv q"
  shows "level_ok h' lp lv q"
proof -
  have data: "\<forall>i \<in> set q. rest h' i = rest h i" using assms(1) by simp
  have "chain h' lp None q None"
    by (rule chain_frame [of _ _ h]) (use assms in \<open>auto simp: level_ok_def\<close>)
  then show ?thesis using assms(2) data queue_data_cong [OF data] unfolding level_ok_def by simp
qed

lemma side_rel_live:
  assumes "side_rel h pl qs" and "i \<in> set (qs t)"
  shows "\<exists>n. h i = Some n \<and> on_level n = Some (pl_side pl, t)"
  using assms chain_live [of h "(pl_side pl, t)" None "qs t" None i]
  by (auto simp: side_rel_def level_ok_def)

lemma side_rel_unique:
  "side_rel h pl qs \<Longrightarrow> i \<in> set (qs t) \<Longrightarrow> i \<in> set (qs u) \<Longrightarrow> t = u"
  using side_rel_live [of h pl qs i t] side_rel_live [of h pl qs i u] by auto

lemma side_rel_frame:
  assumes "\<forall>i \<in> side_ptrs qs. h' i = h i" and "side_rel h pl qs"
  shows "side_rel h' pl qs"
proof -
  have "level_ok h' (pl_side pl, t) (levels pl t) (qs t)" for t
    by (rule level_ok_frame [of _ _ h]) (use assms in \<open>auto simp: side_rel_def side_ptrs_def\<close>)
  then show ?thesis using assms(2) by (simp add: side_rel_def)
qed

lemma occupied_bounds:
  assumes "side_rel h pl qs"
  shows "finite (occupied qs)" "t \<in> occupied qs \<Longrightarrow> t < kTickCount"
proof -
  have sub: "occupied qs \<subseteq> {..<kTickCount}" using assms by (simp add: side_rel_def bitmap_rel_def)
  then show "finite (occupied qs)" using finite_subset by blast
  show "t \<in> occupied qs \<Longrightarrow> t < kTickCount" using sub by auto
qed

lemma new_PriceLevels_rel:
  assumes "side = BUY \<or> side = SELL"
  shows "\<exists>pl. new_PriceLevels side = Inr pl \<and> pl_side pl = side \<and> side_rel Map.empty pl (\<lambda>_. [])"
  using assms empty_bitmap_rel
  by (auto simp: new_PriceLevels_def side_rel_def level_ok_def empty_level_def occupied_def best_of_def)

lemma best_of_insert:
  assumes "finite S"
  shows "best_of side (insert t S) =
    (if S = {} \<or> (if side = BUY then int t > best_of side S else int t < best_of side S)
     then int t else best_of side S)"
proof (cases "S = {}")
  case False
  define a b where "a = Max S" and "b = Min S"
  have "Max (insert t S) = max t a" "Min (insert t S) = min t b"
    using assms False by (simp_all add: a_def b_def)
  with False show ?thesis
    by (simp add: best_of_def a_def [symmetric] b_def [symmetric] max_def min_def)
qed (simp add: best_of_def)

lemma best_of_remove:
  assumes "finite S" and "t \<in> S" and "int t \<noteq> best_of side S"
  shows "best_of side (S - {t}) = best_of side S"
proof -
  have ne: "S \<noteq> {}" using assms(2) by auto
  show ?thesis
  proof (cases "side = BUY")
    case True
    then have "t \<noteq> Max S" using assms(3) ne by (simp add: best_of_def)
    then have m: "Max S \<in> S - {t}" using assms(1) ne by simp
    then have "Max (S - {t}) = Max S" using assms(1) by (intro Max_eqI) auto
    with m True ne show ?thesis by (auto simp: best_of_def)
  next
    case False
    then have "t \<noteq> Min S" using assms(3) ne by (simp add: best_of_def)
    then have m: "Min S \<in> S - {t}" using assms(1) ne by simp
    then have "Min (S - {t}) = Min S" using assms(1) by (intro Min_eqI) auto
    with m False ne show ?thesis by (auto simp: best_of_def)
  qed
qed

lemma best_of_invalid: "best_of side S = kInvalidTick \<longleftrightarrow> S = {}"
  by (auto simp: best_of_def kInvalidTick_def)

section \<open>The operations on a side\<close>

lemma level_ok_tail:
  "level_ok h lp lv q \<Longrightarrow> level_IsEmpty lv \<longleftrightarrow> q = []"
  by (auto simp: level_ok_def level_IsEmpty_def)

lemma best_tick_insert:
  assumes rel: "side_rel h pl qs"
  shows "best_of (pl_side pl) (insert t (occupied qs)) =
    (if pl_IsEmpty pl \<or> IsBetter pl (int t) (best_tick pl) then int t else best_tick pl)"
proof -
  have "best_tick pl = best_of (pl_side pl) (occupied qs)" using rel by (simp add: side_rel_def)
  then show ?thesis
    using best_of_insert [OF occupied_bounds(1) [OF rel], of "pl_side pl" t]
      best_of_invalid [of "pl_side pl" "occupied qs"]
    by (simp add: pl_IsEmpty_def IsBetter_def)
qed

lemma occupied_upd:
  "occupied (qs(t := xs)) = (if xs = [] then occupied qs - {t} else insert t (occupied qs))"
  by (auto simp: occupied_def)

lemma level_push:
  assumes ok: "level_ok h lp lv q" and fresh: "h order = None"
    and room: "unat (next_priority lv) + 1 < 2 ^ 64"
    and n: "n = \<lparr>on_next = None, on_prev = last_order lv, on_level = Some lp,
      on_market_order_id = moid, on_client_order_id = coid, on_priority = next_priority lv,
      on_remaining_quantity = qty, on_client_id = cid\<rparr>"
    and h': "h' = (case last_order lv of None \<Rightarrow> h(order \<mapsto> n)
       | Some l \<Rightarrow> h(order \<mapsto> n, l \<mapsto> (the (h l))\<lparr>on_next := Some order\<rparr>))"
    and lv': "lv' = lv\<lparr>next_priority := next_priority lv + 1,
       first_order := (if level_IsEmpty lv then Some order else first_order lv),
       last_order := Some order, total_quantity := total_quantity lv + ucast qty\<rparr>"
  shows "level_ok h' lp lv' (q @ [order])"
proof -
  have ch: "chain h lp None q None" and d: "distinct q" and lo: "last_order lv = last_or None q"
    using ok by (auto simp: level_ok_def)
  have notin: "order \<notin> set q" using chain_live [OF ch, of order] fresh by auto
  have sm: "next_priority lv < next_priority lv + 1"
    using room unat_inc_small [of "next_priority lv"] by (simp add: word_less_nat_alt)
  have chain': "chain h' lp None (q @ [order]) None"
  proof (cases "q = []")
    case True
    then show ?thesis using lo by (simp add: h' n)
  next
    case False
    define l where "l = last q"
    have l: "last_order lv = Some l" "l \<in> set q" using False lo by (simp_all add: last_or_def l_def)
    then obtain m where m: "h l = Some m" using chain_live [OF ch l(2)] by auto
    have "chain (h(l \<mapsto> m\<lparr>on_next := Some order\<rparr>)) lp None q (Some order)"
      using chain_set_next [OF ch d False] m by (simp add: l_def)
    then have "chain h' lp None q (Some order)"
      by (rule chain_frame [rotated]) (use notin l m in \<open>auto simp: h'\<close>)
    moreover have "h' order = Some n" using l notin by (auto simp: h')
    ultimately show ?thesis using False l lo by (simp add: chain_append n last_or_def)
  qed
  have old: "rest h' i = rest h i" if "i \<in> set q" for i
    using that notin by (auto simp: h' resting_of_def split: option.splits)
  have new: "r_qty (rest h' order) = qty" "r_prio (rest h' order) = next_priority lv"
    using lo notin by (auto simp: h' n resting_of_def last_or_def split: option.splits)
  have data: "\<forall>i \<in> set q. rest h' i = rest h i" using old by blast
  have below: "\<forall>i \<in> set q. r_prio (rest h i) < next_priority lv" using ok by (simp add: level_ok_def)
  have tot: "total_quantity lv' = (\<Sum>i\<leftarrow>q @ [order]. ucast (r_qty (rest h' i)))"
    using ok queue_data_cong(1) [OF data] by (simp add: lv' level_ok_def new)
  have sorted: "sorted_wrt (<) (map (\<lambda>i. r_prio (rest h' i)) (q @ [order]))"
    using ok queue_data_cong(2) [OF data] below data
    by (auto simp: level_ok_def sorted_wrt_append new)
  have "\<forall>i \<in> set (q @ [order]). r_prio (rest h' i) < next_priority lv'"
    using below data sm by (auto simp: lv' new)
  then show ?thesis
    unfolding level_ok_def
    using chain' d notin tot sorted ok level_ok_tail [OF ok]
    by (auto simp: lv' level_ok_def head_or_nonempty)
qed

lemma AddOrder_ok:
  assumes rel: "side_rel (lookup pool) pl qs" and inv: "pool_inv pool"
    and room: "mp_in_use pool < mp_capacity pool" and t: "t < kTickCount"
    and prio: "unat (next_priority (levels pl t)) + 1 < 2 ^ 64"
  shows "\<exists>order pool' pl'. AddOrder (int t) cid coid moid qty pool pl = Inr (order, pool', pl') \<and>
    pool_inv pool' \<and> mp_capacity pool' = mp_capacity pool \<and> mp_in_use pool' = mp_in_use pool + 1 \<and>
    lookup pool order = None \<and> side_rel (lookup pool') pl' (qs(t := qs t @ [order])) \<and>
    pl_side pl' = pl_side pl \<and>
    next_priority (levels pl' t) = next_priority (levels pl t) + 1 \<and>
    (\<forall>u. u \<noteq> t \<longrightarrow> levels pl' u = levels pl u) \<and>
    map_option node_data (lookup pool' order) =
      Some (\<lparr>r_client = cid, r_coid = coid, r_moid = moid, r_qty = qty,
             r_prio = next_priority (levels pl t)\<rparr>, Some (pl_side pl, t)) \<and>
    (\<forall>i. i \<noteq> order \<longrightarrow> map_option node_data (lookup pool' i) = map_option node_data (lookup pool i)) \<and>
    (\<forall>i. i \<notin> insert order (side_ptrs qs) \<longrightarrow> lookup pool' i = lookup pool i)"
proof -
  define lv where "lv = levels pl t"
  define n where "n = \<lparr>on_next = None, on_prev = last_order lv, on_level = Some (pl_side pl, t),
      on_market_order_id = moid, on_client_order_id = coid, on_priority = next_priority lv,
      on_remaining_quantity = qty, on_client_id = cid\<rparr>"
  have ok: "level_ok (lookup pool) (pl_side pl, t) lv (qs t)" using rel by (simp add: side_rel_def lv_def)
  from allocate_ok [OF inv room, of n] obtain order pool1 where
    al: "allocate n pool = Inr (order, pool1)" "pool_inv pool1" "lookup pool order = None"
      "lookup pool1 = (lookup pool)(order \<mapsto> n)" "mp_capacity pool1 = mp_capacity pool"
      "mp_in_use pool1 = mp_in_use pool + 1" by blast
  define h' where "h' = (case last_order lv of None \<Rightarrow> (lookup pool)(order \<mapsto> n)
       | Some l \<Rightarrow> (lookup pool)(order \<mapsto> n, l \<mapsto> (the (lookup pool l))\<lparr>on_next := Some order\<rparr>))"
  define pl1 where "pl1 = level_upd t (\<lambda>v. v\<lparr>next_priority := next_priority v + 1,
                 first_order := (if level_IsEmpty lv then Some order else first_order v),
                 last_order := Some order,
                 total_quantity := total_quantity v + ucast qty\<rparr>) pl"
  define pl' where "pl' = (if level_IsEmpty lv then
                  pl1\<lparr>pl_bitmap := MarkOccupied t (pl_bitmap pl1),
                      best_tick := (if pl_IsEmpty pl1 \<or> IsBetter pl1 (int t) (best_tick pl1) then int t
                                    else best_tick pl1)\<rparr>
                else pl1)"
  have lo: "last_order lv = last_or None (qs t)" using ok by (simp add: level_ok_def)
  have "\<exists>pool2. (if level_IsEmpty lv then Inr pool1
            else bindE (deref (last_order lv)) (\<lambda>l. node_upd l (\<lambda>n. n\<lparr>on_next := Some order\<rparr>) pool1))
         = Inr pool2 \<and> pool_inv pool2 \<and> mp_capacity pool2 = mp_capacity pool1 \<and>
         mp_in_use pool2 = mp_in_use pool1 \<and> lookup pool2 = h'"
  proof (cases "level_IsEmpty lv")
    case True
    then show ?thesis using al lo level_ok_tail [OF ok] by (simp add: h'_def)
  next
    case False
    define l where "l = last (qs t)"
    have l: "last_order lv = Some l" "l \<in> set (qs t)"
      using False lo level_ok_tail [OF ok] by (simp_all add: last_or_def l_def)
    obtain m where m: "lookup pool l = Some m" using side_rel_live [OF rel l(2)] by auto
    with al have "lookup pool1 l = Some m" by auto
    with False l m al show ?thesis
      by (auto simp: node_upd_def lookup_store h'_def intro!: pool_inv_store)
  qed
  then obtain pool2 where p2: "(if level_IsEmpty lv then Inr pool1
            else bindE (deref (last_order lv)) (\<lambda>l. node_upd l (\<lambda>n. n\<lparr>on_next := Some order\<rparr>) pool1))
         = Inr pool2" "pool_inv pool2" "mp_capacity pool2 = mp_capacity pool1"
         "mp_in_use pool2 = mp_in_use pool1" "lookup pool2 = h'" by blast
  have run: "AddOrder (int t) cid coid moid qty pool pl = Inr (order, pool2, pl')"
    using t al(1) p2(1) by (cases "level_IsEmpty lv")
      (simp_all add: AddOrder_def Let_def lv_def [symmetric] n_def [symmetric] pl'_def pl1_def)
  have lvl: "levels pl' = (levels pl)(t := levels pl' t)" "pl_side pl' = pl_side pl"
    by (auto simp: pl'_def pl1_def level_upd_def)
  have "level_ok h' (pl_side pl, t) (levels pl' t) (qs t @ [order])"
    by (rule level_push [OF ok al(3) _ n_def h'_def])
      (use prio in \<open>simp_all add: lv_def pl'_def pl1_def level_upd_def\<close>)
  moreover have other: "level_ok h' (pl_side pl, u) (levels pl u) (qs u)" if "u \<noteq> t" for u
  proof (rule level_ok_frame)
    show "level_ok (lookup pool) (pl_side pl, u) (levels pl u) (qs u)"
      using rel by (simp add: side_rel_def)
    show "\<forall>i \<in> set (qs u). h' i = lookup pool i"
    proof
      fix i assume i: "i \<in> set (qs u)"
      then have "i \<noteq> order" using side_rel_live [OF rel i] al(3) by auto
      moreover have "last_order lv \<noteq> Some i"
        using side_rel_unique [OF rel i, of t] that lo by (auto simp: last_or_def split: if_splits)
      ultimately show "h' i = lookup pool i" by (auto simp: h'_def split: option.splits)
    qed
  qed
  ultimately have lvs: "level_ok h' (pl_side pl, u) (levels pl' u) ((qs(t := qs t @ [order])) u)" for u
    using lvl(1) by (cases "u = t") (auto, metis fun_upd_other)
  have occ: "occupied (qs(t := qs t @ [order])) = insert t (occupied qs)" by (simp add: occupied_upd)
  have bm: "bitmap_rel (pl_bitmap pl) (occupied qs)" and bt: "best_tick pl = best_of (pl_side pl) (occupied qs)"
    using rel by (simp_all add: side_rel_def)
  have same: "insert t (occupied qs) = occupied qs" if "qs t \<noteq> []" using that by (auto simp: occupied_def)
  have "bitmap_rel (pl_bitmap pl') (insert t (occupied qs)) \<and>
      best_tick pl' = best_of (pl_side pl) (insert t (occupied qs))"
  proof (cases "level_IsEmpty lv")
    case True
    have "bitmap_rel (MarkOccupied t (pl_bitmap pl)) (insert t (occupied qs))"
      using MarkOccupied_rel [OF bm] t by simp
    then show ?thesis using True best_tick_insert [OF rel, of t]
      by (auto simp: pl'_def pl1_def level_upd_def pl_IsEmpty_def IsBetter_def)
  next
    case False
    then show ?thesis using same level_ok_tail [OF ok] bm bt by (simp add: pl'_def pl1_def level_upd_def)
  qed
  then have rel': "side_rel (lookup pool2) pl' (qs(t := qs t @ [order]))"
    using rel lvs unfolding side_rel_def occ p2(5) lvl(2) by blast
  have last_in: "l \<in> set (qs t)" if "last_order lv = Some l" for l
    using that lo by (auto simp: last_or_def split: if_splits)
  have new: "map_option node_data (h' order) = Some (\<lparr>r_client = cid, r_coid = coid, r_moid = moid,
      r_qty = qty, r_prio = next_priority lv\<rparr>, Some (pl_side pl, t))"
    using last_in side_rel_live [OF rel] al(3)
    by (force simp: h'_def n_def node_data_def resting_of_def split: option.splits)
  have old: "map_option node_data (h' i) = map_option node_data (lookup pool i)" if "i \<noteq> order" for i
    using that last_in side_rel_live [OF rel]
    by (force simp: h'_def node_data_def resting_of_def split: option.splits)
  have frame: "h' i = lookup pool i" if "i \<notin> insert order (side_ptrs qs)" for i
    using that last_in by (auto simp: h'_def side_ptrs_def split: option.splits)
  show ?thesis
    using run p2 al rel' new old frame lvl
    by (intro exI [of _ order] exI [of _ pool2] exI [of _ pl'])
      (auto simp: lv_def pl'_def pl1_def level_upd_def)
qed

text \<open>A fill keeps the aggregate of the level equal to the sum of its orders.\<close>

lemma ucast_diff: "b \<le> a \<Longrightarrow> (ucast (a - b) :: u64) = ucast a - ucast (b :: u32)"
proof (rule unat_inj)
  assume le: "b \<le> a"
  then have le': "(ucast b :: u64) \<le> ucast a" by (simp add: word_le_nat_alt unat_ucast_u32)
  show "unat (ucast (a - b) :: u64) = unat (ucast a - (ucast b :: u64))"
    using le by (simp add: unat_diff_le [OF le'] unat_diff_le [OF le] unat_ucast_u32)
qed

lemma level_fill:
  assumes ok: "level_ok h lp lv q" and i: "i \<in> set q" and n: "h i = Some n"
    and le: "qty \<le> on_remaining_quantity n"
  shows "level_ok (h(i \<mapsto> n\<lparr>on_remaining_quantity := on_remaining_quantity n - qty\<rparr>)) lp
    (lv\<lparr>total_quantity := total_quantity lv - ucast qty\<rparr>) q"
proof -
  let ?h = "h(i \<mapsto> n\<lparr>on_remaining_quantity := on_remaining_quantity n - qty\<rparr>)"
  obtain as bs where q: "q = as @ i # bs" using split_list [OF i] by blast
  have d: "distinct q" and ch: "chain h lp None q None" using ok by (auto simp: level_ok_def)
  then have as: "\<forall>j \<in> set as. rest ?h j = rest h j" and bs: "\<forall>j \<in> set bs. rest ?h j = rest h j"
    using q by auto
  have ch': "chain ?h lp None q None"
    by (rule chain_frame [OF _ ch]) (use n in \<open>auto simp: node_links_def\<close>)
  have prio: "r_prio (rest ?h j) = r_prio (rest h j)" for j using n by (simp add: resting_of_def)
  have "(\<Sum>j\<leftarrow>q. ucast (r_qty (rest ?h j)) :: u64) = (\<Sum>j\<leftarrow>q. ucast (r_qty (rest h j))) - ucast qty"
    using n queue_data_cong(1) [OF as] queue_data_cong(1) [OF bs] ucast_diff [OF le]
    unfolding q by (simp add: resting_of_def)
  then show ?thesis using ok ch' unfolding level_ok_def prio by simp
qed

lemma ApplyFill_ok:
  assumes rel: "side_rel (lookup pool) pl qs" and inv: "pool_inv pool"
    and i: "i \<in> set (qs t)" and n: "lookup pool i = Some n"
    and le: "qty \<le> on_remaining_quantity n"
  shows "\<exists>pool' pl'. ApplyFill i qty pool pl = Inr (pool', pl') \<and> pool_inv pool' \<and>
    mp_capacity pool' = mp_capacity pool \<and> mp_in_use pool' = mp_in_use pool \<and>
    lookup pool' = (lookup pool)(i \<mapsto> n\<lparr>on_remaining_quantity := on_remaining_quantity n - qty\<rparr>) \<and>
    side_rel (lookup pool') pl' qs \<and> pl_side pl' = pl_side pl \<and>
    (\<forall>u. next_priority (levels pl' u) = next_priority (levels pl u))"
proof -
  let ?n = "n\<lparr>on_remaining_quantity := on_remaining_quantity n - qty\<rparr>"
  let ?h = "(lookup pool)(i \<mapsto> ?n)"
  let ?pl = "level_upd t (\<lambda>v. v\<lparr>total_quantity := total_quantity v - ucast qty\<rparr>) pl"
  have lv: "on_level n = Some (pl_side pl, t)" using side_rel_live [OF rel i] n by auto
  have t: "t < kTickCount" using occupied_bounds(2) [OF rel, of t] i by (cases "qs t") (auto simp: occupied_def)
  have run: "ApplyFill i qty pool pl = Inr (store i ?n pool, ?pl)"
    using n lv le t by (simp add: ApplyFill_def Owns_def)
  have "level_ok ?h (pl_side pl, u) (levels ?pl u) (qs u)" for u
  proof (cases "u = t")
    case True
    have "level_ok (lookup pool) (pl_side pl, t) (levels pl t) (qs t)" using rel by (simp add: side_rel_def)
    from level_fill [OF this i n le] True show ?thesis by (simp add: level_upd_def)
  next
    case False
    then have "i \<notin> set (qs u)" using side_rel_unique [OF rel i] by auto
    then show ?thesis
      by (intro level_ok_frame [of "qs u" ?h "lookup pool"])
        (use False rel in \<open>auto simp: side_rel_def level_upd_def\<close>)
  qed
  then have "side_rel ?h ?pl qs" using rel by (simp add: side_rel_def level_upd_def)
  with run inv n show ?thesis
    by (auto simp: lookup_store level_upd_def intro!: pool_inv_store)
qed

text \<open>Unlinking a node: the heap after each of the two pointer updates.\<close>

definition unlink1 :: "order_ptr list \<Rightarrow> order_ptr list \<Rightarrow> heap \<Rightarrow> heap" where
  "unlink1 as bs h = (case last_or None as of None \<Rightarrow> h
     | Some p \<Rightarrow> h(p \<mapsto> (the (h p))\<lparr>on_next := head_or None bs\<rparr>))"

definition unlink2 :: "order_ptr list \<Rightarrow> order_ptr list \<Rightarrow> heap \<Rightarrow> heap" where
  "unlink2 as bs h = (case head_or None bs of None \<Rightarrow> h
     | Some s \<Rightarrow> h(s \<mapsto> (the (h s))\<lparr>on_prev := last_or None as\<rparr>))"

lemma unlink1_cases:
  "as = [] \<and> unlink1 as bs h = h \<or>
   (\<exists>ys y. as = ys @ [y] \<and> unlink1 as bs h = h(y \<mapsto> (the (h y))\<lparr>on_next := head_or None bs\<rparr>))"
  by (cases as rule: rev_cases) (auto simp: unlink1_def)

lemma unlink2_cases:
  "bs = [] \<and> unlink2 as bs h = h \<or>
   (\<exists>y ys. bs = y # ys \<and> unlink2 as bs h = h(y \<mapsto> (the (h y))\<lparr>on_prev := last_or None as\<rparr>))"
  by (cases bs) (auto simp: unlink2_def)

lemma unlink_frame:
  "i \<notin> set as \<Longrightarrow> unlink1 as bs h i = h i" "i \<notin> set bs \<Longrightarrow> unlink2 as bs h i = h i"
  using unlink1_cases [of as bs h] unlink2_cases [of bs as h] by auto

lemma unlink_data:
  assumes "\<forall>i \<in> set as \<union> set bs. h i \<noteq> None"
  shows "map_option node_data (unlink1 as bs h i) = map_option node_data (h i)"
    "map_option node_data (unlink2 as bs h i) = map_option node_data (h i)"
  using unlink1_cases [of as bs h] unlink2_cases [of bs as h] assms
  by (auto simp: node_data_def resting_of_def)

lemma unlink_chain:
  assumes ch: "chain h lp None (as @ x # bs) None" and d: "distinct (as @ x # bs)"
  shows "chain (unlink2 as bs (unlink1 as bs h)) lp None (as @ bs) None"
proof -
  let ?h1 = "unlink1 as bs h" and ?h2 = "unlink2 as bs (unlink1 as bs h)"
  from ch have as: "chain h lp None as (Some x)" and bs: "chain h lp (Some x) bs None"
    by (auto simp: chain_append)
  have bs1: "chain ?h1 lp (Some x) bs None"
    using d by (intro chain_frame [OF _ bs] ballI arg_cong [of _ _ "map_option node_links"] unlink_frame(1)) auto
  have as1: "chain ?h1 lp None as (head_or None bs)"
    using unlink1_cases [of as bs h]
  proof (elim disjE conjE exE)
    fix ys y assume y: "as = ys @ [y]" "?h1 = h(y \<mapsto> (the (h y))\<lparr>on_next := head_or None bs\<rparr>)"
    then obtain m where "h y = Some m" using chain_live [OF as, of y] by auto
    with y chain_set_next [OF as, of m "head_or None bs"] d show ?thesis by simp
  qed simp
  have as2: "chain ?h2 lp None as (head_or None bs)"
    using d by (intro chain_frame [OF _ as1] ballI arg_cong [of _ _ "map_option node_links"] unlink_frame(2)) auto
  have "chain ?h2 lp (last_or None as) bs None"
    using unlink2_cases [of bs as ?h1]
  proof (elim disjE conjE exE)
    fix y ys assume y: "bs = y # ys" "?h2 = ?h1(y \<mapsto> (the (?h1 y))\<lparr>on_prev := last_or None as\<rparr>)"
    then obtain m where "?h1 y = Some m" using chain_live [OF bs1, of y] by auto
    with y chain_set_prev [of ?h1 lp "Some x" y ys None m "last_or None as"] bs1 d show ?thesis by simp
  qed simp
  with as2 show ?thesis by (simp add: chain_append)
qed

text \<open>The level after its node \<open>x\<close> has left.\<close>

definition level_after :: "order_ptr list \<Rightarrow> order_ptr list \<Rightarrow> Quantity \<Rightarrow> FIFOLevel \<Rightarrow> FIFOLevel" where
  "level_after as bs qty lv =
     (if as = [] \<and> bs = [] then empty_level
      else lv\<lparr>first_order := (if as = [] then head_or None bs else first_order lv),
              last_order := (if bs = [] then last_or None as else last_order lv),
              total_quantity := total_quantity lv - ucast qty\<rparr>)"

lemma level_unlink:
  assumes ok: "level_ok h lp lv (as @ x # bs)" and n: "h x = Some n"
  shows "level_ok ((unlink2 as bs (unlink1 as bs h))(x := None)) lp
    (level_after as bs (on_remaining_quantity n) lv) (as @ bs)"
proof -
  let ?h2 = "unlink2 as bs (unlink1 as bs h)"
  let ?h = "?h2(x := None)"
  have ch: "chain h lp None (as @ x # bs) None" and d: "distinct (as @ x # bs)"
    using ok by (auto simp: level_ok_def)
  have ch': "chain ?h lp None (as @ bs) None"
    by (rule chain_frame [OF _ unlink_chain [OF ch d]]) (use d in auto)
  have live: "h i \<noteq> None" if "i \<in> set as \<union> set bs" for i
    using chain_live [OF ch, of i] that by auto
  have "map_option node_data (?h i) = map_option node_data (h i)" if i: "i \<in> set (as @ bs)" for i
  proof -
    have "\<forall>j \<in> set as \<union> set bs. unlink1 as bs h j \<noteq> None"
      using live unlink_data(1) [of as bs h] by (metis option.map_disc_iff)
    then show ?thesis using i d live unlink_data [of as bs] by auto
  qed
  then have data: "\<forall>i \<in> set (as @ bs). rest ?h i = rest h i"
    using live by (fastforce simp: node_data_def)
  have "(\<Sum>i\<leftarrow>as @ bs. ucast (r_qty (rest ?h i)) :: u64) =
      total_quantity lv - ucast (on_remaining_quantity n)"
    unfolding queue_data_cong(1) [OF data] using ok n by (simp add: level_ok_def resting_of_def)
  moreover have "sorted_wrt (<) (map (\<lambda>i. r_prio (rest ?h i)) (as @ bs))"
    unfolding queue_data_cong(2) [OF data] using ok by (simp add: level_ok_def sorted_wrt_append)
  moreover have "\<forall>i \<in> set (as @ bs). r_prio (rest ?h i) < next_priority lv"
    using data ok by (auto simp: level_ok_def)
  ultimately show ?thesis
    using ch' d ok
    by (auto simp: level_ok_def level_after_def empty_level_def head_or_nonempty last_or_def)
qed

text \<open>The cached best tick after level \<open>t\<close> has lost its last order.\<close>

lemma best_tick_remove:
  assumes rel: "side_rel h pl qs" and t: "t \<in> occupied qs"
  shows "(if int t = best_tick pl then FindBestTick (pl_side pl) (ClearOccupied t (pl_bitmap pl))
      else best_tick pl) = best_of (pl_side pl) (occupied qs - {t})"
proof -
  have bm: "bitmap_rel (pl_bitmap pl) (occupied qs)" and bt: "best_tick pl = best_of (pl_side pl) (occupied qs)"
    using rel by (simp_all add: side_rel_def)
  have "t < kTickCount" using occupied_bounds(2) [OF rel t] .
  from FindBestTick_rel [OF ClearOccupied_rel [OF bm this]] best_of_remove [OF occupied_bounds(1) [OF rel] t] bt
  show ?thesis by simp
qed

lemma RemoveOrder_run:
  assumes ok: "level_ok (lookup pool) (pl_side pl, t) (levels pl t) (as @ x # bs)"
    and inv: "pool_inv pool" and n: "lookup pool x = Some n" and t: "t < kTickCount"
  shows "\<exists>pool'. RemoveOrder x pool pl = Inr (pool',
      (let pl3 = level_upd t (level_after as bs (on_remaining_quantity n)) pl in
       if as = [] \<and> bs = [] then
         pl3\<lparr>pl_bitmap := ClearOccupied t (pl_bitmap pl),
             best_tick := (if int t = best_tick pl then FindBestTick (pl_side pl) (ClearOccupied t (pl_bitmap pl))
                           else best_tick pl)\<rparr>
       else pl3)) \<and>
    pool_inv pool' \<and> mp_capacity pool' = mp_capacity pool \<and> mp_in_use pool' + 1 = mp_in_use pool \<and>
    lookup pool' = (unlink2 as bs (unlink1 as bs (lookup pool)))(x := None)"
proof -
  let ?h1 = "unlink1 as bs (lookup pool)" and ?h2 = "unlink2 as bs (unlink1 as bs (lookup pool))"
  have ch: "chain (lookup pool) (pl_side pl, t) None (as @ x # bs) None" and d: "distinct (as @ x # bs)"
    using ok by (auto simp: level_ok_def)
  have links: "on_level n = Some (pl_side pl, t)" "on_prev n = last_or None as" "on_next n = head_or None bs"
    using ch n by (auto simp: chain_append)
  have live: "lookup pool i \<noteq> None" if "i \<in> set (as @ x # bs)" for i using chain_live [OF ch that] by auto
  have live1: "?h1 i \<noteq> None" if "i \<in> set (as @ x # bs)" for i
    using live that unlink_data(1) [of as bs "lookup pool" i] by (metis UnI1 UnI2 Un_iff list.set_intros(2) option.map_disc_iff set_append)
  define pl1 where "pl1 = (case on_prev n of Some p \<Rightarrow> pl
    | None \<Rightarrow> level_upd t (\<lambda>v. v\<lparr>first_order := on_next n\<rparr>) pl)"
  define pl2 where "pl2 = (case on_next n of Some s \<Rightarrow> pl1
    | None \<Rightarrow> level_upd t (\<lambda>v. v\<lparr>last_order := on_prev n\<rparr>) pl1)"
  obtain pool1 where p1: "(case on_prev n of
                Some p \<Rightarrow> bindE (node_upd p (\<lambda>m. m\<lparr>on_next := on_next n\<rparr>) pool) (\<lambda>q. Inr (q, pl))
              | None \<Rightarrow> Inr (pool, level_upd t (\<lambda>v. v\<lparr>first_order := on_next n\<rparr>) pl)) = Inr (pool1, pl1)"
      "pool_inv pool1" "mp_capacity pool1 = mp_capacity pool" "mp_in_use pool1 = mp_in_use pool"
      "lookup pool1 = ?h1"
  proof (cases "on_prev n")
    case None
    then show ?thesis using links inv by (intro that [of pool]) (auto simp: pl1_def unlink1_def)
  next
    case (Some p)
    then have "p \<in> set as" using links by (auto simp: last_or_def split: if_splits)
    then obtain m where m: "lookup pool p = Some m" using live by fastforce
    with Some links inv show ?thesis
      by (intro that [of "store p (m\<lparr>on_next := on_next n\<rparr>) pool"])
        (auto simp: pl1_def unlink1_def node_upd_def lookup_store intro!: pool_inv_store)
  qed
  have n1: "lookup pool1 x = Some n" using p1(5) n d by (simp add: unlink_frame)
  obtain pool2 where p2: "(case on_next n of
                Some s \<Rightarrow> bindE (node_upd s (\<lambda>m. m\<lparr>on_prev := on_prev n\<rparr>) pool1) (\<lambda>q. Inr (q, pl1))
              | None \<Rightarrow> Inr (pool1, level_upd t (\<lambda>v. v\<lparr>last_order := on_prev n\<rparr>) pl1)) = Inr (pool2, pl2)"
      "pool_inv pool2" "mp_capacity pool2 = mp_capacity pool" "mp_in_use pool2 = mp_in_use pool"
      "lookup pool2 = ?h2"
  proof (cases "on_next n")
    case None
    then show ?thesis using links p1 by (intro that [of pool1]) (auto simp: pl2_def unlink2_def)
  next
    case (Some s)
    then have "s \<in> set bs" using links by (auto simp: head_or_def split: list.splits)
    then obtain m where m: "lookup pool1 s = Some m" using live1 [of s] p1(5) by auto
    with Some links p1 show ?thesis
      by (intro that [of "store s (m\<lparr>on_prev := on_prev n\<rparr>) pool1"])
        (auto simp: pl2_def unlink2_def node_upd_def lookup_store intro!: pool_inv_store)
  qed
  have n2: "lookup pool2 x = Some n" using p2(5) n d by (simp add: unlink_frame)
  let ?pool3 = "store x (n\<lparr>on_next := None, on_prev := None, on_level := None\<rparr>) pool2"
  have "pool_inv ?pool3" "lookup ?pool3 x \<noteq> None" using p2(2) n2 by (simp_all add: pool_inv_store lookup_store)
  from deallocate_ok [OF this] obtain pool4 where p4: "deallocate x ?pool3 = Inr pool4" "pool_inv pool4"
      "lookup pool4 = (lookup ?pool3)(x := None)" "mp_capacity pool4 = mp_capacity pool"
      "mp_in_use pool4 + 1 = mp_in_use pool"
    using p2 by auto
  have lv: "first_order (levels pl t) = head_or None (as @ x # bs)"
      "last_order (levels pl t) = last_or None (as @ x # bs)" using ok by (auto simp: level_ok_def)
  have pl3: "level_upd t (\<lambda>v. v\<lparr>total_quantity := total_quantity v - ucast (on_remaining_quantity n)\<rparr>) pl2 =
    level_upd t (\<lambda>v. v\<lparr>first_order := (if as = [] then head_or None bs else first_order v),
       last_order := (if bs = [] then last_or None as else last_order v),
       total_quantity := total_quantity v - ucast (on_remaining_quantity n)\<rparr>) pl"
    using links by (auto simp: pl2_def pl1_def level_upd_def split: option.splits)
  have still: "first_order (levels pl t) \<noteq> None" "last_order (levels pl t) \<noteq> None"
    using lv by (cases as; auto simp: last_or_def)+
  have owns: "Owns pl (pl_side pl, t)" using t by (simp add: Owns_def)
  define lv3 where "lv3 = (\<lambda>v :: FIFOLevel. v\<lparr>first_order := (if as = [] then head_or None bs else first_order v),
       last_order := (if bs = [] then last_or None as else last_order v),
       total_quantity := total_quantity v - ucast (on_remaining_quantity n)\<rparr>)"
  have run: "RemoveOrder x pool pl = Inr (pool4,
      (let pl3 = level_upd t lv3 pl in
       if level_IsEmpty (levels pl3 t) then
         let pl5 = level_upd t (\<lambda>v. v\<lparr>total_quantity := 0, next_priority := 1\<rparr>) pl3;
             pl6 = pl5\<lparr>pl_bitmap := ClearOccupied t (pl_bitmap pl5)\<rparr>
         in if int t = best_tick pl6
            then pl6\<lparr>best_tick := FindBestTick (pl_side pl6) (pl_bitmap pl6)\<rparr> else pl6
       else pl3))"
    unfolding RemoveOrder_def
    by (simp add: n links(1) owns p1(1) n1 p2(1) n2 Let_def p4(1) pl3 [folded lv3_def] IndexOf_def
        split del: if_split cong del: if_weak_cong option.case_cong_weak)
  have pool4: "lookup pool4 = ?h2(x := None)" using p4(3) p2(5) by (simp add: lookup_store)
  have "snd (projr (RemoveOrder x pool pl)) =
      (let pl3 = level_upd t (level_after as bs (on_remaining_quantity n)) pl in
       if as = [] \<and> bs = [] then
         pl3\<lparr>pl_bitmap := ClearOccupied t (pl_bitmap pl),
             best_tick := (if int t = best_tick pl then FindBestTick (pl_side pl) (ClearOccupied t (pl_bitmap pl))
                           else best_tick pl)\<rparr>
       else pl3)"
  proof (cases "as = [] \<and> bs = []")
    case True
    then show ?thesis unfolding run
      by (cases "levels pl t")
        (simp add: lv3_def level_upd_def level_after_def level_IsEmpty_def empty_level_def)
  next
    case False
    then have "\<not> level_IsEmpty (lv3 (levels pl t))"
      using still by (auto simp: lv3_def level_IsEmpty_def head_or_nonempty)
    with False show ?thesis unfolding run
      by (auto simp: lv3_def level_upd_def level_after_def)
  qed
  with run p4 pool4 show ?thesis by (intro exI [of _ pool4]) simp
qed

lemma RemoveOrder_ok:
  assumes rel: "side_rel (lookup pool) pl qs" and inv: "pool_inv pool"
    and q: "qs t = as @ x # bs" and n: "lookup pool x = Some n"
  shows "\<exists>pool' pl'. RemoveOrder x pool pl = Inr (pool', pl') \<and> pool_inv pool' \<and>
    mp_capacity pool' = mp_capacity pool \<and> mp_in_use pool' + 1 = mp_in_use pool \<and>
    side_rel (lookup pool') pl' (qs(t := as @ bs)) \<and> pl_side pl' = pl_side pl \<and>
    lookup pool' x = None \<and>
    (\<forall>i. i \<noteq> x \<longrightarrow> map_option node_data (lookup pool' i) = map_option node_data (lookup pool i)) \<and>
    (\<forall>i. i \<notin> side_ptrs qs \<longrightarrow> lookup pool' i = lookup pool i) \<and>
    (\<forall>u. next_priority (levels pl' u) =
       (if u = t \<and> as = [] \<and> bs = [] then 1 else next_priority (levels pl u)))"
proof -
  let ?h' = "(unlink2 as bs (unlink1 as bs (lookup pool)))(x := None)"
  define pl' where "pl' = (let pl3 = level_upd t (level_after as bs (on_remaining_quantity n)) pl in
       if as = [] \<and> bs = [] then
         pl3\<lparr>pl_bitmap := ClearOccupied t (pl_bitmap pl),
             best_tick := (if int t = best_tick pl then FindBestTick (pl_side pl) (ClearOccupied t (pl_bitmap pl))
                           else best_tick pl)\<rparr>
       else pl3)"
  have ok: "level_ok (lookup pool) (pl_side pl, t) (levels pl t) (as @ x # bs)"
    using rel q by (metis side_rel_def)
  have occ: "t \<in> occupied qs" using q by (simp add: occupied_def)
  have t: "t < kTickCount" using occupied_bounds(2) [OF rel occ] .
  from RemoveOrder_run [OF ok inv n t] obtain pool' where run: "RemoveOrder x pool pl = Inr (pool', pl')"
      "pool_inv pool'" "mp_capacity pool' = mp_capacity pool" "mp_in_use pool' + 1 = mp_in_use pool"
      "lookup pool' = ?h'"
    unfolding pl'_def by blast
  have side: "pl_side pl' = pl_side pl" by (simp add: pl'_def level_upd_def Let_def)
  have lvl: "levels pl' = (levels pl)(t := level_after as bs (on_remaining_quantity n) (levels pl t))"
    by (simp add: pl'_def level_upd_def Let_def)
  have inq: "set as \<subseteq> set (qs t)" "set bs \<subseteq> set (qs t)" "x \<in> set (qs t)" using q by auto
  have outside: "?h' i = lookup pool i" if "i \<notin> set (qs t)" for i
  proof -
    have "i \<notin> set as" "i \<notin> set bs" "i \<noteq> x" using that q by auto
    then show ?thesis by (simp add: unlink_frame)
  qed
  have "level_ok ?h' (pl_side pl, u) (levels pl' u) ((qs(t := as @ bs)) u)" for u
  proof (cases "u = t")
    case True
    then show ?thesis using level_unlink [OF ok n] lvl by simp
  next
    case False
    have "\<forall>i \<in> set (qs u). ?h' i = lookup pool i"
      using False outside side_rel_unique [OF rel] by metis
    moreover have "level_ok (lookup pool) (pl_side pl, u) (levels pl u) (qs u)"
      using rel by (simp add: side_rel_def)
    ultimately have "level_ok ?h' (pl_side pl, u) (levels pl u) (qs u)"
      by (rule level_ok_frame [where h' = ?h'])
    then show ?thesis using False lvl by simp
  qed
  moreover have "bitmap_rel (pl_bitmap pl') (occupied (qs(t := as @ bs))) \<and>
      best_tick pl' = best_of (pl_side pl) (occupied (qs(t := as @ bs)))"
  proof (cases "as = [] \<and> bs = []")
    case True
    have "bitmap_rel (pl_bitmap pl) (occupied qs)" using rel by (simp add: side_rel_def)
    with True best_tick_remove [OF rel occ] ClearOccupied_rel [OF _ t] show ?thesis
      by (simp add: pl'_def level_upd_def occupied_upd Let_def)
  next
    case False
    then show ?thesis using rel occ
      by (auto simp: pl'_def level_upd_def occupied_upd Let_def side_rel_def insert_absorb)
  qed
  ultimately have rel': "side_rel (lookup pool') pl' (qs(t := as @ bs))"
    using rel by (simp add: side_rel_def side run(5))
  have live: "lookup pool i \<noteq> None" if "i \<in> set as \<union> set bs" for i
    using side_rel_live [OF rel, of i t] inq that by auto
  then have live1: "\<forall>i \<in> set as \<union> set bs. unlink1 as bs (lookup pool) i \<noteq> None"
    using unlink_data(1) [of as bs "lookup pool"] by (metis option.map_disc_iff)
  have data: "map_option node_data (?h' i) = map_option node_data (lookup pool i)" if "i \<noteq> x" for i
    using that live live1 unlink_data [of as bs] by simp
  have "next_priority (levels pl' u) =
      (if u = t \<and> as = [] \<and> bs = [] then 1 else next_priority (levels pl u))" for u
    by (simp add: lvl level_after_def empty_level_def)
  with run side rel' data outside show ?thesis
    by (intro exI [of _ pool'] exI [of _ pl']) (auto simp: side_ptrs_def)
qed

section \<open>Prices and ticks\<close>

lemma IsValid_bound:
  assumes "IsValid band" and "0 \<le> k" and "k \<le> int kTickCount"
  shows "0 \<le> k * tick_size band" "base_price band + k * tick_size band < 2 ^ 63" "0 < tick_size band"
    "0 \<le> base_price band"
proof -
  have pos: "tick_size band > 0" "base_price band \<ge> 0" using assms(1) by (auto simp: IsValid_def)
  have d: "tdiv (kPriceMax - base_price band) (tick_size band) > 16384"
    using assms(1) by (simp add: IsValid_def)
  show "0 < tick_size band" "0 \<le> base_price band" "0 \<le> k * tick_size band" using pos assms(2) by auto
  have nn: "0 \<le> kPriceMax - base_price band"
  proof (rule ccontr)
    assume "\<not> 0 \<le> kPriceMax - base_price band"
    then have "tdiv (kPriceMax - base_price band) (tick_size band) \<le> 0"
      using pos by (simp add: tdiv_def sgn_if pos_imp_zdiv_nonneg_iff)
    with d show False by simp
  qed
  let ?d = "(kPriceMax - base_price band) div tick_size band"
  have "16384 \<le> ?d" using d pos nn by (simp add: tdiv_nonneg)
  then have "16384 * tick_size band \<le> ?d * tick_size band" using pos by (intro mult_right_mono) auto
  moreover have "?d * tick_size band \<le> kPriceMax - base_price band"
    using pos div_mult_mod_eq [of "kPriceMax - base_price band" "tick_size band"]
      pos_mod_sign [of "tick_size band" "kPriceMax - base_price band"] by linarith
  ultimately have "16384 * tick_size band \<le> kPriceMax - base_price band" by simp
  moreover have "k * tick_size band \<le> 16384 * tick_size band" using assms(3) pos by simp
  ultimately show "base_price band + k * tick_size band < 2 ^ 63" by (simp add: kPriceMax_def)
qed

lemma ToPrice_valid:
  assumes "IsValid band" and "0 \<le> k" and "k \<le> int kTickCount"
  shows "ToPrice band k = base_price band + k * tick_size band"
  using IsValid_bound [OF assms] by (simp add: ToPrice_def swrap_id)

lemma ToTick_grid:
  assumes "IsValid band" and "0 \<le> k" and "k < int kTickCount"
  shows "ToTick band (base_price band + k * tick_size band) = k"
proof -
  have b: "0 \<le> k * tick_size band" "k * tick_size band < 2 ^ 63" "0 < tick_size band"
    using IsValid_bound [OF assms(1,2)] assms(3) by auto
  have w: "swrap 64 (k * tick_size band) = k * tick_size band" by (rule swrap_id) (use b in auto)
  have "swrap 32 k = k" by (rule swrap_id) (use assms(2,3) in auto)
  then show ?thesis using b(3) by (simp add: ToTick_def w tdiv_mult_exact)
qed

text \<open>On a valid band every tick of the grid and its price determine each other: the
  price of a tick maps back to the tick, an aligned price in the band maps to a tick of the grid
  whose price it is, and a higher tick has a higher price.\<close>

theorem price_grid_roundtrip:
  assumes "IsValid band" and "0 \<le> k" and "k < int kTickCount"
  shows "ToTick band (ToPrice band k) = k \<and>
    ToPrice band (ToTick band (base_price band + k * tick_size band)) = base_price band + k * tick_size band \<and>
    (\<forall>j. 0 \<le> j \<longrightarrow> j < int kTickCount \<longrightarrow> (ToPrice band j < ToPrice band k \<longleftrightarrow> j < k))"
  using assms ToPrice_valid [OF assms(1)] ToTick_grid [OF assms] IsValid_bound(3) [OF assms(1,2)] by simp

theorem price_grid_roundtrip_witness:
  "ToTick \<lparr>base_price = 1000, tick_size = 5\<rparr> (ToPrice \<lparr>base_price = 1000, tick_size = 5\<rparr> 7) = 7"
  using price_grid_roundtrip [of "\<lparr>base_price = 1000, tick_size = 5\<rparr>" 7]
  by (simp add: IsValid_def kPriceMax_def tdiv_def)

end
