(* ===== verification/Messages.thy ===== *)
theory Messages
  imports Types
begin

text \<open>
  The messages that travel between the components: client requests and responses
  (\<open>exchange/order_manager/client_request.h\<close>, \<open>client_response.h\<close>) and market updates
  (\<open>exchange/market_data/market_update.h\<close>), with their enumerations and debug strings. A byte
  that names no enumerator is the last constructor of its type.
\<close>

section \<open>Decimal output of \<open>std::ostringstream\<close>\<close>

definition digit_char :: "nat \<Rightarrow> char" where
  "digit_char d = char_of (48 + d)"

fun decimal :: "nat \<Rightarrow> string" where
  "decimal n = (if n < 10 then [digit_char n] else decimal (n div 10) @ [digit_char (n mod 10)])"

declare decimal.simps [simp del]

definition decimal_int :: "int \<Rightarrow> string" where
  "decimal_int i = (if i < 0 then CHR ''-'' # decimal (nat (- i)) else decimal (nat i))"

definition dec_word :: "'a::len word \<Rightarrow> string" where
  "dec_word w = decimal (unat w)"

definition digit_value :: "char \<Rightarrow> nat" where
  "digit_value c = of_char c - 48"

definition parse_decimal :: "string \<Rightarrow> nat" where
  "parse_decimal = foldl (\<lambda>n c. 10 * n + digit_value c) 0"

lemma digit_value_char: "d < 10 \<Longrightarrow> digit_value (digit_char d) = d"
  by (simp add: digit_value_def digit_char_def)

lemma parse_decimal_inverse: "parse_decimal (decimal n) = n"
proof (induction n rule: decimal.induct)
  case (1 n)
  show ?case
  proof (cases "n < 10")
    case True
    then show ?thesis by (subst decimal.simps) (simp add: parse_decimal_def digit_value_char)
  next
    case False
    with 1 have "parse_decimal (decimal (n div 10)) = n div 10" by simp
    with False show ?thesis
      by (subst decimal.simps) (simp add: parse_decimal_def digit_value_char mult.commute)
  qed
qed

section \<open>Client requests\<close>

datatype ClientRequestType = REQ_INVAILD | REQ_NEW | REQ_CANCELED | REQ_Other u8

definition clientRequestTypeToString :: "ClientRequestType \<Rightarrow> string" where
  "clientRequestTypeToString t =
     (case t of
        REQ_INVAILD \<Rightarrow> ''INVAILD''
      | REQ_NEW \<Rightarrow> ''NEW''
      | REQ_CANCELED \<Rightarrow> ''CANCELED''
      | REQ_Other _ \<Rightarrow> ''UNKNOWN'')"

record MatchingEngineClientRequest =
  req_type :: ClientRequestType
  req_client_id :: ClientId
  req_symbol_id :: SymbolId
  req_order_id :: OrderId
  req_side :: Side
  req_price :: Price
  req_quantity :: Quantity

definition request_toString :: "MatchingEngineClientRequest \<Rightarrow> string" where
  "request_toString r =
     ''MatchingEngineClientRequest'' @ '' ['' @
     ''type:'' @ clientRequestTypeToString (req_type r) @
     '' client:'' @ dec_word (req_client_id r) @
     '' symbolId:'' @ dec_word (req_symbol_id r) @
     '' oid:'' @ dec_word (req_order_id r) @
     '' side:'' @ dec_word (side_byte (req_side r)) @
     '' quantity:'' @ dec_word (req_quantity r) @
     '' price:'' @ decimal_int (req_price r) @ '']''"

record OrderManagerClientRequest =
  omreq_seqNum :: u64
  omreq_request :: MatchingEngineClientRequest

definition om_request_toString :: "OrderManagerClientRequest \<Rightarrow> string" where
  "om_request_toString r =
     ''OrderManagerClientRequest'' @ '' ['' @ ''seqNum:'' @ dec_word (omreq_seqNum r) @ '' '' @
     request_toString (omreq_request r) @ '']''"

section \<open>Client responses\<close>

datatype ClientResponseType =
    RESP_INVALID | RESP_ACCEPTED | RESP_CANCELED | RESP_FILLED | RESP_CANCEL_REJECTED | RESP_Other u8

definition clientResponseTypeToString :: "ClientResponseType \<Rightarrow> string" where
  "clientResponseTypeToString t =
     (case t of
        RESP_ACCEPTED \<Rightarrow> ''ACCEPTED''
      | RESP_CANCELED \<Rightarrow> ''CANCELED''
      | RESP_FILLED \<Rightarrow> ''FILLED''
      | RESP_CANCEL_REJECTED \<Rightarrow> ''CANCEL_REJECTED''
      | RESP_INVALID \<Rightarrow> ''INVALID''
      | RESP_Other _ \<Rightarrow> ''UNKNOWN'')"

record MatchingEngineClientResponse =
  resp_type :: ClientResponseType
  resp_client_id :: ClientId
  resp_symbol_id :: SymbolId
  resp_client_order_id :: OrderId
  resp_market_order_id :: OrderId
  resp_side :: Side
  resp_price :: Price
  resp_executed_quantity :: Quantity
  resp_remaining_quantity :: Quantity

definition response_toString :: "MatchingEngineClientResponse \<Rightarrow> string" where
  "response_toString r =
     ''MatchingEngineClientResponse'' @ '' ['' @
     ''type:'' @ clientResponseTypeToString (resp_type r) @
     '' client:'' @ dec_word (resp_client_id r) @
     '' symbol:'' @ dec_word (resp_symbol_id r) @
     '' coid:'' @ dec_word (resp_client_order_id r) @
     (if resp_type r \<noteq> RESP_CANCEL_REJECTED then
        '' moid:'' @ dec_word (resp_market_order_id r) @
        '' side:'' @ dec_word (side_byte (resp_side r)) @
        '' executed_quantity:'' @ dec_word (resp_executed_quantity r) @
        '' remaining_quantity:'' @ dec_word (resp_remaining_quantity r) @
        '' price:'' @ decimal_int (resp_price r)
      else []) @ '']''"

record OrderManagerClientResponse =
  omresp_seqNum :: u64
  omresp_response :: MatchingEngineClientResponse

definition om_response_toString :: "OrderManagerClientResponse \<Rightarrow> string" where
  "om_response_toString r =
     ''OrderManagerClientResponse'' @ '' ['' @ ''seq:'' @ dec_word (omresp_seqNum r) @ '' '' @
     response_toString (omresp_response r) @ '']''"

section \<open>Market updates\<close>

datatype MarketUpdateType =
    MU_INVALID | MU_CLEAR | MU_ADD | MU_MODIFY | MU_CANCEL | MU_TRADE
  | MU_SNAPSHOT_START | MU_SNAPSHOT_END | MU_Other u8

definition marketUpdateTypeToString :: "MarketUpdateType \<Rightarrow> string" where
  "marketUpdateTypeToString t =
     (case t of
        MU_INVALID \<Rightarrow> ''INVALID''
      | MU_CLEAR \<Rightarrow> ''CLEAR''
      | MU_ADD \<Rightarrow> ''ADD''
      | MU_MODIFY \<Rightarrow> ''MODIFY''
      | MU_CANCEL \<Rightarrow> ''CANCEL''
      | MU_TRADE \<Rightarrow> ''TRADE''
      | MU_SNAPSHOT_START \<Rightarrow> ''SNAPSHOT_START''
      | MU_SNAPSHOT_END \<Rightarrow> ''SNAPSHOT_END''
      | MU_Other _ \<Rightarrow> ''UNKNOWN'')"

record MatchingEngineMarketUpdate =
  mu_type :: MarketUpdateType
  mu_symbol_id :: SymbolId
  mu_order_id :: OrderId
  mu_side :: Side
  mu_price :: Price
  mu_quantity :: Quantity
  mu_priority :: Priority

definition market_update_toString :: "MatchingEngineMarketUpdate \<Rightarrow> string" where
  "market_update_toString u =
     ''MatchingEngineMarketUpdate'' @ '' ['' @
     ''type:'' @ marketUpdateTypeToString (mu_type u) @
     '' symbol:'' @ dec_word (mu_symbol_id u) @
     '' orderId:'' @ dec_word (mu_order_id u) @
     '' side:'' @ dec_word (side_byte (mu_side u)) @
     '' price:'' @ decimal_int (mu_price u) @
     '' quantity:'' @ dec_word (mu_quantity u) @
     '' priority: '' @ dec_word (mu_priority u) @ '']''"

text \<open>\<open>seq_num\<close> is an \<open>ssize_t\<close>.\<close>

record MarketDataPublisherMarketUpdate =
  mdp_seq_num :: int
  mdp_update :: MatchingEngineMarketUpdate

definition mdp_toString :: "MarketDataPublisherMarketUpdate \<Rightarrow> string" where
  "mdp_toString m =
     ''MarketDataPublisherMarketUpdate'' @ '' ['' @ ''seq:'' @ decimal_int (mdp_seq_num m) @
     '' update:'' @ market_update_toString (mdp_update m) @ '']''"

text \<open>A value-initialised update, \<open>MatchingEngineMarketUpdate{}\<close>.\<close>

definition zero_update :: MatchingEngineMarketUpdate where
  "zero_update = \<lparr>mu_type = MU_INVALID, mu_symbol_id = 0, mu_order_id = 0, mu_side = Side_zero,
     mu_price = 0, mu_quantity = 0, mu_priority = 0\<rparr>"

end
