(* ===== verification/Book_Core.thy ===== *)
theory Book_Core
  imports Price_Levels Messages
begin

text \<open>
  The limit order book of one symbol, \<open>exchange::BookCore\<close> of \<open>exchange/matcher/book_core\<close>: two
  price-level sides over one node pool, the index from (client, client order id) to the resting
  order, the market order id counter and the two outgoing queues. What is written to a queue is
  appended to a list (the queue itself is \<open>LF_Queue\<close>). The two nested loops of \<open>Match\<close> are
  partial functions: not returning is the value \<open>None\<close>, which \<open>Match\<close> reports as \<open>Diverges\<close>.
\<close>

section \<open>State\<close>

record TakerOrder =
  tk_client_id :: ClientId
  tk_client_order_id :: OrderId
  tk_market_order_id :: OrderId
  tk_side :: Side
  tk_limit_tick :: int
  tk_quantity :: Quantity

type_synonym OrderIdTable = "nat \<Rightarrow> order_ptr option"
type_synonym ClientOrderIdTable = "nat \<Rightarrow> OrderIdTable option"

record BookCore =
  bk_symbol_id :: SymbolId
  bk_band :: PriceBand
  order_pool :: order_pool
  bids :: PriceLevels
  asks :: PriceLevels
  orders :: ClientOrderIdTable
  next_market_order_id :: OrderId
  client_responses :: "MatchingEngineClientResponse list"
  market_updates :: "MatchingEngineMarketUpdate list"

definition new_BookCore :: "bool \<Rightarrow> SymbolId \<Rightarrow> PriceBand \<Rightarrow> BookCore result" where
  "new_BookCore debug symbol band =
     bindE (new_PriceLevels BUY) (\<lambda>b.
     bindE (new_PriceLevels SELL) (\<lambda>a.
     bindE (ASSERT (IsValid band) ''Price band must be positive and representable'') (\<lambda>_.
     Inr \<lparr>bk_symbol_id = symbol, bk_band = band, order_pool = new_pool debug kMaxOrderIds,
          bids = b, asks = a, orders = (\<lambda>_. None), next_market_order_id = 1,
          client_responses = [], market_updates = []\<rparr>)))"

section \<open>Helpers\<close>

definition Levels :: "Side \<Rightarrow> BookCore \<Rightarrow> PriceLevels" where
  "Levels side b = (if side = BUY then bids b else asks b)"

definition set_Levels :: "Side \<Rightarrow> PriceLevels \<Rightarrow> BookCore \<Rightarrow> BookCore" where
  "set_Levels side pl b = (if side = BUY then b\<lparr>bids := pl\<rparr> else b\<lparr>asks := pl\<rparr>)"

definition OppositeLevels :: "Side \<Rightarrow> BookCore \<Rightarrow> PriceLevels" where
  "OppositeLevels side b = (if side = BUY then asks b else bids b)"

definition set_OppositeLevels :: "Side \<Rightarrow> PriceLevels \<Rightarrow> BookCore \<Rightarrow> BookCore" where
  "set_OppositeLevels side pl b = (if side = BUY then b\<lparr>asks := pl\<rparr> else b\<lparr>bids := pl\<rparr>)"

definition NextMarketOrderId :: "BookCore \<Rightarrow> OrderId \<times> BookCore" where
  "NextMarketOrderId b =
     (next_market_order_id b, b\<lparr>next_market_order_id := next_market_order_id b + 1\<rparr>)"

definition SendClientResponse :: "MatchingEngineClientResponse \<Rightarrow> BookCore \<Rightarrow> BookCore" where
  "SendClientResponse r b = b\<lparr>client_responses := client_responses b @ [r]\<rparr>"

definition SendMarketUpdate :: "MatchingEngineMarketUpdate \<Rightarrow> BookCore \<Rightarrow> BookCore" where
  "SendMarketUpdate u b = b\<lparr>market_updates := market_updates b @ [u]\<rparr>"

text \<open>The index is a table of tables; an index beyond a table is undefined behaviour.\<close>

definition FindOrder :: "ClientId \<Rightarrow> OrderId \<Rightarrow> BookCore \<Rightarrow> order_ptr option result" where
  "FindOrder cid coid b =
     (if kMaxNumClients \<le> unat cid then Inl Bad_Access
      else case orders b (unat cid) of
        None \<Rightarrow> Inr None
      | Some table \<Rightarrow> if kMaxOrderIds \<le> unat coid then Inl Bad_Access else Inr (table (unat coid)))"

definition IndexOrder :: "ClientId \<Rightarrow> OrderId \<Rightarrow> order_ptr \<Rightarrow> BookCore \<Rightarrow> BookCore result" where
  "IndexOrder cid coid order b =
     (if kMaxNumClients \<le> unat cid then Inl Bad_Access
      else
        let table = (case orders b (unat cid) of None \<Rightarrow> (\<lambda>_. None) | Some table \<Rightarrow> table) in
        if kMaxOrderIds \<le> unat coid then Inl Bad_Access
        else Inr (b\<lparr>orders := (orders b)(unat cid := Some (table(unat coid := Some order)))\<rparr>))"

definition UnindexOrder :: "ClientId \<Rightarrow> OrderId \<Rightarrow> BookCore \<Rightarrow> BookCore result" where
  "UnindexOrder cid coid b =
     (if kMaxNumClients \<le> unat cid then Inl Bad_Access
      else case orders b (unat cid) of
        None \<Rightarrow> Inr b
      | Some table \<Rightarrow>
          if kMaxOrderIds \<le> unat coid then Inl Bad_Access
          else Inr (b\<lparr>orders := (orders b)(unat cid := Some (table(unat coid := None)))\<rparr>))"

section \<open>Matching\<close>

text \<open>The body of the inner loop: one fill of the taker against the order at the queue head.\<close>

definition fill_maker :: "order_ptr \<Rightarrow> Price \<Rightarrow> TakerOrder \<Rightarrow> BookCore \<Rightarrow> (TakerOrder \<times> BookCore) result" where
  "fill_maker maker execution_price taker b =
     bindE (access (lookup (order_pool b) maker)) (\<lambda>n.
     let side = tk_side taker;
         maker_side = pl_side (OppositeLevels side b);
         executed = min (tk_quantity taker) (on_remaining_quantity n);
         taker' = taker\<lparr>tk_quantity := tk_quantity taker - executed\<rparr> in
     bindE (ApplyFill maker executed (order_pool b) (OppositeLevels side b)) (\<lambda>(pool1, pl1).
     let b1 = set_OppositeLevels side pl1 (b\<lparr>order_pool := pool1\<rparr>);
         b2 = SendClientResponse
                \<lparr>resp_type = RESP_FILLED, resp_client_id = tk_client_id taker',
                 resp_symbol_id = bk_symbol_id b1, resp_client_order_id = tk_client_order_id taker',
                 resp_market_order_id = tk_market_order_id taker', resp_side = tk_side taker',
                 resp_price = execution_price, resp_executed_quantity = executed,
                 resp_remaining_quantity = tk_quantity taker'\<rparr> b1 in
     bindE (access (lookup (order_pool b2) maker)) (\<lambda>m.
     let b3 = SendClientResponse
                \<lparr>resp_type = RESP_FILLED, resp_client_id = on_client_id m,
                 resp_symbol_id = bk_symbol_id b2, resp_client_order_id = on_client_order_id m,
                 resp_market_order_id = on_market_order_id m, resp_side = maker_side,
                 resp_price = execution_price, resp_executed_quantity = executed,
                 resp_remaining_quantity = on_remaining_quantity m\<rparr> b2;
         b4 = SendMarketUpdate
                \<lparr>mu_type = MU_TRADE, mu_symbol_id = bk_symbol_id b3, mu_order_id = on_market_order_id m,
                 mu_side = maker_side, mu_price = execution_price, mu_quantity = executed,
                 mu_priority = 0\<rparr> b3 in
     if on_remaining_quantity m = 0 then
       let b5 = SendMarketUpdate
                  \<lparr>mu_type = MU_CANCEL, mu_symbol_id = bk_symbol_id b4, mu_order_id = on_market_order_id m,
                   mu_side = maker_side, mu_price = execution_price, mu_quantity = 0,
                   mu_priority = 0\<rparr> b4 in
       bindE (UnindexOrder (on_client_id m) (on_client_order_id m) b5) (\<lambda>b6.
       bindE (RemoveOrder maker (order_pool b6) (OppositeLevels side b6)) (\<lambda>(pool2, pl2).
       Inr (taker', set_OppositeLevels side pl2 (b6\<lparr>order_pool := pool2\<rparr>))))
     else
       Inr (taker', SendMarketUpdate
                  \<lparr>mu_type = MU_MODIFY, mu_symbol_id = bk_symbol_id b4, mu_order_id = on_market_order_id m,
                   mu_side = maker_side, mu_price = execution_price,
                   mu_quantity = on_remaining_quantity m, mu_priority = on_priority m\<rparr> b4))))"

text \<open>The inner loop: fill against the queue of one level, head first.\<close>

partial_function (option) match_level ::
  "int \<Rightarrow> Price \<Rightarrow> TakerOrder \<Rightarrow> BookCore \<Rightarrow> (TakerOrder \<times> BookCore) result option" where
  "match_level maker_tick execution_price taker b =
     (if tk_quantity taker = 0 then Some (Inr (taker, b))
      else case first_order (LevelAt (OppositeLevels (tk_side taker) b) maker_tick) of
        None \<Rightarrow> Some (Inr (taker, b))
      | Some maker \<Rightarrow>
          (case fill_maker maker execution_price taker b of
             Inl e \<Rightarrow> Some (Inl e)
           | Inr (taker', b') \<Rightarrow> match_level maker_tick execution_price taker' b'))"

definition crosses :: "TakerOrder \<Rightarrow> int \<Rightarrow> bool" where
  "crosses taker maker_tick \<longleftrightarrow>
     (if tk_side taker = BUY then maker_tick \<le> tk_limit_tick taker
      else maker_tick \<ge> tk_limit_tick taker)"

text \<open>The outer loop: price levels of the other side, best first.\<close>

partial_function (option) match_levels ::
  "TakerOrder \<Rightarrow> BookCore \<Rightarrow> (TakerOrder \<times> BookCore) result option" where
  "match_levels taker b =
     (if tk_quantity taker = 0 then Some (Inr (taker, b))
      else
        let maker_tick = best_tick (OppositeLevels (tk_side taker) b) in
        if maker_tick = kInvalidTick then Some (Inr (taker, b))
        else if \<not> crosses taker maker_tick then Some (Inr (taker, b))
        else Option.bind (match_level maker_tick (ToPrice (bk_band b) maker_tick) taker b) (\<lambda>r.
          case r of Inl e \<Rightarrow> Some (Inl e) | Inr (taker', b') \<Rightarrow> match_levels taker' b'))"

definition Match :: "TakerOrder \<Rightarrow> BookCore \<Rightarrow> (Quantity \<times> BookCore) result" where
  "Match taker b =
     (case match_levels taker b of
        None \<Rightarrow> Inl Diverges
      | Some r \<Rightarrow> bindE r (\<lambda>(taker', b'). Inr (tk_quantity taker', b')))"

section \<open>Requests\<close>

definition Add ::
  "ClientId \<Rightarrow> OrderId \<Rightarrow> Side \<Rightarrow> Price \<Rightarrow> Quantity \<Rightarrow> BookCore \<Rightarrow> BookCore result" where
  "Add cid coid side price qty b =
     (let limit_tick = ToTick (bk_band b) price;
          (moid, b1) = NextMarketOrderId b;
          b2 = SendClientResponse
                 \<lparr>resp_type = RESP_ACCEPTED, resp_client_id = cid, resp_symbol_id = bk_symbol_id b1,
                  resp_client_order_id = coid, resp_market_order_id = moid, resp_side = side,
                  resp_price = price, resp_executed_quantity = 0, resp_remaining_quantity = qty\<rparr> b1
      in bindE (Match \<lparr>tk_client_id = cid, tk_client_order_id = coid, tk_market_order_id = moid,
                  tk_side = side, tk_limit_tick = limit_tick, tk_quantity = qty\<rparr> b2) (\<lambda>(remaining, b3).
         if remaining > 0 then
           bindE (AddOrder limit_tick cid coid moid remaining (order_pool b3) (Levels side b3))
             (\<lambda>(order, pool4, pl4).
           let b4 = set_Levels side pl4 (b3\<lparr>order_pool := pool4\<rparr>) in
           bindE (IndexOrder cid coid order b4) (\<lambda>b5.
           bindE (access (lookup (order_pool b5) order)) (\<lambda>n.
           Inr (SendMarketUpdate
                  \<lparr>mu_type = MU_ADD, mu_symbol_id = bk_symbol_id b5, mu_order_id = moid,
                   mu_side = side, mu_price = price, mu_quantity = remaining,
                   mu_priority = on_priority n\<rparr> b5))))
         else Inr b3))"

definition Cancel :: "ClientId \<Rightarrow> OrderId \<Rightarrow> BookCore \<Rightarrow> BookCore result" where
  "Cancel cid coid b =
     bindE (FindOrder cid coid b) (\<lambda>found.
     case found of
       None \<Rightarrow>
         Inr (SendClientResponse
                \<lparr>resp_type = RESP_CANCEL_REJECTED, resp_client_id = cid,
                 resp_symbol_id = bk_symbol_id b, resp_client_order_id = coid,
                 resp_market_order_id = 0, resp_side = Side_zero, resp_price = 0,
                 resp_executed_quantity = 0, resp_remaining_quantity = 0\<rparr> b)
     | Some order \<Rightarrow>
         bindE (access (lookup (order_pool b) order)) (\<lambda>n.
         bindE (deref (on_level n)) (\<lambda>level.
         let side = (if Owns (bids b) level then BUY else SELL);
             price = ToPrice (bk_band b) (IndexOf (Levels side b) level);
             b1 = SendClientResponse
                    \<lparr>resp_type = RESP_CANCELED, resp_client_id = cid,
                     resp_symbol_id = bk_symbol_id b, resp_client_order_id = coid,
                     resp_market_order_id = on_market_order_id n, resp_side = side,
                     resp_price = price, resp_executed_quantity = 0,
                     resp_remaining_quantity = on_remaining_quantity n\<rparr> b;
             b2 = SendMarketUpdate
                    \<lparr>mu_type = MU_CANCEL, mu_symbol_id = bk_symbol_id b1,
                     mu_order_id = on_market_order_id n, mu_side = side, mu_price = price,
                     mu_quantity = 0, mu_priority = 0\<rparr> b1 in
         bindE (UnindexOrder cid coid b2) (\<lambda>b3.
         bindE (RemoveOrder order (order_pool b3) (Levels side b3)) (\<lambda>(pool4, pl4).
         Inr (set_Levels side pl4 (b3\<lparr>order_pool := pool4\<rparr>)))))))"

text \<open>Printing for debugging.\<close>

definition node_toString :: "OrderNode \<Rightarrow> string" where
  "node_toString n = ''OrderNode'' @ '' ['' @
     '' clientId:'' @ dec_word (on_client_id n) @ '' clientOId:'' @ dec_word (on_client_order_id n) @
     '' marketOId:'' @ dec_word (on_market_order_id n) @
     '' remaining_quantity:'' @ dec_word (on_remaining_quantity n) @
     '' priority:'' @ dec_word (on_priority n) @
     '' inBook:'' @ (if on_level n \<noteq> None then ''yes'' else ''no'') @ '']''"

definition fifo_level_toString :: "FIFOLevel \<Rightarrow> string" where
  "fifo_level_toString lv = ''FIFOLevel'' @ '' ['' @
     '' total_quantity:'' @ dec_word (total_quantity lv) @
     '' next_priority:'' @ dec_word (next_priority lv) @
     '' firstOrder:'' @ (if first_order lv \<noteq> None then ''exists'' else ''nullptr'') @ '']''"

definition book_toString :: "bool \<Rightarrow> bool \<Rightarrow> BookCore \<Rightarrow> string" where
  "book_toString detailed validityCheck b = []"

end
