(* ===== verification/Book_Spec.thy ===== *)
theory Book_Spec
  imports Book_Core
begin

text \<open>
  What the order book promises, without pointers, pools, bitmaps and loops. A side of the
  abstract book maps each tick to the queue of resting orders at it, in time order, and the
  next priority; an incoming order is matched against the crossing ticks of the other side from
  the best on, each queue from its head on. The messages are a function of the fills.
\<close>

section \<open>Abstract book\<close>

record alevel =
  al_queue :: "resting list"
  al_next :: Priority

definition empty_alevel :: alevel where "empty_alevel = \<lparr>al_queue = [], al_next = 1\<rparr>"

type_synonym aside = "nat \<Rightarrow> alevel"

text \<open>The bids are the side \<open>True\<close>, the asks the side \<open>False\<close>.\<close>

record abook =
  ab_side :: "bool \<Rightarrow> aside"
  ab_next :: OrderId

definition empty_abook :: abook where
  "empty_abook = \<lparr>ab_side = (\<lambda>_ _. empty_alevel), ab_next = 1\<rparr>"

definition dir :: "bool \<Rightarrow> Side" where "dir s = (if s then BUY else SELL)"

definition put_queue :: "nat \<Rightarrow> resting list \<Rightarrow> aside \<Rightarrow> aside" where
  "put_queue t q s = s(t := if q = [] then empty_alevel else (s t)\<lparr>al_queue := q\<rparr>)"

definition push_order :: "nat \<Rightarrow> resting \<Rightarrow> aside \<Rightarrow> aside" where
  "push_order t r s = s(t := \<lparr>al_queue = al_queue (s t) @ [r], al_next = al_next (s t) + 1\<rparr>)"

definition upd_side :: "bool \<Rightarrow> (aside \<Rightarrow> aside) \<Rightarrow> abook \<Rightarrow> abook" where
  "upd_side s f ab = ab\<lparr>ab_side := (ab_side ab)(s := f (ab_side ab s))\<rparr>"

section \<open>Price-time priority matching\<close>

text \<open>A fill: the tick, the resting order as it was before it, and the quantity executed.\<close>

record fill =
  f_tick :: nat
  f_maker :: resting
  f_qty :: Quantity

fun fill_queue :: "nat \<Rightarrow> Quantity \<Rightarrow> resting list \<Rightarrow> fill list \<times> Quantity \<times> resting list" where
  "fill_queue t q [] = ([], q, [])"
| "fill_queue t q (r # rs) =
     (if q = 0 then ([], 0, r # rs)
      else
        let e = min q (r_qty r); f = \<lparr>f_tick = t, f_maker = r, f_qty = e\<rparr> in
        if r_qty r - e = 0 then
          (case fill_queue t (q - e) rs of (fs, q', rs') \<Rightarrow> (f # fs, q', rs'))
        else ([f], q - e, r\<lparr>r_qty := r_qty r - e\<rparr> # rs))"

fun fill_levels :: "nat list \<Rightarrow> Quantity \<Rightarrow> aside \<Rightarrow> fill list \<times> Quantity \<times> aside" where
  "fill_levels [] q s = ([], q, s)"
| "fill_levels (t # ts) q s =
     (if q = 0 then ([], 0, s)
      else case fill_queue t q (al_queue (s t)) of (fs, q', rs) \<Rightarrow>
        (case fill_levels ts q' (put_queue t rs s) of (gs, q'', s') \<Rightarrow> (fs @ gs, q'', s')))"

definition tick_crosses :: "bool \<Rightarrow> int \<Rightarrow> nat \<Rightarrow> bool" where
  "tick_crosses buy limit t \<longleftrightarrow> (if buy then int t \<le> limit else limit \<le> int t)"

text \<open>The occupied ticks of the other side a taker may trade at, best first.\<close>

definition crossing_ticks :: "bool \<Rightarrow> int \<Rightarrow> aside \<Rightarrow> nat list" where
  "crossing_ticks buy limit s =
     filter (\<lambda>t. al_queue (s t) \<noteq> [] \<and> tick_crosses buy limit t)
       (if buy then [0..<kTickCount] else rev [0..<kTickCount])"

section \<open>Messages\<close>

definition taker_response ::
  "SymbolId \<Rightarrow> PriceBand \<Rightarrow> TakerOrder \<Rightarrow> Quantity \<Rightarrow> fill \<Rightarrow> MatchingEngineClientResponse" where
  "taker_response symbol band k q f =
     \<lparr>resp_type = RESP_FILLED, resp_client_id = tk_client_id k, resp_symbol_id = symbol,
      resp_client_order_id = tk_client_order_id k, resp_market_order_id = tk_market_order_id k,
      resp_side = tk_side k, resp_price = ToPrice band (int (f_tick f)),
      resp_executed_quantity = f_qty f, resp_remaining_quantity = q\<rparr>"

definition maker_response ::
  "SymbolId \<Rightarrow> PriceBand \<Rightarrow> Side \<Rightarrow> fill \<Rightarrow> MatchingEngineClientResponse" where
  "maker_response symbol band side f =
     \<lparr>resp_type = RESP_FILLED, resp_client_id = r_client (f_maker f), resp_symbol_id = symbol,
      resp_client_order_id = r_coid (f_maker f), resp_market_order_id = r_moid (f_maker f),
      resp_side = side, resp_price = ToPrice band (int (f_tick f)),
      resp_executed_quantity = f_qty f, resp_remaining_quantity = r_qty (f_maker f) - f_qty f\<rparr>"

fun fill_responses ::
  "SymbolId \<Rightarrow> PriceBand \<Rightarrow> TakerOrder \<Rightarrow> Quantity \<Rightarrow> fill list \<Rightarrow> MatchingEngineClientResponse list" where
  "fill_responses symbol band k q [] = []"
| "fill_responses symbol band k q (f # fs) =
     taker_response symbol band k (q - f_qty f) f #
     maker_response symbol band (dir (tk_side k \<noteq> BUY)) f #
     fill_responses symbol band k (q - f_qty f) fs"

definition order_update ::
  "MarketUpdateType \<Rightarrow> SymbolId \<Rightarrow> PriceBand \<Rightarrow> Side \<Rightarrow> nat \<Rightarrow> OrderId \<Rightarrow> Quantity \<Rightarrow> Priority \<Rightarrow>
   MatchingEngineMarketUpdate" where
  "order_update ty symbol band side t moid qty prio =
     \<lparr>mu_type = ty, mu_symbol_id = symbol, mu_order_id = moid, mu_side = side,
      mu_price = ToPrice band (int t), mu_quantity = qty, mu_priority = prio\<rparr>"

definition fill_update :: "SymbolId \<Rightarrow> PriceBand \<Rightarrow> Side \<Rightarrow> fill \<Rightarrow> MatchingEngineMarketUpdate list" where
  "fill_update symbol band side f =
     [order_update MU_TRADE symbol band side (f_tick f) (r_moid (f_maker f)) (f_qty f) 0,
      if r_qty (f_maker f) - f_qty f = 0
      then order_update MU_CANCEL symbol band side (f_tick f) (r_moid (f_maker f)) 0 0
      else order_update MU_MODIFY symbol band side (f_tick f) (r_moid (f_maker f))
             (r_qty (f_maker f) - f_qty f) (r_prio (f_maker f))]"

definition fill_updates :: "SymbolId \<Rightarrow> PriceBand \<Rightarrow> Side \<Rightarrow> fill list \<Rightarrow> MatchingEngineMarketUpdate list" where
  "fill_updates symbol band side fs = concat (map (fill_update symbol band side) fs)"

section \<open>Requests\<close>

record outcome =
  out_book :: abook
  out_fills :: "fill list"
  out_left :: Quantity
  out_responses :: "MatchingEngineClientResponse list"
  out_updates :: "MatchingEngineMarketUpdate list"

definition accepted ::
  "SymbolId \<Rightarrow> ClientId \<Rightarrow> OrderId \<Rightarrow> OrderId \<Rightarrow> Side \<Rightarrow> Price \<Rightarrow> Quantity \<Rightarrow> MatchingEngineClientResponse" where
  "accepted symbol cid coid moid side price qty =
     \<lparr>resp_type = RESP_ACCEPTED, resp_client_id = cid, resp_symbol_id = symbol,
      resp_client_order_id = coid, resp_market_order_id = moid, resp_side = side,
      resp_price = price, resp_executed_quantity = 0, resp_remaining_quantity = qty\<rparr>"

definition spec_add ::
  "SymbolId \<Rightarrow> PriceBand \<Rightarrow> ClientId \<Rightarrow> OrderId \<Rightarrow> Side \<Rightarrow> Price \<Rightarrow> Quantity \<Rightarrow> abook \<Rightarrow> outcome" where
  "spec_add symbol band cid coid side price qty ab =
     (let limit = ToTick band price; moid = ab_next ab; buy = (side = BUY);
          k = \<lparr>tk_client_id = cid, tk_client_order_id = coid, tk_market_order_id = moid,
               tk_side = side, tk_limit_tick = limit, tk_quantity = qty\<rparr>;
          opp = ab_side ab (\<not> buy) in
      case fill_levels (crossing_ticks buy limit opp) qty opp of (fs, q, opp') \<Rightarrow>
        let ab1 = upd_side (\<not> buy) (\<lambda>_. opp') (ab\<lparr>ab_next := moid + 1\<rparr>);
            prio = al_next (ab_side ab1 buy (nat limit)) in
        \<lparr>out_book =
           (if q = 0 then ab1
            else upd_side buy (push_order (nat limit) \<lparr>r_client = cid, r_coid = coid, r_moid = moid,
                                  r_qty = q, r_prio = prio\<rparr>) ab1),
         out_fills = fs, out_left = q,
         out_responses = accepted symbol cid coid moid side price qty #
           fill_responses symbol band k qty fs,
         out_updates = fill_updates symbol band (dir (\<not> buy)) fs @
           (if q = 0 then []
            else [\<lparr>mu_type = MU_ADD, mu_symbol_id = symbol, mu_order_id = moid, mu_side = side,
                   mu_price = price, mu_quantity = q, mu_priority = prio\<rparr>])\<rparr>)"

definition has_key :: "ClientId \<Rightarrow> OrderId \<Rightarrow> resting \<Rightarrow> bool" where
  "has_key cid coid r \<longleftrightarrow> r_client r = cid \<and> r_coid r = coid"

text \<open>Where an order rests: its side, its tick and itself.\<close>

definition spec_find :: "ClientId \<Rightarrow> OrderId \<Rightarrow> abook \<Rightarrow> (bool \<times> nat \<times> resting) option" where
  "spec_find cid coid ab =
     (case concat (map (\<lambda>s. concat (map (\<lambda>t.
             map (\<lambda>r. (s, t, r)) (filter (has_key cid coid) (al_queue (ab_side ab s t))))
             [0..<kTickCount])) [True, False]) of
        [] \<Rightarrow> None | x # _ \<Rightarrow> Some x)"

definition spec_cancel :: "SymbolId \<Rightarrow> PriceBand \<Rightarrow> ClientId \<Rightarrow> OrderId \<Rightarrow> abook \<Rightarrow> outcome" where
  "spec_cancel symbol band cid coid ab =
     (case spec_find cid coid ab of
        None \<Rightarrow>
          \<lparr>out_book = ab, out_fills = [], out_left = 0,
           out_responses = [\<lparr>resp_type = RESP_CANCEL_REJECTED, resp_client_id = cid,
              resp_symbol_id = symbol, resp_client_order_id = coid, resp_market_order_id = 0,
              resp_side = Side_zero, resp_price = 0, resp_executed_quantity = 0,
              resp_remaining_quantity = 0\<rparr>],
           out_updates = []\<rparr>
      | Some (s, t, r) \<Rightarrow>
          \<lparr>out_book = upd_side s (\<lambda>a. put_queue t (remove1 r (al_queue (a t))) a) ab,
           out_fills = [], out_left = 0,
           out_responses = [\<lparr>resp_type = RESP_CANCELED, resp_client_id = cid,
              resp_symbol_id = symbol, resp_client_order_id = coid, resp_market_order_id = r_moid r,
              resp_side = dir s, resp_price = ToPrice band (int t), resp_executed_quantity = 0,
              resp_remaining_quantity = r_qty r\<rparr>],
           out_updates = [order_update MU_CANCEL symbol band (dir s) t (r_moid r) 0 0]\<rparr>)"

end
