(* ===== verification/Book_Refine.thy ===== *)
theory Book_Refine
  imports Book_Spec
begin

text \<open>
  \<open>BookCore\<close> implements the abstract book: the abstraction function walks the linked queues of
  both sides; on a book whose pointers, index and aggregates are consistent, \<open>Add\<close> and \<open>Cancel\<close>
  return without a fault, keep that consistency, and have exactly the effect and the messages
  of \<open>spec_add\<close> and \<open>spec_cancel\<close>.
\<close>

section \<open>Abstraction\<close>

definition sideof :: "bool \<Rightarrow> BookCore \<Rightarrow> PriceLevels" where
  "sideof s b = (if s then bids b else asks b)"

text \<open>The lookup the index answers, whatever tables it has allocated.\<close>

definition idx :: "BookCore \<Rightarrow> nat \<Rightarrow> nat \<Rightarrow> order_ptr option" where
  "idx b c k = (case orders b c of None \<Rightarrow> None | Some table \<Rightarrow> table k)"

type_synonym queues = "bool \<Rightarrow> nat \<Rightarrow> order_ptr list"

definition book_rel :: "BookCore \<Rightarrow> queues \<Rightarrow> bool" where
  "book_rel b Q \<longleftrightarrow>
     pool_inv (order_pool b) \<and> mp_capacity (order_pool b) = kMaxOrderIds \<and> IsValid (bk_band b) \<and>
     (\<forall>s. pl_side (sideof s b) = dir s \<and> side_rel (lookup (order_pool b)) (sideof s b) (Q s)) \<and>
     dom (lookup (order_pool b)) = side_ptrs (Q True) \<union> side_ptrs (Q False) \<and>
     (\<forall>i n. lookup (order_pool b) i = Some n \<longrightarrow>
        unat (on_client_id n) < kMaxNumClients \<and> unat (on_client_order_id n) < kMaxOrderIds) \<and>
     (\<forall>c k i. idx b c k = Some i \<longleftrightarrow>
        (\<exists>n. lookup (order_pool b) i = Some n \<and> unat (on_client_id n) = c \<and>
             unat (on_client_order_id n) = k))"

definition abs_with :: "BookCore \<Rightarrow> queues \<Rightarrow> abook" where
  "abs_with b Q =
     \<lparr>ab_side = (\<lambda>s t. \<lparr>al_queue = map (rest (lookup (order_pool b))) (Q s t),
                        al_next = next_priority (levels (sideof s b) t)\<rparr>),
      ab_next = next_market_order_id b\<rparr>"

lemma sideof_simps [simp]:
  "Levels side b = sideof (side = BUY) b" "OppositeLevels side b = sideof (side \<noteq> BUY) b"
  by (simp_all add: Levels_def OppositeLevels_def sideof_def)

definition set_side :: "bool \<Rightarrow> PriceLevels \<Rightarrow> BookCore \<Rightarrow> BookCore" where
  "set_side s pl b = (if s then b\<lparr>bids := pl\<rparr> else b\<lparr>asks := pl\<rparr>)"

lemma set_side_simps [simp]:
  "set_Levels side pl b = set_side (side = BUY) pl b"
  "set_OppositeLevels side pl b = set_side (side \<noteq> BUY) pl b"
  by (simp_all add: set_Levels_def set_OppositeLevels_def set_side_def)

lemma set_side_fields [simp]:
  "sideof s (set_side s' pl b) = (if s = s' then pl else sideof s b)"
  "order_pool (set_side s' pl b) = order_pool b" "orders (set_side s' pl b) = orders b"
  "bk_symbol_id (set_side s' pl b) = bk_symbol_id b" "bk_band (set_side s' pl b) = bk_band b"
  "next_market_order_id (set_side s' pl b) = next_market_order_id b"
  "client_responses (set_side s' pl b) = client_responses b"
  "market_updates (set_side s' pl b) = market_updates b"
  by (auto simp: set_side_def sideof_def)

lemma set_side_upd [simp]:
  "(set_side s pl b)\<lparr>order_pool := p\<rparr> = set_side s pl (b\<lparr>order_pool := p\<rparr>)"
  "(set_side s pl b)\<lparr>orders := f\<rparr> = set_side s pl (b\<lparr>orders := f\<rparr>)"
  "(set_side s pl b)\<lparr>client_responses := r\<rparr> = set_side s pl (b\<lparr>client_responses := r\<rparr>)"
  "(set_side s pl b)\<lparr>market_updates := u\<rparr> = set_side s pl (b\<lparr>market_updates := u\<rparr>)"
  "set_side s pl (set_side s pl' b) = set_side s pl b"
  by (simp_all add: set_side_def)

lemma sideof_other_fields [simp]:
  "sideof s (b\<lparr>order_pool := p\<rparr>) = sideof s b" "sideof s (b\<lparr>orders := f\<rparr>) = sideof s b"
  "sideof s (b\<lparr>client_responses := r\<rparr>) = sideof s b" "sideof s (b\<lparr>market_updates := u\<rparr>) = sideof s b"
  "sideof s (b\<lparr>next_market_order_id := m\<rparr>) = sideof s b"
  by (simp_all add: sideof_def)

lemma idx_other_fields [simp]:
  "idx (set_side s' pl b) = idx b" "idx (b\<lparr>order_pool := p\<rparr>) = idx b"
  "idx (b\<lparr>client_responses := r\<rparr>) = idx b" "idx (b\<lparr>market_updates := u\<rparr>) = idx b"
  "idx (b\<lparr>next_market_order_id := m\<rparr>) = idx b"
  by (auto simp: idx_def fun_eq_iff)

text \<open>Walking the links from a queue head visits exactly the queue.\<close>

fun walk :: "nat \<Rightarrow> heap \<Rightarrow> order_ptr option \<Rightarrow> order_ptr list" where
  "walk 0 h p = []"
| "walk (Suc k) h None = []"
| "walk (Suc k) h (Some i) = (case h i of None \<Rightarrow> [] | Some n \<Rightarrow> i # walk k h (on_next n))"

definition book_queues :: "BookCore \<Rightarrow> queues" where
  "book_queues b s t =
     walk (mp_in_use (order_pool b)) (lookup (order_pool b)) (first_order (levels (sideof s b) t))"

definition book_abs :: "BookCore \<Rightarrow> abook" where "book_abs b = abs_with b (book_queues b)"

lemma walk_none [simp]: "walk k h None = []"
  by (cases k) auto

lemma walk_chain: "chain h lp p q None \<Longrightarrow> length q \<le> k \<Longrightarrow> walk k h (head_or None q) = q"
proof (induction q arbitrary: p k)
  case (Cons i q)
  then obtain k' n where "k = Suc k'" "h i = Some n" "on_next n = head_or None q" by (cases k) auto
  with Cons show ?case by auto
qed simp

lemma book_rel_queues:
  assumes rel: "book_rel b Q"
  shows "book_queues b = Q"
proof (intro ext)
  fix s t
  have inv: "pool_inv (order_pool b)" and sr: "side_rel (lookup (order_pool b)) (sideof s b) (Q s)"
    using rel by (auto simp: book_rel_def)
  then have ok: "level_ok (lookup (order_pool b)) (pl_side (sideof s b), t) (levels (sideof s b) t) (Q s t)"
    by (simp add: side_rel_def)
  have sub: "set (Q s t) \<subseteq> dom (lookup (order_pool b))"
    using side_rel_live [OF sr] by blast
  have "length (Q s t) = card (set (Q s t))" using ok by (simp add: level_ok_def distinct_card)
  also have "\<dots> \<le> mp_in_use (order_pool b)"
    using card_mono [OF pool_live_card(1) [OF inv] sub] pool_live_card(2) [OF inv] by simp
  finally have len: "length (Q s t) \<le> mp_in_use (order_pool b)" .
  have ch: "chain (lookup (order_pool b)) (pl_side (sideof s b), t) None (Q s t) None"
    and fo: "first_order (levels (sideof s b) t) = head_or None (Q s t)"
    using ok by (auto simp: level_ok_def)
  show "book_queues b s t = Q s t" unfolding book_queues_def fo by (rule walk_chain [OF ch len])
qed

lemma book_abs_eq: "book_rel b Q \<Longrightarrow> book_abs b = abs_with b Q"
  by (simp add: book_abs_def book_rel_queues)

section \<open>The index\<close>

lemma FindOrder_rel:
  assumes "book_rel b Q" and "unat cid < kMaxNumClients" and "unat coid < kMaxOrderIds"
  shows "FindOrder cid coid b = Inr (idx b (unat cid) (unat coid))"
  using assms(2,3) by (auto simp: FindOrder_def idx_def split: option.splits)

lemma UnindexOrder_ok:
  assumes "unat cid < kMaxNumClients" and "unat coid < kMaxOrderIds"
  shows "\<exists>f. UnindexOrder cid coid b = Inr (b\<lparr>orders := f\<rparr>) \<and>
    idx (b\<lparr>orders := f\<rparr>) = (\<lambda>c k. if c = unat cid \<and> k = unat coid then None else idx b c k)"
proof (cases "orders b (unat cid)")
  case None
  then show ?thesis using assms
    by (intro exI [of _ "orders b"]) (auto simp: UnindexOrder_def idx_def fun_eq_iff split: option.splits)
next
  case (Some table)
  then show ?thesis using assms
    by (intro exI [of _ "(orders b)(unat cid := Some (table(unat coid := None)))"])
      (auto simp: UnindexOrder_def idx_def fun_eq_iff split: option.splits)
qed

lemma IndexOrder_ok:
  assumes "unat cid < kMaxNumClients" and "unat coid < kMaxOrderIds"
  shows "\<exists>f. IndexOrder cid coid i b = Inr (b\<lparr>orders := f\<rparr>) \<and>
    idx (b\<lparr>orders := f\<rparr>) = (\<lambda>c k. if c = unat cid \<and> k = unat coid then Some i else idx b c k)"
  using assms
  by (intro exI [of _ "(orders b)(unat cid := Some ((case orders b (unat cid) of None \<Rightarrow> (\<lambda>_. None)
      | Some table \<Rightarrow> table)(unat coid := Some i)))"])
    (auto simp: IndexOrder_def idx_def fun_eq_iff Let_def split: option.splits)

section \<open>One side changes, the other does not\<close>

lemma book_relD:
  assumes "book_rel b Q"
  shows "pool_inv (order_pool b)" "mp_capacity (order_pool b) = kMaxOrderIds" "IsValid (bk_band b)"
    "pl_side (sideof s b) = dir s" "side_rel (lookup (order_pool b)) (sideof s b) (Q s)"
    "dom (lookup (order_pool b)) = side_ptrs (Q True) \<union> side_ptrs (Q False)"
  using assms by (auto simp: book_rel_def)

lemma book_rel_bounds:
  assumes "book_rel b Q" and "lookup (order_pool b) i = Some n"
  shows "unat (on_client_id n) < kMaxNumClients" "unat (on_client_order_id n) < kMaxOrderIds"
  using assms by (auto simp: book_rel_def)

lemma book_rel_idx:
  "book_rel b Q \<Longrightarrow> idx b c k = Some i \<longleftrightarrow>
     (\<exists>n. lookup (order_pool b) i = Some n \<and> unat (on_client_id n) = c \<and> unat (on_client_order_id n) = k)"
  by (auto simp: book_rel_def)

lemma dir_inj [simp]: "dir s = dir s' \<longleftrightarrow> s = s'"
  by (auto simp: dir_def)

lemma book_rel_live:
  assumes "book_rel b Q" and "i \<in> set (Q s t)"
  shows "\<exists>n. lookup (order_pool b) i = Some n \<and> on_level n = Some (dir s, t)"
  using side_rel_live [OF book_relD(5) [OF assms(1)] assms(2)] book_relD(4) [OF assms(1)] by metis

lemma book_rel_place:
  assumes "book_rel b Q" and "i \<in> set (Q s t)" and "i \<in> set (Q s' t')"
  shows "s = s' \<and> t = t'"
  using book_rel_live [OF assms(1,2)] book_rel_live [OF assms(1,3)] by auto

lemma book_rel_disjoint:
  assumes "book_rel b Q" and "i \<in> side_ptrs (Q (\<not> s))"
  shows "i \<notin> side_ptrs (Q s)"
  using assms book_rel_place [OF assms(1)] by (fastforce simp: side_ptrs_def)

lemma book_rel_dom:
  assumes "book_rel b Q"
  shows "dom (lookup (order_pool b)) = side_ptrs (Q s) \<union> side_ptrs (Q (\<not> s))"
  using book_relD(6) [OF assms] by (cases s) auto

lemma book_rel_upd:
  assumes rel: "book_rel b Q"
    and b': "order_pool b' = p'" "sideof s b' = pl'" "sideof (\<not> s) b' = sideof (\<not> s) b"
      "bk_band b' = bk_band b"
    and p': "pool_inv p'" "mp_capacity p' = kMaxOrderIds"
    and pl': "pl_side pl' = dir s" "side_rel (lookup p') pl' q"
    and frame: "\<forall>i \<in> side_ptrs (Q (\<not> s)). lookup p' i = lookup (order_pool b) i"
    and dom': "dom (lookup p') = side_ptrs q \<union> side_ptrs (Q (\<not> s))"
    and bnd: "\<And>i n. lookup p' i = Some n \<Longrightarrow>
        unat (on_client_id n) < kMaxNumClients \<and> unat (on_client_order_id n) < kMaxOrderIds"
    and ix: "\<And>c k i. idx b' c k = Some i \<longleftrightarrow>
        (\<exists>n. lookup p' i = Some n \<and> unat (on_client_id n) = c \<and> unat (on_client_order_id n) = k)"
  shows "book_rel b' (Q(s := q)) \<and>
    abs_with b' (Q(s := q)) =
       (abs_with b Q)\<lparr>ab_side := (ab_side (abs_with b Q))(s := (\<lambda>t.
          \<lparr>al_queue = map (rest (lookup p')) (q t), al_next = next_priority (levels pl' t)\<rparr>)),
        ab_next := next_market_order_id b'\<rparr>"
proof (rule conjI)
  have other: "side_rel (lookup p') (sideof (\<not> s) b') (Q (\<not> s))"
    using side_rel_frame [OF frame] book_relD(5) [OF rel, of "\<not> s"] b'(3) by simp
  have "pl_side (sideof s' b') = dir s' \<and> side_rel (lookup p') (sideof s' b') ((Q(s := q)) s')" for s'
  proof (cases "s' = s")
    case False
    then have s': "s' = (\<not> s)" by auto
    show ?thesis unfolding s' using b'(3) other book_relD(4) [OF rel, of "\<not> s"] by simp
  qed (use b'(2) pl' in simp)
  moreover have "dom (lookup p') = side_ptrs ((Q(s := q)) True) \<union> side_ptrs ((Q(s := q)) False)"
    using dom' by (cases s) auto
  ultimately show "book_rel b' (Q(s := q))"
    using b' p' bnd ix book_relD(3) [OF rel] unfolding book_rel_def by simp
  have "ab_side (abs_with b' (Q(s := q))) s' = ((ab_side (abs_with b Q))(s := (\<lambda>t.
          \<lparr>al_queue = map (rest (lookup p')) (q t), al_next = next_priority (levels pl' t)\<rparr>))) s'" for s'
  proof (cases "s' = s")
    case False
    then have s': "s' = (\<not> s)" by auto
    show ?thesis unfolding s' using b' frame by (auto simp: abs_with_def fun_eq_iff side_ptrs_def)
  qed (use b' in \<open>simp add: abs_with_def\<close>)
  then show "abs_with b' (Q(s := q)) =
       (abs_with b Q)\<lparr>ab_side := (ab_side (abs_with b Q))(s := (\<lambda>t.
          \<lparr>al_queue = map (rest (lookup p')) (q t), al_next = next_priority (levels pl' t)\<rparr>)),
        ab_next := next_market_order_id b'\<rparr>"
    by (simp add: abs_with_def fun_eq_iff)
qed

lemma data_rest:
  assumes "map_option node_data (h' i) = map_option node_data (h i)" and "h i \<noteq> None"
  shows "rest h' i = rest h i"
  using assms by (auto simp: node_data_def)

lemma data_rest_map:
  assumes "\<And>i. i \<noteq> x \<Longrightarrow> map_option node_data (h' i) = map_option node_data (h i)"
    and "x \<notin> set q" and "\<And>i. i \<in> set q \<Longrightarrow> h i \<noteq> None"
  shows "map (rest h') q = map (rest h) q"
proof (rule map_cong [OF refl])
  fix i assume i: "i \<in> set q"
  then have "i \<noteq> x" using assms(2) by blast
  then show "rest h' i = rest h i" using data_rest [of h' i h] assms(1,3) i by simp
qed

lemma data_keys:
  assumes "map_option node_data (h' i) = map_option node_data (h i)" and "h' i = Some n'"
  shows "\<exists>n. h i = Some n \<and> on_client_id n' = on_client_id n \<and>
    on_client_order_id n' = on_client_order_id n"
  using assms by (cases "h i") (auto simp: node_data_def resting_of_def)

lemma side_ptrs_remove:
  assumes "q t = as @ x # bs" and "x \<notin> set as" and "x \<notin> set bs" and "\<And>u. u \<noteq> t \<Longrightarrow> x \<notin> set (q u)"
  shows "side_ptrs (q(t := as @ bs)) = side_ptrs q - {x}"
proof (rule set_eqI)
  fix i
  have "i \<in> set (q u) \<Longrightarrow> i \<noteq> x \<Longrightarrow> i \<in> set ((q(t := as @ bs)) u)" for u
    using assms(1) by (cases "u = t") auto
  moreover have "i \<in> set ((q(t := as @ bs)) u) \<Longrightarrow> i \<in> set (q u) \<and> i \<noteq> x" for u
    using assms by (cases "u = t") auto
  ultimately show "i \<in> side_ptrs (q(t := as @ bs)) \<longleftrightarrow> i \<in> side_ptrs q - {x}"
    unfolding side_ptrs_def by blast
qed

text \<open>What the pool holds after one node has left, and the index without its entry.\<close>

lemma removed_node:
  assumes rel: "book_rel b Q" and x: "x \<in> set (Q s t)" "lookup (order_pool b) x = Some n"
    and gone: "lookup p' x = None"
    and data: "\<And>i. i \<noteq> x \<Longrightarrow> map_option node_data (lookup p' i) = map_option node_data (lookup (order_pool b) i)"
    and ix: "\<And>c l. ix c l = (if c = unat (on_client_id n) \<and> l = unat (on_client_order_id n)
           then None else idx b c l)"
  shows "dom (lookup p') = (side_ptrs (Q s) - {x}) \<union> side_ptrs (Q (\<not> s))"
    "lookup p' i = Some m \<Longrightarrow> unat (on_client_id m) < kMaxNumClients \<and> unat (on_client_order_id m) < kMaxOrderIds"
    "ix c l = Some i \<longleftrightarrow>
       (\<exists>m. lookup p' i = Some m \<and> unat (on_client_id m) = c \<and> unat (on_client_order_id m) = l)"
proof -
  let ?h = "lookup (order_pool b)"
  have other: "x \<notin> side_ptrs (Q (\<not> s))"
    using book_rel_disjoint [OF rel, of x s] x(1) by (auto simp: side_ptrs_def)
  have live: "lookup p' j \<noteq> None \<longleftrightarrow> j \<noteq> x \<and> ?h j \<noteq> None" for j
    using gone data [of j] by (cases "j = x"; cases "lookup p' j"; cases "?h j") auto
  then have "dom (lookup p') = dom ?h - {x}" by (auto simp: domIff)
  then show "dom (lookup p') = (side_ptrs (Q s) - {x}) \<union> side_ptrs (Q (\<not> s))"
    using book_rel_dom [OF rel, of s] other by auto
  have keys: "\<exists>m'. ?h j = Some m' \<and> on_client_id m = on_client_id m' \<and> on_client_order_id m = on_client_order_id m'"
    if "lookup p' j = Some m" for j m
    using that gone data [of j] data_keys [of "lookup p'" j ?h m] by (cases "j = x") auto
  then show "lookup p' i = Some m \<Longrightarrow> unat (on_client_id m) < kMaxNumClients \<and> unat (on_client_order_id m) < kMaxOrderIds"
    using book_rel_bounds [OF rel] by metis
  have kept: "\<exists>m. lookup p' j = Some m \<and> on_client_id m = on_client_id m' \<and> on_client_order_id m = on_client_order_id m'"
    if "?h j = Some m'" "j \<noteq> x" for j m'
    using data_keys [of ?h j "lookup p'" m'] data [of j] that by auto
  show "ix c l = Some i \<longleftrightarrow>
       (\<exists>m. lookup p' i = Some m \<and> unat (on_client_id m) = c \<and> unat (on_client_order_id m) = l)"
  proof (cases "c = unat (on_client_id n) \<and> l = unat (on_client_order_id n)")
    case True
    then have only: "idx b c l = Some x" using book_rel_idx [OF rel] x(2) by blast
    have "\<not> (\<exists>m. lookup p' i = Some m \<and> unat (on_client_id m) = c \<and> unat (on_client_order_id m) = l)"
    proof
      assume "\<exists>m. lookup p' i = Some m \<and> unat (on_client_id m) = c \<and> unat (on_client_order_id m) = l"
      then obtain m where m: "lookup p' i = Some m" "unat (on_client_id m) = c" "unat (on_client_order_id m) = l" by blast
      then have "idx b c l = Some i" using keys [OF m(1)] book_rel_idx [OF rel, of c l i] by metis
      with only m(1) gone show False by simp
    qed
    with True ix show ?thesis by simp
  next
    case False
    then have "i \<noteq> x" if "?h i = Some m" "unat (on_client_id m) = c" "unat (on_client_order_id m) = l" for m
      using that x(2) by auto
    then show ?thesis using False ix book_rel_idx [OF rel, of c l i] keys [of i] kept [of i] by (smt (verit, best))
  qed
qed

section \<open>One fill\<close>

text \<open>
  What matching keeps apart from the sides: the symbol, the band, the id counter, no more
  nodes in the pool and no new entry in the index.
\<close>

definition same_env :: "BookCore \<Rightarrow> BookCore \<Rightarrow> bool" where
  "same_env b' b \<longleftrightarrow> bk_symbol_id b' = bk_symbol_id b \<and> bk_band b' = bk_band b \<and>
     next_market_order_id b' = next_market_order_id b \<and>
     mp_in_use (order_pool b') \<le> mp_in_use (order_pool b) \<and>
     (\<forall>c l. idx b c l = None \<longrightarrow> idx b' c l = None)"

lemma fill_maker_ok:
  assumes rel: "book_rel b Q" and s: "s = (tk_side k \<noteq> BUY)" and q: "Q s t = x # xs"
  defines "r \<equiv> rest (lookup (order_pool b)) x"
  defines "f \<equiv> \<lparr>f_tick = t, f_maker = r, f_qty = min (tk_quantity k) (r_qty r)\<rparr>"
  defines "k' \<equiv> k\<lparr>tk_quantity := tk_quantity k - f_qty f\<rparr>"
  defines "qs \<equiv> map (rest (lookup (order_pool b))) xs"
  shows "\<exists>b' ys. fill_maker x (ToPrice (bk_band b) (int t)) k b = Inr (k', b') \<and>
    book_rel b' (Q(s := (Q s)(t := ys))) \<and>
    ys = (if r_qty r - f_qty f = 0 then xs else x # xs) \<and>
    abs_with b' (Q(s := (Q s)(t := ys))) = upd_side s
      (put_queue t (if r_qty r - f_qty f = 0 then qs else r\<lparr>r_qty := r_qty r - f_qty f\<rparr> # qs)) (abs_with b Q) \<and>
    same_env b' b \<and>
    client_responses b' = client_responses b @
      [taker_response (bk_symbol_id b) (bk_band b) k (tk_quantity k') f,
       maker_response (bk_symbol_id b) (bk_band b) (dir s) f] \<and>
    market_updates b' = market_updates b @ fill_update (bk_symbol_id b) (bk_band b) (dir s) f"
proof -
  define h where "h = lookup (order_pool b)"
  define e where "e = min (tk_quantity k) (r_qty r)"
  have inv: "pool_inv (order_pool b)" and sr: "side_rel h (sideof s b) (Q s)" and d: "pl_side (sideof s b) = dir s"
    using book_relD [OF rel] by (auto simp: h_def)
  have xin: "x \<in> set (Q s t)" using q by simp
  obtain n where n: "h x = Some n" using book_rel_live [OF rel xin] by (auto simp: h_def)
  have r: "r = resting_of n" using n by (simp add: r_def h_def)
  have e_le: "e \<le> on_remaining_quantity n" by (simp add: e_def r resting_of_def)
  define n' where "n' = n\<lparr>on_remaining_quantity := on_remaining_quantity n - e\<rparr>"
  from ApplyFill_ok [OF sr [unfolded h_def] inv xin n [unfolded h_def] e_le]
  obtain p1 pl1 where fill: "ApplyFill x e (order_pool b) (sideof s b) = Inr (p1, pl1)" "pool_inv p1"
      "mp_capacity p1 = mp_capacity (order_pool b)" "mp_in_use p1 = mp_in_use (order_pool b)" "lookup p1 = h(x \<mapsto> n')"
      "side_rel (lookup p1) pl1 (Q s)" "pl_side pl1 = dir s"
      "\<And>u. next_priority (levels pl1 u) = next_priority (levels (sideof s b) u)"
    using d by (auto simp: h_def n'_def)
  have keys: "unat (on_client_id n) < kMaxNumClients" "unat (on_client_order_id n) < kMaxOrderIds"
    using book_rel_bounds [OF rel] n by (auto simp: h_def)
  have rq: "r_qty r = on_remaining_quantity n" "f_qty f = e"
    by (simp_all add: r resting_of_def f_def e_def)
  define B where "B = b\<lparr>order_pool := p1,
      client_responses := client_responses b @
        [taker_response (bk_symbol_id b) (bk_band b) k (tk_quantity k') f,
         maker_response (bk_symbol_id b) (bk_band b) (dir s) f]\<rparr>"
  define B1 where "B1 = set_side s pl1 B"
  define trade where "trade = order_update MU_TRADE (bk_symbol_id b) (bk_band b) (dir s) t (r_moid r) e 0"
  define gone where "gone = order_update MU_CANCEL (bk_symbol_id b) (bk_band b) (dir s) t (r_moid r) 0 0"
  define kept where "kept = order_update MU_MODIFY (bk_symbol_id b) (bk_band b) (dir s) t (r_moid r)
      (r_qty r - e) (r_prio r)"
  have msgs: "f_tick f = t" "f_maker f = r" by (simp_all add: f_def)
  have pool1: "lookup p1 x = Some n'" using fill(5) by simp
  have run: "fill_maker x (ToPrice (bk_band b) (int t)) k b =
    (if r_qty r - e = 0 then
       bindE (UnindexOrder (on_client_id n) (on_client_order_id n)
          (B1\<lparr>market_updates := market_updates b @ [trade, gone]\<rparr>)) (\<lambda>b6.
       bindE (RemoveOrder x (order_pool b6) (sideof s b6)) (\<lambda>(pool2, pl2).
       Inr (k', set_side s pl2 (b6\<lparr>order_pool := pool2\<rparr>))))
     else Inr (k', B1\<lparr>market_updates := market_updates b @ [trade, kept]\<rparr>))"
  proof -
    have eqs: "lookup (order_pool b) x = Some n" "min (tk_quantity k) (on_remaining_quantity n) = e"
        "(tk_side k \<noteq> BUY) = s" "on_remaining_quantity n' = r_qty r - e"
        "on_client_id n' = on_client_id n" "on_client_order_id n' = on_client_order_id n"
        "on_market_order_id n' = r_moid r" "on_priority n' = r_prio r"
      using n s rq by (simp_all add: h_def e_def n'_def r resting_of_def)
    have k': "k\<lparr>tk_quantity := tk_quantity k - e\<rparr> = k'" by (simp add: k'_def rq)
    show ?thesis
      unfolding fill_maker_def Let_def sideof_simps set_side_simps
      apply (simp only: eqs access_simps bindE_simps fill(1) d k' split_conv)
      by (simp add: SendClientResponse_def SendMarketUpdate_def pool1 eqs d B1_def B_def trade_def
          gone_def kept_def order_update_def taker_response_def maker_response_def msgs rq k'_def)
        (simp add: r resting_of_def)
  qed
  have xq: "x \<notin> set (Q s u)" if "u \<noteq> t" for u using book_rel_place [OF rel xin] that by blast
  have dist: "x \<notin> set xs" using sr q by (auto simp: side_rel_def level_ok_def dest: spec [of _ t])
  have other_x: "x \<notin> side_ptrs (Q (\<not> s))" using book_rel_disjoint [OF rel, of x s] xin by (auto simp: side_ptrs_def)
  show ?thesis
  proof (cases "r_qty r - e = 0")
    case False
    define b' where "b' = B1\<lparr>market_updates := market_updates b @ [trade, kept]\<rparr>"
    have b': "order_pool b' = p1" "sideof s b' = pl1" "sideof (\<not> s) b' = sideof (\<not> s) b"
        "bk_band b' = bk_band b" "idx b' = idx b" "next_market_order_id b' = next_market_order_id b"
      by (simp_all add: b'_def B1_def B_def)
    have key: "(\<exists>m. lookup p1 i = Some m \<and> unat (on_client_id m) = c \<and> unat (on_client_order_id m) = l)
       \<longleftrightarrow> (\<exists>m. h i = Some m \<and> unat (on_client_id m) = c \<and> unat (on_client_order_id m) = l)" for i c l
      using fill(5) n by (auto simp: n'_def)
    have "book_rel b' (Q(s := Q s)) \<and>
      abs_with b' (Q(s := Q s)) = (abs_with b Q)\<lparr>ab_side := (ab_side (abs_with b Q))(s := (\<lambda>u.
          \<lparr>al_queue = map (rest (lookup p1)) (Q s u), al_next = next_priority (levels pl1 u)\<rparr>)),
        ab_next := next_market_order_id b'\<rparr>"
    proof (rule book_rel_upd [OF rel b'(1-4)])
      show "\<forall>i \<in> side_ptrs (Q (\<not> s)). lookup p1 i = lookup (order_pool b) i"
        using fill(5) other_x by (auto simp: h_def)
      show "dom (lookup p1) = side_ptrs (Q s) \<union> side_ptrs (Q (\<not> s))"
        using fill(5) n book_rel_dom [OF rel, of s] by (auto simp: h_def)
      show "unat (on_client_id m) < kMaxNumClients \<and> unat (on_client_order_id m) < kMaxOrderIds"
        if "lookup p1 i = Some m" for i m
        using that fill(5) keys book_rel_bounds [OF rel, of i] by (auto simp: h_def n'_def split: if_splits)
      show "idx b' c l = Some i \<longleftrightarrow>
        (\<exists>m. lookup p1 i = Some m \<and> unat (on_client_id m) = c \<and> unat (on_client_order_id m) = l)" for c l i
        using book_rel_idx [OF rel] key b'(5) by (simp add: h_def)
    qed (use fill book_relD(2) [OF rel] in auto)
    moreover have "(\<lambda>u. \<lparr>al_queue = map (rest (lookup p1)) (Q s u), al_next = next_priority (levels pl1 u)\<rparr>) =
      put_queue t (r\<lparr>r_qty := r_qty r - e\<rparr> # qs) (ab_side (abs_with b Q) s)"
    proof (rule ext)
      fix u
      show "\<lparr>al_queue = map (rest (lookup p1)) (Q s u), al_next = next_priority (levels pl1 u)\<rparr> =
        put_queue t (r\<lparr>r_qty := r_qty r - e\<rparr> # qs) (ab_side (abs_with b Q) s) u"
      proof (cases "u = t")
        case True
        have "map (rest (lookup p1)) xs = qs" using fill(5) dist by (auto simp: qs_def h_def)
        then show ?thesis using True q fill(5,8)
          by (simp add: put_queue_def abs_with_def n'_def r resting_of_def)
      next
        case False
        have "map (rest (lookup p1)) (Q s u) = map (rest h) (Q s u)" using fill(5) xq [OF False] by auto
        then show ?thesis using False fill(8) by (simp add: put_queue_def abs_with_def h_def)
      qed
    qed
    moreover have "fill_maker x (ToPrice (bk_band b) (int t)) k b = Inr (k', b')"
      using run False by (simp add: b'_def)
    moreover have "fill_update (bk_symbol_id b) (bk_band b) (dir s) f = [trade, kept]"
      using False rq(1) by (simp add: fill_update_def msgs rq(2) trade_def kept_def)
    ultimately show ?thesis using False q b'(4,6)
      by (intro exI [of _ b'] exI [of _ "x # xs"])
        (simp add: rq upd_side_def same_env_def b'_def B1_def B_def fun_upd_idem fill(4), simp add: abs_with_def)
  next
    case True
    define B2 where "B2 = B1\<lparr>market_updates := market_updates b @ [trade, gone]\<rparr>"
    from UnindexOrder_ok [OF keys, of B2] obtain tables where
      un: "UnindexOrder (on_client_id n) (on_client_order_id n) B2 = Inr (B2\<lparr>orders := tables\<rparr>)"
        "idx (B2\<lparr>orders := tables\<rparr>) = (\<lambda>c l. if c = unat (on_client_id n) \<and> l = unat (on_client_order_id n)
           then None else idx B2 c l)" by blast
    from RemoveOrder_ok [OF fill(6,2), of t "[]" x xs n'] q pool1 obtain p2 pl2 where
      rm: "RemoveOrder x p1 pl1 = Inr (p2, pl2)" "pool_inv p2" "mp_capacity p2 = mp_capacity p1" "mp_in_use p2 + 1 = mp_in_use p1"
        "side_rel (lookup p2) pl2 ((Q s)(t := xs))" "pl_side pl2 = dir s" "lookup p2 x = None"
        "\<And>i. i \<noteq> x \<Longrightarrow> map_option node_data (lookup p2 i) = map_option node_data (lookup p1 i)"
        "\<And>i. i \<notin> side_ptrs (Q s) \<Longrightarrow> lookup p2 i = lookup p1 i"
        "\<And>u. next_priority (levels pl2 u) = (if u = t \<and> xs = [] then 1 else next_priority (levels pl1 u))"
      using fill(7) by auto
    have data: "map_option node_data (lookup p2 i) = map_option node_data (h i)" if "i \<noteq> x" for i
      using rm(8) [OF that] fill(5) that by simp
    define b' where "b' = set_side s pl2 (B2\<lparr>orders := tables, order_pool := p2\<rparr>)"
    have b': "order_pool b' = p2" "sideof s b' = pl2" "sideof (\<not> s) b' = sideof (\<not> s) b"
        "bk_band b' = bk_band b" "next_market_order_id b' = next_market_order_id b"
      by (simp_all add: b'_def B2_def B1_def B_def)
    have ix: "idx b' = (\<lambda>c l. if c = unat (on_client_id n) \<and> l = unat (on_client_order_id n)
           then None else idx b c l)"
      using un(2) by (simp add: b'_def B2_def B1_def B_def idx_def fun_eq_iff)
    note facts = rel xin n [unfolded h_def] rm(7) data [unfolded h_def]
    have ix': "idx b' c l = (if c = unat (on_client_id n) \<and> l = unat (on_client_order_id n)
           then None else idx b c l)" for c l by (simp add: ix)
    have removed1: "dom (lookup p2) = (side_ptrs (Q s) - {x}) \<union> side_ptrs (Q (\<not> s))"
      using facts ix' by (rule removed_node(1))
    have "book_rel b' (Q(s := (Q s)(t := xs))) \<and>
      abs_with b' (Q(s := (Q s)(t := xs))) = (abs_with b Q)\<lparr>ab_side := (ab_side (abs_with b Q))(s := (\<lambda>u.
          \<lparr>al_queue = map (rest (lookup p2)) (((Q s)(t := xs)) u), al_next = next_priority (levels pl2 u)\<rparr>)),
        ab_next := next_market_order_id b'\<rparr>"
    proof (rule book_rel_upd [OF rel b'(1-4)])
      show "\<forall>i \<in> side_ptrs (Q (\<not> s)). lookup p2 i = lookup (order_pool b) i"
        using rm(9) fill(5) other_x book_rel_disjoint [OF rel] by (auto simp: h_def)
      show "dom (lookup p2) = side_ptrs ((Q s)(t := xs)) \<union> side_ptrs (Q (\<not> s))"
        using side_ptrs_remove [of "Q s" t "[]" x xs] q dist xq removed1 by simp
      show "unat (on_client_id m) < kMaxNumClients \<and> unat (on_client_order_id m) < kMaxOrderIds"
        if "lookup p2 i = Some m" for i m
        using facts ix' that by (rule removed_node(2))
      show "idx b' c l = Some i \<longleftrightarrow>
        (\<exists>m. lookup p2 i = Some m \<and> unat (on_client_id m) = c \<and> unat (on_client_order_id m) = l)" for c l i
        using facts ix' by (rule removed_node(3))
    qed (use fill rm book_relD(2) [OF rel] in auto)
    moreover have "(\<lambda>u. \<lparr>al_queue = map (rest (lookup p2)) (((Q s)(t := xs)) u), al_next = next_priority (levels pl2 u)\<rparr>) =
      put_queue t qs (ab_side (abs_with b Q) s)"
    proof (rule ext)
      fix u
      show "\<lparr>al_queue = map (rest (lookup p2)) (((Q s)(t := xs)) u), al_next = next_priority (levels pl2 u)\<rparr> =
        put_queue t qs (ab_side (abs_with b Q) s) u"
      proof (cases "u = t")
        case True
        have "map (rest (lookup p2)) xs = qs"
          unfolding qs_def h_def [symmetric]
          by (rule data_rest_map [OF data dist]) (use q book_rel_live [OF rel, of _ s t] in \<open>auto simp: h_def\<close>)
        then show ?thesis using True rm(10) fill(8) by (auto simp: put_queue_def abs_with_def empty_alevel_def)
      next
        case False
        have "map (rest (lookup p2)) (Q s u) = map (rest h) (Q s u)"
          by (rule data_rest_map [OF data xq [OF False]]) (use book_rel_live [OF rel, of _ s u] in \<open>auto simp: h_def\<close>)
        then show ?thesis using False rm(10) fill(8) by (simp add: put_queue_def abs_with_def h_def)
      qed
    qed
    moreover have "fill_maker x (ToPrice (bk_band b) (int t)) k b = Inr (k', b')"
      using run True un(1) rm(1) by (simp add: b'_def B2_def B1_def B_def)
    moreover have "fill_update (bk_symbol_id b) (bk_band b) (dir s) f = [trade, gone]"
      using True rq(1) by (simp add: fill_update_def msgs rq(2) trade_def gone_def)
    ultimately show ?thesis using True b'(4,5)
      by (intro exI [of _ b'] exI [of _ xs])
        (simp add: rq upd_side_def same_env_def ix, use fill(4) rm(4) in
          \<open>simp add: b'_def B2_def B1_def B_def abs_with_def\<close>)
  qed
qed

section \<open>The matching loops\<close>

lemma abs_queue: "al_queue (ab_side (abs_with b Q) s t) = map (rest (lookup (order_pool b))) (Q s t)"
  by (simp add: abs_with_def)

lemma put_queue_same:
  assumes "book_rel b Q"
  shows "put_queue t (al_queue (ab_side (abs_with b Q) s t)) (ab_side (abs_with b Q) s) = ab_side (abs_with b Q) s"
proof -
  have "level_ok (lookup (order_pool b)) (pl_side (sideof s b), t) (levels (sideof s b) t) (Q s t)"
    using book_relD(5) [OF assms] by (simp add: side_rel_def)
  then have "Q s t = [] \<Longrightarrow> next_priority (levels (sideof s b) t) = 1" by (simp add: level_ok_def)
  then show ?thesis by (auto simp: put_queue_def abs_with_def empty_alevel_def fun_eq_iff)
qed

lemma put_queue_seq: "(q' = [] \<longrightarrow> q = []) \<Longrightarrow> put_queue t q (put_queue t q' s) = put_queue t q s"
  by (simp add: put_queue_def)

lemma upd_side_comp: "upd_side s f (upd_side s g ab) = upd_side s (\<lambda>a. f (g a)) ab"
  by (simp add: upd_side_def)

lemma upd_side_id: "f (ab_side ab s) = ab_side ab s \<Longrightarrow> upd_side s f ab = ab"
  by (simp add: upd_side_def)

lemma first_order_rel:
  assumes "book_rel b Q"
  shows "first_order (levels (sideof s b) t) = head_or None (Q s t)"
  using book_relD(5) [OF assms, of s] by (simp add: side_rel_def level_ok_def)

lemma fill_queue_zero: "fill_queue t 0 rs = ([], 0, rs)"
  by (cases rs) auto

text \<open>The effect of filling against the queue of tick \<open>t\<close> on side \<open>s\<close>, with what it leaves there.\<close>

definition level_filled ::
  "BookCore \<Rightarrow> queues \<Rightarrow> bool \<Rightarrow> nat \<Rightarrow> TakerOrder \<Rightarrow> fill list \<Rightarrow> resting list \<Rightarrow> BookCore \<Rightarrow>
   order_ptr list \<Rightarrow> bool" where
  "level_filled b Q s t k fs rs b' q' \<longleftrightarrow>
     book_rel b' (Q(s := (Q s)(t := q'))) \<and>
     abs_with b' (Q(s := (Q s)(t := q'))) = upd_side s (put_queue t rs) (abs_with b Q) \<and>
     same_env b' b \<and>
     client_responses b' = client_responses b @
       fill_responses (bk_symbol_id b) (bk_band b) k (tk_quantity k) fs \<and>
     market_updates b' = market_updates b @ fill_updates (bk_symbol_id b) (bk_band b) (dir s) fs"

lemma level_filled_none:
  assumes "book_rel b Q" and "rs = map (rest (lookup (order_pool b))) (Q s t)"
  shows "level_filled b Q s t k [] rs b (Q s t)"
proof -
  have "upd_side s (put_queue t rs) (abs_with b Q) = abs_with b Q"
    using put_queue_same [OF assms(1), of t s] assms(2) by (intro upd_side_id) (simp add: abs_queue)
  then show ?thesis using assms(1) by (simp add: level_filled_def same_env_def fill_updates_def)
qed

lemma level_filled_queue:
  "level_filled b Q s t k fs rs b' q' \<Longrightarrow> map (rest (lookup (order_pool b'))) q' = rs"
  using abs_queue [of b' "Q(s := (Q s)(t := q'))" s t]
  by (auto simp: level_filled_def upd_side_def put_queue_def empty_alevel_def split: if_splits)

lemma fill_responses_taker:
  "tk_side k' = tk_side k \<Longrightarrow> tk_client_id k' = tk_client_id k \<Longrightarrow>
   tk_client_order_id k' = tk_client_order_id k \<Longrightarrow> tk_market_order_id k' = tk_market_order_id k \<Longrightarrow>
   fill_responses symbol band k' q fs = fill_responses symbol band k q fs"
  by (induction fs arbitrary: q) (simp_all add: taker_response_def)

lemma level_filled_step:
  assumes "level_filled b Q s t k [f] rs1 b1 q1" and "s = (tk_side k \<noteq> BUY)"
    and "level_filled b1 (Q(s := (Q s)(t := q1))) s t (k\<lparr>tk_quantity := tk_quantity k - f_qty f\<rparr>) fs rs b' q'"
    and "rs1 = [] \<longrightarrow> rs = []"
  shows "level_filled b Q s t k (f # fs) rs b' q'"
  using assms
  by (auto simp: level_filled_def same_env_def upd_side_comp put_queue_seq fill_updates_def
      fill_responses_taker [of "k\<lparr>tk_quantity := _\<rparr>" k])

lemma fill_maker_filled:
  assumes "book_rel b Q" and "s = (tk_side k \<noteq> BUY)" and "Q s t = x # xs"
  defines "r \<equiv> rest (lookup (order_pool b)) x"
  defines "f \<equiv> \<lparr>f_tick = t, f_maker = r, f_qty = min (tk_quantity k) (r_qty r)\<rparr>"
  shows "\<exists>b'. fill_maker x (ToPrice (bk_band b) (int t)) k b =
      Inr (k\<lparr>tk_quantity := tk_quantity k - f_qty f\<rparr>, b') \<and>
    (if r_qty r - f_qty f = 0
     then level_filled b Q s t k [f] (map (rest (lookup (order_pool b))) xs) b' xs
     else level_filled b Q s t k [f]
       (r\<lparr>r_qty := r_qty r - f_qty f\<rparr> # map (rest (lookup (order_pool b))) xs) b' (x # xs))"
  using fill_maker_ok [OF assms(1-3)] assms(2) unfolding r_def [symmetric] f_def [symmetric]
  by (auto simp: level_filled_def same_env_def fill_updates_def split: if_splits)

lemma match_level_ok:
  assumes "book_rel b Q" and "s = (tk_side k \<noteq> BUY)"
    and "fill_queue t (tk_quantity k) (map (rest (lookup (order_pool b))) (Q s t)) = (fs, left, rs)"
  shows "\<exists>b' q'. match_level (int t) (ToPrice (bk_band b) (int t)) k b = Some (Inr (k\<lparr>tk_quantity := left\<rparr>, b')) \<and>
    level_filled b Q s t k fs rs b' q'"
  using assms
proof (induction "Q s t" arbitrary: b Q k fs)
  case Nil
  then have "tk_quantity k = left" "rs = []" "fs = []" by auto
  moreover have "match_level (int t) (ToPrice (bk_band b) (int t)) k b = Some (Inr (k, b))"
    using Nil first_order_rel [OF Nil.prems(1), of s t]
    by (subst match_level.simps) (simp add: LevelAt_def)
  ultimately show ?case using level_filled_none [OF Nil.prems(1), of rs s t k] Nil.hyps
    by (intro exI [of _ b] exI [of _ "[]"]) auto
next
  case (Cons x xs)
  note step = match_level.simps [of "int t" "ToPrice (bk_band b) (int t)" k b]
  show ?case
  proof (cases "tk_quantity k = 0")
    case True
    then have "left = 0" "fs = []" "rs = map (rest (lookup (order_pool b))) (Q s t)"
      using Cons.prems(3) by (simp_all add: fill_queue_zero)
    with True level_filled_none [OF Cons.prems(1), of rs s t k] step show ?thesis
      by (intro exI [of _ b] exI [of _ "Q s t"]) auto
  next
    case False
    define r where "r = rest (lookup (order_pool b)) x"
    define f where "f = \<lparr>f_tick = t, f_maker = r, f_qty = min (tk_quantity k) (r_qty r)\<rparr>"
    define k' where "k' = k\<lparr>tk_quantity := tk_quantity k - f_qty f\<rparr>"
    have q: "Q s t = x # xs" using Cons.hyps(2) by simp
    from fill_maker_filled [OF Cons.prems(1,2) q, folded r_def, folded f_def] obtain b1 where
      run: "fill_maker x (ToPrice (bk_band b) (int t)) k b = Inr (k', b1)"
      and res: "if r_qty r - f_qty f = 0
        then level_filled b Q s t k [f] (map (rest (lookup (order_pool b))) xs) b1 xs
        else level_filled b Q s t k [f]
          (r\<lparr>r_qty := r_qty r - f_qty f\<rparr> # map (rest (lookup (order_pool b))) xs) b1 (x # xs)"
      unfolding k'_def by blast
    have next_step: "match_level (int t) (ToPrice (bk_band b) (int t)) k b =
        match_level (int t) (ToPrice (bk_band b) (int t)) k' b1"
      using False first_order_rel [OF Cons.prems(1), of s t] q Cons.prems(2) run
      by (subst step) (simp add: LevelAt_def)
    show ?thesis
    proof (cases "r_qty r - f_qty f = 0")
      case True
      define Q1 where "Q1 = Q(s := (Q s)(t := xs))"
      have lf: "level_filled b Q s t k [f] (map (rest (lookup (order_pool b))) xs) b1 xs" using res True by simp
      obtain fs' where fs': "fill_queue t (tk_quantity k') (map (rest (lookup (order_pool b))) xs) = (fs', left, rs)"
          "fs = f # fs'"
        using Cons.prems(3) q False True
        by (auto simp: r_def [symmetric] f_def k'_def Let_def split: prod.splits)
      have rel1: "book_rel b1 Q1" and env: "bk_band b1 = bk_band b"
        using lf by (auto simp: level_filled_def same_env_def Q1_def)
      have q1: "xs = Q1 s t" by (simp add: Q1_def)
      have "fill_queue t (tk_quantity k') (map (rest (lookup (order_pool b1))) (Q1 s t)) = (fs', left, rs)"
        unfolding q1 [symmetric] level_filled_queue [OF lf] by (rule fs'(1))
      from Cons.hyps(1) [OF q1 rel1 _ this] Cons.prems(2) env obtain b' q' where
        b': "match_level (int t) (ToPrice (bk_band b) (int t)) k' b1 = Some (Inr (k'\<lparr>tk_quantity := left\<rparr>, b'))"
          "level_filled b1 Q1 s t k' fs' rs b' q'"
        by (auto simp: k'_def)
      have "map (rest (lookup (order_pool b))) xs = [] \<longrightarrow> rs = []" using fs'(1) by auto
      with level_filled_step [OF lf Cons.prems(2), of fs' rs b' q'] b' fs'(2) next_step show ?thesis
        by (intro exI [of _ b'] exI [of _ q']) (simp add: k'_def Q1_def)
    next
      case part: False
      have all: "f_qty f = tk_quantity k" using part by (auto simp: f_def min_def split: if_splits)
      have "fs = [f]" "left = 0" "rs = r\<lparr>r_qty := r_qty r - f_qty f\<rparr> # map (rest (lookup (order_pool b))) xs"
        using Cons.prems(3) q False part all
        by (auto simp: r_def [symmetric] f_def Let_def split: prod.splits if_splits)
      moreover have "match_level (int t) (ToPrice (bk_band b) (int t)) k' b1 = Some (Inr (k', b1))"
        using all by (subst match_level.simps) (simp add: k'_def)
      ultimately show ?thesis using res part next_step all
        by (intro exI [of _ b1] exI [of _ "x # xs"]) (simp add: k'_def)
    qed
  qed
qed

text \<open>The outer loop visits the crossing ticks in order.\<close>

lemma sorted_filter_upt: "sorted (filter P [0..<n])"
  by (simp add: sorted_wrt_filter)

lemma crossing_set:
  "set (crossing_ticks buy limit a) = {t. t < kTickCount \<and> al_queue (a t) \<noteq> [] \<and> tick_crosses buy limit t}"
  by (auto simp: crossing_ticks_def)

lemma crossing_head:
  assumes "crossing_ticks buy limit a = t # ts" and "u \<in> set ts"
  shows "if buy then t \<le> u else u \<le> t"
proof (cases buy)
  case True
  then have "sorted (crossing_ticks buy limit a)" by (simp add: crossing_ticks_def sorted_filter_upt)
  then have "sorted (t # ts)" by (simp only: assms(1))
  with True assms(2) show ?thesis by simp
next
  case False
  then have "sorted (rev (crossing_ticks buy limit a))"
    by (simp add: crossing_ticks_def rev_filter sorted_filter_upt)
  then have "sorted (rev (t # ts))" by (simp only: assms(1))
  with False assms(2) show ?thesis by (simp add: sorted_append)
qed

lemma crossing_best:
  assumes S: "S = {t. al_queue (a t) \<noteq> []}" and sub: "S \<subseteq> {..<kTickCount}"
  shows "crossing_ticks buy limit a = [] \<Longrightarrow>
      S = {} \<or> (\<exists>u. best_of (dir (\<not> buy)) S = int u \<and> \<not> tick_crosses buy limit u)"
    "crossing_ticks buy limit a = t # ts \<Longrightarrow>
      best_of (dir (\<not> buy)) S = int t \<and> tick_crosses buy limit t \<and> t \<in> S"
proof -
  have fin: "finite S" using sub finite_subset by blast
  have lst: "set (crossing_ticks buy limit a) = {t \<in> S. tick_crosses buy limit t}"
    using sub by (auto simp: crossing_set S)
  show "S = {} \<or> (\<exists>u. best_of (dir (\<not> buy)) S = int u \<and> \<not> tick_crosses buy limit u)"
    if "crossing_ticks buy limit a = []"
  proof (cases "S = {}")
    case False
    define u where "u = (if buy then Min S else Max S)"
    have "u \<in> S" using fin False by (simp add: u_def)
    then have "\<not> tick_crosses buy limit u" using lst that by auto
    moreover have "best_of (dir (\<not> buy)) S = int u" using False by (simp add: best_of_def u_def dir_def)
    ultimately show ?thesis by blast
  qed simp
  show "best_of (dir (\<not> buy)) S = int t \<and> tick_crosses buy limit t \<and> t \<in> S"
    if L: "crossing_ticks buy limit a = t # ts"
  proof -
    have t: "t \<in> S" "tick_crosses buy limit t" using lst L by auto
    have head: "if buy then t \<le> u else u \<le> t" if "u \<in> S" for u
    proof (cases "tick_crosses buy limit u")
      case True
      then have "u \<in> set (t # ts)" using that lst L by auto
      then show ?thesis using crossing_head [OF L] by auto
    next
      case False
      then show ?thesis using t(2) by (auto simp: tick_crosses_def split: if_splits)
    qed
    have "(if buy then Min S else Max S) = t"
      using head t(1) fin by (auto intro!: Min_eqI Max_eqI)
    then show ?thesis using t by (auto simp: best_of_def dir_def split: if_splits)
  qed
qed

lemma crossing_rest:
  assumes "crossing_ticks buy limit a = t # ts"
  shows "crossing_ticks buy limit (put_queue t [] a) = ts"
proof -
  have "distinct (crossing_ticks buy limit a)" by (simp add: crossing_ticks_def)
  then have nt: "t \<notin> set ts" using assms by simp
  have "crossing_ticks buy limit (put_queue t [] a) = filter (\<lambda>u. u \<noteq> t) (crossing_ticks buy limit a)"
    unfolding crossing_ticks_def filter_filter
    by (intro filter_cong) (auto simp: put_queue_def empty_alevel_def)
  also have "\<dots> = ts" using assms nt by (auto intro!: filter_True)
  finally show ?thesis .
qed

lemma fill_queue_left: "fill_queue t q rs = (fs, left, rs') \<Longrightarrow> rs' = [] \<or> left = 0"
proof (induction t q rs arbitrary: fs rule: fill_queue.induct)
  case (2 t q r rs)
  then show ?case by (auto simp: Let_def min_def split: if_splits prod.splits)
qed simp

lemma fill_responses_queue:
  "fill_queue t q rs = (fs, left, rs') \<Longrightarrow>
   fill_responses symbol band k q (fs @ gs) =
     fill_responses symbol band k q fs @ fill_responses symbol band k left gs"
proof (induction t q rs arbitrary: fs rule: fill_queue.induct)
  case (2 t q r rs)
  then show ?case by (auto simp: Let_def split: if_splits prod.splits)
qed simp

lemma fill_levels_zero: "fill_levels ts 0 a = ([], 0, a)"
  by (cases ts) auto

text \<open>The effect of matching against side \<open>s\<close>, which becomes \<open>a'\<close>.\<close>

definition side_filled ::
  "BookCore \<Rightarrow> queues \<Rightarrow> bool \<Rightarrow> TakerOrder \<Rightarrow> fill list \<Rightarrow> aside \<Rightarrow> BookCore \<Rightarrow> queues \<Rightarrow> bool" where
  "side_filled b Q s k fs a' b' Q' \<longleftrightarrow>
     book_rel b' Q' \<and> abs_with b' Q' = upd_side s (\<lambda>_. a') (abs_with b Q) \<and> same_env b' b \<and>
     client_responses b' = client_responses b @
       fill_responses (bk_symbol_id b) (bk_band b) k (tk_quantity k) fs \<and>
     market_updates b' = market_updates b @ fill_updates (bk_symbol_id b) (bk_band b) (dir s) fs"

lemma side_filled_none: "book_rel b Q \<Longrightarrow> side_filled b Q s k [] (ab_side (abs_with b Q) s) b Q"
  by (simp add: side_filled_def same_env_def fill_updates_def upd_side_id)

lemma book_occupied:
  "occupied (Q s) = {t. al_queue (ab_side (abs_with b Q) s t) \<noteq> []}"
  by (simp add: occupied_def abs_queue)

lemma best_tick_rel:
  assumes "book_rel b Q"
  shows "best_tick (sideof s b) = best_of (dir s) (occupied (Q s))" "occupied (Q s) \<subseteq> {..<kTickCount}"
  using book_relD(4,5) [OF assms, of s] occupied_bounds(2) [OF book_relD(5) [OF assms, of s]]
  by (auto simp: side_rel_def)

lemma match_levels_none:
  assumes rel: "book_rel b Q" and s: "s = (tk_side k \<noteq> BUY)"
    and none: "crossing_ticks (\<not> s) (tk_limit_tick k) (ab_side (abs_with b Q) s) = []"
  shows "match_levels k b = Some (Inr (k, b))"
proof -
  have "occupied (Q s) = {} \<or> (\<exists>u. best_of (dir s) (occupied (Q s)) = int u \<and>
      \<not> tick_crosses (\<not> s) (tk_limit_tick k) u)"
    using crossing_best(1) [OF book_occupied best_tick_rel(2) [OF rel] none] by simp
  then show ?thesis
    using s best_tick_rel(1) [OF rel, of s]
    by (subst match_levels.simps) (auto simp: best_of_invalid crosses_def tick_crosses_def Let_def)
qed

lemma match_levels_ok:
  assumes "book_rel b Q" and "s = (tk_side k \<noteq> BUY)"
    and "fill_levels (crossing_ticks (\<not> s) (tk_limit_tick k) (ab_side (abs_with b Q) s))
        (tk_quantity k) (ab_side (abs_with b Q) s) = (fs, left, a')"
  shows "\<exists>b' Q'. match_levels k b = Some (Inr (k\<lparr>tk_quantity := left\<rparr>, b')) \<and>
    side_filled b Q s k fs a' b' Q'"
  using assms
proof (induction "crossing_ticks (\<not> s) (tk_limit_tick k) (ab_side (abs_with b Q) s)" arbitrary: b Q k fs)
  case Nil
  then have r: "left = tk_quantity k" "fs = []" "a' = ab_side (abs_with b Q) s" by auto
  have "match_levels k b = Some (Inr (k, b))"
    by (rule match_levels_none [OF Nil.prems(1,2) Nil.hyps [symmetric]])
  with r side_filled_none [OF Nil.prems(1), of s k] show ?case
    by (intro exI [of _ b] exI [of _ Q]) simp
next
  case (Cons t ts)
  let ?a = "ab_side (abs_with b Q) s"
  have L: "crossing_ticks (\<not> s) (tk_limit_tick k) ?a = t # ts" using Cons.hyps(2) by simp
  show ?case
  proof (cases "tk_quantity k = 0")
    case True
    then have r: "left = 0" "fs = []" "a' = ?a" using Cons.prems(3) L by auto
    have "match_levels k b = Some (Inr (k, b))" using True by (subst match_levels.simps) simp
    with r True side_filled_none [OF Cons.prems(1), of s k] show ?thesis
      by (intro exI [of _ b] exI [of _ Q]) simp
  next
    case False
    obtain fs1 q1 rs where lv: "fill_queue t (tk_quantity k) (al_queue (?a t)) = (fs1, q1, rs)"
      by (metis prod_cases3)
    obtain fs2 where rst: "fill_levels ts q1 (put_queue t rs ?a) = (fs2, left, a')" "fs = fs1 @ fs2"
      using Cons.prems(3) L lv False by (auto split: prod.splits)
    from match_level_ok [OF Cons.prems(1,2) lv [unfolded abs_queue]] obtain b1 q' where
      run1: "match_level (int t) (ToPrice (bk_band b) (int t)) k b = Some (Inr (k\<lparr>tk_quantity := q1\<rparr>, b1))"
      and lf: "level_filled b Q s t k fs1 rs b1 q'" by blast
    define Q1 where "Q1 = Q(s := (Q s)(t := q'))"
    define k1 where "k1 = k\<lparr>tk_quantity := q1\<rparr>"
    have rel1: "book_rel b1 Q1" and abs1: "ab_side (abs_with b1 Q1) s = put_queue t rs ?a"
      using lf by (auto simp: level_filled_def Q1_def upd_side_def)
    have best: "best_tick (sideof s b) = int t" "tick_crosses (\<not> s) (tk_limit_tick k) t"
      using crossing_best(2) [OF book_occupied best_tick_rel(2) [OF Cons.prems(1)] L]
        best_tick_rel(1) [OF Cons.prems(1), of s] by simp_all
    have next_step: "match_levels k b = match_levels k1 b1"
      using False best Cons.prems(2) run1
      by (subst match_levels.simps) (simp add: Let_def kInvalidTick_def crosses_def tick_crosses_def k1_def)
    have "\<exists>b' Q'. match_levels k1 b1 = Some (Inr (k1\<lparr>tk_quantity := left\<rparr>, b')) \<and>
      side_filled b1 Q1 s k1 fs2 a' b' Q'"
    proof (cases "q1 = 0")
      case True
      then have "left = 0" "fs2 = []" "a' = put_queue t rs ?a" using rst(1) by (simp_all add: fill_levels_zero)
      moreover have "match_levels k1 b1 = Some (Inr (k1, b1))"
        using True by (subst match_levels.simps) (simp add: k1_def)
      ultimately show ?thesis using side_filled_none [OF rel1, of s k1] True
        by (intro exI [of _ b1] exI [of _ Q1]) (simp add: abs1 k1_def)
    next
      case left1: False
      then have "rs = []" using fill_queue_left [OF lv] by simp
      then have L1: "ts = crossing_ticks (\<not> s) (tk_limit_tick k1) (ab_side (abs_with b1 Q1) s)"
        using crossing_rest [OF L] by (simp add: abs1 k1_def)
      show ?thesis
        by (rule Cons.hyps(1) [OF L1 rel1])
          (use Cons.prems(2) rst(1) L1 abs1 in \<open>simp_all add: k1_def\<close>)
    qed
    then obtain b' Q' where b': "match_levels k1 b1 = Some (Inr (k1\<lparr>tk_quantity := left\<rparr>, b'))"
      "side_filled b1 Q1 s k1 fs2 a' b' Q'" by blast
    have "side_filled b Q s k fs a' b' Q'"
      using lf b'(2) fill_responses_queue [OF lv, of _ _ k fs2]
      by (auto simp: level_filled_def side_filled_def same_env_def Q1_def [symmetric] rst(2) k1_def
          upd_side_comp fill_updates_def fill_responses_taker [of "k\<lparr>tk_quantity := _\<rparr>" k])
    with next_step b'(1) show ?thesis by (intro exI [of _ b'] exI [of _ Q']) (simp add: k1_def)
  qed
qed

lemma Match_ok:
  assumes "book_rel b Q" and "s = (tk_side k \<noteq> BUY)"
    and "fill_levels (crossing_ticks (\<not> s) (tk_limit_tick k) (ab_side (abs_with b Q) s))
        (tk_quantity k) (ab_side (abs_with b Q) s) = (fs, left, a')"
  shows "\<exists>b' Q'. Match k b = Inr (left, b') \<and> side_filled b Q s k fs a' b' Q'"
  using match_levels_ok [OF assms] by (auto simp: Match_def)

end
