(* ===== verification/Book_Requests.thy ===== *)
theory Book_Requests
  imports Book_Refine
begin

text \<open>
  The two requests of \<open>BookCore\<close> on a consistent book: inserting the rest of an order,
  \<open>Add\<close> and \<open>Cancel\<close>, each shown to return and to act on the abstract book as
  \<open>spec_add\<close> and \<open>spec_cancel\<close> do.
\<close>

section \<open>Inserting the remaining quantity\<close>

lemma book_rel_fields [simp]:
  "book_rel (b\<lparr>client_responses := r\<rparr>) Q = book_rel b Q"
  "book_rel (b\<lparr>market_updates := u\<rparr>) Q = book_rel b Q"
  "book_rel (b\<lparr>next_market_order_id := m\<rparr>) Q = book_rel b Q"
  by (simp_all add: book_rel_def)

lemma abs_with_fields [simp]:
  "abs_with (b\<lparr>client_responses := r\<rparr>) Q = abs_with b Q"
  "abs_with (b\<lparr>market_updates := u\<rparr>) Q = abs_with b Q"
  "abs_with (b\<lparr>next_market_order_id := m\<rparr>) Q = (abs_with b Q)\<lparr>ab_next := m\<rparr>"
  by (simp_all add: abs_with_def)

lemma side_ptrs_add: "side_ptrs (q(t := q t @ [i])) = insert i (side_ptrs q)"
  by (auto simp: side_ptrs_def split: if_splits)

lemma added_node:
  assumes rel: "book_rel b Q" and fresh: "lookup (order_pool b) i = None"
    and new: "map_option node_data (lookup p' i) = Some (r, lp)"
    and data: "\<And>j. j \<noteq> i \<Longrightarrow> map_option node_data (lookup p' j) = map_option node_data (lookup (order_pool b) j)"
    and bnd: "unat (r_client r) < kMaxNumClients" "unat (r_coid r) < kMaxOrderIds"
    and free: "idx b (unat (r_client r)) (unat (r_coid r)) = None"
    and ix: "\<And>c l. ix c l = (if c = unat (r_client r) \<and> l = unat (r_coid r) then Some i else idx b c l)"
  shows "dom (lookup p') = insert i (side_ptrs (Q s) \<union> side_ptrs (Q (\<not> s)))"
    "lookup p' j = Some m \<Longrightarrow> unat (on_client_id m) < kMaxNumClients \<and> unat (on_client_order_id m) < kMaxOrderIds"
    "ix c l = Some j \<longleftrightarrow>
       (\<exists>m. lookup p' j = Some m \<and> unat (on_client_id m) = c \<and> unat (on_client_order_id m) = l)"
proof -
  let ?h = "lookup (order_pool b)"
  obtain n where n: "lookup p' i = Some n" "on_client_id n = r_client r" "on_client_order_id n = r_coid r"
    using new by (cases "lookup p' i") (auto simp: node_data_def resting_of_def)
  have live: "lookup p' j \<noteq> None \<longleftrightarrow> j = i \<or> ?h j \<noteq> None" for j
    using n data [of j] by (cases "j = i"; cases "lookup p' j"; cases "?h j") auto
  then have "dom (lookup p') = insert i (dom ?h)" by (auto simp: domIff)
  then show "dom (lookup p') = insert i (side_ptrs (Q s) \<union> side_ptrs (Q (\<not> s)))"
    using book_rel_dom [OF rel, of s] by simp
  have keys: "\<exists>m'. ?h j = Some m' \<and> on_client_id m = on_client_id m' \<and> on_client_order_id m = on_client_order_id m'"
    if "lookup p' j = Some m" "j \<noteq> i" for j m
    using that data [of j] data_keys [of "lookup p'" j ?h m] by auto
  show "lookup p' j = Some m \<Longrightarrow> unat (on_client_id m) < kMaxNumClients \<and> unat (on_client_order_id m) < kMaxOrderIds"
    using book_rel_bounds [OF rel] keys [of j m] n bnd by (cases "j = i") auto
  have kept: "\<exists>m. lookup p' j = Some m \<and> on_client_id m = on_client_id m' \<and> on_client_order_id m = on_client_order_id m'"
    if "?h j = Some m'" for j m'
    using data_keys [of ?h j "lookup p'" m'] data [of j] that fresh by (cases "j = i") auto
  show "ix c l = Some j \<longleftrightarrow>
       (\<exists>m. lookup p' j = Some m \<and> unat (on_client_id m) = c \<and> unat (on_client_order_id m) = l)"
  proof (cases "c = unat (r_client r) \<and> l = unat (r_coid r)")
    case True
    have "j = i" if m: "lookup p' j = Some m" "unat (on_client_id m) = c" "unat (on_client_order_id m) = l" for m
    proof (rule ccontr)
      assume "j \<noteq> i"
      with keys [OF m(1)] m have "idx b c l = Some j" using book_rel_idx [OF rel, of c l j] by metis
      with free True show False by simp
    qed
    with True ix n show ?thesis by auto
  next
    case False
    then have "j \<noteq> i" if "lookup p' j = Some m" "unat (on_client_id m) = c" "unat (on_client_order_id m) = l" for m
      using that n by auto
    then show ?thesis using False ix book_rel_idx [OF rel, of c l j] keys [of j] kept [of j] by (smt (verit, best))
  qed
qed

lemma add_rest_ok:
  fixes moid :: OrderId and qty :: Quantity
  assumes rel: "book_rel b Q" and room: "mp_in_use (order_pool b) < kMaxOrderIds"
    and t: "t < kTickCount" and prio: "unat (next_priority (levels (sideof s b) t)) + 1 < 2 ^ 64"
    and bnd: "unat cid < kMaxNumClients" "unat coid < kMaxOrderIds"
    and free: "idx b (unat cid) (unat coid) = None"
  defines "r \<equiv> \<lparr>r_client = cid, r_coid = coid, r_moid = moid, r_qty = qty,
      r_prio = al_next (ab_side (abs_with b Q) s t)\<rparr>"
  shows "\<exists>order p' pl' b' Q' n.
    AddOrder (int t) cid coid moid qty (order_pool b) (sideof s b) = Inr (order, p', pl') \<and>
    IndexOrder cid coid order (set_side s pl' (b\<lparr>order_pool := p'\<rparr>)) = Inr b' \<and>
    lookup (order_pool b') order = Some n \<and> on_priority n = r_prio r \<and>
    book_rel b' Q' \<and> abs_with b' Q' = upd_side s (push_order t r) (abs_with b Q) \<and>
    bk_symbol_id b' = bk_symbol_id b \<and> bk_band b' = bk_band b \<and>
    client_responses b' = client_responses b \<and> market_updates b' = market_updates b"
proof -
  define h where "h = lookup (order_pool b)"
  have sr: "side_rel h (sideof s b) (Q s)" and d: "pl_side (sideof s b) = dir s" and inv: "pool_inv (order_pool b)"
    using book_relD [OF rel] by (auto simp: h_def)
  have room': "mp_in_use (order_pool b) < mp_capacity (order_pool b)" using room book_relD(2) [OF rel] by simp
  have np: "r_prio r = next_priority (levels (sideof s b) t)" by (simp add: r_def abs_with_def)
  from AddOrder_ok [OF sr [unfolded h_def] inv room' t prio, of cid coid moid qty] obtain i p' pl' where
    add: "AddOrder (int t) cid coid moid qty (order_pool b) (sideof s b) = Inr (i, p', pl')"
      "pool_inv p'" "mp_capacity p' = kMaxOrderIds" "h i = None"
      "side_rel (lookup p') pl' ((Q s)(t := Q s t @ [i]))" "pl_side pl' = dir s"
      "next_priority (levels pl' t) = next_priority (levels (sideof s b) t) + 1"
      "\<And>u. u \<noteq> t \<Longrightarrow> levels pl' u = levels (sideof s b) u"
      "map_option node_data (lookup p' i) = Some (r, Some (dir s, t))"
      "\<And>j. j \<noteq> i \<Longrightarrow> map_option node_data (lookup p' j) = map_option node_data (h j)"
      "\<And>j. j \<notin> insert i (side_ptrs (Q s)) \<Longrightarrow> lookup p' j = h j"
    using d book_relD(2) [OF rel] np by (auto simp: h_def r_def)
  from IndexOrder_ok [OF bnd, of i "set_side s pl' (b\<lparr>order_pool := p'\<rparr>)"] obtain tables where
    ind: "IndexOrder cid coid i (set_side s pl' (b\<lparr>order_pool := p'\<rparr>)) =
        Inr (set_side s pl' (b\<lparr>order_pool := p', orders := tables\<rparr>))"
      "idx (set_side s pl' (b\<lparr>order_pool := p', orders := tables\<rparr>)) =
        (\<lambda>c k. if c = unat cid \<and> k = unat coid then Some i else idx b c k)"
    by (auto cong: if_cong)
  define b' where "b' = set_side s pl' (b\<lparr>order_pool := p', orders := tables\<rparr>)"
  define q where "q = (Q s)(t := Q s t @ [i])"
  have b': "order_pool b' = p'" "sideof s b' = pl'" "sideof (\<not> s) b' = sideof (\<not> s) b"
      "bk_band b' = bk_band b" "next_market_order_id b' = next_market_order_id b"
    by (simp_all add: b'_def)
  have ix: "idx b' c k = (if c = unat (r_client r) \<and> k = unat (r_coid r) then Some i else idx b c k)" for c k
    using ind(2) by (simp add: b'_def r_def)
  have rb: "unat (r_client r) < kMaxNumClients" "unat (r_coid r) < kMaxOrderIds"
      "idx b (unat (r_client r)) (unat (r_coid r)) = None" using bnd free by (simp_all add: r_def)
  note facts = rel add(4) [unfolded h_def] add(9) add(10) [unfolded h_def] rb ix
  have dom': "dom (lookup p') = insert i (side_ptrs (Q s) \<union> side_ptrs (Q (\<not> s)))"
    using facts by (rule added_node(1))
  have not_in: "i \<notin> side_ptrs (Q s')" for s'
    using book_rel_live [OF rel, of i s'] add(4) by (auto simp: side_ptrs_def h_def)
  have res: "book_rel b' (Q(s := q)) \<and>
      abs_with b' (Q(s := q)) = (abs_with b Q)\<lparr>ab_side := (ab_side (abs_with b Q))(s := (\<lambda>u.
          \<lparr>al_queue = map (rest (lookup p')) (q u), al_next = next_priority (levels pl' u)\<rparr>)),
        ab_next := next_market_order_id b'\<rparr>"
  proof (rule book_rel_upd [OF rel b'(1-4)])
    show "\<forall>j \<in> side_ptrs (Q (\<not> s)). lookup p' j = lookup (order_pool b) j"
      using add(11) not_in [of "\<not> s"] book_rel_disjoint [OF rel] by (metis h_def insertE)
    show "dom (lookup p') = side_ptrs q \<union> side_ptrs (Q (\<not> s))"
      unfolding dom' q_def side_ptrs_add by simp
    show "unat (on_client_id m) < kMaxNumClients \<and> unat (on_client_order_id m) < kMaxOrderIds"
      if "lookup p' j = Some m" for j m
      using facts that by (rule added_node(2))
    show "idx b' c l = Some j \<longleftrightarrow>
        (\<exists>m. lookup p' j = Some m \<and> unat (on_client_id m) = c \<and> unat (on_client_order_id m) = l)" for c l j
      using facts by (rule added_node(3))
  qed (use add in \<open>auto simp: q_def\<close>)
  have "(\<lambda>u. \<lparr>al_queue = map (rest (lookup p')) (q u), al_next = next_priority (levels pl' u)\<rparr>) =
      push_order t r (ab_side (abs_with b Q) s)"
  proof (rule ext)
    fix u
    have old: "map (rest (lookup p')) (Q s u) = map (rest h) (Q s u)"
      by (rule data_rest_map [OF add(10)])
        (use not_in [of s] book_rel_live [OF rel, of _ s u] in \<open>auto simp: side_ptrs_def h_def\<close>)
    have "rest (lookup p') i = r" using add(9) by (auto simp: node_data_def)
    then show "\<lparr>al_queue = map (rest (lookup p')) (q u), al_next = next_priority (levels pl' u)\<rparr> =
      push_order t r (ab_side (abs_with b Q) s) u"
      using old add(7,8) by (cases "u = t") (simp_all add: q_def push_order_def abs_with_def h_def)
  qed
  moreover obtain n where "lookup p' i = Some n" "on_priority n = r_prio r"
    using add(9) by (auto simp: node_data_def resting_of_def)
  ultimately show ?thesis using add(1) ind(1) res b'
    by (intro exI [of _ i] exI [of _ p'] exI [of _ pl'] exI [of _ b'] exI [of _ "Q(s := q)"] exI [of _ n])
      (simp add: b'_def upd_side_def, simp add: abs_with_def)
qed

section \<open>Add\<close>

text \<open>The book \<open>b'\<close> is \<open>b\<close> after a request with the outcome \<open>x\<close>.\<close>

definition implements :: "BookCore \<Rightarrow> outcome \<Rightarrow> BookCore \<Rightarrow> bool" where
  "implements b x b' \<longleftrightarrow>
     (\<exists>Q'. book_rel b' Q' \<and> abs_with b' Q' = out_book x) \<and>
     bk_symbol_id b' = bk_symbol_id b \<and> bk_band b' = bk_band b \<and>
     client_responses b' = client_responses b @ out_responses x \<and>
     market_updates b' = market_updates b @ out_updates x"

lemma upd_side_other: "s' \<noteq> s \<Longrightarrow> ab_side (upd_side s f ab) s' = ab_side ab s'"
  by (simp add: upd_side_def)

lemma abs_next: "ab_next (abs_with b Q) = next_market_order_id b"
  by (simp add: abs_with_def)

lemma Add_ok:
  assumes rel: "book_rel b Q" and bnd: "unat cid < kMaxNumClients" "unat coid < kMaxOrderIds"
    and free: "idx b (unat cid) (unat coid) = None" and room: "mp_in_use (order_pool b) < kMaxOrderIds"
    and tick: "0 \<le> ToTick (bk_band b) price" "ToTick (bk_band b) price < int kTickCount"
    and prio: "unat (al_next (ab_side (abs_with b Q) (side = BUY) (nat (ToTick (bk_band b) price)))) + 1 < 2 ^ 64"
  shows "\<exists>b'. Add cid coid side price qty b = Inr b' \<and>
    implements b (spec_add (bk_symbol_id b) (bk_band b) cid coid side price qty (abs_with b Q)) b'"
proof -
  define limit where "limit = ToTick (bk_band b) price"
  define t where "t = nat limit"
  define moid where "moid = next_market_order_id b"
  define buy where "buy = (side = BUY)"
  define k where "k = \<lparr>tk_client_id = cid, tk_client_order_id = coid, tk_market_order_id = moid,
               tk_side = side, tk_limit_tick = limit, tk_quantity = qty\<rparr>"
  define b2 where "b2 = b\<lparr>next_market_order_id := moid + 1,
      client_responses := client_responses b @ [accepted (bk_symbol_id b) cid coid moid side price qty]\<rparr>"
  have t: "t < kTickCount" "limit = int t" using tick by (auto simp: t_def limit_def)
  have rel2: "book_rel b2 Q" and abs2: "abs_with b2 Q = (abs_with b Q)\<lparr>ab_next := moid + 1\<rparr>"
    using rel by (simp_all add: b2_def)
  have opp: "ab_side (abs_with b2 Q) = ab_side (abs_with b Q)" by (simp add: abs2)
  obtain fs left a' where m: "fill_levels (crossing_ticks buy limit (ab_side (abs_with b Q) (\<not> buy))) qty
      (ab_side (abs_with b Q) (\<not> buy)) = (fs, left, a')" by (metis prod_cases3)
  from Match_ok [OF rel2, of "\<not> buy" k fs left a'] m obtain b3 Q3 where
    match: "Match k b2 = Inr (left, b3)" and sf: "side_filled b2 Q (\<not> buy) k fs a' b3 Q3"
    by (auto simp: k_def buy_def opp)
  have rel3: "book_rel b3 Q3" and abs3: "abs_with b3 Q3 = upd_side (\<not> buy) (\<lambda>_. a') (abs_with b2 Q)"
    and env: "same_env b3 b2"
    and msgs: "client_responses b3 = client_responses b2 @ fill_responses (bk_symbol_id b) (bk_band b) k qty fs"
      "market_updates b3 = market_updates b2 @ fill_updates (bk_symbol_id b) (bk_band b) (dir (\<not> buy)) fs"
    using sf by (auto simp: side_filled_def b2_def k_def)
  define x where "x = spec_add (bk_symbol_id b) (bk_band b) cid coid side price qty (abs_with b Q)"
  define pr where "pr = al_next (ab_side (abs_with b3 Q3) buy t)"
  have same: "ab_side (abs_with b3 Q3) buy = ab_side (abs_with b Q) buy"
    by (simp add: abs3 upd_side_other opp)
  have x: "out_book x = (if left = 0 then abs_with b3 Q3
        else upd_side buy (push_order t \<lparr>r_client = cid, r_coid = coid, r_moid = moid, r_qty = left, r_prio = pr\<rparr>)
               (abs_with b3 Q3))"
      "out_responses x = accepted (bk_symbol_id b) cid coid moid side price qty #
         fill_responses (bk_symbol_id b) (bk_band b) k qty fs"
      "out_updates x = fill_updates (bk_symbol_id b) (bk_band b) (dir (\<not> buy)) fs @
        (if left = 0 then [] else [\<lparr>mu_type = MU_ADD, mu_symbol_id = bk_symbol_id b, mu_order_id = moid,
           mu_side = side, mu_price = price, mu_quantity = left, mu_priority = pr\<rparr>])"
    using m by (simp_all add: x_def spec_add_def Let_def limit_def [symmetric] abs_next moid_def [symmetric]
        buy_def [symmetric] k_def [symmetric] abs3 abs2 pr_def t_def)
  have env3: "bk_symbol_id b3 = bk_symbol_id b" "bk_band b3 = bk_band b"
      "mp_in_use (order_pool b3) < kMaxOrderIds" "idx b3 (unat cid) (unat coid) = None"
    using env room free by (auto simp: same_env_def b2_def)
  have start: "Add cid coid side price qty b = bindE (Match k b2) (\<lambda>(remaining, b3).
         if remaining > 0 then
           bindE (AddOrder limit cid coid moid remaining (order_pool b3) (Levels side b3))
             (\<lambda>(order, pool4, pl4).
           let b4 = set_Levels side pl4 (b3\<lparr>order_pool := pool4\<rparr>) in
           bindE (IndexOrder cid coid order b4) (\<lambda>b5.
           bindE (access (lookup (order_pool b5) order)) (\<lambda>n.
           Inr (SendMarketUpdate
                  \<lparr>mu_type = MU_ADD, mu_symbol_id = bk_symbol_id b5, mu_order_id = moid,
                   mu_side = side, mu_price = price, mu_quantity = remaining,
                   mu_priority = on_priority n\<rparr> b5))))
         else Inr b3)"
    by (simp add: Add_def Let_def NextMarketOrderId_def limit_def moid_def k_def b2_def
        SendClientResponse_def accepted_def cong: if_cong)
  have "\<exists>b'. Add cid coid side price qty b = Inr b' \<and> implements b x b'"
  proof (cases "left = 0")
    case True
    then have "Add cid coid side price qty b = Inr b3" using start match by simp
    moreover have "implements b x b3"
      using True rel3 env3 msgs x by (auto simp: implements_def b2_def)
    ultimately show ?thesis by blast
  next
    case False
    have "al_next (ab_side (abs_with b3 Q3) buy t) = next_priority (levels (sideof buy b3) t)"
      by (simp add: abs_with_def)
    then have prio3: "unat (next_priority (levels (sideof buy b3) t)) + 1 < 2 ^ 64"
      using prio same by (simp add: t_def limit_def buy_def)
    from add_rest_ok [OF rel3 env3(3) t(1) prio3 bnd env3(4), of moid left] obtain order p' pl' b' Q' n where
      r: "AddOrder (int t) cid coid moid left (order_pool b3) (sideof buy b3) = Inr (order, p', pl')"
        "IndexOrder cid coid order (set_side buy pl' (b3\<lparr>order_pool := p'\<rparr>)) = Inr b'"
        "lookup (order_pool b') order = Some n" "on_priority n = pr" "book_rel b' Q'"
        "abs_with b' Q' = upd_side buy (push_order t \<lparr>r_client = cid, r_coid = coid, r_moid = moid,
           r_qty = left, r_prio = pr\<rparr>) (abs_with b3 Q3)"
        "bk_symbol_id b' = bk_symbol_id b3" "bk_band b' = bk_band b3"
        "client_responses b' = client_responses b3" "market_updates b' = market_updates b3"
      by (auto simp: pr_def)
    define u where "u = \<lparr>mu_type = MU_ADD, mu_symbol_id = bk_symbol_id b, mu_order_id = moid,
           mu_side = side, mu_price = price, mu_quantity = left, mu_priority = pr\<rparr>"
    have "Add cid coid side price qty b = Inr (SendMarketUpdate u b')"
      using False r(1-4,7) env3(1)
      by (simp add: start match t(2) buy_def [symmetric] u_def word_gt_0 Let_def)
    moreover have "implements b x (SendMarketUpdate u b')"
      using False r(5-10) env3 msgs x
      by (auto simp: implements_def SendMarketUpdate_def b2_def u_def)
    ultimately show ?thesis by blast
  qed
  then show ?thesis by (simp add: x_def)
qed

section \<open>Cancel\<close>

text \<open>The occurrences of a key in the abstract book.\<close>

definition key_places :: "ClientId \<Rightarrow> OrderId \<Rightarrow> abook \<Rightarrow> (bool \<times> nat \<times> resting) list" where
  "key_places cid coid ab = concat (map (\<lambda>s. concat (map (\<lambda>t.
     map (\<lambda>r. (s, t, r)) (filter (has_key cid coid) (al_queue (ab_side ab s t))))
     [0..<kTickCount])) [True, False])"

lemma spec_find_places:
  "spec_find cid coid ab = (case key_places cid coid ab of [] \<Rightarrow> None | x # _ \<Rightarrow> Some x)"
  by (simp add: spec_find_def key_places_def)

lemma key_places_set:
  "(s, t, r) \<in> set (key_places cid coid ab) \<longleftrightarrow>
     t < kTickCount \<and> r \<in> set (al_queue (ab_side ab s t)) \<and> has_key cid coid r"
  by (cases s) (auto simp: key_places_def)

lemma spec_find_SomeD:
  "spec_find cid coid ab = Some (s, t, r) \<Longrightarrow>
     t < kTickCount \<and> r \<in> set (al_queue (ab_side ab s t)) \<and> has_key cid coid r"
  using key_places_set [of s t r cid coid ab] by (auto simp: spec_find_places split: list.splits)

lemma spec_find_NoneD:
  "spec_find cid coid ab = None \<Longrightarrow> t < kTickCount \<Longrightarrow> r \<in> set (al_queue (ab_side ab s t)) \<Longrightarrow>
     \<not> has_key cid coid r"
  using key_places_set [of s t r cid coid ab] by (auto simp: spec_find_places split: list.splits)

lemma rest_key:
  assumes "book_rel b Q" and "i \<in> set (Q s t)"
  shows "has_key cid coid (rest (lookup (order_pool b)) i) \<longleftrightarrow> idx b (unat cid) (unat coid) = Some i"
proof -
  obtain n where n: "lookup (order_pool b) i = Some n" using book_rel_live [OF assms] by auto
  then show ?thesis using book_rel_idx [OF assms(1), of "unat cid" "unat coid" i]
    by (auto simp: has_key_def resting_of_def dest: unat_inj)
qed

lemma spec_find_idx:
  assumes rel: "book_rel b Q"
  shows "spec_find cid coid (abs_with b Q) = None \<Longrightarrow> idx b (unat cid) (unat coid) = None"
    "spec_find cid coid (abs_with b Q) = Some (s, t, r) \<Longrightarrow>
       \<exists>i. idx b (unat cid) (unat coid) = Some i \<and> i \<in> set (Q s t) \<and> r = rest (lookup (order_pool b)) i"
proof -
  show "idx b (unat cid) (unat coid) = None" if none: "spec_find cid coid (abs_with b Q) = None"
  proof (cases "idx b (unat cid) (unat coid)")
    case (Some i)
    then have "i \<in> side_ptrs (Q True) \<union> side_ptrs (Q False)"
      using book_rel_idx [OF rel] book_relD(6) [OF rel] by blast
    then obtain s t where st: "i \<in> set (Q s t)" by (auto simp: side_ptrs_def)
    have "Q s t \<noteq> []" using st by auto
    then have "t < kTickCount" using best_tick_rel(2) [OF rel, of s] by (auto simp: occupied_def)
    moreover have "has_key cid coid (rest (lookup (order_pool b)) i)" using rest_key [OF rel st] Some by simp
    ultimately show ?thesis
      using spec_find_NoneD [OF none, of t "rest (lookup (order_pool b)) i" s] st by (auto simp: abs_queue)
  qed simp
  show "\<exists>i. idx b (unat cid) (unat coid) = Some i \<and> i \<in> set (Q s t) \<and> r = rest (lookup (order_pool b)) i"
    if some: "spec_find cid coid (abs_with b Q) = Some (s, t, r)"
  proof -
    obtain i where "i \<in> set (Q s t)" "r = rest (lookup (order_pool b)) i" "has_key cid coid r"
      using spec_find_SomeD [OF some] by (auto simp: abs_queue)
    then show ?thesis using rest_key [OF rel, of i s t] by auto
  qed
qed

lemma Cancel_ok:
  assumes rel: "book_rel b Q" and bnd: "unat cid < kMaxNumClients" "unat coid < kMaxOrderIds"
  shows "\<exists>b'. Cancel cid coid b = Inr b' \<and>
    implements b (spec_cancel (bk_symbol_id b) (bk_band b) cid coid (abs_with b Q)) b'"
proof (cases "spec_find cid coid (abs_with b Q)")
  case None
  then have "idx b (unat cid) (unat coid) = None" by (rule spec_find_idx(1) [OF rel])
  then show ?thesis using None rel
    by (auto simp: Cancel_def FindOrder_rel [OF rel bnd] implements_def spec_cancel_def SendClientResponse_def)
next
  case (Some place)
  obtain s t r where place: "place = (s, t, r)" by (cases place)
  define h where "h = lookup (order_pool b)"
  from spec_find_idx(2) [OF rel Some [unfolded place]] obtain i where
    i: "idx b (unat cid) (unat coid) = Some i" "i \<in> set (Q s t)" "r = rest h i" by (auto simp: h_def)
  obtain n where n: "h i = Some n" "on_level n = Some (dir s, t)"
    using book_rel_live [OF rel i(2)] by (auto simp: h_def)
  have r: "r = resting_of n" using i(3) n by simp
  have keys: "unat (on_client_id n) = unat cid" "unat (on_client_order_id n) = unat coid"
    using book_rel_idx [OF rel] i(1) n by (auto simp: h_def)
  have t: "t < kTickCount" using spec_find_SomeD [OF Some [unfolded place]] by simp
  have own: "Owns (bids b) (dir s, t) = s"
    using t book_relD(4) [OF rel, of True] by (auto simp: Owns_def sideof_def dir_def)
  have side: "(if Owns (bids b) (dir s, t) then BUY else SELL) = dir s" unfolding own by (simp add: dir_def)
  have dirs: "(dir s = BUY) = s" by (simp add: dir_def)
  obtain as bs where q: "Q s t = as @ i # bs" using split_list [OF i(2)] by blast
  have sr: "side_rel h (sideof s b) (Q s)" and d: "pl_side (sideof s b) = dir s" and inv: "pool_inv (order_pool b)"
    using book_relD [OF rel] by (auto simp: h_def)
  have dist: "i \<notin> set as" "i \<notin> set bs"
    using sr q by (auto simp: side_rel_def level_ok_def dest: spec [of _ t])
  define resp where "resp = \<lparr>resp_type = RESP_CANCELED, resp_client_id = cid,
              resp_symbol_id = bk_symbol_id b, resp_client_order_id = coid, resp_market_order_id = r_moid r,
              resp_side = dir s, resp_price = ToPrice (bk_band b) (int t), resp_executed_quantity = 0,
              resp_remaining_quantity = r_qty r\<rparr>"
  define upd where "upd = order_update MU_CANCEL (bk_symbol_id b) (bk_band b) (dir s) t (r_moid r) 0 0"
  define B where "B = b\<lparr>client_responses := client_responses b @ [resp], market_updates := market_updates b @ [upd]\<rparr>"
  from UnindexOrder_ok [OF bnd, of B] obtain tables where
    un: "UnindexOrder cid coid B = Inr (B\<lparr>orders := tables\<rparr>)"
      "idx (B\<lparr>orders := tables\<rparr>) = (\<lambda>c l. if c = unat cid \<and> l = unat coid then None else idx B c l)" by blast
  from RemoveOrder_ok [OF sr [unfolded h_def] inv q n(1) [unfolded h_def]] obtain p' pl' where
    rm: "RemoveOrder i (order_pool b) (sideof s b) = Inr (p', pl')" "pool_inv p'"
      "mp_capacity p' = kMaxOrderIds" "side_rel (lookup p') pl' ((Q s)(t := as @ bs))" "pl_side pl' = dir s"
      "lookup p' i = None"
      "\<And>j. j \<noteq> i \<Longrightarrow> map_option node_data (lookup p' j) = map_option node_data (h j)"
      "\<And>j. j \<notin> side_ptrs (Q s) \<Longrightarrow> lookup p' j = h j"
      "\<And>u. next_priority (levels pl' u) =
        (if u = t \<and> as = [] \<and> bs = [] then 1 else next_priority (levels (sideof s b) u))"
    using d book_relD(2) [OF rel] by (auto simp: h_def)
  define b' where "b' = set_side s pl' (B\<lparr>orders := tables, order_pool := p'\<rparr>)"
  have "Cancel cid coid b = bindE (UnindexOrder cid coid B) (\<lambda>b3.
      bindE (RemoveOrder i (order_pool b3) (Levels (dir s) b3)) (\<lambda>(pool4, pl4).
      Inr (set_Levels (dir s) pl4 (b3\<lparr>order_pool := pool4\<rparr>))))"
    using n i(1)
    by (simp add: Cancel_def FindOrder_rel [OF rel bnd] h_def [symmetric] Let_def side IndexOf_def
        SendClientResponse_def SendMarketUpdate_def resp_def upd_def order_update_def B_def r resting_of_def
        split del: if_split)
  then have run: "Cancel cid coid b = Inr b'"
    using un(1) rm(1) by (simp add: dirs b'_def B_def)
  have b': "order_pool b' = p'" "sideof s b' = pl'" "sideof (\<not> s) b' = sideof (\<not> s) b"
      "bk_band b' = bk_band b" "next_market_order_id b' = next_market_order_id b" "bk_symbol_id b' = bk_symbol_id b"
      "client_responses b' = client_responses b @ [resp]" "market_updates b' = market_updates b @ [upd]"
    by (simp_all add: b'_def B_def)
  have ix: "idx b' c l = (if c = unat (on_client_id n) \<and> l = unat (on_client_order_id n)
      then None else idx b c l)" for c l
    using un(2) keys by (simp add: b'_def B_def idx_def fun_eq_iff)
  have xq: "i \<notin> set (Q s u)" if "u \<noteq> t" for u using book_rel_place [OF rel i(2)] that by blast
  note facts = rel i(2) n(1) [unfolded h_def] rm(6) rm(7) [unfolded h_def] ix
  have removed: "dom (lookup p') = (side_ptrs (Q s) - {i}) \<union> side_ptrs (Q (\<not> s))"
    using facts by (rule removed_node(1))
  have res: "book_rel b' (Q(s := (Q s)(t := as @ bs))) \<and>
      abs_with b' (Q(s := (Q s)(t := as @ bs))) = (abs_with b Q)\<lparr>ab_side := (ab_side (abs_with b Q))(s := (\<lambda>u.
          \<lparr>al_queue = map (rest (lookup p')) (((Q s)(t := as @ bs)) u), al_next = next_priority (levels pl' u)\<rparr>)),
        ab_next := next_market_order_id b'\<rparr>"
  proof (rule book_rel_upd [OF rel b'(1-4)])
    show "\<forall>j \<in> side_ptrs (Q (\<not> s)). lookup p' j = lookup (order_pool b) j"
      using rm(8) book_rel_disjoint [OF rel] by (auto simp: h_def)
    show "dom (lookup p') = side_ptrs ((Q s)(t := as @ bs)) \<union> side_ptrs (Q (\<not> s))"
      using side_ptrs_remove [of "Q s" t as i bs] q dist xq removed by simp
    show "unat (on_client_id m) < kMaxNumClients \<and> unat (on_client_order_id m) < kMaxOrderIds"
      if "lookup p' j = Some m" for j m
      using facts that by (rule removed_node(2))
    show "idx b' c l = Some j \<longleftrightarrow>
        (\<exists>m. lookup p' j = Some m \<and> unat (on_client_id m) = c \<and> unat (on_client_order_id m) = l)" for c l j
      using facts by (rule removed_node(3))
  qed (use rm in auto)
  have rem: "remove1 r (map (rest h) (Q s t)) = map (rest h) (as @ bs)"
  proof -
    have "r \<notin> rest h ` set as"
    proof
      assume "r \<in> rest h ` set as"
      then obtain j where "j \<in> set as" "r = rest h j" by auto
      then have "j \<in> set (Q s t)" "has_key cid coid (rest (lookup (order_pool b)) j)" "j \<noteq> i"
        using q dist spec_find_SomeD [OF Some [unfolded place]] by (auto simp: h_def)
      then show False using rest_key [OF rel] i(1) by auto
    qed
    then show ?thesis using i(3) by (simp add: q remove1_append)
  qed
  have "(\<lambda>u. \<lparr>al_queue = map (rest (lookup p')) (((Q s)(t := as @ bs)) u), al_next = next_priority (levels pl' u)\<rparr>) =
      put_queue t (map (rest h) (as @ bs)) (ab_side (abs_with b Q) s)"
  proof (rule ext)
    fix u
    show "\<lparr>al_queue = map (rest (lookup p')) (((Q s)(t := as @ bs)) u), al_next = next_priority (levels pl' u)\<rparr> =
      put_queue t (map (rest h) (as @ bs)) (ab_side (abs_with b Q) s) u"
    proof (cases "u = t")
      case True
      have "map (rest (lookup p')) (as @ bs) = map (rest h) (as @ bs)"
        by (rule data_rest_map [OF rm(7)]) (use dist q book_rel_live [OF rel, of _ s t] in \<open>auto simp: h_def\<close>)
      then show ?thesis using True rm(9) by (auto simp: put_queue_def abs_with_def empty_alevel_def)
    next
      case False
      have "map (rest (lookup p')) (Q s u) = map (rest h) (Q s u)"
        by (rule data_rest_map [OF rm(7) xq [OF False]]) (use book_rel_live [OF rel, of _ s u] in \<open>auto simp: h_def\<close>)
      then show ?thesis using False rm(9) by (simp add: put_queue_def abs_with_def h_def)
    qed
  qed
  then have "abs_with b' (Q(s := (Q s)(t := as @ bs))) =
      upd_side s (\<lambda>a. put_queue t (remove1 r (al_queue (a t))) a) (abs_with b Q)"
    using res b'(5) rem by (simp add: upd_side_def abs_queue h_def) (simp add: abs_with_def)
  with run res b' show ?thesis
    by (auto simp: implements_def spec_cancel_def Some place resp_def upd_def)
qed

end
