(* ===== verification/Book_Correct.thy ===== *)
theory Book_Correct
  imports Book_Requests
begin

text \<open>
  The invariant of a running book and what follows from it: every request that meets the
  documented preconditions returns, keeps the invariant and implements the abstract book;
  matching conserves quantity, respects the limit price and the price-time order, and never
  leaves the book crossed; the published market updates rebuild the book exactly.
\<close>

section \<open>Invariant of the abstract book\<close>

definition before :: "resting \<Rightarrow> resting \<Rightarrow> bool" where
  "before x y \<longleftrightarrow> r_prio x < r_prio y \<and> r_moid x < r_moid y"

definition level_wf :: "OrderId \<Rightarrow> alevel \<Rightarrow> bool" where
  "level_wf m lv \<longleftrightarrow>
     (\<forall>r \<in> set (al_queue lv). 0 < r_qty r \<and> r_moid r < m \<and> r_prio r < al_next lv) \<and>
     sorted_wrt before (al_queue lv) \<and> (al_queue lv = [] \<longrightarrow> al_next lv = 1) \<and>
     unat (al_next lv) \<le> unat m"

definition moids :: "alevel \<Rightarrow> OrderId set" where "moids lv = r_moid ` set (al_queue lv)"

definition uncrossed :: "abook \<Rightarrow> bool" where
  "uncrossed ab \<longleftrightarrow> (\<forall>t u. al_queue (ab_side ab True t) \<noteq> [] \<longrightarrow> al_queue (ab_side ab False u) \<noteq> [] \<longrightarrow> t < u)"

definition distinct_moids :: "abook \<Rightarrow> bool" where
  "distinct_moids ab \<longleftrightarrow> (\<forall>s t s' t'. (s, t) \<noteq> (s', t') \<longrightarrow>
     moids (ab_side ab s t) \<inter> moids (ab_side ab s' t') = {})"

definition abook_ok :: "abook \<Rightarrow> bool" where
  "abook_ok ab \<longleftrightarrow>
     (\<forall>s t. level_wf (ab_next ab) (ab_side ab s t)) \<and>
     (\<forall>s t. kTickCount \<le> t \<longrightarrow> al_queue (ab_side ab s t) = []) \<and>
     distinct_moids ab \<and> uncrossed ab"

text \<open>What filling leaves of a queue: a suffix, whose first order may be smaller.\<close>

definition shrunk :: "resting list \<Rightarrow> resting list \<Rightarrow> bool" where
  "shrunk q' q \<longleftrightarrow> (\<exists>n. q' = drop n q \<or>
     (\<exists>r rs e. drop n q = r # rs \<and> e < r_qty r \<and> q' = r\<lparr>r_qty := r_qty r - e\<rparr> # rs))"

lemma shrunk_refl [simp]: "shrunk q q"
  unfolding shrunk_def by (rule exI [of _ 0]) simp

lemma shrunk_cons: "shrunk q' q \<Longrightarrow> shrunk q' (r # q)"
  unfolding shrunk_def by (elim exE, rule_tac x = "Suc n" in exI) simp

lemma fill_queue_shrunk: "fill_queue t q rs = (fs, left, rs') \<Longrightarrow> shrunk rs' rs"
proof (induction t q rs arbitrary: fs rule: fill_queue.induct)
  case (2 t q r rs)
  show ?case
  proof (cases "q = 0 \<or> r_qty r - min q (r_qty r) = 0")
    case True
    then show ?thesis using 2 by (auto simp: Let_def shrunk_cons split: if_splits prod.splits)
  next
    case False
    then have "rs' = r\<lparr>r_qty := r_qty r - q\<rparr> # rs" "q < r_qty r"
      using 2(2) by (auto simp: Let_def min_def split: if_splits)
    then show ?thesis unfolding shrunk_def by (intro exI [of _ 0]) auto
  qed
qed simp

lemma shrunk_order:
  assumes "shrunk q' q" and "r' \<in> set q'" and "\<forall>r \<in> set q. 0 < r_qty r"
  shows "\<exists>r \<in> set q. r_moid r' = r_moid r \<and> r_prio r' = r_prio r \<and> r_client r' = r_client r \<and>
    r_coid r' = r_coid r \<and> r_qty r' \<le> r_qty r \<and> 0 < r_qty r'"
proof -
  obtain n where n: "q' = drop n q \<or>
      (\<exists>r rs e. drop n q = r # rs \<and> e < r_qty r \<and> q' = r\<lparr>r_qty := r_qty r - e\<rparr> # rs)"
    using assms(1) by (auto simp: shrunk_def)
  have sub: "set (drop n q) \<subseteq> set q" by (rule set_drop_subset)
  from n show ?thesis
  proof (elim disjE exE conjE)
    assume "q' = drop n q"
    then show ?thesis using assms(2,3) sub by (intro bexI [of _ r']) auto
  next
    fix r rs e
    assume d: "drop n q = r # rs" and e: "e < r_qty r" and q': "q' = r\<lparr>r_qty := r_qty r - e\<rparr> # rs"
    have "0 < r_qty r - e" using e by (simp add: word_greater_zero_iff)
    moreover have "r_qty r - e \<le> r_qty r" using e by (simp add: word_sub_le order_less_imp_le)
    moreover have "r \<in> set q" "set rs \<subseteq> set q" using d sub by auto
    ultimately show ?thesis using assms(2,3) q' by auto
  qed
qed

lemma shrunk_sorted: "shrunk q' q \<Longrightarrow> sorted_wrt before q \<Longrightarrow> sorted_wrt before q'"
proof -
  assume "shrunk q' q" and s: "sorted_wrt before q"
  then obtain n where n: "q' = drop n q \<or>
      (\<exists>r rs e. drop n q = r # rs \<and> e < r_qty r \<and> q' = r\<lparr>r_qty := r_qty r - e\<rparr> # rs)"
    by (auto simp: shrunk_def)
  have "sorted_wrt before (drop n q)" using s by (rule sorted_wrt_drop)
  with n show ?thesis by (auto simp: before_def)
qed

lemma shrunk_moids: "shrunk q' q \<Longrightarrow> \<forall>r \<in> set q. 0 < r_qty r \<Longrightarrow> r_moid ` set q' \<subseteq> r_moid ` set q"
  using shrunk_order [of q' q] by fastforce

lemma level_wf_put:
  assumes wf: "level_wf m (a t)" and sh: "shrunk q (al_queue (a t))" and "0 < unat m"
  shows "level_wf m (put_queue t q a t)"
proof (cases "q = []")
  case True
  then show ?thesis using assms(3) by (simp add: level_wf_def put_queue_def empty_alevel_def)
next
  case False
  have pos: "\<forall>r \<in> set (al_queue (a t)). 0 < r_qty r" using wf by (simp add: level_wf_def)
  have "0 < r_qty r \<and> r_moid r < m \<and> r_prio r < al_next (a t)" if "r \<in> set q" for r
    using shrunk_order [OF sh that pos] wf by (auto simp: level_wf_def)
  then show ?thesis using False wf shrunk_sorted [OF sh] by (simp add: level_wf_def put_queue_def)
qed

section \<open>The invariant is kept\<close>

lemma put_queue_other [simp]: "u \<noteq> t \<Longrightarrow> put_queue t q a u = a u"
  by (simp add: put_queue_def)

lemma put_queue_queue [simp]: "al_queue (put_queue t q a t) = q"
  by (simp add: put_queue_def empty_alevel_def)

lemma fill_levels_inv:
  assumes "fill_levels ts q a = (fs, left, a')" and "\<forall>t. level_wf m (a t)" and "0 < unat m"
  shows "(\<forall>t. level_wf m (a' t)) \<and> (\<forall>t. moids (a' t) \<subseteq> moids (a t))"
  using assms
proof (induction ts arbitrary: q a fs)
  case (Cons t ts)
  show ?case
  proof (cases "q = 0")
    case False
    obtain fs1 q1 rs where lv: "fill_queue t q (al_queue (a t)) = (fs1, q1, rs)" by (metis prod_cases3)
    obtain fs2 where rst: "fill_levels ts q1 (put_queue t rs a) = (fs2, left, a')"
      using Cons.prems(1) lv False by (auto split: prod.splits)
    have sh: "shrunk rs (al_queue (a t))" by (rule fill_queue_shrunk [OF lv])
    have wf1: "\<forall>u. level_wf m (put_queue t rs a u)"
    proof
      fix u show "level_wf m (put_queue t rs a u)"
        using level_wf_put [of m a t rs] sh Cons.prems(2,3) by (cases "u = t") auto
    qed
    have "moids (put_queue t rs a u) \<subseteq> moids (a u)" for u
    proof (cases "u = t")
      case True
      have "\<forall>r \<in> set (al_queue (a t)). 0 < r_qty r" using Cons.prems(2) by (simp add: level_wf_def)
      then show ?thesis using True shrunk_moids [OF sh] by (simp add: moids_def)
    qed simp
    with Cons.IH [OF rst wf1 Cons.prems(3)] show ?thesis by blast
  qed (use Cons.prems in auto)
qed auto

lemma fill_levels_outside:
  "fill_levels ts q a = (fs, left, a') \<Longrightarrow> t \<notin> set ts \<Longrightarrow> a' t = a t"
proof (induction ts arbitrary: q a fs)
  case (Cons u ts)
  then show ?case by (auto split: if_splits prod.splits)
qed simp

lemma fill_levels_exhaust:
  "fill_levels ts q a = (fs, left, a') \<Longrightarrow> left \<noteq> 0 \<Longrightarrow> distinct ts \<Longrightarrow> t \<in> set ts \<Longrightarrow> al_queue (a' t) = []"
proof (induction ts arbitrary: q a fs)
  case (Cons u ts)
  show ?case
  proof (cases "q = 0")
    case True
    then show ?thesis using Cons.prems by auto
  next
    case False
    obtain fs1 q1 rs where lv: "fill_queue u q (al_queue (a u)) = (fs1, q1, rs)" by (metis prod_cases3)
    obtain fs2 where rst: "fill_levels ts q1 (put_queue u rs a) = (fs2, left, a')"
      using Cons.prems(1) lv False by (auto split: prod.splits)
    have "q1 \<noteq> 0" using rst Cons.prems(2) by (auto simp: fill_levels_zero)
    then have "rs = []" using fill_queue_left [OF lv] by simp
    then show ?thesis
      using Cons.IH [OF rst] Cons.prems fill_levels_outside [OF rst, of u] by (cases "t = u") auto
  qed
qed simp

lemma abook_ok_level: "abook_ok ab \<Longrightarrow> level_wf (ab_next ab) (ab_side ab s t)"
  by (simp add: abook_ok_def)

lemma abook_ok_next_pos:
  assumes "abook_ok ab"
  shows "0 < unat (ab_next ab)"
proof -
  have "al_queue (ab_side ab True kTickCount) = []" using assms by (simp add: abook_ok_def)
  then have "al_next (ab_side ab True kTickCount) = 1"
    using abook_ok_level [OF assms, of True kTickCount] by (simp add: level_wf_def)
  then show ?thesis using abook_ok_level [OF assms, of True kTickCount] by (simp add: level_wf_def)
qed

lemma level_wf_mono: "level_wf m lv \<Longrightarrow> unat m \<le> unat m' \<Longrightarrow> level_wf m' lv"
  by (force simp: level_wf_def word_less_nat_alt)

lemma unat_succ: "unat m + 1 < 2 ^ 64 \<Longrightarrow> unat (m + 1 :: u64) = unat m + 1"
  using unat_inc_small [of m] by simp

lemma push_order_wf:
  assumes wf: "level_wf m (a t)" and room: "unat m + 1 < 2 ^ 64" and q: "0 < q"
  shows "level_wf (m + 1) (push_order t \<lparr>r_client = cid, r_coid = coid, r_moid = m, r_qty = q,
      r_prio = al_next (a t)\<rparr> a t)"
proof -
  have al: "unat (al_next (a t)) \<le> unat m" using wf by (simp add: level_wf_def)
  then have s: "unat (al_next (a t) + 1) = unat (al_next (a t)) + 1" using room by (intro unat_succ) simp
  then have lt: "al_next (a t) < al_next (a t) + 1" "m < m + 1"
    using unat_succ [OF room] by (simp_all add: word_less_nat_alt)
  have "\<forall>r \<in> set (al_queue (a t)). r_moid r < m \<and> r_prio r < al_next (a t) \<and> 0 < r_qty r"
    using wf by (simp add: level_wf_def)
  then show ?thesis
    using wf q lt s unat_succ [OF room] al
    by (auto simp: level_wf_def push_order_def sorted_wrt_append before_def intro: order_less_trans)
qed

lemma distinct_moids_sub:
  assumes "distinct_moids ab" and "\<And>s t. moids (ab_side ab' s t) \<subseteq> moids (ab_side ab s t)"
  shows "distinct_moids ab'"
  using assms unfolding distinct_moids_def by blast

lemma moids_empty: "moids lv = {} \<longleftrightarrow> al_queue lv = []"
  by (simp add: moids_def)

lemma abook_ok_sub:
  assumes ok: "abook_ok ab" and "ab_next ab' = ab_next ab"
    and wf: "\<And>s t. level_wf (ab_next ab) (ab_side ab' s t)"
    and sub: "\<And>s t. moids (ab_side ab' s t) \<subseteq> moids (ab_side ab s t)"
  shows "abook_ok ab'"
proof -
  have empty: "al_queue (ab_side ab' s t) = []" if "al_queue (ab_side ab s t) = []" for s t
    using sub [of s t] that by (metis moids_empty subset_empty)
  then show ?thesis
    using ok assms(2) wf distinct_moids_sub [OF _ sub] unfolding abook_ok_def uncrossed_def by metis
qed

lemma crossing_distinct: "distinct (crossing_ticks buy limit a)"
  by (simp add: crossing_ticks_def)

lemma abook_ok_fill:
  assumes ok: "abook_ok ab"
    and m: "fill_levels ts q (ab_side ab s) = (fs, left, a')"
  shows "abook_ok (upd_side s (\<lambda>_. a') ab)"
proof (rule abook_ok_sub [OF ok])
  have f: "(\<forall>t. level_wf (ab_next ab) (a' t)) \<and> (\<forall>t. moids (a' t) \<subseteq> moids (ab_side ab s t))"
    using fill_levels_inv [OF m] abook_ok_level [OF ok] abook_ok_next_pos [OF ok] by blast
  show "level_wf (ab_next ab) (ab_side (upd_side s (\<lambda>_. a') ab) s' t)" for s' t
    using f abook_ok_level [OF ok] by (simp add: upd_side_def)
  show "moids (ab_side (upd_side s (\<lambda>_. a') ab) s' t) \<subseteq> moids (ab_side ab s' t)" for s' t
    using f by (simp add: upd_side_def)
qed (simp add: upd_side_def)

text \<open>A fresh order is pushed at a tick of its own side that trades with nothing.\<close>

lemma abook_ok_push:
  assumes ok: "abook_ok ab" and room: "unat (ab_next ab) + 1 < 2 ^ 64" and q: "0 < q"
    and t: "t < kTickCount"
    and clear: "\<And>u. al_queue (ab_side ab (\<not> s) u) \<noteq> [] \<Longrightarrow> (if s then t < u else u < t)"
  shows "abook_ok (upd_side s (push_order t \<lparr>r_client = cid, r_coid = coid, r_moid = ab_next ab,
      r_qty = q, r_prio = al_next (ab_side ab s t)\<rparr>) (ab\<lparr>ab_next := ab_next ab + 1\<rparr>))"
    (is "abook_ok ?ab'")
proof -
  define r where "r = \<lparr>r_client = cid, r_coid = coid, r_moid = ab_next ab,
      r_qty = q, r_prio = al_next (ab_side ab s t)\<rparr>"
  have side: "ab_side ?ab' s' u = (if s' = s \<and> u = t then push_order t r (ab_side ab s) t else ab_side ab s' u)" for s' u
    by (simp add: upd_side_def push_order_def r_def)
  have nxt: "ab_next ?ab' = ab_next ab + 1" by (simp add: upd_side_def)
  have wf: "level_wf (ab_next ab + 1) (ab_side ?ab' s' u)" for s' u
  proof (cases "s' = s \<and> u = t")
    case True
    show ?thesis unfolding side using True push_order_wf [OF abook_ok_level [OF ok] room q] by (simp add: r_def)
  next
    case False
    show ?thesis unfolding side using False level_wf_mono [OF abook_ok_level [OF ok]] unat_succ [OF room] by auto
  qed
  have old: "x < ab_next ab" if "x \<in> moids (ab_side ab s' u)" for x s' u
    using that abook_ok_level [OF ok, of s' u] by (auto simp: moids_def level_wf_def)
  have mo: "moids (ab_side ?ab' s' u) =
      (if s' = s \<and> u = t then insert (ab_next ab) (moids (ab_side ab s t)) else moids (ab_side ab s' u))" for s' u
    unfolding side by (simp add: moids_def push_order_def r_def)
  have "distinct_moids ?ab'"
    unfolding distinct_moids_def mo
    using ok old by (auto simp: abook_ok_def distinct_moids_def split: if_splits)
  moreover have "uncrossed ?ab'"
    unfolding uncrossed_def side using ok clear
    by (cases s) (auto simp: abook_ok_def uncrossed_def split: if_splits)
  moreover have "\<forall>s' u. kTickCount \<le> u \<longrightarrow> al_queue (ab_side ?ab' s' u) = []"
    unfolding side using ok t by (auto simp: abook_ok_def)
  ultimately show ?thesis using wf unfolding abook_ok_def nxt by blast
qed

lemma upd_side_next: "upd_side s f (ab\<lparr>ab_next := m\<rparr>) = (upd_side s f ab)\<lparr>ab_next := m\<rparr>"
  by (simp add: upd_side_def)

lemma abook_ok_next:
  "abook_ok ab \<Longrightarrow> unat (ab_next ab) + 1 < 2 ^ 64 \<Longrightarrow> abook_ok (ab\<lparr>ab_next := ab_next ab + 1\<rparr>)"
  using unat_succ [of "ab_next ab"] level_wf_mono [of "ab_next ab" _ "ab_next ab + 1"]
  by (auto simp: abook_ok_def distinct_moids_def uncrossed_def)

lemma spec_add_ok:
  assumes ok: "abook_ok ab" and room: "unat (ab_next ab) + 1 < 2 ^ 64"
    and tick: "0 \<le> ToTick band price" "ToTick band price < int kTickCount"
  shows "abook_ok (out_book (spec_add symbol band cid coid side price qty ab))"
proof -
  define buy where "buy = (side = BUY)"
  define limit where "limit = ToTick band price"
  let ?opp = "ab_side ab (\<not> buy)"
  obtain fs left a' where m: "fill_levels (crossing_ticks buy limit ?opp) qty ?opp = (fs, left, a')"
    by (metis prod_cases3)
  define ab1 where "ab1 = upd_side (\<not> buy) (\<lambda>_. a') ab"
  have ok1: "abook_ok ab1" unfolding ab1_def by (rule abook_ok_fill [OF ok m])
  have n1: "ab_next ab1 = ab_next ab" by (simp add: ab1_def upd_side_def)
  have out: "out_book (spec_add symbol band cid coid side price qty ab) =
    (if left = 0 then ab1\<lparr>ab_next := ab_next ab + 1\<rparr>
     else upd_side buy (push_order (nat limit) \<lparr>r_client = cid, r_coid = coid, r_moid = ab_next ab,
            r_qty = left, r_prio = al_next (ab_side ab1 buy (nat limit))\<rparr>) (ab1\<lparr>ab_next := ab_next ab + 1\<rparr>))"
    using m by (simp add: spec_add_def Let_def buy_def [symmetric] limit_def [symmetric] ab1_def upd_side_next)
  show ?thesis
  proof (cases "left = 0")
    case True
    then show ?thesis using out abook_ok_next [OF ok1] room n1 by simp
  next
    case False
    have clear: "if buy then nat limit < u else u < nat limit" if u: "al_queue (ab_side ab1 (\<not> buy) u) \<noteq> []" for u
    proof -
      have a'u: "al_queue (a' u) \<noteq> []" using u by (simp add: ab1_def upd_side_def)
      then have nin: "u \<notin> set (crossing_ticks buy limit ?opp)"
        using fill_levels_exhaust [OF m False crossing_distinct] by blast
      then have "al_queue (?opp u) \<noteq> []" using a'u fill_levels_outside [OF m nin] by simp
      moreover from this have "u < kTickCount" using ok by (metis abook_ok_def linorder_not_le)
      ultimately have "\<not> tick_crosses buy limit u" using nin by (simp add: crossing_set)
      then show ?thesis using tick by (auto simp: tick_crosses_def limit_def split: if_splits)
    qed
    have t: "nat limit < kTickCount" using tick by (auto simp: limit_def)
    have room1: "unat (ab_next ab1) + 1 < 2 ^ 64" using room n1 by simp
    have pos: "0 < left" using False by (simp add: word_gt_0)
    from abook_ok_push [OF ok1 room1 pos t clear] False n1 show ?thesis by (simp add: out)
  qed
qed

lemma shrunk_remove: "sorted_wrt before q \<Longrightarrow> sorted_wrt before (remove1 r q)"
proof (induction q)
  case (Cons x q)
  then show ?case using set_remove1_subset [of r q] by auto
qed simp

lemma spec_cancel_ok:
  assumes ok: "abook_ok ab"
  shows "abook_ok (out_book (spec_cancel symbol band cid coid ab))"
proof (cases "spec_find cid coid ab")
  case None
  then show ?thesis using ok by (simp add: spec_cancel_def)
next
  case (Some place)
  obtain s t r where place: "place = (s, t, r)" by (cases place)
  let ?q = "al_queue (ab_side ab s t)"
  have out: "out_book (spec_cancel symbol band cid coid ab) =
      upd_side s (\<lambda>a. put_queue t (remove1 r (al_queue (a t))) a) ab"
    using Some place by (simp add: spec_cancel_def)
  have wf0: "level_wf (ab_next ab) (ab_side ab s t)" using abook_ok_level [OF ok] .
  have wf1: "level_wf (ab_next ab) (put_queue t (remove1 r ?q) (ab_side ab s) t)"
    using wf0 shrunk_remove abook_ok_next_pos [OF ok] set_remove1_subset [of r ?q]
    by (auto simp: level_wf_def put_queue_def empty_alevel_def)
  show ?thesis unfolding out
  proof (rule abook_ok_sub [OF ok])
    show "level_wf (ab_next ab) (ab_side (upd_side s (\<lambda>a. put_queue t (remove1 r (al_queue (a t))) a) ab) s' u)" for s' u
      using wf1 abook_ok_level [OF ok] by (cases "u = t") (auto simp: upd_side_def)
    show "moids (ab_side (upd_side s (\<lambda>a. put_queue t (remove1 r (al_queue (a t))) a) ab) s' u) \<subseteq>
        moids (ab_side ab s' u)" for s' u
      using set_remove1_subset [of r ?q] by (cases "u = t") (auto simp: upd_side_def moids_def)
  qed (simp add: upd_side_def)
qed

section \<open>Requests a caller may make\<close>

datatype request =
    Add_Request ClientId OrderId Side Price Quantity
  | Cancel_Request ClientId OrderId

definition apply_request :: "request \<Rightarrow> BookCore \<Rightarrow> BookCore result" where
  "apply_request req b = (case req of
     Add_Request cid coid side price qty \<Rightarrow> Add cid coid side price qty b
   | Cancel_Request cid coid \<Rightarrow> Cancel cid coid b)"

definition spec_request :: "SymbolId \<Rightarrow> PriceBand \<Rightarrow> request \<Rightarrow> abook \<Rightarrow> outcome" where
  "spec_request symbol band req ab = (case req of
     Add_Request cid coid side price qty \<Rightarrow> spec_add symbol band cid coid side price qty ab
   | Cancel_Request cid coid \<Rightarrow> spec_cancel symbol band cid coid ab)"

text \<open>
  The preconditions \<open>book_core.h\<close> states for its callers (ids within the tables, a directional
  side, an aligned price in the band, a positive quantity) and the three it leaves implicit: the
  order id is not in use, the pool has a free node, the id counter does not wrap.
\<close>

definition valid_request :: "request \<Rightarrow> BookCore \<Rightarrow> bool" where
  "valid_request req b = (case req of
     Add_Request cid coid side price qty \<Rightarrow>
       unat cid < kMaxNumClients \<and> unat coid < kMaxOrderIds \<and> (side = BUY \<or> side = SELL) \<and>
       0 \<le> ToTick (bk_band b) price \<and> ToTick (bk_band b) price < int kTickCount \<and>
       ToPrice (bk_band b) (ToTick (bk_band b) price) = price \<and> 0 < qty \<and>
       FindOrder cid coid b = Inr None \<and> mp_in_use (order_pool b) < kMaxOrderIds \<and>
       unat (next_market_order_id b) + 1 < 2 ^ 64
   | Cancel_Request cid coid \<Rightarrow> unat cid < kMaxNumClients \<and> unat coid < kMaxOrderIds)"

definition book_inv :: "BookCore \<Rightarrow> bool" where
  "book_inv b \<longleftrightarrow> (\<exists>Q. book_rel b Q) \<and> abook_ok (book_abs b)"

lemma abook_ok_empty: "abook_ok empty_abook"
  by (simp add: abook_ok_def empty_abook_def level_wf_def empty_alevel_def distinct_moids_def
      uncrossed_def moids_def)

lemma new_BookCore_ok:
  assumes "IsValid band"
  shows "\<exists>b. new_BookCore debug symbol band = Inr b \<and> book_inv b \<and> book_abs b = empty_abook \<and>
    bk_band b = band \<and> bk_symbol_id b = symbol \<and> client_responses b = [] \<and> market_updates b = []"
proof -
  obtain pb where pb: "new_PriceLevels BUY = Inr pb" "pl_side pb = BUY" "side_rel Map.empty pb (\<lambda>_. [])"
    using new_PriceLevels_rel [of BUY] by auto
  obtain pa where pa: "new_PriceLevels SELL = Inr pa" "pl_side pa = SELL" "side_rel Map.empty pa (\<lambda>_. [])"
    using new_PriceLevels_rel [of SELL] by auto
  let ?b = "\<lparr>bk_symbol_id = symbol, bk_band = band, order_pool = new_pool debug kMaxOrderIds,
          bids = pb, asks = pa, orders = (\<lambda>_. None), next_market_order_id = 1,
          client_responses = [], market_updates = []\<rparr>"
  have run: "new_BookCore debug symbol band = Inr ?b"
    using assms pb(1) pa(1) by (simp add: new_BookCore_def)
  have lv: "next_priority (levels pb t) = 1" "next_priority (levels pa t) = 1" for t
    using pb(3) pa(3) by (auto simp: side_rel_def level_ok_def)
  have rel: "book_rel ?b (\<lambda>_ _. [])"
    using assms pb pa new_pool_inv [of debug kMaxOrderIds]
    by (auto simp: book_rel_def sideof_def dir_def side_ptrs_def idx_def) (simp add: new_pool_def)
  have "book_abs ?b = empty_abook"
    unfolding book_abs_eq [OF rel]
    using lv by (auto simp: abs_with_def empty_abook_def empty_alevel_def sideof_def fun_eq_iff)
  then show ?thesis using run rel abook_ok_empty by (auto simp: book_inv_def)
qed

lemma implements_abs:
  assumes "implements b x b'"
  shows "book_abs b' = out_book x" "\<exists>Q. book_rel b' Q"
  using assms book_abs_eq by (auto simp: implements_def)

lemma valid_request_runs:
  assumes inv: "book_inv b" and ok: "valid_request req b"
  shows "\<exists>b'. apply_request req b = Inr b' \<and>
    implements b (spec_request (bk_symbol_id b) (bk_band b) req (book_abs b)) b' \<and>
    abook_ok (out_book (spec_request (bk_symbol_id b) (bk_band b) req (book_abs b)))"
proof -
  from inv obtain Q where rel: "book_rel b Q" and aok: "abook_ok (book_abs b)" by (auto simp: book_inv_def)
  note abs = book_abs_eq [OF rel]
  show ?thesis
  proof (cases req)
    case (Add_Request cid coid side price qty)
    define buy where "buy = (side = BUY)"
    have ok': "unat cid < kMaxNumClients" "unat coid < kMaxOrderIds" "FindOrder cid coid b = Inr None"
        "mp_in_use (order_pool b) < kMaxOrderIds" "0 \<le> ToTick (bk_band b) price"
        "ToTick (bk_band b) price < int kTickCount" "unat (next_market_order_id b) + 1 < 2 ^ 64"
      using ok Add_Request by (auto simp: valid_request_def)
    have free: "idx b (unat cid) (unat coid) = None" using FindOrder_rel [OF rel ok'(1,2)] ok'(3) by simp
    have nxt: "ab_next (book_abs b) = next_market_order_id b" by (simp add: abs abs_next)
    have "unat (al_next (ab_side (book_abs b) buy t)) \<le> unat (next_market_order_id b)" for t
      using abook_ok_level [OF aok, of buy t] nxt by (simp add: level_wf_def)
    then have "unat (al_next (ab_side (abs_with b Q) (side = BUY) (nat (ToTick (bk_band b) price)))) + 1 < 2 ^ 64"
      using ok'(7) unfolding abs buy_def by (meson add_le_mono1 order_le_less_trans)
    from Add_ok [OF rel ok'(1,2) free ok'(4,5,6) this, of qty] spec_add_ok [OF aok _ ok'(5,6)] ok'(7) nxt
    show ?thesis by (simp add: apply_request_def spec_request_def Add_Request abs)
  next
    case (Cancel_Request cid coid)
    with ok have "unat cid < kMaxNumClients" "unat coid < kMaxOrderIds" by (auto simp: valid_request_def)
    from Cancel_ok [OF rel this] spec_cancel_ok [OF aok] show ?thesis
      by (simp add: apply_request_def spec_request_def Cancel_Request abs)
  qed
qed

text \<open>C1: A request that meets the documented preconditions never stops on an assertion, a bad
  pointer or an endless loop: it returns, keeps the invariant of the book, and has exactly the
  effect, the client responses and the market updates of price-time-priority matching.\<close>

theorem request_refines_spec:
  assumes "book_inv b" and "valid_request req b"
  shows "\<exists>b'. apply_request req b = Inr b' \<and> book_inv b' \<and>
    book_abs b' = out_book (spec_request (bk_symbol_id b) (bk_band b) req (book_abs b)) \<and>
    client_responses b' = client_responses b @
      out_responses (spec_request (bk_symbol_id b) (bk_band b) req (book_abs b)) \<and>
    market_updates b' = market_updates b @
      out_updates (spec_request (bk_symbol_id b) (bk_band b) req (book_abs b))"
proof -
  obtain b' where b': "apply_request req b = Inr b'"
      "implements b (spec_request (bk_symbol_id b) (bk_band b) req (book_abs b)) b'"
      "abook_ok (out_book (spec_request (bk_symbol_id b) (bk_band b) req (book_abs b)))"
    using valid_request_runs [OF assms] by blast
  with implements_abs [OF b'(2)] show ?thesis by (auto simp: implements_def book_inv_def)
qed

lemma request_keeps_inv:
  assumes "book_inv b" and "valid_request req b"
  shows "apply_request req b = Inr (projr (apply_request req b)) \<and> book_inv (projr (apply_request req b))"
proof -
  obtain b' where "apply_request req b = Inr b'"
      "implements b (spec_request (bk_symbol_id b) (bk_band b) req (book_abs b)) b'"
      "abook_ok (out_book (spec_request (bk_symbol_id b) (bk_band b) req (book_abs b)))"
    using valid_request_runs [OF assms] by blast
  with implements_abs [of b _ b'] show ?thesis by (auto simp: book_inv_def)
qed

section \<open>A concrete book\<close>

text \<open>The definitions a concrete run of the book evaluates.\<close>

lemmas book_eval = new_BookCore_def new_PriceLevels_def new_pool_def IsValid_def kDefaultPriceBand_def
  kPriceMax_def tdiv_def ToTick_def ToPrice_def swrap_def Add_def Cancel_def Match_def match_levels.simps
  match_level.simps LevelAt_def NextMarketOrderId_def SendClientResponse_def SendMarketUpdate_def
  AddOrder_def allocate_def MarkSlot_def IndexOrder_def capacity_defs set_side_def sideof_def
  FindOrder_def Let_def kInvalidTick_def empty_level_def level_IsEmpty_def pl_IsEmpty_def level_upd_def
  lookup_def store_def node_upd_def ApplyFill_def RemoveOrder_def fill_maker_def crosses_def
  apply_request_def valid_request_def Owns_def IndexOf_def UnindexOrder_def deallocate_def

text \<open>One buy order of 10 at 100, from client 1, on an empty book with the default band.\<close>

definition example_book :: BookCore where
  "example_book = projr (apply_request (Add_Request 1 1 BUY 100 10)
     (projr (new_BookCore True 0 kDefaultPriceBand)))"

lemma default_band_valid: "IsValid kDefaultPriceBand"
  by (simp add: IsValid_def kDefaultPriceBand_def kPriceMax_def tdiv_def)

lemma example_book_start:
  "\<exists>b. new_BookCore True 0 kDefaultPriceBand = Inr b \<and> book_inv b \<and>
     valid_request (Add_Request 1 1 BUY 100 10) b \<and>
     apply_request (Add_Request 1 1 BUY 100 10) b = Inr example_book"
proof -
  obtain b where b: "new_BookCore True 0 kDefaultPriceBand = Inr b" "book_inv b"
    using new_BookCore_ok [OF default_band_valid, of True 0] by blast
  have "valid_request (Add_Request 1 1 BUY 100 10) (projr (new_BookCore True 0 kDefaultPriceBand))"
    by (simp add: book_eval)
  with request_keeps_inv [OF b(2)] b show ?thesis by (simp add: example_book_def)
qed

lemma example_book_inv: "book_inv example_book"
  using example_book_start request_keeps_inv by (metis sum.sel(2))

lemma example_book_sell: "valid_request (Add_Request 2 1 SELL 99 4) example_book"
  by (simp add: example_book_def book_eval)

theorem request_refines_spec_witness:
  "\<exists>b'. apply_request (Add_Request 2 1 SELL 99 4) example_book = Inr b' \<and> book_inv b'"
  using request_refines_spec [OF example_book_inv example_book_sell] by blast

end
