(* ===== verification/Book_Fills.thy ===== *)
theory Book_Fills
  imports Book_Correct
begin

text \<open>
  What one incoming order does, read off its fills: quantity is conserved, no fill is worse
  than the limit, and fills are made in price-time order, leaving nothing with a better claim.
\<close>

section \<open>Fills of one queue\<close>

definition qsum :: "resting list \<Rightarrow> nat" where "qsum q = (\<Sum>r\<leftarrow>q. unat (r_qty r))"
definition fsum :: "fill list \<Rightarrow> nat" where "fsum fs = (\<Sum>f\<leftarrow>fs. unat (f_qty f))"

lemma sum_simps [simp]:
  "qsum [] = 0" "qsum (r # q) = unat (r_qty r) + qsum q" "qsum (q @ q') = qsum q + qsum q'"
  "fsum [] = 0" "fsum (f # fs) = unat (f_qty f) + fsum fs" "fsum (fs @ gs) = fsum fs + fsum gs"
  by (simp_all add: qsum_def fsum_def)

abbreviation fill_moid :: "fill \<Rightarrow> OrderId" where "fill_moid f \<equiv> r_moid (f_maker f)"

lemma fill_queue_sums:
  "fill_queue t q rs = (fs, left, rs') \<Longrightarrow>
     unat q = unat left + fsum fs \<and> qsum rs = qsum rs' + fsum fs"
proof (induction t q rs arbitrary: fs rule: fill_queue.induct)
  case (2 t q r rs)
  define e where "e = min q (r_qty r)"
  have le: "e \<le> q" "e \<le> r_qty r" by (simp_all add: e_def)
  have d: "unat (q - e) = unat q - unat e" "unat (r_qty r - e) = unat (r_qty r) - unat e"
    "unat e \<le> unat q" "unat e \<le> unat (r_qty r)"
    using le by (simp_all add: unat_diff_le word_le_nat_alt)
  show ?case
  proof (cases "q = 0")
    case True
    then show ?thesis using 2(2) by auto
  next
    case nz: False
    show ?thesis
    proof (cases "r_qty r - e = 0")
      case True
      obtain fs' where rec: "fill_queue t (q - e) rs = (fs', left, rs')"
          "fs = \<lparr>f_tick = t, f_maker = r, f_qty = e\<rparr> # fs'"
        using 2(2) nz True by (auto simp: Let_def e_def [symmetric] split: prod.splits if_splits)
      have "r_qty r = e" using True by simp
      with 2(1) [OF nz e_def refl _ rec(1)] True rec d show ?thesis by simp linarith
    next
      case False
      then have "fs = [\<lparr>f_tick = t, f_maker = r, f_qty = e\<rparr>]" "left = q - e" "rs' = r\<lparr>r_qty := r_qty r - e\<rparr> # rs"
        using 2(2) nz by (auto simp: Let_def e_def [symmetric] split: prod.splits if_splits)
      then show ?thesis using d by simp
    qed
  qed
qed auto

lemma fill_queue_fills:
  "fill_queue t q rs = (fs, left, rs') \<Longrightarrow> \<forall>r \<in> set rs. 0 < r_qty r \<Longrightarrow> sorted_wrt before rs \<Longrightarrow>
     (\<forall>f \<in> set fs. f_tick f = t \<and> f_maker f \<in> set rs \<and> 0 < f_qty f \<and> f_qty f \<le> r_qty (f_maker f)) \<and>
     sorted_wrt (\<lambda>f g. fill_moid f < fill_moid g) fs \<and>
     (\<forall>f \<in> set fs. \<forall>r \<in> set rs'. fill_moid f \<le> r_moid r)"
proof (induction t q rs arbitrary: fs rule: fill_queue.induct)
  case (2 t q r rs)
  define e where "e = min q (r_qty r)"
  show ?case
  proof (cases "q = 0")
    case True
    then show ?thesis using 2(2) by auto
  next
    case nz: False
    have e: "0 < e" "e \<le> r_qty r" using nz 2(3) by (auto simp: e_def word_gt_0)
    have bef: "\<forall>r' \<in> set rs. r_moid r < r_moid r'" using 2(4) by (auto simp: before_def)
    show ?thesis
    proof (cases "r_qty r - e = 0")
      case True
      obtain fs' where rec: "fill_queue t (q - e) rs = (fs', left, rs')"
          "fs = \<lparr>f_tick = t, f_maker = r, f_qty = e\<rparr> # fs'"
        using 2(2) nz True by (auto simp: Let_def e_def [symmetric] split: prod.splits if_splits)
      have IH: "(\<forall>f \<in> set fs'. f_tick f = t \<and> f_maker f \<in> set rs \<and> 0 < f_qty f \<and> f_qty f \<le> r_qty (f_maker f)) \<and>
         sorted_wrt (\<lambda>f g. fill_moid f < fill_moid g) fs' \<and>
         (\<forall>f \<in> set fs'. \<forall>r \<in> set rs'. fill_moid f \<le> r_moid r)"
        using 2(1) [OF nz e_def refl _ rec(1)] True 2(3,4) by simp
      have "r_moid ` set rs' \<subseteq> r_moid ` set rs"
        using shrunk_moids [OF fill_queue_shrunk [OF rec(1)]] 2(3) by simp
      then have "\<forall>r' \<in> set rs'. r_moid r < r_moid r'" using bef by fastforce
      with IH rec(2) e bef show ?thesis by (auto intro: order_less_imp_le)
    next
      case False
      then have "fs = [\<lparr>f_tick = t, f_maker = r, f_qty = e\<rparr>]" "rs' = r\<lparr>r_qty := r_qty r - e\<rparr> # rs"
        using 2(2) nz by (auto simp: Let_def e_def [symmetric] split: prod.splits if_splits)
      then show ?thesis using e bef by (auto intro: order_less_imp_le)
    qed
  qed
qed auto

section \<open>Fills of a side\<close>

definition side_total :: "aside \<Rightarrow> nat" where
  "side_total a = (\<Sum>t < kTickCount. qsum (al_queue (a t)))"

lemma fill_levels_sums:
  "fill_levels ts q a = (fs, left, a') \<Longrightarrow> distinct ts \<Longrightarrow> set ts \<subseteq> {..<kTickCount} \<Longrightarrow>
     unat q = unat left + fsum fs \<and> side_total a = side_total a' + fsum fs"
proof (induction ts arbitrary: q a fs)
  case (Cons t ts)
  show ?case
  proof (cases "q = 0")
    case False
    obtain fs1 q1 rs where lv: "fill_queue t q (al_queue (a t)) = (fs1, q1, rs)" by (metis prod_cases3)
    obtain fs2 where rst: "fill_levels ts q1 (put_queue t rs a) = (fs2, left, a')" "fs = fs1 @ fs2"
      using Cons.prems(1) lv False by (auto split: prod.splits)
    have t: "t \<in> {..<kTickCount}" using Cons.prems(3) by simp
    have "side_total b = qsum (al_queue (b t)) + (\<Sum>u \<in> {..<kTickCount} - {t}. qsum (al_queue (b u)))" for b :: aside
      unfolding side_total_def by (rule sum.remove [OF _ t]) simp
    then have "side_total a = side_total (put_queue t rs a) + fsum fs1"
      using fill_queue_sums [OF lv] by simp
    with Cons.IH [OF rst(1)] Cons.prems(2,3) fill_queue_sums [OF lv] rst(2) show ?thesis by simp
  qed (use Cons.prems in auto)
qed auto

text \<open>An order of ticks for the side a taker trades against: lower asks, higher bids first.\<close>

definition better :: "bool \<Rightarrow> nat \<Rightarrow> nat \<Rightarrow> bool" where
  "better buy t u \<longleftrightarrow> (if buy then t < u else u < t)"

definition sooner :: "bool \<Rightarrow> fill \<Rightarrow> fill \<Rightarrow> bool" where
  "sooner buy f g \<longleftrightarrow> better buy (f_tick f) (f_tick g) \<or> f_tick f = f_tick g \<and> fill_moid f < fill_moid g"

lemma crossing_sorted: "sorted_wrt (better buy) (crossing_ticks buy limit a)"
proof -
  have "sorted_wrt (<) (filter P [0..<n])" for P :: "nat \<Rightarrow> bool" and n
    by (simp add: sorted_wrt_filter)
  then have "sorted_wrt (<) (filter P [0..<n])" "sorted_wrt (\<lambda>x y. y < x) (rev (filter P [0..<n]))"
    for P :: "nat \<Rightarrow> bool" and n by (simp_all add: sorted_wrt_rev)
  moreover have "better True = (<)" "better False = (\<lambda>x y. y < x)"
    by (auto simp: better_def fun_eq_iff)
  ultimately show ?thesis by (cases buy) (simp_all add: crossing_ticks_def rev_filter [symmetric])
qed

lemma fill_levels_fills:
  "fill_levels ts q a = (fs, left, a') \<Longrightarrow> sorted_wrt (better buy) ts \<Longrightarrow> \<forall>t. level_wf m (a t) \<Longrightarrow> 0 < unat m \<Longrightarrow>
     (\<forall>f \<in> set fs. f_tick f \<in> set ts \<and> f_maker f \<in> set (al_queue (a (f_tick f))) \<and>
        0 < f_qty f \<and> f_qty f \<le> r_qty (f_maker f)) \<and>
     sorted_wrt (sooner buy) fs \<and>
     (\<forall>f \<in> set fs. \<forall>t \<in> set ts. \<forall>r \<in> set (al_queue (a' t)).
        better buy (f_tick f) t \<or> f_tick f = t \<and> fill_moid f \<le> r_moid r)"
proof (induction ts arbitrary: q a fs)
  case (Cons t ts)
  show ?case
  proof (cases "q = 0")
    case True
    then show ?thesis using Cons.prems by auto
  next
    case False
    obtain fs1 q1 rs where lv: "fill_queue t q (al_queue (a t)) = (fs1, q1, rs)" by (metis prod_cases3)
    obtain fs2 where rst: "fill_levels ts q1 (put_queue t rs a) = (fs2, left, a')" "fs = fs1 @ fs2"
      using Cons.prems(1) lv False by (auto split: prod.splits)
    have wft: "\<forall>r \<in> set (al_queue (a t)). 0 < r_qty r" "sorted_wrt before (al_queue (a t))"
      using Cons.prems(3) by (simp_all add: level_wf_def)
    note q1 = fill_queue_fills [OF lv wft]
    have wf1: "\<forall>u. level_wf m (put_queue t rs a u)"
    proof
      fix u show "level_wf m (put_queue t rs a u)"
        using level_wf_put [of m a t rs] fill_queue_shrunk [OF lv] Cons.prems(3,4) by (cases "u = t") auto
    qed
    have tl: "sorted_wrt (better buy) ts" "\<forall>u \<in> set ts. better buy t u" using Cons.prems(2) by auto
    have nt: "t \<notin> set ts" using tl(2) by (auto simp: better_def split: if_splits)
    note IH = Cons.IH [OF rst(1) tl(1) wf1 Cons.prems(4)]
    have at: "al_queue (a' t) = rs" using fill_levels_outside [OF rst(1) nt] by simp
    have two: "fs2 = [] \<or> rs = []"
    proof (cases "q1 = 0")
      case True
      then show ?thesis using rst(1) by (simp add: fill_levels_zero)
    next
      case False
      then show ?thesis using fill_queue_left [OF lv] by simp
    qed
    have t2: "f_tick f \<in> set ts" "better buy t (f_tick f)" "f_tick f \<noteq> t" if "f \<in> set fs2" for f
      using IH tl(2) that nt by auto
    have "\<forall>f \<in> set fs. f_tick f \<in> set (t # ts) \<and> f_maker f \<in> set (al_queue (a (f_tick f))) \<and>
        0 < f_qty f \<and> f_qty f \<le> r_qty (f_maker f)"
      using q1 IH t2 unfolding rst(2) by auto
    moreover have "sorted_wrt (sooner buy) fs"
    proof -
      have "sorted_wrt (sooner buy) fs1"
        by (rule sorted_wrt_mono_rel [of _ "\<lambda>f g. fill_moid f < fill_moid g"]) (use q1 in \<open>auto simp: sooner_def\<close>)
      moreover have "\<forall>f \<in> set fs1. \<forall>g \<in> set fs2. sooner buy f g" using q1 t2 by (auto simp: sooner_def)
      ultimately show ?thesis using IH unfolding rst(2) by (simp add: sorted_wrt_append)
    qed
    moreover have "\<forall>f \<in> set fs. \<forall>u \<in> set (t # ts). \<forall>r \<in> set (al_queue (a' u)).
        better buy (f_tick f) u \<or> f_tick f = u \<and> fill_moid f \<le> r_moid r"
    proof (intro ballI)
      fix f u r assume f: "f \<in> set fs" and u: "u \<in> set (t # ts)" and r: "r \<in> set (al_queue (a' u))"
      show "better buy (f_tick f) u \<or> f_tick f = u \<and> fill_moid f \<le> r_moid r"
      proof (cases "f \<in> set fs2")
        case True
        then have "rs = []" using two by auto
        then have "u \<in> set ts" using u r at by auto
        with True r IH show ?thesis by blast
      next
        case False
        then have f1: "f \<in> set fs1" using f rst(2) by simp
        then have "f_tick f = t" using q1 by blast
        then show ?thesis using u r f1 at q1 tl(2) by auto
      qed
    qed
    ultimately show ?thesis by blast
  qed
qed auto

section \<open>What an incoming order publishes\<close>

definition new_updates :: "BookCore \<Rightarrow> BookCore \<Rightarrow> MatchingEngineMarketUpdate list" where
  "new_updates b b' = drop (length (market_updates b)) (market_updates b')"

definition new_responses :: "BookCore \<Rightarrow> BookCore \<Rightarrow> MatchingEngineClientResponse list" where
  "new_responses b b' = drop (length (client_responses b)) (client_responses b')"

definition trades :: "MatchingEngineMarketUpdate list \<Rightarrow> MatchingEngineMarketUpdate list" where
  "trades us = filter (\<lambda>u. mu_type u = MU_TRADE) us"

definition traded :: "MatchingEngineMarketUpdate list \<Rightarrow> nat" where
  "traded us = (\<Sum>u\<leftarrow>trades us. unat (mu_quantity u))"

definition book_total :: "bool \<Rightarrow> BookCore \<Rightarrow> nat" where
  "book_total s b = side_total (ab_side (book_abs b) s)"

definition trade_update :: "SymbolId \<Rightarrow> PriceBand \<Rightarrow> Side \<Rightarrow> fill \<Rightarrow> MatchingEngineMarketUpdate" where
  "trade_update symbol band side f =
     order_update MU_TRADE symbol band side (f_tick f) (fill_moid f) (f_qty f) 0"

lemma trades_simps [simp]:
  "trades [] = []" "trades (us @ vs) = trades us @ trades vs"
  "trades (fill_updates symbol band side fs) = map (trade_update symbol band side) fs"
  by (induction fs)
    (simp_all add: trades_def fill_updates_def fill_update_def trade_update_def order_update_def)

lemma fill_responses_prices:
  "x \<in> set (fill_responses symbol band k q fs) \<Longrightarrow> \<exists>f \<in> set fs. resp_price x = ToPrice band (int (f_tick f))"
  by (induction fs arbitrary: q) (auto simp: taker_response_def maker_response_def)

text \<open>The matching behind one \<open>Add\<close>, with what it leaves and publishes.\<close>

lemma Add_facts:
  assumes inv: "book_inv b" and ok: "valid_request (Add_Request cid coid side price qty) b"
    and run: "Add cid coid side price qty b = Inr b'"
  obtains fs left a' where
    "fill_levels (crossing_ticks (side = BUY) (ToTick (bk_band b) price) (ab_side (book_abs b) (side \<noteq> BUY)))
       qty (ab_side (book_abs b) (side \<noteq> BUY)) = (fs, left, a')"
    "ab_side (book_abs b') (side \<noteq> BUY) = a'"
    "ab_side (book_abs b') (side = BUY) =
      (if left = 0 then ab_side (book_abs b) (side = BUY)
       else push_order (nat (ToTick (bk_band b) price))
         \<lparr>r_client = cid, r_coid = coid, r_moid = next_market_order_id b, r_qty = left,
          r_prio = al_next (ab_side (book_abs b) (side = BUY) (nat (ToTick (bk_band b) price)))\<rparr>
         (ab_side (book_abs b) (side = BUY)))"
    "trades (new_updates b b') = map (trade_update (bk_symbol_id b) (bk_band b) (dir (side \<noteq> BUY))) fs"
    "new_responses b b' = accepted (bk_symbol_id b) cid coid (next_market_order_id b) side price qty #
       fill_responses (bk_symbol_id b) (bk_band b)
         \<lparr>tk_client_id = cid, tk_client_order_id = coid, tk_market_order_id = next_market_order_id b,
          tk_side = side, tk_limit_tick = ToTick (bk_band b) price, tk_quantity = qty\<rparr> qty fs"
    "IsValid (bk_band b)" "abook_ok (book_abs b)" "book_inv b'"
proof -
  define buy where "buy = (side = BUY)"
  define limit where "limit = ToTick (bk_band b) price"
  let ?opp = "ab_side (book_abs b) (\<not> buy)"
  obtain fs left a' where m: "fill_levels (crossing_ticks buy limit ?opp) qty ?opp = (fs, left, a')"
    by (metis prod_cases3)
  obtain Q where rel: "book_rel b Q" and aok: "abook_ok (book_abs b)" using inv by (auto simp: book_inv_def)
  have nxt: "ab_next (book_abs b) = next_market_order_id b" by (simp add: book_abs_eq [OF rel] abs_next)
  define x where "x = spec_add (bk_symbol_id b) (bk_band b) cid coid side price qty (book_abs b)"
  from valid_request_runs [OF inv ok] run have im: "implements b x b'" and aok': "abook_ok (out_book x)"
    by (auto simp: apply_request_def spec_request_def x_def)
  note abs' = implements_abs(1) [OF im]
  have inv': "book_inv b'" using implements_abs [OF im] aok' by (auto simp: book_inv_def)
  have msgs: "new_updates b b' = out_updates x" "new_responses b b' = out_responses x"
    using im by (auto simp: implements_def new_updates_def new_responses_def)
  show ?thesis
  proof (rule that [OF m [unfolded buy_def limit_def] _ _ _ _ book_relD(3) [OF rel] aok inv'])
    show "ab_side (book_abs b') (side \<noteq> BUY) = a'"
      using m by (auto simp: abs' x_def spec_add_def Let_def buy_def limit_def upd_side_def)
    show "ab_side (book_abs b') (side = BUY) =
      (if left = 0 then ab_side (book_abs b) (side = BUY)
       else push_order (nat (ToTick (bk_band b) price))
         \<lparr>r_client = cid, r_coid = coid, r_moid = next_market_order_id b, r_qty = left,
          r_prio = al_next (ab_side (book_abs b) (side = BUY) (nat (ToTick (bk_band b) price)))\<rparr>
         (ab_side (book_abs b) (side = BUY)))"
      using m nxt by (simp add: abs' x_def spec_add_def Let_def buy_def limit_def upd_side_def)
    show "trades (new_updates b b') = map (trade_update (bk_symbol_id b) (bk_band b) (dir (side \<noteq> BUY))) fs"
      using m by (simp add: msgs x_def spec_add_def Let_def buy_def limit_def) (simp add: trades_def)
    show "new_responses b b' = accepted (bk_symbol_id b) cid coid (next_market_order_id b) side price qty #
       fill_responses (bk_symbol_id b) (bk_band b)
         \<lparr>tk_client_id = cid, tk_client_order_id = coid, tk_market_order_id = next_market_order_id b,
          tk_side = side, tk_limit_tick = ToTick (bk_band b) price, tk_quantity = qty\<rparr> qty fs"
      using m nxt by (simp add: msgs x_def spec_add_def Let_def buy_def limit_def)
  qed
qed

lemma ToPrice_mono:
  assumes "IsValid band" and "0 \<le> j" and "j < int kTickCount" and "0 \<le> k" and "k < int kTickCount"
  shows "ToPrice band j \<le> ToPrice band k \<longleftrightarrow> j \<le> k" "ToPrice band j < ToPrice band k \<longleftrightarrow> j < k"
  using assms IsValid_bound(3) [OF assms(1,2)] by (simp_all add: ToPrice_valid)

lemma crossing_sub: "set (crossing_ticks buy limit a) \<subseteq> {..<kTickCount}"
  by (auto simp: crossing_set)

lemma side_total_push:
  assumes "t < kTickCount"
  shows "side_total (push_order t r a) = side_total a + unat (r_qty r)"
proof -
  have "side_total b = qsum (al_queue (b t)) + (\<Sum>u \<in> {..<kTickCount} - {t}. qsum (al_queue (b u)))" for b :: aside
    unfolding side_total_def by (rule sum.remove) (use assms in auto)
  then show ?thesis by (simp add: push_order_def)
qed

lemma example_sell_run: "Add 2 1 SELL 99 4 example_book = Inr (projr (Add 2 1 SELL 99 4 example_book))"
  using request_keeps_inv [OF example_book_inv example_book_sell] by (simp add: apply_request_def)

text \<open>C23: An incoming order neither creates nor loses quantity: its size splits into what it
  trades and what it adds to its own side, and the other side shrinks by what it trades.\<close>

theorem Add_conserves_quantity:
  assumes "book_inv b" and "valid_request (Add_Request cid coid side price qty) b"
    and "Add cid coid side price qty b = Inr b'"
  shows "book_total (side \<noteq> BUY) b = book_total (side \<noteq> BUY) b' + traded (new_updates b b') \<and>
    book_total (side = BUY) b' + traded (new_updates b b') = book_total (side = BUY) b + unat qty"
proof -
  obtain fs left a' where
    f: "fill_levels (crossing_ticks (side = BUY) (ToTick (bk_band b) price) (ab_side (book_abs b) (side \<noteq> BUY)))
       qty (ab_side (book_abs b) (side \<noteq> BUY)) = (fs, left, a')"
    "ab_side (book_abs b') (side \<noteq> BUY) = a'"
    "ab_side (book_abs b') (side = BUY) =
      (if left = 0 then ab_side (book_abs b) (side = BUY)
       else push_order (nat (ToTick (bk_band b) price))
         \<lparr>r_client = cid, r_coid = coid, r_moid = next_market_order_id b, r_qty = left,
          r_prio = al_next (ab_side (book_abs b) (side = BUY) (nat (ToTick (bk_band b) price)))\<rparr>
         (ab_side (book_abs b) (side = BUY)))"
    "trades (new_updates b b') = map (trade_update (bk_symbol_id b) (bk_band b) (dir (side \<noteq> BUY))) fs"
    by (rule Add_facts [OF assms]) (rule that; assumption)
  have t: "nat (ToTick (bk_band b) price) < kTickCount" using assms(2) by (auto simp: valid_request_def)
  have "traded (new_updates b b') = fsum fs"
    by (simp add: traded_def f(4) fsum_def trade_update_def order_update_def comp_def)
  moreover note fill_levels_sums [OF f(1) crossing_distinct crossing_sub]
  moreover have "book_total (side = BUY) b' = book_total (side = BUY) b + unat left"
    using side_total_push [OF t] f(3) by (simp add: book_total_def)
  ultimately show ?thesis using f(2) by (simp add: book_total_def)
qed

theorem Add_conserves_quantity_witness:
  "book_total False (projr (Add 2 1 SELL 99 4 example_book)) +
     traded (new_updates example_book (projr (Add 2 1 SELL 99 4 example_book))) = book_total False example_book + 4"
  using Add_conserves_quantity [OF example_book_inv example_book_sell example_sell_run] by simp

text \<open>No fill is worse than the limit: every trade and every fill reported for an incoming
  order is at a price at or better than its limit price.\<close>

theorem Add_respects_limit:
  assumes "book_inv b" and "valid_request (Add_Request cid coid side price qty) b"
    and "Add cid coid side price qty b = Inr b'"
  shows "(\<forall>u \<in> set (trades (new_updates b b')). if side = BUY then mu_price u \<le> price else price \<le> mu_price u) \<and>
    (\<forall>r \<in> set (new_responses b b'). if side = BUY then resp_price r \<le> price else price \<le> resp_price r)"
proof -
  obtain fs left a' k where
    f: "fill_levels (crossing_ticks (side = BUY) (ToTick (bk_band b) price) (ab_side (book_abs b) (side \<noteq> BUY)))
       qty (ab_side (book_abs b) (side \<noteq> BUY)) = (fs, left, a')"
    "trades (new_updates b b') = map (trade_update (bk_symbol_id b) (bk_band b) (dir (side \<noteq> BUY))) fs"
    "new_responses b b' = accepted (bk_symbol_id b) cid coid (next_market_order_id b) side price qty #
       fill_responses (bk_symbol_id b) (bk_band b) k qty fs"
    and v: "IsValid (bk_band b)" and aok: "abook_ok (book_abs b)"
    by (rule Add_facts [OF assms]) (rule that; assumption)
  define limit where "limit = ToTick (bk_band b) price"
  have lim: "0 \<le> limit" "limit < int kTickCount" "ToPrice (bk_band b) limit = price"
    using assms(2) by (auto simp: valid_request_def limit_def)
  have pr: "if side = BUY then ToPrice (bk_band b) (int (f_tick x)) \<le> price else price \<le> ToPrice (bk_band b) (int (f_tick x))"
    if x: "x \<in> set fs" for x
  proof -
    have "f_tick x \<in> set (crossing_ticks (side = BUY) limit (ab_side (book_abs b) (side \<noteq> BUY)))"
      using fill_levels_fills [OF f(1) crossing_sorted _ abook_ok_next_pos [OF aok]] abook_ok_level [OF aok] x
      by (auto simp: limit_def)
    then have t: "f_tick x < kTickCount" "tick_crosses (side = BUY) limit (f_tick x)" by (auto simp: crossing_set)
    have "ToPrice (bk_band b) (int (f_tick x)) \<le> ToPrice (bk_band b) limit \<longleftrightarrow> int (f_tick x) \<le> limit"
      "ToPrice (bk_band b) limit \<le> ToPrice (bk_band b) (int (f_tick x)) \<longleftrightarrow> limit \<le> int (f_tick x)"
      using lim(1,2) t by (simp_all only: ToPrice_mono(1) [OF v] of_nat_0_le_iff of_nat_less_iff)
    then show ?thesis using t(2) lim(3) by (auto simp: tick_crosses_def)
  qed
  have "if side = BUY then resp_price r \<le> price else price \<le> resp_price r" if r: "r \<in> set (new_responses b b')" for r
  proof (cases "r = accepted (bk_symbol_id b) cid coid (next_market_order_id b) side price qty")
    case False
    then have "r \<in> set (fill_responses (bk_symbol_id b) (bk_band b) k qty fs)" using r f(3) by simp
    then show ?thesis using fill_responses_prices pr by metis
  qed (simp add: accepted_def)
  moreover have "\<forall>u \<in> set (trades (new_updates b b')). if side = BUY then mu_price u \<le> price else price \<le> mu_price u"
    using pr by (auto simp: f(2) trade_update_def order_update_def)
  ultimately show ?thesis by blast
qed

theorem Add_respects_limit_witness:
  "filter (\<lambda>u. mu_price u < 99) (trades (new_updates example_book (projr (Add 2 1 SELL 99 4 example_book)))) = []"
  using Add_respects_limit [OF example_book_inv example_book_sell example_sell_run]
  by (auto simp: filter_empty_conv not_less)

text \<open>C20: Matching follows price-time priority: the trades of an incoming order come in the
  order of (price, arrival), best price and oldest order first, and no order that is left on the
  other side has a better price, or the same price and an earlier arrival, than one that traded.\<close>

theorem Add_price_time_priority:
  assumes "book_inv b" and "valid_request (Add_Request cid coid side price qty) b"
    and "Add cid coid side price qty b = Inr b'"
  shows "sorted_wrt (\<lambda>u v. mu_price u = mu_price v \<and> mu_order_id u < mu_order_id v \<or>
        (if side = BUY then mu_price u < mu_price v else mu_price v < mu_price u)) (trades (new_updates b b')) \<and>
    (\<forall>u \<in> set (trades (new_updates b b')). \<forall>t < kTickCount. \<forall>r \<in> set (al_queue (ab_side (book_abs b') (side \<noteq> BUY) t)).
        mu_price u = ToPrice (bk_band b) (int t) \<and> mu_order_id u \<le> r_moid r \<or>
        (if side = BUY then mu_price u < ToPrice (bk_band b) (int t) else ToPrice (bk_band b) (int t) < mu_price u))"
proof -
  obtain fs left a' where
    f: "fill_levels (crossing_ticks (side = BUY) (ToTick (bk_band b) price) (ab_side (book_abs b) (side \<noteq> BUY)))
       qty (ab_side (book_abs b) (side \<noteq> BUY)) = (fs, left, a')"
    "ab_side (book_abs b') (side \<noteq> BUY) = a'"
    "trades (new_updates b b') = map (trade_update (bk_symbol_id b) (bk_band b) (dir (side \<noteq> BUY))) fs"
    and v: "IsValid (bk_band b)" and aok: "abook_ok (book_abs b)"
    by (rule Add_facts [OF assms]) (rule that; assumption)
  let ?ts = "crossing_ticks (side = BUY) (ToTick (bk_band b) price) (ab_side (book_abs b) (side \<noteq> BUY))"
  have F: "(\<forall>f \<in> set fs. f_tick f \<in> set ?ts) \<and> sorted_wrt (sooner (side = BUY)) fs \<and>
     (\<forall>f \<in> set fs. \<forall>t \<in> set ?ts. \<forall>r \<in> set (al_queue (a' t)).
        better (side = BUY) (f_tick f) t \<or> f_tick f = t \<and> fill_moid f \<le> r_moid r)"
    using fill_levels_fills [OF f(1) crossing_sorted _ abook_ok_next_pos [OF aok]] abook_ok_level [OF aok] by auto
  have tick: "f_tick x < kTickCount" "tick_crosses (side = BUY) (ToTick (bk_band b) price) (f_tick x)"
    if "x \<in> set fs" for x
    using F that by (auto simp: crossing_set)
  have cmp: "ToPrice (bk_band b) (int t) < ToPrice (bk_band b) (int u) \<longleftrightarrow> t < u"
    if "t < kTickCount" "u < kTickCount" for t u
    using that by (simp add: ToPrice_mono(2) [OF v])
  have "sorted_wrt (\<lambda>u v. mu_price u = mu_price v \<and> mu_order_id u < mu_order_id v \<or>
        (if side = BUY then mu_price u < mu_price v else mu_price v < mu_price u)) (trades (new_updates b b'))"
    unfolding f(3) sorted_wrt_map
    by (rule sorted_wrt_mono_rel [of _ "sooner (side = BUY)"])
      (use F tick cmp in \<open>auto simp: trade_update_def order_update_def sooner_def better_def\<close>)
  moreover have left_over: "better (side = BUY) (f_tick x) t \<or> f_tick x = t \<and> fill_moid x \<le> r_moid r"
    if x: "x \<in> set fs" and t: "t < kTickCount" and r: "r \<in> set (al_queue (a' t))" for x t r
  proof (cases "t \<in> set ?ts")
    case False
    then have "al_queue (ab_side (book_abs b) (side \<noteq> BUY) t) \<noteq> []"
      using r fill_levels_outside [OF f(1) False] by auto
    then have "\<not> tick_crosses (side = BUY) (ToTick (bk_band b) price) t" using False t by (auto simp: crossing_set)
    then show ?thesis using tick(2) [OF x] by (auto simp: tick_crosses_def better_def split: if_splits)
  qed (use F x r in blast)
  moreover have "mu_price u = ToPrice (bk_band b) (int t) \<and> mu_order_id u \<le> r_moid r \<or>
        (if side = BUY then mu_price u < ToPrice (bk_band b) (int t) else ToPrice (bk_band b) (int t) < mu_price u)"
    if u: "u \<in> set (trades (new_updates b b'))" and t: "t < kTickCount" and r: "r \<in> set (al_queue (a' t))" for u t r
  proof -
    obtain x where x: "x \<in> set fs" "u = trade_update (bk_symbol_id b) (bk_band b) (dir (side \<noteq> BUY)) x"
      using u f(3) by auto
    have mu: "mu_price u = ToPrice (bk_band b) (int (f_tick x))" "mu_order_id u = fill_moid x"
      by (simp_all add: x(2) trade_update_def order_update_def)
    show ?thesis
    proof (cases "f_tick x = t")
      case True
      then have "fill_moid x \<le> r_moid r" using left_over [OF x(1) t r] by (simp add: better_def)
      with True show ?thesis by (simp add: mu)
    next
      case False
      then have "better (side = BUY) (f_tick x) t" using left_over [OF x(1) t r] by simp
      then show ?thesis
        unfolding mu cmp [OF tick(1) [OF x(1)] t] cmp [OF t tick(1) [OF x(1)]] better_def by (rule disjI2)
    qed
  qed
  ultimately show ?thesis unfolding f(2) by (intro conjI ballI allI impI)
qed

theorem Add_price_time_priority_witness:
  "sorted_wrt (\<lambda>u v. mu_price u = mu_price v \<and> mu_order_id u < mu_order_id v \<or> mu_price v < mu_price u)
     (trades (new_updates example_book (projr (Add 2 1 SELL 99 4 example_book))))"
  using Add_price_time_priority [OF example_book_inv example_book_sell example_sell_run] by simp

end
