(* ===== verification/Book_Reach.thy ===== *)
theory Book_Reach
  imports Book_Fills
begin

text \<open>
  Every state a book can reach from its constructor by valid requests, and what holds in it: the
  book is never crossed, the aggregate of each level is the exact sum of its orders, and a
  receiver that applies the published market updates holds exactly the resting orders.
\<close>

section \<open>The receiver of market updates\<close>

text \<open>
  What a receiver keeps per order id: side, price, quantity and priority, updated the way
  \<open>SnapshotSynthesizer::AddtoSnapshot\<close> and the client's \<open>MarketOrderBook::onMarketUpdate\<close> do.
\<close>

type_synonym live_view = "OrderId \<rightharpoonup> Side \<times> Price \<times> Quantity \<times> Priority"

definition view_update :: "live_view \<Rightarrow> MatchingEngineMarketUpdate \<Rightarrow> live_view" where
  "view_update m u = (case mu_type u of
     MU_ADD \<Rightarrow> m(mu_order_id u \<mapsto> (mu_side u, mu_price u, mu_quantity u, mu_priority u))
   | MU_MODIFY \<Rightarrow> m(mu_order_id u := map_option (\<lambda>(sd, p, q, pr). (sd, mu_price u, mu_quantity u, pr))
                                        (m (mu_order_id u)))
   | MU_CANCEL \<Rightarrow> m(mu_order_id u := None)
   | _ \<Rightarrow> m)"

definition replay :: "live_view \<Rightarrow> MatchingEngineMarketUpdate list \<Rightarrow> live_view" where
  "replay m us = foldl view_update m us"

definition order_view :: "PriceBand \<Rightarrow> bool \<Rightarrow> nat \<Rightarrow> resting \<Rightarrow> Side \<times> Price \<times> Quantity \<times> Priority" where
  "order_view band s t r = (dir s, ToPrice band (int t), r_qty r, r_prio r)"

definition tracks :: "PriceBand \<Rightarrow> live_view \<Rightarrow> abook \<Rightarrow> bool" where
  "tracks band m ab \<longleftrightarrow> (\<forall>oid v. m oid = Some v \<longleftrightarrow>
     (\<exists>s t. \<exists>r \<in> set (al_queue (ab_side ab s t)). r_moid r = oid \<and> v = order_view band s t r))"

definition uniq :: "abook \<Rightarrow> bool" where
  "uniq ab \<longleftrightarrow> (\<forall>s t. distinct (map r_moid (al_queue (ab_side ab s t)))) \<and> distinct_moids ab"

lemma replay_simps [simp]:
  "replay m [] = m" "replay m (u # us) = replay (view_update m u) us"
  "replay m (us @ vs) = replay (replay m us) vs"
  by (simp_all add: replay_def)

lemma tracksD: "tracks band m ab \<Longrightarrow>
    (\<exists>s t. \<exists>r \<in> set (al_queue (ab_side ab s t)). r_moid r = oid \<and> v = order_view band s t r) \<longleftrightarrow> m oid = Some v"
  unfolding tracks_def by blast

lemma sorted_before_distinct: "sorted_wrt before q \<Longrightarrow> distinct (map r_moid q)"
  by (induction q) (auto simp: before_def)

lemma abook_ok_uniq: "abook_ok ab \<Longrightarrow> uniq ab"
  using sorted_before_distinct by (auto simp: abook_ok_def uniq_def level_wf_def)

lemma uniq_place:
  assumes "uniq ab" and "r \<in> set (al_queue (ab_side ab s t))" and "r' \<in> set (al_queue (ab_side ab s' t'))"
    and "r_moid r = r_moid r'"
  shows "s = s' \<and> t = t' \<and> r = r'"
proof -
  have st: "(s, t) = (s', t')"
  proof (rule ccontr)
    assume "(s, t) \<noteq> (s', t')"
    then have "moids (ab_side ab s t) \<inter> moids (ab_side ab s' t') = {}"
      using assms(1) unfolding uniq_def distinct_moids_def by blast
    then show False using assms(2-4) by (auto simp: moids_def)
  qed
  moreover have "distinct (map r_moid (al_queue (ab_side ab s t)))" using assms(1) by (simp add: uniq_def)
  ultimately have "r = r'" using assms(2-4) by (auto simp: distinct_map inj_on_def)
  with st show ?thesis by simp
qed

lemma put_side_queue: "al_queue (ab_side (upd_side s (put_queue t q) ab) s' u) =
    (if s' = s \<and> u = t then q else al_queue (ab_side ab s' u))"
  by (simp add: upd_side_def)

lemma tracks_cong:
  assumes "\<And>s t. al_queue (ab_side ab' s t) = al_queue (ab_side ab s t)"
  shows "tracks band m ab' = tracks band m ab" "uniq ab' = uniq ab"
  unfolding tracks_def uniq_def distinct_moids_def moids_def by (simp_all add: assms)

lemma put_same:
  "al_queue (ab_side ab s t) = q \<Longrightarrow>
   al_queue (ab_side (upd_side s (put_queue t q) ab) s' u) = al_queue (ab_side ab s' u)"
  by (auto simp: put_side_queue)

lemma uniq_put:
  assumes "uniq ab" and "distinct (map r_moid q)" and "r_moid ` set q \<subseteq> moids (ab_side ab s t)"
  shows "uniq (upd_side s (put_queue t q) ab)"
  unfolding uniq_def
proof (intro conjI allI)
  show "distinct (map r_moid (al_queue (ab_side (upd_side s (put_queue t q) ab) s' u)))" for s' u
    using assms(1,2) by (simp add: put_side_queue uniq_def)
  show "distinct_moids (upd_side s (put_queue t q) ab)"
    by (rule distinct_moids_sub [of ab]) (use assms in \<open>auto simp: uniq_def moids_def put_side_queue\<close>)
qed

lemma tracks_remove:
  assumes u: "uniq ab" and tr: "tracks band m ab" and q: "al_queue (ab_side ab s t) = as @ r # bs"
  shows "tracks band (m(r_moid r := None)) (upd_side s (put_queue t (as @ bs)) ab)"
  unfolding tracks_def
proof (intro allI)
  fix oid v
  let ?ab' = "upd_side s (put_queue t (as @ bs)) ab"
  have d: "distinct (map r_moid (as @ r # bs))" using u q by (metis uniq_def)
  have eq: "(\<exists>s' u. \<exists>x \<in> set (al_queue (ab_side ?ab' s' u)). r_moid x = oid \<and> v = order_view band s' u x) \<longleftrightarrow>
    oid \<noteq> r_moid r \<and> (\<exists>s' u. \<exists>x \<in> set (al_queue (ab_side ab s' u)). r_moid x = oid \<and> v = order_view band s' u x)"
  proof (intro iffI conjI)
    assume "\<exists>s' u. \<exists>x \<in> set (al_queue (ab_side ?ab' s' u)). r_moid x = oid \<and> v = order_view band s' u x"
    then obtain s' u x where x: "x \<in> set (al_queue (ab_side ?ab' s' u))" "r_moid x = oid" "v = order_view band s' u x"
      by blast
    then have x0: "x \<in> set (al_queue (ab_side ab s' u))" using q by (auto simp: put_side_queue split: if_splits)
    show "oid \<noteq> r_moid r"
    proof
      assume "oid = r_moid r"
      moreover have "r \<in> set (al_queue (ab_side ab s t))" using q by simp
      ultimately have "s' = s" "u = t" "x = r" using uniq_place [OF u x0] x(2) by auto
      then have "r \<in> set (as @ bs)" using x(1) by (simp add: put_side_queue)
      with d show False by auto
    qed
    show "\<exists>s' u. \<exists>x \<in> set (al_queue (ab_side ab s' u)). r_moid x = oid \<and> v = order_view band s' u x"
      using x x0 by blast
  next
    assume "oid \<noteq> r_moid r \<and> (\<exists>s' u. \<exists>x \<in> set (al_queue (ab_side ab s' u)). r_moid x = oid \<and> v = order_view band s' u x)"
    then obtain s' u x where x: "oid \<noteq> r_moid r" "x \<in> set (al_queue (ab_side ab s' u))" "r_moid x = oid"
        "v = order_view band s' u x" by blast
    then have "x \<in> set (al_queue (ab_side ?ab' s' u))" using q by (auto simp: put_side_queue)
    with x show "\<exists>s' u. \<exists>x \<in> set (al_queue (ab_side ?ab' s' u)). r_moid x = oid \<and> v = order_view band s' u x"
      by blast
  qed
  show "(m(r_moid r := None)) oid = Some v \<longleftrightarrow>
    (\<exists>s' u. \<exists>x \<in> set (al_queue (ab_side ?ab' s' u)). r_moid x = oid \<and> v = order_view band s' u x)"
    unfolding eq tracksD [OF tr] by auto
qed

lemma tracks_insert:
  assumes tr: "tracks band m ab" and new: "\<forall>s t. r_moid r \<notin> moids (ab_side ab s t)"
    and q: "\<And>s' u. set (al_queue (ab_side ab' s' u)) =
      (if s' = s \<and> u = t then insert r (set (al_queue (ab_side ab s' u))) else set (al_queue (ab_side ab s' u)))"
  shows "tracks band (m(r_moid r \<mapsto> order_view band s t r)) ab'"
  unfolding tracks_def
proof (intro allI)
  fix oid v
  have mem: "x \<in> set (al_queue (ab_side ab' s' u)) \<longleftrightarrow>
      x \<in> set (al_queue (ab_side ab s' u)) \<or> s' = s \<and> u = t \<and> x = r" for x s' u
    using q by auto
  have old: "(\<exists>s' u. \<exists>x \<in> set (al_queue (ab_side ab s' u)). r_moid x = oid \<and> v = order_view band s' u x) \<longleftrightarrow> m oid = Some v"
    by (rule tracksD [OF tr])
  have none: "m (r_moid r) = None"
  proof (cases "m (r_moid r)")
    case (Some w)
    then obtain s' u x where "x \<in> set (al_queue (ab_side ab s' u))" "r_moid x = r_moid r"
      using tr unfolding tracks_def by metis
    then have "r_moid r \<in> moids (ab_side ab s' u)" unfolding moids_def by (metis imageI)
    with new show ?thesis by blast
  qed
  have "(\<exists>s' u. \<exists>x \<in> set (al_queue (ab_side ab' s' u)). r_moid x = oid \<and> v = order_view band s' u x) \<longleftrightarrow>
    (oid = r_moid r \<and> v = order_view band s t r) \<or>
    (\<exists>s' u. \<exists>x \<in> set (al_queue (ab_side ab s' u)). r_moid x = oid \<and> v = order_view band s' u x)"
    unfolding Bex_def mem by blast
  then show "(m(r_moid r \<mapsto> order_view band s t r)) oid = Some v \<longleftrightarrow>
    (\<exists>s' u. \<exists>x \<in> set (al_queue (ab_side ab' s' u)). r_moid x = oid \<and> v = order_view band s' u x)"
    unfolding old using none by auto
qed

lemma tracks_fill_queue:
  "fill_queue t q rs = (fs, left, rs') \<Longrightarrow> uniq ab \<Longrightarrow> tracks band m ab \<Longrightarrow>
   al_queue (ab_side ab s t) = rs \<Longrightarrow> \<forall>r \<in> set rs. 0 < r_qty r \<Longrightarrow>
   tracks band (replay m (fill_updates symbol band (dir s) fs)) (upd_side s (put_queue t rs') ab) \<and>
   uniq (upd_side s (put_queue t rs') ab)"
proof (induction t q rs arbitrary: fs m ab rule: fill_queue.induct)
  case (1 t q)
  then show ?case using tracks_cong [OF put_same [OF 1(4)]] by (simp add: fill_updates_def)
next
  case (2 t q r rs)
  define e where "e = min q (r_qty r)"
  define f where "f = \<lparr>f_tick = t, f_maker = r, f_qty = e\<rparr>"
  have same: "tracks band m (upd_side s (put_queue t (r # rs)) ab)" "uniq (upd_side s (put_queue t (r # rs)) ab)"
    using 2(3,4) tracks_cong [OF put_same [OF 2(5)]] by simp_all
  have rin: "r \<in> set (al_queue (ab_side ab s t))" using 2(5) by simp
  have mr: "m (r_moid r) = Some (order_view band s t r)"
    using tracksD [OF 2(4), of "r_moid r" "order_view band s t r"] rin by blast
  show ?case
  proof (cases "q = 0")
    case True
    then show ?thesis using 2(2) same by (auto simp: fill_updates_def)
  next
    case nz: False
    have d: "distinct (map r_moid (r # rs))" using 2(3,5) by (metis uniq_def)
    let ?ab1 = "upd_side s (put_queue t rs) ab"
    have tr1: "tracks band (m(r_moid r := None)) ?ab1" using tracks_remove [OF 2(3,4), of s t "[]" r rs] 2(5) by simp
    have un1: "uniq ?ab1" using uniq_put [OF 2(3), of rs s t] d 2(5) by (auto simp: moids_def)
    show ?thesis
    proof (cases "r_qty r - e = 0")
      case True
      obtain fs' where rec: "fill_queue t (q - e) rs = (fs', left, rs')" "fs = f # fs'"
        using 2(2) nz True by (auto simp: Let_def e_def [symmetric] f_def split: prod.splits if_splits)
      have "fill_updates symbol band (dir s) fs = fill_update symbol band (dir s) f @ fill_updates symbol band (dir s) fs'"
        by (simp add: rec(2) fill_updates_def)
      moreover have "replay m (fill_update symbol band (dir s) f) = m(r_moid r := None)"
        using True by (simp add: fill_update_def f_def order_update_def view_update_def)
      moreover have "upd_side s (put_queue t rs') ?ab1 = upd_side s (put_queue t rs') ab"
        using rec(1) by (simp add: upd_side_comp) (metis (no_types, lifting) put_queue_seq fill_queue.simps(1) prod.inject)
      moreover have "tracks band (replay (m(r_moid r := None)) (fill_updates symbol band (dir s) fs'))
          (upd_side s (put_queue t rs') ?ab1) \<and> uniq (upd_side s (put_queue t rs') ?ab1)"
        by (rule 2(1) [OF nz e_def f_def True rec(1) un1 tr1]) (use 2(6) in \<open>simp_all add: put_side_queue\<close>)
      ultimately show ?thesis by simp
    next
      case False
      define r' where "r' = r\<lparr>r_qty := r_qty r - e\<rparr>"
      let ?ab2 = "upd_side s (put_queue t (r' # rs)) ab"
      have out: "fs = [f]" "rs' = r' # rs"
        using 2(2) nz False by (auto simp: Let_def e_def [symmetric] f_def r'_def split: prod.splits if_splits)
      have "replay m (fill_updates symbol band (dir s) fs) = m(r_moid r := Some (order_view band s t r'))"
        using False mr by (simp add: out fill_updates_def fill_update_def f_def order_update_def view_update_def
            order_view_def r'_def)
      moreover have "uniq ?ab2" using uniq_put [OF 2(3), of "r' # rs" s t] d 2(5) by (auto simp: moids_def r'_def)
      moreover have "tracks band ((m(r_moid r := None))(r_moid r' \<mapsto> order_view band s t r')) ?ab2"
      proof (rule tracks_insert [OF tr1])
        have "r_moid r \<notin> moids (ab_side ?ab1 s' u)" for s' u
        proof
          assume "r_moid r \<in> moids (ab_side ?ab1 s' u)"
          then obtain x where x: "x \<in> set (al_queue (ab_side ?ab1 s' u))" "r_moid x = r_moid r" by (auto simp: moids_def)
          then have "x \<in> set (al_queue (ab_side ab s' u))" using 2(5) by (auto simp: put_side_queue split: if_splits)
          then have "s' = s \<and> u = t \<and> x = r" using uniq_place [OF 2(3) _ rin] x(2) by blast
          with x(1) d show False by (auto simp: put_side_queue)
        qed
        then show "\<forall>s' u. r_moid r' \<notin> moids (ab_side ?ab1 s' u)" by (simp add: r'_def)
      qed (simp add: put_side_queue)
      moreover from this have "tracks band (m(r_moid r := Some (order_view band s t r'))) ?ab2" by (simp add: r'_def)
      ultimately show ?thesis by (simp only: out(2) simp_thms)
    qed
  qed
qed

lemma tracks_fill_levels:
  "fill_levels ts q (ab_side ab s) = (fs, left, a') \<Longrightarrow> uniq ab \<Longrightarrow> tracks band m ab \<Longrightarrow>
   \<forall>t. level_wf n (ab_side ab s t) \<Longrightarrow> 0 < unat n \<Longrightarrow>
   tracks band (replay m (fill_updates symbol band (dir s) fs)) (upd_side s (\<lambda>_. a') ab) \<and>
   uniq (upd_side s (\<lambda>_. a') ab)"
proof (induction ts arbitrary: q ab m fs)
  case Nil
  then have "upd_side s (\<lambda>_. a') ab = ab" by (intro upd_side_id) simp
  with Nil show ?case by (simp add: fill_updates_def)
next
  case (Cons t ts)
  show ?case
  proof (cases "q = 0")
    case True
    then have "upd_side s (\<lambda>_. a') ab = ab" "fs = []" using Cons.prems(1) by (auto intro!: upd_side_id)
    with Cons show ?thesis by (simp add: fill_updates_def)
  next
    case False
    let ?a = "ab_side ab s"
    obtain fs1 q1 rs where lv: "fill_queue t q (al_queue (?a t)) = (fs1, q1, rs)" by (metis prod_cases3)
    obtain fs2 where rst: "fill_levels ts q1 (put_queue t rs ?a) = (fs2, left, a')" "fs = fs1 @ fs2"
      using Cons.prems(1) lv False by (auto split: prod.splits)
    define ab1 where "ab1 = upd_side s (put_queue t rs) ab"
    have pos: "\<forall>r \<in> set (al_queue (?a t)). 0 < r_qty r" using Cons.prems(4) by (simp add: level_wf_def)
    from tracks_fill_queue [OF lv Cons.prems(2,3) refl pos]
    have t1: "tracks band (replay m (fill_updates symbol band (dir s) fs1)) ab1" "uniq ab1"
      by (simp_all add: ab1_def)
    have a1: "ab_side ab1 s = put_queue t rs ?a" by (simp add: ab1_def upd_side_def)
    have wf1: "\<forall>u. level_wf n (ab_side ab1 s u)"
    proof
      fix u show "level_wf n (ab_side ab1 s u)"
        unfolding a1 using level_wf_put [of n ?a t rs] fill_queue_shrunk [OF lv] Cons.prems(4,5)
        by (cases "u = t") auto
    qed
    have "upd_side s (\<lambda>_. a') ab1 = upd_side s (\<lambda>_. a') ab" by (simp add: ab1_def upd_side_comp)
    with Cons.IH [OF rst(1) [folded a1] t1(2,1) wf1 Cons.prems(5)] show ?thesis
      by (simp add: rst(2) fill_updates_def)
  qed
qed

text \<open>One request, seen by the receiver.\<close>

lemma tracks_request:
  assumes inv: "book_inv b" and ok: "valid_request req b" and run: "apply_request req b = Inr b'"
    and tr: "tracks (bk_band b) m (book_abs b)"
  shows "tracks (bk_band b) (replay m (new_updates b b')) (book_abs b')"
proof -
  define ab where "ab = book_abs b"
  define band where "band = bk_band b"
  have aok: "abook_ok ab" and un: "uniq ab" using inv abook_ok_uniq by (auto simp: book_inv_def ab_def)
  obtain Q where rel: "book_rel b Q" using inv by (auto simp: book_inv_def)
  from valid_request_runs [OF inv ok] run have im:
    "implements b (spec_request (bk_symbol_id b) band req ab) b'" by (auto simp: ab_def band_def)
  note abs' = implements_abs(1) [OF im]
  have upd: "new_updates b b' = out_updates (spec_request (bk_symbol_id b) band req ab)"
    using im by (simp add: implements_def new_updates_def)
  have tr0: "tracks band m ab" using tr by (simp add: ab_def band_def)
  have "tracks band (replay m (out_updates (spec_request (bk_symbol_id b) band req ab)))
      (out_book (spec_request (bk_symbol_id b) band req ab))"
  proof (cases req)
    case (Add_Request cid coid side price qty)
    define buy where "buy = (side = BUY)"
    define limit where "limit = ToTick band price"
    let ?opp = "ab_side ab (\<not> buy)"
    obtain fs left a' where m: "fill_levels (crossing_ticks buy limit ?opp) qty ?opp = (fs, left, a')"
      by (metis prod_cases3)
    define ab1 where "ab1 = upd_side (\<not> buy) (\<lambda>_. a') ab"
    define m1 where "m1 = replay m (fill_updates (bk_symbol_id b) band (dir (\<not> buy)) fs)"
    have lim: "0 \<le> limit" "ToPrice band limit = price" "side = dir buy"
      using ok Add_Request by (auto simp: valid_request_def limit_def band_def buy_def dir_def)
    have t1: "tracks band m1 ab1"
      using tracks_fill_levels [OF m un tr0 _ abook_ok_next_pos [OF aok]] abook_ok_level [OF aok]
      by (simp add: m1_def ab1_def)
    define r where "r = \<lparr>r_client = cid, r_coid = coid, r_moid = ab_next ab, r_qty = left,
      r_prio = al_next (ab_side ab1 buy (nat limit))\<rparr>"
    have x: "out_book (spec_request (bk_symbol_id b) band req ab) =
        (if left = 0 then ab1\<lparr>ab_next := ab_next ab + 1\<rparr>
         else upd_side buy (push_order (nat limit) r) (ab1\<lparr>ab_next := ab_next ab + 1\<rparr>))"
      "out_updates (spec_request (bk_symbol_id b) band req ab) =
         fill_updates (bk_symbol_id b) band (dir (\<not> buy)) fs @
         (if left = 0 then [] else [\<lparr>mu_type = MU_ADD, mu_symbol_id = bk_symbol_id b, mu_order_id = ab_next ab,
            mu_side = side, mu_price = price, mu_quantity = left, mu_priority = r_prio r\<rparr>])"
      using m by (simp_all add: Add_Request spec_request_def spec_add_def Let_def buy_def [symmetric]
          limit_def [symmetric] ab1_def r_def upd_side_next)
    show ?thesis
    proof (cases "left = 0")
      case True
      have "tracks band m1 (ab1\<lparr>ab_next := ab_next ab + 1\<rparr>) = tracks band m1 ab1" by (rule tracks_cong) simp
      then show ?thesis using True t1 by (simp add: x m1_def)
    next
      case False
      have fresh: "r_moid r \<notin> moids (ab_side ab1 s t)" for s t
        using abook_ok_level [OF abook_ok_fill [OF aok m], of s t]
        by (auto simp: moids_def level_wf_def r_def ab1_def upd_side_def)
      have "tracks band (m1(r_moid r \<mapsto> order_view band buy (nat limit) r))
          (upd_side buy (push_order (nat limit) r) (ab1\<lparr>ab_next := ab_next ab + 1\<rparr>))"
        by (rule tracks_insert [OF t1]) (use fresh in \<open>auto simp: upd_side_def push_order_def\<close>)
      then show ?thesis using False lim
        by (simp add: x m1_def view_update_def order_view_def) (simp add: r_def)
    qed
  next
    case (Cancel_Request cid coid)
    show ?thesis
    proof (cases "spec_find cid coid ab")
      case None
      then show ?thesis using tr0 by (simp add: Cancel_Request spec_request_def spec_cancel_def)
    next
      case (Some place)
      obtain s t r where place: "place = (s, t, r)" by (cases place)
      have "r \<in> set (al_queue (ab_side ab s t))" using spec_find_SomeD Some place by blast
      then obtain as bs where q: "al_queue (ab_side ab s t) = as @ r # bs" "r \<notin> set as"
        by (metis split_list_first)
      then have "remove1 r (al_queue (ab_side ab s t)) = as @ bs" by (simp add: remove1_append)
      then have "upd_side s (\<lambda>a. put_queue t (remove1 r (al_queue (a t))) a) ab = upd_side s (put_queue t (as @ bs)) ab"
        by (simp add: upd_side_def)
      with tracks_remove [OF un tr0 q(1)] show ?thesis
        by (simp add: Cancel_Request spec_request_def spec_cancel_def Some place order_update_def view_update_def)
    qed
  qed
  then show ?thesis by (simp add: upd abs' band_def)
qed

section \<open>Reachable books\<close>

inductive book_reach :: "bool \<Rightarrow> SymbolId \<Rightarrow> PriceBand \<Rightarrow> BookCore \<Rightarrow> bool" for debug symbol band where
  book_start: "new_BookCore debug symbol band = Inr b \<Longrightarrow> book_reach debug symbol band b"
| book_step: "book_reach debug symbol band b \<Longrightarrow> valid_request req b \<Longrightarrow> apply_request req b = Inr b' \<Longrightarrow>
    book_reach debug symbol band b'"

lemma book_reach_facts:
  "book_reach debug symbol band b \<Longrightarrow> book_inv b \<and> bk_band b = band \<and>
     tracks band (replay Map.empty (market_updates b)) (book_abs b)"
proof (induction rule: book_reach.induct)
  case (book_start b)
  then have "IsValid band" by (auto simp: new_BookCore_def bindE_eq_Inr ASSERT_eq_Inr)
  with new_BookCore_ok [of band debug symbol] book_start show ?case
    by (auto simp: tracks_def empty_abook_def empty_alevel_def)
next
  case (book_step b req b')
  then have im: "implements b (spec_request (bk_symbol_id b) (bk_band b) req (book_abs b)) b'"
    using valid_request_runs [of b req] by auto
  have "market_updates b' = market_updates b @ new_updates b b'"
    using im by (simp add: implements_def new_updates_def)
  moreover have "tracks band (replay (replay Map.empty (market_updates b)) (new_updates b b')) (book_abs b')"
    using tracks_request [of b req b'] book_step by simp
  moreover have "book_inv b' \<and> bk_band b' = band"
    using request_keeps_inv [of b req] book_step im by (simp add: implements_def)
  ultimately show ?case by simp
qed

lemma example_book_reach: "book_reach True 0 kDefaultPriceBand example_book"
  using example_book_start book_step [OF book_start] by blast

text \<open>The best tick of a side that holds orders.\<close>

lemma best_tick_occupied:
  assumes rel: "book_rel b Q" and ne: "\<not> pl_IsEmpty (sideof s b)"
  shows "\<exists>t < kTickCount. best_tick (sideof s b) = int t \<and> Q s t \<noteq> []"
proof -
  have bt: "best_tick (sideof s b) = best_of (dir s) (occupied (Q s))" and sub: "occupied (Q s) \<subseteq> {..<kTickCount}"
    using best_tick_rel [OF rel, of s] by auto
  then have S: "occupied (Q s) \<noteq> {}" using ne by (auto simp: pl_IsEmpty_def best_of_def)
  have fin: "finite (occupied (Q s))" using sub finite_subset by blast
  have "Max (occupied (Q s)) \<in> occupied (Q s)" "Min (occupied (Q s)) \<in> occupied (Q s)" using fin S by simp_all
  then show ?thesis using S sub by (auto simp: bt best_of_def occupied_def subset_iff)
qed

text \<open>C22: In every reachable book that has orders on both sides, the best bid is strictly below
  the best ask, and both cached best ticks name a level that holds an order.\<close>

theorem reachable_book_uncrossed:
  assumes "book_reach debug symbol band b"
    and "\<not> pl_IsEmpty (bids b)" and "\<not> pl_IsEmpty (asks b)"
  shows "best_tick (bids b) < best_tick (asks b) \<and>
    \<not> level_IsEmpty (LevelAt (bids b) (best_tick (bids b))) \<and>
    \<not> level_IsEmpty (LevelAt (asks b) (best_tick (asks b)))"
proof -
  have inv: "book_inv b" using book_reach_facts [OF assms(1)] by simp
  then obtain Q where rel: "book_rel b Q" and aok: "abook_ok (abs_with b Q)"
    using book_abs_eq by (auto simp: book_inv_def)
  obtain t where t: "best_tick (bids b) = int t" "Q True t \<noteq> []"
    using best_tick_occupied [OF rel, of True] assms(2) by (auto simp: sideof_def)
  obtain u where u: "best_tick (asks b) = int u" "Q False u \<noteq> []"
    using best_tick_occupied [OF rel, of False] assms(3) by (auto simp: sideof_def)
  have "t < u" using aok t(2) u(2) unfolding abook_ok_def uncrossed_def abs_queue by simp
  moreover have "first_order (levels (bids b) t) \<noteq> None" "first_order (levels (asks b) u) \<noteq> None"
    using first_order_rel [OF rel, of True t] first_order_rel [OF rel, of False u] t u
    by (auto simp: sideof_def head_or_nonempty)
  ultimately show ?thesis using t u by (simp add: LevelAt_def level_IsEmpty_def)
qed

lemma unat_sum_words:
  "(\<Sum>r\<leftarrow>q. unat (r_qty r)) < 2 ^ 64 \<Longrightarrow>
   unat (\<Sum>i\<leftarrow>q. ucast (r_qty i) :: u64) = (\<Sum>r\<leftarrow>q. unat (r_qty r))"
proof (induction q)
  case (Cons r q)
  then show ?case using unat_add_small [of "ucast (r_qty r) :: u64" "\<Sum>i\<leftarrow>q. ucast (r_qty i)"]
    by (simp add: unat_ucast_u32)
qed simp

text \<open>In every reachable book the 64-bit aggregate of each level is the exact sum of the
  quantities of its orders: it never wraps around, whatever was added, filled or cancelled.\<close>

theorem level_totals_exact:
  assumes "book_reach debug symbol band b"
  shows "unat (total_quantity (levels (sideof s b) t)) = qsum (al_queue (ab_side (book_abs b) s t))"
proof -
  have inv: "book_inv b" using book_reach_facts [OF assms] by simp
  then obtain Q where rel: "book_rel b Q" by (auto simp: book_inv_def)
  let ?h = "lookup (order_pool b)"
  have sr: "side_rel ?h (sideof s b) (Q s)" and pi: "pool_inv (order_pool b)" by (rule book_relD [OF rel])+
  have ok: "level_ok ?h (pl_side (sideof s b), t) (levels (sideof s b) t) (Q s t)" using sr by (simp add: side_rel_def)
  have "length (Q s t) = card (set (Q s t))" using ok by (simp add: level_ok_def distinct_card)
  also have "\<dots> \<le> card (dom ?h)"
    using side_rel_live [OF sr] by (intro card_mono pool_live_card(1) [OF pi]) blast
  also have "\<dots> \<le> kMaxOrderIds" using mem_pool.live_bound [OF pi] book_relD(2) [OF rel] by simp
  finally have len: "length (Q s t) \<le> 1048576" by (simp add: capacity_defs)
  have one: "unat q \<le> 4294967295" for q :: Quantity using unsigned_less [of q, where 'a = nat] by simp
  have "(\<Sum>i\<leftarrow>Q s t. unat (r_qty (rest ?h i))) \<le> length (Q s t) * 4294967295"
    by (rule sum_list_bound) (use one in blast)
  also have "\<dots> \<le> 1048576 * 4294967295" using len by (intro mult_right_mono) auto
  finally have small: "(\<Sum>r\<leftarrow>map (rest ?h) (Q s t). unat (r_qty r)) < 2 ^ 64" by (simp add: comp_def)
  have "total_quantity (levels (sideof s b) t) = (\<Sum>r\<leftarrow>map (rest ?h) (Q s t). ucast (r_qty r))"
    using ok by (simp add: level_ok_def comp_def)
  then show ?thesis
    using unat_sum_words [OF small] by (simp add: book_abs_eq [OF rel] abs_queue qsum_def)
qed

text \<open>C21: A receiver that starts empty and applies every market update a reachable book has
  published holds exactly the resting orders: each order id maps to the side, price, remaining
  quantity and priority of the order that rests under it, and to nothing otherwise.\<close>

theorem updates_rebuild_book:
  assumes "book_reach debug symbol band b"
  shows "replay Map.empty (market_updates b) oid = Some v \<longleftrightarrow>
    (\<exists>s t. \<exists>r \<in> set (al_queue (ab_side (book_abs b) s t)). r_moid r = oid \<and> v = order_view band s t r)"
  using book_reach_facts [OF assms] tracksD by blast

text \<open>A cancel of a resting order removes exactly that order: every other queue, and the
  order of the others in its queue, stays; the client is told its side, price and open quantity,
  and one cancel update with its market order id is published.\<close>

theorem Cancel_removes_exactly:
  assumes inv: "book_inv b" and r: "r \<in> set (al_queue (ab_side (book_abs b) s t))" "has_key cid coid r"
  shows "\<exists>b'. Cancel cid coid b = Inr b' \<and> book_inv b' \<and>
    (\<forall>s' u. al_queue (ab_side (book_abs b') s' u) =
       (if s' = s \<and> u = t then remove1 r (al_queue (ab_side (book_abs b) s t))
        else al_queue (ab_side (book_abs b) s' u))) \<and>
    new_responses b b' = [\<lparr>resp_type = RESP_CANCELED, resp_client_id = cid,
       resp_symbol_id = bk_symbol_id b, resp_client_order_id = coid, resp_market_order_id = r_moid r,
       resp_side = dir s, resp_price = ToPrice (bk_band b) (int t), resp_executed_quantity = 0,
       resp_remaining_quantity = r_qty r\<rparr>] \<and>
    new_updates b b' = [order_update MU_CANCEL (bk_symbol_id b) (bk_band b) (dir s) t (r_moid r) 0 0]"
proof -
  obtain Q where rel: "book_rel b Q" and aok: "abook_ok (book_abs b)" using inv by (auto simp: book_inv_def)
  note abs = book_abs_eq [OF rel]
  obtain i where i: "i \<in> set (Q s t)" "r = rest (lookup (order_pool b)) i"
    using r(1) by (auto simp: abs abs_queue)
  then have ix: "idx b (unat cid) (unat coid) = Some i" using rest_key [OF rel i(1)] r(2) by simp
  obtain n where n: "lookup (order_pool b) i = Some n" "unat (on_client_id n) = unat cid"
      "unat (on_client_order_id n) = unat coid" using ix book_rel_idx [OF rel] by blast
  then have bnd: "unat cid < kMaxNumClients" "unat coid < kMaxOrderIds"
    using book_rel_bounds [OF rel n(1)] by simp_all
  have found: "spec_find cid coid (abs_with b Q) = Some (s, t, r)"
  proof (cases "spec_find cid coid (abs_with b Q)")
    case None
    then show ?thesis using spec_find_idx(1) [OF rel] ix by simp
  next
    case (Some place)
    obtain s' t' r' where place: "place = (s', t', r')" by (cases place)
    from spec_find_idx(2) [OF rel Some [unfolded place]] ix
    have "i \<in> set (Q s' t')" "r' = rest (lookup (order_pool b)) i" by auto
    then show ?thesis using book_rel_place [OF rel i(1)] i(2) Some place by auto
  qed
  from Cancel_ok [OF rel bnd] obtain b' where b': "Cancel cid coid b = Inr b'"
      "implements b (spec_cancel (bk_symbol_id b) (bk_band b) cid coid (abs_with b Q)) b'" by blast
  note abs' = implements_abs(1) [OF b'(2)]
  have "abook_ok (book_abs b')" unfolding abs' using spec_cancel_ok [OF aok [unfolded abs]] .
  then have "book_inv b'" using implements_abs(2) [OF b'(2)] by (simp add: book_inv_def)
  moreover have "al_queue (ab_side (book_abs b') s' u) =
       (if s' = s \<and> u = t then remove1 r (al_queue (ab_side (book_abs b) s t))
        else al_queue (ab_side (book_abs b) s' u))" for s' u
    unfolding abs' abs by (simp add: spec_cancel_def found upd_side_def)
  ultimately show ?thesis
    using b' by (intro exI [of _ b'])
      (auto simp: implements_def new_responses_def new_updates_def spec_cancel_def found)
qed

text \<open>The example book with a sell order of 4 at 105.\<close>

definition example_two :: BookCore where
  "example_two = projr (apply_request (Add_Request 2 1 SELL 105 4) example_book)"

lemma example_two_reach: "book_reach True 0 kDefaultPriceBand example_two"
proof -
  have v: "valid_request (Add_Request 2 1 SELL 105 4) example_book" by (simp add: example_book_def book_eval)
  with request_keeps_inv [OF example_book_inv v] show ?thesis
    using book_step [OF example_book_reach v] by (simp add: example_two_def)
qed

lemma example_two_sides: "\<not> pl_IsEmpty (bids example_two)" "\<not> pl_IsEmpty (asks example_two)"
  by (simp_all add: example_two_def example_book_def book_eval)

theorem reachable_book_uncrossed_witness:
  "best_tick (bids example_two) < best_tick (asks example_two)"
  using reachable_book_uncrossed [OF example_two_reach example_two_sides] by simp

theorem level_totals_exact_witness:
  "unat (total_quantity (levels (sideof True example_book) 100)) =
     qsum (al_queue (ab_side (book_abs example_book) True 100))"
  using level_totals_exact [OF example_book_reach] .

theorem updates_rebuild_book_witness:
  "\<forall>v. replay Map.empty (market_updates example_book) 1 = Some v \<longleftrightarrow>
    (\<exists>s t. \<exists>r \<in> set (al_queue (ab_side (book_abs example_book) s t)). r_moid r = 1 \<and>
       v = order_view kDefaultPriceBand s t r)"
  using updates_rebuild_book [OF example_book_reach, of 1] by blast

theorem Cancel_removes_exactly_witness:
  "\<exists>b'. Cancel 1 1 example_book = Inr b' \<and> length (new_responses example_book b') = 1"
proof -
  obtain Q where rel: "book_rel example_book Q" using example_book_inv by (auto simp: book_inv_def)
  have "FindOrder 1 1 example_book = Inr (Some 0)" by (simp add: example_book_def book_eval)
  then have "idx example_book (unat (1 :: ClientId)) (unat (1 :: OrderId)) = Some 0"
    using FindOrder_rel [OF rel, of 1 1] by (simp add: capacity_defs)
  then have "spec_find 1 1 (abs_with example_book Q) \<noteq> None" using spec_find_idx(1) [OF rel] by fastforce
  then obtain s t r where "spec_find 1 1 (abs_with example_book Q) = Some (s, t, r)" by auto
  from spec_find_SomeD [OF this] have r: "r \<in> set (al_queue (ab_side (book_abs example_book) s t))" "has_key 1 1 r"
    by (simp_all add: book_abs_eq [OF rel])
  from Cancel_removes_exactly [OF example_book_inv r] show ?thesis by auto
qed

section \<open>Outside the preconditions\<close>

text \<open>C30: When a client sends a second order under the (client, order id) of a live one and it rests
  without a trade, its node takes over the index entry: a lookup of the id finds the second order, a
  slot that was free before, while the first keeps resting in the book with its quantity and no lookup of
  any client and order id, hence no cancel request, finds it any more. (Client and order id are within the
  tables, the tick is in the band and there is room for another order.)\<close>

theorem duplicate_order_id_orphans:
  assumes inv: "book_inv b" and live: "FindOrder cid coid b = Inr (Some i)"
    and bnd: "unat cid < kMaxNumClients" "unat coid < kMaxOrderIds"
    and tick: "0 \<le> ToTick (bk_band b) price" "ToTick (bk_band b) price < int kTickCount"
    and room: "mp_in_use (order_pool b) < kMaxOrderIds" "unat (next_market_order_id b) + 1 < 2 ^ 64"
    and rests: "0 < qty"
      "crossing_ticks (side = BUY) (ToTick (bk_band b) price) (ab_side (book_abs b) (side \<noteq> BUY)) = []"
  shows "\<exists>b'. Add cid coid side price qty b = Inr b' \<and>
    map_option node_data (lookup (order_pool b') i) = map_option node_data (lookup (order_pool b) i) \<and>
    lookup (order_pool b') i \<noteq> None \<and> (\<forall>c k. FindOrder c k b' \<noteq> Inr (Some i)) \<and>
    (\<exists>j. j \<noteq> i \<and> FindOrder cid coid b' = Inr (Some j) \<and> lookup (order_pool b) j = None \<and> lookup (order_pool b') j \<noteq> None)"
proof -
  obtain Q where rel: "book_rel b Q" and aok: "abook_ok (book_abs b)" using inv by (auto simp: book_inv_def)
  define limit where "limit = ToTick (bk_band b) price"
  define t where "t = nat limit"
  define moid where "moid = next_market_order_id b"
  define s where "s = (side = BUY)"
  define k where "k = \<lparr>tk_client_id = cid, tk_client_order_id = coid, tk_market_order_id = moid,
               tk_side = side, tk_limit_tick = limit, tk_quantity = qty\<rparr>"
  define b2 where "b2 = b\<lparr>next_market_order_id := moid + 1,
      client_responses := client_responses b @ [accepted (bk_symbol_id b) cid coid moid side price qty]\<rparr>"
  have t: "t < kTickCount" "limit = int t" using tick by (auto simp: t_def limit_def)
  have rel2: "book_rel b2 Q" and opp: "ab_side (abs_with b2 Q) = ab_side (book_abs b)"
    using rel by (simp_all add: b2_def book_abs_eq [OF rel])
  have match: "Match k b2 = Inr (qty, b2)"
    using match_levels_none [OF rel2, of "\<not> s" k] rests(2)
    by (simp add: Match_def opp k_def s_def limit_def)
  have b2: "order_pool b2 = order_pool b" "sideof s b2 = sideof s b" "orders b2 = orders b" "bk_symbol_id b2 = bk_symbol_id b"
    by (simp_all add: b2_def)
  have sr: "side_rel (lookup (order_pool b)) (sideof s b) (Q s)" and pinv: "pool_inv (order_pool b)"
    and cap: "mp_capacity (order_pool b) = kMaxOrderIds" by (rule book_relD [OF rel])+
  have "unat (al_next (ab_side (book_abs b) s t)) \<le> unat (next_market_order_id b)"
    using abook_ok_level [OF aok, of s t] by (simp add: level_wf_def book_abs_eq [OF rel] abs_next)
  then have prio: "unat (next_priority (levels (sideof s b) t)) + 1 < 2 ^ 64"
    using room(2) by (simp add: book_abs_eq [OF rel] abs_with_def)
  from AddOrder_ok [OF sr pinv _ t(1) prio, of cid coid moid qty] room(1) cap obtain j p' pl' where
    add: "AddOrder (int t) cid coid moid qty (order_pool b) (sideof s b) = Inr (j, p', pl')"
      "lookup (order_pool b) j = None" "map_option node_data (lookup p' j) \<noteq> None"
      "\<And>l. l \<noteq> j \<Longrightarrow> map_option node_data (lookup p' l) = map_option node_data (lookup (order_pool b) l)"
    by auto
  obtain nd where nd: "lookup p' j = Some nd" using add(3) by (cases "lookup p' j") auto
  from IndexOrder_ok [OF bnd, of j "set_side s pl' (b2\<lparr>order_pool := p'\<rparr>)"] obtain tables where
    ind: "IndexOrder cid coid j (set_side s pl' (b2\<lparr>order_pool := p'\<rparr>)) =
        Inr (set_side s pl' (b2\<lparr>order_pool := p', orders := tables\<rparr>))"
      "idx (b2\<lparr>order_pool := p', orders := tables\<rparr>) =
        (\<lambda>c k. if c = unat cid \<and> k = unat coid then Some j else idx b2 c k)" by (auto cong: if_cong)
  define b' where "b' = SendMarketUpdate \<lparr>mu_type = MU_ADD, mu_symbol_id = bk_symbol_id b, mu_order_id = moid,
      mu_side = side, mu_price = price, mu_quantity = qty, mu_priority = on_priority nd\<rparr>
      (set_side s pl' (b2\<lparr>order_pool := p', orders := tables\<rparr>))"
  have run: "Add cid coid side price qty b = Inr b'"
    using match add(1) [folded t(2)] ind(1) rests(1) nd b2
    by (simp add: Add_def Let_def NextMarketOrderId_def limit_def [symmetric] moid_def [symmetric] k_def [symmetric]
        SendClientResponse_def accepted_def [symmetric] b2_def [symmetric] b'_def s_def [symmetric])
  have ix: "idx b' c l = (if c = unat cid \<and> l = unat coid then Some j else idx b c l)" for c l
    using ind(2) by (simp add: b'_def SendMarketUpdate_def b2_def idx_def fun_eq_iff)
  have fi: "idx b (unat cid) (unat coid) = Some i" using live FindOrder_rel [OF rel bnd] by simp
  then obtain ni where ni: "lookup (order_pool b) i = Some ni" "unat (on_client_id ni) = unat cid"
      "unat (on_client_order_id ni) = unat coid" using book_rel_idx [OF rel] by blast
  then have ij: "i \<noteq> j" using add(2) by auto
  have not_i: "idx b' c l \<noteq> Some i" for c l
    using book_rel_idx [OF rel, of c l i] ni ij by (auto simp: ix)
  have "FindOrder c l b' \<noteq> Inr (Some i)" for c l
    using not_i [of "unat c" "unat l"] by (auto simp: FindOrder_def idx_def split: option.splits if_splits)
  moreover have pool: "order_pool b' = p'" by (simp add: b'_def SendMarketUpdate_def)
  moreover have "FindOrder cid coid b' = Inr (Some j)" using ix [of "unat cid" "unat coid"] bnd by (auto simp: FindOrder_def idx_def split: option.splits)
  then have "\<exists>j. j \<noteq> i \<and> FindOrder cid coid b' = Inr (Some j) \<and> lookup (order_pool b) j = None \<and> lookup (order_pool b') j \<noteq> None"
    using ij add(2) nd pool by auto
  moreover have "map_option node_data (lookup p' i) = map_option node_data (lookup (order_pool b) i)" using add(4) ij by simp
  moreover have "lookup p' i \<noteq> None" using add(4) [OF ij] ni by auto
  ultimately show ?thesis using run by blast
qed

text \<open>The tick is the distance to the base price cut to 32 bits: a price far above the band can wrap into it,
  and rests at a wrong level.\<close>

lemma far_price_wraps_into_band:
  "ToTick kDefaultPriceBand (2 ^ 32 + 100) = 100" "\<not> isl (Add 2 1 SELL (2 ^ 32 + 100) 4 example_book)"
  by (simp_all add: book_eval example_book_def)

text \<open>C31: Nothing between the client and the book checks the price band: an order whose tick, as \<open>ToTick\<close>
  computes it in 32 bits, lies outside the table of levels and that has quantity left to rest stops the
  engine on the assertion in \<open>AddOrder\<close>. (A price whose distance to the band is 2^32 or more can wrap to
  a tick inside, see \<open>far_price_wraps_into_band\<close>: it then rests at a wrong level.)\<close>

theorem out_of_band_order_stops_engine:
  assumes inv: "book_inv b"
    and tick: "ToTick (bk_band b) price < 0 \<or> int kTickCount \<le> ToTick (bk_band b) price"
    and left: "out_left (spec_add (bk_symbol_id b) (bk_band b) cid coid side price qty (book_abs b)) \<noteq> 0"
  shows "Add cid coid side price qty b = Inl (Assert_Fail ''Tick outside the price band'')"
proof -
  obtain Q where rel: "book_rel b Q" using inv by (auto simp: book_inv_def)
  define limit where "limit = ToTick (bk_band b) price"
  define moid where "moid = next_market_order_id b"
  define buy where "buy = (side = BUY)"
  define k where "k = \<lparr>tk_client_id = cid, tk_client_order_id = coid, tk_market_order_id = moid,
               tk_side = side, tk_limit_tick = limit, tk_quantity = qty\<rparr>"
  define b2 where "b2 = b\<lparr>next_market_order_id := moid + 1,
      client_responses := client_responses b @ [accepted (bk_symbol_id b) cid coid moid side price qty]\<rparr>"
  have rel2: "book_rel b2 Q" and opp: "ab_side (abs_with b2 Q) = ab_side (abs_with b Q)"
    using rel by (simp_all add: b2_def)
  obtain fs rem a' where m: "fill_levels (crossing_ticks buy limit (ab_side (abs_with b Q) (\<not> buy))) qty
      (ab_side (abs_with b Q) (\<not> buy)) = (fs, rem, a')" by (metis prod_cases3)
  from Match_ok [OF rel2, of "\<not> buy" k fs rem a'] m obtain b3 where
    match: "Match k b2 = Inr (rem, b3)" by (auto simp: k_def buy_def opp)
  have rem: "rem \<noteq> 0"
    using left m by (simp add: book_abs_eq [OF rel] spec_add_def Let_def buy_def limit_def)
  have "AddOrder limit cid coid moid rem (order_pool b3) (Levels side b3) =
      Inl (Assert_Fail ''Tick outside the price band'')"
    using tick by (auto simp: AddOrder_def limit_def ASSERT_def)
  with match rem show ?thesis
    by (simp add: Add_def Let_def NextMarketOrderId_def limit_def [symmetric] moid_def [symmetric] k_def [symmetric]
        SendClientResponse_def accepted_def [symmetric] b2_def [symmetric] word_gt_0)
qed

theorem duplicate_order_id_orphans_witness:
  "\<exists>b'. Add 1 1 BUY 100 5 example_book = Inr b' \<and> (\<forall>c k. FindOrder c k b' \<noteq> Inr (Some 0)) \<and>
     (\<exists>j. j \<noteq> 0 \<and> FindOrder 1 1 b' = Inr (Some j))"
proof -
  have f: "FindOrder 1 1 example_book = Inr (Some 0)" "mp_in_use (order_pool example_book) < kMaxOrderIds"
      "unat (next_market_order_id example_book) + 1 < 2 ^ 64" "bk_band example_book = kDefaultPriceBand"
    by (simp_all add: example_book_def book_eval)
  have t: "ToTick kDefaultPriceBand 100 = 100" by (simp add: book_eval)
  obtain Q where rel: "book_rel example_book Q" using example_book_inv by (auto simp: book_inv_def)
  have fo: "first_order (levels (sideof False example_book) t) = None" for t
    by (simp add: example_book_def book_eval)
  have "Q False t = []" for t
    using first_order_rel [OF rel, of False t] fo [of t] by (metis head_or_simps(4))
  then have "al_queue (ab_side (book_abs example_book) False t) = []" for t
    by (simp add: book_abs_eq [OF rel] abs_queue)
  then have c: "crossing_ticks True 100 (ab_side (book_abs example_book) False) = []"
    by (simp add: crossing_ticks_def)
  show ?thesis
    using duplicate_order_id_orphans [OF example_book_inv f(1), of 100 5 BUY] f t c
    by (auto simp: capacity_defs)
qed

theorem out_of_band_order_stops_engine_witness:
  "Add 2 1 SELL 20000 4 example_book = Inl (Assert_Fail ''Tick outside the price band'')"
proof (rule out_of_band_order_stops_engine [OF example_book_inv])
  have b: "bk_band example_book = kDefaultPriceBand" by (simp add: example_book_def book_eval)
  have t: "ToTick kDefaultPriceBand 20000 = 20000" by (simp add: book_eval)
  show "ToTick (bk_band example_book) 20000 < 0 \<or> int kTickCount \<le> ToTick (bk_band example_book) 20000"
    by (simp add: b t)
  have "crossing_ticks False 20000 a = []" for a by (auto simp: crossing_ticks_def tick_crosses_def)
  then show "out_left (spec_add (bk_symbol_id example_book) (bk_band example_book) 2 1 SELL 20000 4 (book_abs example_book)) \<noteq> 0"
    by (simp add: spec_add_def b t Let_def)
qed

end
