(* ===== verification/Matching_Engine.thy ===== *)
theory Matching_Engine
  imports Book_Reach
begin

text \<open>
  \<open>exchange::MatchingEngine\<close> of \<open>exchange/matcher/matching_engine\<close>: one book per symbol, all
  writing to the same response queue and the same update queue, and a loop that takes one
  request at a time from the request queue. The contents of the two shared queues are fields of
  the engine; a book runs with them in its own output fields, which is the sharing by reference.
\<close>

section \<open>State and operations\<close>

record MatchingEngine =
  symbol_order_book :: "nat \<Rightarrow> BookCore"
  incoming_requests :: "MatchingEngineClientRequest list"
  me_responses :: "MatchingEngineClientResponse list"
  me_updates :: "MatchingEngineMarketUpdate list"

text \<open>The loop of the constructor, over the first \<open>n\<close> symbols.\<close>

fun new_books :: "bool \<Rightarrow> nat \<Rightarrow> (nat \<rightharpoonup> BookCore) result" where
  "new_books debug 0 = Inr Map.empty"
| "new_books debug (Suc n) = bindE (new_books debug n) (\<lambda>books.
     bindE (new_BookCore debug (of_nat n) kDefaultPriceBand) (\<lambda>b. Inr (books(n \<mapsto> b))))"

definition new_MatchingEngine :: "bool \<Rightarrow> MatchingEngine result" where
  "new_MatchingEngine debug = bindE (new_books debug kMaxSymbols) (\<lambda>books.
          Inr \<lparr>symbol_order_book = (\<lambda>i. the (books i)), incoming_requests = [],
               me_responses = [], me_updates = []\<rparr>)"

text \<open>Run \<open>f\<close> on the book of symbol \<open>i\<close>, with the shared queues.\<close>

definition on_book :: "nat \<Rightarrow> (BookCore \<Rightarrow> BookCore result) \<Rightarrow> MatchingEngine \<Rightarrow> MatchingEngine result" where
  "on_book i f e =
     bindE (f ((symbol_order_book e i)\<lparr>client_responses := me_responses e, market_updates := me_updates e\<rparr>))
       (\<lambda>b. Inr (e\<lparr>symbol_order_book := (symbol_order_book e)(i := b),
                   me_responses := client_responses b, me_updates := market_updates b\<rparr>))"

definition ProcessClientRequest :: "MatchingEngineClientRequest \<Rightarrow> MatchingEngine \<Rightarrow> MatchingEngine result" where
  "ProcessClientRequest r e =
     (let i = unat (req_symbol_id r) in
      if kMaxSymbols \<le> i then Inl Bad_Access
      else case req_type r of
          REQ_NEW \<Rightarrow> on_book i (Add (req_client_id r) (req_order_id r) (req_side r) (req_price r) (req_quantity r)) e
        | REQ_CANCELED \<Rightarrow> on_book i (Cancel (req_client_id r) (req_order_id r)) e
        | _ \<Rightarrow> FATAL ''invalid client request type'')"

text \<open>One iteration of the loop in \<open>run\<close>, and the iterations until the queue is empty.\<close>

definition run_step :: "MatchingEngine \<Rightarrow> MatchingEngine result" where
  "run_step e =
     (case incoming_requests e of
        [] \<Rightarrow> Inr e
      | r # rs \<Rightarrow> bindE (ProcessClientRequest r e) (\<lambda>e'. Inr (e'\<lparr>incoming_requests := rs\<rparr>)))"

fun process_all :: "MatchingEngineClientRequest list \<Rightarrow> MatchingEngine \<Rightarrow> MatchingEngine result" where
  "process_all [] e = Inr e"
| "process_all (r # rs) e = bindE (ProcessClientRequest r e) (process_all rs)"

section \<open>Invariant\<close>

definition engine_inv :: "MatchingEngine \<Rightarrow> bool" where
  "engine_inv e \<longleftrightarrow> (\<forall>i < kMaxSymbols. book_inv (symbol_order_book e i) \<and>
     bk_symbol_id (symbol_order_book e i) = of_nat i \<and> bk_band (symbol_order_book e i) = kDefaultPriceBand)"

text \<open>The book-level request a client request asks for, and when the engine may be given it.\<close>

definition as_request :: "MatchingEngineClientRequest \<Rightarrow> request" where
  "as_request r = (if req_type r = REQ_NEW
     then Add_Request (req_client_id r) (req_order_id r) (req_side r) (req_price r) (req_quantity r)
     else Cancel_Request (req_client_id r) (req_order_id r))"

definition engine_valid :: "MatchingEngineClientRequest \<Rightarrow> MatchingEngine \<Rightarrow> bool" where
  "engine_valid r e \<longleftrightarrow> unat (req_symbol_id r) < kMaxSymbols \<and>
     (req_type r = REQ_NEW \<or> req_type r = REQ_CANCELED) \<and>
     valid_request (as_request r) (symbol_order_book e (unat (req_symbol_id r)))"

lemma book_inv_queues:
  "book_inv (b\<lparr>client_responses := r, market_updates := u\<rparr>) = book_inv b"
  "book_abs (b\<lparr>client_responses := r, market_updates := u\<rparr>) = book_abs b"
proof -
  have q: "book_queues (b\<lparr>client_responses := r, market_updates := u\<rparr>) = book_queues b"
    by (simp add: book_queues_def fun_eq_iff)
  show abs: "book_abs (b\<lparr>client_responses := r, market_updates := u\<rparr>) = book_abs b"
    by (simp add: book_abs_def q)
  show "book_inv (b\<lparr>client_responses := r, market_updates := u\<rparr>) = book_inv b"
    by (simp add: book_inv_def abs)
qed

lemma valid_request_queues:
  "valid_request req (b\<lparr>client_responses := r, market_updates := u\<rparr>) = valid_request req b"
  by (cases req) (simp_all add: valid_request_def FindOrder_def)

lemma apply_request_fun:
  "apply_request (Add_Request cid coid side price qty) = Add cid coid side price qty"
  "apply_request (Cancel_Request cid coid) = Cancel cid coid"
  by (simp_all add: apply_request_def fun_eq_iff)

lemma process_as_request:
  assumes "engine_valid r e"
  shows "ProcessClientRequest r e = on_book (unat (req_symbol_id r)) (apply_request (as_request r)) e"
  using assms by (auto simp: ProcessClientRequest_def engine_valid_def Let_def as_request_def apply_request_fun)

text \<open>What the book of the request's symbol does, in terms of the book specification.\<close>

lemma process_ok:
  assumes inv: "engine_inv e" and ok: "engine_valid r e"
  defines "i \<equiv> unat (req_symbol_id r)"
  defines "x \<equiv> spec_request (req_symbol_id r) kDefaultPriceBand (as_request r) (book_abs (symbol_order_book e i))"
  shows "\<exists>b'. ProcessClientRequest r e = Inr (e\<lparr>symbol_order_book := (symbol_order_book e)(i := b'),
      me_responses := me_responses e @ out_responses x, me_updates := me_updates e @ out_updates x\<rparr>) \<and>
    book_inv b' \<and> book_abs b' = out_book x \<and> bk_symbol_id b' = req_symbol_id r \<and> bk_band b' = kDefaultPriceBand"
proof -
  let ?b = "(symbol_order_book e i)\<lparr>client_responses := me_responses e, market_updates := me_updates e\<rparr>"
  have i: "i < kMaxSymbols" using ok by (simp add: engine_valid_def i_def)
  have b: "book_inv ?b" "bk_symbol_id ?b = req_symbol_id r" "bk_band ?b = kDefaultPriceBand"
    using inv i by (simp_all add: engine_inv_def book_inv_queues) (simp add: i_def)
  have v: "valid_request (as_request r) ?b" using ok by (simp add: valid_request_queues engine_valid_def i_def)
  obtain b' where b': "apply_request (as_request r) ?b = Inr b'"
      "implements ?b (spec_request (bk_symbol_id ?b) (bk_band ?b) (as_request r) (book_abs ?b)) b'"
    using valid_request_runs [OF b(1) v] by blast
  have xs: "spec_request (bk_symbol_id ?b) (bk_band ?b) (as_request r) (book_abs ?b) = x"
    using b(2,3) by (simp add: x_def book_inv_queues)
  have "book_inv b'" using request_keeps_inv [OF b(1) v] b'(1) by simp
  with b' b implements_abs(1) [OF b'(2)] show ?thesis unfolding xs
    by (intro exI [of _ b'])
      (simp add: process_as_request [OF ok] on_book_def i_def [symmetric], simp add: implements_def)
qed

text \<open>C2: A valid request never stops the engine: it is handled by the book of its symbol as
  that book's specification says, the invariant holds afterwards, the books of all other symbols
  stay as they are, and the shared queues only grow, by that book's messages.\<close>

theorem engine_handles_request:
  assumes "engine_inv e" and "engine_valid r e"
  shows "\<exists>e'. ProcessClientRequest r e = Inr e' \<and> engine_inv e' \<and>
    (\<forall>j. j \<noteq> unat (req_symbol_id r) \<longrightarrow> symbol_order_book e' j = symbol_order_book e j) \<and>
    (let x = spec_request (req_symbol_id r) kDefaultPriceBand (as_request r)
               (book_abs (symbol_order_book e (unat (req_symbol_id r)))) in
     book_abs (symbol_order_book e' (unat (req_symbol_id r))) = out_book x \<and>
     me_responses e' = me_responses e @ out_responses x \<and> me_updates e' = me_updates e @ out_updates x)"
proof -
  obtain b' where "ProcessClientRequest r e = Inr (e\<lparr>symbol_order_book :=
      (symbol_order_book e)(unat (req_symbol_id r) := b'),
      me_responses := me_responses e @ out_responses (spec_request (req_symbol_id r) kDefaultPriceBand
        (as_request r) (book_abs (symbol_order_book e (unat (req_symbol_id r))))),
      me_updates := me_updates e @ out_updates (spec_request (req_symbol_id r) kDefaultPriceBand
        (as_request r) (book_abs (symbol_order_book e (unat (req_symbol_id r)))))\<rparr>)"
    "book_inv b'" "book_abs b' = out_book (spec_request (req_symbol_id r) kDefaultPriceBand
        (as_request r) (book_abs (symbol_order_book e (unat (req_symbol_id r)))))"
    "bk_symbol_id b' = req_symbol_id r" "bk_band b' = kDefaultPriceBand"
    using process_ok [OF assms] by blast
  then show ?thesis using assms(1) by (auto simp: engine_inv_def Let_def)
qed

text \<open>The first response to a request answers it: it goes to the requesting client, for the
  symbol and the client's order id of the request, and says accepted for a new order, cancelled or
  cancel-rejected for a cancel; every other new response is a fill.\<close>

theorem first_response_answers:
  assumes "engine_inv e" and "engine_valid r e" and "ProcessClientRequest r e = Inr e'"
  shows "\<exists>x xs. me_responses e' = me_responses e @ x # xs \<and> resp_client_id x = req_client_id r \<and>
    resp_symbol_id x = req_symbol_id r \<and> resp_client_order_id x = req_order_id r \<and>
    (if req_type r = REQ_NEW then resp_type x = RESP_ACCEPTED
     else resp_type x = RESP_CANCELED \<or> resp_type x = RESP_CANCEL_REJECTED) \<and>
    (\<forall>y \<in> set xs. resp_type y = RESP_FILLED)"
proof -
  have fills: "\<forall>y \<in> set (fill_responses symbol band k q fs). resp_type y = RESP_FILLED" for symbol band k q fs
    by (induction fs arbitrary: q) (auto simp: taker_response_def maker_response_def)
  define ab where "ab = book_abs (symbol_order_book e (unat (req_symbol_id r)))"
  have "me_responses e' = me_responses e @
      out_responses (spec_request (req_symbol_id r) kDefaultPriceBand (as_request r) ab)"
    using process_ok [OF assms(1,2)] assms(3) by (auto simp: ab_def)
  moreover have "\<exists>x xs. out_responses (spec_request (req_symbol_id r) kDefaultPriceBand (as_request r) ab) = x # xs \<and>
    resp_client_id x = req_client_id r \<and> resp_symbol_id x = req_symbol_id r \<and>
    resp_client_order_id x = req_order_id r \<and>
    (if req_type r = REQ_NEW then resp_type x = RESP_ACCEPTED
     else resp_type x = RESP_CANCELED \<or> resp_type x = RESP_CANCEL_REJECTED) \<and>
    (\<forall>y \<in> set xs. resp_type y = RESP_FILLED)"
  proof (cases "req_type r = REQ_NEW")
    case True
    then show ?thesis
      by (auto simp: as_request_def spec_request_def spec_add_def Let_def accepted_def fills split: prod.splits)
  next
    case False
    then show ?thesis
      by (auto simp: as_request_def spec_request_def spec_cancel_def split: option.splits)
  qed
  ultimately show ?thesis by auto
qed

text \<open>A request of a type that is neither new nor cancel ends the process.\<close>

lemma unknown_type_is_fatal:
  assumes "unat (req_symbol_id r) < kMaxSymbols" and "req_type r \<noteq> REQ_NEW" and "req_type r \<noteq> REQ_CANCELED"
  shows "ProcessClientRequest r e = Inl (Fatal_Exit ''invalid client request type'')"
  using assms by (cases "req_type r") (auto simp: ProcessClientRequest_def Let_def FATAL_def)

section \<open>The constructor and a first request\<close>

lemma new_books_ok:
  "\<exists>books. new_books debug n = Inr books \<and>
     (\<forall>i < n. \<exists>b. books i = Some b \<and> book_inv b \<and> bk_symbol_id b = of_nat i \<and> bk_band b = kDefaultPriceBand \<and>
        new_BookCore debug (of_nat i) kDefaultPriceBand = Inr b)"
proof (induction n)
  case (Suc n)
  then obtain books where books: "new_books debug n = Inr books"
     "\<forall>i < n. \<exists>b. books i = Some b \<and> book_inv b \<and> bk_symbol_id b = of_nat i \<and> bk_band b = kDefaultPriceBand \<and>
        new_BookCore debug (of_nat i) kDefaultPriceBand = Inr b" by blast
  obtain b where b: "new_BookCore debug (of_nat n) kDefaultPriceBand = Inr b" "book_inv b"
      "bk_band b = kDefaultPriceBand" "bk_symbol_id b = of_nat n"
    using new_BookCore_ok [OF default_band_valid, of debug "of_nat n"] by blast
  show ?case
    by (intro exI [of _ "books(n \<mapsto> b)"] conjI allI impI)
      (use books b in \<open>auto simp: less_Suc_eq\<close>)
qed simp

lemma new_MatchingEngine_ok:
  "\<exists>e. new_MatchingEngine debug = Inr e \<and> engine_inv e \<and> me_responses e = [] \<and> me_updates e = [] \<and>
     (\<forall>i < kMaxSymbols. new_BookCore debug (of_nat i) kDefaultPriceBand = Inr (symbol_order_book e i))"
proof -
  obtain books where books: "new_books debug kMaxSymbols = Inr books"
     "\<And>i. i < kMaxSymbols \<Longrightarrow> \<exists>b. books i = Some b \<and> book_inv b \<and> bk_symbol_id b = of_nat i \<and>
        bk_band b = kDefaultPriceBand \<and> new_BookCore debug (of_nat i) kDefaultPriceBand = Inr b"
    using new_books_ok [of debug kMaxSymbols] by blast
  have "book_inv (the (books i)) \<and> bk_symbol_id (the (books i)) = of_nat i \<and>
      bk_band (the (books i)) = kDefaultPriceBand \<and>
      new_BookCore debug (of_nat i) kDefaultPriceBand = Inr (the (books i))" if "i < kMaxSymbols" for i
    using books(2) [OF that] by auto
  with books(1) show ?thesis unfolding new_MatchingEngine_def engine_inv_def by simp
qed

definition example_request :: MatchingEngineClientRequest where
  "example_request = \<lparr>req_type = REQ_NEW, req_client_id = 1, req_symbol_id = 0, req_order_id = 1,
     req_side = BUY, req_price = 100, req_quantity = 10\<rparr>"

lemma example_engine:
  "\<exists>e. new_MatchingEngine True = Inr e \<and> engine_inv e \<and> engine_valid example_request e"
proof -
  obtain e where e: "new_MatchingEngine True = Inr e" "engine_inv e"
      "\<forall>i < kMaxSymbols. new_BookCore True (of_nat i) kDefaultPriceBand = Inr (symbol_order_book e i)"
    using new_MatchingEngine_ok by blast
  obtain b where b: "new_BookCore True 0 kDefaultPriceBand = Inr b" "valid_request (Add_Request 1 1 BUY 100 10) b"
    using example_book_start by blast
  have "new_BookCore True (of_nat 0) kDefaultPriceBand = Inr (symbol_order_book e 0)"
    using e(3) [rule_format, of 0] by (simp add: capacity_defs)
  then have "symbol_order_book e 0 = b" using b(1) by simp
  then have "engine_valid example_request e"
    using b(2) by (simp add: engine_valid_def example_request_def as_request_def capacity_defs)
  with e show ?thesis by blast
qed

theorem engine_handles_request_witness:
  "\<exists>e e'. new_MatchingEngine True = Inr e \<and> ProcessClientRequest example_request e = Inr e' \<and> engine_inv e'"
  using example_engine engine_handles_request [of _ example_request] by metis

theorem first_response_answers_witness:
  "\<exists>e e' x xs. new_MatchingEngine True = Inr e \<and> ProcessClientRequest example_request e = Inr e' \<and>
     me_responses e' = me_responses e @ x # xs \<and> resp_type x = RESP_ACCEPTED"
proof -
  obtain e where e: "new_MatchingEngine True = Inr e" "engine_inv e" "engine_valid example_request e"
    using example_engine by blast
  then obtain e' where "ProcessClientRequest example_request e = Inr e'" using process_ok by blast
  with first_response_answers [OF e(2,3) this] e(1) show ?thesis by (auto simp: example_request_def)
qed

end
