(* ===== verification/LF_Queue.thy ===== *)
theory LF_Queue
  imports Types "HOL-Library.Sublist"
begin

text \<open>
  The single-producer single-consumer ring \<open>common::LFQueue\<close> of \<open>common/ringBuffer.h\<close>. The
  indices are 64-bit counters that only grow and wrap; each thread also keeps a cached copy of
  the other thread's index. Every operation touches at most one index of the other thread, so
  a step of the interleaving below is one operation. The first part is the code, the second
  the power-of-two rounding, the third the interleaving of the two threads with its
  invariant, the last the queue contract that clients use when they own both ends.
\<close>

section \<open>State and operations\<close>

record 'a LFQueue =
  q_store :: "nat \<Rightarrow> 'a"
  q_mask :: u64
  q_capacity :: nat
  next_write_index :: u64
  cached_read_index :: u64
  next_read_index :: u64
  cached_write_index :: u64

definition RoundUpToPowerOf2 :: "u64 \<Rightarrow> u64" where
  "RoundUpToPowerOf2 num =
     (if num = 0 then 1
      else
        let n0 = num - 1;
            n1 = n0 OR drop_bit 1 n0;
            n2 = n1 OR drop_bit 2 n1;
            n3 = n2 OR drop_bit 4 n2;
            n4 = n3 OR drop_bit 8 n3;
            n5 = n4 OR drop_bit 16 n4;
            n6 = n5 OR drop_bit 32 n5
        in n6 + 1)"

definition new_queue :: "'a \<Rightarrow> u64 \<Rightarrow> 'a LFQueue" where
  "new_queue d num_elems =
     (let size = RoundUpToPowerOf2 num_elems in
      \<lparr>q_store = (\<lambda>_. d), q_mask = size - 1, q_capacity = unat size,
       next_write_index = 0, cached_read_index = 0, next_read_index = 0, cached_write_index = 0\<rparr>)"

definition TryGetNextToWriteTo :: "'a LFQueue \<Rightarrow> nat option \<times> 'a LFQueue" where
  "TryGetNextToWriteTo q =
     (let current_write = next_write_index q;
          next_slot = (current_write + 1) AND q_mask q;
          slot = unat (current_write AND q_mask q)
      in if next_slot = cached_read_index q AND q_mask q then
           let q' = q\<lparr>cached_read_index := next_read_index q\<rparr> in
           if next_slot = cached_read_index q' AND q_mask q' then (None, q') else (Some slot, q')
         else (Some slot, q))"

definition write_slot :: "nat \<Rightarrow> 'a \<Rightarrow> 'a LFQueue \<Rightarrow> 'a LFQueue" where
  "write_slot i x q = q\<lparr>q_store := (q_store q)(i := x)\<rparr>"

definition UpdateWriteIndex :: "'a LFQueue \<Rightarrow> 'a LFQueue" where
  "UpdateWriteIndex q = q\<lparr>next_write_index := next_write_index q + 1\<rparr>"

definition GetNextToRead :: "'a LFQueue \<Rightarrow> nat option \<times> 'a LFQueue" where
  "GetNextToRead q =
     (let current_read = next_read_index q; slot = unat (current_read AND q_mask q) in
      if current_read = cached_write_index q then
        let q' = q\<lparr>cached_write_index := next_write_index q\<rparr> in
        if current_read = cached_write_index q' then (None, q') else (Some slot, q')
      else (Some slot, q))"

definition UpdateReadIndex :: "'a LFQueue \<Rightarrow> 'a LFQueue" where
  "UpdateReadIndex q = q\<lparr>next_read_index := next_read_index q + 1\<rparr>"

text \<open>\<open>size()\<close> loads the read index first, then the write index; \<open>q1\<close> and \<open>q2\<close> are the
  states at the two loads.\<close>

definition queue_size :: "'a LFQueue \<Rightarrow> 'a LFQueue \<Rightarrow> u64" where
  "queue_size q1 q2 = next_write_index q2 - next_read_index q1"

definition IsFull :: "'a LFQueue \<Rightarrow> bool" where
  "IsFull q \<longleftrightarrow> (next_write_index q + 1) AND q_mask q = next_read_index q AND q_mask q"

section \<open>Rounding the capacity up to a power of two\<close>

text \<open>\<open>smeared w x y\<close>: bit \<open>i\<close> of \<open>y\<close> is set when one of the \<open>w\<close> bits of \<open>x\<close> from \<open>i\<close> up is.\<close>

definition smeared :: "nat \<Rightarrow> u64 \<Rightarrow> u64 \<Rightarrow> bool" where
  "smeared w x y \<longleftrightarrow> (\<forall>i. bit y i \<longleftrightarrow> (\<exists>j < w. bit x (i + j)))"

lemma smeared_one: "smeared 1 x x"
  by (simp add: smeared_def)

lemma smeared_double:
  assumes "smeared w x y"
  shows "smeared (2 * w) x (y OR drop_bit w y)"
proof -
  have "(\<exists>j < 2 * w. bit x (i + j)) \<longleftrightarrow> (\<exists>j < w. bit x (i + j)) \<or> (\<exists>j < w. bit x (w + i + j))" for i
  proof
    assume "\<exists>j < 2 * w. bit x (i + j)"
    then obtain j where j: "j < 2 * w" "bit x (i + j)" by blast
    show "(\<exists>j < w. bit x (i + j)) \<or> (\<exists>j < w. bit x (w + i + j))"
    proof (cases "j < w")
      case True
      with j show ?thesis by blast
    next
      case False
      with j have "j - w < w" "w + i + (j - w) = i + j" by auto
      with j(2) show ?thesis by metis
    qed
  next
    assume "(\<exists>j < w. bit x (i + j)) \<or> (\<exists>j < w. bit x (w + i + j))"
    then show "\<exists>j < 2 * w. bit x (i + j)"
    proof
      assume "\<exists>j < w. bit x (w + i + j)"
      then obtain j where "j < w" "bit x (i + (w + j))" by (auto simp: ac_simps)
      then show ?thesis by (intro exI [of _ "w + j"]) simp
    next
      assume "\<exists>j < w. bit x (i + j)"
      then obtain j where "j < w" "bit x (i + j)" by blast
      then show ?thesis by (intro exI [of _ j]) simp
    qed
  qed
  with assms show ?thesis by (simp add: smeared_def bit_or_iff bit_drop_bit_eq ac_simps)
qed

text \<open>The six shifts of the code fill every bit below the highest one.\<close>

lemma round_up_smear:
  assumes "num \<noteq> 0"
  shows "\<exists>y. RoundUpToPowerOf2 num = y + 1 \<and> smeared 64 (num - 1) y"
proof -
  let ?x = "num - 1"
  have "smeared 2 ?x (?x OR drop_bit 1 ?x)" using smeared_double [OF smeared_one, of ?x] by simp
  from smeared_double [OF smeared_double [OF smeared_double [OF smeared_double [OF smeared_double [OF this]]]]]
  show ?thesis using assms by (auto simp: RoundUpToPowerOf2_def Let_def)
qed

lemma smeared_is_mask:
  assumes y: "smeared 64 x y" and k: "unat x < 2 ^ k" and tight: "k = 0 \<or> 2 ^ (k - 1) \<le> unat x" and "k \<le> 64"
  shows "y = mask k"
proof (rule bit_eqI)
  fix i assume "possible_bit TYPE(64 word) i"
  then have i: "i < 64" by (simp add: possible_bit_word)
  have nat_bit: "bit x j \<longleftrightarrow> odd (unat x div 2 ^ j)" if "j < 64" for j
    using that bit_unsigned_iff [of x j, where 'a = nat]
    by (simp add: possible_bit_word flip: bit_iff_odd)
  have high: "\<not> bit x j" if "k \<le> j" for j
  proof (cases "j < 64")
    case True
    have "unat x < 2 ^ j"
      using k that by (meson less_le_trans one_le_numeral power_increasing)
    with nat_bit [OF True] show ?thesis by simp
  next
    case False
    then show ?thesis using bit_imp_le_length [of x j] by auto
  qed
  show "bit y i \<longleftrightarrow> bit (mask k :: u64) i"
  proof (cases "i < k")
    case True
    then have lo: "2 ^ (k - 1) \<le> unat x" using tight by auto
    from True have "(2::nat) ^ k = 2 ^ (k - 1) * 2" by (cases k) auto
    with k lo have "unat x div 2 ^ (k - 1) = 1" by (intro div_nat_eqI) simp_all
    then have "bit x (k - 1)" using nat_bit [of "k - 1"] True \<open>k \<le> 64\<close> by simp
    moreover have "i + (k - 1 - i) = k - 1" and "k - 1 - i < 64" using True \<open>k \<le> 64\<close> by auto
    ultimately have "bit y i" using y unfolding smeared_def by metis
    with True i show ?thesis by (simp add: bit_mask_iff)
  next
    case False
    then have "\<not> bit y i" using y high by (auto simp: smeared_def)
    with False show ?thesis by (simp add: bit_mask_iff)
  qed
qed

lemma round_up_power:
  assumes "num \<noteq> 0"
  shows "\<exists>k \<le> 64. RoundUpToPowerOf2 num = 2 ^ k \<and> unat num \<le> 2 ^ k \<and> (k = 0 \<or> 2 ^ (k - 1) < unat num)"
proof -
  let ?x = "num - 1"
  have x: "unat ?x + 1 = unat num"
    using assms by (metis Suc_eq_plus1 Suc_pred' add_0 add_diff_cancel_right' unat_gt_0 unat_minus_one)
  define k where "k = (LEAST k. unat ?x < 2 ^ k)"
  have ex: "unat ?x < 2 ^ (64::nat)" using unsigned_less [of ?x] by simp
  have lt: "unat ?x < 2 ^ k" unfolding k_def using ex by (rule LeastI)
  have k64: "k \<le> 64" unfolding k_def using ex by (rule Least_le)
  have tight: "k = 0 \<or> 2 ^ (k - 1) \<le> unat ?x"
  proof (cases k)
    case (Suc j)
    then have "\<not> unat ?x < 2 ^ j" using not_less_Least [of j "\<lambda>k. unat ?x < 2 ^ k"] by (simp add: k_def)
    with Suc show ?thesis by simp
  qed simp
  from round_up_smear [OF assms] obtain y where
    y: "RoundUpToPowerOf2 num = y + 1" and sm: "smeared 64 ?x y" by blast
  have "y = mask k" by (rule smeared_is_mask [OF sm lt tight k64])
  with y have "RoundUpToPowerOf2 num = 2 ^ k" by (simp add: mask_eq_decr_exp)
  moreover have "unat num \<le> 2 ^ k" using lt x by simp
  moreover have "k = 0 \<or> 2 ^ (k - 1) < unat num" using tight x by linarith
  ultimately show ?thesis using k64 by blast
qed

text \<open>For every requested size from 1 to \<open>2^63\<close> the rounding returns the least power of
  two that is not below it.\<close>

theorem RoundUpToPowerOf2_least:
  assumes "0 < unat num" and "unat num \<le> 2 ^ 63"
  shows "\<exists>k \<le> 63. unat (RoundUpToPowerOf2 num) = 2 ^ k \<and> unat num \<le> 2 ^ k \<and>
    (\<forall>j. unat num \<le> 2 ^ j \<longrightarrow> k \<le> j)"
proof -
  have "num \<noteq> 0" using assms(1) by auto
  from round_up_power [OF this] obtain k where k: "RoundUpToPowerOf2 num = 2 ^ k"
    "unat num \<le> 2 ^ k" "k = 0 \<or> 2 ^ (k - 1) < unat num" by blast
  have least: "k \<le> j" if "unat num \<le> 2 ^ j" for j
  proof (rule ccontr)
    assume "\<not> k \<le> j"
    then have "2 ^ (k - 1) < unat num" and "(2::nat) ^ j \<le> 2 ^ (k - 1)"
      using k(3) by (auto intro: power_increasing)
    with that show False by simp
  qed
  then have k63: "k \<le> 63" using assms(2) by blast
  then have "unat (2 ^ k :: u64) = 2 ^ k" by (intro unat_two_power) simp
  with k(1,2) least k63 show ?thesis by auto
qed

theorem RoundUpToPowerOf2_least_witness:
  "\<exists>k \<le> 63. unat (RoundUpToPowerOf2 1000) = 2 ^ k \<and> 1000 \<le> (2 :: nat) ^ k"
  using RoundUpToPowerOf2_least [of 1000] by auto

text \<open>Beyond \<open>2^63\<close> the sum wraps to 0, and a request of 0 gives one slot.\<close>

lemma RoundUpToPowerOf2_overflow:
  assumes "2 ^ 63 < unat num"
  shows "RoundUpToPowerOf2 num = 0"
proof -
  have "num \<noteq> 0" using assms by auto
  from round_up_power [OF this] obtain k where k: "k \<le> 64" "RoundUpToPowerOf2 num = 2 ^ k"
    "unat num \<le> 2 ^ k" by blast
  have "k = 64"
  proof (rule ccontr)
    assume "k \<noteq> 64"
    with k(1) have "(2::nat) ^ k \<le> 2 ^ 63" by (intro power_increasing) simp_all
    with k(3) assms show False by simp
  qed
  with k(2) show ?thesis by simp
qed

lemma RoundUpToPowerOf2_zero: "RoundUpToPowerOf2 0 = 1"
  by (simp add: RoundUpToPowerOf2_def)

section \<open>Masked indices\<close>

text \<open>A ring of \<open>2 ^ k\<close> slots.\<close>

definition ring :: "nat \<Rightarrow> 'a LFQueue \<Rightarrow> bool" where
  "ring k q \<longleftrightarrow> k \<le> 63 \<and> q_mask q = mask k \<and> q_capacity q = 2 ^ k"

lemma new_queue_ring:
  assumes "0 < unat num" and "unat num \<le> 2 ^ 63"
  shows "\<exists>k. ring k (new_queue d num) \<and> unat num \<le> 2 ^ k"
proof -
  have "num \<noteq> 0" using assms(1) by auto
  from RoundUpToPowerOf2_least [OF assms] obtain k where
    k: "k \<le> 63" "unat (RoundUpToPowerOf2 num) = 2 ^ k" "unat num \<le> 2 ^ k" by blast
  then have "RoundUpToPowerOf2 num = 2 ^ k"
    using unat_two_power [of k, where 'a = 64] by (intro unat_inj) simp
  then show ?thesis using k by (auto simp: ring_def new_queue_def Let_def mask_eq_decr_exp)
qed

lemma masked_index:
  assumes "k \<le> 63"
  shows "unat (of_nat n AND mask k :: u64) = n mod 2 ^ k"
proof -
  have "(of_nat n AND mask k :: u64) = take_bit k (of_nat n)" by (simp add: take_bit_eq_mask)
  also have "unat \<dots> = take_bit k (take_bit 64 n)"
    by (simp add: unsigned_take_bit_eq unsigned_of_nat)
  also have "\<dots> = take_bit k n" using assms by (simp add: take_bit_take_bit min_def)
  finally show ?thesis by (simp add: take_bit_eq_mod)
qed

lemma masked_eq:
  assumes "k \<le> 63"
  shows "(of_nat m AND mask k :: u64) = of_nat n AND mask k \<longleftrightarrow> m mod 2 ^ k = n mod 2 ^ k"
  using masked_index [OF assms, of m] masked_index [OF assms, of n] by (metis unat_inj)

lemma of_nat_eq_close:
  assumes "m \<le> n" and "n - m < 2 ^ 64"
  shows "(of_nat m :: u64) = of_nat n \<longleftrightarrow> m = n"
proof
  assume "(of_nat m :: u64) = of_nat n"
  then have "m mod 2 ^ 64 = n mod 2 ^ 64"
    using unat_of_nat_mod [of m, where 'a = 64] unat_of_nat_mod [of n, where 'a = 64] by simp
  then have "(n - m) mod 2 ^ 64 = 0" using assms(1) by (metis mod_eq_dvd_iff_nat mod_eq_0_iff_dvd)
  then have "n - m = 0" using assms(2) by simp
  then show "m = n" using assms(1) by simp
qed simp

lemma mod_eq_close: "m \<le> n \<Longrightarrow> n < m + c \<Longrightarrow> m mod c = n mod c \<longleftrightarrow> m = (n :: nat)"
  by (metis add_diff_inverse_nat linorder_not_less mod_eq_dvd_iff_nat nat_dvd_not_less
      add_less_cancel_left zero_less_diff le_neq_implies_less mod_eq_self_iff_div_eq_0)

section \<open>The two threads\<close>

text \<open>
  Where each thread is in its protocol. The producer asks for a slot, writes it, publishes it;
  the consumer asks for a slot, reads it, releases it. \<open>received\<close> and \<open>sent\<close> are the values
  in the order of release and publication.
\<close>

datatype 'a producer_pc = P_Idle | P_Slot nat | P_Written 'a
datatype 'a consumer_pc = C_Idle | C_Slot nat | C_Read 'a

record 'a spsc =
  sq :: "'a LFQueue"
  sp :: "'a producer_pc"
  sc :: "'a consumer_pc"
  sent :: "'a list"
  received :: "'a list"

definition spsc_init :: "'a LFQueue \<Rightarrow> 'a spsc" where
  "spsc_init q = \<lparr>sq = q, sp = P_Idle, sc = C_Idle, sent = [], received = []\<rparr>"

inductive spsc_step :: "'a spsc \<Rightarrow> 'a spsc \<Rightarrow> bool" where
  p_get: "sp s = P_Idle \<Longrightarrow> TryGetNextToWriteTo (sq s) = (Some i, q') \<Longrightarrow>
    spsc_step s (s\<lparr>sq := q', sp := P_Slot i\<rparr>)"
| p_full: "sp s = P_Idle \<Longrightarrow> TryGetNextToWriteTo (sq s) = (None, q') \<Longrightarrow>
    spsc_step s (s\<lparr>sq := q'\<rparr>)"
| p_write: "sp s = P_Slot i \<Longrightarrow>
    spsc_step s (s\<lparr>sq := write_slot i x (sq s), sp := P_Written x\<rparr>)"
| p_publish: "sp s = P_Written x \<Longrightarrow>
    spsc_step s (s\<lparr>sq := UpdateWriteIndex (sq s), sp := P_Idle, sent := sent s @ [x]\<rparr>)"
| c_get: "sc s = C_Idle \<Longrightarrow> GetNextToRead (sq s) = (Some i, q') \<Longrightarrow>
    spsc_step s (s\<lparr>sq := q', sc := C_Slot i\<rparr>)"
| c_empty: "sc s = C_Idle \<Longrightarrow> GetNextToRead (sq s) = (None, q') \<Longrightarrow>
    spsc_step s (s\<lparr>sq := q'\<rparr>)"
| c_read: "sc s = C_Slot i \<Longrightarrow> spsc_step s (s\<lparr>sc := C_Read (q_store (sq s) i)\<rparr>)"
| c_release: "sc s = C_Read x \<Longrightarrow>
    spsc_step s (s\<lparr>sq := UpdateReadIndex (sq s), sc := C_Idle, received := received s @ [x]\<rparr>)"

inductive spsc_reach :: "'a LFQueue \<Rightarrow> 'a spsc \<Rightarrow> bool" for q where
  spsc_start: "spsc_reach q (spsc_init q)"
| spsc_next: "spsc_reach q s \<Longrightarrow> spsc_step s t \<Longrightarrow> spsc_reach q t"

text \<open>
  The invariant, over unbounded counters: \<open>W\<close> and \<open>R\<close> are the true indices, \<open>CR\<close> and \<open>CW\<close>
  the cached ones. The slot released last still holds its value: the ring always keeps one
  slot between the producer and the consumer.
\<close>

definition indices_ok :: "nat \<Rightarrow> 'a LFQueue \<Rightarrow> nat \<Rightarrow> nat \<Rightarrow> nat \<Rightarrow> nat \<Rightarrow> bool" where
  "indices_ok k q W R CR CW \<longleftrightarrow>
     ring k q \<and> next_write_index q = of_nat W \<and> next_read_index q = of_nat R \<and>
     cached_read_index q = of_nat CR \<and> cached_write_index q = of_nat CW \<and>
     CR \<le> R \<and> R \<le> CW \<and> CW \<le> W \<and> W < CR + 2 ^ k"

definition slots_ok :: "nat \<Rightarrow> 'a LFQueue \<Rightarrow> 'a list \<Rightarrow> nat \<Rightarrow> bool" where
  "slots_ok k q xs R \<longleftrightarrow>
     (\<forall>j. R \<le> j + 1 \<and> j < length xs \<longrightarrow> q_store q (j mod 2 ^ k) = xs ! j)"

definition producer_ok :: "nat \<Rightarrow> nat \<Rightarrow> 'a spsc \<Rightarrow> bool" where
  "producer_ok k CR s \<longleftrightarrow>
     (case sp s of
        P_Idle \<Rightarrow> True
      | P_Slot i \<Rightarrow> i = length (sent s) mod 2 ^ k \<and> length (sent s) + 1 < CR + 2 ^ k
      | P_Written x \<Rightarrow>
          q_store (sq s) (length (sent s) mod 2 ^ k) = x \<and> length (sent s) + 1 < CR + 2 ^ k)"

definition consumer_ok :: "nat \<Rightarrow> nat \<Rightarrow> 'a spsc \<Rightarrow> bool" where
  "consumer_ok k CW s \<longleftrightarrow>
     (case sc s of
        C_Idle \<Rightarrow> True
      | C_Slot i \<Rightarrow> i = length (received s) mod 2 ^ k \<and> length (received s) < CW
      | C_Read x \<Rightarrow> length (received s) < CW \<and> x = sent s ! length (received s))"

lemma producer_ok_cong:
  "sp t = sp s \<Longrightarrow> sent t = sent s \<Longrightarrow> q_store (sq t) = q_store (sq s) \<Longrightarrow>
    producer_ok k CR t = producer_ok k CR s"
  by (cases "sp s") (simp_all add: producer_ok_def)

lemma consumer_ok_cong:
  "sc t = sc s \<Longrightarrow> sent t = sent s \<Longrightarrow> received t = received s \<Longrightarrow>
    consumer_ok k CW t = consumer_ok k CW s"
  by (cases "sc s") (simp_all add: consumer_ok_def)

definition spsc_at :: "nat \<Rightarrow> nat \<Rightarrow> nat \<Rightarrow> 'a spsc \<Rightarrow> bool" where
  "spsc_at k CR CW s \<longleftrightarrow>
     indices_ok k (sq s) (length (sent s)) (length (received s)) CR CW \<and>
     slots_ok k (sq s) (sent s) (length (received s)) \<and>
     prefix (received s) (sent s) \<and> producer_ok k CR s \<and> consumer_ok k CW s"

definition spsc_inv :: "nat \<Rightarrow> 'a spsc \<Rightarrow> bool" where
  "spsc_inv k s \<longleftrightarrow> (\<exists>CR CW. spsc_at k CR CW s)"

lemma TryGet_indices:
  assumes ok: "indices_ok k q W R CR CW" and get: "TryGetNextToWriteTo q = (r, q')"
  obtains CR' where "indices_ok k q' W R CR' CW" "q_store q' = q_store q"
    "case r of Some i \<Rightarrow> i = W mod 2 ^ k \<and> W + 1 < CR' + 2 ^ k | None \<Rightarrow> W + 1 = R + 2 ^ k"
proof -
  from ok have k: "k \<le> 63" and m: "q_mask q = mask k" by (auto simp: indices_ok_def ring_def)
  have W1: "next_write_index q + 1 = of_nat (W + 1)" using ok by (simp add: indices_ok_def)
  have slot: "unat (next_write_index q AND q_mask q) = W mod 2 ^ k"
    using masked_index [OF k, of W] ok m by (simp add: indices_ok_def)
  have cmp: "(next_write_index q + 1) AND q_mask q = of_nat c AND q_mask q \<longleftrightarrow> W + 1 = c + 2 ^ k"
    if "c \<le> R" "W < c + 2 ^ k" for c
  proof -
    have "(next_write_index q + 1) AND q_mask q = of_nat c AND q_mask q \<longleftrightarrow>
        (W + 1) mod 2 ^ k = c mod 2 ^ k"
      unfolding W1 m by (rule masked_eq [OF k])
    also have "\<dots> \<longleftrightarrow> W + 1 = c + 2 ^ k"
    proof
      assume e: "(W + 1) mod 2 ^ k = c mod 2 ^ k"
      show "W + 1 = c + 2 ^ k"
      proof (rule ccontr)
        assume "W + 1 \<noteq> c + 2 ^ k"
        with that have "W + 1 < c + 2 ^ k" by simp
        moreover have "c \<le> W + 1" using that ok by (simp add: indices_ok_def)
        ultimately have "c = W + 1" using mod_eq_close [of c "W + 1" "2 ^ k"] e by simp
        with that ok show False by (simp add: indices_ok_def)
      qed
    qed simp
    finally show ?thesis .
  qed
  have cr: "cached_read_index q = of_nat CR" "CR \<le> R" "W < CR + 2 ^ k"
    and rd: "next_read_index q = of_nat R" using ok by (auto simp: indices_ok_def)
  have "W < R + 2 ^ k" using ok by (simp add: indices_ok_def)
  note cmpR = cmp [OF order_refl this] and cmpC = cmp [OF cr(2,3)]
  show ?thesis
  proof (cases "W + 1 = CR + 2 ^ k")
    case False
    then have "r = Some (W mod 2 ^ k)" "q' = q"
      using get cmpC slot by (auto simp: TryGetNextToWriteTo_def Let_def cr)
    with False ok show ?thesis by (intro that [of CR]) (auto simp: indices_ok_def)
  next
    case True
    let ?q = "q\<lparr>cached_read_index := next_read_index q\<rparr>"
    have q': "q' = ?q" and r: "r = (if W + 1 = R + 2 ^ k then None else Some (W mod 2 ^ k))"
      using get cmpC cmpR slot True by (auto simp: TryGetNextToWriteTo_def Let_def cr rd split: if_splits)
    have "indices_ok k ?q W R R CW" using ok by (auto simp: indices_ok_def ring_def)
    then show ?thesis using q' r ok by (intro that [of R]) (auto simp: indices_ok_def)
  qed
qed

lemma GetNext_indices:
  assumes ok: "indices_ok k q W R CR CW" and get: "GetNextToRead q = (r, q')"
  obtains CW' where "indices_ok k q' W R CR CW'" "q_store q' = q_store q"
    "case r of Some i \<Rightarrow> i = R mod 2 ^ k \<and> R < CW' | None \<Rightarrow> R = W"
proof -
  from ok have k: "k \<le> 63" and m: "q_mask q = mask k" by (auto simp: indices_ok_def ring_def)
  have two: "(2::nat) ^ k < 2 ^ 64" using k by (intro power_strict_increasing) simp_all
  have slot: "unat (next_read_index q AND q_mask q) = R mod 2 ^ k"
    using masked_index [OF k, of R] ok m by (simp add: indices_ok_def)
  have cmp: "next_read_index q = of_nat c \<longleftrightarrow> R = c" if "R \<le> c" "c \<le> W" for c
  proof -
    have "c - R < 2 ^ k" using that ok by (auto simp: indices_ok_def)
    with two have "c - R < 2 ^ 64" by linarith
    from of_nat_eq_close [OF that(1) this] ok show ?thesis by (simp add: indices_ok_def)
  qed
  have cw: "cached_write_index q = of_nat CW" "R \<le> CW" "CW \<le> W"
    and wr: "next_write_index q = of_nat W" "R \<le> W" using ok by (auto simp: indices_ok_def)
  note cmpW = cmp [OF wr(2) order_refl] and cmpC = cmp [OF cw(2,3)]
  show ?thesis
  proof (cases "R = CW")
    case False
    then have "r = Some (R mod 2 ^ k)" "q' = q"
      using get cmpC slot by (auto simp: GetNextToRead_def Let_def cw)
    with False ok show ?thesis by (intro that [of CW]) (auto simp: indices_ok_def)
  next
    case True
    let ?q = "q\<lparr>cached_write_index := next_write_index q\<rparr>"
    have q': "q' = ?q" and r: "r = (if R = W then None else Some (R mod 2 ^ k))"
      using get cmpC cmpW slot True by (auto simp: GetNextToRead_def Let_def cw wr split: if_splits)
    have "indices_ok k ?q W R CR W" using ok by (auto simp: indices_ok_def ring_def)
    then show ?thesis using q' r wr(2) by (intro that [of W]) auto
  qed
qed

lemma spsc_init_inv: "ring k q \<Longrightarrow> next_write_index q = 0 \<Longrightarrow> next_read_index q = 0 \<Longrightarrow>
    cached_read_index q = 0 \<Longrightarrow> cached_write_index q = 0 \<Longrightarrow> spsc_inv k (spsc_init q)"
  unfolding spsc_inv_def
  by (rule exI [of _ 0], rule exI [of _ 0])
     (simp add: spsc_at_def spsc_init_def indices_ok_def slots_ok_def producer_ok_def consumer_ok_def)

text \<open>A slot the producer may write holds neither an unread value nor the one released last.\<close>

lemma slots_ok_write:
  assumes "slots_ok k q xs R" and "length xs + 1 < CR + 2 ^ k" and "CR \<le> R" and "R \<le> length xs"
  shows "slots_ok k (write_slot (length xs mod 2 ^ k) x q) xs R"
proof -
  have "j mod 2 ^ k \<noteq> length xs mod 2 ^ k" if "R \<le> j + 1" "j < length xs" for j
    using mod_eq_close [of j "length xs" "2 ^ k"] that assms(2,3) by simp
  with assms(1) show ?thesis by (simp add: slots_ok_def write_slot_def)
qed

lemma slots_ok_publish:
  assumes "slots_ok k q xs R" and "q_store q (length xs mod 2 ^ k) = x"
  shows "slots_ok k (UpdateWriteIndex q) (xs @ [x]) R"
  using assms by (auto simp: slots_ok_def UpdateWriteIndex_def nth_append less_Suc_eq)

lemma slots_ok_read: "slots_ok k q xs R \<Longrightarrow> R < length xs \<Longrightarrow> q_store q (R mod 2 ^ k) = xs ! R"
  by (simp add: slots_ok_def)

lemma slots_ok_cong: "q_store q' = q_store q \<Longrightarrow> slots_ok k q' xs R = slots_ok k q xs R"
  by (simp add: slots_ok_def)

lemma slots_ok_release: "slots_ok k q xs R \<Longrightarrow> slots_ok k (UpdateReadIndex q) xs (Suc R)"
  by (simp add: slots_ok_def UpdateReadIndex_def)

lemma spsc_atI:
  assumes "spsc_at k CR CW s"
    and "indices_ok k (sq t) (length (sent t)) (length (received t)) CR' CW'"
    and "slots_ok k (sq t) (sent t) (length (received t))"
    and "prefix (received t) (sent t)" and "producer_ok k CR' t" and "consumer_ok k CW' t"
  shows "spsc_inv k t"
  using assms by (auto simp: spsc_inv_def spsc_at_def)

lemma spsc_atD:
  assumes "spsc_at k CR CW s"
  shows "indices_ok k (sq s) (length (sent s)) (length (received s)) CR CW"
    "slots_ok k (sq s) (sent s) (length (received s))"
    "prefix (received s) (sent s)" "producer_ok k CR s" "consumer_ok k CW s"
    "CR \<le> length (received s)" "length (received s) \<le> CW" "CW \<le> length (sent s)"
  using assms by (simp_all add: spsc_at_def indices_ok_def)

lemma p_get_inv:
  assumes at: "spsc_at k CR CW s" and "TryGetNextToWriteTo (sq s) = (r, q')"
    and pc: "pc = (case r of Some i \<Rightarrow> P_Slot i | None \<Rightarrow> P_Idle)"
  shows "spsc_inv k (s\<lparr>sq := q', sp := pc\<rparr>)" (is "spsc_inv k ?t")
proof -
  from TryGet_indices [OF spsc_atD(1) [OF at] assms(2)] obtain CR' where
    q': "indices_ok k q' (length (sent s)) (length (received s)) CR' CW" "q_store q' = q_store (sq s)"
    "case r of Some i \<Rightarrow> i = length (sent s) mod 2 ^ k \<and> length (sent s) + 1 < CR' + 2 ^ k
      | None \<Rightarrow> length (sent s) + 1 = length (received s) + 2 ^ k" by blast
  have "producer_ok k CR' ?t" using q'(3) pc by (cases r) (simp_all add: producer_ok_def)
  moreover have "consumer_ok k CW ?t" using spsc_atD(5) [OF at] consumer_ok_cong [of ?t s] by simp
  ultimately show ?thesis
    using q' spsc_atD(2,3) [OF at] slots_ok_cong [OF q'(2)] by (intro spsc_atI [OF at]) simp_all
qed

lemma p_write_inv:
  assumes at: "spsc_at k CR CW s" and pc: "sp s = P_Slot i"
  shows "spsc_inv k (s\<lparr>sq := write_slot i x (sq s), sp := P_Written x\<rparr>)" (is "spsc_inv k ?t")
proof -
  have i: "i = length (sent s) mod 2 ^ k" "length (sent s) + 1 < CR + 2 ^ k"
    using spsc_atD(4) [OF at] pc by (auto simp: producer_ok_def)
  have "slots_ok k (write_slot i x (sq s)) (sent s) (length (received s))"
    unfolding i(1) using spsc_atD [OF at] i(2) by (intro slots_ok_write [of _ _ _ _ CR]) auto
  moreover have "producer_ok k CR ?t" using i by (simp add: producer_ok_def write_slot_def)
  moreover have "consumer_ok k CW ?t" using spsc_atD(5) [OF at] consumer_ok_cong [of ?t s] by simp
  moreover have "indices_ok k (sq ?t) (length (sent ?t)) (length (received ?t)) CR CW"
    using spsc_atD(1) [OF at] by (simp add: indices_ok_def ring_def write_slot_def)
  ultimately show ?thesis using spsc_atD(3) [OF at] by (intro spsc_atI [OF at]) simp_all
qed

lemma p_publish_inv:
  assumes at: "spsc_at k CR CW s" and pc: "sp s = P_Written x"
  shows "spsc_inv k (s\<lparr>sq := UpdateWriteIndex (sq s), sp := P_Idle, sent := sent s @ [x]\<rparr>)"
    (is "spsc_inv k ?t")
proof -
  have w: "q_store (sq s) (length (sent s) mod 2 ^ k) = x" "length (sent s) + 1 < CR + 2 ^ k"
    using spsc_atD(4) [OF at] pc by (auto simp: producer_ok_def)
  have "slots_ok k (UpdateWriteIndex (sq s)) (sent s @ [x]) (length (received s))"
    using spsc_atD(2) [OF at] w by (intro slots_ok_publish)
  moreover have "producer_ok k CR ?t" by (simp add: producer_ok_def)
  moreover have "consumer_ok k CW ?t"
    using spsc_atD(5,7,8) [OF at] by (cases "sc s") (auto simp: consumer_ok_def nth_append)
  moreover have "indices_ok k (sq ?t) (length (sent ?t)) (length (received ?t)) CR CW"
    using spsc_atD(1) [OF at] w by (simp add: indices_ok_def ring_def UpdateWriteIndex_def)
  ultimately show ?thesis
    using spsc_atD(3) [OF at] by (intro spsc_atI [OF at]) (simp_all add: prefix_prefix)
qed

lemma c_get_inv:
  assumes at: "spsc_at k CR CW s" and "GetNextToRead (sq s) = (r, q')"
    and pc: "pc = (case r of Some i \<Rightarrow> C_Slot i | None \<Rightarrow> C_Idle)"
  shows "spsc_inv k (s\<lparr>sq := q', sc := pc\<rparr>)" (is "spsc_inv k ?t")
proof -
  from GetNext_indices [OF spsc_atD(1) [OF at] assms(2)] obtain CW' where
    q': "indices_ok k q' (length (sent s)) (length (received s)) CR CW'" "q_store q' = q_store (sq s)"
    "case r of Some i \<Rightarrow> i = length (received s) mod 2 ^ k \<and> length (received s) < CW'
      | None \<Rightarrow> length (received s) = length (sent s)" by blast
  have "consumer_ok k CW' ?t" using q'(3) pc by (cases r) (simp_all add: consumer_ok_def)
  moreover have "producer_ok k CR ?t"
    using spsc_atD(4) [OF at] q'(2) producer_ok_cong [of ?t s] by simp
  ultimately show ?thesis
    using q' spsc_atD(2,3) [OF at] slots_ok_cong [OF q'(2)] by (intro spsc_atI [OF at]) simp_all
qed

lemma received_prefix_nth: "prefix xs ys \<Longrightarrow> length xs < length ys \<Longrightarrow> prefix (xs @ [ys ! length xs]) ys"
  by (auto simp: prefix_def nth_append neq_Nil_conv)

lemma c_read_inv:
  assumes at: "spsc_at k CR CW s" and pc: "sc s = C_Slot i"
  shows "spsc_inv k (s\<lparr>sc := C_Read (q_store (sq s) i)\<rparr>)" (is "spsc_inv k ?t")
proof -
  have i: "i = length (received s) mod 2 ^ k" "length (received s) < CW"
    using spsc_atD(5) [OF at] pc by (auto simp: consumer_ok_def)
  have "q_store (sq s) i = sent s ! length (received s)"
    unfolding i(1) using spsc_atD(2,8) [OF at] i(2) by (intro slots_ok_read) auto
  then have "consumer_ok k CW ?t" using i(2) by (simp add: consumer_ok_def)
  moreover have "producer_ok k CR ?t" using spsc_atD(4) [OF at] producer_ok_cong [of ?t s] by simp
  ultimately show ?thesis using spsc_atD [OF at] by (intro spsc_atI [OF at]) simp_all
qed

lemma c_release_inv:
  assumes at: "spsc_at k CR CW s" and pc: "sc s = C_Read x"
  shows "spsc_inv k (s\<lparr>sq := UpdateReadIndex (sq s), sc := C_Idle, received := received s @ [x]\<rparr>)"
    (is "spsc_inv k ?t")
proof -
  have x: "length (received s) < CW" "x = sent s ! length (received s)"
    using spsc_atD(5) [OF at] pc by (auto simp: consumer_ok_def)
  have "prefix (received s @ [x]) (sent s)"
    unfolding x(2) using spsc_atD(3,8) [OF at] x(1) by (intro received_prefix_nth) auto
  moreover have "slots_ok k (UpdateReadIndex (sq s)) (sent s) (Suc (length (received s)))"
    using spsc_atD(2) [OF at] by (rule slots_ok_release)
  moreover have "consumer_ok k CW ?t" by (simp add: consumer_ok_def)
  moreover have "producer_ok k CR ?t"
    using spsc_atD(4) [OF at] producer_ok_cong [of ?t s] by (simp add: UpdateReadIndex_def)
  moreover have "indices_ok k (sq ?t) (length (sent ?t)) (length (received ?t)) CR CW"
    using spsc_atD(1) [OF at] x(1) by (simp add: indices_ok_def ring_def UpdateReadIndex_def)
  ultimately show ?thesis by (intro spsc_atI [OF at]) simp_all
qed

lemma spsc_step_inv: "spsc_step s t \<Longrightarrow> spsc_inv k s \<Longrightarrow> spsc_inv k t"
proof -
  assume step: "spsc_step s t" and "spsc_inv k s"
  then obtain CR CW where at: "spsc_at k CR CW s" by (auto simp: spsc_inv_def)
  from step show ?thesis
  proof cases
    case (p_get i q')
    then show ?thesis using p_get_inv [OF at, of "Some i" q' "P_Slot i"] by simp
  next
    case (p_full q')
    then have e: "s\<lparr>sq := q', sp := P_Idle\<rparr> = s\<lparr>sq := q'\<rparr>" by (cases s) simp
    show ?thesis using p_get_inv [OF at, of None q' P_Idle] p_full unfolding e by simp
  next
    case (p_write i x)
    then show ?thesis using p_write_inv [OF at, of i x] by simp
  next
    case (p_publish x)
    then show ?thesis using p_publish_inv [OF at, of x] by simp
  next
    case (c_get i q')
    then show ?thesis using c_get_inv [OF at, of "Some i" q' "C_Slot i"] by simp
  next
    case (c_empty q')
    then have e: "s\<lparr>sq := q', sc := C_Idle\<rparr> = s\<lparr>sq := q'\<rparr>" by (cases s) simp
    show ?thesis using c_get_inv [OF at, of None q' C_Idle] c_empty unfolding e by simp
  next
    case (c_read i)
    then show ?thesis using c_read_inv [OF at, of i] by simp
  next
    case (c_release x)
    then show ?thesis using c_release_inv [OF at, of x] by simp
  qed
qed

lemma new_queue_inv:
  assumes "0 < unat num" and "unat num \<le> 2 ^ 63"
  shows "\<exists>k. spsc_inv k (spsc_init (new_queue d num)) \<and> q_capacity (new_queue d num) = 2 ^ k"
proof -
  from new_queue_ring [OF assms, of d] obtain k where r: "ring k (new_queue d num)" by blast
  moreover from r have "q_capacity (new_queue d num) = 2 ^ k" by (simp add: ring_def)
  ultimately show ?thesis
    using spsc_init_inv [of k "new_queue d num"] by (auto simp: new_queue_def Let_def)
qed

lemma spsc_reach_inv: "spsc_reach q s \<Longrightarrow> spsc_inv k (spsc_init q) \<Longrightarrow> spsc_inv k s"
  by (induction rule: spsc_reach.induct) (auto intro: spsc_step_inv)

text \<open>C27: Under every interleaving of the two threads, also when the 64-bit indices wrap, the
  consumer receives exactly the values sent, in order, without loss or duplication, and never
  more than \<open>capacity - 1\<close> values are in flight.\<close>

theorem spsc_fifo:
  assumes "0 < unat num" and "unat num \<le> 2 ^ 63" and "spsc_reach (new_queue d num) s"
  shows "prefix (received s) (sent s) \<and>
    length (sent s) - length (received s) < q_capacity (new_queue d num)"
proof -
  from new_queue_inv [OF assms(1,2), of d] obtain k where
    k: "spsc_inv k (spsc_init (new_queue d num))" "q_capacity (new_queue d num) = 2 ^ k" by blast
  from spsc_reach_inv [OF assms(3) k(1)] obtain CR CW where "spsc_at k CR CW s"
    by (auto simp: spsc_inv_def)
  then show ?thesis unfolding k(2) by (auto simp: spsc_at_def indices_ok_def)
qed

lemma spsc_demo:
  "\<exists>s. spsc_reach (new_queue (0 :: nat) 2) s \<and> received s = [7] \<and> sent s = [7]"
proof -
  let ?q = "new_queue (0 :: nat) 2"
  let ?s1 = "spsc_init ?q\<lparr>sq := ?q, sp := P_Slot 0\<rparr>"
  let ?s2 = "?s1\<lparr>sq := write_slot 0 7 (sq ?s1), sp := P_Written 7\<rparr>"
  let ?s3 = "?s2\<lparr>sq := UpdateWriteIndex (sq ?s2), sp := P_Idle, sent := sent ?s2 @ [7]\<rparr>"
  let ?q4 = "snd (GetNextToRead (sq ?s3))"
  let ?s4 = "?s3\<lparr>sq := ?q4, sc := C_Slot 0\<rparr>"
  let ?s5 = "?s4\<lparr>sc := C_Read (q_store (sq ?s4) 0)\<rparr>"
  let ?s6 = "?s5\<lparr>sq := UpdateReadIndex (sq ?s5), sc := C_Idle, received := received ?s5 @ [7]\<rparr>"
  note defs = spsc_init_def new_queue_def RoundUpToPowerOf2_def TryGetNextToWriteTo_def
    GetNextToRead_def write_slot_def UpdateWriteIndex_def Let_def
  have "spsc_reach ?q ?s1"
    by (rule spsc_next [OF spsc_start], rule p_get) (simp_all add: defs)
  then have "spsc_reach ?q ?s2" by (rule spsc_next, intro p_write) simp
  then have "spsc_reach ?q ?s3" by (rule spsc_next, intro p_publish) simp
  then have "spsc_reach ?q ?s4" by (rule spsc_next, intro c_get) (simp_all add: defs)
  then have "spsc_reach ?q ?s5" by (rule spsc_next, intro c_read) simp
  then have "spsc_reach ?q ?s6" by (rule spsc_next, intro c_release) (simp add: defs)
  moreover have "received ?s6 = [7]" "sent ?s6 = [7]" by (simp_all add: spsc_init_def)
  ultimately show ?thesis by blast
qed

theorem spsc_fifo_witness:
  "\<exists>s. spsc_reach (new_queue (0 :: nat) 2) s \<and> received s = [7] \<and> prefix [7] (sent s)"
proof -
  obtain s where s: "spsc_reach (new_queue (0 :: nat) 2) s" "received s = [7]" "sent s = [7]"
    using spsc_demo by blast
  with spsc_fifo [of 2 0 s] show ?thesis by auto
qed

text \<open>C29: A value that was read and released stays in its slot until the next release, whatever
  the producer does: reading the slot again right after \<open>UpdateReadIndex\<close>, as
  \<open>MarketDataPublisher::run\<close> does, still yields the released value.\<close>

theorem released_slot_stable:
  assumes "0 < unat num" and "unat num \<le> 2 ^ 63" and "spsc_reach (new_queue d num) s"
    and "received s \<noteq> []"
  shows "q_store (sq s) ((length (received s) - 1) mod q_capacity (new_queue d num)) = last (received s)"
proof -
  from new_queue_inv [OF assms(1,2), of d] obtain k where
    k: "spsc_inv k (spsc_init (new_queue d num))" "q_capacity (new_queue d num) = 2 ^ k" by blast
  from spsc_reach_inv [OF assms(3) k(1)] obtain CR CW where at: "spsc_at k CR CW s"
    by (auto simp: spsc_inv_def)
  let ?r = "length (received s) - 1"
  from spsc_atD [OF at] obtain ys where le: "length (received s) \<le> length (sent s)"
    and ys: "sent s = received s @ ys" by (auto simp: prefix_def)
  have "last (received s) = received s ! ?r" using assms(4) by (rule last_conv_nth)
  also have "\<dots> = sent s ! ?r" using assms(4) by (simp add: ys nth_append)
  finally have "last (received s) = sent s ! ?r" .
  moreover have "length (received s) \<le> ?r + 1" "?r < length (sent s)"
    using assms(4) le by (cases "received s"; simp)+
  ultimately show ?thesis using at unfolding k(2) by (simp add: spsc_at_def slots_ok_def)
qed

theorem released_slot_stable_witness:
  "\<exists>s. spsc_reach (new_queue (0 :: nat) 2) s \<and> q_store (sq s) 0 = 7"
proof -
  obtain s where s: "spsc_reach (new_queue (0 :: nat) 2) s" "received s = [7]"
    using spsc_demo by blast
  with released_slot_stable [of 2 0 s] show ?thesis by auto
qed

section \<open>The queue contract\<close>

text \<open>
  What the components on either end rely on: a bounded first-in first-out channel. \<open>put\<close> has
  no result while the queue is full (\<open>GetNextToWriteTo\<close> spins), \<open>get\<close> none while it is empty.
\<close>

locale fifo_channel =
  fixes put :: "'a \<Rightarrow> 'q \<Rightarrow> 'q option"
    and get :: "'q \<Rightarrow> ('a \<times> 'q) option"
    and items :: "'q \<Rightarrow> 'a list"
    and room :: "'q \<Rightarrow> nat"
    and inv :: "'q \<Rightarrow> bool"
  assumes put_ok: "inv q \<Longrightarrow> length (items q) < room q \<Longrightarrow>
      \<exists>q'. put x q = Some q' \<and> inv q' \<and> items q' = items q @ [x] \<and> room q' = room q"
    and put_full: "inv q \<Longrightarrow> room q \<le> length (items q) \<Longrightarrow> put x q = None"
    and get_ok: "inv q \<Longrightarrow> items q = y # ys \<Longrightarrow>
      \<exists>q'. get q = Some (y, q') \<and> inv q' \<and> items q' = ys \<and> room q' = room q"
    and get_empty: "inv q \<Longrightarrow> items q = [] \<Longrightarrow> get q = None"
begin

lemma put_Some:
  assumes "inv q" and "put x q = Some q'"
  shows "inv q' \<and> items q' = items q @ [x] \<and> room q' = room q \<and> length (items q) < room q"
proof (cases "length (items q) < room q")
  case True
  with put_ok [OF assms(1) True, of x] assms(2) show ?thesis by auto
next
  case False
  with put_full [OF assms(1), of x] assms(2) show ?thesis by simp
qed

lemma get_Some:
  assumes "inv q" and "get q = Some (x, q')"
  shows "inv q' \<and> items q = x # items q' \<and> room q' = room q"
proof (cases "items q")
  case Nil
  with get_empty [OF assms(1)] assms(2) show ?thesis by simp
next
  case (Cons y ys)
  with get_ok [OF assms(1) Cons] assms(2) show ?thesis by auto
qed

text \<open>A batch that fits is delivered whole and in order, behind what is waiting already.\<close>

lemma put_then_get:
  assumes "inv q" and "items q = []" and "0 < room q"
  shows "\<exists>q1 q2. put x q = Some q1 \<and> get q1 = Some (x, q2) \<and> inv q2 \<and> items q2 = []"
proof -
  obtain q1 where q1: "put x q = Some q1" "inv q1" "items q1 = items q @ [x]"
    using put_ok [OF assms(1), of x] assms(2,3) by auto
  then have "items q1 = [x]" using assms(2) by simp
  with get_ok [OF q1(2) this] q1(1) show ?thesis by auto
qed

end

text \<open>One whole send and one whole receive on the ring, by a thread that owns that end.\<close>

definition enqueue :: "'a \<Rightarrow> 'a LFQueue \<Rightarrow> 'a LFQueue option" where
  "enqueue x q =
     (case TryGetNextToWriteTo q of
        (None, q') \<Rightarrow> None
      | (Some i, q') \<Rightarrow> Some (UpdateWriteIndex (write_slot i x q')))"

definition dequeue :: "'a LFQueue \<Rightarrow> ('a \<times> 'a LFQueue) option" where
  "dequeue q =
     (case GetNextToRead q of
        (None, q') \<Rightarrow> None
      | (Some i, q') \<Rightarrow> Some (q_store q' i, UpdateReadIndex q'))"

definition queue_wf :: "'a LFQueue \<Rightarrow> bool" where
  "queue_wf q \<longleftrightarrow> (\<exists>k W R CR CW. indices_ok k q W R CR CW)"

definition queue_items :: "'a LFQueue \<Rightarrow> 'a list" where
  "queue_items q =
     map (\<lambda>j. q_store q (unat ((next_read_index q + of_nat j) AND q_mask q)))
       [0..<unat (queue_size q q)]"

definition queue_room :: "'a LFQueue \<Rightarrow> nat" where
  "queue_room q = q_capacity q - 1"

lemma queue_items_eq:
  assumes ok: "indices_ok k q W R CR CW"
  shows "queue_items q = map (\<lambda>j. q_store q (j mod 2 ^ k)) [R..<W]"
proof -
  from ok have k: "k \<le> 63" and RW: "R \<le> W" "W - R < 2 ^ k" by (auto simp: indices_ok_def ring_def)
  have "(2::nat) ^ k \<le> 2 ^ 63" using k by (intro power_increasing) simp_all
  with RW have "W - R < 2 ^ 64" by simp
  then have size: "unat (queue_size q q) = W - R"
    using ok RW(1) unat_of_nat_small [of "W - R", where 'a = 64]
    by (simp add: queue_size_def indices_ok_def flip: of_nat_diff)
  have slot: "unat ((next_read_index q + of_nat j) AND q_mask q) = (R + j) mod 2 ^ k" for j
    using ok masked_index [OF k, of "R + j"] by (simp add: indices_ok_def ring_def)
  show ?thesis
    unfolding queue_items_def size slot
    by (rule nth_equalityI) (simp_all add: add.commute)
qed

lemma indices_ok_room: "indices_ok k q W R CR CW \<Longrightarrow> queue_room q = 2 ^ k - 1"
  by (simp add: indices_ok_def ring_def queue_room_def)

lemma queue_wfI: "indices_ok k q W R CR CW \<Longrightarrow> queue_wf q"
  unfolding queue_wf_def by blast

lemma enqueue_ok:
  assumes ok: "indices_ok k q W R CR CW"
  shows "case enqueue x q of
      None \<Rightarrow> W + 1 = R + 2 ^ k
    | Some q' \<Rightarrow> W + 1 < R + 2 ^ k \<and> queue_wf q' \<and> queue_items q' = queue_items q @ [x] \<and>
        queue_room q' = queue_room q"
proof -
  obtain r q1 where get: "TryGetNextToWriteTo q = (r, q1)" by (cases "TryGetNextToWriteTo q")
  from TryGet_indices [OF ok get] obtain CR' where ok1: "indices_ok k q1 W R CR' CW"
    and st: "q_store q1 = q_store q"
    and r: "case r of Some i \<Rightarrow> i = W mod 2 ^ k \<and> W + 1 < CR' + 2 ^ k | None \<Rightarrow> W + 1 = R + 2 ^ k"
    by blast
  show ?thesis
  proof (cases r)
    case None
    with get r show ?thesis by (simp add: enqueue_def)
  next
    case (Some i)
    let ?q' = "UpdateWriteIndex (write_slot (W mod 2 ^ k) x q1)"
    from r Some have i: "i = W mod 2 ^ k" "W + 1 < CR' + 2 ^ k" by auto
    have le: "CR' \<le> R" "R \<le> W" using ok1 by (auto simp: indices_ok_def)
    have ok': "indices_ok k ?q' (W + 1) R CR' CW"
      using ok1 i(2) by (simp add: indices_ok_def ring_def UpdateWriteIndex_def write_slot_def)
    have "j mod 2 ^ k \<noteq> W mod 2 ^ k" if "R \<le> j" "j < W" for j
      using mod_eq_close [of j W "2 ^ k"] that i(2) le by simp
    then have "queue_items ?q' = queue_items q @ [x]"
      unfolding queue_items_eq [OF ok'] queue_items_eq [OF ok]
      using le by (auto simp: UpdateWriteIndex_def write_slot_def st)
    moreover have "queue_room ?q' = queue_room q"
      using indices_ok_room [OF ok'] indices_ok_room [OF ok] by simp
    ultimately show ?thesis
      using get Some i le queue_wfI [OF ok'] by (simp add: enqueue_def)
  qed
qed

lemma dequeue_ok:
  assumes ok: "indices_ok k q W R CR CW"
  shows "case dequeue q of
      None \<Rightarrow> queue_items q = []
    | Some (x, q') \<Rightarrow> queue_wf q' \<and> queue_items q = x # queue_items q' \<and> queue_room q' = queue_room q"
proof -
  obtain r q1 where get: "GetNextToRead q = (r, q1)" by (cases "GetNextToRead q")
  from GetNext_indices [OF ok get] obtain CW' where ok1: "indices_ok k q1 W R CR CW'"
    and st: "q_store q1 = q_store q"
    and r: "case r of Some i \<Rightarrow> i = R mod 2 ^ k \<and> R < CW' | None \<Rightarrow> R = W"
    by blast
  show ?thesis
  proof (cases r)
    case None
    with get r show ?thesis by (simp add: dequeue_def queue_items_eq [OF ok])
  next
    case (Some i)
    let ?q' = "UpdateReadIndex q1"
    from r Some have i: "i = R mod 2 ^ k" "R < CW'" by auto
    have ok': "indices_ok k ?q' W (R + 1) CR CW'"
      using ok1 i(2) by (simp add: indices_ok_def ring_def UpdateReadIndex_def)
    have "R < W" using i(2) ok1 by (simp add: indices_ok_def)
    then have "queue_items q = q_store q1 i # queue_items ?q'"
      unfolding queue_items_eq [OF ok'] queue_items_eq [OF ok] i(1)
      by (simp add: st UpdateReadIndex_def upt_conv_Cons)
    moreover have "queue_room ?q' = queue_room q"
      using indices_ok_room [OF ok'] indices_ok_room [OF ok] by simp
    ultimately show ?thesis
      using get Some queue_wfI [OF ok'] by (simp add: dequeue_def)
  qed
qed

interpretation lf_queue: fifo_channel enqueue dequeue queue_items queue_room queue_wf
proof unfold_locales
  fix q :: "'a LFQueue" and x
  assume wf: "queue_wf q"
  then obtain k W R CR CW where ok: "indices_ok k q W R CR CW" by (auto simp: queue_wf_def)
  then have RW: "R \<le> W" "W < R + 2 ^ k" by (auto simp: indices_ok_def)
  have len: "length (queue_items q) = W - R" by (simp add: queue_items_eq [OF ok])
  note room = indices_ok_room [OF ok]
  { assume "length (queue_items q) < queue_room q"
    then have "W + 1 \<noteq> R + 2 ^ k" using len room RW by simp
    then show "\<exists>q'. enqueue x q = Some q' \<and> queue_wf q' \<and> queue_items q' = queue_items q @ [x] \<and>
        queue_room q' = queue_room q"
      using enqueue_ok [OF ok, of x] by (auto split: option.splits) }
  { assume "queue_room q \<le> length (queue_items q)"
    then have "\<not> W + 1 < R + 2 ^ k" using len room RW by simp
    then show "enqueue x q = None"
      using enqueue_ok [OF ok, of x] by (auto split: option.splits) }
  { fix y ys assume "queue_items q = y # ys"
    then show "\<exists>q'. dequeue q = Some (y, q') \<and> queue_wf q' \<and> queue_items q' = ys \<and>
        queue_room q' = queue_room q"
      using dequeue_ok [OF ok] by (auto split: option.splits prod.splits) }
  { assume "queue_items q = []"
    then show "dequeue q = None"
      using dequeue_ok [OF ok] by (auto split: option.splits prod.splits) }
qed

text \<open>A ring whose rounded size is 1 never accepts a value: \<open>capacity()\<close> reports one slot
  but \<open>TryGetNextToWriteTo\<close> always answers full, so \<open>GetNextToWriteTo\<close> spins for ever.\<close>

theorem one_slot_ring_never_accepts:
  assumes "num = 0 \<or> num = 1"
  shows "fst (TryGetNextToWriteTo (new_queue d num)) = None \<and> q_capacity (new_queue d num) = 1"
  using assms
  by (auto simp: TryGetNextToWriteTo_def new_queue_def RoundUpToPowerOf2_def Let_def)

theorem one_slot_ring_never_accepts_witness:
  "fst (TryGetNextToWriteTo (new_queue (5 :: nat) 1)) = None"
  using one_slot_ring_never_accepts [of 1 "5 :: nat"] by simp

end
