(* ===== verification/Wire.thy ===== *)
theory Wire
  imports Messages
begin

text \<open>
  The wire format: every message is a packed structure (\<open>#pragma pack(push, 1)\<close>) copied byte by
  byte between a socket buffer and the structure, on a little-endian machine. This theory gives
  the byte layout of the three messages that cross a socket, with the layout of the structures
  inside them, and the splitting of a receive buffer into whole messages that every receive
  callback starts with. The locale \<open>codec\<close> states what the receivers need of a layout.
\<close>

section \<open>Little-endian integers\<close>

fun le_bytes :: "nat \<Rightarrow> nat \<Rightarrow> u8 list" where
  "le_bytes 0 x = []"
| "le_bytes (Suc n) x = of_nat (x mod 256) # le_bytes n (x div 256)"

fun le_value :: "u8 list \<Rightarrow> nat" where
  "le_value [] = 0"
| "le_value (b # bs) = unat b + 256 * le_value bs"

lemma length_le_bytes [simp]: "length (le_bytes n x) = n"
  by (induction n arbitrary: x) auto

lemma le_value_bytes: "le_value (le_bytes n x) = x mod 256 ^ n"
proof (induction n arbitrary: x)
  case (Suc n)
  have "unat (of_nat (x mod 256) :: u8) = x mod 256" by (simp add: unat_of_nat_mod)
  moreover have "x mod (256 * 256 ^ n) = x mod 256 + 256 * (x div 256 mod 256 ^ n)"
    by (simp add: mod_mult2_eq)
  ultimately show ?case using Suc by simp
qed simp

definition put_word :: "nat \<Rightarrow> 'a::len word \<Rightarrow> u8 list" where
  "put_word n w = le_bytes n (unat w)"

definition get_word :: "u8 list \<Rightarrow> 'a::len word" where
  "get_word bs = of_nat (le_value bs)"

definition put_i64 :: "int \<Rightarrow> u8 list" where
  "put_i64 i = le_bytes 8 (nat (i mod 2 ^ 64))"

definition get_i64 :: "u8 list \<Rightarrow> int" where
  "get_i64 bs = swrap 64 (int (le_value bs))"

definition fits_i64 :: "int \<Rightarrow> bool" where
  "fits_i64 i \<longleftrightarrow> - (2 ^ 63) \<le> i \<and> i < 2 ^ 63"

lemma length_put [simp]: "length (put_word n w) = n" "length (put_i64 i) = 8"
  by (simp_all add: put_word_def put_i64_def)

lemma get_put_word: "LENGTH('a) \<le> 8 * n \<Longrightarrow> get_word (put_word n w) = (w :: 'a::len word)"
proof -
  assume "LENGTH('a) \<le> 8 * n"
  then have "(2::nat) ^ LENGTH('a) \<le> 2 ^ (8 * n)" by (intro power_increasing) simp_all
  also have "\<dots> = 256 ^ n" by (simp add: power_mult)
  finally have "unat w < 256 ^ n" using unsigned_less [of w] by (rule less_le_trans [rotated])
  then show ?thesis by (simp add: get_word_def put_word_def le_value_bytes)
qed

lemma get_put_u32 [simp]: "get_word (put_word 4 w) = (w :: u32)"
  and get_put_u64 [simp]: "get_word (put_word 8 v) = (v :: u64)"
  by (simp_all add: get_put_word)

lemma get_put_i64: "fits_i64 i \<Longrightarrow> get_i64 (put_i64 i) = i"
proof -
  assume f: "fits_i64 i"
  have "int (nat (i mod 2 ^ 64) mod 256 ^ 8) = i mod 2 ^ 64"
  proof -
    have "0 \<le> i mod 2 ^ 64" "i mod 2 ^ 64 < 2 ^ 64" by simp_all
    then have "nat (i mod 2 ^ 64) < 256 ^ 8" by simp
    then show ?thesis by simp
  qed
  then have "get_i64 (put_i64 i) = (i mod 2 ^ 64 + 2 ^ 63) mod 2 ^ 64 - 2 ^ 63"
    by (simp add: get_i64_def put_i64_def le_value_bytes swrap_def del: One_nat_def)
  also have "\<dots> = (i + 2 ^ 63) mod 2 ^ 64 - 2 ^ 63" by (simp only: mod_add_left_eq)
  also have "\<dots> = i" using f by (simp add: fits_i64_def)
  finally show ?thesis .
qed

section \<open>Enumeration bytes\<close>

definition req_type_byte :: "ClientRequestType \<Rightarrow> u8" where
  "req_type_byte t = (case t of REQ_INVAILD \<Rightarrow> 0 | REQ_NEW \<Rightarrow> 1 | REQ_CANCELED \<Rightarrow> 2 | REQ_Other b \<Rightarrow> b)"

definition byte_req_type :: "u8 \<Rightarrow> ClientRequestType" where
  "byte_req_type b = (if b = 0 then REQ_INVAILD else if b = 1 then REQ_NEW
     else if b = 2 then REQ_CANCELED else REQ_Other b)"

definition resp_type_byte :: "ClientResponseType \<Rightarrow> u8" where
  "resp_type_byte t = (case t of RESP_INVALID \<Rightarrow> 0 | RESP_ACCEPTED \<Rightarrow> 1 | RESP_CANCELED \<Rightarrow> 2
     | RESP_FILLED \<Rightarrow> 3 | RESP_CANCEL_REJECTED \<Rightarrow> 4 | RESP_Other b \<Rightarrow> b)"

definition byte_resp_type :: "u8 \<Rightarrow> ClientResponseType" where
  "byte_resp_type b = (if b = 0 then RESP_INVALID else if b = 1 then RESP_ACCEPTED
     else if b = 2 then RESP_CANCELED else if b = 3 then RESP_FILLED
     else if b = 4 then RESP_CANCEL_REJECTED else RESP_Other b)"

definition mu_type_byte :: "MarketUpdateType \<Rightarrow> u8" where
  "mu_type_byte t = (case t of MU_INVALID \<Rightarrow> 0 | MU_CLEAR \<Rightarrow> 1 | MU_ADD \<Rightarrow> 2 | MU_MODIFY \<Rightarrow> 3
     | MU_CANCEL \<Rightarrow> 4 | MU_TRADE \<Rightarrow> 5 | MU_SNAPSHOT_START \<Rightarrow> 6 | MU_SNAPSHOT_END \<Rightarrow> 7 | MU_Other b \<Rightarrow> b)"

definition byte_mu_type :: "u8 \<Rightarrow> MarketUpdateType" where
  "byte_mu_type b = (if b = 0 then MU_INVALID else if b = 1 then MU_CLEAR else if b = 2 then MU_ADD
     else if b = 3 then MU_MODIFY else if b = 4 then MU_CANCEL else if b = 5 then MU_TRADE
     else if b = 6 then MU_SNAPSHOT_START else if b = 7 then MU_SNAPSHOT_END else MU_Other b)"

text \<open>Values that a byte can encode: an unnamed byte is not the byte of a name.\<close>

definition wf_req_type :: "ClientRequestType \<Rightarrow> bool" where
  "wf_req_type t \<longleftrightarrow> byte_req_type (req_type_byte t) = t"
definition wf_resp_type :: "ClientResponseType \<Rightarrow> bool" where
  "wf_resp_type t \<longleftrightarrow> byte_resp_type (resp_type_byte t) = t"
definition wf_mu_type :: "MarketUpdateType \<Rightarrow> bool" where
  "wf_mu_type t \<longleftrightarrow> byte_mu_type (mu_type_byte t) = t"

lemma wf_types [simp]:
  "wf_req_type REQ_NEW" "wf_req_type REQ_CANCELED" "wf_req_type REQ_INVAILD"
  "wf_resp_type RESP_ACCEPTED" "wf_resp_type RESP_CANCELED" "wf_resp_type RESP_FILLED"
  "wf_resp_type RESP_CANCEL_REJECTED" "wf_resp_type RESP_INVALID"
  "wf_mu_type MU_CLEAR" "wf_mu_type MU_ADD" "wf_mu_type MU_MODIFY" "wf_mu_type MU_CANCEL"
  "wf_mu_type MU_TRADE" "wf_mu_type MU_SNAPSHOT_START" "wf_mu_type MU_SNAPSHOT_END" "wf_mu_type MU_INVALID"
  by (simp_all add: wf_req_type_def wf_resp_type_def wf_mu_type_def req_type_byte_def byte_req_type_def
      resp_type_byte_def byte_resp_type_def mu_type_byte_def byte_mu_type_def)

section \<open>Layout of the messages\<close>

text \<open>The bytes of the field at an offset.\<close>

definition field :: "nat \<Rightarrow> nat \<Rightarrow> u8 list \<Rightarrow> u8 list" where
  "field off n bs = take n (drop off bs)"

definition request_bytes :: "MatchingEngineClientRequest \<Rightarrow> u8 list" where
  "request_bytes r = [req_type_byte (req_type r)] @ put_word 4 (req_client_id r) @
     put_word 4 (req_symbol_id r) @ put_word 8 (req_order_id r) @ [side_byte (req_side r)] @
     put_i64 (req_price r) @ put_word 4 (req_quantity r)"

definition request_of :: "u8 list \<Rightarrow> MatchingEngineClientRequest" where
  "request_of bs = \<lparr>req_type = byte_req_type (bs ! 0), req_client_id = get_word (field 1 4 bs),
     req_symbol_id = get_word (field 5 4 bs), req_order_id = get_word (field 9 8 bs),
     req_side = byte_side (bs ! 17), req_price = get_i64 (field 18 8 bs),
     req_quantity = get_word (field 26 4 bs)\<rparr>"

definition om_request_bytes :: "OrderManagerClientRequest \<Rightarrow> u8 list" where
  "om_request_bytes m = put_word 8 (omreq_seqNum m) @ request_bytes (omreq_request m)"

definition om_request_of :: "u8 list \<Rightarrow> OrderManagerClientRequest" where
  "om_request_of bs = \<lparr>omreq_seqNum = get_word (field 0 8 bs), omreq_request = request_of (drop 8 bs)\<rparr>"

definition response_bytes :: "MatchingEngineClientResponse \<Rightarrow> u8 list" where
  "response_bytes r = [resp_type_byte (resp_type r)] @ put_word 4 (resp_client_id r) @
     put_word 4 (resp_symbol_id r) @ put_word 8 (resp_client_order_id r) @
     put_word 8 (resp_market_order_id r) @ [side_byte (resp_side r)] @ put_i64 (resp_price r) @
     put_word 4 (resp_executed_quantity r) @ put_word 4 (resp_remaining_quantity r)"

definition response_of :: "u8 list \<Rightarrow> MatchingEngineClientResponse" where
  "response_of bs = \<lparr>resp_type = byte_resp_type (bs ! 0), resp_client_id = get_word (field 1 4 bs),
     resp_symbol_id = get_word (field 5 4 bs), resp_client_order_id = get_word (field 9 8 bs),
     resp_market_order_id = get_word (field 17 8 bs), resp_side = byte_side (bs ! 25),
     resp_price = get_i64 (field 26 8 bs), resp_executed_quantity = get_word (field 34 4 bs),
     resp_remaining_quantity = get_word (field 38 4 bs)\<rparr>"

definition om_response_bytes :: "OrderManagerClientResponse \<Rightarrow> u8 list" where
  "om_response_bytes m = put_word 8 (omresp_seqNum m) @ response_bytes (omresp_response m)"

definition om_response_of :: "u8 list \<Rightarrow> OrderManagerClientResponse" where
  "om_response_of bs = \<lparr>omresp_seqNum = get_word (field 0 8 bs), omresp_response = response_of (drop 8 bs)\<rparr>"

definition update_bytes :: "MatchingEngineMarketUpdate \<Rightarrow> u8 list" where
  "update_bytes u = [mu_type_byte (mu_type u)] @ put_word 4 (mu_symbol_id u) @ put_word 8 (mu_order_id u) @
     [side_byte (mu_side u)] @ put_i64 (mu_price u) @ put_word 4 (mu_quantity u) @ put_word 8 (mu_priority u)"

definition update_of :: "u8 list \<Rightarrow> MatchingEngineMarketUpdate" where
  "update_of bs = \<lparr>mu_type = byte_mu_type (bs ! 0), mu_symbol_id = get_word (field 1 4 bs),
     mu_order_id = get_word (field 5 8 bs), mu_side = byte_side (bs ! 13),
     mu_price = get_i64 (field 14 8 bs), mu_quantity = get_word (field 22 4 bs),
     mu_priority = get_word (field 26 8 bs)\<rparr>"

definition mdp_bytes :: "MarketDataPublisherMarketUpdate \<Rightarrow> u8 list" where
  "mdp_bytes m = put_i64 (mdp_seq_num m) @ update_bytes (mdp_update m)"

definition mdp_of :: "u8 list \<Rightarrow> MarketDataPublisherMarketUpdate" where
  "mdp_of bs = \<lparr>mdp_seq_num = get_i64 (field 0 8 bs), mdp_update = update_of (drop 8 bs)\<rparr>"

text \<open>The sizes \<open>sizeof\<close> yields.\<close>

definition request_size :: nat where "request_size = 38"
definition response_size :: nat where "response_size = 50"
definition update_size :: nat where "update_size = 42"

definition wf_request :: "MatchingEngineClientRequest \<Rightarrow> bool" where
  "wf_request r \<longleftrightarrow> wf_req_type (req_type r) \<and> wf_side (req_side r) \<and> fits_i64 (req_price r)"
definition wf_response :: "MatchingEngineClientResponse \<Rightarrow> bool" where
  "wf_response r \<longleftrightarrow> wf_resp_type (resp_type r) \<and> wf_side (resp_side r) \<and> fits_i64 (resp_price r)"
definition wf_update :: "MatchingEngineMarketUpdate \<Rightarrow> bool" where
  "wf_update u \<longleftrightarrow> wf_mu_type (mu_type u) \<and> wf_side (mu_side u) \<and> fits_i64 (mu_price u)"

lemma message_lengths [simp]:
  "length (request_bytes r) = 30" "length (om_request_bytes q) = 38" "length (response_bytes s) = 42"
  "length (om_response_bytes p) = 50" "length (update_bytes u) = 34" "length (mdp_bytes m) = 42"
  by (simp_all add: request_bytes_def om_request_bytes_def response_bytes_def om_response_bytes_def
      update_bytes_def mdp_bytes_def)

lemma request_of_bytes: "wf_request r \<Longrightarrow> request_of (request_bytes r) = r"
  by (simp add: request_of_def request_bytes_def field_def wf_request_def wf_req_type_def
      side_byte_inverse get_put_i64 nth_append)

lemma response_of_bytes: "wf_response r \<Longrightarrow> response_of (response_bytes r) = r"
  by (simp add: response_of_def response_bytes_def field_def wf_response_def wf_resp_type_def
      side_byte_inverse get_put_i64 nth_append)

lemma update_of_bytes: "wf_update u \<Longrightarrow> update_of (update_bytes u) = u"
  by (simp add: update_of_def update_bytes_def field_def wf_update_def wf_mu_type_def
      side_byte_inverse get_put_i64 nth_append)

lemma om_request_of_bytes: "wf_request (omreq_request m) \<Longrightarrow> om_request_of (om_request_bytes m) = m"
  by (simp add: om_request_of_def om_request_bytes_def field_def request_of_bytes)

lemma om_response_of_bytes: "wf_response (omresp_response m) \<Longrightarrow> om_response_of (om_response_bytes m) = m"
  by (simp add: om_response_of_def om_response_bytes_def field_def response_of_bytes)

definition wf_mdp :: "MarketDataPublisherMarketUpdate \<Rightarrow> bool" where
  "wf_mdp m \<longleftrightarrow> wf_update (mdp_update m) \<and> fits_i64 (mdp_seq_num m)"

lemma mdp_of_bytes: "wf_mdp m \<Longrightarrow> mdp_of (mdp_bytes m) = m"
  by (simp add: mdp_of_def mdp_bytes_def field_def update_of_bytes get_put_i64 wf_mdp_def)

section \<open>Splitting a receive buffer into messages\<close>

text \<open>
  The loop \<open>for (; i + sizeof(M) <= next_recv_valid_index_; i += sizeof(M))\<close> visits the whole
  messages of the buffer; the bytes after the last one are moved to the front afterwards.
\<close>

function frames :: "nat \<Rightarrow> u8 list \<Rightarrow> u8 list list \<times> u8 list" where
  "frames n buf = (if n = 0 \<or> length buf < n then ([], buf)
     else let (fs, rest) = frames n (drop n buf) in (take n buf # fs, rest))"
  by pat_completeness auto

termination by (relation "measure (\<lambda>(n, buf). length buf)") auto

declare frames.simps [simp del]

lemma frames_short: "length buf < n \<Longrightarrow> frames n buf = ([], buf)"
  by (simp add: frames.simps)

lemma frames_step: "0 < n \<Longrightarrow> length f = n \<Longrightarrow>
    frames n (f @ buf) = (f # fst (frames n buf), snd (frames n buf))"
  by (subst frames.simps) (simp add: split_def Let_def)

lemma frames_append: "0 < n \<Longrightarrow>
    frames n (a @ b) = (fst (frames n a) @ fst (frames n (snd (frames n a) @ b)), snd (frames n (snd (frames n a) @ b)))"
proof (induction n a rule: frames.induct)
  case (1 n a)
  show ?case
  proof (cases "length a < n")
    case True
    then show ?thesis by (simp add: frames_short)
  next
    case False
    then have a: "a = take n a @ drop n a" "length (take n a) = n" by simp_all
    have "frames n (a @ b) = frames n (take n a @ (drop n a @ b))" using a(1) by (metis append.assoc)
    also have "\<dots> = (take n a # fst (frames n (drop n a @ b)), snd (frames n (drop n a @ b)))"
      using frames_step [OF 1(2) a(2)] .
    finally have l: "frames n (a @ b) = \<dots>" .
    have r: "frames n a = (take n a # fst (frames n (drop n a)), snd (frames n (drop n a)))"
      using frames_step [OF 1(2) a(2), of "drop n a"] a(1) by simp
    show ?thesis using 1(1) [OF _ 1(2)] False 1(2) l r by simp
  qed
qed

lemma frames_rest_short: "0 < n \<Longrightarrow> length (snd (frames n buf)) < n"
proof (induction n buf rule: frames.induct)
  case (1 n buf)
  then show ?case by (subst frames.simps) (auto simp: split_def Let_def)
qed

locale codec =
  fixes enc :: "'m \<Rightarrow> u8 list" and dec :: "u8 list \<Rightarrow> 'm" and size :: nat and ok :: "'m \<Rightarrow> bool"
  assumes size_pos: "0 < size"
    and enc_length: "length (enc m) = size"
    and dec_enc: "ok m \<Longrightarrow> dec (enc m) = m"
begin

text \<open>A buffer that holds whole messages and the start of another one.\<close>

lemma frames_stream:
  "length rest < size \<Longrightarrow> frames size (concat (map enc ms) @ rest) = (map enc ms, rest)"
  by (induction ms) (simp_all add: frames_short frames_step size_pos enc_length)

lemma decode_stream:
  assumes "list_all ok ms" and "length rest < size"
  shows "map dec (fst (frames size (concat (map enc ms) @ rest))) = ms"
  using assms(1) unfolding frames_stream [OF assms(2)] by (induction ms) (simp_all add: dec_enc)

text \<open>A receiver that handles each message with \<open>body\<close> and keeps the rest of the buffer.\<close>

definition receive :: "('m \<Rightarrow> 's \<Rightarrow> 's) \<Rightarrow> u8 list \<Rightarrow> u8 list \<times> 's \<Rightarrow> u8 list \<times> 's" where
  "receive body chunk st = (let (fs, rest) = frames size (fst st @ chunk)
     in (rest, fold body (map dec fs) (snd st)))"

lemma receive_append: "receive body (a @ b) st = receive body b (receive body a st)"
  using frames_append [OF size_pos, of "fst st @ a" b] by (simp add: receive_def split_def Let_def)

lemma receive_chunks:
  "chunks \<noteq> [] \<or> length (fst st) < size \<Longrightarrow> fold (receive body) chunks st = receive body (concat chunks) st"
proof (induction chunks arbitrary: st)
  case Nil
  then show ?case by (simp add: receive_def frames_short)
next
  case (Cons c cs)
  have "length (fst (receive body c st)) < size"
    by (simp add: receive_def split_def Let_def frames_rest_short size_pos)
  then show ?case using Cons.IH [of "receive body c st"] by (simp add: receive_append)
qed

end

interpretation om_request: codec om_request_bytes om_request_of request_size "\<lambda>m. wf_request (omreq_request m)"
  by unfold_locales (simp_all add: request_size_def om_request_of_bytes)

interpretation om_response: codec om_response_bytes om_response_of response_size "\<lambda>m. wf_response (omresp_response m)"
  by unfold_locales (simp_all add: response_size_def om_response_of_bytes)

interpretation mdp: codec mdp_bytes mdp_of update_size wf_mdp
  by unfold_locales (simp_all add: update_size_def mdp_of_bytes)

end
