(* ===== verification/Sockets.thy ===== *)
theory Sockets
  imports Wire
begin

text \<open>
  The buffers of \<open>common::TCPSocket\<close> and \<open>common::McastSocket\<close>. A buffer and its valid index are
  the list of the valid bytes. What the kernel does is an argument: the bytes a read delivers, and
  how many bytes a write takes. The receive callback runs on the socket and on the state of the
  component that registered it.
\<close>

definition TCPBufferSize :: nat where "TCPBufferSize = 64 * 1024 * 1024"
definition McastBufferSize :: nat where "McastBufferSize = 64 * 1024 * 1024"

record Socket =
  outbound :: "u8 list"
  inbound :: "u8 list"

definition new_socket :: Socket where "new_socket = \<lparr>outbound = [], inbound = []\<rparr>"

text \<open>\<open>memcpy\<close> into the send buffer, which has no bound of its own for TCP.\<close>

definition tcp_send :: "u8 list \<Rightarrow> Socket \<Rightarrow> Socket result" where
  "tcp_send data s = (if TCPBufferSize < length (outbound s) + length data then Inl Bad_Access
     else Inr (s\<lparr>outbound := outbound s @ data\<rparr>))"

definition mcast_send :: "u8 list \<Rightarrow> Socket \<Rightarrow> Socket result" where
  "mcast_send data s = (if McastBufferSize < length (outbound s) + length data then Inl Bad_Access
     else bindE (ASSERT (length (outbound s) + length data < McastBufferSize)
         ''Mcast socket buffer filled up and sendAndRecv() not called.'')
       (\<lambda>_. Inr (s\<lparr>outbound := outbound s @ data\<rparr>)))"

text \<open>
  \<open>sendAndRecv\<close>: read what is available and call back, then hand the send buffer to the kernel
  once. \<open>taken\<close> is the number of bytes the kernel accepts (0 for an error). The send index is
  reset whatever the kernel accepted. Result: whether something was read, the bytes that left,
  the socket and the component.
\<close>

definition socket_io :: "nat \<Rightarrow> (Socket \<Rightarrow> 's \<Rightarrow> (Socket \<times> 's) result) \<Rightarrow> u8 list \<Rightarrow> nat \<Rightarrow> Socket \<Rightarrow> 's \<Rightarrow>
    (bool \<times> u8 list \<times> Socket \<times> 's) result" where
  "socket_io bound recv_callback available taken s st =
     (let data = take (bound - length (inbound s)) available;
          s1 = s\<lparr>inbound := inbound s @ data\<rparr> in
      bindE (if data \<noteq> [] then recv_callback s1 st else Inr (s1, st))
        (\<lambda>(s2, st'). Inr (data \<noteq> [], take taken (outbound s2), s2\<lparr>outbound := []\<rparr>, st')))"

definition tcp_sendAndRecv :: "(Socket \<Rightarrow> 's \<Rightarrow> (Socket \<times> 's) result) \<Rightarrow> u8 list \<Rightarrow> nat \<Rightarrow> Socket \<Rightarrow> 's \<Rightarrow>
    (bool \<times> u8 list \<times> Socket \<times> 's) result" where
  "tcp_sendAndRecv = socket_io TCPBufferSize"

definition mcast_sendAndRecv :: "(Socket \<Rightarrow> 's \<Rightarrow> (Socket \<times> 's) result) \<Rightarrow> u8 list \<Rightarrow> nat \<Rightarrow> Socket \<Rightarrow> 's \<Rightarrow>
    (bool \<times> u8 list \<times> Socket \<times> 's) result" where
  "mcast_sendAndRecv = socket_io McastBufferSize"

section \<open>What reaches the peer\<close>

text \<open>
  The bytes that leave a TCP socket with no incoming data over a series of rounds: in each, the
  component appends \<open>data\<close> and calls \<open>sendAndRecv\<close>, and the kernel takes at most \<open>taken\<close> bytes.
\<close>

fun tcp_rounds :: "(u8 list \<times> nat) list \<Rightarrow> Socket \<Rightarrow> u8 list result" where
  "tcp_rounds [] s = Inr []"
| "tcp_rounds ((data, taken) # rounds) s = bindE (tcp_send data s) (\<lambda>s1.
     bindE (tcp_sendAndRecv (\<lambda>s st. Inr (s, st)) [] taken s1 ()) (\<lambda>(_, sent, s2, _).
       bindE (tcp_rounds rounds s2) (\<lambda>more. Inr (sent @ more))))"

lemma tcp_rounds_sent:
  assumes "outbound s = []" and "\<forall>(data, taken) \<in> set rounds. length data \<le> TCPBufferSize"
  shows "tcp_rounds rounds s = Inr (concat (map (\<lambda>(data, taken). take taken data) rounds))"
  using assms
proof (induction rounds arbitrary: s)
  case (Cons r rounds)
  obtain data taken where r: "r = (data, taken)" by (cases r)
  have len: "length data \<le> TCPBufferSize" using Cons.prems(2) r by simp
  let ?s1 = "s\<lparr>outbound := data\<rparr>"
  have send: "tcp_send data s = Inr ?s1"
    using Cons.prems(1) len by (simp add: tcp_send_def)
  have "tcp_rounds rounds (s\<lparr>outbound := []\<rparr>) = Inr (concat (map (\<lambda>(data, taken). take taken data) rounds))"
    using Cons.prems(2) by (intro Cons.IH) auto
  then show ?case by (simp add: r send tcp_sendAndRecv_def socket_io_def Let_def)
qed simp

text \<open>C38: A TCP send buffer is handed to the kernel once and then forgotten: when the kernel takes
  only the first \<open>k\<close> bytes of it, the rest never leaves, and the next round's bytes follow
  directly. A peer that cuts the stream into whole responses then reads, at the cut, a message made
  of the start of one response and the start of another, as \<open>k\<close> need not be a multiple of their
  size.\<close>

theorem partial_send_splices_messages:
  assumes "k < length (concat (map om_response_bytes ms))"
    and "length (concat (map om_response_bytes ms)) \<le> TCPBufferSize"
    and "length (concat (map om_response_bytes ns)) \<le> TCPBufferSize"
    and "j = k mod response_size" and "m = ms ! (k div response_size)" and "n # rest = ns"
  shows "\<exists>sent. tcp_rounds [(concat (map om_response_bytes ms), k), (concat (map om_response_bytes ns), TCPBufferSize)] new_socket = Inr sent \<and>
    fst (frames response_size sent) ! (k div response_size) = take j (om_response_bytes m) @ take (response_size - j) (om_response_bytes n)"
proof -
  let ?d = "concat (map om_response_bytes ms)" and ?e = "concat (map om_response_bytes ns)"
  define q where "q = k div response_size"
  have pos: "0 < response_size" by (simp add: response_size_def)
  have lens: "length (concat (map om_response_bytes xs)) = length xs * response_size" for xs
    by (induction xs) (simp_all add: response_size_def)
  have kq: "k = q * response_size + j" "j < response_size" using pos by (simp_all add: q_def assms(4))
  have q: "q < length ms"
    using assms(1) pos unfolding lens q_def by (metis div_less_iff_less_mult)
  have rounds: "tcp_rounds [(?d, k), (?e, TCPBufferSize)] new_socket = Inr (take k ?d @ ?e)"
    using assms(2,3) by (subst tcp_rounds_sent) (auto simp: new_socket_def)
  have split: "ms = take q ms @ m # drop (Suc q) ms"
    using q assms(5) by (simp add: q_def id_take_nth_drop)
  then have "?d = concat (map om_response_bytes (take q ms)) @ om_response_bytes m @ concat (map om_response_bytes (drop (Suc q) ms))"
    by (metis concat.simps(2) concat_append list.simps(9) map_append)
  moreover have "length (concat (map om_response_bytes (take q ms))) = q * response_size"
    using q by (simp add: lens)
  ultimately have tk: "take k ?d = concat (map om_response_bytes (take q ms)) @ take j (om_response_bytes m)"
    using kq by (simp add: response_size_def)
  let ?f = "take j (om_response_bytes m) @ take (response_size - j) (om_response_bytes n)"
  have e: "?e = om_response_bytes n @ concat (map om_response_bytes rest)" using assms(6) [symmetric] by simp
  define tail where "tail = drop (response_size - j) (om_response_bytes n) @ concat (map om_response_bytes rest)"
  have all: "take k ?d @ ?e = concat (map om_response_bytes (take q ms)) @ (?f @ tail)"
    by (simp add: tk e tail_def)
  have f: "length ?f = response_size" using kq(2) by (simp add: response_size_def)
  have skip: "fst (frames response_size (concat (map om_response_bytes xs) @ b)) = map om_response_bytes xs @ fst (frames response_size b)" for xs b
    by (induction xs) (simp_all add: frames_step pos response_size_def)
  have "fst (frames response_size (take k ?d @ ?e)) = map om_response_bytes (take q ms) @ ?f # fst (frames response_size tail)"
    unfolding all skip frames_step [OF pos f] by simp
  then have "fst (frames response_size (take k ?d @ ?e)) ! q = ?f" using q by (simp add: nth_append)
  then show ?thesis using rounds by (simp add: q_def)
qed

definition example_om_response :: "u64 \<Rightarrow> OrderManagerClientResponse" where
  "example_om_response i = \<lparr>omresp_seqNum = i, omresp_response = \<lparr>resp_type = RESP_ACCEPTED, resp_client_id = 1,
     resp_symbol_id = 0, resp_client_order_id = i, resp_market_order_id = i, resp_side = BUY, resp_price = 100,
     resp_executed_quantity = 0, resp_remaining_quantity = 5\<rparr>\<rparr>"

theorem partial_send_splices_messages_witness:
  "\<exists>sent. tcp_rounds [(concat (map om_response_bytes [example_om_response 1]), 20),
       (concat (map om_response_bytes [example_om_response 2]), TCPBufferSize)] new_socket = Inr sent \<and>
    fst (frames response_size sent) ! (20 div response_size) =
      take 20 (om_response_bytes (example_om_response 1)) @ take (response_size - 20) (om_response_bytes (example_om_response 2))"
  by (rule partial_send_splices_messages [where rest = "[]"])
    (simp_all add: response_size_def TCPBufferSize_def)

end
