(* ===== verification/FIFO_Sequencer.thy ===== *)
theory FIFO_Sequencer
  imports Messages
begin

text \<open>
  \<open>exchange::FIFOSequencer\<close>: the requests read in one round of the sockets are collected with
  their receive times, sorted by receive time and written to the engine's queue. The array and
  \<open>pendingSize\<close> are the list of the first \<open>pendingSize\<close> entries. \<open>std::ranges::sort\<close> is the
  argument \<open>srt\<close>: it promises a sorted permutation and leaves the order of equal times open.
\<close>

definition kMaxPendingRequests :: nat where "kMaxPendingRequests = 1024"

type_synonym timestamped = "int \<times> MatchingEngineClientRequest"

record FIFOSequencer =
  pendingClientRequests :: "timestamped list"
  incomingRequest :: "MatchingEngineClientRequest list"

definition new_FIFOSequencer :: FIFOSequencer where
  "new_FIFOSequencer = \<lparr>pendingClientRequests = [], incomingRequest = []\<rparr>"

definition addClientRequest :: "int \<Rightarrow> MatchingEngineClientRequest \<Rightarrow> FIFOSequencer \<Rightarrow> FIFOSequencer result" where
  "addClientRequest rxTime request q =
     (if kMaxPendingRequests \<le> length (pendingClientRequests q) then FATAL ''To many pending requests ''
      else Inr (q\<lparr>pendingClientRequests := pendingClientRequests q @ [(rxTime, request)]\<rparr>))"

definition sequenceAndPublish :: "(timestamped list \<Rightarrow> timestamped list) \<Rightarrow> FIFOSequencer \<Rightarrow> FIFOSequencer" where
  "sequenceAndPublish srt q =
     (if pendingClientRequests q = [] then q
      else q\<lparr>incomingRequest := incomingRequest q @ map snd (srt (pendingClientRequests q)),
             pendingClientRequests := []\<rparr>)"

section \<open>The sort\<close>

text \<open>What \<open>std::ranges::sort\<close> with the projection \<open>receive_time\<close> promises.\<close>

definition sorts_by_time :: "(timestamped list \<Rightarrow> timestamped list) \<Rightarrow> bool" where
  "sorts_by_time srt \<longleftrightarrow> (\<forall>xs. mset (srt xs) = mset xs \<and> sorted (map fst (srt xs)))"

text \<open>Two sorts with that promise: one keeps the order of equal times, one reverses it.\<close>

definition stable_srt :: "timestamped list \<Rightarrow> timestamped list" where
  "stable_srt = sort_key fst"

definition reversing_srt :: "timestamped list \<Rightarrow> timestamped list" where
  "reversing_srt xs = sort_key fst (rev xs)"

lemma stable_srt_sorts: "sorts_by_time stable_srt"
  by (simp add: sorts_by_time_def stable_srt_def)

lemma reversing_srt_sorts: "sorts_by_time reversing_srt"
  by (simp add: sorts_by_time_def reversing_srt_def)

text \<open>With distinct receive times there is nothing left open.\<close>

lemma sort_times_unique:
  assumes "sorts_by_time srt" and "distinct (map fst xs)"
  shows "srt xs = sort_key fst xs"
proof (rule map_sorted_distinct_set_unique [where f = fst])
  have m: "mset (srt xs) = mset xs" using assms(1) by (simp add: sorts_by_time_def)
  then have s: "set (srt xs) = set xs" by (rule mset_eq_setD)
  have d: "distinct (map fst (srt xs))"
    using assms(2) mset_eq_imp_distinct_iff [of "map fst (srt xs)" "map fst xs"] m by (simp add: mset_map)
  show "set (srt xs) = set (sort_key fst xs)" by (simp add: s)
  show "sorted (map fst (srt xs))" using assms(1) by (simp add: sorts_by_time_def)
  show "inj_on fst (set (srt xs) \<union> set (sort_key fst xs))"
    using assms(2) by (simp add: s distinct_map)
  show "distinct (map fst (srt xs))" "distinct (map fst (sort_key fst xs))" "sorted (map fst (sort_key fst xs))"
    using d assms(2) by (auto simp: distinct_map sorted_sort_key intro: inj_on_subset)
qed

section \<open>What the sequencer keeps\<close>

text \<open>The requests it holds, queued or pending, as a multiset.\<close>

definition seq_contents :: "FIFOSequencer \<Rightarrow> MatchingEngineClientRequest multiset" where
  "seq_contents q = mset (incomingRequest q) + mset (map snd (pendingClientRequests q))"

lemma publish_contents:
  assumes "sorts_by_time srt"
  shows "seq_contents (sequenceAndPublish srt q) = seq_contents q"
proof -
  have "mset (map snd (srt (pendingClientRequests q))) = mset (map snd (pendingClientRequests q))"
    using assms by (simp add: sorts_by_time_def mset_map)
  then show ?thesis by (simp add: seq_contents_def sequenceAndPublish_def)
qed

lemma add_contents: "addClientRequest t r q = Inr q' \<Longrightarrow> seq_contents q' = seq_contents q + {#r#}"
  by (auto simp: addClientRequest_def FATAL_def seq_contents_def split: if_splits)

lemma sort_key_sorted_id: "sorted (map f xs) \<Longrightarrow> sort_key f xs = xs"
  by (rule sort_key_id_if_sorted)

text \<open>Requests whose times do not decrease (as read from the sockets) stay in order when their times
  differ or the sort is stable.\<close>

lemma publish_keeps_order:
  assumes "sorts_by_time srt" and "sorted (map fst (pendingClientRequests q))"
    and "distinct (map fst (pendingClientRequests q)) \<or> srt = stable_srt"
  shows "incomingRequest (sequenceAndPublish srt q) = incomingRequest q @ map snd (pendingClientRequests q)"
  using assms(3) sort_times_unique [OF assms(1)] sort_key_sorted_id [OF assms(2)]
  by (auto simp: sequenceAndPublish_def stable_srt_def)

text \<open>Adding a whole batch.\<close>

fun add_all :: "timestamped list \<Rightarrow> FIFOSequencer \<Rightarrow> FIFOSequencer result" where
  "add_all [] q = Inr q"
| "add_all ((t, r) # xs) q = bindE (addClientRequest t r q) (add_all xs)"

lemma add_all_fits:
  assumes "length (pendingClientRequests q) + length xs \<le> kMaxPendingRequests"
  shows "add_all xs q = Inr (q\<lparr>pendingClientRequests := pendingClientRequests q @ xs\<rparr>)"
  using assms
proof (induction xs arbitrary: q)
  case (Cons x xs)
  then show ?case by (cases x) (simp add: addClientRequest_def)
qed simp

lemma add_all_overflow:
  assumes "kMaxPendingRequests < length (pendingClientRequests q) + length xs"
    and "length (pendingClientRequests q) \<le> kMaxPendingRequests"
  shows "add_all xs q = Inl (Fatal_Exit ''To many pending requests '')"
  using assms
proof (induction xs arbitrary: q)
  case (Cons x xs)
  then show ?case
    by (cases x) (simp add: addClientRequest_def FATAL_def)
qed simp

section \<open>Properties\<close>

text \<open>Publishing neither loses, duplicates nor invents a request: after a batch of at most 1024
  requests is added to an empty sequencer and published, nothing is pending and the engine's queue
  is extended by a permutation of the batch in which receive times do not decrease.\<close>

theorem batch_is_published_by_time:
  assumes "sorts_by_time srt" and "pendingClientRequests q = []" and "length xs \<le> kMaxPendingRequests"
  shows "\<exists>q' out. add_all xs q = Inr q' \<and> mset out = mset xs \<and> sorted (map fst out) \<and>
    pendingClientRequests (sequenceAndPublish srt q') = [] \<and>
    incomingRequest (sequenceAndPublish srt q') = incomingRequest q @ map snd out"
proof -
  have a: "add_all xs q = Inr (q\<lparr>pendingClientRequests := xs\<rparr>)" using add_all_fits [of q xs] assms by simp
  have "mset (srt xs) = mset xs" "sorted (map fst (srt xs))" using assms(1) by (simp_all add: sorts_by_time_def)
  then show ?thesis using a assms(2)
    by (intro exI [of _ "q\<lparr>pendingClientRequests := xs\<rparr>"] exI [of _ "srt xs"])
      (auto simp: sequenceAndPublish_def)
qed

definition example_new :: "OrderId \<Rightarrow> MatchingEngineClientRequest" where
  "example_new i = \<lparr>req_type = REQ_NEW, req_client_id = 1, req_symbol_id = 0, req_order_id = i,
     req_side = BUY, req_price = 100, req_quantity = 5\<rparr>"

definition example_cancel :: "OrderId \<Rightarrow> MatchingEngineClientRequest" where
  "example_cancel i = (example_new i)\<lparr>req_type := REQ_CANCELED\<rparr>"

theorem batch_is_published_by_time_witness:
  "\<exists>q' out. add_all [(7, example_new 1), (3, example_new 2)] new_FIFOSequencer = Inr q' \<and>
    mset out = mset [(7 :: int, example_new 1), (3, example_new 2)] \<and> sorted (map fst out) \<and>
    pendingClientRequests (sequenceAndPublish stable_srt q') = [] \<and>
    incomingRequest (sequenceAndPublish stable_srt q') = incomingRequest new_FIFOSequencer @ map snd out"
  by (rule batch_is_published_by_time [OF stable_srt_sorts]) (simp_all add: new_FIFOSequencer_def kMaxPendingRequests_def)

text \<open>More than 1024 accepted requests in one round of the sockets stop the exchange: the
  sequencer's capacity check ends the process.\<close>

theorem full_sequencer_is_fatal:
  assumes "kMaxPendingRequests < length xs" and "pendingClientRequests q = []"
  shows "add_all xs q = Inl (Fatal_Exit ''To many pending requests '')"
  using add_all_overflow assms by simp

theorem full_sequencer_is_fatal_witness:
  "add_all (replicate 1025 (0, example_new 1)) new_FIFOSequencer = Inl (Fatal_Exit ''To many pending requests '')"
  by (rule full_sequencer_is_fatal) (simp_all add: kMaxPendingRequests_def new_FIFOSequencer_def)

end
