(* ===== verification/Exchange_Order_Manager.thy ===== *)
theory Exchange_Order_Manager
  imports Sockets FIFO_Sequencer
begin

text \<open>
  \<open>exchange::OrderManager\<close>, the exchange's TCP entry point, with the part of
  \<open>common::TCPServer\<close> it drives: it reads requests from the client sockets, checks each client's
  socket and sequence number, hands the accepted requests to the sequencer, and sends the engine's
  responses back, numbered per client. Sockets are known by a number (their pointer); a round of
  the event loop gets from outside which connections were accepted and, for every socket, the
  kernel receive time, the bytes that arrived and how many bytes a write takes.
\<close>

section \<open>State and operations\<close>

record ExchangeOrderManager =
  outgoingResponses :: "MatchingEngineClientResponse list"
  cidNextOutgoingSeqNum :: "nat \<Rightarrow> u64"
  cidNextExpSeqNum :: "nat \<Rightarrow> u64"
  cidTcpSocketMap :: "nat \<Rightarrow> nat option"
  tcp_sockets :: "nat \<Rightarrow> Socket"
  recv_sockets :: "nat list"
  fifoSequencer :: FIFOSequencer

definition new_ExchangeOrderManager :: ExchangeOrderManager where
  "new_ExchangeOrderManager = \<lparr>outgoingResponses = [], cidNextOutgoingSeqNum = (\<lambda>_. 1),
     cidNextExpSeqNum = (\<lambda>_. 1), cidTcpSocketMap = (\<lambda>_. None), tcp_sockets = (\<lambda>_. new_socket),
     recv_sockets = [], fifoSequencer = new_FIFOSequencer\<rparr>"

abbreviation om_client :: "OrderManagerClientRequest \<Rightarrow> nat" where
  "om_client msg \<equiv> unat (req_client_id (omreq_request msg))"

text \<open>The body of the loop over the received requests.\<close>

definition handle_request :: "nat \<Rightarrow> int \<Rightarrow> OrderManagerClientRequest \<Rightarrow> ExchangeOrderManager \<Rightarrow> ExchangeOrderManager result" where
  "handle_request socket rxTime request m =
     (let c = om_client request in
      if kMaxNumClients \<le> c then Inl Bad_Access
      else
        let m1 = (if cidTcpSocketMap m c = None
                  then m\<lparr>cidTcpSocketMap := (cidTcpSocketMap m)(c := Some socket)\<rparr> else m) in
        if cidTcpSocketMap m1 c \<noteq> Some socket then Inr m1
        else if omreq_seqNum request \<noteq> cidNextExpSeqNum m1 c then Inr m1
        else
          let m2 = m1\<lparr>cidNextExpSeqNum := (cidNextExpSeqNum m1)(c := cidNextExpSeqNum m1 c + 1)\<rparr> in
          bindE (addClientRequest rxTime (omreq_request request) (fifoSequencer m2))
            (\<lambda>q. Inr (m2\<lparr>fifoSequencer := q\<rparr>)))"

fun handle_requests :: "nat \<Rightarrow> int \<Rightarrow> OrderManagerClientRequest list \<Rightarrow> ExchangeOrderManager \<Rightarrow> ExchangeOrderManager result" where
  "handle_requests socket rxTime [] m = Inr m"
| "handle_requests socket rxTime (r # rs) m = bindE (handle_request socket rxTime r m) (handle_requests socket rxTime rs)"

definition set_inbound :: "nat \<Rightarrow> u8 list \<Rightarrow> ExchangeOrderManager \<Rightarrow> ExchangeOrderManager" where
  "set_inbound s bs m = m\<lparr>tcp_sockets := (tcp_sockets m)(s := (tcp_sockets m s)\<lparr>inbound := bs\<rparr>)\<rparr>"

definition om_recvCallback :: "nat \<Rightarrow> int \<Rightarrow> ExchangeOrderManager \<Rightarrow> ExchangeOrderManager result" where
  "om_recvCallback socket rxTime m =
     (let buf = inbound (tcp_sockets m socket) in
      if request_size \<le> length buf then
        let (fs, rest) = frames request_size buf in
        bindE (handle_requests socket rxTime (map om_request_of fs) m)
          (\<lambda>m'. Inr (set_inbound socket rest m'))
      else Inr m)"

definition recvFinishedCallback :: "(timestamped list \<Rightarrow> timestamped list) \<Rightarrow> ExchangeOrderManager \<Rightarrow> ExchangeOrderManager" where
  "recvFinishedCallback srt m = m\<lparr>fifoSequencer := sequenceAndPublish srt (fifoSequencer m)\<rparr>"

text \<open>\<open>TCPServer::poll\<close> and \<open>TCPServer::sendAndRecv\<close>. The second also returns what left each socket.\<close>

definition server_poll :: "nat list \<Rightarrow> ExchangeOrderManager \<Rightarrow> ExchangeOrderManager" where
  "server_poll accepted m = fold (\<lambda>s m. m\<lparr>tcp_sockets := (tcp_sockets m)(s := new_socket),
     recv_sockets := (if s \<in> set (recv_sockets m) then recv_sockets m else recv_sockets m @ [s])\<rparr>) accepted m"

fun serve_sockets :: "(nat \<Rightarrow> int \<times> u8 list \<times> nat) \<Rightarrow> nat list \<Rightarrow> ExchangeOrderManager \<Rightarrow>
    (bool \<times> (nat \<times> u8 list) list \<times> ExchangeOrderManager) result" where
  "serve_sockets io [] m = Inr (False, [], m)"
| "serve_sockets io (s # ss) m = (case io s of (rxTime, available, taken) \<Rightarrow>
     bindE (tcp_sendAndRecv
         (\<lambda>sock m1. bindE (om_recvCallback s rxTime (m1\<lparr>tcp_sockets := (tcp_sockets m1)(s := sock)\<rparr>))
                     (\<lambda>m2. Inr (tcp_sockets m2 s, m2)))
         available taken (tcp_sockets m s) m)
       (\<lambda>(got, sent, sock, m3).
         bindE (serve_sockets io ss (m3\<lparr>tcp_sockets := (tcp_sockets m3)(s := sock)\<rparr>))
           (\<lambda>(more, out, m4). Inr (got \<or> more, (s, sent) # out, m4))))"

definition server_sendAndRecv :: "(timestamped list \<Rightarrow> timestamped list) \<Rightarrow> (nat \<Rightarrow> int \<times> u8 list \<times> nat) \<Rightarrow>
    ExchangeOrderManager \<Rightarrow> ((nat \<times> u8 list) list \<times> ExchangeOrderManager) result" where
  "server_sendAndRecv srt io m = bindE (serve_sockets io (recv_sockets m) m)
     (\<lambda>(recv, out, m'). Inr (out, if recv then recvFinishedCallback srt m' else m'))"

text \<open>The body of the loop over the responses, and the loop until the queue is empty.\<close>

definition send_response :: "MatchingEngineClientResponse \<Rightarrow> ExchangeOrderManager \<Rightarrow> ExchangeOrderManager result" where
  "send_response r m =
     (let c = unat (resp_client_id r) in
      if kMaxNumClients \<le> c then Inl Bad_Access
      else
        let next = cidNextOutgoingSeqNum m c in
        bindE (ASSERT (cidTcpSocketMap m c \<noteq> None) (''Dont have a TCPSocket for ClientId:'' @ dec_word (resp_client_id r))) (\<lambda>_.
        bindE (deref (cidTcpSocketMap m c)) (\<lambda>s.
        bindE (tcp_send (put_word 8 next) (tcp_sockets m s)) (\<lambda>sock.
        bindE (tcp_send (response_bytes r) sock) (\<lambda>sock'.
          Inr (m\<lparr>tcp_sockets := (tcp_sockets m)(s := sock'),
                 cidNextOutgoingSeqNum := (cidNextOutgoingSeqNum m)(c := next + 1)\<rparr>))))))"

fun send_responses :: "MatchingEngineClientResponse list \<Rightarrow> ExchangeOrderManager \<Rightarrow> ExchangeOrderManager result" where
  "send_responses [] m = Inr (m\<lparr>outgoingResponses := []\<rparr>)"
| "send_responses (r # rs) m = bindE (send_response r m) (send_responses rs)"

definition om_run_round :: "(timestamped list \<Rightarrow> timestamped list) \<Rightarrow> nat list \<Rightarrow> (nat \<Rightarrow> int \<times> u8 list \<times> nat) \<Rightarrow>
    ExchangeOrderManager \<Rightarrow> ((nat \<times> u8 list) list \<times> ExchangeOrderManager) result" where
  "om_run_round srt accepted io m =
     bindE (server_sendAndRecv srt io (server_poll accepted m)) (\<lambda>(out, m1).
       bindE (send_responses (outgoingResponses m1) m1) (\<lambda>m2. Inr (out, m2)))"

section \<open>Requests: one numbered stream per client\<close>

text \<open>The requests of a stream whose numbers continue \<open>n\<close> without a gap; others are skipped.\<close>

fun in_sequence :: "u64 \<Rightarrow> OrderManagerClientRequest list \<Rightarrow> MatchingEngineClientRequest list" where
  "in_sequence n [] = []"
| "in_sequence n (m # ms) = (if omreq_seqNum m = n then omreq_request m # in_sequence (n + 1) ms
     else in_sequence n ms)"

text \<open>An event is a request that arrives on a socket; events of several sockets in a row.\<close>

type_synonym request_event = "nat \<times> int \<times> OrderManagerClientRequest"

fun handle_events :: "request_event list \<Rightarrow> ExchangeOrderManager \<Rightarrow> ExchangeOrderManager result" where
  "handle_events [] m = Inr m"
| "handle_events ((s, t, r) # es) m = bindE (handle_request s t r m) (handle_events es)"

lemma handle_requests_events:
  "handle_requests s t rs m = handle_events (map (\<lambda>r. (s, t, r)) rs) m"
  by (induction rs arbitrary: m) (simp_all add: bindE_def split: sum.splits)

lemma handle_events_append:
  "handle_events (as @ bs) m = bindE (handle_events as m) (handle_events bs)"
proof (induction as arbitrary: m)
  case (Cons a as)
  then show ?case by (cases a) (simp add: bindE_def split: sum.splits)
qed simp

definition ev_client :: "request_event \<Rightarrow> nat" where
  "ev_client e = om_client (snd (snd e))"

text \<open>The socket a client is bound to once the events have been handled.\<close>

definition bound_socket :: "nat \<Rightarrow> ExchangeOrderManager \<Rightarrow> request_event list \<Rightarrow> nat option" where
  "bound_socket c m es = (case cidTcpSocketMap m c of Some s \<Rightarrow> Some s
     | None \<Rightarrow> map_option fst (find (\<lambda>e. ev_client e = c) es))"

definition client_messages :: "nat \<Rightarrow> nat option \<Rightarrow> request_event list \<Rightarrow> OrderManagerClientRequest list" where
  "client_messages c s es = map (\<lambda>e. snd (snd e)) (filter (\<lambda>e. ev_client e = c \<and> Some (fst e) = s) es)"

definition pending_of :: "nat \<Rightarrow> ExchangeOrderManager \<Rightarrow> MatchingEngineClientRequest list" where
  "pending_of c m = filter (\<lambda>r. unat (req_client_id r) = c) (map snd (pendingClientRequests (fifoSequencer m)))"

text \<open>The part of the state the request path never touches.\<close>

definition same_sending :: "ExchangeOrderManager \<Rightarrow> ExchangeOrderManager \<Rightarrow> bool" where
  "same_sending m m' \<longleftrightarrow> outgoingResponses m' = outgoingResponses m \<and>
     cidNextOutgoingSeqNum m' = cidNextOutgoingSeqNum m \<and> tcp_sockets m' = tcp_sockets m \<and>
     recv_sockets m' = recv_sockets m \<and> incomingRequest (fifoSequencer m') = incomingRequest (fifoSequencer m)"

lemma client_messages_Cons:
  "client_messages d x ((s, t, r) # es) =
     (if om_client r = d \<and> x = Some s then r # client_messages d x es else client_messages d x es)"
  by (auto simp: client_messages_def ev_client_def)

lemma bound_socket_Cons:
  "bound_socket d m ((s, t, r) # es) = (if cidTcpSocketMap m d = None \<and> om_client r = d then Some s
     else bound_socket d m es)"
  by (simp add: bound_socket_def ev_client_def split: option.splits)

lemma bound_socket_cong: "cidTcpSocketMap m' d = cidTcpSocketMap m d \<Longrightarrow> bound_socket d m' es = bound_socket d m es"
  by (simp add: bound_socket_def)

lemma bound_socket_Some: "cidTcpSocketMap m d = Some s \<Longrightarrow> bound_socket d m es = Some s"
  by (simp add: bound_socket_def)

lemma bound_socket_upd:
  "cidTcpSocketMap m' = (cidTcpSocketMap m)(c := Some s) \<Longrightarrow>
    bound_socket d m' es = (if d = c then Some s else bound_socket d m es)"
  by (simp add: bound_socket_def)

text \<open>A request is skipped, skipped after binding its client to the socket, or accepted.\<close>

lemma handle_request_cases:
  assumes "om_client r < kMaxNumClients"
    and "length (pendingClientRequests (fifoSequencer m)) < kMaxPendingRequests"
  obtains (foreign) s' where "cidTcpSocketMap m (om_client r) = Some s'" "s' \<noteq> s" "handle_request s t r m = Inr m"
  | (skipped) m' where "cidTcpSocketMap m (om_client r) \<in> {None, Some s}" "omreq_seqNum r \<noteq> cidNextExpSeqNum m (om_client r)"
      "m' = m\<lparr>cidTcpSocketMap := (cidTcpSocketMap m)(om_client r := Some s)\<rparr>" "handle_request s t r m = Inr m'"
  | (taken) m' where "cidTcpSocketMap m (om_client r) \<in> {None, Some s}" "omreq_seqNum r = cidNextExpSeqNum m (om_client r)"
      "m' = m\<lparr>cidTcpSocketMap := (cidTcpSocketMap m)(om_client r := Some s),
        cidNextExpSeqNum := (cidNextExpSeqNum m)(om_client r := cidNextExpSeqNum m (om_client r) + 1),
        fifoSequencer := (fifoSequencer m)\<lparr>pendingClientRequests := pendingClientRequests (fifoSequencer m) @ [(t, omreq_request r)]\<rparr>\<rparr>"
      "handle_request s t r m = Inr m'"
proof -
  have triv: "m\<lparr>cidTcpSocketMap := (cidTcpSocketMap m)(om_client r := Some s)\<rparr> = m"
    if "cidTcpSocketMap m (om_client r) = Some s" using that by (simp add: fun_upd_idem)
  consider s' where "cidTcpSocketMap m (om_client r) = Some s'" "s' \<noteq> s"
    | "cidTcpSocketMap m (om_client r) = None" | "cidTcpSocketMap m (om_client r) = Some s"
    by (cases "cidTcpSocketMap m (om_client r)") auto
  then show ?thesis
  proof cases
    case 1
    then show ?thesis using assms(1) by (intro foreign) (simp_all add: handle_request_def Let_def)
  next
    case 2
    then show ?thesis using assms
      by (cases "omreq_seqNum r = cidNextExpSeqNum m (om_client r)")
        (rule taken skipped; simp add: handle_request_def Let_def addClientRequest_def)+
  next
    case 3
    then show ?thesis using assms triv [OF 3]
      by (cases "omreq_seqNum r = cidNextExpSeqNum m (om_client r)")
        (rule taken skipped; simp add: handle_request_def Let_def addClientRequest_def fun_upd_idem)+
  qed
qed

lemma handle_request_step:
  assumes "om_client r < kMaxNumClients"
    and "length (pendingClientRequests (fifoSequencer m)) < kMaxPendingRequests"
  shows "\<exists>m'. handle_request s t r m = Inr m' \<and> same_sending m m' \<and>
    length (pendingClientRequests (fifoSequencer m')) \<le> length (pendingClientRequests (fifoSequencer m)) + 1 \<and>
    (\<forall>d. bound_socket d m' es = bound_socket d m ((s, t, r) # es) \<and>
         pending_of d m' @ in_sequence (cidNextExpSeqNum m' d) (client_messages d (bound_socket d m' es) es) =
         pending_of d m @ in_sequence (cidNextExpSeqNum m d)
           (client_messages d (bound_socket d m ((s, t, r) # es)) ((s, t, r) # es)))"
proof (cases rule: handle_request_cases [OF assms, of s t, case_names foreign skipped taken])
  case (foreign s')
  show ?thesis
    by (rule exI [of _ m]) (use foreign in \<open>auto simp: same_sending_def bound_socket_Cons client_messages_Cons bound_socket_Some\<close>)
next
  case (skipped m')
  have b: "bound_socket d m' es = (if d = om_client r then Some s else bound_socket d m es)" for d
    by (rule bound_socket_upd) (simp add: skipped)
  have "bound_socket (om_client r) m es = Some s" if "cidTcpSocketMap m (om_client r) = Some s"
    using that by (rule bound_socket_Some)
  then show ?thesis
    by (intro exI [of _ m'])
      (use skipped b in \<open>auto simp: same_sending_def bound_socket_Cons client_messages_Cons pending_of_def\<close>)
next
  case (taken m')
  have b: "bound_socket d m' es = (if d = om_client r then Some s else bound_socket d m es)" for d
    by (rule bound_socket_upd) (simp add: taken)
  have "bound_socket (om_client r) m es = Some s" if "cidTcpSocketMap m (om_client r) = Some s"
    using that by (rule bound_socket_Some)
  then show ?thesis
    by (intro exI [of _ m'])
      (use taken b in \<open>auto simp: same_sending_def bound_socket_Cons client_messages_Cons pending_of_def\<close>)
qed

lemma handle_events_accept:
  assumes "\<forall>e \<in> set es. ev_client e < kMaxNumClients"
    and "length (pendingClientRequests (fifoSequencer m)) + length es \<le> kMaxPendingRequests"
  shows "\<exists>m'. handle_events es m = Inr m' \<and> same_sending m m' \<and>
    (\<forall>c. pending_of c m' = pending_of c m @
       in_sequence (cidNextExpSeqNum m c) (client_messages c (bound_socket c m es) es))"
  using assms
proof (induction es arbitrary: m)
  case Nil
  then show ?case by (simp add: client_messages_def same_sending_def)
next
  case (Cons e es)
  obtain s t r where e: "e = (s, t, r)" by (cases e)
  have c: "om_client r < kMaxNumClients" and room: "length (pendingClientRequests (fifoSequencer m)) < kMaxPendingRequests"
    using Cons.prems by (simp_all add: e ev_client_def)
  obtain m1 where m1: "handle_request s t r m = Inr m1" "same_sending m m1"
    "length (pendingClientRequests (fifoSequencer m1)) \<le> length (pendingClientRequests (fifoSequencer m)) + 1"
    "\<forall>d. bound_socket d m1 es = bound_socket d m (e # es) \<and>
         pending_of d m1 @ in_sequence (cidNextExpSeqNum m1 d) (client_messages d (bound_socket d m1 es) es) =
         pending_of d m @ in_sequence (cidNextExpSeqNum m d) (client_messages d (bound_socket d m (e # es)) (e # es))"
    using handle_request_step [OF c room, of s t es] unfolding e by blast
  obtain m' where "handle_events es m1 = Inr m'" "same_sending m1 m'"
    "\<forall>c. pending_of c m' = pending_of c m1 @
       in_sequence (cidNextExpSeqNum m1 c) (client_messages c (bound_socket c m1 es) es)"
    using Cons.IH [of m1] Cons.prems m1(3) by fastforce
  moreover have "pending_of c m1 @ in_sequence (cidNextExpSeqNum m1 c) (client_messages c (bound_socket c m1 es) es) =
      pending_of c m @ in_sequence (cidNextExpSeqNum m c) (client_messages c (bound_socket c m (e # es)) (e # es))" for c
    using m1(4) by blast
  moreover have "same_sending m m'" using m1(2) \<open>same_sending m1 m'\<close> by (simp add: same_sending_def)
  ultimately show ?case using m1(1) by (simp add: e)
qed

lemma in_sequence_consecutive:
  "in_sequence n (map (\<lambda>i. \<lparr>omreq_seqNum = n + of_nat i, omreq_request = f i\<rparr>) [0..<k]) = map f [0..<k]"
proof (induction k arbitrary: n f)
  case (Suc k)
  have r: "[0..<Suc k] = 0 # map Suc [0..<k]" by (simp only: upt_conv_Cons [OF zero_less_Suc] map_Suc_upt)
  have "map (\<lambda>i. \<lparr>omreq_seqNum = n + of_nat i, omreq_request = f i\<rparr>) (map Suc [0..<k]) =
    map (\<lambda>i. \<lparr>omreq_seqNum = (n + 1) + of_nat i, omreq_request = f (Suc i)\<rparr>) [0..<k]"
    by (simp add: add.assoc)
  then show ?case using Suc [of "n + 1" "\<lambda>i. f (Suc i)"] unfolding r by (simp add: comp_def add.assoc)
qed simp

section \<open>Responses: numbered per client\<close>

text \<open>The responses with the numbers \<open>send_response\<close> gives them, from the counters \<open>seqs\<close> on.\<close>

fun number_responses :: "(nat \<Rightarrow> u64) \<Rightarrow> MatchingEngineClientResponse list \<Rightarrow> OrderManagerClientResponse list" where
  "number_responses seqs [] = []"
| "number_responses seqs (r # rs) = (let c = unat (resp_client_id r) in
     \<lparr>omresp_seqNum = seqs c, omresp_response = r\<rparr> # number_responses (seqs(c := seqs c + 1)) rs)"

abbreviation resp_client :: "OrderManagerClientResponse \<Rightarrow> nat" where
  "resp_client x \<equiv> unat (resp_client_id (omresp_response x))"

lemma number_responses_plain: "map omresp_response (number_responses seqs rs) = rs"
  by (induction rs arbitrary: seqs) (simp_all add: Let_def)

lemma send_response_ok:
  assumes c: "unat (resp_client_id r) < kMaxNumClients"
    and s: "cidTcpSocketMap m (unat (resp_client_id r)) = Some s"
    and room: "length (outbound (tcp_sockets m s)) + response_size \<le> TCPBufferSize"
  shows "send_response r m = Inr (m\<lparr>tcp_sockets := (tcp_sockets m)(s := (tcp_sockets m s)\<lparr>outbound :=
       outbound (tcp_sockets m s) @ om_response_bytes \<lparr>omresp_seqNum = cidNextOutgoingSeqNum m (unat (resp_client_id r)), omresp_response = r\<rparr>\<rparr>),
     cidNextOutgoingSeqNum := (cidNextOutgoingSeqNum m)(unat (resp_client_id r) :=
       cidNextOutgoingSeqNum m (unat (resp_client_id r)) + 1)\<rparr>)"
  using assms by (simp add: send_response_def Let_def tcp_send_def response_size_def om_response_bytes_def)

lemma send_responses_ok:
  assumes "\<forall>r \<in> set rs. unat (resp_client_id r) < kMaxNumClients \<and> cidTcpSocketMap m (unat (resp_client_id r)) \<noteq> None"
    and "\<forall>s. length (outbound (tcp_sockets m s)) + length rs * response_size \<le> TCPBufferSize"
  shows "\<exists>m'. send_responses rs m = Inr m' \<and> outgoingResponses m' = [] \<and>
    cidTcpSocketMap m' = cidTcpSocketMap m \<and> fifoSequencer m' = fifoSequencer m \<and>
    (\<forall>s. inbound (tcp_sockets m' s) = inbound (tcp_sockets m s) \<and>
      outbound (tcp_sockets m' s) = outbound (tcp_sockets m s) @
        concat (map om_response_bytes (filter (\<lambda>x. cidTcpSocketMap m (resp_client x) = Some s)
          (number_responses (cidNextOutgoingSeqNum m) rs))))"
  using assms
proof (induction rs arbitrary: m)
  case Nil
  then show ?case by simp
next
  case (Cons r rs)
  let ?c = "unat (resp_client_id r)"
  obtain s where s: "cidTcpSocketMap m ?c = Some s" using Cons.prems(1) by auto
  let ?x = "\<lparr>omresp_seqNum = cidNextOutgoingSeqNum m ?c, omresp_response = r\<rparr>"
  let ?m = "m\<lparr>tcp_sockets := (tcp_sockets m)(s := (tcp_sockets m s)\<lparr>outbound :=
       outbound (tcp_sockets m s) @ om_response_bytes ?x\<rparr>),
     cidNextOutgoingSeqNum := (cidNextOutgoingSeqNum m)(?c := cidNextOutgoingSeqNum m ?c + 1)\<rparr>"
  have room: "length (outbound (tcp_sockets m s)) + response_size \<le> TCPBufferSize"
    using Cons.prems(2) [THEN spec, of s] by simp
  have step: "send_response r m = Inr ?m" by (rule send_response_ok) (use Cons.prems(1) s room in auto)
  have "length (outbound (tcp_sockets ?m s')) + length rs * response_size \<le> TCPBufferSize" for s'
    using Cons.prems(2) [THEN spec, of s'] by (cases "s' = s") (simp_all add: response_size_def)
  then have "\<forall>s'. length (outbound (tcp_sockets ?m s')) + length rs * response_size \<le> TCPBufferSize" by blast
  moreover have "\<forall>r \<in> set rs. unat (resp_client_id r) < kMaxNumClients \<and> cidTcpSocketMap ?m (unat (resp_client_id r)) \<noteq> None"
    using Cons.prems(1) by simp
  ultimately obtain m' where m': "send_responses rs ?m = Inr m'" "outgoingResponses m' = []"
    "cidTcpSocketMap m' = cidTcpSocketMap ?m" "fifoSequencer m' = fifoSequencer ?m"
    "\<forall>s. inbound (tcp_sockets m' s) = inbound (tcp_sockets ?m s) \<and> outbound (tcp_sockets m' s) = outbound (tcp_sockets ?m s) @
        concat (map om_response_bytes (filter (\<lambda>x. cidTcpSocketMap ?m (resp_client x) = Some s)
          (number_responses (cidNextOutgoingSeqNum ?m) rs)))"
    using Cons.IH [of ?m] by blast
  show ?case
  proof (intro exI [of _ m'] conjI allI)
    show "send_responses (r # rs) m = Inr m'" using step m'(1) by simp
    show "outgoingResponses m' = []" "cidTcpSocketMap m' = cidTcpSocketMap m" "fifoSequencer m' = fifoSequencer m"
      using m' by simp_all
    fix t
    show "inbound (tcp_sockets m' t) = inbound (tcp_sockets m t)" using m'(5) by simp
    show "outbound (tcp_sockets m' t) = outbound (tcp_sockets m t) @
        concat (map om_response_bytes (filter (\<lambda>x. cidTcpSocketMap m (resp_client x) = Some t)
          (number_responses (cidNextOutgoingSeqNum m) (r # rs))))"
      using m'(5) s by (auto simp: Let_def)
  qed
qed

section \<open>Properties\<close>

text \<open>C34: Whatever requests arrive on whatever connections, as long as the round's requests fit the
  sequencer the exchange does not stop, and per client it accepts exactly the requests that come from
  the connection the client is bound to and continue its numbering without a gap, in order: requests
  on another connection, repeated ones and ones after a gap are skipped and change nothing.\<close>

theorem exchange_accepts_in_sequence:
  assumes "\<forall>e \<in> set es. ev_client e < kMaxNumClients"
    and "length (pendingClientRequests (fifoSequencer m)) + length es \<le> kMaxPendingRequests"
  shows "\<exists>m'. handle_events es m = Inr m' \<and> same_sending m m' \<and>
    (\<forall>c. pending_of c m' = pending_of c m @
       in_sequence (cidNextExpSeqNum m c) (client_messages c (bound_socket c m es) es))"
  using handle_events_accept [OF assms] .

definition example_event :: "nat \<Rightarrow> u64 \<Rightarrow> OrderId \<Rightarrow> request_event" where
  "example_event s n i = (s, 5, \<lparr>omreq_seqNum = n, omreq_request = example_new i\<rparr>)"

theorem exchange_accepts_in_sequence_witness:
  "\<exists>m'. handle_events [example_event 7 1 4, example_event 8 2 5, example_event 7 1 4, example_event 7 2 6] new_ExchangeOrderManager = Inr m' \<and>
    pending_of 1 m' = [example_new 4, example_new 6]"
  using exchange_accepts_in_sequence [of "[example_event 7 1 4, example_event 8 2 5, example_event 7 1 4, example_event 7 2 6]"
      new_ExchangeOrderManager]
  by (auto simp: example_event_def example_new_def ev_client_def new_ExchangeOrderManager_def new_FIFOSequencer_def
      capacity_defs kMaxPendingRequests_def pending_of_def bound_socket_def client_messages_def
      dest!: spec [of _ 1])

end
