(* ===== verification/Order_Gateway.thy ===== *)
theory Order_Gateway
  imports Sockets
begin

text \<open>
  \<open>trading::OrderGateway\<close>, the trading side of the TCP connection: it numbers the strategy's
  requests and writes them to the socket, and checks client and number of every response before
  it queues it for the trade engine. \<open>full n\<close> tells whether the response ring has no free slot when
  the response numbered \<open>n\<close> is handled; a running gateway waits for a slot, a stopped one drops
  the response.
\<close>

record OrderGateway =
  og_client_id :: ClientId
  outgoing_requests :: "MatchingEngineClientRequest list"
  incoming_responses :: "MatchingEngineClientResponse list"
  og_run :: bool
  next_outgoing_seq_num :: u64
  next_exp_seq_num :: u64
  og_socket :: Socket

definition new_OrderGateway :: "ClientId \<Rightarrow> OrderGateway" where
  "new_OrderGateway cid = \<lparr>og_client_id = cid, outgoing_requests = [], incoming_responses = [],
     og_run = True, next_outgoing_seq_num = 1, next_exp_seq_num = 1, og_socket = new_socket\<rparr>"

text \<open>The body of the loop over the received responses, and the callback.\<close>

definition gw_message :: "(u64 \<Rightarrow> bool) \<Rightarrow> OrderManagerClientResponse \<Rightarrow> OrderGateway \<Rightarrow> OrderGateway" where
  "gw_message full response g =
     (if resp_client_id (omresp_response response) \<noteq> og_client_id g then g
      else if omresp_seqNum response \<noteq> next_exp_seq_num g then g
      else
        let g1 = g\<lparr>next_exp_seq_num := next_exp_seq_num g + 1\<rparr> in
        if full (omresp_seqNum response) \<and> \<not> og_run g then g1
        else g1\<lparr>incoming_responses := incoming_responses g1 @ [omresp_response response]\<rparr>)"

definition gw_recvCallback :: "(u64 \<Rightarrow> bool) \<Rightarrow> Socket \<Rightarrow> OrderGateway \<Rightarrow> (Socket \<times> OrderGateway) result" where
  "gw_recvCallback full socket g =
     (if response_size \<le> length (inbound socket) then
        let (fs, rest) = frames response_size (inbound socket) in
        Inr (socket\<lparr>inbound := rest\<rparr>, fold (gw_message full) (map om_response_of fs) g)
      else Inr (socket, g))"

text \<open>The body of the loop over the strategy's requests, and the loop.\<close>

definition gw_send :: "MatchingEngineClientRequest \<Rightarrow> OrderGateway \<Rightarrow> OrderGateway result" where
  "gw_send r g =
     bindE (tcp_send (put_word 8 (next_outgoing_seq_num g)) (og_socket g)) (\<lambda>s1.
     bindE (tcp_send (request_bytes r) s1) (\<lambda>s2.
       Inr (g\<lparr>og_socket := s2, next_outgoing_seq_num := next_outgoing_seq_num g + 1\<rparr>)))"

fun gw_send_all :: "MatchingEngineClientRequest list \<Rightarrow> OrderGateway \<Rightarrow> OrderGateway result" where
  "gw_send_all [] g = Inr (g\<lparr>outgoing_requests := []\<rparr>)"
| "gw_send_all (r # rs) g = bindE (gw_send r g) (gw_send_all rs)"

text \<open>One iteration of \<open>run\<close>: read and write the socket, then queue all waiting requests on it.\<close>

definition gw_run_round :: "(u64 \<Rightarrow> bool) \<Rightarrow> u8 list \<Rightarrow> nat \<Rightarrow> OrderGateway \<Rightarrow> (u8 list \<times> OrderGateway) result" where
  "gw_run_round full available taken g =
     bindE (tcp_sendAndRecv (gw_recvCallback full) available taken (og_socket g) g) (\<lambda>(_, sent, s, g1).
       bindE (gw_send_all (outgoing_requests g1) (g1\<lparr>og_socket := s\<rparr>)) (\<lambda>g2. Inr (sent, g2)))"

section \<open>What is sent\<close>

fun number_requests :: "u64 \<Rightarrow> MatchingEngineClientRequest list \<Rightarrow> OrderManagerClientRequest list" where
  "number_requests n [] = []"
| "number_requests n (r # rs) = \<lparr>omreq_seqNum = n, omreq_request = r\<rparr> # number_requests (n + 1) rs"

lemma number_requests_plain: "map omreq_request (number_requests n rs) = rs"
  by (induction rs arbitrary: n) simp_all

lemma length_number_requests [simp]: "length (number_requests n rs) = length rs"
  by (induction rs arbitrary: n) simp_all

lemma gw_send_all_bytes:
  assumes "length (outbound (og_socket g)) + length rs * request_size \<le> TCPBufferSize"
  shows "\<exists>g'. gw_send_all rs g = Inr g' \<and> outgoing_requests g' = [] \<and>
    outbound (og_socket g') = outbound (og_socket g) @ concat (map om_request_bytes (number_requests (next_outgoing_seq_num g) rs)) \<and>
    next_outgoing_seq_num g' = next_outgoing_seq_num g + of_nat (length rs)"
  using assms
proof (induction rs arbitrary: g)
  case (Cons r rs)
  let ?x = "\<lparr>omreq_seqNum = next_outgoing_seq_num g, omreq_request = r\<rparr>"
  let ?g = "g\<lparr>og_socket := (og_socket g)\<lparr>outbound := outbound (og_socket g) @ om_request_bytes ?x\<rparr>,
     next_outgoing_seq_num := next_outgoing_seq_num g + 1\<rparr>"
  have step: "gw_send r g = Inr ?g"
    using Cons.prems by (simp add: gw_send_def tcp_send_def om_request_bytes_def request_size_def)
  have "length (outbound (og_socket ?g)) + length rs * request_size \<le> TCPBufferSize"
    using Cons.prems by (simp add: request_size_def)
  from Cons.IH [OF this] show ?case by (auto simp: step)
qed simp

section \<open>What is received\<close>

text \<open>The receive path as the generic receiver of the response codec.\<close>

definition gw_receive :: "(u64 \<Rightarrow> bool) \<Rightarrow> u8 list \<Rightarrow> OrderGateway \<Rightarrow> OrderGateway" where
  "gw_receive full chunk g =
     (case gw_recvCallback full ((og_socket g)\<lparr>inbound := inbound (og_socket g) @ chunk\<rparr>) g of
        Inr (s, g') \<Rightarrow> g'\<lparr>og_socket := s\<rparr>
      | Inl _ \<Rightarrow> g)"

lemma gw_message_socket:
  "gw_message full m (g\<lparr>og_socket := s\<rparr>) = (gw_message full m g)\<lparr>og_socket := s\<rparr>"
  "og_socket (gw_message full m g) = og_socket g"
  by (simp_all add: gw_message_def Let_def)

lemma gw_messages_socket:
  "fold (gw_message full) ms (g\<lparr>og_socket := s\<rparr>) = (fold (gw_message full) ms g)\<lparr>og_socket := s\<rparr>"
  "og_socket (fold (gw_message full) ms g) = og_socket g"
  by (induction ms arbitrary: g) (simp_all add: gw_message_socket)

lemma gw_receive_eq:
  "gw_receive full chunk g =
     (let (rest, g') = om_response.receive (gw_message full) chunk (inbound (og_socket g), g)
      in g'\<lparr>og_socket := (og_socket g)\<lparr>inbound := rest\<rparr>\<rparr>)"
proof (cases "response_size \<le> length (inbound (og_socket g) @ chunk)")
  case True
  then show ?thesis by (simp add: gw_receive_def gw_recvCallback_def om_response.receive_def split_def Let_def)
next
  case False
  then have "frames response_size (inbound (og_socket g) @ chunk) = ([], inbound (og_socket g) @ chunk)"
    by (intro frames_short) simp
  with False show ?thesis by (simp add: gw_receive_def gw_recvCallback_def om_response.receive_def)
qed

lemma receive_socket:
  "om_response.receive (gw_message full) chunk (rest, g\<lparr>og_socket := s\<rparr>) =
     (let (r, g') = om_response.receive (gw_message full) chunk (rest, g) in (r, g'\<lparr>og_socket := s\<rparr>))"
  by (simp add: om_response.receive_def split_def Let_def gw_messages_socket)

lemma gw_receive_chunks:
  assumes "length (inbound (og_socket g)) < response_size"
  shows "fold (gw_receive full) chunks g = gw_receive full (concat chunks) g"
proof -
  have eq: "fold (gw_receive full) chunks g =
    (let (rest, g') = fold (om_response.receive (gw_message full)) chunks (inbound (og_socket g), g)
     in g'\<lparr>og_socket := (og_socket g)\<lparr>inbound := rest\<rparr>\<rparr>)"
  proof (induction chunks arbitrary: g)
    case (Cons c cs)
    obtain r g' where r: "om_response.receive (gw_message full) c (inbound (og_socket g), g) = (r, g')" by fastforce
    let ?g = "g'\<lparr>og_socket := (og_socket g)\<lparr>inbound := r\<rparr>\<rparr>"
    have shift: "fold (om_response.receive (gw_message full)) cs (x, h\<lparr>og_socket := s\<rparr>) =
       (let (y, h') = fold (om_response.receive (gw_message full)) cs (x, h) in (y, h'\<lparr>og_socket := s\<rparr>))" for x h s
      by (induction cs arbitrary: x h) (simp_all add: receive_socket split_def Let_def)
    have "fold (gw_receive full) (c # cs) g = fold (gw_receive full) cs ?g" by (simp add: gw_receive_eq r)
    also have "\<dots> = (let (rest, h) = fold (om_response.receive (gw_message full)) cs (r, ?g)
       in h\<lparr>og_socket := (og_socket g)\<lparr>inbound := rest\<rparr>\<rparr>)" using Cons [of ?g] by simp
    also have "\<dots> = (let (rest, h) = fold (om_response.receive (gw_message full)) cs (r, g')
       in h\<lparr>og_socket := (og_socket g)\<lparr>inbound := rest\<rparr>\<rparr>)"
      by (simp add: shift split_def Let_def)
    finally show ?case by (simp add: r)
  qed simp
  show ?thesis unfolding eq gw_receive_eq
    using om_response.receive_chunks [of chunks "(inbound (og_socket g), g)"] assms by simp
qed

text \<open>The responses of a stream whose numbers continue \<open>n\<close> and that are for client \<open>c\<close>.\<close>

fun resp_in_sequence :: "ClientId \<Rightarrow> u64 \<Rightarrow> OrderManagerClientResponse list \<Rightarrow> MatchingEngineClientResponse list" where
  "resp_in_sequence c n [] = []"
| "resp_in_sequence c n (m # ms) = (if resp_client_id (omresp_response m) = c \<and> omresp_seqNum m = n
     then omresp_response m # resp_in_sequence c (n + 1) ms else resp_in_sequence c n ms)"

lemma gw_messages_queue:
  "og_run g \<Longrightarrow> incoming_responses (fold (gw_message full) ms g) =
     incoming_responses g @ resp_in_sequence (og_client_id g) (next_exp_seq_num g) ms"
  by (induction ms arbitrary: g) (auto simp: gw_message_def Let_def)

lemma gateway_stream:
  assumes "og_run g" and "inbound (og_socket g) = []"
    and "list_all (\<lambda>m. wf_response (omresp_response m)) ms"
    and "concat chunks = concat (map om_response_bytes ms)"
  shows "incoming_responses (fold (gw_receive full) chunks g) =
    incoming_responses g @ resp_in_sequence (og_client_id g) (next_exp_seq_num g) ms"
proof -
  have "fold (gw_receive full) chunks g = gw_receive full (concat (map om_response_bytes ms)) g"
    using gw_receive_chunks [of g full chunks] assms(2,4) by (simp add: response_size_def)
  moreover have "map om_response_of (fst (frames response_size (concat (map om_response_bytes ms)))) = ms"
    using om_response.decode_stream [OF assms(3), of "[]"] by (simp add: response_size_def)
  ultimately show ?thesis
    using assms(1,2) by (simp add: gw_receive_eq om_response.receive_def split_def Let_def gw_messages_queue)
qed

text \<open>It does not matter how TCP cuts the stream of responses into reads: a running gateway
  that starts between two messages queues exactly the responses of the whole stream that are for
  its client and continue its numbering, for every division of the bytes into chunks.\<close>

theorem gateway_ignores_chunking:
  assumes "og_run g" and "inbound (og_socket g) = []"
    and "list_all (\<lambda>m. wf_response (omresp_response m)) ms"
    and "concat chunks = concat (map om_response_bytes ms)"
  shows "incoming_responses (fold (gw_receive full) chunks g) =
    incoming_responses g @ resp_in_sequence (og_client_id g) (next_exp_seq_num g) ms"
  using gateway_stream [OF assms] .

theorem gateway_ignores_chunking_witness:
  "incoming_responses (fold (gw_receive (\<lambda>_. False))
      [take 7 (om_response_bytes (example_om_response 1)), drop 7 (om_response_bytes (example_om_response 1))]
      (new_OrderGateway 1)) = [omresp_response (example_om_response 1)]"
  using gateway_ignores_chunking [of "new_OrderGateway 1" "[example_om_response 1]"
      "[take 7 (om_response_bytes (example_om_response 1)), drop 7 (om_response_bytes (example_om_response 1))]" "\<lambda>_. False"]
  by (simp add: new_OrderGateway_def new_socket_def example_om_response_def wf_response_def wf_side_def fits_i64_def)

end
