(* ===== verification/Order_Path.thy ===== *)
theory Order_Path
  imports Exchange_Order_Manager Order_Gateway
begin

text \<open>
  The two directions of the order connection put together: from the trade engine through the
  gateway, the socket, the exchange's order manager and the sequencer into the engine's queue,
  and back from the engine's response queue into the gateway's. TCP is assumed to deliver the bytes
  of a connection unchanged and in order, cut into arbitrary reads.
\<close>

section \<open>Responses\<close>

lemma number_responses_in_sequence:
  assumes "\<forall>r \<in> set rs. unat (resp_client_id r) = unat c \<longrightarrow> P (unat c)"
  shows "resp_in_sequence c (seqs (unat c)) (filter (\<lambda>x. P (resp_client x)) (number_responses seqs rs)) =
    filter (\<lambda>r. resp_client_id r = c) rs"
  using assms
proof (induction rs arbitrary: seqs)
  case (Cons r rs)
  let ?d = "unat (resp_client_id r)"
  have IH: "resp_in_sequence c ((seqs(?d := seqs ?d + 1)) (unat c))
      (filter (\<lambda>x. P (resp_client x)) (number_responses (seqs(?d := seqs ?d + 1)) rs)) =
    filter (\<lambda>r. resp_client_id r = c) rs"
    using Cons.prems by (intro Cons.IH) simp
  show ?case
  proof (cases "resp_client_id r = c")
    case True
    then show ?thesis using IH Cons.prems by (simp add: Let_def)
  next
    case False
    then have "unat c \<noteq> ?d" by (metis unat_inj)
    then show ?thesis using IH False by (simp add: Let_def)
  qed
qed simp

lemma number_responses_wf:
  "list_all wf_response rs \<Longrightarrow> list_all (\<lambda>m. wf_response (omresp_response m)) (number_responses seqs rs)"
  by (induction rs arbitrary: seqs) (simp_all add: Let_def)

text \<open>C19: Every response the engine emits for a client reaches that client's trade engine, exactly
  once and in order, and no other response does, also when clients share a connection: if the order
  manager sends the responses \<open>rs\<close>, and the bytes it put on the client's socket arrive in any
  chunks, a gateway whose numbering agrees with the exchange's queues exactly the responses of \<open>rs\<close>
  for its client.\<close>

theorem responses_reach_client:
  assumes "\<forall>r \<in> set rs. unat (resp_client_id r) < kMaxNumClients \<and> cidTcpSocketMap m (unat (resp_client_id r)) \<noteq> None"
    and "\<forall>s. length (outbound (tcp_sockets m s)) + length rs * response_size \<le> TCPBufferSize"
    and "list_all wf_response rs"
    and "cidTcpSocketMap m (unat (og_client_id g)) = Some s" and "outbound (tcp_sockets m s) = []"
    and "og_run g" and "inbound (og_socket g) = []"
    and "next_exp_seq_num g = cidNextOutgoingSeqNum m (unat (og_client_id g))"
  shows "\<exists>m'. send_responses rs m = Inr m' \<and>
    (\<forall>chunks. concat chunks = outbound (tcp_sockets m' s) \<longrightarrow>
      incoming_responses (fold (gw_receive full) chunks g) =
      incoming_responses g @ filter (\<lambda>r. resp_client_id r = og_client_id g) rs)"
proof -
  let ?on = "\<lambda>x. cidTcpSocketMap m (resp_client x) = Some s"
  let ?ms = "filter ?on (number_responses (cidNextOutgoingSeqNum m) rs)"
  obtain m' where m': "send_responses rs m = Inr m'" "outbound (tcp_sockets m' s) = concat (map om_response_bytes ?ms)"
    using send_responses_ok [OF assms(1,2)] assms(5) by auto
  have wf: "list_all (\<lambda>m. wf_response (omresp_response m)) ?ms"
    using number_responses_wf [OF assms(3)] by (auto simp: list_all_iff)
  have "resp_in_sequence (og_client_id g) (next_exp_seq_num g) ?ms = filter (\<lambda>r. resp_client_id r = og_client_id g) rs"
    unfolding assms(8) using assms(4)
    by (intro number_responses_in_sequence [where P = "\<lambda>d. cidTcpSocketMap m d = Some s"]) simp
  then show ?thesis
    using m' gateway_stream [OF assms(6,7) wf] by auto
qed

definition shared_connection :: ExchangeOrderManager where
  "shared_connection = new_ExchangeOrderManager\<lparr>cidTcpSocketMap := (\<lambda>_. None)(1 := Some 7, 2 := Some 7)\<rparr>"

definition example_response :: "ClientId \<Rightarrow> OrderId \<Rightarrow> MatchingEngineClientResponse" where
  "example_response c i = (omresp_response (example_om_response i))\<lparr>resp_client_id := c\<rparr>"

theorem responses_reach_client_witness:
  "\<exists>m'. send_responses [example_response 2 9, example_response 1 4, example_response 2 10] shared_connection = Inr m' \<and>
    (\<forall>chunks. concat chunks = outbound (tcp_sockets m' 7) \<longrightarrow>
      incoming_responses (fold (gw_receive (\<lambda>_. False)) chunks (new_OrderGateway 2)) =
      incoming_responses (new_OrderGateway 2) @ filter (\<lambda>r. resp_client_id r = og_client_id (new_OrderGateway 2))
        [example_response 2 9, example_response 1 4, example_response 2 10])"
  by (rule responses_reach_client [where s = 7])
    (simp_all add: shared_connection_def new_ExchangeOrderManager_def new_OrderGateway_def new_socket_def
      example_response_def example_om_response_def wf_response_def wf_side_def fits_i64_def capacity_defs
      TCPBufferSize_def response_size_def)

section \<open>Requests\<close>

text \<open>What the order manager sees: a read of a socket, or the end of a round with new data.\<close>

datatype om_event = Read nat int "u8 list" | Publish

definition om_event_step :: "(timestamped list \<Rightarrow> timestamped list) \<Rightarrow> om_event \<Rightarrow> ExchangeOrderManager \<Rightarrow> ExchangeOrderManager result" where
  "om_event_step srt ev m = (case ev of
      Read s t chunk \<Rightarrow> om_recvCallback s t (set_inbound s (inbound (tcp_sockets m s) @ chunk) m)
    | Publish \<Rightarrow> Inr (recvFinishedCallback srt m))"

fun om_events :: "(timestamped list \<Rightarrow> timestamped list) \<Rightarrow> om_event list \<Rightarrow> ExchangeOrderManager \<Rightarrow> ExchangeOrderManager result" where
  "om_events srt [] m = Inr m"
| "om_events srt (e # es) m = bindE (om_event_step srt e m) (om_events srt es)"

fun stream_of :: "nat \<Rightarrow> om_event list \<Rightarrow> u8 list" where
  "stream_of s [] = []"
| "stream_of s (Read s' t chunk # es) = (if s' = s then chunk @ stream_of s es else stream_of s es)"
| "stream_of s (Publish # es) = stream_of s es"

fun times_of :: "nat \<Rightarrow> om_event list \<Rightarrow> int list" where
  "times_of s [] = []"
| "times_of s (Read s' t chunk # es) = (if s' = s then t # times_of s es else times_of s es)"
| "times_of s (Publish # es) = times_of s es"

text \<open>The accepted requests of a client that are pending, and those that were published before.\<close>

definition entries :: "nat \<Rightarrow> ExchangeOrderManager \<Rightarrow> timestamped list" where
  "entries c m = filter (\<lambda>x. unat (req_client_id (snd x)) = c) (pendingClientRequests (fifoSequencer m))"

definition published :: "nat \<Rightarrow> ExchangeOrderManager \<Rightarrow> MatchingEngineClientRequest list" where
  "published c m = filter (\<lambda>r. unat (req_client_id r) = c) (incomingRequest (fifoSequencer m))"

lemma in_sequence_append:
  "in_sequence n (as @ bs) = in_sequence n as @ in_sequence (n + of_nat (length (in_sequence n as))) bs"
  by (induction as arbitrary: n) (simp_all add: add.assoc)

lemma in_sequence_numbered: "in_sequence n (number_requests n rs) = rs"
  by (induction rs arbitrary: n) simp_all

lemma handle_request_bound:
  assumes "cidTcpSocketMap m c = Some s" and "handle_request s' t r m = Inr m'"
  defines "new \<equiv> in_sequence (cidNextExpSeqNum m c) (if s' = s \<and> om_client r = c then [r] else [])"
  shows "cidTcpSocketMap m' c = Some s \<and> tcp_sockets m' = tcp_sockets m \<and> published c m' = published c m \<and>
    entries c m' = entries c m @ map (Pair t) new \<and>
    cidNextExpSeqNum m' c = cidNextExpSeqNum m c + of_nat (length new)"
  using assms(1,2)
  by (cases "om_client r = c"; cases "s' = s")
    (auto simp: new_def handle_request_def Let_def entries_def published_def bindE_eq_Inr addClientRequest_def FATAL_def
      split: if_splits)

lemma handle_requests_bound:
  assumes "cidTcpSocketMap m c = Some s" and "handle_requests s' t rs m = Inr m'"
  defines "new \<equiv> in_sequence (cidNextExpSeqNum m c) (if s' = s then filter (\<lambda>r. om_client r = c) rs else [])"
  shows "cidTcpSocketMap m' c = Some s \<and> tcp_sockets m' = tcp_sockets m \<and> published c m' = published c m \<and>
    entries c m' = entries c m @ map (Pair t) new \<and>
    cidNextExpSeqNum m' c = cidNextExpSeqNum m c + of_nat (length new)"
  using assms(1,2) unfolding new_def
proof (induction rs arbitrary: m)
  case (Cons r rs)
  obtain m1 where m1: "handle_request s' t r m = Inr m1" "handle_requests s' t rs m1 = Inr m'"
    using Cons.prems(2) by (auto simp: bindE_eq_Inr)
  note step = handle_request_bound [OF Cons.prems(1) m1(1)]
  show ?case using Cons.IH [OF _ m1(2)] step by (cases "om_client r = c") auto
qed simp

lemma recvCallback_bound:
  assumes "cidTcpSocketMap m c = Some s" and "om_recvCallback s' t m = Inr m'"
  defines "fs \<equiv> fst (frames request_size (inbound (tcp_sockets m s)))"
  defines "new \<equiv> in_sequence (cidNextExpSeqNum m c) (if s' = s then filter (\<lambda>r. om_client r = c) (map om_request_of fs) else [])"
  shows "cidTcpSocketMap m' c = Some s \<and> published c m' = published c m \<and>
    inbound (tcp_sockets m' s) = (if s' = s then snd (frames request_size (inbound (tcp_sockets m s))) else inbound (tcp_sockets m s)) \<and>
    entries c m' = entries c m @ map (Pair t) new \<and>
    cidNextExpSeqNum m' c = cidNextExpSeqNum m c + of_nat (length new)"
proof (cases "request_size \<le> length (inbound (tcp_sockets m s'))")
  case True
  let ?fs = "fst (frames request_size (inbound (tcp_sockets m s')))"
  obtain m1 where m1: "handle_requests s' t (map om_request_of ?fs) m = Inr m1"
    "m' = set_inbound s' (snd (frames request_size (inbound (tcp_sockets m s')))) m1"
    using assms(2) True by (auto simp: om_recvCallback_def Let_def split_def bindE_eq_Inr)
  show ?thesis
    using handle_requests_bound [OF assms(1) m1(1)]
    by (auto simp: m1(2) set_inbound_def new_def fs_def entries_def published_def)
next
  case False
  then have "frames request_size (inbound (tcp_sockets m s')) = ([], inbound (tcp_sockets m s'))"
    by (intro frames_short) simp
  then show ?thesis using False assms(1,2) by (auto simp: om_recvCallback_def Let_def new_def fs_def)
qed

text \<open>
  A round is published as some permutation sorted by time. A client's own requests keep their order if
  the sort is the stable one, or if their times all differ.
\<close>

lemma sorted_times_unique:
  assumes "mset ys = mset xs" and "sorted (map fst ys)" and "sorted (map fst xs)" and "distinct (map fst xs)"
  shows "ys = (xs :: timestamped list)"
proof (rule map_sorted_distinct_set_unique [where f = fst])
  show s: "set ys = set xs" using assms(1) by (rule mset_eq_setD)
  show "inj_on fst (set ys \<union> set xs)" using assms(4) by (simp add: s distinct_map)
  show "distinct (map fst ys)"
    using assms(4) mset_eq_imp_distinct_iff [of "map fst ys" "map fst xs"] assms(1) by (simp add: mset_map)
qed (rule assms)+

definition times_decide :: "(timestamped list \<Rightarrow> timestamped list) \<Rightarrow> timestamped list \<Rightarrow> bool" where
  "times_decide srt xs \<longleftrightarrow> sorted (map fst xs) \<and> (srt = stable_srt \<or> distinct (map fst xs))"

lemma publish_bound:
  assumes srt: "sorts_by_time srt"
  shows "\<exists>qs. published c (recvFinishedCallback srt m) = published c m @ qs \<and> mset qs = mset (map snd (entries c m)) \<and>
      (times_decide srt (entries c m) \<longrightarrow> qs = map snd (entries c m))"
    and "entries c (recvFinishedCallback srt m) = []"
proof -
  let ?P = "\<lambda>x :: timestamped. unat (req_client_id (snd x)) = c" and ?xs = "pendingClientRequests (fifoSequencer m)"
  have perm: "mset (filter ?P (srt ?xs)) = mset (entries c m)"
    using srt by (simp add: sorts_by_time_def entries_def mset_filter)
  have "filter ?P (srt ?xs) = entries c m" if d: "times_decide srt (entries c m)"
  proof (cases "srt = stable_srt")
    case True
    then show ?thesis using d by (simp add: times_decide_def stable_srt_def entries_def filter_sort sort_key_sorted_id)
  next
    case False
    have "sorted (map fst (filter ?P (srt ?xs)))" using srt by (simp add: sorts_by_time_def sorted_filter)
    then show ?thesis using d False by (intro sorted_times_unique [OF perm]) (simp_all add: times_decide_def)
  qed
  moreover have "srt [] = []" using srt by (metis mset_zero_iff sorts_by_time_def mset.simps(1))
  then have "published c (recvFinishedCallback srt m) = published c m @ map snd (filter ?P (srt ?xs))"
    by (cases "?xs = []") (auto simp: published_def recvFinishedCallback_def sequenceAndPublish_def filter_map comp_def)
  ultimately show "\<exists>qs. published c (recvFinishedCallback srt m) = published c m @ qs \<and> mset qs = mset (map snd (entries c m)) \<and>
      (times_decide srt (entries c m) \<longrightarrow> qs = map snd (entries c m))"
    using perm by (intro exI [of _ "map snd (filter ?P (srt ?xs))"]) (simp add: mset_map)
  show "entries c (recvFinishedCallback srt m) = []"
    by (simp add: entries_def recvFinishedCallback_def sequenceAndPublish_def)
qed

text \<open>Each read of the socket completes at most one request. \<open>pre\<close> is what is in its buffer.\<close>

fun one_per_read :: "nat \<Rightarrow> u8 list \<Rightarrow> om_event list \<Rightarrow> bool" where
  "one_per_read s pre [] \<longleftrightarrow> True"
| "one_per_read s pre (Read s' t chunk # es) \<longleftrightarrow> (if s' = s
     then length (fst (frames request_size (pre @ chunk))) \<le> 1 \<and> one_per_read s (snd (frames request_size (pre @ chunk))) es
     else one_per_read s pre es)"
| "one_per_read s pre (Publish # es) \<longleftrightarrow> one_per_read s pre es"

text \<open>The times of the reads decide the order: they do not decrease, and the sort is stable or they
  differ and no two requests share one.\<close>

definition reads_decide :: "(timestamped list \<Rightarrow> timestamped list) \<Rightarrow> nat \<Rightarrow> u8 list \<Rightarrow> timestamped list \<Rightarrow> om_event list \<Rightarrow> bool" where
  "reads_decide srt s pre xs es \<longleftrightarrow> sorted (map fst xs @ times_of s es) \<and>
     (srt = stable_srt \<or> distinct (map fst xs @ times_of s es) \<and> one_per_read s pre es)"

lemma reads_decide_times: "reads_decide srt s pre xs es \<Longrightarrow> times_decide srt xs"
  by (auto simp: reads_decide_def times_decide_def sorted_append)

lemma in_sequence_length: "length (in_sequence n ms) \<le> length ms"
  by (induction ms arbitrary: n) (auto intro: le_SucI)

lemma reads_decide_read:
  assumes d: "reads_decide srt s pre xs (Read s t chunk # es)" and len: "length new \<le> length (fst (frames request_size (pre @ chunk)))"
  shows "reads_decide srt s (snd (frames request_size (pre @ chunk))) (xs @ map (Pair t) new) es"
proof -
  have times: "map fst (map (Pair t) new) = replicate (length new) t" by (induction new) simp_all
  have "sorted (map fst xs @ replicate (length new) t @ times_of s es)"
    using d by (auto simp: reads_decide_def sorted_append)
  moreover have "distinct (map fst xs @ replicate (length new) t @ times_of s es)" if "srt \<noteq> stable_srt"
  proof -
    have "length (fst (frames request_size (pre @ chunk))) \<le> 1" using d that by (simp add: reads_decide_def)
    then have "length new = 0 \<or> length new = 1" using len by linarith
    then show ?thesis
    proof
      assume "length new = 0"
      then show ?thesis using d that by (auto simp: reads_decide_def)
    next
      assume "length new = 1"
      then show ?thesis using d that by (simp add: reads_decide_def)
    qed
  qed
  ultimately show ?thesis using d unfolding reads_decide_def map_append times by auto
qed

text \<open>The accepted requests of a bound client, over any interleaving with other connections.\<close>

lemma om_events_bound:
  assumes srt: "sorts_by_time srt" and "cidTcpSocketMap m c = Some s" and "om_events srt es m = Inr m'"
    and "length (inbound (tcp_sockets m s)) < request_size"
  defines "new \<equiv> in_sequence (cidNextExpSeqNum m c) (filter (\<lambda>r. om_client r = c)
      (map om_request_of (fst (frames request_size (inbound (tcp_sockets m s) @ stream_of s es)))))"
  shows "\<exists>ps. published c m' = published c m @ ps \<and> mset (ps @ map snd (entries c m')) = mset (map snd (entries c m) @ new) \<and>
    (reads_decide srt s (inbound (tcp_sockets m s)) (entries c m) es \<longrightarrow>
       ps @ map snd (entries c m') = map snd (entries c m) @ new \<and> times_decide srt (entries c m'))"
  using assms(2-4) unfolding new_def
proof (induction es arbitrary: m)
  case Nil
  then show ?case by (auto simp: frames_short dest: reads_decide_times)
next
  case (Cons e es)
  obtain m1 where m1: "om_event_step srt e m = Inr m1" "om_events srt es m1 = Inr m'"
    using Cons.prems(2) by (auto simp: bindE_eq_Inr)
  show ?case
  proof (cases e)
    case (Read s' t chunk)
    let ?m0 = "set_inbound s' (inbound (tcp_sockets m s') @ chunk) m"
    have m0: "cidTcpSocketMap ?m0 c = Some s" "published c ?m0 = published c m" "entries c ?m0 = entries c m"
      "cidNextExpSeqNum ?m0 = cidNextExpSeqNum m"
      using Cons.prems(1) by (simp_all add: set_inbound_def published_def entries_def)
    have in0: "inbound (tcp_sockets ?m0 s) = (if s' = s then inbound (tcp_sockets m s) @ chunk else inbound (tcp_sockets m s))"
      by (simp add: set_inbound_def)
    have "om_recvCallback s' t ?m0 = Inr m1" using m1(1) by (simp add: om_event_step_def Read)
    note step = recvCallback_bound [OF m0(1) this]
    show ?thesis
    proof (cases "s' = s")
      case False
      have s1: "cidTcpSocketMap m1 c = Some s" "published c m1 = published c m" "inbound (tcp_sockets m1 s) = inbound (tcp_sockets m s)"
        "entries c m1 = entries c m" "cidNextExpSeqNum m1 c = cidNextExpSeqNum m c"
        using step m0 in0 False by simp_all
      have same: "stream_of s (e # es) = stream_of s es" "reads_decide srt s pre xs (e # es) = reads_decide srt s pre xs es" for pre xs
        using False by (simp_all add: Read reads_decide_def)
      show ?thesis using Cons.IH [OF s1(1) m1(2)] Cons.prems(3) by (simp only: s1 same)
    next
      case True
      let ?fr = "frames request_size (inbound (tcp_sockets m s) @ chunk)"
      let ?new = "in_sequence (cidNextExpSeqNum m c) (filter (\<lambda>r. om_client r = c) (map om_request_of (fst ?fr)))"
      have s1: "cidTcpSocketMap m1 c = Some s" "published c m1 = published c m"
        "inbound (tcp_sockets m1 s) = snd ?fr" "entries c m1 = entries c m @ map (Pair t) ?new"
        "cidNextExpSeqNum m1 c = cidNextExpSeqNum m c + of_nat (length ?new)"
        using step m0 in0 True by simp_all
      have "length ?new \<le> length (filter (\<lambda>r. om_client r = c) (map om_request_of (fst ?fr)))" by (rule in_sequence_length)
      also have "\<dots> \<le> length (map om_request_of (fst ?fr))" by (rule length_filter_le)
      finally have "length ?new \<le> length (fst ?fr)" unfolding length_map .
      then have dec: "reads_decide srt s (snd ?fr) (entries c m @ map (Pair t) ?new) es"
        if "reads_decide srt s (inbound (tcp_sockets m s)) (entries c m) (e # es)"
        using reads_decide_read that True unfolding Read by blast
      have all: "frames request_size (inbound (tcp_sockets m s) @ stream_of s (e # es)) =
        (fst ?fr @ fst (frames request_size (snd ?fr @ stream_of s es)), snd (frames request_size (snd ?fr @ stream_of s es)))"
        using frames_append [of request_size "inbound (tcp_sockets m s) @ chunk" "stream_of s es"] True
        by (simp add: Read request_size_def)
      have short: "length (inbound (tcp_sockets m1 s)) < request_size"
        unfolding s1(3) by (rule frames_rest_short) (simp add: request_size_def)
      have new: "map snd (map (Pair t) xs) = xs" for xs :: "MatchingEngineClientRequest list"
        by (induction xs) simp_all
      let ?rest = "in_sequence (cidNextExpSeqNum m1 c) (filter (\<lambda>r. om_client r = c)
        (map om_request_of (fst (frames request_size (inbound (tcp_sockets m1 s) @ stream_of s es)))))"
      have both: "in_sequence (cidNextExpSeqNum m c) (filter (\<lambda>r. om_client r = c)
        (map om_request_of (fst (frames request_size (inbound (tcp_sockets m s) @ stream_of s (e # es)))))) = ?new @ ?rest"
        unfolding all s1 map_append fst_conv filter_append in_sequence_append ..
      have entries: "map snd (entries c m1) = map snd (entries c m) @ ?new" unfolding s1(4) map_append new ..
      obtain ps where ih: "published c m' = published c m1 @ ps" "mset (ps @ map snd (entries c m')) = mset (map snd (entries c m1) @ ?rest)"
        "reads_decide srt s (inbound (tcp_sockets m1 s)) (entries c m1) es \<longrightarrow>
           ps @ map snd (entries c m') = map snd (entries c m1) @ ?rest \<and> times_decide srt (entries c m')"
        using Cons.IH [OF s1(1) m1(2) short] by blast
      note ih = ih [unfolded entries, unfolded s1(2-4) append_assoc]
      show ?thesis unfolding both s1(3) append_assoc
        by (intro exI [of _ ps] conjI impI) (use ih dec in blast)+
    qed
  next
    case Publish
    have m: "m1 = recvFinishedCallback srt m" using m1(1) by (simp add: om_event_step_def Publish)
    have fr: "cidTcpSocketMap m1 = cidTcpSocketMap m" "tcp_sockets m1 = tcp_sockets m" "cidNextExpSeqNum m1 = cidNextExpSeqNum m"
      by (simp_all add: m recvFinishedCallback_def)
    obtain qs where p: "published c m1 = published c m @ qs" "mset qs = mset (map snd (entries c m))"
      "times_decide srt (entries c m) \<longrightarrow> qs = map snd (entries c m)" "entries c m1 = []"
      using publish_bound [OF srt, of c m] by (auto simp: m)
    have dec: "times_decide srt (entries c m) \<and> reads_decide srt s (inbound (tcp_sockets m s)) [] es"
      if d: "reads_decide srt s (inbound (tcp_sockets m s)) (entries c m) (e # es)"
      using reads_decide_times [OF d] d by (auto simp: Publish reads_decide_def sorted_append)
    obtain ps where "published c m' = published c m1 @ ps"
      "mset (ps @ map snd (entries c m')) = mset (in_sequence (cidNextExpSeqNum m c) (filter (\<lambda>r. om_client r = c)
        (map om_request_of (fst (frames request_size (inbound (tcp_sockets m s) @ stream_of s es))))))"
      "reads_decide srt s (inbound (tcp_sockets m s)) [] es \<longrightarrow> ps @ map snd (entries c m') = in_sequence (cidNextExpSeqNum m c)
        (filter (\<lambda>r. om_client r = c) (map om_request_of (fst (frames request_size (inbound (tcp_sockets m s) @ stream_of s es))))) \<and>
        times_decide srt (entries c m')"
      using Cons.IH [OF _ m1(2)] Cons.prems(1,3) by (auto simp: fr p(4))
    then show ?thesis using p dec by (intro exI [of _ "qs @ ps"]) (auto simp: Publish)
  qed
qed

text \<open>C18: The requests of a trade engine reach the matching engine's queue, each exactly once: whatever
  reads of this and of other connections the order manager handles, in any chunks, and whatever those
  other connections claim to be, if the bytes read from the client's connection are the ones its gateway
  sent and the sequencer does not overflow, the published requests of the client grow by a permutation of
  the requests the gateway was given. This holds for every sort that does what \<open>std::ranges::sort\<close>
  promises. They come in the order sent if the times of the reads do not decrease and either the sort
  keeps the order of equal times, or the times differ and no read completes two requests.\<close>

theorem requests_reach_engine:
  assumes "sorts_by_time srt" and "gw_send_all rs g = Inr g'" and "outbound (og_socket g) = []"
    and "length rs * request_size \<le> TCPBufferSize"
    and "list_all (\<lambda>r. wf_request r \<and> unat (req_client_id r) = c) rs"
    and "cidTcpSocketMap m c = Some s" and "inbound (tcp_sockets m s) = []" and "entries c m = []"
    and "next_outgoing_seq_num g = cidNextExpSeqNum m c"
    and "stream_of s es = outbound (og_socket g')"
    and "om_events srt es m = Inr m'"
  shows "\<exists>ps. published c (recvFinishedCallback srt m') = published c m @ ps \<and> mset ps = mset rs \<and>
    (sorted (times_of s es) \<and> (srt = stable_srt \<or> distinct (times_of s es) \<and> one_per_read s [] es) \<longrightarrow> ps = rs)"
proof -
  let ?ms = "number_requests (cidNextExpSeqNum m c) rs"
  have str: "stream_of s es = concat (map om_request_bytes ?ms)"
    using gw_send_all_bytes [of g rs] assms(2-4,9,10) by simp
  have all: "\<forall>m \<in> set ?ms. wf_request (omreq_request m) \<and> om_client m = c"
  proof
    fix m0
    assume "m0 \<in> set ?ms"
    then have "omreq_request m0 \<in> set (map omreq_request ?ms)" by simp
    then show "wf_request (omreq_request m0) \<and> om_client m0 = c"
      using assms(5) unfolding number_requests_plain by (simp add: list_all_iff)
  qed
  then have ok: "list_all (\<lambda>m. wf_request (omreq_request m)) ?ms" by (simp add: list_all_iff)
  have mine: "filter (\<lambda>r. om_client r = c) ?ms = ?ms" using all by (simp add: filter_id_conv)
  have dec: "map om_request_of (fst (frames request_size (stream_of s es))) = ?ms"
    using om_request.decode_stream [OF ok, of "[]"] by (simp add: str request_size_def)
  obtain ps where ps: "published c m' = published c m @ ps" "mset (ps @ map snd (entries c m')) = mset rs"
    "reads_decide srt s [] [] es \<longrightarrow> ps @ map snd (entries c m') = rs \<and> times_decide srt (entries c m')"
    using om_events_bound [OF assms(1,6,11)] assms(7,8) dec mine by (auto simp: in_sequence_numbered request_size_def)
  obtain qs where qs: "published c (recvFinishedCallback srt m') = published c m' @ qs" "mset qs = mset (map snd (entries c m'))"
    "times_decide srt (entries c m') \<longrightarrow> qs = map snd (entries c m')"
    using publish_bound(1) [OF assms(1)] by blast
  show ?thesis
    by (rule exI [of _ "ps @ qs"]) (use ps qs in \<open>auto simp: reads_decide_def\<close>)
qed

definition bound_client :: ExchangeOrderManager where
  "bound_client = new_ExchangeOrderManager\<lparr>cidTcpSocketMap := (\<lambda>_. None)(1 := Some 7)\<rparr>"

lemma example_orders_sent:
  "gw_send_all [example_new 1, example_cancel 1] (new_OrderGateway 1) = Inr ((new_OrderGateway 1)\<lparr>
     og_socket := \<lparr>outbound = concat (map om_request_bytes (number_requests 1 [example_new 1, example_cancel 1])), inbound = []\<rparr>,
     next_outgoing_seq_num := 3\<rparr>)"
  by (simp add: gw_send_def tcp_send_def new_OrderGateway_def new_socket_def TCPBufferSize_def om_request_bytes_def)

lemma example_orders_decode:
  "map om_request_of (fst (frames request_size (concat (map om_request_bytes (number_requests n [example_new 1, example_cancel 1]))))) =
     number_requests n [example_new 1, example_cancel 1]"
proof -
  have wf: "list_all (\<lambda>m. wf_request (omreq_request m)) (number_requests n [example_new 1, example_cancel 1])"
    by (simp add: example_new_def example_cancel_def wf_request_def wf_side_def fits_i64_def)
  show ?thesis using om_request.decode_stream [OF wf, of "[]"] by (simp add: request_size_def)
qed

text \<open>Both requests come with one read; a second connection sends a broken message before. A stable sort
  keeps their order.\<close>

theorem requests_reach_engine_witness:
  "\<exists>m'. om_events stable_srt [Read 9 4 [1, 2], Read 7 5 (concat (map om_request_bytes (number_requests 1 [example_new 1, example_cancel 1])))]
      bound_client = Inr m' \<and>
    published 1 (recvFinishedCallback stable_srt m') = [example_new 1, example_cancel 1]"
proof -
  let ?data = "concat (map om_request_bytes (number_requests 1 [example_new 1, example_cancel 1]))"
  have run: "\<exists>m'. om_events stable_srt [Read 9 4 [1, 2], Read 7 5 ?data] bound_client = Inr m'"
    using example_orders_decode [of 1]
    by (simp add: om_event_step_def om_recvCallback_def set_inbound_def bound_client_def new_ExchangeOrderManager_def
        new_socket_def request_size_def split_def Let_def handle_request_def example_new_def example_cancel_def
        capacity_defs addClientRequest_def new_FIFOSequencer_def kMaxPendingRequests_def)
  then obtain m' where m': "om_events stable_srt [Read 9 4 [1, 2], Read 7 5 ?data] bound_client = Inr m'" by blast
  have "\<exists>ps. published 1 (recvFinishedCallback stable_srt m') = published 1 bound_client @ ps \<and>
      mset ps = mset [example_new 1, example_cancel 1] \<and>
      (sorted (times_of 7 [Read 9 4 [1, 2], Read 7 5 ?data]) \<and>
       (stable_srt = stable_srt \<or> distinct (times_of 7 [Read 9 4 [1, 2], Read 7 5 ?data]) \<and> one_per_read 7 [] [Read 9 4 [1, 2], Read 7 5 ?data])
       \<longrightarrow> ps = [example_new 1, example_cancel 1])"
    by (rule requests_reach_engine [OF stable_srt_sorts example_orders_sent _ _ _ _ _ _ _ _ m'])
      (simp_all add: new_OrderGateway_def new_socket_def bound_client_def new_ExchangeOrderManager_def entries_def
        new_FIFOSequencer_def example_new_def example_cancel_def wf_request_def wf_side_def fits_i64_def
        TCPBufferSize_def request_size_def)
  then show ?thesis using m' by (auto simp: published_def bound_client_def new_ExchangeOrderManager_def new_FIFOSequencer_def)
qed

section \<open>Requests of one read\<close>

text \<open>What a read with two requests of a client leaves pending: both carry the time of the read.\<close>

definition two_requests :: "nat \<Rightarrow> ExchangeOrderManager \<Rightarrow> MatchingEngineClientRequest \<Rightarrow> MatchingEngineClientRequest \<Rightarrow> u8 list" where
  "two_requests c m a b = concat (map om_request_bytes (number_requests (cidNextExpSeqNum m c) [a, b]))"

lemma read_two:
  assumes "cidTcpSocketMap m c = Some s" and "c < kMaxNumClients" and "inbound (tcp_sockets m s) = []"
    and "pendingClientRequests (fifoSequencer m) = []"
    and "wf_request a" and "wf_request b" and "unat (req_client_id a) = c" and "unat (req_client_id b) = c"
  shows "\<exists>m'. om_events srt [Read s t (two_requests c m a b)] m = Inr m' \<and>
    pendingClientRequests (fifoSequencer m') = [(t, a), (t, b)] \<and> published c m' = published c m"
proof -
  let ?n = "cidNextExpSeqNum m c"
  have wf: "list_all (\<lambda>m. wf_request (omreq_request m)) (number_requests ?n [a, b])" using assms(5,6) by simp
  have dec: "map om_request_of (fst (frames request_size (two_requests c m a b))) = number_requests ?n [a, b]"
    using om_request.decode_stream [OF wf, of "[]"] by (simp add: request_size_def two_requests_def)
  have long: "request_size \<le> length (two_requests c m a b)" by (simp add: two_requests_def om_request_bytes_def request_size_def)
  show ?thesis
    using dec long assms(1-4,7,8)
    by (simp add: om_event_step_def om_recvCallback_def set_inbound_def split_def Let_def handle_request_def
        addClientRequest_def kMaxPendingRequests_def published_def)
qed

text \<open>C37: The order of a client's requests is not protected within one read: all requests taken from a
  socket in one call of the order manager carry the same receive time, and there is a sort that meets the
  documentation of \<open>std::ranges::sort\<close> with which two requests of a client that are sent in order and
  arrive with one read, such as an order and its cancel, are published to the engine in reverse.\<close>

theorem same_time_requests_can_swap:
  assumes "cidTcpSocketMap m c = Some s" and "c < kMaxNumClients" and "inbound (tcp_sockets m s) = []"
    and "pendingClientRequests (fifoSequencer m) = []"
    and "wf_request a" and "wf_request b" and "unat (req_client_id a) = c" and "unat (req_client_id b) = c"
  shows "\<exists>srt m'. sorts_by_time srt \<and> om_events srt [Read s t (two_requests c m a b)] m = Inr m' \<and>
    published c (recvFinishedCallback srt m') = published c m @ [b, a] \<and>
    published c (recvFinishedCallback stable_srt m') = published c m @ [a, b]"
proof -
  obtain m' where m': "om_events reversing_srt [Read s t (two_requests c m a b)] m = Inr m'"
    "pendingClientRequests (fifoSequencer m') = [(t, a), (t, b)]" "published c m' = published c m"
    using read_two [OF assms] by blast
  have "published c (recvFinishedCallback srt m') = published c m @ map snd (srt [(t, a), (t, b)])"
    if "srt [(t, a), (t, b)] \<in> {[(t, a), (t, b)], [(t, b), (t, a)]}" for srt
    using m'(2,3) that assms(7,8) by (auto simp: published_def recvFinishedCallback_def sequenceAndPublish_def)
  then show ?thesis using m'(1) reversing_srt_sorts
    by (intro exI [of _ reversing_srt] exI [of _ m']) (simp add: reversing_srt_def stable_srt_def)
qed

theorem same_time_requests_can_swap_witness:
  "\<exists>srt m'. sorts_by_time srt \<and> om_events srt [Read 7 5 (two_requests 1 bound_client (example_new 1) (example_cancel 1))] bound_client = Inr m' \<and>
    published 1 (recvFinishedCallback srt m') = published 1 bound_client @ [example_cancel 1, example_new 1] \<and>
    published 1 (recvFinishedCallback stable_srt m') = published 1 bound_client @ [example_new 1, example_cancel 1]"
  by (rule same_time_requests_can_swap)
    (simp_all add: bound_client_def new_ExchangeOrderManager_def new_socket_def new_FIFOSequencer_def capacity_defs
      example_new_def example_cancel_def wf_request_def wf_side_def fits_i64_def)

end
