(* ===== verification/Market_Data_Publisher.thy ===== *)
theory Market_Data_Publisher
  imports Sockets Mem_Pool
begin

text \<open>
  The exchange's market data threads: \<open>MarketDataPublisher\<close>, which numbers the engine's updates,
  multicasts them and forwards them, and \<open>SnapshotSynthesizer\<close>, which mirrors the live orders
  from the forwarded updates and multicasts the whole mirror as a snapshot from time to time.
  \<open>symbol_orders\<close> is the two-level array of pointers into the mirror's object pool.
\<close>

section \<open>Publisher\<close>

record MarketDataPublisher =
  next_inc_seq_num :: u64
  outgoing_md_updates :: "MatchingEngineMarketUpdate list"
  snapshot_md_updates :: "MarketDataPublisherMarketUpdate list"
  incremental_socket :: Socket

definition new_MarketDataPublisher :: MarketDataPublisher where
  "new_MarketDataPublisher = \<lparr>next_inc_seq_num = 1, outgoing_md_updates = [], snapshot_md_updates = [],
     incremental_socket = new_socket\<rparr>"

text \<open>The conversion of \<open>next_inc_seq_num_\<close> to \<open>ssize_t\<close>.\<close>

definition seq_of :: "u64 \<Rightarrow> int" where
  "seq_of n = swrap 64 (int (unat n))"

text \<open>The body of the loop over the engine's updates, the loop, and one pass of \<open>run\<close>: the bytes
  that left in one datagram.\<close>

definition publish_update :: "MatchingEngineMarketUpdate \<Rightarrow> MarketDataPublisher \<Rightarrow> MarketDataPublisher result" where
  "publish_update u p =
     bindE (mcast_send (put_word 8 (next_inc_seq_num p)) (incremental_socket p)) (\<lambda>s1.
     bindE (mcast_send (update_bytes u) s1) (\<lambda>s2.
       Inr (p\<lparr>incremental_socket := s2,
              snapshot_md_updates := snapshot_md_updates p @ [\<lparr>mdp_seq_num = seq_of (next_inc_seq_num p), mdp_update = u\<rparr>],
              next_inc_seq_num := next_inc_seq_num p + 1\<rparr>)))"

fun publish_all :: "MatchingEngineMarketUpdate list \<Rightarrow> MarketDataPublisher \<Rightarrow> MarketDataPublisher result" where
  "publish_all [] p = Inr (p\<lparr>outgoing_md_updates := []\<rparr>)"
| "publish_all (u # us) p = bindE (publish_update u p) (publish_all us)"

definition publisher_pass :: "nat \<Rightarrow> MarketDataPublisher \<Rightarrow> (u8 list \<times> MarketDataPublisher) result" where
  "publisher_pass taken p =
     bindE (publish_all (outgoing_md_updates p) p) (\<lambda>p1.
     bindE (mcast_sendAndRecv (\<lambda>s st. Inr (s, st)) [] taken (incremental_socket p1) p1) (\<lambda>(_, sent, s, p2).
       Inr (sent, p2\<lparr>incremental_socket := s\<rparr>)))"

text \<open>The published messages: the updates numbered from \<open>n\<close> on.\<close>

fun numbered :: "int \<Rightarrow> MatchingEngineMarketUpdate list \<Rightarrow> MarketDataPublisherMarketUpdate list" where
  "numbered n [] = []"
| "numbered n (u # us) = \<lparr>mdp_seq_num = n, mdp_update = u\<rparr> # numbered (n + 1) us"

lemma length_numbered [simp]: "length (numbered n us) = length us"
  by (induction us arbitrary: n) simp_all

lemma numbered_append: "numbered n (us @ vs) = numbered n us @ numbered (n + int (length us)) vs"
  by (induction us arbitrary: n) (simp_all add: algebra_simps)

lemma numbered_nth: "i < length us \<Longrightarrow> numbered n us ! i = \<lparr>mdp_seq_num = n + int i, mdp_update = us ! i\<rparr>"
proof (induction us arbitrary: n i)
  case (Cons u us)
  then show ?case by (cases i) (simp_all add: algebra_simps)
qed simp

lemma seq_of_small:
  assumes "unat n < 2 ^ 63"
  shows "seq_of n = int (unat n)"
proof -
  have hi: "int (unat n) < 2 ^ 63" using assms by (metis of_nat_less_iff of_nat_numeral of_nat_power)
  have lo: "- (2 ^ 63) \<le> int (unat n)" by (rule order_trans [of _ 0]) simp_all
  show ?thesis unfolding seq_of_def by (rule swrap_id) (use hi lo in simp_all)
qed

lemma put_i64_seq:
  assumes "unat n < 2 ^ 63"
  shows "put_i64 (seq_of n) = put_word 8 n"
proof -
  have "int (unat n) < 2 ^ 64" using unsigned_less [of n] by simp
  then have "int (unat n) mod 2 ^ 64 = int (unat n)" by (intro mod_pos_pos_trivial) simp_all
  then show ?thesis unfolding put_i64_def put_word_def seq_of_small [OF assms] by (simp only: nat_int)
qed

lemma concat_mdp_length: "length (concat (map mdp_bytes ms)) = length ms * update_size"
  by (induction ms) (simp_all add: update_size_def)

lemma publish_all_ok:
  assumes "length (outbound (incremental_socket p)) + length us * update_size < McastBufferSize"
    and "unat (next_inc_seq_num p) + length us < 2 ^ 63"
  shows "\<exists>p'. publish_all us p = Inr p' \<and> outgoing_md_updates p' = [] \<and>
    outbound (incremental_socket p') = outbound (incremental_socket p) @
      concat (map mdp_bytes (numbered (seq_of (next_inc_seq_num p)) us)) \<and>
    snapshot_md_updates p' = snapshot_md_updates p @ numbered (seq_of (next_inc_seq_num p)) us \<and>
    unat (next_inc_seq_num p') = unat (next_inc_seq_num p) + length us"
  using assms
proof (induction us arbitrary: p)
  case (Cons u us)
  let ?n = "next_inc_seq_num p"
  let ?m = "\<lparr>mdp_seq_num = seq_of ?n, mdp_update = u\<rparr>"
  let ?p = "p\<lparr>incremental_socket := (incremental_socket p)\<lparr>outbound := outbound (incremental_socket p) @ mdp_bytes ?m\<rparr>,
     snapshot_md_updates := snapshot_md_updates p @ [?m], next_inc_seq_num := ?n + 1\<rparr>"
  have step: "publish_update u p = Inr ?p"
    using Cons.prems by (simp add: publish_update_def mcast_send_def mdp_bytes_def update_size_def put_i64_seq)
  have inc: "unat (?n + 1) = unat ?n + 1" using Cons.prems(2) by (intro unat_inc_small) simp
  have seq: "seq_of (?n + 1) = seq_of ?n + 1" using Cons.prems(2) inc by (simp add: seq_of_small)
  have "length (outbound (incremental_socket ?p)) + length us * update_size < McastBufferSize"
    using Cons.prems(1) by (simp add: update_size_def)
  moreover have "unat (next_inc_seq_num ?p) + length us < 2 ^ 63" using Cons.prems(2) inc by simp
  ultimately obtain p' where "publish_all us ?p = Inr p'" "outgoing_md_updates p' = []"
    "outbound (incremental_socket p') = outbound (incremental_socket ?p) @
      concat (map mdp_bytes (numbered (seq_of (?n + 1)) us))"
    "snapshot_md_updates p' = snapshot_md_updates ?p @ numbered (seq_of (?n + 1)) us"
    "unat (next_inc_seq_num p') = unat (?n + 1) + length us"
    using Cons.IH [of ?p] by auto
  then show ?case by (simp add: step seq inc)
qed simp

section \<open>Snapshot synthesizer\<close>

record SnapshotSynthesizer =
  symbol_orders :: "nat \<Rightarrow> nat \<Rightarrow> nat option"
  ss_pool :: "MatchingEngineMarketUpdate MemPool"
  last_inc_seq_num :: u64
  snapshot_socket :: Socket

definition new_SnapshotSynthesizer :: "bool \<Rightarrow> SnapshotSynthesizer" where
  "new_SnapshotSynthesizer debug = \<lparr>symbol_orders = (\<lambda>_ _. None), ss_pool = new_pool debug kMaxOrderIds,
     last_inc_seq_num = 0, snapshot_socket = new_socket\<rparr>"

definition set_order :: "nat \<Rightarrow> nat \<Rightarrow> nat option \<Rightarrow> SnapshotSynthesizer \<Rightarrow> SnapshotSynthesizer" where
  "set_order sy i p s = s\<lparr>symbol_orders := (symbol_orders s)(sy := (symbol_orders s sy)(i := p))\<rparr>"

text \<open>The checks \<open>MODIFY\<close> and \<open>CANCEL\<close> share: the order's slot and its pointer and contents.\<close>

definition existing_order :: "MatchingEngineMarketUpdate \<Rightarrow> nat \<Rightarrow> SnapshotSynthesizer \<Rightarrow> (nat \<times> MatchingEngineMarketUpdate) result" where
  "existing_order u sy s =
     (if kMaxOrderIds \<le> unat (mu_order_id u) then Inl Out_Of_Range
      else
        let order = symbol_orders s sy (unat (mu_order_id u)) in
        bindE (ASSERT (order \<noteq> None) (''Received:'' @ market_update_toString u @ '' but order does not exist.'')) (\<lambda>_.
        bindE (deref order) (\<lambda>p.
        bindE (access (lookup (ss_pool s) p)) (\<lambda>o'.
        bindE (ASSERT (mu_order_id o' = mu_order_id u) ''Expecting existing order to match new one.'') (\<lambda>_.
        bindE (ASSERT (mu_side o' = mu_side u) ''Expecting existing order to match new one.'') (\<lambda>_.
          Inr (p, o')))))))"

definition apply_to_snapshot :: "MatchingEngineMarketUpdate \<Rightarrow> SnapshotSynthesizer \<Rightarrow> SnapshotSynthesizer result" where
  "apply_to_snapshot u s =
     (let sy = unat (mu_symbol_id u); i = unat (mu_order_id u) in
      if kMaxSymbols \<le> sy then Inl Out_Of_Range
      else case mu_type u of
          MU_ADD \<Rightarrow>
            if kMaxOrderIds \<le> i then Inl Out_Of_Range
            else bindE (ASSERT (symbol_orders s sy i = None)
                 (''Received:'' @ market_update_toString u @ '' but order already exists:'')) (\<lambda>_.
               bindE (allocate u (ss_pool s)) (\<lambda>(p, pool). Inr (set_order sy i (Some p) (s\<lparr>ss_pool := pool\<rparr>))))
        | MU_MODIFY \<Rightarrow> bindE (existing_order u sy s) (\<lambda>(p, o').
            Inr (s\<lparr>ss_pool := store p (o'\<lparr>mu_quantity := mu_quantity u, mu_price := mu_price u\<rparr>) (ss_pool s)\<rparr>))
        | MU_CANCEL \<Rightarrow> bindE (existing_order u sy s) (\<lambda>(p, o').
            bindE (deallocate p (ss_pool s)) (\<lambda>pool. Inr (set_order sy i None (s\<lparr>ss_pool := pool\<rparr>))))
        | _ \<Rightarrow> Inr s)"

definition AddtoSnapshot :: "MarketDataPublisherMarketUpdate \<Rightarrow> SnapshotSynthesizer \<Rightarrow> SnapshotSynthesizer result" where
  "AddtoSnapshot m s =
     bindE (apply_to_snapshot (mdp_update m) s) (\<lambda>s1.
     bindE (ASSERT (mdp_seq_num m = swrap 64 (seq_of (last_inc_seq_num s1) + 1)) ''Expected incremental seq_nums to increase.'') (\<lambda>_.
       Inr (s1\<lparr>last_inc_seq_num := of_int (mdp_seq_num m)\<rparr>)))"

fun AddtoSnapshot_all :: "MarketDataPublisherMarketUpdate list \<Rightarrow> SnapshotSynthesizer \<Rightarrow> SnapshotSynthesizer result" where
  "AddtoSnapshot_all [] s = Inr s"
| "AddtoSnapshot_all (m # ms) s = bindE (AddtoSnapshot m s) (AddtoSnapshot_all ms)"

text \<open>
  \<open>PublishSnapshot\<close>: \<open>emit\<close> appends a message with the next snapshot number to the send buffer and,
  after each order and at the end, hands the buffer to the socket. The state of the cycle is the
  next number, the socket and the datagrams handed over so far.
\<close>

type_synonym cycle = "int \<times> Socket \<times> u8 list list"

definition emit :: "bool \<Rightarrow> MatchingEngineMarketUpdate \<Rightarrow> cycle \<Rightarrow> cycle result" where
  "emit flush u c = (case c of (n, sock, out) \<Rightarrow>
     bindE (mcast_send (mdp_bytes \<lparr>mdp_seq_num = n, mdp_update = u\<rparr>) sock) (\<lambda>s1.
       if flush then
         bindE (mcast_sendAndRecv (\<lambda>s st. Inr (s, st)) [] (length (outbound s1)) s1 ()) (\<lambda>(_, sent, s2, _).
           Inr (n + 1, s2, out @ [sent]))
       else Inr (n + 1, s1, out)))"

definition bound_update :: "MarketUpdateType \<Rightarrow> u64 \<Rightarrow> MatchingEngineMarketUpdate" where
  "bound_update t seq = zero_update\<lparr>mu_type := t, mu_order_id := seq\<rparr>"

definition clear_update :: "nat \<Rightarrow> MatchingEngineMarketUpdate" where
  "clear_update sy = zero_update\<lparr>mu_type := MU_CLEAR, mu_symbol_id := of_nat sy\<rparr>"

fun emit_orders :: "SnapshotSynthesizer \<Rightarrow> nat \<Rightarrow> nat list \<Rightarrow> cycle \<Rightarrow> cycle result" where
  "emit_orders s sy [] c = Inr c"
| "emit_orders s sy (i # is) c = (case symbol_orders s sy i of
     None \<Rightarrow> emit_orders s sy is c
   | Some p \<Rightarrow> bindE (access (lookup (ss_pool s) p)) (\<lambda>o'. bindE (emit True o' c) (emit_orders s sy is)))"

fun emit_symbols :: "SnapshotSynthesizer \<Rightarrow> nat list \<Rightarrow> cycle \<Rightarrow> cycle result" where
  "emit_symbols s [] c = Inr c"
| "emit_symbols s (sy # sys) c = bindE (emit False (clear_update sy) c) (\<lambda>c1.
     bindE (emit_orders s sy [0..<kMaxOrderIds] c1) (emit_symbols s sys))"

definition PublishSnapshot :: "SnapshotSynthesizer \<Rightarrow> (u8 list list \<times> SnapshotSynthesizer) result" where
  "PublishSnapshot s =
     bindE (emit False (bound_update MU_SNAPSHOT_START (last_inc_seq_num s)) (0, snapshot_socket s, [])) (\<lambda>c1.
     bindE (emit_symbols s [0..<kMaxSymbols] c1) (\<lambda>c2.
     bindE (emit True (bound_update MU_SNAPSHOT_END (last_inc_seq_num s)) c2) (\<lambda>(_, sock, out).
       Inr (out, s\<lparr>snapshot_socket := sock\<rparr>))))"

text \<open>One pass of \<open>run\<close>: the forwarded updates, then a snapshot if the last one is old enough.\<close>

definition synthesizer_pass :: "bool \<Rightarrow> MarketDataPublisherMarketUpdate list \<Rightarrow> SnapshotSynthesizer \<Rightarrow>
    (u8 list list \<times> SnapshotSynthesizer) result" where
  "synthesizer_pass due ms s = bindE (AddtoSnapshot_all ms s) (\<lambda>s1.
     if due then PublishSnapshot s1 else Inr ([], s1))"

end
