(* ===== verification/Snapshot_Mirror.thy ===== *)
theory Snapshot_Mirror
  imports Book_Reach Market_Data_Publisher
begin

text \<open>
  What the synthesizer's mirror and its snapshots mean: the mirror holds, per symbol, exactly the
  live orders a receiver gets by replaying the updates, and a snapshot cycle replays to the mirror.
\<close>

section \<open>The view of the whole market\<close>

type_synonym market_view = "nat \<Rightarrow> live_view"

definition mview_update :: "market_view \<Rightarrow> MatchingEngineMarketUpdate \<Rightarrow> market_view" where
  "mview_update v u = (let sy = unat (mu_symbol_id u) in
     v(sy := (if mu_type u = MU_CLEAR then Map.empty else view_update (v sy) u)))"

definition mreplay :: "market_view \<Rightarrow> MatchingEngineMarketUpdate list \<Rightarrow> market_view" where
  "mreplay v us = foldl mview_update v us"

lemma mreplay_simps [simp]:
  "mreplay v [] = v" "mreplay v (u # us) = mreplay (mview_update v u) us"
  "mreplay v (us @ vs) = mreplay (mreplay v us) vs"
  by (simp_all add: mreplay_def)

definition empty_view :: market_view where "empty_view = (\<lambda>_. Map.empty)"

definition live_keys :: "market_view \<Rightarrow> (nat \<times> OrderId) set" where
  "live_keys v = {(sy, oid). v sy oid \<noteq> None}"

text \<open>An update that continues a stream: new orders are new, changed orders are live.\<close>

definition continues :: "market_view \<Rightarrow> MatchingEngineMarketUpdate \<Rightarrow> bool" where
  "continues v u \<longleftrightarrow> unat (mu_symbol_id u) < kMaxSymbols \<and>
     (let old = v (unat (mu_symbol_id u)) (mu_order_id u) in case mu_type u of
        MU_ADD \<Rightarrow> unat (mu_order_id u) < kMaxOrderIds \<and> old = None \<and> card (live_keys v) < kMaxOrderIds
      | MU_MODIFY \<Rightarrow> old \<noteq> None \<and> fst (the old) = mu_side u
      | MU_CANCEL \<Rightarrow> old \<noteq> None \<and> fst (the old) = mu_side u
      | MU_TRADE \<Rightarrow> True
      | _ \<Rightarrow> False)"

fun good_feed :: "market_view \<Rightarrow> MatchingEngineMarketUpdate list \<Rightarrow> bool" where
  "good_feed v [] \<longleftrightarrow> True"
| "good_feed v (u # us) \<longleftrightarrow> continues v u \<and> good_feed (mview_update v u) us"

lemma good_feed_append: "good_feed v (us @ vs) \<longleftrightarrow> good_feed v us \<and> good_feed (mreplay v us) vs"
  by (induction us arbitrary: v) auto

section \<open>The mirror\<close>

definition order_data :: "MatchingEngineMarketUpdate \<Rightarrow> Side \<times> Price \<times> Quantity \<times> Priority" where
  "order_data u = (mu_side u, mu_price u, mu_quantity u, mu_priority u)"

definition mirror_ptrs :: "(nat \<Rightarrow> nat \<Rightarrow> nat option) \<Rightarrow> nat set" where
  "mirror_ptrs so = {p. \<exists>sy i. so sy i = Some p}"

text \<open>The pointers are distinct and refer to exactly the objects of the pool; each refers to an \<open>ADD\<close>
  message with the symbol and order id of its place.\<close>

definition mirror_ok :: "(nat \<Rightarrow> nat \<Rightarrow> nat option) \<Rightarrow> (nat \<rightharpoonup> MatchingEngineMarketUpdate) \<Rightarrow> bool" where
  "mirror_ok so h \<longleftrightarrow>
     (\<forall>sy i sy' i' p. so sy i = Some p \<longrightarrow> so sy' i' = Some p \<longrightarrow> sy = sy' \<and> i = i') \<and>
     dom h = mirror_ptrs so \<and>
     (\<forall>sy i p. so sy i = Some p \<longrightarrow> sy < kMaxSymbols \<and> i < kMaxOrderIds \<and>
        (\<exists>x. h p = Some x \<and> mu_type x = MU_ADD \<and> unat (mu_symbol_id x) = sy \<and> unat (mu_order_id x) = i))"

definition mirror_view :: "(nat \<Rightarrow> nat \<Rightarrow> nat option) \<Rightarrow> (nat \<rightharpoonup> MatchingEngineMarketUpdate) \<Rightarrow> market_view" where
  "mirror_view so h = (\<lambda>sy oid. case so sy (unat oid) of None \<Rightarrow> None | Some p \<Rightarrow> map_option order_data (h p))"

definition snap_rel :: "SnapshotSynthesizer \<Rightarrow> market_view \<Rightarrow> bool" where
  "snap_rel s v \<longleftrightarrow> pool_inv (ss_pool s) \<and> mp_capacity (ss_pool s) = kMaxOrderIds \<and>
     mirror_ok (symbol_orders s) (lookup (ss_pool s)) \<and> v = mirror_view (symbol_orders s) (lookup (ss_pool s))"

lemma mirror_okD:
  assumes "mirror_ok so h" and "so sy i = Some p"
  shows "sy < kMaxSymbols" "i < kMaxOrderIds"
    "\<exists>x. h p = Some x \<and> mu_type x = MU_ADD \<and> unat (mu_symbol_id x) = sy \<and> unat (mu_order_id x) = i"
  using assms by (auto simp: mirror_ok_def)

lemma mirror_view_None: "mirror_ok so h \<Longrightarrow> mirror_view so h sy oid = None \<longleftrightarrow> so sy (unat oid) = None"
  by (auto simp: mirror_view_def dest: mirror_okD(3) split: option.splits)

lemma small_id: "i < kMaxOrderIds \<Longrightarrow> unat (of_nat i :: OrderId) = i"
  by (simp add: unat_of_nat_small capacity_defs)

lemma small_symbol: "sy < kMaxSymbols \<Longrightarrow> unat (of_nat sy :: SymbolId) = sy"
  by (simp add: unat_of_nat_small capacity_defs)

lemma live_keys_card:
  assumes "mirror_ok so h"
  shows "card (live_keys (mirror_view so h)) = card (dom h)"
proof -
  let ?f = "\<lambda>(sy, oid). the (so sy (unat (oid :: OrderId)))"
  have "bij_betw ?f (live_keys (mirror_view so h)) (dom h)"
  proof (rule bij_betw_imageI)
    show "inj_on ?f (live_keys (mirror_view so h))"
    proof (rule inj_onI)
      fix a b
      assume a: "a \<in> live_keys (mirror_view so h)" and b: "b \<in> live_keys (mirror_view so h)" and eq: "?f a = ?f b"
      obtain sy oid sy' oid' where ab: "a = (sy, oid)" "b = (sy', oid')" by (cases a, cases b)
      have "so sy (unat oid) \<noteq> None" "so sy' (unat oid') \<noteq> None"
        using a b mirror_view_None [OF assms] by (auto simp: live_keys_def ab)
      then obtain p where "so sy (unat oid) = Some p" "so sy' (unat oid') = Some p" using eq by (auto simp: ab)
      then have "sy = sy' \<and> unat oid = unat oid'" using assms by (auto simp: mirror_ok_def)
      then show "a = b" using unat_inj by (auto simp: ab)
    qed
    show "?f ` live_keys (mirror_view so h) = dom h"
    proof (intro set_eqI iffI)
      fix p
      assume "p \<in> ?f ` live_keys (mirror_view so h)"
      then obtain sy oid where "p = the (so sy (unat (oid :: OrderId)))" "so sy (unat oid) \<noteq> None"
        using mirror_view_None [OF assms] by (auto simp: live_keys_def)
      then have "p \<in> mirror_ptrs so" by (auto simp: mirror_ptrs_def)
      then show "p \<in> dom h" using assms by (simp add: mirror_ok_def)
    next
      fix p
      assume "p \<in> dom h"
      then obtain sy i where p: "so sy i = Some p" using assms by (auto simp: mirror_ok_def mirror_ptrs_def)
      have "unat (of_nat i :: OrderId) = i" using mirror_okD(2) [OF assms p] by (rule small_id)
      then have "(sy, of_nat i) \<in> live_keys (mirror_view so h)" "?f (sy, of_nat i) = p"
        using p mirror_view_None [OF assms, of sy "of_nat i"] by (auto simp: live_keys_def)
      then show "p \<in> ?f ` live_keys (mirror_view so h)" by force
    qed
  qed
  then show ?thesis by (rule bij_betw_same_card)
qed

text \<open>Inserting, changing and removing one order of the mirror.\<close>

lemma mirror_okI:
  assumes "\<And>sy i sy' i' p. so sy i = Some p \<Longrightarrow> so sy' i' = Some p \<Longrightarrow> sy = sy' \<and> i = i'"
    and "\<And>p. h p \<noteq> None \<longleftrightarrow> (\<exists>sy i. so sy i = Some p)"
    and "\<And>sy i p. so sy i = Some p \<Longrightarrow> sy < kMaxSymbols \<and> i < kMaxOrderIds \<and>
      (\<exists>x. h p = Some x \<and> mu_type x = MU_ADD \<and> unat (mu_symbol_id x) = sy \<and> unat (mu_order_id x) = i)"
  shows "mirror_ok so h"
  unfolding mirror_ok_def using assms by (auto simp: mirror_ptrs_def dom_def)

lemma mirror_ok_iff: "mirror_ok so h \<Longrightarrow> h p \<noteq> None \<longleftrightarrow> (\<exists>sy i. so sy i = Some p)"
proof -
  assume "mirror_ok so h"
  then have "p \<in> dom h \<longleftrightarrow> p \<in> mirror_ptrs so" by (simp add: mirror_ok_def)
  then show ?thesis by (simp add: mirror_ptrs_def domIff)
qed

lemma mirror_ok_inj: "mirror_ok so h \<Longrightarrow> so sy i = Some p \<Longrightarrow> so sy' i' = Some p \<Longrightarrow> sy = sy' \<and> i = i'"
  unfolding mirror_ok_def by blast

lemma mirror_insert:
  assumes ok: "mirror_ok so h" and new: "so sy i = None" "h p = None"
    and x: "sy < kMaxSymbols" "i < kMaxOrderIds" "mu_type x = MU_ADD" "unat (mu_symbol_id x) = sy" "unat (mu_order_id x) = i"
  shows "mirror_ok (so(sy := (so sy)(i := Some p))) (h(p \<mapsto> x))"
proof (rule mirror_okI)
  have fresh: "so a b \<noteq> Some p" for a b using mirror_ok_iff [OF ok, of p] new(2) by auto
  fix a b c d q
  assume "(so(sy := (so sy)(i := Some p))) a b = Some q" "(so(sy := (so sy)(i := Some p))) c d = Some q"
  then show "a = c \<and> b = d"
    using fresh mirror_ok_inj [OF ok, of a b q c d] by (auto split: if_splits)
next
  fix q
  show "(h(p \<mapsto> x)) q \<noteq> None \<longleftrightarrow> (\<exists>a b. (so(sy := (so sy)(i := Some p))) a b = Some q)"
  proof (cases "q = p")
    case False
    then show ?thesis using mirror_ok_iff [OF ok, of q] new(1) by (auto split: if_splits) (metis option.distinct(1))
  qed auto
next
  fix a b q
  assume "(so(sy := (so sy)(i := Some p))) a b = Some q"
  then show "a < kMaxSymbols \<and> b < kMaxOrderIds \<and>
    (\<exists>y. (h(p \<mapsto> x)) q = Some y \<and> mu_type y = MU_ADD \<and> unat (mu_symbol_id y) = a \<and> unat (mu_order_id y) = b)"
    using x mirror_okD [OF ok, of a b q] mirror_ok_iff [OF ok, of p] new(2) by (auto split: if_splits)
qed

lemma mirror_change:
  assumes ok: "mirror_ok so h" and p: "so sy i = Some p" "h p = Some y"
    and x: "mu_type x = mu_type y" "mu_symbol_id x = mu_symbol_id y" "mu_order_id x = mu_order_id y"
  shows "mirror_ok so (h(p \<mapsto> x))"
proof (rule mirror_okI)
  show "a = c \<and> b = d" if "so a b = Some q" "so c d = Some q" for a b c d q
    by (rule mirror_ok_inj [OF ok that])
  show "(h(p \<mapsto> x)) q \<noteq> None \<longleftrightarrow> (\<exists>a b. so a b = Some q)" for q
    using mirror_ok_iff [OF ok, of q] p(1) by auto
  show "a < kMaxSymbols \<and> b < kMaxOrderIds \<and>
      (\<exists>z. (h(p \<mapsto> x)) q = Some z \<and> mu_type z = MU_ADD \<and> unat (mu_symbol_id z) = a \<and> unat (mu_order_id z) = b)"
    if "so a b = Some q" for a b q
    using mirror_okD [OF ok that] p(2) x by auto
qed

lemma mirror_remove:
  assumes ok: "mirror_ok so h" and p: "so sy i = Some p"
  shows "mirror_ok (so(sy := (so sy)(i := None))) (h(p := None))"
proof (rule mirror_okI)
  fix a b c d q
  assume "(so(sy := (so sy)(i := None))) a b = Some q" "(so(sy := (so sy)(i := None))) c d = Some q"
  then show "a = c \<and> b = d" using mirror_ok_inj [OF ok, of a b q c d] by (auto split: if_splits)
next
  fix q
  show "(h(p := None)) q \<noteq> None \<longleftrightarrow> (\<exists>a b. (so(sy := (so sy)(i := None))) a b = Some q)"
  proof (cases "q = p")
    case True
    then show ?thesis using mirror_ok_inj [OF ok p] by (auto split: if_splits)
  next
    case False
    then show ?thesis using mirror_ok_iff [OF ok, of q] p by (auto split: if_splits) (metis option.inject)
  qed
next
  fix a b q
  assume q: "(so(sy := (so sy)(i := None))) a b = Some q"
  then have "so a b = Some q" by (auto split: if_splits)
  moreover have "q \<noteq> p" using q mirror_ok_inj [OF ok p, of a b] by (auto split: if_splits)
  ultimately show "a < kMaxSymbols \<and> b < kMaxOrderIds \<and>
    (\<exists>y. (h(p := None)) q = Some y \<and> mu_type y = MU_ADD \<and> unat (mu_symbol_id y) = a \<and> unat (mu_order_id y) = b)"
    using mirror_okD [OF ok] by simp
qed

text \<open>The view when the entry of one order changes.\<close>

lemma mirror_view_at:
  assumes same: "\<And>sy oid. (sy, oid) \<noteq> (a, b) \<Longrightarrow> mirror_view so' h' sy oid = mirror_view so h sy oid"
    and here: "mirror_view so' h' a b = z" and u: "a = unat (mu_symbol_id u)"
    and upd: "view_update (mirror_view so h a) u = (mirror_view so h a)(b := z)" and "mu_type u \<noteq> MU_CLEAR"
  shows "mirror_view so' h' = mview_update (mirror_view so h) u"
proof (intro ext)
  fix sy oid
  show "mirror_view so' h' sy oid = mview_update (mirror_view so h) u sy oid"
    using same [of sy oid] here assms(5) by (cases "(sy, oid) = (a, b)") (auto simp: mview_update_def u [symmetric] upd Let_def)
qed

lemma other_slot: "(sy, oid) \<noteq> (a, b) \<Longrightarrow> sy = a \<Longrightarrow> unat oid \<noteq> unat (b :: OrderId)"
  using unat_inj by blast

lemma apply_ok:
  assumes rel: "snap_rel s v" and c: "continues v u"
  shows "\<exists>s'. apply_to_snapshot u s = Inr s' \<and> snap_rel s' (mview_update v u) \<and>
    last_inc_seq_num s' = last_inc_seq_num s \<and> snapshot_socket s' = snapshot_socket s"
proof -
  let ?sy = "unat (mu_symbol_id u)" and ?i = "unat (mu_order_id u)"
  let ?so = "symbol_orders s" and ?h = "lookup (ss_pool s)"
  have r: "pool_inv (ss_pool s)" "mp_capacity (ss_pool s) = kMaxOrderIds" "mirror_ok ?so ?h" "v = mirror_view ?so ?h"
    using rel by (simp_all add: snap_rel_def)
  have sy: "?sy < kMaxSymbols" using c by (simp add: continues_def)
  have existing: "\<exists>p x. existing_order u ?sy s = Inr (p, x) \<and> ?so ?sy ?i = Some p \<and> ?h p = Some x"
    if old: "v ?sy (mu_order_id u) \<noteq> None" and side: "fst (the (v ?sy (mu_order_id u))) = mu_side u"
  proof -
    obtain p where p: "?so ?sy ?i = Some p" using old mirror_view_None [OF r(3)] r(4) by auto
    obtain x where x: "?h p = Some x" "unat (mu_order_id x) = ?i"
      using mirror_okD(3) [OF r(3) p] by blast
    have "mu_side x = mu_side u" using side p x(1) by (simp add: r(4) mirror_view_def order_data_def)
    moreover have "mu_order_id x = mu_order_id u" using x(2) by (rule unat_inj)
    ultimately show ?thesis using p x mirror_okD(2) [OF r(3) p] by (simp add: existing_order_def Let_def)
  qed
  show ?thesis
  proof (cases "mu_type u")
    case MU_ADD
    have new: "?i < kMaxOrderIds" "v ?sy (mu_order_id u) = None" "card (live_keys v) < kMaxOrderIds"
      using c MU_ADD by (simp_all add: continues_def)
    have so: "?so ?sy ?i = None" using new(2) mirror_view_None [OF r(3)] r(4) by simp
    have "mp_in_use (ss_pool s) < mp_capacity (ss_pool s)"
      using new(3) pool_live_card(2) [OF r(1)] live_keys_card [OF r(3)] r(2,4) by simp
    from allocate_ok [OF r(1) this, of u] obtain pool p where
      pool: "allocate u (ss_pool s) = Inr (p, pool)" "pool_inv pool"
        "?h p = None" "lookup pool = ?h(p \<mapsto> u)" "mp_capacity pool = kMaxOrderIds"
      using r(2) by auto
    have fresh: "?so a b \<noteq> Some p" for a b using mirror_ok_iff [OF r(3), of p] pool(3) by auto
    have view: "mirror_view (?so(?sy := (?so ?sy)(?i := Some p))) (?h(p \<mapsto> u)) = mview_update v u"
      unfolding r(4)
    proof (rule mirror_view_at)
      show "mirror_view (?so(?sy := (?so ?sy)(?i := Some p))) (?h(p \<mapsto> u)) a b = mirror_view ?so ?h a b"
        if "(a, b) \<noteq> (?sy, mu_order_id u)" for a b
        using other_slot [OF that] fresh [of a "unat b"] by (auto simp: mirror_view_def split: option.splits)
    qed (simp_all add: mirror_view_def view_update_def MU_ADD order_data_def)
    show ?thesis using sy new(1) so pool mirror_insert [OF r(3) so pool(3) sy new(1) MU_ADD] view MU_ADD
      by (simp add: apply_to_snapshot_def Let_def snap_rel_def set_order_def)
  next
    case MU_MODIFY
    have "v ?sy (mu_order_id u) \<noteq> None" "fst (the (v ?sy (mu_order_id u))) = mu_side u"
      using c MU_MODIFY by (simp_all add: continues_def Let_def)
    from existing [OF this] obtain p x where
      px: "existing_order u ?sy s = Inr (p, x)" "?so ?sy ?i = Some p" "?h p = Some x" by blast
    let ?x = "x\<lparr>mu_quantity := mu_quantity u, mu_price := mu_price u\<rparr>"
    have view: "mirror_view ?so (?h(p \<mapsto> ?x)) = mview_update v u"
      unfolding r(4)
    proof (rule mirror_view_at)
      show "mirror_view ?so (?h(p \<mapsto> ?x)) a b = mirror_view ?so ?h a b"
        if "(a, b) \<noteq> (?sy, mu_order_id u)" for a b
        using other_slot [OF that] mirror_ok_inj [OF r(3) px(2), of a "unat b"]
        by (auto simp: mirror_view_def split: option.splits)
    qed (simp_all add: mirror_view_def view_update_def MU_MODIFY order_data_def px)
    show ?thesis using sy px mirror_change [OF r(3) px(2,3), of ?x] view MU_MODIFY r pool_inv_store [OF r(1), of p ?x]
      by (simp add: apply_to_snapshot_def Let_def snap_rel_def lookup_store)
  next
    case MU_CANCEL
    have "v ?sy (mu_order_id u) \<noteq> None" "fst (the (v ?sy (mu_order_id u))) = mu_side u"
      using c MU_CANCEL by (simp_all add: continues_def Let_def)
    from existing [OF this] obtain p x where
      px: "existing_order u ?sy s = Inr (p, x)" "?so ?sy ?i = Some p" "?h p = Some x" by blast
    have "?h p \<noteq> None" using px(3) by simp
    from deallocate_ok [OF r(1) this] obtain pool where
      pool: "deallocate p (ss_pool s) = Inr pool" "pool_inv pool" "lookup pool = ?h(p := None)" "mp_capacity pool = kMaxOrderIds"
      using r(2) by auto
    have view: "mirror_view (?so(?sy := (?so ?sy)(?i := None))) (?h(p := None)) = mview_update v u"
      unfolding r(4)
    proof (rule mirror_view_at)
      show "mirror_view (?so(?sy := (?so ?sy)(?i := None))) (?h(p := None)) a b = mirror_view ?so ?h a b"
        if "(a, b) \<noteq> (?sy, mu_order_id u)" for a b
        using other_slot [OF that] mirror_ok_inj [OF r(3) px(2), of a "unat b"]
        by (auto simp: mirror_view_def split: option.splits)
    qed (simp_all add: mirror_view_def view_update_def MU_CANCEL)
    show ?thesis using sy px pool mirror_remove [OF r(3) px(2)] view MU_CANCEL
      by (simp add: apply_to_snapshot_def Let_def snap_rel_def set_order_def)
  next
    case MU_TRADE
    then show ?thesis using sy rel by (simp add: apply_to_snapshot_def mview_update_def view_update_def Let_def)
  qed (use c in \<open>simp_all add: continues_def\<close>)
qed

section \<open>The stream of updates\<close>

definition starts_at :: "SnapshotSynthesizer \<Rightarrow> nat \<Rightarrow> bool" where
  "starts_at s n \<longleftrightarrow> unat (last_inc_seq_num s) = n"

lemma AddtoSnapshot_step:
  assumes "snap_rel s v" and "continues v u" and "unat (last_inc_seq_num s) + 1 < 2 ^ 63"
  shows "\<exists>s'. AddtoSnapshot \<lparr>mdp_seq_num = int (unat (last_inc_seq_num s)) + 1, mdp_update = u\<rparr> s = Inr s' \<and>
    snap_rel s' (mview_update v u) \<and> unat (last_inc_seq_num s') = unat (last_inc_seq_num s) + 1 \<and>
    snapshot_socket s' = snapshot_socket s"
proof -
  let ?l = "last_inc_seq_num s"
  obtain s1 where s1: "apply_to_snapshot u s = Inr s1" "snap_rel s1 (mview_update v u)"
    "last_inc_seq_num s1 = ?l" "snapshot_socket s1 = snapshot_socket s"
    using apply_ok [OF assms(1,2)] by blast
  have "swrap 64 (int (unat ?l) + 1) = int (unat ?l) + 1"
  proof (rule swrap_id)
    show "- (2 ^ (64 - 1)) \<le> int (unat ?l) + 1" by (rule order_trans [of _ 0]) simp_all
    have "int (unat ?l + 1) < int (2 ^ 63)" using assms(3) by (simp only: of_nat_less_iff)
    then show "int (unat ?l) + 1 < 2 ^ (64 - 1)" by simp
  qed simp
  then have seq: "int (unat ?l) + 1 = swrap 64 (seq_of ?l + 1)" using assms(3) by (simp add: seq_of_small)
  have "of_int (int (unat ?l) + 1) = ?l + 1" by simp
  moreover have "unat (?l + 1) = unat ?l + 1" using assms(3) by (intro unat_inc_small) simp
  moreover have "AddtoSnapshot \<lparr>mdp_seq_num = int (unat ?l) + 1, mdp_update = u\<rparr> s =
      Inr (s1\<lparr>last_inc_seq_num := of_int (int (unat ?l) + 1)\<rparr>)"
    using seq by (simp add: AddtoSnapshot_def s1(1,3))
  ultimately show ?thesis using s1 by (auto simp: snap_rel_def)
qed

lemma AddtoSnapshot_all_ok:
  assumes "snap_rel s v" and "good_feed v us" and "unat (last_inc_seq_num s) + length us < 2 ^ 63"
  shows "\<exists>s'. AddtoSnapshot_all (numbered (int (unat (last_inc_seq_num s)) + 1) us) s = Inr s' \<and>
    snap_rel s' (mreplay v us) \<and> unat (last_inc_seq_num s') = unat (last_inc_seq_num s) + length us \<and>
    snapshot_socket s' = snapshot_socket s"
  using assms
proof (induction us arbitrary: s v)
  case (Cons u us)
  obtain s1 where s1: "AddtoSnapshot \<lparr>mdp_seq_num = int (unat (last_inc_seq_num s)) + 1, mdp_update = u\<rparr> s = Inr s1"
    "snap_rel s1 (mview_update v u)" "unat (last_inc_seq_num s1) = unat (last_inc_seq_num s) + 1"
    "snapshot_socket s1 = snapshot_socket s"
    using AddtoSnapshot_step [of s v u] Cons.prems by auto
  have "unat (last_inc_seq_num s1) + length us < 2 ^ 63" using Cons.prems(3) s1(3) by simp
  from Cons.IH [OF s1(2) _ this] Cons.prems(2) obtain s' where
    "AddtoSnapshot_all (numbered (int (unat (last_inc_seq_num s1)) + 1) us) s1 = Inr s'"
    "snap_rel s' (mreplay (mview_update v u) us)" "unat (last_inc_seq_num s') = unat (last_inc_seq_num s1) + length us"
    "snapshot_socket s' = snapshot_socket s1" by auto
  moreover have "int (unat (last_inc_seq_num s1)) + 1 = int (unat (last_inc_seq_num s)) + 1 + 1"
    unfolding s1(3) by simp
  ultimately show ?case using s1 by (simp only: numbered.simps AddtoSnapshot_all.simps bindE_simps mreplay_simps) simp
qed simp

lemma new_synthesizer_rel: "snap_rel (new_SnapshotSynthesizer debug) empty_view"
  by (auto simp: snap_rel_def new_SnapshotSynthesizer_def new_pool_inv mirror_ok_def mirror_ptrs_def
      mirror_view_def empty_view_def) (simp add: new_pool_def)

section \<open>The snapshot cycle\<close>

text \<open>The orders of a symbol and the messages of a cycle, in the order they are sent.\<close>

definition mirror_orders :: "SnapshotSynthesizer \<Rightarrow> nat \<Rightarrow> nat list \<Rightarrow> MatchingEngineMarketUpdate list" where
  "mirror_orders s sy is = concat (map (\<lambda>i. case symbol_orders s sy i of None \<Rightarrow> []
     | Some p \<Rightarrow> [the (lookup (ss_pool s) p)]) is)"

definition snapshot_body :: "SnapshotSynthesizer \<Rightarrow> nat list \<Rightarrow> MatchingEngineMarketUpdate list" where
  "snapshot_body s sys = concat (map (\<lambda>sy. clear_update sy # mirror_orders s sy [0..<kMaxOrderIds]) sys)"

definition snapshot_updates :: "SnapshotSynthesizer \<Rightarrow> MatchingEngineMarketUpdate list" where
  "snapshot_updates s = bound_update MU_SNAPSHOT_START (last_inc_seq_num s) #
     snapshot_body s [0..<kMaxSymbols] @ [bound_update MU_SNAPSHOT_END (last_inc_seq_num s)]"

text \<open>What a cycle has sent or holds for sending.\<close>

definition sent_bytes :: "cycle \<Rightarrow> u8 list" where
  "sent_bytes c = concat (snd (snd c)) @ outbound (fst (snd c))"

definition held :: "cycle \<Rightarrow> nat" where
  "held c = length (outbound (fst (snd c)))"

lemma emit_ok:
  assumes "held c + update_size < McastBufferSize"
  shows "\<exists>c'. emit flush u c = Inr c' \<and> fst c' = fst c + 1 \<and>
    sent_bytes c' = sent_bytes c @ mdp_bytes \<lparr>mdp_seq_num = fst c, mdp_update = u\<rparr> \<and>
    held c' = (if flush then 0 else held c + update_size)"
proof -
  obtain n sock out where c: "c = (n, sock, out)" by (cases c)
  then show ?thesis using assms
    by (cases flush) (simp_all add: emit_def mcast_send_def held_def sent_bytes_def update_size_def
        mcast_sendAndRecv_def socket_io_def Let_def)
qed

lemma emit_orders_ok:
  assumes "mirror_ok (symbol_orders s) (lookup (ss_pool s))" and "held c + update_size < McastBufferSize"
  shows "\<exists>c'. emit_orders s sy is c = Inr c' \<and> fst c' = fst c + int (length (mirror_orders s sy is)) \<and>
    sent_bytes c' = sent_bytes c @ concat (map mdp_bytes (numbered (fst c) (mirror_orders s sy is))) \<and> held c' \<le> held c"
  using assms(2)
proof (induction "is" arbitrary: c)
  case (Cons i "is")
  show ?case
  proof (cases "symbol_orders s sy i")
    case None
    then show ?thesis using Cons by (simp add: mirror_orders_def)
  next
    case (Some p)
    obtain x where x: "lookup (ss_pool s) p = Some x" using mirror_okD(3) [OF assms(1) Some] by blast
    obtain c1 where c1: "emit True x c = Inr c1" "fst c1 = fst c + 1"
      "sent_bytes c1 = sent_bytes c @ mdp_bytes \<lparr>mdp_seq_num = fst c, mdp_update = x\<rparr>" "held c1 = 0"
      using emit_ok [OF Cons.prems, of True x] by auto
    have "held c1 + update_size < McastBufferSize" using Cons.prems c1(4) by simp
    from Cons.IH [OF this] obtain c2 where c2: "emit_orders s sy is c1 = Inr c2"
      "fst c2 = fst c1 + int (length (mirror_orders s sy is))"
      "sent_bytes c2 = sent_bytes c1 @ concat (map mdp_bytes (numbered (fst c1) (mirror_orders s sy is)))" "held c2 \<le> held c1"
      by blast
    have l: "mirror_orders s sy (i # is) = x # mirror_orders s sy is" using Some x by (simp add: mirror_orders_def)
    have run: "emit_orders s sy (i # is) c = Inr c2" using c1(1) c2(1) Some x by simp
    show ?thesis unfolding run l using c1 c2 by simp
  qed
qed (simp add: mirror_orders_def)

lemma emit_symbols_ok:
  assumes "mirror_ok (symbol_orders s) (lookup (ss_pool s))"
    and "held c + (length sys + 1) * update_size < McastBufferSize"
  shows "\<exists>c'. emit_symbols s sys c = Inr c' \<and> fst c' = fst c + int (length (snapshot_body s sys)) \<and>
    sent_bytes c' = sent_bytes c @ concat (map mdp_bytes (numbered (fst c) (snapshot_body s sys))) \<and>
    held c' \<le> held c + length sys * update_size"
  using assms(2)
proof (induction sys arbitrary: c)
  case (Cons sy sys)
  let ?os = "mirror_orders s sy [0..<kMaxOrderIds]"
  obtain c1 where c1: "emit False (clear_update sy) c = Inr c1" "fst c1 = fst c + 1"
    "sent_bytes c1 = sent_bytes c @ mdp_bytes \<lparr>mdp_seq_num = fst c, mdp_update = clear_update sy\<rparr>" "held c1 = held c + update_size"
    using emit_ok [of c False "clear_update sy"] Cons.prems by (auto simp: update_size_def)
  have "held c1 + update_size < McastBufferSize" using Cons.prems c1(4) by (simp add: update_size_def)
  from emit_orders_ok [OF assms(1) this, of sy "[0..<kMaxOrderIds]"] obtain c2 where
    c2: "emit_orders s sy [0..<kMaxOrderIds] c1 = Inr c2" "fst c2 = fst c1 + int (length ?os)"
      "sent_bytes c2 = sent_bytes c1 @ concat (map mdp_bytes (numbered (fst c1) ?os))" "held c2 \<le> held c1" by blast
  have "held c2 + (length sys + 1) * update_size < McastBufferSize"
    using Cons.prems c1(4) c2(4) by (simp add: update_size_def)
  from Cons.IH [OF this] obtain c3 where
    c3: "emit_symbols s sys c2 = Inr c3" "fst c3 = fst c2 + int (length (snapshot_body s sys))"
      "sent_bytes c3 = sent_bytes c2 @ concat (map mdp_bytes (numbered (fst c2) (snapshot_body s sys)))"
      "held c3 \<le> held c2 + length sys * update_size" by blast
  have body: "snapshot_body s (sy # sys) = clear_update sy # ?os @ snapshot_body s sys"
    by (simp add: snapshot_body_def)
  have run: "emit_symbols s (sy # sys) c = Inr c3" using c1(1) c2(1) c3(1) by simp
  show ?case unfolding run body using c1 c2 c3
    by (simp add: numbered_append add.assoc)
qed (simp add: snapshot_body_def)

lemma PublishSnapshot_ok:
  assumes "snap_rel s v" and "outbound (snapshot_socket s) = []"
  shows "\<exists>out sock. PublishSnapshot s = Inr (out, s\<lparr>snapshot_socket := sock\<rparr>) \<and> outbound sock = [] \<and>
    concat out = concat (map mdp_bytes (numbered 0 (snapshot_updates s)))"
proof -
  have ok: "mirror_ok (symbol_orders s) (lookup (ss_pool s))" using assms(1) by (simp add: snap_rel_def)
  let ?l = "last_inc_seq_num s" and ?body = "snapshot_body s [0..<kMaxSymbols]"
  have c0: "held (0, snapshot_socket s, []) = 0" "sent_bytes (0, snapshot_socket s, []) = []"
    using assms(2) by (simp_all add: held_def sent_bytes_def)
  obtain c1 where c1: "emit False (bound_update MU_SNAPSHOT_START ?l) (0, snapshot_socket s, []) = Inr c1" "fst c1 = 1"
    "sent_bytes c1 = mdp_bytes \<lparr>mdp_seq_num = 0, mdp_update = bound_update MU_SNAPSHOT_START ?l\<rparr>" "held c1 = update_size"
  proof -
    have "held (0, snapshot_socket s, []) + update_size < McastBufferSize"
      unfolding c0 by (simp add: update_size_def McastBufferSize_def)
    from emit_ok [OF this, of False "bound_update MU_SNAPSHOT_START ?l"] show ?thesis
      unfolding c0 by (elim exE conjE) (rule that; simp)
  qed
  have "held c1 + (length [0..<kMaxSymbols] + 1) * update_size < McastBufferSize"
    by (simp add: c1(4) update_size_def McastBufferSize_def capacity_defs)
  from emit_symbols_ok [OF ok this] obtain c2 where c2: "emit_symbols s [0..<kMaxSymbols] c1 = Inr c2"
    "fst c2 = fst c1 + int (length ?body)"
    "sent_bytes c2 = sent_bytes c1 @ concat (map mdp_bytes (numbered (fst c1) ?body))"
    "held c2 \<le> held c1 + length [0..<kMaxSymbols] * update_size" by blast
  have "held c2 + update_size < McastBufferSize"
    using c2(4) by (simp add: c1(4) update_size_def McastBufferSize_def capacity_defs)
  from emit_ok [OF this, of True "bound_update MU_SNAPSHOT_END ?l"] obtain c3 where
    c3: "emit True (bound_update MU_SNAPSHOT_END ?l) c2 = Inr c3"
      "sent_bytes c3 = sent_bytes c2 @ mdp_bytes \<lparr>mdp_seq_num = fst c2, mdp_update = bound_update MU_SNAPSHOT_END ?l\<rparr>"
      "held c3 = 0" by auto
  obtain n sock out where o3: "c3 = (n, sock, out)" by (cases c3)
  have "PublishSnapshot s = Inr (out, s\<lparr>snapshot_socket := sock\<rparr>)"
    by (simp add: PublishSnapshot_def c1(1) c2(1) c3(1) o3)
  moreover have "outbound sock = []" using c3(3) by (simp add: held_def o3)
  moreover have "concat out = concat (map mdp_bytes (numbered 0 (snapshot_updates s)))"
    using c3(2) c2(2,3) c1(2,3) \<open>outbound sock = []\<close>
    by (simp add: sent_bytes_def o3 snapshot_updates_def numbered_append)
  ultimately show ?thesis by blast
qed

text \<open>A cycle replays to the mirror, whatever the receiver held before.\<close>

lemma replay_orders:
  assumes "mirror_ok (symbol_orders s) (lookup (ss_pool s))" and "sy < kMaxSymbols"
  shows "mreplay w (mirror_orders s sy is) = w(sy := (\<lambda>oid. if unat oid \<in> set is \<and> symbol_orders s sy (unat oid) \<noteq> None
     then mirror_view (symbol_orders s) (lookup (ss_pool s)) sy oid else w sy oid))"
proof (induction "is" arbitrary: w)
  case (Cons i "is")
  show ?case
  proof (cases "symbol_orders s sy i")
    case None
    then have "mirror_orders s sy (i # is) = mirror_orders s sy is" by (simp add: mirror_orders_def)
    with None Cons [of w] show ?thesis by (auto simp: fun_eq_iff)
  next
    case (Some p)
    obtain x where x: "lookup (ss_pool s) p = Some x" "mu_type x = MU_ADD" "unat (mu_symbol_id x) = sy" "unat (mu_order_id x) = i"
      using mirror_okD(3) [OF assms(1) Some] by blast
    have l: "mirror_orders s sy (i # is) = x # mirror_orders s sy is" using Some x(1) by (simp add: mirror_orders_def)
    have upd: "mview_update w x = w(sy := (w sy)(mu_order_id x \<mapsto> order_data x))"
      using x by (simp add: mview_update_def view_update_def order_data_def Let_def)
    have same: "unat oid = i \<longleftrightarrow> oid = mu_order_id x" for oid using x(4) unat_inj by blast
    have here: "mirror_view (symbol_orders s) (lookup (ss_pool s)) sy (mu_order_id x) = Some (order_data x)"
      "symbol_orders s sy (unat (mu_order_id x)) \<noteq> None"
      using x Some by (simp_all add: mirror_view_def)
    show ?thesis unfolding l mreplay_simps Cons upd
    proof (intro ext)
      fix sy' oid
      show "(w(sy := (w sy)(mu_order_id x \<mapsto> order_data x), sy := (\<lambda>oid. if unat oid \<in> set is \<and> symbol_orders s sy (unat oid) \<noteq> None
           then mirror_view (symbol_orders s) (lookup (ss_pool s)) sy oid else (w(sy := (w sy)(mu_order_id x \<mapsto> order_data x))) sy oid))) sy' oid =
        (w(sy := (\<lambda>oid. if unat oid \<in> set (i # is) \<and> symbol_orders s sy (unat oid) \<noteq> None
           then mirror_view (symbol_orders s) (lookup (ss_pool s)) sy oid else w sy oid))) sy' oid"
        using here same [of oid] by (cases "oid = mu_order_id x") auto
    qed
  qed
qed (simp add: mirror_orders_def)

lemma replay_body:
  assumes ok: "mirror_ok (symbol_orders s) (lookup (ss_pool s))" and "set sys \<subseteq> {..<kMaxSymbols}"
  shows "mreplay w (snapshot_body s sys) = (\<lambda>sy. if sy \<in> set sys
     then mirror_view (symbol_orders s) (lookup (ss_pool s)) sy else w sy)"
  using assms(2)
proof (induction sys arbitrary: w)
  case (Cons sy sys)
  let ?mv = "mirror_view (symbol_orders s) (lookup (ss_pool s))"
  have lt: "sy < kMaxSymbols" using Cons.prems by simp
  have clear: "mview_update w (clear_update sy) = w(sy := Map.empty)"
    using small_symbol [OF lt] by (simp add: mview_update_def clear_update_def Let_def)
  have orders: "mreplay (w(sy := Map.empty)) (mirror_orders s sy [0..<kMaxOrderIds]) = w(sy := ?mv sy)"
  proof -
    have out: "?mv sy oid = None" if "\<not> (unat oid < kMaxOrderIds \<and> symbol_orders s sy (unat oid) \<noteq> None)" for oid
      using that mirror_okD(2) [OF ok, of sy "unat oid"] by (auto simp: mirror_view_def split: option.splits)
    show ?thesis unfolding replay_orders [OF ok lt]
    proof (intro ext)
      fix sy' oid
      show "(w(sy := Map.empty, sy := (\<lambda>oid. if unat oid \<in> set [0..<kMaxOrderIds] \<and> symbol_orders s sy (unat oid) \<noteq> None
          then ?mv sy oid else (w(sy := Map.empty)) sy oid))) sy' oid = (w(sy := ?mv sy)) sy' oid"
        using out [of oid] by auto
    qed
  qed
  have "snapshot_body s (sy # sys) = clear_update sy # mirror_orders s sy [0..<kMaxOrderIds] @ snapshot_body s sys"
    by (simp add: snapshot_body_def)
  then show ?case using Cons by (auto simp: clear orders fun_eq_iff)
qed (simp add: snapshot_body_def)

lemma replay_snapshot_body:
  assumes "snap_rel s v"
  shows "mreplay w (snapshot_body s [0..<kMaxSymbols]) = (\<lambda>sy. if sy < kMaxSymbols then v sy else w sy)"
  using assms replay_body [of s "[0..<kMaxSymbols]" w] by (auto simp: snap_rel_def lessThan_atLeast0)

section \<open>Properties\<close>

lemma mirror_after:
  assumes "good_feed empty_view us" and "length us < 2 ^ 63"
  shows "\<exists>s. AddtoSnapshot_all (numbered 1 us) (new_SnapshotSynthesizer debug) = Inr s \<and> snap_rel s (mreplay empty_view us) \<and>
    unat (last_inc_seq_num s) = length us \<and> outbound (snapshot_socket s) = []"
proof -
  have new: "unat (last_inc_seq_num (new_SnapshotSynthesizer debug)) = 0" "outbound (snapshot_socket (new_SnapshotSynthesizer debug)) = []"
    by (simp_all add: new_SnapshotSynthesizer_def new_socket_def)
  have "unat (last_inc_seq_num (new_SnapshotSynthesizer debug)) + length us < 2 ^ 63" using assms(2) by (simp only: new add_0)
  from AddtoSnapshot_all_ok [OF new_synthesizer_rel assms(1) this] show ?thesis by (auto simp: new)
qed

text \<open>C17: The synthesizer never stops on a well-formed stream of updates, and a snapshot it publishes
  after the first \<open>L\<close> updates is exactly that state: the bytes of the cycle are the messages numbered
  0, 1, 2, \<open>\<dots>\<close>, first a start and last an end message that both carry \<open>L\<close>, and what lies between
  them rebuilds, on a receiver in any state, the market as it is after the first \<open>L\<close> updates.\<close>

theorem snapshot_rebuilds_market:
  assumes "good_feed empty_view us" and "length us < 2 ^ 63"
  shows "\<exists>s out s' body. AddtoSnapshot_all (numbered 1 us) (new_SnapshotSynthesizer debug) = Inr s \<and>
    PublishSnapshot s = Inr (out, s') \<and>
    concat out = concat (map mdp_bytes (numbered 0 (bound_update MU_SNAPSHOT_START (of_nat (length us)) # body @
      [bound_update MU_SNAPSHOT_END (of_nat (length us))]))) \<and>
    (\<forall>w sy. sy < kMaxSymbols \<longrightarrow> mreplay w body sy = mreplay empty_view us sy)"
proof -
  obtain s where s: "AddtoSnapshot_all (numbered 1 us) (new_SnapshotSynthesizer debug) = Inr s" "snap_rel s (mreplay empty_view us)"
    "unat (last_inc_seq_num s) = length us" "outbound (snapshot_socket s) = []"
    using mirror_after [OF assms] by blast
  obtain out sock where out: "PublishSnapshot s = Inr (out, s\<lparr>snapshot_socket := sock\<rparr>)"
    "concat out = concat (map mdp_bytes (numbered 0 (snapshot_updates s)))"
    using PublishSnapshot_ok [OF s(2,4)] by blast
  have "last_inc_seq_num s = of_nat (length us)" unfolding s(3) [symmetric] by simp
  then show ?thesis using s(1) out replay_snapshot_body [OF s(2)] unfolding snapshot_updates_def by auto
qed

definition example_feed :: "MatchingEngineMarketUpdate list" where
  "example_feed =
    [\<lparr>mu_type = MU_ADD, mu_symbol_id = 3, mu_order_id = 1, mu_side = BUY, mu_price = 100, mu_quantity = 10, mu_priority = 1\<rparr>,
     \<lparr>mu_type = MU_ADD, mu_symbol_id = 5, mu_order_id = 1, mu_side = SELL, mu_price = 90, mu_quantity = 4, mu_priority = 1\<rparr>,
     \<lparr>mu_type = MU_TRADE, mu_symbol_id = 3, mu_order_id = 1, mu_side = BUY, mu_price = 100, mu_quantity = 6, mu_priority = 0\<rparr>,
     \<lparr>mu_type = MU_MODIFY, mu_symbol_id = 3, mu_order_id = 1, mu_side = BUY, mu_price = 100, mu_quantity = 4, mu_priority = 1\<rparr>]"

lemma live_keys_update: "live_keys (mview_update v u) \<subseteq> insert (unat (mu_symbol_id u), mu_order_id u) (live_keys v)"
  by (auto simp: live_keys_def mview_update_def view_update_def Let_def split: if_splits MarketUpdateType.splits)

lemma example_feed_good: "good_feed empty_view example_feed"
proof -
  have 0: "live_keys empty_view = {}" by (simp add: live_keys_def empty_view_def)
  have "card (live_keys (mview_update empty_view (hd example_feed))) \<le> card {(3 :: nat, 1 :: OrderId)}"
    using live_keys_update [of empty_view "hd example_feed"] by (intro card_mono) (auto simp: 0 example_feed_def)
  then show ?thesis
    by (simp add: example_feed_def continues_def 0 [unfolded empty_view_def] capacity_defs mview_update_def view_update_def empty_view_def Let_def)
qed

theorem snapshot_rebuilds_market_witness:
  "\<exists>s out s' body. AddtoSnapshot_all (numbered 1 example_feed) (new_SnapshotSynthesizer True) = Inr s \<and>
    PublishSnapshot s = Inr (out, s') \<and>
    concat out = concat (map mdp_bytes (numbered 0 (bound_update MU_SNAPSHOT_START (of_nat (length example_feed)) # body @
      [bound_update MU_SNAPSHOT_END (of_nat (length example_feed))]))) \<and>
    (\<forall>w sy. sy < kMaxSymbols \<longrightarrow> mreplay w body sy = mreplay empty_view example_feed sy)"
  by (rule snapshot_rebuilds_market [OF example_feed_good]) (simp add: example_feed_def)

text \<open>C40: The mirror is indexed by market order id, which the book never reuses: an order that rests
  with a market order id of \<open>kMaxOrderIds\<close> or more, that is after \<open>kMaxOrderIds\<close> accepted orders of
  its symbol, is published by the book but stops the synthesizer with an out-of-range exception,
  whatever its state.\<close>

theorem market_id_overflow_stops_synthesizer:
  assumes "book_inv b" and "valid_request (Add_Request cid coid side price qty) b"
    and "Add cid coid side price qty b = Inr b'"
    and "kMaxOrderIds \<le> unat (next_market_order_id b)" and "u \<in> set (new_updates b b')" and "mu_type u = MU_ADD"
    and "unat (bk_symbol_id b) < kMaxSymbols"
  shows "AddtoSnapshot \<lparr>mdp_seq_num = n, mdp_update = u\<rparr> s = Inl Out_Of_Range"
proof -
  obtain Q where rel: "book_rel b Q" using assms(1) by (auto simp: book_inv_def)
  have nxt: "ab_next (book_abs b) = next_market_order_id b" by (simp add: book_abs_eq [OF rel] abs_next)
  obtain fs left a' where m: "fill_levels (crossing_ticks (side = BUY) (ToTick (bk_band b) price)
      (ab_side (book_abs b) (side \<noteq> BUY))) qty (ab_side (book_abs b) (side \<noteq> BUY)) = (fs, left, a')"
    by (metis prod_cases3)
  have "implements b (spec_request (bk_symbol_id b) (bk_band b) (Add_Request cid coid side price qty) (book_abs b)) b'"
    using valid_request_runs [OF assms(1,2)] assms(3) by (auto simp: apply_request_def)
  then have "new_updates b b' = out_updates (spec_add (bk_symbol_id b) (bk_band b) cid coid side price qty (book_abs b))"
    by (simp add: implements_def new_updates_def spec_request_def)
  then have "u \<in> set (fill_updates (bk_symbol_id b) (bk_band b) (dir (side \<noteq> BUY)) fs) \<or>
      mu_order_id u = next_market_order_id b \<and> mu_symbol_id u = bk_symbol_id b"
    using assms(5) m by (auto simp: spec_add_def Let_def nxt split: if_splits)
  moreover have "u \<notin> set (fill_updates (bk_symbol_id b) (bk_band b) (dir (side \<noteq> BUY)) fs)"
    using assms(6) by (auto simp: fill_updates_def fill_update_def order_update_def)
  ultimately show ?thesis using assms(4,6,7)
    by (simp add: AddtoSnapshot_def apply_to_snapshot_def Let_def)
qed

text \<open>A book may issue any larger order id next.\<close>

lemma book_inv_next:
  assumes inv: "book_inv b" and le: "next_market_order_id b \<le> n"
  shows "book_inv (b\<lparr>next_market_order_id := n\<rparr>)"
proof -
  let ?b = "b\<lparr>next_market_order_id := n\<rparr>"
  obtain Q where rel: "book_rel b Q" and ok: "abook_ok (book_abs b)" using inv by (auto simp: book_inv_def)
  have same: "sideof s ?b = sideof s b" "idx ?b = idx b" for s by (simp_all add: sideof_def idx_def fun_eq_iff)
  have rel': "book_rel ?b Q" using rel unfolding book_rel_def same by simp
  have abs': "book_abs ?b = (book_abs b)\<lparr>ab_next := n\<rparr>"
    by (simp add: book_abs_eq [OF rel] book_abs_eq [OF rel'] abs_with_def same)
  have nxt: "ab_next (book_abs b) = next_market_order_id b" by (simp add: book_abs_eq [OF rel] abs_next)
  have "level_wf n (ab_side (book_abs b) s t)" for s t
    using ok le unfolding abook_ok_def level_wf_def nxt
    by (meson order.strict_trans2 order_trans word_le_nat_alt)
  then have "abook_ok (book_abs ?b)" using ok
    by (simp add: abs' abook_ok_def distinct_moids_def uncrossed_def)
  with rel' show ?thesis by (auto simp: book_inv_def)
qed

definition aged_book :: BookCore where
  "aged_book = (projr (new_BookCore True 0 kDefaultPriceBand))\<lparr>next_market_order_id := 2 ^ 20\<rparr>"

lemma aged_book_inv: "book_inv aged_book"
proof -
  obtain b where b: "new_BookCore True 0 kDefaultPriceBand = Inr b" "book_inv b"
    using new_BookCore_ok [OF default_band_valid, of True 0] by blast
  have "next_market_order_id b = 1" using b(1) by (auto simp: new_BookCore_def bindE_eq_Inr)
  with book_inv_next [OF b(2)] show ?thesis by (simp add: aged_book_def b(1))
qed

theorem market_id_overflow_stops_synthesizer_witness:
  "AddtoSnapshot \<lparr>mdp_seq_num = 1, mdp_update = last (new_updates aged_book (projr (Add 1 1 BUY 100 10 aged_book)))\<rparr> (new_SnapshotSynthesizer True) = Inl Out_Of_Range"
proof (rule market_id_overflow_stops_synthesizer [OF aged_book_inv])
  show v: "valid_request (Add_Request 1 1 BUY 100 10) aged_book" by (simp add: aged_book_def book_eval)
  show "Add 1 1 BUY 100 10 aged_book = Inr (projr (Add 1 1 BUY 100 10 aged_book))"
    using request_keeps_inv [OF aged_book_inv v] by (simp add: apply_request_def)
qed (simp_all add: aged_book_def book_eval new_updates_def)

end
