(* ===== verification/Market_Data_Consumer.thy ===== *)
theory Market_Data_Consumer
  imports Snapshot_Mirror
begin

text \<open>
  \<open>trading::MarketDataConsumer\<close>: it follows the numbered update stream and, after a gap, joins the
  snapshot stream, queues both and rebuilds the market from a complete snapshot and the updates
  after it. The two \<open>std::map\<close> queues are association lists sorted by sequence number; the
  snapshot socket is open or closed; \<open>joined\<close> is what creating and joining it returns.
\<close>

section \<open>Queues\<close>

type_synonym queued = "(int \<times> MatchingEngineMarketUpdate) list"

text \<open>\<open>m[k] = u\<close> on a sorted association list.\<close>

fun map_put :: "int \<Rightarrow> MatchingEngineMarketUpdate \<Rightarrow> queued \<Rightarrow> queued" where
  "map_put k u [] = [(k, u)]"
| "map_put k u ((k', u') # q) = (if k < k' then (k, u) # (k', u') # q
     else if k = k' then (k, u) # q else (k', u') # map_put k u q)"

definition map_has :: "int \<Rightarrow> queued \<Rightarrow> bool" where
  "map_has k q \<longleftrightarrow> k \<in> fst ` set q"

record MarketDataConsumer =
  next_exp_inc_seq_num :: int
  in_recovery :: bool
  snapshot_queued_msgs :: queued
  incremental_queued_msgs :: queued
  incoming_md_updates :: "MatchingEngineMarketUpdate list"
  snapshot_open :: bool

definition new_MarketDataConsumer :: MarketDataConsumer where
  "new_MarketDataConsumer = \<lparr>next_exp_inc_seq_num = 1, in_recovery = False, snapshot_queued_msgs = [],
     incremental_queued_msgs = [], incoming_md_updates = [], snapshot_open = False\<rparr>"

section \<open>Operations\<close>

definition startSnapshotSync :: "bool \<Rightarrow> MarketDataConsumer \<Rightarrow> MarketDataConsumer result" where
  "startSnapshotSync joined c =
     bindE (ASSERT joined ''Unable to create or join snapshot mcast socket.'') (\<lambda>_.
       Inr (c\<lparr>snapshot_queued_msgs := [], incremental_queued_msgs := [], snapshot_open := True\<rparr>))"

definition is_bound :: "MatchingEngineMarketUpdate \<Rightarrow> bool" where
  "is_bound u \<longleftrightarrow> mu_type u = MU_SNAPSHOT_START \<or> mu_type u = MU_SNAPSHOT_END"

text \<open>The loop over the queued snapshot: the events, or \<open>None\<close> at the first gap.\<close>

fun snapshot_scan :: "int \<Rightarrow> queued \<Rightarrow> MatchingEngineMarketUpdate list option" where
  "snapshot_scan n [] = Some []"
| "snapshot_scan n ((k, u) # q) = (if k \<noteq> n then None
     else map_option (\<lambda>es. if is_bound u then es else u # es) (snapshot_scan (n + 1) q))"

text \<open>The loop over the queued updates: the number it stops at, and the events unless it met a gap.\<close>

fun incremental_scan :: "int \<Rightarrow> queued \<Rightarrow> int \<times> MatchingEngineMarketUpdate list option" where
  "incremental_scan n [] = (n, Some [])"
| "incremental_scan n ((k, u) # q) =
     (if k < n then incremental_scan n q
      else if k \<noteq> n then (n, None)
      else case incremental_scan (n + 1) q of
          (m, es) \<Rightarrow> (m, map_option (\<lambda>es. if is_bound u then es else u # es) es))"

definition checkSnapshotSync :: "MarketDataConsumer \<Rightarrow> MarketDataConsumer" where
  "checkSnapshotSync c =
     (let q = snapshot_queued_msgs c in
      if q = [] then c
      else
        let first = snd (hd q); final = snd (last q); cleared = c\<lparr>snapshot_queued_msgs := []\<rparr> in
        if mu_type first \<noteq> MU_SNAPSHOT_START then cleared
        else case snapshot_scan 0 q of
          None \<Rightarrow> cleared
        | Some events \<Rightarrow>
            if mu_type final \<noteq> MU_SNAPSHOT_END then c
            else if mu_order_id first \<noteq> mu_order_id final then cleared
            else case incremental_scan (seq_of (mu_order_id final) + 1) (incremental_queued_msgs c) of
                (next, None) \<Rightarrow> cleared\<lparr>next_exp_inc_seq_num := next\<rparr>
              | (next, Some later) \<Rightarrow>
                  c\<lparr>next_exp_inc_seq_num := next, incoming_md_updates := incoming_md_updates c @ events @ later,
                    snapshot_queued_msgs := [], incremental_queued_msgs := [], in_recovery := False,
                    snapshot_open := False\<rparr>)"

definition queueMessage :: "bool \<Rightarrow> MarketDataPublisherMarketUpdate \<Rightarrow> MarketDataConsumer \<Rightarrow> MarketDataConsumer" where
  "queueMessage is_snapshot m c =
     (let k = mdp_seq_num m; u = mdp_update m in
      checkSnapshotSync
        (if is_snapshot then
           let q1 = (if k = 0 then [] else snapshot_queued_msgs c);
               q2 = (if map_has k q1 then [] else q1) in
           c\<lparr>snapshot_queued_msgs := map_put k u q2\<rparr>
         else c\<lparr>incremental_queued_msgs := map_put k u (incremental_queued_msgs c)\<rparr>))"

text \<open>The body of the loop over the received messages.\<close>

definition consume :: "bool \<Rightarrow> bool \<Rightarrow> MarketDataPublisherMarketUpdate \<Rightarrow> MarketDataConsumer \<Rightarrow> MarketDataConsumer result" where
  "consume joined is_snapshot m c =
     (if mdp_seq_num m < 0 then Inr c
      else if is_snapshot \<and> \<not> in_recovery c then Inr c
      else if \<not> is_snapshot \<and> \<not> in_recovery c \<and> mdp_seq_num m < next_exp_inc_seq_num c then Inr c
      else
        let already = in_recovery c;
            c1 = c\<lparr>in_recovery := already \<or> mdp_seq_num m \<noteq> next_exp_inc_seq_num c\<rparr> in
        if in_recovery c1 then
          bindE (if already then Inr c1 else startSnapshotSync joined c1) (\<lambda>c2. Inr (queueMessage is_snapshot m c2))
        else if \<not> is_snapshot then
          Inr (c1\<lparr>next_exp_inc_seq_num := next_exp_inc_seq_num c1 + 1,
                 incoming_md_updates := incoming_md_updates c1 @ [mdp_update m]\<rparr>)
        else Inr c1)"

fun consume_all :: "bool \<Rightarrow> bool \<Rightarrow> MarketDataPublisherMarketUpdate list \<Rightarrow> MarketDataConsumer \<Rightarrow> MarketDataConsumer result" where
  "consume_all joined is_snapshot [] c = Inr c"
| "consume_all joined is_snapshot (m # ms) c = bindE (consume joined is_snapshot m c) (consume_all joined is_snapshot ms)"

text \<open>The callback on one of the two sockets.\<close>

definition md_recvCallback :: "bool \<Rightarrow> bool \<Rightarrow> Socket \<Rightarrow> MarketDataConsumer \<Rightarrow> (Socket \<times> MarketDataConsumer) result" where
  "md_recvCallback joined is_snapshot socket c =
     (if is_snapshot \<and> \<not> in_recovery c then Inr (socket\<lparr>inbound := []\<rparr>, c)
      else if update_size \<le> length (inbound socket) then
        let (fs, rest) = frames update_size (inbound socket) in
        bindE (consume_all joined is_snapshot (map mdp_of fs) c) (\<lambda>c'. Inr (socket\<lparr>inbound := rest\<rparr>, c'))
      else Inr (socket, c))"

section \<open>Lemmas on the queues\<close>

lemma map_put_keys: "fst ` set (map_put k u q) = insert k (fst ` set q)"
  by (induction k u q rule: map_put.induct) (simp_all add: insert_commute)

lemma map_put_sorted: "sorted_wrt (<) (map fst q) \<Longrightarrow> sorted_wrt (<) (map fst (map_put k u q))"
proof (induction q)
  case (Cons x q)
  obtain k' u' where x: "x = (k', u')" by (cases x)
  have "\<forall>j \<in> fst ` set (map_put k u q). k' < j" if "\<not> k < k'" "k \<noteq> k'"
    using Cons.prems that by (auto simp: x map_put_keys)
  with Cons show ?case by (auto simp: x)
qed simp

lemma map_put_set: "sorted_wrt (<) (map fst q) \<Longrightarrow>
    set (map_put k u q) = insert (k, u) (set q - {x. fst x = k})"
proof (induction q)
  case (Cons x q)
  obtain k' u' where x: "x = (k', u')" by (cases x)
  have gt: "\<forall>y \<in> set q. k' < fst y" using Cons.prems by (auto simp: x)
  show ?case using Cons gt by (auto simp: x)
qed simp

lemma map_put_ne: "map_put k u q \<noteq> []"
  using map_put_keys [of k u q] by auto

text \<open>A complete scan determines the keys.\<close>

lemma snapshot_scan_Some:
  "snapshot_scan n q = Some es \<Longrightarrow> es = filter (\<lambda>u. \<not> is_bound u) (map snd q) \<and> map fst q = map (\<lambda>i. n + int i) [0..<length q]"
proof (induction q arbitrary: n es)
  case (Cons x q)
  obtain k u where x: "x = (k, u)" by (cases x)
  obtain es' where es': "snapshot_scan (n + 1) q = Some es'" "k = n" "es = (if is_bound u then es' else u # es')"
    using Cons.prems by (auto simp: x split: if_splits)
  have "map (\<lambda>i. n + int i) [0..<Suc (length q)] = n # map (\<lambda>i. n + 1 + int i) [0..<length q]"
    by (simp add: upt_conv_Cons del: upt_Suc) (simp add: map_Suc_upt [symmetric] add.assoc del: upt_Suc)
  with Cons.IH [OF es'(1)] es'(2,3) show ?case by (simp add: x)
qed simp

text \<open>The events of a complete run of updates are those from the start number on.\<close>

lemma incremental_scan_Some:
  assumes "sorted_wrt (<) (map fst q)" and "\<forall>(k, u) \<in> set q. u = inc k \<and> \<not> is_bound u"
    and "incremental_scan n q = (m, Some es)"
  shows "n \<le> m \<and> es = map inc [n..m - 1]"
  using assms
proof (induction q arbitrary: n m es)
  case Nil
  then show ?case by simp
next
  case (Cons x q)
  obtain k u where x: "x = (k, u)" by (cases x)
  have q: "sorted_wrt (<) (map fst q)" "\<forall>(k, u) \<in> set q. u = inc k \<and> \<not> is_bound u" "u = inc k" "\<not> is_bound u"
    using Cons.prems(1,2) by (auto simp: x)
  show ?case
  proof (cases "k < n")
    case True
    then show ?thesis using Cons.IH [OF q(1,2)] Cons.prems(3) by (simp add: x)
  next
    case False
    obtain es' where r: "k = n" "incremental_scan (n + 1) q = (m, Some es')" "es = u # es'"
      using Cons.prems(3) False q(4) by (auto simp: x split: if_splits prod.splits)
    have "n + 1 \<le> m" "es' = map inc [n + 1..m - 1]" using Cons.IH [OF q(1,2) r(2)] by simp_all
    moreover from this have "[n..m - 1] = n # [n + 1..m - 1]" by (simp add: upto_rec1)
    ultimately show ?thesis using r q(3) by simp
  qed
qed

end
