(* ===== verification/Recovery.thy ===== *)
theory Recovery
  imports Market_Data_Consumer
begin

text \<open>
  Why a receiver that loses messages ends up with the right market. The locale \<open>market_feed\<close> states
  what the consumer needs of the exchange: numbered updates, and snapshots that carry the number
  they were taken at and rebuild the market of that moment. Its interpretation on the publisher's
  and synthesizer's models discharges these laws.
\<close>

section \<open>Replays per symbol\<close>

lemma mreplay_local: "w sy = w' sy \<Longrightarrow> mreplay w us sy = mreplay w' us sy"
proof (induction us arbitrary: w w')
  case (Cons u us)
  have "mview_update w u sy = mview_update w' u sy" using Cons.prems
    by (cases "sy = unat (mu_symbol_id u)") (simp_all add: mview_update_def Let_def)
  then have "mreplay (mview_update w u) us sy = mreplay (mview_update w' u) us sy" by (rule Cons.IH)
  then show ?case by simp
qed simp

definition agrees :: "market_view \<Rightarrow> market_view \<Rightarrow> bool" where
  "agrees v w \<longleftrightarrow> (\<forall>sy < kMaxSymbols. v sy = w sy)"

lemma agrees_replay: "agrees v w \<Longrightarrow> agrees (mreplay v us) (mreplay w us)"
  by (auto simp: agrees_def intro: mreplay_local)

lemma agrees_trans: "agrees u v \<Longrightarrow> agrees v w \<Longrightarrow> agrees u w"
  by (simp add: agrees_def)

text \<open>The market as a receiver of the consumer's output sees it.\<close>

definition client_view :: "MarketDataConsumer \<Rightarrow> market_view" where
  "client_view c = mreplay empty_view (incoming_md_updates c)"

lemma seq_of_of_int:
  assumes "0 \<le> L" and "L < 2 ^ 63"
  shows "seq_of (of_int L :: u64) = L"
proof -
  have u: "uint (of_int L :: u64) = L" using assms by (simp add: uint_word_of_int_eq take_bit_int_eq_self)
  then have v: "int (unat (of_int L :: u64)) = L" by simp
  have "int (unat (of_int L :: u64)) < int (2 ^ 63)" using assms u by simp
  then have "unat (of_int L :: u64) < 2 ^ 63" by (simp only: of_nat_less_iff)
  then show ?thesis by (simp only: seq_of_small v)
qed

section \<open>Events\<close>

text \<open>A message of the update stream, or of the snapshot cycle taken after update \<open>L\<close>.\<close>

datatype md_event = Incremental MarketDataPublisherMarketUpdate | Snapshot int MarketDataPublisherMarketUpdate

definition consume_event :: "md_event \<Rightarrow> MarketDataConsumer \<Rightarrow> MarketDataConsumer result" where
  "consume_event e c = (case e of Incremental m \<Rightarrow> consume True False m c | Snapshot L m \<Rightarrow> consume True True m c)"

fun consume_events :: "md_event list \<Rightarrow> MarketDataConsumer \<Rightarrow> MarketDataConsumer result" where
  "consume_events [] c = Inr c"
| "consume_events (e # es) c = bindE (consume_event e c) (consume_events es)"

lemma consume_events_append: "consume_events (as @ bs) c = bindE (consume_events as c) (consume_events bs)"
  by (induction as arbitrary: c) (simp_all add: bindE_def split: sum.splits)

text \<open>
  The same with the outcome of creating and joining the snapshot socket, should this message start a
  recovery, given with each message. A failure is the only fault of the consumer, and no message is
  handled differently otherwise.
\<close>

fun consume_joining :: "(bool \<times> md_event) list \<Rightarrow> MarketDataConsumer \<Rightarrow> MarketDataConsumer result" where
  "consume_joining [] c = Inr c"
| "consume_joining ((joined, e) # es) c =
     bindE (case e of Incremental m \<Rightarrow> consume joined False m c | Snapshot L m \<Rightarrow> consume joined True m c) (consume_joining es)"

definition join_fault :: fault where
  "join_fault = Assert_Fail ''Unable to create or join snapshot mcast socket.''"

lemma consume_joined: "\<exists>d. consume True snap m c = Inr d"
  by (simp add: consume_def Let_def startSnapshotSync_def)

lemma consume_outcome: "consume joined snap m c = consume True snap m c \<or> \<not> joined \<and> consume joined snap m c = Inl join_fault"
  by (simp add: consume_def Let_def startSnapshotSync_def ASSERT_def join_fault_def)

lemma consume_joining_outcome:
  "case consume_joining jes c of
     Inr d \<Rightarrow> consume_events (map snd jes) c = Inr d
   | Inl f \<Rightarrow> f = join_fault \<and> (\<exists>je \<in> set jes. \<not> fst je)"
proof (induction jes arbitrary: c)
  case (Cons je jes)
  obtain joined e where je: "je = (joined, e)" by (cases je)
  define snap m where "snap = (case e of Incremental m \<Rightarrow> False | Snapshot L m \<Rightarrow> True)"
    and "m = (case e of Incremental m \<Rightarrow> m | Snapshot L m \<Rightarrow> m)"
  have here: "consume_joining (je # jes) c = bindE (consume joined snap m c) (consume_joining jes)"
    "consume_events (map snd (je # jes)) c = bindE (consume True snap m c) (consume_events (map snd jes))"
    by (simp_all add: je snap_def m_def consume_event_def split: md_event.split)
  show ?case
  proof (cases "consume joined snap m c = consume True snap m c")
    case True
    obtain d where d: "consume True snap m c = Inr d" using consume_joined by blast
    have "consume_joining (je # jes) c = consume_joining jes d" "consume_events (map snd (je # jes)) c = consume_events (map snd jes) d"
      unfolding here True d by simp_all
    then show ?thesis using Cons.IH [of d] by (auto simp del: consume_joining.simps split: sum.splits)
  next
    case False
    then have "\<not> joined" "consume_joining (je # jes) c = Inl join_fault"
      using consume_outcome [of joined snap m c] unfolding here(1) by auto
    then show ?thesis by (simp add: je del: consume_joining.simps)
  qed
qed simp

lemma consume_joining_True: "consume_joining (map (Pair True) es) c = consume_events es c"
proof (induction es arbitrary: c)
  case (Cons e es)
  then show ?case by (cases e) (simp_all add: consume_event_def bindE_def split: sum.split)
qed simp

lemma incremental_scan_end:
  "incremental_scan n q = (m, r) \<Longrightarrow> m = n \<or> n < m \<and> m - 1 \<in> fst ` set q"
proof (induction q arbitrary: n m r)
  case (Cons x q)
  obtain k u where x: "x = (k, u)" by (cases x)
  show ?case using Cons.prems Cons.IH [of n m r] Cons.IH [of "n + 1" m]
    by (fastforce simp: x split: if_splits prod.splits)
qed simp

text \<open>The queued updates after number \<open>L\<close> have no gap.\<close>

definition gapless_after :: "int \<Rightarrow> MarketDataConsumer \<Rightarrow> bool" where
  "gapless_after L c \<longleftrightarrow> (\<forall>k \<in> fst ` set (incremental_queued_msgs c). \<forall>j. L < j \<and> j \<le> k \<longrightarrow>
     j \<in> fst ` set (incremental_queued_msgs c))"

lemma incremental_scan_gapless:
  "sorted_wrt (<) (map fst q) \<Longrightarrow> \<forall>k \<in> fst ` set q. \<forall>j. n \<le> j \<and> j \<le> k \<longrightarrow> j \<in> fst ` set q \<Longrightarrow>
    \<exists>m es. incremental_scan n q = (m, Some es)"
proof (induction q arbitrary: n)
  case (Cons x q)
  obtain k u where x: "x = (k, u)" by (cases x)
  have gt: "\<forall>j \<in> fst ` set q. k < j" and srt: "sorted_wrt (<) (map fst q)" using Cons.prems(1) by (auto simp: x)
  have closed: "j \<in> insert k (fst ` set q)" if "k' \<in> insert k (fst ` set q)" "n \<le> j" "j \<le> k'" for k' j
    using Cons.prems(2) that by (auto simp: x)
  show ?case
  proof (cases "k < n")
    case True
    have "\<forall>k' \<in> fst ` set q. \<forall>j. n \<le> j \<and> j \<le> k' \<longrightarrow> j \<in> fst ` set q" using closed True by fastforce
    from Cons.IH [OF srt this] show ?thesis using True by (simp add: x)
  next
    case False
    have k: "k = n" using closed [of k n] False gt by fastforce
    have "\<forall>k' \<in> fst ` set q. \<forall>j. n + 1 \<le> j \<and> j \<le> k' \<longrightarrow> j \<in> fst ` set q"
    proof (intro ballI allI impI)
      fix k' j
      assume "k' \<in> fst ` set q" "n + 1 \<le> j \<and> j \<le> k'"
      then show "j \<in> fst ` set q" using closed [of k' j] k by auto
    qed
    from Cons.IH [OF srt this] obtain m es where "incremental_scan (n + 1) q = (m, Some es)" by blast
    then show ?thesis by (simp add: x k)
  qed
qed simp

section \<open>The contract of the exchange\<close>

locale market_feed =
  fixes good :: "'f \<Rightarrow> bool" and count :: "'f \<Rightarrow> int" and inc :: "'f \<Rightarrow> int \<Rightarrow> MatchingEngineMarketUpdate"
    and snap :: "'f \<Rightarrow> int \<Rightarrow> MatchingEngineMarketUpdate list" and view :: "'f \<Rightarrow> int \<Rightarrow> market_view"
  assumes count_range: "good f \<Longrightarrow> 0 \<le> count f \<and> count f < 2 ^ 63"
    and view_start: "good f \<Longrightarrow> view f 0 = empty_view"
    and view_step: "good f \<Longrightarrow> 0 \<le> n \<Longrightarrow> n < count f \<Longrightarrow> view f (n + 1) = mview_update (view f n) (inc f (n + 1))"
    and inc_plain: "good f \<Longrightarrow> 1 \<le> n \<Longrightarrow> n \<le> count f \<Longrightarrow> \<not> is_bound (inc f n)"
    and snap_shape: "good f \<Longrightarrow> 0 \<le> L \<Longrightarrow> L \<le> count f \<Longrightarrow> \<exists>body.
      snap f L = bound_update MU_SNAPSHOT_START (of_int L) # body @ [bound_update MU_SNAPSHOT_END (of_int L)] \<and>
      (\<forall>u \<in> set body. \<not> is_bound u) \<and> (\<forall>w. agrees (mreplay w body) (view f L))"
begin

text \<open>What a consumer may have passed on when it holds the market after update \<open>n\<close>: the updates one by one,
  and the orders of whole snapshots.\<close>

inductive passed :: "'f \<Rightarrow> int \<Rightarrow> MatchingEngineMarketUpdate list \<Rightarrow> bool" for f where
  pass_nothing: "passed f 0 []"
| pass_update: "passed f n out \<Longrightarrow> n < count f \<Longrightarrow> passed f (n + 1) (out @ [inc f (n + 1)])"
| pass_snapshot: "passed f n out \<Longrightarrow> 0 \<le> L \<Longrightarrow> L \<le> count f \<Longrightarrow>
    snap f L = bound_update MU_SNAPSHOT_START (of_int L) # body @ [bound_update MU_SNAPSHOT_END (of_int L)] \<Longrightarrow>
    passed f L (out @ body)"

lemma passed_view: "passed f n out \<Longrightarrow> good f \<Longrightarrow> 0 \<le> n \<and> n \<le> count f \<and> agrees (mreplay empty_view out) (view f n)"
proof (induction rule: passed.induct)
  case pass_nothing
  then show ?case using count_range [of f] view_start [of f] by (simp add: agrees_def)
next
  case (pass_update n out)
  then have "agrees (mreplay (mreplay empty_view out) [inc f (n + 1)]) (mreplay (view f n) [inc f (n + 1)])"
    by (intro agrees_replay) simp
  then show ?case using pass_update view_step [of f n] by simp
next
  case (pass_snapshot n out L body)
  then show ?case using snap_shape [of f L] by auto
qed

lemma passed_updates: "L \<le> k \<Longrightarrow> passed f L out \<Longrightarrow> k \<le> count f \<Longrightarrow> passed f k (out @ map (inc f) [L + 1..k])"
proof (induction k rule: int_ge_induct)
  case (step k)
  have "[L + 1..k + 1] = [L + 1..k] @ [k + 1]" using step(1) by (simp add: upto_rec2)
  then show ?case using pass_update [OF step(2)] step(3,4) by simp
qed simp

text \<open>Messages are unchanged; they may be lost, repeated and updates reordered, but a snapshot cycle
  does not start before the messages of an older one have arrived or are lost.\<close>

fun genuine :: "'f \<Rightarrow> int \<Rightarrow> md_event list \<Rightarrow> bool" where
  "genuine f L [] \<longleftrightarrow> True"
| "genuine f L (Incremental m # es) \<longleftrightarrow> 1 \<le> mdp_seq_num m \<and> mdp_seq_num m \<le> count f \<and>
     mdp_update m = inc f (mdp_seq_num m) \<and> genuine f L es"
| "genuine f L (Snapshot L' m # es) \<longleftrightarrow> L \<le> L' \<and> L' \<le> count f \<and> 0 \<le> mdp_seq_num m \<and>
     mdp_seq_num m < int (length (snap f L')) \<and> mdp_update m = snap f L' ! nat (mdp_seq_num m) \<and> genuine f L' es"

text \<open>The snapshot queue holds a gapless beginning of cycles, the updates queue holds updates.\<close>

definition snap_queue_ok :: "'f \<Rightarrow> int \<Rightarrow> queued \<Rightarrow> bool" where
  "snap_queue_ok f L q \<longleftrightarrow> (\<exists>Ls. length Ls = length q \<and> sorted Ls \<and> (\<forall>L' \<in> set Ls. 0 \<le> L' \<and> L' \<le> L) \<and>
     (\<forall>i < length q. q ! i = (int i, snap f (Ls ! i) ! i) \<and> i + 1 < length (snap f (Ls ! i))))"

definition inc_queue_ok :: "'f \<Rightarrow> queued \<Rightarrow> bool" where
  "inc_queue_ok f q \<longleftrightarrow> sorted_wrt (<) (map fst q) \<and> (\<forall>(k, u) \<in> set q. 1 \<le> k \<and> k \<le> count f \<and> u = inc f k)"

definition consumer_right :: "'f \<Rightarrow> int \<Rightarrow> MarketDataConsumer \<Rightarrow> bool" where
  "consumer_right f L c \<longleftrightarrow> 0 \<le> L \<and> L \<le> count f \<and> 1 \<le> next_exp_inc_seq_num c \<and> next_exp_inc_seq_num c \<le> count f + 1 \<and>
     (if in_recovery c then snap_queue_ok f L (snapshot_queued_msgs c) \<and> inc_queue_ok f (incremental_queued_msgs c) \<and>
        (\<exists>n. passed f n (incoming_md_updates c))
      else passed f (next_exp_inc_seq_num c - 1) (incoming_md_updates c))"

lemma snap_first: "good f \<Longrightarrow> 0 \<le> L \<Longrightarrow> L \<le> count f \<Longrightarrow> snap f L ! 0 = bound_update MU_SNAPSHOT_START (of_int L)"
  and snap_long: "good f \<Longrightarrow> 0 \<le> L \<Longrightarrow> L \<le> count f \<Longrightarrow> 2 \<le> length (snap f L)"
  using snap_shape [of f L] by auto

lemma snap_last: "good f \<Longrightarrow> 0 \<le> L \<Longrightarrow> L \<le> count f \<Longrightarrow> snap f L ! (length (snap f L) - 1) = bound_update MU_SNAPSHOT_END (of_int L)"
  using snap_shape [of f L] by (auto simp: nth_append)

lemma snap_inner: "good f \<Longrightarrow> 0 \<le> L \<Longrightarrow> L \<le> count f \<Longrightarrow> 0 < i \<Longrightarrow> i + 1 < length (snap f L) \<Longrightarrow> \<not> is_bound (snap f L ! i)"
  using snap_shape [of f L] by (auto simp: nth_Cons nth_append split: nat.splits)

lemma mu_type_bound [simp]: "mu_type (bound_update t n) = t" "mu_order_id (bound_update t n) = n"
  by (simp_all add: bound_update_def)

lemma snap_queue_empty: "snap_queue_ok f L []"
  by (simp add: snap_queue_ok_def)

text \<open>The scan of a gapless queue succeeds; a key beyond its end is a gap.\<close>

lemma scan_gapless: "(\<forall>i < length q. fst (q ! i) = n + int i) \<Longrightarrow> \<exists>es. snapshot_scan n q = Some es"
proof (induction q arbitrary: n)
  case (Cons x q)
  obtain k u where x: "x = (k, u)" by (cases x)
  have "fst (q ! i) = n + 1 + int i" if "i < length q" for i
    using Cons.prems [rule_format, of "Suc i"] that by simp
  then obtain es where "snapshot_scan (n + 1) q = Some es" using Cons.IH by blast
  moreover have "k = n" using Cons.prems [rule_format, of 0] by (simp add: x)
  ultimately show ?case by (simp add: x)
qed simp

lemma map_put_beyond: "\<forall>x \<in> set q. fst x < k \<Longrightarrow> map_put k u q = q @ [(k, u)]"
  by (induction q) auto

lemma snap_queue_keys: "snap_queue_ok f L q \<Longrightarrow> fst ` set q = {0..<int (length q)}"
proof -
  assume "snap_queue_ok f L q"
  then have k: "\<forall>i < length q. fst (q ! i) = int i" by (auto simp: snap_queue_ok_def)
  then have "fst ` set q = int ` {0..<length q}" by (force simp: set_conv_nth image_iff)
  then show ?thesis by (simp add: image_int_atLeastLessThan)
qed

text \<open>Without an end message in the queue the check changes nothing.\<close>

lemma check_waits:
  assumes "good f" and "snap_queue_ok f L (snapshot_queued_msgs c)" and "L \<le> count f"
  shows "checkSnapshotSync c = c"
proof (cases "snapshot_queued_msgs c = []")
  case False
  let ?q = "snapshot_queued_msgs c"
  obtain Ls where Ls: "length Ls = length ?q" "\<forall>L' \<in> set Ls. 0 \<le> L' \<and> L' \<le> L"
    "\<forall>i < length ?q. ?q ! i = (int i, snap f (Ls ! i) ! i) \<and> i + 1 < length (snap f (Ls ! i))"
    using assms(2) by (auto simp: snap_queue_ok_def)
  have rng: "0 \<le> Ls ! i \<and> Ls ! i \<le> count f" if "i < length ?q" for i
    using that Ls(1,2) assms(3) by (metis nth_mem order_trans)
  have 0: "0 < length ?q" using False by simp
  have first: "snd (hd ?q) = bound_update MU_SNAPSHOT_START (of_int (Ls ! 0))"
    using Ls(3) snap_first [OF assms(1)] rng 0 False by (simp add: hd_conv_nth)
  let ?e = "length ?q - 1"
  have lst: "snd (last ?q) = snap f (Ls ! ?e) ! ?e" "?e + 1 < length (snap f (Ls ! ?e))"
    using Ls(3) [rule_format, of ?e] False by (simp_all add: last_conv_nth)
  have "mu_type (snd (last ?q)) \<noteq> MU_SNAPSHOT_END"
  proof (cases "?e = 0")
    case True
    then show ?thesis using lst snap_first [OF assms(1)] rng [OF 0] by simp
  next
    case False
    then show ?thesis using snap_inner [OF assms(1), of "Ls ! ?e" ?e] rng [of ?e] lst 0 by (auto simp: is_bound_def)
  qed
  moreover obtain es where "snapshot_scan 0 ?q = Some es"
    using scan_gapless [of ?q 0] Ls(3) by auto
  ultimately show ?thesis using False first by (simp add: checkSnapshotSync_def Let_def)
qed (simp add: checkSnapshotSync_def)

text \<open>A snapshot message on a gapless queue: dropped, appended, or the end of a complete cycle.\<close>

lemma snap_queue_append:
  assumes "snap_queue_ok f L q" and "L \<le> L'" and "0 \<le> L'" and "length q + 1 < length (snap f L')"
  shows "snap_queue_ok f L' (q @ [(int (length q), snap f L' ! length q)])"
proof -
  obtain Ls where Ls: "length Ls = length q" "sorted Ls" "\<forall>l \<in> set Ls. 0 \<le> l \<and> l \<le> L"
    "\<forall>i < length q. q ! i = (int i, snap f (Ls ! i) ! i) \<and> i + 1 < length (snap f (Ls ! i))"
    using assms(1) by (auto simp: snap_queue_ok_def)
  show ?thesis unfolding snap_queue_ok_def
  proof (intro exI [of _ "Ls @ [L']"] conjI allI impI)
    show "sorted (Ls @ [L'])" using Ls(2,3) assms(2) by (auto simp: sorted_append)
    fix i
    assume "i < length (q @ [(int (length q), snap f L' ! length q)])"
    then consider "i < length q" | "i = length q" by fastforce
    then show "(q @ [(int (length q), snap f L' ! length q)]) ! i = (int i, snap f ((Ls @ [L']) ! i) ! i)"
      and "i + 1 < length (snap f ((Ls @ [L']) ! i))"
      using Ls(1,4) assms(4) by (cases; simp add: nth_append)+
  qed (use Ls assms in auto)
qed

lemma snap_queue_mono: "snap_queue_ok f L q \<Longrightarrow> L \<le> L' \<Longrightarrow> snap_queue_ok f L' q"
  unfolding snap_queue_ok_def by (meson order_trans)

text \<open>The check on a complete queue: it recovers, or it drops the snapshot and stays in recovery.\<close>

lemma complete_cycle:
  assumes g: "good f" and q: "snap_queue_ok f L q" and L: "L \<le> L'" "0 \<le> L'" "L' \<le> count f"
    and last': "length q + 1 = length (snap f L')"
    and c: "snapshot_queued_msgs c = q @ [(int (length q), snap f L' ! length q)]"
    and incs: "inc_queue_ok f (incremental_queued_msgs c)" and rec': "in_recovery c"
    and nx: "1 \<le> next_exp_inc_seq_num c \<and> next_exp_inc_seq_num c \<le> count f + 1" and out: "\<exists>n. passed f n (incoming_md_updates c)"
  shows "consumer_right f L' (checkSnapshotSync c)"
proof -
  obtain Ls where Ls: "length Ls = length q" "sorted Ls" "\<forall>l \<in> set Ls. 0 \<le> l \<and> l \<le> L"
    "\<forall>i < length q. q ! i = (int i, snap f (Ls ! i) ! i) \<and> i + 1 < length (snap f (Ls ! i))"
    using q by (auto simp: snap_queue_ok_def)
  let ?q = "snapshot_queued_msgs c"
  have ne: "0 < length q" using snap_long [OF g L(2,3)] last' by linarith
  have final: "snd (last ?q) = bound_update MU_SNAPSHOT_END (of_int L')"
    using snap_last [OF g L(2,3)] last' by (simp add: c flip: last')
  have rng: "0 \<le> Ls ! i \<and> Ls ! i \<le> count f" if "i < length q" for i
    using that Ls(1,3) L by (metis nth_mem order_trans)
  have first: "snd (hd ?q) = bound_update MU_SNAPSHOT_START (of_int (Ls ! 0))"
    using Ls(4) ne snap_first [OF g] rng by (cases q) (auto simp: c)
  have keys: "\<forall>i < length ?q. fst (?q ! i) = 0 + int i" using Ls(4) by (auto simp: c nth_append less_Suc_eq)
  then obtain es where es: "snapshot_scan 0 ?q = Some es" using scan_gapless by blast
  show ?thesis
  proof (cases "(of_int (Ls ! 0) :: u64) = of_int L'")
    case False
    then show ?thesis using first final es rec' incs nx out L ne snap_queue_empty
      by (auto simp: checkSnapshotSync_def Let_def consumer_right_def c)
  next
    case True
    have "Ls ! 0 = L'"
    proof -
      have b: "0 \<le> Ls ! 0" "Ls ! 0 < 2 ^ 64" "0 \<le> L'" "L' < 2 ^ 64"
        using rng [OF ne] L count_range [OF g] by simp_all
      have "uint (of_int (Ls ! 0) :: u64) = Ls ! 0" "uint (of_int L' :: u64) = L'"
        using b by (simp_all add: uint_word_of_int_eq take_bit_int_eq_self)
      then show ?thesis using True by metis
    qed
    then have same: "Ls ! i = L'" if "i < length q" for i
      using that Ls(1,2,3) L sorted_nth_mono [OF Ls(2), of 0 i] ne by (metis nth_mem order_antisym order_trans zero_le)
    have qs: "map snd ?q = snap f L'"
    proof (rule nth_equalityI)
      show "length (map snd ?q) = length (snap f L')" using last' by (simp add: c)
      fix i
      assume "i < length (map snd ?q)"
      then consider "i < length q" | "i = length q" by (fastforce simp: c)
      then show "map snd ?q ! i = snap f L' ! i" using Ls(4) same by cases (simp_all add: c nth_append)
    qed
    obtain body where body: "snap f L' = bound_update MU_SNAPSHOT_START (of_int L') # body @ [bound_update MU_SNAPSHOT_END (of_int L')]"
      "\<forall>u \<in> set body. \<not> is_bound u" "\<forall>w. agrees (mreplay w body) (view f L')"
      using snap_shape [OF g L(2,3)] by blast
    have esb: "es = body" using snapshot_scan_Some [OF es] body(1,2) by (simp add: qs is_bound_def filter_id_conv)
    have seq: "seq_of (of_int L' :: u64) = L'" by (rule seq_of_of_int) (use L count_range [OF g] in auto)
    obtain m r where scan: "incremental_scan (L' + 1) (incremental_queued_msgs c) = (m, r)" by fastforce
    have m: "L' + 1 \<le> m \<and> m \<le> count f + 1"
      using incremental_scan_end [OF scan] incs L by (auto simp: inc_queue_ok_def)
    show ?thesis
    proof (cases r)
      case None
      then show ?thesis using first final es rec' incs out L ne m snap_queue_empty True scan seq
        by (auto simp: checkSnapshotSync_def Let_def consumer_right_def c)
    next
      case (Some later)
      have later: "later = map (inc f) [L' + 1..m - 1]"
        using incremental_scan_Some [of "incremental_queued_msgs c" "inc f" "L' + 1" m later] incs scan Some inc_plain [OF g]
        by (fastforce simp: inc_queue_ok_def)
      obtain n where "passed f n (incoming_md_updates c)" using out by blast
      from pass_snapshot [OF this L(2,3) body(1)] have "passed f (m - 1) ((incoming_md_updates c @ body) @ map (inc f) [L' + 1..m - 1])"
        by (rule passed_updates [rotated]) (use m in auto)
      then have "passed f (m - 1) (incoming_md_updates c @ body @ later)" by (simp add: later)
      then show ?thesis using first final es L m True scan seq Some ne
        by (simp add: checkSnapshotSync_def Let_def consumer_right_def c esb)
    qed
  qed
qed

text \<open>The cases of a queued snapshot message.\<close>

lemma queue_snapshot:
  assumes g: "good f" and q: "snap_queue_ok f L (snapshot_queued_msgs c)" and L: "L \<le> L'" "0 \<le> L'" "L' \<le> count f"
    and m: "0 \<le> mdp_seq_num m" "mdp_seq_num m < int (length (snap f L'))" "mdp_update m = snap f L' ! nat (mdp_seq_num m)"
    and incs: "inc_queue_ok f (incremental_queued_msgs c)" and rec': "in_recovery c"
    and nx: "1 \<le> next_exp_inc_seq_num c \<and> next_exp_inc_seq_num c \<le> count f + 1" and out: "\<exists>n. passed f n (incoming_md_updates c)"
  shows "consumer_right f L' (queueMessage True m c)"
proof -
  define k where "k = nat (mdp_seq_num m)"
  have k: "mdp_seq_num m = int k" "k < length (snap f L')" "mdp_update m = snap f L' ! k" using m by (simp_all add: k_def)
  let ?q = "snapshot_queued_msgs c"
  have two: "2 \<le> length (snap f L')" by (rule snap_long [OF g L(2,3)])
  have cleared: "consumer_right f L' (c\<lparr>snapshot_queued_msgs := []\<rparr>)"
    using rec' incs nx out L snap_queue_empty by (simp add: consumer_right_def)
  have alone: "consumer_right f L' (checkSnapshotSync (c\<lparr>snapshot_queued_msgs := [(int k, snap f L' ! k)]\<rparr>))" if "0 < k"
  proof -
    have "mu_type (snap f L' ! k) \<noteq> MU_SNAPSHOT_START"
      using snap_inner [OF g L(2,3) that] snap_last [OF g L(2,3)] k(2)
      by (cases "k + 1 < length (snap f L')") (auto simp: is_bound_def less_Suc_eq dest!: less_antisym)
    then show ?thesis using cleared by (simp add: checkSnapshotSync_def Let_def)
  qed
  show ?thesis
  proof (cases "k = 0")
    case True
    let ?c = "c\<lparr>snapshot_queued_msgs := [(0, snap f L' ! 0)]\<rparr>"
    have ok: "snap_queue_ok f L' (snapshot_queued_msgs ?c)"
      using snap_queue_append [OF snap_queue_empty, of L' L' f] L two by simp
    have "queueMessage True m c = checkSnapshotSync ?c" using k True by (simp add: queueMessage_def map_has_def)
    then show ?thesis using check_waits [OF g ok L(3)] ok rec' incs nx out L by (simp add: consumer_right_def)
  next
    case nz: False
    show ?thesis
    proof (cases "map_has (int k) ?q")
      case True
      then show ?thesis using alone nz by (simp add: queueMessage_def Let_def k)
    next
      case False
      have beyond: "length ?q \<le> k" using False snap_queue_keys [OF q] by (force simp: map_has_def)
      have lt: "\<forall>x \<in> set ?q. fst x < int k" using beyond snap_queue_keys [OF q] by (metis atLeastLessThan_iff image_eqI le_less_trans less_le_trans of_nat_le_iff)
      let ?q' = "?q @ [(int k, snap f L' ! k)]"
      have run: "queueMessage True m c = checkSnapshotSync (c\<lparr>snapshot_queued_msgs := ?q'\<rparr>)"
        using nz False by (simp add: queueMessage_def Let_def k map_put_beyond [OF lt])
      show ?thesis
      proof (cases "k = length ?q")
        case True
        show ?thesis
        proof (cases "k + 1 = length (snap f L')")
          case end': True
          have "consumer_right f L' (checkSnapshotSync (c\<lparr>snapshot_queued_msgs := ?q'\<rparr>))"
            using True end' by (intro complete_cycle [OF g q L]) (simp_all add: rec' incs nx out)
          then show ?thesis by (simp only: run)
        next
          case inner: False
          have ok: "snap_queue_ok f L' ?q'"
            using snap_queue_append [OF q L(1,2)] k(2) inner True by simp
          then have ok': "snap_queue_ok f L' (snapshot_queued_msgs (c\<lparr>snapshot_queued_msgs := ?q'\<rparr>))" by simp
          show ?thesis unfolding run check_waits [OF g ok' L(3)] using ok rec' incs nx out L by (simp add: consumer_right_def)
        qed
      next
        case gap: False
        have "snapshot_scan 0 ?q' = None"
        proof (cases "snapshot_scan 0 ?q'")
          case (Some es)
          then have "map fst ?q' = map int [0..<length ?q']" using snapshot_scan_Some [OF Some] by simp
          then have "map fst ?q' ! length ?q = map int [0..<length ?q'] ! length ?q" by simp
          then show ?thesis using gap by (simp add: nth_append del: upt_Suc)
        qed
        then have "checkSnapshotSync (c\<lparr>snapshot_queued_msgs := ?q'\<rparr>) = c\<lparr>snapshot_queued_msgs := []\<rparr>"
          by (simp add: checkSnapshotSync_def Let_def)
        then show ?thesis using cleared by (simp only: run)
      qed
    qed
  qed
qed

lemma queue_incremental:
  assumes g: "good f" and q: "snap_queue_ok f L (snapshot_queued_msgs c)" and L: "0 \<le> L" "L \<le> count f"
    and m: "1 \<le> mdp_seq_num m" "mdp_seq_num m \<le> count f" "mdp_update m = inc f (mdp_seq_num m)"
    and incs: "inc_queue_ok f (incremental_queued_msgs c)" and rec': "in_recovery c"
    and nx: "1 \<le> next_exp_inc_seq_num c \<and> next_exp_inc_seq_num c \<le> count f + 1" and out: "\<exists>n. passed f n (incoming_md_updates c)"
  shows "consumer_right f L (queueMessage False m c)"
proof -
  let ?c = "c\<lparr>incremental_queued_msgs := map_put (mdp_seq_num m) (mdp_update m) (incremental_queued_msgs c)\<rparr>"
  have "queueMessage False m c = ?c"
    using check_waits [OF g, of L ?c] q L by (simp add: queueMessage_def Let_def)
  moreover have "inc_queue_ok f (incremental_queued_msgs ?c)"
    using incs m by (auto simp: inc_queue_ok_def map_put_sorted map_put_set)
  ultimately show ?thesis using q L rec' nx out by (simp add: consumer_right_def)
qed

lemma consume_keeps:
  assumes g: "good f" and ok: "consumer_right f L c" and e: "genuine f L (e # es)"
  shows "\<exists>c'. consume_event e c = Inr c' \<and> (case e of Incremental m \<Rightarrow> consumer_right f L c' \<and> genuine f L es
     | Snapshot L' m \<Rightarrow> consumer_right f L' c' \<and> genuine f L' es)"
proof -
  have b: "0 \<le> L" "L \<le> count f" "1 \<le> next_exp_inc_seq_num c" "next_exp_inc_seq_num c \<le> count f + 1"
    using ok by (simp_all add: consumer_right_def)
  have same: "c\<lparr>in_recovery := True\<rparr> = c" if "in_recovery c" using that by (cases c) simp
  show ?thesis
  proof (cases e)
    case (Snapshot L' m)
    have s: "L \<le> L'" "0 \<le> L'" "L' \<le> count f" using e b by (simp_all add: Snapshot)
    show ?thesis
    proof (cases "in_recovery c")
      case True
      have "consume True True m c = Inr (queueMessage True m c)"
        using e True by (simp add: Snapshot consume_def Let_def same [OF True])
      moreover have "consumer_right f L' (queueMessage True m c)"
        using queue_snapshot [OF g _ s] ok e True b by (simp add: Snapshot consumer_right_def)
      ultimately show ?thesis using e by (simp add: Snapshot consume_event_def)
    next
      case False
      then have "consume True True m c = Inr c" by (simp add: consume_def)
      then show ?thesis using e ok s False by (simp add: Snapshot consume_event_def consumer_right_def)
    qed
  next
    case (Incremental m)
    have m: "1 \<le> mdp_seq_num m" "mdp_seq_num m \<le> count f" "mdp_update m = inc f (mdp_seq_num m)"
      using e by (simp_all add: Incremental)
    show ?thesis
    proof (cases "in_recovery c")
      case True
      have "consume True False m c = Inr (queueMessage False m c)" using m True by (simp add: consume_def Let_def same [OF True])
      moreover have "consumer_right f L (queueMessage False m c)"
        using queue_incremental [OF g _ b(1,2) m] ok True b by (simp add: consumer_right_def)
      ultimately show ?thesis using e by (simp add: Incremental consume_event_def)
    next
      case live: False
      let ?n = "next_exp_inc_seq_num c"
      have out: "passed f (?n - 1) (incoming_md_updates c)" using ok live by (simp add: consumer_right_def)
      consider "mdp_seq_num m < ?n" | "mdp_seq_num m = ?n" | "?n < mdp_seq_num m" by linarith
      then show ?thesis
      proof cases
        case 1
        then show ?thesis using e ok live m by (simp add: Incremental consume_event_def consume_def)
      next
        case 2
        have "passed f ?n (incoming_md_updates c @ [inc f ?n])" using pass_update [OF out] m 2 by simp
        then show ?thesis using e live m 2 b
          by (simp add: Incremental consume_event_def consume_def Let_def consumer_right_def)
      next
        case 3
        let ?c = "c\<lparr>in_recovery := True, snapshot_queued_msgs := [], incremental_queued_msgs := [], snapshot_open := True\<rparr>"
        have "consume True False m c = Inr (queueMessage False m ?c)"
          using 3 live m by (simp add: consume_def Let_def startSnapshotSync_def)
        moreover have "consumer_right f L (queueMessage False m ?c)"
          using queue_incremental [OF g _ b(1,2) m, of ?c] b snap_queue_empty out by (auto simp: inc_queue_ok_def)
        ultimately show ?thesis using e by (simp add: Incremental consume_event_def)
      qed
    qed
  qed
qed

lemma new_consumer_ok: "good f \<Longrightarrow> consumer_right f 0 new_MarketDataConsumer"
  using count_range [of f] by (simp add: consumer_right_def new_MarketDataConsumer_def pass_nothing)

lemma consume_events_ok:
  assumes "good f" and "consumer_right f L c" and "genuine f L es"
  shows "\<exists>c' L'. consume_events es c = Inr c' \<and> consumer_right f L' c'"
  using assms(2,3)
proof (induction es arbitrary: c L)
  case (Cons e es)
  from consume_keeps [OF assms(1) Cons.prems] obtain c' where c': "consume_event e c = Inr c'"
    "case e of Incremental m \<Rightarrow> consumer_right f L c' \<and> genuine f L es | Snapshot L' m \<Rightarrow> consumer_right f L' c' \<and> genuine f L' es" by blast
  then obtain L1 where "consumer_right f L1 c'" "genuine f L1 es" by (cases e) auto
  from Cons.IH [OF this] show ?case by (simp add: c'(1))
qed auto

lemma events_pass:
  assumes "good f" and "genuine f 0 es"
  shows "\<exists>c. consume_events es new_MarketDataConsumer = Inr c \<and> (\<exists>n. passed f n (incoming_md_updates c)) \<and>
    (\<not> in_recovery c \<longrightarrow> passed f (next_exp_inc_seq_num c - 1) (incoming_md_updates c))"
proof -
  obtain c L where c: "consume_events es new_MarketDataConsumer = Inr c" "consumer_right f L c"
    using consume_events_ok [OF assms(1) new_consumer_ok [OF assms(1)] assms(2)] by blast
  then show ?thesis by (auto simp: consumer_right_def split: if_splits)
qed

lemma never_wrong:
  assumes "good f" and "genuine f 0 es"
  shows "\<exists>c. consume_events es new_MarketDataConsumer = Inr c \<and>
    (\<not> in_recovery c \<longrightarrow> agrees (client_view c) (view f (next_exp_inc_seq_num c - 1)))"
  using events_pass [OF assms] passed_view [OF _ assms(1)] by (auto simp: client_view_def)

text \<open>A cycle that arrives whole ends the recovery when the queued updates after it have no gap.\<close>

definition prefix_queue :: "'f \<Rightarrow> int \<Rightarrow> nat \<Rightarrow> queued" where
  "prefix_queue f L n = map (\<lambda>i. (int i, snap f L ! i)) [0..<n]"

lemma prefix_queue_ok: "0 \<le> L \<Longrightarrow> n < length (snap f L) \<Longrightarrow> snap_queue_ok f L (prefix_queue f L n)"
  unfolding snap_queue_ok_def prefix_queue_def by (intro exI [of _ "replicate n L"]) simp

lemma prefix_queue_Suc: "prefix_queue f L n @ [(int n, snap f L ! n)] = prefix_queue f L (Suc n)"
  by (simp add: prefix_queue_def)

lemma queue_next_part:
  assumes n: "0 < n" and q: "snapshot_queued_msgs c = prefix_queue f L n"
  shows "queueMessage True \<lparr>mdp_seq_num = int n, mdp_update = snap f L ! n\<rparr> c =
    checkSnapshotSync (c\<lparr>snapshot_queued_msgs := prefix_queue f L (Suc n)\<rparr>)"
proof -
  have "\<not> map_has (int n) (prefix_queue f L n)" by (auto simp: map_has_def prefix_queue_def)
  moreover have "map_put (int n) (snap f L ! n) (prefix_queue f L n) = prefix_queue f L (Suc n)"
    unfolding prefix_queue_Suc [symmetric] by (rule map_put_beyond) (auto simp: prefix_queue_def)
  ultimately show ?thesis using n q by (simp add: queueMessage_def)
qed

lemma cycle_prefix:
  assumes g: "good f" and L: "0 \<le> L" "L \<le> count f" and rec': "in_recovery c" and n: "n + 1 < length (snap f L)"
  shows "consume_events (map (Snapshot L) (numbered 0 (take (n + 1) (snap f L)))) c =
    Inr (c\<lparr>snapshot_queued_msgs := prefix_queue f L (n + 1)\<rparr>)"
  using n
proof (induction n)
  case 0
  let ?c = "c\<lparr>snapshot_queued_msgs := prefix_queue f L 1\<rparr>"
  have same: "c\<lparr>in_recovery := True\<rparr> = c" using rec' by (cases c) simp
  have "take 1 (snap f L) = [snap f L ! 0]" using 0 by (cases "snap f L") simp_all
  moreover have "queueMessage True \<lparr>mdp_seq_num = 0, mdp_update = snap f L ! 0\<rparr> c = checkSnapshotSync ?c"
    by (simp add: queueMessage_def map_has_def prefix_queue_def)
  moreover have "checkSnapshotSync ?c = ?c"
    using check_waits [OF g, of L ?c] prefix_queue_ok [OF L(1), of 1 f] 0 L by simp
  ultimately show ?case using rec' by (simp add: consume_event_def consume_def same)
next
  case (Suc n)
  let ?c = "c\<lparr>snapshot_queued_msgs := prefix_queue f L (n + 1)\<rparr>"
  let ?d = "c\<lparr>snapshot_queued_msgs := prefix_queue f L (Suc (n + 1))\<rparr>"
  have same: "c\<lparr>snapshot_queued_msgs := q, in_recovery := True\<rparr> = c\<lparr>snapshot_queued_msgs := q\<rparr>" for q
    using rec' by (cases c) simp
  have lt: "n + 1 < length (snap f L)" using Suc.prems by simp
  have tk: "take (Suc n + 1) (snap f L) = take (n + 1) (snap f L) @ [snap f L ! (n + 1)]"
    using take_Suc_conv_app_nth [OF lt] by simp
  have mn: "int (min (length (snap f L)) (n + 1)) = int (n + 1)" using lt by simp
  have "queueMessage True \<lparr>mdp_seq_num = int (n + 1), mdp_update = snap f L ! (n + 1)\<rparr> ?c = checkSnapshotSync ?d"
    by (subst queue_next_part) simp_all
  moreover have "checkSnapshotSync ?d = ?d"
    using check_waits [OF g, of L ?d] prefix_queue_ok [OF L(1), of "Suc (n + 1)" f] Suc.prems L by simp
  ultimately have "consume_event (Snapshot L \<lparr>mdp_seq_num = int (n + 1), mdp_update = snap f L ! (n + 1)\<rparr>) ?c = Inr ?d"
    using rec' by (simp add: consume_event_def consume_def same)
  moreover have "consume_events (map (Snapshot L) (numbered 0 (take (n + 1) (snap f L)))) c = Inr ?c" by (rule Suc.IH [OF lt])
  ultimately show ?case unfolding tk numbered_append map_append consume_events_append length_take mn by simp
qed

lemma whole_cycle_recovers:
  assumes g: "good f" and L: "0 \<le> L" "L \<le> count f" and rec': "in_recovery c"
    and incs: "inc_queue_ok f (incremental_queued_msgs c)" and gap: "gapless_after L c"
  shows "\<exists>c'. consume_events (map (Snapshot L) (numbered 0 (snap f L))) c = Inr c' \<and> \<not> in_recovery c'"
proof -
  obtain body where body: "snap f L = bound_update MU_SNAPSHOT_START (of_int L) # body @ [bound_update MU_SNAPSHOT_END (of_int L)]"
    using snap_shape [OF g L] by blast
  define n where "n = length body"
  have len: "length (snap f L) = Suc (n + 1)" by (simp add: body n_def)
  let ?c = "c\<lparr>snapshot_queued_msgs := prefix_queue f L (n + 1)\<rparr>"
  let ?d = "c\<lparr>snapshot_queued_msgs := prefix_queue f L (Suc (n + 1))\<rparr>"
  have tk: "snap f L = take (n + 1) (snap f L) @ [snap f L ! (n + 1)]"
    using take_Suc_conv_app_nth [of "n + 1" "snap f L"] by (simp add: len)
  have pre: "consume_events (map (Snapshot L) (numbered 0 (take (n + 1) (snap f L)))) c = Inr ?c"
    by (rule cycle_prefix [OF g L rec']) (simp add: len)
  have "in_recovery ?c" using rec' by simp
  then have "consume_event (Snapshot L \<lparr>mdp_seq_num = int (n + 1), mdp_update = snap f L ! (n + 1)\<rparr>) ?c =
      Inr (queueMessage True \<lparr>mdp_seq_num = int (n + 1), mdp_update = snap f L ! (n + 1)\<rparr> ?c)"
    using rec' by (cases c) (simp add: consume_event_def consume_def)
  moreover have "queueMessage True \<lparr>mdp_seq_num = int (n + 1), mdp_update = snap f L ! (n + 1)\<rparr> ?c = checkSnapshotSync ?d"
    by (subst queue_next_part) simp_all
  moreover have "\<not> in_recovery (checkSnapshotSync ?d)"
  proof -
    have seq: "seq_of (of_int L :: u64) = L" by (rule seq_of_of_int) (use L count_range [OF g] in auto)
    have q: "hd (prefix_queue f L (Suc (n + 1))) = (0, snap f L ! 0)" "last (prefix_queue f L (Suc (n + 1))) = (int (n + 1), snap f L ! (n + 1))"
      "prefix_queue f L (Suc (n + 1)) \<noteq> []"
      by (simp_all add: prefix_queue_def hd_map hd_append del: upt_Suc) (simp_all add: upt_conv_Cons)
    have ends: "snap f L ! 0 = bound_update MU_SNAPSHOT_START (of_int L)" "snap f L ! (n + 1) = bound_update MU_SNAPSHOT_END (of_int L)"
      by (simp_all add: body n_def nth_append)
    obtain es where es: "snapshot_scan 0 (prefix_queue f L (Suc (n + 1))) = Some es"
      using scan_gapless [of "prefix_queue f L (Suc (n + 1))" 0] by (auto simp: prefix_queue_def simp del: upt_Suc)
    obtain m later where "incremental_scan (L + 1) (incremental_queued_msgs c) = (m, Some later)"
      using incremental_scan_gapless [of "incremental_queued_msgs c" "L + 1"] incs gap
      by (auto simp: inc_queue_ok_def gapless_after_def)
    then show ?thesis using q ends es by (simp add: checkSnapshotSync_def Let_def seq)
  qed
  moreover have "int (length (take (n + 1) (snap f L))) = int (n + 1)" by (simp add: len)
  ultimately show ?thesis using pre
    by (subst tk) (simp add: numbered_append consume_events_append del: take_append)
qed

lemma whole_cycle_after:
  assumes "good f" and "genuine f 0 es" and "consume_events es new_MarketDataConsumer = Inr c"
    and "in_recovery c" and "0 \<le> L" and "L \<le> count f" and "gapless_after L c"
  shows "\<exists>c'. consume_events (map (Snapshot L) (numbered 0 (snap f L))) c = Inr c' \<and> \<not> in_recovery c'"
proof -
  obtain L0 where "consumer_right f L0 c"
    using consume_events_ok [OF assms(1) new_consumer_ok [OF assms(1)] assms(2)] assms(3) by auto
  then have "inc_queue_ok f (incremental_queued_msgs c)" using assms(4) by (simp add: consumer_right_def)
  then show ?thesis by (rule whole_cycle_recovers [OF assms(1,5,6,4) _ assms(7)])
qed

end

section \<open>The exchange keeps the contract\<close>

text \<open>A feed is the list of updates the exchange has published, numbered from 1; the snapshots are those
  the synthesizer publishes after it has seen a beginning of the feed.\<close>

definition feed_ok :: "MatchingEngineMarketUpdate list \<Rightarrow> bool" where
  "feed_ok us \<longleftrightarrow> good_feed empty_view us \<and> length us < 2 ^ 63"

definition feed_count :: "MatchingEngineMarketUpdate list \<Rightarrow> int" where
  "feed_count us = int (length us)"

definition feed_inc :: "MatchingEngineMarketUpdate list \<Rightarrow> int \<Rightarrow> MatchingEngineMarketUpdate" where
  "feed_inc us n = us ! (nat n - 1)"

definition feed_snap :: "MatchingEngineMarketUpdate list \<Rightarrow> int \<Rightarrow> MatchingEngineMarketUpdate list" where
  "feed_snap us L = snapshot_updates (projr (AddtoSnapshot_all (numbered 1 (take (nat L) us)) (new_SnapshotSynthesizer False)))"

definition feed_view :: "MatchingEngineMarketUpdate list \<Rightarrow> int \<Rightarrow> market_view" where
  "feed_view us n = mreplay empty_view (take (nat n) us)"

lemma good_feed_plain: "good_feed v us \<Longrightarrow> u \<in> set us \<Longrightarrow> \<not> is_bound u"
  by (induction us arbitrary: v) (auto simp: continues_def is_bound_def)

lemma mirror_orders_plain:
  assumes "mirror_ok (symbol_orders s) (lookup (ss_pool s))" and "u \<in> set (mirror_orders s sy is)"
  shows "\<not> is_bound u"
proof -
  obtain i p where "symbol_orders s sy i = Some p" "u = the (lookup (ss_pool s) p)"
    using assms(2) by (auto simp: mirror_orders_def eq_commute [of "Some _"] split: option.splits)
  then show ?thesis using mirror_okD(3) [OF assms(1)] by (fastforce simp: is_bound_def)
qed

lemma snapshot_body_plain:
  assumes "mirror_ok (symbol_orders s) (lookup (ss_pool s))" and "u \<in> set (snapshot_body s sys)"
  shows "\<not> is_bound u"
  using assms(2) mirror_orders_plain [OF assms(1)]
  by (auto simp: snapshot_body_def clear_update_def is_bound_def)

lemma feed_snap_shape:
  assumes "feed_ok us" and "0 \<le> L" and "L \<le> feed_count us"
  shows "\<exists>body. feed_snap us L = bound_update MU_SNAPSHOT_START (of_int L) # body @ [bound_update MU_SNAPSHOT_END (of_int L)] \<and>
    (\<forall>u \<in> set body. \<not> is_bound u) \<and> (\<forall>w. agrees (mreplay w body) (feed_view us L))"
proof -
  let ?us = "take (nat L) us"
  have len: "length ?us = nat L" using assms by (simp add: feed_count_def)
  have "good_feed empty_view (?us @ drop (nat L) us)" using assms(1) by (simp add: feed_ok_def)
  then have "good_feed empty_view ?us" unfolding good_feed_append by blast
  moreover have "length ?us < 2 ^ 63" by (rule le_less_trans [of _ "length us"]) (use assms(1) in \<open>simp_all add: feed_ok_def\<close>)
  ultimately obtain s where s: "AddtoSnapshot_all (numbered 1 ?us) (new_SnapshotSynthesizer False) = Inr s"
    "snap_rel s (mreplay empty_view ?us)" "unat (last_inc_seq_num s) = length ?us"
    using mirror_after [of ?us False] by blast
  have seq: "last_inc_seq_num s = of_int L"
  proof -
    have "last_inc_seq_num s = of_nat (unat (last_inc_seq_num s))" by simp
    also have "\<dots> = of_nat (nat L)" by (simp only: s(3) len)
    also have "\<dots> = of_int L" using assms(2) by simp
    finally show ?thesis .
  qed
  have "feed_snap us L = bound_update MU_SNAPSHOT_START (of_int L) # snapshot_body s [0..<kMaxSymbols] @
      [bound_update MU_SNAPSHOT_END (of_int L)]"
    by (simp add: feed_snap_def s(1) snapshot_updates_def seq)
  moreover have "\<forall>u \<in> set (snapshot_body s [0..<kMaxSymbols]). \<not> is_bound u"
    using snapshot_body_plain s(2) by (auto simp: snap_rel_def)
  moreover have "\<forall>w. agrees (mreplay w (snapshot_body s [0..<kMaxSymbols])) (feed_view us L)"
    using replay_snapshot_body [OF s(2)] by (simp add: agrees_def feed_view_def)
  ultimately show ?thesis by blast
qed

lemma feed_view_step:
  assumes "0 \<le> n" and "n < feed_count us"
  shows "feed_view us (n + 1) = mview_update (feed_view us n) (feed_inc us (n + 1))"
proof -
  have "nat (n + 1) = Suc (nat n)" "nat n < length us" using assms by (simp_all add: feed_count_def nat_add_distrib)
  then show ?thesis by (simp add: feed_view_def feed_inc_def take_Suc_conv_app_nth)
qed

interpretation exchange: market_feed feed_ok feed_count feed_inc feed_snap feed_view
proof unfold_locales
  fix us :: "MatchingEngineMarketUpdate list" and n L :: int
  assume ok: "feed_ok us"
  show "0 \<le> feed_count us \<and> feed_count us < 2 ^ 63" using ok by (simp add: feed_ok_def feed_count_def)
  show "feed_view us 0 = empty_view" by (simp add: feed_view_def)
  show "feed_view us (n + 1) = mview_update (feed_view us n) (feed_inc us (n + 1))" if "0 \<le> n" "n < feed_count us"
    by (rule feed_view_step [OF that])
  show "\<not> is_bound (feed_inc us n)" if "1 \<le> n" "n \<le> feed_count us"
    using good_feed_plain [of empty_view us "us ! (nat n - 1)"] ok that by (simp add: feed_ok_def feed_inc_def feed_count_def)
  show "\<exists>body. feed_snap us L = bound_update MU_SNAPSHOT_START (of_int L) # body @ [bound_update MU_SNAPSHOT_END (of_int L)] \<and>
      (\<forall>u \<in> set body. \<not> is_bound u) \<and> (\<forall>w. agrees (mreplay w body) (feed_view us L))"
    if "0 \<le> L" "L \<le> feed_count us"
    by (rule feed_snap_shape [OF ok that])
qed

text \<open>What a lossy network delivers of a feed: any messages of the update stream, in any order and number,
  and messages of snapshot cycles, those of an older cycle first; \<open>L\<close> is the last cycle seen.\<close>

fun delivered :: "MatchingEngineMarketUpdate list \<Rightarrow> int \<Rightarrow> md_event list \<Rightarrow> bool" where
  "delivered us L [] \<longleftrightarrow> True"
| "delivered us L (Incremental m # es) \<longleftrightarrow> m \<in> set (numbered 1 us) \<and> delivered us L es"
| "delivered us L (Snapshot L' m # es) \<longleftrightarrow> L \<le> L' \<and> L' \<le> feed_count us \<and> m \<in> set (numbered 0 (feed_snap us L')) \<and>
     delivered us L' es"

lemma in_numbered: "m \<in> set (numbered n us) \<longleftrightarrow> n \<le> mdp_seq_num m \<and> mdp_seq_num m < n + int (length us) \<and>
    mdp_update m = us ! nat (mdp_seq_num m - n)"
proof
  assume "m \<in> set (numbered n us)"
  then obtain i where "i < length us" "m = numbered n us ! i" by (auto simp: in_set_conv_nth)
  then show "n \<le> mdp_seq_num m \<and> mdp_seq_num m < n + int (length us) \<and> mdp_update m = us ! nat (mdp_seq_num m - n)"
    by (simp add: numbered_nth)
next
  let ?i = "nat (mdp_seq_num m - n)"
  assume a: "n \<le> mdp_seq_num m \<and> mdp_seq_num m < n + int (length us) \<and> mdp_update m = us ! ?i"
  then have "?i < length us" by linarith
  moreover have "numbered n us ! ?i = m" using a \<open>?i < length us\<close> by (simp add: numbered_nth)
  ultimately show "m \<in> set (numbered n us)" by (metis length_numbered nth_mem)
qed

lemma delivered_genuine: "delivered us L es \<Longrightarrow> exchange.genuine us L es"
proof (induction us L es rule: delivered.induct)
  case (2 us L m es)
  then have "1 \<le> mdp_seq_num m" "mdp_seq_num m \<le> feed_count us" "mdp_update m = feed_inc us (mdp_seq_num m)"
    by (auto simp: in_numbered feed_count_def feed_inc_def nat_diff_distrib)
  with 2 show ?case by simp
qed (simp_all add: in_numbered)

section \<open>A late snapshot message\<close>

text \<open>An order of 10 is changed to 4. Both cycles have the same shape.\<close>

definition late_order :: "MarketUpdateType \<Rightarrow> Quantity \<Rightarrow> MatchingEngineMarketUpdate" where
  "late_order ty n = \<lparr>mu_type = ty, mu_symbol_id = 0, mu_order_id = 1, mu_side = BUY, mu_price = 100, mu_quantity = n, mu_priority = 1\<rparr>"

definition late_feed :: "MatchingEngineMarketUpdate list" where
  "late_feed = [late_order MU_ADD 10, late_order MU_MODIFY 4]"

lemma late_feed_good: "good_feed empty_view late_feed"
proof -
  have 0: "live_keys (mview_update empty_view (late_order MU_ADD 10)) \<subseteq> {(0, 1)}"
    using live_keys_update [of empty_view "late_order MU_ADD 10"] by (auto simp: late_order_def live_keys_def empty_view_def)
  then have "card (live_keys (mview_update empty_view (late_order MU_ADD 10))) \<le> card {(0 :: nat, 1 :: OrderId)}"
    by (intro card_mono) simp_all
  moreover have "live_keys empty_view = {}" by (simp add: live_keys_def empty_view_def)
  ultimately show ?thesis
    by (simp add: late_feed_def late_order_def continues_def capacity_defs mview_update_def view_update_def empty_view_def Let_def)
qed

lemma mirror_one:
  assumes "symbol_orders s sy = (\<lambda>_. None)(1 := Some p)"
  shows "mirror_orders s sy [0..<kMaxOrderIds] = [the (lookup (ss_pool s) p)]"
proof -
  have split: "[0..<kMaxOrderIds] = [0] @ [1] @ [2..<kMaxOrderIds]"
  proof -
    have "1 < kMaxOrderIds" by (simp add: kMaxOrderIds_def)
    then show ?thesis using upt_conv_Cons [of 0 kMaxOrderIds] upt_conv_Cons [of 1 kMaxOrderIds] by (simp add: numeral_2_eq_2)
  qed
  show ?thesis unfolding split mirror_orders_def using assms by (simp add: concat_eq_Nil_conv)
qed

lemma mirror_none: "symbol_orders s sy = (\<lambda>_. None) \<Longrightarrow> mirror_orders s sy is = []"
  by (simp add: mirror_orders_def)

lemma late_added:
  "\<exists>s. AddtoSnapshot_all (numbered 1 [late_order MU_ADD 10]) (new_SnapshotSynthesizer False) = Inr s \<and>
     symbol_orders s = (\<lambda>_ _. None)(0 := (\<lambda>_. None)(1 := Some 0)) \<and> lookup (ss_pool s) 0 = Some (late_order MU_ADD 10) \<and> last_inc_seq_num s = 1"
  by (simp add: AddtoSnapshot_def apply_to_snapshot_def new_SnapshotSynthesizer_def late_order_def allocate_def new_pool_def MarkSlot_def
      set_order_def capacity_defs lookup_def seq_of_def swrap_def Let_def)

lemma late_changed:
  "\<exists>s. AddtoSnapshot_all (numbered 1 late_feed) (new_SnapshotSynthesizer False) = Inr s \<and>
     symbol_orders s = (\<lambda>_ _. None)(0 := (\<lambda>_. None)(1 := Some 0)) \<and> lookup (ss_pool s) 0 = Some (late_order MU_ADD 4) \<and> last_inc_seq_num s = 2"
  by (simp add: late_feed_def AddtoSnapshot_def apply_to_snapshot_def new_SnapshotSynthesizer_def late_order_def allocate_def new_pool_def MarkSlot_def
      set_order_def capacity_defs lookup_def seq_of_def swrap_def Let_def existing_order_def store_def)

lemma late_snapshot_updates:
  assumes "symbol_orders s = (\<lambda>_ _. None)(0 := (\<lambda>_. None)(1 := Some 0))" and "lookup (ss_pool s) 0 = Some u"
  shows "snapshot_updates s = [bound_update MU_SNAPSHOT_START (last_inc_seq_num s), clear_update 0, u, clear_update 1, clear_update 2,
    clear_update 3, clear_update 4, clear_update 5, clear_update 6, clear_update 7, bound_update MU_SNAPSHOT_END (last_inc_seq_num s)]"
proof -
  have "[0..<kMaxSymbols] = [0, 1, 2, 3, 4, 5, 6, 7]" by (simp add: kMaxSymbols_def upt_conv_Cons)
  then show ?thesis
    using mirror_one [of s 0 0] mirror_none [of s] assms by (simp add: snapshot_updates_def snapshot_body_def)
qed

text \<open>The consumer has missed the first update when the second arrives. Of the cycle taken after it, the
  message with the order is lost, and the one of the cycle before comes late in its place: the snapshot is
  complete, its first and last message carry the same number, and the consumer ends its recovery with a
  quantity of 10 for an order of 4.\<close>

definition late_events :: "md_event list" where
  "late_events = Incremental (numbered 1 late_feed ! 1) #
     map (Snapshot 2) (take 2 (numbered 0 (feed_snap late_feed 2))) @ [Snapshot 1 (numbered 0 (feed_snap late_feed 1) ! 2)] @
     map (Snapshot 2) (drop 3 (numbered 0 (feed_snap late_feed 2)))"

lemma late_snapshot_message_is_taken:
  "\<exists>c. consume_events late_events new_MarketDataConsumer = Inr c \<and> \<not> in_recovery c \<and> next_exp_inc_seq_num c = 3 \<and>
     mreplay empty_view (incoming_md_updates c) 0 1 = Some (BUY, 100, 10, 1) \<and>
     mreplay empty_view late_feed 0 1 = Some (BUY, 100, 4, 1)"
proof -
  obtain s1 s2 where s: "AddtoSnapshot_all (numbered 1 [late_order MU_ADD 10]) (new_SnapshotSynthesizer False) = Inr s1"
    "symbol_orders s1 = (\<lambda>_ _. None)(0 := (\<lambda>_. None)(1 := Some 0))" "lookup (ss_pool s1) 0 = Some (late_order MU_ADD 10)" "last_inc_seq_num s1 = 1"
    "AddtoSnapshot_all (numbered 1 late_feed) (new_SnapshotSynthesizer False) = Inr s2"
    "symbol_orders s2 = (\<lambda>_ _. None)(0 := (\<lambda>_. None)(1 := Some 0))" "lookup (ss_pool s2) 0 = Some (late_order MU_ADD 4)" "last_inc_seq_num s2 = 2"
    using late_added late_changed by blast
  have snap: "feed_snap late_feed 1 = snapshot_updates s1" "feed_snap late_feed 2 = snapshot_updates s2"
    using s(1,5) by (simp_all add: feed_snap_def late_feed_def)
  note events = late_events_def [unfolded snap late_snapshot_updates [OF s(2,3)] late_snapshot_updates [OF s(6,7)] s(4,8)]
  show ?thesis unfolding events
    by (simp add: late_feed_def late_order_def
      consume_event_def consume_def new_MarketDataConsumer_def startSnapshotSync_def queueMessage_def checkSnapshotSync_def map_has_def
      bound_update_def clear_update_def zero_update_def is_bound_def seq_of_def swrap_def
      mview_update_def view_update_def empty_view_def Let_def)
qed

section \<open>Properties\<close>

text \<open>C3: Whatever of a well-formed feed is lost, repeated or reordered on the way, the consumer is never
  wrong: it stops only at the assertion when a recovery begins and creating or joining the snapshot
  socket fails, and whenever it is not recovering, what it has passed on to the trading engine rebuilds
  exactly the market after some number of the published updates, the one it expects next excluded. The
  updates may arrive in any order and number; the messages of one snapshot cycle may too, but none of an
  older cycle after one of a newer (\<open>late_snapshot_message_is_taken\<close> shows what happens otherwise). Each
  message comes with the outcome of the join.\<close>

theorem consumer_never_wrong:
  assumes "good_feed empty_view us" and "length us < 2 ^ 63" and "delivered us 0 (map snd jes)"
  shows "case consume_joining jes new_MarketDataConsumer of
      Inr c \<Rightarrow> in_recovery c \<or> (\<forall>sy < kMaxSymbols. mreplay empty_view (incoming_md_updates c) sy =
        mreplay empty_view (take (nat (next_exp_inc_seq_num c - 1)) us) sy)
    | Inl f \<Rightarrow> f = join_fault \<and> (\<exists>je \<in> set jes. \<not> fst je)"
proof -
  have "feed_ok us" using assms by (simp add: feed_ok_def)
  from exchange.never_wrong [OF this delivered_genuine [OF assms(3)]]
  obtain c where c: "consume_events (map snd jes) new_MarketDataConsumer = Inr c"
    "in_recovery c \<or> agrees (client_view c) (feed_view us (next_exp_inc_seq_num c - 1))" by blast
  then show ?thesis
    using consume_joining_outcome [of jes new_MarketDataConsumer] by (auto simp: agrees_def client_view_def feed_view_def split: sum.splits)
qed

text \<open>An example run: the second update is lost, the third arrives and starts a recovery, then a whole
  snapshot cycle comes, its first message twice.\<close>

definition lossy_events :: "md_event list" where
  "lossy_events = map Incremental [numbered 1 example_feed ! 0, numbered 1 example_feed ! 2]"

theorem consumer_never_wrong_witness:
  "\<exists>c. consume_joining (map (Pair True) lossy_events) new_MarketDataConsumer = Inr c \<and>
    (in_recovery c \<or> (\<forall>sy < kMaxSymbols. mreplay empty_view (incoming_md_updates c) sy =
       mreplay empty_view (take (nat (next_exp_inc_seq_num c - 1)) example_feed) sy))"
proof -
  have d: "delivered example_feed 0 (map snd (map (Pair True) lossy_events))" by (simp add: lossy_events_def example_feed_def)
  have "length example_feed < 2 ^ 63" by (simp add: example_feed_def)
  from consumer_never_wrong [OF example_feed_good this d] show ?thesis by (auto split: sum.splits)
qed

text \<open>C4: A recovery ends: after any deliveries that left the consumer recovering, one snapshot cycle
  that arrives whole takes it back to the live stream, provided the updates queued after the
  snapshot have no gap; in particular when none is queued after it.\<close>

theorem whole_snapshot_ends_recovery:
  assumes "good_feed empty_view us" and "length us < 2 ^ 63" and "delivered us 0 es"
    and "consume_events es new_MarketDataConsumer = Inr c" and "in_recovery c"
    and "0 \<le> L" and "L \<le> int (length us)"
    and "\<forall>k \<in> fst ` set (incremental_queued_msgs c). \<forall>j. L < j \<and> j \<le> k \<longrightarrow> j \<in> fst ` set (incremental_queued_msgs c)"
  shows "\<exists>c'. consume_events (map (Snapshot L) (numbered 0 (feed_snap us L))) c = Inr c' \<and> \<not> in_recovery c'"
proof -
  have "feed_ok us" "L \<le> feed_count us" using assms by (simp_all add: feed_ok_def feed_count_def)
  with assms(4-6,8) show ?thesis
    using exchange.whole_cycle_after [OF _ delivered_genuine [OF assms(3)], of c L] by (simp add: gapless_after_def)
qed

definition lossy_consumer :: MarketDataConsumer where
  "lossy_consumer = projr (consume_events lossy_events new_MarketDataConsumer)"

lemma lossy_run: "consume_events lossy_events new_MarketDataConsumer = Inr lossy_consumer"
  "in_recovery lossy_consumer" "map fst (incremental_queued_msgs lossy_consumer) = [3]"
  by (simp_all add: lossy_consumer_def lossy_events_def example_feed_def consume_event_def consume_def new_MarketDataConsumer_def
    startSnapshotSync_def queueMessage_def checkSnapshotSync_def)

theorem whole_snapshot_ends_recovery_witness:
  "\<exists>c'. consume_events (map (Snapshot 3) (numbered 0 (feed_snap example_feed 3))) lossy_consumer = Inr c' \<and> \<not> in_recovery c'"
proof (rule whole_snapshot_ends_recovery [OF example_feed_good _ _ lossy_run(1,2)])
  have "fst ` set (incremental_queued_msgs lossy_consumer) = {3}"
    using lossy_run(3) by (metis list.simps(15) list.set(1) set_map)
  then show "\<forall>k \<in> fst ` set (incremental_queued_msgs lossy_consumer). \<forall>j. 3 < j \<and> j \<le> k \<longrightarrow>
      j \<in> fst ` set (incremental_queued_msgs lossy_consumer)" by simp
qed (simp_all add: example_feed_def lossy_events_def)

end
