(* ===== verification/Market_Order.thy ===== *)
theory Market_Order
  imports Messages
begin

text \<open>
  The data of the trading side's order books (\<open>trading/strategy/market_order.h\<close>): an order and a
  price level are nodes of circular doubly linked lists, a pointer is the index of a slot of the
  object's pool. \<open>BBO\<close> is the best price and quantity of both sides; quantity 0 is an empty side.
\<close>

record MarketOrder =
  mo_order_id :: OrderId
  mo_side :: Side
  mo_price :: Price
  mo_qty :: Quantity
  mo_priority :: Priority
  mo_prev :: "nat option"
  mo_next :: "nat option"

record MarketOrdersAtPrice =
  lv_side :: Side
  lv_price :: Price
  lv_first :: "nat option"
  lv_prev :: "nat option"
  lv_next :: "nat option"

record BBO =
  bid_price :: Price
  ask_price :: Price
  bid_qty :: Quantity
  ask_qty :: Quantity

definition new_BBO :: BBO where
  "new_BBO = \<lparr>bid_price = 0, ask_price = 0, bid_qty = 0, ask_qty = 0\<rparr>"

text \<open>Both sides have orders, the condition the strategies and the position keeper test.\<close>

definition two_sided :: "BBO \<Rightarrow> bool" where
  "two_sided b \<longleftrightarrow> bid_qty b \<noteq> 0 \<and> ask_qty b \<noteq> 0"

section \<open>Printing\<close>

text \<open>\<open>get\<close> reads an order through its pointer.\<close>

definition market_order_toString :: "(nat \<Rightarrow> MarketOrder option) \<Rightarrow> MarketOrder \<Rightarrow> string result" where
  "market_order_toString get o' =
     (let id_of = (\<lambda>p. case p of None \<Rightarrow> Inr 0 | Some i \<Rightarrow> bindE (access (get i)) (\<lambda>x. Inr (mo_order_id x))) in
      bindE (id_of (mo_prev o')) (\<lambda>prev. bindE (id_of (mo_next o')) (\<lambda>nxt.
        Inr (''MarketOrder'' @ ''['' @
          ''oid:'' @ dec_word (mo_order_id o') @ '' '' @
          ''side:'' @ dec_word (side_byte (mo_side o')) @ '' '' @
          ''price:'' @ decimal_int (mo_price o') @ '' '' @
          ''qty:'' @ dec_word (mo_qty o') @ '' '' @
          ''prio:'' @ dec_word (mo_priority o') @ '' '' @
          ''prev:'' @ dec_word prev @ '' '' @
          ''next:'' @ dec_word nxt @ '']''))))"

definition level_toString :: "(nat \<Rightarrow> MarketOrder option) \<Rightarrow> (nat \<Rightarrow> MarketOrdersAtPrice option) \<Rightarrow>
    MarketOrdersAtPrice \<Rightarrow> string result" where
  "level_toString get_order get_level l =
     (let price_of = (\<lambda>p. case p of None \<Rightarrow> Inr 0 | Some i \<Rightarrow> bindE (access (get_level i)) (\<lambda>x. Inr (lv_price x))) in
      bindE (case lv_first l of None \<Rightarrow> Inr ''null''
             | Some i \<Rightarrow> bindE (access (get_order i)) (market_order_toString get_order)) (\<lambda>first.
      bindE (price_of (lv_prev l)) (\<lambda>prev. bindE (price_of (lv_next l)) (\<lambda>nxt.
        Inr (''MarketOrdersAtPrice['' @
          ''side:'' @ dec_word (side_byte (lv_side l)) @ '' '' @
          ''price:'' @ decimal_int (lv_price l) @ '' '' @
          ''first_mkt_order:'' @ first @ '' '' @
          ''prev:'' @ decimal_int prev @ '' '' @
          ''next:'' @ decimal_int nxt @ '']'')))))"

definition bbo_toString :: "BBO \<Rightarrow> string" where
  "bbo_toString b = ''BBO{'' @ dec_word (bid_qty b) @ ''@'' @ decimal_int (bid_price b) @ ''X'' @
     decimal_int (ask_price b) @ ''@'' @ dec_word (ask_qty b) @ ''}''"

end
