(* ===== verification/Market_Order_Book.thy ===== *)
theory Market_Order_Book
  imports Market_Order Mem_Pool
begin

text \<open>
  \<open>trading::MarketOrderBook\<close> (\<open>trading/strategy/market_order_book.h\<close>, \<open>market_order_book.cpp\<close>): the
  book a client rebuilds from market updates. Price levels of a side form a circular doubly linked
  list from best to worst, the orders of a level a circular doubly linked list in arrival order;
  both live in object pools, a pointer is a slot index. A loop over a list gets as fuel one more
  than the slots of its pool: a walk that has not come back after that many steps never does.
\<close>

section \<open>State\<close>

record MarketOrderBook =
  mb_ticker_id :: SymbolId
  oid_to_order :: "nat \<Rightarrow> nat option"
  orders_at_price_pool :: "MarketOrdersAtPrice MemPool"
  bids_by_price :: "nat option"
  asks_by_price :: "nat option"
  price_orders_at_price :: "nat \<Rightarrow> nat option"
  mb_order_pool :: "MarketOrder MemPool"
  mb_bbo :: BBO

definition new_MarketOrderBook :: "bool \<Rightarrow> SymbolId \<Rightarrow> MarketOrderBook" where
  "new_MarketOrderBook debug ticker = \<lparr>mb_ticker_id = ticker, oid_to_order = (\<lambda>_. None),
     orders_at_price_pool = new_pool debug kMaxPriceLevels, bids_by_price = None, asks_by_price = None,
     price_orders_at_price = (\<lambda>_. None), mb_order_pool = new_pool debug kMaxOrderIds, mb_bbo = new_BBO\<rparr>"

text \<open>Reads and writes through pointers.\<close>

definition level_get :: "MarketOrderBook \<Rightarrow> nat option \<Rightarrow> MarketOrdersAtPrice result" where
  "level_get b p = bindE (deref p) (\<lambda>i. access (lookup (orders_at_price_pool b) i))"

definition level_put :: "nat option \<Rightarrow> (MarketOrdersAtPrice \<Rightarrow> MarketOrdersAtPrice) \<Rightarrow> MarketOrderBook \<Rightarrow> MarketOrderBook result" where
  "level_put p f b = bindE (deref p) (\<lambda>i. bindE (access (lookup (orders_at_price_pool b) i)) (\<lambda>x.
     Inr (b\<lparr>orders_at_price_pool := store i (f x) (orders_at_price_pool b)\<rparr>)))"

definition order_get :: "MarketOrderBook \<Rightarrow> nat option \<Rightarrow> MarketOrder result" where
  "order_get b p = bindE (deref p) (\<lambda>i. access (lookup (mb_order_pool b) i))"

definition order_put :: "nat option \<Rightarrow> (MarketOrder \<Rightarrow> MarketOrder) \<Rightarrow> MarketOrderBook \<Rightarrow> MarketOrderBook result" where
  "order_put p f b = bindE (deref p) (\<lambda>i. bindE (access (lookup (mb_order_pool b) i)) (\<lambda>x.
     Inr (b\<lparr>mb_order_pool := store i (f x) (mb_order_pool b)\<rparr>)))"

section \<open>Best bid and offer\<close>

text \<open>The loop that sums the quantities of a level, from the second order back to the first.\<close>

fun sum_orders :: "nat \<Rightarrow> MarketOrderBook \<Rightarrow> nat option \<Rightarrow> nat option \<Rightarrow> Quantity \<Rightarrow> Quantity result" where
  "sum_orders 0 b first order qty = Inl Diverges"
| "sum_orders (Suc n) b first order qty = (if order = first then Inr qty
     else bindE (order_get b order) (\<lambda>x. sum_orders n b first (mo_next x) (qty + mo_qty x)))"

definition level_quantity :: "MarketOrderBook \<Rightarrow> MarketOrdersAtPrice \<Rightarrow> Quantity result" where
  "level_quantity b l = bindE (order_get b (lv_first l)) (\<lambda>x.
     sum_orders (Suc (mp_capacity (mb_order_pool b))) b (lv_first l) (mo_next x) (mo_qty x))"

definition updateBBO :: "bool \<Rightarrow> bool \<Rightarrow> MarketOrderBook \<Rightarrow> MarketOrderBook result" where
  "updateBBO update_bid update_ask b =
     bindE (if \<not> update_bid then Inr b
            else if bids_by_price b = None then Inr (b\<lparr>mb_bbo := (mb_bbo b)\<lparr>bid_price := 0, bid_qty := 0\<rparr>\<rparr>)
            else bindE (level_get b (bids_by_price b)) (\<lambda>l. bindE (level_quantity b l) (\<lambda>q.
              Inr (b\<lparr>mb_bbo := (mb_bbo b)\<lparr>bid_price := lv_price l, bid_qty := q\<rparr>\<rparr>))))
       (\<lambda>b1. if \<not> update_ask then Inr b1
            else if asks_by_price b1 = None then Inr (b1\<lparr>mb_bbo := (mb_bbo b1)\<lparr>ask_price := 0, ask_qty := 0\<rparr>\<rparr>)
            else bindE (level_get b1 (asks_by_price b1)) (\<lambda>l. bindE (level_quantity b1 l) (\<lambda>q.
              Inr (b1\<lparr>mb_bbo := (mb_bbo b1)\<lparr>ask_price := lv_price l, ask_qty := q\<rparr>\<rparr>))))"

section \<open>Price levels\<close>

definition priceToIndex :: "Price \<Rightarrow> nat" where
  "priceToIndex price = nat (price mod 2 ^ 64) mod kMaxPriceLevels"

definition getOrdersAtPrice :: "Price \<Rightarrow> MarketOrderBook \<Rightarrow> nat option" where
  "getOrdersAtPrice price b = price_orders_at_price b (priceToIndex price)"

definition best_level :: "Side \<Rightarrow> MarketOrderBook \<Rightarrow> nat option" where
  "best_level s b = (if s = BUY then bids_by_price b else asks_by_price b)"

definition set_best_level :: "Side \<Rightarrow> nat option \<Rightarrow> MarketOrderBook \<Rightarrow> MarketOrderBook" where
  "set_best_level s p b = (if s = BUY then b\<lparr>bids_by_price := p\<rparr> else b\<lparr>asks_by_price := p\<rparr>)"

definition set_index :: "Price \<Rightarrow> nat option \<Rightarrow> MarketOrderBook \<Rightarrow> MarketOrderBook" where
  "set_index price p b = b\<lparr>price_orders_at_price := (price_orders_at_price b)(priceToIndex price := p)\<rparr>"

text \<open>The new level comes after \<open>target\<close>: the condition of \<open>add_after\<close>.\<close>

definition comes_after :: "MarketOrdersAtPrice \<Rightarrow> MarketOrdersAtPrice \<Rightarrow> bool" where
  "comes_after new target \<longleftrightarrow> lv_side new = SELL \<and> lv_price new > lv_price target \<or>
     lv_side new = BUY \<and> lv_price new < lv_price target"

text \<open>The \<open>while\<close> loop: the final value of \<open>add_after\<close> and \<open>target\<close>.\<close>

fun find_target :: "nat \<Rightarrow> MarketOrderBook \<Rightarrow> MarketOrdersAtPrice \<Rightarrow> nat option \<Rightarrow> bool \<Rightarrow> nat option \<Rightarrow> (bool \<times> nat option) result" where
  "find_target 0 b new best add_after target = Inl Diverges"
| "find_target (Suc n) b new best add_after target =
     (if \<not> (add_after \<and> target \<noteq> best) then Inr (add_after, target)
      else bindE (level_get b target) (\<lambda>t.
        if comes_after new t then find_target n b new best True (lv_next t)
        else find_target n b new best False target))"

text \<open>The four link updates in front of and behind the target.\<close>

definition link_after :: "nat option \<Rightarrow> nat option \<Rightarrow> MarketOrderBook \<Rightarrow> MarketOrderBook result" where
  "link_after new target b =
     bindE (level_put new (\<lambda>l. l\<lparr>lv_prev := target\<rparr>) b) (\<lambda>b1.
     bindE (level_get b1 target) (\<lambda>t.
     bindE (level_put (lv_next t) (\<lambda>l. l\<lparr>lv_prev := new\<rparr>) b1) (\<lambda>b2.
     bindE (level_get b2 target) (\<lambda>t2.
     bindE (level_put new (\<lambda>l. l\<lparr>lv_next := lv_next t2\<rparr>) b2)
       (level_put target (\<lambda>l. l\<lparr>lv_next := new\<rparr>))))))"

definition link_before :: "nat option \<Rightarrow> nat option \<Rightarrow> MarketOrderBook \<Rightarrow> MarketOrderBook result" where
  "link_before new target b =
     bindE (level_get b target) (\<lambda>t.
     bindE (level_put new (\<lambda>l. l\<lparr>lv_prev := lv_prev t\<rparr>) b) (\<lambda>b1.
     bindE (level_put new (\<lambda>l. l\<lparr>lv_next := target\<rparr>) b1) (\<lambda>b2.
     bindE (level_get b2 target) (\<lambda>t2.
     bindE (level_put (lv_prev t2) (\<lambda>l. l\<lparr>lv_next := new\<rparr>) b2)
       (level_put target (\<lambda>l. l\<lparr>lv_prev := new\<rparr>))))))"

definition addOrdersAtPrice :: "nat \<Rightarrow> MarketOrderBook \<Rightarrow> MarketOrderBook result" where
  "addOrdersAtPrice new b0 =
     bindE (level_get b0 (Some new)) (\<lambda>l.
       let b = set_index (lv_price l) (Some new) b0; best = best_level (lv_side l) b in
       if best = None then
         level_put (Some new) (\<lambda>x. x\<lparr>lv_prev := Some new, lv_next := Some new\<rparr>) (set_best_level (lv_side l) (Some new) b)
       else
         bindE (level_get b best) (\<lambda>t0.
         bindE (if comes_after l t0 then bindE (level_get b (lv_next t0)) (\<lambda>t1. Inr (comes_after l t1, lv_next t0))
                else Inr (False, best)) (\<lambda>(after1, target1).
         bindE (find_target (Suc (mp_capacity (orders_at_price_pool b))) b l best after1 target1) (\<lambda>(add_after, target).
           if add_after then
             bindE (if target = best then bindE (level_get b best) (\<lambda>t. Inr (lv_prev t)) else Inr target)
               (\<lambda>target2. link_after (Some new) target2 b)
           else
             bindE (link_before (Some new) target b) (\<lambda>b1.
             bindE (level_get b1 best) (\<lambda>t.
               if lv_side l = BUY \<and> lv_price l > lv_price t \<or> lv_side l = SELL \<and> lv_price l < lv_price t then
                 bindE (level_put target (\<lambda>x. x\<lparr>lv_next := (if lv_next x = best then Some new else lv_next x)\<rparr>) b1)
                   (\<lambda>b2. Inr (set_best_level (lv_side l) (Some new) b2))
               else Inr b1))))))"

definition removeOrdersAtPrice :: "Side \<Rightarrow> Price \<Rightarrow> MarketOrderBook \<Rightarrow> MarketOrderBook result" where
  "removeOrdersAtPrice side price b =
     (let best = best_level side b; p = getOrdersAtPrice price b in
      bindE (level_get b p) (\<lambda>l.
      bindE (if lv_next l = p then Inr (set_best_level side None b)
             else
               bindE (level_put (lv_prev l) (\<lambda>x. x\<lparr>lv_next := lv_next l\<rparr>) b) (\<lambda>b1.
               bindE (level_get b1 p) (\<lambda>l1.
               bindE (level_put (lv_next l1) (\<lambda>x. x\<lparr>lv_prev := lv_prev l1\<rparr>) b1) (\<lambda>b2.
               bindE (level_get b2 p) (\<lambda>l2.
               let b3 = (if p = best then set_best_level side (lv_next l2) b2 else b2) in
               level_put p (\<lambda>x. x\<lparr>lv_prev := None, lv_next := None\<rparr>) b3)))))
        (\<lambda>b4. let b5 = set_index price None b4 in
           bindE (deref p) (\<lambda>i. bindE (deallocate i (orders_at_price_pool b5)) (\<lambda>pool.
             Inr (b5\<lparr>orders_at_price_pool := pool\<rparr>))))))"

section \<open>Orders\<close>

text \<open>The link updates of an order: out of its level \<open>p\<close>, and behind the last order of a level.\<close>

definition unlink_order :: "nat option \<Rightarrow> nat option \<Rightarrow> MarketOrder \<Rightarrow> MarketOrderBook \<Rightarrow> MarketOrderBook result" where
  "unlink_order p order o' b =
     bindE (order_put (mo_prev o') (\<lambda>x. x\<lparr>mo_next := mo_next o'\<rparr>) b) (\<lambda>b1.
     bindE (order_put (mo_next o') (\<lambda>x. x\<lparr>mo_prev := mo_prev o'\<rparr>) b1) (\<lambda>b2.
     bindE (level_get b2 p) (\<lambda>l.
     bindE (if lv_first l = order then level_put p (\<lambda>x. x\<lparr>lv_first := mo_next o'\<rparr>) b2 else Inr b2)
       (order_put order (\<lambda>x. x\<lparr>mo_prev := None, mo_next := None\<rparr>)))))"

definition link_order :: "nat option \<Rightarrow> nat option \<Rightarrow> MarketOrderBook \<Rightarrow> MarketOrderBook result" where
  "link_order first order b =
     bindE (order_get b first) (\<lambda>f.
     bindE (order_put (mo_prev f) (\<lambda>x. x\<lparr>mo_next := order\<rparr>) b) (\<lambda>b1.
     bindE (order_get b1 first) (\<lambda>f1.
     bindE (order_put order (\<lambda>x. x\<lparr>mo_prev := mo_prev f1\<rparr>) b1) (\<lambda>b2.
     bindE (order_put order (\<lambda>x. x\<lparr>mo_next := first\<rparr>) b2)
       (order_put first (\<lambda>x. x\<lparr>mo_prev := order\<rparr>))))))"

definition removeOrder :: "nat option \<Rightarrow> MarketOrderBook \<Rightarrow> MarketOrderBook result" where
  "removeOrder order b =
     bindE (order_get b order) (\<lambda>o'.
     bindE (if mo_prev o' = order then removeOrdersAtPrice (mo_side o') (mo_price o') b
            else unlink_order (getOrdersAtPrice (mo_price o') b) order o' b)
       (\<lambda>b3. if kMaxOrderIds \<le> unat (mo_order_id o') then Inl Out_Of_Range
         else bindE (deref order) (\<lambda>i. bindE (deallocate i (mb_order_pool b3)) (\<lambda>pool.
           Inr (b3\<lparr>oid_to_order := (oid_to_order b3)(unat (mo_order_id o') := None), mb_order_pool := pool\<rparr>)))))"

definition addOrder :: "nat \<Rightarrow> MarketOrderBook \<Rightarrow> MarketOrderBook result" where
  "addOrder order b =
     bindE (order_get b (Some order)) (\<lambda>o'.
     let p = getOrdersAtPrice (mo_price o') b in
     bindE (if p = None then
              bindE (order_put (Some order) (\<lambda>x. x\<lparr>mo_prev := Some order, mo_next := Some order\<rparr>) b) (\<lambda>b1.
              bindE (allocate \<lparr>lv_side = mo_side o', lv_price = mo_price o', lv_first = Some order, lv_prev = None, lv_next = None\<rparr>
                  (orders_at_price_pool b1)) (\<lambda>(new, pool). addOrdersAtPrice new (b1\<lparr>orders_at_price_pool := pool\<rparr>)))
            else bindE (level_get b p) (\<lambda>l. link_order (lv_first l) (Some order) b))
       (\<lambda>b3. if kMaxOrderIds \<le> unat (mo_order_id o') then Inl Out_Of_Range
         else Inr (b3\<lparr>oid_to_order := (oid_to_order b3)(unat (mo_order_id o') := Some order)\<rparr>)))"

section \<open>Market updates\<close>

text \<open>The loop of \<open>CLEAR\<close> over the order pointers, and its loop over the levels behind the best one.\<close>

fun free_orders :: "nat list \<Rightarrow> MarketOrderBook \<Rightarrow> MarketOrderBook result" where
  "free_orders [] b = Inr b"
| "free_orders (i # is) b = (case oid_to_order b i of
     None \<Rightarrow> free_orders is b
   | Some p \<Rightarrow> bindE (deallocate p (mb_order_pool b)) (\<lambda>pool. free_orders is (b\<lparr>mb_order_pool := pool\<rparr>)))"

fun free_levels :: "nat \<Rightarrow> nat option \<Rightarrow> nat option \<Rightarrow> MarketOrderBook \<Rightarrow> MarketOrderBook result" where
  "free_levels 0 best p b = Inl Diverges"
| "free_levels (Suc n) best p b = (if p = best then Inr b
     else bindE (level_get b p) (\<lambda>l. bindE (deref p) (\<lambda>i. bindE (deallocate i (orders_at_price_pool b)) (\<lambda>pool.
       free_levels n best (lv_next l) (b\<lparr>orders_at_price_pool := pool\<rparr>)))))"

definition free_side :: "nat option \<Rightarrow> MarketOrderBook \<Rightarrow> MarketOrderBook result" where
  "free_side best b = (case best of None \<Rightarrow> Inr b
     | Some i \<Rightarrow> bindE (level_get b best) (\<lambda>l.
         bindE (free_levels (Suc (mp_capacity (orders_at_price_pool b))) best (lv_next l) b) (\<lambda>b1.
         bindE (deallocate i (orders_at_price_pool b1)) (\<lambda>pool. Inr (b1\<lparr>orders_at_price_pool := pool\<rparr>)))))"

definition clear_book :: "MarketOrderBook \<Rightarrow> MarketOrderBook result" where
  "clear_book b =
     bindE (free_orders [0..<kMaxOrderIds] b) (\<lambda>b1.
     let b2 = b1\<lparr>oid_to_order := (\<lambda>_. None)\<rparr> in
     bindE (free_side (bids_by_price b2) b2) (\<lambda>b3.
     bindE (free_side (asks_by_price b3) b3) (\<lambda>b4.
       Inr (b4\<lparr>bids_by_price := None, asks_by_price := None, price_orders_at_price := (\<lambda>_. None)\<rparr>))))"

definition find_order :: "MatchingEngineMarketUpdate \<Rightarrow> MarketOrderBook \<Rightarrow> nat option result" where
  "find_order u b = (if kMaxOrderIds \<le> unat (mu_order_id u) then Inl Out_Of_Range
     else Inr (oid_to_order b (unat (mu_order_id u))))"

definition apply_update :: "MatchingEngineMarketUpdate \<Rightarrow> MarketOrderBook \<Rightarrow> MarketOrderBook result" where
  "apply_update u b = (case mu_type u of
       MU_ADD \<Rightarrow> bindE (allocate \<lparr>mo_order_id = mu_order_id u, mo_side = mu_side u, mo_price = mu_price u,
           mo_qty = mu_quantity u, mo_priority = mu_priority u, mo_prev = None, mo_next = None\<rparr> (mb_order_pool b))
         (\<lambda>(order, pool). addOrder order (b\<lparr>mb_order_pool := pool\<rparr>))
     | MU_MODIFY \<Rightarrow> bindE (find_order u b) (\<lambda>order. order_put order (\<lambda>x. x\<lparr>mo_qty := mu_quantity u\<rparr>) b)
     | MU_CANCEL \<Rightarrow> bindE (find_order u b) (\<lambda>order. removeOrder order b)
     | MU_CLEAR \<Rightarrow> clear_book b
     | _ \<Rightarrow> Inr b)"

text \<open>The update is at or inside the best price of its side.\<close>

definition touches_bid :: "MatchingEngineMarketUpdate \<Rightarrow> MarketOrderBook \<Rightarrow> bool result" where
  "touches_bid u b = (if mu_type u = MU_CLEAR then Inr True
     else if mu_side u \<noteq> BUY then Inr False
     else if bids_by_price b = None then Inr True
     else bindE (level_get b (bids_by_price b)) (\<lambda>l. Inr (lv_price l \<le> mu_price u)))"

definition touches_ask :: "MatchingEngineMarketUpdate \<Rightarrow> MarketOrderBook \<Rightarrow> bool result" where
  "touches_ask u b = (if mu_type u = MU_CLEAR then Inr True
     else if mu_side u \<noteq> SELL then Inr False
     else if asks_by_price b = None then Inr True
     else bindE (level_get b (asks_by_price b)) (\<lambda>l. Inr (mu_price u \<le> lv_price l)))"

text \<open>What the book tells the trade engine: nothing, a trade, or that it changed.\<close>

datatype book_notice = No_Notice | Trade_Notice | Book_Notice

definition onMarketUpdate :: "MatchingEngineMarketUpdate \<Rightarrow> MarketOrderBook \<Rightarrow> (book_notice \<times> MarketOrderBook) result" where
  "onMarketUpdate u b =
     bindE (touches_bid u b) (\<lambda>bid_updated.
     bindE (touches_ask u b) (\<lambda>ask_updated.
       if mu_type u = MU_TRADE then Inr (Trade_Notice, b)
       else if mu_type u = MU_INVALID \<or> mu_type u = MU_SNAPSHOT_START \<or> mu_type u = MU_SNAPSHOT_END then Inr (No_Notice, b)
       else bindE (apply_update u b) (\<lambda>b1.
         bindE (updateBBO bid_updated ask_updated b1) (\<lambda>b2. Inr (Book_Notice, b2)))))"

fun onMarketUpdates :: "MatchingEngineMarketUpdate list \<Rightarrow> MarketOrderBook \<Rightarrow> MarketOrderBook result" where
  "onMarketUpdates [] b = Inr b"
| "onMarketUpdates (u # us) b = bindE (onMarketUpdate u b) (\<lambda>(_, b1). onMarketUpdates us b1)"

end
