(* ===== verification/Ring_List.thy ===== *)
theory Ring_List
  imports Prelude
begin

text \<open>
  Circular doubly linked lists. \<open>circular nx pv xs\<close>: following \<open>nx\<close> from an element of \<open>xs\<close> leads to the
  next one and from the last to the first, and \<open>pv\<close> goes back. A circle does not have a first
  element of its own: every rotation of its list is the same circle.
\<close>

definition circular :: "('a \<Rightarrow> 'a option) \<Rightarrow> ('a \<Rightarrow> 'a option) \<Rightarrow> 'a list \<Rightarrow> bool" where
  "circular nx pv xs \<longleftrightarrow> distinct xs \<and> map nx xs = map Some (rotate1 xs) \<and> map pv (rotate1 xs) = map Some xs"

lemma ring_Nil [simp]: "circular nx pv []"
  by (simp add: circular_def)

lemma ring_distinct: "circular nx pv xs \<Longrightarrow> distinct xs"
  by (simp add: circular_def)

lemma ring_cong:
  assumes "\<And>x. x \<in> set xs \<Longrightarrow> nx x = nx' x" and "\<And>x. x \<in> set xs \<Longrightarrow> pv x = pv' x"
  shows "circular nx pv xs \<longleftrightarrow> circular nx' pv' xs"
proof -
  have "map nx xs = map nx' xs" "map pv (rotate1 xs) = map pv' (rotate1 xs)" using assms by simp_all
  then show ?thesis unfolding circular_def by (simp only:)
qed

lemma ring_single: "circular nx pv [x] \<longleftrightarrow> nx x = Some x \<and> pv x = Some x"
  by (simp add: circular_def)

lemma ring_rotate1: "circular nx pv (x # xs) \<longleftrightarrow> circular nx pv (xs @ [x])"
proof (cases xs)
  case (Cons y ys)
  then show ?thesis by (auto simp: circular_def)
qed simp

lemma ring_rotate: "circular nx pv (xs @ ys) \<longleftrightarrow> circular nx pv (ys @ xs)"
proof (induction xs arbitrary: ys)
  case (Cons x xs)
  have "circular nx pv ((x # xs) @ ys) \<longleftrightarrow> circular nx pv (xs @ (ys @ [x]))" using ring_rotate1 [of nx pv x "xs @ ys"] by simp
  also have "\<dots> \<longleftrightarrow> circular nx pv (ys @ x # xs)" using Cons [of "ys @ [x]"] by simp
  finally show ?case .
qed simp

text \<open>The neighbours of an element.\<close>

lemma ring_head: "circular nx pv (x # xs) \<Longrightarrow> pv x = Some (last (x # xs)) \<and> nx (last (x # xs)) = Some x"
proof -
  assume r: "circular nx pv (x # xs)"
  show ?thesis
  proof (cases xs rule: rev_cases)
    case Nil
    then show ?thesis using r by (simp add: circular_def)
  next
    case (snoc ys y)
    then show ?thesis using r by (auto simp: circular_def)
  qed
qed

lemma ring_next: "circular nx pv (x # y # ys) \<Longrightarrow> nx x = Some y \<and> pv y = Some x"
  by (auto simp: circular_def)

lemma ring_defined: "circular nx pv xs \<Longrightarrow> x \<in> set xs \<Longrightarrow> \<exists>n p. nx x = Some n \<and> pv x = Some p \<and> n \<in> set xs \<and> p \<in> set xs"
proof -
  assume r: "circular nx pv xs" and "x \<in> set xs"
  then obtain as bs where xs: "xs = as @ x # bs" by (meson split_list)
  then have r': "circular nx pv (x # bs @ as)" using r ring_rotate [of nx pv as "x # bs"] by simp
  have "pv x = Some (last (x # bs @ as))" using ring_head [OF r'] by simp
  moreover have "last (x # bs @ as) \<in> set xs" using last_in_set [of "x # bs @ as"] by (auto simp: xs)
  moreover have "\<exists>n. nx x = Some n \<and> n \<in> set xs"
  proof (cases "bs @ as")
    case Nil
    then show ?thesis using r' xs by (simp add: ring_single)
  next
    case (Cons z zs)
    have "z \<in> set (bs @ as)" unfolding Cons by simp
    then have "z \<in> set xs" unfolding xs by auto
    then show ?thesis using ring_next [of nx pv x z zs] r' Cons by auto
  qed
  ultimately show ?thesis by blast
qed

text \<open>Insertion before the first element, and before any element.\<close>

lemma ring_insert_front:
  assumes r: "circular nx pv (t # bs)" and y: "y \<notin> set (t # bs)" and p: "p = last (t # bs)"
  shows "circular (nx(p := Some y, y := Some t)) (pv(y := Some p, t := Some y)) (y # t # bs)"
proof -
  obtain zs where z: "t # bs = zs @ [p]" using p by (metis append_butlast_last_id list.distinct(1))
  have "distinct (t # bs)" "y \<notin> set (t # bs)" using r y by (simp_all add: circular_def)
  then have d: "distinct (zs @ [p])" "y \<notin> set (zs @ [p])" unfolding z .
  have "map nx (t # bs) = map Some (bs @ [t])" using r by (simp add: circular_def)
  then have nx: "map nx zs = map Some bs" unfolding z by simp
  have "map pv (bs @ [t]) = map Some (t # bs)" using r by (simp add: circular_def)
  then have pv: "map pv bs = map Some zs" unfolding z by simp
  let ?nx = "nx(p := Some y, y := Some t)" and ?pv = "pv(y := Some p, t := Some y)"
  have "map ?nx zs = map Some bs" using nx d by auto
  then have "map ?nx (y # zs @ [p]) = Some t # map Some bs @ [Some y]" using d by auto
  then have n: "map ?nx (y # t # bs) = map Some (rotate1 (y # t # bs))" unfolding z [symmetric] by simp
  have b: "t \<notin> set bs" "y \<notin> set bs" "y \<noteq> t" using r y by (simp_all add: circular_def)
  then have "map ?pv bs = map Some zs" using pv by auto
  then have "map ?pv (t # bs @ [y]) = Some y # map Some (zs @ [p])" using b by simp
  then have "map ?pv (rotate1 (y # t # bs)) = map Some (y # t # bs)" unfolding z [symmetric] by simp
  with n show ?thesis using r y by (simp add: circular_def)
qed

text \<open>Removal of an element that is not alone.\<close>

lemma ring_remove_front:
  assumes r: "circular nx pv (x # y # ys)" and p: "p = last (y # ys)"
  shows "circular (nx(p := Some y)) (pv(y := Some p)) (y # ys)"
proof -
  obtain zs where z: "y # ys = zs @ [p]" using p by (metis append_butlast_last_id list.distinct(1))
  have d: "distinct (zs @ [p])" using r by (simp add: circular_def z [symmetric])
  have nx: "map nx zs = map Some ys"
  proof -
    have "map nx (zs @ [p]) = map Some (ys @ [x])" using r unfolding z [symmetric] circular_def by simp
    then show ?thesis by simp
  qed
  have pv: "map pv ys = map Some zs"
  proof -
    have "map pv (y # ys) = map Some (x # zs)"
    proof -
      have "map pv ((y # ys) @ [x]) = map Some (x # y # ys)" using r by (simp add: circular_def)
      then have "map pv (y # ys) @ [pv x] = map Some (x # zs) @ [Some p]" unfolding z by simp
      then show ?thesis by (simp only: append_eq_append_conv2) auto
    qed
    then show ?thesis by simp
  qed
  have "map (nx(p := Some y)) zs = map nx zs" using d by auto
  then have "map (nx(p := Some y)) (y # ys) = map Some (ys @ [y])" unfolding z using nx by simp
  moreover have "map (pv(y := Some p)) ys = map pv ys" using r by (auto simp: circular_def)
  then have "map (pv(y := Some p)) (ys @ [y]) = map Some (y # ys)" unfolding z using pv by simp
  moreover have "distinct (y # ys)" using r by (simp add: circular_def)
  ultimately show ?thesis by (simp add: circular_def)
qed

end
