(* ===== verification/Client_Book.thy ===== *)
theory Client_Book
  imports Market_Order_Book Ring_List Book_Reach
begin

text \<open>
  The client's order book against its specification: the relation between the pointer structures
  and lists of levels and orders, and what each operation does to them. \<open>bs\<close> and \<open>as\<close> are the
  levels of both sides from best to worst, \<open>Q\<close> the orders of a level in arrival order.
\<close>

section \<open>The relation\<close>

definition onext :: "(nat \<rightharpoonup> MarketOrder) \<Rightarrow> nat \<Rightarrow> nat option" where
  "onext h p = Option.bind (h p) mo_next"

definition oprev :: "(nat \<rightharpoonup> MarketOrder) \<Rightarrow> nat \<Rightarrow> nat option" where
  "oprev h p = Option.bind (h p) mo_prev"

definition lnext :: "(nat \<rightharpoonup> MarketOrdersAtPrice) \<Rightarrow> nat \<Rightarrow> nat option" where
  "lnext g p = Option.bind (g p) lv_next"

definition lprev :: "(nat \<rightharpoonup> MarketOrdersAtPrice) \<Rightarrow> nat \<Rightarrow> nat option" where
  "lprev g p = Option.bind (g p) lv_prev"

lemma links_at [simp]:
  "h p = Some x \<Longrightarrow> onext h p = mo_next x" "h p = Some x \<Longrightarrow> oprev h p = mo_prev x"
  "g p = Some l \<Longrightarrow> lnext g p = lv_next l" "g p = Some l \<Longrightarrow> lprev g p = lv_prev l"
  by (simp_all add: onext_def oprev_def lnext_def lprev_def)

definition better_price :: "Side \<Rightarrow> Price \<Rightarrow> Price \<Rightarrow> bool" where
  "better_price s p q \<longleftrightarrow> (if s = BUY then q < p else p < q)"

definition price_at :: "(nat \<rightharpoonup> MarketOrdersAtPrice) \<Rightarrow> nat \<Rightarrow> Price" where
  "price_at g p = (case g p of Some l \<Rightarrow> lv_price l | None \<Rightarrow> 0)"

lemma price_at_simp [simp]: "g p = Some l \<Longrightarrow> price_at g p = lv_price l"
  by (simp add: price_at_def)

definition level_orders :: "(nat \<rightharpoonup> MarketOrder) \<Rightarrow> MarketOrdersAtPrice \<Rightarrow> nat list \<Rightarrow> bool" where
  "level_orders h l q \<longleftrightarrow> q \<noteq> [] \<and> lv_first l = Some (hd q) \<and> circular (onext h) (oprev h) q \<and>
     (\<forall>p \<in> set q. \<exists>x. h p = Some x \<and> mo_side x = lv_side l \<and> mo_price x = lv_price l)"

definition side_levels :: "(nat \<rightharpoonup> MarketOrdersAtPrice) \<Rightarrow> Side \<Rightarrow> nat option \<Rightarrow> nat list \<Rightarrow> bool" where
  "side_levels g s best ls \<longleftrightarrow> best = (if ls = [] then None else Some (hd ls)) \<and> circular (lnext g) (lprev g) ls \<and>
     (\<forall>p \<in> set ls. \<exists>l. g p = Some l \<and> lv_side l = s) \<and>
     sorted_wrt (\<lambda>p q. better_price s (price_at g p) (price_at g q)) ls"

abbreviation orders_of :: "MarketOrderBook \<Rightarrow> nat \<rightharpoonup> MarketOrder" where
  "orders_of b \<equiv> lookup (mb_order_pool b)"

abbreviation levels_of :: "MarketOrderBook \<Rightarrow> nat \<rightharpoonup> MarketOrdersAtPrice" where
  "levels_of b \<equiv> lookup (orders_at_price_pool b)"

definition pools_ok :: "MarketOrderBook \<Rightarrow> bool" where
  "pools_ok b \<longleftrightarrow> pool_inv (mb_order_pool b) \<and> mp_capacity (mb_order_pool b) = kMaxOrderIds \<and>
     pool_inv (orders_at_price_pool b) \<and> mp_capacity (orders_at_price_pool b) = kMaxPriceLevels"

text \<open>The index of the levels by price, and of the orders by id.\<close>

definition index_ok :: "(nat \<Rightarrow> nat option) \<Rightarrow> (nat \<rightharpoonup> MarketOrdersAtPrice) \<Rightarrow> bool" where
  "index_ok ix g \<longleftrightarrow> (\<forall>i p. ix i = Some p \<longleftrightarrow> (\<exists>l. g p = Some l \<and> nat (lv_price l) = i)) \<and>
     (\<forall>p l. g p = Some l \<longrightarrow> 0 \<le> lv_price l \<and> lv_price l < int kMaxPriceLevels)"

definition ids_ok :: "(nat \<Rightarrow> nat option) \<Rightarrow> (nat \<rightharpoonup> MarketOrder) \<Rightarrow> bool" where
  "ids_ok oids h \<longleftrightarrow> (\<forall>i p. oids i = Some p \<longleftrightarrow> (\<exists>x. h p = Some x \<and> unat (mo_order_id x) = i)) \<and>
     (\<forall>p x. h p = Some x \<longrightarrow> unat (mo_order_id x) < kMaxOrderIds)"

definition queues_ok :: "(nat \<rightharpoonup> MarketOrder) \<Rightarrow> (nat \<rightharpoonup> MarketOrdersAtPrice) \<Rightarrow> (nat \<Rightarrow> nat list) \<Rightarrow> bool" where
  "queues_ok h g Q \<longleftrightarrow> (\<forall>p l. g p = Some l \<longrightarrow> level_orders h l (Q p)) \<and>
     (\<forall>o'. h o' \<noteq> None \<longrightarrow> (\<exists>p. g p \<noteq> None \<and> o' \<in> set (Q p)))"

definition mbook_rel :: "MarketOrderBook \<Rightarrow> nat list \<Rightarrow> nat list \<Rightarrow> (nat \<Rightarrow> nat list) \<Rightarrow> bool" where
  "mbook_rel b bs as Q \<longleftrightarrow> pools_ok b \<and>
     side_levels (levels_of b) BUY (bids_by_price b) bs \<and> side_levels (levels_of b) SELL (asks_by_price b) as \<and>
     dom (levels_of b) = set bs \<union> set as \<and>
     index_ok (price_orders_at_price b) (levels_of b) \<and> ids_ok (oid_to_order b) (orders_of b) \<and>
     queues_ok (orders_of b) (levels_of b) Q"

section \<open>The view and its best prices\<close>

definition order_entry :: "MarketOrder \<Rightarrow> Side \<times> Price \<times> Quantity \<times> Priority" where
  "order_entry x = (mo_side x, mo_price x, mo_qty x, mo_priority x)"

definition book_view :: "MarketOrderBook \<Rightarrow> live_view" where
  "book_view b oid = Option.bind (oid_to_order b (unat oid)) (\<lambda>p. map_option order_entry (orders_of b p))"

text \<open>The prices of a side and the quantity at a price, straight from the live orders.\<close>

definition side_prices :: "live_view \<Rightarrow> Side \<Rightarrow> Price set" where
  "side_prices v s = {p. \<exists>oid q pr. v oid = Some (s, p, q, pr)}"

definition ids_at :: "live_view \<Rightarrow> Side \<Rightarrow> Price \<Rightarrow> OrderId set" where
  "ids_at v s p = {oid. \<exists>q pr. v oid = Some (s, p, q, pr)}"

definition quantity_of :: "live_view \<Rightarrow> OrderId \<Rightarrow> Quantity" where
  "quantity_of v oid = (case v oid of Some (_, _, q, _) \<Rightarrow> q | None \<Rightarrow> 0)"

definition quantity_at :: "live_view \<Rightarrow> Side \<Rightarrow> Price \<Rightarrow> Quantity" where
  "quantity_at v s p = (\<Sum>oid \<in> ids_at v s p. quantity_of v oid)"

definition best_price :: "live_view \<Rightarrow> Side \<Rightarrow> Price" where
  "best_price v s = (if s = BUY then Max (side_prices v s) else Min (side_prices v s))"

text \<open>The best bid and offer a view has.\<close>

definition view_BBO :: "live_view \<Rightarrow> BBO" where
  "view_BBO v = \<lparr>bid_price = (if side_prices v BUY = {} then 0 else best_price v BUY),
     ask_price = (if side_prices v SELL = {} then 0 else best_price v SELL),
     bid_qty = (if side_prices v BUY = {} then 0 else quantity_at v BUY (best_price v BUY)),
     ask_qty = (if side_prices v SELL = {} then 0 else quantity_at v SELL (best_price v SELL))\<rparr>"

section \<open>Facts of the relation\<close>

lemma level_getI [simp]: "levels_of b p = Some l \<Longrightarrow> level_get b (Some p) = Inr l"
  by (simp add: level_get_def)

lemma order_getI [simp]: "orders_of b p = Some x \<Longrightarrow> order_get b (Some p) = Inr x"
  by (simp add: order_get_def)

lemma level_putI: "levels_of b p = Some l \<Longrightarrow>
    level_put (Some p) f b = Inr (b\<lparr>orders_at_price_pool := store p (f l) (orders_at_price_pool b)\<rparr>)"
  by (simp add: level_put_def)

lemma order_putI: "orders_of b p = Some x \<Longrightarrow>
    order_put (Some p) f b = Inr (b\<lparr>mb_order_pool := store p (f x) (mb_order_pool b)\<rparr>)"
  by (simp add: order_put_def)

lemma level_orders_bound:
  assumes "pools_ok b" and "level_orders (orders_of b) l q"
  shows "length q \<le> mp_capacity (mb_order_pool b)"
proof -
  have d: "distinct q" "set q \<subseteq> dom (orders_of b)" using assms(2) by (auto simp: level_orders_def dest: ring_distinct)
  have inv: "pool_inv (mb_order_pool b)" using assms(1) by (simp add: pools_ok_def)
  have "length q = card (set q)" using d by (simp add: distinct_card)
  also have "\<dots> \<le> card (dom (orders_of b))" using pool_live_card(1) [OF inv] d by (intro card_mono)
  also have "\<dots> \<le> mp_capacity (mb_order_pool b)"
    using pool_live_card [OF inv] card_mono [of "{..<mp_next_unused (mb_order_pool b)}" "dom (orders_of b)"] by simp
  finally show ?thesis .
qed

text \<open>The loop sums the whole level.\<close>

definition order_qty :: "(nat \<rightharpoonup> MarketOrder) \<Rightarrow> nat \<Rightarrow> Quantity" where
  "order_qty h p = (case h p of Some x \<Rightarrow> mo_qty x | None \<Rightarrow> 0)"

lemma order_qty_at [simp]: "h p = Some x \<Longrightarrow> order_qty h p = mo_qty x"
  by (simp add: order_qty_def)

lemma sum_orders_ok:
  assumes "circular (onext (orders_of b)) (oprev (orders_of b)) (a # q)" and "set (a # q) \<subseteq> dom (orders_of b)"
    and "q = q1 @ q2" and "length q2 < n"
  shows "sum_orders n b (Some a) (Some (hd (q2 @ [a]))) qty = Inr (qty + sum_list (map (order_qty (orders_of b)) q2))"
  using assms(3,4)
proof (induction q2 arbitrary: n q1 qty)
  case Nil
  then show ?case by (cases n) simp_all
next
  case (Cons x q2)
  obtain m where n: "n = Suc m" using Cons.prems(2) by (cases n) simp_all
  have d: "distinct (a # q)" using assms(1) by (rule ring_distinct)
  obtain o' where o': "orders_of b x = Some o'" using assms(2) Cons.prems(1) by auto
  have "circular (onext (orders_of b)) (oprev (orders_of b)) (x # q2 @ a # q1)"
    using assms(1) Cons.prems(1) ring_rotate [of _ _ "a # q1" "x # q2"] by simp
  then have "onext (orders_of b) x = Some (hd (q2 @ [a]))"
    using ring_next [of "onext (orders_of b)" "oprev (orders_of b)" x] by (cases q2) auto
  then have nx: "mo_next o' = Some (hd (q2 @ [a]))" using o' by simp
  have "sum_orders m b (Some a) (Some (hd (q2 @ [a]))) (qty + mo_qty o') =
      Inr (qty + mo_qty o' + sum_list (map (order_qty (orders_of b)) q2))"
    by (rule Cons.IH [of "q1 @ [x]"]) (use Cons.prems n in simp_all)
  then show ?case using d Cons.prems(1) o' nx by (auto simp: n add.assoc)
qed

lemma level_quantity_ok:
  assumes "pools_ok b" and "level_orders (orders_of b) l q"
  shows "level_quantity b l = Inr (sum_list (map (order_qty (orders_of b)) q))"
proof -
  obtain a q' where q: "q = a # q'" using assms(2) by (cases q) (simp_all add: level_orders_def)
  have r: "circular (onext (orders_of b)) (oprev (orders_of b)) (a # q')" "set (a # q') \<subseteq> dom (orders_of b)"
    "lv_first l = Some a" using assms(2) q by (auto simp: level_orders_def)
  obtain x where x: "orders_of b a = Some x" using r(2) by auto
  have nx: "mo_next x = Some (hd (q' @ [a]))"
  proof (cases q')
    case Nil
    then show ?thesis using r(1) x by (simp add: ring_single)
  next
    case (Cons c cs)
    then show ?thesis using ring_next [of _ _ a c cs] r(1) x by fastforce
  qed
  have len: "length q' < Suc (mp_capacity (mb_order_pool b))" using level_orders_bound [OF assms] by (simp add: q)
  have "sum_orders (Suc (mp_capacity (mb_order_pool b))) b (Some a) (Some (hd (q' @ [a]))) (mo_qty x) =
      Inr (mo_qty x + sum_list (map (order_qty (orders_of b)) q'))"
    by (rule sum_orders_ok [OF r(1,2) _ len, of "[]"]) simp
  then show ?thesis using r(3) x nx by (simp add: level_quantity_def q del: sum_orders.simps)
qed

section \<open>The book's best prices are the view's\<close>

lemma mbook_relD:
  assumes "mbook_rel b bs as Q"
  shows "pools_ok b" "side_levels (levels_of b) BUY (bids_by_price b) bs" "side_levels (levels_of b) SELL (asks_by_price b) as"
    "dom (levels_of b) = set bs \<union> set as" "index_ok (price_orders_at_price b) (levels_of b)"
    "ids_ok (oid_to_order b) (orders_of b)" "queues_ok (orders_of b) (levels_of b) Q"
  using assms by (simp_all add: mbook_rel_def)

lemma book_view_Some:
  assumes "ids_ok (oid_to_order b) (orders_of b)"
  shows "book_view b oid = Some e \<longleftrightarrow> (\<exists>p x. orders_of b p = Some x \<and> mo_order_id x = oid \<and> order_entry x = e)"
proof
  assume "book_view b oid = Some e"
  then obtain p where p: "oid_to_order b (unat oid) = Some p" "map_option order_entry (orders_of b p) = Some e"
    unfolding book_view_def by (auto simp: bind_eq_Some_conv)
  then obtain x where "orders_of b p = Some x" "unat (mo_order_id x) = unat oid" using assms by (auto simp: ids_ok_def)
  with p unat_inj show "\<exists>p x. orders_of b p = Some x \<and> mo_order_id x = oid \<and> order_entry x = e" by auto
next
  assume "\<exists>p x. orders_of b p = Some x \<and> mo_order_id x = oid \<and> order_entry x = e"
  then obtain p x where p: "orders_of b p = Some x" "mo_order_id x = oid" "order_entry x = e" by blast
  then have "oid_to_order b (unat oid) = Some p" using assms by (auto simp: ids_ok_def)
  with p show "book_view b oid = Some e" by (simp add: book_view_def)
qed

lemma level_of_order:
  assumes q: "queues_ok h g Q" and "h o' = Some x"
  obtains p l where "g p = Some l" "o' \<in> set (Q p)" "lv_side l = mo_side x" "lv_price l = mo_price x"
proof -
  have "h o' \<noteq> None" using assms(2) by simp
  then obtain p where p: "g p \<noteq> None" "o' \<in> set (Q p)" using q unfolding queues_ok_def by blast
  then obtain l where l: "g p = Some l" by auto
  then have "level_orders h l (Q p)" using q by (auto simp: queues_ok_def)
  then have "\<exists>y. h o' = Some y \<and> mo_side y = lv_side l \<and> mo_price y = lv_price l" using p(2) by (auto simp: level_orders_def)
  with l p(2) assms(2) that [of p l] show ?thesis by auto
qed

lemma same_price_same_level:
  assumes ix: "index_ok ix g" and "g p = Some l" and "g p' = Some l'" and "lv_price l = lv_price l'"
  shows "p = p'"
proof -
  have "ix (nat (lv_price l)) = Some p" "ix (nat (lv_price l)) = Some p'" using ix assms(2-4) unfolding index_ok_def by auto
  then show ?thesis by simp
qed

lemma ids_okD: "ids_ok oids h \<Longrightarrow> h p = Some x \<Longrightarrow> oids (unat (mo_order_id x)) = Some p \<and> unat (mo_order_id x) < kMaxOrderIds"
  unfolding ids_ok_def by blast

lemma level_members:
  assumes ix: "index_ok ix g" and q: "queues_ok h g Q" and l: "g p = Some l"
  shows "o' \<in> set (Q p) \<longleftrightarrow> (\<exists>x. h o' = Some x \<and> mo_side x = lv_side l \<and> mo_price x = lv_price l)"
proof
  assume "o' \<in> set (Q p)"
  then show "\<exists>x. h o' = Some x \<and> mo_side x = lv_side l \<and> mo_price x = lv_price l"
    using q l by (auto simp: queues_ok_def level_orders_def)
next
  assume "\<exists>x. h o' = Some x \<and> mo_side x = lv_side l \<and> mo_price x = lv_price l"
  then obtain x where x: "h o' = Some x" "mo_price x = lv_price l" by blast
  from level_of_order [OF q x(1)] obtain p' l' where p': "g p' = Some l'" "o' \<in> set (Q p')" "lv_price l' = mo_price x" by metis
  then have "p' = p" using same_price_same_level [OF ix p'(1) l] x(2) by simp
  then show "o' \<in> set (Q p)" using p'(2) by simp
qed

definition id_of :: "(nat \<rightharpoonup> MarketOrder) \<Rightarrow> nat \<Rightarrow> OrderId" where
  "id_of h p = (case h p of Some x \<Rightarrow> mo_order_id x | None \<Rightarrow> 0)"

lemma id_of_at [simp]: "h p = Some x \<Longrightarrow> id_of h p = mo_order_id x"
  by (simp add: id_of_def)

lemma ids_at_level:
  assumes rel: "mbook_rel b bs as Q" and l: "levels_of b p = Some l"
  shows "ids_at (book_view b) (lv_side l) (lv_price l) = id_of (orders_of b) ` set (Q p)" "inj_on (id_of (orders_of b)) (set (Q p))"
    "distinct (Q p)"
proof -
  note d = mbook_relD [OF rel]
  let ?h = "orders_of b"
  have mem: "o' \<in> set (Q p) \<longleftrightarrow> (\<exists>x. ?h o' = Some x \<and> mo_side x = lv_side l \<and> mo_price x = lv_price l)" for o'
    by (rule level_members [OF d(5,7) l])
  show "ids_at (book_view b) (lv_side l) (lv_price l) = id_of ?h ` set (Q p)"
  proof (intro set_eqI iffI)
    fix oid
    assume "oid \<in> ids_at (book_view b) (lv_side l) (lv_price l)"
    then obtain o' x where "?h o' = Some x" "mo_order_id x = oid" "mo_side x = lv_side l" "mo_price x = lv_price l"
      unfolding ids_at_def using book_view_Some [OF d(6)] by (auto simp: order_entry_def)
    then show "oid \<in> id_of ?h ` set (Q p)" using mem [of o'] by (auto intro!: image_eqI [of _ _ o'])
  next
    fix oid
    assume "oid \<in> id_of ?h ` set (Q p)"
    then obtain o' x where "?h o' = Some x" "mo_side x = lv_side l" "mo_price x = lv_price l" "oid = mo_order_id x"
      using mem by auto
    then show "oid \<in> ids_at (book_view b) (lv_side l) (lv_price l)"
      unfolding ids_at_def using book_view_Some [OF d(6)] by (auto simp: order_entry_def)
  qed
  show "inj_on (id_of ?h) (set (Q p))"
  proof (rule inj_onI)
    fix a c
    assume "a \<in> set (Q p)" "c \<in> set (Q p)" and eq: "id_of ?h a = id_of ?h c"
    then obtain x y where xy: "?h a = Some x" "?h c = Some y" using mem by blast
    have "mo_order_id x = mo_order_id y" using eq xy by simp
    then show "a = c" using ids_okD [OF d(6) xy(1)] ids_okD [OF d(6) xy(2)] by simp
  qed
  have "level_orders ?h l (Q p)" using d(7) l by (auto simp: queues_ok_def)
  then show "distinct (Q p)" by (auto simp: level_orders_def dest: ring_distinct)
qed

lemma quantity_at_level:
  assumes rel: "mbook_rel b bs as Q" and l: "levels_of b p = Some l"
  shows "quantity_at (book_view b) (lv_side l) (lv_price l) = sum_list (map (order_qty (orders_of b)) (Q p))"
proof -
  note d = mbook_relD [OF rel] and ids = ids_at_level [OF rel l]
  let ?h = "orders_of b"
  have qty: "quantity_of (book_view b) (id_of ?h o') = order_qty ?h o'" if m: "o' \<in> set (Q p)" for o'
  proof -
    obtain x where x: "?h o' = Some x" using m level_members [OF d(5,7) l, of o'] by blast
    then have "book_view b (mo_order_id x) = Some (order_entry x)" using book_view_Some [OF d(6), of "mo_order_id x"] by blast
    then show ?thesis using x by (simp add: quantity_of_def order_entry_def)
  qed
  have "quantity_at (book_view b) (lv_side l) (lv_price l) = (\<Sum>o' \<in> set (Q p). order_qty ?h o')"
    unfolding quantity_at_def ids(1) by (simp add: sum.reindex [OF ids(2)] qty)
  also have "\<dots> = sum_list (map (order_qty ?h) (Q p))" using ids(3) by (simp add: sum_list_distinct_conv_sum_set)
  finally show ?thesis .
qed

lemma side_prices_levels:
  assumes rel: "mbook_rel b bs as Q" and s: "s = BUY \<and> ls = bs \<or> s = SELL \<and> ls = as"
  shows "side_prices (book_view b) s = price_at (levels_of b) ` set ls"
proof (intro set_eqI iffI)
  note d = mbook_relD [OF rel]
  fix x
  assume "x \<in> side_prices (book_view b) s"
  then obtain o' y where y: "orders_of b o' = Some y" "mo_side y = s" "mo_price y = x"
    unfolding side_prices_def using book_view_Some [OF d(6)] by (auto simp: order_entry_def)
  from level_of_order [OF d(7) y(1)] obtain p l where l: "levels_of b p = Some l" "lv_side l = s" "lv_price l = x" using y by metis
  then have "p \<in> set bs \<union> set as" using d(4) by auto
  then have "p \<in> set ls" using l s d(2,3) by (auto simp: side_levels_def)
  then show "x \<in> price_at (levels_of b) ` set ls" using l by force
next
  note d = mbook_relD [OF rel]
  fix x
  assume "x \<in> price_at (levels_of b) ` set ls"
  then obtain p l where l: "levels_of b p = Some l" "lv_side l = s" "lv_price l = x"
    using s d(2,3) by (fastforce simp: side_levels_def)
  then have q: "level_orders (orders_of b) l (Q p)" using d(7) by (auto simp: queues_ok_def)
  then obtain o' where "o' \<in> set (Q p)" by (cases "Q p") (auto simp: level_orders_def)
  then obtain y where "orders_of b o' = Some y" "mo_side y = s" "mo_price y = x" using q l by (auto simp: level_orders_def)
  then have "book_view b (mo_order_id y) = Some (s, x, mo_qty y, mo_priority y)"
    using book_view_Some [OF d(6)] by (auto simp: order_entry_def)
  then show "x \<in> side_prices (book_view b) s" by (auto simp: side_prices_def)
qed

lemma best_price_level:
  assumes rel: "mbook_rel b bs as Q" and s: "s = BUY \<and> ls = bs \<or> s = SELL \<and> ls = as" and "ls = p # ps" and l: "levels_of b p = Some l"
  shows "best_price (book_view b) s = lv_price l"
proof -
  note d = mbook_relD [OF rel]
  have prices: "side_prices (book_view b) s = insert (lv_price l) (price_at (levels_of b) ` set ps)"
    using side_prices_levels [OF rel s] assms(3) l by simp
  have "\<forall>q \<in> set ps. better_price s (lv_price l) (price_at (levels_of b) q)"
    using d(2,3) s assms(3) l by (auto simp: side_levels_def)
  then show ?thesis using s unfolding best_price_def prices
    by (auto simp: better_price_def intro!: Max_eqI Min_eqI)
qed

lemma top_level:
  assumes rel: "mbook_rel b bs as Q" and s: "s = BUY \<and> ls = bs \<or> s = SELL \<and> ls = as"
  shows "best_level s b = None \<longleftrightarrow> side_prices (book_view b) s = {}"
    and "best_level s b = Some p \<Longrightarrow> \<exists>l. levels_of b p = Some l \<and> lv_side l = s \<and> lv_price l = best_price (book_view b) s \<and>
      level_quantity b l = Inr (quantity_at (book_view b) s (best_price (book_view b) s)) \<and> side_prices (book_view b) s \<noteq> {}"
proof -
  note d = mbook_relD [OF rel]
  have best: "best_level s b = (if ls = [] then None else Some (hd ls))" using s d(2,3) by (auto simp: best_level_def side_levels_def)
  show "best_level s b = None \<longleftrightarrow> side_prices (book_view b) s = {}" using best side_prices_levels [OF rel s] by simp
  assume "best_level s b = Some p"
  then obtain ps where ls: "ls = p # ps" using best by (cases ls) auto
  obtain l where l: "levels_of b p = Some l" "lv_side l = s" using s d(2,3) ls by (auto simp: side_levels_def)
  have px: "lv_price l = best_price (book_view b) s" using best_price_level [OF rel s ls l(1)] by simp
  have "level_quantity b l = Inr (sum_list (map (order_qty (orders_of b)) (Q p)))"
    using level_quantity_ok [OF d(1)] d(7) l(1) by (auto simp: queues_ok_def)
  then have "level_quantity b l = Inr (quantity_at (book_view b) s (best_price (book_view b) s))"
    using quantity_at_level [OF rel l(1)] l(2) px by simp
  moreover have "side_prices (book_view b) s \<noteq> {}" using side_prices_levels [OF rel s] ls by simp
  ultimately show "\<exists>l. levels_of b p = Some l \<and> lv_side l = s \<and> lv_price l = best_price (book_view b) s \<and>
      level_quantity b l = Inr (quantity_at (book_view b) s (best_price (book_view b) s)) \<and> side_prices (book_view b) s \<noteq> {}"
    using l px by blast
qed

lemma mbook_rel_bbo: "mbook_rel (b\<lparr>mb_bbo := x\<rparr>) bs as Q \<longleftrightarrow> mbook_rel b bs as Q"
  by (simp add: mbook_rel_def pools_ok_def)

lemma book_view_bbo [simp]: "book_view (b\<lparr>mb_bbo := x\<rparr>) = book_view b"
  by (rule ext) (simp add: book_view_def)

text \<open>One side of the best bid and offer, taken from a view.\<close>

definition set_bid :: "live_view \<Rightarrow> BBO \<Rightarrow> BBO" where
  "set_bid v x = x\<lparr>bid_price := bid_price (view_BBO v), bid_qty := bid_qty (view_BBO v)\<rparr>"

definition set_ask :: "live_view \<Rightarrow> BBO \<Rightarrow> BBO" where
  "set_ask v x = x\<lparr>ask_price := ask_price (view_BBO v), ask_qty := ask_qty (view_BBO v)\<rparr>"

lemma updateBBO_ok:
  assumes rel: "mbook_rel b bs as Q"
  shows "updateBBO ub ua b = Inr (b\<lparr>mb_bbo :=
    (if ua then set_ask (book_view b) else id) ((if ub then set_bid (book_view b) else id) (mb_bbo b))\<rparr>)"
proof -
  let ?b1 = "b\<lparr>mb_bbo := (if ub then set_bid (book_view b) else id) (mb_bbo b)\<rparr>"
  have rel1: "mbook_rel ?b1 bs as Q" using rel by (simp add: mbook_rel_bbo)
  have nop: "b\<lparr>mb_bbo := mb_bbo b\<rparr> = b" by simp
  have first: "(if \<not> ub then Inr b
      else if bids_by_price b = None then Inr (b\<lparr>mb_bbo := (mb_bbo b)\<lparr>bid_price := 0, bid_qty := 0\<rparr>\<rparr>)
      else bindE (level_get b (bids_by_price b)) (\<lambda>l. bindE (level_quantity b l) (\<lambda>q.
        Inr (b\<lparr>mb_bbo := (mb_bbo b)\<lparr>bid_price := lv_price l, bid_qty := q\<rparr>\<rparr>)))) = Inr ?b1"
  proof (cases "bids_by_price b")
    case None
    then have "side_prices (book_view b) BUY = {}" using top_level(1) [OF rel, of BUY bs] by (simp add: best_level_def)
    then show ?thesis using None by (simp add: set_bid_def view_BBO_def)
  next
    case (Some p)
    then obtain l where "levels_of b p = Some l" "lv_price l = best_price (book_view b) BUY"
      "level_quantity b l = Inr (quantity_at (book_view b) BUY (best_price (book_view b) BUY))" "side_prices (book_view b) BUY \<noteq> {}"
      using top_level(2) [OF rel, of BUY bs p] by (auto simp: best_level_def)
    then show ?thesis using Some by (simp add: set_bid_def view_BBO_def)
  qed
  have second: "(if \<not> ua then Inr ?b1
      else if asks_by_price ?b1 = None then Inr (?b1\<lparr>mb_bbo := (mb_bbo ?b1)\<lparr>ask_price := 0, ask_qty := 0\<rparr>\<rparr>)
      else bindE (level_get ?b1 (asks_by_price ?b1)) (\<lambda>l. bindE (level_quantity ?b1 l) (\<lambda>q.
        Inr (?b1\<lparr>mb_bbo := (mb_bbo ?b1)\<lparr>ask_price := lv_price l, ask_qty := q\<rparr>\<rparr>)))) =
      Inr (?b1\<lparr>mb_bbo := (if ua then set_ask (book_view b) else id) (mb_bbo ?b1)\<rparr>)"
  proof (cases "asks_by_price ?b1")
    case None
    then have "side_prices (book_view b) SELL = {}" using top_level(1) [OF rel1, of SELL as] by (simp add: best_level_def)
    then show ?thesis using None by (simp add: set_ask_def view_BBO_def)
  next
    case (Some p)
    then obtain l where "levels_of ?b1 p = Some l" "lv_price l = best_price (book_view b) SELL"
      "level_quantity ?b1 l = Inr (quantity_at (book_view b) SELL (best_price (book_view b) SELL))" "side_prices (book_view b) SELL \<noteq> {}"
      using top_level(2) [OF rel1, of SELL as p] by (auto simp: best_level_def)
    then show ?thesis using Some by (simp add: set_ask_def view_BBO_def)
  qed
  show ?thesis unfolding updateBBO_def first bindE_simps second by simp
qed

end
