(* ===== verification/Client_Levels.thy ===== *)
theory Client_Levels
  imports Client_Book
begin

text \<open>
  Insertion and removal of a price level in the client's book: what the pointer updates of
  \<open>addOrdersAtPrice\<close> and \<open>removeOrdersAtPrice\<close> do to the rings of levels.
\<close>

section \<open>Pointer updates\<close>

definition level_data :: "MarketOrdersAtPrice \<Rightarrow> Side \<times> Price \<times> nat option" where
  "level_data l = (lv_side l, lv_price l, lv_first l)"

definition same_data :: "(nat \<rightharpoonup> MarketOrdersAtPrice) \<Rightarrow> (nat \<rightharpoonup> MarketOrdersAtPrice) \<Rightarrow> bool" where
  "same_data g g' \<longleftrightarrow> (\<forall>p. map_option level_data (g' p) = map_option level_data (g p))"

lemma same_dataD: "same_data g g' \<Longrightarrow> g p = Some l \<Longrightarrow> \<exists>l'. g' p = Some l' \<and> lv_side l' = lv_side l \<and> lv_price l' = lv_price l \<and> lv_first l' = lv_first l"
proof -
  assume "same_data g g'" and g: "g p = Some l"
  then have "map_option level_data (g' p) = map_option level_data (g p)" by (simp add: same_data_def)
  then show ?thesis using g by (cases "g' p") (simp_all add: level_data_def)
qed

lemma same_data_sym: "same_data g g' \<Longrightarrow> same_data g' g"
  by (simp add: same_data_def)

lemma same_data_trans: "same_data g g' \<Longrightarrow> same_data g' g'' \<Longrightarrow> same_data g g''"
  by (simp add: same_data_def)

lemma same_data_dom: "same_data g g' \<Longrightarrow> dom g' = dom g"
proof -
  assume s: "same_data g g'"
  have "g' p = None \<longleftrightarrow> g p = None" for p
  proof -
    have "map_option level_data (g' p) = map_option level_data (g p)" using s by (simp add: same_data_def)
    then show ?thesis by (cases "g p"; cases "g' p") simp_all
  qed
  then show ?thesis by (simp add: dom_def)
qed

text \<open>A run that only changed links of live levels.\<close>

definition pool_step :: "'a MemPool \<Rightarrow> 'a MemPool \<Rightarrow> bool" where
  "pool_step P P' \<longleftrightarrow> pool_inv P' \<and> mp_capacity P' = mp_capacity P \<and> mp_in_use P' = mp_in_use P"

lemma pool_step_refl: "pool_inv P \<Longrightarrow> pool_step P P"
  by (simp add: pool_step_def)

lemma pool_step_store: "pool_step P P' \<Longrightarrow> lookup P' p = Some y \<Longrightarrow> pool_step P (store p x P')"
  by (simp add: pool_step_def pool_inv_store)

definition relinked :: "(nat \<rightharpoonup> MarketOrdersAtPrice) \<Rightarrow> (nat \<rightharpoonup> MarketOrdersAtPrice) \<Rightarrow> nat \<Rightarrow> nat \<Rightarrow> nat \<Rightarrow> bool" where
  "relinked g g' p y t \<longleftrightarrow> same_data g g' \<and> lnext g' = (lnext g)(p := Some y, y := Some t) \<and>
     lprev g' = (lprev g)(y := Some p, t := Some y)"

lemma ring_member_level: "circular (lnext g) (lprev g) ls \<Longrightarrow> p \<in> set ls \<Longrightarrow> \<exists>l. g p = Some l"
  using ring_defined [of "lnext g" "lprev g" ls p] by (auto simp: lnext_def bind_eq_Some_conv)

lemma link_before_ok:
  assumes inv: "pool_inv (orders_at_price_pool b)" and r: "circular (lnext (levels_of b)) (lprev (levels_of b)) (t # ts)"
    and new: "levels_of b new = Some ln" "new \<notin> set (t # ts)"
  shows "\<exists>P. link_before (Some new) (Some t) b = Inr (b\<lparr>orders_at_price_pool := P\<rparr>) \<and>
    pool_step (orders_at_price_pool b) P \<and> relinked (levels_of b) (lookup P) (last (t # ts)) new t"
proof -
  let ?p = "last (t # ts)" and ?g = "levels_of b"
  have mem: "?p \<in> set (t # ts)" by (rule last_in_set) simp
  obtain lt lp where l: "?g t = Some lt" "?g ?p = Some lp"
    using ring_member_level [OF r] mem by (metis list.set_intros(1))
  have pr: "lv_prev lt = Some ?p" "lv_next lp = Some t" using ring_head [OF r] l by simp_all
  have ne: "new \<noteq> t" "new \<noteq> ?p" using new(2) mem by (metis list.set_intros(1), metis)
  define p where "p = ?p"
  let ?n1 = "ln\<lparr>lv_prev := Some p\<rparr>" let ?n2 = "?n1\<lparr>lv_next := Some t\<rparr>"
  let ?P1 = "store new ?n1 (orders_at_price_pool b)" let ?P2 = "store new ?n2 ?P1"
  let ?P3 = "store p (lp\<lparr>lv_next := Some new\<rparr>) ?P2"
  let ?t3 = "if p = t then lp\<lparr>lv_next := Some new\<rparr> else lt"
  let ?P = "store t (?t3\<lparr>lv_prev := Some new\<rparr>) ?P3"
  have t3: "lookup ?P3 t = Some ?t3" using l ne by (simp add: lookup_store p_def [symmetric])
  have run: "link_before (Some new) (Some t) b = Inr (b\<lparr>orders_at_price_pool := ?P\<rparr>)"
    using l pr ne new(1) t3 unfolding p_def [symmetric]
    by (simp add: link_before_def level_get_def level_put_def lookup_store)
  have step: "pool_step (orders_at_price_pool b) ?P"
  proof (rule pool_step_store [OF _ t3])
    have "pool_step (orders_at_price_pool b) ?P1" by (rule pool_step_store [OF pool_step_refl [OF inv] new(1)])
    then have "pool_step (orders_at_price_pool b) ?P2" by (rule pool_step_store) (simp add: lookup_store)
    then show "pool_step (orders_at_price_pool b) ?P3"
      by (rule pool_step_store) (use l ne in \<open>simp add: lookup_store p_def\<close>)
  qed
  have lt: "p = t \<Longrightarrow> lp = lt" using l by (simp add: p_def)
  have "relinked ?g (lookup ?P) p new t"
    using l pr ne new(1) lt unfolding relinked_def same_data_def p_def [symmetric]
    by (auto simp: lookup_store lnext_def lprev_def level_data_def fun_eq_iff)
  with run step show ?thesis unfolding p_def by blast
qed

lemma link_after_ok:
  assumes inv: "pool_inv (orders_at_price_pool b)" and r: "circular (lnext (levels_of b)) (lprev (levels_of b)) (n # ns)"
    and new: "levels_of b new = Some ln" "new \<notin> set (n # ns)" and t: "t = last (n # ns)"
  shows "\<exists>P. link_after (Some new) (Some t) b = Inr (b\<lparr>orders_at_price_pool := P\<rparr>) \<and>
    pool_step (orders_at_price_pool b) P \<and> relinked (levels_of b) (lookup P) t new n"
proof -
  let ?g = "levels_of b"
  have mem: "t \<in> set (n # ns)" unfolding t by (rule last_in_set) simp
  obtain lt lf where l: "?g t = Some lt" "?g n = Some lf"
    using ring_member_level [OF r] mem by (metis list.set_intros(1))
  have pr: "lv_prev lf = Some t" "lv_next lt = Some n" using ring_head [OF r] l by (simp_all add: t)
  have ne: "new \<noteq> n" "new \<noteq> t" using new(2) mem by (metis list.set_intros(1), metis)
  let ?n1 = "ln\<lparr>lv_prev := Some t\<rparr>" let ?n2 = "?n1\<lparr>lv_next := Some n\<rparr>"
  let ?P1 = "store new ?n1 (orders_at_price_pool b)" let ?P2 = "store n (lf\<lparr>lv_prev := Some new\<rparr>) ?P1"
  let ?P3 = "store new ?n2 ?P2"
  let ?t3 = "if n = t then lf\<lparr>lv_prev := Some new\<rparr> else lt"
  let ?P = "store t (?t3\<lparr>lv_next := Some new\<rparr>) ?P3"
  have t3: "lookup ?P3 t = Some ?t3" using l ne by (simp add: lookup_store)
  have lt: "n = t \<Longrightarrow> lf = lt" using l by simp
  have run: "link_after (Some new) (Some t) b = Inr (b\<lparr>orders_at_price_pool := ?P\<rparr>)"
    using l pr ne new(1) t3 lt by (simp add: link_after_def level_get_def level_put_def lookup_store)
  have step: "pool_step (orders_at_price_pool b) ?P"
  proof (rule pool_step_store [OF _ t3])
    have "pool_step (orders_at_price_pool b) ?P1" by (rule pool_step_store [OF pool_step_refl [OF inv] new(1)])
    then have "pool_step (orders_at_price_pool b) ?P2"
      by (rule pool_step_store) (use l ne in \<open>simp add: lookup_store\<close>)
    then show "pool_step (orders_at_price_pool b) ?P3"
      by (rule pool_step_store) (use ne in \<open>simp add: lookup_store\<close>)
  qed
  have "relinked ?g (lookup ?P) t new n"
    using l pr ne new(1) lt unfolding relinked_def same_data_def
    by (auto simp: lookup_store lnext_def lprev_def level_data_def fun_eq_iff)
  with run step show ?thesis by blast
qed

section \<open>Where the new level goes\<close>

definition goes_after :: "(nat \<rightharpoonup> MarketOrdersAtPrice) \<Rightarrow> MarketOrdersAtPrice \<Rightarrow> nat \<Rightarrow> bool" where
  "goes_after g new p \<longleftrightarrow> better_price (lv_side new) (price_at g p) (lv_price new)"

lemma comes_after_better: "lv_side new = BUY \<or> lv_side new = SELL \<Longrightarrow>
    comes_after new l \<longleftrightarrow> better_price (lv_side new) (lv_price l) (lv_price new)"
  by (auto simp: comes_after_def better_price_def)

lemma ring_following: "circular nx pv (a # q1 @ x # q2) \<Longrightarrow> nx x = Some (hd (q2 @ [a]))"
proof -
  assume "circular nx pv (a # q1 @ x # q2)"
  then have "circular nx pv (x # q2 @ a # q1)" using ring_rotate [of nx pv "a # q1" "x # q2"] by simp
  then show ?thesis using ring_next [of nx pv x] by (cases q2) auto
qed

lemma find_target_ok:
  assumes r: "circular (lnext (levels_of b)) (lprev (levels_of b)) (t0 # ts0)" and s: "lv_side new = BUY \<or> lv_side new = SELL"
    and "ts0 = xs @ ys" and "length ys < n"
  shows "find_target n b new (Some t0) True (Some (hd (ys @ [t0]))) =
    Inr (case dropWhile (goes_after (levels_of b) new) ys of [] \<Rightarrow> (True, Some t0) | t # _ \<Rightarrow> (False, Some t))"
  using assms(3,4)
proof (induction ys arbitrary: n xs)
  case Nil
  then show ?case by (cases n) simp_all
next
  case (Cons y ys)
  obtain m where n: "n = Suc m" "0 < m" using Cons.prems(2) by (cases n) auto
  obtain l where l: "levels_of b y = Some l" using ring_member_level [OF r] Cons.prems(1) by auto
  have ne: "y \<noteq> t0" using ring_distinct [OF r] Cons.prems(1) by auto
  have nx: "lv_next l = Some (hd (ys @ [t0]))" using ring_following [of _ _ t0 xs y ys] r Cons.prems(1) l by fastforce
  have after: "comes_after new l \<longleftrightarrow> goes_after (levels_of b) new y" using comes_after_better [OF s] l by (simp add: goes_after_def)
  show ?case
  proof (cases "goes_after (levels_of b) new y")
    case True
    have "find_target m b new (Some t0) True (Some (hd (ys @ [t0]))) =
        Inr (case dropWhile (goes_after (levels_of b) new) ys of [] \<Rightarrow> (True, Some t0) | t # _ \<Rightarrow> (False, Some t))"
      by (rule Cons.IH [of "xs @ [y]"]) (use Cons.prems n in simp_all)
    then show ?thesis using n ne l nx after True by simp
  next
    case False
    then show ?thesis using n ne l after by (cases m) simp_all
  qed
qed

lemma side_levels_bound:
  assumes "pool_inv P" and "side_levels (lookup P) s best ls"
  shows "length ls \<le> mp_capacity P"
proof -
  have d: "distinct ls" "set ls \<subseteq> dom (lookup P)" using assms(2) by (auto simp: side_levels_def dest: ring_distinct)
  have "length ls = card (set ls)" using d by (simp add: distinct_card)
  also have "\<dots> \<le> card (dom (lookup P))" using pool_live_card(1) [OF assms(1)] d by (intro card_mono)
  also have "\<dots> \<le> mp_capacity P" using pool_live_card [OF assms(1)] card_mono [of "{..<mp_next_unused P}" "dom (lookup P)"] by simp
  finally show ?thesis .
qed

text \<open>The sorted list with the new level in its place.\<close>

definition place_level :: "(nat \<rightharpoonup> MarketOrdersAtPrice) \<Rightarrow> MarketOrdersAtPrice \<Rightarrow> nat \<Rightarrow> nat list \<Rightarrow> nat list" where
  "place_level g l new ls = takeWhile (goes_after g l) ls @ new # dropWhile (goes_after g l) ls"

lemma place_level_set: "set (place_level g l new ls) = insert new (set ls)"
proof -
  have "set ls = set (takeWhile (goes_after g l) ls) \<union> set (dropWhile (goes_after g l) ls)"
    by (metis set_append takeWhile_dropWhile_id)
  then show ?thesis by (auto simp: place_level_def)
qed

lemma place_level_sorted:
  assumes srt: "sorted_wrt (\<lambda>p q. better_price (lv_side l) (price_at g p) (price_at g q)) ls"
    and "price_at g new = lv_price l" and ne: "\<forall>p \<in> set ls. price_at g p \<noteq> lv_price l"
  shows "sorted_wrt (\<lambda>p q. better_price (lv_side l) (price_at g p) (price_at g q)) (place_level g l new ls)"
proof -
  let ?R = "\<lambda>p q. better_price (lv_side l) (price_at g p) (price_at g q)" and ?W = "goes_after g l"
  let ?as = "takeWhile ?W ls" and ?bs = "dropWhile ?W ls"
  have split: "sorted_wrt ?R ?as" "sorted_wrt ?R ?bs" "\<forall>x \<in> set ?as. \<forall>y \<in> set ?bs. ?R x y"
    using srt sorted_wrt_append [of ?R ?as ?bs] unfolding takeWhile_dropWhile_id by blast+
  have as: "\<forall>p \<in> set ?as. better_price (lv_side l) (price_at g p) (lv_price l)"
    by (auto simp: goes_after_def dest: set_takeWhileD)
  have bs: "\<forall>p \<in> set ?bs. better_price (lv_side l) (lv_price l) (price_at g p)"
  proof (cases ?bs)
    case Nil
    show ?thesis unfolding Nil by simp
  next
    case (Cons t ts)
    then have "\<not> ?W t" by (metis hd_dropWhile list.sel(1) list.distinct(1))
    moreover have "t \<in> set ls" using Cons set_dropWhileD [of t ?W ls] by simp
    ultimately have t: "better_price (lv_side l) (lv_price l) (price_at g t)"
      using ne by (force simp: goes_after_def better_price_def split: if_splits)
    have "\<forall>q \<in> set ts. ?R t q" using split(2) unfolding Cons by simp
    then show ?thesis using t unfolding Cons by (auto simp: better_price_def split: if_splits)
  qed
  show ?thesis using split as bs assms(2) unfolding place_level_def by (auto simp: sorted_wrt_append)
qed

section \<open>Adding a level\<close>

lemma set_index_simps [simp]:
  "orders_at_price_pool (set_index px p b) = orders_at_price_pool b" "mb_order_pool (set_index px p b) = mb_order_pool b"
  "bids_by_price (set_index px p b) = bids_by_price b" "asks_by_price (set_index px p b) = asks_by_price b"
  "best_level s (set_index px p b) = best_level s b"
  by (simp_all add: set_index_def best_level_def)

lemma set_best_simps [simp]:
  "orders_at_price_pool (set_best_level s p b) = orders_at_price_pool b" "mb_order_pool (set_best_level s p b) = mb_order_pool b"
  "oid_to_order (set_best_level s p b) = oid_to_order b" "price_orders_at_price (set_best_level s p b) = price_orders_at_price b"
  "mb_bbo (set_best_level s p b) = mb_bbo b"
  by (simp_all add: set_best_level_def)

lemma set_best_same: "best_level s b = p \<Longrightarrow> set_best_level s p b = b"
  by (auto simp: set_best_level_def best_level_def)

lemma set_best_pool: "set_best_level s p (b\<lparr>orders_at_price_pool := P\<rparr>) = (set_best_level s p b)\<lparr>orders_at_price_pool := P\<rparr>"
  by (simp add: set_best_level_def)

lemma store_same: "lookup P p = Some x \<Longrightarrow> lookup (store p x P) = lookup P"
  by (auto simp: lookup_store)

text \<open>What the linking of a new level achieves, whatever its place.\<close>

lemma relinked_ring:
  assumes r: "circular (lnext g) (lprev g) (t # ts)" and new: "new \<notin> set (t # ts)" and link: "relinked g g' (last (t # ts)) new t"
  shows "circular (lnext g') (lprev g') (new # t # ts)"
  using ring_insert_front [OF r new refl] link by (simp add: relinked_def)

lemma relinked_other:
  assumes link: "relinked g g' p new t" and "q \<notin> {p, new, t}"
  shows "lnext g' q = lnext g q" "lprev g' q = lprev g q"
  using assms by (simp_all add: relinked_def)

lemma same_data_price: "same_data g g' \<Longrightarrow> price_at g' p = price_at g p"
proof -
  assume s: "same_data g g'"
  show ?thesis
  proof (cases "g p")
    case None
    then have "g' p = None" using same_data_dom [OF s] by (metis domIff)
    with None show ?thesis by (simp add: price_at_def)
  next
    case (Some l)
    then show ?thesis using same_dataD [OF s Some] by auto
  qed
qed

lemma level_get_index [simp]: "level_get (set_index px p b) = level_get b"
  by (simp add: level_get_def fun_eq_iff)

lemma addOrdersAtPrice_eq:
  assumes new: "levels_of b new = Some l" and best: "best_level (lv_side l) b = Some t0" and l0: "levels_of b t0 = Some l0"
    and t1: "(if comes_after l l0 then bindE (level_get b (lv_next l0)) (\<lambda>t1. Inr (comes_after l t1, lv_next l0)) else Inr (False, Some t0))
      = Inr (a1, tg1)"
    and tgt: "find_target (Suc (mp_capacity (orders_at_price_pool b))) (set_index (lv_price l) (Some new) b) l (Some t0) a1 tg1 = Inr (aa, tg)"
  shows "addOrdersAtPrice new b = (let c = set_index (lv_price l) (Some new) b in
    if aa then link_after (Some new) (if tg = Some t0 then lv_prev l0 else tg) c
    else bindE (link_before (Some new) tg c) (\<lambda>b1. bindE (level_get b1 (Some t0)) (\<lambda>t.
      if lv_side l = BUY \<and> lv_price l > lv_price t \<or> lv_side l = SELL \<and> lv_price l < lv_price t then
        bindE (level_put tg (\<lambda>x. x\<lparr>lv_next := (if lv_next x = Some t0 then Some new else lv_next x)\<rparr>) b1)
          (\<lambda>b2. Inr (set_best_level (lv_side l) (Some new) b2))
      else Inr b1)))"
proof -
  have g: "level_get b (Some new) = Inr l" "level_get b (Some t0) = Inr l0" using new l0 by simp_all
  have "(if tg = Some t0 then Inr (lv_prev l0) else Inr tg) = Inr (if tg = Some t0 then lv_prev l0 else tg)" by simp
  then show ?thesis
    unfolding addOrdersAtPrice_def Let_def g bindE_simps set_index_simps best level_get_index t1 tgt prod.case
    by (cases aa) simp_all
qed

lemma addOrdersAtPrice_ok:
  assumes inv: "pool_inv (orders_at_price_pool b)" and s: "lv_side l = BUY \<or> lv_side l = SELL"
    and new: "levels_of b new = Some l" "new \<notin> set ls" and side: "side_levels (levels_of b) (lv_side l) (best_level (lv_side l) b) ls"
    and ne: "\<forall>p \<in> set ls. price_at (levels_of b) p \<noteq> lv_price l"
  shows "\<exists>P. let ls' = place_level (levels_of b) l new ls in
    addOrdersAtPrice new b = Inr ((set_best_level (lv_side l) (Some (hd ls')) (set_index (lv_price l) (Some new) b))\<lparr>orders_at_price_pool := P\<rparr>) \<and>
    pool_step (orders_at_price_pool b) P \<and> same_data (levels_of b) (lookup P) \<and> circular (lnext (lookup P)) (lprev (lookup P)) ls' \<and>
    (\<forall>q. q \<notin> insert new (set ls) \<longrightarrow> lnext (lookup P) q = lnext (levels_of b) q \<and> lprev (lookup P) q = lprev (levels_of b) q)"
proof -
  let ?g = "levels_of b" and ?b = "set_index (lv_price l) (Some new) b"
  have best: "best_level (lv_side l) b = (if ls = [] then None else Some (hd ls))" using side by (simp add: side_levels_def)
  have r: "circular (lnext ?g) (lprev ?g) ls" using side by (simp add: side_levels_def)
  have get: "level_get b (Some new) = Inr l" using new(1) by simp
  show ?thesis
  proof (cases ls)
    case Nil
    let ?P = "store new (l\<lparr>lv_prev := Some new, lv_next := Some new\<rparr>) (orders_at_price_pool b)"
    have run: "addOrdersAtPrice new b = Inr ((set_best_level (lv_side l) (Some new) ?b)\<lparr>orders_at_price_pool := ?P\<rparr>)"
      using Nil best new(1) by (simp add: addOrdersAtPrice_def level_put_def)
    have "pool_step (orders_at_price_pool b) ?P" by (rule pool_step_store [OF pool_step_refl [OF inv] new(1)])
    moreover have "same_data ?g (lookup ?P)" using new(1) by (simp add: same_data_def lookup_store level_data_def)
    moreover have "circular (lnext (lookup ?P)) (lprev (lookup ?P)) [new]" by (simp add: ring_single lookup_store lnext_def lprev_def)
    moreover have "\<forall>q. q \<noteq> new \<longrightarrow> lnext (lookup ?P) q = lnext ?g q \<and> lprev (lookup ?P) q = lprev ?g q"
      by (simp add: lookup_store lnext_def lprev_def)
    ultimately show ?thesis using run Nil by (intro exI [of _ ?P]) (simp add: place_level_def Let_def)
  next
    case (Cons t0 ts0)
    obtain l0 where l0: "?g t0 = Some l0" using ring_member_level [OF r] Cons by auto
    have after0: "comes_after l l0 \<longleftrightarrow> goes_after ?g l t0" using comes_after_better [OF s] l0 by (simp add: goes_after_def)
    have bst: "best_level (lv_side l) b = Some t0" using best Cons by simp
    have nx0: "lv_next l0 = Some (hd (ts0 @ [t0]))"
    proof (cases ts0)
      case Nil
      then show ?thesis using r l0 Cons by (simp add: ring_single)
    next
      case (Cons c cs)
      then show ?thesis using ring_next [of "lnext ?g" "lprev ?g" t0 c cs] r l0 \<open>ls = t0 # ts0\<close> by simp
    qed
    have invb: "pool_inv (orders_at_price_pool ?b)" using inv by simp
    show ?thesis
    proof (cases "goes_after ?g l t0")
      case False
      have ls': "place_level ?g l new ls = new # t0 # ts0" using False Cons by (simp add: place_level_def)
      have r0: "circular (lnext (levels_of ?b)) (lprev (levels_of ?b)) (t0 # ts0)" and new0: "levels_of ?b new = Some l" "new \<notin> set (t0 # ts0)"
        using r new Cons by simp_all
      obtain P where P: "link_before (Some new) (Some t0) ?b = Inr (?b\<lparr>orders_at_price_pool := P\<rparr>)"
        "pool_step (orders_at_price_pool b) P" "relinked ?g (lookup P) (last (t0 # ts0)) new t0"
        using link_before_ok [OF invb r0 new0] by auto
      have same: "same_data ?g (lookup P)" using P(3) by (simp add: relinked_def)
      obtain l0' where l0': "lookup P t0 = Some l0'" "lv_price l0' = lv_price l0" using same_dataD [OF same l0] by blast
      have "lv_price l \<noteq> lv_price l0" using ne l0 Cons by auto
      then have cond: "lv_side l = BUY \<and> lv_price l > lv_price l0' \<or> lv_side l = SELL \<and> lv_price l < lv_price l0'"
        using False s l0 l0'(2) by (auto simp: goes_after_def better_price_def)
      have r1: "circular (lnext (lookup P)) (lprev (lookup P)) (new # t0 # ts0)" by (rule relinked_ring [OF r0 [simplified] new0(2) P(3)])
      have nx: "lv_next l0' \<noteq> Some t0"
      proof -
        have "lnext (lookup P) t0 = Some (hd (ts0 @ [new]))" using ring_following [of _ _ new "[]" t0 ts0] r1 by simp
        moreover have "hd (ts0 @ [new]) \<noteq> t0" using ring_distinct [OF r1] by (cases ts0) auto
        ultimately show ?thesis using l0' by simp
      qed
      let ?P = "store t0 l0' P"
      have look: "lookup ?P = lookup P" by (rule store_same [OF l0'(1)])
      have "l0'\<lparr>lv_next := lv_next l0'\<rparr> = l0'" by simp
      then have run: "addOrdersAtPrice new b = Inr ((set_best_level (lv_side l) (Some new) ?b)\<lparr>orders_at_price_pool := ?P\<rparr>)"
        using get bst l0 l0'(1) False after0 P(1) cond nx
        by (simp add: addOrdersAtPrice_def level_get_def level_put_def set_best_pool Let_def)
      have step: "pool_step (orders_at_price_pool b) ?P" by (rule pool_step_store [OF P(2) l0'(1)])
      have other: "\<forall>q. q \<notin> insert new (set ls) \<longrightarrow> lnext (lookup P) q = lnext ?g q \<and> lprev (lookup P) q = lprev ?g q"
        using relinked_other [OF P(3)] last_in_set [of "t0 # ts0"] Cons by (metis empty_iff insertCI insert_iff list.set_intros(1) list.discI)
      show ?thesis using run step same r1 other by (intro exI [of _ ?P]) (simp add: Let_def ls' look)
    next
      case True
      let ?W = "goes_after ?g l"
      define qs where "qs = takeWhile ?W ls"
      define bs where "bs = dropWhile ?W ls"
      have split: "ls = qs @ bs" by (simp add: qs_def bs_def)
      obtain qs' where qs: "qs = t0 # qs'" using True Cons by (simp add: qs_def)
      have ls': "place_level ?g l new ls = qs @ new # bs" by (simp add: place_level_def qs_def bs_def)
      have hd': "hd (place_level ?g l new ls) = t0" by (simp add: ls' qs)
      have keep: "set_best_level (lv_side l) (Some t0) ?b = ?b" by (rule set_best_same) (simp add: bst)
      have len: "length ts0 < Suc (mp_capacity (orders_at_price_pool b))"
        using side_levels_bound [OF inv side] Cons by simp
      define after1 where "after1 = (ts0 = [] \<or> ?W (hd ts0))"
      have t1: "(if comes_after l l0 then bindE (level_get b (lv_next l0)) (\<lambda>t1. Inr (comes_after l t1, lv_next l0)) else Inr (False, Some t0))
          = Inr (after1, Some (hd (ts0 @ [t0])))"
      proof -
        have "hd (ts0 @ [t0]) \<in> set ls" using Cons by (cases ts0) auto
        then obtain l1 where l1: "?g (hd (ts0 @ [t0])) = Some l1" using ring_member_level [OF r] by blast
        have "comes_after l l1 \<longleftrightarrow> ?W (hd (ts0 @ [t0]))" using comes_after_better [OF s] l1 by (simp add: goes_after_def)
        then show ?thesis using True after0 nx0 l1 by (cases ts0) (auto simp: after1_def)
      qed
      have tgt: "find_target (Suc (mp_capacity (orders_at_price_pool b))) ?b l (Some t0) after1 (Some (hd (ts0 @ [t0]))) =
          Inr (case bs of [] \<Rightarrow> (True, Some t0) | t # _ \<Rightarrow> (False, Some t))"
      proof (cases after1)
        case a: True
        have r0: "circular (lnext (levels_of ?b)) (lprev (levels_of ?b)) (t0 # ts0)" using r Cons by simp
        have "bs = dropWhile ?W ts0" using True Cons by (simp add: bs_def)
        then show ?thesis using find_target_ok [OF r0 s, of "[]" ts0, OF _ len] a by simp
      next
        case no: False
        then obtain c cs where c: "ts0 = c # cs" "\<not> ?W c" by (cases ts0) (auto simp: after1_def)
        then have "bs = c # cs" using True Cons by (simp add: bs_def)
        then show ?thesis using no c by simp
      qed
      show ?thesis
      proof (cases bs)
        case Nil
        have lsq: "ls = t0 # ts0" "qs = ls" using Cons split Nil by simp_all
        have prev: "lv_prev l0 = Some (last ls)" using ring_head [of "lnext ?g" "lprev ?g" t0 ts0] r Cons l0 by simp
        have r0: "circular (lnext (levels_of ?b)) (lprev (levels_of ?b)) (t0 # ts0)" and new0: "levels_of ?b new = Some l" "new \<notin> set (t0 # ts0)"
          using r new Cons by simp_all
        obtain P where P: "link_after (Some new) (Some (last ls)) ?b = Inr (?b\<lparr>orders_at_price_pool := P\<rparr>)"
          "pool_step (orders_at_price_pool b) P" "relinked ?g (lookup P) (last (t0 # ts0)) new t0"
          using link_after_ok [OF invb r0 new0, of "last ls"] Cons by auto
        have run: "addOrdersAtPrice new b = Inr (?b\<lparr>orders_at_price_pool := P\<rparr>)"
          unfolding addOrdersAtPrice_eq [OF new(1) bst l0 t1 tgt [unfolded Nil list.case]] using prev P(1) by (simp add: Let_def)
        have "circular (lnext (lookup P)) (lprev (lookup P)) (new # t0 # ts0)" by (rule relinked_ring [OF r0 [simplified] new0(2) P(3)])
        then have r1: "circular (lnext (lookup P)) (lprev (lookup P)) (ls @ [new])" using ring_rotate1 Cons by metis
        have other: "\<forall>q. q \<notin> insert new (set ls) \<longrightarrow> lnext (lookup P) q = lnext ?g q \<and> lprev (lookup P) q = lprev ?g q"
          using relinked_other [OF P(3)] last_in_set [of "t0 # ts0"] Cons by (metis empty_iff insertCI insert_iff list.set_intros(1) list.discI)
        have same: "same_data ?g (lookup P)" using P(3) by (simp add: relinked_def)
        show ?thesis unfolding Let_def hd' keep unfolding ls' Nil lsq(2) using run P(2) same r1 other by blast
      next
        case (Cons t ts)
        have r0: "circular (lnext (levels_of ?b)) (lprev (levels_of ?b)) (t # ts @ qs)"
          using r split Cons ring_rotate [of _ _ qs bs] by simp
        have new0: "levels_of ?b new = Some l" "new \<notin> set (t # ts @ qs)" using new split Cons by auto
        obtain P where P: "link_before (Some new) (Some t) ?b = Inr (?b\<lparr>orders_at_price_pool := P\<rparr>)"
          "pool_step (orders_at_price_pool b) P" "relinked ?g (lookup P) (last (t # ts @ qs)) new t"
          using link_before_ok [OF invb r0 new0] by auto
        have same: "same_data ?g (lookup P)" using P(3) by (simp add: relinked_def)
        obtain l0' where l0': "lookup P t0 = Some l0'" "lv_price l0' = lv_price l0" using same_dataD [OF same l0] by blast
        have cond: "\<not> (lv_side l = BUY \<and> lv_price l > lv_price l0' \<or> lv_side l = SELL \<and> lv_price l < lv_price l0')"
          using True l0 l0'(2) by (auto simp: goes_after_def better_price_def split: if_splits)
        have run: "addOrdersAtPrice new b = Inr (?b\<lparr>orders_at_price_pool := P\<rparr>)"
        proof -
          have get0: "level_get (?b\<lparr>orders_at_price_pool := P\<rparr>) (Some t0) = Inr l0'" using l0'(1) by simp
          show ?thesis
            unfolding addOrdersAtPrice_eq [OF new(1) bst l0 t1 tgt [unfolded Cons list.case]] Let_def if_False
              P(1) bindE_simps get0 if_not_P [OF cond] ..
        qed
        have "circular (lnext (lookup P)) (lprev (lookup P)) (new # t # ts @ qs)" by (rule relinked_ring [OF r0 [simplified] new0(2) P(3)])
        then have r1: "circular (lnext (lookup P)) (lprev (lookup P)) (qs @ new # bs)"
          using ring_rotate [of "lnext (lookup P)" "lprev (lookup P)" qs "new # bs"] Cons by simp
        have "set (t # ts @ qs) = set ls" using split Cons by auto
        then have other: "\<forall>q. q \<notin> insert new (set ls) \<longrightarrow> lnext (lookup P) q = lnext ?g q \<and> lprev (lookup P) q = lprev ?g q"
          using relinked_other [OF P(3)] last_in_set [of "t # ts @ qs"] by (metis empty_iff insertCI insert_iff list.set_intros(1) list.discI)
        show ?thesis unfolding Let_def hd' keep unfolding ls' using run P(2) same r1 other by blast
      qed
    qed
  qed
qed

section \<open>Removing a level\<close>

definition head_of :: "'a list \<Rightarrow> 'a option" where
  "head_of xs = (case xs of [] \<Rightarrow> None | x # _ \<Rightarrow> Some x)"

lemma head_of_simps [simp]: "head_of [] = None" "head_of (x # xs) = Some x"
  by (simp_all add: head_of_def)

lemma head_of_best: "head_of xs = (if xs = [] then None else Some (hd xs))"
  by (cases xs) simp_all

lemma set_best_index: "set_index px q (set_best_level s p b) = set_best_level s p (set_index px q b)"
  by (simp add: set_best_level_def set_index_def)

lemma set_index_pool: "set_index px q (b\<lparr>orders_at_price_pool := P\<rparr>) = (set_index px q b)\<lparr>orders_at_price_pool := P\<rparr>"
  by (simp add: set_index_def)

lemma removeOrdersAtPrice_ok:
  assumes inv: "pool_inv (orders_at_price_pool b)"
    and side: "side_levels (levels_of b) s (best_level s b) (as @ p # cs)"
    and l: "levels_of b p = Some l" and ix: "getOrdersAtPrice (lv_price l) b = Some p"
  shows "\<exists>P. removeOrdersAtPrice s (lv_price l) b =
      Inr ((set_best_level s (head_of (as @ cs)) (set_index (lv_price l) None b))\<lparr>orders_at_price_pool := P\<rparr>) \<and>
    pool_inv P \<and> mp_capacity P = mp_capacity (orders_at_price_pool b) \<and> lookup P p = None \<and>
    same_data ((levels_of b)(p := None)) (lookup P) \<and> circular (lnext (lookup P)) (lprev (lookup P)) (as @ cs) \<and>
    (\<forall>q. q \<notin> set (as @ p # cs) \<longrightarrow> lnext (lookup P) q = lnext (levels_of b) q \<and> lprev (lookup P) q = lprev (levels_of b) q)"
proof -
  let ?g = "levels_of b" and ?px = "lv_price l"
  have r: "circular (lnext ?g) (lprev ?g) (as @ p # cs)" using side by (simp add: side_levels_def)
  have best: "best_level s b = Some (hd (as @ p # cs))" using side by (simp add: side_levels_def)
  have dist: "distinct (as @ p # cs)" by (rule ring_distinct [OF r])
  show ?thesis
  proof (cases "cs @ as")
    case Nil
    then have nx: "lv_next l = Some p" using r l by (simp add: ring_single)
    obtain P where P: "deallocate p (orders_at_price_pool b) = Inr P" "pool_inv P" "lookup P = ?g(p := None)"
      "mp_capacity P = mp_capacity (orders_at_price_pool b)" using deallocate_ok [OF inv, of p] l by auto
    have "removeOrdersAtPrice s ?px b = Inr ((set_best_level s None (set_index ?px None b))\<lparr>orders_at_price_pool := P\<rparr>)"
      using l nx P(1) by (simp add: removeOrdersAtPrice_def ix Let_def set_best_index)
    then show ?thesis using Nil P by (intro exI [of _ P]) (auto simp: same_data_def lnext_def lprev_def)
  next
    case (Cons y ys)
    have r1: "circular (lnext ?g) (lprev ?g) (p # y # ys)" using r ring_rotate [of _ _ as "p # cs"] Cons by simp
    define p0 where "p0 = last (y # ys)"
    have mem: "p0 \<in> set (y # ys)" unfolding p0_def by (rule last_in_set) simp
    have d1: "p \<noteq> y" "p \<noteq> p0" using ring_distinct [OF r1] mem by auto
    have nx: "lv_next l = Some y" using ring_next [OF r1] l by simp
    have pv: "lv_prev l = Some p0" using ring_head [OF r1] l by (simp add: p0_def)
    obtain ly l0 where ly: "?g y = Some ly" "?g p0 = Some l0"
      using ring_member_level [OF r1] mem by (metis list.set_intros)
    let ?P1 = "store p0 (l0\<lparr>lv_next := Some y\<rparr>) (orders_at_price_pool b)"
    let ?y1 = "if y = p0 then l0\<lparr>lv_next := Some y\<rparr> else ly"
    let ?P2 = "store y (?y1\<lparr>lv_prev := Some p0\<rparr>) ?P1"
    let ?P3 = "store p (l\<lparr>lv_prev := None, lv_next := None\<rparr>) ?P2"
    have s1: "pool_step (orders_at_price_pool b) ?P1" by (rule pool_step_store [OF pool_step_refl [OF inv] ly(2)])
    have y1: "lookup ?P1 y = Some ?y1" using ly by (simp add: lookup_store)
    have s2: "pool_step (orders_at_price_pool b) ?P2" by (rule pool_step_store [OF s1 y1])
    have p2: "lookup ?P2 p = Some l" using d1 l by (simp add: lookup_store)
    have s3: "pool_step (orders_at_price_pool b) ?P3" by (rule pool_step_store [OF s2 p2])
    have live: "lookup ?P3 p \<noteq> None" by (simp add: lookup_store)
    obtain P where P: "deallocate p ?P3 = Inr P" "pool_inv P" "lookup P = (lookup ?P3)(p := None)" "mp_capacity P = mp_capacity ?P3"
      using deallocate_ok [OF _ live] s3 by (auto simp: pool_step_def)
    let ?c = "set_index ?px None b"
    have h: "(if p = hd (as @ p # cs) then Some y else Some (hd (as @ p # cs))) = head_of (as @ cs)"
    proof (cases as)
      case Nil
      then show ?thesis using Cons by simp
    next
      case (Cons a as')
      then show ?thesis using dist by auto
    qed
    have run: "removeOrdersAtPrice s ?px b = Inr ((set_best_level s (head_of (as @ cs)) ?c)\<lparr>orders_at_price_pool := P\<rparr>)"
    proof (cases "p = hd (as @ p # cs)")
      case True
      have h': "head_of (as @ cs) = Some y" using h True by simp
      have bst: "best_level s b = Some p" using best True by simp
      show ?thesis unfolding h'
        using l nx pv d1 ly y1 p2 P(1) bst
        by (simp add: removeOrdersAtPrice_def ix Let_def level_get_def level_put_def lookup_store set_best_index
            set_index_pool set_best_pool)
    next
      case False
      have "set_best_level s (head_of (as @ cs)) ?c = ?c" by (rule set_best_same) (use best h False in simp)
      then show ?thesis
        using l nx pv d1 ly y1 p2 P(1) best False
        by (simp add: removeOrdersAtPrice_def ix Let_def level_get_def level_put_def lookup_store set_index_pool)
    qed
    have look: "lookup P = (?g(p0 := Some (l0\<lparr>lv_next := Some y\<rparr>), y := Some (?y1\<lparr>lv_prev := Some p0\<rparr>)))(p := None)"
      unfolding P(3) by (simp add: lookup_store)
    have y0: "y = p0 \<Longrightarrow> l0 = ly" using ly by simp
    have same: "same_data (?g(p := None)) (lookup P)"
      unfolding look same_data_def using ly d1 y0 by (auto simp: level_data_def)
    have n': "lnext (lookup P) q = ((lnext ?g)(p0 := Some y)) q" "lprev (lookup P) q = ((lprev ?g)(y := Some p0)) q" if "q \<noteq> p" for q
      using that ly d1 y0 unfolding look by (auto simp: lnext_def lprev_def)
    have "circular ((lnext ?g)(p0 := Some y)) ((lprev ?g)(y := Some p0)) (y # ys)" by (rule ring_remove_front [OF r1 p0_def])
    moreover have "p \<notin> set (y # ys)" using ring_distinct [OF r1] by simp
    then have "circular (lnext (lookup P)) (lprev (lookup P)) (y # ys) \<longleftrightarrow> circular ((lnext ?g)(p0 := Some y)) ((lprev ?g)(y := Some p0)) (y # ys)"
      using n' by (intro ring_cong) metis+
    ultimately have "circular (lnext (lookup P)) (lprev (lookup P)) (cs @ as)" unfolding Cons by blast
    then have circular': "circular (lnext (lookup P)) (lprev (lookup P)) (as @ cs)" using ring_rotate by blast
    have "set (y # ys) = set (cs @ as)" unfolding Cons ..
    then have other: "\<forall>q. q \<notin> set (as @ p # cs) \<longrightarrow> lnext (lookup P) q = lnext ?g q \<and> lprev (lookup P) q = lprev ?g q"
      using n' mem by auto
    have "mp_capacity P = mp_capacity (orders_at_price_pool b)" using P(4) s3 by (simp add: pool_step_def)
    moreover have "lookup P p = None" by (simp add: P(3))
    ultimately show ?thesis using run P(2) same circular' other by blast
  qed
qed

end
