(* ===== verification/Client_Orders.thy ===== *)
theory Client_Orders
  imports Client_Levels
begin

text \<open>
  Adding and removing one order of the client's book keeps the relation to the lists and changes
  the view at that order only.
\<close>

section \<open>Order heaps\<close>

definition order_data_of :: "MarketOrder \<Rightarrow> OrderId \<times> Side \<times> Price \<times> Quantity \<times> Priority" where
  "order_data_of x = (mo_order_id x, mo_side x, mo_price x, mo_qty x, mo_priority x)"

definition same_orders :: "(nat \<rightharpoonup> MarketOrder) \<Rightarrow> (nat \<rightharpoonup> MarketOrder) \<Rightarrow> bool" where
  "same_orders h h' \<longleftrightarrow> (\<forall>p. map_option order_data_of (h' p) = map_option order_data_of (h p))"

lemma same_ordersD:
  assumes "same_orders h h'" and "h p = Some x"
  shows "\<exists>x'. h' p = Some x' \<and> mo_order_id x' = mo_order_id x \<and> mo_side x' = mo_side x \<and> mo_price x' = mo_price x \<and>
    mo_qty x' = mo_qty x \<and> mo_priority x' = mo_priority x"
proof -
  have "map_option order_data_of (h' p) = map_option order_data_of (h p)" using assms(1) by (simp add: same_orders_def)
  then show ?thesis using assms(2) by (cases "h' p") (simp_all add: order_data_of_def)
qed

lemma same_orders_refl: "same_orders h h"
  by (simp add: same_orders_def)

lemma same_orders_sym: "same_orders h h' \<Longrightarrow> same_orders h' h"
  by (simp add: same_orders_def)

lemma same_orders_None: "same_orders h h' \<Longrightarrow> h' p = None \<longleftrightarrow> h p = None"
proof -
  assume "same_orders h h'"
  then have "map_option order_data_of (h' p) = map_option order_data_of (h p)" by (simp add: same_orders_def)
  then show ?thesis by (cases "h p"; cases "h' p") simp_all
qed

lemma same_orders_entry: "same_orders h h' \<Longrightarrow> map_option order_entry (h' p) = map_option order_entry (h p)"
proof -
  assume s: "same_orders h h'"
  show ?thesis
  proof (cases "h p")
    case None
    then show ?thesis using same_orders_None [OF s, of p] by simp
  next
    case (Some x)
    then show ?thesis using same_ordersD [OF s Some] by (auto simp: order_entry_def)
  qed
qed

lemma level_orders_cong:
  assumes lo: "level_orders h l q" and "same_orders h h'"
    and "\<And>p. p \<in> set q \<Longrightarrow> onext h' p = onext h p \<and> oprev h' p = oprev h p"
    and "lv_first l' = lv_first l" "lv_side l' = lv_side l" "lv_price l' = lv_price l"
  shows "level_orders h' l' q"
proof -
  have "circular (onext h') (oprev h') q \<longleftrightarrow> circular (onext h) (oprev h) q" using assms(3) by (intro ring_cong) auto
  moreover have "\<exists>x. h' p = Some x \<and> mo_side x = lv_side l' \<and> mo_price x = lv_price l'" if m: "p \<in> set q" for p
  proof -
    obtain x where "h p = Some x" "mo_side x = lv_side l" "mo_price x = lv_price l" using lo m by (auto simp: level_orders_def)
    with same_ordersD [OF assms(2)] assms(5,6) show ?thesis by fastforce
  qed
  ultimately show ?thesis using lo assms(4) by (simp add: level_orders_def)
qed

lemma queue_disjoint:
  assumes ix: "index_ok ix g" and q: "queues_ok h g Q" and "g p = Some l" and "g p' = Some l'" and "p \<noteq> p'"
    and "o' \<in> set (Q p)"
  shows "o' \<notin> set (Q p')"
proof
  assume "o' \<in> set (Q p')"
  then have "lv_price l = lv_price l'"
    using level_members [OF ix q assms(3), of o'] level_members [OF ix q assms(4), of o'] assms(6) by auto
  then show False using same_price_same_level [OF ix assms(3,4)] assms(5) by simp
qed

section \<open>Identifiers\<close>

lemma ids_ok_same: "same_orders h h' \<Longrightarrow> ids_ok oids h \<Longrightarrow> ids_ok oids h'"
proof -
  assume s: "same_orders h h'" and ok: "ids_ok oids h"
  have bwd: "\<exists>x. h p = Some x \<and> mo_order_id x = mo_order_id x'" if "h' p = Some x'" for p x'
    using same_ordersD [OF same_orders_sym [OF s] that] by auto
  have fwd: "\<exists>x'. h' p = Some x' \<and> mo_order_id x' = mo_order_id x" if "h p = Some x" for p x
    using same_ordersD [OF s that] by auto
  show ?thesis using ok unfolding ids_ok_def by (metis bwd fwd)
qed

lemma ids_ok_insert:
  assumes ok: "ids_ok oids h" and new: "h p = None" "oids (unat (mo_order_id x)) = None" "unat (mo_order_id x) < kMaxOrderIds"
  shows "ids_ok (oids(unat (mo_order_id x) := Some p)) (h(p \<mapsto> x))"
proof -
  have uniq: "unat (mo_order_id y) \<noteq> unat (mo_order_id x)" if "h q = Some y" for q y
    using ids_okD [OF ok that] new(2) by auto
  have a: "\<And>i q. oids i = Some q \<longleftrightarrow> (\<exists>y. h q = Some y \<and> unat (mo_order_id y) = i)"
    and b: "\<And>q y. h q = Some y \<Longrightarrow> unat (mo_order_id y) < kMaxOrderIds" using ok unfolding ids_ok_def by blast+
  show ?thesis unfolding ids_ok_def
  proof (intro conjI allI impI)
    fix i q
    show "(oids(unat (mo_order_id x) := Some p)) i = Some q \<longleftrightarrow> (\<exists>y. (h(p \<mapsto> x)) q = Some y \<and> unat (mo_order_id y) = i)"
      using a [of i q] uniq [of q] new(1) by (cases "q = p") (auto dest: uniq)
  next
    fix q y
    show "(h(p \<mapsto> x)) q = Some y \<Longrightarrow> unat (mo_order_id y) < kMaxOrderIds" using b new(3) by (auto split: if_splits)
  qed
qed

lemma ids_ok_delete:
  assumes ok: "ids_ok oids h" and x: "h p = Some x"
  shows "ids_ok (oids(unat (mo_order_id x) := None)) (h(p := None))"
proof -
  have px: "oids (unat (mo_order_id x)) = Some p" using ids_okD [OF ok x] by simp
  have a: "\<And>i q. oids i = Some q \<longleftrightarrow> (\<exists>y. h q = Some y \<and> unat (mo_order_id y) = i)"
    and b: "\<And>q y. h q = Some y \<Longrightarrow> unat (mo_order_id y) < kMaxOrderIds" using ok unfolding ids_ok_def by blast+
  show ?thesis unfolding ids_ok_def
  proof (intro conjI allI impI)
    fix i q
    show "(oids(unat (mo_order_id x) := None)) i = Some q \<longleftrightarrow> (\<exists>y. (h(p := None)) q = Some y \<and> unat (mo_order_id y) = i)"
      using a [of i q] a [of i p] px x by auto
  next
    fix q y
    show "(h(p := None)) q = Some y \<Longrightarrow> unat (mo_order_id y) < kMaxOrderIds" using b by (auto split: if_splits)
  qed
qed

text \<open>A free id means a free slot.\<close>

lemma order_pool_room:
  assumes ok: "pools_ok b" and ids: "ids_ok (oid_to_order b) (orders_of b)" and free: "oid_to_order b i = None" "i < kMaxOrderIds"
  shows "mp_in_use (mb_order_pool b) < mp_capacity (mb_order_pool b)"
proof -
  have inv: "pool_inv (mb_order_pool b)" "mp_capacity (mb_order_pool b) = kMaxOrderIds" using ok by (simp_all add: pools_ok_def)
  let ?f = "\<lambda>p. unat (mo_order_id (the (orders_of b p)))"
  have "inj_on ?f (dom (orders_of b))"
  proof (rule inj_onI)
    fix p q
    assume "p \<in> dom (orders_of b)" "q \<in> dom (orders_of b)" and eq: "?f p = ?f q"
    then obtain x y where xy: "orders_of b p = Some x" "orders_of b q = Some y" by auto
    show "p = q" using ids_okD [OF ids xy(1)] ids_okD [OF ids xy(2)] eq xy by simp
  qed
  moreover have "?f ` dom (orders_of b) \<subseteq> {..<kMaxOrderIds} - {i}"
    using ids_okD [OF ids] free(1) by auto
  ultimately have "card (dom (orders_of b)) \<le> card ({..<kMaxOrderIds} - {i})" by (intro card_inj_on_le) simp_all
  then show ?thesis using pool_live_card(2) [OF inv(1)] inv(2) free(2) by simp
qed

lemma level_pool_room:
  assumes ok: "pools_ok b" and ix: "index_ok (price_orders_at_price b) (levels_of b)"
    and free: "price_orders_at_price b i = None" "i < kMaxPriceLevels"
  shows "mp_in_use (orders_at_price_pool b) < mp_capacity (orders_at_price_pool b)"
proof -
  have inv: "pool_inv (orders_at_price_pool b)" "mp_capacity (orders_at_price_pool b) = kMaxPriceLevels"
    using ok by (simp_all add: pools_ok_def)
  have a: "\<And>p l. levels_of b p = Some l \<Longrightarrow> price_orders_at_price b (nat (lv_price l)) = Some p \<and> nat (lv_price l) < kMaxPriceLevels"
    using ix unfolding index_ok_def by (auto simp: nat_less_iff)
  let ?f = "\<lambda>p. nat (lv_price (the (levels_of b p)))"
  have "inj_on ?f (dom (levels_of b))"
  proof (rule inj_onI)
    fix p q
    assume "p \<in> dom (levels_of b)" "q \<in> dom (levels_of b)" and eq: "?f p = ?f q"
    then obtain x y where xy: "levels_of b p = Some x" "levels_of b q = Some y" by auto
    show "p = q" using a [OF xy(1)] a [OF xy(2)] eq xy by simp
  qed
  moreover have "?f ` dom (levels_of b) \<subseteq> {..<kMaxPriceLevels} - {i}" using a free(1) by fastforce
  ultimately have "card (dom (levels_of b)) \<le> card ({..<kMaxPriceLevels} - {i})" by (intro card_inj_on_le) simp_all
  then show ?thesis using pool_live_card(2) [OF inv(1)] inv(2) free(2) by simp
qed

lemma priceToIndex_band: "0 \<le> p \<Longrightarrow> p < int kMaxPriceLevels \<Longrightarrow> priceToIndex p = nat p"
  by (simp add: priceToIndex_def capacity_defs nat_mod_distrib)

section \<open>Linking and unlinking\<close>

lemma ring_member_order: "circular (onext h) (oprev h) q \<Longrightarrow> p \<in> set q \<Longrightarrow> \<exists>x. h p = Some x"
  using ring_defined [of "onext h" "oprev h" q p] by (auto simp: onext_def bind_eq_Some_conv)

lemma link_order_ok:
  assumes inv: "pool_inv (mb_order_pool b)" and r: "circular (onext (orders_of b)) (oprev (orders_of b)) (f # q)"
    and new: "orders_of b o' = Some x" "o' \<notin> set (f # q)"
  shows "\<exists>P. link_order (Some f) (Some o') b = Inr (b\<lparr>mb_order_pool := P\<rparr>) \<and> pool_step (mb_order_pool b) P \<and>
    same_orders (orders_of b) (lookup P) \<and> onext (lookup P) = (onext (orders_of b))(last (f # q) := Some o', o' := Some f) \<and>
    oprev (lookup P) = (oprev (orders_of b))(o' := Some (last (f # q)), f := Some o')"
proof -
  define t where "t = last (f # q)"
  let ?h = "orders_of b"
  have mem: "t \<in> set (f # q)" unfolding t_def by (rule last_in_set) simp
  obtain xf xt where l: "?h f = Some xf" "?h t = Some xt" using ring_member_order [OF r] mem by (metis list.set_intros(1))
  have pr: "mo_prev xf = Some t" using ring_head [OF r] l by (simp add: t_def)
  have ne: "o' \<noteq> f" "o' \<noteq> t" using new(2) mem by (metis list.set_intros(1), metis)
  have eq: "t = f \<Longrightarrow> xt = xf" using l by simp
  let ?P1 = "store t (xt\<lparr>mo_next := Some o'\<rparr>) (mb_order_pool b)"
  let ?P2 = "store o' (x\<lparr>mo_prev := Some t\<rparr>) ?P1"
  let ?P3 = "store o' (x\<lparr>mo_prev := Some t, mo_next := Some f\<rparr>) ?P2"
  let ?f3 = "if t = f then xt\<lparr>mo_next := Some o'\<rparr> else xf"
  let ?P = "store f (?f3\<lparr>mo_prev := Some o'\<rparr>) ?P3"
  have f3: "lookup ?P3 f = Some ?f3" using l ne by (simp add: lookup_store)
  have run: "link_order (Some f) (Some o') b = Inr (b\<lparr>mb_order_pool := ?P\<rparr>)"
    using l pr ne new(1) f3 eq by (simp add: link_order_def order_get_def order_put_def lookup_store)
  have step: "pool_step (mb_order_pool b) ?P"
  proof (rule pool_step_store [OF _ f3])
    have "pool_step (mb_order_pool b) ?P1" by (rule pool_step_store [OF pool_step_refl [OF inv] l(2)])
    then have "pool_step (mb_order_pool b) ?P2" by (rule pool_step_store) (use new ne in \<open>simp add: lookup_store\<close>)
    then show "pool_step (mb_order_pool b) ?P3" by (rule pool_step_store) (simp add: lookup_store)
  qed
  have "same_orders ?h (lookup ?P)" using l ne new(1) eq by (auto simp: same_orders_def lookup_store order_data_of_def)
  moreover have "onext (lookup ?P) = (onext ?h)(t := Some o', o' := Some f)" "oprev (lookup ?P) = (oprev ?h)(o' := Some t, f := Some o')"
    using l ne new(1) eq by (auto simp: lookup_store onext_def oprev_def fun_eq_iff)
  ultimately show ?thesis using run step unfolding t_def by blast
qed

lemma unlink_order_ok:
  assumes inv: "pool_inv (mb_order_pool b)" "pool_inv (orders_at_price_pool b)"
    and r: "circular (onext (orders_of b)) (oprev (orders_of b)) (o' # y # ys)"
    and x: "orders_of b o' = Some x" and l: "levels_of b p = Some l"
  shows "\<exists>P PL. unlink_order (Some p) (Some o') x b = Inr (b\<lparr>mb_order_pool := P, orders_at_price_pool := PL\<rparr>) \<and>
    pool_step (mb_order_pool b) P \<and> pool_step (orders_at_price_pool b) PL \<and> same_orders (orders_of b) (lookup P) \<and>
    lookup PL = (levels_of b)(p \<mapsto> (if lv_first l = Some o' then l\<lparr>lv_first := Some y\<rparr> else l)) \<and>
    (\<forall>q. q \<noteq> o' \<longrightarrow> onext (lookup P) q = ((onext (orders_of b))(last (y # ys) := Some y)) q \<and>
       oprev (lookup P) q = ((oprev (orders_of b))(y := Some (last (y # ys)))) q)"
proof -
  define t where "t = last (y # ys)"
  let ?h = "orders_of b"
  have mem: "t \<in> set (y # ys)" unfolding t_def by (rule last_in_set) simp
  have ne: "o' \<noteq> y" "o' \<noteq> t" using ring_distinct [OF r] mem by auto
  have nx: "mo_next x = Some y" using ring_next [OF r] x by simp
  have pv: "mo_prev x = Some t" using ring_head [OF r] x by (simp add: t_def)
  obtain xy xt where m: "?h y = Some xy" "?h t = Some xt"
    using ring_member_order [OF r] mem by (metis list.set_intros)
  have eq: "t = y \<Longrightarrow> xt = xy" using m by simp
  let ?P1 = "store t (xt\<lparr>mo_next := Some y\<rparr>) (mb_order_pool b)"
  let ?y1 = "if t = y then xt\<lparr>mo_next := Some y\<rparr> else xy"
  let ?P2 = "store y (?y1\<lparr>mo_prev := Some t\<rparr>) ?P1"
  let ?P = "store o' (x\<lparr>mo_prev := None, mo_next := None\<rparr>) ?P2"
  let ?l = "if lv_first l = Some o' then l\<lparr>lv_first := Some y\<rparr> else l"
  let ?PL = "store p ?l (orders_at_price_pool b)"
  have y1: "lookup ?P1 y = Some ?y1" using m by (simp add: lookup_store)
  have o2: "lookup ?P2 o' = Some x" using ne x by (simp add: lookup_store)
  have same_pool: "store p l (orders_at_price_pool b) = orders_at_price_pool b"
    using l by (cases "orders_at_price_pool b") (auto simp: store_def lookup_def fun_eq_iff split: ObjectBlock.splits)
  have run: "unlink_order (Some p) (Some o') x b = Inr (b\<lparr>mb_order_pool := ?P, orders_at_price_pool := ?PL\<rparr>)"
    using m nx pv ne x l y1 o2 same_pool
    by (simp add: unlink_order_def order_put_def level_get_def level_put_def lookup_store)
  have s1: "pool_step (mb_order_pool b) ?P1" by (rule pool_step_store [OF pool_step_refl [OF inv(1)] m(2)])
  have s2: "pool_step (mb_order_pool b) ?P2" by (rule pool_step_store [OF s1 y1])
  have s3: "pool_step (mb_order_pool b) ?P" by (rule pool_step_store [OF s2 o2])
  have sl: "pool_step (orders_at_price_pool b) ?PL" by (rule pool_step_store [OF pool_step_refl [OF inv(2)] l])
  have "same_orders ?h (lookup ?P)" using m ne x eq by (auto simp: same_orders_def lookup_store order_data_of_def)
  moreover have "onext (lookup ?P) q = ((onext ?h)(t := Some y)) q" "oprev (lookup ?P) q = ((oprev ?h)(y := Some t)) q" if "q \<noteq> o'" for q
    using that m eq by (auto simp: lookup_store onext_def oprev_def)
  moreover have "lookup ?PL = (levels_of b)(p \<mapsto> ?l)" by (simp add: lookup_store)
  ultimately show ?thesis using run s3 sl unfolding t_def by blast
qed

end
