(* ===== verification/Client_Updates.thy ===== *)
theory Client_Updates
  imports Client_Orders
begin

text \<open>
  Each market update on the client's book: the run succeeds, the relation holds again, the view
  changes as the update says, and the best bid and offer stay those of the view.
\<close>

section \<open>Adding an order\<close>

definition new_order :: "MatchingEngineMarketUpdate \<Rightarrow> MarketOrder" where
  "new_order u = \<lparr>mo_order_id = mu_order_id u, mo_side = mu_side u, mo_price = mu_price u, mo_qty = mu_quantity u,
     mo_priority = mu_priority u, mo_prev = None, mo_next = None\<rparr>"

lemma new_order_simps [simp]:
  "mo_order_id (new_order u) = mu_order_id u" "mo_side (new_order u) = mu_side u" "mo_price (new_order u) = mu_price u"
  "mo_qty (new_order u) = mu_quantity u" "mo_priority (new_order u) = mu_priority u"
  by (simp_all add: new_order_def)

definition view_entry :: "MatchingEngineMarketUpdate \<Rightarrow> Side \<times> Price \<times> Quantity \<times> Priority" where
  "view_entry u = (mu_side u, mu_price u, mu_quantity u, mu_priority u)"

text \<open>The view after the heap gained an order.\<close>

lemma book_view_insert:
  assumes ids: "ids_ok (oid_to_order b) (orders_of b)" and new: "orders_of b o' = None"
    and s: "same_orders ((orders_of b)(o' \<mapsto> new_order u)) h'"
    and b': "oid_to_order b' = (oid_to_order b)(unat (mu_order_id u) := Some o')" "orders_of b' = h'"
  shows "book_view b' = (book_view b)(mu_order_id u \<mapsto> view_entry u)"
proof
  fix oid
  show "book_view b' oid = ((book_view b)(mu_order_id u \<mapsto> view_entry u)) oid"
  proof (cases "oid = mu_order_id u")
    case True
    then show ?thesis using same_orders_entry [OF s, of o'] b'
      by (simp add: book_view_def view_entry_def order_entry_def)
  next
    case False
    then have ne: "unat oid \<noteq> unat (mu_order_id u)" using unat_inj by blast
    show ?thesis
    proof (cases "oid_to_order b (unat oid)")
      case None
      then show ?thesis using ne False b'(1) by (simp add: book_view_def)
    next
      case (Some p)
      then have "p \<noteq> o'" using ids new unfolding ids_ok_def by force
      then show ?thesis using same_orders_entry [OF s, of p] ne False b' Some by (simp add: book_view_def)
    qed
  qed
qed

lemma side_levels_cong:
  assumes sl: "side_levels g s best ls" and same: "\<And>p. p \<in> set ls \<Longrightarrow> map_option level_data (g' p) = map_option level_data (g p)"
    and links: "\<And>p. p \<in> set ls \<Longrightarrow> lnext g' p = lnext g p \<and> lprev g' p = lprev g p"
  shows "side_levels g' s best ls"
proof -
  have lev: "\<exists>l l'. g p = Some l \<and> g' p = Some l' \<and> lv_side l = s \<and> lv_side l' = s \<and> price_at g' p = price_at g p" if m: "p \<in> set ls" for p
  proof -
    obtain l where "g p = Some l" "lv_side l = s" using sl m by (auto simp: side_levels_def)
    with same [OF m] show ?thesis by (cases "g' p") (auto simp: level_data_def)
  qed
  have "circular (lnext g') (lprev g') ls \<longleftrightarrow> circular (lnext g) (lprev g) ls" using links by (intro ring_cong) auto
  moreover have "sorted_wrt (\<lambda>p q. better_price s (price_at g' p) (price_at g' q)) ls"
  proof (rule sorted_wrt_mono_rel)
    show "sorted_wrt (\<lambda>p q. better_price s (price_at g p) (price_at g q)) ls" using sl by (simp add: side_levels_def)
    show "better_price s (price_at g' p) (price_at g' q)" if "p \<in> set ls" "q \<in> set ls" "better_price s (price_at g p) (price_at g q)" for p q
      using lev [OF that(1)] lev [OF that(2)] that(3) by metis
  qed
  moreover have "\<forall>p \<in> set ls. \<exists>l. g' p = Some l \<and> lv_side l = s" using lev by blast
  ultimately show ?thesis using sl by (simp add: side_levels_def)
qed

lemma same_price_side:
  assumes rel: "mbook_rel b bs as Q" and l: "levels_of b p = Some l"
  shows "\<exists>oid q pr. book_view b oid = Some (lv_side l, lv_price l, q, pr)"
proof -
  note d = mbook_relD [OF rel]
  have q: "level_orders (orders_of b) l (Q p)" using d(7) l by (auto simp: queues_ok_def)
  then obtain o' x where "orders_of b o' = Some x" "mo_side x = lv_side l" "mo_price x = lv_price l"
    by (cases "Q p") (auto simp: level_orders_def)
  then have "book_view b (mo_order_id x) = Some (lv_side l, lv_price l, mo_qty x, mo_priority x)"
    using book_view_Some [OF d(6), of "mo_order_id x"] by (auto simp: order_entry_def)
  then show ?thesis by blast
qed

text \<open>What a new order must satisfy.\<close>

definition can_add :: "live_view \<Rightarrow> MatchingEngineMarketUpdate \<Rightarrow> bool" where
  "can_add v u \<longleftrightarrow> unat (mu_order_id u) < kMaxOrderIds \<and> v (mu_order_id u) = None \<and>
     (mu_side u = BUY \<or> mu_side u = SELL) \<and> 0 \<le> mu_price u \<and> mu_price u < int kMaxPriceLevels \<and>
     (\<forall>oid s p q pr. v oid = Some (s, p, q, pr) \<longrightarrow> p = mu_price u \<longrightarrow> s = mu_side u)"

lemma add_existing_level:
  assumes rel: "mbook_rel b bs as Q" and add: "can_add (book_view b) u"
    and lp: "getOrdersAtPrice (mu_price u) b = Some lp"
    and P: "pool_inv P" "mp_capacity P = kMaxOrderIds" "orders_of b o' = None" "lookup P = (orders_of b)(o' \<mapsto> new_order u)"
  shows "\<exists>b' Q'. addOrder o' (b\<lparr>mb_order_pool := P\<rparr>) = Inr b' \<and> mbook_rel b' bs as Q' \<and>
    book_view b' = (book_view b)(mu_order_id u \<mapsto> view_entry u) \<and> mb_bbo b' = mb_bbo b"
proof -
  note d = mbook_relD [OF rel]
  let ?h = "orders_of b" and ?g = "levels_of b" and ?h1 = "lookup P" and ?c = "b\<lparr>mb_order_pool := P\<rparr>"
  have px: "0 \<le> mu_price u" "mu_price u < int kMaxPriceLevels" and id: "unat (mu_order_id u) < kMaxOrderIds"
    using add by (simp_all add: can_add_def)
  obtain l where l: "?g lp = Some l" "nat (lv_price l) = nat (mu_price u)" "0 \<le> lv_price l"
    using lp d(5) priceToIndex_band [OF px] unfolding getOrdersAtPrice_def index_ok_def by force
  have lpx: "lv_price l = mu_price u" using l px by simp
  have lsd: "lv_side l = mu_side u" using same_price_side [OF rel l(1)] add lpx by (auto simp: can_add_def)
  have q: "level_orders ?h l (Q lp)" using d(7) l(1) by (auto simp: queues_ok_def)
  obtain f qs where Q: "Q lp = f # qs" using q by (cases "Q lp") (auto simp: level_orders_def)
  have first: "lv_first l = Some f" "circular (onext ?h) (oprev ?h) (f # qs)" using q Q by (simp_all add: level_orders_def)
  have fresh: "o' \<notin> set (Q p)" if "?g p \<noteq> None" for p
    using d(7) that P(3) by (fastforce simp: queues_ok_def level_orders_def)
  have out: "o' \<notin> set (f # qs)" using fresh [of lp] l(1) Q by simp
  have h1: "onext ?h1 p = onext ?h p" "oprev ?h1 p = oprev ?h p" if "p \<noteq> o'" for p
    using that by (simp_all add: P(4) onext_def oprev_def)
  have "circular (onext ?h1) (oprev ?h1) (f # qs) \<longleftrightarrow> circular (onext ?h) (oprev ?h) (f # qs)"
    by (rule ring_cong) (use h1 out in metis)+
  then have r1: "circular (onext (orders_of ?c)) (oprev (orders_of ?c)) (f # qs)" using first(2) by simp
  have o1: "orders_of ?c o' = Some (new_order u)" by (simp add: P(4))
  let ?t = "last (f # qs)"
  obtain P' where P': "link_order (Some f) (Some o') ?c = Inr (?c\<lparr>mb_order_pool := P'\<rparr>)" "pool_step P P'" "same_orders ?h1 (lookup P')"
    "onext (lookup P') = (onext ?h1)(?t := Some o', o' := Some f)" "oprev (lookup P') = (oprev ?h1)(o' := Some ?t, f := Some o')"
    using link_order_ok [OF _ r1 o1 out] P(1) by auto
  let ?b' = "b\<lparr>mb_order_pool := P', oid_to_order := (oid_to_order b)(unat (mu_order_id u) := Some o')\<rparr>"
  have run: "addOrder o' ?c = Inr ?b'"
  proof -
    have "order_get ?c (Some o') = Inr (new_order u)" using o1 by simp
    moreover have "getOrdersAtPrice (mo_price (new_order u)) ?c = Some lp" using lp by (simp add: getOrdersAtPrice_def)
    moreover have "level_get ?c (Some lp) = Inr l" using l(1) by simp
    ultimately show ?thesis using first(1) P'(1) id by (simp add: addOrder_def Let_def)
  qed
  have other: "onext (lookup P') p = onext ?h p \<and> oprev (lookup P') p = oprev ?h p" if "p \<noteq> o'" "p \<notin> set (f # qs)" for p
    using that last_in_set [of "f # qs"] h1 P'(4,5) by (metis fun_upd_apply list.discI list.set_intros(1))
  have level: "level_orders (lookup P') l (f # qs @ [o'])"
  proof -
    have "circular (onext (lookup P')) (oprev (lookup P')) (o' # f # qs)"
      unfolding P'(4,5) by (rule ring_insert_front [OF r1 [simplified] out refl])
    then have "circular (onext (lookup P')) (oprev (lookup P')) (f # qs @ [o'])" using ring_rotate1 by (metis append_Cons)
    moreover have "\<exists>x. lookup P' p = Some x \<and> mo_side x = lv_side l \<and> mo_price x = lv_price l" if m: "p \<in> set (f # qs @ [o'])" for p
    proof -
      have "\<exists>x. ?h1 p = Some x \<and> mo_side x = lv_side l \<and> mo_price x = lv_price l"
        using m q Q out lsd lpx by (auto simp: P(4) level_orders_def)
      then show ?thesis using same_ordersD [OF P'(3)] by metis
    qed
    ultimately show ?thesis using first(1) by (simp add: level_orders_def)
  qed
  let ?Q = "Q(lp := f # qs @ [o'])"
  have queues: "queues_ok (lookup P') ?g ?Q"
  proof -
    have "level_orders (lookup P') l' (?Q p)" if m: "?g p = Some l'" for p l'
    proof (cases "p = lp")
      case True
      then show ?thesis using level m l(1) by simp
    next
      case False
      have lo: "level_orders ?h l' (Q p)" using d(7) m by (auto simp: queues_ok_def)
      have "a \<noteq> o' \<and> a \<notin> set (f # qs)" if "a \<in> set (Q p)" for a
        using fresh [of p] m that queue_disjoint [OF d(5,7) l(1) m, of a] False unfolding Q by auto
      then have lk: "onext (lookup P') a = onext ?h a \<and> oprev (lookup P') a = oprev ?h a" if "a \<in> set (Q p)" for a
        using other that by blast
      have so: "map_option order_data_of (lookup P' a) = map_option order_data_of (?h a)" if "a \<noteq> o'" for a
        using P'(3) that by (simp add: same_orders_def P(4))
      have "circular (onext (lookup P')) (oprev (lookup P')) (Q p) \<longleftrightarrow> circular (onext ?h) (oprev ?h) (Q p)"
        using lk by (intro ring_cong) auto
      moreover have "\<exists>x. lookup P' a = Some x \<and> mo_side x = lv_side l' \<and> mo_price x = lv_price l'" if a: "a \<in> set (Q p)" for a
      proof -
        obtain x where "?h a = Some x" "mo_side x = lv_side l'" "mo_price x = lv_price l'" using lo a by (auto simp: level_orders_def)
        moreover have "a \<noteq> o'" using fresh [of p] m a by auto
        ultimately show ?thesis using so [of a] by (cases "lookup P' a") (auto simp: order_data_of_def)
      qed
      ultimately show ?thesis using lo False by (simp add: level_orders_def)
    qed
    moreover have "\<exists>p. ?g p \<noteq> None \<and> a \<in> set (?Q p)" if "lookup P' a \<noteq> None" for a
    proof (cases "a = o'")
      case True
      then show ?thesis using l(1) by (intro exI [of _ lp]) simp
    next
      case False
      then have "?h a \<noteq> None" using that same_orders_None [OF P'(3), of a] by (simp add: P(4))
      then obtain p where "?g p \<noteq> None" "a \<in> set (Q p)" using d(7) unfolding queues_ok_def by blast
      then show ?thesis using Q by (intro exI [of _ p]) auto
    qed
    ultimately show ?thesis by (simp add: queues_ok_def)
  qed
  have free: "oid_to_order b (unat (mu_order_id u)) = None"
  proof (rule ccontr)
    assume "oid_to_order b (unat (mu_order_id u)) \<noteq> None"
    then obtain p x where "?h p = Some x" "unat (mo_order_id x) = unat (mu_order_id u)" using d(6) unfolding ids_ok_def by blast
    then have "book_view b (mu_order_id u) \<noteq> None" using book_view_Some [OF d(6), of "mu_order_id u"] unat_inj by blast
    then show False using add by (simp add: can_add_def)
  qed
  have "ids_ok ((oid_to_order b)(unat (mu_order_id u) := Some o')) ?h1"
    using ids_ok_insert [OF d(6) P(3), of "new_order u"] free id by (simp add: P(4))
  then have ids: "ids_ok ((oid_to_order b)(unat (mu_order_id u) := Some o')) (lookup P')" by (rule ids_ok_same [OF P'(3)])
  have "mbook_rel ?b' bs as ?Q"
    using d P(2) P'(2) queues ids unfolding mbook_rel_def pools_ok_def pool_step_def by simp
  moreover have "book_view ?b' = (book_view b)(mu_order_id u \<mapsto> view_entry u)"
    by (rule book_view_insert [OF d(6) P(3), where h' = "lookup P'"]) (use P'(3) in \<open>simp_all add: P(4)\<close>)
  ultimately show ?thesis using run by (intro exI [of _ ?b'] exI [of _ ?Q]) simp
qed


section \<open>A new level\<close>

definition side_list :: "Side \<Rightarrow> nat list \<Rightarrow> nat list \<Rightarrow> nat list" where
  "side_list s bs as = (if s = BUY then bs else as)"

lemma mbook_side:
  assumes "mbook_rel b bs as Q" and "s = BUY \<or> s = SELL"
  shows "side_levels (levels_of b) s (best_level s b) (side_list s bs as)"
  using mbook_relD [OF assms(1)] assms(2) by (auto simp: side_list_def best_level_def)

lemma mbook_relI:
  assumes "pools_ok b" and "side_levels (levels_of b) s (best_level s b) L" and "side_levels (levels_of b) t (best_level t b) M"
    and st: "s = BUY \<and> t = SELL \<or> s = SELL \<and> t = BUY" and "dom (levels_of b) = set L \<union> set M"
    and "index_ok (price_orders_at_price b) (levels_of b)" and "ids_ok (oid_to_order b) (orders_of b)"
    and "queues_ok (orders_of b) (levels_of b) Q"
  shows "\<exists>bs as. mbook_rel b bs as Q"
  using st
proof
  assume "s = BUY \<and> t = SELL"
  then have "mbook_rel b L M Q" using assms by (simp add: mbook_rel_def best_level_def)
  then show ?thesis by blast
next
  assume "s = SELL \<and> t = BUY"
  then have "mbook_rel b M L Q" using assms by (auto simp: mbook_rel_def best_level_def)
  then show ?thesis by blast
qed

lemma inverse_map_insert:
  assumes inv: "\<And>i q. ix i = Some q \<longleftrightarrow> (\<exists>y. g q = Some y \<and> k y = i)" and new: "g p = None" "ix (k x) = None"
  shows "(ix(k x := Some p)) i = Some q \<longleftrightarrow> (\<exists>y. (g(p \<mapsto> x)) q = Some y \<and> k y = i)"
proof (cases "q = p")
  case True
  then show ?thesis using inv [of i p] new(1) by auto
next
  case False
  have "k y \<noteq> k x" if "g q = Some y" for y using inv [of "k x" q] that new(2) by auto
  then show ?thesis using inv [of i q] False by auto
qed

lemma inverse_map_delete:
  assumes inv: "\<And>i q. ix i = Some q \<longleftrightarrow> (\<exists>y. g q = Some y \<and> k y = i)" and x: "g p = Some x"
  shows "(ix(k x := None)) i = Some q \<longleftrightarrow> (\<exists>y. (g(p := None)) q = Some y \<and> k y = i)"
proof (cases "i = k x")
  case True
  have "q = p" if "g q = Some y" "k y = k x" for y
    using inv [of "k x" q] inv [of "k x" p] that x by auto
  then show ?thesis using True by auto
next
  case False
  then show ?thesis using inv [of i q] x by auto
qed

lemma index_okD:
  "index_ok ix g \<Longrightarrow> ix i = Some q \<longleftrightarrow> (\<exists>y. g q = Some y \<and> nat (lv_price y) = i)"
  "index_ok ix g \<Longrightarrow> g q = Some y \<Longrightarrow> 0 \<le> lv_price y \<and> lv_price y < int kMaxPriceLevels"
  unfolding index_ok_def by blast+

lemma index_okI:
  assumes "\<And>i q. ix i = Some q \<longleftrightarrow> (\<exists>y. g q = Some y \<and> nat (lv_price y) = i)"
    and "\<And>q y. g q = Some y \<Longrightarrow> 0 \<le> lv_price y \<and> lv_price y < int kMaxPriceLevels"
  shows "index_ok ix g"
  unfolding index_ok_def using assms by blast

lemma index_ok_same:
  assumes s: "same_data g g'" and ok: "index_ok ix g"
  shows "index_ok ix g'"
proof (rule index_okI)
  have fwd: "\<exists>y. g' q = Some y \<and> lv_price y = lv_price l" if "g q = Some l" for q l using same_dataD [OF s that] by auto
  have bwd: "\<exists>y. g q = Some y \<and> lv_price y = lv_price l" if "g' q = Some l" for q l
    using same_dataD [OF same_data_sym [OF s] that] by auto
  show "ix i = Some q \<longleftrightarrow> (\<exists>y. g' q = Some y \<and> nat (lv_price y) = i)" for i q
    unfolding index_okD(1) [OF ok] using fwd [of q] bwd [of q] by fastforce
  show "0 \<le> lv_price y \<and> lv_price y < int kMaxPriceLevels" if "g' q = Some y" for q y
    using bwd [OF that] index_okD(2) [OF ok, of q] by fastforce
qed

lemma index_ok_insert:
  assumes ok: "index_ok ix g" and new: "g p = None" "ix (nat (lv_price l)) = None" "0 \<le> lv_price l" "lv_price l < int kMaxPriceLevels"
  shows "index_ok (ix(nat (lv_price l) := Some p)) (g(p \<mapsto> l))"
proof (rule index_okI)
  fix i q
  show "(ix(nat (lv_price l) := Some p)) i = Some q \<longleftrightarrow> (\<exists>y. (g(p \<mapsto> l)) q = Some y \<and> nat (lv_price y) = i)"
    by (rule inverse_map_insert [where k = "\<lambda>y. nat (lv_price y)", OF index_okD(1) [OF ok] new(1,2)])
next
  fix q y
  assume "(g(p \<mapsto> l)) q = Some y"
  then show "0 \<le> lv_price y \<and> lv_price y < int kMaxPriceLevels"
    using index_okD(2) [OF ok, of q y] new(3,4) by (cases "q = p") simp_all
qed

lemma index_ok_delete:
  assumes ok: "index_ok ix g" and l: "g p = Some l"
  shows "index_ok (ix(nat (lv_price l) := None)) (g(p := None))"
proof (rule index_okI)
  fix i q
  show "(ix(nat (lv_price l) := None)) i = Some q \<longleftrightarrow> (\<exists>y. (g(p := None)) q = Some y \<and> nat (lv_price y) = i)"
    by (rule inverse_map_delete [where k = "\<lambda>y. nat (lv_price y)", OF index_okD(1) [OF ok] l])
next
  fix q y
  assume "(g(p := None)) q = Some y"
  then show "0 \<le> lv_price y \<and> lv_price y < int kMaxPriceLevels"
    using index_okD(2) [OF ok, of q y] by (cases "q = p") simp_all
qed

text \<open>The level a new order opens.\<close>

definition new_level :: "MatchingEngineMarketUpdate \<Rightarrow> nat \<Rightarrow> MarketOrdersAtPrice" where
  "new_level u o' = \<lparr>lv_side = mu_side u, lv_price = mu_price u, lv_first = Some o', lv_prev = None, lv_next = None\<rparr>"

lemma new_level_simps [simp]:
  "lv_side (new_level u o') = mu_side u" "lv_price (new_level u o') = mu_price u" "lv_first (new_level u o') = Some o'"
  by (simp_all add: new_level_def)

lemma side_levels_relinked:
  assumes sl: "side_levels g (lv_side l) best ls" and g1: "g1 = g(new \<mapsto> l)" and new: "new \<notin> set ls"
    and ne: "\<forall>p \<in> set ls. price_at g1 p \<noteq> lv_price l" and same: "same_data g1 g'"
    and r: "circular (lnext g') (lprev g') (place_level g1 l new ls)"
  shows "side_levels g' (lv_side l) (Some (hd (place_level g1 l new ls))) (place_level g1 l new ls)"
proof -
  let ?ls = "place_level g1 l new ls"
  have at: "\<exists>y. g1 p = Some y \<and> lv_side y = lv_side l" if "p \<in> set ?ls" for p
    using that sl by (auto simp: place_level_set g1 side_levels_def)
  have "side_levels g1 (lv_side l) best ls \<Longrightarrow> sorted_wrt (\<lambda>p q. better_price (lv_side l) (price_at g1 p) (price_at g1 q)) ?ls"
    using ne by (intro place_level_sorted) (simp_all add: side_levels_def g1)
  moreover have "side_levels g1 (lv_side l) best ls"
    by (rule side_levels_cong [OF sl]) (use new in \<open>auto simp: g1 lnext_def lprev_def\<close>)
  ultimately have "sorted_wrt (\<lambda>p q. better_price (lv_side l) (price_at g' p) (price_at g' q)) ?ls"
    by (simp add: same_data_price [OF same])
  moreover have "\<forall>p \<in> set ?ls. \<exists>y. g' p = Some y \<and> lv_side y = lv_side l" using at same_dataD [OF same] by metis
  moreover have "?ls \<noteq> []" by (simp add: place_level_def)
  ultimately show ?thesis using r by (simp add: side_levels_def)
qed

lemma queues_ok_new_level:
  assumes q: "queues_ok h g Q" and fresh: "h o' = None" "g new = None"
    and x: "h' = h(o' \<mapsto> x)" "mo_side x = lv_side l" "mo_price x = lv_price l" "mo_prev x = Some o'" "mo_next x = Some o'"
    and l: "lv_first l = Some o'" and same: "same_data (g(new \<mapsto> l)) g'"
  shows "queues_ok h' g' (Q(new := [o']))"
proof -
  let ?Q = "Q(new := [o'])"
  have "level_orders h' l' (?Q p)" if m: "g' p = Some l'" for p l'
  proof -
    obtain y where y: "(g(new \<mapsto> l)) p = Some y" "lv_side y = lv_side l'" "lv_price y = lv_price l'" "lv_first y = lv_first l'"
      using same_dataD [OF same_data_sym [OF same] m] by blast
    show ?thesis
    proof (cases "p = new")
      case True
      then show ?thesis using y x l by (simp add: level_orders_def ring_single)
    next
      case False
      then have g: "g p = Some y" and lo: "level_orders h y (Q p)" using q y(1) by (simp_all add: queues_ok_def)
      have out: "a \<noteq> o'" if "a \<in> set (Q p)" for a using lo that fresh(1) by (auto simp: level_orders_def)
      have "circular (onext h') (oprev h') (Q p) \<longleftrightarrow> circular (onext h) (oprev h) (Q p)"
        by (rule ring_cong) (use out in \<open>simp_all add: x(1) onext_def oprev_def\<close>)
      then show ?thesis using lo y out False by (auto simp: level_orders_def x(1))
    qed
  qed
  moreover have "\<exists>p. g' p \<noteq> None \<and> a \<in> set (?Q p)" if m: "h' a \<noteq> None" for a
  proof -
    have dom: "g' p \<noteq> None \<longleftrightarrow> (g(new \<mapsto> l)) p \<noteq> None" for p using same_data_dom [OF same] by blast
    show ?thesis
    proof (cases "a = o'")
      case True
      then show ?thesis using dom by (intro exI [of _ new]) simp
    next
      case False
      then have "h a \<noteq> None" using m by (simp add: x(1))
      then obtain p where "g p \<noteq> None" "a \<in> set (Q p)" using q unfolding queues_ok_def by blast
      then show ?thesis using dom fresh(2) by (intro exI [of _ p]) auto
    qed
  qed
  ultimately show ?thesis unfolding queues_ok_def by blast
qed

lemma can_add_fresh:
  assumes ids: "ids_ok (oid_to_order b) (orders_of b)" and add: "can_add (book_view b) u"
  shows "oid_to_order b (unat (mu_order_id u)) = None"
proof (rule ccontr)
  assume "oid_to_order b (unat (mu_order_id u)) \<noteq> None"
  then obtain p x where "orders_of b p = Some x" "unat (mo_order_id x) = unat (mu_order_id u)" using ids unfolding ids_ok_def by blast
  then have "book_view b (mu_order_id u) \<noteq> None" using book_view_Some [OF ids, of "mu_order_id u"] unat_inj by blast
  then show False using add by (simp add: can_add_def)
qed

lemma other_side_kept:
  assumes sl: "side_levels g t best ls" and g1: "g1 = g(new \<mapsto> l)" and l: "g new = None" and same: "same_data g1 g'"
    and out: "\<forall>q. q \<notin> insert new M \<longrightarrow> lnext g' q = lnext g1 q \<and> lprev g' q = lprev g1 q" and M: "M \<inter> set ls = {}"
  shows "side_levels g' t best ls"
proof (rule side_levels_cong [OF sl])
  fix p
  assume p: "p \<in> set ls"
  then have ne: "p \<noteq> new" using sl l by (auto simp: side_levels_def)
  show "map_option level_data (g' p) = map_option level_data (g p)" using same ne by (simp add: same_data_def g1)
  have "p \<notin> insert new M" using ne M p by auto
  then show "lnext g' p = lnext g p \<and> lprev g' p = lprev g p" using out ne by (simp add: g1 lnext_def lprev_def)
qed

lemma add_new_level:
  assumes rel: "mbook_rel b bs as Q" and add: "can_add (book_view b) u"
    and lp: "getOrdersAtPrice (mu_price u) b = None"
    and P: "pool_inv P" "mp_capacity P = kMaxOrderIds" "orders_of b o' = None" "lookup P = (orders_of b)(o' \<mapsto> new_order u)"
  shows "\<exists>b' bs' as' Q'. addOrder o' (b\<lparr>mb_order_pool := P\<rparr>) = Inr b' \<and> mbook_rel b' bs' as' Q' \<and>
    book_view b' = (book_view b)(mu_order_id u \<mapsto> view_entry u) \<and> mb_bbo b' = mb_bbo b"
proof -
  note d = mbook_relD [OF rel]
  let ?h = "orders_of b" and ?g = "levels_of b" and ?s = "mu_side u" and ?px = "mu_price u" and ?l = "new_level u o'"
  have px: "0 \<le> ?px" "?px < int kMaxPriceLevels" and id: "unat (mu_order_id u) < kMaxOrderIds" and s: "?s = BUY \<or> ?s = SELL"
    using add by (simp_all add: can_add_def)
  let ?t = "if ?s = BUY then SELL else BUY" and ?L = "side_list ?s bs as"
  let ?M = "side_list ?t bs as"
  have st: "?s = BUY \<and> ?t = SELL \<or> ?s = SELL \<and> ?t = BUY" using s by auto
  have ix0: "price_orders_at_price b (nat ?px) = None" using lp by (simp add: getOrdersAtPrice_def priceToIndex_band [OF px])
  have "mp_in_use (orders_at_price_pool b) < mp_capacity (orders_at_price_pool b)"
    by (rule level_pool_room [OF d(1,5) ix0]) (use px in simp)
  then obtain new PL where PL: "allocate ?l (orders_at_price_pool b) = Inr (new, PL)" "pool_inv PL" "?g new = None"
      "lookup PL = ?g(new \<mapsto> ?l)" "mp_capacity PL = mp_capacity (orders_at_price_pool b)"
    using allocate_ok [of "orders_at_price_pool b" ?l] d(1) unfolding pools_ok_def by blast
  define x1 where "x1 = (new_order u)\<lparr>mo_prev := Some o', mo_next := Some o'\<rparr>"
  define P1 where "P1 = store o' x1 P"
  have P1: "pool_inv P1" "mp_capacity P1 = kMaxOrderIds" "lookup P1 = ?h(o' \<mapsto> x1)"
    using P by (simp_all add: P1_def pool_inv_store lookup_store)
  define c where "c = b\<lparr>mb_order_pool := P1, orders_at_price_pool := PL\<rparr>"
  have c: "levels_of c = ?g(new \<mapsto> ?l)" "orders_of c = ?h(o' \<mapsto> x1)" "best_level t c = best_level t b"
    "price_orders_at_price c = price_orders_at_price b" "oid_to_order c = oid_to_order b" "mb_bbo c = mb_bbo b" for t
    by (simp_all add: c_def PL(4) P1(3) best_level_def)
  have own: "side_levels ?g ?s (best_level ?s b) ?L" and oth: "side_levels ?g ?t (best_level ?t b) ?M"
    using mbook_side [OF rel] s by auto
  have newL: "new \<notin> set ?L" using own PL(3) by (auto simp: side_levels_def)
  have own1: "side_levels (levels_of c) (lv_side ?l) (best_level (lv_side ?l) c) ?L"
    unfolding new_level_simps c(3) by (rule side_levels_cong [OF own]) (use newL in \<open>auto simp: c lnext_def lprev_def\<close>)
  have ne: "\<forall>p \<in> set ?L. price_at (levels_of c) p \<noteq> lv_price ?l"
  proof
    fix p
    assume m: "p \<in> set ?L"
    then obtain y where y: "?g p = Some y" using own by (auto simp: side_levels_def)
    then have "price_orders_at_price b (nat (lv_price y)) = Some p" "0 \<le> lv_price y" using d(5) unfolding index_ok_def by auto
    then have "lv_price y \<noteq> ?px" using ix0 by auto
    then show "price_at (levels_of c) p \<noteq> lv_price ?l" using y m newL by (auto simp: c price_at_def)
  qed
  let ?ls = "place_level (levels_of c) ?l new ?L"
  obtain P' where P': "addOrdersAtPrice new c = Inr ((set_best_level ?s (Some (hd ?ls)) (set_index ?px (Some new) c))\<lparr>orders_at_price_pool := P'\<rparr>)"
      "pool_step (orders_at_price_pool c) P'" "same_data (levels_of c) (lookup P')" "circular (lnext (lookup P')) (lprev (lookup P')) ?ls"
      "\<forall>q. q \<notin> insert new (set ?L) \<longrightarrow> lnext (lookup P') q = lnext (levels_of c) q \<and> lprev (lookup P') q = lprev (levels_of c) q"
    using addOrdersAtPrice_ok [OF _ _ _ newL own1 ne] PL(2) s by (auto simp: Let_def c_def PL(4))
  define b' where "b' = ((set_best_level ?s (Some (hd ?ls)) (set_index ?px (Some new) c))\<lparr>orders_at_price_pool := P'\<rparr>)
    \<lparr>oid_to_order := (oid_to_order b)(unat (mu_order_id u) := Some o')\<rparr>"
  have b': "levels_of b' = lookup P'" "orders_of b' = orders_of c" "mb_order_pool b' = P1" "orders_at_price_pool b' = P'"
    "best_level ?s b' = Some (hd ?ls)" "best_level ?t b' = best_level ?t b" "mb_bbo b' = mb_bbo b"
    "price_orders_at_price b' = (price_orders_at_price b)(nat ?px := Some new)"
    "oid_to_order b' = (oid_to_order b)(unat (mu_order_id u) := Some o')"
    using s by (auto simp: b'_def set_best_level_def set_index_def best_level_def c_def P1(3) priceToIndex_band [OF px])
  have run: "addOrder o' (b\<lparr>mb_order_pool := P\<rparr>) = Inr b'"
  proof -
    have o1: "lookup (mb_order_pool (b\<lparr>mb_order_pool := P\<rparr>)) o' = Some (new_order u)" by (simp add: P(4))
    have "getOrdersAtPrice ?px (b\<lparr>mb_order_pool := P\<rparr>) = None" using lp by (simp add: getOrdersAtPrice_def)
    moreover have "order_put (Some o') (\<lambda>x. x\<lparr>mo_prev := Some o', mo_next := Some o'\<rparr>) (b\<lparr>mb_order_pool := P\<rparr>) = Inr (b\<lparr>mb_order_pool := P1\<rparr>)"
      using order_putI [OF o1] by (simp add: P1_def x1_def)
    moreover have "allocate \<lparr>lv_side = ?s, lv_price = ?px, lv_first = Some o', lv_prev = None, lv_next = None\<rparr> (orders_at_price_pool b) = Inr (new, PL)"
      using PL(1) by (simp add: new_level_def)
    moreover have "b\<lparr>mb_order_pool := P1, orders_at_price_pool := PL\<rparr> = c" by (simp add: c_def)
    moreover have "oid_to_order (set_best_level ?s (Some (hd ?ls)) (set_index ?px (Some new) c)) = oid_to_order b"
      by (simp add: set_best_level_def set_index_def c_def)
    ultimately show ?thesis using order_getI [OF o1] P'(1) id
      by (simp add: addOrder_def Let_def b'_def)
  qed
  have disj: "set ?L \<inter> set ?M = {}"
  proof (rule ccontr)
    assume "set ?L \<inter> set ?M \<noteq> {}"
    then obtain p y where "?g p = Some y" "lv_side y = ?s" "lv_side y = ?t" using own oth unfolding side_levels_def by fastforce
    then show False using st by auto
  qed
  have same_orders': "same_orders (?h(o' \<mapsto> new_order u)) (orders_of b')"
    by (simp add: same_orders_def b'(3) P1(3) x1_def order_data_of_def)
  have "side_levels (levels_of b') ?s (best_level ?s b') ?ls"
    using side_levels_relinked [of ?g ?l, OF _ c(1) newL ne P'(3,4)] own unfolding b' by simp
  moreover have "side_levels (levels_of b') ?t (best_level ?t b') ?M"
    unfolding b' by (rule other_side_kept [OF oth c(1) PL(3) P'(3,5) disj])
  moreover have "dom (levels_of b') = set ?ls \<union> set ?M"
    using d(4) s unfolding b' same_data_dom [OF P'(3)] place_level_set c(1) by (auto simp: side_list_def)
  moreover have "index_ok (price_orders_at_price b') (levels_of b')"
    unfolding b' using index_ok_same [OF P'(3)] index_ok_insert [OF d(5) PL(3), of ?l] ix0 px by (simp add: c(1))
  moreover have "ids_ok (oid_to_order b') (orders_of b')"
    using ids_ok_same [OF same_orders'] ids_ok_insert [OF d(6) P(3), of "new_order u"] can_add_fresh [OF d(6) add] id
    unfolding b'(9) by simp
  moreover have "queues_ok (orders_of b') (levels_of b') (Q(new := [o']))"
    unfolding b' by (rule queues_ok_new_level [OF d(7) P(3) PL(3) P1(3)]) (use P'(3) c(1) in \<open>simp_all add: x1_def\<close>)
  moreover have "pools_ok b'"
    using d(1) P1 P'(2) PL(5) unfolding pools_ok_def pool_step_def b' by (simp add: c_def)
  ultimately obtain bs' as' where "mbook_rel b' bs' as' (Q(new := [o']))"
    using mbook_relI [OF _ _ _ st] by blast
  moreover have "book_view b' = (book_view b)(mu_order_id u \<mapsto> view_entry u)"
    by (rule book_view_insert [OF d(6) P(3) same_orders' b'(9) refl])
  ultimately show ?thesis using run b'(7) by blast
qed

end
