(* ===== verification/Client_Changes.thy ===== *)
theory Client_Changes
  imports Client_Updates
begin

text \<open>
  The market updates that change or take away orders, and the snapshot's \<open>CLEAR\<close>, on the client's book.
\<close>

section \<open>Changing an order\<close>

text \<open>What an update that names an order relies on: the order is live at the update's side and price.\<close>

definition names_live :: "live_view \<Rightarrow> MatchingEngineMarketUpdate \<Rightarrow> bool" where
  "names_live v u \<longleftrightarrow> unat (mu_order_id u) < kMaxOrderIds \<and> (\<exists>q pr. v (mu_order_id u) = Some (mu_side u, mu_price u, q, pr))"

lemma named_order:
  assumes rel: "mbook_rel b bs as Q" and live: "names_live (book_view b) u"
  obtains p x lp l where "find_order u b = Inr (Some p)" "orders_of b p = Some x" "mo_order_id x = mu_order_id u"
    "mo_side x = mu_side u" "mo_price x = mu_price u" "levels_of b lp = Some l" "p \<in> set (Q lp)" "lv_side l = mu_side u"
    "lv_price l = mu_price u" "getOrdersAtPrice (mu_price u) b = Some lp" "mu_side u = BUY \<or> mu_side u = SELL"
proof -
  note d = mbook_relD [OF rel]
  obtain q pr where v: "book_view b (mu_order_id u) = Some (mu_side u, mu_price u, q, pr)" and id: "unat (mu_order_id u) < kMaxOrderIds"
    using live unfolding names_live_def by blast
  obtain p x where x: "orders_of b p = Some x" "mo_order_id x = mu_order_id u" "mo_side x = mu_side u" "mo_price x = mu_price u"
    using iffD1 [OF book_view_Some [OF d(6)] v] by (auto simp: order_entry_def)
  have f: "find_order u b = Inr (Some p)" using ids_okD [OF d(6) x(1)] id x(2) by (simp add: find_order_def)
  from level_of_order [OF d(7) x(1)] obtain lp l where l: "levels_of b lp = Some l" "p \<in> set (Q lp)" "lv_side l = mu_side u"
    "lv_price l = mu_price u" using x by metis
  have px: "price_orders_at_price b (nat (mu_price u)) = Some lp" "0 \<le> mu_price u" "mu_price u < int kMaxPriceLevels"
    using index_okD(1) [OF d(5), of "nat (mu_price u)" lp] index_okD(2) [OF d(5) l(1)] l by auto
  have "lp \<in> set bs \<union> set as" using d(4) l(1) by blast
  then have "lv_side l = BUY \<or> lv_side l = SELL" using d(2,3) l(1) unfolding side_levels_def by fastforce
  with that [OF f x l(1,2,3,4)] px l(3) show ?thesis by (simp add: getOrdersAtPrice_def priceToIndex_band [OF px(2,3)])
qed

definition order_shape :: "MarketOrder \<Rightarrow> OrderId \<times> Side \<times> Price \<times> nat option \<times> nat option" where
  "order_shape x = (mo_order_id x, mo_side x, mo_price x, mo_prev x, mo_next x)"

definition same_shape :: "(nat \<rightharpoonup> MarketOrder) \<Rightarrow> (nat \<rightharpoonup> MarketOrder) \<Rightarrow> bool" where
  "same_shape h h' \<longleftrightarrow> (\<forall>a. map_option order_shape (h' a) = map_option order_shape (h a))"

lemma same_shape_sym: "same_shape h h' \<Longrightarrow> same_shape h' h"
  by (simp add: same_shape_def)

lemma same_shapeD:
  assumes "same_shape h h'" and "h a = Some x"
  shows "\<exists>x'. h' a = Some x' \<and> mo_order_id x' = mo_order_id x \<and> mo_side x' = mo_side x \<and> mo_price x' = mo_price x \<and>
    mo_prev x' = mo_prev x \<and> mo_next x' = mo_next x"
proof -
  have "map_option order_shape (h' a) = map_option order_shape (h a)" using assms(1) by (simp add: same_shape_def)
  then show ?thesis using assms(2) by (cases "h' a") (simp_all add: order_shape_def)
qed

lemma same_shape_links:
  assumes "same_shape h h'"
  shows "onext h' = onext h" "oprev h' = oprev h" "h' a = None \<longleftrightarrow> h a = None"
proof -
  have sh: "map_option order_shape (h' a) = map_option order_shape (h a)" for a using assms by (simp add: same_shape_def)
  have "onext h' a = onext h a \<and> oprev h' a = oprev h a \<and> (h' a = None \<longleftrightarrow> h a = None)" for a
    using sh [of a] by (cases "h a"; cases "h' a") (simp_all add: order_shape_def onext_def oprev_def)
  then show "onext h' = onext h" "oprev h' = oprev h" "h' a = None \<longleftrightarrow> h a = None" by (simp_all add: fun_eq_iff)
qed

lemma queues_ok_same_shape:
  assumes q: "queues_ok h g Q" and shape: "same_shape h h'"
  shows "queues_ok h' g Q"
proof -
  have "level_orders h' l (Q p)" if m: "g p = Some l" for p l
  proof -
    have lo: "level_orders h l (Q p)" using q m by (simp add: queues_ok_def)
    have "\<exists>x. h' a = Some x \<and> mo_side x = lv_side l \<and> mo_price x = lv_price l" if i: "a \<in> set (Q p)" for a
    proof -
      have "\<exists>x. h a = Some x \<and> mo_side x = lv_side l \<and> mo_price x = lv_price l" using lo i by (simp add: level_orders_def)
      with same_shapeD [OF shape] show ?thesis by metis
    qed
    then show ?thesis using lo by (simp add: level_orders_def same_shape_links [OF shape])
  qed
  moreover have "\<exists>p. g p \<noteq> None \<and> a \<in> set (Q p)" if m: "h' a \<noteq> None" for a
  proof -
    have "h a \<noteq> None" using m same_shape_links(3) [OF shape, of a] by simp
    then show ?thesis using q unfolding queues_ok_def by blast
  qed
  ultimately show ?thesis unfolding queues_ok_def by blast
qed

lemma ids_okI:
  assumes "\<And>i q. oids i = Some q \<longleftrightarrow> (\<exists>y. h q = Some y \<and> unat (mo_order_id y) = i)"
    and "\<And>q y. h q = Some y \<Longrightarrow> unat (mo_order_id y) < kMaxOrderIds"
  shows "ids_ok oids h"
  unfolding ids_ok_def using assms by blast

lemma ids_ok_same_shape:
  assumes ok: "ids_ok oids h" and shape: "same_shape h h'"
  shows "ids_ok oids h'"
proof -
  have fwd: "\<exists>y. h' q = Some y \<and> mo_order_id y = mo_order_id x" if "h q = Some x" for q x using same_shapeD [OF shape that] by auto
  have bwd: "\<exists>y. h q = Some y \<and> mo_order_id y = mo_order_id x" if "h' q = Some x" for q x
    using same_shapeD [OF same_shape_sym [OF shape] that] by auto
  show ?thesis
  proof (rule ids_okI)
    show "oids i = Some q \<longleftrightarrow> (\<exists>y. h' q = Some y \<and> unat (mo_order_id y) = i)" for i q
      using ok fwd [of q] bwd [of q] unfolding ids_ok_def by fastforce
    show "unat (mo_order_id y) < kMaxOrderIds" if "h' q = Some y" for q y using bwd [OF that] ok unfolding ids_ok_def by fastforce
  qed
qed

text \<open>The view when the order at a slot changed its entry.\<close>

lemma book_view_change:
  assumes ids: "ids_ok (oid_to_order b) (orders_of b)" and x: "orders_of b p = Some x"
    and b': "oid_to_order b' = oid_to_order b" "orders_of b' = (orders_of b)(p \<mapsto> x')"
  shows "book_view b' = (book_view b)(mo_order_id x \<mapsto> order_entry x')"
proof
  fix oid
  have px: "oid_to_order b (unat (mo_order_id x)) = Some p" using ids_okD [OF ids x] by simp
  show "book_view b' oid = ((book_view b)(mo_order_id x \<mapsto> order_entry x')) oid"
  proof (cases "oid = mo_order_id x")
    case True
    then show ?thesis using px b' by (simp add: book_view_def)
  next
    case False
    then have "unat oid \<noteq> unat (mo_order_id x)" using unat_inj by blast
    then have "oid_to_order b (unat oid) \<noteq> Some p" using ids x unfolding ids_ok_def by auto
    then show ?thesis using b' False by (cases "oid_to_order b (unat oid)") (auto simp: book_view_def)
  qed
qed

lemma modify_order_ok:
  assumes rel: "mbook_rel b bs as Q" and live: "names_live (book_view b) u"
  shows "\<exists>b'. bindE (find_order u b) (\<lambda>order. order_put order (\<lambda>x. x\<lparr>mo_qty := mu_quantity u\<rparr>) b) = Inr b' \<and>
    mbook_rel b' bs as Q \<and> mb_bbo b' = mb_bbo b \<and>
    book_view b' = (book_view b)(mu_order_id u := map_option (\<lambda>(sd, p, q, pr). (sd, mu_price u, mu_quantity u, pr)) (book_view b (mu_order_id u)))"
proof -
  note d = mbook_relD [OF rel]
  from named_order [OF rel live] obtain p x where f: "find_order u b = Inr (Some p)" and x: "orders_of b p = Some x"
    "mo_order_id x = mu_order_id u" "mo_price x = mu_price u" by metis
  let ?x = "x\<lparr>mo_qty := mu_quantity u\<rparr>"
  let ?b = "b\<lparr>mb_order_pool := store p ?x (mb_order_pool b)\<rparr>"
  have run: "bindE (find_order u b) (\<lambda>order. order_put order (\<lambda>x. x\<lparr>mo_qty := mu_quantity u\<rparr>) b) = Inr ?b"
    using f order_putI [OF x(1)] by simp
  have h: "orders_of ?b = (orders_of b)(p \<mapsto> ?x)" by (simp add: lookup_store)
  have shape: "same_shape (orders_of b) (orders_of ?b)" using x(1) unfolding h same_shape_def by (simp add: order_shape_def)
  have "pools_ok ?b" using d(1) x(1) by (simp add: pools_ok_def pool_inv_store)
  then have "mbook_rel ?b bs as Q"
    using d(2-5) queues_ok_same_shape [OF d(7) shape] ids_ok_same_shape [OF d(6) shape] by (simp add: mbook_rel_def)
  moreover have "book_view b (mu_order_id u) = Some (order_entry x)" using book_view_Some [OF d(6), of "mu_order_id u"] x by blast
  then have "book_view ?b = (book_view b)(mu_order_id u := map_option (\<lambda>(sd, p, q, pr). (sd, mu_price u, mu_quantity u, pr)) (book_view b (mu_order_id u)))"
    using book_view_change [OF d(6) x(1) _ h] x(2,3) by (simp add: order_entry_def)
  ultimately show ?thesis using run by (intro exI [of _ ?b]) simp
qed

section \<open>Taking an order away\<close>

lemma book_view_delete:
  assumes ids: "ids_ok (oid_to_order b) (orders_of b)" and x: "orders_of b p = Some x"
    and b': "oid_to_order b' = (oid_to_order b)(unat (mo_order_id x) := None)" "orders_of b' = h'(p := None)"
    and same: "same_orders (orders_of b) h'"
  shows "book_view b' = (book_view b)(mo_order_id x := None)"
proof
  fix oid
  show "book_view b' oid = ((book_view b)(mo_order_id x := None)) oid"
  proof (cases "oid = mo_order_id x")
    case True
    then show ?thesis using b' by (simp add: book_view_def)
  next
    case False
    then have ne: "unat oid \<noteq> unat (mo_order_id x)" using unat_inj by blast
    then have "oid_to_order b (unat oid) \<noteq> Some p" using ids x unfolding ids_ok_def by auto
    then show ?thesis using b' ne False same_orders_entry [OF same]
      by (cases "oid_to_order b (unat oid)") (auto simp: book_view_def)
  qed
qed

lemma level_orders_out:
  assumes "level_orders h l q" and "p \<notin> set q"
  shows "level_orders (h(p := None)) l q"
proof -
  have "circular (onext (h(p := None))) (oprev (h(p := None))) q \<longleftrightarrow> circular (onext h) (oprev h) q"
    by (rule ring_cong) (use assms(2) in \<open>auto simp: onext_def oprev_def\<close>)
  then show ?thesis using assms by (auto simp: level_orders_def)
qed

lemma queues_ok_drop_level:
  assumes ix: "index_ok ix g" and q: "queues_ok h g Q" and l: "g lp = Some l" "Q lp = [p]" and same: "same_data (g(lp := None)) g'"
  shows "queues_ok (h(p := None)) g' Q"
proof -
  have "level_orders (h(p := None)) l' (Q a)" if m: "g' a = Some l'" for a l'
  proof -
    obtain y where y: "(g(lp := None)) a = Some y" "lv_side y = lv_side l'" "lv_price y = lv_price l'" "lv_first y = lv_first l'"
      using same_dataD [OF same_data_sym [OF same] m] by blast
    then have g: "g a = Some y" and ne: "a \<noteq> lp" by (auto split: if_splits)
    have "p \<notin> set (Q a)" using queue_disjoint [OF ix q l(1) g, of p] ne l(2) by auto
    then have "level_orders (h(p := None)) y (Q a)" using q g by (intro level_orders_out) (simp_all add: queues_ok_def)
    then show ?thesis using y by (simp add: level_orders_def)
  qed
  moreover have "\<exists>a. g' a \<noteq> None \<and> o' \<in> set (Q a)" if m: "(h(p := None)) o' \<noteq> None" for o'
  proof -
    have "h o' \<noteq> None" "o' \<noteq> p" using m by (auto split: if_splits)
    then obtain a where a: "g a \<noteq> None" "o' \<in> set (Q a)" using q unfolding queues_ok_def by blast
    then have "a \<noteq> lp" using l(2) \<open>o' \<noteq> p\<close> by auto
    then have "a \<in> dom (g(lp := None))" using a(1) by auto
    then show ?thesis using same_data_dom [OF same] a(2) by blast
  qed
  ultimately show ?thesis unfolding queues_ok_def by blast
qed

lemma side_levels_split:
  assumes rel: "mbook_rel b bs as Q" and l: "levels_of b lp = Some l" and s: "lv_side l = BUY \<or> lv_side l = SELL"
  obtains L1 L2 where "side_list (lv_side l) bs as = L1 @ lp # L2"
proof -
  note d = mbook_relD [OF rel]
  have "lp \<in> set bs \<union> set as" using d(4) l by blast
  then have "lp \<in> set (side_list (lv_side l) bs as)" using d(2,3) l s by (auto simp: side_list_def side_levels_def)
  then show ?thesis using that by (meson split_list)
qed

lemma sides_disjoint:
  assumes "side_levels g s best L" and "side_levels g t best' M" and "s \<noteq> t"
  shows "set L \<inter> set M = {}"
proof (rule ccontr)
  assume "set L \<inter> set M \<noteq> {}"
  then obtain p where "p \<in> set L" "p \<in> set M" by blast
  then show False using assms unfolding side_levels_def by fastforce
qed

text \<open>The level with its only order goes.\<close>

lemma remove_last_order:
  assumes rel: "mbook_rel b bs as Q" and l: "levels_of b lp = Some l" "lv_side l = BUY \<or> lv_side l = SELL" and Q: "Q lp = [p]"
  shows "\<exists>b'. removeOrdersAtPrice (lv_side l) (lv_price l) b = Inr b' \<and>
    oid_to_order b' = oid_to_order b \<and> mb_order_pool b' = mb_order_pool b \<and> mb_bbo b' = mb_bbo b \<and>
    (\<forall>bp ids. pool_inv bp \<longrightarrow> mp_capacity bp = kMaxOrderIds \<longrightarrow> ids_ok ids (lookup bp) \<longrightarrow> lookup bp = (orders_of b)(p := None) \<longrightarrow>
      (\<exists>bs' as'. mbook_rel (b'\<lparr>oid_to_order := ids, mb_order_pool := bp\<rparr>) bs' as' Q))"
proof -
  note d = mbook_relD [OF rel]
  let ?g = "levels_of b" and ?s = "lv_side l" and ?px = "lv_price l"
  let ?t = "if ?s = BUY then SELL else BUY"
  have st: "?s = BUY \<and> ?t = SELL \<or> ?s = SELL \<and> ?t = BUY" using l(2) by auto
  from side_levels_split [OF rel l] obtain L1 L2 where L: "side_list ?s bs as = L1 @ lp # L2" .
  let ?M = "side_list ?t bs as"
  have own: "side_levels ?g ?s (best_level ?s b) (L1 @ lp # L2)" using mbook_side [OF rel l(2)] L by simp
  have oth: "side_levels ?g ?t (best_level ?t b) ?M" using mbook_side [OF rel, of ?t] st by auto
  have disj: "set (L1 @ lp # L2) \<inter> set ?M = {}" by (rule sides_disjoint [OF own oth]) (use st in auto)
  have px: "0 \<le> ?px" "?px < int kMaxPriceLevels" and ixp: "price_orders_at_price b (nat ?px) = Some lp"
    using index_okD(1) [OF d(5), of "nat ?px" lp] index_okD(2) [OF d(5) l(1)] l by auto
  have ix: "getOrdersAtPrice ?px b = Some lp" using ixp by (simp add: getOrdersAtPrice_def priceToIndex_band [OF px])
  obtain P where P: "removeOrdersAtPrice ?s ?px b =
      Inr ((set_best_level ?s (head_of (L1 @ L2)) (set_index ?px None b))\<lparr>orders_at_price_pool := P\<rparr>)"
    "pool_inv P" "mp_capacity P = mp_capacity (orders_at_price_pool b)" "lookup P lp = None"
    "same_data (?g(lp := None)) (lookup P)" "circular (lnext (lookup P)) (lprev (lookup P)) (L1 @ L2)"
    "\<forall>q. q \<notin> set (L1 @ lp # L2) \<longrightarrow> lnext (lookup P) q = lnext ?g q \<and> lprev (lookup P) q = lprev ?g q"
    using removeOrdersAtPrice_ok [OF _ own l(1) ix] d(1) unfolding pools_ok_def by blast
  define b' where "b' = (set_best_level ?s (head_of (L1 @ L2)) (set_index ?px None b))\<lparr>orders_at_price_pool := P\<rparr>"
  have bl: "best_level ?s b' = head_of (L1 @ L2)" "best_level ?t b' = best_level ?t b"
    using l(2) by (auto simp: b'_def set_best_level_def set_index_def best_level_def)
  have "circular (lnext ?g) (lprev ?g) (L1 @ lp # L2)" using own by (simp add: side_levels_def)
  then have dist: "distinct (L1 @ lp # L2)" by (rule ring_distinct)
  have dat: "\<exists>y'. lookup P a = Some y' \<and> lv_side y' = lv_side y \<and> lv_price y' = lv_price y" if "?g a = Some y" "a \<noteq> lp" for a y
    using same_dataD [OF P(5), of a y] that by auto
  have own': "side_levels (lookup P) ?s (head_of (L1 @ L2)) (L1 @ L2)"
  proof -
    have at: "\<exists>y. lookup P a = Some y \<and> lv_side y = ?s \<and> price_at (lookup P) a = price_at ?g a" if m: "a \<in> set (L1 @ L2)" for a
    proof -
      obtain y where y: "?g a = Some y" "lv_side y = ?s" using own m by (auto simp: side_levels_def)
      have "a \<noteq> lp" using dist m by auto
      with dat [OF y(1)] y show ?thesis by auto
    qed
    have "sorted_wrt (\<lambda>p q. better_price ?s (price_at ?g p) (price_at ?g q)) (L1 @ L2)"
      using own by (simp add: side_levels_def sorted_wrt_append)
    then have "sorted_wrt (\<lambda>p q. better_price ?s (price_at (lookup P) p) (price_at (lookup P) q)) (L1 @ L2)"
      by (rule sorted_wrt_mono_rel [rotated]) (use at in metis)
    moreover have "\<forall>a \<in> set (L1 @ L2). \<exists>y. lookup P a = Some y \<and> lv_side y = ?s" using at by blast
    ultimately show ?thesis using P(6) by (simp add: side_levels_def head_of_best)
  qed
  have oth': "side_levels (lookup P) ?t (best_level ?t b) ?M"
  proof (rule side_levels_cong [OF oth])
    fix a
    assume a: "a \<in> set ?M"
    then have ne: "a \<noteq> lp" "a \<notin> set (L1 @ lp # L2)" using disj by auto
    show "map_option level_data (lookup P a) = map_option level_data (?g a)" using P(5) ne(1) by (simp add: same_data_def)
    show "lnext (lookup P) a = lnext ?g a \<and> lprev (lookup P) a = lprev ?g a" using P(7) ne(2) by blast
  qed
  have domP: "dom (lookup P) = set (L1 @ L2) \<union> set ?M"
  proof -
    have "dom (lookup P) = dom ?g - {lp}" using same_data_dom [OF P(5)] by simp
    also have "dom ?g = set (L1 @ lp # L2) \<union> set ?M" using d(4) L l(2) by (auto simp: side_list_def)
    finally show ?thesis using dist disj by auto
  qed
  have ixok: "index_ok ((price_orders_at_price b)(nat ?px := None)) (lookup P)"
    by (rule index_ok_same [OF P(5) index_ok_delete [OF d(5) l(1)]])
  have "\<exists>bs' as'. mbook_rel (b'\<lparr>oid_to_order := ids, mb_order_pool := bp\<rparr>) bs' as' Q"
    if bp: "pool_inv bp" "mp_capacity bp = kMaxOrderIds" "ids_ok ids (lookup bp)" "lookup bp = (orders_of b)(p := None)" for bp ids
  proof (rule mbook_relI [OF _ _ _ st])
    let ?b = "b'\<lparr>oid_to_order := ids, mb_order_pool := bp\<rparr>"
    have f: "levels_of ?b = lookup P" "orders_of ?b = (orders_of b)(p := None)" "best_level t ?b = best_level t b'"
      "price_orders_at_price ?b = (price_orders_at_price b)(nat ?px := None)" for t
      using bp(4) by (simp_all add: b'_def best_level_def set_best_level_def set_index_def priceToIndex_band [OF px])
    show "side_levels (levels_of ?b) ?s (best_level ?s ?b) (L1 @ L2)" unfolding f bl by (rule own')
    show "side_levels (levels_of ?b) ?t (best_level ?t ?b) ?M" unfolding f bl by (rule oth')
    show "dom (levels_of ?b) = set (L1 @ L2) \<union> set ?M" unfolding f by (rule domP)
    show "index_ok (price_orders_at_price ?b) (levels_of ?b)" unfolding f by (rule ixok)
    show "ids_ok (oid_to_order ?b) (orders_of ?b)" using bp(3) by simp
    show "queues_ok (orders_of ?b) (levels_of ?b) Q" unfolding f by (rule queues_ok_drop_level [OF d(5,7) l(1) Q P(5)])
    show "pools_ok ?b" using P(2,3) bp(1,2) d(1) by (simp add: pools_ok_def b'_def)
  qed
  moreover have "oid_to_order b' = oid_to_order b \<and> mb_order_pool b' = mb_order_pool b \<and> mb_bbo b' = mb_bbo b"
    by (simp add: b'_def set_best_level_def set_index_def)
  ultimately show ?thesis using P(1) unfolding b'_def [symmetric] by blast
qed

text \<open>An order leaves a level that keeps others.\<close>

lemma queues_ok_drop_order:
  assumes ix: "index_ok ix g" and q: "queues_ok h g Q" and l: "g lp = Some l" and Q: "Q lp = A @ p # C" "C @ A = y # ys"
    and same: "same_orders h h'"
    and lk: "\<And>a. a \<noteq> p \<Longrightarrow> onext h' a = ((onext h)(last (y # ys) := Some y)) a \<and> oprev h' a = ((oprev h)(y := Some (last (y # ys)))) a"
    and g': "g' = g(lp \<mapsto> (if lv_first l = Some p then l\<lparr>lv_first := Some y\<rparr> else l))"
  shows "queues_ok (h'(p := None)) g' (Q(lp := A @ C))"
proof -
  let ?h = "h'(p := None)" and ?Q = "Q(lp := A @ C)" and ?l = "if lv_first l = Some p then l\<lparr>lv_first := Some y\<rparr> else l"
  have "level_orders h l (Q lp)" using q l unfolding queues_ok_def by blast
  then have lo: "level_orders h l (A @ p # C)" by (simp add: Q(1))
  have r: "circular (onext h) (oprev h) (A @ p # C)" and f: "lv_first l = Some (hd (A @ p # C))" using lo by (simp_all add: level_orders_def)
  have rp: "circular (onext h) (oprev h) (p # y # ys)" using r ring_rotate [of "onext h" "oprev h" A "p # C"] Q(2) by simp
  have d: "distinct (A @ p # C)" by (rule ring_distinct [OF r])
  have out: "p \<notin> set (y # ys)" "set (y # ys) = set (A @ C)" using d unfolding Q(2) [symmetric] by auto
  have lk': "onext ?h a = ((onext h)(last (y # ys) := Some y)) a" "oprev ?h a = ((oprev h)(y := Some (last (y # ys)))) a" if "a \<noteq> p" for a
    using lk [OF that] that by (simp_all add: onext_def oprev_def)
  have "circular (onext ?h) (oprev ?h) (y # ys) \<longleftrightarrow>
      circular ((onext h)(last (y # ys) := Some y)) ((oprev h)(y := Some (last (y # ys)))) (y # ys)"
    by (rule ring_cong) (use lk' out(1) in metis)+
  then have "circular (onext ?h) (oprev ?h) (C @ A)" using ring_remove_front [OF rp refl] Q(2) by simp
  then have rAC: "circular (onext ?h) (oprev ?h) (A @ C)" using ring_rotate by blast
  have first: "lv_first ?l = Some (hd (A @ C))" "A @ C \<noteq> []"
  proof -
    show "A @ C \<noteq> []" using out(2) by force
    show "lv_first ?l = Some (hd (A @ C))" using f d Q(2) by (cases A) auto
  qed
  have dat: "\<exists>x'. ?h a = Some x' \<and> mo_side x' = mo_side x \<and> mo_price x' = mo_price x" if "h a = Some x" "a \<noteq> p" for a x
    using same_ordersD [OF same that(1)] that(2) by auto
  have "level_orders ?h l' (?Q a)" if m: "g' a = Some l'" for a l'
  proof (cases "a = lp")
    case True
    have "\<exists>x. ?h c = Some x \<and> mo_side x = lv_side l \<and> mo_price x = lv_price l" if c: "c \<in> set (A @ C)" for c
    proof -
      have "c \<noteq> p" using d c by auto
      moreover have "\<exists>x. h c = Some x \<and> mo_side x = lv_side l \<and> mo_price x = lv_price l" using lo c by (auto simp: level_orders_def)
      ultimately show ?thesis using dat by metis
    qed
    moreover have "l' = ?l" "lv_side ?l = lv_side l" "lv_price ?l = lv_price l" using m True by (auto simp: g')
    ultimately show ?thesis using rAC first True unfolding level_orders_def by simp
  next
    case False
    then have g: "g a = Some l'" using m by (simp add: g')
    then have loa: "level_orders h l' (Q a)" using q by (simp add: queues_ok_def)
    have far: "c \<noteq> p \<and> c \<notin> set (y # ys)" if "c \<in> set (Q a)" for c
      using queue_disjoint [OF ix q g l False that] out(2) unfolding Q(1) by auto
    have "circular (onext ?h) (oprev ?h) (Q a) \<longleftrightarrow> circular (onext h) (oprev h) (Q a)"
      by (rule ring_cong) (use far lk' last_in_set [of "y # ys"] in \<open>metis fun_upd_apply list.distinct(1) list.set_intros(1)\<close>)+
    moreover have "\<exists>x. ?h c = Some x \<and> mo_side x = lv_side l' \<and> mo_price x = lv_price l'" if c: "c \<in> set (Q a)" for c
    proof -
      have "\<exists>x. h c = Some x \<and> mo_side x = lv_side l' \<and> mo_price x = lv_price l'" using loa c by (simp add: level_orders_def)
      then show ?thesis using dat far [OF c] by metis
    qed
    ultimately show ?thesis using loa False by (simp add: level_orders_def)
  qed
  moreover have "\<exists>a. g' a \<noteq> None \<and> c \<in> set (?Q a)" if m: "?h c \<noteq> None" for c
  proof -
    have ne: "c \<noteq> p" and "h' c \<noteq> None" using m by (auto split: if_splits)
    then have "h c \<noteq> None" using same_orders_None [OF same, of c] by simp
    then obtain a where a: "g a \<noteq> None" "c \<in> set (Q a)" using q unfolding queues_ok_def by blast
    then have "g' a \<noteq> None" "c \<in> set (?Q a)" using ne Q(1) by (auto simp: g')
    then show ?thesis by blast
  qed
  ultimately show ?thesis unfolding queues_ok_def by blast
qed

lemma side_levels_same:
  assumes "side_levels g s best ls"
    and "\<And>p. map_option (\<lambda>l. (lv_side l, lv_price l, lv_next l, lv_prev l)) (g' p) = map_option (\<lambda>l. (lv_side l, lv_price l, lv_next l, lv_prev l)) (g p)"
  shows "side_levels g' s best ls"
proof -
  have same: "lnext g' p = lnext g p \<and> lprev g' p = lprev g p \<and> price_at g' p = price_at g p \<and>
      ((\<exists>l. g' p = Some l \<and> lv_side l = s) \<longleftrightarrow> (\<exists>l. g p = Some l \<and> lv_side l = s))" for p
    using assms(2) [of p] by (cases "g p"; cases "g' p") (auto simp: lnext_def lprev_def price_at_def)
  then have "lnext g' = lnext g" "lprev g' = lprev g" "price_at g' = price_at g" by (simp_all add: fun_eq_iff)
  then show ?thesis using assms(1) same by (simp add: side_levels_def)
qed

lemma cancel_order_ok:
  assumes rel: "mbook_rel b bs as Q" and live: "names_live (book_view b) u"
  shows "\<exists>b' bs' as' Q'. bindE (find_order u b) (\<lambda>order. removeOrder order b) = Inr b' \<and> mbook_rel b' bs' as' Q' \<and>
    mb_bbo b' = mb_bbo b \<and> book_view b' = (book_view b)(mu_order_id u := None)"
proof -
  note d = mbook_relD [OF rel]
  from named_order [OF rel live] obtain p x lp l where f: "find_order u b = Inr (Some p)" and x: "orders_of b p = Some x"
    "mo_order_id x = mu_order_id u" "mo_side x = mu_side u" "mo_price x = mu_price u" and l: "levels_of b lp = Some l" "p \<in> set (Q lp)"
    "lv_side l = mu_side u" "lv_price l = mu_price u" and ix: "getOrdersAtPrice (mu_price u) b = Some lp"
    and s: "mu_side u = BUY \<or> mu_side u = SELL" by metis
  let ?h = "orders_of b" and ?ids = "(oid_to_order b)(unat (mo_order_id x) := None)"
  have id: "\<not> kMaxOrderIds \<le> unat (mo_order_id x)" using ids_okD [OF d(6) x(1)] by simp
  have "level_orders ?h l (Q lp)" using d(7) l(1) unfolding queues_ok_def by blast
  then have r: "circular (onext ?h) (oprev ?h) (Q lp)" by (simp add: level_orders_def)
  obtain A C where Q: "Q lp = A @ p # C" using l(2) by (meson split_list)
  have rp: "circular (onext ?h) (oprev ?h) (p # C @ A)" using r ring_rotate [of "onext ?h" "oprev ?h" A "p # C"] Q by simp
  have pv: "mo_prev x = Some (last (p # C @ A))" using ring_head [OF rp] x(1) by simp
  have get: "order_get b (Some p) = Inr x" by (rule order_getI [OF x(1)])
  show ?thesis
  proof (cases "C @ A")
    case Nil
    then have one: "Q lp = [p]" and self: "mo_prev x = Some p" using Q pv by simp_all
    obtain b1 where b1: "removeOrdersAtPrice (lv_side l) (lv_price l) b = Inr b1" "oid_to_order b1 = oid_to_order b"
      "mb_order_pool b1 = mb_order_pool b" "mb_bbo b1 = mb_bbo b"
      "\<And>bp ids. pool_inv bp \<Longrightarrow> mp_capacity bp = kMaxOrderIds \<Longrightarrow> ids_ok ids (lookup bp) \<Longrightarrow> lookup bp = ?h(p := None) \<Longrightarrow>
        \<exists>bs' as'. mbook_rel (b1\<lparr>oid_to_order := ids, mb_order_pool := bp\<rparr>) bs' as' Q"
      using remove_last_order [OF rel l(1) _ one] s l(3) by auto
    obtain P where P: "deallocate p (mb_order_pool b) = Inr P" "pool_inv P" "lookup P = ?h(p := None)" "mp_capacity P = mp_capacity (mb_order_pool b)"
      using deallocate_ok [of "mb_order_pool b" p] d(1) x(1) unfolding pools_ok_def by auto
    let ?b = "b1\<lparr>oid_to_order := ?ids, mb_order_pool := P\<rparr>"
    have "bindE (find_order u b) (\<lambda>order. removeOrder order b) = Inr ?b"
      using get self b1(1-3) P(1) id l(3,4) x(3,4) by (simp add: f removeOrder_def)
    moreover have "\<exists>bs' as'. mbook_rel ?b bs' as' Q"
      using b1(5) [OF P(2) _ _ P(3)] P(4) d(1) ids_ok_delete [OF d(6) x(1)] by (simp add: P(3) pools_ok_def)
    moreover have "book_view ?b = (book_view b)(mo_order_id x := None)"
      by (rule book_view_delete [OF d(6) x(1), where h' = ?h]) (simp_all add: P(3) same_orders_refl)
    ultimately show ?thesis using x(2) b1(4) by force
  next
    case (Cons y ys)
    have rp': "circular (onext ?h) (oprev ?h) (p # y # ys)" using rp Cons by simp
    have "p \<notin> set (y # ys)" using ring_distinct [OF rp'] by simp
    moreover have "last (y # ys) \<in> set (y # ys)" by (rule last_in_set) simp
    moreover have "mo_prev x = Some (last (y # ys))" using pv Cons by simp
    ultimately have ne: "mo_prev x \<noteq> Some p" by (metis option.inject)
    have pools: "pool_inv (mb_order_pool b)" "pool_inv (orders_at_price_pool b)" using d(1) by (simp_all add: pools_ok_def)
    obtain P PL where P: "unlink_order (Some lp) (Some p) x b = Inr (b\<lparr>mb_order_pool := P, orders_at_price_pool := PL\<rparr>)"
      "pool_step (mb_order_pool b) P" "pool_step (orders_at_price_pool b) PL" "same_orders ?h (lookup P)"
      "lookup PL = (levels_of b)(lp \<mapsto> (if lv_first l = Some p then l\<lparr>lv_first := Some y\<rparr> else l))"
      "\<And>a. a \<noteq> p \<Longrightarrow> onext (lookup P) a = ((onext ?h)(last (y # ys) := Some y)) a \<and>
         oprev (lookup P) a = ((oprev ?h)(y := Some (last (y # ys)))) a"
      using unlink_order_ok [OF pools rp' x(1) l(1)] by blast
    have live_p: "lookup P p \<noteq> None" using same_orders_None [OF P(4), of p] x(1) by simp
    obtain P2 where P2: "deallocate p P = Inr P2" "pool_inv P2" "lookup P2 = (lookup P)(p := None)" "mp_capacity P2 = mp_capacity P"
      using deallocate_ok [of P p] P(2) live_p unfolding pool_step_def by auto
    let ?b = "b\<lparr>mb_order_pool := P2, orders_at_price_pool := PL, oid_to_order := ?ids\<rparr>"
    have run: "bindE (find_order u b) (\<lambda>order. removeOrder order b) = Inr ?b"
      using get ne P(1) P2(1) id ix x(4) by (simp add: f removeOrder_def)
    have sl: "map_option (\<lambda>l. (lv_side l, lv_price l, lv_next l, lv_prev l)) (lookup PL q) =
        map_option (\<lambda>l. (lv_side l, lv_price l, lv_next l, lv_prev l)) (levels_of b q)" for q
      using l(1) by (simp add: P(5))
    have ixok: "index_ok (price_orders_at_price b) (lookup PL)"
    proof (rule index_okI)
      have same: "(\<exists>y. lookup PL q = Some y \<and> lv_price y = c) \<longleftrightarrow> (\<exists>y. levels_of b q = Some y \<and> lv_price y = c)" for q c
        using l(1) by (simp add: P(5))
      show "price_orders_at_price b i = Some q \<longleftrightarrow> (\<exists>y. lookup PL q = Some y \<and> nat (lv_price y) = i)" for i q
        unfolding index_okD(1) [OF d(5)] using same [of q] by metis
      show "0 \<le> lv_price y \<and> lv_price y < int kMaxPriceLevels" if m: "lookup PL q = Some y" for q y
        using same [of q "lv_price y"] m index_okD(2) [OF d(5), of q] by fastforce
    qed
    have "ids_ok ?ids (lookup P2)"
    proof -
      obtain x' where x': "lookup P p = Some x'" "mo_order_id x' = mo_order_id x" using same_ordersD [OF P(4) x(1)] by blast
      show ?thesis using ids_ok_delete [OF ids_ok_same [OF P(4) d(6)] x'(1)] x'(2) by (simp add: P2(3))
    qed
    moreover have "queues_ok (lookup P2) (lookup PL) (Q(lp := A @ C))"
      unfolding P2(3) by (rule queues_ok_drop_order [OF d(5,7) l(1) Q Cons P(4,6,5)])
    moreover have "dom (lookup PL) = dom (levels_of b)" using l(1) by (auto simp: P(5))
    ultimately have "mbook_rel ?b bs as (Q(lp := A @ C))"
      using side_levels_same [OF d(2) sl] side_levels_same [OF d(3) sl] ixok d(1,4) P(2,3) P2(2,4)
      by (simp add: mbook_rel_def pools_ok_def pool_step_def)
    moreover have "book_view ?b = (book_view b)(mo_order_id x := None)"
      by (rule book_view_delete [OF d(6) x(1) _ _ P(4)]) (simp_all add: P2(3))
    ultimately show ?thesis using run x(2) by force
  qed
qed

section \<open>Clearing the book\<close>

lemma free_orders_ok:
  assumes inj: "\<And>i j p. ids i = Some p \<Longrightarrow> ids j = Some p \<Longrightarrow> i = j"
  shows "pool_inv (mb_order_pool b) \<Longrightarrow> oid_to_order b = ids \<Longrightarrow> distinct is \<Longrightarrow>
    (\<And>i p. i \<in> set is \<Longrightarrow> ids i = Some p \<Longrightarrow> orders_of b p \<noteq> None) \<Longrightarrow>
    \<exists>P. free_orders is b = Inr (b\<lparr>mb_order_pool := P\<rparr>) \<and> pool_inv P \<and> mp_capacity P = mp_capacity (mb_order_pool b) \<and>
      (\<forall>p. lookup P p = (if \<exists>i \<in> set is. ids i = Some p then None else orders_of b p))"
proof (induction "is" arbitrary: b)
  case Nil
  then show ?case by (intro exI [of _ "mb_order_pool b"]) simp
next
  case (Cons i "is")
  show ?case
  proof (cases "ids i")
    case None
    then show ?thesis using Cons.IH [of b] Cons.prems by fastforce
  next
    case (Some p)
    obtain P1 where P1: "deallocate p (mb_order_pool b) = Inr P1" "pool_inv P1" "lookup P1 = (orders_of b)(p := None)"
      "mp_capacity P1 = mp_capacity (mb_order_pool b)"
      using deallocate_ok [of "mb_order_pool b" p] Cons.prems(1) Cons.prems(4) [of i p] Some by auto
    let ?b = "b\<lparr>mb_order_pool := P1\<rparr>"
    have "orders_of ?b q \<noteq> None" if m: "j \<in> set is" "ids j = Some q" for j q
    proof -
      have "q \<noteq> p" using inj [OF Some, of j] m Cons.prems(3) by auto
      then show ?thesis using Cons.prems(4) [of j q] m by (simp add: P1(3))
    qed
    then obtain P where P: "free_orders is ?b = Inr (?b\<lparr>mb_order_pool := P\<rparr>)" "pool_inv P" "mp_capacity P = mp_capacity P1"
      "\<forall>q. lookup P q = (if \<exists>i \<in> set is. ids i = Some q then None else orders_of ?b q)"
      using Cons.IH [of ?b] P1(2) Cons.prems(2,3) by auto
    have "free_orders (i # is) b = Inr (b\<lparr>mb_order_pool := P\<rparr>)" using P(1) P1(1) Some Cons.prems(2) by simp
    moreover have "lookup P q = (if \<exists>j \<in> set (i # is). ids j = Some q then None else orders_of b q)" for q
      using P(4) Some by (auto simp: P1(3))
    ultimately show ?thesis using P(2,3) P1(4) by (intro exI [of _ P]) (simp only: simp_thms)
  qed
qed

lemma free_levels_ok:
  "pool_inv (orders_at_price_pool b) \<Longrightarrow> distinct qs \<Longrightarrow> p \<notin> set qs \<Longrightarrow>
   map (lnext (levels_of b)) qs = map Some (tl (qs @ [p])) \<Longrightarrow> length qs < n \<Longrightarrow>
   \<exists>P. free_levels n (Some p) (Some (hd (qs @ [p]))) b = Inr (b\<lparr>orders_at_price_pool := P\<rparr>) \<and> pool_inv P \<and>
     mp_capacity P = mp_capacity (orders_at_price_pool b) \<and> (\<forall>a. lookup P a = (if a \<in> set qs then None else levels_of b a))"
proof (induction qs arbitrary: b n)
  case Nil
  then show ?case by (cases n) (auto intro!: exI [of _ "orders_at_price_pool b"])
next
  case (Cons q qs)
  obtain m where n: "n = Suc m" using Cons.prems(5) by (cases n) simp_all
  have links: "lnext (levels_of b) q = Some (hd (qs @ [p]))" "map (lnext (levels_of b)) qs = map Some (tl (qs @ [p]))"
    using Cons.prems(4) by (cases qs; simp)+
  then obtain l where l: "levels_of b q = Some l" "lv_next l = Some (hd (qs @ [p]))" by (auto simp: lnext_def bind_eq_Some_conv)
  obtain P1 where P1: "deallocate q (orders_at_price_pool b) = Inr P1" "pool_inv P1" "lookup P1 = (levels_of b)(q := None)"
    "mp_capacity P1 = mp_capacity (orders_at_price_pool b)"
    using deallocate_ok [of "orders_at_price_pool b" q] Cons.prems(1) l(1) by auto
  let ?b = "b\<lparr>orders_at_price_pool := P1\<rparr>"
  have "lnext (lookup P1) a = lnext (levels_of b) a" if "a \<in> set qs" for a
    using that Cons.prems(2) by (auto simp: P1(3) lnext_def)
  then have "map (lnext (lookup P1)) qs = map (lnext (levels_of b)) qs" by (simp only: map_eq_conv) blast
  then have "map (lnext (levels_of ?b)) qs = map Some (tl (qs @ [p]))" using links(2) by simp
  then obtain P where P: "free_levels m (Some p) (Some (hd (qs @ [p]))) ?b = Inr (?b\<lparr>orders_at_price_pool := P\<rparr>)" "pool_inv P"
    "mp_capacity P = mp_capacity P1" "\<forall>a. lookup P a = (if a \<in> set qs then None else levels_of ?b a)"
    using Cons.IH [of ?b m] P1(2) Cons.prems(2,3,5) n by auto
  have "free_levels n (Some p) (Some (hd ((q # qs) @ [p]))) b = Inr (b\<lparr>orders_at_price_pool := P\<rparr>)"
    using P(1) P1(1) l Cons.prems(3) by (auto simp: n)
  moreover have "lookup P a = (if a \<in> set (q # qs) then None else levels_of b a)" for a using P(4) by (simp add: P1(3))
  ultimately show ?case using P(2,3) P1(4) by auto
qed

lemma free_side_ok:
  assumes inv: "pool_inv (orders_at_price_pool b)" and r: "circular (lnext (levels_of b)) (lprev (levels_of b)) ls"
    and best: "best = (if ls = [] then None else Some (hd ls))"
  shows "\<exists>P. free_side best b = Inr (b\<lparr>orders_at_price_pool := P\<rparr>) \<and> pool_inv P \<and>
    mp_capacity P = mp_capacity (orders_at_price_pool b) \<and> (\<forall>a. lookup P a = (if a \<in> set ls then None else levels_of b a))"
proof (cases ls)
  case Nil
  then show ?thesis using inv best by (intro exI [of _ "orders_at_price_pool b"]) (simp add: free_side_def)
next
  case (Cons p qs)
  obtain l where l: "levels_of b p = Some l" using ring_member_level [OF r] Cons by auto
  have d: "distinct (p # qs)" using ring_distinct [OF r] Cons by simp
  have m: "map (lnext (levels_of b)) (p # qs) = map Some (qs @ [p])" using r Cons by (simp add: circular_def)
  then have nx: "lv_next l = Some (hd (qs @ [p]))" and links: "map (lnext (levels_of b)) qs = map Some (tl (qs @ [p]))"
    using l by (cases qs; simp)+
  have "card (set qs) \<le> card (dom (levels_of b))"
    using ring_member_level [OF r] Cons pool_live_card(1) [OF inv] by (intro card_mono) auto
  also have "\<dots> \<le> mp_capacity (orders_at_price_pool b)"
    using pool_live_card [OF inv] card_mono [of "{..<mp_next_unused (orders_at_price_pool b)}" "dom (levels_of b)"] by simp
  finally have len: "length qs < Suc (mp_capacity (orders_at_price_pool b))" using d by (simp add: distinct_card)
  obtain P1 where P1: "free_levels (Suc (mp_capacity (orders_at_price_pool b))) (Some p) (Some (hd (qs @ [p]))) b =
      Inr (b\<lparr>orders_at_price_pool := P1\<rparr>)" "pool_inv P1"
    "mp_capacity P1 = mp_capacity (orders_at_price_pool b)" "\<forall>a. lookup P1 a = (if a \<in> set qs then None else levels_of b a)"
    using free_levels_ok [OF inv _ _ links len] d by auto
  obtain P where P: "deallocate p P1 = Inr P" "pool_inv P" "lookup P = (lookup P1)(p := None)" "mp_capacity P = mp_capacity P1"
    using deallocate_ok [OF P1(2), of p] P1(4) l d by auto
  have "free_side best b = Inr (b\<lparr>orders_at_price_pool := P\<rparr>)"
    using best Cons l nx P1(1) P(1) by (simp add: free_side_def del: free_levels.simps)
  moreover have "lookup P a = (if a \<in> set ls then None else levels_of b a)" for a using P1(4) by (simp add: P(3) Cons)
  ultimately show ?thesis using P(2,4) P1(3) by auto
qed

lemma clear_book_ok:
  assumes rel: "mbook_rel b bs as Q"
  shows "\<exists>b'. clear_book b = Inr b' \<and> mbook_rel b' [] [] Q \<and> book_view b' = (\<lambda>_. None) \<and> mb_bbo b' = mb_bbo b"
proof -
  note d = mbook_relD [OF rel]
  have inj: "i = j" if "oid_to_order b i = Some p" "oid_to_order b j = Some p" for i j p
    using d(6) that unfolding ids_ok_def by force
  have live: "orders_of b p \<noteq> None" if "oid_to_order b i = Some p" for i p using d(6) that unfolding ids_ok_def by force
  have pools: "pool_inv (mb_order_pool b)" "pool_inv (orders_at_price_pool b)" using d(1) by (simp_all add: pools_ok_def)
  obtain P where P: "free_orders [0..<kMaxOrderIds] b = Inr (b\<lparr>mb_order_pool := P\<rparr>)" "pool_inv P" "mp_capacity P = mp_capacity (mb_order_pool b)"
    "\<forall>p. lookup P p = (if \<exists>i \<in> set [0..<kMaxOrderIds]. oid_to_order b i = Some p then None else orders_of b p)"
    using free_orders_ok [where ids = "oid_to_order b", OF _ pools(1) refl distinct_upt, of 0 kMaxOrderIds] inj live by blast
  have gone: "lookup P p = None" for p
  proof (cases "orders_of b p")
    case None
    then show ?thesis using P(4) by simp
  next
    case (Some x)
    then show ?thesis using P(4) ids_okD [OF d(6) Some] by fastforce
  qed
  let ?b1 = "b\<lparr>mb_order_pool := P, oid_to_order := (\<lambda>_. None)\<rparr>"
  obtain P2 where P2: "free_side (bids_by_price ?b1) ?b1 = Inr (?b1\<lparr>orders_at_price_pool := P2\<rparr>)" "pool_inv P2"
    "mp_capacity P2 = mp_capacity (orders_at_price_pool b)" "\<forall>a. lookup P2 a = (if a \<in> set bs then None else levels_of b a)"
    using free_side_ok [of ?b1 bs "bids_by_price ?b1"] pools(2) d(2) by (auto simp: side_levels_def)
  let ?b2 = "?b1\<lparr>orders_at_price_pool := P2\<rparr>"
  have disj: "set bs \<inter> set as = {}" by (rule sides_disjoint [OF d(2,3)]) simp
  have "circular (lnext (levels_of ?b2)) (lprev (levels_of ?b2)) as \<longleftrightarrow> circular (lnext (levels_of b)) (lprev (levels_of b)) as"
    by (rule ring_cong) (use disj P2(4) in \<open>auto simp: lnext_def lprev_def\<close>)
  then have r2: "circular (lnext (levels_of ?b2)) (lprev (levels_of ?b2)) as" using d(3) by (simp add: side_levels_def)
  obtain P3 where P3: "free_side (asks_by_price ?b2) ?b2 = Inr (?b2\<lparr>orders_at_price_pool := P3\<rparr>)" "pool_inv P3"
    "mp_capacity P3 = mp_capacity P2" "\<forall>a. lookup P3 a = (if a \<in> set as then None else lookup P2 a)"
    using free_side_ok [OF _ r2, of "asks_by_price ?b2"] P2(2) d(3) by (auto simp: side_levels_def)
  have gone3: "lookup P3 a = None" for a using P2(4) P3(4) d(4) by (auto simp: domIff)
  let ?b = "?b2\<lparr>orders_at_price_pool := P3, bids_by_price := None, asks_by_price := None, price_orders_at_price := (\<lambda>_. None)\<rparr>"
  have "clear_book b = Inr ?b" using P(1) P2(1) P3(1) by (simp add: clear_book_def Let_def del: upt.simps)
  moreover have "mbook_rel ?b [] [] Q"
    using P(2,3) P2(3) P3(2,3) d(1) gone gone3
    by (simp add: mbook_rel_def pools_ok_def side_levels_def index_ok_def ids_ok_def queues_ok_def fun_eq_iff)
  moreover have "book_view ?b = (\<lambda>_. None)" by (simp add: book_view_def fun_eq_iff)
  ultimately show ?thesis by (intro exI [of _ ?b]) simp
qed

end
