(* ===== verification/Client_Correct.thy ===== *)
theory Client_Correct
  imports Client_Changes
begin

text \<open>
  Every market update on the client's book: the run returns, the pointer structures still represent
  the live orders, and the best bid and offer are those of the live orders, although the code
  recomputes them only for an update at or inside the best price.
\<close>

section \<open>Changes at one price\<close>

definition at_price :: "Side \<Rightarrow> Price \<Rightarrow> (Side \<times> Price \<times> Quantity \<times> Priority) option \<Rightarrow> bool" where
  "at_price s p e \<longleftrightarrow> (case e of None \<Rightarrow> True | Some (s', p', _, _) \<Rightarrow> s' = s \<and> p' = p)"

text \<open>Two views that differ only in orders of one side and price.\<close>

definition changes_at :: "Side \<Rightarrow> Price \<Rightarrow> live_view \<Rightarrow> live_view \<Rightarrow> bool" where
  "changes_at s p v v' \<longleftrightarrow> (\<forall>oid. v' oid = v oid \<or> at_price s p (v oid) \<and> at_price s p (v' oid))"

lemma changes_at_entry:
  assumes "changes_at s p v v'" and "(t, q) \<noteq> (s, p)"
  shows "v' oid = Some (t, q, n, pr) \<longleftrightarrow> v oid = Some (t, q, n, pr)"
  using assms unfolding changes_at_def at_price_def by (auto split: option.splits dest!: spec [of _ oid])

lemma changes_at_views:
  assumes c: "changes_at s p v v'" and ne: "(t, q) \<noteq> (s, p)"
  shows "q \<in> side_prices v' t \<longleftrightarrow> q \<in> side_prices v t" "quantity_at v' t q = quantity_at v t q"
proof -
  have ids: "ids_at v' t q = ids_at v t q" by (simp add: ids_at_def changes_at_entry [OF c ne])
  show "q \<in> side_prices v' t \<longleftrightarrow> q \<in> side_prices v t" by (simp add: side_prices_def changes_at_entry [OF c ne])
  have "quantity_of v' oid = quantity_of v oid" if m: "oid \<in> ids_at v t q" for oid
  proof -
    obtain n pr where "v oid = Some (t, q, n, pr)" using m unfolding ids_at_def by blast
    moreover from this have "v' oid = Some (t, q, n, pr)" using changes_at_entry [OF c ne] by blast
    ultimately show ?thesis by (simp add: quantity_of_def)
  qed
  then show "quantity_at v' t q = quantity_at v t q" by (simp add: quantity_at_def ids)
qed

text \<open>A change on the other side, or behind the best price, leaves the best price and quantity.\<close>

definition behind_best :: "Side \<Rightarrow> Side \<Rightarrow> Price \<Rightarrow> live_view \<Rightarrow> bool" where
  "behind_best t s p v \<longleftrightarrow> s \<noteq> t \<or> side_prices v t \<noteq> {} \<and> better_price t (best_price v t) p"

lemma best_price_in: "finite (side_prices v t) \<Longrightarrow> side_prices v t \<noteq> {} \<Longrightarrow> best_price v t \<in> side_prices v t"
  by (cases "t = BUY") (simp_all add: best_price_def)

lemma best_unchanged:
  assumes c: "changes_at s p v v'" and behind: "behind_best t s p v" and t: "t = BUY \<or> t = SELL"
    and fin: "finite (side_prices v t)" "finite (side_prices v' t)"
  shows "side_prices v' t = {} \<longleftrightarrow> side_prices v t = {}"
    "side_prices v t \<noteq> {} \<Longrightarrow> best_price v' t = best_price v t"
    "side_prices v t \<noteq> {} \<Longrightarrow> quantity_at v' t (best_price v' t) = quantity_at v t (best_price v t)"
proof -
  have same: "q \<in> side_prices v' t \<longleftrightarrow> q \<in> side_prices v t" if "(t, q) \<noteq> (s, p)" for q
    by (rule changes_at_views(1) [OF c that])
  have best: "best_price v' t = best_price v t \<and> side_prices v' t \<noteq> {} \<and> (t, best_price v t) \<noteq> (s, p)"
    if ne: "side_prices v t \<noteq> {}"
  proof -
    let ?m = "best_price v t"
    have m: "?m \<in> side_prices v t" by (rule best_price_in [OF fin(1) ne])
    have away: "(t, ?m) \<noteq> (s, p)" using behind by (auto simp: behind_best_def better_price_def split: if_splits)
    have m': "?m \<in> side_prices v' t" using same [OF away] m by simp
    have top: "q = ?m \<or> better_price t ?m q" if q: "q \<in> side_prices v' t" for q
    proof (cases "(t, q) = (s, p)")
      case True
      then show ?thesis using behind by (auto simp: behind_best_def)
    next
      case False
      then have "q \<in> side_prices v t" using same q by simp
      then have "if t = BUY then q \<le> ?m else ?m \<le> q" using fin(1) by (cases "t = BUY") (simp_all add: best_price_def)
      then show ?thesis by (auto simp: better_price_def split: if_splits)
    qed
    have "best_price v' t = ?m"
    proof (cases "t = BUY")
      case True
      have "Max (side_prices v' t) = ?m" using top m' fin(2) True by (intro Max_eqI) (force simp: better_price_def)+
      then show ?thesis using True by (simp add: best_price_def)
    next
      case False
      have "Min (side_prices v' t) = ?m" using top m' fin(2) False by (intro Min_eqI) (force simp: better_price_def)+
      then show ?thesis using False by (simp add: best_price_def)
    qed
    then show ?thesis using m' away by blast
  qed
  show "side_prices v' t = {} \<longleftrightarrow> side_prices v t = {}"
  proof (cases "s = t")
    case True
    then have "side_prices v t \<noteq> {}" using behind by (auto simp: behind_best_def)
    then show ?thesis using best by simp
  next
    case False
    then have "side_prices v' t = side_prices v t" using same by auto
    then show ?thesis by simp
  qed
  show "best_price v' t = best_price v t" if "side_prices v t \<noteq> {}" using best [OF that] by simp
  show "quantity_at v' t (best_price v' t) = quantity_at v t (best_price v t)" if "side_prices v t \<noteq> {}"
    using best [OF that] changes_at_views(2) [OF c, of t "best_price v t"] by auto
qed

lemma related_finite:
  assumes "mbook_rel b bs as Q" and "t = BUY \<or> t = SELL"
  shows "finite (side_prices (book_view b) t)"
proof -
  have "finite (side_prices (book_view b) BUY)" "finite (side_prices (book_view b) SELL)"
    using side_prices_levels [OF assms(1), of BUY bs] side_prices_levels [OF assms(1), of SELL as] by simp_all
  then show ?thesis using assms(2) by auto
qed

section \<open>One update\<close>

text \<open>What the client sees of an update; \<open>CLEAR\<close> empties its view.\<close>

definition client_step :: "live_view \<Rightarrow> MatchingEngineMarketUpdate \<Rightarrow> live_view" where
  "client_step v u = (if mu_type u = MU_CLEAR then (\<lambda>_. None) else view_update v u)"

definition update_fits :: "live_view \<Rightarrow> MatchingEngineMarketUpdate \<Rightarrow> bool" where
  "update_fits v u \<longleftrightarrow> (case mu_type u of MU_ADD \<Rightarrow> can_add v u | MU_MODIFY \<Rightarrow> names_live v u | MU_CANCEL \<Rightarrow> names_live v u | _ \<Rightarrow> True)"

text \<open>The book and its best bid and offer represent the live orders.\<close>

definition book_ok :: "MarketOrderBook \<Rightarrow> bool" where
  "book_ok b \<longleftrightarrow> (\<exists>bs as Q. mbook_rel b bs as Q) \<and> mb_bbo b = view_BBO (book_view b)"

lemma add_order_ok:
  assumes rel: "mbook_rel b bs as Q" and add: "can_add (book_view b) u"
  shows "\<exists>b' bs' as' Q'. bindE (allocate (new_order u) (mb_order_pool b)) (\<lambda>(order, pool). addOrder order (b\<lparr>mb_order_pool := pool\<rparr>)) = Inr b' \<and>
    mbook_rel b' bs' as' Q' \<and> book_view b' = (book_view b)(mu_order_id u \<mapsto> view_entry u) \<and> mb_bbo b' = mb_bbo b"
proof -
  note d = mbook_relD [OF rel]
  have "mp_in_use (mb_order_pool b) < mp_capacity (mb_order_pool b)"
    using order_pool_room [OF d(1,6) can_add_fresh [OF d(6) add]] add by (simp add: can_add_def)
  then obtain o' P where P: "allocate (new_order u) (mb_order_pool b) = Inr (o', P)" "pool_inv P" "mp_capacity P = kMaxOrderIds"
    "orders_of b o' = None" "lookup P = (orders_of b)(o' \<mapsto> new_order u)"
    using allocate_ok [of "mb_order_pool b" "new_order u"] d(1) unfolding pools_ok_def by auto
  show ?thesis
  proof (cases "getOrdersAtPrice (mu_price u) b")
    case None
    then show ?thesis using add_new_level [OF rel add None P(2-5)] P(1) by simp
  next
    case (Some lp)
    then show ?thesis using add_existing_level [OF rel add Some P(2-5)] P(1) by fastforce
  qed
qed

lemma apply_update_ok:
  assumes rel: "mbook_rel b bs as Q" and fits: "update_fits (book_view b) u"
    and kind: "mu_type u \<in> {MU_ADD, MU_MODIFY, MU_CANCEL, MU_CLEAR}"
  shows "\<exists>b' bs' as' Q'. apply_update u b = Inr b' \<and> mbook_rel b' bs' as' Q' \<and> mb_bbo b' = mb_bbo b \<and>
    book_view b' = client_step (book_view b) u"
proof -
  consider "mu_type u = MU_ADD" | "mu_type u = MU_MODIFY" | "mu_type u = MU_CANCEL" | "mu_type u = MU_CLEAR" using kind by auto
  then show ?thesis
  proof cases
    case 1
    then have "can_add (book_view b) u" using fits by (simp add: update_fits_def)
    from add_order_ok [OF rel this] show ?thesis using 1
      by (auto simp: apply_update_def new_order_def client_step_def view_update_def view_entry_def)
  next
    case 2
    then have "names_live (book_view b) u" using fits by (simp add: update_fits_def)
    from modify_order_ok [OF rel this] show ?thesis using 2
      by (auto simp: apply_update_def client_step_def view_update_def)
  next
    case 3
    then have "names_live (book_view b) u" using fits by (simp add: update_fits_def)
    from cancel_order_ok [OF rel this] show ?thesis using 3
      by (auto simp: apply_update_def client_step_def view_update_def)
  next
    case 4
    from clear_book_ok [OF rel] show ?thesis using 4 by (auto simp: apply_update_def client_step_def)
  qed
qed

lemma client_view_changes:
  assumes fits: "update_fits v u" and kind: "mu_type u \<noteq> MU_CLEAR"
  shows "changes_at (mu_side u) (mu_price u) v (client_step v u)"
  using assms unfolding changes_at_def at_price_def client_step_def view_update_def update_fits_def can_add_def names_live_def
  by (auto split: MarketUpdateType.splits option.splits)

lemma touches_ok:
  assumes rel: "mbook_rel b bs as Q"
  shows "touches_bid u b = Inr (mu_type u = MU_CLEAR \<or> \<not> behind_best BUY (mu_side u) (mu_price u) (book_view b))"
    "touches_ask u b = Inr (mu_type u = MU_CLEAR \<or> \<not> behind_best SELL (mu_side u) (mu_price u) (book_view b))"
proof -
  note buy = top_level [OF rel, of BUY bs, simplified] and sell = top_level [OF rel, of SELL as, simplified]
  show "touches_bid u b = Inr (mu_type u = MU_CLEAR \<or> \<not> behind_best BUY (mu_side u) (mu_price u) (book_view b))"
  proof (cases "bids_by_price b")
    case None
    then show ?thesis using buy(1) by (simp add: touches_bid_def behind_best_def best_level_def)
  next
    case (Some p)
    then obtain l where "levels_of b p = Some l" "lv_price l = best_price (book_view b) BUY" "side_prices (book_view b) BUY \<noteq> {}"
      using buy(2) [of p] by (auto simp: best_level_def)
    then show ?thesis using Some by (auto simp: touches_bid_def behind_best_def better_price_def)
  qed
  show "touches_ask u b = Inr (mu_type u = MU_CLEAR \<or> \<not> behind_best SELL (mu_side u) (mu_price u) (book_view b))"
  proof (cases "asks_by_price b")
    case None
    then show ?thesis using sell(1) by (simp add: touches_ask_def behind_best_def best_level_def)
  next
    case (Some p)
    then obtain l where "levels_of b p = Some l" "lv_price l = best_price (book_view b) SELL" "side_prices (book_view b) SELL \<noteq> {}"
      using sell(2) [of p] by (auto simp: best_level_def)
    then show ?thesis using Some by (auto simp: touches_ask_def behind_best_def better_price_def)
  qed
qed

lemma view_BBO_unchanged:
  assumes c: "changes_at s p v v'" and fin: "finite (side_prices v BUY)" "finite (side_prices v' BUY)"
    "finite (side_prices v SELL)" "finite (side_prices v' SELL)"
  shows "behind_best BUY s p v \<Longrightarrow> bid_price (view_BBO v') = bid_price (view_BBO v) \<and> bid_qty (view_BBO v') = bid_qty (view_BBO v)"
    "behind_best SELL s p v \<Longrightarrow> ask_price (view_BBO v') = ask_price (view_BBO v) \<and> ask_qty (view_BBO v') = ask_qty (view_BBO v)"
  using best_unchanged [OF c, of BUY] best_unchanged [OF c, of SELL] fin by (simp_all add: view_BBO_def)

lemma BBO_eqI:
  assumes "bid_price x = bid_price (view_BBO v)" "bid_qty x = bid_qty (view_BBO v)"
    and "ask_price x = ask_price (view_BBO v)" "ask_qty x = ask_qty (view_BBO v)"
  shows "x = view_BBO v"
  using assms by (cases x; cases "view_BBO v") simp

text \<open>Recomputing only the sides the update touches is enough.\<close>

lemma partial_update_ok:
  assumes ok: "book_ok b" and rel: "mbook_rel b1 bs as Q" and bbo: "mb_bbo b1 = mb_bbo b"
    and view: "changes_at (mu_side u) (mu_price u) (book_view b) (book_view b1) \<or> mu_type u = MU_CLEAR"
  shows "\<exists>b2. bindE (touches_bid u b) (\<lambda>ub. bindE (touches_ask u b) (\<lambda>ua. updateBBO ub ua b1)) = Inr b2 \<and> book_ok b2 \<and>
    book_view b2 = book_view b1"
proof -
  let ?v = "book_view b" and ?v1 = "book_view b1"
  let ?ub = "mu_type u = MU_CLEAR \<or> \<not> behind_best BUY (mu_side u) (mu_price u) ?v"
  let ?ua = "mu_type u = MU_CLEAR \<or> \<not> behind_best SELL (mu_side u) (mu_price u) ?v"
  obtain bs0 as0 Q0 where rel0: "mbook_rel b bs0 as0 Q0" and bbo0: "mb_bbo b = view_BBO ?v" using ok unfolding book_ok_def by blast
  let ?x = "(if ?ua then set_ask ?v1 else id) ((if ?ub then set_bid ?v1 else id) (mb_bbo b1))"
  have fin: "finite (side_prices ?v BUY)" "finite (side_prices ?v SELL)" "finite (side_prices ?v1 BUY)" "finite (side_prices ?v1 SELL)"
    using related_finite [OF rel0] related_finite [OF rel] by simp_all
  have bid: "bid_price (view_BBO ?v1) = bid_price (view_BBO ?v) \<and> bid_qty (view_BBO ?v1) = bid_qty (view_BBO ?v)" if "\<not> ?ub"
    using view_BBO_unchanged(1) view fin that by blast
  have ask: "ask_price (view_BBO ?v1) = ask_price (view_BBO ?v) \<and> ask_qty (view_BBO ?v1) = ask_qty (view_BBO ?v)" if "\<not> ?ua"
    using view_BBO_unchanged(2) view fin that by blast
  have "bid_price ?x = bid_price (view_BBO ?v1) \<and> bid_qty ?x = bid_qty (view_BBO ?v1)"
    using bid bbo bbo0 by (cases ?ub; cases ?ua) (simp_all add: set_bid_def set_ask_def)
  moreover have "ask_price ?x = ask_price (view_BBO ?v1) \<and> ask_qty ?x = ask_qty (view_BBO ?v1)"
    using ask bbo bbo0 by (cases ?ub; cases ?ua) (simp_all add: set_bid_def set_ask_def)
  ultimately have x: "?x = view_BBO ?v1" by (intro BBO_eqI) simp_all
  have run: "bindE (touches_bid u b) (\<lambda>ub. bindE (touches_ask u b) (\<lambda>ua. updateBBO ub ua b1)) = Inr (b1\<lparr>mb_bbo := ?x\<rparr>)"
    using touches_ok [OF rel0] updateBBO_ok [OF rel] by simp
  have "mbook_rel (b1\<lparr>mb_bbo := ?x\<rparr>) bs as Q" using rel by (simp only: mbook_rel_bbo)
  moreover have "mb_bbo (b1\<lparr>mb_bbo := ?x\<rparr>) = view_BBO (book_view (b1\<lparr>mb_bbo := ?x\<rparr>))" using x by simp
  ultimately have "book_ok (b1\<lparr>mb_bbo := ?x\<rparr>)" unfolding book_ok_def by blast
  then show ?thesis using run by (intro exI [of _ "b1\<lparr>mb_bbo := ?x\<rparr>"]) simp
qed

text \<open>
  The whole handler keeps the book right and never stops: a trade is passed on without touching the
  book, every other update of a related book is reported as a book change.
\<close>

definition notice_of :: "MarketUpdateType \<Rightarrow> book_notice" where
  "notice_of t = (case t of MU_TRADE \<Rightarrow> Trade_Notice | MU_INVALID \<Rightarrow> No_Notice | MU_SNAPSHOT_START \<Rightarrow> No_Notice
     | MU_SNAPSHOT_END \<Rightarrow> No_Notice | _ \<Rightarrow> Book_Notice)"

lemma onMarketUpdate_ok:
  assumes ok: "book_ok b" and fits: "update_fits (book_view b) u"
  shows "\<exists>b'. onMarketUpdate u b = Inr (notice_of (mu_type u), b') \<and> book_ok b' \<and> book_view b' = client_step (book_view b) u"
proof -
  obtain bs as Q where rel: "mbook_rel b bs as Q" using ok unfolding book_ok_def by blast
  obtain ub ua where t: "touches_bid u b = Inr ub" "touches_ask u b = Inr ua" using touches_ok [OF rel] by blast
  show ?thesis
  proof (cases "notice_of (mu_type u) = Book_Notice")
    case True
    have "\<exists>b1 bs' as' Q'. apply_update u b = Inr b1 \<and> mbook_rel b1 bs' as' Q' \<and> mb_bbo b1 = mb_bbo b \<and>
      book_view b1 = client_step (book_view b) u"
    proof (cases "mu_type u \<in> {MU_ADD, MU_MODIFY, MU_CANCEL, MU_CLEAR}")
      case True
      then show ?thesis by (rule apply_update_ok [OF rel fits])
    next
      case False
      then have "apply_update u b = Inr b \<and> client_step (book_view b) u = book_view b"
        by (auto simp: apply_update_def client_step_def view_update_def split: MarketUpdateType.splits)
      then show ?thesis using rel by (intro exI [of _ b] exI [of _ bs] exI [of _ "as"] exI [of _ Q]) simp
    qed
    then obtain b1 bs' as' Q' where b1: "apply_update u b = Inr b1" "mbook_rel b1 bs' as' Q'" "mb_bbo b1 = mb_bbo b"
      "book_view b1 = client_step (book_view b) u" by blast
    have "changes_at (mu_side u) (mu_price u) (book_view b) (book_view b1) \<or> mu_type u = MU_CLEAR"
      using client_view_changes [OF fits] b1(4) by metis
    then obtain b2 where "updateBBO ub ua b1 = Inr b2" "book_ok b2" "book_view b2 = book_view b1"
      using partial_update_ok [OF ok b1(2,3), of u] t by auto
    then show ?thesis using t b1(1,4) True
      by (auto simp: onMarketUpdate_def notice_of_def split: MarketUpdateType.splits)
  next
    case False
    then have "onMarketUpdate u b = Inr (notice_of (mu_type u), b) \<and> client_step (book_view b) u = book_view b"
      using t by (auto simp: onMarketUpdate_def notice_of_def client_step_def view_update_def split: MarketUpdateType.splits)
    then show ?thesis using ok by metis
  qed
qed

section \<open>A run of updates\<close>

fun updates_fit :: "live_view \<Rightarrow> MatchingEngineMarketUpdate list \<Rightarrow> bool" where
  "updates_fit v [] = True"
| "updates_fit v (u # us) = (update_fits v u \<and> updates_fit (client_step v u) us)"

lemma onMarketUpdates_ok:
  "book_ok b \<Longrightarrow> updates_fit (book_view b) us \<Longrightarrow>
   \<exists>b'. onMarketUpdates us b = Inr b' \<and> book_ok b' \<and> book_view b' = foldl client_step (book_view b) us"
proof (induction us arbitrary: b)
  case Nil
  then show ?case by simp
next
  case (Cons u us)
  then obtain b1 where b1: "onMarketUpdate u b = Inr (notice_of (mu_type u), b1)" "book_ok b1" "book_view b1 = client_step (book_view b) u"
    using onMarketUpdate_ok [of b u] by auto
  then show ?case using Cons.IH [of b1] Cons.prems(2) by simp
qed

lemma new_book_ok: "book_ok (new_MarketOrderBook debug t)" "book_view (new_MarketOrderBook debug t) = (\<lambda>_. None)"
proof -
  let ?b = "new_MarketOrderBook debug t"
  have e: "mp_capacity (new_pool d n) = n" for d n by (simp add: new_pool_def)
  have "mbook_rel ?b [] [] (\<lambda>_. [])"
    by (simp add: mbook_rel_def pools_ok_def side_levels_def index_ok_def ids_ok_def queues_ok_def new_MarketOrderBook_def e new_pool_inv)
  moreover show v: "book_view ?b = (\<lambda>_. None)" by (simp add: book_view_def new_MarketOrderBook_def fun_eq_iff)
  ultimately show "book_ok ?b" unfolding book_ok_def v
    by (auto simp: new_MarketOrderBook_def view_BBO_def side_prices_def new_BBO_def)
qed

end
