(* ===== verification/Client_Mirror.thy ===== *)
theory Client_Mirror
  imports Client_Correct
begin

text \<open>
  Exchange and client together: the market updates of a reachable exchange book are exactly what the
  client's book needs, so that the client ends with the orders of the exchange and its best prices.
\<close>

section \<open>Updates of the matching\<close>

lemma updates_fit_append:
  "updates_fit v (us @ ws) \<longleftrightarrow> updates_fit v us \<and> updates_fit (foldl client_step v us) ws"
  by (induction us arbitrary: v) auto

lemma client_view_replay: "\<forall>u \<in> set us. mu_type u \<noteq> MU_CLEAR \<Longrightarrow> foldl client_step v us = replay v us"
  by (induction us arbitrary: v) (simp_all add: client_step_def)

text \<open>A maker of the fills is live in the view at its side and price, with an id the client can index.\<close>

definition maker_live :: "PriceBand \<Rightarrow> Side \<Rightarrow> live_view \<Rightarrow> fill \<Rightarrow> bool" where
  "maker_live band sd v f \<longleftrightarrow> unat (fill_moid f) < kMaxOrderIds \<and>
     (\<exists>q pr. v (fill_moid f) = Some (sd, ToPrice band (int (f_tick f)), q, pr))"

lemma fill_update_view:
  assumes "maker_live band sd v f"
  shows "updates_fit v (fill_update symbol band sd f)"
    and "oid \<noteq> fill_moid f \<Longrightarrow> foldl client_step v (fill_update symbol band sd f) oid = v oid"
  using assms
  by (auto simp: fill_update_def order_update_def update_fits_def names_live_def maker_live_def client_step_def view_update_def)

lemma fill_updates_fit:
  "distinct (map fill_moid fs) \<Longrightarrow> \<forall>f \<in> set fs. maker_live band sd v f \<Longrightarrow> updates_fit v (fill_updates symbol band sd fs)"
proof (induction fs arbitrary: v)
  case Nil
  then show ?case by (simp add: fill_updates_def)
next
  case (Cons f fs)
  let ?v = "foldl client_step v (fill_update symbol band sd f)"
  have live: "maker_live band sd v f" using Cons.prems(2) by simp
  have "maker_live band sd ?v g" if m: "g \<in> set fs" for g
  proof -
    have "fill_moid g \<noteq> fill_moid f" using Cons.prems(1) m by (auto simp: image_iff)
    then show ?thesis using fill_update_view(2) [OF live] Cons.prems(2) m by (simp add: maker_live_def)
  qed
  then have "updates_fit ?v (fill_updates symbol band sd fs)" using Cons.IH [of ?v] Cons.prems(1) by simp
  then show ?case using fill_update_view(1) [OF live] by (simp add: fill_updates_def updates_fit_append)
qed

lemma fill_updates_no_clear: "u \<in> set (fill_updates symbol band sd fs) \<Longrightarrow> mu_type u \<noteq> MU_CLEAR"
  by (auto simp: fill_updates_def fill_update_def order_update_def split: if_splits)

lemma fills_distinct:
  assumes un: "uniq ab" and srt: "sorted_wrt (sooner buy) fs"
    and mem: "\<forall>f \<in> set fs. f_maker f \<in> set (al_queue (ab_side ab s (f_tick f)))"
  shows "distinct (map fill_moid fs)"
proof -
  have "fill_moid f \<noteq> fill_moid g" if "f \<in> set fs" "g \<in> set fs" "sooner buy f g" for f g
  proof
    assume eq: "fill_moid f = fill_moid g"
    have "f_tick f = f_tick g" using uniq_place [OF un] mem that(1,2) eq by blast
    then show False using that(3) eq by (simp add: sooner_def better_def split: if_splits)
  qed
  then show ?thesis using srt by (induction fs) auto
qed

section \<open>One request\<close>

text \<open>The client indexes its levels by price and its orders by id, without offsets.\<close>

definition band_indexable :: "PriceBand \<Rightarrow> bool" where
  "band_indexable band \<longleftrightarrow> IsValid band \<and> base_price band + (int kTickCount - 1) * tick_size band < int kMaxPriceLevels"

lemma band_indexable_price:
  assumes "band_indexable band" and "t < kTickCount"
  shows "0 \<le> ToPrice band (int t) \<and> ToPrice band (int t) < int kMaxPriceLevels"
proof -
  have v: "IsValid band" and top: "base_price band + (int kTickCount - 1) * tick_size band < int kMaxPriceLevels"
    using assms(1) by (simp_all only: band_indexable_def)
  have px: "ToPrice band (int t) = base_price band + int t * tick_size band" using ToPrice_valid [OF v, of "int t"] assms(2) by simp
  have b: "0 \<le> int t * tick_size band" "0 < tick_size band" "0 \<le> base_price band" using IsValid_bound [OF v, of "int t"] assms(2) by simp_all
  have "int t * tick_size band \<le> (int kTickCount - 1) * tick_size band" using assms(2) b(2) by (intro mult_right_mono) simp_all
  then show ?thesis using px b top by linarith
qed

lemma ToPrice_inj:
  assumes "IsValid band" and "t < kTickCount" and "u < kTickCount" and "ToPrice band (int t) = ToPrice band (int u)"
  shows "t = u"
  using ToPrice_mono(1) [OF assms(1), of "int t" "int u"] ToPrice_mono(1) [OF assms(1), of "int u" "int t"] assms(2-4) by simp

lemma tracked_entry:
  assumes "tracks band v ab" and "v oid = Some (sd, p, q, pr)"
  obtains s t r where "r \<in> set (al_queue (ab_side ab s t))" "r_moid r = oid" "sd = dir s" "p = ToPrice band (int t)"
proof -
  have "\<exists>s t. \<exists>r \<in> set (al_queue (ab_side ab s t)). r_moid r = oid \<and> (sd, p, q, pr) = order_view band s t r"
    using tracksD [OF assms(1), of oid "(sd, p, q, pr)"] assms(2) by blast
  then show ?thesis using that unfolding order_view_def by blast
qed

lemma add_update_fits:
  assumes aok: "abook_ok ab" and tr: "tracks band v ab1" and band: "band_indexable band" and limit: "limit < kTickCount"
    and ab1: "\<And>s t. moids (ab_side ab1 s t) \<subseteq> moids (ab_side ab s t)"
    and aok2: "abook_ok (upd_side buy (push_order limit r) (ab1\<lparr>ab_next := n\<rparr>))"
    and u: "mu_type u = MU_ADD" "mu_order_id u = ab_next ab" "mu_side u = dir buy" "mu_price u = ToPrice band (int limit)"
    and id: "unat (ab_next ab) < kMaxOrderIds"
  shows "update_fits v u"
proof -
  have valid: "IsValid band" using band by (simp add: band_indexable_def)
  have fresh: "v (mu_order_id u) = None"
  proof (rule ccontr)
    assume "v (mu_order_id u) \<noteq> None"
    then obtain sd p q pr where "v (mu_order_id u) = Some (sd, p, q, pr)" by (metis not_None_eq prod_cases4)
    then obtain s t x where "x \<in> set (al_queue (ab_side ab1 s t))" "r_moid x = ab_next ab"
      using tracked_entry [OF tr] u(2) by metis
    then have "ab_next ab \<in> moids (ab_side ab s t)" using ab1 [of s t] unfolding moids_def by (metis image_eqI subsetD)
    then show False using abook_ok_level [OF aok, of s t] by (auto simp: level_wf_def moids_def)
  qed
  have "sd = mu_side u" if e: "v oid = Some (sd, p, q, pr)" "p = mu_price u" for oid sd p q pr
  proof -
    from tracked_entry [OF tr e(1)] obtain s t x where x: "x \<in> set (al_queue (ab_side ab1 s t))" "sd = dir s" "p = ToPrice band (int t)"
      by metis
    let ?ab = "upd_side buy (push_order limit r) (ab1\<lparr>ab_next := n\<rparr>)"
    have x2: "x \<in> set (al_queue (ab_side ?ab s t))" using x(1) by (auto simp: upd_side_def push_order_def)
    have "al_queue (ab_side ?ab s t) = []" if "kTickCount \<le> t" using aok2 that unfolding abook_ok_def by blast
    then have t: "t < kTickCount" using x2 by (metis empty_iff list.set(1) not_le)
    have tl: "t = limit" by (rule ToPrice_inj [OF valid t limit]) (use x(3) e(2) u(4) in simp)
    have r2: "r \<in> set (al_queue (ab_side ?ab buy limit))" by (simp add: upd_side_def push_order_def)
    have un: "uncrossed ?ab" using aok2 by (simp add: abook_ok_def)
    have "s = buy"
    proof (rule ccontr)
      assume ne: "s \<noteq> buy"
      define qs where "qs = (\<lambda>s. al_queue (ab_side ?ab s limit))"
      have "qs s \<noteq> []" "qs buy \<noteq> []" using x2 r2 by (auto simp: tl qs_def)
      then have "qs True \<noteq> []" "qs False \<noteq> []" using ne by (cases s; cases buy; simp)+
      then show False using un unfolding uncrossed_def qs_def by blast
    qed
    then show ?thesis using x(2) u(3) by simp
  qed
  then have "can_add v u" using fresh id u(3,4) band_indexable_price [OF band limit]
    unfolding can_add_def by (auto simp: dir_def u(2))
  then show ?thesis by (simp add: update_fits_def u(1))
qed

lemma default_band_indexable: "band_indexable kDefaultPriceBand"
  by (simp add: band_indexable_def kDefaultPriceBand_def IsValid_def kPriceMax_def tdiv_def capacity_defs)

lemma live_maker:
  assumes tr: "tracks band v ab" and aok: "abook_ok ab" and id: "unat (ab_next ab) \<le> kMaxOrderIds"
    and m: "f_maker f \<in> set (al_queue (ab_side ab s (f_tick f)))"
  shows "maker_live band (dir s) v f"
proof -
  have "v (fill_moid f) = Some (order_view band s (f_tick f) (f_maker f))"
    using tracksD [OF tr, of "fill_moid f"] m by blast
  moreover have "fill_moid f < ab_next ab" using abook_ok_level [OF aok, of s "f_tick f"] m by (simp add: level_wf_def)
  ultimately show ?thesis using id by (simp add: maker_live_def order_view_def word_less_nat_alt)
qed

lemma request_updates_fit:
  assumes inv: "book_inv b" and ok: "valid_request req b" and run: "apply_request req b = Inr b'"
    and tr: "tracks (bk_band b) v (book_abs b)" and band: "band_indexable (bk_band b)"
    and id: "unat (next_market_order_id b') \<le> kMaxOrderIds"
  shows "updates_fit v (new_updates b b') \<and> (\<forall>u \<in> set (new_updates b b'). mu_type u \<noteq> MU_CLEAR) \<and>
    unat (next_market_order_id b) \<le> unat (next_market_order_id b')"
proof -
  define ab where "ab = book_abs b"
  define band where "band = bk_band b"
  let ?x = "spec_request (bk_symbol_id b) band req ab"
  have aok: "abook_ok ab" and un: "uniq ab" using inv abook_ok_uniq by (auto simp: book_inv_def ab_def)
  obtain Q where rel: "book_rel b Q" using inv by (auto simp: book_inv_def)
  from valid_request_runs [OF inv ok] run have im: "implements b ?x b'" and aok': "abook_ok (out_book ?x)"
    by (auto simp: ab_def band_def)
  have abs': "book_abs b' = out_book ?x" by (rule implements_abs(1) [OF im])
  obtain Q' where rel': "book_rel b' Q'" using implements_abs(2) [OF im] by blast
  have nxt: "ab_next ab = next_market_order_id b" by (simp add: ab_def book_abs_eq [OF rel] abs_next)
  have nxt': "ab_next (out_book ?x) = next_market_order_id b'" unfolding abs' [symmetric] by (simp add: book_abs_eq [OF rel'] abs_next)
  have upd: "new_updates b b' = out_updates ?x" using im by (simp add: implements_def new_updates_def)
  have tr0: "tracks band v ab" using tr by (simp add: ab_def band_def)
  have bi: "band_indexable band" using band by (simp add: band_def)
  show ?thesis unfolding upd
  proof (cases req)
    case (Add_Request cid coid side price qty)
    define buy where "buy = (side = BUY)"
    define limit where "limit = ToTick band price"
    let ?opp = "ab_side ab (\<not> buy)"
    obtain fs left a' where m: "fill_levels (crossing_ticks buy limit ?opp) qty ?opp = (fs, left, a')"
      by (metis prod_cases3)
    define ab1 where "ab1 = upd_side (\<not> buy) (\<lambda>_. a') ab"
    define v1 where "v1 = replay v (fill_updates (bk_symbol_id b) band (dir (\<not> buy)) fs)"
    have lim: "0 \<le> limit" "limit < int kTickCount" "ToPrice band limit = price" "side = dir buy"
      "unat (next_market_order_id b) + 1 < 2 ^ 64"
      using ok Add_Request by (auto simp: valid_request_def limit_def band_def buy_def dir_def)
    define r where "r = \<lparr>r_client = cid, r_coid = coid, r_moid = ab_next ab, r_qty = left,
      r_prio = al_next (ab_side ab1 buy (nat limit))\<rparr>"
    have x: "out_book ?x =
        (if left = 0 then ab1\<lparr>ab_next := ab_next ab + 1\<rparr>
         else upd_side buy (push_order (nat limit) r) (ab1\<lparr>ab_next := ab_next ab + 1\<rparr>))"
      "out_updates ?x =
         fill_updates (bk_symbol_id b) band (dir (\<not> buy)) fs @
         (if left = 0 then [] else [\<lparr>mu_type = MU_ADD, mu_symbol_id = bk_symbol_id b, mu_order_id = ab_next ab,
            mu_side = side, mu_price = price, mu_quantity = left, mu_priority = r_prio r\<rparr>])"
      using m by (simp_all add: Add_Request spec_request_def spec_add_def Let_def buy_def [symmetric]
          limit_def [symmetric] ab1_def r_def upd_side_next)
    have "ab_next (out_book ?x) = ab_next ab + 1" unfolding x(1) by (simp add: upd_side_def)
    then have nxi: "unat (next_market_order_id b') = unat (ab_next ab) + 1"
      using nxt' lim(5) unfolding nxt by (simp add: unat_inc_small)
    have t1: "tracks band v1 ab1"
      using tracks_fill_levels [OF m un tr0 _ abook_ok_next_pos [OF aok]] abook_ok_level [OF aok]
      by (simp add: v1_def ab1_def)
    have fills: "(\<forall>f \<in> set fs. f_maker f \<in> set (al_queue (?opp (f_tick f)))) \<and> sorted_wrt (sooner buy) fs"
      using fill_levels_fills [OF m crossing_sorted _ abook_ok_next_pos [OF aok]] abook_ok_level [OF aok] by blast
    have "updates_fit v (fill_updates (bk_symbol_id b) band (dir (\<not> buy)) fs)"
    proof (rule fill_updates_fit)
      show "distinct (map fill_moid fs)" using fills_distinct [OF un] fills by blast
      show "\<forall>f \<in> set fs. maker_live band (dir (\<not> buy)) v f"
        using live_maker [OF tr0 aok] fills nxi id by simp
    qed
    moreover have "foldl client_step v (fill_updates (bk_symbol_id b) band (dir (\<not> buy)) fs) = v1"
      unfolding v1_def by (rule client_view_replay) (use fill_updates_no_clear in blast)
    moreover have "update_fits v1 \<lparr>mu_type = MU_ADD, mu_symbol_id = bk_symbol_id b, mu_order_id = ab_next ab,
            mu_side = side, mu_price = price, mu_quantity = left, mu_priority = r_prio r\<rparr>" if left: "left \<noteq> 0"
    proof (rule add_update_fits [OF aok t1 bi, of "nat limit" buy r "ab_next ab + 1"])
      show "moids (ab_side ab1 s t) \<subseteq> moids (ab_side ab s t)" for s t
        using fill_levels_inv [OF m] abook_ok_level [OF aok] abook_ok_next_pos [OF aok] by (auto simp: ab1_def upd_side_def)
      show "abook_ok (upd_side buy (push_order (nat limit) r) (ab1\<lparr>ab_next := ab_next ab + 1\<rparr>))"
        using aok' left by (simp add: x(1))
    qed (use lim nxi id in \<open>simp_all add: nat_less_iff\<close>)
    ultimately have "updates_fit v (out_updates ?x)" unfolding x(2) by (simp add: updates_fit_append)
    moreover have "\<forall>u \<in> set (out_updates ?x). mu_type u \<noteq> MU_CLEAR"
      using fill_updates_no_clear unfolding x(2) by (auto split: if_splits)
    ultimately show "updates_fit v (out_updates ?x) \<and> (\<forall>u \<in> set (out_updates ?x). mu_type u \<noteq> MU_CLEAR) \<and>
        unat (next_market_order_id b) \<le> unat (next_market_order_id b')" using nxi nxt by simp
  next
    case (Cancel_Request cid coid)
    show "updates_fit v (out_updates ?x) \<and> (\<forall>u \<in> set (out_updates ?x). mu_type u \<noteq> MU_CLEAR) \<and>
        unat (next_market_order_id b) \<le> unat (next_market_order_id b')"
    proof (cases "spec_find cid coid ab")
      case None
      then show ?thesis using nxt nxt' by (simp add: Cancel_Request spec_request_def spec_cancel_def)
    next
      case (Some place)
      obtain s t r where place: "place = (s, t, r)" by (cases place)
      have m: "r \<in> set (al_queue (ab_side ab s t))" using spec_find_SomeD Some place by blast
      define f where "f = \<lparr>f_tick = t, f_maker = r, f_qty = 0\<rparr>"
      have "ab_next (out_book ?x) = ab_next ab"
        by (simp add: Cancel_Request spec_request_def spec_cancel_def Some place upd_side_def)
      then have n: "next_market_order_id b' = next_market_order_id b" using nxt nxt' by simp
      have "maker_live band (dir s) v f" using live_maker [OF tr0 aok, of f s] m id n nxt by (simp add: f_def)
      then show ?thesis using n
        by (simp add: Cancel_Request spec_request_def spec_cancel_def Some place order_update_def maker_live_def f_def
            update_fits_def names_live_def)
    qed
  qed
qed

section \<open>Every reachable book\<close>

lemma reachable_updates_fit:
  "book_reach debug symbol band b \<Longrightarrow> band_indexable band \<Longrightarrow> unat (next_market_order_id b) \<le> kMaxOrderIds \<Longrightarrow>
   updates_fit (\<lambda>_. None) (market_updates b) \<and> (\<forall>u \<in> set (market_updates b). mu_type u \<noteq> MU_CLEAR)"
proof (induction rule: book_reach.induct)
  case (book_start b)
  then have "IsValid band" by (auto simp: new_BookCore_def bindE_eq_Inr ASSERT_eq_Inr)
  with new_BookCore_ok [of band debug symbol] book_start(1) have "market_updates b = []" by auto
  then show ?case by simp
next
  case (book_step b req b')
  note f = book_reach_facts [OF book_step(1)]
  have r: "updates_fit (replay Map.empty (market_updates b)) (new_updates b b')"
    "\<forall>u \<in> set (new_updates b b'). mu_type u \<noteq> MU_CLEAR" "unat (next_market_order_id b) \<le> unat (next_market_order_id b')"
    using request_updates_fit [of b req b' "replay Map.empty (market_updates b)"] f book_step by auto
  have old: "updates_fit (\<lambda>_. None) (market_updates b)" "\<forall>u \<in> set (market_updates b). mu_type u \<noteq> MU_CLEAR"
    using book_step r(3) by simp_all
  have "implements b (spec_request (bk_symbol_id b) (bk_band b) req (book_abs b)) b'"
    using valid_request_runs [of b req] f book_step by auto
  then have "market_updates b' = market_updates b @ new_updates b b'" by (simp add: implements_def new_updates_def)
  then show ?case using old r(1,2) client_view_replay [OF old(2)] by (auto simp: updates_fit_append)
qed

section \<open>Best prices and quantities\<close>

lemma tracked_side_prices:
  assumes "tracks band v ab"
  shows "side_prices v (dir s) = (\<lambda>t. ToPrice band (int t)) ` {t. al_queue (ab_side ab s t) \<noteq> []}"
proof (intro set_eqI iffI)
  fix p
  assume "p \<in> side_prices v (dir s)"
  then obtain oid q pr where "v oid = Some (dir s, p, q, pr)" unfolding side_prices_def by blast
  from tracked_entry [OF assms this] obtain s' t r where "r \<in> set (al_queue (ab_side ab s' t))" "dir s = dir s'" "p = ToPrice band (int t)"
    by metis
  then show "p \<in> (\<lambda>t. ToPrice band (int t)) ` {t. al_queue (ab_side ab s t) \<noteq> []}" by auto
next
  fix p
  assume "p \<in> (\<lambda>t. ToPrice band (int t)) ` {t. al_queue (ab_side ab s t) \<noteq> []}"
  then obtain t where t: "p = ToPrice band (int t)" "al_queue (ab_side ab s t) \<noteq> []" by blast
  then obtain r where "r \<in> set (al_queue (ab_side ab s t))" by (metis list.set_intros(1) neq_Nil_conv)
  then have "v (r_moid r) = Some (order_view band s t r)" using tracksD [OF assms, of "r_moid r"] by blast
  then show "p \<in> side_prices v (dir s)" using t(1) by (auto simp: side_prices_def order_view_def)
qed

lemma tracked_quantity:
  assumes tr: "tracks band v ab" and aok: "abook_ok ab" and band: "IsValid band" and t: "t < kTickCount"
  shows "quantity_at v (dir s) (ToPrice band (int t)) = sum_list (map r_qty (al_queue (ab_side ab s t)))"
proof -
  let ?q = "al_queue (ab_side ab s t)"
  have ids: "ids_at v (dir s) (ToPrice band (int t)) = r_moid ` set ?q"
  proof (intro set_eqI iffI)
    fix oid
    assume "oid \<in> ids_at v (dir s) (ToPrice band (int t))"
    then obtain q pr where e: "v oid = Some (dir s, ToPrice band (int t), q, pr)" unfolding ids_at_def by blast
    from tracked_entry [OF tr e] obtain s' u r where r: "r \<in> set (al_queue (ab_side ab s' u))" "r_moid r = oid" "dir s = dir s'"
      "ToPrice band (int t) = ToPrice band (int u)" by metis
    have "al_queue (ab_side ab s' u) \<noteq> []" using r(1) by auto
    then have "u < kTickCount" using aok unfolding abook_ok_def by (meson not_le)
    then have "u = t" using ToPrice_inj [OF band t _ r(4)] by simp
    then show "oid \<in> r_moid ` set ?q" using r(1-3) by auto
  next
    fix oid
    assume "oid \<in> r_moid ` set ?q"
    then obtain r where "r \<in> set ?q" "oid = r_moid r" by blast
    then have "v oid = Some (order_view band s t r)" using tracksD [OF tr, of oid] by blast
    then show "oid \<in> ids_at v (dir s) (ToPrice band (int t))" by (auto simp: ids_at_def order_view_def)
  qed
  have "distinct (map r_moid ?q)" using abook_ok_uniq [OF aok] by (simp add: uniq_def)
  then have d: "distinct ?q" "inj_on r_moid (set ?q)" by (simp_all add: distinct_map)
  have qty: "quantity_of v (r_moid r) = r_qty r" if m: "r \<in> set ?q" for r
  proof -
    have "v (r_moid r) = Some (order_view band s t r)" using tracksD [OF tr, of "r_moid r"] m by blast
    then show ?thesis by (simp add: quantity_of_def order_view_def)
  qed
  have "quantity_at v (dir s) (ToPrice band (int t)) = (\<Sum>r \<in> set ?q. r_qty r)"
    unfolding quantity_at_def ids by (simp add: sum.reindex [OF d(2)] qty)
  then show ?thesis using d(1) by (simp add: sum_list_distinct_conv_sum_set)
qed

lemma unat_low: "unat (ucast (a :: u64) :: u32) = unat a mod 2 ^ 32"
  using unat_of_nat_mod [of "unat a", where 'a = 32] by simp

lemma low_add: "ucast (a + b :: u64) = (ucast a + ucast b :: u32)"
proof (rule unat_inj)
  have "unat (a + b) mod 2 ^ 32 = (unat a + unat b) mod 2 ^ 64 mod 2 ^ 32" by (simp add: unat_word_ariths)
  also have "\<dots> = (unat a + unat b) mod 2 ^ 32" by (rule mod_mod_cancel) simp
  finally show "unat (ucast (a + b) :: u32) = unat (ucast a + ucast b :: u32)"
    unfolding unat_low unat_word_ariths by (simp add: unat_low mod_simps)
qed

lemma low_ucast: "ucast (ucast (a :: u32) :: u64) = (a :: u32)"
proof (rule unat_inj)
  show "unat (ucast (ucast a :: u64) :: u32) = unat a"
    unfolding unat_low unat_ucast_u32 using unsigned_less [of a, where 'a = nat] by simp
qed

lemma ucast_sum_low: "ucast (\<Sum>r\<leftarrow>q. ucast (r_qty r) :: u64) = (\<Sum>r\<leftarrow>q. r_qty r)"
  by (induction q) (simp_all add: low_add low_ucast)

text \<open>The best bid and offer of the exchange's own book; a \<open>Quantity\<close> keeps the low 32 bits of a level's total.\<close>

definition exchange_BBO :: "BookCore \<Rightarrow> BBO" where
  "exchange_BBO b =
     (let price = (\<lambda>pl. if pl_IsEmpty pl then 0 else ToPrice (bk_band b) (best_tick pl));
          qty = (\<lambda>pl. if pl_IsEmpty pl then 0 else ucast (total_quantity (LevelAt pl (best_tick pl))))
      in \<lparr>bid_price = price (bids b), ask_price = price (asks b), bid_qty = qty (bids b), ask_qty = qty (asks b)\<rparr>)"

lemma exchange_side_best:
  assumes inv: "book_inv b" and tr: "tracks (bk_band b) v (book_abs b)"
  shows "pl_IsEmpty (sideof s b) \<longleftrightarrow> side_prices v (dir s) = {}"
    "\<not> pl_IsEmpty (sideof s b) \<Longrightarrow> best_price v (dir s) = ToPrice (bk_band b) (best_tick (sideof s b)) \<and>
       quantity_at v (dir s) (ToPrice (bk_band b) (best_tick (sideof s b))) = ucast (total_quantity (LevelAt (sideof s b) (best_tick (sideof s b))))"
proof -
  obtain Q where rel: "book_rel b Q" and aok: "abook_ok (book_abs b)" using inv by (auto simp: book_inv_def)
  define S where "S = occupied (Q s)"
  have band: "IsValid (bk_band b)" by (rule book_relD(3) [OF rel])
  have bt: "best_tick (sideof s b) = best_of (dir s) S" and sub: "S \<subseteq> {..<kTickCount}"
    unfolding S_def using best_tick_rel [OF rel, of s] by auto
  have fin: "finite S" using sub finite_subset by blast
  have occ: "{t. al_queue (ab_side (book_abs b) s t) \<noteq> []} = S"
    by (simp add: S_def book_abs_eq [OF rel] abs_queue occupied_def)
  have prices: "side_prices v (dir s) = (\<lambda>t. ToPrice (bk_band b) (int t)) ` S" using tracked_side_prices [OF tr, of s] occ by simp
  have empty: "pl_IsEmpty (sideof s b) \<longleftrightarrow> S = {}" by (auto simp: pl_IsEmpty_def bt best_of_def kInvalidTick_def split: if_splits)
  then show "pl_IsEmpty (sideof s b) \<longleftrightarrow> side_prices v (dir s) = {}" using prices by simp
  assume "\<not> pl_IsEmpty (sideof s b)"
  then have ne: "S \<noteq> {}" using empty by simp
  define t where "t = (if s then Max S else Min S)"
  have t: "t \<in> S" "best_tick (sideof s b) = int t" using fin ne by (auto simp: t_def bt best_of_def dir_def)
  have lt: "u < kTickCount" if "u \<in> S" for u using sub that by auto
  have mono: "ToPrice (bk_band b) (int u) \<le> ToPrice (bk_band b) (int w) \<longleftrightarrow> u \<le> w" if "u \<in> S" "w \<in> S" for u w
    using ToPrice_mono(1) [OF band, of "int u" "int w"] lt that by simp
  have best: "best_price v (dir s) = ToPrice (bk_band b) (int t)"
  proof (cases s)
    case True
    have "Max (side_prices v (dir s)) = ToPrice (bk_band b) (int t)" unfolding prices
      by (rule Max_eqI) (use fin t(1) mono True in \<open>auto simp: t_def\<close>)
    then show ?thesis using True by (simp add: best_price_def dir_def)
  next
    case False
    have "Min (side_prices v (dir s)) = ToPrice (bk_band b) (int t)" unfolding prices
      by (rule Min_eqI) (use fin t(1) mono False in \<open>auto simp: t_def\<close>)
    then show ?thesis using False by (simp add: best_price_def dir_def)
  qed
  let ?h = "lookup (order_pool b)"
  have sr: "side_rel ?h (sideof s b) (Q s)" by (rule book_relD [OF rel])
  have "level_ok ?h (pl_side (sideof s b), t) (levels (sideof s b) t) (Q s t)" using sr by (simp add: side_rel_def)
  then have "total_quantity (levels (sideof s b) t) = (\<Sum>r\<leftarrow>map (rest ?h) (Q s t). ucast (r_qty r))" by (simp add: level_ok_def comp_def)
  then have "ucast (total_quantity (levels (sideof s b) t)) = sum_list (map r_qty (al_queue (ab_side (book_abs b) s t)))"
    using ucast_sum_low [of "map (rest ?h) (Q s t)"] by (simp add: book_abs_eq [OF rel] abs_queue)
  then have "quantity_at v (dir s) (ToPrice (bk_band b) (int t)) = ucast (total_quantity (levels (sideof s b) t))"
    using tracked_quantity [OF tr aok band lt [OF t(1)], of s] by simp
  then show "best_price v (dir s) = ToPrice (bk_band b) (best_tick (sideof s b)) \<and>
      quantity_at v (dir s) (ToPrice (bk_band b) (best_tick (sideof s b))) = ucast (total_quantity (LevelAt (sideof s b) (best_tick (sideof s b))))"
    using best t(2) by (simp add: LevelAt_def)
qed

lemma exchange_BBO_view:
  assumes "book_inv b" and "tracks (bk_band b) v (book_abs b)"
  shows "view_BBO v = exchange_BBO b"
  using exchange_side_best [OF assms, of True] exchange_side_best [OF assms, of False]
  by (simp add: view_BBO_def exchange_BBO_def Let_def sideof_def dir_def)

text \<open>C5: The client's book is the exchange's book. For every reachable book of the default price
  band that has numbered at most 1048575 orders, a new client book that takes the published market
  updates in order never stops, ends with exactly the resting orders (side, price, open quantity and
  priority under each market order id), and its best bid and offer are the best prices of the
  exchange and the totals of their levels, the total cut to 32 bits.\<close>

theorem client_book_mirrors_exchange:
  assumes "book_reach debug symbol kDefaultPriceBand b" and "unat (next_market_order_id b) \<le> kMaxOrderIds"
  shows "\<exists>c. onMarketUpdates (market_updates b) (new_MarketOrderBook dbg symbol) = Inr c \<and>
    (\<forall>oid e. book_view c oid = Some e \<longleftrightarrow>
      (\<exists>s t. \<exists>r \<in> set (al_queue (ab_side (book_abs b) s t)). r_moid r = oid \<and> e = order_view kDefaultPriceBand s t r)) \<and>
    mb_bbo c = exchange_BBO b"
proof -
  let ?v = "replay Map.empty (market_updates b)"
  note f = book_reach_facts [OF assms(1)]
  have u: "updates_fit (\<lambda>_. None) (market_updates b)" "\<forall>u \<in> set (market_updates b). mu_type u \<noteq> MU_CLEAR"
    using reachable_updates_fit [OF assms(1) default_band_indexable assms(2)] by simp_all
  obtain c where c: "onMarketUpdates (market_updates b) (new_MarketOrderBook dbg symbol) = Inr c" "book_ok c"
      "book_view c = foldl client_step (\<lambda>_. None) (market_updates b)"
    using onMarketUpdates_ok [OF new_book_ok(1), of dbg symbol "market_updates b"] u(1) unfolding new_book_ok(2) by blast
  have v: "book_view c = ?v" using c(3) client_view_replay [OF u(2)] by simp
  have tr: "tracks (bk_band b) ?v (book_abs b)" using f by simp
  have "mb_bbo c = exchange_BBO b" using c(2) exchange_BBO_view [OF _ tr] f unfolding book_ok_def v by simp
  moreover have "book_view c oid = Some e \<longleftrightarrow>
      (\<exists>s t. \<exists>r \<in> set (al_queue (ab_side (book_abs b) s t)). r_moid r = oid \<and> e = order_view kDefaultPriceBand s t r)" for oid e
    unfolding v using tracksD [OF tr, of oid e] f by auto
  ultimately show ?thesis using c(1) by blast
qed

theorem client_book_mirrors_exchange_witness:
  "\<exists>c. onMarketUpdates (market_updates example_two) (new_MarketOrderBook False 0) = Inr c \<and> mb_bbo c = exchange_BBO example_two"
proof -
  have "unat (next_market_order_id example_two) \<le> kMaxOrderIds"
    by (simp add: example_two_def example_book_def book_eval)
  from client_book_mirrors_exchange [OF example_two_reach this] show ?thesis by blast
qed

text \<open>C6: Whatever updates a client's book has taken, as long as each fits the orders then live (an
  added order is new, indexable and not at a price of the other side; a changed or cancelled one is
  live at the named side and price), it has not stopped, holds exactly the orders the updates leave
  live, and its best bid and offer are those of these orders, although the code recomputes a side
  only for an update at or inside its best price.\<close>

theorem client_book_follows_updates:
  assumes "updates_fit (\<lambda>_. None) us"
  shows "\<exists>c. onMarketUpdates us (new_MarketOrderBook dbg symbol) = Inr c \<and> book_view c = foldl client_step (\<lambda>_. None) us \<and>
    mb_bbo c = view_BBO (book_view c)"
  using onMarketUpdates_ok [OF new_book_ok(1), of dbg symbol us] assms unfolding new_book_ok(2) book_ok_def by blast

text \<open>An order, a second one behind it, a better one that goes again, and a snapshot's clear.\<close>

definition example_updates :: "MatchingEngineMarketUpdate list" where
  "example_updates =
     (let u = (\<lambda>ty oid p q. \<lparr>mu_type = ty, mu_symbol_id = 0, mu_order_id = oid, mu_side = BUY, mu_price = p, mu_quantity = q, mu_priority = 1\<rparr>)
      in [u MU_ADD 1 100 5, u MU_ADD 2 100 7, u MU_ADD 3 101 2, u MU_CANCEL 3 101 0, u MU_MODIFY 1 100 4])"

theorem client_book_follows_updates_witness:
  "\<exists>c. onMarketUpdates example_updates (new_MarketOrderBook True 0) = Inr c \<and>
     book_view c 1 = Some (BUY, 100, 4, 1) \<and> book_view c 3 = None"
proof -
  have "updates_fit (\<lambda>_. None) example_updates"
    by (simp add: example_updates_def Let_def update_fits_def can_add_def names_live_def client_step_def view_update_def capacity_defs)
  from client_book_follows_updates [OF this, of True 0] obtain c where
    "onMarketUpdates example_updates (new_MarketOrderBook True 0) = Inr c"
    "book_view c = foldl client_step (\<lambda>_. None) example_updates" by blast
  then show ?thesis by (simp add: example_updates_def Let_def client_step_def view_update_def)
qed

end
