(* ===== verification/Doubles.thy ===== *)
theory Doubles
  imports Prelude "HOL-Library.Log_Nat"
begin

text \<open>
  The \<open>double\<close> values the trading code computes with. A finite value is its rational number; the
  sign of a zero is not kept (the code divides by non-zero values only, so it never sees it). Every
  operation computes the exact result and rounds it; the rounding is an argument: \<open>ieee\<close> rounds to
  the nearest binary64 value, ties to even, and \<open>Fin\<close> itself is arithmetic without rounding.
\<close>

datatype double = NaN | Infinity bool | Fin rat  \<comment> \<open>the flag of an infinity is its sign: true is negative\<close>

type_synonym rounding = "rat \<Rightarrow> double"

section \<open>Rounding to binary64\<close>

definition power_of_two :: "int \<Rightarrow> rat" where
  "power_of_two e = (if 0 \<le> e then 2 ^ nat e else 1 / 2 ^ nat (- e))"

text \<open>The exponent of the highest bit of a positive rational.\<close>

definition exponent :: "rat \<Rightarrow> int" where
  "exponent r = (let (n, d) = quotient_of r; e = bitlen n - bitlen d in if power_of_two e \<le> r then e else e - 1)"

definition round_half_even :: "rat \<Rightarrow> int" where
  "round_half_even r = (let k = \<lfloor>r\<rfloor>; f = r - of_int k in
     if f < 1 / 2 then k else if f > 1 / 2 then k + 1 else if even k then k else k + 1)"

definition ieee :: rounding where
  "ieee r = (if r = 0 then Fin 0
     else let ulp = power_of_two (max (exponent \<bar>r\<bar> - 52) (- 1074));
              v = of_int (round_half_even (\<bar>r\<bar> / ulp)) * ulp in
          if power_of_two 1024 \<le> v then Infinity (r < 0) else Fin (sgn r * v))"

section \<open>Operations\<close>

definition is_finite :: "double \<Rightarrow> bool" where
  "is_finite x = (case x of Fin _ \<Rightarrow> True | _ \<Rightarrow> False)"

definition neg_double :: "double \<Rightarrow> double" where
  "neg_double x = (case x of NaN \<Rightarrow> NaN | Infinity s \<Rightarrow> Infinity (\<not> s) | Fin a \<Rightarrow> Fin (- a))"

definition is_negative :: "double \<Rightarrow> bool" where
  "is_negative x = (case x of NaN \<Rightarrow> False | Infinity s \<Rightarrow> s | Fin a \<Rightarrow> a < 0)"

fun add_double :: "rounding \<Rightarrow> double \<Rightarrow> double \<Rightarrow> double" where
  "add_double rnd (Fin a) (Fin b) = rnd (a + b)"
| "add_double rnd (Infinity s) (Fin b) = Infinity s"
| "add_double rnd (Fin a) (Infinity s) = Infinity s"
| "add_double rnd (Infinity s) (Infinity t) = (if s = t then Infinity s else NaN)"
| "add_double rnd _ _ = NaN"

definition sub_double :: "rounding \<Rightarrow> double \<Rightarrow> double \<Rightarrow> double" where
  "sub_double rnd x y = add_double rnd x (neg_double y)"

fun mul_double :: "rounding \<Rightarrow> double \<Rightarrow> double \<Rightarrow> double" where
  "mul_double rnd (Fin a) (Fin b) = rnd (a * b)"
| "mul_double rnd NaN _ = NaN"
| "mul_double rnd _ NaN = NaN"
| "mul_double rnd x y = (if x = Fin 0 \<or> y = Fin 0 then NaN else Infinity (is_negative x \<noteq> is_negative y))"

fun div_double :: "rounding \<Rightarrow> double \<Rightarrow> double \<Rightarrow> double" where
  "div_double rnd (Fin a) (Fin b) = (if b \<noteq> 0 then rnd (a / b) else if a = 0 then NaN else Infinity (a < 0))"
| "div_double rnd (Infinity s) (Fin b) = Infinity (s \<noteq> (b < 0))"
| "div_double rnd (Fin a) (Infinity _) = Fin 0"
| "div_double rnd _ _ = NaN"

text \<open>Conversion of an integer, and the comparisons, which are false on NaN.\<close>

definition to_double :: "rounding \<Rightarrow> int \<Rightarrow> double" where
  "to_double rnd i = rnd (of_int i)"

fun less_double :: "double \<Rightarrow> double \<Rightarrow> bool" where
  "less_double (Fin a) (Fin b) \<longleftrightarrow> a < b"
| "less_double (Infinity s) (Fin _) \<longleftrightarrow> s"
| "less_double (Fin _) (Infinity s) \<longleftrightarrow> \<not> s"
| "less_double (Infinity s) (Infinity t) \<longleftrightarrow> s \<and> \<not> t"
| "less_double _ _ \<longleftrightarrow> False"

definition eq_double :: "double \<Rightarrow> double \<Rightarrow> bool" where
  "eq_double x y \<longleftrightarrow> x \<noteq> NaN \<and> x = y"

definition geq_double :: "double \<Rightarrow> double \<Rightarrow> bool" where
  "geq_double x y \<longleftrightarrow> less_double y x \<or> eq_double x y"

section \<open>Lemmas\<close>

lemma exact_ops [simp]:
  "add_double Fin (Fin a) (Fin b) = Fin (a + b)" "sub_double Fin (Fin a) (Fin b) = Fin (a - b)"
  "mul_double Fin (Fin a) (Fin b) = Fin (a * b)" "b \<noteq> 0 \<Longrightarrow> div_double Fin (Fin a) (Fin b) = Fin (a / b)"
  "to_double Fin i = Fin (of_int i)"
  by (simp_all add: sub_double_def neg_double_def to_double_def)

lemma ieee_zero [simp]: "ieee 0 = Fin 0"
  by (simp add: ieee_def)

end
