(* ===== verification/Position_Keeper.thy ===== *)
theory Position_Keeper
  imports Doubles Market_Order
begin

text \<open>
  \<open>trading::PositionInfo\<close> and \<open>PositionKeeper\<close> (\<open>trading/strategy/position_keeper.h\<close>): position,
  profit and volume of each symbol. \<open>open_vwap\<close> is the array of two doubles; \<open>pi_bbo\<close> stands for
  the stored pointer, which is only printed. \<open>rnd\<close> is the rounding of the arithmetic.
\<close>

section \<open>State\<close>

record PositionInfo =
  position :: int
  real_pnl :: double
  unreal_pnl :: double
  total_pnl :: double
  open_vwap :: "double \<times> double"
  volume :: Quantity
  pi_bbo :: "BBO option"

definition new_PositionInfo :: PositionInfo where
  "new_PositionInfo = \<lparr>position = 0, real_pnl = Fin 0, unreal_pnl = Fin 0, total_pnl = Fin 0,
     open_vwap = (Fin 0, Fin 0), volume = 0, pi_bbo = None\<rparr>"

text \<open>The index \<open>static_cast<size_t>(side) - 1\<close>, and the two-element array.\<close>

definition side_index :: "Side \<Rightarrow> nat" where
  "side_index s = unat (ucast (side_byte s) - 1 :: u64)"

definition vwap_at :: "nat \<Rightarrow> double \<times> double \<Rightarrow> double result" where
  "vwap_at i v = (if i = 0 then Inr (fst v) else if i = 1 then Inr (snd v) else Inl Bad_Access)"

definition set_vwap :: "nat \<Rightarrow> double \<Rightarrow> double \<times> double \<Rightarrow> (double \<times> double) result" where
  "set_vwap i x v = (if i = 0 then Inr (x, snd v) else if i = 1 then Inr (fst v, x) else Inl Bad_Access)"

definition side_value :: "Side \<Rightarrow> int" where
  "side_value s = (if s = BUY then 1 else - 1)"

text \<open>\<open>std::abs\<close> on \<open>int64_t\<close>.\<close>

definition abs64 :: "int \<Rightarrow> int" where "abs64 x = swrap 64 \<bar>x\<bar>"

text \<open>The executed quantity as an integer.\<close>

definition fill_size :: "MatchingEngineClientResponse \<Rightarrow> int" where
  "fill_size r = int (unat (resp_executed_quantity r))"

section \<open>Operations\<close>

text \<open>Profit of the open position at a price given as a double.\<close>

definition mark_position :: "rounding \<Rightarrow> double \<Rightarrow> PositionInfo \<Rightarrow> double" where
  "mark_position rnd px p =
     (let size = to_double rnd (abs64 (position p)) in
      if 0 < position p
      then mul_double rnd (sub_double rnd px (div_double rnd (fst (open_vwap p)) size)) size
      else mul_double rnd (sub_double rnd (div_double rnd (snd (open_vwap p)) size) px) size)"

definition addFill :: "rounding \<Rightarrow> MatchingEngineClientResponse \<Rightarrow> PositionInfo \<Rightarrow> PositionInfo result" where
  "addFill rnd r p =
     (let old = position p;
          side = side_index (resp_side r);
          opp = side_index (if resp_side r = BUY then SELL else BUY);
          exec = fill_size r;
          px = to_double rnd (resp_price r);
          now = swrap 64 (old + swrap 64 (exec * side_value (resp_side r)));
          p1 = p\<lparr>position := now, volume := volume p + resp_executed_quantity r\<rparr> in
      bindE
        (if 0 \<le> swrap 64 (old * side_value (resp_side r)) then
           bindE (vwap_at side (open_vwap p1)) (\<lambda>v.
           bindE (set_vwap side (add_double rnd v (mul_double rnd px (to_double rnd exec))) (open_vwap p1)) (\<lambda>vw.
             Inr (p1\<lparr>open_vwap := vw\<rparr>)))
         else
           bindE (vwap_at opp (open_vwap p1)) (\<lambda>v.
           let opp_side_vwap = div_double rnd v (to_double rnd (abs64 old)) in
           bindE (set_vwap opp (mul_double rnd opp_side_vwap (to_double rnd (abs64 now))) (open_vwap p1)) (\<lambda>vw.
           let p2 = p1\<lparr>open_vwap := vw,
                 real_pnl := add_double rnd (real_pnl p1)
                   (mul_double rnd (mul_double rnd (to_double rnd (min exec (abs64 old))) (sub_double rnd opp_side_vwap px))
                      (to_double rnd (side_value (resp_side r))))\<rparr> in
           if swrap 64 (now * old) < 0 then
             bindE (set_vwap side (mul_double rnd px (to_double rnd (abs64 now))) (open_vwap p2)) (\<lambda>vw2.
             bindE (set_vwap opp (Fin 0) vw2) (\<lambda>vw3. Inr (p2\<lparr>open_vwap := vw3\<rparr>)))
           else Inr p2)))
        (\<lambda>p3. let p4 = (if position p3 = 0 then p3\<lparr>open_vwap := (Fin 0, Fin 0), unreal_pnl := Fin 0\<rparr>
                        else p3\<lparr>unreal_pnl := mark_position rnd px p3\<rparr>) in
              Inr (p4\<lparr>total_pnl := add_double rnd (unreal_pnl p4) (real_pnl p4)\<rparr>)))"

definition mid_price :: "rounding \<Rightarrow> BBO \<Rightarrow> double" where
  "mid_price rnd b = mul_double rnd (add_double rnd (to_double rnd (bid_price b)) (to_double rnd (ask_price b))) (Fin (1 / 2))"

definition position_updateBBO :: "rounding \<Rightarrow> BBO \<Rightarrow> PositionInfo \<Rightarrow> PositionInfo" where
  "position_updateBBO rnd b p =
     (let p1 = p\<lparr>pi_bbo := Some b\<rparr> in
      if position p1 \<noteq> 0 \<and> bid_qty b \<noteq> 0 \<and> ask_qty b \<noteq> 0 then
        let p2 = p1\<lparr>unreal_pnl := mark_position rnd (mid_price rnd b) p1\<rparr> in
        p2\<lparr>total_pnl := add_double rnd (unreal_pnl p2) (real_pnl p2)\<rparr>
      else p1)"

text \<open>\<open>PositionKeeper\<close>: the array over the symbols, read with \<open>at\<close>.\<close>

type_synonym PositionKeeper = "nat \<Rightarrow> PositionInfo"

definition new_PositionKeeper :: PositionKeeper where
  "new_PositionKeeper = (\<lambda>_. new_PositionInfo)"

definition keeper_addFill :: "rounding \<Rightarrow> MatchingEngineClientResponse \<Rightarrow> PositionKeeper \<Rightarrow> PositionKeeper result" where
  "keeper_addFill rnd r k =
     (let sy = unat (resp_symbol_id r) in
      if kMaxSymbols \<le> sy then Inl Out_Of_Range
      else bindE (addFill rnd r (k sy)) (\<lambda>p. Inr (k(sy := p))))"

definition keeper_updateBBO :: "rounding \<Rightarrow> SymbolId \<Rightarrow> BBO \<Rightarrow> PositionKeeper \<Rightarrow> PositionKeeper result" where
  "keeper_updateBBO rnd ticker b k =
     (let sy = unat ticker in
      if kMaxSymbols \<le> sy then Inl Out_Of_Range
      else Inr (k(sy := position_updateBBO rnd b (k sy))))"

definition getPositionInfo :: "SymbolId \<Rightarrow> PositionKeeper \<Rightarrow> PositionInfo result" where
  "getPositionInfo ticker k = (if kMaxSymbols \<le> unat ticker then Inl Out_Of_Range else Inr (k (unat ticker)))"

section \<open>Lemmas\<close>

lemma side_index_simps [simp]: "side_index BUY = 0" "side_index SELL = 1"
  by (simp_all add: side_index_def side_byte_def)

lemma side_value_simps [simp]: "side_value BUY = 1" "side_value SELL = - 1"
  by (simp_all add: side_value_def)

lemma vwap_simps [simp]:
  "vwap_at 0 v = Inr (fst v)" "vwap_at (Suc 0) v = Inr (snd v)"
  "set_vwap 0 x v = Inr (x, snd v)" "set_vwap (Suc 0) x v = Inr (fst v, x)"
  by (simp_all add: vwap_at_def set_vwap_def)

section \<open>The position is the sum of the fills\<close>

definition fill_delta :: "MatchingEngineClientResponse \<Rightarrow> int" where
  "fill_delta r = side_value (resp_side r) * fill_size r"

definition fill_side_ok :: "MatchingEngineClientResponse \<Rightarrow> bool" where
  "fill_side_ok r \<longleftrightarrow> resp_side r = BUY \<or> resp_side r = SELL"

lemma fill_size_bounds: "0 \<le> fill_size r" "fill_size r < 2 ^ 32"
proof -
  have "unat (resp_executed_quantity r) < 2 ^ 32" using unsigned_less [of "resp_executed_quantity r"] by simp
  then have "int (unat (resp_executed_quantity r)) < int (2 ^ 32)" by (simp only: of_nat_less_iff)
  then show "fill_size r < 2 ^ 32" by (simp add: fill_size_def)
qed (simp add: fill_size_def)

lemma swrap64_id: "\<bar>x\<bar> < 2 ^ 63 \<Longrightarrow> swrap 64 x = x"
  by (rule swrap_id) (simp_all add: abs_less_iff)

lemma addFill_position:
  assumes "fill_side_ok r" and "\<bar>position p\<bar> < 2 ^ 32"
  shows "\<exists>p'. addFill rnd r p = Inr p' \<and> position p' = position p + fill_delta r"
proof -
  have e: "0 \<le> fill_size r" "fill_size r < 2 ^ 32" by (fact fill_size_bounds)+
  have d: "\<bar>fill_size r * side_value (resp_side r)\<bar> < 2 ^ 63" "\<bar>position p * side_value (resp_side r)\<bar> < 2 ^ 63"
    "\<bar>position p + fill_size r * side_value (resp_side r)\<bar> < 2 ^ 63"
    using assms e by (auto simp: fill_side_ok_def)
  have now: "swrap 64 (position p + swrap 64 (fill_size r * side_value (resp_side r))) =
      position p + fill_delta r"
    using swrap64_id [OF d(1)] swrap64_id [OF d(3)] by (simp add: fill_delta_def mult.commute)
  show ?thesis
    using assms(1) unfolding addFill_def Let_def now by (auto simp: fill_side_ok_def)
qed

section \<open>Accounting without rounding\<close>

text \<open>The reference ledger: cash, position and the price the position is marked at.\<close>

datatype position_event = Fill MatchingEngineClientResponse | Quote BBO

fun position_step :: "rounding \<Rightarrow> position_event \<Rightarrow> PositionInfo \<Rightarrow> PositionInfo result" where
  "position_step rnd (Fill r) p = addFill rnd r p"
| "position_step rnd (Quote b) p = Inr (position_updateBBO rnd b p)"

fun position_run :: "rounding \<Rightarrow> position_event list \<Rightarrow> PositionInfo \<Rightarrow> PositionInfo result" where
  "position_run rnd [] p = Inr p"
| "position_run rnd (e # es) p = bindE (position_step rnd e p) (position_run rnd es)"

record ledger =
  cash :: rat
  held_position :: int
  mark_price :: rat

fun ledger_step :: "position_event \<Rightarrow> ledger \<Rightarrow> ledger" where
  "ledger_step (Fill r) l = \<lparr>cash = cash l - of_int (fill_delta r) * of_int (resp_price r),
     held_position = held_position l + fill_delta r, mark_price = of_int (resp_price r)\<rparr>"
| "ledger_step (Quote b) l = (if two_sided b then l\<lparr>mark_price := (of_int (bid_price b) + of_int (ask_price b)) / 2\<rparr> else l)"

definition new_ledger :: ledger where
  "new_ledger = \<lparr>cash = 0, held_position = 0, mark_price = 0\<rparr>"

definition ledger_run :: "position_event list \<Rightarrow> ledger" where
  "ledger_run es = fold ledger_step es new_ledger"

fun filled_quantity :: "position_event list \<Rightarrow> int" where
  "filled_quantity [] = 0"
| "filled_quantity (Fill r # es) = fill_size r + filled_quantity es"
| "filled_quantity (Quote b # es) = filled_quantity es"

fun event_ok :: "position_event \<Rightarrow> bool" where
  "event_ok (Fill r) \<longleftrightarrow> fill_side_ok r"
| "event_ok (Quote b) \<longleftrightarrow> True"

text \<open>The open cost on the side of the position, and what the books add up to.\<close>

definition accounts :: "PositionInfo \<Rightarrow> ledger \<Rightarrow> bool" where
  "accounts p l \<longleftrightarrow> held_position l = position p \<and> (\<exists>vb vs rl.
     open_vwap p = (Fin vb, Fin vs) \<and> real_pnl p = Fin rl \<and>
     total_pnl p = Fin (cash l + of_int (position p) * mark_price l) \<and>
     (0 < position p \<longrightarrow> rl = cash l + vb) \<and> (position p < 0 \<longrightarrow> rl = cash l - vs) \<and>
     (position p = 0 \<longrightarrow> rl = cash l \<and> vb = 0 \<and> vs = 0))"

lemma mark_exact:
  assumes "position p \<noteq> 0" and "\<bar>position p\<bar> < 2 ^ 63" and "open_vwap p = (Fin vb, Fin vs)"
  shows "mark_position Fin (Fin x) p = Fin (if 0 < position p then of_int (position p) * x - vb else vs + of_int (position p) * x)"
proof -
  have a: "abs64 (position p) = \<bar>position p\<bar>" unfolding abs64_def by (rule swrap64_id) (use assms(2) in simp)
  show ?thesis
  proof (cases "0 < position p")
    case True
    then have "(of_int (position p) :: rat) \<noteq> 0" by simp
    then show ?thesis using True assms(3) by (simp add: mark_position_def a left_diff_distrib right_diff_distrib mult.commute)
  next
    case False
    then have "\<bar>position p\<bar> = - position p" "(of_int (position p) :: rat) \<noteq> 0" using assms(1) by simp_all
    then show ?thesis using False assms(3) by (simp add: mark_position_def a algebra_simps)
  qed
qed

text \<open>The updated books of a fill, per branch; \<open>e\<close> is the size and \<open>x\<close> the price.\<close>

definition settled :: "rat \<Rightarrow> rat \<Rightarrow> rat \<Rightarrow> int \<Rightarrow> rat \<Rightarrow> PositionInfo \<Rightarrow> bool" where
  "settled vb vs rl now x p' \<longleftrightarrow> position p' = now \<and> real_pnl p' = Fin rl \<and>
     (if now = 0 then open_vwap p' = (Fin 0, Fin 0) \<and> total_pnl p' = Fin rl
      else open_vwap p' = (Fin vb, Fin vs) \<and>
        total_pnl p' = Fin ((if 0 < now then of_int now * x - vb else vs + of_int now * x) + rl))"

lemma fill_buy:
  assumes "resp_side r = BUY" and "\<bar>position p\<bar> < 2 ^ 31" and "\<bar>position p + fill_size r\<bar> < 2 ^ 31" and "fill_size r < 2 ^ 31"
    and "open_vwap p = (Fin vb, Fin vs)" and "real_pnl p = Fin rl"
  shows "\<exists>p'. addFill Fin r p = Inr p' \<and>
    (let old = position p; e = fill_size r; x = of_int (resp_price r); now = old + e in
     if 0 \<le> old then settled (vb + x * of_int e) vs rl now x p'
     else settled (if now > 0 then x * of_int now else vb)
       (if now > 0 then 0 else vs / of_int \<bar>old\<bar> * of_int \<bar>now\<bar>)
       (rl + of_int (min e \<bar>old\<bar>) * (vs / of_int \<bar>old\<bar> - x)) now x p')"
proof -
  let ?e = "fill_size r" and ?old = "position p"
  have e: "0 \<le> ?e" by (rule fill_size_bounds)
  have sw: "swrap 64 ?e = ?e" "swrap 64 (?old + ?e) = ?old + ?e" "swrap 64 ?old = ?old" "abs64 ?old = \<bar>?old\<bar>"
    "abs64 (?old + ?e) = \<bar>?old + ?e\<bar>"
    using assms(2-4) e by (simp_all add: abs64_def swrap64_id)
  have prod: "swrap 64 ((?old + ?e) * ?old) = (?old + ?e) * ?old"
  proof (rule swrap64_id)
    have "\<bar>(?old + ?e) * ?old\<bar> \<le> 2 ^ 31 * 2 ^ 31" unfolding abs_mult using assms(2,3) by (intro mult_mono) simp_all
    then show "\<bar>(?old + ?e) * ?old\<bar> < 2 ^ 63" by simp
  qed
  show ?thesis
  proof (cases "0 \<le> ?old")
    case True
    then show ?thesis
      using assms(1,5,6) e mark_exact [of "p\<lparr>position := ?old + ?e, volume := volume p + resp_executed_quantity r,
        open_vwap := (Fin (vb + of_int (resp_price r) * of_int ?e), Fin vs)\<rparr>"] assms(3)
      by (auto simp: addFill_def Let_def sw settled_def)
  next
    case False
    then have nz: "(of_int \<bar>?old\<bar> :: rat) \<noteq> 0" by simp
    have flip: "(?old + ?e) * ?old < 0 \<longleftrightarrow> 0 < ?old + ?e" using False by (simp add: mult_less_0_iff)
    show ?thesis
      using assms(1,5,6) False e nz assms(3)
      by (auto simp: addFill_def Let_def sw prod flip settled_def mark_exact)
  qed
qed

lemma fill_sell:
  assumes "resp_side r = SELL" and "\<bar>position p\<bar> < 2 ^ 31" and "\<bar>position p - fill_size r\<bar> < 2 ^ 31" and "fill_size r < 2 ^ 31"
    and "open_vwap p = (Fin vb, Fin vs)" and "real_pnl p = Fin rl"
  shows "\<exists>p'. addFill Fin r p = Inr p' \<and>
    (let old = position p; e = fill_size r; x = of_int (resp_price r); now = old - e in
     if old \<le> 0 then settled vb (vs + x * of_int e) rl now x p'
     else settled (if now < 0 then 0 else vb / of_int \<bar>old\<bar> * of_int \<bar>now\<bar>)
       (if now < 0 then x * of_int \<bar>now\<bar> else vs)
       (rl - of_int (min e \<bar>old\<bar>) * (vb / of_int \<bar>old\<bar> - x)) now x p')"
proof -
  let ?e = "fill_size r" and ?old = "position p"
  have e: "0 \<le> ?e" by (rule fill_size_bounds)
  have sw: "swrap 64 (- ?e) = - ?e" "swrap 64 (?old - ?e) = ?old - ?e" "swrap 64 (- ?old) = - ?old" "abs64 ?old = \<bar>?old\<bar>"
    "abs64 (?old - ?e) = \<bar>?old - ?e\<bar>"
    using assms(2-4) e by (simp_all add: abs64_def swrap64_id)
  have prod: "swrap 64 ((?old - ?e) * ?old) = (?old - ?e) * ?old"
  proof (rule swrap64_id)
    have "\<bar>(?old - ?e) * ?old\<bar> \<le> 2 ^ 31 * 2 ^ 31" unfolding abs_mult using assms(2,3) by (intro mult_mono) simp_all
    then show "\<bar>(?old - ?e) * ?old\<bar> < 2 ^ 63" by simp
  qed
  show ?thesis
  proof (cases "?old \<le> 0")
    case True
    then show ?thesis
      using assms(1,5,6) e assms(3) by (auto simp: addFill_def Let_def sw settled_def mark_exact)
  next
    case False
    then have nz: "(of_int \<bar>?old\<bar> :: rat) \<noteq> 0" by simp
    have flip: "(?old - ?e) * ?old < 0 \<longleftrightarrow> ?old - ?e < 0" using False by (simp add: mult_less_0_iff)
    show ?thesis
      using assms(1,5,6) False e nz assms(3)
      by (auto simp: addFill_def Let_def sw prod flip settled_def mark_exact)
  qed
qed

lemma settled_accounts:
  assumes "settled vb vs rl now x p'" and "held_position l = now" and "mark_price l = x"
    and "0 < now \<Longrightarrow> rl = cash l + vb" and "now < 0 \<Longrightarrow> rl = cash l - vs" and "now = 0 \<Longrightarrow> rl = cash l"
  shows "accounts p' l"
proof (cases "now = 0")
  case True
  then show ?thesis using assms by (simp add: settled_def accounts_def)
next
  case False
  then have "total_pnl p' = Fin (cash l + of_int now * x)" using assms by (cases "0 < now") (auto simp: settled_def)
  then show ?thesis using assms False by (simp add: settled_def accounts_def)
qed

lemma fill_accounts:
  assumes acc: "accounts p l" and side: "fill_side_ok r" and bound: "\<bar>position p\<bar> + fill_size r < 2 ^ 31"
  shows "\<exists>p'. addFill Fin r p = Inr p' \<and> accounts p' (ledger_step (Fill r) l)"
proof -
  obtain vb vs rl where a: "held_position l = position p" "open_vwap p = (Fin vb, Fin vs)" "real_pnl p = Fin rl"
    "0 < position p \<Longrightarrow> rl = cash l + vb" "position p < 0 \<Longrightarrow> rl = cash l - vs"
    "position p = 0 \<Longrightarrow> rl = cash l \<and> vb = 0 \<and> vs = 0"
    using acc by (auto simp: accounts_def)
  let ?x = "of_int (resp_price r) :: rat"
  have e: "0 \<le> fill_size r" by (rule fill_size_bounds)
  from side show ?thesis unfolding fill_side_ok_def
  proof
    assume b: "resp_side r = BUY"
    have bb: "\<bar>position p\<bar> < 2 ^ 31" "\<bar>position p + fill_size r\<bar> < 2 ^ 31" "fill_size r < 2 ^ 31" using bound e by simp_all
    obtain p' where p': "addFill Fin r p = Inr p'"
      "if 0 \<le> position p then settled (vb + ?x * of_int (fill_size r)) vs rl (position p + fill_size r) ?x p'
       else settled (if position p + fill_size r > 0 then ?x * of_int (position p + fill_size r) else vb)
         (if position p + fill_size r > 0 then 0 else vs / of_int \<bar>position p\<bar> * of_int \<bar>position p + fill_size r\<bar>)
         (rl + of_int (min (fill_size r) \<bar>position p\<bar>) * (vs / of_int \<bar>position p\<bar> - ?x)) (position p + fill_size r) ?x p'"
      using fill_buy [OF b bb a(2,3)] by (auto simp: Let_def)
    show ?thesis
    proof (cases "0 \<le> position p")
      case True
      then have "rl = cash l + vb" using a(4,6) by force
      with p' True a(1,6) b e show ?thesis
        by (auto intro!: settled_accounts simp: fill_delta_def algebra_simps)
    next
      case False
      have nz: "(of_int \<bar>position p\<bar> :: rat) \<noteq> 0" using False by simp
      have cancel: "vs / of_int \<bar>position p\<bar> * of_int \<bar>position p\<bar> = vs" using nz by simp
      have rl: "rl = cash l - vs" using a(5) False by simp
      define v where "v = vs / of_int \<bar>position p\<bar>"
      have vs: "vs = - v * of_int (position p)" using cancel False by (simp add: v_def)
      have zero: "v * of_int (position p) + v * of_int (fill_size r) = 0" if "position p + fill_size r = 0"
        unfolding distrib_left [symmetric] of_int_add [symmetric] that by simp
      from p' False a(1) b e rl show ?thesis unfolding v_def [symmetric]
        by (auto intro!: settled_accounts simp: fill_delta_def vs min_def algebra_simps zero)
    qed
  next
    assume b: "resp_side r = SELL"
    have bb: "\<bar>position p\<bar> < 2 ^ 31" "\<bar>position p - fill_size r\<bar> < 2 ^ 31" "fill_size r < 2 ^ 31" using bound e by simp_all
    obtain p' where p': "addFill Fin r p = Inr p'"
      "if position p \<le> 0 then settled vb (vs + ?x * of_int (fill_size r)) rl (position p - fill_size r) ?x p'
       else settled (if position p - fill_size r < 0 then 0 else vb / of_int \<bar>position p\<bar> * of_int \<bar>position p - fill_size r\<bar>)
         (if position p - fill_size r < 0 then ?x * of_int \<bar>position p - fill_size r\<bar> else vs)
         (rl - of_int (min (fill_size r) \<bar>position p\<bar>) * (vb / of_int \<bar>position p\<bar> - ?x)) (position p - fill_size r) ?x p'"
      using fill_sell [OF b bb a(2,3)] by (auto simp: Let_def)
    show ?thesis
    proof (cases "position p \<le> 0")
      case True
      then have "rl = cash l - vs" using a(5,6) by force
      with p' True a(1,6) b e show ?thesis
        by (auto intro!: settled_accounts simp: fill_delta_def algebra_simps)
    next
      case False
      have nz: "(of_int \<bar>position p\<bar> :: rat) \<noteq> 0" using False by simp
      have cancel: "vb / of_int \<bar>position p\<bar> * of_int \<bar>position p\<bar> = vb" using nz by simp
      have rl: "rl = cash l + vb" using a(4) False by simp
      define v where "v = vb / of_int \<bar>position p\<bar>"
      have vb: "vb = v * of_int (position p)" using cancel False by (simp add: v_def)
      from p' False a(1) b e rl show ?thesis unfolding v_def [symmetric]
        by (auto intro!: settled_accounts simp: fill_delta_def vb min_def algebra_simps)
    qed
  qed
qed

lemma quote_accounts:
  assumes acc: "accounts p l" and bound: "\<bar>position p\<bar> < 2 ^ 31"
  shows "accounts (position_updateBBO Fin b p) (ledger_step (Quote b) l)"
proof -
  obtain vb vs rl where a: "held_position l = position p" "open_vwap p = (Fin vb, Fin vs)" "real_pnl p = Fin rl"
    "0 < position p \<Longrightarrow> rl = cash l + vb" "position p < 0 \<Longrightarrow> rl = cash l - vs"
    "position p = 0 \<Longrightarrow> rl = cash l \<and> vb = 0 \<and> vs = 0" "total_pnl p = Fin (cash l + of_int (position p) * mark_price l)"
    using acc by (auto simp: accounts_def)
  have mid: "mid_price Fin b = Fin ((of_int (bid_price b) + of_int (ask_price b)) / 2)" by (simp add: mid_price_def)
  have wide: "\<bar>position p\<bar> < 2 ^ 63" using bound by simp
  show ?thesis
  proof (cases "position p = 0")
    case True
    then show ?thesis using a by (auto simp: position_updateBBO_def Let_def accounts_def)
  next
    case False
    have mark: "mark_position Fin (Fin x) (p\<lparr>pi_bbo := Some b\<rparr>) =
        Fin (if 0 < position p then of_int (position p) * x - vb else vs + of_int (position p) * x)" for x
      using mark_exact [of "p\<lparr>pi_bbo := Some b\<rparr>" vb vs x] False wide a(2) by simp
    show ?thesis
    proof (cases "two_sided b")
      case True
      then show ?thesis using a False mark by (auto simp: position_updateBBO_def Let_def accounts_def two_sided_def mid)
    next
      case no: False
      then show ?thesis using a False by (auto simp: position_updateBBO_def Let_def accounts_def two_sided_def)
    qed
  qed
qed

lemma filled_nonneg: "0 \<le> filled_quantity es"
  by (induction es rule: filled_quantity.induct) (simp_all add: fill_size_bounds add_nonneg_nonneg)

lemma fill_delta_abs: "\<bar>fill_delta r\<bar> \<le> fill_size r"
  using fill_size_bounds(1) [of r] by (simp add: fill_delta_def abs_mult side_value_def)

lemma run_accounts:
  assumes "accounts p l" and "\<forall>e \<in> set es. event_ok e" and "\<bar>position p\<bar> + filled_quantity es < 2 ^ 31"
  shows "\<exists>p'. position_run Fin es p = Inr p' \<and> accounts p' (fold ledger_step es l)"
  using assms
proof (induction es arbitrary: p l)
  case (Cons e es)
  show ?case
  proof (cases e)
    case (Fill r)
    have b: "\<bar>position p\<bar> + fill_size r < 2 ^ 31" using Cons.prems(3) filled_nonneg [of es] by (simp add: Fill)
    have side: "fill_side_ok r" using Cons.prems(2) by (simp add: Fill)
    obtain p1 where p1: "addFill Fin r p = Inr p1" "accounts p1 (ledger_step (Fill r) l)"
      using fill_accounts [OF Cons.prems(1) side b] by blast
    have "position p1 = position p + fill_delta r"
      using addFill_position [OF side, of p Fin] b fill_size_bounds(1) [of r] p1(1) by auto
    then have "\<bar>position p1\<bar> + filled_quantity es < 2 ^ 31"
      using Cons.prems(3) fill_delta_abs [of r] by (simp add: Fill)
    with Cons.IH [OF p1(2)] Cons.prems(2) p1(1) show ?thesis by (simp add: Fill)
  next
    case (Quote b)
    have "\<bar>position p\<bar> < 2 ^ 31" using Cons.prems(3) filled_nonneg [of es] by (simp add: Quote)
    from quote_accounts [OF Cons.prems(1) this] Cons.IH [of "position_updateBBO Fin b p"] Cons.prems(2,3)
    show ?thesis by (auto simp: Quote position_updateBBO_def Let_def)
  qed
qed simp

text \<open>C16: The bookkeeping of fills and quotes is right: computed without rounding, after any fills
  (opening, adding, reducing, closing and reversing the position) of less than \<open>2 ^ 31\<close> in total and
  any quotes, the position is the sum of the signed fills and the total profit is the cash the fills
  paid and earned plus the position valued at the last fill price or two-sided mid price.\<close>

theorem pnl_is_cash_plus_marked_position:
  assumes "\<forall>e \<in> set es. event_ok e" and "filled_quantity es < 2 ^ 31"
  shows "\<exists>p. position_run Fin es new_PositionInfo = Inr p \<and> position p = held_position (ledger_run es) \<and>
    total_pnl p = Fin (cash (ledger_run es) + of_int (position p) * mark_price (ledger_run es))"
proof -
  have "accounts new_PositionInfo new_ledger" by (simp add: accounts_def new_PositionInfo_def new_ledger_def)
  moreover have "\<bar>position new_PositionInfo\<bar> + filled_quantity es < 2 ^ 31"
    using assms(2) by (simp add: new_PositionInfo_def)
  ultimately obtain p where "position_run Fin es new_PositionInfo = Inr p" "accounts p (ledger_run es)"
    using run_accounts [OF _ assms(1)] unfolding ledger_run_def by blast
  then show ?thesis by (auto simp: accounts_def)
qed

definition example_fill :: "Side \<Rightarrow> Price \<Rightarrow> Quantity \<Rightarrow> MatchingEngineClientResponse" where
  "example_fill s px q = \<lparr>resp_type = RESP_FILLED, resp_client_id = 1, resp_symbol_id = 2, resp_client_order_id = 1,
     resp_market_order_id = 1, resp_side = s, resp_price = px, resp_executed_quantity = q, resp_remaining_quantity = 0\<rparr>"

definition example_trading :: "position_event list" where
  "example_trading = [Fill (example_fill BUY 100 10), Fill (example_fill BUY 90 10), Quote \<lparr>bid_price = 98, ask_price = 101, bid_qty = 1, ask_qty = 1\<rparr>,
     Fill (example_fill SELL 92 25), Fill (example_fill BUY 90 2)]"

theorem pnl_is_cash_plus_marked_position_witness:
  "\<exists>p. position_run Fin example_trading new_PositionInfo = Inr p \<and> position p = held_position (ledger_run example_trading) \<and>
    total_pnl p = Fin (cash (ledger_run example_trading) + of_int (position p) * mark_price (ledger_run example_trading))"
  by (rule pnl_is_cash_plus_marked_position)
    (simp_all add: example_trading_def example_fill_def fill_side_ok_def fill_size_def)

end
