(* ===== verification/Risk_Manager.thy ===== *)
theory Risk_Manager
  imports Position_Keeper
begin

text \<open>
  The trading configuration (\<open>trade_engine_config.h\<close>) and the pre-trade risk check
  (\<open>risk_manager.h\<close>, \<open>risk_manager.cpp\<close>). The pointer to a symbol's \<open>PositionInfo\<close> is its index
  in the position keeper, which the check takes as an argument.
\<close>

section \<open>Configuration\<close>

datatype AlgoType = ALGO_INVALID | ALGO_RANDOM | ALGO_MAKER | ALGO_TAKER

definition StringToAlgoType :: "string \<Rightarrow> AlgoType" where
  "StringToAlgoType s = (if s = ''RANDOM'' then ALGO_RANDOM else if s = ''MAKER'' then ALGO_MAKER
     else if s = ''TAKER'' then ALGO_TAKER else ALGO_INVALID)"

definition AlgoTypeToString :: "AlgoType \<Rightarrow> string" where
  "AlgoTypeToString t = (case t of ALGO_RANDOM \<Rightarrow> ''RANDOM'' | ALGO_MAKER \<Rightarrow> ''MAKER'' | ALGO_TAKER \<Rightarrow> ''TAKER''
     | ALGO_INVALID \<Rightarrow> ''INVALID'')"

lemma AlgoType_roundtrip: "StringToAlgoType (AlgoTypeToString t) = t"
  by (cases t) (simp_all add: StringToAlgoType_def AlgoTypeToString_def)

record RiskCfg =
  max_order_size :: Quantity
  max_position :: Quantity
  max_loss :: double

record TradeEngineCfg =
  cfg_clip :: Quantity
  cfg_threshold :: double
  cfg_risk :: RiskCfg

definition new_TradeEngineCfg :: TradeEngineCfg where
  "new_TradeEngineCfg = \<lparr>cfg_clip = 0, cfg_threshold = Fin 0,
     cfg_risk = \<lparr>max_order_size = 0, max_position = 0, max_loss = Fin 0\<rparr>\<rparr>"

type_synonym TradeEngineCfgHashMap = "nat \<Rightarrow> TradeEngineCfg"

section \<open>Risk check\<close>

datatype RiskCheckResult = RISK_INVALID | ORDER_TOO_LARGE | POSITION_TOO_LARGE | LOSS_TOO_LARGE | ALLOWED

definition riskCheckResultToString :: "RiskCheckResult \<Rightarrow> string" where
  "riskCheckResultToString r = (case r of RISK_INVALID \<Rightarrow> ''INVALID'' | ORDER_TOO_LARGE \<Rightarrow> ''ORDER_TOO_LARGE''
     | POSITION_TOO_LARGE \<Rightarrow> ''POSITION_TOO_LARGE'' | LOSS_TOO_LARGE \<Rightarrow> ''LOSS_TOO_LARGE'' | ALLOWED \<Rightarrow> ''ALLOWED'')"

record RiskInfo =
  position_info :: nat
  risk_cfg :: RiskCfg

definition risk_check :: "PositionInfo \<Rightarrow> RiskCfg \<Rightarrow> Side \<Rightarrow> Quantity \<Rightarrow> RiskCheckResult" where
  "risk_check pos cfg side qty =
     (if qty = 0 \<or> max_order_size cfg < qty then ORDER_TOO_LARGE
      else if int (unat (max_position cfg)) <
          abs64 (swrap 64 (position pos + swrap 64 (side_value side * int (unat qty)))) then POSITION_TOO_LARGE
      else if less_double (total_pnl pos) (max_loss cfg) then LOSS_TOO_LARGE
      else ALLOWED)"

text \<open>\<open>RiskManager\<close>: one entry per symbol, built from the keeper's pointers and the configuration.\<close>

type_synonym RiskManager = "nat \<Rightarrow> RiskInfo"

definition new_RiskManager :: "TradeEngineCfgHashMap \<Rightarrow> RiskManager" where
  "new_RiskManager cfg = (\<lambda>i. \<lparr>position_info = i, risk_cfg = cfg_risk (cfg i)\<rparr>)"

definition checkPreTradeRisk :: "PositionKeeper \<Rightarrow> RiskManager \<Rightarrow> SymbolId \<Rightarrow> Side \<Rightarrow> Quantity \<Rightarrow> RiskCheckResult result" where
  "checkPreTradeRisk k rm ticker side qty =
     (if kMaxSymbols \<le> unat ticker then Inl Out_Of_Range
      else let info = rm (unat ticker) in Inr (risk_check (k (position_info info)) (risk_cfg info) side qty))"

section \<open>What an allowed order guarantees\<close>

lemma int_unat_bound: "int (unat (w :: u32)) < 2 ^ 32"
proof -
  have "unat w < 2 ^ 32" using unsigned_less [of w] by simp
  then have "int (unat w) < int (2 ^ 32)" by (simp only: of_nat_less_iff)
  then show ?thesis by simp
qed

lemma risk_check_allowed:
  assumes "\<bar>position pos\<bar> < 2 ^ 32"
  shows "risk_check pos cfg side qty = ALLOWED \<longleftrightarrow>
    qty \<noteq> 0 \<and> qty \<le> max_order_size cfg \<and>
    \<bar>position pos + side_value side * int (unat qty)\<bar> \<le> int (unat (max_position cfg)) \<and>
    \<not> less_double (total_pnl pos) (max_loss cfg)"
proof -
  let ?q = "int (unat qty)"
  have q: "0 \<le> ?q" "?q < 2 ^ 32" using int_unat_bound [of qty] by simp_all
  have v: "side_value side = 1 \<or> side_value side = - 1" by (simp add: side_value_def)
  have "\<bar>side_value side * ?q\<bar> < 2 ^ 63" using v q by (auto simp del: of_nat_unat)
  moreover have "\<bar>position pos + side_value side * ?q\<bar> < 2 ^ 63" using v q assms by (auto simp del: of_nat_unat)
  ultimately have "abs64 (swrap 64 (position pos + swrap 64 (side_value side * ?q))) = \<bar>position pos + side_value side * ?q\<bar>"
    by (simp only: abs64_def swrap64_id abs_idempotent)
  then show ?thesis unfolding risk_check_def by (auto simp: not_less simp del: of_nat_unat)
qed

end
