(* ===== verification/Trading_Order_Manager.thy ===== *)
theory Trading_Order_Manager
  imports Risk_Manager Price_Levels
begin

text \<open>
  \<open>trading::OrderManager\<close> (\<open>trading/strategy/order_manager.h\<close>, \<open>order_manager.cpp\<close>, \<open>om_order.h\<close>):
  one order slot per symbol and side, moved by the strategies and updated by the exchange's
  responses. A pointer to an order is its place (symbol, side index). \<open>om_requests\<close> is the trade
  engine's outgoing queue, which \<open>sendClientRequest\<close> writes.
\<close>

section \<open>State\<close>

datatype OMOrderState = OM_INVALID | PENDING_NEW | LIVE | PENDING_CANCEL | DEAD

definition OMOrderStateToString :: "OMOrderState \<Rightarrow> string" where
  "OMOrderStateToString s = (case s of PENDING_NEW \<Rightarrow> ''PENDING_NEW'' | LIVE \<Rightarrow> ''LIVE'' | PENDING_CANCEL \<Rightarrow> ''PENDING_CANCEL''
     | DEAD \<Rightarrow> ''DEAD'' | OM_INVALID \<Rightarrow> ''INVALID'')"

record OMOrder =
  omo_ticker_id :: SymbolId
  omo_order_id :: OrderId
  omo_side :: Side
  omo_price :: Price
  omo_qty :: Quantity
  omo_state :: OMOrderState

definition new_OMOrder :: OMOrder where
  "new_OMOrder = \<lparr>omo_ticker_id = 0, omo_order_id = 0, omo_side = BUY, omo_price = 0, omo_qty = 0, omo_state = OM_INVALID\<rparr>"

definition om_order_toString :: "OMOrder \<Rightarrow> string" where
  "om_order_toString o' = ''OMOrder'' @ ''['' @
     ''tid:'' @ dec_word (omo_ticker_id o') @ '' '' @
     ''oid:'' @ dec_word (omo_order_id o') @ '' '' @
     ''side:'' @ dec_word (side_byte (omo_side o')) @ '' '' @
     ''price:'' @ decimal_int (omo_price o') @ '' '' @
     ''qty:'' @ dec_word (omo_qty o') @ '' '' @
     ''state:'' @ OMOrderStateToString (omo_state o') @ '']''"

type_synonym order_place = "nat \<times> nat"

record OrderManager =
  ticker_side_order :: "nat \<Rightarrow> nat \<Rightarrow> OMOrder"
  next_order_id :: OrderId
  om_requests :: "MatchingEngineClientRequest list"

definition new_OrderManager :: OrderManager where
  "new_OrderManager = \<lparr>ticker_side_order = (\<lambda>_ _. new_OMOrder), next_order_id = 1, om_requests = []\<rparr>"

definition order_at :: "order_place \<Rightarrow> OrderManager \<Rightarrow> OMOrder" where
  "order_at pl m = ticker_side_order m (fst pl) (snd pl)"

definition put_order :: "order_place \<Rightarrow> OMOrder \<Rightarrow> OrderManager \<Rightarrow> OrderManager" where
  "put_order pl x m = m\<lparr>ticker_side_order := (ticker_side_order m)(fst pl := (ticker_side_order m (fst pl))(snd pl := x))\<rparr>"

section \<open>Operations\<close>

definition sendClientRequest :: "MatchingEngineClientRequest \<Rightarrow> OrderManager \<Rightarrow> OrderManager" where
  "sendClientRequest r m = m\<lparr>om_requests := om_requests m @ [r]\<rparr>"

definition onOrderUpdate :: "MatchingEngineClientResponse \<Rightarrow> OrderManager \<Rightarrow> OrderManager result" where
  "onOrderUpdate r m =
     (if resp_type r = RESP_INVALID then Inr m
      else if kMaxSymbols \<le> unat (resp_symbol_id r) then Inl Out_Of_Range
      else
        let t = unat (resp_symbol_id r) in
        case find (\<lambda>j. omo_state (order_at (t, j) m) \<noteq> OM_INVALID \<and>
                       omo_order_id (order_at (t, j) m) = resp_client_order_id r) [0, 1] of
          None \<Rightarrow> Inr m
        | Some j \<Rightarrow>
            let o' = order_at (t, j) m in
            Inr (case resp_type r of
                RESP_ACCEPTED \<Rightarrow> put_order (t, j) (o'\<lparr>omo_state := LIVE\<rparr>) m
              | RESP_CANCELED \<Rightarrow> put_order (t, j) (o'\<lparr>omo_state := DEAD\<rparr>) m
              | RESP_FILLED \<Rightarrow>
                  let o2 = o'\<lparr>omo_qty := resp_remaining_quantity r\<rparr> in
                  put_order (t, j) (if omo_qty o2 = 0 then o2\<lparr>omo_state := DEAD\<rparr> else o2) m
              | RESP_CANCEL_REJECTED \<Rightarrow> put_order (t, j) (o'\<lparr>omo_state := DEAD\<rparr>) m
              | _ \<Rightarrow> m))"

definition newOrder :: "ClientId \<Rightarrow> order_place \<Rightarrow> SymbolId \<Rightarrow> Price \<Rightarrow> Side \<Rightarrow> Quantity \<Rightarrow> OrderManager \<Rightarrow> OrderManager result" where
  "newOrder client pl ticker price side qty m =
     bindE (ASSERT (unat (next_order_id m) < kMaxOrderIds) ''client order id beyond the exchange index range'') (\<lambda>_.
       let r = \<lparr>req_type = REQ_NEW, req_client_id = client, req_symbol_id = ticker, req_order_id = next_order_id m,
             req_side = side, req_price = price, req_quantity = qty\<rparr>;
           m1 = sendClientRequest r m;
           m2 = put_order pl \<lparr>omo_ticker_id = ticker, omo_order_id = next_order_id m1, omo_side = side, omo_price = price,
             omo_qty = qty, omo_state = PENDING_NEW\<rparr> m1 in
       Inr (m2\<lparr>next_order_id := next_order_id m2 + 1\<rparr>))"

definition cancelOrder :: "ClientId \<Rightarrow> order_place \<Rightarrow> OrderManager \<Rightarrow> OrderManager" where
  "cancelOrder client pl m =
     (let o' = order_at pl m;
          m1 = sendClientRequest \<lparr>req_type = REQ_CANCELED, req_client_id = client, req_symbol_id = omo_ticker_id o',
            req_order_id = omo_order_id o', req_side = omo_side o', req_price = omo_price o', req_quantity = omo_qty o'\<rparr> m in
      put_order pl (o'\<lparr>omo_state := PENDING_CANCEL\<rparr>) m1)"

text \<open>The price a strategy asks for, dropped when it is outside the price band.\<close>

definition quotable :: "Price option \<Rightarrow> Price option" where
  "quotable price = (case price of None \<Rightarrow> None
     | Some p \<Rightarrow> let band = kDefaultPriceBand in
         if p < base_price band \<or> tmod (swrap 64 (p - base_price band)) (tick_size band) \<noteq> 0 \<or> int kTickCount \<le> ToTick band p
         then None else Some p)"

definition moveOrder :: "ClientId \<Rightarrow> PositionKeeper \<Rightarrow> RiskManager \<Rightarrow> order_place \<Rightarrow> SymbolId \<Rightarrow> Price option \<Rightarrow> Side \<Rightarrow>
    Quantity \<Rightarrow> OrderManager \<Rightarrow> OrderManager result" where
  "moveOrder client k rm pl ticker price0 side qty m =
     (let price = quotable price0; o' = order_at pl m in
      case omo_state o' of
        LIVE \<Rightarrow> (case price of
            None \<Rightarrow> Inr (cancelOrder client pl m)
          | Some p \<Rightarrow> if omo_price o' \<noteq> p \<or> omo_qty o' \<noteq> qty then Inr (cancelOrder client pl m) else Inr m)
      | PENDING_NEW \<Rightarrow> Inr m
      | PENDING_CANCEL \<Rightarrow> Inr m
      | _ \<Rightarrow> (case price of
            None \<Rightarrow> Inr m
          | Some p \<Rightarrow> bindE (checkPreTradeRisk k rm ticker side qty) (\<lambda>risk_result.
              if risk_result = ALLOWED then newOrder client pl ticker p side qty m else Inr m)))"

definition moveOrders :: "ClientId \<Rightarrow> PositionKeeper \<Rightarrow> RiskManager \<Rightarrow> SymbolId \<Rightarrow> Price option \<Rightarrow> Price option \<Rightarrow> Quantity \<Rightarrow>
    OrderManager \<Rightarrow> OrderManager result" where
  "moveOrders client k rm ticker bid ask clip m =
     (if kMaxSymbols \<le> unat ticker then Inl Out_Of_Range
      else bindE (moveOrder client k rm (unat ticker, side_index BUY) ticker bid BUY clip m)
        (moveOrder client k rm (unat ticker, side_index SELL) ticker ask SELL clip))"

section \<open>Lemmas\<close>

lemma put_order_simps [simp]:
  "order_at pl (put_order pl x m) = x"
  "pl' \<noteq> pl \<Longrightarrow> order_at pl' (put_order pl x m) = order_at pl' m"
  "next_order_id (put_order pl x m) = next_order_id m" "om_requests (put_order pl x m) = om_requests m"
  by (auto simp: put_order_def order_at_def prod_eq_iff)

lemma order_at_other [simp]:
  "order_at pl (m\<lparr>next_order_id := n\<rparr>) = order_at pl m" "order_at pl (sendClientRequest r m) = order_at pl m"
  "next_order_id (sendClientRequest r m) = next_order_id m" "om_requests (sendClientRequest r m) = om_requests m @ [r]"
  by (simp_all add: order_at_def sendClientRequest_def)

lemma quotable_in_band: "quotable price = Some p \<Longrightarrow> price = Some p \<and> 0 \<le> p \<and> (p < 2 ^ 31 \<longrightarrow> p < int kTickCount)"
proof -
  assume q: "quotable price = Some p"
  then have p: "price = Some p" "0 \<le> p" "ToTick kDefaultPriceBand p < int kTickCount"
    by (auto simp: quotable_def Let_def kDefaultPriceBand_def not_le split: option.splits if_splits)
  have "p < int kTickCount" if "p < 2 ^ 31"
  proof -
    have "swrap 64 p = p" "swrap 32 p = p" using p(2) that by (simp_all add: swrap_id)
    then show ?thesis using p(2,3) by (simp add: ToTick_def kDefaultPriceBand_def tdiv_nonneg)
  qed
  with p show ?thesis by blast
qed

text \<open>The band check compares a tick truncated to 32 bits: a price far above the band passes.\<close>

lemma quotable_truncates: "quotable (Some (2 ^ 32)) = Some (2 ^ 32)" "\<not> 2 ^ 32 < int kTickCount"
proof -
  have "swrap 64 (2 ^ 32) = 2 ^ 32" "swrap 32 (2 ^ 32) = 0" by (simp_all add: swrap_def)
  then show "quotable (Some (2 ^ 32)) = Some (2 ^ 32)"
    by (simp add: quotable_def Let_def kDefaultPriceBand_def ToTick_def tdiv_nonneg tmod_def)
  show "\<not> 2 ^ 32 < int kTickCount" by (simp add: kTickCount_def kMaxPriceLevels_def)
qed

text \<open>What one \<open>moveOrder\<close> does: nothing, a cancel, or a new order the risk check allowed.\<close>

lemma moveOrder_cases:
  assumes "moveOrder client k rm pl ticker price side qty m = Inr m'"
  obtains (same) "m' = m"
    | (cancel) "omo_state (order_at pl m) = LIVE" "m' = cancelOrder client pl m"
    | (new) p where "omo_state (order_at pl m) = OM_INVALID \<or> omo_state (order_at pl m) = DEAD" "price = Some p" "quotable price = Some p"
        "checkPreTradeRisk k rm ticker side qty = Inr ALLOWED" "newOrder client pl ticker p side qty m = Inr m'"
proof (cases "omo_state (order_at pl m)")
  case OM_INVALID
  show ?thesis
  proof (cases "quotable price")
    case None
    then show ?thesis using assms OM_INVALID same by (simp add: moveOrder_def Let_def)
  next
    case (Some p)
    then show ?thesis using assms OM_INVALID same new [OF _ _ Some] quotable_in_band [OF Some]
      by (auto simp: moveOrder_def Let_def bindE_eq_Inr split: if_splits)
  qed
next
  case DEAD
  show ?thesis
  proof (cases "quotable price")
    case None
    then show ?thesis using assms DEAD same by (simp add: moveOrder_def Let_def)
  next
    case (Some p)
    then show ?thesis using assms DEAD same new [OF _ _ Some] quotable_in_band [OF Some]
      by (auto simp: moveOrder_def Let_def bindE_eq_Inr split: if_splits)
  qed
next
  case LIVE
  then show ?thesis using assms same cancel by (cases "quotable price") (auto simp: moveOrder_def Let_def split: if_splits)
qed (use assms same in \<open>simp_all add: moveOrder_def Let_def\<close>)

lemma newOrder_Inr:
  "newOrder client pl ticker p side qty m = Inr m' \<longleftrightarrow> unat (next_order_id m) < kMaxOrderIds \<and>
   m' = (put_order pl \<lparr>omo_ticker_id = ticker, omo_order_id = next_order_id m, omo_side = side, omo_price = p, omo_qty = qty,
       omo_state = PENDING_NEW\<rparr> (sendClientRequest \<lparr>req_type = REQ_NEW, req_client_id = client, req_symbol_id = ticker,
       req_order_id = next_order_id m, req_side = side, req_price = p, req_quantity = qty\<rparr> m))\<lparr>next_order_id := next_order_id m + 1\<rparr>"
  by (auto simp: newOrder_def ASSERT_def Let_def)

end
