(* ===== verification/Strategies.thy ===== *)
theory Strategies
  imports Trading_Order_Manager
begin

text \<open>
  The feature engine (\<open>feature_engine.h\<close>) and the two strategies (\<open>market_maker.h\<close>,
  \<open>liquidity_taker.h\<close>). A strategy is its handlers: what it reads is the feature engine, the best
  bid and offer of the book and the configuration, what it changes is the order manager.
\<close>

section \<open>Feature engine\<close>

record FeatureEngine =
  mkt_price :: double
  agg_trade_qty_ratio :: double

definition Feature_INVALID :: double where "Feature_INVALID = NaN"

definition new_FeatureEngine :: FeatureEngine where
  "new_FeatureEngine = \<lparr>mkt_price = Feature_INVALID, agg_trade_qty_ratio = Feature_INVALID\<rparr>"

definition qty_double :: "rounding \<Rightarrow> Quantity \<Rightarrow> double" where
  "qty_double rnd q = to_double rnd (int (unat q))"

definition feature_onOrderBookUpdate :: "rounding \<Rightarrow> BBO \<Rightarrow> FeatureEngine \<Rightarrow> FeatureEngine" where
  "feature_onOrderBookUpdate rnd bbo f =
     (if bid_qty bbo \<noteq> 0 \<and> ask_qty bbo \<noteq> 0 then
        f\<lparr>mkt_price := div_double rnd
            (add_double rnd (mul_double rnd (to_double rnd (bid_price bbo)) (qty_double rnd (ask_qty bbo)))
                            (mul_double rnd (to_double rnd (ask_price bbo)) (qty_double rnd (bid_qty bbo))))
            (add_double rnd (qty_double rnd (bid_qty bbo)) (qty_double rnd (ask_qty bbo)))\<rparr>
      else f\<lparr>mkt_price := Feature_INVALID\<rparr>)"

definition feature_onTradeUpdate :: "rounding \<Rightarrow> MatchingEngineMarketUpdate \<Rightarrow> BBO \<Rightarrow> FeatureEngine \<Rightarrow> FeatureEngine" where
  "feature_onTradeUpdate rnd u bbo f =
     (if bid_qty bbo \<noteq> 0 \<and> ask_qty bbo \<noteq> 0 then
        f\<lparr>agg_trade_qty_ratio := div_double rnd (qty_double rnd (mu_quantity u))
            (qty_double rnd (if mu_side u = BUY then ask_qty bbo else bid_qty bbo))\<rparr>
      else f\<lparr>agg_trade_qty_ratio := Feature_INVALID\<rparr>)"

definition getMktPrice :: "FeatureEngine \<Rightarrow> double" where "getMktPrice f = mkt_price f"

definition getAggTradeQtyRatio :: "FeatureEngine \<Rightarrow> double" where "getAggTradeQtyRatio f = agg_trade_qty_ratio f"

definition ticker_cfg :: "TradeEngineCfgHashMap \<Rightarrow> SymbolId \<Rightarrow> TradeEngineCfg result" where
  "ticker_cfg cfg ticker = (if kMaxSymbols \<le> unat ticker then Inl Out_Of_Range else Inr (cfg (unat ticker)))"

section \<open>Market maker\<close>

text \<open>The prices the market maker quotes around the fair price.\<close>

definition maker_bid :: "rounding \<Rightarrow> double \<Rightarrow> double \<Rightarrow> BBO \<Rightarrow> Price" where
  "maker_bid rnd fair threshold bbo = swrap 64 (bid_price bbo -
     (if geq_double (sub_double rnd fair (to_double rnd (bid_price bbo))) threshold then 0 else 1))"

definition maker_ask :: "rounding \<Rightarrow> double \<Rightarrow> double \<Rightarrow> BBO \<Rightarrow> Price" where
  "maker_ask rnd fair threshold bbo = swrap 64 (ask_price bbo +
     (if geq_double (sub_double rnd (to_double rnd (ask_price bbo)) fair) threshold then 0 else 1))"

definition maker_onOrderBookUpdate :: "rounding \<Rightarrow> ClientId \<Rightarrow> TradeEngineCfgHashMap \<Rightarrow> FeatureEngine \<Rightarrow> PositionKeeper \<Rightarrow>
    RiskManager \<Rightarrow> SymbolId \<Rightarrow> BBO \<Rightarrow> OrderManager \<Rightarrow> OrderManager result" where
  "maker_onOrderBookUpdate rnd client cfg f k rm ticker bbo m =
     (let fair = getMktPrice f in
      if bid_qty bbo \<noteq> 0 \<and> ask_qty bbo \<noteq> 0 \<and> is_finite fair then
        bindE (ticker_cfg cfg ticker) (\<lambda>c.
          moveOrders client k rm ticker (Some (maker_bid rnd fair (cfg_threshold c) bbo))
            (Some (maker_ask rnd fair (cfg_threshold c) bbo)) (cfg_clip c) m)
      else Inr m)"

definition maker_onTradeUpdate :: "MatchingEngineMarketUpdate \<Rightarrow> OrderManager \<Rightarrow> OrderManager result" where
  "maker_onTradeUpdate u m = Inr m"

definition maker_onOrderUpdate :: "MatchingEngineClientResponse \<Rightarrow> OrderManager \<Rightarrow> OrderManager result" where
  "maker_onOrderUpdate r m = onOrderUpdate r m"

section \<open>Liquidity taker\<close>

definition taker_onOrderBookUpdate :: "SymbolId \<Rightarrow> OrderManager \<Rightarrow> OrderManager result" where
  "taker_onOrderBookUpdate ticker m = Inr m"

definition taker_onTradeUpdate :: "ClientId \<Rightarrow> TradeEngineCfgHashMap \<Rightarrow> FeatureEngine \<Rightarrow> PositionKeeper \<Rightarrow> RiskManager \<Rightarrow>
    MatchingEngineMarketUpdate \<Rightarrow> BBO \<Rightarrow> OrderManager \<Rightarrow> OrderManager result" where
  "taker_onTradeUpdate client cfg f k rm u bbo m =
     (let ratio = getAggTradeQtyRatio f in
      if bid_qty bbo \<noteq> 0 \<and> ask_qty bbo \<noteq> 0 \<and> is_finite ratio then
        bindE (ticker_cfg cfg (mu_symbol_id u)) (\<lambda>c.
          if geq_double ratio (cfg_threshold c) then
            (if mu_side u = BUY then moveOrders client k rm (mu_symbol_id u) (Some (ask_price bbo)) None (cfg_clip c) m
             else moveOrders client k rm (mu_symbol_id u) None (Some (bid_price bbo)) (cfg_clip c) m)
          else Inr m)
      else Inr m)"

definition taker_onOrderUpdate :: "MatchingEngineClientResponse \<Rightarrow> OrderManager \<Rightarrow> OrderManager result" where
  "taker_onOrderUpdate r m = onOrderUpdate r m"

section \<open>What the features are\<close>

text \<open>Without rounding the market price is the mean of both prices weighted with the opposite
  quantities, so it lies between them.\<close>

lemma qty_exact [simp]: "qty_double Fin q = Fin (of_nat (unat q))"
  by (simp add: qty_double_def)

lemma market_price_between:
  assumes "two_sided bbo" and "bid_price bbo \<le> ask_price bbo"
  obtains p where "mkt_price (feature_onOrderBookUpdate Fin bbo f) = Fin p" "of_int (bid_price bbo) \<le> p" "p \<le> of_int (ask_price bbo)"
proof -
  define a b x y :: rat where "a = unsigned (bid_qty bbo)" and "b = unsigned (ask_qty bbo)"
    and "x = of_int (bid_price bbo)" and "y = of_int (ask_price bbo)"
  have "0 < unat (bid_qty bbo)" "0 < unat (ask_qty bbo)" using assms(1) by (simp_all add: two_sided_def unat_pos_iff)
  then have "0 < (of_nat (unat (bid_qty bbo)) :: rat)" "0 < (of_nat (unat (ask_qty bbo)) :: rat)" by (simp_all only: of_nat_0_less_iff)
  then have pos: "0 < a" "0 < b" by (simp_all add: a_def b_def)
  have xy: "x \<le> y" using assms(2) by (simp add: x_def y_def)
  have q: "bid_qty bbo \<noteq> 0" "ask_qty bbo \<noteq> 0" using assms(1) by (auto simp: two_sided_def)
  have "mkt_price (feature_onOrderBookUpdate Fin bbo f) = Fin ((x * b + y * a) / (a + b))"
    using q pos by (simp add: feature_onOrderBookUpdate_def a_def [symmetric] b_def [symmetric] x_def [symmetric] y_def [symmetric])
  moreover have "x * (a + b) \<le> x * b + y * a" "x * b + y * a \<le> y * (a + b)"
    using xy pos by (simp_all add: algebra_simps mult_right_mono)
  ultimately show ?thesis using that pos x_def y_def by (simp add: pos_le_divide_eq pos_divide_le_eq)
qed

section \<open>What the market maker quotes\<close>

lemma maker_prices:
  assumes "\<bar>bid_price bbo\<bar> < 2 ^ 62" and "\<bar>ask_price bbo\<bar> < 2 ^ 62"
  shows "maker_bid rnd fair th bbo \<in> {bid_price bbo - 1, bid_price bbo}" "maker_ask rnd fair th bbo \<in> {ask_price bbo, ask_price bbo + 1}"
  using assms by (auto simp: maker_bid_def maker_ask_def swrap64_id)

text \<open>What one \<open>moveOrder\<close> sends: nothing, a cancel, or a new order the risk check allowed.\<close>

lemma moveOrder_sends:
  assumes "moveOrder client k rm pl ticker price side qty m = Inr m'"
  shows "om_requests m' = om_requests m \<or> (\<exists>r. om_requests m' = om_requests m @ [r] \<and>
    (req_type r = REQ_CANCELED \<or>
     req_type r = REQ_NEW \<and> req_symbol_id r = ticker \<and> req_side r = side \<and> req_quantity r = qty \<and>
     price = Some (req_price r) \<and> quotable price = price \<and> req_order_id r = next_order_id m \<and>
     checkPreTradeRisk k rm ticker side qty = Inr ALLOWED))"
  using assms
proof (cases rule: moveOrder_cases)
  case same
  then show ?thesis by simp
next
  case cancel
  then show ?thesis by (simp add: cancelOrder_def Let_def)
next
  case (new p)
  then show ?thesis by (simp add: newOrder_Inr)
qed

text \<open>C15: The market maker never quotes through the market: on a book with both sides, the bid
  below the ask, every new order its handler sends is at the best price of its side or one behind
  it, so its buys are priced below the best ask and its sells above the best bid; whatever the
  rounding of the arithmetic and whatever the fair price and the threshold are.\<close>

theorem market_maker_stays_passive:
  assumes "maker_onOrderBookUpdate rnd client cfg f k rm ticker bbo m = Inr m'"
    and "bid_price bbo < ask_price bbo" and "\<bar>bid_price bbo\<bar> < 2 ^ 62" and "\<bar>ask_price bbo\<bar> < 2 ^ 62"
    and "r \<in> set (drop (length (om_requests m)) (om_requests m'))" and "req_type r = REQ_NEW"
  shows "req_symbol_id r = ticker \<and>
    (req_side r = BUY \<and> bid_price bbo - 1 \<le> req_price r \<and> req_price r \<le> bid_price bbo \<or>
     req_side r = SELL \<and> ask_price bbo \<le> req_price r \<and> req_price r \<le> ask_price bbo + 1)"
proof (cases "bid_qty bbo \<noteq> 0 \<and> ask_qty bbo \<noteq> 0 \<and> is_finite (getMktPrice f)")
  case False
  then show ?thesis using assms(1,5) by (auto simp: maker_onOrderBookUpdate_def Let_def)
next
  case True
  then obtain c :: TradeEngineCfg and m1 where c: "moveOrder client k rm (unat ticker, 0) ticker
        (Some (maker_bid rnd (getMktPrice f) (cfg_threshold c) bbo)) BUY (cfg_clip c) m = Inr m1"
      "moveOrder client k rm (unat ticker, Suc 0) ticker
        (Some (maker_ask rnd (getMktPrice f) (cfg_threshold c) bbo)) SELL (cfg_clip c) m1 = Inr m'"
    using assms(1) by (auto simp: maker_onOrderBookUpdate_def Let_def bindE_eq_Inr moveOrders_def split: if_splits)
  note px = maker_prices [OF assms(3,4), of rnd "getMktPrice f" "cfg_threshold c"]
  let ?new = "\<lambda>s p r. req_type r = REQ_CANCELED \<or> req_symbol_id r = ticker \<and> req_side r = s \<and> req_price r = p"
  have sends: "\<exists>rs. om_requests m' = om_requests m @ rs \<and>
      (\<forall>r \<in> set rs. ?new BUY (maker_bid rnd (getMktPrice f) (cfg_threshold c) bbo) r \<or>
        ?new SELL (maker_ask rnd (getMktPrice f) (cfg_threshold c) bbo) r)"
    using moveOrder_sends [OF c(1)] moveOrder_sends [OF c(2)] by auto
  then have "?new BUY (maker_bid rnd (getMktPrice f) (cfg_threshold c) bbo) r \<or>
      ?new SELL (maker_ask rnd (getMktPrice f) (cfg_threshold c) bbo) r"
    using assms(5) by auto
  then show ?thesis using px assms(6) by auto
qed

text \<open>A market maker of client 1 on symbol 2, with a clip of 5 and room for a position of 10.\<close>

definition example_cfg :: TradeEngineCfgHashMap where
  "example_cfg = (\<lambda>_. \<lparr>cfg_clip = 5, cfg_threshold = Fin 1,
     cfg_risk = \<lparr>max_order_size = 5, max_position = 10, max_loss = Fin (- 1000)\<rparr>\<rparr>)"

definition example_quote :: BBO where
  "example_quote = \<lparr>bid_price = 100, ask_price = 104, bid_qty = 3, ask_qty = 5\<rparr>"

abbreviation example_features :: FeatureEngine where
  "example_features \<equiv> feature_onOrderBookUpdate Fin example_quote new_FeatureEngine"

lemma example_prices:
  "getMktPrice example_features = Fin (203 / 2)" "maker_bid Fin (Fin (203 / 2)) (Fin 1) example_quote = 100"
  "maker_ask Fin (Fin (203 / 2)) (Fin 1) example_quote = 104"
  by (simp_all add: getMktPrice_def feature_onOrderBookUpdate_def example_quote_def maker_bid_def maker_ask_def geq_double_def
      eq_double_def swrap_def)

lemma example_allowed:
  assumes "position (k 2) = 0" and "total_pnl (k 2) = Fin 0"
  shows "checkPreTradeRisk k (new_RiskManager example_cfg) 2 BUY 5 = Inr ALLOWED"
    "checkPreTradeRisk k (new_RiskManager example_cfg) 2 SELL 5 = Inr ALLOWED"
  using assms by (simp_all add: checkPreTradeRisk_def new_RiskManager_def example_cfg_def risk_check_allowed kMaxSymbols_def)

lemma quotable_small:
  assumes "0 \<le> p" and "p < int kTickCount"
  shows "quotable (Some p) = Some p"
proof -
  have p: "p < 2 ^ 31" using assms(2) by (simp add: kTickCount_def kMaxPriceLevels_def)
  then have "swrap 64 p = p" "swrap 32 p = p" using assms(1) by (simp_all add: swrap_id)
  then show ?thesis
    using assms by (simp add: quotable_def Let_def kDefaultPriceBand_def ToTick_def tdiv_nonneg tmod_def)
qed

lemma example_quotable: "quotable (Some 100) = Some 100" "quotable (Some 104) = Some 104"
  by (simp_all add: quotable_small kTickCount_def kMaxPriceLevels_def)

lemma moveOrder_new:
  assumes "omo_state (order_at pl m) = OM_INVALID \<or> omo_state (order_at pl m) = DEAD" and "quotable price = Some p"
    and "checkPreTradeRisk k rm ticker side qty = Inr ALLOWED"
  shows "moveOrder client k rm pl ticker price side qty m = newOrder client pl ticker p side qty m"
  using assms by (auto simp: moveOrder_def Let_def)

text \<open>Its quotes, and the order manager after them.\<close>

definition maker_request :: "OrderId \<Rightarrow> Side \<Rightarrow> Price \<Rightarrow> MatchingEngineClientRequest" where
  "maker_request oid s p = \<lparr>req_type = REQ_NEW, req_client_id = 1, req_symbol_id = 2, req_order_id = oid, req_side = s, req_price = p,
     req_quantity = 5\<rparr>"

definition example_om_order :: "OrderId \<Rightarrow> Side \<Rightarrow> Price \<Rightarrow> OMOrder" where
  "example_om_order oid s p = \<lparr>omo_ticker_id = 2, omo_order_id = oid, omo_side = s, omo_price = p, omo_qty = 5, omo_state = PENDING_NEW\<rparr>"

definition example_bid :: OrderManager where
  "example_bid = (put_order (2, 0) (example_om_order 1 BUY 100) (sendClientRequest (maker_request 1 BUY 100) new_OrderManager))
     \<lparr>next_order_id := 2\<rparr>"

definition example_quoted :: OrderManager where
  "example_quoted = (put_order (2, 1) (example_om_order 2 SELL 104) (sendClientRequest (maker_request 2 SELL 104) example_bid))
     \<lparr>next_order_id := 3\<rparr>"

lemma new_OrderManager_simps:
  "omo_state (order_at pl new_OrderManager) = OM_INVALID" "next_order_id new_OrderManager = 1" "om_requests new_OrderManager = []"
  by (simp_all add: order_at_def new_OrderManager_def new_OMOrder_def)

lemma example_quoted_simps:
  "om_requests example_quoted = [maker_request 1 BUY 100, maker_request 2 SELL 104]"
  "order_at (2, 0) example_quoted = example_om_order 1 BUY 100" "order_at (2, 1) example_quoted = example_om_order 2 SELL 104"
  by (simp_all add: example_quoted_def example_bid_def new_OrderManager_simps)

lemma example_maker_run:
  assumes "position (k 2) = 0" and "total_pnl (k 2) = Fin 0" and "getMktPrice f = Fin (203 / 2)"
  shows "maker_onOrderBookUpdate Fin 1 example_cfg f k (new_RiskManager example_cfg) 2 example_quote new_OrderManager = Inr example_quoted"
proof -
  let ?rm = "new_RiskManager example_cfg"
  note ok = example_allowed [of k, OF assms(1,2)]
  have bid: "moveOrder 1 k ?rm (2, 0) 2 (Some 100) BUY 5 new_OrderManager = Inr example_bid"
    using moveOrder_new [OF _ example_quotable(1) ok(1), of "(2, 0)" new_OrderManager 1]
    by (simp add: new_OrderManager_simps newOrder_Inr example_bid_def example_om_order_def maker_request_def kMaxOrderIds_def)
  have "moveOrder 1 k ?rm (2, 1) 2 (Some 104) SELL 5 example_bid = Inr example_quoted"
    using moveOrder_new [OF _ example_quotable(2) ok(2), of "(2, 1)" example_bid 1]
    by (simp add: new_OrderManager_simps newOrder_Inr example_quoted_def example_bid_def example_om_order_def maker_request_def kMaxOrderIds_def)
  with bid have "moveOrders 1 k ?rm 2 (Some 100) (Some 104) 5 new_OrderManager = Inr example_quoted"
    by (simp add: moveOrders_def kMaxSymbols_def)
  moreover have "ticker_cfg example_cfg 2 = Inr (example_cfg 2)" "cfg_clip (example_cfg 2) = 5" "cfg_threshold (example_cfg 2) = Fin 1"
    by (simp_all add: ticker_cfg_def example_cfg_def kMaxSymbols_def)
  moreover have "bid_qty example_quote \<noteq> 0" "ask_qty example_quote \<noteq> 0" by (simp_all add: example_quote_def)
  ultimately show ?thesis
    unfolding maker_onOrderBookUpdate_def Let_def assms(3) by (simp add: example_prices(2,3) is_finite_def)
qed

theorem market_maker_stays_passive_witness:
  "\<exists>m'. maker_onOrderBookUpdate Fin 1 example_cfg example_features new_PositionKeeper (new_RiskManager example_cfg) 2
        example_quote new_OrderManager = Inr m' \<and> map req_price (om_requests m') = [100, 104] \<and>
     (\<forall>r \<in> set (om_requests m'). req_type r = REQ_NEW \<longrightarrow> req_side r = BUY \<longrightarrow> req_price r \<le> 100)"
proof -
  have run: "maker_onOrderBookUpdate Fin 1 example_cfg example_features new_PositionKeeper (new_RiskManager example_cfg) 2
      example_quote new_OrderManager = Inr example_quoted"
    by (rule example_maker_run) (simp_all add: new_PositionKeeper_def new_PositionInfo_def example_prices(1))
  have "req_price r \<le> 100" if r: "r \<in> set (om_requests example_quoted)" "req_type r = REQ_NEW" "req_side r = BUY" for r
    using market_maker_stays_passive [OF run _ _ _ _ r(2)] r by (simp add: example_quote_def new_OrderManager_simps)
  then show ?thesis using run by (auto simp: example_quoted_simps maker_request_def)
qed

end
