(* ===== verification/Trade_Engine.thy ===== *)
theory Trade_Engine
  imports Strategies Market_Order_Book
begin

text \<open>
  \<open>trading::TradeEngine\<close> (\<open>trade_engine.h\<close>, \<open>trade_engine.cpp\<close>): the books, the feature engine,
  the position keeper, the risk manager and the order manager of one client, and the handlers that
  wire them to the strategy its \<open>AlgoType\<close> names. The callbacks the strategies install are a case
  distinction on that type. The incoming queues are their contents; the outgoing queue is
  \<open>om_requests\<close> of the order manager. \<open>rnd\<close> is the rounding of the arithmetic.
\<close>

section \<open>State\<close>

record TradeEngine =
  te_client_id :: ClientId
  te_algo :: AlgoType
  te_cfg :: TradeEngineCfgHashMap
  ticker_order_book :: "nat \<Rightarrow> MarketOrderBook"
  te_responses :: "MatchingEngineClientResponse list"
  te_updates :: "MatchingEngineMarketUpdate list"
  te_stopping :: bool
  feature_engine :: FeatureEngine
  position_keeper :: PositionKeeper
  risk_manager :: RiskManager
  order_manager :: OrderManager

definition new_TradeEngine :: "bool \<Rightarrow> ClientId \<Rightarrow> AlgoType \<Rightarrow> TradeEngineCfgHashMap \<Rightarrow> TradeEngine" where
  "new_TradeEngine debug client algo cfg = \<lparr>te_client_id = client, te_algo = algo, te_cfg = cfg,
     ticker_order_book = (\<lambda>i. new_MarketOrderBook debug (of_nat i)), te_responses = [], te_updates = [], te_stopping = False,
     feature_engine = new_FeatureEngine, position_keeper = new_PositionKeeper, risk_manager = new_RiskManager cfg,
     order_manager = new_OrderManager\<rparr>"

section \<open>The strategy's callbacks\<close>

definition algoOnOrderBookUpdate :: "rounding \<Rightarrow> SymbolId \<Rightarrow> BBO \<Rightarrow> TradeEngine \<Rightarrow> OrderManager result" where
  "algoOnOrderBookUpdate rnd ticker bbo te = (case te_algo te of
       ALGO_MAKER \<Rightarrow> maker_onOrderBookUpdate rnd (te_client_id te) (te_cfg te) (feature_engine te) (position_keeper te)
         (risk_manager te) ticker bbo (order_manager te)
     | ALGO_TAKER \<Rightarrow> taker_onOrderBookUpdate ticker (order_manager te)
     | _ \<Rightarrow> Inr (order_manager te))"

definition algoOnTradeUpdate :: "MatchingEngineMarketUpdate \<Rightarrow> BBO \<Rightarrow> TradeEngine \<Rightarrow> OrderManager result" where
  "algoOnTradeUpdate u bbo te = (case te_algo te of
       ALGO_MAKER \<Rightarrow> maker_onTradeUpdate u (order_manager te)
     | ALGO_TAKER \<Rightarrow> taker_onTradeUpdate (te_client_id te) (te_cfg te) (feature_engine te) (position_keeper te)
         (risk_manager te) u bbo (order_manager te)
     | _ \<Rightarrow> Inr (order_manager te))"

definition algoOnOrderUpdate :: "MatchingEngineClientResponse \<Rightarrow> TradeEngine \<Rightarrow> OrderManager result" where
  "algoOnOrderUpdate r te = (case te_algo te of
       ALGO_MAKER \<Rightarrow> maker_onOrderUpdate r (order_manager te)
     | ALGO_TAKER \<Rightarrow> taker_onOrderUpdate r (order_manager te)
     | _ \<Rightarrow> Inr (order_manager te))"

section \<open>Handlers\<close>

definition engine_onOrderBookUpdate :: "rounding \<Rightarrow> SymbolId \<Rightarrow> BBO \<Rightarrow> TradeEngine \<Rightarrow> TradeEngine result" where
  "engine_onOrderBookUpdate rnd ticker bbo te =
     bindE (keeper_updateBBO rnd ticker bbo (position_keeper te)) (\<lambda>k.
     let te1 = te\<lparr>position_keeper := k\<rparr>;
         te2 = te1\<lparr>feature_engine := feature_onOrderBookUpdate rnd bbo (feature_engine te1)\<rparr> in
     if te_stopping te2 then Inr te2
     else bindE (algoOnOrderBookUpdate rnd ticker bbo te2) (\<lambda>m. Inr (te2\<lparr>order_manager := m\<rparr>)))"

definition engine_onTradeUpdate :: "rounding \<Rightarrow> MatchingEngineMarketUpdate \<Rightarrow> BBO \<Rightarrow> TradeEngine \<Rightarrow> TradeEngine result" where
  "engine_onTradeUpdate rnd u bbo te =
     (let te1 = te\<lparr>feature_engine := feature_onTradeUpdate rnd u bbo (feature_engine te)\<rparr> in
      if te_stopping te1 then Inr te1
      else bindE (algoOnTradeUpdate u bbo te1) (\<lambda>m. Inr (te1\<lparr>order_manager := m\<rparr>)))"

definition engine_onOrderUpdate :: "rounding \<Rightarrow> MatchingEngineClientResponse \<Rightarrow> TradeEngine \<Rightarrow> TradeEngine result" where
  "engine_onOrderUpdate rnd r te =
     bindE (if resp_type r = RESP_FILLED
            then bindE (keeper_addFill rnd r (position_keeper te)) (\<lambda>k. Inr (te\<lparr>position_keeper := k\<rparr>))
            else Inr te)
       (\<lambda>te1. bindE (algoOnOrderUpdate r te1) (\<lambda>m. Inr (te1\<lparr>order_manager := m\<rparr>)))"

text \<open>A market update: the symbol's book takes it and calls the engine back.\<close>

definition engine_onMarketUpdate :: "rounding \<Rightarrow> MatchingEngineMarketUpdate \<Rightarrow> TradeEngine \<Rightarrow> TradeEngine result" where
  "engine_onMarketUpdate rnd u te =
     bindE (ASSERT (unat (mu_symbol_id u) < kMaxSymbols) ''Unknown ticker-id on update'') (\<lambda>_.
     let i = unat (mu_symbol_id u) in
     bindE (onMarketUpdate u (ticker_order_book te i)) (\<lambda>(notice, b).
     let te1 = te\<lparr>ticker_order_book := (ticker_order_book te)(i := b)\<rparr> in
     case notice of
       No_Notice \<Rightarrow> Inr te1
     | Trade_Notice \<Rightarrow> engine_onTradeUpdate rnd u (mb_bbo b) te1
     | Book_Notice \<Rightarrow> engine_onOrderBookUpdate rnd (mu_symbol_id u) (mb_bbo b) te1))"

section \<open>The main loop\<close>

fun drain_responses :: "rounding \<Rightarrow> MatchingEngineClientResponse list \<Rightarrow> TradeEngine \<Rightarrow> TradeEngine result" where
  "drain_responses rnd [] te = Inr (te\<lparr>te_responses := []\<rparr>)"
| "drain_responses rnd (r # rs) te = bindE (engine_onOrderUpdate rnd r te) (\<lambda>te1. drain_responses rnd rs (te1\<lparr>te_responses := rs\<rparr>))"

fun drain_updates :: "rounding \<Rightarrow> MatchingEngineMarketUpdate list \<Rightarrow> TradeEngine \<Rightarrow> TradeEngine result" where
  "drain_updates rnd [] te = Inr (te\<lparr>te_updates := []\<rparr>)"
| "drain_updates rnd (u # us) te = bindE (engine_onMarketUpdate rnd u te) (\<lambda>te1. drain_updates rnd us (te1\<lparr>te_updates := us\<rparr>))"

text \<open>One iteration of the loop in \<open>run\<close>.\<close>

definition engine_pass :: "rounding \<Rightarrow> TradeEngine \<Rightarrow> TradeEngine result" where
  "engine_pass rnd te = bindE (drain_responses rnd (te_responses te) te) (\<lambda>te1. drain_updates rnd (te_updates te1) te1)"

end
