(* ===== verification/Trading_Safety.thy ===== *)
theory Trading_Safety
  imports Trade_Engine
begin

text \<open>
  The trade engine against the exchange: an engine, the requests and responses in flight, and the
  orders live at the exchange. What the exchange may answer is its contract: it accepts a new order,
  fills a live order with at most what it has left, and answers a cancel with the order's end or,
  when the order is gone, a rejection. Market updates are arbitrary. In every state such a system
  reaches, the positions stay within the configured limits.
\<close>

section \<open>The system\<close>

type_synonym live_orders = "OrderId \<rightharpoonup> SymbolId \<times> Side \<times> Quantity"

definition take_request :: "TradeEngine \<Rightarrow> TradeEngine" where
  "take_request te = te\<lparr>order_manager := (order_manager te)\<lparr>om_requests := tl (om_requests (order_manager te))\<rparr>\<rparr>"

definition respond :: "MatchingEngineClientResponse \<Rightarrow> TradeEngine \<Rightarrow> TradeEngine" where
  "respond r te = te\<lparr>te_responses := te_responses te @ [r]\<rparr>"

definition answer :: "ClientResponseType \<Rightarrow> ClientId \<Rightarrow> SymbolId \<Rightarrow> OrderId \<Rightarrow> OrderId \<Rightarrow> Side \<Rightarrow> Price \<Rightarrow> Quantity \<Rightarrow> Quantity \<Rightarrow>
    MatchingEngineClientResponse" where
  "answer ty client sy coid moid side price executed remaining = \<lparr>resp_type = ty, resp_client_id = client, resp_symbol_id = sy,
     resp_client_order_id = coid, resp_market_order_id = moid, resp_side = side, resp_price = price,
     resp_executed_quantity = executed, resp_remaining_quantity = remaining\<rparr>"

inductive trading_reach :: "rounding \<Rightarrow> bool \<Rightarrow> ClientId \<Rightarrow> AlgoType \<Rightarrow> TradeEngineCfgHashMap \<Rightarrow> TradeEngine \<Rightarrow> live_orders \<Rightarrow> bool"
  for rnd debug client algo cfg where
  start: "trading_reach rnd debug client algo cfg (new_TradeEngine debug client algo cfg) (\<lambda>_. None)"
| market: "trading_reach rnd debug client algo cfg te live \<Longrightarrow> engine_onMarketUpdate rnd u te = Inr te' \<Longrightarrow>
    trading_reach rnd debug client algo cfg te' live"
| response: "trading_reach rnd debug client algo cfg te live \<Longrightarrow> te_responses te = r # rs \<Longrightarrow>
    engine_onOrderUpdate rnd r te = Inr te' \<Longrightarrow> trading_reach rnd debug client algo cfg (te'\<lparr>te_responses := rs\<rparr>) live"
| accept: "trading_reach rnd debug client algo cfg te live \<Longrightarrow> om_requests (order_manager te) = q # qs \<Longrightarrow> req_type q = REQ_NEW \<Longrightarrow>
    trading_reach rnd debug client algo cfg
      (respond (answer RESP_ACCEPTED (req_client_id q) (req_symbol_id q) (req_order_id q) moid (req_side q) (req_price q) 0 (req_quantity q))
        (take_request te)) (live(req_order_id q \<mapsto> (req_symbol_id q, req_side q, req_quantity q)))"
| cancel: "trading_reach rnd debug client algo cfg te live \<Longrightarrow> om_requests (order_manager te) = q # qs \<Longrightarrow> req_type q = REQ_CANCELED \<Longrightarrow>
    live (req_order_id q) = Some (sy, s, n) \<Longrightarrow> trading_reach rnd debug client algo cfg
      (respond (answer RESP_CANCELED (req_client_id q) (req_symbol_id q) (req_order_id q) moid s px 0 n) (take_request te))
      (live(req_order_id q := None))"
| reject: "trading_reach rnd debug client algo cfg te live \<Longrightarrow> om_requests (order_manager te) = q # qs \<Longrightarrow> req_type q = REQ_CANCELED \<Longrightarrow>
    live (req_order_id q) = None \<Longrightarrow> trading_reach rnd debug client algo cfg
      (respond (answer RESP_CANCEL_REJECTED (req_client_id q) (req_symbol_id q) (req_order_id q) 0 Side_zero 0 0 0) (take_request te)) live"
| fill: "trading_reach rnd debug client algo cfg te live \<Longrightarrow> live oid = Some (sy, s, n) \<Longrightarrow> 0 < e \<Longrightarrow> e \<le> n \<Longrightarrow>
    trading_reach rnd debug client algo cfg (respond (answer RESP_FILLED client sy oid moid s px e (n - e)) te)
      (live(oid := if n - e = 0 then None else Some (sy, s, n - e)))"
| stop: "trading_reach rnd debug client algo cfg te live \<Longrightarrow> trading_reach rnd debug client algo cfg (te\<lparr>te_stopping := True\<rparr>) live"

section \<open>What the client knows of an order\<close>

definition places :: "order_place set" where "places = {(t, j). t < kMaxSymbols \<and> j < 2}"

definition side_of :: "nat \<Rightarrow> Side" where "side_of j = (if j = 0 then BUY else SELL)"

definition used :: "OMOrder \<Rightarrow> bool" where "used x \<longleftrightarrow> omo_state x \<noteq> OM_INVALID"

definition working :: "OMOrder \<Rightarrow> bool" where "working x \<longleftrightarrow> omo_state x = PENDING_NEW \<or> omo_state x = LIVE \<or> omo_state x = PENDING_CANCEL"

lemma working_used: "working x \<Longrightarrow> used x"
  by (auto simp: working_def used_def)

text \<open>
  The responses in flight for one order, from what the client thinks is open (\<open>None\<close>: the order is
  over) to what is open at the exchange.
\<close>

fun follows :: "nat \<Rightarrow> Side \<Rightarrow> Quantity option \<Rightarrow> MatchingEngineClientResponse list \<Rightarrow> Quantity option \<Rightarrow> bool" where
  "follows t s q [] e \<longleftrightarrow> q = e"
| "follows t s q (r # rs) e \<longleftrightarrow> unat (resp_symbol_id r) = t \<and> (case resp_type r of
      RESP_ACCEPTED \<Rightarrow> q \<noteq> None \<and> follows t s q rs e
    | RESP_FILLED \<Rightarrow> resp_side r = s \<and>
        q = Some (resp_executed_quantity r + resp_remaining_quantity r) \<and>
        unat (resp_executed_quantity r) + unat (resp_remaining_quantity r) < 2 ^ 32 \<and>
        follows t s (if resp_remaining_quantity r = 0 then None else Some (resp_remaining_quantity r)) rs e
    | RESP_CANCELED \<Rightarrow> q \<noteq> None \<and> follows t s None rs e
    | RESP_CANCEL_REJECTED \<Rightarrow> q = None \<and> follows t s None rs e
    | _ \<Rightarrow> False)"

lemma walk_append: "follows t s q (rs @ rs') e \<longleftrightarrow> (\<exists>e'. follows t s q rs e' \<and> follows t s e' rs' e)"
  by (induction t s q rs e arbitrary: rule: follows.induct) (auto split: ClientResponseType.splits)

lemma walk_over: "follows t s None rs e \<Longrightarrow> e = None \<and> (\<forall>r \<in> set rs. resp_type r = RESP_CANCEL_REJECTED)"
  by (induction rs) (auto split: ClientResponseType.splits)

definition answers :: "OrderId \<Rightarrow> MatchingEngineClientResponse list \<Rightarrow> MatchingEngineClientResponse list" where
  "answers oid rs = filter (\<lambda>r. resp_client_order_id r = oid) rs"

lemma answers_simps [simp]:
  "answers oid [] = []" "answers oid (rs @ rs') = answers oid rs @ answers oid rs'"
  "answers oid (r # rs) = (if resp_client_order_id r = oid then r # answers oid rs else answers oid rs)"
  by (simp_all add: answers_def)

definition open_at :: "live_orders \<Rightarrow> OrderId \<Rightarrow> Quantity option" where
  "open_at live oid = map_option (\<lambda>(_, _, n). n) (live oid)"

definition pending_new :: "OrderManager \<Rightarrow> OrderId \<Rightarrow> bool" where
  "pending_new m oid \<longleftrightarrow> (\<exists>q \<in> set (om_requests m). req_type q = REQ_NEW \<and> req_order_id q = oid)"

text \<open>The order at a place, its answers in flight and the exchange agree.\<close>

definition tracked :: "order_place \<Rightarrow> OMOrder \<Rightarrow> MatchingEngineClientResponse list \<Rightarrow> live_orders \<Rightarrow> bool" where
  "tracked pl x rs live \<longleftrightarrow> follows (fst pl) (side_of (snd pl)) (Some (omo_qty x)) (answers (omo_order_id x) rs) (open_at live (omo_order_id x)) \<and>
     (\<forall>sy s n. live (omo_order_id x) = Some (sy, s, n) \<longrightarrow> unat sy = fst pl \<and> s = side_of (snd pl))"

definition slots_right :: "OrderManager \<Rightarrow> bool" where
  "slots_right m \<longleftrightarrow> (\<forall>pl \<in> places. used (order_at pl m) \<longrightarrow> omo_order_id (order_at pl m) < next_order_id m \<and>
      unat (omo_ticker_id (order_at pl m)) = fst pl \<and> omo_side (order_at pl m) = side_of (snd pl)) \<and>
    (\<forall>pl \<in> places. \<forall>pl' \<in> places. used (order_at pl m) \<longrightarrow> used (order_at pl' m) \<longrightarrow>
      omo_order_id (order_at pl m) = omo_order_id (order_at pl' m) \<longrightarrow> pl = pl')"

fun requests_right :: "MatchingEngineClientRequest list \<Rightarrow> bool" where
  "requests_right [] \<longleftrightarrow> True"
| "requests_right (q # qs) \<longleftrightarrow> (req_type q = REQ_NEW \<or> req_type q = REQ_CANCELED) \<and>
     (\<forall>p \<in> set qs. req_type p = REQ_NEW \<longrightarrow> req_order_id p \<noteq> req_order_id q) \<and> requests_right qs"

definition new_request_right :: "OrderManager \<Rightarrow> MatchingEngineClientResponse list \<Rightarrow> live_orders \<Rightarrow> MatchingEngineClientRequest \<Rightarrow> bool" where
  "new_request_right m rs live q \<longleftrightarrow> live (req_order_id q) = None \<and> answers (req_order_id q) rs = [] \<and>
     (\<exists>pl \<in> places. working (order_at pl m) \<and> omo_order_id (order_at pl m) = req_order_id q \<and> omo_qty (order_at pl m) = req_quantity q \<and>
        unat (req_symbol_id q) = fst pl \<and> req_side q = side_of (snd pl))"

definition cancel_request_right :: "OrderManager \<Rightarrow> MatchingEngineClientRequest \<Rightarrow> bool" where
  "cancel_request_right m q \<longleftrightarrow>
     (\<forall>pl \<in> places. used (order_at pl m) \<longrightarrow> omo_order_id (order_at pl m) = req_order_id q \<longrightarrow> unat (req_symbol_id q) = fst pl)"

definition orders_right :: "OrderManager \<Rightarrow> MatchingEngineClientResponse list \<Rightarrow> live_orders \<Rightarrow> bool" where
  "orders_right m rs live \<longleftrightarrow> slots_right m \<and> requests_right (om_requests m) \<and>
     (\<forall>q \<in> set (om_requests m). req_order_id q < next_order_id m \<and>
        (if req_type q = REQ_NEW then new_request_right m rs live q else cancel_request_right m q)) \<and>
     (\<forall>r \<in> set rs. resp_client_order_id r < next_order_id m) \<and>
     (\<forall>pl \<in> places. working (order_at pl m) \<longrightarrow> \<not> pending_new m (omo_order_id (order_at pl m)) \<longrightarrow> tracked pl (order_at pl m) rs live) \<and>
     (\<forall>oid. (\<forall>pl \<in> places. working (order_at pl m) \<longrightarrow> omo_order_id (order_at pl m) \<noteq> oid) \<longrightarrow>
        live oid = None \<and> (\<forall>r \<in> set (answers oid rs). resp_type r = RESP_CANCEL_REJECTED))"

lemma orders_rightD:
  assumes "orders_right m rs live"
  shows "slots_right m" "requests_right (om_requests m)"
    "\<And>q. q \<in> set (om_requests m) \<Longrightarrow> req_order_id q < next_order_id m"
    "\<And>q. q \<in> set (om_requests m) \<Longrightarrow> req_type q = REQ_NEW \<Longrightarrow> new_request_right m rs live q"
    "\<And>q. q \<in> set (om_requests m) \<Longrightarrow> req_type q \<noteq> REQ_NEW \<Longrightarrow> cancel_request_right m q"
    "\<And>r. r \<in> set rs \<Longrightarrow> resp_client_order_id r < next_order_id m"
    "\<And>pl. pl \<in> places \<Longrightarrow> working (order_at pl m) \<Longrightarrow> \<not> pending_new m (omo_order_id (order_at pl m)) \<Longrightarrow> tracked pl (order_at pl m) rs live"
    "\<And>oid. (\<And>pl. pl \<in> places \<Longrightarrow> working (order_at pl m) \<Longrightarrow> omo_order_id (order_at pl m) \<noteq> oid) \<Longrightarrow>
        live oid = None \<and> (\<forall>r \<in> set (answers oid rs). resp_type r = RESP_CANCEL_REJECTED)"
  using assms unfolding orders_right_def by metis+

lemma orders_rightI:
  assumes "slots_right m" "requests_right (om_requests m)"
    "\<And>q. q \<in> set (om_requests m) \<Longrightarrow> req_order_id q < next_order_id m"
    "\<And>q. q \<in> set (om_requests m) \<Longrightarrow> req_type q = REQ_NEW \<Longrightarrow> new_request_right m rs live q"
    "\<And>q. q \<in> set (om_requests m) \<Longrightarrow> req_type q \<noteq> REQ_NEW \<Longrightarrow> cancel_request_right m q"
    "\<And>r. r \<in> set rs \<Longrightarrow> resp_client_order_id r < next_order_id m"
    "\<And>pl. pl \<in> places \<Longrightarrow> working (order_at pl m) \<Longrightarrow> \<not> pending_new m (omo_order_id (order_at pl m)) \<Longrightarrow> tracked pl (order_at pl m) rs live"
    "\<And>oid. (\<And>pl. pl \<in> places \<Longrightarrow> working (order_at pl m) \<Longrightarrow> omo_order_id (order_at pl m) \<noteq> oid) \<Longrightarrow>
        live oid = None \<and> (\<forall>r \<in> set (answers oid rs). resp_type r = RESP_CANCEL_REJECTED)"
  shows "orders_right m rs live"
  unfolding orders_right_def
proof (intro conjI ballI allI)
  show "(\<forall>pl \<in> places. working (order_at pl m) \<longrightarrow> omo_order_id (order_at pl m) \<noteq> oid) \<longrightarrow>
      live oid = None \<and> (\<forall>r \<in> set (answers oid rs). resp_type r = RESP_CANCEL_REJECTED)" for oid
    using assms(8) [of oid] by blast
qed (use assms(1-7) in simp_all)

lemma slots_rightD:
  assumes "slots_right m"
  shows "pl \<in> places \<Longrightarrow> used (order_at pl m) \<Longrightarrow> omo_order_id (order_at pl m) < next_order_id m"
    "pl \<in> places \<Longrightarrow> used (order_at pl m) \<Longrightarrow> unat (omo_ticker_id (order_at pl m)) = fst pl"
    "pl \<in> places \<Longrightarrow> used (order_at pl m) \<Longrightarrow> omo_side (order_at pl m) = side_of (snd pl)"
    "pl \<in> places \<Longrightarrow> pl' \<in> places \<Longrightarrow> used (order_at pl m) \<Longrightarrow> used (order_at pl' m) \<Longrightarrow>
      omo_order_id (order_at pl m) = omo_order_id (order_at pl' m) \<Longrightarrow> pl = pl'"
  using assms unfolding slots_right_def by simp_all


section \<open>Sending requests keeps the orders right\<close>

lemma requests_right_append:
  "requests_right (qs @ [q]) \<longleftrightarrow> requests_right qs \<and> (req_type q = REQ_NEW \<or> req_type q = REQ_CANCELED) \<and>
     (req_type q = REQ_NEW \<longrightarrow> (\<forall>p \<in> set qs. req_order_id p \<noteq> req_order_id q))"
  by (induction qs) auto

lemma pending_new_simps:
  "pending_new (put_order pl x m) = pending_new m" "pending_new (m\<lparr>next_order_id := n\<rparr>) = pending_new m"
  "pending_new (sendClientRequest q m) oid \<longleftrightarrow> pending_new m oid \<or> req_type q = REQ_NEW \<and> req_order_id q = oid"
  by (auto simp: pending_new_def)

text \<open>Two managers that agree on what is used and working, on the ids and on the sizes.\<close>

definition matching :: "OMOrder \<Rightarrow> OMOrder \<Rightarrow> bool" where
  "matching x y \<longleftrightarrow> used y = used x \<and> working y = working x \<and> omo_order_id y = omo_order_id x \<and>
     omo_ticker_id y = omo_ticker_id x \<and> omo_side y = omo_side x \<and> omo_qty y = omo_qty x"

definition matches_orders :: "OrderManager \<Rightarrow> OrderManager \<Rightarrow> bool" where
  "matches_orders m m' \<longleftrightarrow> (\<forall>pl. matching (order_at pl m) (order_at pl m'))"

lemma matches_ordersD:
  assumes "matches_orders m m'"
  shows "used (order_at pl m') = used (order_at pl m)" "working (order_at pl m') = working (order_at pl m)"
    "omo_order_id (order_at pl m') = omo_order_id (order_at pl m)" "omo_ticker_id (order_at pl m') = omo_ticker_id (order_at pl m)"
    "omo_side (order_at pl m') = omo_side (order_at pl m)" "omo_qty (order_at pl m') = omo_qty (order_at pl m)"
proof -
  have "matching (order_at pl m) (order_at pl m')" using assms unfolding matches_orders_def by blast
  then show "used (order_at pl m') = used (order_at pl m)" "working (order_at pl m') = working (order_at pl m)"
    "omo_order_id (order_at pl m') = omo_order_id (order_at pl m)" "omo_ticker_id (order_at pl m') = omo_ticker_id (order_at pl m)"
    "omo_side (order_at pl m') = omo_side (order_at pl m)" "omo_qty (order_at pl m') = omo_qty (order_at pl m)"
    by (simp_all add: matching_def)
qed

lemma matching_refl [simp]: "matching x x"
  by (simp add: matching_def)

lemma matching_trans: "matching x y \<Longrightarrow> matching y z \<Longrightarrow> matching x z"
  by (simp add: matching_def)

lemma matches_orders_put:
  assumes "matching (order_at pl m) x"
  shows "matches_orders m (put_order pl x m)"
  unfolding matches_orders_def
proof
  fix p
  show "matching (order_at p m) (order_at p (put_order pl x m))" using assms by (cases "p = pl") simp_all
qed

lemma matches_orders_trans: "matches_orders m m1 \<Longrightarrow> matches_orders m1 m2 \<Longrightarrow> matches_orders m m2"
  unfolding matches_orders_def by (blast intro: matching_trans)

lemma matches_orders_slots: "matches_orders m m' \<Longrightarrow> next_order_id m' = next_order_id m \<Longrightarrow> slots_right m' = slots_right m"
  by (simp add: slots_right_def matches_ordersD)

lemma matches_orders_tracked: "matches_orders m m' \<Longrightarrow> tracked pl (order_at pl m') rs live = tracked pl (order_at pl m) rs live"
  by (simp add: tracked_def matches_ordersD)

lemma matches_orders_new: "matches_orders m m' \<Longrightarrow> new_request_right m' rs live q = new_request_right m rs live q"
  by (simp add: new_request_right_def matches_ordersD)

lemma matches_orders_cancel: "matches_orders m m' \<Longrightarrow> cancel_request_right m' q = cancel_request_right m q"
  by (simp add: cancel_request_right_def matches_ordersD)

lemma matches_orders_right:
  assumes "matches_orders m m'" "next_order_id m' = next_order_id m" "om_requests m' = om_requests m"
  shows "orders_right m' rs live = orders_right m rs live"
  using assms(2,3)
  by (simp add: orders_right_def matches_orders_slots [OF assms(1)] matches_orders_tracked [OF assms(1)] matches_orders_new [OF assms(1)]
      matches_orders_cancel [OF assms(1)] matches_ordersD [OF assms(1)] pending_new_def)

lemma cancel_orders_right:
  assumes ok: "orders_right m rs live" and pl: "pl \<in> places" and live: "omo_state (order_at pl m) = LIVE"
  shows "orders_right (cancelOrder client pl m) rs live" "matches_orders m (cancelOrder client pl m)"
proof -
  let ?x = "order_at pl m"
  define q where "q = \<lparr>req_type = REQ_CANCELED, req_client_id = client, req_symbol_id = omo_ticker_id ?x,
    req_order_id = omo_order_id ?x, req_side = omo_side ?x, req_price = omo_price ?x, req_quantity = omo_qty ?x\<rparr>"
  define m1 where "m1 = sendClientRequest q m"
  have eq: "cancelOrder client pl m = put_order pl (?x\<lparr>omo_state := PENDING_CANCEL\<rparr>) m1"
    by (simp add: cancelOrder_def Let_def q_def m1_def)
  have u: "used ?x" using live by (simp add: used_def)
  note s = slots_rightD [OF orders_rightD(1) [OF ok]]
  have qs: "req_type q = REQ_CANCELED" "req_order_id q = omo_order_id ?x" by (simp_all add: q_def)
  have same: "matches_orders m m1" by (simp add: matches_orders_def m1_def)
  have pn: "pending_new m1 oid = pending_new m oid" for oid by (simp add: m1_def pending_new_simps qs)
  have cr: "cancel_request_right m q"
    using s(2,4) [OF pl] u by (force simp: cancel_request_right_def q_def)
  have "orders_right m1 rs live"
  proof (rule orders_rightI)
    show "slots_right m1" using orders_rightD(1) [OF ok] matches_orders_slots [OF same] by (simp add: m1_def)
    show "requests_right (om_requests m1)" using orders_rightD(2) [OF ok] by (simp add: m1_def requests_right_append qs)
    show "req_order_id p < next_order_id m1" if "p \<in> set (om_requests m1)" for p
      using that orders_rightD(3) [OF ok] s(1) [OF pl u] qs by (auto simp: m1_def)
    show "new_request_right m1 rs live p" if "p \<in> set (om_requests m1)" "req_type p = REQ_NEW" for p
      unfolding matches_orders_new [OF same] using that orders_rightD(4) [OF ok] qs by (auto simp: m1_def)
    show "cancel_request_right m1 p" if "p \<in> set (om_requests m1)" "req_type p \<noteq> REQ_NEW" for p
      unfolding matches_orders_cancel [OF same] using that orders_rightD(5) [OF ok] cr by (auto simp: m1_def)
    show "resp_client_order_id r < next_order_id m1" if "r \<in> set rs" for r
      using that orders_rightD(6) [OF ok] by (simp add: m1_def)
    show "tracked p (order_at p m1) rs live"
      if "p \<in> places" "working (order_at p m1)" "\<not> pending_new m1 (omo_order_id (order_at p m1))" for p
      using that orders_rightD(7) [OF ok] by (simp add: matches_ordersD [OF same] matches_orders_tracked [OF same] pn)
    show "live oid = None \<and> (\<forall>r \<in> set (answers oid rs). resp_type r = RESP_CANCEL_REJECTED)"
      if "\<And>p. p \<in> places \<Longrightarrow> working (order_at p m1) \<Longrightarrow> omo_order_id (order_at p m1) \<noteq> oid" for oid
      by (rule orders_rightD(8) [OF ok]) (use that in \<open>simp add: matches_ordersD [OF same]\<close>)
  qed
  moreover have put: "matches_orders m1 (put_order pl (?x\<lparr>omo_state := PENDING_CANCEL\<rparr>) m1)"
    by (rule matches_orders_put) (simp add: matching_def m1_def used_def working_def live)
  ultimately show "orders_right (cancelOrder client pl m) rs live"
    using matches_orders_right [OF put] by (simp add: eq)
  show "matches_orders m (cancelOrder client pl m)"
    using matches_orders_trans [OF same put] by (simp add: eq)
qed


lemma new_orders_right:
  assumes ok: "orders_right m rs live" and pl: "pl \<in> places" and free: "\<not> working (order_at pl m)"
    and fits: "unat ticker = fst pl" "side = side_of (snd pl)"
    and new: "newOrder client pl ticker p side qty m = Inr m'"
  shows "orders_right m' rs live" "order_at pl m' = \<lparr>omo_ticker_id = ticker, omo_order_id = next_order_id m, omo_side = side, omo_price = p,
      omo_qty = qty, omo_state = PENDING_NEW\<rparr>" "\<And>pl'. pl' \<noteq> pl \<Longrightarrow> order_at pl' m' = order_at pl' m"
proof -
  let ?id = "next_order_id m"
  define x where "x = \<lparr>omo_ticker_id = ticker, omo_order_id = ?id, omo_side = side, omo_price = p, omo_qty = qty, omo_state = PENDING_NEW\<rparr>"
  define q where "q = \<lparr>req_type = REQ_NEW, req_client_id = client, req_symbol_id = ticker, req_order_id = ?id,
    req_side = side, req_price = p, req_quantity = qty\<rparr>"
  have m': "m' = (put_order pl x (sendClientRequest q m))\<lparr>next_order_id := ?id + 1\<rparr>" and room: "unat ?id < kMaxOrderIds"
    using new by (simp_all add: newOrder_Inr x_def q_def)
  have at: "order_at pl m' = x" by (simp add: m')
  have other: "order_at pl' m' = order_at pl' m" if "pl' \<noteq> pl" for pl' using that by (simp add: m')
  have reqs: "om_requests m' = om_requests m @ [q]" and nxt: "next_order_id m' = ?id + 1" by (simp_all add: m')
  have "unat (?id + 1) = unat ?id + 1" using unat_add_lem [of ?id 1] room by (simp add: kMaxOrderIds_def)
  then have up: "i < ?id \<Longrightarrow> i < ?id + 1" "?id < ?id + 1" for i :: u64 by (simp_all add: word_less_nat_alt)
  have x: "used x" "working x" "omo_order_id x = ?id" "unat (omo_ticker_id x) = fst pl" "omo_side x = side_of (snd pl)" "omo_qty x = qty"
    using fits by (simp_all add: x_def used_def working_def)
  have q: "req_type q = REQ_NEW" "req_order_id q = ?id" "req_quantity q = qty" "unat (req_symbol_id q) = fst pl" "req_side q = side_of (snd pl)"
    using fits by (simp_all add: q_def)
  note s = slots_rightD [OF orders_rightD(1) [OF ok]]
  have fresh_used: "omo_order_id (order_at pl' m) \<noteq> ?id" if "pl' \<in> places" "used (order_at pl' m)" for pl'
    using s(1) [OF that] by auto
  have fresh_req: "req_order_id r \<noteq> ?id" if "r \<in> set (om_requests m)" for r using orders_rightD(3) [OF ok that] by auto
  have fresh_live: "live ?id = None"
    by (rule conjunct1 [OF orders_rightD(8) [OF ok]]) (use fresh_used working_used in blast)
  have fresh_rs: "answers ?id rs = []"
    using orders_rightD(6) [OF ok] by (force simp: answers_def filter_empty_conv)
  have pn: "pending_new m' oid \<longleftrightarrow> pending_new m oid \<or> oid = ?id" for oid using q by (auto simp: pending_new_def reqs)
  show "orders_right m' rs live"
  proof (rule orders_rightI)
    show "slots_right m'" unfolding slots_right_def
    proof (intro conjI ballI impI)
      fix a assume a: "a \<in> places" "used (order_at a m')"
      show "omo_order_id (order_at a m') < next_order_id m'" "unat (omo_ticker_id (order_at a m')) = fst a"
        "omo_side (order_at a m') = side_of (snd a)"
        using a s(1-3) [of a] up x at other [of a] by (cases "a = pl", simp_all add: nxt)+
      fix b assume b: "b \<in> places" "used (order_at b m')" "omo_order_id (order_at a m') = omo_order_id (order_at b m')"
      show "a = b"
        using a b s(4) [of a b] fresh_used [of a] fresh_used [of b] x(3) at other [of a] other [of b]
        by (cases "a = pl"; cases "b = pl") simp_all
    qed
    show "requests_right (om_requests m')" using orders_rightD(2) [OF ok] fresh_req q by (simp add: reqs requests_right_append)
    show "req_order_id r < next_order_id m'" if "r \<in> set (om_requests m')" for r
      using that orders_rightD(3) [OF ok] up q by (auto simp: reqs nxt)
    show "new_request_right m' rs live r" if r: "r \<in> set (om_requests m')" "req_type r = REQ_NEW" for r
    proof (cases "r = q")
      case True
      then show ?thesis unfolding new_request_right_def using pl at x q fresh_live fresh_rs by auto
    next
      case False
      then have "new_request_right m rs live r" using r orders_rightD(4) [OF ok] by (auto simp: reqs)
      then obtain a where a: "live (req_order_id r) = None" "answers (req_order_id r) rs = []" "a \<in> places" "working (order_at a m)"
          "omo_order_id (order_at a m) = req_order_id r" "omo_qty (order_at a m) = req_quantity r" "unat (req_symbol_id r) = fst a"
          "req_side r = side_of (snd a)"
        unfolding new_request_right_def by blast
      moreover have "order_at a m' = order_at a m" using a(4) free by (intro other) auto
      ultimately show ?thesis unfolding new_request_right_def by metis
    qed
    show "cancel_request_right m' r" if r: "r \<in> set (om_requests m')" "req_type r \<noteq> REQ_NEW" for r
    proof -
      have r': "r \<in> set (om_requests m)" "cancel_request_right m r" using r q orders_rightD(5) [OF ok] by (auto simp: reqs)
      show ?thesis unfolding cancel_request_right_def
      proof (intro ballI impI)
        fix a assume a: "a \<in> places" "used (order_at a m')" "omo_order_id (order_at a m') = req_order_id r"
        have "a \<noteq> pl" using a(3) at x(3) fresh_req [OF r'(1)] by auto
        then show "unat (req_symbol_id r) = fst a" using a r'(2) other by (simp add: cancel_request_right_def)
      qed
    qed
    show "resp_client_order_id r < next_order_id m'" if "r \<in> set rs" for r
      using orders_rightD(6) [OF ok that] up by (simp add: nxt)
    show "tracked a (order_at a m') rs live"
      if a: "a \<in> places" "working (order_at a m')" "\<not> pending_new m' (omo_order_id (order_at a m'))" for a
    proof -
      have "a \<noteq> pl" using a(3) at x(3) pn by auto
      then show ?thesis using a other [of a] pn orders_rightD(7) [OF ok a(1)] by simp
    qed
    show "live oid = None \<and> (\<forall>r \<in> set (answers oid rs). resp_type r = RESP_CANCEL_REJECTED)"
      if none: "\<And>a. a \<in> places \<Longrightarrow> working (order_at a m') \<Longrightarrow> omo_order_id (order_at a m') \<noteq> oid" for oid
    proof (rule orders_rightD(8) [OF ok])
      fix a assume a: "a \<in> places" "working (order_at a m)"
      then have "order_at a m' = order_at a m" using free by (intro other) auto
      then show "omo_order_id (order_at a m) \<noteq> oid" using none [OF a(1)] a(2) by simp
    qed
  qed
  show "order_at pl m' = \<lparr>omo_ticker_id = ticker, omo_order_id = next_order_id m, omo_side = side, omo_price = p,
      omo_qty = qty, omo_state = PENDING_NEW\<rparr>" by (simp add: m' x_def)
  show "order_at pl' m' = order_at pl' m" if "pl' \<noteq> pl" for pl' using other that by blast
qed


section \<open>A response keeps the orders right\<close>

lemma found_place:
  assumes s: "slots_right m" and pl: "pl \<in> places" and u: "used (order_at pl m)" "omo_order_id (order_at pl m) = resp_client_order_id r"
    and t: "unat (resp_symbol_id r) = fst pl"
  shows "find (\<lambda>j. omo_state (order_at (unat (resp_symbol_id r), j) m) \<noteq> OM_INVALID \<and>
    omo_order_id (order_at (unat (resp_symbol_id r), j) m) = resp_client_order_id r) [0, 1] = Some (snd pl)"
proof -
  obtain j where j: "pl = (unat (resp_symbol_id r), j)" "j = 0 \<or> j = 1" using pl t by (cases pl) (auto simp: places_def less_2_cases_iff)
  have other: "(unat (resp_symbol_id r), i) = pl"
    if "i < 2" "used (order_at (unat (resp_symbol_id r), i) m)" "omo_order_id (order_at (unat (resp_symbol_id r), i) m) = resp_client_order_id r" for i
    using slots_rightD(4) [OF s, of "(unat (resp_symbol_id r), i)" pl] that pl u by (simp add: j places_def)
  show ?thesis using j(2) u other [of 0] by (auto simp: j(1) used_def)
qed

lemma answered_tracked:
  assumes ok: "orders_right m (r # rs) live" and pl: "pl \<in> places" and w: "working (order_at pl m)"
    and id: "omo_order_id (order_at pl m) = resp_client_order_id r"
  shows "\<And>q. q \<in> set (om_requests m) \<Longrightarrow> req_type q = REQ_NEW \<Longrightarrow> req_order_id q \<noteq> resp_client_order_id r"
    "tracked pl (order_at pl m) (r # rs) live"
proof -
  show not_new: "req_order_id q \<noteq> resp_client_order_id r" if "q \<in> set (om_requests m)" "req_type q = REQ_NEW" for q
    using orders_rightD(4) [OF ok that] by (auto simp: new_request_right_def split: if_splits)
  have "\<not> pending_new m (omo_order_id (order_at pl m))" using not_new by (auto simp: pending_new_def id)
  then show "tracked pl (order_at pl m) (r # rs) live" by (rule orders_rightD(7) [OF ok pl w])
qed

text \<open>A response for a working order, by its effect on that order.\<close>

lemma answered_orders_right:
  assumes ok: "orders_right m (r # rs) live" and pl: "pl \<in> places" and w: "working (order_at pl m)"
    and id: "omo_order_id (order_at pl m) = resp_client_order_id r"
    and x: "used x" "omo_order_id x = omo_order_id (order_at pl m)" "omo_ticker_id x = omo_ticker_id (order_at pl m)"
      "omo_side x = omo_side (order_at pl m)"
    and f: "follows (fst pl) (side_of (snd pl)) (if working x then Some (omo_qty x) else None) (answers (omo_order_id x) rs)
      (open_at live (omo_order_id x))"
  shows "orders_right (put_order pl x m) rs live"
proof -
  let ?m = "put_order pl x m" and ?oid = "resp_client_order_id r"
  note s = slots_rightD [OF orders_rightD(1) [OF ok]]
  have u: "used (order_at pl m)" using w by (rule working_used)
  have at: "order_at pl ?m = x" and other: "\<And>a. a \<noteq> pl \<Longrightarrow> order_at a ?m = order_at a m" by simp_all
  have keep: "used (order_at a ?m) = used (order_at a m)" "omo_order_id (order_at a ?m) = omo_order_id (order_at a m)"
    "omo_ticker_id (order_at a ?m) = omo_ticker_id (order_at a m)" "omo_side (order_at a ?m) = omo_side (order_at a m)" for a
    using u x by (cases "a = pl", simp_all)+
  have only: "a = pl" if "a \<in> places" "used (order_at a m)" "omo_order_id (order_at a m) = ?oid" for a
    using s(4) [OF that(1) pl that(2) u] that(3) id by simp
  note not_new = answered_tracked(1) [OF ok pl w id] and tr = answered_tracked(2) [OF ok pl w id]
  have ans: "answers oid (r # rs) = answers oid rs" if "oid \<noteq> ?oid" for oid using that by simp
  show ?thesis
  proof (rule orders_rightI)
    show "slots_right ?m" using orders_rightD(1) [OF ok] by (simp add: slots_right_def keep)
    show "requests_right (om_requests ?m)" using orders_rightD(2) [OF ok] by simp
    show "req_order_id q < next_order_id ?m" if "q \<in> set (om_requests ?m)" for q using that orders_rightD(3) [OF ok] by simp
    show "new_request_right ?m rs live q" if q: "q \<in> set (om_requests ?m)" "req_type q = REQ_NEW" for q
    proof -
      have q': "q \<in> set (om_requests m)" using q by simp
      have "new_request_right m (r # rs) live q" by (rule orders_rightD(4) [OF ok q' q(2)])
      then obtain a where a: "live (req_order_id q) = None" "answers (req_order_id q) (r # rs) = []" "a \<in> places" "working (order_at a m)"
          "omo_order_id (order_at a m) = req_order_id q" "omo_qty (order_at a m) = req_quantity q" "unat (req_symbol_id q) = fst a"
          "req_side q = side_of (snd a)"
        unfolding new_request_right_def by blast
      have "a \<noteq> pl" using a(5) id not_new [OF q' q(2)] by auto
      moreover have "answers (req_order_id q) rs = []" using a(2) ans [OF not_new [OF q' q(2)]] by simp
      ultimately show ?thesis unfolding new_request_right_def using a other by metis
    qed
    show "cancel_request_right ?m q" if q: "q \<in> set (om_requests ?m)" "req_type q \<noteq> REQ_NEW" for q
    proof -
      have q': "cancel_request_right m q" using q orders_rightD(5) [OF ok] by simp
      show ?thesis unfolding cancel_request_right_def
      proof (intro ballI impI)
        fix a assume a: "a \<in> places" "used (order_at a ?m)" "omo_order_id (order_at a ?m) = req_order_id q"
        then show "unat (req_symbol_id q) = fst a" using q' u x(2) other [of a]
          by (cases "a = pl") (simp_all add: cancel_request_right_def)
      qed
    qed
    show "resp_client_order_id q < next_order_id ?m" if "q \<in> set rs" for q using that orders_rightD(6) [OF ok] by simp
    show "tracked a (order_at a ?m) rs live"
      if a: "a \<in> places" "working (order_at a ?m)" "\<not> pending_new ?m (omo_order_id (order_at a ?m))" for a
    proof (cases "a = pl")
      case True
      then show ?thesis using f a(2) tr x(2) by (simp add: tracked_def)
    next
      case False
      have "omo_order_id (order_at a m) \<noteq> ?oid" using only [OF a(1)] a(2) False working_used other by auto
      then show ?thesis using orders_rightD(7) [OF ok a(1)] a(2,3) False ans by (simp add: tracked_def pending_new_simps)
    qed
    show "live oid = None \<and> (\<forall>q \<in> set (answers oid rs). resp_type q = RESP_CANCEL_REJECTED)"
      if none: "\<And>a. a \<in> places \<Longrightarrow> working (order_at a ?m) \<Longrightarrow> omo_order_id (order_at a ?m) \<noteq> oid" for oid
    proof (cases "oid = ?oid")
      case True
      then have "\<not> working x" using none [OF pl] x(2) id by auto
      then have "follows (fst pl) (side_of (snd pl)) None (answers oid rs) (open_at live oid)" using f True x(2) id by simp
      from walk_over [OF this] show ?thesis by (simp add: open_at_def)
    next
      case False
      have "live oid = None \<and> (\<forall>q \<in> set (answers oid (r # rs)). resp_type q = RESP_CANCEL_REJECTED)"
      proof (rule orders_rightD(8) [OF ok])
        fix a assume a: "a \<in> places" "working (order_at a m)"
        show "omo_order_id (order_at a m) \<noteq> oid"
          using none [OF a(1)] a(2) other [of a] False id by (cases "a = pl") auto
      qed
      then show ?thesis using False by simp
    qed
  qed
qed

text \<open>A response for an order the client no longer works on.\<close>

lemma ignored_orders_right:
  assumes ok: "orders_right m (r # rs) live"
    and none: "\<And>pl. pl \<in> places \<Longrightarrow> working (order_at pl m) \<Longrightarrow> omo_order_id (order_at pl m) \<noteq> resp_client_order_id r"
  shows "orders_right m rs live" "resp_type r = RESP_CANCEL_REJECTED"
proof -
  show "resp_type r = RESP_CANCEL_REJECTED"
    using conjunct2 [OF orders_rightD(8) [OF ok none]] by simp
  show "orders_right m rs live"
  proof (rule orders_rightI)
    show "new_request_right m rs live q" if q: "q \<in> set (om_requests m)" "req_type q = REQ_NEW" for q
      using orders_rightD(4) [OF ok q] by (auto simp: new_request_right_def split: if_splits)
    show "tracked pl (order_at pl m) rs live"
      if "pl \<in> places" "working (order_at pl m)" "\<not> pending_new m (omo_order_id (order_at pl m))" for pl
      using orders_rightD(7) [OF ok that] none [OF that(1,2)] by (simp add: tracked_def)
    show "live oid = None \<and> (\<forall>q \<in> set (answers oid rs). resp_type q = RESP_CANCEL_REJECTED)"
      if no: "\<And>a. a \<in> places \<Longrightarrow> working (order_at a m) \<Longrightarrow> omo_order_id (order_at a m) \<noteq> oid" for oid
      using orders_rightD(8) [OF ok no] by (auto split: if_splits)
  qed (use orders_rightD(1-3,5,6) [OF ok] in auto)
qed


definition open_size :: "OMOrder \<Rightarrow> int" where
  "open_size x = (if working x then int (unat (omo_qty x)) else 0)"

lemma open_size_nonneg: "0 \<le> open_size x"
  by (simp add: open_size_def)

lemma onOrderUpdate_right:
  assumes ok: "orders_right m (r # rs) live" and upd: "onOrderUpdate r m = Inr m'"
  shows "orders_right m' rs live" (is ?right)
    "if resp_type r = RESP_FILLED then \<exists>pl \<in> places. fst pl = unat (resp_symbol_id r) \<and> resp_side r = side_of (snd pl) \<and>
        open_size (order_at pl m) = fill_size r + open_size (order_at pl m') \<and> (\<forall>a. a \<noteq> pl \<longrightarrow> order_at a m' = order_at a m)
     else \<forall>a. open_size (order_at a m') \<le> open_size (order_at a m)" (is ?sizes)
proof -
  have "?right \<and> ?sizes"
  proof (cases "\<exists>pl \<in> places. working (order_at pl m) \<and> omo_order_id (order_at pl m) = resp_client_order_id r")
    case False
    then have no: "\<And>pl. pl \<in> places \<Longrightarrow> working (order_at pl m) \<Longrightarrow> omo_order_id (order_at pl m) \<noteq> resp_client_order_id r" by blast
    note ign = ignored_orders_right [OF ok no]
    show ?thesis
    proof (cases "find (\<lambda>j. omo_state (order_at (unat (resp_symbol_id r), j) m) \<noteq> OM_INVALID \<and>
        omo_order_id (order_at (unat (resp_symbol_id r), j) m) = resp_client_order_id r) [0, 1]")
      case None
      then have "m' = m" using upd ign(2) by (simp add: onOrderUpdate_def Let_def split: if_splits)
      then show ?thesis using ign by simp
    next
      case (Some j)
      let ?pl = "(unat (resp_symbol_id r), j)"
      have j: "j < 2" "omo_state (order_at ?pl m) \<noteq> OM_INVALID" "omo_order_id (order_at ?pl m) = resp_client_order_id r"
        using Some by (auto simp: find_Some_iff2 less_2_cases_iff split: if_splits)
      have t: "unat (resp_symbol_id r) < kMaxSymbols" and m': "m' = put_order ?pl ((order_at ?pl m)\<lparr>omo_state := DEAD\<rparr>) m"
        using upd Some ign(2) by (auto simp: onOrderUpdate_def Let_def split: if_splits)
      have "\<not> working (order_at ?pl m)" using no [of ?pl] j t by (auto simp: places_def)
      then have "omo_state (order_at ?pl m) = DEAD" using j(2) by (cases "omo_state (order_at ?pl m)") (auto simp: working_def)
      then have same: "matches_orders m m'" unfolding m'
        by (intro matches_orders_put) (simp add: matching_def used_def working_def)
      have "orders_right m' rs live" using ign(1) matches_orders_right [OF same] by (simp add: m')
      then show ?thesis using ign(2) by (simp add: open_size_def matches_ordersD [OF same])
    qed
  next
    case True
    then obtain pl where pl: "pl \<in> places" "working (order_at pl m)" "omo_order_id (order_at pl m) = resp_client_order_id r" by blast
    let ?o = "order_at pl m" and ?s = "side_of (snd pl)" and ?e = "open_at live (resp_client_order_id r)"
    have u: "used ?o" by (rule working_used [OF pl(2)])
    have f: "follows (fst pl) ?s (Some (omo_qty ?o)) (r # answers (resp_client_order_id r) rs) ?e"
      using answered_tracked(2) [OF ok pl] pl(3) by (simp add: tracked_def)
    have t: "unat (resp_symbol_id r) = fst pl" "fst pl < kMaxSymbols" using f pl(1) by (auto simp: places_def)
    have at: "find (\<lambda>j. omo_state (order_at (unat (resp_symbol_id r), j) m) \<noteq> OM_INVALID \<and>
        omo_order_id (order_at (unat (resp_symbol_id r), j) m) = resp_client_order_id r) [0, 1] = Some (snd pl)"
      by (rule found_place [OF orders_rightD(1) [OF ok] pl(1) u pl(3) t(1)])
    have run: "m' = (case resp_type r of
          RESP_ACCEPTED \<Rightarrow> put_order pl (?o\<lparr>omo_state := LIVE\<rparr>) m
        | RESP_CANCELED \<Rightarrow> put_order pl (?o\<lparr>omo_state := DEAD\<rparr>) m
        | RESP_FILLED \<Rightarrow> put_order pl (if resp_remaining_quantity r = 0 then ?o\<lparr>omo_qty := 0, omo_state := DEAD\<rparr>
            else ?o\<lparr>omo_qty := resp_remaining_quantity r\<rparr>) m
        | RESP_CANCEL_REJECTED \<Rightarrow> put_order pl (?o\<lparr>omo_state := DEAD\<rparr>) m
        | _ \<Rightarrow> m)"
      using upd t unfolding onOrderUpdate_def Let_def at [unfolded t(1)] t(1)
      by (auto simp: t(1) split: ClientResponseType.splits)
    note step = answered_orders_right [OF ok pl]
    from f show ?thesis
    proof (cases "resp_type r")
      case RESP_ACCEPTED
      let ?x = "?o\<lparr>omo_state := LIVE\<rparr>"
      have "matches_orders m (put_order pl ?x m)"
        using u pl(2) by (intro matches_orders_put) (simp add: matching_def used_def working_def)
      from matches_ordersD [OF this] have "open_size (order_at a m') = open_size (order_at a m)" for a
        by (simp add: open_size_def run RESP_ACCEPTED)
      moreover have "orders_right (put_order pl ?x m) rs live"
        by (rule step) (use f RESP_ACCEPTED pl(3) in \<open>simp_all add: used_def working_def\<close>)
      ultimately show ?thesis by (simp add: run RESP_ACCEPTED)
    next
      case RESP_CANCELED
      let ?x = "?o\<lparr>omo_state := DEAD\<rparr>"
      have "orders_right (put_order pl ?x m) rs live"
        by (rule step) (use f RESP_CANCELED pl(3) in \<open>simp_all add: used_def working_def\<close>)
      moreover have "open_size (order_at a (put_order pl ?x m)) \<le> open_size (order_at a m)" for a
        using open_size_nonneg [of ?o] by (cases "a = pl") (simp_all add: open_size_def working_def)
      ultimately show ?thesis by (simp add: run RESP_CANCELED)
    next
      case RESP_FILLED
      let ?rem = "resp_remaining_quantity r"
      let ?x = "if ?rem = 0 then ?o\<lparr>omo_qty := 0, omo_state := DEAD\<rparr> else ?o\<lparr>omo_qty := ?rem\<rparr>"
      have q: "omo_qty ?o = resp_executed_quantity r + ?rem" "unat (resp_executed_quantity r) + unat ?rem < 2 ^ 32" "resp_side r = ?s"
        using f RESP_FILLED by auto
      have x: "working ?x \<longleftrightarrow> ?rem \<noteq> 0" "used ?x" using pl(2) u by (simp_all add: working_def used_def)
      have "orders_right (put_order pl ?x m) rs live"
        by (rule step) (use f RESP_FILLED pl(3) x in \<open>simp_all split: if_splits\<close>)
      moreover have "unat (omo_qty ?o) = unat (resp_executed_quantity r) + unat ?rem"
        using q(2) unat_add_lem [of "resp_executed_quantity r" ?rem] by (simp add: q(1))
      then have "int (unat (omo_qty ?o)) = fill_size r + int (unat ?rem)" by (simp only: fill_size_def of_nat_add)
      then have "open_size ?o = fill_size r + open_size ?x"
        using pl(2) x by (simp add: open_size_def del: of_nat_unat)
      ultimately show ?thesis using pl(1) t(1) q(3) by (auto simp: run RESP_FILLED intro!: bexI [of _ pl])
    qed simp_all
  qed
  then show ?right ?sizes by blast+
qed


section \<open>The exchange keeps the orders right\<close>

lemma order_at_requests [simp]: "order_at pl (m\<lparr>om_requests := qs\<rparr>) = order_at pl m"
  by (simp add: order_at_def)

text \<open>The exchange answers for one order, taking perhaps a request from the queue.\<close>

lemma exchange_orders_right:
  assumes ok: "orders_right m rs live" and qs: "requests_right qs" "set qs \<subseteq> set (om_requests m)"
    and other: "\<And>p. p \<in> set qs \<Longrightarrow> req_type p = REQ_NEW \<Longrightarrow> req_order_id p \<noteq> oid"
    and pn: "\<And>p. p \<in> set (om_requests m) \<Longrightarrow> p \<notin> set qs \<Longrightarrow> req_type p = REQ_NEW \<Longrightarrow> req_order_id p = oid"
    and r: "resp_client_order_id r = oid" "oid < next_order_id m"
    and tr: "\<And>pl. pl \<in> places \<Longrightarrow> working (order_at pl m) \<Longrightarrow> omo_order_id (order_at pl m) = oid \<Longrightarrow>
      tracked pl (order_at pl m) (rs @ [r]) (live(oid := v))"
    and over: "(\<And>pl. pl \<in> places \<Longrightarrow> working (order_at pl m) \<Longrightarrow> omo_order_id (order_at pl m) \<noteq> oid) \<Longrightarrow>
      v = None \<and> resp_type r = RESP_CANCEL_REJECTED"
  shows "orders_right (m\<lparr>om_requests := qs\<rparr>) (rs @ [r]) (live(oid := v))"
proof -
  let ?m = "m\<lparr>om_requests := qs\<rparr>" and ?live = "live(oid := v)"
  have away: "tracked pl x (rs @ [r]) ?live = tracked pl x rs live" if "omo_order_id x \<noteq> oid" for pl x
    using that r by (simp add: tracked_def open_at_def)
  show ?thesis
  proof (rule orders_rightI)
    show "slots_right ?m" using orders_rightD(1) [OF ok] by (simp add: slots_right_def)
    show "new_request_right ?m (rs @ [r]) ?live p" if p: "p \<in> set (om_requests ?m)" "req_type p = REQ_NEW" for p
    proof -
      have p': "p \<in> set (om_requests m)" and ne: "req_order_id p \<noteq> oid" using p other [of p] qs(2) by auto
      show ?thesis using orders_rightD(4) [OF ok p' p(2)] ne r by (simp add: new_request_right_def)
    qed
    show "cancel_request_right ?m p" if p: "p \<in> set (om_requests ?m)" "req_type p \<noteq> REQ_NEW" for p
      using orders_rightD(5) [OF ok _ p(2)] p(1) qs(2) by (auto simp: cancel_request_right_def)
    show "tracked pl (order_at pl ?m) (rs @ [r]) ?live"
      if pl: "pl \<in> places" "working (order_at pl ?m)" "\<not> pending_new ?m (omo_order_id (order_at pl ?m))" for pl
    proof (cases "omo_order_id (order_at pl m) = oid")
      case True
      then show ?thesis using tr [OF pl(1)] pl(2) by simp
    next
      case False
      have "\<not> pending_new m (omo_order_id (order_at pl m))" using pl(3) pn False unfolding pending_new_def by auto
      then show ?thesis using orders_rightD(7) [OF ok pl(1)] pl(2) away [OF False] by simp
    qed
    show "?live i = None \<and> (\<forall>p \<in> set (answers i (rs @ [r])). resp_type p = RESP_CANCEL_REJECTED)"
      if no: "\<And>pl. pl \<in> places \<Longrightarrow> working (order_at pl ?m) \<Longrightarrow> omo_order_id (order_at pl ?m) \<noteq> i" for i
    proof -
      have no': "\<And>pl. pl \<in> places \<Longrightarrow> working (order_at pl m) \<Longrightarrow> omo_order_id (order_at pl m) \<noteq> i" using no by simp
      have "live i = None \<and> (\<forall>r \<in> set (answers i rs). resp_type r = RESP_CANCEL_REJECTED)" by (rule orders_rightD(8) [OF ok no'])
      moreover have "v = None \<and> resp_type r = RESP_CANCEL_REJECTED" if "i = oid" using over no' that by blast
      ultimately show ?thesis using r(1) by auto
    qed
  qed (use orders_rightD(3,6) [OF ok] qs r in auto)
qed

text \<open>An order that is live is one the client works on.\<close>

lemma live_working:
  assumes ok: "orders_right m rs live" and live: "live oid = Some (sy, s, n)"
  shows "\<exists>pl. pl \<in> places \<and> working (order_at pl m) \<and> omo_order_id (order_at pl m) = oid \<and>
    tracked pl (order_at pl m) rs live \<and> unat sy = fst pl \<and> s = side_of (snd pl) \<and>
    (\<forall>a \<in> places. working (order_at a m) \<longrightarrow> omo_order_id (order_at a m) = oid \<longrightarrow> a = pl) \<and>
    (\<forall>p \<in> set (om_requests m). req_type p = REQ_NEW \<longrightarrow> req_order_id p \<noteq> oid) \<and> oid < next_order_id m"
proof -
  obtain pl where pl: "pl \<in> places" "working (order_at pl m)" "omo_order_id (order_at pl m) = oid"
    using orders_rightD(8) [OF ok, of oid] live by fastforce
  note s = slots_rightD [OF orders_rightD(1) [OF ok]]
  have u: "used (order_at pl m)" by (rule working_used [OF pl(2)])
  have new: "req_order_id p \<noteq> oid" if "p \<in> set (om_requests m)" "req_type p = REQ_NEW" for p
    using orders_rightD(4) [OF ok that] live by (auto simp: new_request_right_def)
  then have "\<not> pending_new m (omo_order_id (order_at pl m))" using pl(3) by (auto simp: pending_new_def)
  then have tr: "tracked pl (order_at pl m) rs live" by (rule orders_rightD(7) [OF ok pl(1,2)])
  have "a = pl" if "a \<in> places" "working (order_at a m)" "omo_order_id (order_at a m) = oid" for a
    using s(4) [OF that(1) pl(1) working_used [OF that(2)] u] that(3) pl(3) by simp
  moreover have "unat sy = fst pl" "s = side_of (snd pl)" using tr live pl(3) by (simp_all add: tracked_def)
  moreover have "oid < next_order_id m" using s(1) [OF pl(1) u] pl(3) by simp
  ultimately show ?thesis using pl tr new by blast
qed

lemma accept_orders_right:
  assumes ok: "orders_right m rs live" and q: "om_requests m = q # qs" "req_type q = REQ_NEW"
  shows "orders_right (m\<lparr>om_requests := qs\<rparr>)
    (rs @ [answer RESP_ACCEPTED c (req_symbol_id q) (req_order_id q) moid s px 0 (req_quantity q)])
    (live(req_order_id q \<mapsto> (req_symbol_id q, req_side q, req_quantity q)))"
proof (rule exchange_orders_right [OF ok])
  note reqs = orders_rightD(2) [OF ok, unfolded q(1)]
  have mem: "q \<in> set (om_requests m)" by (simp add: q)
  obtain b where b: "answers (req_order_id q) rs = []" "b \<in> places" "working (order_at b m)"
      "omo_order_id (order_at b m) = req_order_id q" "omo_qty (order_at b m) = req_quantity q" "unat (req_symbol_id q) = fst b"
      "req_side q = side_of (snd b)"
    using orders_rightD(4) [OF ok mem q(2)] by (auto simp: new_request_right_def)
  show "tracked pl (order_at pl m) (rs @ [answer RESP_ACCEPTED c (req_symbol_id q) (req_order_id q) moid s px 0 (req_quantity q)])
      (live(req_order_id q \<mapsto> (req_symbol_id q, req_side q, req_quantity q)))"
    if pl: "pl \<in> places" "working (order_at pl m)" "omo_order_id (order_at pl m) = req_order_id q" for pl
  proof -
    have "pl = b"
      using slots_rightD(4) [OF orders_rightD(1) [OF ok] pl(1) b(2) working_used [OF pl(2)] working_used [OF b(3)]] pl(3) b(4) by simp
    then show ?thesis using b by (simp add: tracked_def answer_def open_at_def)
  qed
  show "req_order_id q < next_order_id m" by (rule orders_rightD(3) [OF ok mem])
  show "Some (req_symbol_id q, req_side q, req_quantity q) = None \<and>
      resp_type (answer RESP_ACCEPTED c (req_symbol_id q) (req_order_id q) moid s px 0 (req_quantity q)) = RESP_CANCEL_REJECTED"
    if no: "\<And>pl. pl \<in> places \<Longrightarrow> working (order_at pl m) \<Longrightarrow> omo_order_id (order_at pl m) \<noteq> req_order_id q"
    using no [OF b(2,3)] b(4) by simp
qed (use orders_rightD(2) [OF ok] q in \<open>auto simp: answer_def\<close>)

lemma cancel_live_orders_right:
  assumes ok: "orders_right m rs live" and q: "om_requests m = q # qs" "req_type q = REQ_CANCELED"
    and live: "live (req_order_id q) = Some (sy, s, n)"
  shows "orders_right (m\<lparr>om_requests := qs\<rparr>)
    (rs @ [answer RESP_CANCELED c (req_symbol_id q) (req_order_id q) moid s px 0 n]) (live(req_order_id q := None))"
proof -
  obtain b where b: "b \<in> places" "working (order_at b m)" "omo_order_id (order_at b m) = req_order_id q"
      "tracked b (order_at b m) rs live" "unat sy = fst b" "s = side_of (snd b)"
      "\<And>a. a \<in> places \<Longrightarrow> working (order_at a m) \<Longrightarrow> omo_order_id (order_at a m) = req_order_id q \<Longrightarrow> a = b"
      "\<And>p. p \<in> set (om_requests m) \<Longrightarrow> req_type p = REQ_NEW \<Longrightarrow> req_order_id p \<noteq> req_order_id q" "req_order_id q < next_order_id m"
    using live_working [OF ok live] by blast
  have "cancel_request_right m q" using orders_rightD(5) [OF ok, of q] q by simp
  then have "unat (req_symbol_id q) = fst b" using b(1-3) working_used by (auto simp: cancel_request_right_def)
  then have t: "tracked b (order_at b m) (rs @ [answer RESP_CANCELED c (req_symbol_id q) (req_order_id q) moid s px 0 n])
      (live(req_order_id q := None))"
    using b(3,4) live by (auto simp: tracked_def answer_def walk_append open_at_def)
  show ?thesis
  proof (rule exchange_orders_right [OF ok])
    show "tracked a (order_at a m) (rs @ [answer RESP_CANCELED c (req_symbol_id q) (req_order_id q) moid s px 0 n])
        (live(req_order_id q := None))" if "a \<in> places" "working (order_at a m)" "omo_order_id (order_at a m) = req_order_id q" for a
      using b(7) [OF that] t by simp
    show "None = None \<and> resp_type (answer RESP_CANCELED c (req_symbol_id q) (req_order_id q) moid s px 0 n) = RESP_CANCEL_REJECTED"
      if no: "\<And>a. a \<in> places \<Longrightarrow> working (order_at a m) \<Longrightarrow> omo_order_id (order_at a m) \<noteq> req_order_id q"
      using no [OF b(1,2)] b(3) by simp
    show "req_order_id p \<noteq> req_order_id q" if "p \<in> set qs" "req_type p = REQ_NEW" for p using b(8) that q(1) by simp
    show "req_order_id q < next_order_id m" by (rule b(9))
  qed (use orders_rightD(2) [OF ok] q in \<open>auto simp: answer_def\<close>)
qed

lemma reject_orders_right:
  assumes ok: "orders_right m rs live" and q: "om_requests m = q # qs" "req_type q = REQ_CANCELED"
    and live: "live (req_order_id q) = None"
  shows "orders_right (m\<lparr>om_requests := qs\<rparr>)
    (rs @ [answer RESP_CANCEL_REJECTED c (req_symbol_id q) (req_order_id q) moid s px 0 n]) live"
proof -
  have mem: "q \<in> set (om_requests m)" by (simp add: q)
  have cr: "cancel_request_right m q" using orders_rightD(5) [OF ok mem] q(2) by simp
  have nw: "req_order_id p \<noteq> req_order_id q" if "p \<in> set (om_requests m)" "req_type p = REQ_NEW" for p
    using orders_rightD(2) [OF ok] that q by auto
  have "orders_right (m\<lparr>om_requests := qs\<rparr>)
    (rs @ [answer RESP_CANCEL_REJECTED c (req_symbol_id q) (req_order_id q) moid s px 0 n]) (live(req_order_id q := None))"
  proof (rule exchange_orders_right [OF ok])
    fix pl assume pl: "pl \<in> places" "working (order_at pl m)" "omo_order_id (order_at pl m) = req_order_id q"
    have "\<not> pending_new m (omo_order_id (order_at pl m))" using nw pl(3) by (auto simp: pending_new_def)
    then have "tracked pl (order_at pl m) rs live" by (rule orders_rightD(7) [OF ok pl(1,2)])
    moreover have "unat (req_symbol_id q) = fst pl" using cr pl working_used by (auto simp: cancel_request_right_def)
    ultimately show "tracked pl (order_at pl m) (rs @ [answer RESP_CANCEL_REJECTED c (req_symbol_id q) (req_order_id q) moid s px 0 n])
        (live(req_order_id q := None))"
      using pl(3) live by (auto simp: tracked_def answer_def walk_append open_at_def)
  qed (use orders_rightD(2,3) [OF ok] mem q nw in \<open>auto simp: answer_def\<close>)
  moreover have "live(req_order_id q := None) = live" using live by auto
  ultimately show ?thesis by simp
qed

lemma fill_orders_right:
  assumes ok: "orders_right m rs live" and live: "live oid = Some (sy, s, n)" and e: "0 < e" "e \<le> n"
  shows "orders_right m (rs @ [answer RESP_FILLED c sy oid moid s px e (n - e)])
    (live(oid := if n - e = 0 then None else Some (sy, s, n - e)))"
proof -
  obtain b where b: "b \<in> places" "working (order_at b m)" "omo_order_id (order_at b m) = oid"
      "tracked b (order_at b m) rs live" "unat sy = fst b" "s = side_of (snd b)"
      "\<And>a. a \<in> places \<Longrightarrow> working (order_at a m) \<Longrightarrow> omo_order_id (order_at a m) = oid \<Longrightarrow> a = b"
      "\<And>p. p \<in> set (om_requests m) \<Longrightarrow> req_type p = REQ_NEW \<Longrightarrow> req_order_id p \<noteq> oid" "oid < next_order_id m"
    using live_working [OF ok live] by blast
  have "unat (n - e) = unat n - unat e" "unat e \<le> unat n" using e(2) by (simp_all add: unat_sub word_le_nat_alt)
  moreover have "unat n < 2 ^ 32" using unsigned_less [of n] by simp
  ultimately have sum: "unat e + unat (n - e) < 2 ^ 32" by simp
  let ?live = "live(oid := if n - e = 0 then None else Some (sy, s, n - e))"
  have t: "tracked b (order_at b m) (rs @ [answer RESP_FILLED c sy oid moid s px e (n - e)]) ?live"
    using b(3-6) live sum by (auto simp: tracked_def answer_def walk_append open_at_def)
  have "orders_right (m\<lparr>om_requests := om_requests m\<rparr>) (rs @ [answer RESP_FILLED c sy oid moid s px e (n - e)]) ?live"
  proof (rule exchange_orders_right [OF ok])
    show "tracked a (order_at a m) (rs @ [answer RESP_FILLED c sy oid moid s px e (n - e)]) ?live"
      if "a \<in> places" "working (order_at a m)" "omo_order_id (order_at a m) = oid" for a
      using b(7) [OF that] t by simp
    show "(if n - e = 0 then None else Some (sy, s, n - e)) = None \<and>
        resp_type (answer RESP_FILLED c sy oid moid s px e (n - e)) = RESP_CANCEL_REJECTED"
      if no: "\<And>a. a \<in> places \<Longrightarrow> working (order_at a m) \<Longrightarrow> omo_order_id (order_at a m) \<noteq> oid"
      using no [OF b(1,2)] b(3) by simp
    show "req_order_id p \<noteq> oid" if "p \<in> set (om_requests m)" "req_type p = REQ_NEW" for p using b(8) that by simp
    show "oid < next_order_id m" by (rule b(9))
  qed (use orders_rightD(2) [OF ok] in \<open>simp_all add: answer_def\<close>)
  then show ?thesis by simp
qed


section \<open>Positions and open orders stay within the limits\<close>

definition limit :: "TradeEngineCfgHashMap \<Rightarrow> nat \<Rightarrow> int" where
  "limit cfg t = int (unat (max_position (cfg_risk (cfg t))))"

text \<open>What a symbol's position becomes when all open orders of one side fill.\<close>

definition exposure_right :: "TradeEngineCfgHashMap \<Rightarrow> OrderManager \<Rightarrow> PositionKeeper \<Rightarrow> bool" where
  "exposure_right cfg m k \<longleftrightarrow> (\<forall>t < kMaxSymbols. position (k t) + open_size (order_at (t, 0) m) \<le> limit cfg t \<and>
     - limit cfg t \<le> position (k t) - open_size (order_at (t, 1) m))"

lemma exposure_bound:
  assumes "exposure_right cfg m k" and "t < kMaxSymbols"
  shows "\<bar>position (k t)\<bar> \<le> limit cfg t" "\<bar>position (k t)\<bar> < 2 ^ 32"
proof -
  show "\<bar>position (k t)\<bar> \<le> limit cfg t"
    using assms open_size_nonneg [of "order_at (t, 0) m"] open_size_nonneg [of "order_at (t, 1) m"]
    unfolding exposure_right_def by force
  also have "\<dots> < 2 ^ 32" unfolding limit_def by (rule int_unat_bound)
  finally show "\<bar>position (k t)\<bar> < 2 ^ 32" .
qed

lemma matches_orders_exposure: "matches_orders m m' \<Longrightarrow> exposure_right cfg m' k = exposure_right cfg m k"
  by (simp add: exposure_right_def open_size_def matches_ordersD)

lemma moveOrder_right:
  assumes ok: "orders_right m rs live" and ex: "exposure_right cfg m k" and pl: "pl \<in> places"
    and fits: "unat ticker = fst pl" "side = side_of (snd pl)"
    and run: "moveOrder client k (new_RiskManager cfg) pl ticker price side qty m = Inr m'"
  shows "orders_right m' rs live" "exposure_right cfg m' k"
proof -
  have "orders_right m' rs live \<and> exposure_right cfg m' k"
    using run
  proof (cases rule: moveOrder_cases)
    case same
    then show ?thesis using ok ex by simp
  next
    case cancel
    then show ?thesis using cancel_orders_right(1) [OF ok pl cancel(1)] matches_orders_exposure [OF cancel_orders_right(2) [OF ok pl cancel(1)]] ex
      by simp
  next
    case (new p)
    have free: "\<not> working (order_at pl m)" using new(1) by (auto simp: working_def)
    note no = new_orders_right [OF ok pl free fits new(5)]
    obtain t j where tj: "pl = (t, j)" "t < kMaxSymbols" "j = 0 \<or> j = 1" using pl by (auto simp: places_def less_2_cases_iff)
    have "risk_check (k t) (cfg_risk (cfg t)) side qty = ALLOWED"
      using new(4) fits(1) tj by (simp add: checkPreTradeRisk_def new_RiskManager_def)
    then have allowed: "\<bar>position (k t) + side_value side * int (unat qty)\<bar> \<le> limit cfg t"
      by (simp only: risk_check_allowed [OF exposure_bound(2) [OF ex tj(2)]] limit_def)
    have size: "open_size (order_at pl m') = int (unat qty)" by (simp add: no(2) open_size_def working_def)
    have v: "side_value side = (if j = 0 then 1 else - 1)" using tj by (auto simp: fits(2) side_of_def side_value_def side_byte_def)
    have "exposure_right cfg m' k" unfolding exposure_right_def
    proof (intro allI impI)
      fix u assume u: "u < kMaxSymbols"
      note old = ex [unfolded exposure_right_def, rule_format, OF u]
      have other: "order_at (u, i) m' = order_at (u, i) m" if "(u, i) \<noteq> pl" for i using no(3) [OF that] .
      show "position (k u) + open_size (order_at (u, 0) m') \<le> limit cfg u \<and>
          - limit cfg u \<le> position (k u) - open_size (order_at (u, 1) m')"
        using tj(3)
      proof
        assume j: "j = 0"
        then have "position (k t) + int (unat qty) \<le> limit cfg t" using allowed v by (simp del: of_nat_unat)
        then show ?thesis using old other [of 0] other [of 1] size tj(1) j by (cases "u = t") (simp_all del: of_nat_unat)
      next
        assume j: "j = 1"
        then have "- limit cfg t \<le> position (k t) - int (unat qty)" using allowed v by (simp del: of_nat_unat)
        then show ?thesis using old other [of 0] other [of 1] size tj(1) j by (cases "u = t") (simp_all del: of_nat_unat)
      qed
    qed
    then show ?thesis using no(1) by blast
  qed
  then show "orders_right m' rs live" "exposure_right cfg m' k" by blast+
qed

lemma moveOrders_right:
  assumes ok: "orders_right m rs live" and ex: "exposure_right cfg m k"
    and run: "moveOrders client k (new_RiskManager cfg) ticker bid ask clip m = Inr m'"
  shows "orders_right m' rs live \<and> exposure_right cfg m' k"
proof -
  have t: "unat ticker < kMaxSymbols" using run by (auto simp: moveOrders_def split: if_splits)
  then obtain m1 where m1: "moveOrder client k (new_RiskManager cfg) (unat ticker, 0) ticker bid BUY clip m = Inr m1"
      "moveOrder client k (new_RiskManager cfg) (unat ticker, 1) ticker ask SELL clip m1 = Inr m'"
    using run by (auto simp: moveOrders_def bindE_eq_Inr)
  have pl: "(unat ticker, 0) \<in> places" "(unat ticker, 1) \<in> places" using t by (simp_all add: places_def)
  have "orders_right m1 rs live" "exposure_right cfg m1 k"
    by (rule moveOrder_right [OF ok ex pl(1) _ _ m1(1)]; simp add: side_of_def)+
  then show ?thesis using moveOrder_right [OF _ _ pl(2) _ _ m1(2)] by (simp add: side_of_def)
qed

definition trading_right :: "AlgoType \<Rightarrow> TradeEngineCfgHashMap \<Rightarrow> TradeEngine \<Rightarrow> live_orders \<Rightarrow> bool" where
  "trading_right algo cfg te live \<longleftrightarrow> orders_right (order_manager te) (te_responses te) live \<and>
     exposure_right cfg (order_manager te) (position_keeper te) \<and> risk_manager te = new_RiskManager cfg \<and> te_algo te = algo"

lemma trading_right_start: "trading_right algo cfg (new_TradeEngine debug client algo cfg) (\<lambda>_. None)"
proof -
  have st: "omo_state (order_at pl new_OrderManager) = OM_INVALID" for pl
    by (simp add: order_at_def new_OrderManager_def new_OMOrder_def)
  have no: "\<not> used (order_at pl new_OrderManager)" "\<not> working (order_at pl new_OrderManager)" for pl
    using st by (simp_all add: used_def working_def)
  have "orders_right new_OrderManager [] (\<lambda>_. None)"
    by (rule orders_rightI) (simp_all add: slots_right_def no, simp_all add: new_OrderManager_def)
  moreover have "exposure_right cfg new_OrderManager new_PositionKeeper"
    by (simp add: exposure_right_def open_size_def no limit_def new_PositionKeeper_def new_PositionInfo_def)
  ultimately show ?thesis by (simp add: trading_right_def new_TradeEngine_def)
qed

lemma position_updateBBO_position: "position (position_updateBBO rnd b p) = position p"
  by (simp add: position_updateBBO_def Let_def)

text \<open>A strategy's handler changes the orders by \<open>moveOrders\<close> or not at all, and a market update
  changes the rest of the engine but for the positions.\<close>

definition moves :: "TradeEngine \<Rightarrow> OrderManager \<Rightarrow> bool" where
  "moves te m' \<longleftrightarrow> m' = order_manager te \<or> (\<exists>ticker bid ask.
     moveOrders (te_client_id te) (position_keeper te) (risk_manager te) ticker bid ask (cfg_clip (te_cfg te (unat ticker)))
       (order_manager te) = Inr m')"

definition same_trading :: "TradeEngine \<Rightarrow> TradeEngine \<Rightarrow> bool" where
  "same_trading te te1 \<longleftrightarrow> order_manager te1 = order_manager te \<and> te_responses te1 = te_responses te \<and> risk_manager te1 = risk_manager te \<and>
     te_algo te1 = te_algo te \<and> te_client_id te1 = te_client_id te \<and> te_cfg te1 = te_cfg te \<and>
     (\<forall>t. position (position_keeper te1 t) = position (position_keeper te t))"

lemma algo_moves:
  "algoOnOrderBookUpdate rnd ticker bbo te = Inr m' \<Longrightarrow> moves te m'"
  "algoOnTradeUpdate u bbo te = Inr m' \<Longrightarrow> moves te m'"
  unfolding moves_def
  by (auto simp: algoOnOrderBookUpdate_def maker_onOrderBookUpdate_def taker_onOrderBookUpdate_def algoOnTradeUpdate_def
      maker_onTradeUpdate_def taker_onTradeUpdate_def ticker_cfg_def Let_def bindE_eq_Inr split: AlgoType.splits if_splits)

lemma market_effect:
  assumes run: "engine_onMarketUpdate rnd u te = Inr te'"
  obtains te1 m' where "same_trading te te1" "moves te1 m'" "te' = te1\<lparr>order_manager := m'\<rparr>"
proof -
  obtain notice b where b: "onMarketUpdate u (ticker_order_book te (unat (mu_symbol_id u))) = Inr (notice, b)"
    using run by (auto simp: engine_onMarketUpdate_def Let_def bindE_eq_Inr)
  define te1 where "te1 = te\<lparr>ticker_order_book := (ticker_order_book te)(unat (mu_symbol_id u) := b)\<rparr>"
  have same1: "same_trading te te1" by (simp add: same_trading_def te1_def)
  note result = that
  have keep: thesis if "same_trading te te2" "te' = te2" for te2
    using result [of te2 "order_manager te2"] that by (simp add: moves_def)
  have run1: "(case notice of No_Notice \<Rightarrow> Inr te1 | Trade_Notice \<Rightarrow> engine_onTradeUpdate rnd u (mb_bbo b) te1
     | Book_Notice \<Rightarrow> engine_onOrderBookUpdate rnd (mu_symbol_id u) (mb_bbo b) te1) = Inr te'"
    using run b unfolding te1_def by (auto simp: engine_onMarketUpdate_def Let_def bindE_eq_Inr)
  show thesis
  proof (cases notice)
    case No_Notice
    then show ?thesis using run1 keep [OF same1] by simp
  next
    case Trade_Notice
    define te2 where "te2 = te1\<lparr>feature_engine := feature_onTradeUpdate rnd u (mb_bbo b) (feature_engine te1)\<rparr>"
    have same2: "same_trading te te2" using same1 by (simp add: same_trading_def te2_def)
    have "te' = te2 \<or> (\<exists>m'. algoOnTradeUpdate u (mb_bbo b) te2 = Inr m' \<and> te' = te2\<lparr>order_manager := m'\<rparr>)"
      using run1 Trade_Notice by (auto simp: engine_onTradeUpdate_def Let_def te2_def [symmetric] bindE_eq_Inr split: if_splits)
    then show ?thesis using keep [OF same2] result [OF same2 algo_moves(2)] by blast
  next
    case Book_Notice
    let ?i = "unat (mu_symbol_id u)"
    define k where "k = (position_keeper te1)(?i := position_updateBBO rnd (mb_bbo b) (position_keeper te1 ?i))"
    define te2 where "te2 = te1\<lparr>position_keeper := k, feature_engine := feature_onOrderBookUpdate rnd (mb_bbo b) (feature_engine te1)\<rparr>"
    have "position (k t) = position (position_keeper te1 t)" for t by (simp add: k_def position_updateBBO_position)
    then have same2: "same_trading te te2" using same1 by (simp add: same_trading_def te2_def)
    have "te' = te2 \<or> (\<exists>m'. algoOnOrderBookUpdate rnd (mu_symbol_id u) (mb_bbo b) te2 = Inr m' \<and> te' = te2\<lparr>order_manager := m'\<rparr>)"
      using run1 Book_Notice
      by (auto simp: engine_onOrderBookUpdate_def keeper_updateBBO_def Let_def k_def [symmetric] te2_def [symmetric] bindE_eq_Inr split: if_splits)
    then show ?thesis using keep [OF same2] result [OF same2 algo_moves(1)] by blast
  qed
qed

lemma market_keeps_right:
  assumes ok: "trading_right algo cfg te live" and run: "engine_onMarketUpdate rnd u te = Inr te'"
  shows "trading_right algo cfg te' live"
proof -
  obtain te1 m' where te1: "same_trading te te1" "moves te1 m'" "te' = te1\<lparr>order_manager := m'\<rparr>"
    by (rule market_effect [OF run])
  have o: "orders_right (order_manager te1) (te_responses te1) live" "exposure_right cfg (order_manager te1) (position_keeper te1)"
    "risk_manager te1 = new_RiskManager cfg" "te_algo te1 = algo"
    using ok te1(1) by (simp_all add: trading_right_def same_trading_def exposure_right_def)
  have "orders_right m' (te_responses te1) live \<and> exposure_right cfg m' (position_keeper te1)"
    using te1(2) o moveOrders_right [OF o(1,2)] by (auto simp: moves_def)
  then show ?thesis using o(3,4) by (simp add: trading_right_def te1(3))
qed

lemma response_keeps_right:
  assumes ok: "trading_right algo cfg te live" and algo: "algo = ALGO_MAKER \<or> algo = ALGO_TAKER"
    and rs: "te_responses te = r # rs" and run: "engine_onOrderUpdate rnd r te = Inr te'"
  shows "trading_right algo cfg (te'\<lparr>te_responses := rs\<rparr>) live"
proof -
  let ?m = "order_manager te" and ?k = "position_keeper te"
  have o: "orders_right ?m (r # rs) live" "exposure_right cfg ?m ?k" "risk_manager te = new_RiskManager cfg" "te_algo te = algo"
    using ok rs by (simp_all add: trading_right_def)
  obtain te1 where te1: "(if resp_type r = RESP_FILLED then bindE (keeper_addFill rnd r ?k) (\<lambda>k. Inr (te\<lparr>position_keeper := k\<rparr>)) else Inr te) = Inr te1"
      "bindE (algoOnOrderUpdate r te1) (\<lambda>m. Inr (te1\<lparr>order_manager := m\<rparr>)) = Inr te'"
    using run unfolding engine_onOrderUpdate_def bindE_eq_Inr by blast
  obtain k where k: "te1 = te\<lparr>position_keeper := k\<rparr>" "if resp_type r = RESP_FILLED then keeper_addFill rnd r ?k = Inr k else k = ?k"
    using te1(1) by (cases "resp_type r = RESP_FILLED") (auto simp: bindE_eq_Inr)
  have "algoOnOrderUpdate r te1 = onOrderUpdate r ?m"
    using algo o(4) by (auto simp: algoOnOrderUpdate_def maker_onOrderUpdate_def taker_onOrderUpdate_def k(1))
  then obtain m' where m': "onOrderUpdate r ?m = Inr m'" "te' = te\<lparr>position_keeper := k, order_manager := m'\<rparr>"
    using te1(2) by (auto simp: bindE_eq_Inr k(1))
  note upd = onOrderUpdate_right [OF o(1) m'(1)]
  have "exposure_right cfg m' k"
  proof (cases "resp_type r = RESP_FILLED")
    case False
    then have "k = ?k" and le: "\<And>a. open_size (order_at a m') \<le> open_size (order_at a ?m)" using k(2) upd(2) by auto
    have "position (k t) + open_size (order_at (t, 0) m') \<le> limit cfg t \<and> - limit cfg t \<le> position (k t) - open_size (order_at (t, 1) m')"
      if "t < kMaxSymbols" for t
      using o(2) [unfolded exposure_right_def, rule_format, OF that] le [of "(t, 0)"] le [of "(t, 1)"] \<open>k = ?k\<close> by auto
    then show ?thesis unfolding exposure_right_def by blast
  next
    case True
    let ?t = "unat (resp_symbol_id r)"
    obtain j where j: "?t < kMaxSymbols" "j = 0 \<or> j = 1" "resp_side r = side_of j"
        "open_size (order_at (?t, j) ?m) = fill_size r + open_size (order_at (?t, j) m')"
        "\<And>a. a \<noteq> (?t, j) \<Longrightarrow> order_at a m' = order_at a ?m"
      using upd(2) True by (auto simp: places_def less_2_cases_iff)
    have "fill_side_ok r" using j(2,3) by (auto simp: fill_side_ok_def side_of_def)
    from addFill_position [OF this exposure_bound(2) [OF o(2) j(1)], of rnd] k(2) True
    have kt: "position (k ?t) = position (?k ?t) + fill_delta r" and ko: "\<And>t. t \<noteq> ?t \<Longrightarrow> k t = ?k t"
      by (auto simp: keeper_addFill_def Let_def bindE_eq_Inr split: if_splits)
    have e: "0 \<le> fill_size r" by (rule fill_size_bounds)
    show ?thesis unfolding exposure_right_def
    proof (intro allI impI)
      fix u assume u: "u < kMaxSymbols"
      note old = o(2) [unfolded exposure_right_def, rule_format, OF u]
      have other: "order_at (u, i) m' = order_at (u, i) ?m" if "(u, i) \<noteq> (?t, j)" for i using j(5) [OF that] .
      show "position (k u) + open_size (order_at (u, 0) m') \<le> limit cfg u \<and>
          - limit cfg u \<le> position (k u) - open_size (order_at (u, 1) m')"
      proof (cases "u = ?t")
        case False
        then show ?thesis using old other [of 0] other [of 1] ko by simp
      next
        case u: True
        have "fill_delta r = (if j = 0 then fill_size r else - fill_size r)"
          using j(2,3) by (auto simp: fill_delta_def side_of_def side_value_def side_byte_def)
        then show ?thesis using j(2) old other [of 0] other [of 1] kt j(4) e unfolding u by auto
      qed
    qed
  qed
  then show ?thesis using upd(1) o(3,4) by (simp add: trading_right_def m'(2))
qed

lemma trading_reach_right:
  assumes "trading_reach rnd debug client algo cfg te live" and algo: "algo = ALGO_MAKER \<or> algo = ALGO_TAKER"
  shows "trading_right algo cfg te live"
  using assms(1)
proof induction
  case start
  show ?case by (rule trading_right_start)
next
  case (market te live u te')
  then show ?case using market_keeps_right by blast
next
  case (response te live r rs te')
  then show ?case using response_keeps_right [OF _ algo] by blast
next
  case (accept te live q qs moid)
  then show ?case using accept_orders_right [of "order_manager te" "te_responses te" live q qs]
    by (simp add: trading_right_def respond_def take_request_def exposure_right_def fun_upd_def)
next
  case (cancel te live q qs sy s n moid px)
  then show ?case using cancel_live_orders_right [of "order_manager te" "te_responses te" live q qs]
    by (simp add: trading_right_def respond_def take_request_def exposure_right_def fun_upd_def)
next
  case (reject te live q qs)
  then show ?case using reject_orders_right [of "order_manager te" "te_responses te" live q qs]
    by (simp add: trading_right_def respond_def take_request_def exposure_right_def fun_upd_def)
next
  case (fill te live oid sy s n e moid px)
  then show ?case using fill_orders_right [of "order_manager te" "te_responses te" live oid sy s n e]
    by (simp add: trading_right_def respond_def fun_upd_def)
next
  case (stop te live)
  then show ?case by (simp add: trading_right_def)
qed

end
