(* ===== verification/Client_Contract.thy ===== *)
theory Client_Contract
  imports Matching_Engine Trading_Safety
begin

text \<open>
  The exchange keeps its contract with a client: what the matching engine answers, filtered for one
  client, are steps the client may rely on, and the orders live for the client are those that rest
  in the books under its id.
\<close>

section \<open>A client's orders in a book\<close>

definition resting_in :: "abook \<Rightarrow> (bool \<times> resting) set" where
  "resting_in ab = {(b, r). \<exists>t. r \<in> set (al_queue (ab_side ab b t))}"

definition one_key :: "ClientId \<Rightarrow> (bool \<times> resting) set \<Rightarrow> bool" where
  "one_key c X \<longleftrightarrow> (\<forall>x \<in> X. \<forall>y \<in> X. r_client (snd x) = c \<longrightarrow> r_client (snd y) = c \<longrightarrow> r_coid (snd x) = r_coid (snd y) \<longrightarrow> x = y)"

text \<open>The taker of a running match counts with what it has left.\<close>

type_synonym taker_part = "(OrderId \<times> Side \<times> Quantity) option"

definition book_live :: "ClientId \<Rightarrow> SymbolId \<Rightarrow> live_orders \<Rightarrow> (bool \<times> resting) set \<Rightarrow> taker_part \<Rightarrow> bool" where
  "book_live c sy live X tk \<longleftrightarrow> (\<forall>oid s n. live oid = Some (sy, s, n) \<longleftrightarrow>
     (\<exists>b r. (b, r) \<in> X \<and> r_client r = c \<and> r_coid r = oid \<and> s = dir b \<and> n = r_qty r) \<or> tk = Some (oid, s, n))"

definition keys_right :: "ClientId \<Rightarrow> (bool \<times> resting) set \<Rightarrow> taker_part \<Rightarrow> bool" where
  "keys_right c X tk \<longleftrightarrow> one_key c X \<and> (\<forall>oid s n. tk = Some (oid, s, n) \<longrightarrow> (\<forall>b r. (b, r) \<in> X \<longrightarrow> r_client r = c \<longrightarrow> r_coid r \<noteq> oid))"

section \<open>Fills\<close>

definition fill_step :: "live_orders \<Rightarrow> MatchingEngineClientResponse \<Rightarrow> live_orders" where
  "fill_step live r = live(resp_client_order_id r :=
     if resp_remaining_quantity r = 0 then None else Some (resp_symbol_id r, resp_side r, resp_remaining_quantity r))"

fun fills_allowed :: "ClientId \<Rightarrow> live_orders \<Rightarrow> MatchingEngineClientResponse list \<Rightarrow> bool" where
  "fills_allowed c live [] \<longleftrightarrow> True"
| "fills_allowed c live (r # rs) \<longleftrightarrow> resp_type r = RESP_FILLED \<and> resp_client_id r = c \<and>
     (\<exists>n. live (resp_client_order_id r) = Some (resp_symbol_id r, resp_side r, n) \<and> 0 < resp_executed_quantity r \<and>
        resp_executed_quantity r \<le> n \<and> resp_remaining_quantity r = n - resp_executed_quantity r) \<and>
     fills_allowed c (fill_step live r) rs"

lemma fills_allowed_append:
  "fills_allowed c live (rs @ rs') \<longleftrightarrow> fills_allowed c live rs \<and> fills_allowed c (foldl fill_step live rs) rs'"
  by (induction rs arbitrary: live) auto

text \<open>Only entries of the symbol change.\<close>

definition of_one_symbol :: "SymbolId \<Rightarrow> live_orders \<Rightarrow> live_orders \<Rightarrow> bool" where
  "of_one_symbol sy live live' \<longleftrightarrow> (\<forall>oid sy' s n. sy' \<noteq> sy \<longrightarrow> (live' oid = Some (sy', s, n) \<longleftrightarrow> live oid = Some (sy', s, n)))"

lemma of_one_symbol_refl [simp]: "of_one_symbol sy live live"
  by (simp add: of_one_symbol_def)

lemma of_one_symbol_trans: "of_one_symbol sy a b \<Longrightarrow> of_one_symbol sy b c \<Longrightarrow> of_one_symbol sy a c"
  by (simp add: of_one_symbol_def)

lemma fill_step_symbol:
  "live (resp_client_order_id r) = Some (sy, s, n) \<Longrightarrow> resp_symbol_id r = sy \<Longrightarrow> of_one_symbol sy live (fill_step live r)"
  by (auto simp: of_one_symbol_def fill_step_def)

lemma fills_reach:
  assumes "trading_reach rnd debug c algo cfg te live" and "fills_allowed c live rs"
  shows "trading_reach rnd debug c algo cfg (te\<lparr>te_responses := te_responses te @ rs\<rparr>) (foldl fill_step live rs)"
  using assms
proof (induction rs arbitrary: te live)
  case (Cons r rs)
  obtain n where n: "resp_type r = RESP_FILLED" "resp_client_id r = c" "live (resp_client_order_id r) = Some (resp_symbol_id r, resp_side r, n)"
      "0 < resp_executed_quantity r" "resp_executed_quantity r \<le> n" "resp_remaining_quantity r = n - resp_executed_quantity r"
    using Cons.prems(2) by auto
  have r: "r = answer RESP_FILLED c (resp_symbol_id r) (resp_client_order_id r) (resp_market_order_id r) (resp_side r) (resp_price r)
      (resp_executed_quantity r) (n - resp_executed_quantity r)"
    by (cases r) (use n in \<open>simp add: answer_def\<close>)
  note step = trading_reach.fill [OF Cons.prems(1) n(3,4,5), of "resp_market_order_id r" "resp_price r"]
  have "trading_reach rnd debug c algo cfg (respond r te) (fill_step live r)"
    unfolding fill_step_def n(6) by (rule step [folded r])
  then show ?case using Cons.IH [of "respond r te" "fill_step live r"] Cons.prems(2) by (simp add: respond_def)
qed simp

text \<open>A fill of a resting order, which leaves \<open>X'\<close> resting, and a fill of the taker.\<close>

definition after_fill :: "bool \<times> resting \<Rightarrow> Quantity \<Rightarrow> (bool \<times> resting) set \<Rightarrow> (bool \<times> resting) set" where
  "after_fill x e X = (X - {x}) \<union> (if r_qty (snd x) - e = 0 then {} else {(fst x, (snd x)\<lparr>r_qty := r_qty (snd x) - e\<rparr>)})"

lemma after_fill_keys:
  assumes "keys_right c X tk" and "x \<in> X"
  shows "keys_right c (after_fill x e X) tk"
proof -
  have o: "one_key c X" and t: "\<And>oid s n b r. tk = Some (oid, s, n) \<Longrightarrow> (b, r) \<in> X \<Longrightarrow> r_client r = c \<Longrightarrow> r_coid r \<noteq> oid"
    using assms(1) by (auto simp: keys_right_def)
  have one: "\<And>y z. y \<in> X \<Longrightarrow> z \<in> X \<Longrightarrow> r_client (snd y) = c \<Longrightarrow> r_client (snd z) = c \<Longrightarrow> r_coid (snd y) = r_coid (snd z) \<Longrightarrow> y = z"
    using o unfolding one_key_def by blast
  have old: "\<exists>z \<in> X. (y = z \<and> z \<noteq> x \<or> z = x \<and> y = (fst x, (snd x)\<lparr>r_qty := r_qty (snd x) - e\<rparr>))" if "y \<in> after_fill x e X" for y
    using that assms(2) by (auto simp: after_fill_def split: if_splits)
  have "one_key c (after_fill x e X)" unfolding one_key_def
  proof (intro ballI impI)
    fix y z assume y: "y \<in> after_fill x e X" and z: "z \<in> after_fill x e X"
      and k: "r_client (snd y) = c" "r_client (snd z) = c" "r_coid (snd y) = r_coid (snd z)"
    obtain y0 where y0: "y0 \<in> X" "y = y0 \<and> y0 \<noteq> x \<or> y0 = x \<and> y = (fst x, (snd x)\<lparr>r_qty := r_qty (snd x) - e\<rparr>)" using old [OF y] by blast
    obtain z0 where z0: "z0 \<in> X" "z = z0 \<and> z0 \<noteq> x \<or> z0 = x \<and> z = (fst x, (snd x)\<lparr>r_qty := r_qty (snd x) - e\<rparr>)" using old [OF z] by blast
    have "y0 = z0" using one [OF y0(1) z0(1)] y0(2) z0(2) k by auto
    then show "y = z" using y0(2) z0(2) by auto
  qed
  moreover have "r_coid r \<noteq> oid" if p: "tk = Some (oid, s, n)" "(b, r) \<in> after_fill x e X" "r_client r = c" for oid s n b r
  proof -
    obtain z where z: "z \<in> X" "(b, r) = z \<or> z = x \<and> (b, r) = (fst x, (snd x)\<lparr>r_qty := r_qty (snd x) - e\<rparr>)"
      using old [OF p(2)] by blast
    then have "r_client (snd z) = c" "r_coid (snd z) = r_coid r" using p(3) by auto
    then show ?thesis using t [OF p(1), of "fst z" "snd z"] z(1) by auto
  qed
  ultimately show ?thesis unfolding keys_right_def by blast
qed

lemma maker_fill_allowed:
  fixes band :: PriceBand
  assumes bl: "book_live c sy live X tk" and k: "keys_right c X tk" and x: "(b, r) \<in> X" "r_client r = c"
    and f: "f_maker f = r" "f_qty f = e" "0 < e" "e \<le> r_qty r"
  defines "m \<equiv> maker_response sy band (dir b) f"
  shows "fills_allowed c live [m]" "book_live c sy (fill_step live m) (after_fill (b, r) e X) tk" "of_one_symbol sy live (fill_step live m)"
proof -
  have lv: "live (r_coid r) = Some (sy, dir b, r_qty r)" using bl x unfolding book_live_def by blast
  have m: "resp_type m = RESP_FILLED" "resp_client_id m = c" "resp_client_order_id m = r_coid r" "resp_symbol_id m = sy"
      "resp_side m = dir b" "resp_executed_quantity m = e" "resp_remaining_quantity m = r_qty r - e"
    using x(2) f(1,2) by (simp_all add: m_def maker_response_def)
  show "fills_allowed c live [m]" using m lv f(3,4) by simp
  show "of_one_symbol sy live (fill_step live m)" using fill_step_symbol [of live m sy "dir b" "r_qty r"] m lv by simp
  have one: "\<And>y z. y \<in> X \<Longrightarrow> z \<in> X \<Longrightarrow> r_client (snd y) = c \<Longrightarrow> r_client (snd z) = c \<Longrightarrow> r_coid (snd y) = r_coid (snd z) \<Longrightarrow> y = z"
    using k unfolding keys_right_def one_key_def by blast
  have tk: "tk \<noteq> Some (r_coid r, s, n)" for s n using k x unfolding keys_right_def by fast
  show "book_live c sy (fill_step live m) (after_fill (b, r) e X) tk" unfolding book_live_def
  proof (intro allI)
    fix oid s n
    let ?rest = "\<lambda>Y. \<exists>b r. (b, r) \<in> Y \<and> r_client r = c \<and> r_coid r = oid \<and> s = dir b \<and> n = r_qty r"
    show "fill_step live m oid = Some (sy, s, n) \<longleftrightarrow> ?rest (after_fill (b, r) e X) \<or> tk = Some (oid, s, n)"
    proof (cases "oid = r_coid r")
      case True
      have "?rest (after_fill (b, r) e X) \<longleftrightarrow> r_qty r - e \<noteq> 0 \<and> s = dir b \<and> n = r_qty r - e"
      proof
        assume "?rest (after_fill (b, r) e X)"
        then obtain b' r' where y: "(b', r') \<in> after_fill (b, r) e X" "r_client r' = c" "r_coid r' = r_coid r" "s = dir b'" "n = r_qty r'"
          using True by blast
        have "(b', r') \<notin> X - {(b, r)}" using one [of "(b', r')" "(b, r)"] x y(2,3) by auto
        then have "r_qty r - e \<noteq> 0 \<and> b' = b \<and> r' = r\<lparr>r_qty := r_qty r - e\<rparr>"
          using y(1) unfolding after_fill_def by (cases "r_qty r - e = 0") auto
        then show "r_qty r - e \<noteq> 0 \<and> s = dir b \<and> n = r_qty r - e" using y(4,5) by simp
      next
        assume "r_qty r - e \<noteq> 0 \<and> s = dir b \<and> n = r_qty r - e"
        then show "?rest (after_fill (b, r) e X)" using True x(2)
          by (intro exI [of _ b] exI [of _ "r\<lparr>r_qty := r_qty r - e\<rparr>"]) (simp add: after_fill_def)
      qed
      then show ?thesis using True m tk by (auto simp: fill_step_def)
    next
      case False
      have "?rest (after_fill (b, r) e X) \<longleftrightarrow> ?rest X" using False by (auto simp: after_fill_def split: if_splits)
      then show ?thesis using False m bl by (simp add: fill_step_def book_live_def)
    qed
  qed
qed

lemma other_maker_fill:
  assumes bl: "book_live c sy live X tk" and x: "(b, r) \<in> X" "r_client r \<noteq> c"
  shows "book_live c sy live (after_fill (b, r) e X) tk"
proof -
  have "(\<exists>b' r'. (b', r') \<in> after_fill (b, r) e X \<and> r_client r' = c \<and> r_coid r' = oid \<and> s = dir b' \<and> n = r_qty r') \<longleftrightarrow>
    (\<exists>b' r'. (b', r') \<in> X \<and> r_client r' = c \<and> r_coid r' = oid \<and> s = dir b' \<and> n = r_qty r')" for oid s n
    using x by (auto simp: after_fill_def)
  then show ?thesis using bl unfolding book_live_def by simp
qed

lemma taker_fill_allowed:
  assumes bl: "book_live c sy live X (Some (oid, s, q))" and k: "keys_right c X (Some (oid, s, q))"
    and t: "resp_type m = RESP_FILLED" "resp_client_id m = c" "resp_client_order_id m = oid" "resp_symbol_id m = sy"
      "resp_side m = s" "resp_executed_quantity m = e" "resp_remaining_quantity m = q - e" and e: "0 < e" "e \<le> q"
  defines "tk \<equiv> if q - e = 0 then None else Some (oid, s, q - e)"
  shows "fills_allowed c live [m]" "book_live c sy (fill_step live m) X tk" "keys_right c X tk" "of_one_symbol sy live (fill_step live m)"
proof -
  have lv: "live oid = Some (sy, s, q)" using bl unfolding book_live_def by blast
  show "fills_allowed c live [m]" using t lv e by simp
  show "of_one_symbol sy live (fill_step live m)" using fill_step_symbol [of live m sy s q] t lv by simp
  show "keys_right c X tk" using k by (auto simp: keys_right_def tk_def)
  have fresh: "\<And>b r. (b, r) \<in> X \<Longrightarrow> r_client r = c \<Longrightarrow> r_coid r \<noteq> oid" using k by (auto simp: keys_right_def)
  show "book_live c sy (fill_step live m) X tk" unfolding book_live_def
  proof (intro allI)
    fix i s' n
    show "fill_step live m i = Some (sy, s', n) \<longleftrightarrow>
        (\<exists>b r. (b, r) \<in> X \<and> r_client r = c \<and> r_coid r = i \<and> s' = dir b \<and> n = r_qty r) \<or> tk = Some (i, s', n)"
      using bl fresh t by (cases "i = oid") (auto simp: fill_step_def tk_def book_live_def)
  qed
qed

section \<open>A match\<close>

lemma resting_put:
  assumes u: "uniq ab" and q: "al_queue (ab_side ab b t) = as @ r # bs"
  shows "resting_in (upd_side b (put_queue t (as @ bs)) ab) = resting_in ab - {(b, r)}"
    "r_moid r' = r_moid r \<Longrightarrow> resting_in (upd_side b (put_queue t (as @ r' # bs)) ab) = insert (b, r') (resting_in ab - {(b, r)})"
proof -
  have d: "distinct (map r_moid (as @ r # bs))" using u q by (metis uniq_def)
  have rin: "r \<in> set (al_queue (ab_side ab b t))" using q by simp
  have only: "u = t" if "r \<in> set (al_queue (ab_side ab b u))" for u using uniq_place [OF u that rin] by simp
  have r: "r \<notin> set (as @ bs)" using d by auto
  have mem: "(s, x) \<in> resting_in (upd_side b (put_queue t q') ab) \<longleftrightarrow>
      (if s = b then x \<in> set q' \<or> (\<exists>u. u \<noteq> t \<and> x \<in> set (al_queue (ab_side ab b u))) else (s, x) \<in> resting_in ab)" for s x q'
    by (auto simp: resting_in_def put_side_queue)
  have old: "(b, x) \<in> resting_in ab \<longleftrightarrow> x \<in> set (as @ r # bs) \<or> (\<exists>u. u \<noteq> t \<and> x \<in> set (al_queue (ab_side ab b u)))" for x
    unfolding q [symmetric] resting_in_def by auto
  have away: "x \<noteq> r" if "u \<noteq> t" "x \<in> set (al_queue (ab_side ab b u))" for x u using only that by blast
  show "resting_in (upd_side b (put_queue t (as @ bs)) ab) = resting_in ab - {(b, r)}"
  proof (rule set_eqI, clarify)
    fix s x
    show "(s, x) \<in> resting_in (upd_side b (put_queue t (as @ bs)) ab) \<longleftrightarrow> (s, x) \<in> resting_in ab - {(b, r)}"
      using r away old [of x] unfolding mem by (cases "s = b") auto
  qed
  show "resting_in (upd_side b (put_queue t (as @ r' # bs)) ab) = insert (b, r') (resting_in ab - {(b, r)})"
  proof (rule set_eqI, clarify)
    fix s x
    show "(s, x) \<in> resting_in (upd_side b (put_queue t (as @ r' # bs)) ab) \<longleftrightarrow> (s, x) \<in> insert (b, r') (resting_in ab - {(b, r)})"
      using r away old [of x] unfolding mem by (cases "s = b") auto
  qed
qed

text \<open>What the taker counts with.\<close>

definition taker_left :: "ClientId \<Rightarrow> TakerOrder \<Rightarrow> Quantity \<Rightarrow> taker_part" where
  "taker_left c k q = (if tk_client_id k = c \<and> q \<noteq> 0 then Some (tk_client_order_id k, tk_side k, q) else None)"

definition to_client :: "ClientId \<Rightarrow> MatchingEngineClientResponse list \<Rightarrow> MatchingEngineClientResponse list" where
  "to_client c rs = filter (\<lambda>r. resp_client_id r = c) rs"

lemma to_client_simps [simp]:
  "to_client c [] = []" "to_client c (r # rs) = (if resp_client_id r = c then r # to_client c rs else to_client c rs)"
  "to_client c (rs @ rs') = to_client c rs @ to_client c rs'"
  by (simp_all add: to_client_def)

text \<open>One fill: the taker's response, then the maker's.\<close>

lemma fill_pair_allowed:
  fixes sy :: SymbolId and band :: PriceBand
  assumes bl: "book_live c sy live X (taker_left c k q)" and ks: "keys_right c X (taker_left c k q)"
    and x: "(b, r) \<in> X" and f: "f_maker f = r" "f_qty f = e" "0 < e" "e \<le> r_qty r" "e \<le> q"
  defines "rs \<equiv> to_client c [taker_response sy band k (q - e) f, maker_response sy band (dir b) f]"
  shows "fills_allowed c live rs \<and> book_live c sy (foldl fill_step live rs) (after_fill (b, r) e X) (taker_left c k (q - e)) \<and>
    keys_right c (after_fill (b, r) e X) (taker_left c k (q - e)) \<and> of_one_symbol sy live (foldl fill_step live rs)"
proof -
  let ?t = "taker_response sy band k (q - e) f" and ?m = "maker_response sy band (dir b) f"
  define live1 where "live1 = foldl fill_step live (to_client c [?t])"
  have t: "resp_type ?t = RESP_FILLED" "resp_client_id ?t = tk_client_id k" "resp_client_order_id ?t = tk_client_order_id k"
      "resp_symbol_id ?t = sy" "resp_side ?t = tk_side k" "resp_executed_quantity ?t = e" "resp_remaining_quantity ?t = q - e"
    using f(2) by (simp_all add: taker_response_def)
  have m: "resp_client_id ?m = r_client r" using f(1) by (simp add: maker_response_def)
  have q: "q \<noteq> 0" using f(3,5) by (auto simp: word_greater_zero_iff)
  have one: "fills_allowed c live (to_client c [?t]) \<and> book_live c sy live1 X (taker_left c k (q - e)) \<and>
      keys_right c X (taker_left c k (q - e)) \<and> of_one_symbol sy live live1"
  proof (cases "tk_client_id k = c")
    case True
    have tl: "taker_left c k q = Some (tk_client_order_id k, tk_side k, q)"
      "taker_left c k (q - e) = (if q - e = 0 then None else Some (tk_client_order_id k, tk_side k, q - e))"
      using True q by (simp_all add: taker_left_def)
    note step = taker_fill_allowed [OF bl [unfolded tl] ks [unfolded tl] t(1) _ t(3-7) f(3,5)]
    show ?thesis using step True t(2) by (simp add: live1_def tl(2))
  next
    case False
    then show ?thesis using bl ks t(2) by (simp add: live1_def taker_left_def)
  qed
  have fold: "foldl fill_step live rs = foldl fill_step live1 (to_client c [?m])"
    "fills_allowed c live rs \<longleftrightarrow> fills_allowed c live (to_client c [?t]) \<and> fills_allowed c live1 (to_client c [?m])"
    using fills_allowed_append [of c live "to_client c [?t]" "to_client c [?m]"] by (simp_all add: rs_def live1_def)
  have ks2: "keys_right c (after_fill (b, r) e X) (taker_left c k (q - e))" using one x by (intro after_fill_keys) simp_all
  show ?thesis
  proof (cases "r_client r = c")
    case True
    from one maker_fill_allowed [OF _ _ x True f(1-4), of sy live1 "taker_left c k (q - e)" band] True m ks2 fold
    show ?thesis using of_one_symbol_trans by auto
  next
    case False
    from one other_maker_fill [OF _ x False, of sy live1 "taker_left c k (q - e)" e] False m ks2 fold
    show ?thesis by auto
  qed
qed

lemma fill_responses_append:
  "fill_queue t q rs = (fs, left, rs') \<Longrightarrow>
   fill_responses sy band k q (fs @ gs) = fill_responses sy band k q fs @ fill_responses sy band k left gs"
proof (induction t q rs arbitrary: fs rule: fill_queue.induct)
  case (2 t q r rs)
  then show ?case by (cases "q = 0") (auto simp: Let_def split: if_splits prod.splits)
qed simp

lemma queue_allowed:
  "fill_queue t q rs = (fs, left, rs') \<Longrightarrow> uniq ab \<Longrightarrow> al_queue (ab_side ab b t) = rs \<Longrightarrow> \<forall>r \<in> set rs. 0 < r_qty r \<Longrightarrow>
   b = (tk_side k \<noteq> BUY) \<Longrightarrow> book_live c sy live (resting_in ab) (taker_left c k q) \<Longrightarrow>
   keys_right c (resting_in ab) (taker_left c k q) \<Longrightarrow>
   fills_allowed c live (to_client c (fill_responses sy band k q fs)) \<and>
   (let live' = foldl fill_step live (to_client c (fill_responses sy band k q fs)); ab' = upd_side b (put_queue t rs') ab in
    book_live c sy live' (resting_in ab') (taker_left c k left) \<and> keys_right c (resting_in ab') (taker_left c k left) \<and>
    uniq ab' \<and> of_one_symbol sy live live')"
proof (induction t q rs arbitrary: fs ab live rule: fill_queue.induct)
  case (1 t q)
  have "resting_in (upd_side b (put_queue t []) ab) = resting_in ab" "uniq (upd_side b (put_queue t []) ab) = uniq ab"
    using tracks_cong(2) [OF put_same [OF 1(3)]] put_same [OF 1(3)] by (simp_all add: resting_in_def)
  then show ?case using 1 by (simp add: Let_def)
next
  case (2 t q r rs)
  define e where "e = min q (r_qty r)"
  define f where "f = \<lparr>f_tick = t, f_maker = r, f_qty = e\<rparr>"
  show ?case
  proof (cases "q = 0")
    case True
    then have out: "fs = []" "left = 0" "rs' = r # rs" using 2(2) by auto
    have "resting_in (upd_side b (put_queue t (r # rs)) ab) = resting_in ab" "uniq (upd_side b (put_queue t (r # rs)) ab) = uniq ab"
      using tracks_cong(2) [OF put_same [OF 2(4)]] put_same [OF 2(4)] by (simp_all add: resting_in_def)
    then show ?thesis using 2 True out by (simp add: Let_def)
  next
    case nz: False
    have pos: "0 < r_qty r" using 2(5) by simp
    have e: "0 < e" "e \<le> r_qty r" "e \<le> q" using nz pos by (auto simp: e_def min_def word_gt_0)
    have x: "(b, r) \<in> resting_in ab" unfolding resting_in_def using 2(4) by (auto intro: exI [of _ t])
    let ?rs = "to_client c [taker_response sy band k (q - e) f, maker_response sy band (dir b) f]"
    define live1 where "live1 = foldl fill_step live ?rs"
    from fill_pair_allowed [OF 2(7,8) x, of f e band] e
    have one: "fills_allowed c live ?rs" "book_live c sy live1 (after_fill (b, r) e (resting_in ab)) (taker_left c k (q - e))"
      "keys_right c (after_fill (b, r) e (resting_in ab)) (taker_left c k (q - e))" "of_one_symbol sy live live1"
      by (simp_all add: f_def live1_def)
    have resp: "fill_responses sy band k q (f # gs) =
        [taker_response sy band k (q - e) f, maker_response sy band (dir b) f] @ fill_responses sy band k (q - e) gs" for gs
      using 2(6) by (simp add: f_def)
    have d: "distinct (map r_moid (r # rs))" using 2(3,4) by (metis uniq_def)
    show ?thesis
    proof (cases "r_qty r - e = 0")
      case True
      obtain fs' where rec: "fill_queue t (q - e) rs = (fs', left, rs')" "fs = f # fs'"
        using 2(2) nz True by (auto simp: Let_def e_def [symmetric] f_def split: prod.splits if_splits)
      let ?ab1 = "upd_side b (put_queue t rs) ab"
      have ab1: "resting_in ?ab1 = after_fill (b, r) e (resting_in ab)"
        using resting_put(1) [OF 2(3), of b t "[]" r rs] 2(4) True by (simp add: after_fill_def)
      have un1: "uniq ?ab1" using uniq_put [OF 2(3), of rs b t] d 2(4) by (auto simp: moids_def)
      have seq: "upd_side b (put_queue t rs') ?ab1 = upd_side b (put_queue t rs') ab"
        using rec(1) by (simp add: upd_side_comp) (metis (no_types, lifting) put_queue_seq fill_queue.simps(1) prod.inject)
      have "fills_allowed c live1 (to_client c (fill_responses sy band k (q - e) fs')) \<and>
         (let live' = foldl fill_step live1 (to_client c (fill_responses sy band k (q - e) fs')); ab' = upd_side b (put_queue t rs') ?ab1 in
          book_live c sy live' (resting_in ab') (taker_left c k left) \<and> keys_right c (resting_in ab') (taker_left c k left) \<and>
          uniq ab' \<and> of_one_symbol sy live1 live')"
        by (rule 2(1) [OF nz e_def f_def True rec(1) un1 _ _ 2(6)])
          (use 2(5) one in \<open>simp_all add: put_side_queue ab1\<close>)
      then show ?thesis
        using one(1,4) of_one_symbol_trans [of sy live live1]
        by (simp only: rec(2) resp to_client_simps(3) fills_allowed_append foldl_append live1_def [symmetric] seq Let_def)
    next
      case False
      define r' where "r' = r\<lparr>r_qty := r_qty r - e\<rparr>"
      have out: "fs = [f]" "rs' = r' # rs" "left = q - e"
        using 2(2) nz False by (auto simp: Let_def e_def [symmetric] f_def r'_def split: prod.splits if_splits)
      have "resting_in (upd_side b (put_queue t (r' # rs)) ab) = after_fill (b, r) e (resting_in ab)"
        using resting_put(2) [OF 2(3), of b t "[]" r rs r'] 2(4) False by (simp add: after_fill_def r'_def)
      moreover have "uniq (upd_side b (put_queue t (r' # rs)) ab)"
        using uniq_put [OF 2(3), of "r' # rs" b t] d 2(4) by (auto simp: moids_def r'_def)
      ultimately show ?thesis using one resp [of "[]"] by (simp add: out Let_def live1_def)
    qed
  qed
qed

lemma levels_allowed:
  "fill_levels ts q (ab_side ab b) = (fs, left, a') \<Longrightarrow> uniq ab \<Longrightarrow> \<forall>t. level_wf n (ab_side ab b t) \<Longrightarrow> 0 < unat n \<Longrightarrow>
   b = (tk_side k \<noteq> BUY) \<Longrightarrow> book_live c sy live (resting_in ab) (taker_left c k q) \<Longrightarrow>
   keys_right c (resting_in ab) (taker_left c k q) \<Longrightarrow>
   fills_allowed c live (to_client c (fill_responses sy band k q fs)) \<and>
   (let live' = foldl fill_step live (to_client c (fill_responses sy band k q fs)); ab' = upd_side b (\<lambda>_. a') ab in
    book_live c sy live' (resting_in ab') (taker_left c k left) \<and> keys_right c (resting_in ab') (taker_left c k left) \<and>
    of_one_symbol sy live live')"
proof (induction ts arbitrary: q ab live fs)
  case Nil
  then have "upd_side b (\<lambda>_. a') ab = ab" by (intro upd_side_id) simp
  with Nil show ?case by (simp add: Let_def)
next
  case (Cons t ts)
  show ?case
  proof (cases "q = 0")
    case True
    then have "upd_side b (\<lambda>_. a') ab = ab" "fs = []" "left = q" using Cons.prems(1) by (auto intro!: upd_side_id)
    with Cons.prems show ?thesis by (simp add: Let_def)
  next
    case False
    let ?a = "ab_side ab b"
    obtain fs1 q1 rs where lv: "fill_queue t q (al_queue (?a t)) = (fs1, q1, rs)" by (metis prod_cases3)
    obtain fs2 where rst: "fill_levels ts q1 (put_queue t rs ?a) = (fs2, left, a')" "fs = fs1 @ fs2"
      using Cons.prems(1) lv False by (auto split: prod.splits)
    define ab1 where "ab1 = upd_side b (put_queue t rs) ab"
    define live1 where "live1 = foldl fill_step live (to_client c (fill_responses sy band k q fs1))"
    have pos: "\<forall>r \<in> set (al_queue (?a t)). 0 < r_qty r" using Cons.prems(3) by (simp add: level_wf_def)
    from queue_allowed [OF lv Cons.prems(2) refl pos Cons.prems(5-7), of band]
    have one: "fills_allowed c live (to_client c (fill_responses sy band k q fs1))"
      "book_live c sy live1 (resting_in ab1) (taker_left c k q1)" "keys_right c (resting_in ab1) (taker_left c k q1)"
      "uniq ab1" "of_one_symbol sy live live1"
      by (simp_all add: ab1_def live1_def Let_def)
    have a1: "ab_side ab1 b = put_queue t rs ?a" by (simp add: ab1_def upd_side_def)
    have wf1: "\<forall>u. level_wf n (ab_side ab1 b u)"
    proof
      fix u show "level_wf n (ab_side ab1 b u)"
        unfolding a1 using level_wf_put [of n ?a t rs] fill_queue_shrunk [OF lv] Cons.prems(3,4)
        by (cases "u = t") auto
    qed
    have "upd_side b (\<lambda>_. a') ab1 = upd_side b (\<lambda>_. a') ab" by (simp add: ab1_def upd_side_comp)
    with Cons.IH [OF rst(1) [folded a1] one(4) wf1 Cons.prems(4,5) one(2,3)] one(1,5) of_one_symbol_trans [of sy live live1]
    show ?thesis
      by (simp add: rst(2) fill_responses_append [OF lv] fills_allowed_append live1_def [symmetric] Let_def)
  qed
qed

section \<open>A request\<close>

lemma book_one_key:
  assumes "book_inv bk"
  shows "one_key c (resting_in (book_abs bk))"
    "FindOrder c oid bk = Inr None \<Longrightarrow> unat c < kMaxNumClients \<Longrightarrow> unat oid < kMaxOrderIds \<Longrightarrow>
      (b, r) \<in> resting_in (book_abs bk) \<Longrightarrow> r_client r = c \<Longrightarrow> r_coid r \<noteq> oid"
proof -
  obtain Q where rel: "book_rel bk Q" and aok: "abook_ok (book_abs bk)" using assms by (auto simp: book_inv_def)
  note abs = book_abs_eq [OF rel]
  have at: "\<exists>t i. i \<in> set (Q b t) \<and> r = rest (lookup (order_pool bk)) i \<and> r \<in> set (al_queue (ab_side (book_abs bk) b t)) \<and>
      idx bk (unat (r_client r)) (unat (r_coid r)) = Some i" if p: "(b, r) \<in> resting_in (book_abs bk)" for b r
  proof -
    obtain t where t: "r \<in> set (al_queue (ab_side (book_abs bk) b t))" using p by (auto simp: resting_in_def)
    then obtain i where i: "i \<in> set (Q b t)" "r = rest (lookup (order_pool bk)) i" by (auto simp: abs abs_queue)
    have "has_key (r_client r) (r_coid r) (rest (lookup (order_pool bk)) i)" using i(2) by (simp add: has_key_def)
    then show ?thesis using rest_key [OF rel i(1)] i t by blast
  qed
  show "one_key c (resting_in (book_abs bk))" unfolding one_key_def
  proof (intro ballI impI)
    fix x y assume x: "x \<in> resting_in (book_abs bk)" and y: "y \<in> resting_in (book_abs bk)"
      and k: "r_client (snd x) = c" "r_client (snd y) = c" "r_coid (snd x) = r_coid (snd y)"
    obtain b r b' r' where xy: "x = (b, r)" "y = (b', r')" by (cases x; cases y)
    from at [OF x [unfolded xy]] obtain t i where i: "r = rest (lookup (order_pool bk)) i" "r \<in> set (al_queue (ab_side (book_abs bk) b t))"
        "idx bk (unat (r_client r)) (unat (r_coid r)) = Some i" by blast
    from at [OF y [unfolded xy]] obtain u j where j: "r' = rest (lookup (order_pool bk)) j" "r' \<in> set (al_queue (ab_side (book_abs bk) b' u))"
        "idx bk (unat (r_client r')) (unat (r_coid r')) = Some j" by blast
    have "r_client r = r_client r'" "r_coid r = r_coid r'" using k xy by simp_all
    then have "i = j" using i(3) j(3) by simp
    then have "r = r'" using i(1) j(1) by simp
    then show "x = y" using uniq_place [OF abook_ok_uniq [OF aok] i(2) j(2)] xy by simp
  qed
  show "r_coid r \<noteq> oid"
    if f: "FindOrder c oid bk = Inr None" "unat c < kMaxNumClients" "unat oid < kMaxOrderIds" "(b, r) \<in> resting_in (book_abs bk)" "r_client r = c"
  proof
    assume "r_coid r = oid"
    then obtain i where "idx bk (unat c) (unat oid) = Some i" using at [OF f(4)] f(5) by blast
    then show False using FindOrder_rel [OF rel f(2,3)] f(1) by simp
  qed
qed

lemma FindOrder_free:
  assumes inv: "book_inv bk" and ids: "unat c < kMaxNumClients" "unat oid < kMaxOrderIds"
    and no: "\<And>b r. (b, r) \<in> resting_in (book_abs bk) \<Longrightarrow> r_client r = c \<Longrightarrow> r_coid r \<noteq> oid"
  shows "FindOrder c oid bk = Inr None"
proof -
  obtain Q where rel: "book_rel bk Q" using inv by (auto simp: book_inv_def)
  have "spec_find c oid (book_abs bk) = None"
  proof (cases "spec_find c oid (book_abs bk)")
    case (Some place)
    obtain b t r where place: "place = (b, t, r)" by (cases place)
    have r: "r \<in> set (al_queue (ab_side (book_abs bk) b t))" "r_client r = c" "r_coid r = oid"
      using spec_find_SomeD [OF Some [unfolded place]] by (auto simp: has_key_def)
    then have "(b, r) \<in> resting_in (book_abs bk)" unfolding resting_in_def by blast
    then show ?thesis using no r(2,3) by blast
  qed simp
  then show ?thesis using FindOrder_rel [OF rel ids] spec_find_idx(1) [OF rel, of c oid] by (simp add: book_abs_eq [OF rel])
qed

lemma add_allowed:
  assumes inv: "book_inv bk" and ok: "valid_request (Add_Request cid coid side price qty) bk"
    and bl: "book_live c sy live (resting_in (book_abs bk)) None" and fresh: "cid = c \<Longrightarrow> live coid = None"
  defines "x \<equiv> spec_add sy (bk_band bk) cid coid side price qty (book_abs bk)"
    and "live0 \<equiv> if cid = c then live(coid \<mapsto> (sy, side, qty)) else live"
  shows "\<exists>moid frs. to_client c (out_responses x) = (if cid = c then [accepted sy cid coid moid side price qty] else []) @ frs \<and>
    fills_allowed c live0 frs \<and> book_live c sy (foldl fill_step live0 frs) (resting_in (out_book x)) None \<and>
    of_one_symbol sy live (foldl fill_step live0 frs)"
proof -
  define ab where "ab = book_abs bk"
  define buy where "buy = (side = BUY)"
  define limit where "limit = ToTick (bk_band bk) price"
  define k where "k = \<lparr>tk_client_id = cid, tk_client_order_id = coid, tk_market_order_id = ab_next ab, tk_side = side,
    tk_limit_tick = limit, tk_quantity = qty\<rparr>"
  have aok: "abook_ok ab" using inv by (simp add: book_inv_def ab_def)
  let ?opp = "ab_side ab (\<not> buy)"
  obtain fs left a' where m: "fill_levels (crossing_ticks buy limit ?opp) qty ?opp = (fs, left, a')" by (metis prod_cases3)
  have v: "side = dir buy" "qty \<noteq> 0" "unat cid < kMaxNumClients" "unat coid < kMaxOrderIds" "FindOrder cid coid bk = Inr None"
    using ok by (auto simp: valid_request_def buy_def dir_def)
  have tl: "taker_left c k q = (if cid = c \<and> q \<noteq> 0 then Some (coid, side, q) else None)" for q by (simp add: taker_left_def k_def)
  have bl0: "book_live c sy live0 (resting_in ab) (taker_left c k qty)"
  proof (cases "cid = c")
    case True
    have no: "\<not> (\<exists>b r. (b, r) \<in> resting_in ab \<and> r_client r = c \<and> r_coid r = coid)"
      using book_one_key(2) [OF inv v(5,3,4)] True by (auto simp: ab_def)
    show ?thesis using bl True no v(2) unfolding tl live0_def book_live_def ab_def [symmetric] by (auto split: if_splits)
  next
    case False
    then show ?thesis using bl by (simp add: live0_def tl ab_def)
  qed
  have ks0: "keys_right c (resting_in ab) (taker_left c k qty)"
    using book_one_key(1) [OF inv, of c] book_one_key(2) [OF inv v(5,3,4)] unfolding keys_right_def tl ab_def by (auto split: if_splits)
  have sy0: "of_one_symbol sy live live0"
    using fresh by (auto simp: of_one_symbol_def live0_def)
  define frs where "frs = to_client c (fill_responses sy (bk_band bk) k qty fs)"
  define live1 where "live1 = foldl fill_step live0 frs"
  define ab1 where "ab1 = upd_side (\<not> buy) (\<lambda>_. a') ab"
  have side: "(\<not> buy) = (tk_side k \<noteq> BUY)" by (simp add: buy_def k_def)
  from levels_allowed [OF m abook_ok_uniq [OF aok] _ abook_ok_next_pos [OF aok] side bl0 ks0, of "bk_band bk"] abook_ok_level [OF aok]
  have lv: "fills_allowed c live0 frs" "book_live c sy live1 (resting_in ab1) (taker_left c k left)" "of_one_symbol sy live0 live1"
    by (simp_all add: frs_def live1_def ab1_def Let_def)
  define r where "r = \<lparr>r_client = cid, r_coid = coid, r_moid = ab_next ab, r_qty = left,
    r_prio = al_next (ab_side ab1 buy (nat limit))\<rparr>"
  have xs: "out_responses x = accepted sy cid coid (ab_next ab) side price qty # fill_responses sy (bk_band bk) k qty fs"
    "out_book x = (if left = 0 then ab1\<lparr>ab_next := ab_next ab + 1\<rparr>
         else upd_side buy (push_order (nat limit) r) (ab1\<lparr>ab_next := ab_next ab + 1\<rparr>))"
    using m by (simp_all add: x_def spec_add_def Let_def ab_def [symmetric] buy_def [symmetric]
        limit_def [symmetric] ab1_def r_def k_def upd_side_next)
  have "book_live c sy live1 (resting_in (out_book x)) None"
  proof (cases "left = 0")
    case True
    have "resting_in (out_book x) = resting_in ab1" using True by (simp add: xs(2) resting_in_def)
    then show ?thesis using lv(2) True by (simp add: tl)
  next
    case False
    have mem: "y \<in> set (al_queue (ab_side (out_book x) s u)) \<longleftrightarrow>
        y \<in> set (al_queue (ab_side ab1 s u)) \<or> s = buy \<and> u = nat limit \<and> y = r" for y s u
      using False by (auto simp: xs(2) upd_side_def push_order_def)
    have out: "resting_in (out_book x) = insert (buy, r) (resting_in ab1)" unfolding resting_in_def mem by blast
    have r: "r_client r = cid" "r_coid r = coid" "r_qty r = left" by (simp_all add: r_def)
    show ?thesis using lv(2) False r v(1) unfolding out tl book_live_def by (auto split: if_splits)
  qed
  moreover have "to_client c (out_responses x) = (if cid = c then [accepted sy cid coid (ab_next ab) side price qty] else []) @ frs"
    by (simp add: xs(1) frs_def accepted_def)
  ultimately show ?thesis using lv(1,3) sy0 of_one_symbol_trans [of sy live live0 live1] unfolding live1_def by blast
qed

lemma cancel_allowed:
  assumes inv: "book_inv bk" and ok: "valid_request (Cancel_Request cid coid) bk"
    and bl: "book_live c sy live (resting_in (book_abs bk)) None"
  defines "x \<equiv> spec_cancel sy (bk_band bk) cid coid (book_abs bk)"
  shows "\<exists>live'. book_live c sy live' (resting_in (out_book x)) None \<and> of_one_symbol sy live live' \<and>
    (if cid \<noteq> c then live' = live \<and> to_client c (out_responses x) = []
     else (\<exists>moid s px n. live coid = Some (sy, s, n) \<and> live' = live(coid := None) \<and>
             to_client c (out_responses x) = [answer RESP_CANCELED cid sy coid moid s px 0 n]) \<or>
          (\<forall>s n. live coid \<noteq> Some (sy, s, n)) \<and> live' = live \<and>
             to_client c (out_responses x) = [answer RESP_CANCEL_REJECTED cid sy coid 0 Side_zero 0 0 0])"
proof (cases "spec_find cid coid (book_abs bk)")
  case None
  have aok: "abook_ok (book_abs bk)" using inv by (simp add: book_inv_def)
  have "\<not> (\<exists>b r. (b, r) \<in> resting_in (book_abs bk) \<and> r_client r = cid \<and> r_coid r = coid)"
  proof
    assume "\<exists>b r. (b, r) \<in> resting_in (book_abs bk) \<and> r_client r = cid \<and> r_coid r = coid"
    then obtain b r t where r: "r \<in> set (al_queue (ab_side (book_abs bk) b t))" "has_key cid coid r"
      by (auto simp: resting_in_def has_key_def)
    have "t < kTickCount" using r(1) aok unfolding abook_ok_def by (metis empty_iff empty_set not_le)
    from spec_find_NoneD [OF None this r(1)] r(2) show False by simp
  qed
  then have "\<forall>s n. cid = c \<longrightarrow> live coid \<noteq> Some (sy, s, n)" using bl unfolding book_live_def by blast
  moreover have "out_book x = book_abs bk" "out_responses x = [answer RESP_CANCEL_REJECTED cid sy coid 0 Side_zero 0 0 0]"
    by (simp_all add: x_def spec_cancel_def None answer_def)
  ultimately show ?thesis using bl by (intro exI [of _ live]) (simp add: answer_def)
next
  case (Some place)
  obtain b t r where place: "place = (b, t, r)" by (cases place)
  from spec_find_SomeD [OF Some [unfolded place]]
  have r: "r \<in> set (al_queue (ab_side (book_abs bk) b t))" "r_client r = cid" "r_coid r = coid" by (auto simp: has_key_def)
  have un: "uniq (book_abs bk)" using inv abook_ok_uniq by (simp add: book_inv_def)
  have X: "(b, r) \<in> resting_in (book_abs bk)" unfolding resting_in_def using r(1) by (auto intro: exI [of _ t])
  obtain as bs where q: "al_queue (ab_side (book_abs bk) b t) = as @ r # bs" "r \<notin> set as"
    using r(1) by (metis split_list_first)
  then have "remove1 r (al_queue (ab_side (book_abs bk) b t)) = as @ bs" by (simp add: remove1_append)
  then have "out_book x = upd_side b (put_queue t (as @ bs)) (book_abs bk)"
    by (simp add: x_def spec_cancel_def Some place upd_side_def)
  then have out: "resting_in (out_book x) = resting_in (book_abs bk) - {(b, r)}" using resting_put(1) [OF un q(1)] by simp
  have one: "\<And>y z. y \<in> resting_in (book_abs bk) \<Longrightarrow> z \<in> resting_in (book_abs bk) \<Longrightarrow> r_client (snd y) = c \<Longrightarrow>
      r_client (snd z) = c \<Longrightarrow> r_coid (snd y) = r_coid (snd z) \<Longrightarrow> y = z"
    using book_one_key(1) [OF inv, of c] unfolding one_key_def by blast
  have resp: "out_responses x = [answer RESP_CANCELED cid sy coid (r_moid r) (dir b) (ToPrice (bk_band bk) (int t)) 0 (r_qty r)]"
    by (simp add: x_def spec_cancel_def Some place answer_def)
  show ?thesis
  proof (cases "cid = c")
    case True
    have lv: "live coid = Some (sy, dir b, r_qty r)" using bl X r(2,3) True unfolding book_live_def by blast
    have "book_live c sy (live(coid := None)) (resting_in (out_book x)) None" unfolding book_live_def out
    proof (intro allI)
      fix oid s n
      show "(live(coid := None)) oid = Some (sy, s, n) \<longleftrightarrow>
          (\<exists>b' r'. (b', r') \<in> resting_in (book_abs bk) - {(b, r)} \<and> r_client r' = c \<and> r_coid r' = oid \<and> s = dir b' \<and> n = r_qty r') \<or>
          None = Some (oid, s, n)"
      proof (cases "oid = coid")
        case eq: True
        have "(b', r') = (b, r)" if "(b', r') \<in> resting_in (book_abs bk)" "r_client r' = c" "r_coid r' = coid" for b' r'
          using one [OF that(1) X] that(2,3) r(2,3) True by simp
        then show ?thesis using eq by auto
      next
        case False
        then show ?thesis using bl r(3) unfolding book_live_def by auto
      qed
    qed
    moreover have "of_one_symbol sy live (live(coid := None))" using lv by (auto simp: of_one_symbol_def)
    ultimately show ?thesis using True lv resp
      by (intro exI [of _ "live(coid := None)"]) (auto simp: answer_def)
  next
    case False
    have "book_live c sy live (resting_in (out_book x)) None" unfolding book_live_def out
      using bl r(2) False unfolding book_live_def by auto
    then show ?thesis using False resp by (intro exI [of _ live]) (auto simp: answer_def)
  qed
qed

end
