(* ===== verification/Trading_Requests.thy ===== *)
theory Trading_Requests
  imports Trading_Safety
begin

text \<open>
  The requests the trade engine sends are well formed: whose they are, and what a new order asks for.
\<close>

section \<open>Typing\<close>

definition request_typed :: "ClientId \<Rightarrow> TradeEngineCfgHashMap \<Rightarrow> MatchingEngineClientRequest \<Rightarrow> bool" where
  "request_typed client cfg q \<longleftrightarrow> req_client_id q = client \<and> unat (req_symbol_id q) < kMaxSymbols \<and>
     (req_type q = REQ_NEW \<longrightarrow> req_quantity q = cfg_clip (cfg (unat (req_symbol_id q))) \<and> 0 < req_quantity q \<and>
        quotable (Some (req_price q)) = Some (req_price q))"

definition requests_typed :: "ClientId \<Rightarrow> TradeEngineCfgHashMap \<Rightarrow> OrderManager \<Rightarrow> bool" where
  "requests_typed client cfg m \<longleftrightarrow> unat (next_order_id m) \<le> kMaxOrderIds \<and>
     (\<forall>pl. used (order_at pl m) \<longrightarrow> unat (omo_ticker_id (order_at pl m)) < kMaxSymbols) \<and>
     (\<forall>q \<in> set (om_requests m). request_typed client cfg q)"

lemma requests_typedD:
  assumes "requests_typed client cfg m"
  shows "unat (next_order_id m) \<le> kMaxOrderIds" "used (order_at pl m) \<Longrightarrow> unat (omo_ticker_id (order_at pl m)) < kMaxSymbols"
    "q \<in> set (om_requests m) \<Longrightarrow> request_typed client cfg q"
  using assms unfolding requests_typed_def by blast+

lemma put_order_typed:
  assumes "requests_typed client cfg m" and "used x \<Longrightarrow> unat (omo_ticker_id x) < kMaxSymbols"
  shows "requests_typed client cfg (put_order pl x m)"
proof -
  have "unat (omo_ticker_id (order_at a (put_order pl x m))) < kMaxSymbols" if "used (order_at a (put_order pl x m))" for a
    using assms(2) requests_typedD(2) [OF assms(1)] that by (cases "a = pl") simp_all
  then show ?thesis using assms(1) by (simp add: requests_typed_def)
qed

lemma sendClientRequest_typed:
  "requests_typed client cfg m \<Longrightarrow> request_typed client cfg q \<Longrightarrow> requests_typed client cfg (sendClientRequest q m)"
  by (auto simp: requests_typed_def)

lemma moveOrder_typed:
  assumes "moveOrder client k rm pl ticker price side (cfg_clip (cfg (unat ticker))) m = Inr m'"
    and ok: "requests_typed client cfg m" and t: "unat ticker < kMaxSymbols"
  shows "requests_typed client cfg m'"
  using assms(1)
proof (cases rule: moveOrder_cases)
  case same
  then show ?thesis using ok by simp
next
  case cancel
  have "unat (omo_ticker_id (order_at pl m)) < kMaxSymbols"
    by (rule requests_typedD(2) [OF ok]) (simp add: used_def cancel(1))
  then show ?thesis unfolding cancel(2) cancelOrder_def Let_def
    by (intro put_order_typed sendClientRequest_typed [OF ok]) (simp_all add: request_typed_def)
next
  case (new p)
  let ?q = "\<lparr>req_type = REQ_NEW, req_client_id = client, req_symbol_id = ticker, req_order_id = next_order_id m, req_side = side,
    req_price = p, req_quantity = cfg_clip (cfg (unat ticker))\<rparr>"
  let ?x = "\<lparr>omo_ticker_id = ticker, omo_order_id = next_order_id m, omo_side = side, omo_price = p,
    omo_qty = cfg_clip (cfg (unat ticker)), omo_state = PENDING_NEW\<rparr>"
  have room: "unat (next_order_id m) < kMaxOrderIds"
    and m': "m' = (put_order pl ?x (sendClientRequest ?q m))\<lparr>next_order_id := next_order_id m + 1\<rparr>"
    using new(5) by (simp_all add: newOrder_Inr)
  have "cfg_clip (cfg (unat ticker)) \<noteq> 0"
    using new(4) t by (auto simp: checkPreTradeRisk_def risk_check_def Let_def)
  then have "request_typed client cfg ?q" using t new(2,3) by (simp add: request_typed_def word_gt_0)
  then have ok': "requests_typed client cfg (put_order pl ?x (sendClientRequest ?q m))"
    using t by (intro put_order_typed sendClientRequest_typed [OF ok]) simp_all
  have "unat (next_order_id m + 1) \<le> kMaxOrderIds" using room unat_add_lem [of "next_order_id m" 1] by (simp add: kMaxOrderIds_def)
  then show ?thesis using ok' by (simp add: requests_typed_def m')
qed

lemma moves_typed:
  assumes "moves te m'" and ok: "requests_typed (te_client_id te) (te_cfg te) (order_manager te)"
  shows "requests_typed (te_client_id te) (te_cfg te) m'"
  using assms(1) unfolding moves_def
proof (elim disjE exE)
  assume "m' = order_manager te"
  then show ?thesis using ok by simp
next
  fix ticker :: SymbolId and bid ask
  let ?clip = "cfg_clip (te_cfg te (unat ticker))"
  assume "moveOrders (te_client_id te) (position_keeper te) (risk_manager te) ticker bid ask ?clip (order_manager te) = Inr m'"
  then obtain m1 where t: "unat ticker < kMaxSymbols" and m1:
    "moveOrder (te_client_id te) (position_keeper te) (risk_manager te) (unat ticker, side_index BUY) ticker bid BUY ?clip (order_manager te) = Inr m1"
    "moveOrder (te_client_id te) (position_keeper te) (risk_manager te) (unat ticker, side_index SELL) ticker ask SELL ?clip m1 = Inr m'"
    by (auto simp: moveOrders_def bindE_eq_Inr split: if_splits)
  show ?thesis by (rule moveOrder_typed [OF m1(2) moveOrder_typed [OF m1(1) ok t] t])
qed

text \<open>A response changes at most the state and the quantity of one order that is in use.\<close>

lemma onOrderUpdate_effect:
  assumes run: "onOrderUpdate r m = Inr m'"
  shows "m' = m \<or> (\<exists>pl x. m' = put_order pl x m \<and> used (order_at pl m) \<and> omo_ticker_id x = omo_ticker_id (order_at pl m))"
proof (cases "resp_type r = RESP_INVALID \<or> kMaxSymbols \<le> unat (resp_symbol_id r)")
  case True
  then show ?thesis using run by (auto simp: onOrderUpdate_def split: if_splits)
next
  case False
  let ?t = "unat (resp_symbol_id r)"
  show ?thesis
  proof (cases "find (\<lambda>j. omo_state (order_at (?t, j) m) \<noteq> OM_INVALID \<and> omo_order_id (order_at (?t, j) m) = resp_client_order_id r) [0, 1]")
    case None
    then show ?thesis using run False by (simp add: onOrderUpdate_def Let_def)
  next
    case (Some j)
    then have u: "used (order_at (?t, j) m)" unfolding used_def find_Some_iff by blast
    have "m' = m \<or> (\<exists>x. m' = put_order (?t, j) x m \<and> omo_ticker_id x = omo_ticker_id (order_at (?t, j) m))"
      using run False Some by (cases "resp_type r") (auto simp: onOrderUpdate_def Let_def simp del: find.simps)
    then show ?thesis using u by blast
  qed
qed

lemma onOrderUpdate_typed:
  assumes run: "onOrderUpdate r m = Inr m'" and ok: "requests_typed client cfg m"
  shows "requests_typed client cfg m'"
  using onOrderUpdate_effect [OF run] put_order_typed [OF ok] ok by (auto simp: requests_typed_def)

lemma response_effect:
  assumes run: "engine_onOrderUpdate rnd r te = Inr te'"
  obtains k m' where "te' = te\<lparr>position_keeper := k, order_manager := m'\<rparr>" "m' = order_manager te \<or> onOrderUpdate r (order_manager te) = Inr m'"
proof -
  obtain te1 where first: "(if resp_type r = RESP_FILLED then
        bindE (keeper_addFill rnd r (position_keeper te)) (\<lambda>k. Inr (te\<lparr>position_keeper := k\<rparr>)) else Inr te) = Inr te1"
      and snd: "bindE (algoOnOrderUpdate r te1) (\<lambda>m. Inr (te1\<lparr>order_manager := m\<rparr>)) = Inr te'"
    using run unfolding engine_onOrderUpdate_def bindE_eq_Inr by blast
  have "\<exists>k. te1 = te\<lparr>position_keeper := k\<rparr>"
  proof (cases "resp_type r = RESP_FILLED")
    case True
    then show ?thesis using first by (auto simp: bindE_eq_Inr)
  next
    case False
    then have "te1 = te\<lparr>position_keeper := position_keeper te\<rparr>" using first by simp
    then show ?thesis by blast
  qed
  then obtain k where k: "te1 = te\<lparr>position_keeper := k\<rparr>" by blast
  obtain m' where m': "algoOnOrderUpdate r te1 = Inr m'" "te' = te1\<lparr>order_manager := m'\<rparr>"
    using snd by (auto simp: bindE_eq_Inr)
  have "m' = order_manager te \<or> onOrderUpdate r (order_manager te) = Inr m'"
    using m'(1) k by (simp add: algoOnOrderUpdate_def maker_onOrderUpdate_def taker_onOrderUpdate_def split: AlgoType.splits)
  then show thesis using that [of m' k] m'(2) k by simp
qed

lemma engine_onOrderUpdate_typed:
  assumes "engine_onOrderUpdate rnd r te = Inr te'" and ok: "requests_typed client cfg (order_manager te)"
  shows "te_client_id te' = te_client_id te \<and> te_cfg te' = te_cfg te \<and> requests_typed client cfg (order_manager te')"
  by (rule response_effect [OF assms(1)]) (auto simp: ok intro: onOrderUpdate_typed)

lemma trading_reach_typed:
  "trading_reach rnd debug client algo cfg te live \<Longrightarrow>
   te_client_id te = client \<and> te_cfg te = cfg \<and> requests_typed client cfg (order_manager te)"
proof (induction rule: trading_reach.induct)
  case start
  have "\<not> used (order_at pl new_OrderManager)" for pl by (simp add: used_def order_at_def new_OrderManager_def new_OMOrder_def)
  then show ?case by (simp add: new_TradeEngine_def requests_typed_def, simp add: new_OrderManager_def kMaxOrderIds_def)
next
  case (market te live u te')
  obtain te1 m' where te1: "same_trading te te1" "moves te1 m'" "te' = te1\<lparr>order_manager := m'\<rparr>"
    by (rule market_effect [OF market(2)])
  then show ?case using moves_typed [OF te1(2)] market(3) by (simp add: same_trading_def)
next
  case (response te live r rs te')
  then show ?case using engine_onOrderUpdate_typed [OF response(3), of client cfg] by simp
qed (auto simp: respond_def take_request_def requests_typed_def)

end
