(* ===== verification/Trading_Runs.thy ===== *)
theory Trading_Runs
  imports Trading_Safety Client_Correct
begin

text \<open>
  The trade engine as a whole: a pass of its loop returns and empties both queues, and the position
  limit seen on a run with quotes and a fill.
\<close>

section \<open>What the handlers return\<close>

lemma addFill_returns: "fill_side_ok r \<Longrightarrow> \<exists>p'. addFill rnd r p = Inr p'"
  by (auto simp: addFill_def fill_side_ok_def Let_def)

lemma onOrderUpdate_returns:
  assumes "unat (resp_symbol_id r) < kMaxSymbols"
  shows "\<exists>m'. onOrderUpdate r m = Inr m' \<and> next_order_id m' = next_order_id m"
proof (cases "resp_type r = RESP_INVALID")
  case True
  then show ?thesis by (simp add: onOrderUpdate_def)
next
  case False
  then show ?thesis using assms
    by (auto simp: onOrderUpdate_def Let_def split: option.splits ClientResponseType.splits)
qed

lemma moveOrder_returns:
  assumes "unat ticker < kMaxSymbols" and "unat (next_order_id m) < kMaxOrderIds"
  shows "\<exists>m'. moveOrder client k rm pl ticker price side qty m = Inr m' \<and> unat (next_order_id m') \<le> unat (next_order_id m) + 1"
proof -
  obtain rr where rr: "checkPreTradeRisk k rm ticker side qty = Inr rr" using assms(1) by (simp add: checkPreTradeRisk_def Let_def)
  have "unat (next_order_id m + 1) = unat (next_order_id m) + 1"
    using unat_add_lem [of "next_order_id m" 1] assms(2) by (simp add: kMaxOrderIds_def)
  then have new: "\<exists>m'. newOrder client pl ticker p side qty m = Inr m' \<and> unat (next_order_id m') \<le> unat (next_order_id m) + 1" for p
    using assms(2) by (auto simp: newOrder_Inr)
  have cancel: "next_order_id (cancelOrder client pl m) = next_order_id m" by (simp add: cancelOrder_def Let_def)
  show ?thesis
    using new cancel rr
    by (cases "omo_state (order_at pl m)"; cases "quotable price") (simp_all add: moveOrder_def Let_def)
qed

lemma moveOrders_returns:
  assumes "unat ticker < kMaxSymbols" and "unat (next_order_id m) + 2 \<le> kMaxOrderIds"
  shows "\<exists>m'. moveOrders client k rm ticker bid ask clip m = Inr m' \<and> unat (next_order_id m') \<le> unat (next_order_id m) + 2"
proof -
  obtain m1 where m1: "moveOrder client k rm (unat ticker, side_index BUY) ticker bid BUY clip m = Inr m1"
      "unat (next_order_id m1) \<le> unat (next_order_id m) + 1"
    using moveOrder_returns [OF assms(1), of m] assms(2) by fastforce
  have room: "unat (next_order_id m1) < kMaxOrderIds" using m1(2) assms(2) by linarith
  obtain m2 where m2: "moveOrder client k rm (unat ticker, side_index SELL) ticker ask SELL clip m1 = Inr m2"
      "unat (next_order_id m2) \<le> unat (next_order_id m1) + 1"
    using moveOrder_returns [OF assms(1) room] by blast
  show ?thesis using m1 m2 assms(1) by (simp add: moveOrders_def)
qed

lemma algo_returns:
  assumes "unat (next_order_id (order_manager te)) + 2 \<le> kMaxOrderIds"
  shows "unat ticker < kMaxSymbols \<Longrightarrow> \<exists>m'. algoOnOrderBookUpdate rnd ticker bbo te = Inr m' \<and>
      unat (next_order_id m') \<le> unat (next_order_id (order_manager te)) + 2"
    "unat (mu_symbol_id u) < kMaxSymbols \<Longrightarrow> \<exists>m'. algoOnTradeUpdate u bbo te = Inr m' \<and>
      unat (next_order_id m') \<le> unat (next_order_id (order_manager te)) + 2"
proof -
  note mv = moveOrders_returns [OF _ assms]
  show "\<exists>m'. algoOnOrderBookUpdate rnd ticker bbo te = Inr m' \<and> unat (next_order_id m') \<le> unat (next_order_id (order_manager te)) + 2"
    if t: "unat ticker < kMaxSymbols"
    using mv [OF t] t
    by (simp add: algoOnOrderBookUpdate_def maker_onOrderBookUpdate_def taker_onOrderBookUpdate_def Let_def ticker_cfg_def split: AlgoType.splits)
  show "\<exists>m'. algoOnTradeUpdate u bbo te = Inr m' \<and> unat (next_order_id m') \<le> unat (next_order_id (order_manager te)) + 2"
    if t: "unat (mu_symbol_id u) < kMaxSymbols"
    using mv [OF t] t
    by (simp add: algoOnTradeUpdate_def maker_onTradeUpdate_def taker_onTradeUpdate_def Let_def ticker_cfg_def split: AlgoType.splits)
qed

section \<open>One update\<close>

definition books_right :: "TradeEngine \<Rightarrow> bool" where
  "books_right te \<longleftrightarrow> (\<forall>i < kMaxSymbols. book_ok (ticker_order_book te i))"

abbreviation views :: "TradeEngine \<Rightarrow> nat \<Rightarrow> live_view" where
  "views te i \<equiv> book_view (ticker_order_book te i)"

lemma engine_onMarketUpdate_returns:
  assumes books: "books_right te" and sym: "unat (mu_symbol_id u) < kMaxSymbols"
    and fits: "update_fits (views te (unat (mu_symbol_id u))) u"
    and room: "te_stopping te \<or> unat (next_order_id (order_manager te)) + 2 \<le> kMaxOrderIds"
  shows "\<exists>te'. engine_onMarketUpdate rnd u te = Inr te' \<and> books_right te' \<and> te_responses te' = te_responses te \<and>
    views te' = (views te)(unat (mu_symbol_id u) := client_step (views te (unat (mu_symbol_id u))) u) \<and>
    unat (next_order_id (order_manager te')) \<le> unat (next_order_id (order_manager te)) + 2"
proof -
  let ?i = "unat (mu_symbol_id u)"
  obtain b where b: "onMarketUpdate u (ticker_order_book te ?i) = Inr (notice_of (mu_type u), b)" "book_ok b"
      "book_view b = client_step (views te ?i) u"
    using onMarketUpdate_ok [OF _ fits] books sym unfolding books_right_def by blast
  define te1 where "te1 = te\<lparr>ticker_order_book := (ticker_order_book te)(?i := b)\<rparr>"
  have te1: "books_right te1" "te_responses te1 = te_responses te" "order_manager te1 = order_manager te"
      "views te1 = (views te)(?i := client_step (views te ?i) u)"
    using books b by (auto simp: books_right_def te1_def)
  have run: "engine_onMarketUpdate rnd u te = (case notice_of (mu_type u) of No_Notice \<Rightarrow> Inr te1
      | Trade_Notice \<Rightarrow> engine_onTradeUpdate rnd u (mb_bbo b) te1 | Book_Notice \<Rightarrow> engine_onOrderBookUpdate rnd (mu_symbol_id u) (mb_bbo b) te1)"
    using b sym unfolding te1_def by (simp add: engine_onMarketUpdate_def ASSERT_def Let_def)
  have keep: "\<exists>te'. F = Inr te' \<and> books_right te' \<and> te_responses te' = te_responses te \<and>
      views te' = (views te)(?i := client_step (views te ?i) u) \<and>
      unat (next_order_id (order_manager te')) \<le> unat (next_order_id (order_manager te)) + 2"
    if "\<exists>te'. F = Inr te' \<and> ticker_order_book te' = ticker_order_book te1 \<and> te_responses te' = te_responses te1 \<and>
      unat (next_order_id (order_manager te')) \<le> unat (next_order_id (order_manager te1)) + 2" for F
    using that te1 by (auto simp: books_right_def)
  show ?thesis
  proof (cases "notice_of (mu_type u)")
    case No_Notice
    then show ?thesis using run te1 by simp
  next
    case Trade_Notice
    define te2 where "te2 = te1\<lparr>feature_engine := feature_onTradeUpdate rnd u (mb_bbo b) (feature_engine te1)\<rparr>"
    have te2: "te_stopping te2 = te_stopping te" "order_manager te2 = order_manager te1" by (simp_all add: te2_def te1_def)
    have asked: "engine_onTradeUpdate rnd u (mb_bbo b) te1 =
        (if te_stopping te2 then Inr te2 else bindE (algoOnTradeUpdate u (mb_bbo b) te2) (\<lambda>m. Inr (te2\<lparr>order_manager := m\<rparr>)))"
      by (simp add: engine_onTradeUpdate_def Let_def te2_def)
    have "\<exists>m'. algoOnTradeUpdate u (mb_bbo b) te2 = Inr m' \<and> unat (next_order_id m') \<le> unat (next_order_id (order_manager te1)) + 2"
      if "\<not> te_stopping te2" using algo_returns(2) [OF _ sym, of te2 "mb_bbo b"] room that te2 te1(3) by simp
    then show ?thesis unfolding run Trade_Notice book_notice.case asked
      by (intro keep) (cases "te_stopping te2", auto simp: te2_def)
  next
    case Book_Notice
    define k where "k = (position_keeper te1)(?i := position_updateBBO rnd (mb_bbo b) (position_keeper te1 ?i))"
    define te2 where "te2 = te1\<lparr>position_keeper := k, feature_engine := feature_onOrderBookUpdate rnd (mb_bbo b) (feature_engine te1)\<rparr>"
    have te2: "te_stopping te2 = te_stopping te" "order_manager te2 = order_manager te1" by (simp_all add: te2_def te1_def)
    have asked: "engine_onOrderBookUpdate rnd (mu_symbol_id u) (mb_bbo b) te1 =
        (if te_stopping te2 then Inr te2 else bindE (algoOnOrderBookUpdate rnd (mu_symbol_id u) (mb_bbo b) te2) (\<lambda>m. Inr (te2\<lparr>order_manager := m\<rparr>)))"
      using sym by (simp add: engine_onOrderBookUpdate_def keeper_updateBBO_def Let_def te2_def k_def)
    have "\<exists>m'. algoOnOrderBookUpdate rnd (mu_symbol_id u) (mb_bbo b) te2 = Inr m' \<and>
        unat (next_order_id m') \<le> unat (next_order_id (order_manager te1)) + 2"
      if "\<not> te_stopping te2" using algo_returns(1) [OF _ sym, of te2 rnd "mb_bbo b"] room that te2 te1(3) by simp
    then show ?thesis unfolding run Book_Notice book_notice.case asked
      by (intro keep) (cases "te_stopping te2", auto simp: te2_def)
  qed
qed

section \<open>A pass of the loop\<close>

definition response_fits :: "MatchingEngineClientResponse \<Rightarrow> bool" where
  "response_fits r \<longleftrightarrow> unat (resp_symbol_id r) < kMaxSymbols \<and> (resp_type r = RESP_FILLED \<longrightarrow> fill_side_ok r)"

text \<open>The updates of one symbol, in the order they came.\<close>

definition of_symbol :: "nat \<Rightarrow> MatchingEngineMarketUpdate list \<Rightarrow> MatchingEngineMarketUpdate list" where
  "of_symbol i us = filter (\<lambda>u. unat (mu_symbol_id u) = i) us"

lemma engine_onOrderUpdate_returns:
  assumes "response_fits r"
  shows "\<exists>te'. engine_onOrderUpdate rnd r te = Inr te' \<and> ticker_order_book te' = ticker_order_book te \<and> te_updates te' = te_updates te \<and>
    next_order_id (order_manager te') = next_order_id (order_manager te)"
proof -
  have t: "unat (resp_symbol_id r) < kMaxSymbols" using assms by (simp add: response_fits_def)
  have "\<exists>k. (if resp_type r = RESP_FILLED then bindE (keeper_addFill rnd r (position_keeper te)) (\<lambda>k. Inr (te\<lparr>position_keeper := k\<rparr>))
      else Inr te) = Inr (te\<lparr>position_keeper := k\<rparr>)"
  proof (cases "resp_type r = RESP_FILLED")
    case True
    then have "fill_side_ok r" using assms by (simp add: response_fits_def)
    then obtain p where "addFill rnd r (position_keeper te (unat (resp_symbol_id r))) = Inr p" using addFill_returns by blast
    then show ?thesis using True t by (auto simp: keeper_addFill_def Let_def)
  next
    case False
    then show ?thesis by (auto intro: exI [of _ "position_keeper te"])
  qed
  then obtain k where k: "(if resp_type r = RESP_FILLED then bindE (keeper_addFill rnd r (position_keeper te)) (\<lambda>k. Inr (te\<lparr>position_keeper := k\<rparr>))
      else Inr te) = Inr (te\<lparr>position_keeper := k\<rparr>)" by blast
  obtain m' where m': "onOrderUpdate r (order_manager te) = Inr m'" "next_order_id m' = next_order_id (order_manager te)"
    using onOrderUpdate_returns [OF t] by blast
  have "\<exists>m'. algoOnOrderUpdate r (te\<lparr>position_keeper := k\<rparr>) = Inr m' \<and> next_order_id m' = next_order_id (order_manager te)"
    using m' by (simp add: algoOnOrderUpdate_def maker_onOrderUpdate_def taker_onOrderUpdate_def split: AlgoType.splits)
  then show ?thesis unfolding engine_onOrderUpdate_def k by auto
qed

lemma drain_responses_returns:
  assumes "\<forall>r \<in> set rs. response_fits r"
  shows "\<exists>te'. drain_responses rnd rs te = Inr te' \<and> te_responses te' = [] \<and> ticker_order_book te' = ticker_order_book te \<and>
    te_updates te' = te_updates te \<and> next_order_id (order_manager te') = next_order_id (order_manager te)"
  using assms
proof (induction rs arbitrary: te)
  case (Cons r rs)
  obtain te1 where te1: "engine_onOrderUpdate rnd r te = Inr te1" "ticker_order_book te1 = ticker_order_book te" "te_updates te1 = te_updates te"
      "next_order_id (order_manager te1) = next_order_id (order_manager te)"
    using engine_onOrderUpdate_returns [of r rnd te] Cons.prems by auto
  show ?case using Cons.IH [of "te1\<lparr>te_responses := rs\<rparr>"] Cons.prems te1 by simp
qed simp

text \<open>The rest of the updates fits when the first has been taken.\<close>

lemma rest_fits:
  assumes "\<forall>i < kMaxSymbols. updates_fit (v i) (of_symbol i (u # us))"
    and "w = v(unat (mu_symbol_id u) := client_step (v (unat (mu_symbol_id u))) u)"
  shows "\<forall>i < kMaxSymbols. updates_fit (w i) (of_symbol i us)"
  using assms by (auto simp: of_symbol_def)

lemma drain_updates_returns:
  assumes "books_right te" and "\<forall>u \<in> set us. unat (mu_symbol_id u) < kMaxSymbols"
    and "\<forall>i < kMaxSymbols. updates_fit (views te i) (of_symbol i us)"
    and "unat (next_order_id (order_manager te)) + 2 * length us \<le> kMaxOrderIds"
  shows "\<exists>te'. drain_updates rnd us te = Inr te' \<and> te_updates te' = [] \<and> te_responses te' = te_responses te \<and> books_right te' \<and>
    (\<forall>i. views te' i = foldl client_step (views te i) (of_symbol i us))"
  using assms
proof (induction us arbitrary: te)
  case (Cons u us)
  let ?i = "unat (mu_symbol_id u)"
  have i: "?i < kMaxSymbols" using Cons.prems(2) by simp
  have "update_fits (views te ?i) u" using Cons.prems(3) i by (auto simp: of_symbol_def)
  moreover have "unat (next_order_id (order_manager te)) + 2 \<le> kMaxOrderIds" using Cons.prems(4) by simp
  ultimately obtain te1 where te1: "engine_onMarketUpdate rnd u te = Inr te1" "books_right te1" "te_responses te1 = te_responses te"
      "views te1 = (views te)(?i := client_step (views te ?i) u)"
      "unat (next_order_id (order_manager te1)) \<le> unat (next_order_id (order_manager te)) + 2"
    using engine_onMarketUpdate_returns [OF Cons.prems(1) i, of rnd] by blast
  let ?te = "te1\<lparr>te_updates := us\<rparr>"
  have v: "views te1 j = (if j = ?i then client_step (views te j) u else views te j)" for j
    using fun_cong [OF te1(4), of j] by simp
  have fits: "\<forall>j < kMaxSymbols. updates_fit (views ?te j) (of_symbol j us)" using rest_fits [OF Cons.prems(3) te1(4)] by simp
  have "books_right ?te" "unat (next_order_id (order_manager ?te)) + 2 * length us \<le> kMaxOrderIds"
    using te1(2,5) Cons.prems(4) by (simp_all add: books_right_def)
  from Cons.IH [OF this(1) _ fits this(2)] Cons.prems(2) obtain te' where
    "drain_updates rnd us ?te = Inr te'" "te_updates te' = []" "te_responses te' = te_responses te" "books_right te'"
    "\<forall>j. views te' j = foldl client_step (views ?te j) (of_symbol j us)"
    using te1(3) by auto
  then show ?case using te1(1) by (auto simp: v of_symbol_def)
qed (simp add: of_symbol_def books_right_def)

text \<open>C14: A pass of the trade engine's loop returns: if each book represents its orders, the pending responses
  carry a known symbol and fills a valid side, and the pending updates are of known symbols and those of
  each symbol fit its book, no assertion or range check stops it while two client order ids are left for
  each update; both queues are empty afterwards, and the book of each symbol
  has taken exactly the updates of that symbol, in order, and represents the orders they leave.\<close>

theorem engine_pass_drains_queues:
  assumes "books_right te" and "\<forall>r \<in> set (te_responses te). response_fits r"
    and "\<forall>u \<in> set (te_updates te). unat (mu_symbol_id u) < kMaxSymbols"
    and "\<forall>i < kMaxSymbols. updates_fit (views te i) (of_symbol i (te_updates te))"
    and "unat (next_order_id (order_manager te)) + 2 * length (te_updates te) \<le> kMaxOrderIds"
  shows "\<exists>te'. engine_pass rnd te = Inr te' \<and> te_responses te' = [] \<and> te_updates te' = [] \<and> books_right te' \<and>
    (\<forall>i. views te' i = foldl client_step (views te i) (of_symbol i (te_updates te)))"
proof -
  obtain te1 where te1: "drain_responses rnd (te_responses te) te = Inr te1" "te_responses te1 = []" "ticker_order_book te1 = ticker_order_book te"
      "te_updates te1 = te_updates te" "next_order_id (order_manager te1) = next_order_id (order_manager te)"
    using drain_responses_returns [OF assms(2)] by blast
  have "books_right te1" using assms(1) te1(3) by (simp add: books_right_def)
  from drain_updates_returns [OF this assms(3), of rnd] show ?thesis
    using assms(4,5) te1 by (auto simp: engine_pass_def)
qed

section \<open>A run\<close>

text \<open>A market maker of client 1 sees a bid of 100 for 3 and an offer of 104 for 5 on symbol 2.\<close>

definition example_order :: "OrderId \<Rightarrow> Side \<Rightarrow> Price \<Rightarrow> Quantity \<Rightarrow> MatchingEngineMarketUpdate" where
  "example_order oid s p q = \<lparr>mu_type = MU_ADD, mu_symbol_id = 2, mu_order_id = oid, mu_side = s, mu_price = p, mu_quantity = q, mu_priority = 1\<rparr>"

definition example_engine :: TradeEngine where
  "example_engine = (new_TradeEngine True 1 ALGO_MAKER example_cfg)\<lparr>te_updates := [example_order 7 BUY 100 3, example_order 9 SELL 104 5]\<rparr>"

lemma new_books_right: "books_right (new_TradeEngine debug client algo cfg)"
  by (simp add: books_right_def new_TradeEngine_def new_book_ok)

lemma example_updates_fit:
  "updates_fit (views example_engine i) (of_symbol i (te_updates example_engine))"
  by (simp add: example_engine_def new_TradeEngine_def new_book_ok of_symbol_def example_order_def update_fits_def can_add_def names_live_def
      client_step_def view_update_def capacity_defs)

theorem engine_pass_drains_queues_witness:
  "\<exists>te'. engine_pass Fin example_engine = Inr te' \<and> te_updates te' = [] \<and>
     book_view (ticker_order_book te' 2) 9 = Some (SELL, 104, 5, 1) \<and> book_view (ticker_order_book te' 1) 9 = None"
proof -
  have "books_right example_engine" using new_books_right by (simp add: example_engine_def books_right_def)
  moreover have "te_responses example_engine = []" "next_order_id (order_manager example_engine) = 1"
    "te_updates example_engine = [example_order 7 BUY 100 3, example_order 9 SELL 104 5]"
    by (simp_all add: example_engine_def new_TradeEngine_def new_OrderManager_def)
  ultimately obtain te' where te': "engine_pass Fin example_engine = Inr te'" "te_updates te' = []"
      "\<forall>i. views te' i = foldl client_step (views example_engine i) (of_symbol i (te_updates example_engine))"
    using engine_pass_drains_queues [of example_engine Fin] example_updates_fit
    by (auto simp: kMaxOrderIds_def kMaxSymbols_def example_order_def)
  then show ?thesis
    by (simp add: example_engine_def new_TradeEngine_def new_book_ok of_symbol_def example_order_def client_step_def view_update_def)
qed

section \<open>The position limit\<close>

text \<open>C8: The trading client never exceeds its position limit: in every state the trade engine reaches
  with a strategy, whatever market data it sees and however the exchange interleaves acceptances,
  fills, cancels and rejections, the position of each symbol lies within \<open>max_position\<close>, and it would
  still do so if every open order of one side filled completely.\<close>

theorem position_within_limit:
  assumes "trading_reach rnd debug client algo cfg te live" and "algo = ALGO_MAKER \<or> algo = ALGO_TAKER" and "t < kMaxSymbols"
  shows "\<bar>position (position_keeper te t)\<bar> \<le> int (unat (max_position (cfg_risk (cfg t)))) \<and>
    position (position_keeper te t) + open_size (order_at (t, 0) (order_manager te)) \<le> int (unat (max_position (cfg_risk (cfg t)))) \<and>
    - int (unat (max_position (cfg_risk (cfg t)))) \<le> position (position_keeper te t) - open_size (order_at (t, 1) (order_manager te))"
proof -
  have "exposure_right cfg (order_manager te) (position_keeper te)"
    using trading_reach_right [OF assms(1,2)] by (simp add: trading_right_def)
  then show ?thesis using exposure_bound(1) [of cfg "order_manager te" "position_keeper te" t] assms(3)
    unfolding exposure_right_def limit_def by blast
qed

text \<open>The example's market maker quotes on both sides, and its bid is accepted and filled.\<close>

lemma example_first_view: "client_step (\<lambda>_. None) (example_order 7 BUY 100 3) = [7 \<mapsto> (BUY, 100, 3, 1)]"
  by (simp add: client_step_def view_update_def view_entry_def example_order_def)

lemma example_BBO:
  "view_BBO [7 \<mapsto> (BUY, 100, 3, 1)] = \<lparr>bid_price = 100, ask_price = 0, bid_qty = 3, ask_qty = 0\<rparr>"
  "view_BBO [7 \<mapsto> (BUY, 100, 3, 1), 9 \<mapsto> (SELL, 104, 5, 1)] = example_quote"
proof -
  let ?v1 = "[7 \<mapsto> (BUY, 100, 3, 1)] :: live_view" and ?v2 = "[7 \<mapsto> (BUY, 100, 3, 1), 9 \<mapsto> (SELL, 104, 5, 1)] :: live_view"
  have p: "side_prices ?v1 BUY = {100}" "side_prices ?v1 SELL = {}" "side_prices ?v2 BUY = {100}" "side_prices ?v2 SELL = {104}"
    by (auto simp: side_prices_def split: if_splits intro: exI [of _ 9])
  have i: "ids_at ?v1 BUY 100 = {7}" "ids_at ?v2 BUY 100 = {7}" "ids_at ?v2 SELL 104 = {9}"
    by (auto simp: ids_at_def split: if_splits)
  show "view_BBO ?v1 = \<lparr>bid_price = 100, ask_price = 0, bid_qty = 3, ask_qty = 0\<rparr>" "view_BBO ?v2 = example_quote"
    by (simp_all add: view_BBO_def p best_price_def quantity_at_def i quantity_of_def example_quote_def)
qed


lemma fill_position:
  assumes "response_fits r" and "resp_type r = RESP_FILLED" and "\<bar>position (position_keeper te (unat (resp_symbol_id r)))\<bar> < 2 ^ 32"
  shows "\<exists>te'. engine_onOrderUpdate rnd r te = Inr te' \<and>
    position (position_keeper te' (unat (resp_symbol_id r))) = position (position_keeper te (unat (resp_symbol_id r))) + fill_delta r"
proof -
  let ?i = "unat (resp_symbol_id r)"
  obtain p where p: "addFill rnd r (position_keeper te ?i) = Inr p" "position p = position (position_keeper te ?i) + fill_delta r"
    using addFill_position [of r "position_keeper te ?i"] assms by (auto simp: response_fits_def)
  obtain te' where te': "engine_onOrderUpdate rnd r te = Inr te'" using engine_onOrderUpdate_returns [OF assms(1)] by blast
  then have "position_keeper te' = (position_keeper te)(?i := p)"
    using p(1) assms(2) by (auto simp: engine_onOrderUpdate_def keeper_addFill_def Let_def bindE_eq_Inr split: if_splits)
  then show ?thesis using te' p(2) by auto
qed

lemma maker_quote_step:
  assumes "onMarketUpdate u (ticker_order_book te 2) = Inr (Book_Notice, b)" and "mu_symbol_id u = 2"
    and "te_algo te = ALGO_MAKER" and "\<not> te_stopping te"
    and "k = (position_keeper te)(2 := position_updateBBO Fin (mb_bbo b) (position_keeper te 2))"
    and "f = feature_onOrderBookUpdate Fin (mb_bbo b) (feature_engine te)"
    and "maker_onOrderBookUpdate Fin (te_client_id te) (te_cfg te) f k (risk_manager te) 2 (mb_bbo b) (order_manager te) = Inr m"
  shows "engine_onMarketUpdate Fin u te = Inr (te\<lparr>ticker_order_book := (ticker_order_book te)(2 := b), position_keeper := k,
    feature_engine := f, order_manager := m\<rparr>)"
  using assms by (simp add: engine_onMarketUpdate_def ASSERT_def kMaxSymbols_def engine_onOrderBookUpdate_def keeper_updateBBO_def
      Let_def algoOnOrderBookUpdate_def)

lemma example_quote_run:
  "\<exists>te1 te2. engine_onMarketUpdate Fin (example_order 7 BUY 100 3) (new_TradeEngine True 1 ALGO_MAKER example_cfg) = Inr te1 \<and>
     engine_onMarketUpdate Fin (example_order 9 SELL 104 5) te1 = Inr te2 \<and> order_manager te2 = example_quoted \<and>
     te_responses te2 = [] \<and> position (position_keeper te2 2) = 0 \<and> te_algo te2 = ALGO_MAKER \<and> om_requests (order_manager te1) = []"
proof -
  let ?te = "new_TradeEngine True 1 ALGO_MAKER example_cfg" and ?u = "example_order 7 BUY 100 3" and ?w = "example_order 9 SELL 104 5"
  let ?v = "[7 \<mapsto> (BUY, 100, 3, 1)] :: live_view"
  have new: "book_ok (ticker_order_book ?te 2)" "views ?te 2 = (\<lambda>_. None)" "te_algo ?te = ALGO_MAKER" "\<not> te_stopping ?te"
      "position_keeper ?te = new_PositionKeeper" "te_client_id ?te = 1" "te_cfg ?te = example_cfg"
      "risk_manager ?te = new_RiskManager example_cfg" "order_manager ?te = new_OrderManager" "te_responses ?te = []"
    by (simp_all add: new_TradeEngine_def new_book_ok)
  have fits: "update_fits (\<lambda>_. None) ?u" "update_fits ?v ?w"
    by (simp_all add: example_order_def update_fits_def can_add_def capacity_defs)
  obtain b1 where b1: "onMarketUpdate ?u (ticker_order_book ?te 2) = Inr (Book_Notice, b1)" "book_ok b1" "book_view b1 = ?v"
    using onMarketUpdate_ok [OF new(1), of ?u] new(2) fits(1) example_first_view
    by (auto simp: notice_of_def example_order_def)
  have q1: "ask_qty (mb_bbo b1) = 0" using b1(2,3) example_BBO(1) by (simp add: book_ok_def)
  define k1 where "k1 = (position_keeper ?te)(2 := position_updateBBO Fin (mb_bbo b1) (position_keeper ?te 2))"
  define f1 where "f1 = feature_onOrderBookUpdate Fin (mb_bbo b1) (feature_engine ?te)"
  define te1 where "te1 = ?te\<lparr>ticker_order_book := (ticker_order_book ?te)(2 := b1), position_keeper := k1, feature_engine := f1,
    order_manager := new_OrderManager\<rparr>"
  have r1: "engine_onMarketUpdate Fin ?u ?te = Inr te1" unfolding te1_def
    by (rule maker_quote_step [OF b1(1) _ new(3,4) k1_def f1_def])
      (simp_all add: example_order_def maker_onOrderBookUpdate_def q1 Let_def new(9))
  have e1: "ticker_order_book te1 2 = b1" "te_algo te1 = ALGO_MAKER" "\<not> te_stopping te1" "te_client_id te1 = 1" "te_cfg te1 = example_cfg"
      "risk_manager te1 = new_RiskManager example_cfg" "order_manager te1 = new_OrderManager" "te_responses te1 = []"
    using new by (simp_all add: te1_def)
  have k1: "position (position_keeper te1 2) = 0" "total_pnl (position_keeper te1 2) = Fin 0"
    by (simp_all add: te1_def k1_def new(5) position_updateBBO_def new_PositionKeeper_def new_PositionInfo_def Let_def)
  obtain b2 where b2: "onMarketUpdate ?w (ticker_order_book te1 2) = Inr (Book_Notice, b2)" "book_ok b2" "book_view b2 = ?v(9 \<mapsto> (SELL, 104, 5, 1))"
    using onMarketUpdate_ok [OF b1(2), of ?w] b1(3) fits(2)
    by (auto simp: notice_of_def example_order_def e1(1) client_step_def view_update_def view_entry_def)
  have q2: "mb_bbo b2 = example_quote" using b2(2,3) example_BBO(2) by (simp add: book_ok_def)
  define k2 where "k2 = (position_keeper te1)(2 := position_updateBBO Fin (mb_bbo b2) (position_keeper te1 2))"
  define f2 where "f2 = feature_onOrderBookUpdate Fin (mb_bbo b2) (feature_engine te1)"
  define te2 where "te2 = te1\<lparr>ticker_order_book := (ticker_order_book te1)(2 := b2), position_keeper := k2, feature_engine := f2,
    order_manager := example_quoted\<rparr>"
  have k2: "position (k2 2) = 0" "total_pnl (k2 2) = Fin 0"
    using k1 by (simp_all add: k2_def position_updateBBO_def Let_def)
  have "getMktPrice f2 = Fin (203 / 2)" using example_prices(1) by (simp add: f2_def q2 getMktPrice_def feature_onOrderBookUpdate_def example_quote_def)
  from example_maker_run [of k2, OF k2 this] have "maker_onOrderBookUpdate Fin (te_client_id te1) (te_cfg te1) f2 k2 (risk_manager te1) 2 (mb_bbo b2)
      (order_manager te1) = Inr example_quoted"
    by (simp only: e1 q2)
  then have r2: "engine_onMarketUpdate Fin ?w te1 = Inr te2" unfolding te2_def
    by (intro maker_quote_step [OF b2(1) _ e1(2,3) k2_def f2_def]) (simp_all add: example_order_def)
  have "order_manager te2 = example_quoted" "te_responses te2 = []" "position (position_keeper te2 2) = 0" "te_algo te2 = ALGO_MAKER"
    by (simp_all add: te2_def e1(2,8) k2(1))
  moreover have "om_requests (order_manager te1) = []" by (simp add: e1(7) new_OrderManager_simps)
  ultimately show ?thesis using r1 r2 by blast
qed

lemma example_quoting:
  "\<exists>te. trading_reach Fin True 1 ALGO_MAKER example_cfg te (\<lambda>_. None) \<and> order_manager te = example_quoted \<and>
     te_responses te = [] \<and> position (position_keeper te 2) = 0"
  using example_quote_run trading_reach.market [OF trading_reach.market [OF trading_reach.start]] by metis

theorem position_within_limit_witness:
  "\<exists>te live. trading_reach Fin True 1 ALGO_MAKER example_cfg te live \<and> position (position_keeper te 2) = 5 \<and>
     position (position_keeper te 2) + open_size (order_at (2, 0) (order_manager te)) \<le> 10"
proof -
  obtain te where te: "trading_reach Fin True 1 ALGO_MAKER example_cfg te (\<lambda>_. None)" "order_manager te = example_quoted"
      "te_responses te = []" "position (position_keeper te 2) = 0"
    using example_quoting by blast
  define a where "a = answer RESP_ACCEPTED 1 2 1 70 BUY 100 0 5"
  define f where "f = answer RESP_FILLED 1 2 1 70 BUY 100 5 0"
  define te1 where "te1 = respond a (take_request te)"
  define te2 where "te2 = respond f te1"
  let ?live = "[1 \<mapsto> (2, BUY, 5)] :: live_orders"
  have reqs: "om_requests (order_manager te) = [maker_request 1 BUY 100, maker_request 2 SELL 104]"
    by (simp add: te(2) example_quoted_simps)
  have r1: "trading_reach Fin True 1 ALGO_MAKER example_cfg te1 ?live"
    using trading_reach.accept [OF te(1) reqs, of 70] by (simp add: maker_request_def te1_def a_def)
  have r2: "trading_reach Fin True 1 ALGO_MAKER example_cfg te2 (\<lambda>_. None)"
    using trading_reach.fill [OF r1, of 1 2 BUY 5 5 70 100] by (simp add: te2_def f_def)
  have rs: "te_responses te2 = [a, f]" and k: "position_keeper te2 = position_keeper te"
    by (simp_all add: te2_def te1_def respond_def take_request_def te(3))
  have fit: "response_fits a" "response_fits f" "resp_type a = RESP_ACCEPTED" "resp_type f = RESP_FILLED" "unat (resp_symbol_id f) = 2"
    "fill_delta f = 5"
    by (simp_all add: response_fits_def fill_side_ok_def a_def f_def answer_def kMaxSymbols_def fill_delta_def fill_size_def)
  obtain te3 where te3: "engine_onOrderUpdate Fin a te2 = Inr te3" using engine_onOrderUpdate_returns [OF fit(1)] by blast
  then have k3: "position_keeper te3 = position_keeper te" using fit(3) k by (auto simp: engine_onOrderUpdate_def bindE_eq_Inr)
  define te4 where "te4 = te3\<lparr>te_responses := [f]\<rparr>"
  have r4: "trading_reach Fin True 1 ALGO_MAKER example_cfg te4 (\<lambda>_. None)"
    using trading_reach.response [OF r2 rs te3] by (simp add: te4_def)
  have k4: "position (position_keeper te4 2) = 0" by (simp add: te4_def k3 te(4))
  then obtain te5 where te5: "engine_onOrderUpdate Fin f te4 = Inr te5" "position (position_keeper te5 2) = 5"
    using fill_position [OF fit(2,4), of te4 Fin] fit(5,6) by auto
  let ?te = "te5\<lparr>te_responses := []\<rparr>"
  have "te_responses te4 = [f]" by (simp add: te4_def)
  from trading_reach.response [OF r4 this te5(1)] have r5: "trading_reach Fin True 1 ALGO_MAKER example_cfg ?te (\<lambda>_. None)" .
  have "position (position_keeper ?te 2) + open_size (order_at (2, 0) (order_manager ?te)) \<le> 10"
    using position_within_limit [OF r5, of 2] by (simp add: kMaxSymbols_def example_cfg_def)
  then show ?thesis using r5 te5(2) by (intro exI [of _ ?te] exI conjI) auto
qed

end
