(* ===== verification/Market_Safety.thy ===== *)
theory Market_Safety
  imports Client_Contract Trading_Requests Trading_Runs
begin

text \<open>
  The trading client against the matching engine itself: the client's requests are handled by the
  engine in the order they were sent, between the requests of other clients, and the responses
  meant for the client reach it in order. The transport between the two is taken as the pair of
  ordered channels that the theories of the gateway, the sequencer and the sockets provide.
\<close>

section \<open>A run of the market\<close>

text \<open>The responses of one request that are addressed to the client.\<close>

definition deliver :: "ClientId \<Rightarrow> MatchingEngine \<Rightarrow> MatchingEngine \<Rightarrow> TradeEngine \<Rightarrow> TradeEngine" where
  "deliver c e e' te = te\<lparr>te_responses := te_responses te @ to_client c (drop (length (me_responses e)) (me_responses e'))\<rparr>"

text \<open>Market data reaches the client in any order and with any content its book takes, as the
  multicast stream may be late, repeated or recovered.\<close>

inductive market_reach :: "rounding \<Rightarrow> bool \<Rightarrow> ClientId \<Rightarrow> AlgoType \<Rightarrow> TradeEngineCfgHashMap \<Rightarrow> TradeEngine \<Rightarrow> MatchingEngine \<Rightarrow> bool"
  for rnd debug client algo cfg where
  start: "new_MatchingEngine dbg = Inr e \<Longrightarrow> market_reach rnd debug client algo cfg (new_TradeEngine debug client algo cfg) e"
| market: "market_reach rnd debug client algo cfg te e \<Longrightarrow> engine_onMarketUpdate rnd u te = Inr te' \<Longrightarrow>
    market_reach rnd debug client algo cfg te' e"
| response: "market_reach rnd debug client algo cfg te e \<Longrightarrow> te_responses te = r # rs \<Longrightarrow>
    engine_onOrderUpdate rnd r te = Inr te' \<Longrightarrow> market_reach rnd debug client algo cfg (te'\<lparr>te_responses := rs\<rparr>) e"
| stop: "market_reach rnd debug client algo cfg te e \<Longrightarrow> market_reach rnd debug client algo cfg (te\<lparr>te_stopping := True\<rparr>) e"
| own: "market_reach rnd debug client algo cfg te e \<Longrightarrow> om_requests (order_manager te) = q # qs \<Longrightarrow> engine_valid q e \<Longrightarrow>
    ProcessClientRequest q e = Inr e' \<Longrightarrow> market_reach rnd debug client algo cfg (deliver client e e' (take_request te)) e'"
| other: "market_reach rnd debug client algo cfg te e \<Longrightarrow> req_client_id q \<noteq> client \<Longrightarrow> engine_valid q e \<Longrightarrow>
    ProcessClientRequest q e = Inr e' \<Longrightarrow> market_reach rnd debug client algo cfg (deliver client e e' te) e'"

section \<open>The engine's books and the client's live orders\<close>

definition engine_live :: "ClientId \<Rightarrow> MatchingEngine \<Rightarrow> live_orders \<Rightarrow> bool" where
  "engine_live c e live \<longleftrightarrow>
     (\<forall>i < kMaxSymbols. book_live c (of_nat i) live (resting_in (book_abs (symbol_order_book e i))) None) \<and>
     (\<forall>oid sy s n. live oid = Some (sy, s, n) \<longrightarrow> unat sy < kMaxSymbols)"

lemma engine_live_step:
  assumes ok: "engine_live c e live" and i: "unat sy < kMaxSymbols"
    and others: "\<And>j. j \<noteq> unat sy \<Longrightarrow> symbol_order_book e' j = symbol_order_book e j"
    and here: "book_live c sy live' (resting_in (book_abs (symbol_order_book e' (unat sy)))) None" and of_sy: "of_one_symbol sy live live'"
  shows "engine_live c e' live'"
  unfolding engine_live_def
proof (intro conjI allI impI)
  fix j assume j: "j < kMaxSymbols"
  show "book_live c (of_nat j) live' (resting_in (book_abs (symbol_order_book e' j))) None"
  proof (cases "j = unat sy")
    case True
    then show ?thesis using here by simp
  next
    case False
    have "unat (of_nat j :: SymbolId) = j" using j by (simp add: unat_of_nat_small kMaxSymbols_def)
    then have ne: "(of_nat j :: SymbolId) \<noteq> sy" using False by auto
    have "book_live c (of_nat j) live (resting_in (book_abs (symbol_order_book e j))) None" using ok j by (simp add: engine_live_def)
    then show ?thesis using of_sy ne others [OF False] unfolding book_live_def of_one_symbol_def by simp
  qed
next
  fix oid sy' s n assume l: "live' oid = Some (sy', s, n)"
  show "unat sy' < kMaxSymbols"
  proof (cases "sy' = sy")
    case False
    then have "live oid = Some (sy', s, n)" using of_sy l unfolding of_one_symbol_def by blast
    then show ?thesis using ok unfolding engine_live_def by blast
  qed (use i in simp)
qed

text \<open>What a request does to the engine, at the level of the specification of its book.\<close>

lemma process_effect:
  assumes inv: "engine_inv e" and ok: "engine_valid q e" and run: "ProcessClientRequest q e = Inr e'"
  defines "x \<equiv> spec_request (req_symbol_id q) kDefaultPriceBand (as_request q) (book_abs (symbol_order_book e (unat (req_symbol_id q))))"
  shows "engine_inv e'" "deliver c e e' te = te\<lparr>te_responses := te_responses te @ to_client c (out_responses x)\<rparr>"
    "book_abs (symbol_order_book e' (unat (req_symbol_id q))) = out_book x"
    "\<And>j. j \<noteq> unat (req_symbol_id q) \<Longrightarrow> symbol_order_book e' j = symbol_order_book e j"
proof -
  from process_ok [OF inv ok, folded x_def] run obtain b' where e': "e' = e\<lparr>symbol_order_book :=
      (symbol_order_book e)(unat (req_symbol_id q) := b'), me_responses := me_responses e @ out_responses x,
      me_updates := me_updates e @ out_updates x\<rparr>"
    and b': "book_inv b'" "book_abs b' = out_book x" "bk_symbol_id b' = req_symbol_id q" "bk_band b' = kDefaultPriceBand"
    by auto
  show "engine_inv e'" using inv b' by (auto simp: e' engine_inv_def)
  show "deliver c e e' te = te\<lparr>te_responses := te_responses te @ to_client c (out_responses x)\<rparr>" by (simp add: deliver_def e')
  show "book_abs (symbol_order_book e' (unat (req_symbol_id q))) = out_book x" using b'(2) by (simp add: e')
  show "symbol_order_book e' j = symbol_order_book e j" if "j \<noteq> unat (req_symbol_id q)" for j using that by (simp add: e')
qed

lemma engine_book:
  assumes "engine_inv e" and "engine_valid q e"
  shows "book_inv (symbol_order_book e (unat (req_symbol_id q)))" "bk_band (symbol_order_book e (unat (req_symbol_id q))) = kDefaultPriceBand"
    "unat (req_symbol_id q) < kMaxSymbols" "valid_request (as_request q) (symbol_order_book e (unat (req_symbol_id q)))"
    "req_type q = REQ_NEW \<or> req_type q = REQ_CANCELED"
    "engine_live c e live \<Longrightarrow>
      book_live c (req_symbol_id q) live (resting_in (book_abs (symbol_order_book e (unat (req_symbol_id q))))) None"
proof -
  show u: "unat (req_symbol_id q) < kMaxSymbols" using assms(2) by (simp add: engine_valid_def)
  show "book_live c (req_symbol_id q) live (resting_in (book_abs (symbol_order_book e (unat (req_symbol_id q))))) None"
    if "engine_live c e live"
    using that [unfolded engine_live_def, THEN conjunct1, rule_format, OF u] by simp
qed (use assms in \<open>auto simp: engine_valid_def engine_inv_def\<close>)

section \<open>A request of the client, or of another\<close>

lemma other_request_allowed:
  assumes te: "trading_reach rnd debug c algo cfg te live" and el: "engine_live c e live" and inv: "engine_inv e"
    and q: "req_client_id q \<noteq> c" "engine_valid q e" "ProcessClientRequest q e = Inr e'"
  shows "\<exists>live'. trading_reach rnd debug c algo cfg (deliver c e e' te) live' \<and> engine_live c e' live'"
proof -
  let ?b = "symbol_order_book e (unat (req_symbol_id q))" and ?sy = "req_symbol_id q"
  note b = engine_book [OF inv q(2)] and eff = process_effect [OF inv q(2,3)]
  note bl = b(6) [OF el]
  have step: "engine_live c e' live'" if "book_live c ?sy live' (resting_in (book_abs (symbol_order_book e' (unat ?sy)))) None"
      "of_one_symbol ?sy live live'" for live'
    by (rule engine_live_step [OF el b(3) eff(4) that])
  show ?thesis
  proof (cases "req_type q = REQ_NEW")
    case True
    then have v: "valid_request (Add_Request (req_client_id q) (req_order_id q) (req_side q) (req_price q) (req_quantity q)) ?b"
      using b(4) by (simp add: as_request_def)
    from add_allowed [OF b(1) v bl] q(1) True b(2) obtain frs where frs:
      "to_client c (out_responses (spec_request ?sy kDefaultPriceBand (as_request q) (book_abs ?b))) = frs"
      "fills_allowed c live frs" "of_one_symbol ?sy live (foldl fill_step live frs)"
      "book_live c ?sy (foldl fill_step live frs)
        (resting_in (out_book (spec_request ?sy kDefaultPriceBand (as_request q) (book_abs ?b)))) None"
      by (auto simp: spec_request_def as_request_def)
    have "trading_reach rnd debug c algo cfg (deliver c e e' te) (foldl fill_step live frs)"
      unfolding eff(2) frs(1) by (rule fills_reach [OF te frs(2)])
    then show ?thesis using step [OF frs(4) [folded eff(3)] frs(3)] by blast
  next
    case False
    then have v: "valid_request (Cancel_Request (req_client_id q) (req_order_id q)) ?b" using b(4) by (simp add: as_request_def)
    from cancel_allowed [OF b(1) v bl] q(1) False b(2) have
      "to_client c (out_responses (spec_request ?sy kDefaultPriceBand (as_request q) (book_abs ?b))) = []"
      "book_live c ?sy live (resting_in (out_book (spec_request ?sy kDefaultPriceBand (as_request q) (book_abs ?b)))) None"
      by (auto simp: spec_request_def as_request_def)
    then show ?thesis using step [of live] te eff(2,3) by (intro exI [of _ live]) simp
  qed
qed

lemma own_request_allowed:
  assumes te: "trading_reach rnd debug c algo cfg te live" and algo: "algo = ALGO_MAKER \<or> algo = ALGO_TAKER"
    and el: "engine_live c e live" and inv: "engine_inv e"
    and q: "om_requests (order_manager te) = q # qs" "engine_valid q e" "ProcessClientRequest q e = Inr e'"
  shows "\<exists>live'. trading_reach rnd debug c algo cfg (deliver c e e' (take_request te)) live' \<and> engine_live c e' live'"
proof -
  let ?b = "symbol_order_book e (unat (req_symbol_id q))" and ?sy = "req_symbol_id q" and ?te = "take_request te"
  note b = engine_book [OF inv q(2)] and eff = process_effect [OF inv q(2,3)]
  note bl = b(6) [OF el]
  have cid: "req_client_id q = c" using trading_reach_typed [OF te] q(1) by (simp add: requests_typed_def request_typed_def)
  have or: "orders_right (order_manager te) (te_responses te) live" using trading_reach_right [OF te algo] by (simp add: trading_right_def)
  have mem: "q \<in> set (om_requests (order_manager te))" using q(1) by simp
  have step: "engine_live c e' live'" if "book_live c ?sy live' (resting_in (book_abs (symbol_order_book e' (unat ?sy)))) None"
      "of_one_symbol ?sy live live'" for live'
    by (rule engine_live_step [OF el b(3) eff(4) that])
  show ?thesis
  proof (cases "req_type q = REQ_NEW")
    case True
    then have v: "valid_request (Add_Request (req_client_id q) (req_order_id q) (req_side q) (req_price q) (req_quantity q)) ?b"
      using b(4) by (simp add: as_request_def)
    have fresh: "live (req_order_id q) = None" using orders_rightD(4) [OF or mem True] by (simp add: new_request_right_def)
    let ?live = "live(req_order_id q \<mapsto> (?sy, req_side q, req_quantity q))"
    from add_allowed [OF b(1) v bl fresh] cid True b(2) obtain moid frs where frs:
      "to_client c (out_responses (spec_request ?sy kDefaultPriceBand (as_request q) (book_abs ?b))) =
        accepted ?sy c (req_order_id q) moid (req_side q) (req_price q) (req_quantity q) # frs"
      "fills_allowed c ?live frs" "of_one_symbol ?sy live (foldl fill_step ?live frs)"
      "book_live c ?sy (foldl fill_step ?live frs)
        (resting_in (out_book (spec_request ?sy kDefaultPriceBand (as_request q) (book_abs ?b)))) None"
      by (auto simp: spec_request_def as_request_def)
    let ?a = "accepted ?sy c (req_order_id q) moid (req_side q) (req_price q) (req_quantity q)"
    have "trading_reach rnd debug c algo cfg (respond ?a ?te) ?live"
      using trading_reach.accept [OF te q(1) True, of moid] cid by (simp add: answer_def accepted_def)
    from fills_reach [OF this frs(2)]
    have "trading_reach rnd debug c algo cfg (deliver c e e' ?te) (foldl fill_step ?live frs)"
      unfolding eff(2) frs(1) by (simp add: respond_def)
    then show ?thesis using step [OF frs(4) [folded eff(3)] frs(3)] by blast
  next
    case False
    then have ty: "req_type q = REQ_CANCELED" using b(5) by simp
    have v: "valid_request (Cancel_Request (req_client_id q) (req_order_id q)) ?b" using False b(4) by (simp add: as_request_def)
    let ?x = "spec_request ?sy kDefaultPriceBand (as_request q) (book_abs ?b)"
    have at: "sy = ?sy" if l: "live (req_order_id q) = Some (sy, s, n)" for sy s n
    proof -
      obtain pl where pl: "pl \<in> places" "working (order_at pl (order_manager te))"
          "omo_order_id (order_at pl (order_manager te)) = req_order_id q" "unat sy = fst pl"
        using live_working [OF or l] by blast
      then have "unat ?sy = fst pl"
        using orders_rightD(5) [OF or mem False] working_used unfolding cancel_request_right_def by blast
      then show ?thesis using pl(4) by (simp add: word_unat_eq_iff)
    qed
    from cancel_allowed [OF b(1) v bl] cid False b(2) obtain live' where l':
      "book_live c ?sy live' (resting_in (out_book ?x)) None" "of_one_symbol ?sy live live'"
      "(\<exists>moid s px n. live (req_order_id q) = Some (?sy, s, n) \<and> live' = live(req_order_id q := None) \<and>
          to_client c (out_responses ?x) = [answer RESP_CANCELED c ?sy (req_order_id q) moid s px 0 n]) \<or>
       (\<forall>s n. live (req_order_id q) \<noteq> Some (?sy, s, n)) \<and> live' = live \<and>
          to_client c (out_responses ?x) = [answer RESP_CANCEL_REJECTED c ?sy (req_order_id q) 0 Side_zero 0 0 0]"
      by (auto simp: spec_request_def as_request_def) blast
    from l'(3) have "trading_reach rnd debug c algo cfg (deliver c e e' ?te) live'"
    proof (elim disjE exE conjE)
      fix moid s px n
      assume l: "live (req_order_id q) = Some (?sy, s, n)" "live' = live(req_order_id q := None)"
        "to_client c (out_responses ?x) = [answer RESP_CANCELED c ?sy (req_order_id q) moid s px 0 n]"
      show ?thesis unfolding eff(2) l(2,3)
        using trading_reach.cancel [OF te q(1) ty l(1), of moid px] by (simp add: cid respond_def)
    next
      assume l: "\<forall>s n. live (req_order_id q) \<noteq> Some (?sy, s, n)" "live' = live"
        "to_client c (out_responses ?x) = [answer RESP_CANCEL_REJECTED c ?sy (req_order_id q) 0 Side_zero 0 0 0]"
      have "live (req_order_id q) = None" using at l(1) by (cases "live (req_order_id q)") auto
      then show ?thesis unfolding eff(2) l(2,3)
        using trading_reach.reject [OF te q(1) ty] by (simp add: cid respond_def)
    qed
    then show ?thesis using step [OF l'(1) [folded eff(3)] l'(2)] by blast
  qed
qed

section \<open>The simulation\<close>

lemma new_engine_live:
  assumes "new_MatchingEngine dbg = Inr e"
  shows "engine_inv e" "engine_live c e (\<lambda>_. None)"
proof -
  from new_MatchingEngine_ok [of dbg] assms have e: "engine_inv e"
    "\<forall>i < kMaxSymbols. new_BookCore dbg (of_nat i) kDefaultPriceBand = Inr (symbol_order_book e i)" by auto
  then show "engine_inv e" by simp
  have "book_abs (symbol_order_book e i) = empty_abook" if "i < kMaxSymbols" for i
    using new_BookCore_ok [OF default_band_valid, of dbg "of_nat i"] e(2) that by auto
  moreover have "resting_in empty_abook = {}" by (simp add: resting_in_def empty_abook_def empty_alevel_def)
  ultimately show "engine_live c e (\<lambda>_. None)" by (simp add: engine_live_def book_live_def)
qed

lemma market_reach_live:
  assumes "market_reach rnd debug c algo cfg te e" and algo: "algo = ALGO_MAKER \<or> algo = ALGO_TAKER"
  shows "\<exists>live. trading_reach rnd debug c algo cfg te live \<and> engine_live c e live \<and> engine_inv e"
  using assms(1)
proof induction
  case (start dbg e)
  then show ?case using new_engine_live trading_reach.start by blast
next
  case (market te e u te')
  then show ?case using trading_reach.market by blast
next
  case (response te e r rs te')
  then show ?case using trading_reach.response by blast
next
  case (stop te e)
  then show ?case using trading_reach.stop by blast
next
  case (own te e q qs e')
  then show ?case using own_request_allowed [OF _ algo] process_effect(1) by blast
next
  case (other te e q e')
  then show ?case using other_request_allowed process_effect(1) by blast
qed

text \<open>C11: Against the exchange's own matching engine the trading client keeps its position limit: in
  every state of a run where the engine handles the client's requests in the order they were sent,
  between requests of other clients, and its responses reach the client in order, each position lies
  within \<open>max_position\<close>, counting the open orders of either side as if filled. The requests the engine is
  given, the client's own and those of the others, are valid for its books (\<open>engine_valid\<close>: ids within
  the tables, a new order of positive quantity on the price grid with an id not in use and room for it);
  a client that reuses a live id is the subject of \<open>duplicate_order_id_orphans\<close>.\<close>

theorem market_keeps_position_limit:
  assumes "market_reach rnd debug client algo cfg te e" and "algo = ALGO_MAKER \<or> algo = ALGO_TAKER" and "t < kMaxSymbols"
  shows "position (position_keeper te t) + open_size (order_at (t, 0) (order_manager te)) \<le> int (unat (max_position (cfg_risk (cfg t)))) \<and>
    - int (unat (max_position (cfg_risk (cfg t)))) \<le> position (position_keeper te t) - open_size (order_at (t, 1) (order_manager te))"
proof -
  obtain live where "trading_reach rnd debug client algo cfg te live" using market_reach_live [OF assms(1,2)] by blast
  from trading_reach_right [OF this assms(2)] show ?thesis
    using assms(3) by (simp add: trading_right_def exposure_right_def limit_def)
qed

section \<open>The client's requests are valid\<close>

lemma quotable_on_grid:
  assumes "quotable (Some p) = Some p" and "p < 2 ^ 31"
  shows "0 \<le> ToTick kDefaultPriceBand p" "ToTick kDefaultPriceBand p < int kTickCount"
    "ToPrice kDefaultPriceBand (ToTick kDefaultPriceBand p) = p"
proof -
  have p: "0 \<le> p" "p < int kTickCount" using quotable_in_band [OF assms(1)] assms(2) by auto
  have "swrap 64 p = p" "swrap 32 p = p" using p(1) assms(2) by (simp_all add: swrap_id)
  then show "0 \<le> ToTick kDefaultPriceBand p" "ToTick kDefaultPriceBand p < int kTickCount"
    "ToPrice kDefaultPriceBand (ToTick kDefaultPriceBand p) = p"
    using p by (simp_all add: ToTick_def ToPrice_def kDefaultPriceBand_def tdiv_nonneg)
qed

definition on_grid :: "Price \<Rightarrow> bool" where
  "on_grid p \<longleftrightarrow> 0 \<le> ToTick kDefaultPriceBand p \<and> ToTick kDefaultPriceBand p < int kTickCount \<and>
     ToPrice kDefaultPriceBand (ToTick kDefaultPriceBand p) = p"

text \<open>C9: Every request the trading client sends is well formed, for a client whose id lies within the
  exchange's tables: it carries this id, a symbol and an order id within the tables, and a new order
  names a side, a positive quantity, an order id that the book of its symbol does not hold, and a price
  on the engine's grid unless the price is 2^31 or more (the client's band check compares a tick cut to
  32 bits, see \<open>quotable_truncates\<close>). The engine handles every cancel without a fault, and every new order
  whose price is below 2^31 while the book has a free node and market order ids left.\<close>

theorem client_request_is_valid:
  assumes "market_reach rnd debug client algo cfg te e" and algo: "algo = ALGO_MAKER \<or> algo = ALGO_TAKER"
    and q: "om_requests (order_manager te) = q # qs" and client: "unat client < kMaxNumClients"
  defines "bk \<equiv> symbol_order_book e (unat (req_symbol_id q))"
  shows "req_client_id q = client \<and> unat (req_symbol_id q) < kMaxSymbols \<and> unat (req_order_id q) < kMaxOrderIds \<and>
    (req_type q = REQ_NEW \<or> req_type q = REQ_CANCELED) \<and>
    (req_type q = REQ_NEW \<longrightarrow> (req_side q = BUY \<or> req_side q = SELL) \<and> 0 < req_quantity q \<and>
       FindOrder client (req_order_id q) bk = Inr None \<and> (req_price q < 2 ^ 31 \<longrightarrow> on_grid (req_price q))) \<and>
    (req_type q = REQ_CANCELED \<or> req_price q < 2 ^ 31 \<and> mp_in_use (order_pool bk) < kMaxOrderIds \<and> unat (next_market_order_id bk) + 1 < 2 ^ 64 \<longrightarrow>
       engine_valid q e \<and> (\<exists>e'. ProcessClientRequest q e = Inr e'))"
proof -
  obtain live where live: "trading_reach rnd debug client algo cfg te live" "engine_live client e live" and inv: "engine_inv e"
    using market_reach_live [OF assms(1) algo] by blast
  let ?m = "order_manager te"
  have or: "orders_right ?m (te_responses te) live" using trading_reach_right [OF live(1) algo] by (simp add: trading_right_def)
  have ty: "requests_typed client cfg ?m" using trading_reach_typed [OF live(1)] by blast
  have mem: "q \<in> set (om_requests ?m)" using q by simp
  have qt: "req_client_id q = client" "unat (req_symbol_id q) < kMaxSymbols"
      "req_type q = REQ_NEW \<Longrightarrow> 0 < req_quantity q" "req_type q = REQ_NEW \<Longrightarrow> quotable (Some (req_price q)) = Some (req_price q)"
    using requests_typedD(3) [OF ty mem] unfolding request_typed_def by blast+
  have coid: "unat (req_order_id q) < kMaxOrderIds"
    using orders_rightD(3) [OF or mem] requests_typedD(1) [OF ty] by (simp add: word_less_nat_alt)
  have kind: "req_type q = REQ_NEW \<or> req_type q = REQ_CANCELED" using orders_rightD(2) [OF or] q by simp
  have bk: "book_inv bk" "bk_band bk = kDefaultPriceBand"
    and bl: "book_live client (req_symbol_id q) live (resting_in (book_abs bk)) None"
    using inv qt(2) live(2) [unfolded engine_live_def, THEN conjunct1, rule_format, OF qt(2)] by (simp_all add: engine_inv_def bk_def)
  have new: "(req_side q = BUY \<or> req_side q = SELL) \<and> 0 < req_quantity q \<and> FindOrder client (req_order_id q) bk = Inr None \<and>
      (req_price q < 2 ^ 31 \<longrightarrow> on_grid (req_price q))" if "req_type q = REQ_NEW"
  proof -
    from orders_rightD(4) [OF or mem that] have fresh: "live (req_order_id q) = None" and side: "req_side q = BUY \<or> req_side q = SELL"
      by (auto simp: new_request_right_def side_of_def split: if_splits)
    have free: "r_coid r \<noteq> req_order_id q" if r: "(b, r) \<in> resting_in (book_abs bk)" "r_client r = client" for b r
    proof
      assume "r_coid r = req_order_id q"
      then have "live (req_order_id q) = Some (req_symbol_id q, dir b, r_qty r)" using bl r unfolding book_live_def by blast
      then show False using fresh by simp
    qed
    have "FindOrder client (req_order_id q) bk = Inr None" by (rule FindOrder_free [OF bk(1) client coid free])
    then show ?thesis using side qt(3) [OF that] quotable_on_grid [OF qt(4) [OF that]] by (simp add: on_grid_def)
  qed
  have "engine_valid q e \<and> (\<exists>e'. ProcessClientRequest q e = Inr e')"
    if ok: "req_type q = REQ_CANCELED \<or> req_price q < 2 ^ 31 \<and> mp_in_use (order_pool bk) < kMaxOrderIds \<and> unat (next_market_order_id bk) + 1 < 2 ^ 64"
  proof -
    have "valid_request (as_request q) bk"
    proof (cases "req_type q = REQ_NEW")
      case True
      then show ?thesis using ok new [OF True] qt(1) client coid by (simp add: as_request_def valid_request_def bk(2) on_grid_def)
    next
      case False
      then show ?thesis using qt(1) client coid by (simp add: as_request_def valid_request_def)
    qed
    then have valid: "engine_valid q e" using qt(2) kind by (simp add: engine_valid_def bk_def)
    then show ?thesis using process_ok [OF inv valid] by blast
  qed
  then show ?thesis using qt(1,2) coid kind new by blast
qed

section \<open>The client and the exchange agree\<close>

text \<open>The orders the client works on, and the client's orders that rest in the engine's books: symbol,
  side, client order id and open quantity.\<close>

definition client_orders :: "OrderManager \<Rightarrow> (nat \<times> Side \<times> OrderId \<times> Quantity) set" where
  "client_orders m = {(t, s, oid, n). \<exists>j < 2. t < kMaxSymbols \<and> working (order_at (t, j) m) \<and> s = side_of j \<and>
     oid = omo_order_id (order_at (t, j) m) \<and> n = omo_qty (order_at (t, j) m)}"

definition exchange_orders :: "ClientId \<Rightarrow> MatchingEngine \<Rightarrow> (nat \<times> Side \<times> OrderId \<times> Quantity) set" where
  "exchange_orders c e = {(t, s, oid, n). t < kMaxSymbols \<and> (\<exists>b r. (b, r) \<in> resting_in (book_abs (symbol_order_book e t)) \<and>
     r_client r = c \<and> s = dir b \<and> oid = r_coid r \<and> n = r_qty r)}"

lemma exchange_orders_live:
  assumes "engine_live c e live"
  shows "(t, s, oid, n) \<in> exchange_orders c e \<longleftrightarrow> t < kMaxSymbols \<and> live oid = Some (of_nat t, s, n)"
proof (cases "t < kMaxSymbols")
  case True
  then have "book_live c (of_nat t) live (resting_in (book_abs (symbol_order_book e t))) None"
    using assms unfolding engine_live_def by blast
  then have "live oid = Some (of_nat t, s, n) \<longleftrightarrow>
      (\<exists>b r. (b, r) \<in> resting_in (book_abs (symbol_order_book e t)) \<and> r_client r = c \<and> r_coid r = oid \<and> s = dir b \<and> n = r_qty r)"
    unfolding book_live_def by simp
  then show ?thesis using True unfolding exchange_orders_def by blast
qed (simp add: exchange_orders_def)

text \<open>With nothing in flight, what the client tracks of an order is what is live.\<close>

lemma client_orders_live:
  assumes ok: "orders_right m [] live" and none: "om_requests m = []"
  shows "(t, s, oid, n) \<in> client_orders m \<longleftrightarrow> t < kMaxSymbols \<and> live oid = Some (of_nat t, s, n)"
proof
  assume "(t, s, oid, n) \<in> client_orders m"
  then obtain j where j: "j < 2" "t < kMaxSymbols" "working (order_at (t, j) m)" "s = side_of j"
      "oid = omo_order_id (order_at (t, j) m)" "n = omo_qty (order_at (t, j) m)" by (auto simp: client_orders_def)
  have "(t, j) \<in> places" using j(1,2) by (simp add: places_def)
  from orders_rightD(7) [OF ok this j(3)] have tr: "tracked (t, j) (order_at (t, j) m) [] live" using none by (simp add: pending_new_def)
  then have "open_at live oid = Some n" using j(5,6) by (simp add: tracked_def)
  then obtain sy s' where l: "live oid = Some (sy, s', n)" by (cases "live oid") (auto simp: open_at_def)
  then have "unat sy = t" "s' = s" using tr j(4,5) by (simp_all add: tracked_def)
  then show "t < kMaxSymbols \<and> live oid = Some (of_nat t, s, n)" using l j(2) by auto
next
  assume l: "t < kMaxSymbols \<and> live oid = Some (of_nat t, s, n)"
  then obtain pl where pl: "pl \<in> places" "working (order_at pl m)" "omo_order_id (order_at pl m) = oid"
      "tracked pl (order_at pl m) [] live" "unat (of_nat t :: SymbolId) = fst pl" "s = side_of (snd pl)"
    using live_working [OF ok] by blast
  have "fst pl = t" using l pl(5) by (simp add: unat_of_nat_small kMaxSymbols_def)
  moreover have "omo_qty (order_at pl m) = n" using pl(3,4) l by (simp add: tracked_def open_at_def)
  ultimately show "(t, s, oid, n) \<in> client_orders m"
    using pl l unfolding client_orders_def places_def by (cases pl) auto
qed

text \<open>C10: When nothing is in flight between them, the client and the exchange agree on the client's
  orders: with no request and no response pending, the orders the client works on are exactly the
  orders that rest in the engine's books under its id, with the same symbol, side, client order id
  and open quantity, and at most one order of a symbol and side rests there.\<close>

theorem quiet_client_agrees_with_exchange:
  assumes "market_reach rnd debug client algo cfg te e" and "algo = ALGO_MAKER \<or> algo = ALGO_TAKER"
    and "te_responses te = []" and "om_requests (order_manager te) = []"
  shows "client_orders (order_manager te) = exchange_orders client e \<and>
    (\<forall>t s oid n oid' n'. (t, s, oid, n) \<in> exchange_orders client e \<longrightarrow> (t, s, oid', n') \<in> exchange_orders client e \<longrightarrow>
       oid = oid' \<and> n = n')"
proof -
  obtain live where live: "trading_reach rnd debug client algo cfg te live" "engine_live client e live"
    using market_reach_live [OF assms(1,2)] by blast
  have "orders_right (order_manager te) [] live" using trading_reach_right [OF live(1) assms(2)] assms(3) by (simp add: trading_right_def)
  then have "x \<in> client_orders (order_manager te) \<longleftrightarrow> x \<in> exchange_orders client e" for x
    using client_orders_live [OF _ assms(4)] exchange_orders_live [OF live(2)] by (cases x) simp
  then have eq: "client_orders (order_manager te) = exchange_orders client e" by blast
  have side: "j = k" if "side_of j = side_of k" "j < 2" "k < 2" for j k using that by (auto simp: side_of_def split: if_splits)
  have "oid = oid' \<and> n = n'" if "(t, s, oid, n) \<in> exchange_orders client e" "(t, s, oid', n') \<in> exchange_orders client e"
    for t s oid n oid' n'
    using that side unfolding eq [symmetric] client_orders_def by fast
  then show ?thesis using eq by blast
qed

section \<open>A run with both orders accepted\<close>

text \<open>The book of symbol 2 as the engine makes it, with the market maker's bid, and with both orders.\<close>

definition example_book2 :: BookCore where "example_book2 = projr (new_BookCore True 2 kDefaultPriceBand)"
definition example_bid2 :: BookCore where "example_bid2 = projr (Add 1 1 BUY 100 5 example_book2)"
definition example_both2 :: BookCore where "example_both2 = projr (Add 1 2 SELL 104 5 example_bid2)"

definition accepted_bid :: MatchingEngineClientResponse where "accepted_bid = answer RESP_ACCEPTED 1 2 1 1 BUY 100 0 5"
definition accepted_offer :: MatchingEngineClientResponse where "accepted_offer = answer RESP_ACCEPTED 1 2 2 2 SELL 104 0 5"

lemma example_books2:
  "new_BookCore True 2 kDefaultPriceBand = Inr example_book2"
  "client_responses example_book2 = []" "market_updates example_book2 = []"
  "valid_request (Add_Request 1 1 BUY 100 5) example_book2"
  "mp_in_use (order_pool example_book2) = 0" "next_market_order_id example_book2 = 1"
  by (simp_all add: example_book2_def book_eval)

lemma example_bids2:
  "Add 1 1 BUY 100 5 example_book2 = Inr example_bid2"
  "client_responses example_bid2 = [accepted_bid]"
  "valid_request (Add_Request 1 2 SELL 104 5) example_bid2"
  by (simp_all add: example_bid2_def example_book2_def accepted_bid_def answer_def book_eval)

lemma example_boths2:
  "Add 1 2 SELL 104 5 example_bid2 = Inr example_both2"
  "client_responses example_both2 = [accepted_bid, accepted_offer]"
  by (simp_all add: example_both2_def example_bid2_def example_book2_def accepted_bid_def accepted_offer_def answer_def book_eval)

lemma example_requests_handled:
  "\<exists>e e1 e2. new_MatchingEngine True = Inr e \<and> me_responses e = [] \<and> symbol_order_book e 2 = example_book2 \<and>
     engine_valid (maker_request 1 BUY 100) e \<and> ProcessClientRequest (maker_request 1 BUY 100) e = Inr e1 \<and>
     me_responses e1 = [accepted_bid] \<and>
     engine_valid (maker_request 2 SELL 104) e1 \<and> ProcessClientRequest (maker_request 2 SELL 104) e1 = Inr e2 \<and>
     me_responses e2 = [accepted_bid, accepted_offer]"
proof -
  obtain e where e: "new_MatchingEngine True = Inr e" "me_responses e = []" "me_updates e = []"
      "\<forall>i < kMaxSymbols. new_BookCore True (of_nat i) kDefaultPriceBand = Inr (symbol_order_book e i)"
    using new_MatchingEngine_ok by blast
  have book: "symbol_order_book e 2 = example_book2"
    using e(4) [rule_format, of 2] example_books2(1) by (simp add: kMaxSymbols_def)
  have same: "b\<lparr>client_responses := client_responses b, market_updates := market_updates b\<rparr> = b" for b :: BookCore by simp
  have same2: "example_book2\<lparr>client_responses := [], market_updates := []\<rparr> = example_book2"
    using same [of example_book2] by (simp only: example_books2(2,3))
  define e1 where "e1 = e\<lparr>symbol_order_book := (symbol_order_book e)(2 := example_bid2), me_responses := client_responses example_bid2,
    me_updates := market_updates example_bid2\<rparr>"
  define e2 where "e2 = e1\<lparr>symbol_order_book := (symbol_order_book e1)(2 := example_both2), me_responses := client_responses example_both2,
    me_updates := market_updates example_both2\<rparr>"
  have "ProcessClientRequest (maker_request 1 BUY 100) e = Inr e1"
    using same2 example_bids2(1) book e(2,3)
    by (simp add: ProcessClientRequest_def maker_request_def on_book_def e1_def kMaxSymbols_def)
  moreover have "ProcessClientRequest (maker_request 2 SELL 104) e1 = Inr e2"
    using same [of example_bid2] example_boths2(1)
    by (simp add: ProcessClientRequest_def maker_request_def on_book_def e2_def e1_def kMaxSymbols_def)
  moreover have "engine_valid (maker_request 1 BUY 100) e" "engine_valid (maker_request 2 SELL 104) e1"
    using example_books2(4) example_bids2(3) book by (simp_all add: engine_valid_def as_request_def maker_request_def e1_def kMaxSymbols_def)
  ultimately show ?thesis using e(1,2) book example_bids2(2) example_boths2(2) by (auto simp: e1_def e2_def)
qed

lemma accepted_run:
  assumes "order_at (2, j) (order_manager te) = example_om_order oid s p" and "te_algo te = ALGO_MAKER" and "j < 2"
    and "\<And>i. i < j \<Longrightarrow> omo_order_id (order_at (2, i) (order_manager te)) \<noteq> oid"
  shows "engine_onOrderUpdate Fin (answer RESP_ACCEPTED 1 2 oid moid s p 0 5) te =
    Inr (te\<lparr>order_manager := put_order (2, j) ((example_om_order oid s p)\<lparr>omo_state := LIVE\<rparr>) (order_manager te)\<rparr>)"
proof -
  let ?m = "order_manager te" and ?r = "answer RESP_ACCEPTED 1 2 oid moid s p 0 5"
  have "j = 0 \<or> j = 1" using assms(3) by linarith
  then have "find (\<lambda>i. omo_state (order_at (2, i) ?m) \<noteq> OM_INVALID \<and> omo_order_id (order_at (2, i) ?m) = oid) [0, 1] = Some j"
    using assms(1) assms(4) [of 0] by (elim disjE) (simp_all add: example_om_order_def)
  then have "onOrderUpdate ?r ?m = Inr (put_order (2, j) ((example_om_order oid s p)\<lparr>omo_state := LIVE\<rparr>) ?m)"
    using assms(1) by (simp add: onOrderUpdate_def answer_def kMaxSymbols_def Let_def)
  then show ?thesis
    using assms(2) by (simp add: engine_onOrderUpdate_def algoOnOrderUpdate_def maker_onOrderUpdate_def answer_def)
qed

lemma example_market:
  "\<exists>te e. market_reach Fin True 1 ALGO_MAKER example_cfg te e \<and> te_responses te = [] \<and> om_requests (order_manager te) = [] \<and>
     working (order_at (2, 0) (order_manager te)) \<and> omo_order_id (order_at (2, 0) (order_manager te)) = 1 \<and>
     omo_qty (order_at (2, 0) (order_manager te)) = 5"
proof -
  obtain e e1 e2 where ex: "new_MatchingEngine True = Inr e" "me_responses e = []"
     "engine_valid (maker_request 1 BUY 100) e" "ProcessClientRequest (maker_request 1 BUY 100) e = Inr e1" "me_responses e1 = [accepted_bid]"
     "engine_valid (maker_request 2 SELL 104) e1" "ProcessClientRequest (maker_request 2 SELL 104) e1 = Inr e2"
     "me_responses e2 = [accepted_bid, accepted_offer]"
    using example_requests_handled by blast
  obtain ta tb where run: "engine_onMarketUpdate Fin (example_order 7 BUY 100 3) (new_TradeEngine True 1 ALGO_MAKER example_cfg) = Inr ta"
     "engine_onMarketUpdate Fin (example_order 9 SELL 104 5) ta = Inr tb" "order_manager tb = example_quoted" "te_responses tb = []"
     "te_algo tb = ALGO_MAKER"
    using example_quote_run by blast
  let ?reach = "market_reach Fin True 1 ALGO_MAKER example_cfg"
  have r0: "?reach tb e" by (rule market_reach.market [OF market_reach.market [OF market_reach.start [OF ex(1)] run(1)] run(2)])
  define tc where "tc = deliver 1 e e1 (take_request tb)"
  define td where "td = deliver 1 e1 e2 (take_request tc)"
  have "om_requests (order_manager tb) = [maker_request 1 BUY 100, maker_request 2 SELL 104]" by (simp add: run(3) example_quoted_simps)
  from market_reach.own [OF r0 this ex(3,4)] have r1: "?reach tc e1" by (simp add: tc_def)
  have tc: "om_requests (order_manager tc) = [maker_request 2 SELL 104]" "te_responses tc = [accepted_bid]"
    by (simp_all add: tc_def deliver_def take_request_def run(3,4) example_quoted_simps ex(2,5) accepted_bid_def answer_def)
  from market_reach.own [OF r1 tc(1) ex(6,7)] have r2: "?reach td e2" by (simp add: td_def)
  have td: "om_requests (order_manager td) = []" "te_responses td = [accepted_bid, accepted_offer]" "te_algo td = ALGO_MAKER"
    "order_at (2, 0) (order_manager td) = example_om_order 1 BUY 100" "order_at (2, 1) (order_manager td) = example_om_order 2 SELL 104"
    by (simp_all add: td_def tc_def deliver_def take_request_def run(3-5) example_quoted_simps ex(2,5,8) accepted_bid_def accepted_offer_def
        answer_def del: One_nat_def)
  define m1 where "m1 = put_order (2, 0) ((example_om_order 1 BUY 100)\<lparr>omo_state := LIVE\<rparr>) (order_manager td)"
  define te1 where "te1 = td\<lparr>order_manager := m1\<rparr>"
  have "engine_onOrderUpdate Fin accepted_bid td = Inr te1"
    unfolding accepted_bid_def te1_def m1_def by (rule accepted_run [OF td(4,3)]) simp_all
  from market_reach.response [OF r2 td(2) this] have r3: "?reach (te1\<lparr>te_responses := [accepted_offer]\<rparr>) e2" .
  define tf where "tf = te1\<lparr>te_responses := [accepted_offer]\<rparr>"
  define m2 where "m2 = put_order (2, 1) ((example_om_order 2 SELL 104)\<lparr>omo_state := LIVE\<rparr>) m1"
  have tf: "order_at (2, 1) (order_manager tf) = example_om_order 2 SELL 104" "te_algo tf = ALGO_MAKER" "te_responses tf = [accepted_offer]"
    "omo_order_id (order_at (2, 0) (order_manager tf)) \<noteq> 2" "order_manager tf = m1"
    by (simp_all add: tf_def te1_def m1_def td example_om_order_def del: One_nat_def)
  have "engine_onOrderUpdate Fin accepted_offer tf = Inr (tf\<lparr>order_manager := m2\<rparr>)"
    unfolding accepted_offer_def m2_def tf(5) [symmetric] by (rule accepted_run [OF tf(1,2)]) (use tf(4) in simp_all)
  from market_reach.response [OF r3 [folded tf_def] tf(3) this]
  have "?reach (tf\<lparr>order_manager := m2, te_responses := []\<rparr>) e2" .
  then show ?thesis
    by (intro exI [of _ "tf\<lparr>order_manager := m2, te_responses := []\<rparr>"] exI [of _ e2])
      (simp add: m2_def m1_def td(1) working_def example_om_order_def)
qed

theorem market_keeps_position_limit_witness:
  "\<exists>te e. market_reach Fin True 1 ALGO_MAKER example_cfg te e \<and> open_size (order_at (2, 0) (order_manager te)) = 5 \<and>
     position (position_keeper te 2) + open_size (order_at (2, 0) (order_manager te)) \<le> 10"
proof -
  obtain te e where te: "market_reach Fin True 1 ALGO_MAKER example_cfg te e" "working (order_at (2, 0) (order_manager te))"
      "omo_qty (order_at (2, 0) (order_manager te)) = 5"
    using example_market by blast
  from market_keeps_position_limit [OF te(1), of 2] show ?thesis
    using te by (intro exI [of _ te] exI [of _ e]) (simp add: open_size_def example_cfg_def kMaxSymbols_def)
qed

theorem quiet_client_agrees_with_exchange_witness:
  "\<exists>te e. market_reach Fin True 1 ALGO_MAKER example_cfg te e \<and> client_orders (order_manager te) = exchange_orders 1 e \<and>
     (2, BUY, 1, 5) \<in> exchange_orders 1 e"
proof -
  obtain te e where te: "market_reach Fin True 1 ALGO_MAKER example_cfg te e" "te_responses te = []" "om_requests (order_manager te) = []"
      "working (order_at (2, 0) (order_manager te))" "omo_order_id (order_at (2, 0) (order_manager te)) = 1"
      "omo_qty (order_at (2, 0) (order_manager te)) = 5"
    using example_market by blast
  have eq: "client_orders (order_manager te) = exchange_orders 1 e"
    using quiet_client_agrees_with_exchange [OF te(1) _ te(2,3)] by simp
  have "(2, BUY, 1, 5) \<in> client_orders (order_manager te)"
    using te(4-6) by (auto simp: client_orders_def side_of_def kMaxSymbols_def intro: exI [of _ 0])
  then show ?thesis using te(1) eq by blast
qed

theorem client_request_is_valid_witness:
  "\<exists>te e e'. market_reach Fin True 1 ALGO_MAKER example_cfg te e \<and> hd (om_requests (order_manager te)) = maker_request 1 BUY 100 \<and>
     engine_valid (maker_request 1 BUY 100) e \<and> ProcessClientRequest (maker_request 1 BUY 100) e = Inr e'"
proof -
  obtain e where e: "new_MatchingEngine True = Inr e" "symbol_order_book e 2 = example_book2" using example_requests_handled by blast
  obtain ta te where run: "engine_onMarketUpdate Fin (example_order 7 BUY 100 3) (new_TradeEngine True 1 ALGO_MAKER example_cfg) = Inr ta"
     "engine_onMarketUpdate Fin (example_order 9 SELL 104 5) ta = Inr te" "order_manager te = example_quoted"
    using example_quote_run by blast
  have r: "market_reach Fin True 1 ALGO_MAKER example_cfg te e"
    by (rule market_reach.market [OF market_reach.market [OF market_reach.start [OF e(1)] run(1)] run(2)])
  have q: "om_requests (order_manager te) = [maker_request 1 BUY 100, maker_request 2 SELL 104]" by (simp add: run(3) example_quoted_simps)
  have "engine_valid (maker_request 1 BUY 100) e \<and> (\<exists>e'. ProcessClientRequest (maker_request 1 BUY 100) e = Inr e')"
    using client_request_is_valid [OF r _ q]
    by (simp add: maker_request_def e(2) example_books2(5,6) kMaxNumClients_def kMaxOrderIds_def)
  then obtain e' where "engine_valid (maker_request 1 BUY 100) e" "ProcessClientRequest (maker_request 1 BUY 100) e = Inr e'" by blast
  moreover have "hd (om_requests (order_manager te)) = maker_request 1 BUY 100" using q by simp
  ultimately show ?thesis using r by blast
qed

end
