(* ===== verification/Engine_Sessions.thy ===== *)
theory Engine_Sessions
  imports Client_Contract
begin

text \<open>
  Whole sessions of the matching engine: which sequences of requests it takes without a fault.
\<close>

section \<open>The keys of the resting orders\<close>

definition order_key :: "resting \<Rightarrow> ClientId \<times> OrderId" where
  "order_key r = (r_client r, r_coid r)"

definition keys_of :: "abook \<Rightarrow> (ClientId \<times> OrderId) set" where
  "keys_of ab = order_key ` snd ` resting_in ab"

lemma keys_of_iff: "k \<in> keys_of ab \<longleftrightarrow> (\<exists>s t. k \<in> order_key ` set (al_queue (ab_side ab s t)))"
  by (force simp: keys_of_def resting_in_def)

lemma shrunk_keys: "shrunk q' q \<Longrightarrow> order_key ` set q' \<subseteq> order_key ` set q"
  by (auto simp: shrunk_def order_key_def dest: in_set_dropD)
    (metis (no_types, lifting) in_set_dropD imageI list.set_intros order_key_def)+

lemma fill_levels_keys:
  "fill_levels ts q a = (fs, left, a') \<Longrightarrow> order_key ` set (al_queue (a' t)) \<subseteq> order_key ` set (al_queue (a t))"
proof (induction ts arbitrary: q a fs)
  case (Cons u us)
  show ?case
  proof (cases "q = 0")
    case True
    then show ?thesis using Cons.prems by simp
  next
    case False
    obtain fs1 q1 rs where lv: "fill_queue u q (al_queue (a u)) = (fs1, q1, rs)" by (metis prod_cases3)
    obtain fs2 where rst: "fill_levels us q1 (put_queue u rs a) = (fs2, left, a')"
      using Cons.prems lv False by (auto split: prod.splits)
    have "order_key ` set (al_queue (put_queue u rs a t)) \<subseteq> order_key ` set (al_queue (a t))"
      using shrunk_keys [OF fill_queue_shrunk [OF lv]] by (cases "t = u") simp_all
    with Cons.IH [OF rst] show ?thesis by blast
  qed
qed simp

lemma spec_add_keys:
  "keys_of (out_book (spec_add sy band cid coid side price qty ab)) \<subseteq> insert (cid, coid) (keys_of ab)"
  "ab_next (out_book (spec_add sy band cid coid side price qty ab)) = ab_next ab + 1"
proof -
  define buy where "buy = (side = BUY)"
  define limit where "limit = ToTick band price"
  obtain fs left a' where m: "fill_levels (crossing_ticks buy limit (ab_side ab (\<not> buy))) qty (ab_side ab (\<not> buy)) = (fs, left, a')"
    by (metis prod_cases3)
  define ab1 where "ab1 = upd_side (\<not> buy) (\<lambda>_. a') (ab\<lparr>ab_next := ab_next ab + 1\<rparr>)"
  define r where "r = \<lparr>r_client = cid, r_coid = coid, r_moid = ab_next ab, r_qty = left, r_prio = al_next (ab_side ab1 buy (nat limit))\<rparr>"
  have out: "out_book (spec_add sy band cid coid side price qty ab) =
      (if left = 0 then ab1 else upd_side buy (push_order (nat limit) r) ab1)"
    using m by (simp add: spec_add_def Let_def buy_def [symmetric] limit_def [symmetric] ab1_def r_def)
  have one: "order_key ` set (al_queue (ab_side ab1 s t)) \<subseteq> order_key ` set (al_queue (ab_side ab s t))" for s t
    using fill_levels_keys [OF m, of t] by (auto simp: ab1_def upd_side_def)
  have "k \<in> insert (cid, coid) (order_key ` set (al_queue (ab_side ab s t)))"
    if "k \<in> order_key ` set (al_queue (ab_side (out_book (spec_add sy band cid coid side price qty ab)) s t))" for k s t
    using that one [of s t] unfolding out
    by (auto simp: upd_side_def push_order_def r_def order_key_def split: if_splits)
  then show "keys_of (out_book (spec_add sy band cid coid side price qty ab)) \<subseteq> insert (cid, coid) (keys_of ab)"
    unfolding subset_iff keys_of_iff insert_iff by blast
  show "ab_next (out_book (spec_add sy band cid coid side price qty ab)) = ab_next ab + 1"
    unfolding out by (simp add: ab1_def upd_side_def)
qed

lemma spec_cancel_keys:
  "keys_of (out_book (spec_cancel sy band cid coid ab)) \<subseteq> keys_of ab"
  "ab_next (out_book (spec_cancel sy band cid coid ab)) = ab_next ab"
proof -
  have sub: "order_key ` set (remove1 r q) \<subseteq> order_key ` set q" for r q by (rule image_mono [OF set_remove1_subset])
  have "order_key ` set (al_queue (ab_side (out_book (spec_cancel sy band cid coid ab)) s t)) \<subseteq> order_key ` set (al_queue (ab_side ab s t))" for s t
  proof (cases "spec_find cid coid ab")
    case (Some place)
    obtain s' t' r where "place = (s', t', r)" by (cases place)
    then have "al_queue (ab_side (out_book (spec_cancel sy band cid coid ab)) s t) =
        (if s = s' \<and> t = t' then remove1 r (al_queue (ab_side ab s t)) else al_queue (ab_side ab s t))"
      using Some by (simp add: spec_cancel_def upd_side_def)
    then show ?thesis using sub by simp
  qed (simp add: spec_cancel_def)
  then show "keys_of (out_book (spec_cancel sy band cid coid ab)) \<subseteq> keys_of ab" unfolding subset_iff keys_of_iff by blast
  show "ab_next (out_book (spec_cancel sy band cid coid ab)) = ab_next ab"
    by (auto simp: spec_cancel_def upd_side_def split: option.splits)
qed

text \<open>Each live node of the pool has a key of its own, so the pool holds at most as many nodes as there
  are keys.\<close>

lemma in_use_bound:
  assumes inv: "book_inv bk" and K: "keys_of (book_abs bk) \<subseteq> K" "finite K"
  shows "mp_in_use (order_pool bk) \<le> card K" "next_market_order_id bk = ab_next (book_abs bk)"
proof -
  obtain Q where rel: "book_rel bk Q" using inv by (auto simp: book_inv_def)
  let ?h = "lookup (order_pool bk)"
  have abs: "book_abs bk = abs_with bk Q" by (rule book_abs_eq [OF rel])
  show "next_market_order_id bk = ab_next (book_abs bk)" by (simp add: abs abs_with_def)
  define key where "key i = order_key (rest ?h i)" for i
  have mem: "key i \<in> K" and at: "idx bk (unat (fst (key i))) (unat (snd (key i))) = Some i" if i: "i \<in> dom ?h" for i
  proof -
    obtain s t where st: "i \<in> set (Q s t)" using i book_relD(6) [OF rel] by (auto simp: side_ptrs_def)
    have "key i \<in> order_key ` set (al_queue (ab_side (book_abs bk) s t))" using st by (auto simp: abs abs_queue key_def)
    then show "key i \<in> K" using K(1) keys_of_iff by blast
    have "has_key (fst (key i)) (snd (key i)) (rest ?h i)" by (simp add: has_key_def key_def order_key_def)
    then show "idx bk (unat (fst (key i))) (unat (snd (key i))) = Some i" using rest_key [OF rel st] by blast
  qed
  have "inj_on key (dom ?h)" by (rule inj_onI) (metis at option.inject)
  then have "card (dom ?h) \<le> card K" using mem K(2) by (intro card_inj_on_le) (assumption, blast)
  then show "mp_in_use (order_pool bk) \<le> card K" using pool_live_card(2) [OF book_relD(1) [OF rel]] by simp
qed

section \<open>A session\<close>

text \<open>What a single request must respect: the sizes of the exchange's tables and its price grid.\<close>

definition request_in_range :: "MatchingEngineClientRequest \<Rightarrow> bool" where
  "request_in_range q \<longleftrightarrow> unat (req_symbol_id q) < kMaxSymbols \<and> unat (req_client_id q) < kMaxNumClients \<and>
     unat (req_order_id q) < kMaxOrderIds \<and> (req_type q = REQ_CANCELED \<or> req_type q = REQ_NEW \<and>
       (req_side q = BUY \<or> req_side q = SELL) \<and> 0 < req_quantity q \<and> 0 \<le> req_price q \<and> req_price q < int kTickCount)"

definition is_new :: "MatchingEngineClientRequest \<Rightarrow> bool" where "is_new q \<longleftrightarrow> req_type q = REQ_NEW"

definition new_key :: "MatchingEngineClientRequest \<Rightarrow> SymbolId \<times> ClientId \<times> OrderId" where
  "new_key q = (req_symbol_id q, req_client_id q, req_order_id q)"

text \<open>The keys used so far cover what rests, and each has taken at most one market order id.\<close>

definition session_inv :: "(SymbolId \<times> ClientId \<times> OrderId) set \<Rightarrow> MatchingEngine \<Rightarrow> bool" where
  "session_inv U e \<longleftrightarrow> engine_inv e \<and> finite U \<and> (\<forall>i < kMaxSymbols.
     keys_of (book_abs (symbol_order_book e i)) \<subseteq> {(c, oid). (of_nat i, c, oid) \<in> U} \<and>
     unat (ab_next (book_abs (symbol_order_book e i))) \<le> 1 + card U)"

lemma grid_price:
  assumes "0 \<le> p" and "p < int kTickCount"
  shows "0 \<le> ToTick kDefaultPriceBand p" "ToTick kDefaultPriceBand p < int kTickCount"
    "ToPrice kDefaultPriceBand (ToTick kDefaultPriceBand p) = p"
proof -
  have "p < 2 ^ 31" using assms by (simp add: kTickCount_def kMaxPriceLevels_def)
  then have "swrap 64 p = p" "swrap 32 p = p" using assms(1) by (simp_all add: swrap_id)
  then show "0 \<le> ToTick kDefaultPriceBand p" "ToTick kDefaultPriceBand p < int kTickCount"
    "ToPrice kDefaultPriceBand (ToTick kDefaultPriceBand p) = p"
    using assms by (simp_all add: ToTick_def ToPrice_def kDefaultPriceBand_def tdiv_nonneg)
qed

lemma symbol_at: "i < kMaxSymbols \<Longrightarrow> unat (of_nat i :: SymbolId) = i"
  by (simp add: unat_of_nat_small kMaxSymbols_def)

lemma session_request_valid:
  assumes inv: "session_inv U e" and q: "request_in_range q"
    and fresh: "is_new q \<Longrightarrow> new_key q \<notin> U" and room: "is_new q \<Longrightarrow> card U < kMaxOrderIds"
  shows "engine_valid q e"
proof -
  let ?i = "unat (req_symbol_id q)" and ?b = "symbol_order_book e (unat (req_symbol_id q))"
  have i: "?i < kMaxSymbols" and ids: "unat (req_client_id q) < kMaxNumClients" "unat (req_order_id q) < kMaxOrderIds"
    using q by (simp_all add: request_in_range_def)
  have b: "book_inv ?b" "bk_band ?b = kDefaultPriceBand" "finite U"
    "keys_of (book_abs ?b) \<subseteq> {(c, oid). (req_symbol_id q, c, oid) \<in> U}" "unat (ab_next (book_abs ?b)) \<le> 1 + card U"
    using inv i inv [unfolded session_inv_def, THEN conjunct2, THEN conjunct2, rule_format, OF i] by (simp_all add: session_inv_def engine_inv_def)
  have "valid_request (as_request q) ?b"
  proof (cases "is_new q")
    case False
    then show ?thesis using q ids by (auto simp: request_in_range_def is_new_def as_request_def valid_request_def)
  next
    case True
    let ?K = "{(c, oid). (req_symbol_id q, c, oid) \<in> U}"
    have K: "?K \<subseteq> snd ` U" by force
    have fin: "finite ?K" "card ?K \<le> card U"
      using finite_subset [OF K] card_mono [OF _ K] card_image_le [of U snd] b(3) by auto
    have "(req_client_id q, req_order_id q) \<notin> keys_of (book_abs ?b)" using fresh [OF True] b(4) by (auto simp: new_key_def)
    then have "FindOrder (req_client_id q) (req_order_id q) ?b = Inr None"
      by (intro FindOrder_free [OF b(1) ids]) (force simp: keys_of_def order_key_def)
    moreover have "mp_in_use (order_pool ?b) < kMaxOrderIds"
      using in_use_bound(1) [OF b(1,4) fin(1)] fin(2) room [OF True] by linarith
    moreover have "unat (next_market_order_id ?b) + 1 < 2 ^ 64"
      using in_use_bound(2) [OF b(1) subset_UNIV] b(5) room [OF True] in_use_bound(2) [OF b(1,4) fin(1)] by (simp add: kMaxOrderIds_def)
    ultimately show ?thesis
      using True q ids grid_price [of "req_price q"]
      by (auto simp: request_in_range_def is_new_def as_request_def valid_request_def b(2))
  qed
  then show ?thesis using q i by (auto simp: engine_valid_def request_in_range_def)
qed

text \<open>What a valid request does to the books.\<close>

lemma process_books:
  assumes inv: "engine_inv e" and ok: "engine_valid q e"
  shows "\<exists>e'. ProcessClientRequest q e = Inr e' \<and> engine_inv e' \<and>
    (\<forall>j. j \<noteq> unat (req_symbol_id q) \<longrightarrow> symbol_order_book e' j = symbol_order_book e j) \<and>
    book_abs (symbol_order_book e' (unat (req_symbol_id q))) = out_book (spec_request (req_symbol_id q) kDefaultPriceBand (as_request q)
      (book_abs (symbol_order_book e (unat (req_symbol_id q)))))"
  using process_ok [OF inv ok] inv by (auto simp: engine_inv_def)

lemma session_step:
  assumes inv: "session_inv U e" and ok: "engine_valid q e" and fresh: "is_new q \<Longrightarrow> new_key q \<notin> U"
  shows "\<exists>e'. ProcessClientRequest q e = Inr e' \<and> session_inv (if is_new q then insert (new_key q) U else U) e'"
proof -
  let ?i = "unat (req_symbol_id q)" and ?U = "if is_new q then insert (new_key q) U else U"
  have e: "engine_inv e" "finite U" using inv by (simp_all add: session_inv_def)
  from process_books [OF e(1) ok] obtain e' where e': "ProcessClientRequest q e = Inr e'" "engine_inv e'"
      "\<And>j. j \<noteq> ?i \<Longrightarrow> symbol_order_book e' j = symbol_order_book e j"
      "book_abs (symbol_order_book e' ?i) = out_book (spec_request (req_symbol_id q) kDefaultPriceBand (as_request q)
        (book_abs (symbol_order_book e ?i)))"
    by blast
  have old: "keys_of (book_abs (symbol_order_book e j)) \<subseteq> {(c, oid). (of_nat j, c, oid) \<in> U}"
      "unat (ab_next (book_abs (symbol_order_book e j))) \<le> 1 + card U" if "j < kMaxSymbols" for j
    using inv that by (auto simp: session_inv_def)
  have size: "card U \<le> card ?U" using e(2) by (simp add: card_insert_le)
  have "keys_of (book_abs (symbol_order_book e' j)) \<subseteq> {(c, oid). (of_nat j, c, oid) \<in> ?U} \<and>
      unat (ab_next (book_abs (symbol_order_book e' j))) \<le> 1 + card ?U" if j: "j < kMaxSymbols" for j
  proof (cases "j = ?i")
    case False
    then show ?thesis using old [OF j] e'(3) size by auto
  next
    case True
    then have sy: "(of_nat j :: SymbolId) = req_symbol_id q" by simp
    show ?thesis
    proof (cases "is_new q")
      case new: True
      let ?ab = "book_abs (symbol_order_book e j)"
      have "unat (ab_next ?ab + 1) \<le> unat (ab_next ?ab) + 1" by (simp add: unat_word_ariths)
      moreover have "book_abs (symbol_order_book e' j) = out_book (spec_add (req_symbol_id q) kDefaultPriceBand (req_client_id q)
          (req_order_id q) (req_side q) (req_price q) (req_quantity q) ?ab)"
        using e'(4) new True by (simp add: spec_request_def as_request_def is_new_def)
      ultimately show ?thesis
        using old [OF j] new fresh e(2) sy
          spec_add_keys [of "req_symbol_id q" kDefaultPriceBand "req_client_id q" "req_order_id q" "req_side q" "req_price q" "req_quantity q" ?ab]
        by (auto simp: new_key_def subset_iff)
    next
      case False
      then have "book_abs (symbol_order_book e' j) = out_book (spec_cancel (req_symbol_id q) kDefaultPriceBand (req_client_id q)
          (req_order_id q) (book_abs (symbol_order_book e j)))"
        using e'(4) True by (simp add: spec_request_def as_request_def is_new_def)
      then show ?thesis using old [OF j] False spec_cancel_keys by (auto simp: subset_iff)
    qed
  qed
  then have "session_inv ?U e'" using e' e(2) by (simp add: session_inv_def)
  then show ?thesis using e'(1) by blast
qed

lemma session_runs:
  "session_inv U e \<Longrightarrow> \<forall>q \<in> set rs. request_in_range q \<Longrightarrow> distinct (map new_key (filter is_new rs)) \<Longrightarrow>
   \<forall>q \<in> set rs. is_new q \<longrightarrow> new_key q \<notin> U \<Longrightarrow> card U + length (filter is_new rs) \<le> kMaxOrderIds \<Longrightarrow>
   \<exists>e'. process_all rs e = Inr e' \<and> engine_inv e'"
proof (induction rs arbitrary: U e)
  case Nil
  then show ?case by (simp add: session_inv_def)
next
  case (Cons q rs)
  let ?U = "if is_new q then insert (new_key q) U else U"
  have fresh: "is_new q \<Longrightarrow> new_key q \<notin> U" using Cons.prems(4) by simp
  have "engine_valid q e"
    by (rule session_request_valid [OF Cons.prems(1) _ fresh]) (use Cons.prems(2,5) in auto)
  from session_step [OF Cons.prems(1) this fresh] obtain e1 where e1: "ProcessClientRequest q e = Inr e1" "session_inv ?U e1" by blast
  have fin: "finite U" using Cons.prems(1) by (simp add: session_inv_def)
  have "new_key p \<noteq> new_key q" if "p \<in> set rs" "is_new p" "is_new q" for p
    using Cons.prems(3) that by (force simp: image_iff)
  then have "\<forall>p \<in> set rs. is_new p \<longrightarrow> new_key p \<notin> ?U" using Cons.prems(4) by auto
  moreover have "card ?U + length (filter is_new rs) \<le> kMaxOrderIds" using Cons.prems(5) fin fresh by (auto split: if_splits)
  ultimately have "\<exists>e'. process_all rs e1 = Inr e' \<and> engine_inv e'"
    using Cons.IH [OF e1(2)] Cons.prems(2,3) by (auto split: if_splits)
  then show ?case using e1(1) by simp
qed

lemma session_start:
  assumes "new_MatchingEngine debug = Inr e"
  shows "session_inv {} e" "me_updates e = []" "\<And>i. i < kMaxSymbols \<Longrightarrow> book_abs (symbol_order_book e i) = empty_abook"
proof -
  from new_MatchingEngine_ok [of debug] assms have e: "engine_inv e" "me_updates e = []"
    "\<forall>i < kMaxSymbols. new_BookCore debug (of_nat i) kDefaultPriceBand = Inr (symbol_order_book e i)" by auto
  show abs: "book_abs (symbol_order_book e i) = empty_abook" if "i < kMaxSymbols" for i
    using new_BookCore_ok [OF default_band_valid, of debug "of_nat i"] e(3) that by auto
  have "keys_of empty_abook = {}" "ab_next empty_abook = 1"
    by (simp_all add: keys_of_def resting_in_def empty_abook_def empty_alevel_def)
  then show "session_inv {} e" using e(1) abs by (simp add: session_inv_def)
  show "me_updates e = []" by (rule e(2))
qed

lemma session_from_start:
  assumes "new_MatchingEngine debug = Inr e" and "\<forall>q \<in> set rs. request_in_range q"
    and "distinct (map new_key (filter is_new rs))" and "length (filter is_new rs) \<le> kMaxOrderIds"
  shows "\<exists>e'. process_all rs e = Inr e' \<and> engine_inv e'"
  using session_runs [OF session_start(1) [OF assms(1)] assms(2,3)] assms(4) by simp

text \<open>C25: A whole session of requests never stops the exchange: started empty, the engine handles any
  sequence of requests of any clients in which each request respects the sizes of the tables and the
  price grid, no new order uses an order id twice for a client and symbol, and at most
  \<open>kMaxOrderIds\<close> new orders come.\<close>

theorem session_never_stops_engine:
  assumes "new_MatchingEngine debug = Inr e" and "\<forall>q \<in> set rs. request_in_range q"
    and "distinct (map new_key (filter is_new rs))" and "length (filter is_new rs) \<le> kMaxOrderIds"
  shows "\<exists>e'. process_all rs e = Inr e' \<and> engine_inv e'"
  using session_from_start [OF assms] .

theorem session_never_stops_engine_witness:
  "\<exists>e e'. new_MatchingEngine True = Inr e \<and>
     process_all [example_request, example_request\<lparr>req_type := REQ_CANCELED\<rparr>, example_request\<lparr>req_client_id := 2, req_side := SELL\<rparr>] e = Inr e'"
proof -
  obtain e where e: "new_MatchingEngine True = Inr e" using new_MatchingEngine_ok by blast
  have "\<exists>e'. process_all [example_request, example_request\<lparr>req_type := REQ_CANCELED\<rparr>,
      example_request\<lparr>req_client_id := 2, req_side := SELL\<rparr>] e = Inr e' \<and> engine_inv e'"
    by (rule session_never_stops_engine [OF e])
      (simp_all add: example_request_def request_in_range_def is_new_def new_key_def capacity_defs kMaxOrderIds_def kTickCount_def)
  then show ?thesis using e by blast
qed

end
