(* ===== verification/Trading_Main.thy ===== *)
theory Trading_Main
  imports Engine_Sessions
begin

text \<open>
  The main program of a trading client, \<open>trading/trading_main.cpp\<close>: its arguments and the random
  trader, which it runs itself when the algorithm is \<open>RANDOM\<close>. \<open>rand()\<close> is a stream of numbers and
  \<open>silent k\<close> says whether the client has been silent for a minute after iteration \<open>k\<close>.
\<close>

section \<open>Arguments\<close>

text \<open>\<open>std::atoi\<close> of the standard library; a value outside \<open>int\<close>, which the language leaves undefined,
  wraps.\<close>

definition is_space_char :: "char \<Rightarrow> bool" where
  "is_space_char c \<longleftrightarrow> c = CHR '' '' \<or> of_char c \<in> {9::nat..13}"

definition is_digit_char :: "char \<Rightarrow> bool" where
  "is_digit_char c \<longleftrightarrow> of_char c \<in> {48::nat..57}"

definition atoi :: "string \<Rightarrow> int" where
  "atoi s = (let t = dropWhile is_space_char s;
       value = (\<lambda>u. int (parse_decimal (takeWhile is_digit_char u))) in
     swrap 32 (case t of [] \<Rightarrow> 0
       | c # u \<Rightarrow> if c = CHR ''-'' then - value u else if c = CHR ''+'' then value u else value t))"

text \<open>The loop over the groups of five arguments. A group that is cut short reads past the last
  argument.\<close>

fun parse_ticker_cfg :: "(string \<Rightarrow> double) \<Rightarrow> nat \<Rightarrow> string list \<Rightarrow> TradeEngineCfgHashMap \<Rightarrow> TradeEngineCfgHashMap result" where
  "parse_ticker_cfg atof t [] cfg = Inr cfg"
| "parse_ticker_cfg atof t (clip # thresh # max_size # max_pos # max_loss' # args) cfg =
     (if kMaxSymbols \<le> t then Inl Out_Of_Range
      else parse_ticker_cfg atof (t + 1) args (cfg(t := \<lparr>cfg_clip = word_of_int (atoi clip), cfg_threshold = atof thresh,
        cfg_risk = \<lparr>max_order_size = word_of_int (atoi max_size), max_position = word_of_int (atoi max_pos),
                    max_loss = atof max_loss'\<rparr>\<rparr>)))"
| "parse_ticker_cfg atof t (a # args) cfg = Inl Bad_Access"

definition main_arguments :: "(string \<Rightarrow> double) \<Rightarrow> string list \<Rightarrow> (ClientId \<times> AlgoType \<times> TradeEngineCfgHashMap) result" where
  "main_arguments atof argv =
     (if length argv < 3
      then FATAL ''USAGE trading_main CLIENT_ID ALGO_TYPE [CLIP_1 THRESH_1 MAX_ORDER_SIZE_1 MAX_POS_1 MAX_LOSS_1] [CLIP_2 THRESH_2 MAX_ORDER_SIZE_2 MAX_POS_2 MAX_LOSS_2] ...''
      else bindE (parse_ticker_cfg atof 0 (drop 3 argv) (\<lambda>_. new_TradeEngineCfg)) (\<lambda>cfg.
        Inr (word_of_int (atoi (argv ! 1)), StringToAlgoType (argv ! 2), cfg)))"

section \<open>The random trader\<close>

definition ticker_base_price :: "(nat \<Rightarrow> nat) \<Rightarrow> nat \<Rightarrow> Price" where
  "ticker_base_price rand i = int (rand i mod 100) + 100"

text \<open>The request of an iteration that has used the first \<open>d\<close> numbers.\<close>

definition random_request :: "(nat \<Rightarrow> nat) \<Rightarrow> ClientId \<Rightarrow> nat \<Rightarrow> OrderId \<Rightarrow> MatchingEngineClientRequest" where
  "random_request rand client d order_id =
     (let ticker_id = rand d mod kMaxSymbols in
      \<lparr>req_type = REQ_NEW, req_client_id = client, req_symbol_id = of_nat ticker_id, req_order_id = order_id,
       req_side = (if rand (d + 3) mod 2 \<noteq> 0 then BUY else SELL),
       req_price = ticker_base_price rand ticker_id + int (rand (d + 1) mod 10) + 1,
       req_quantity = of_nat (1 + rand (d + 2) mod 100 + 1)\<rparr>)"

text \<open>At most \<open>n\<close> more iterations of the loop, from iteration \<open>k\<close>.\<close>

fun random_orders :: "(nat \<Rightarrow> nat) \<Rightarrow> (nat \<Rightarrow> bool) \<Rightarrow> ClientId \<Rightarrow> nat \<Rightarrow> nat \<Rightarrow> OrderId \<Rightarrow> MatchingEngineClientRequest list \<Rightarrow>
    OrderManager \<Rightarrow> OrderManager" where
  "random_orders rand silent client 0 k order_id vec m = m"
| "random_orders rand silent client (Suc n) k order_id vec m =
     (let d = kMaxSymbols + 5 * k;
          new_request = random_request rand client d order_id;
          m1 = sendClientRequest new_request m;
          vec1 = vec @ [new_request];
          cxl_request = (vec1 ! (rand (d + 4) mod length vec1))\<lparr>req_type := REQ_CANCELED\<rparr>;
          m2 = sendClientRequest cxl_request m1 in
      if silent k then m2 else random_orders rand silent client n (k + 1) (order_id + 1) vec1 m2)"

definition run_random :: "(nat \<Rightarrow> nat) \<Rightarrow> (nat \<Rightarrow> bool) \<Rightarrow> ClientId \<Rightarrow> OrderManager \<Rightarrow> OrderManager" where
  "run_random rand silent client m = random_orders rand silent client 10000 0 (ucast (client * 1000)) [] m"

section \<open>What the random trader sends\<close>

lemma random_request_fields:
  "req_client_id (random_request rand client d oid) = client" "req_order_id (random_request rand client d oid) = oid"
  "req_type (random_request rand client d oid) = REQ_NEW"
  by (simp_all add: random_request_def Let_def)

lemma random_request_in_range:
  assumes "unat client < kMaxNumClients" and "unat oid < kMaxOrderIds"
  shows "request_in_range (random_request rand client d oid)"
    "request_in_range ((random_request rand client d oid)\<lparr>req_type := REQ_CANCELED\<rparr>)"
proof -
  let ?t = "rand d mod kMaxSymbols"
  have t: "unat (of_nat ?t :: SymbolId) < kMaxSymbols"
    using symbol_at [of ?t] by (simp add: kMaxSymbols_def)
  have q: "0 < (of_nat (1 + rand (d + 2) mod 100 + 1) :: Quantity)"
  proof -
    have "rand (d + 2) mod 100 < 100" by simp
    then have "unat (of_nat (1 + rand (d + 2) mod 100 + 1) :: Quantity) = 1 + rand (d + 2) mod 100 + 1"
      by (intro unat_of_nat_small) simp
    then show ?thesis by (simp add: word_less_nat_alt)
  qed
  have "int (rand ?t mod 100) < 100" "int (rand (d + 1) mod 10) < 10" by simp_all
  then have p: "0 \<le> ticker_base_price rand ?t + int (rand (d + 1) mod 10) + 1"
      "ticker_base_price rand ?t + int (rand (d + 1) mod 10) + 1 < int kTickCount"
    by (simp_all add: ticker_base_price_def kTickCount_def kMaxPriceLevels_def)
  show "request_in_range (random_request rand client d oid)"
    "request_in_range ((random_request rand client d oid)\<lparr>req_type := REQ_CANCELED\<rparr>)"
    using assms t q p by (simp_all add: request_in_range_def random_request_def Let_def)
qed

text \<open>The requests the loop adds to the outgoing queue.\<close>

definition random_session :: "ClientId \<Rightarrow> nat \<Rightarrow> nat \<Rightarrow> MatchingEngineClientRequest list \<Rightarrow> bool" where
  "random_session client first n qs \<longleftrightarrow> (\<forall>q \<in> set qs. request_in_range q \<and> req_client_id q = client) \<and>
     (\<exists>j \<le> n. map (unat \<circ> req_order_id) (filter is_new qs) = [first..<first + j])"

lemma random_orders_session:
  assumes "unat client < kMaxNumClients" and "first + n \<le> kMaxOrderIds" and "unat oid = first"
    and "\<forall>q \<in> set vec. request_in_range (q\<lparr>req_type := REQ_CANCELED\<rparr>) \<and> req_client_id q = client"
  shows "\<exists>qs. om_requests (random_orders rand silent client n k oid vec m) = om_requests m @ qs \<and> random_session client first n qs"
  using assms(2-4)
proof (induction n arbitrary: first k oid vec m)
  case 0
  then show ?case by (simp add: random_session_def)
next
  case (Suc n)
  define d where "d = kMaxSymbols + 5 * k"
  define new where "new = random_request rand client d oid"
  define vec1 where "vec1 = vec @ [new]"
  define cxl where "cxl = (vec1 ! (rand (d + 4) mod length vec1))\<lparr>req_type := REQ_CANCELED\<rparr>"
  let ?m = "sendClientRequest cxl (sendClientRequest new m)"
  have oid: "unat oid < kMaxOrderIds" using Suc.prems(1,2) by simp
  note range = random_request_in_range [OF assms(1) oid, of rand d, folded new_def]
  have new: "req_client_id new = client" "req_type new = REQ_NEW" "req_order_id new = oid"
    by (simp_all add: new_def random_request_fields)
  have vec1: "\<forall>q \<in> set vec1. request_in_range (q\<lparr>req_type := REQ_CANCELED\<rparr>) \<and> req_client_id q = client"
    using Suc.prems(3) range new by (simp add: vec1_def)
  have "vec1 ! (rand (d + 4) mod length vec1) \<in> set vec1" by (intro nth_mem) (simp add: vec1_def)
  then have cxl: "request_in_range cxl" "req_client_id cxl = client" "req_type cxl = REQ_CANCELED" using vec1 by (auto simp: cxl_def)
  have two: "random_session client first (Suc n) ([new, cxl] @ qs)"
    if "qs = [] \<or> random_session client (first + 1) n qs" for qs
  proof -
    have "\<exists>j \<le> n. map (unat \<circ> req_order_id) (filter is_new qs) = [first + 1..<first + 1 + j]"
      using that by (auto simp: random_session_def)
    then obtain j where j: "j \<le> n" "map (unat \<circ> req_order_id) (filter is_new qs) = [first + 1..<first + 1 + j]" by blast
    then have "map (unat \<circ> req_order_id) (filter is_new ([new, cxl] @ qs)) = [first..<first + Suc j]"
      using new cxl Suc.prems(2) by (simp add: is_new_def upt_conv_Cons)
    moreover have "\<forall>q \<in> set qs. request_in_range q \<and> req_client_id q = client" using that by (auto simp: random_session_def)
    ultimately show ?thesis using range new cxl j(1) by (auto simp: random_session_def intro: exI [of _ "Suc j"])
  qed
  have run: "random_orders rand silent client (Suc n) k oid vec m =
      (if silent k then ?m else random_orders rand silent client n (k + 1) (oid + 1) vec1 ?m)"
    by (simp add: Let_def d_def cxl_def new_def vec1_def)
  show ?case
  proof (cases "silent k")
    case True
    then show ?thesis unfolding run using two [of "[]"] by (intro exI [of _ "[new, cxl]"]) simp
  next
    case False
    have "unat (oid + 1) = first + 1" using Suc.prems(1,2) unat_add_lem [of oid 1] by (simp add: kMaxOrderIds_def)
    with Suc.IH [OF _ _ vec1, of "first + 1" "oid + 1" "k + 1" ?m] Suc.prems(1) obtain qs where
      "om_requests (random_orders rand silent client n (k + 1) (oid + 1) vec1 ?m) = om_requests ?m @ qs" "random_session client (first + 1) n qs"
      by auto
    then show ?thesis unfolding run using two [of qs] False by (intro exI [of _ "[new, cxl] @ qs"]) simp
  qed
qed

lemma run_random_session:
  assumes "unat client < kMaxNumClients"
  shows "\<exists>first. random_session client first 10000 (om_requests (run_random rand silent client new_OrderManager))"
proof -
  have "unat (client * 1000) = unat client * 1000"
    using assms unat_mult_lem [of client 1000] by (simp add: kMaxNumClients_def)
  then have oid: "unat (ucast (client * 1000) :: OrderId) = unat client * 1000" by (simp add: unat_ucast_u32)
  have "unat client * 1000 + 10000 \<le> kMaxOrderIds" using assms by (simp add: kMaxNumClients_def kMaxOrderIds_def)
  from random_orders_session [OF assms this oid, of "[]" rand silent 0 new_OrderManager]
  show ?thesis by (auto simp: run_random_def new_OrderManager_simps)
qed

section \<open>A market of random traders\<close>

lemma distinct_by_class:
  assumes "\<And>x y. f x = f y \<Longrightarrow> g x = g y" and "\<And>c. distinct (map f (filter (\<lambda>x. g x = c) xs))"
  shows "distinct (map f xs)"
  using assms(2)
proof (induction xs)
  case (Cons x xs)
  have "distinct (map f (filter (\<lambda>y. g y = c) xs))" for c using Cons.prems [of c] by (simp split: if_splits)
  moreover have "f x \<notin> f ` set xs"
  proof
    assume "f x \<in> f ` set xs"
    then obtain y where y: "y \<in> set xs" "f x = f y" by blast
    then have "y \<in> set (filter (\<lambda>y. g y = g x) xs)" using assms(1) [OF y(2)] by simp
    moreover have "f x \<notin> f ` set (filter (\<lambda>y. g y = g x) xs)" using Cons.prems [of "g x"] by simp
    ultimately show False using y(2) by blast
  qed
  ultimately show ?case using Cons.IH by simp
qed simp

lemma length_by_class:
  "finite C \<Longrightarrow> g ` set xs \<subseteq> C \<Longrightarrow> length xs = (\<Sum>c \<in> C. length (filter (\<lambda>x. g x = c) xs))"
proof (induction xs)
  case (Cons x xs)
  have "(\<Sum>c \<in> C. length (filter (\<lambda>y. g y = c) (x # xs))) = (\<Sum>c \<in> C. (if g x = c then 1 else 0) + length (filter (\<lambda>y. g y = c) xs))"
    by (intro sum.cong) simp_all
  also have "\<dots> = 1 + length xs" using Cons by (simp add: sum.distrib sum.delta)
  finally show ?case by simp
qed simp

lemma random_session_news:
  assumes "random_session client first n qs"
  shows "distinct (map new_key (filter is_new qs))" "length (filter is_new qs) \<le> n"
proof -
  obtain j where j: "j \<le> n" "map (unat \<circ> req_order_id) (filter is_new qs) = [first..<first + j]"
    using assms by (auto simp: random_session_def)
  have "distinct (map (unat \<circ> req_order_id) (filter is_new qs))" unfolding j(2) by simp
  then show "distinct (map new_key (filter is_new qs))" by (auto simp: distinct_map inj_on_def new_key_def)
  have "length (filter is_new qs) = length (map (unat \<circ> req_order_id) (filter is_new qs))" by simp
  then show "length (filter is_new qs) \<le> n" unfolding j(2) using j(1) by simp
qed

text \<open>C26: Random traders never stop the exchange: for up to 104 clients, whatever numbers \<open>rand()\<close> gives
  each of them and however their requests interleave on the way, the engine handles all of their
  requests without a fault.\<close>

theorem random_traders_never_stop_exchange:
  assumes "new_MatchingEngine debug = Inr e" and "finite C" and "card C \<le> 104" and "\<forall>c \<in> C. unat c < kMaxNumClients"
    and each: "\<forall>c. filter (\<lambda>q. req_client_id q = c) rs =
      (if c \<in> C then om_requests (run_random (rand c) (silent c) c new_OrderManager) else [])"
  shows "\<exists>e'. process_all rs e = Inr e' \<and> engine_inv e'"
proof -
  have mem: "req_client_id q \<in> C \<and> q \<in> set (filter (\<lambda>p. req_client_id p = req_client_id q) rs)" if "q \<in> set rs" for q
  proof -
    have q: "q \<in> set (filter (\<lambda>p. req_client_id p = req_client_id q) rs)" using that by simp
    then show ?thesis using each [rule_format, of "req_client_id q"] by (cases "req_client_id q \<in> C") auto
  qed
  have session: "\<exists>first. random_session c first 10000 (filter (\<lambda>q. req_client_id q = c) rs)" if "c \<in> C" for c
    using run_random_session [of c "rand c" "silent c"] assms(4) each that by simp
  have range: "\<forall>q \<in> set rs. request_in_range q"
  proof
    fix q assume "q \<in> set rs"
    from mem [OF this] session [of "req_client_id q"] show "request_in_range q" unfolding random_session_def by blast
  qed
  have swap: "filter (\<lambda>q. req_client_id q = c) (filter is_new rs) = filter is_new (filter (\<lambda>q. req_client_id q = c) rs)" for c
    by (simp add: conj_commute)
  have empty: "filter (\<lambda>q. req_client_id q = c) rs = []" if "c \<notin> C" for c using each that by simp
  have "distinct (map new_key (filter (\<lambda>q. req_client_id q = c) (filter is_new rs)))" for c
  proof (cases "c \<in> C")
    case True
    then show ?thesis unfolding swap using session random_session_news(1) by blast
  next
    case False
    then show ?thesis unfolding swap empty [OF False] by simp
  qed
  then have "distinct (map new_key (filter is_new rs))" by (rule distinct_by_class [rotated]) (simp add: new_key_def)
  moreover have "length (filter is_new rs) \<le> kMaxOrderIds"
  proof -
    have "length (filter is_new rs) = (\<Sum>c \<in> C. length (filter (\<lambda>q. req_client_id q = c) (filter is_new rs)))"
      using mem by (intro length_by_class [OF assms(2)]) auto
    also have "\<dots> \<le> (\<Sum>c \<in> C. 10000)"
      unfolding swap using session random_session_news(2) by (intro sum_mono) blast
    also have "\<dots> \<le> kMaxOrderIds" using assms(3) by (simp add: kMaxOrderIds_def)
    finally show ?thesis .
  qed
  ultimately show ?thesis using session_from_start [OF assms(1) range] by blast
qed

theorem random_traders_never_stop_exchange_witness:
  "\<exists>e e'. new_MatchingEngine True = Inr e \<and> process_all (om_requests (run_random (\<lambda>d. d * d) (\<lambda>_. False) 1 new_OrderManager)) e = Inr e'"
proof -
  obtain e where e: "new_MatchingEngine True = Inr e" using new_MatchingEngine_ok by blast
  let ?rs = "om_requests (run_random (\<lambda>d. d * d) (\<lambda>_. False) 1 new_OrderManager)"
  obtain first where "random_session 1 first 10000 ?rs"
    using run_random_session [of 1 "\<lambda>d. d * d" "\<lambda>_. False"] by (auto simp: kMaxNumClients_def)
  then have "\<forall>q \<in> set ?rs. req_client_id q = 1" by (simp add: random_session_def)
  then have "filter (\<lambda>q. req_client_id q = c) ?rs = (if c = 1 then ?rs else [])" for c
    by (auto simp: filter_empty_conv filter_id_conv)
  then have "\<forall>c. filter (\<lambda>q. req_client_id q = c) ?rs =
      (if c \<in> {1} then om_requests (run_random (\<lambda>d. d * d) (\<lambda>_. False) c new_OrderManager) else [])"
    by simp
  from random_traders_never_stop_exchange [OF e _ _ _ this] obtain e' where "process_all ?rs e = Inr e'"
    by (auto simp: kMaxNumClients_def)
  then show ?thesis using e by blast
qed

section \<open>Which arguments are accepted\<close>

lemma parse_ticker_cfg_accepts:
  "(\<exists>cfg'. parse_ticker_cfg atof t args cfg = Inr cfg') \<longleftrightarrow> 5 dvd length args \<and> (args = [] \<or> t + length args div 5 \<le> kMaxSymbols)"
proof (induction atof t args cfg rule: parse_ticker_cfg.induct)
  case (2 atof t clip thresh max_size max_pos max_loss' args cfg)
  define cfg2 where "cfg2 = cfg(t := \<lparr>cfg_clip = word_of_int (atoi clip), cfg_threshold = atof thresh,
    cfg_risk = \<lparr>max_order_size = word_of_int (atoi max_size), max_position = word_of_int (atoi max_pos), max_loss = atof max_loss'\<rparr>\<rparr>)"
  have len: "5 dvd length (clip # thresh # max_size # max_pos # max_loss' # args) \<longleftrightarrow> 5 dvd length args"
    "length (clip # thresh # max_size # max_pos # max_loss' # args) div 5 = Suc (length args div 5)"
    by simp_all presburger
  show ?case
  proof (cases "kMaxSymbols \<le> t")
    case True
    then show ?thesis unfolding len by simp
  next
    case False
    have "(\<exists>cfg'. parse_ticker_cfg atof (t + 1) args cfg2 = Inr cfg') \<longleftrightarrow>
        5 dvd length args \<and> (args = [] \<or> t + 1 + length args div 5 \<le> kMaxSymbols)"
      using 2 [OF False] unfolding cfg2_def by (simp add: fun_upd_def)
    moreover have "args = [] \<Longrightarrow> t + 1 + length args div 5 \<le> kMaxSymbols" using False by simp
    ultimately show ?thesis unfolding len using False by (auto simp: cfg2_def)
  qed
qed (auto, presburger+)

end
