(* ===== verification/Book_Printing.thy ===== *)
theory Book_Printing
  imports Client_Correct
begin

text \<open>
  \<open>MarketOrderBook::toString\<close> (\<open>trading/strategy/market_order_book.cpp\<close>) and what it prints of a
  right book. The loops over a circle stop before they would come back to its first element.
\<close>

section \<open>The code\<close>

text \<open>The fields \<open>%3s\<close> and \<open>%-3s\<close> of \<open>sprintf\<close>.\<close>

definition right_field :: "nat \<Rightarrow> string \<Rightarrow> string" where
  "right_field n s = replicate (n - length s) (CHR '' '') @ s"

definition left_field :: "nat \<Rightarrow> string \<Rightarrow> string" where
  "left_field n s = s @ replicate (n - length s) (CHR '' '')"

definition new_line :: string where "new_line = [CHR 0x0A]"

text \<open>The orders both loops of the printer visit.\<close>

fun walk_orders :: "nat \<Rightarrow> MarketOrderBook \<Rightarrow> nat option \<Rightarrow> nat option \<Rightarrow> MarketOrder list result" where
  "walk_orders 0 b first o_itr = Inl Diverges"
| "walk_orders (Suc n) b first o_itr =
     bindE (order_get b o_itr) (\<lambda>x. if mo_next x = first then Inr [x]
       else bindE (walk_orders n b first (mo_next x)) (\<lambda>xs. Inr (x # xs)))"

definition order_line :: "MarketOrderBook \<Rightarrow> MarketOrder \<Rightarrow> string result" where
  "order_line b x =
     (let id_at = (\<lambda>p. case p of None \<Rightarrow> Inr 0 | Some _ \<Rightarrow> bindE (order_get b p) (\<lambda>y. Inr (mo_order_id y))) in
      bindE (id_at (mo_prev x)) (\<lambda>prev. bindE (id_at (mo_next x)) (\<lambda>nxt.
        Inr (''[oid:'' @ dec_word (mo_order_id x) @ '' q:'' @ dec_word (mo_qty x) @
             '' p:'' @ dec_word prev @ '' n:'' @ dec_word nxt @ ''] ''))))"

fun order_lines :: "MarketOrderBook \<Rightarrow> MarketOrder list \<Rightarrow> string result" where
  "order_lines b [] = Inr []"
| "order_lines b (x # xs) = bindE (order_line b x) (\<lambda>t. bindE (order_lines b xs) (\<lambda>ts. Inr (t @ ts)))"

definition level_line :: "Price \<Rightarrow> Price \<Rightarrow> Price \<Rightarrow> Quantity \<Rightarrow> nat \<Rightarrow> string" where
  "level_line px prev nxt qty num_orders =
     '' <px:'' @ right_field 3 (decimal_int px) @ '' p:'' @ right_field 3 (decimal_int prev) @
     '' n:'' @ right_field 3 (decimal_int nxt) @ ''> '' @ left_field 3 (decimal_int px) @ '' @ '' @
     left_field 5 (dec_word qty) @ ''('' @ left_field 4 (decimal num_orders) @ '')''"

text \<open>The lambda \<open>printer\<close>: its text and the last price.\<close>

definition printer :: "MarketOrderBook \<Rightarrow> bool \<Rightarrow> nat option \<Rightarrow> Side \<Rightarrow> Price \<Rightarrow> bool \<Rightarrow> (string \<times> Price) result" where
  "printer b detailed itr side last_price sanity_check =
     bindE (level_get b itr) (\<lambda>l.
     bindE (walk_orders (Suc (mp_capacity (mb_order_pool b))) b (lv_first l) (lv_first l)) (\<lambda>os.
     bindE (level_get b (lv_prev l)) (\<lambda>prev.
     bindE (level_get b (lv_next l)) (\<lambda>nxt.
     bindE (if detailed then order_lines b os else Inr []) (\<lambda>lines.
       let text = level_line (lv_price l) (lv_price prev) (lv_price nxt) (sum_list (map mo_qty os)) (length os) @ lines @ new_line in
       if \<not> sanity_check then Inr (text, last_price)
       else if side = SELL \<and> lv_price l \<le> last_price \<or> side = BUY \<and> last_price \<le> lv_price l then
         bindE (level_toString (lookup (mb_order_pool b)) (lookup (orders_at_price_pool b)) l) (\<lambda>t.
           FATAL (''Bids/Asks not sorted by ascending/descending prices last:'' @ decimal_int last_price @ '' itr:'' @ t))
       else Inr (text, lv_price l))))))"

text \<open>The loop over the levels of a side.\<close>

fun print_levels :: "nat \<Rightarrow> MarketOrderBook \<Rightarrow> bool \<Rightarrow> bool \<Rightarrow> string \<Rightarrow> Side \<Rightarrow> nat option \<Rightarrow> nat option \<Rightarrow> nat \<Rightarrow> Price \<Rightarrow> string result" where
  "print_levels 0 b detailed check label side best itr lno last_price = Inl Diverges"
| "print_levels (Suc n) b detailed check label side best itr lno last_price =
     (if itr = None then Inr []
      else bindE (level_get b itr) (\<lambda>l.
        let next_itr = (if lv_next l = best then None else lv_next l) in
        bindE (printer b detailed itr side last_price check) (\<lambda>(t, last_price').
        bindE (print_levels n b detailed check label side best next_itr (lno + 1) last_price') (\<lambda>ts.
          Inr (label @ '' L:'' @ decimal lno @ '' => '' @ t @ ts)))))"

definition market_book_toString :: "bool \<Rightarrow> bool \<Rightarrow> MarketOrderBook \<Rightarrow> string result" where
  "market_book_toString detailed validity_check b =
     (let fuel = Suc (Suc (mp_capacity (orders_at_price_pool b))) in
      bindE (print_levels fuel b detailed validity_check ''ASKS'' SELL (asks_by_price b) (asks_by_price b) 0 (- (2 ^ 63))) (\<lambda>asks.
      bindE (print_levels fuel b detailed validity_check ''BIDS'' BUY (bids_by_price b) (bids_by_price b) 0 (2 ^ 63 - 1)) (\<lambda>bids.
        Inr (''Ticker:'' @ dec_word (mb_ticker_id b) @ new_line @ asks @
          new_line @ replicate 26 (CHR '' '') @ ''X'' @ new_line @ new_line @ bids))))"

section \<open>What is printed of a view\<close>

text \<open>The prices of a side from best to worst, and its lines: the neighbours of a price are those on the
  circle.\<close>

definition prices_best_first :: "live_view \<Rightarrow> Side \<Rightarrow> Price list" where
  "prices_best_first v s = (if s = BUY then rev (sorted_list_of_set (side_prices v s)) else sorted_list_of_set (side_prices v s))"

definition view_line :: "live_view \<Rightarrow> Side \<Rightarrow> string \<Rightarrow> nat \<Rightarrow> string" where
  "view_line v s label i =
     (let ps = prices_best_first v s; n = length ps; px = ps ! i in
      label @ '' L:'' @ decimal i @ '' => '' @
      level_line px (ps ! ((i + n - 1) mod n)) (ps ! (Suc i mod n)) (quantity_at v s px) (card (ids_at v s px)) @ new_line)"

definition view_text :: "SymbolId \<Rightarrow> live_view \<Rightarrow> string" where
  "view_text ticker v =
     ''Ticker:'' @ dec_word ticker @ new_line @
     concat (map (view_line v SELL ''ASKS'') [0..<length (prices_best_first v SELL)]) @
     new_line @ replicate 26 (CHR '' '') @ ''X'' @ new_line @ new_line @
     concat (map (view_line v BUY ''BIDS'') [0..<length (prices_best_first v BUY)])"

section \<open>A circle by position\<close>

lemma circular_nth:
  assumes "circular nx pv xs" and "i < length xs"
  shows "nx (xs ! i) = Some (xs ! (Suc i mod length xs))" "pv (xs ! i) = Some (xs ! ((i + length xs - 1) mod length xs))"
proof -
  let ?n = "length xs"
  have "map nx xs ! j = map Some (rotate1 xs) ! j" for j using assms(1) by (simp add: circular_def)
  then show "nx (xs ! i) = Some (xs ! (Suc i mod ?n))" using assms(2) by (metis length_rotate1 nth_map nth_rotate1)
  have pv: "map pv (rotate1 xs) ! j = map Some xs ! j" for j using assms(1) by (simp add: circular_def)
  define j where "j = (i + ?n - 1) mod ?n"
  have j: "j < ?n" unfolding j_def using assms(2) by (intro mod_less_divisor) linarith
  have "Suc j mod ?n = i"
  proof -
    have "Suc j mod ?n = Suc (i + ?n - 1) mod ?n" by (simp add: j_def mod_Suc_eq)
    moreover have "Suc (i + ?n - 1) = i + ?n" using assms(2) by linarith
    ultimately show ?thesis using assms(2) by simp
  qed
  then have "rotate1 xs ! j = xs ! i" using nth_rotate1 [OF j] by simp
  then show "pv (xs ! i) = Some (xs ! ((i + ?n - 1) mod ?n))" using pv [of j] j by (simp add: j_def)
qed

section \<open>A right book\<close>

lemma walk_orders_ok:
  assumes "circular (onext (orders_of b)) (oprev (orders_of b)) q" and "set q \<subseteq> dom (orders_of b)" and "i < length q"
    and "length q - i < n"
  shows "walk_orders n b (Some (q ! 0)) (Some (q ! i)) = Inr (map (the \<circ> orders_of b) (drop i q))"
  using assms(3,4)
proof (induction n arbitrary: i)
  case (Suc n)
  obtain x where x: "orders_of b (q ! i) = Some x" using assms(2) Suc.prems(1) by (meson domD nth_mem subsetD)
  have nx: "mo_next x = Some (q ! (Suc i mod length q))" using circular_nth(1) [OF assms(1) Suc.prems(1)] x by simp
  have d: "drop i q = q ! i # drop (Suc i) q" using Suc.prems(1) by (simp add: Cons_nth_drop_Suc)
  show ?case
  proof (cases "Suc i = length q")
    case True
    then show ?thesis using x nx d by simp
  next
    case False
    then have i: "Suc i < length q" using Suc.prems(1) by simp
    have "q ! Suc i \<noteq> q ! 0" using nth_eq_iff_index_eq [OF ring_distinct [OF assms(1)] i, of 0] i by (cases q) auto
    then show ?thesis using x nx d i Suc.IH [OF i] Suc.prems(2) by simp
  qed
qed simp

lemma order_lines_ok:
  assumes "\<And>x. x \<in> set xs \<Longrightarrow> \<exists>y z. order_get b (mo_prev x) = Inr y \<and> order_get b (mo_next x) = Inr z"
  shows "\<exists>t. order_lines b xs = Inr t"
  using assms
proof (induction xs)
  case (Cons x xs)
  obtain y z where "order_get b (mo_prev x) = Inr y" "order_get b (mo_next x) = Inr z" using Cons.prems [of x] by auto
  then have "\<exists>t. order_line b x = Inr t" by (auto simp: order_line_def Let_def split: option.splits)
  then show ?case using Cons by auto
qed simp

lemma level_orders_walk:
  assumes ok: "pools_ok b" and q: "level_orders (orders_of b) l q"
  defines "os \<equiv> map (the \<circ> orders_of b) q"
  shows "walk_orders (Suc (mp_capacity (mb_order_pool b))) b (lv_first l) (lv_first l) = Inr os"
    "sum_list (map mo_qty os) = sum_list (map (order_qty (orders_of b)) q)" "\<exists>t. order_lines b os = Inr t"
proof -
  have c: "circular (onext (orders_of b)) (oprev (orders_of b)) q" and ne: "q \<noteq> []" and f: "lv_first l = Some (q ! 0)"
    and live: "\<And>p. p \<in> set q \<Longrightarrow> \<exists>x. orders_of b p = Some x"
    using q by (auto simp: level_orders_def hd_conv_nth)
  have sub: "set q \<subseteq> dom (orders_of b)" using live by blast
  show "walk_orders (Suc (mp_capacity (mb_order_pool b))) b (lv_first l) (lv_first l) = Inr os"
    using walk_orders_ok [OF c sub, of 0 "Suc (mp_capacity (mb_order_pool b))"] ne level_orders_bound [OF ok q] by (simp add: f os_def)
  have "mo_qty (the (orders_of b p)) = order_qty (orders_of b) p" if "p \<in> set q" for p using live [OF that] by auto
  then show "sum_list (map mo_qty os) = sum_list (map (order_qty (orders_of b)) q)"
    unfolding os_def map_map by (intro arg_cong [where f = sum_list] map_cong) simp_all
  show "\<exists>t. order_lines b os = Inr t"
  proof (rule order_lines_ok)
    fix x assume "x \<in> set os"
    then obtain p where p: "p \<in> set q" "orders_of b p = Some x" using live by (auto simp: os_def)
    obtain n m where nm: "mo_next x = Some n" "mo_prev x = Some m" "n \<in> set q" "m \<in> set q"
      using ring_defined [OF c p(1)] p(2) by auto
    then show "\<exists>y z. order_get b (mo_prev x) = Inr y \<and> order_get b (mo_next x) = Inr z" using live [OF nm(3)] live [OF nm(4)] by auto
  qed
qed

text \<open>One level: its price is in order after the last one, its neighbours and its orders are live.\<close>

lemma printer_ok:
  assumes rel: "mbook_rel b bs as Q" and side: "s = BUY \<and> ls = bs \<or> s = SELL \<and> ls = as" and i: "i < length ls"
    and last_price: "check \<Longrightarrow> (if s = BUY then price_at (levels_of b) (ls ! i) < p0 else p0 < price_at (levels_of b) (ls ! i))"
  defines "n \<equiv> length ls" and "pr \<equiv> price_at (levels_of b)"
  shows "\<exists>t. printer b detailed (Some (ls ! i)) s p0 check = Inr (t, if check then pr (ls ! i) else p0) \<and>
    (\<not> detailed \<longrightarrow> t = level_line (pr (ls ! i)) (pr (ls ! ((i + n - 1) mod n))) (pr (ls ! (Suc i mod n)))
       (quantity_at (book_view b) s (pr (ls ! i))) (card (ids_at (book_view b) s (pr (ls ! i)))) @ new_line)"
    "\<exists>l. levels_of b (ls ! i) = Some l \<and> lv_next l = Some (ls ! (Suc i mod n))"
proof -
  note d = mbook_relD [OF rel]
  have c: "circular (lnext (levels_of b)) (lprev (levels_of b)) ls" and live: "\<And>p. p \<in> set ls \<Longrightarrow> \<exists>l. levels_of b p = Some l \<and> lv_side l = s"
    using side d(2,3) by (auto simp: side_levels_def)
  obtain l where l: "levels_of b (ls ! i) = Some l" "lv_side l = s" using live [of "ls ! i"] i by auto
  note nb = circular_nth [OF c i]
  have nx: "lv_next l = Some (ls ! (Suc i mod n))" "lv_prev l = Some (ls ! ((i + n - 1) mod n))" using nb l by (simp_all add: n_def)
  then show "\<exists>l. levels_of b (ls ! i) = Some l \<and> lv_next l = Some (ls ! (Suc i mod n))" using l by blast
  have "0 < n" using i unfolding n_def by linarith
  then have "Suc i mod n < n" "(i + n - 1) mod n < n" by (rule mod_less_divisor)+
  then obtain ln lp where nbs: "levels_of b (ls ! (Suc i mod n)) = Some ln" "levels_of b (ls ! ((i + n - 1) mod n)) = Some lp"
    using live [of "ls ! (Suc i mod n)"] live [of "ls ! ((i + n - 1) mod n)"] by (auto simp: n_def)
  have q: "level_orders (orders_of b) l (Q (ls ! i))" using d(7) l(1) by (auto simp: queues_ok_def)
  note os = level_orders_walk [OF d(1) q]
  obtain lines where lines: "(if detailed then order_lines b (map (the \<circ> orders_of b) (Q (ls ! i))) else Inr []) = Inr lines"
      "\<not> detailed \<Longrightarrow> lines = []"
    using os(3) by (cases detailed) auto
  have num: "card (ids_at (book_view b) s (lv_price l)) = length (Q (ls ! i))"
    using ids_at_level [OF rel l(1)] l(2) by (simp add: card_image distinct_card)
  have qty: "quantity_at (book_view b) s (lv_price l) = sum_list (map (order_qty (orders_of b)) (Q (ls ! i)))"
    using quantity_at_level [OF rel l(1)] l(2) by simp
  have ok: "\<not> (check \<and> (s = SELL \<and> lv_price l \<le> p0 \<or> s = BUY \<and> p0 \<le> lv_price l))"
    using last_price l(1) by (auto split: if_splits)
  define t where "t = level_line (lv_price l) (lv_price lp) (lv_price ln) (sum_list (map (order_qty (orders_of b)) (Q (ls ! i))))
    (length (Q (ls ! i))) @ lines @ new_line"
  have "printer b detailed (Some (ls ! i)) s p0 check = Inr (t, if check then lv_price l else p0)"
    unfolding printer_def Let_def using l(1) nx nbs lines(1) os(1,2) ok by (cases check) (simp_all add: t_def if_not_P del: de_Morgan_conj de_Morgan_disj)
  then show "\<exists>t. printer b detailed (Some (ls ! i)) s p0 check = Inr (t, if check then pr (ls ! i) else p0) \<and>
    (\<not> detailed \<longrightarrow> t = level_line (pr (ls ! i)) (pr (ls ! ((i + n - 1) mod n))) (pr (ls ! (Suc i mod n)))
       (quantity_at (book_view b) s (pr (ls ! i))) (card (ids_at (book_view b) s (pr (ls ! i)))) @ new_line)"
    using l(1) nbs lines(2) num qty by (simp add: pr_def t_def)
qed

lemma print_levels_ok:
  assumes rel: "mbook_rel b bs as Q" and side: "s = BUY \<and> ls = bs \<or> s = SELL \<and> ls = as"
    and ps: "prices_best_first (book_view b) s = map (price_at (levels_of b)) ls"
    and "i < length ls" and "length ls - i < fuel"
    and "check \<Longrightarrow> (if s = BUY then price_at (levels_of b) (ls ! i) < p0 else p0 < price_at (levels_of b) (ls ! i))"
  shows "\<exists>t. print_levels fuel b detailed check label s (Some (ls ! 0)) (Some (ls ! i)) i p0 = Inr t \<and>
    (\<not> detailed \<longrightarrow> t = concat (map (view_line (book_view b) s label) [i..<length ls]))"
  using assms(4-6)
proof (induction fuel arbitrary: i p0)
  case (Suc fuel)
  note i = Suc.prems(1)
  let ?n = "length ls" and ?pr = "price_at (levels_of b)"
  note d = mbook_relD [OF rel]
  have srt: "sorted_wrt (\<lambda>p q. better_price s (?pr p) (?pr q)) ls" and dist: "distinct ls"
    using side d(2,3) by (auto simp: side_levels_def dest: ring_distinct)
  from printer_ok(1) [where check = check and detailed = detailed, OF rel side i Suc.prems(3)] obtain t where
      t1: "printer b detailed (Some (ls ! i)) s p0 check = Inr (t, if check then ?pr (ls ! i) else p0)"
    and t2: "\<not> detailed \<longrightarrow> t = level_line (?pr (ls ! i)) (?pr (ls ! ((i + ?n - 1) mod ?n))) (?pr (ls ! (Suc i mod ?n)))
       (quantity_at (book_view b) s (?pr (ls ! i))) (card (ids_at (book_view b) s (?pr (ls ! i)))) @ new_line"
    by blast
  have "0 < ?n" using i by linarith
  then have "Suc i mod ?n < ?n" "(i + ?n - 1) mod ?n < ?n" by (rule mod_less_divisor)+
  then have t: "\<not> detailed \<Longrightarrow> label @ '' L:'' @ decimal i @ '' => '' @ t = view_line (book_view b) s label i"
    using t2 i by (simp add: view_line_def Let_def ps)
  obtain l where l: "levels_of b (ls ! i) = Some l" "lv_next l = Some (ls ! (Suc i mod ?n))"
    using printer_ok(2) [OF rel side i Suc.prems(3)] by blast
  have upt: "[i..<?n] = i # [Suc i..<?n]" using i by (simp add: upt_conv_Cons)
  show ?case
  proof (cases "Suc i = ?n")
    case True
    obtain m where "fuel = Suc m" using Suc.prems(2) i by (cases fuel) auto
    then show ?thesis using l t t1 True by (simp add: upt Let_def)
  next
    case False
    then have i': "Suc i < ?n" using i by simp
    have "ls ! Suc i \<noteq> ls ! 0" using nth_eq_iff_index_eq [OF dist i', of 0] i' by (cases ls) auto
    moreover have "if s = BUY then ?pr (ls ! Suc i) < ?pr (ls ! i) else ?pr (ls ! i) < ?pr (ls ! Suc i)"
      using sorted_wrt_nth_less [OF srt, of i "Suc i"] i' by (simp add: better_price_def)
    then have "check \<Longrightarrow> if s = BUY then ?pr (ls ! Suc i) < (if check then ?pr (ls ! i) else p0)
        else (if check then ?pr (ls ! i) else p0) < ?pr (ls ! Suc i)" by simp
    moreover have "?n - Suc i < fuel" using Suc.prems(2) i' by linarith
    ultimately obtain ts where ts: "ls ! Suc i \<noteq> ls ! 0" "print_levels fuel b detailed check label s (Some (ls ! 0)) (Some (ls ! Suc i)) (Suc i)
        (if check then ?pr (ls ! i) else p0) = Inr ts"
        "\<not> detailed \<longrightarrow> ts = concat (map (view_line (book_view b) s label) [Suc i..<?n])"
      using Suc.IH [OF i'] by blast
    then show ?thesis using l t t1 i' by (simp add: upt Let_def)
  qed
qed simp

lemma prices_of_levels:
  assumes rel: "mbook_rel b bs as Q" and side: "s = BUY \<and> ls = bs \<or> s = SELL \<and> ls = as"
  shows "prices_best_first (book_view b) s = map (price_at (levels_of b)) ls"
proof -
  note d = mbook_relD [OF rel]
  let ?ps = "map (price_at (levels_of b)) ls"
  have srt: "sorted_wrt (better_price s) ?ps" using side d(2,3) by (auto simp: side_levels_def sorted_wrt_map)
  have set: "side_prices (book_view b) s = set ?ps" using side_prices_levels [OF rel side] by simp
  show ?thesis
  proof (cases "s = BUY")
    case True
    have "better_price s = (\<lambda>x y. y < x)" using True by (simp add: better_price_def fun_eq_iff)
    then have "sorted_wrt (\<lambda>x y. y < x) ?ps" using srt by simp
    then have "sorted_wrt (<) (rev ?ps)" by (simp add: sorted_wrt_rev)
    then have "sorted_list_of_set (set (rev ?ps)) = rev ?ps"
      by (intro sorted_list_of_set.idem_if_sorted_distinct) (simp_all add: strict_sorted_iff)
    then have "sorted_list_of_set (side_prices (book_view b) s) = rev ?ps" unfolding set by simp
    then show ?thesis unfolding prices_best_first_def using True by simp
  next
    case False
    then have "better_price s = (<)" by (simp add: better_price_def fun_eq_iff)
    then have "sorted_wrt (<) ?ps" using srt by simp
    then have "sorted_list_of_set (set ?ps) = ?ps"
      by (intro sorted_list_of_set.idem_if_sorted_distinct) (simp_all add: strict_sorted_iff)
    then show ?thesis using False by (simp add: prices_best_first_def set)
  qed
qed

lemma print_side_ok:
  assumes rel: "mbook_rel b bs as Q" and side: "s = BUY \<and> ls = bs \<and> best = bids_by_price b \<and> p0 = 2 ^ 63 - 1 \<or>
      s = SELL \<and> ls = as \<and> best = asks_by_price b \<and> p0 = - (2 ^ 63)"
  shows "\<exists>t. print_levels (Suc (Suc (mp_capacity (orders_at_price_pool b)))) b detailed check label s best best 0 p0 = Inr t \<and>
    (\<not> detailed \<longrightarrow> t = concat (map (view_line (book_view b) s label) [0..<length (prices_best_first (book_view b) s)]))"
proof -
  note d = mbook_relD [OF rel]
  have side': "s = BUY \<and> ls = bs \<or> s = SELL \<and> ls = as" using side by blast
  note ps = prices_of_levels [OF rel side']
  have lv: "side_levels (levels_of b) s best ls" using side d(2,3) by auto
  show ?thesis
  proof (cases ls)
    case Nil
    then show ?thesis using lv ps by (simp add: side_levels_def)
  next
    case (Cons a as')
    have best: "best = Some (ls ! 0)" using lv Cons by (simp add: side_levels_def)
    have "pool_inv (orders_at_price_pool b)" using d(1) by (simp add: pools_ok_def)
    then have len: "length ls \<le> mp_capacity (orders_at_price_pool b)" by (rule side_levels_bound [OF _ lv])
    obtain l where "levels_of b (ls ! 0) = Some l" using lv Cons by (auto simp: side_levels_def)
    then have "0 \<le> price_at (levels_of b) (ls ! 0)" "price_at (levels_of b) (ls ! 0) < int kMaxPriceLevels"
      using d(5) by (auto simp: index_ok_def)
    then have "if s = BUY then price_at (levels_of b) (ls ! 0) < p0 else p0 < price_at (levels_of b) (ls ! 0)"
      using side by (auto simp: kMaxPriceLevels_def)
    with print_levels_ok [OF rel side' ps, of 0 "Suc (Suc (mp_capacity (orders_at_price_pool b)))" check p0 detailed label] len
    show ?thesis unfolding best ps length_map using Cons by simp
  qed
qed

text \<open>Printing a right client book never fails, with or without the check of the order of its
  levels, and shows exactly the live orders: a line per price, best price first on both sides, with
  the total quantity and the number of the orders at it.\<close>

theorem printed_book_shows_view:
  assumes "book_ok b"
  shows "market_book_toString False check b = Inr (view_text (mb_ticker_id b) (book_view b)) \<and>
    (\<exists>text. market_book_toString True check b = Inr text)"
proof -
  obtain bs as Q where rel: "mbook_rel b bs as Q" using assms by (auto simp: book_ok_def)
  note asks = print_side_ok [OF rel, of SELL as "asks_by_price b" "- (2 ^ 63)" _ check "''ASKS''"]
    and bids = print_side_ok [OF rel, of BUY bs "bids_by_price b" "2 ^ 63 - 1" _ check "''BIDS''"]
  show ?thesis using asks [of False] asks [of True] bids [of False] bids [of True]
    by (auto simp: market_book_toString_def view_text_def Let_def simp del: print_levels.simps)
qed

text \<open>The printed form of a book with one bid.\<close>

definition one_bid :: MatchingEngineMarketUpdate where
  "one_bid = \<lparr>mu_type = MU_ADD, mu_symbol_id = 2, mu_order_id = 7, mu_side = BUY, mu_price = 100, mu_quantity = 3, mu_priority = 1\<rparr>"

lemma one_bid_text:
  "view_text ticker [7 \<mapsto> (BUY, 100, 3, 1)] = ''Ticker:'' @ dec_word ticker @ new_line @ new_line @ replicate 26 (CHR '' '') @ ''X'' @ new_line @ new_line @
     ''BIDS L:0 =>  <px:100 p:100 n:100> 100 @ 3    (1   )'' @ new_line"
proof -
  let ?v = "[7 \<mapsto> (BUY, 100, 3, 1)] :: live_view"
  have p: "side_prices ?v BUY = {100}" "side_prices ?v SELL = {}" by (auto simp: side_prices_def split: if_splits)
  have i: "ids_at ?v BUY 100 = {7}" by (auto simp: ids_at_def split: if_splits)
  have d: "decimal 100 = ''100''" "decimal 3 = ''3''" "decimal (Suc 0) = ''1''" "dec_word (3 :: Quantity) = ''3''" "decimal 0 = ''0''" "decimal 2 = ''2''"
    by code_simp+
  have r: "replicate 4 c = [c, c, c, c]" "replicate 3 c = [c, c, c]" for c :: char by (simp_all add: numeral_eq_Suc)
  show ?thesis
    by (simp add: r view_text_def prices_best_first_def p view_line_def level_line_def quantity_at_def i quantity_of_def
        decimal_int_def d right_field_def left_field_def)
qed

theorem printed_book_shows_view_witness:
  "\<exists>b. onMarketUpdate one_bid (new_MarketOrderBook True 2) = Inr (Book_Notice, b) \<and>
     market_book_toString False True b = Inr (''Ticker:'' @ dec_word (mb_ticker_id b) @ new_line @ new_line @ replicate 26 (CHR '' '') @ ''X'' @ new_line @ new_line @
       ''BIDS L:0 =>  <px:100 p:100 n:100> 100 @ 3    (1   )'' @ new_line)"
proof -
  have "update_fits (\<lambda>_. None) one_bid" by (simp add: one_bid_def update_fits_def can_add_def capacity_defs)
  then obtain b where b: "onMarketUpdate one_bid (new_MarketOrderBook True 2) = Inr (Book_Notice, b)" "book_ok b"
      "book_view b = [7 \<mapsto> (BUY, 100, 3, 1)]"
    using onMarketUpdate_ok [OF new_book_ok(1) [of True 2], where u = one_bid] new_book_ok(2) [of True 2]
    by (auto simp: notice_of_def one_bid_def client_step_def view_update_def view_entry_def)
  then show ?thesis using printed_book_shows_view [OF b(2), of True] b(1,3) one_bid_text by auto
qed

end
