(* ===== verification/Trading_Reports.thy ===== *)
theory Trading_Reports
  imports Risk_Manager
begin

text \<open>
  What the trading side prints of its positions and its configuration
  (\<open>trading/strategy/position_keeper.h\<close>, \<open>trade_engine_config.h\<close>, \<open>risk_manager.h\<close>). \<open>show\<close> is the
  printing of a \<open>double\<close> by the stream, \<open>bbo\<close> what the stored pointer shows when it is printed.
\<close>

definition open_price :: "rounding \<Rightarrow> PositionInfo \<Rightarrow> double \<Rightarrow> double" where
  "open_price rnd p v = (if position p = 0 then Fin 0 else div_double rnd v (to_double rnd (abs64 (position p))))"

definition position_toString :: "rounding \<Rightarrow> (double \<Rightarrow> string) \<Rightarrow> BBO option \<Rightarrow> PositionInfo \<Rightarrow> string" where
  "position_toString rnd show bbo p =
     ''Position{'' @ ''pos:'' @ decimal_int (position p) @ '' u-pnl:'' @ show (unreal_pnl p) @ '' r-pnl:'' @ show (real_pnl p) @
     '' t-pnl:'' @ show (total_pnl p) @ '' vol:'' @ dec_word (volume p) @
     '' vwaps:['' @ show (open_price rnd p (fst (open_vwap p))) @ ''X'' @ show (open_price rnd p (snd (open_vwap p))) @ ''] '' @
     (case bbo of None \<Rightarrow> [] | Some b \<Rightarrow> bbo_toString b) @ ''}''"

definition keeper_total_pnl :: "rounding \<Rightarrow> PositionKeeper \<Rightarrow> double" where
  "keeper_total_pnl rnd k = foldl (\<lambda>t i. add_double rnd t (total_pnl (k i))) (Fin 0) [0..<kMaxSymbols]"

definition keeper_toString :: "rounding \<Rightarrow> (double \<Rightarrow> string) \<Rightarrow> (nat \<Rightarrow> BBO option) \<Rightarrow> PositionKeeper \<Rightarrow> string" where
  "keeper_toString rnd show bbos k =
     concat (map (\<lambda>i. ''SymbolId:'' @ decimal i @ '' '' @ position_toString rnd show (bbos i) (k i) @ [CHR 0x0A]) [0..<kMaxSymbols]) @
     ''Total PnL:'' @ show (keeper_total_pnl rnd k) @
     '' Vol:'' @ dec_word (\<Sum>i \<leftarrow> [0..<kMaxSymbols]. volume (k i)) @ [CHR 0x0A]"

definition risk_cfg_toString :: "(double \<Rightarrow> string) \<Rightarrow> RiskCfg \<Rightarrow> string" where
  "risk_cfg_toString show c = ''RiskCfg{max_order_size:'' @ dec_word (max_order_size c) @ '' max_position:'' @
     dec_word (max_position c) @ '' max_loss:'' @ show (max_loss c) @ ''}''"

definition engine_cfg_toString :: "(double \<Rightarrow> string) \<Rightarrow> TradeEngineCfg \<Rightarrow> string" where
  "engine_cfg_toString show c = ''TradeEngineCfg{clip:'' @ dec_word (cfg_clip c) @ '' threshold:'' @ show (cfg_threshold c) @ '' '' @
     risk_cfg_toString show (cfg_risk c) @ ''}''"

definition risk_info_toString :: "rounding \<Rightarrow> (double \<Rightarrow> string) \<Rightarrow> (nat \<Rightarrow> BBO option) \<Rightarrow> PositionKeeper \<Rightarrow> RiskInfo \<Rightarrow> string" where
  "risk_info_toString rnd show bbos k r =
     ''RiskInfo'' @ ''['' @ ''pos:'' @ position_toString rnd show (bbos (position_info r)) (k (position_info r)) @ '' '' @
     risk_cfg_toString show (risk_cfg r) @ '']''"

text \<open>With exact arithmetic the printed total is the sum of the symbols' profits.\<close>

lemma keeper_total_exact:
  assumes "\<And>i. i < kMaxSymbols \<Longrightarrow> total_pnl (k i) = Fin (f i)"
  shows "keeper_total_pnl Fin k = Fin (\<Sum>i < kMaxSymbols. f i)"
proof -
  have "n \<le> kMaxSymbols \<Longrightarrow> foldl (\<lambda>t i. add_double Fin t (total_pnl (k i))) (Fin 0) [0..<n] = Fin (\<Sum>i < n. f i)" for n
    by (induction n) (simp_all add: assms)
  then show ?thesis by (simp add: keeper_total_pnl_def)
qed

end
