(* ===== verification/Logging.thy ===== *)
theory Logging
  imports Messages LF_Queue Doubles
begin

text \<open>
  The logger (\<open>common/logging.h\<close>) and the time stamps it is given (\<open>common/time_utils.h\<close>). A call
  of \<open>log\<close> is the list of elements it pushes into the logger's ring and how it ends; the logger
  thread prints the elements it takes from the ring. How the library prints a floating point number
  is the argument \<open>show_fp\<close>. A \<open>const char*\<close> is the text before its terminating null.
\<close>

section \<open>Elements\<close>

definition LOG_QUEUE_SIZE :: u64 where "LOG_QUEUE_SIZE = 8 * 1024 * 1024"

datatype LogElement =
    LT_CHAR char
  | LT_INTEGER int
  | LT_LONG_INTEGER int
  | LT_LONG_LONG_INTEGER int
  | LT_UNSIGNED_INTEGER u32
  | LT_UNSIGNED_LONG_INTEGER u64
  | LT_UNSIGNED_LONG_LONG_INTEGER u64
  | LT_FLOAT double
  | LT_DOUBLE double
  | LT_CONST_STRING string

text \<open>What the logger thread writes to the file for one element, and for a list of them.\<close>

definition print_element :: "(double \<Rightarrow> string) \<Rightarrow> LogElement \<Rightarrow> string" where
  "print_element show_fp e = (case e of
      LT_CHAR c \<Rightarrow> [c]
    | LT_INTEGER i \<Rightarrow> decimal_int i
    | LT_LONG_INTEGER l \<Rightarrow> decimal_int l
    | LT_LONG_LONG_INTEGER ll \<Rightarrow> decimal_int ll
    | LT_UNSIGNED_INTEGER u \<Rightarrow> dec_word u
    | LT_UNSIGNED_LONG_INTEGER ul \<Rightarrow> dec_word ul
    | LT_UNSIGNED_LONG_LONG_INTEGER ull \<Rightarrow> dec_word ull
    | LT_FLOAT f \<Rightarrow> show_fp f
    | LT_DOUBLE d \<Rightarrow> show_fp d
    | LT_CONST_STRING str \<Rightarrow> str)"

definition flushed :: "(double \<Rightarrow> string) \<Rightarrow> LogElement list \<Rightarrow> string" where
  "flushed show_fp es = concat (map (print_element show_fp) es)"

text \<open>The loop of \<open>flushQueue\<close> over a ring the logger thread alone works on: it reads until the ring
  is empty; \<open>n\<close> bounds the number of reads.\<close>

fun flushQueue :: "nat \<Rightarrow> (double \<Rightarrow> string) \<Rightarrow> LogElement LFQueue \<Rightarrow> string \<Rightarrow> LogElement LFQueue \<times> string" where
  "flushQueue 0 show_fp q out = (q, out)"
| "flushQueue (Suc n) show_fp q out = (case dequeue q of
      None \<Rightarrow> (q, out)
    | Some (e, q') \<Rightarrow> flushQueue n show_fp q' (out @ print_element show_fp e))"

section \<open>Values\<close>

text \<open>The overloads of \<open>pushValue\<close>. A string, and a C string that is no literal of
  \<open>pushConstString\<close>, goes in character by character up to the first null.\<close>

datatype log_value =
    V_char char | V_int int | V_long int | V_llong int | V_unsigned u32 | V_ulong u64 | V_ullong u64
  | V_float double | V_double double | V_cstr string | V_string string

definition c_str :: "string \<Rightarrow> string" where
  "c_str s = takeWhile (\<lambda>c. c \<noteq> CHR 0x00) s"

definition pushConstString :: "string \<Rightarrow> LogElement list" where
  "pushConstString str = [LT_CONST_STRING str]"

fun push_chars :: "string \<Rightarrow> LogElement list" where
  "push_chars [] = []"
| "push_chars (c # cs) = (if c = CHR 0x00 then [] else LT_CHAR c # push_chars cs)"

definition pushValue :: "log_value \<Rightarrow> LogElement list" where
  "pushValue v = (case v of
      V_char c \<Rightarrow> [LT_CHAR c]
    | V_int i \<Rightarrow> [LT_INTEGER i]
    | V_long i \<Rightarrow> [LT_LONG_INTEGER i]
    | V_llong i \<Rightarrow> [LT_LONG_LONG_INTEGER i]
    | V_unsigned u \<Rightarrow> [LT_UNSIGNED_INTEGER u]
    | V_ulong u \<Rightarrow> [LT_UNSIGNED_LONG_INTEGER u]
    | V_ullong u \<Rightarrow> [LT_UNSIGNED_LONG_LONG_INTEGER u]
    | V_float f \<Rightarrow> [LT_FLOAT f]
    | V_double d \<Rightarrow> [LT_DOUBLE d]
    | V_cstr s \<Rightarrow> push_chars s
    | V_string s \<Rightarrow> push_chars (c_str s))"

section \<open>log\<close>

text \<open>The two overloads: without a value left, and with the values \<open>v # vs\<close>. The first component
  is what was pushed, the second the error the call ends with.\<close>

fun log_plain :: "string \<Rightarrow> LogElement list \<times> fault option" where
  "log_plain [] = ([], None)"
| "log_plain [c] = (if c = CHR ''%'' then ([], Some (Fatal_Exit ''missing arguments to log()'')) else ([LT_CHAR c], None))"
| "log_plain (c # d # s) =
     (if c = CHR ''%'' then
        if d = CHR ''%'' then (let (es, r) = log_plain s in (LT_CHAR d # es, r))
        else ([], Some (Fatal_Exit ''missing arguments to log()''))
      else (let (es, r) = log_plain (d # s) in (LT_CHAR c # es, r)))"

fun log_call :: "string \<Rightarrow> log_value list \<Rightarrow> LogElement list \<times> fault option" where
  "log_call s [] = log_plain s"
| "log_call [] (v # vs) = ([], Some (Fatal_Exit ''extra arguments provided to log()''))"
| "log_call [c] (v # vs) =
     (if c = CHR ''%'' then (let (es, r) = log_call [] vs in (pushValue v @ es, r))
      else (let (es, r) = log_call [] (v # vs) in (LT_CHAR c # es, r)))"
| "log_call (c # d # s) (v # vs) =
     (if c = CHR ''%'' then
        if d = CHR ''%'' then (let (es, r) = log_call s (v # vs) in (LT_CHAR d # es, r))
        else (let (es, r) = log_call (d # s) vs in (pushValue v @ es, r))
      else (let (es, r) = log_call (d # s) (v # vs) in (LT_CHAR c # es, r)))"

section \<open>Time stamps\<close>

definition pad_left :: "nat \<Rightarrow> char \<Rightarrow> string \<Rightarrow> string" where
  "pad_left n c s = replicate (n - length s) c @ s"

text \<open>\<open>snprintf(buf, n, ...)\<close> with the formatted text: at most \<open>n - 1\<close> characters and a null.\<close>

definition snprintf :: "nat \<Rightarrow> string \<Rightarrow> string \<Rightarrow> string" where
  "snprintf n txt buf = (let out = take (n - 1) txt @ [CHR 0x00] in out @ drop (length out) buf)"

definition time_text :: "int \<Rightarrow> int \<Rightarrow> int \<Rightarrow> int \<Rightarrow> string" where
  "time_text hour minute sec nanos = pad_left 2 (CHR ''0'') (decimal_int hour) @ '':'' @ pad_left 2 (CHR ''0'') (decimal_int minute) @ '':'' @
     pad_left 2 (CHR ''0'') (decimal_int sec) @ ''.'' @ pad_left 9 (CHR ''0'') (decimal_int nanos)"

text \<open>The string is resized to 21 characters, its buffer has the terminating null after them. \<open>now\<close> is
  the clock in nanoseconds since the epoch; \<open>gmtime_r\<close> counts days of 86400 seconds.\<close>

definition GetCurrentTimeStr :: "int \<Rightarrow> string \<Rightarrow> string" where
  "GetCurrentTimeStr now time_str =
     (let secs = tdiv now (10 ^ 9);
          nanos = now - secs * 10 ^ 9;
          buf = take 21 (time_str @ replicate 21 (CHR 0x00)) @ [CHR 0x00] in
      take 21 (snprintf 22 (time_text (secs div 3600 mod 24) (secs div 60 mod 60) (secs mod 60) nanos) buf))"

section \<open>What a format string asks for\<close>

text \<open>A format string is text with holes.\<close>

datatype piece = Text char | Hole

fun pieces :: "string \<Rightarrow> piece list" where
  "pieces [] = []"
| "pieces [c] = [if c = CHR ''%'' then Hole else Text c]"
| "pieces (c # d # s) =
     (if c = CHR ''%'' then if d = CHR ''%'' then Text d # pieces s else Hole # pieces (d # s)
      else Text c # pieces (d # s))"

definition holes :: "string \<Rightarrow> nat" where
  "holes s = length (filter (\<lambda>p. p = Hole) (pieces s))"

text \<open>The text of a value, and of a format string with its holes filled in.\<close>

definition value_text :: "(double \<Rightarrow> string) \<Rightarrow> log_value \<Rightarrow> string" where
  "value_text show_fp v = (case v of
      V_char c \<Rightarrow> [c] | V_int i \<Rightarrow> decimal_int i | V_long i \<Rightarrow> decimal_int i | V_llong i \<Rightarrow> decimal_int i
    | V_unsigned u \<Rightarrow> dec_word u | V_ulong u \<Rightarrow> dec_word u | V_ullong u \<Rightarrow> dec_word u
    | V_float d \<Rightarrow> show_fp d | V_double d \<Rightarrow> show_fp d | V_cstr s \<Rightarrow> c_str s | V_string s \<Rightarrow> c_str s)"

fun fill_in :: "(double \<Rightarrow> string) \<Rightarrow> piece list \<Rightarrow> log_value list \<Rightarrow> string" where
  "fill_in show_fp [] vs = []"
| "fill_in show_fp (Text c # ps) vs = c # fill_in show_fp ps vs"
| "fill_in show_fp (Hole # ps) [] = []"
| "fill_in show_fp (Hole # ps) (v # vs) = value_text show_fp v @ fill_in show_fp ps vs"

section \<open>Lemmas\<close>

lemma flushed_simps [simp]:
  "flushed f [] = []" "flushed f (e # es) = print_element f e @ flushed f es" "flushed f (es @ es') = flushed f es @ flushed f es'"
  by (simp_all add: flushed_def)

lemma push_chars_c_str: "push_chars s = map LT_CHAR (c_str s)"
  by (induction s) (simp_all add: c_str_def)

lemma c_str_idem [simp]: "c_str (c_str s) = c_str s"
  by (simp add: c_str_def takeWhile_idem)

lemma flushed_chars: "flushed f (map LT_CHAR s) = s"
  by (induction s) (simp_all add: print_element_def)

lemma flushed_value: "flushed f (pushValue v) = value_text f v"
  by (cases v) (simp_all add: pushValue_def value_text_def print_element_def push_chars_c_str flushed_chars)

lemma holes_simps:
  "holes [] = 0" "holes [c] = (if c = CHR ''%'' then 1 else 0)"
  "holes (c # d # s) = (if c = CHR ''%'' then if d = CHR ''%'' then holes s else Suc (holes (d # s)) else holes (d # s))"
  by (simp_all add: holes_def)

lemma log_plain_outcome:
  "snd (log_plain s) = (if holes s = 0 then None else Some (Fatal_Exit ''missing arguments to log()'')) \<and>
   (holes s = 0 \<longrightarrow> flushed f (fst (log_plain s)) = fill_in f (pieces s) [])"
  by (induction s rule: log_plain.induct) (auto simp: holes_simps print_element_def split: prod.splits)

lemma log_call_outcome:
  "snd (log_call s vs) = (if holes s = length vs then None
     else Some (Fatal_Exit (if holes s < length vs then ''extra arguments provided to log()'' else ''missing arguments to log()''))) \<and>
   (holes s = length vs \<longrightarrow> flushed f (fst (log_call s vs)) = fill_in f (pieces s) vs)"
proof (induction s vs rule: log_call.induct)
  case (1 s)
  then show ?case using log_plain_outcome [of s f] by simp
qed (auto simp: holes_simps print_element_def flushed_value split: prod.splits)


section \<open>The log file\<close>

lemma log_received_prefix:
  assumes "spsc_reach (new_queue e LOG_QUEUE_SIZE) s"
  shows "prefix (received s) (sent s)"
proof -
  have size: "0 < unat LOG_QUEUE_SIZE" "unat LOG_QUEUE_SIZE \<le> 2 ^ 63" by (simp_all add: LOG_QUEUE_SIZE_def)
  obtain k where "spsc_inv k (spsc_init (new_queue e LOG_QUEUE_SIZE))" using new_queue_inv [OF size, of e] by blast
  from spsc_reach_inv [OF assms this] show ?thesis by (auto simp: spsc_inv_def spsc_at_def)
qed

text \<open>What a list of calls pushes, and the text it stands for.\<close>

definition calls_pushed :: "(string \<times> log_value list) list \<Rightarrow> LogElement list" where
  "calls_pushed calls = concat (map (\<lambda>(s, vs). fst (log_call s vs)) calls)"

definition calls_text :: "(double \<Rightarrow> string) \<Rightarrow> (string \<times> log_value list) list \<Rightarrow> string" where
  "calls_text show_fp calls = concat (map (\<lambda>(s, vs). fill_in show_fp (pieces s) vs) calls)"

lemma flushed_calls:
  "\<forall>(s, vs) \<in> set calls. holes s = length vs \<Longrightarrow> flushed f (calls_pushed calls) = calls_text f calls"
  by (induction calls) (use log_call_outcome in \<open>auto simp: calls_pushed_def calls_text_def\<close>)

text \<open>The logger thread alone drains the ring, in at most as many reads as the ring has elements and
  one.\<close>

lemma flushQueue_drains:
  assumes "queue_wf q" and "length (queue_items q) < n"
  shows "\<exists>q'. flushQueue n f q out = (q', out @ flushed f (queue_items q)) \<and> queue_items q' = [] \<and> queue_wf q'"
  using assms
proof (induction n arbitrary: q out)
  case (Suc n)
  show ?case
  proof (cases "queue_items q")
    case Nil
    then show ?thesis using Suc.prems lf_queue.get_empty [OF Suc.prems(1)] by simp
  next
    case (Cons e es)
    then obtain q1 where q1: "dequeue q = Some (e, q1)" "queue_wf q1" "queue_items q1 = es"
      using lf_queue.get_ok [OF Suc.prems(1)] by blast
    then show ?thesis using Suc.IH [OF q1(2), of "out @ print_element f e"] Suc.prems(2) Cons by simp
  qed
qed simp

text \<open>\<open>log\<close> checks its arguments: a call ends the program if and only if the number of values is not
  the number of holes of the format string (a \<open>%\<close> that is not doubled), and the message says whether
  values are missing or extra.\<close>

theorem log_checks_arguments:
  "snd (log_call s vs) = (if holes s = length vs then None
     else if holes s < length vs then Some (Fatal_Exit ''extra arguments provided to log()'')
     else Some (Fatal_Exit ''missing arguments to log()''))"
  using log_call_outcome [of s vs "\<lambda>_. []"] by auto

text \<open>C32: The log file shows what was logged: under every interleaving of the logging thread and the
  logger thread, the file is an initial part of the format strings of the calls with their values
  filled in, in the order of the calls, and it is all of it once the logger thread has caught up;
  nothing is lost, repeated or torn.\<close>

theorem log_file_shows_calls:
  assumes "spsc_reach (new_queue e LOG_QUEUE_SIZE) t" and "prefix (sent t) (calls_pushed calls)"
    and "\<forall>(s, vs) \<in> set calls. holes s = length vs"
  shows "prefix (flushed show_fp (received t)) (calls_text show_fp calls) \<and>
    (received t = calls_pushed calls \<longrightarrow> flushed show_fp (received t) = calls_text show_fp calls)"
proof -
  have "prefix (received t) (calls_pushed calls)" using log_received_prefix [OF assms(1)] assms(2) by (rule prefix_order.trans)
  then obtain es where "calls_pushed calls = received t @ es" by (auto simp: prefix_def)
  moreover have "flushed show_fp (calls_pushed calls) = calls_text show_fp calls" by (rule flushed_calls [OF assms(3)])
  ultimately show ?thesis by (metis flushed_simps(3) prefixI)
qed

definition example_calls :: "(string \<times> log_value list) list" where
  "example_calls = [(''a%%% '', [V_int (- 1)])]"

lemma example_pushed: "calls_pushed example_calls = [LT_CHAR CHR ''a'', LT_CHAR CHR ''%'', LT_INTEGER (- 1), LT_CHAR CHR '' '']"
  by (simp add: calls_pushed_def example_calls_def pushValue_def)

text \<open>One element is written and read.\<close>

lemma log_demo: "\<exists>t. spsc_reach (new_queue e LOG_QUEUE_SIZE) t \<and> received t = [x] \<and> sent t = [x] \<and> sp t = P_Idle \<and> sc t = C_Idle \<and>
    fst (GetNextToRead (sq t)) = None \<and> next_read_index (sq t) = next_write_index (sq t)"
proof -
  let ?q = "new_queue e LOG_QUEUE_SIZE"
  let ?s1 = "spsc_init ?q\<lparr>sq := ?q, sp := P_Slot 0\<rparr>"
  let ?s2 = "?s1\<lparr>sq := write_slot 0 x (sq ?s1), sp := P_Written x\<rparr>"
  let ?s3 = "?s2\<lparr>sq := UpdateWriteIndex (sq ?s2), sp := P_Idle, sent := sent ?s2 @ [x]\<rparr>"
  let ?q4 = "snd (GetNextToRead (sq ?s3))"
  let ?s4 = "?s3\<lparr>sq := ?q4, sc := C_Slot 0\<rparr>"
  let ?s5 = "?s4\<lparr>sc := C_Read (q_store (sq ?s4) 0)\<rparr>"
  let ?s6 = "?s5\<lparr>sq := UpdateReadIndex (sq ?s5), sc := C_Idle, received := received ?s5 @ [x]\<rparr>"
  have size: "RoundUpToPowerOf2 LOG_QUEUE_SIZE = 8388608" by (simp add: RoundUpToPowerOf2_def LOG_QUEUE_SIZE_def Let_def)
  have one: "(1 :: u64) AND 8388607 = 1" "(0 :: u64) AND 8388607 = 0" by simp_all
  note defs = spsc_init_def new_queue_def size TryGetNextToWriteTo_def GetNextToRead_def write_slot_def UpdateWriteIndex_def Let_def
  have "spsc_reach ?q ?s1"
    by (rule spsc_next [OF spsc_start], rule p_get) (simp_all add: defs)
  then have "spsc_reach ?q ?s2" by (rule spsc_next, intro p_write) simp
  then have "spsc_reach ?q ?s3" by (rule spsc_next, intro p_publish) simp
  then have "spsc_reach ?q ?s4" by (rule spsc_next, intro c_get) (simp_all add: defs)
  then have "spsc_reach ?q ?s5" by (rule spsc_next, intro c_read) simp
  then have "spsc_reach ?q ?s6" by (rule spsc_next, intro c_release) (simp add: defs)
  moreover have "received ?s6 = [x]" "sent ?s6 = [x]" "sp ?s6 = P_Idle" "sc ?s6 = C_Idle" by (simp_all add: spsc_init_def)
  moreover have "fst (GetNextToRead (sq ?s6)) = None" "next_read_index (sq ?s6) = next_write_index (sq ?s6)"
    by (simp_all add: defs UpdateReadIndex_def one)
  ultimately show ?thesis by blast
qed

text \<open>The first element of the example is logged and printed.\<close>

theorem log_file_shows_calls_witness:
  "\<exists>t. spsc_reach (new_queue (LT_CHAR CHR ''-'') LOG_QUEUE_SIZE) t \<and> received t = [LT_CHAR CHR ''a''] \<and>
     prefix (flushed (\<lambda>_. []) (received t)) (calls_text (\<lambda>_. []) example_calls)"
proof -
  obtain t where t: "spsc_reach (new_queue (LT_CHAR CHR ''-'') LOG_QUEUE_SIZE) t" "received t = [LT_CHAR CHR ''a'']"
      "sent t = [LT_CHAR CHR ''a'']"
    using log_demo [of "LT_CHAR CHR ''-''" "LT_CHAR CHR ''a''"] by (elim exE conjE) (rule that)
  have "prefix (sent t) (calls_pushed example_calls)" by (simp add: t(3) example_pushed)
  moreover have "\<forall>(s, vs) \<in> set example_calls. holes s = length vs" by (simp add: example_calls_def holes_simps)
  ultimately have "prefix (flushed (\<lambda>_. []) (received t)) (calls_text (\<lambda>_. []) example_calls)"
    by (rule conjunct1 [OF log_file_shows_calls [OF t(1)]])
  then show ?thesis by (intro exI [of _ t] conjI t(1,2))
qed

section \<open>Time stamps\<close>

lemma decimal_length: "n < 10 ^ Suc k \<Longrightarrow> length (decimal n) \<le> Suc k"
proof (induction k arbitrary: n)
  case 0
  then show ?case by (subst decimal.simps) simp
next
  case (Suc k)
  show ?case
  proof (cases "n < 10")
    case True
    then show ?thesis by (subst decimal.simps) simp
  next
    case False
    have "n div 10 < 10 ^ Suc k" using Suc.prems by simp
    from Suc.IH [OF this] False show ?thesis by (subst decimal.simps) simp
  qed
qed


lemma digit_char_not_nul:
  assumes "d < 10"
  shows "digit_char d \<noteq> CHR 0x00"
proof
  assume "digit_char d = CHR 0x00"
  then have "(of_char (char_of (48 + d)) :: nat) = of_char (CHR 0x00)" by (simp add: digit_char_def)
  with assms show False by simp
qed

lemma decimal_not_nul: "CHR 0x00 \<notin> set (decimal n)"
proof (induction n rule: decimal.induct)
  case (1 n)
  then show ?case using digit_char_not_nul [of n] digit_char_not_nul [of "n mod 10"] by (subst decimal.simps) auto
qed

lemma padded:
  assumes "0 \<le> i" and "i < 10 ^ Suc k"
  shows "length (pad_left (Suc k) (CHR ''0'') (decimal_int i)) = Suc k" "CHR 0x00 \<notin> set (pad_left (Suc k) (CHR ''0'') (decimal_int i))"
proof -
  have "nat i < 10 ^ Suc k" using assms by (simp add: nat_less_iff)
  from decimal_length [OF this] show "length (pad_left (Suc k) (CHR ''0'') (decimal_int i)) = Suc k"
    using assms(1) by (simp add: pad_left_def decimal_int_def)
  show "CHR 0x00 \<notin> set (pad_left (Suc k) (CHR ''0'') (decimal_int i))"
    using assms(1) decimal_not_nul by (auto simp: pad_left_def decimal_int_def)
qed

lemma c_str_append: "CHR 0x00 \<notin> set s \<Longrightarrow> c_str (s @ CHR 0x00 # t) = s"
  unfolding c_str_def by (subst takeWhile_append2) auto

text \<open>A time stamp has 18 characters, not the 21 the string is sized for: it carries three nulls
  at its end, which the character-wise output of \<open>log\<close> leaves out.\<close>

lemma time_stamp_has_18_characters:
  assumes "0 \<le> now"
  shows "\<exists>t. length (GetCurrentTimeStr now s) = 21 \<and> length t = 18 \<and> c_str (GetCurrentTimeStr now s) = t \<and>
    GetCurrentTimeStr now s = t @ CHR 0x00 # take 2 (drop 19 (take 21 (s @ replicate 21 (CHR 0x00)) @ [CHR 0x00]))"
proof -
  define secs where "secs = tdiv now (10 ^ 9)"
  define t where "t = time_text (secs div 3600 mod 24) (secs div 60 mod 60) (secs mod 60) (now - secs * 10 ^ 9)"
  have secs: "secs = now div 10 ^ 9" using assms by (simp add: secs_def tdiv_nonneg)
  have "now - secs * 10 ^ 9 = now mod 10 ^ 9" unfolding secs by (rule minus_div_mult_eq_mod)
  then have ns: "0 \<le> now - secs * 10 ^ 9" "now - secs * 10 ^ 9 < 10 ^ Suc 8" by simp_all
  have small: "x mod 60 < 10 ^ Suc 1" "x mod 24 < 10 ^ Suc 1" for x :: int
    using pos_mod_bound [of 60 x] pos_mod_bound [of 24 x] by (simp_all del: pos_mod_bound)
  note p = padded [of "secs div 3600 mod 24" 1, OF _ small(2)] padded [of "secs div 60 mod 60" 1, OF _ small(1)]
    padded [of "secs mod 60" 1, OF _ small(1)] padded [OF ns]
  have t: "length t = 18" "CHR 0x00 \<notin> set t"
    using p by (simp_all add: t_def time_text_def numeral_eq_Suc)
  have "GetCurrentTimeStr now s = t @ CHR 0x00 # take 2 (drop 19 (take 21 (s @ replicate 21 (CHR 0x00)) @ [CHR 0x00]))"
    using t(1) unfolding GetCurrentTimeStr_def Let_def secs_def [symmetric] t_def [symmetric] by (simp add: snprintf_def Let_def)
  then show ?thesis using t c_str_append [OF t(2)] by (intro exI [of _ t]) simp
qed

end
