(* ===== verification/Session_Feed.thy ===== *)
theory Session_Feed
  imports Engine_Sessions Trading_Runs Client_Mirror Recovery
begin

text \<open>
  What a session of the matching engine publishes: a well-formed feed, whose updates of each symbol are
  what a client's book of that symbol can take and leave it with the orders resting at the exchange.
\<close>

section \<open>The updates per symbol\<close>

lemma mview_step: "mview_update v u = v(unat (mu_symbol_id u) := client_step (v (unat (mu_symbol_id u))) u)"
  by (simp add: mview_update_def client_step_def Let_def fun_eq_iff)

lemma of_symbol_simps [simp]:
  "of_symbol sy [] = []"
  "of_symbol sy (u # us) = (if unat (mu_symbol_id u) = sy then u # of_symbol sy us else of_symbol sy us)"
  "of_symbol sy (us @ ws) = of_symbol sy us @ of_symbol sy ws"
  by (simp_all add: of_symbol_def)

lemma mreplay_symbol: "mreplay v us sy = foldl client_step (v sy) (of_symbol sy us)"
  by (induction us arbitrary: v) (simp_all add: mview_step)

text \<open>Every client book can take the updates of its symbol.\<close>

definition market_fits :: "market_view \<Rightarrow> MatchingEngineMarketUpdate list \<Rightarrow> bool" where
  "market_fits v us \<longleftrightarrow> (\<forall>sy < kMaxSymbols. updates_fit (v sy) (of_symbol sy us))"

lemma market_fits_append: "market_fits v (us @ ws) \<longleftrightarrow> market_fits v us \<and> market_fits (mreplay v us) ws"
  by (auto simp: market_fits_def updates_fit_append mreplay_symbol)

lemma market_fits_Nil: "market_fits v []"
  by (simp add: market_fits_def)

section \<open>A well-formed feed\<close>

definition is_add :: "MatchingEngineMarketUpdate \<Rightarrow> bool" where "is_add u \<longleftrightarrow> mu_type u = MU_ADD"

text \<open>The kinds of update a book publishes.\<close>

definition book_update :: "MatchingEngineMarketUpdate \<Rightarrow> bool" where
  "book_update u \<longleftrightarrow> mu_type u \<in> {MU_ADD, MU_MODIFY, MU_CANCEL, MU_TRADE}"

lemma live_keys_step:
  assumes "finite (live_keys v)" and "book_update u" and "update_fits (v (unat (mu_symbol_id u))) u"
  shows "finite (live_keys (mview_update v u))"
    "card (live_keys (mview_update v u)) \<le> card (live_keys v) + (if is_add u then 1 else 0)"
proof -
  let ?k = "(unat (mu_symbol_id u), mu_order_id u)"
  have sub: "live_keys (mview_update v u) \<subseteq> (if is_add u then insert ?k (live_keys v) else live_keys v)"
  proof (cases "is_add u")
    case True
    then show ?thesis using live_keys_update by simp
  next
    case False
    have "live_keys (mview_update v u) \<subseteq> live_keys v"
      using assms(2,3) False
      by (auto simp: live_keys_def mview_step client_step_def view_update_def book_update_def is_add_def update_fits_def names_live_def
          split: if_splits)
    then show ?thesis using False by simp
  qed
  then show "finite (live_keys (mview_update v u))" by (rule finite_subset) (simp add: assms(1))
  have "card (live_keys (mview_update v u)) \<le> card (if is_add u then insert ?k (live_keys v) else live_keys v)"
    by (rule card_mono [OF _ sub]) (simp add: assms(1))
  also have "\<dots> \<le> card (live_keys v) + (if is_add u then 1 else 0)" using assms(1) by (simp add: card_insert_if)
  finally show "card (live_keys (mview_update v u)) \<le> card (live_keys v) + (if is_add u then 1 else 0)" .
qed

lemma fitting_continues:
  assumes "unat (mu_symbol_id u) < kMaxSymbols" and "book_update u" and "update_fits (v (unat (mu_symbol_id u))) u"
    and "is_add u \<Longrightarrow> card (live_keys v) < kMaxOrderIds"
  shows "continues v u"
  using assms by (auto simp: continues_def Let_def book_update_def is_add_def update_fits_def can_add_def names_live_def)

lemma fitting_good_feed:
  "market_fits v us \<Longrightarrow> \<forall>u \<in> set us. unat (mu_symbol_id u) < kMaxSymbols \<and> book_update u \<Longrightarrow> finite (live_keys v) \<Longrightarrow>
   card (live_keys v) + length (filter is_add us) \<le> kMaxOrderIds \<Longrightarrow> good_feed v us"
proof (induction us arbitrary: v)
  case (Cons u us)
  have sym: "unat (mu_symbol_id u) < kMaxSymbols" "book_update u" using Cons.prems(2) by simp_all
  have "market_fits v ([u] @ us)" using Cons.prems(1) by simp
  then have f: "market_fits v [u]" "market_fits (mview_update v u) us" unfolding market_fits_append by simp_all
  have fits: "update_fits (v (unat (mu_symbol_id u))) u" using f(1) sym(1) by (auto simp: market_fits_def)
  have "continues v u" by (rule fitting_continues [where v = v, OF sym fits]) (use Cons.prems(4) in simp)
  moreover have "card (live_keys (mview_update v u)) + length (filter is_add us) \<le> kMaxOrderIds"
    using live_keys_step(2) [OF Cons.prems(3) sym(2) fits] Cons.prems(4) by (simp split: if_splits)
  ultimately show ?case
    using Cons.IH [OF f(2) _ live_keys_step(1) [OF Cons.prems(3) sym(2) fits]] Cons.prems(2) by simp
qed simp

section \<open>One request of a session\<close>

lemma fill_updates_kind:
  "u \<in> set (fill_updates symbol band sd fs) \<Longrightarrow> mu_symbol_id u = symbol \<and> book_update u \<and> \<not> is_add u"
  by (auto simp: fill_updates_def fill_update_def order_update_def book_update_def is_add_def split: if_splits)

lemma no_adds: "filter is_add (fill_updates symbol band sd fs) = []"
  using fill_updates_kind by (simp add: filter_empty_conv)

lemma spec_updates_kind:
  "u \<in> set (out_updates (spec_request symbol band req ab)) \<Longrightarrow> mu_symbol_id u = symbol \<and> book_update u"
  "length (filter is_add (out_updates (spec_request symbol band req ab))) \<le> (case req of Add_Request _ _ _ _ _ \<Rightarrow> 1 | _ \<Rightarrow> 0)"
proof -
  have a: "(u \<in> set (out_updates (spec_add symbol band cid coid side price qty ab)) \<longrightarrow> mu_symbol_id u = symbol \<and> book_update u) \<and>
      length (filter is_add (out_updates (spec_add symbol band cid coid side price qty ab))) \<le> 1" for cid coid side price qty
    using fill_updates_kind no_adds
    by (auto simp: spec_add_def Let_def book_update_def split: prod.splits)
  have c: "(u \<in> set (out_updates (spec_cancel symbol band cid coid ab)) \<longrightarrow> mu_symbol_id u = symbol \<and> book_update u) \<and>
      filter is_add (out_updates (spec_cancel symbol band cid coid ab)) = []" for cid coid
    by (auto simp: spec_cancel_def order_update_def book_update_def is_add_def split: option.splits)
  show "u \<in> set (out_updates (spec_request symbol band req ab)) \<Longrightarrow> mu_symbol_id u = symbol \<and> book_update u"
    using a c by (cases req) (simp_all add: spec_request_def)
  show "length (filter is_add (out_updates (spec_request symbol band req ab))) \<le> (case req of Add_Request _ _ _ _ _ \<Rightarrow> 1 | _ \<Rightarrow> 0)"
    using a c by (cases req) (simp_all add: spec_request_def)
qed

lemma request_publishes:
  assumes inv: "engine_inv e" and ok: "engine_valid q e"
  defines "i \<equiv> unat (req_symbol_id q)"
  assumes tr: "tracks kDefaultPriceBand v (book_abs (symbol_order_book e i))"
    and run: "ProcessClientRequest q e = Inr e'" and id: "unat (ab_next (book_abs (symbol_order_book e' i))) \<le> kMaxOrderIds"
  shows "\<exists>us. me_updates e' = me_updates e @ us \<and> (\<forall>u \<in> set us. mu_symbol_id u = req_symbol_id q \<and> book_update u) \<and>
    length (filter is_add us) \<le> (if is_new q then 1 else 0) \<and> updates_fit v us \<and>
    tracks kDefaultPriceBand (foldl client_step v us) (book_abs (symbol_order_book e' i))"
proof -
  let ?b = "(symbol_order_book e i)\<lparr>client_responses := me_responses e, market_updates := me_updates e\<rparr>"
  let ?x = "spec_request (bk_symbol_id ?b) (bk_band ?b) (as_request q) (book_abs ?b)"
  have i: "i < kMaxSymbols" using ok by (simp add: engine_valid_def i_def)
  have b: "book_inv ?b" "bk_band ?b = kDefaultPriceBand" "bk_symbol_id ?b = req_symbol_id q" "book_abs ?b = book_abs (symbol_order_book e i)"
    using inv i by (simp_all add: engine_inv_def book_inv_queues) (simp add: i_def)
  have vr: "valid_request (as_request q) ?b" using ok by (simp add: valid_request_queues engine_valid_def i_def)
  obtain b' where b': "apply_request (as_request q) ?b = Inr b'" "implements ?b ?x b'"
    using valid_request_runs [OF b(1) vr] by blast
  have e': "symbol_order_book e' i = b'" "me_updates e' = market_updates b'"
    using run b'(1) by (auto simp: process_as_request [OF ok] on_book_def i_def [symmetric])
  have upd: "market_updates b' = me_updates e @ out_updates ?x" "new_updates ?b b' = out_updates ?x"
    using b'(2) by (simp_all add: implements_def new_updates_def)
  have tr0: "tracks (bk_band ?b) v (book_abs ?b)" using tr b(2,4) by simp
  have "book_inv b'" using request_keeps_inv [OF b(1) vr] b'(1) by simp
  then have nxt: "unat (next_market_order_id b') \<le> kMaxOrderIds" using id in_use_bound(2) [of b', OF _ subset_UNIV] e'(1) by simp
  have bi: "band_indexable (bk_band ?b)" using default_band_indexable b(2) by simp
  note f = request_updates_fit [OF b(1) vr b'(1) tr0 bi nxt, unfolded upd(2)]
  have "tracks kDefaultPriceBand (replay v (out_updates ?x)) (book_abs b')"
    using tracks_request [OF b(1) vr b'(1) tr0] b(2) upd(2) by simp
  moreover have "foldl client_step v (out_updates ?x) = replay v (out_updates ?x)" using client_view_replay f by blast
  moreover have "length (filter is_add (out_updates ?x)) \<le> (if is_new q then 1 else 0)"
    using spec_updates_kind(2) [of "bk_symbol_id ?b" "bk_band ?b" "as_request q" "book_abs ?b"]
    by (cases "req_type q = REQ_NEW") (simp_all add: as_request_def is_new_def)
  moreover have "\<forall>u \<in> set (out_updates ?x). mu_symbol_id u = req_symbol_id q \<and> book_update u"
    using spec_updates_kind(1) b(3) by metis
  ultimately show ?thesis using f e' upd(1) by (intro exI [of _ "out_updates ?x"]) simp
qed

section \<open>A session\<close>

text \<open>The published updates so far are a fitting feed that tracks the books.\<close>

definition feed_right :: "MatchingEngine \<Rightarrow> bool" where
  "feed_right e \<longleftrightarrow> market_fits empty_view (me_updates e) \<and>
     (\<forall>u \<in> set (me_updates e). unat (mu_symbol_id u) < kMaxSymbols \<and> book_update u) \<and>
     (\<forall>i < kMaxSymbols. tracks kDefaultPriceBand (mreplay empty_view (me_updates e) i) (book_abs (symbol_order_book e i)))"

lemma feed_step:
  assumes inv: "session_inv U e" and right: "feed_right e" and adds: "length (filter is_add (me_updates e)) \<le> card U"
    and ok: "engine_valid q e" and fresh: "is_new q \<Longrightarrow> new_key q \<notin> U" and room: "is_new q \<Longrightarrow> card U + 1 < kMaxOrderIds"
    and small: "card U < kMaxOrderIds"
  shows "\<exists>e'. ProcessClientRequest q e = Inr e' \<and> session_inv (if is_new q then insert (new_key q) U else U) e' \<and> feed_right e' \<and>
    length (filter is_add (me_updates e')) \<le> card (if is_new q then insert (new_key q) U else U)"
proof -
  let ?i = "unat (req_symbol_id q)" and ?U = "if is_new q then insert (new_key q) U else U"
  have e: "engine_inv e" "finite U" using inv by (simp_all add: session_inv_def)
  have i: "?i < kMaxSymbols" using ok by (simp add: engine_valid_def)
  from session_step [OF inv ok fresh] obtain e' where e': "ProcessClientRequest q e = Inr e'" "session_inv ?U e'" by blast
  have card: "card ?U = card U + (if is_new q then 1 else 0)" using e(2) fresh by simp
  then have "1 + card ?U \<le> kMaxOrderIds" using room small by (auto split: if_splits)
  then have id: "unat (ab_next (book_abs (symbol_order_book e' ?i))) \<le> kMaxOrderIds"
    using e'(2) i unfolding session_inv_def by (meson order_trans)
  have others: "symbol_order_book e' j = symbol_order_book e j" if "j \<noteq> ?i" for j
    using process_books [OF e(1) ok] e'(1) that by auto
  have tr: "tracks kDefaultPriceBand (mreplay empty_view (me_updates e) j) (book_abs (symbol_order_book e j))" if "j < kMaxSymbols" for j
    using right that by (simp add: feed_right_def)
  from request_publishes [OF e(1) ok tr [OF i] e'(1) id] obtain us where us: "me_updates e' = me_updates e @ us"
      "\<forall>u \<in> set us. mu_symbol_id u = req_symbol_id q \<and> book_update u" "length (filter is_add us) \<le> (if is_new q then 1 else 0)"
      "updates_fit (mreplay empty_view (me_updates e) ?i) us"
      "tracks kDefaultPriceBand (foldl client_step (mreplay empty_view (me_updates e) ?i) us) (book_abs (symbol_order_book e' ?i))"
    by blast
  have sel: "of_symbol j us = (if j = ?i then us else [])" for j
    using us(2) by (auto simp: of_symbol_def filter_id_conv filter_empty_conv)
  have "market_fits (mreplay empty_view (me_updates e)) us" using us(4) by (simp add: market_fits_def sel)
  moreover have "tracks kDefaultPriceBand (mreplay empty_view (me_updates e') j) (book_abs (symbol_order_book e' j))" if "j < kMaxSymbols" for j
    using tr [OF that] us(5) others [of j] by (cases "j = ?i") (simp_all add: us(1) mreplay_symbol sel)
  ultimately have "feed_right e'" using right us(2) i by (auto simp: feed_right_def us(1) market_fits_append)
  moreover have "length (filter is_add (me_updates e')) \<le> card ?U" using us(1,3) adds unfolding card by (simp split: if_splits)
  ultimately show ?thesis using e' by blast
qed

lemma session_feed:
  "session_inv U e \<Longrightarrow> feed_right e \<Longrightarrow> length (filter is_add (me_updates e)) \<le> card U \<Longrightarrow>
   \<forall>q \<in> set rs. request_in_range q \<Longrightarrow> distinct (map new_key (filter is_new rs)) \<Longrightarrow>
   \<forall>q \<in> set rs. is_new q \<longrightarrow> new_key q \<notin> U \<Longrightarrow> card U + length (filter is_new rs) < kMaxOrderIds \<Longrightarrow>
   \<exists>e'. process_all rs e = Inr e' \<and> engine_inv e' \<and> feed_right e' \<and> length (filter is_add (me_updates e')) < kMaxOrderIds"
proof (induction rs arbitrary: U e)
  case Nil
  then show ?case by (simp add: session_inv_def)
next
  case (Cons q rs)
  let ?U = "if is_new q then insert (new_key q) U else U"
  have fresh: "is_new q \<Longrightarrow> new_key q \<notin> U" using Cons.prems(6) by simp
  have "engine_valid q e"
    by (rule session_request_valid [OF Cons.prems(1) _ fresh]) (use Cons.prems(4,7) in auto)
  moreover have "is_new q \<Longrightarrow> card U + 1 < kMaxOrderIds" "card U < kMaxOrderIds" using Cons.prems(7) by simp_all
  ultimately obtain e1 where e1: "ProcessClientRequest q e = Inr e1" "session_inv ?U e1" "feed_right e1"
      "length (filter is_add (me_updates e1)) \<le> card ?U"
    using feed_step [OF Cons.prems(1-3) _ fresh] by blast
  have fin: "finite U" using Cons.prems(1) by (simp add: session_inv_def)
  have "new_key p \<noteq> new_key q" if "p \<in> set rs" "is_new p" "is_new q" for p
    using Cons.prems(5) that by (force simp: image_iff)
  then have new: "\<forall>p \<in> set rs. is_new p \<longrightarrow> new_key p \<notin> ?U" using Cons.prems(6) by auto
  have size: "card ?U + length (filter is_new rs) < kMaxOrderIds" using Cons.prems(7) fin fresh by (auto split: if_splits)
  have "distinct (map new_key (filter is_new rs))" using Cons.prems(5) by (auto split: if_splits)
  with Cons.IH [OF e1(2-4) _ _ new size] Cons.prems(4) e1(1) show ?case by simp
qed

lemma feed_start:
  assumes "new_MatchingEngine debug = Inr e"
  shows "feed_right e"
proof -
  have "tracks kDefaultPriceBand Map.empty empty_abook" by (simp add: tracks_def empty_abook_def empty_alevel_def)
  then show ?thesis using session_start [OF assms] by (simp add: feed_right_def market_fits_Nil empty_view_def)
qed

lemma session_publishes:
  assumes "new_MatchingEngine debug = Inr e0" and "\<forall>q \<in> set rs. request_in_range q"
    and "distinct (map new_key (filter is_new rs))" and "length (filter is_new rs) < kMaxOrderIds"
  shows "\<exists>e. process_all rs e0 = Inr e \<and> engine_inv e \<and> feed_right e \<and> good_feed empty_view (me_updates e)"
proof -
  note s = session_start [OF assms(1)]
  from session_feed [OF s(1) feed_start [OF assms(1)] _ assms(2,3)] assms(4) s(2) obtain e where e: "process_all rs e0 = Inr e" "engine_inv e" "feed_right e"
      "length (filter is_add (me_updates e)) < kMaxOrderIds" by auto
  have "live_keys empty_view = {}" by (simp add: live_keys_def empty_view_def)
  then have "good_feed empty_view (me_updates e)"
    using fitting_good_feed [of empty_view "me_updates e"] e(3,4) by (simp add: feed_right_def)
  then show ?thesis using e by blast
qed

end
