(* ===== verification/Feed_Mirror.thy ===== *)
theory Feed_Mirror
  imports Session_Feed
begin

text \<open>
  From the engine over a lossy network to the client's books: whatever the consumer passes on, the
  snapshots of a recovery included, is what the books can take, and the books are those of the
  exchange. The locale \<open>fitting_feed\<close> is a \<open>market_feed\<close> whose updates and snapshots fit.
\<close>

section \<open>A feed that fits the client's books\<close>

lemma market_fits_agrees: "agrees v w \<Longrightarrow> market_fits v us \<longleftrightarrow> market_fits w us"
  by (simp add: agrees_def market_fits_def)

locale fitting_feed = market_feed +
  assumes inc_fits: "good f \<Longrightarrow> 0 \<le> n \<Longrightarrow> n < count f \<Longrightarrow> market_fits (view f n) [inc f (n + 1)]"
    and snap_fits: "good f \<Longrightarrow> 0 \<le> L \<Longrightarrow> L \<le> count f \<Longrightarrow>
      snap f L = bound_update MU_SNAPSHOT_START (of_int L) # body @ [bound_update MU_SNAPSHOT_END (of_int L)] \<Longrightarrow> market_fits w body"
begin

lemma passed_fits: "passed f n out \<Longrightarrow> good f \<Longrightarrow> market_fits empty_view out"
proof (induction rule: passed.induct)
  case pass_nothing
  show ?case by (rule market_fits_Nil)
next
  case (pass_update n out)
  have "0 \<le> n" "agrees (mreplay empty_view out) (view f n)" using passed_view [OF pass_update(1,4)] by simp_all
  then show ?case using pass_update inc_fits [of f n] by (simp add: market_fits_append market_fits_agrees)
next
  case (pass_snapshot n out L body)
  then show ?case using snap_fits [of f L body] by (simp add: market_fits_append)
qed

lemma output_fits:
  assumes "good f" and "genuine f 0 es"
  shows "\<exists>c. consume_events es new_MarketDataConsumer = Inr c \<and> market_fits empty_view (incoming_md_updates c) \<and>
    (\<not> in_recovery c \<longrightarrow> agrees (client_view c) (view f (next_exp_inc_seq_num c - 1)))"
proof -
  from events_pass [OF assms] obtain c n where c: "consume_events es new_MarketDataConsumer = Inr c"
      "passed f n (incoming_md_updates c)" "\<not> in_recovery c \<longrightarrow> passed f (next_exp_inc_seq_num c - 1) (incoming_md_updates c)" by blast
  then show ?thesis using passed_fits [OF c(2) assms(1)] passed_view [OF _ assms(1)] by (auto simp: client_view_def)
qed

end

section \<open>Snapshots fit\<close>

text \<open>What every view of a client's book satisfies: ids and prices can be indexed, and the orders of a price
  are on one side.\<close>

definition view_ok :: "live_view \<Rightarrow> bool" where
  "view_ok v \<longleftrightarrow> (\<forall>oid sd p q pr. v oid = Some (sd, p, q, pr) \<longrightarrow> unat oid < kMaxOrderIds \<and> (sd = BUY \<or> sd = SELL) \<and> 0 \<le> p \<and>
     p < int kMaxPriceLevels \<and> (\<forall>oid' sd' q' pr'. v oid' = Some (sd', p, q', pr') \<longrightarrow> sd' = sd))"

lemma view_ok_mono:
  assumes ok: "view_ok v" and sub: "\<And>oid sd p q pr. w oid = Some (sd, p, q, pr) \<Longrightarrow> \<exists>q' pr'. v oid = Some (sd, p, q', pr')"
  shows "view_ok w"
  unfolding view_ok_def
proof (intro allI impI)
  fix oid sd p q pr
  assume "w oid = Some (sd, p, q, pr)"
  from sub [OF this] obtain q' pr' where "v oid = Some (sd, p, q', pr')" by blast
  note v = ok [unfolded view_ok_def, rule_format, OF this]
  have "sd' = sd" if "w oid' = Some (sd', p, q', pr')" for oid' sd' q' pr'
    using sub [OF that] v by blast
  then show "unat oid < kMaxOrderIds \<and> (sd = BUY \<or> sd = SELL) \<and> 0 \<le> p \<and> p < int kMaxPriceLevels \<and>
    (\<forall>oid' sd' q' pr'. w oid' = Some (sd', p, q', pr') \<longrightarrow> sd' = sd)" using v by blast
qed

lemma view_ok_step:
  assumes ok: "view_ok v" and fits: "update_fits v u"
  shows "view_ok (client_step v u)"
proof (cases "mu_type u")
  case MU_ADD
  then have add: "can_add v u" using fits by (simp add: update_fits_def)
  have step: "client_step v u = v(mu_order_id u \<mapsto> (mu_side u, mu_price u, mu_quantity u, mu_priority u))"
    using MU_ADD by (simp add: client_step_def view_update_def)
  show ?thesis unfolding view_ok_def step
  proof (intro allI impI)
    fix oid sd p q pr
    assume e: "(v(mu_order_id u \<mapsto> (mu_side u, mu_price u, mu_quantity u, mu_priority u))) oid = Some (sd, p, q, pr)"
    show "unat oid < kMaxOrderIds \<and> (sd = BUY \<or> sd = SELL) \<and> 0 \<le> p \<and> p < int kMaxPriceLevels \<and>
      (\<forall>oid' sd' q' pr'. (v(mu_order_id u \<mapsto> (mu_side u, mu_price u, mu_quantity u, mu_priority u))) oid' = Some (sd', p, q', pr') \<longrightarrow> sd' = sd)"
    proof (cases "oid = mu_order_id u")
      case True
      then show ?thesis using e add by (auto simp: can_add_def)
    next
      case False
      then have old: "v oid = Some (sd, p, q, pr)" using e by simp
      note vd = ok [unfolded view_ok_def, rule_format, OF old]
      have new: "p = mu_price u \<longrightarrow> sd = mu_side u" using add old unfolding can_add_def by blast
      have "sd' = sd" if e': "(v(mu_order_id u \<mapsto> (mu_side u, mu_price u, mu_quantity u, mu_priority u))) oid' = Some (sd', p, q', pr')" for oid' sd' q' pr'
      proof (cases "oid' = mu_order_id u")
        case True
        then show ?thesis using e' new by simp
      next
        case False
        then have "v oid' = Some (sd', p, q', pr')" using e' by simp
        then show ?thesis using vd by blast
      qed
      then show ?thesis using vd by blast
    qed
  qed
next
  case MU_MODIFY
  then obtain q0 pr0 where n: "v (mu_order_id u) = Some (mu_side u, mu_price u, q0, pr0)"
    using fits by (auto simp: update_fits_def names_live_def)
  have step: "client_step v u = v(mu_order_id u \<mapsto> (mu_side u, mu_price u, mu_quantity u, pr0))"
    using MU_MODIFY n by (simp add: client_step_def view_update_def)
  show ?thesis by (rule view_ok_mono [OF ok]) (use n in \<open>auto simp: step split: if_splits\<close>)
next
  case MU_CANCEL
  then have "client_step v u = v(mu_order_id u := None)" by (simp add: client_step_def view_update_def)
  then show ?thesis by (intro view_ok_mono [OF ok]) (simp split: if_splits)
next
  case MU_CLEAR
  then show ?thesis by (simp add: client_step_def view_ok_def)
qed (use ok in \<open>simp_all add: client_step_def view_update_def\<close>)

lemma view_ok_run: "view_ok v \<Longrightarrow> updates_fit v us \<Longrightarrow> view_ok (foldl client_step v us)"
  by (induction us arbitrary: v) (simp_all add: view_ok_step)

lemma view_ok_replay:
  assumes "market_fits empty_view us" and "sy < kMaxSymbols"
  shows "view_ok (mreplay empty_view us sy)"
proof -
  have "view_ok (empty_view sy)" by (simp add: view_ok_def empty_view_def)
  then show ?thesis using assms by (simp add: mreplay_symbol view_ok_run market_fits_def)
qed

text \<open>The orders the mirror holds for a symbol, added one after the other to part of its view.\<close>

lemma mirror_orders_fit:
  assumes ok: "mirror_ok (symbol_orders s) (lookup (ss_pool s))"
    and view: "view_ok (mirror_view (symbol_orders s) (lookup (ss_pool s)) sy)"
  shows "distinct is \<Longrightarrow> (\<And>oid x. w oid = Some x \<Longrightarrow>
      mirror_view (symbol_orders s) (lookup (ss_pool s)) sy oid = Some x \<and> unat oid \<notin> set is) \<Longrightarrow>
    updates_fit w (mirror_orders s sy is)"
proof (induction "is" arbitrary: w)
  case Nil
  then show ?case by (simp add: mirror_orders_def)
next
  case (Cons i "is")
  let ?v = "mirror_view (symbol_orders s) (lookup (ss_pool s)) sy"
  show ?case
  proof (cases "symbol_orders s sy i")
    case None
    then have "mirror_orders s sy (i # is) = mirror_orders s sy is" by (simp add: mirror_orders_def)
    then show ?thesis using Cons by simp
  next
    case (Some p)
    obtain x where x: "lookup (ss_pool s) p = Some x" "mu_type x = MU_ADD" "unat (mu_symbol_id x) = sy" "unat (mu_order_id x) = i"
      using mirror_okD(3) [OF ok Some] by blast
    have l: "mirror_orders s sy (i # is) = x # mirror_orders s sy is" using Some x(1) by (simp add: mirror_orders_def)
    have vx: "?v (mu_order_id x) = Some (order_data x)" using x Some by (simp add: mirror_view_def)
    have new: "w (mu_order_id x) = None"
    proof (rule ccontr)
      assume "w (mu_order_id x) \<noteq> None"
      then obtain y where "w (mu_order_id x) = Some y" by blast
      from Cons.prems(2) [OF this] x(4) show False by simp
    qed
    note vk = view [unfolded view_ok_def, rule_format, of "mu_order_id x" "mu_side x" "mu_price x" "mu_quantity x" "mu_priority x"]
    have "sd = mu_side x" if "w oid = Some (sd, mu_price x, q, pr)" for oid sd q pr
      using vk vx Cons.prems(2) [OF that] by (auto simp: order_data_def)
    then have "can_add w x" using new vk vx by (auto simp: can_add_def order_data_def)
    moreover have "updates_fit (client_step w x) (mirror_orders s sy is)"
    proof (rule Cons.IH)
      show "distinct is" using Cons.prems(1) by simp
      fix oid y
      assume "client_step w x oid = Some y"
      then have y: "(w(mu_order_id x \<mapsto> order_data x)) oid = Some y" using x(2) by (simp add: client_step_def view_update_def order_data_def)
      show "?v oid = Some y \<and> unat oid \<notin> set is"
      proof (cases "oid = mu_order_id x")
        case True
        then show ?thesis using y vx x(4) Cons.prems(1) by simp
      next
        case False
        then show ?thesis using y Cons.prems(2) [of oid y] by simp
      qed
    qed
    ultimately show ?thesis using x(2) by (simp add: l update_fits_def)
  qed
qed

lemma mirror_orders_symbol:
  assumes "mirror_ok (symbol_orders s) (lookup (ss_pool s))"
  shows "of_symbol sy' (mirror_orders s sy is) = (if sy' = sy then mirror_orders s sy is else [])"
proof -
  have "unat (mu_symbol_id u) = sy" if u: "u \<in> set (mirror_orders s sy is)" for u
  proof -
    obtain i p where "symbol_orders s sy i = Some p" "u = the (lookup (ss_pool s) p)"
      using u by (auto simp: mirror_orders_def eq_commute [of "Some _"] split: option.splits)
    then show ?thesis using mirror_okD(3) [OF assms] by fastforce
  qed
  then show ?thesis by (auto simp: of_symbol_def filter_id_conv filter_empty_conv)
qed

lemma snapshot_body_fits:
  assumes rel: "snap_rel s v" and view: "\<And>sy. sy < kMaxSymbols \<Longrightarrow> view_ok (v sy)"
  shows "set sys \<subseteq> {..<kMaxSymbols} \<Longrightarrow> market_fits w (snapshot_body s sys)"
proof (induction sys arbitrary: w)
  case Nil
  then show ?case by (simp add: snapshot_body_def market_fits_Nil)
next
  case (Cons sy sys)
  have ok: "mirror_ok (symbol_orders s) (lookup (ss_pool s))" and v: "v = mirror_view (symbol_orders s) (lookup (ss_pool s))"
    using rel by (simp_all add: snap_rel_def)
  have lt: "sy < kMaxSymbols" using Cons.prems by simp
  have clear: "mu_type (clear_update sy) = MU_CLEAR" "unat (mu_symbol_id (clear_update sy)) = sy"
    using small_symbol [OF lt] by (simp_all add: clear_update_def)
  have c1: "market_fits w [clear_update sy]" by (simp add: market_fits_def clear update_fits_def)
  have c2: "mview_update w (clear_update sy) = w(sy := (\<lambda>_. None))" by (simp add: mview_step clear client_step_def)
  have "updates_fit (\<lambda>_. None) (mirror_orders s sy [0..<kMaxOrderIds])"
    by (rule mirror_orders_fit [OF ok]) (use view [OF lt] v in simp_all)
  then have "market_fits (w(sy := (\<lambda>_. None))) (mirror_orders s sy [0..<kMaxOrderIds])"
    by (simp add: market_fits_def mirror_orders_symbol [OF ok])
  moreover have "snapshot_body s (sy # sys) = [clear_update sy] @ mirror_orders s sy [0..<kMaxOrderIds] @ snapshot_body s sys"
    by (simp add: snapshot_body_def)
  moreover have "market_fits w' (snapshot_body s sys)" for w' using Cons by simp
  ultimately show ?case using c1 c2 by (simp only: market_fits_append mreplay_simps)
qed

section \<open>The exchange's feed fits\<close>

definition session_feed_ok :: "MatchingEngineMarketUpdate list \<Rightarrow> bool" where
  "session_feed_ok us \<longleftrightarrow> feed_ok us \<and> market_fits empty_view us"

lemma market_fits_take: "market_fits v us \<Longrightarrow> market_fits v (take n us)"
  using market_fits_append [of v "take n us" "drop n us"] by simp

lemma feed_snap_fits:
  assumes "session_feed_ok us" and "0 \<le> L" and "L \<le> feed_count us"
    and snap: "feed_snap us L = bound_update MU_SNAPSHOT_START (of_int L) # body @ [bound_update MU_SNAPSHOT_END (of_int L)]"
  shows "market_fits w body"
proof -
  let ?us = "take (nat L) us"
  have "good_feed empty_view (?us @ drop (nat L) us)" "length us < 2 ^ 63" using assms(1) by (simp_all add: session_feed_ok_def feed_ok_def)
  then have "good_feed empty_view ?us" "length ?us < 2 ^ 63" unfolding good_feed_append by simp_all
  then obtain s where s: "AddtoSnapshot_all (numbered 1 ?us) (new_SnapshotSynthesizer False) = Inr s"
    "snap_rel s (mreplay empty_view ?us)" using mirror_after [of ?us False] by blast
  have "body = snapshot_body s [0..<kMaxSymbols]"
    using snap by (simp add: feed_snap_def s(1) snapshot_updates_def)
  moreover have "market_fits empty_view ?us" using assms(1) by (simp add: session_feed_ok_def market_fits_take)
  ultimately show ?thesis using snapshot_body_fits [OF s(2) view_ok_replay, of "[0..<kMaxSymbols]" w] by (simp add: lessThan_atLeast0)
qed

interpretation session: fitting_feed session_feed_ok feed_count feed_inc feed_snap feed_view
proof unfold_locales
  fix us :: "MatchingEngineMarketUpdate list" and n L :: int and w :: market_view and body
  assume ok: "session_feed_ok us"
  then have f: "feed_ok us" by (simp add: session_feed_ok_def)
  show "0 \<le> feed_count us \<and> feed_count us < 2 ^ 63" by (rule exchange.count_range [OF f])
  show "feed_view us 0 = empty_view" by (rule exchange.view_start [OF f])
  show "feed_view us (n + 1) = mview_update (feed_view us n) (feed_inc us (n + 1))" if "0 \<le> n" "n < feed_count us"
    by (rule feed_view_step [OF that])
  show "\<not> is_bound (feed_inc us n)" if "1 \<le> n" "n \<le> feed_count us" by (rule exchange.inc_plain [OF f that])
  show "\<exists>body. feed_snap us L = bound_update MU_SNAPSHOT_START (of_int L) # body @ [bound_update MU_SNAPSHOT_END (of_int L)] \<and>
      (\<forall>u \<in> set body. \<not> is_bound u) \<and> (\<forall>w. agrees (mreplay w body) (feed_view us L))"
    if "0 \<le> L" "L \<le> feed_count us"
    by (rule feed_snap_shape [OF f that])
  show "market_fits w body" if "0 \<le> L" "L \<le> feed_count us"
      "feed_snap us L = bound_update MU_SNAPSHOT_START (of_int L) # body @ [bound_update MU_SNAPSHOT_END (of_int L)]"
    by (rule feed_snap_fits [OF ok that])
  show "market_fits (feed_view us n) [feed_inc us (n + 1)]" if n: "0 \<le> n" "n < feed_count us"
  proof -
    have lt: "nat n < length us" and k: "nat (n + 1) = Suc (nat n)" using n by (simp_all add: feed_count_def nat_add_distrib)
    have "market_fits empty_view (take (nat (n + 1)) us)" using ok by (simp add: session_feed_ok_def market_fits_take)
    then show ?thesis using lt by (simp add: k take_Suc_conv_app_nth market_fits_append feed_view_def feed_inc_def)
  qed
qed

section \<open>From the engine to the client's books\<close>

lemma symbol_book:
  assumes fits: "market_fits empty_view us" and sy: "sy < kMaxSymbols"
  shows "\<exists>b. onMarketUpdates (of_symbol sy us) (new_MarketOrderBook dbg (of_nat sy)) = Inr b \<and>
    book_view b = mreplay empty_view us sy \<and> mb_bbo b = view_BBO (book_view b)"
proof -
  have "updates_fit (\<lambda>_. None) (of_symbol sy us)" using fits sy by (simp add: market_fits_def empty_view_def)
  then obtain b where "onMarketUpdates (of_symbol sy us) (new_MarketOrderBook dbg (of_nat sy)) = Inr b" "book_ok b"
      "book_view b = foldl client_step (\<lambda>_. None) (of_symbol sy us)"
    using onMarketUpdates_ok [OF new_book_ok(1), of dbg "of_nat sy" "of_symbol sy us"] unfolding new_book_ok(2) by blast
  then show ?thesis by (simp add: book_ok_def mreplay_symbol empty_view_def)
qed

lemma session_book_view:
  assumes right: "feed_right e" and inv: "engine_inv e" and sy: "sy < kMaxSymbols" and v: "v = mreplay empty_view (me_updates e) sy"
  shows "v oid = Some x \<longleftrightarrow> (\<exists>s t. \<exists>r \<in> set (al_queue (ab_side (book_abs (symbol_order_book e sy)) s t)).
      r_moid r = oid \<and> x = order_view kDefaultPriceBand s t r)"
    "view_BBO v = exchange_BBO (symbol_order_book e sy)"
proof -
  have tr: "tracks kDefaultPriceBand v (book_abs (symbol_order_book e sy))" using right sy v by (simp add: feed_right_def)
  show "v oid = Some x \<longleftrightarrow> (\<exists>s t. \<exists>r \<in> set (al_queue (ab_side (book_abs (symbol_order_book e sy)) s t)).
      r_moid r = oid \<and> x = order_view kDefaultPriceBand s t r)"
    by (rule tracksD [OF tr, symmetric])
  have "book_inv (symbol_order_book e sy)" "bk_band (symbol_order_book e sy) = kDefaultPriceBand"
    using inv sy by (simp_all add: engine_inv_def)
  then show "view_BBO v = exchange_BBO (symbol_order_book e sy)" using exchange_BBO_view tr by simp
qed

text \<open>What a client book of each symbol holds once it has taken all the consumer passed on for it.\<close>

definition books_mirror :: "bool \<Rightarrow> MatchingEngine \<Rightarrow> MarketDataConsumer \<Rightarrow> bool" where
  "books_mirror dbg e c \<longleftrightarrow> (\<forall>sy < kMaxSymbols.
    \<exists>b. onMarketUpdates (of_symbol sy (incoming_md_updates c)) (new_MarketOrderBook dbg (of_nat sy)) = Inr b \<and>
      mb_bbo b = view_BBO (book_view b) \<and>
      (\<not> in_recovery c \<longrightarrow> book_view b = mreplay empty_view (take (nat (next_exp_inc_seq_num c - 1)) (me_updates e)) sy) \<and>
      (\<not> in_recovery c \<and> next_exp_inc_seq_num c = int (length (me_updates e)) + 1 \<longrightarrow>
        mb_bbo b = exchange_BBO (symbol_order_book e sy) \<and>
        (\<forall>oid x. book_view b oid = Some x \<longleftrightarrow> (\<exists>s t. \<exists>r \<in> set (al_queue (ab_side (book_abs (symbol_order_book e sy)) s t)).
          r_moid r = oid \<and> x = order_view kDefaultPriceBand s t r))))"

text \<open>C7: A lossy network never breaks a client's picture of the market. Take any session of requests in
  range (ids within the tables, prices on the grid, positive quantities) in which no client uses an order
  id twice for a symbol and fewer than \<open>kMaxOrderIds\<close> new orders come. However the network then loses, repeats
  and reorders the updates the engine publishes and the messages of each snapshot cycle, as long as no
  message of an older cycle arrives after one of a newer, the consumer stops only when joining the snapshot
  stream fails, and a client book of any symbol takes everything the consumer passes on for it without a
  fault and shows the best prices of its orders; whenever the consumer is not recovering, the book holds
  exactly the orders live after some number of the published updates, and once that is all of them,
  exactly the orders that rest in the engine's book, with the engine's best prices and the totals of
  their levels.\<close>

theorem lossy_feed_rebuilds_client_books:
  assumes "new_MatchingEngine debug = Inr e0" and "\<forall>q \<in> set rs. request_in_range q"
    and "distinct (map new_key (filter is_new rs))" and "length (filter is_new rs) < kMaxOrderIds"
    and "process_all rs e0 = Inr e" and "length (me_updates e) < 2 ^ 63" and "delivered (me_updates e) 0 (map snd jes)"
  shows "case consume_joining jes new_MarketDataConsumer of
      Inr c \<Rightarrow> books_mirror dbg e c
    | Inl f \<Rightarrow> f = join_fault \<and> (\<exists>je \<in> set jes. \<not> fst je)"
proof -
  have e: "engine_inv e" "feed_right e" "good_feed empty_view (me_updates e)"
    using session_publishes [OF assms(1-4)] assms(5) by auto
  then have ok: "session_feed_ok (me_updates e)"
    using assms(6) by (simp add: session_feed_ok_def feed_ok_def feed_right_def)
  from session.output_fits [OF ok delivered_genuine [OF assms(7)]] obtain c where c: "consume_events (map snd jes) new_MarketDataConsumer = Inr c"
      "market_fits empty_view (incoming_md_updates c)"
      "\<not> in_recovery c \<Longrightarrow> agrees (client_view c) (feed_view (me_updates e) (next_exp_inc_seq_num c - 1))" by blast
  have "books_mirror dbg e c"
    unfolding books_mirror_def
  proof (intro allI impI)
    fix sy
    assume sy: "sy < kMaxSymbols"
    obtain b where b: "onMarketUpdates (of_symbol sy (incoming_md_updates c)) (new_MarketOrderBook dbg (of_nat sy)) = Inr b"
      "book_view b = mreplay empty_view (incoming_md_updates c) sy" "mb_bbo b = view_BBO (book_view b)"
      using symbol_book [OF c(2) sy] by blast
    have live: "book_view b = mreplay empty_view (take (nat (next_exp_inc_seq_num c - 1)) (me_updates e)) sy" if "\<not> in_recovery c"
      using c(3) [OF that] sy by (simp add: agrees_def client_view_def feed_view_def b(2))
    have all: "book_view b = mreplay empty_view (me_updates e) sy"
      if "\<not> in_recovery c" "next_exp_inc_seq_num c = int (length (me_updates e)) + 1"
      using live [OF that(1)] that(2) by simp
    show "\<exists>b. onMarketUpdates (of_symbol sy (incoming_md_updates c)) (new_MarketOrderBook dbg (of_nat sy)) = Inr b \<and>
      mb_bbo b = view_BBO (book_view b) \<and>
      (\<not> in_recovery c \<longrightarrow> book_view b = mreplay empty_view (take (nat (next_exp_inc_seq_num c - 1)) (me_updates e)) sy) \<and>
      (\<not> in_recovery c \<and> next_exp_inc_seq_num c = int (length (me_updates e)) + 1 \<longrightarrow>
        mb_bbo b = exchange_BBO (symbol_order_book e sy) \<and>
        (\<forall>oid x. book_view b oid = Some x \<longleftrightarrow> (\<exists>s t. \<exists>r \<in> set (al_queue (ab_side (book_abs (symbol_order_book e sy)) s t)).
          r_moid r = oid \<and> x = order_view kDefaultPriceBand s t r)))"
      using b(1,3) live session_book_view [OF e(2,1) sy all] by auto
  qed
  then show ?thesis using consume_joining_outcome [of jes new_MarketDataConsumer] c(1) by (auto split: sum.splits)
qed

text \<open>An order is accepted, and its update arrives twice.\<close>

lemma example_session_updates:
  assumes "new_MatchingEngine True = Inr e0"
  shows "\<exists>e. process_all [example_request] e0 = Inr e \<and>
    me_updates e = [\<lparr>mu_type = MU_ADD, mu_symbol_id = 0, mu_order_id = 1, mu_side = BUY, mu_price = 100, mu_quantity = 10, mu_priority = 1\<rparr>]"
proof -
  have abs: "book_abs (symbol_order_book e0 0) = empty_abook" by (rule session_start(3) [OF assms]) (simp add: capacity_defs)
  have "engine_valid example_request e0"
    using example_engine assms by auto
  moreover have "engine_inv e0" using session_start(1) [OF assms] by (simp add: session_inv_def)
  ultimately obtain b' where r: "ProcessClientRequest example_request e0 = Inr (e0\<lparr>symbol_order_book := (symbol_order_book e0)(0 := b'),
      me_responses := me_responses e0 @ out_responses (spec_request 0 kDefaultPriceBand (as_request example_request) empty_abook),
      me_updates := me_updates e0 @ out_updates (spec_request 0 kDefaultPriceBand (as_request example_request) empty_abook)\<rparr>)"
    using process_ok [of e0 example_request] abs by (auto simp: example_request_def)
  have "out_updates (spec_request 0 kDefaultPriceBand (as_request example_request) empty_abook) =
      [\<lparr>mu_type = MU_ADD, mu_symbol_id = 0, mu_order_id = 1, mu_side = BUY, mu_price = 100, mu_quantity = 10, mu_priority = 1\<rparr>]"
    by (simp add: spec_request_def as_request_def example_request_def spec_add_def Let_def crossing_ticks_def empty_abook_def
        empty_alevel_def fill_updates_def upd_side_def)
  then show ?thesis using r session_start(2) [OF assms] by simp
qed

theorem lossy_feed_rebuilds_client_books_witness:
  "\<exists>e0 e c b. new_MatchingEngine True = Inr e0 \<and> process_all [example_request] e0 = Inr e \<and>
    consume_events (map Incremental (numbered 1 (me_updates e) @ numbered 1 (me_updates e))) new_MarketDataConsumer = Inr c \<and>
    onMarketUpdates (of_symbol 0 (incoming_md_updates c)) (new_MarketOrderBook True 0) = Inr b \<and>
    mb_bbo b = view_BBO (book_view b)"
proof -
  obtain e0 where e0: "new_MatchingEngine True = Inr e0" using example_engine by blast
  from example_session_updates [OF e0] obtain e u where e: "process_all [example_request] e0 = Inr e" "me_updates e = [u]" by blast
  let ?es = "map Incremental (numbered 1 (me_updates e) @ numbered 1 (me_updates e))"
  have range: "\<forall>q \<in> set [example_request]. request_in_range q"
    "distinct (map new_key (filter is_new [example_request]))" "length (filter is_new [example_request]) < kMaxOrderIds"
    by (simp_all add: example_request_def request_in_range_def capacity_defs kMaxOrderIds_def kTickCount_def)
  have net: "length (me_updates e) < 2 ^ 63" "delivered (me_updates e) 0 (map snd (map (Pair True) ?es))" using e(2) by simp_all
  have pos: "0 < kMaxSymbols" by (simp add: capacity_defs)
  have "\<exists>c. consume_events ?es new_MarketDataConsumer = Inr c \<and> books_mirror True e c"
    using lossy_feed_rebuilds_client_books [OF e0 range e(1) net, of True]
    by (simp only: consume_joining_True split: sum.splits) auto
  then obtain c where c: "consume_events ?es new_MarketDataConsumer = Inr c" "books_mirror True e c" by blast
  obtain b where "onMarketUpdates (of_symbol 0 (incoming_md_updates c)) (new_MarketOrderBook True (of_nat 0)) = Inr b" "mb_bbo b = view_BBO (book_view b)"
    using c(2) pos unfolding books_mirror_def by blast
  then show ?thesis using e0 e(1) c(1) by auto
qed

end
