(* ===== verification/Socket_Setup.thy ===== *)
theory Socket_Setup
  imports Sockets
begin

text \<open>
  How sockets come into being: \<open>common/socket_utils.h\<close>, \<open>TCPSocket::connect\<close>, \<open>McastSocket::init\<close>,
  \<open>join\<close> and \<open>leave\<close>, \<open>TCPServer::listen\<close> and \<open>poll\<close>. The operating system is an argument: a function
  from the calls made so far, with their answers, to the answer of the next call. What the code does
  is the trace of its calls. The text of \<open>errno\<close> in the messages of assertions is left out.
\<close>

section \<open>System calls\<close>

datatype address = Resolved "u8 list" | Any_Address "16 word"

record addrinfo =
  ai_family :: int
  ai_socktype :: int
  ai_protocol :: int
  ai_addr :: "u8 list"

record hints =
  hint_flags :: int
  hint_family :: int
  hint_socktype :: int
  hint_protocol :: int

text \<open>An entry of \<open>getifaddrs\<close>: its name, the family of its address if it has one, and what
  \<open>inet_ntop\<close> makes of that address.\<close>

record ifaddr =
  ifa_name :: string
  ifa_family :: "int option"
  ifa_text :: "string option"

datatype sockopt = Tcp_Nodelay | So_Timestamp | So_Reuseaddr | Ip_Add_Membership string

datatype syscall =
    Getifaddrs
  | Getaddrinfo string string hints
  | Socket_Call int int int
  | Fcntl_Getfl int
  | Fcntl_Setfl int u32
  | Setsockopt int sockopt
  | Connect_Call int "u8 list"
  | Poll_Writable int int
  | Getsockopt_Error int
  | Bind_Call int address
  | Listen_Call int int
  | Close_Call int
  | Epoll_Create int
  | Epoll_Add int int u32
  | Epoll_Wait int nat
  | Accept_Call int

text \<open>An answer: the returned number, \<open>errno\<close>, and what the call writes to its arguments.\<close>

record answer =
  ret :: int
  errno :: int
  ifaddrs :: "ifaddr list"
  addrs :: "addrinfo list"
  so_error :: int
  events :: "u32 list"

type_synonym trace = "(syscall \<times> answer) list"
type_synonym kernel = "trace \<Rightarrow> syscall \<Rightarrow> answer"
type_synonym 'a io = "trace \<Rightarrow> 'a result \<times> trace"

definition sys :: "kernel \<Rightarrow> syscall \<Rightarrow> answer io" where
  "sys k c t = (Inr (k t c), t @ [(c, k t c)])"

definition bindIO :: "'a io \<Rightarrow> ('a \<Rightarrow> 'b io) \<Rightarrow> 'b io" where
  "bindIO m f t = (case m t of (Inl e, t') \<Rightarrow> (Inl e, t') | (Inr x, t') \<Rightarrow> f x t')"

definition pureIO :: "'a result \<Rightarrow> 'a io" where
  "pureIO r t = (r, t)"

definition assertIO :: "bool \<Rightarrow> string \<Rightarrow> unit io" where
  "assertIO b msg = pureIO (ASSERT b msg)"

text \<open>Constants of the system's headers.\<close>

definition AF_INET :: int where "AF_INET = 2"
definition SOCK_STREAM :: int where "SOCK_STREAM = 1"
definition SOCK_DGRAM :: int where "SOCK_DGRAM = 2"
definition IPPROTO_TCP :: int where "IPPROTO_TCP = 6"
definition IPPROTO_UDP :: int where "IPPROTO_UDP = 17"
definition AI_PASSIVE :: int where "AI_PASSIVE = 1"
definition AI_NUMERICHOST :: int where "AI_NUMERICHOST = 4"
definition AI_NUMERICSERV :: int where "AI_NUMERICSERV = 1024"
definition O_NONBLOCK :: u32 where "O_NONBLOCK = 2048"
definition EINPROGRESS :: int where "EINPROGRESS = 115"
definition EPOLLIN :: u32 where "EPOLLIN = 1"
definition EPOLLET :: u32 where "EPOLLET = 2147483648"

section \<open>\<open>socket_utils.h\<close>\<close>

record SocketCfg =
  cfg_ip :: string
  cfg_iface :: string
  cfg_port :: int
  cfg_isUdp :: bool
  cfg_isListening :: bool
  cfg_needsSoTimestamp :: bool

definition bool_text :: "bool \<Rightarrow> string" where
  "bool_text b = (if b then ''1'' else ''0'')"

definition SocketCfg_toString :: "SocketCfg \<Rightarrow> string" where
  "SocketCfg_toString c = ''SocketCFG is [ip: '' @ cfg_ip c @ '' iface: '' @ cfg_iface c @ '' port: '' @ decimal_int (cfg_port c) @
     '' isUdp: '' @ bool_text (cfg_isUdp c) @ '' isListening: '' @ bool_text (cfg_isListening c) @
     '' needsSoTimestamp: '' @ bool_text (cfg_needsSoTimestamp c) @ '']''"

definition MaxTCPServerBacklog :: int where "MaxTCPServerBacklog = 1024"

text \<open>The loop over the interfaces stops at the first IPv4 address of the one it looks for.\<close>

fun first_ipv4 :: "string \<Rightarrow> ifaddr list \<Rightarrow> string" where
  "first_ipv4 iface [] = []"
| "first_ipv4 iface (a # as) = (if ifa_family a = Some AF_INET \<and> iface = ifa_name a
     then (case ifa_text a of Some ip \<Rightarrow> ip | None \<Rightarrow> []) else first_ipv4 iface as)"

definition getIfaceIP :: "kernel \<Rightarrow> string \<Rightarrow> string io" where
  "getIfaceIP k iface = bindIO (sys k Getifaddrs) (\<lambda>a.
     pureIO (Inr (if ret a \<noteq> -1 then first_ipv4 iface (ifaddrs a) else [])))"

definition setNonBlocking :: "kernel \<Rightarrow> int \<Rightarrow> bool io" where
  "setNonBlocking k fd = bindIO (sys k (Fcntl_Getfl fd)) (\<lambda>a.
     let flags = word_of_int (ret a) :: u32 in
     if flags AND O_NONBLOCK \<noteq> 0 then pureIO (Inr True)
     else bindIO (sys k (Fcntl_Setfl fd (flags OR O_NONBLOCK))) (\<lambda>b. pureIO (Inr (ret b \<noteq> -1))))"

definition disableNagle :: "kernel \<Rightarrow> int \<Rightarrow> bool io" where
  "disableNagle k fd = bindIO (sys k (Setsockopt fd Tcp_Nodelay)) (\<lambda>a. pureIO (Inr (ret a \<noteq> -1)))"

definition setSOTimestamp :: "kernel \<Rightarrow> int \<Rightarrow> bool io" where
  "setSOTimestamp k fd = bindIO (sys k (Setsockopt fd So_Timestamp)) (\<lambda>a. pureIO (Inr (ret a \<noteq> -1)))"

definition join_group :: "kernel \<Rightarrow> int \<Rightarrow> string \<Rightarrow> bool io" where
  "join_group k fd ip = bindIO (sys k (Setsockopt fd (Ip_Add_Membership ip))) (\<lambda>a. pureIO (Inr (ret a \<noteq> -1)))"

text \<open>The parts of the loop body of \<open>createSocket\<close>: connecting, and binding and listening.\<close>

definition connect_socket :: "kernel \<Rightarrow> SocketCfg \<Rightarrow> int \<Rightarrow> addrinfo \<Rightarrow> unit io" where
  "connect_socket k cfg fd rp =
     bindIO (sys k (Connect_Call fd (ai_addr rp))) (\<lambda>a.
       if ret a = -1 \<and> \<not> cfg_isUdp cfg \<and> errno a = EINPROGRESS
       then bindIO (sys k (Poll_Writable fd 5000)) (\<lambda>p.
         if 0 < ret p then bindIO (sys k (Getsockopt_Error fd)) (\<lambda>g.
           assertIO (ret g = 0 \<and> so_error g = 0) ''TCP connection was not completed at start-up'')
         else assertIO False ''TCP connection was not completed at start-up'')
       else assertIO (ret a \<noteq> -1) ''connect() failed.'')"

definition bind_socket :: "kernel \<Rightarrow> SocketCfg \<Rightarrow> int \<Rightarrow> addrinfo \<Rightarrow> unit io" where
  "bind_socket k cfg fd rp =
     bindIO (sys k (Setsockopt fd So_Reuseaddr)) (\<lambda>a.
     bindIO (assertIO (ret a = 0) ''setsockopt() SO_REUSEADDR failed.'') (\<lambda>_.
     bindIO (sys k (Bind_Call fd (if cfg_isUdp cfg then Any_Address (word_of_int (cfg_port cfg)) else Resolved (ai_addr rp)))) (\<lambda>b.
       assertIO (ret b = 0) ''bind() failed'')))"

definition setup_descriptor :: "kernel \<Rightarrow> SocketCfg \<Rightarrow> addrinfo \<Rightarrow> int \<Rightarrow> int io" where
  "setup_descriptor k cfg rp fd =
     bindIO (assertIO (fd \<noteq> -1) ''socket() failed.'') (\<lambda>_.
     bindIO (setNonBlocking k fd) (\<lambda>ok.
     bindIO (assertIO ok ''setNonBlocking() failed.'') (\<lambda>_.
     bindIO (if cfg_isUdp cfg then pureIO (Inr ())
             else bindIO (disableNagle k fd) (\<lambda>ok. assertIO ok ''disableNagle() failed.'')) (\<lambda>_.
     bindIO (if cfg_isListening cfg then pureIO (Inr ()) else connect_socket k cfg fd rp) (\<lambda>_.
     bindIO (if cfg_isListening cfg then bind_socket k cfg fd rp else pureIO (Inr ())) (\<lambda>_.
     bindIO (if \<not> cfg_isUdp cfg \<and> cfg_isListening cfg
             then bindIO (sys k (Listen_Call fd MaxTCPServerBacklog)) (\<lambda>a. assertIO (ret a = 0) ''listen() failed.'')
             else pureIO (Inr ())) (\<lambda>_.
     bindIO (if cfg_needsSoTimestamp cfg then bindIO (setSOTimestamp k fd) (\<lambda>ok. assertIO ok ''setSOTimestamp() failed.'')
             else pureIO (Inr ())) (\<lambda>_. pureIO (Inr fd)))))))))"

definition setup_address :: "kernel \<Rightarrow> SocketCfg \<Rightarrow> addrinfo \<Rightarrow> int io" where
  "setup_address k cfg rp = bindIO (sys k (Socket_Call (ai_family rp) (ai_socktype rp) (ai_protocol rp)))
     (\<lambda>s. setup_descriptor k cfg rp (ret s))"

text \<open>The loop over the addresses; the descriptor of the last one is returned.\<close>

fun setup_addresses :: "kernel \<Rightarrow> SocketCfg \<Rightarrow> addrinfo list \<Rightarrow> int \<Rightarrow> int io" where
  "setup_addresses k cfg [] fd = pureIO (Inr fd)"
| "setup_addresses k cfg (rp # rps) fd = bindIO (setup_address k cfg rp) (setup_addresses k cfg rps)"

definition address_hints :: "SocketCfg \<Rightarrow> hints" where
  "address_hints cfg = \<lparr>hint_flags = (if cfg_isListening cfg then AI_PASSIVE else 0) + AI_NUMERICHOST + AI_NUMERICSERV,
     hint_family = AF_INET, hint_socktype = (if cfg_isUdp cfg then SOCK_DGRAM else SOCK_STREAM),
     hint_protocol = (if cfg_isUdp cfg then IPPROTO_UDP else IPPROTO_TCP)\<rparr>"

definition createSocket :: "kernel \<Rightarrow> SocketCfg \<Rightarrow> int io" where
  "createSocket k cfg =
     bindIO (if cfg_ip cfg = [] then getIfaceIP k (cfg_iface cfg) else pureIO (Inr (cfg_ip cfg))) (\<lambda>ip.
     bindIO (sys k (Getaddrinfo ip (decimal_int (cfg_port cfg)) (address_hints cfg))) (\<lambda>a.
     bindIO (assertIO (ret a = 0) ''getaddrinfo() failed'') (\<lambda>_.
       setup_addresses k cfg (addrs a) (-1))))"

section \<open>Sockets and the server\<close>

definition tcp_connect :: "kernel \<Rightarrow> string \<Rightarrow> string \<Rightarrow> int \<Rightarrow> bool \<Rightarrow> int io" where
  "tcp_connect k ip iface port isListening = createSocket k \<lparr>cfg_ip = ip, cfg_iface = iface, cfg_port = port,
     cfg_isUdp = False, cfg_isListening = isListening, cfg_needsSoTimestamp = True\<rparr>"

definition mcast_init :: "kernel \<Rightarrow> string \<Rightarrow> string \<Rightarrow> int \<Rightarrow> bool \<Rightarrow> int io" where
  "mcast_init k ip iface port is_listening = createSocket k \<lparr>cfg_ip = ip, cfg_iface = iface, cfg_port = port,
     cfg_isUdp = True, cfg_isListening = is_listening, cfg_needsSoTimestamp = False\<rparr>"

text \<open>\<open>McastSocket::leave\<close> closes the descriptor and sets it to -1.\<close>

definition mcast_leave :: "kernel \<Rightarrow> int \<Rightarrow> int io" where
  "mcast_leave k fd = bindIO (sys k (Close_Call fd)) (\<lambda>_. pureIO (Inr (-1)))"

text \<open>The server: a socket is known by the number of its \<open>TCPSocket\<close> object, objects are created in
  order.\<close>

record TCPServer =
  epoll_fd :: int
  listener_fd :: int
  srv_sockets :: "nat list"
  socket_fd :: "nat \<Rightarrow> int"
  next_object :: nat

definition new_TCPServer :: TCPServer where
  "new_TCPServer = \<lparr>epoll_fd = -1, listener_fd = -1, srv_sockets = [], socket_fd = (\<lambda>_. -1), next_object = 0\<rparr>"

definition addToEpollList :: "kernel \<Rightarrow> int \<Rightarrow> int \<Rightarrow> bool io" where
  "addToEpollList k epoll fd = bindIO (sys k (Epoll_Add epoll fd (EPOLLET OR EPOLLIN))) (\<lambda>a. pureIO (Inr (ret a = 0)))"

definition server_listen :: "kernel \<Rightarrow> string \<Rightarrow> int \<Rightarrow> TCPServer \<Rightarrow> TCPServer io" where
  "server_listen k iface port s =
     bindIO (sys k (Epoll_Create 1)) (\<lambda>e.
     bindIO (assertIO (0 \<le> ret e) ''epoll_create() failed'') (\<lambda>_.
     bindIO (tcp_connect k [] iface port True) (\<lambda>fd.
     bindIO (assertIO (0 \<le> fd) (''Listener socket failed to connect. iface:'' @ iface @ '' port:'' @ decimal_int port)) (\<lambda>_.
     bindIO (addToEpollList k (ret e) fd) (\<lambda>ok.
     bindIO (assertIO ok ''epoll_ctl() failed.'') (\<lambda>_.
       pureIO (Inr (s\<lparr>epoll_fd := ret e, listener_fd := fd\<rparr>))))))))"

definition add_connection :: "int \<Rightarrow> TCPServer \<Rightarrow> TCPServer" where
  "add_connection fd s = (let p = next_object s in
     s\<lparr>next_object := p + 1, socket_fd := (socket_fd s)(p := fd),
       srv_sockets := (if p \<in> set (srv_sockets s) then srv_sockets s else srv_sockets s @ [p])\<rparr>)"

definition prepare_connection :: "kernel \<Rightarrow> int \<Rightarrow> unit io" where
  "prepare_connection k fd = bindIO (setNonBlocking k fd) (\<lambda>ok.
     bindIO (if ok then disableNagle k fd else pureIO (Inr False)) (\<lambda>ok.
       assertIO ok (''setNonBlocking() or disableNagle() failed on socket:'' @ decimal_int fd)))"

text \<open>The loop that accepts connections ends only when \<open>accept\<close> fails.\<close>

partial_function (option) accept_loop :: "kernel \<Rightarrow> TCPServer \<Rightarrow> trace \<Rightarrow> (TCPServer result \<times> trace) option" where
  "accept_loop k s t = (let c = Accept_Call (listener_fd s); a = k t c; t1 = t @ [(c, a)] in
     if ret a < 0 then Some (Inr s, t1)
     else case prepare_connection k (ret a) t1 of
         (Inl e, t2) \<Rightarrow> Some (Inl e, t2)
       | (Inr _, t2) \<Rightarrow> accept_loop k (add_connection (ret a) s) t2)"

definition tcp_poll :: "kernel \<Rightarrow> TCPServer \<Rightarrow> trace \<Rightarrow> (TCPServer result \<times> trace) option" where
  "tcp_poll k s t = (let c = Epoll_Wait (epoll_fd s) 1; a = k t c; t1 = t @ [(c, a)] in
     if \<exists>ev \<in> set (take (nat (ret a)) (events a)). ev AND EPOLLIN \<noteq> 0 then accept_loop k s t1 else Some (Inr s, t1))"

section \<open>Lemmas on runs\<close>

lemma bindIO_eq_Inr: "bindIO m f t = (Inr y, t') \<longleftrightarrow> (\<exists>x t1. m t = (Inr x, t1) \<and> f x t1 = (Inr y, t'))"
  by (auto simp: bindIO_def split: prod.splits sum.splits)

lemma bindIO_InrE:
  assumes "bindIO m f t = (Inr y, t')"
  obtains x t1 where "m t = (Inr x, t1)" "f x t1 = (Inr y, t')"
  using assms by (auto simp: bindIO_eq_Inr)

lemma pureIO_eq [simp]: "pureIO r t = (r', t') \<longleftrightarrow> r = r' \<and> t = t'"
  by (auto simp: pureIO_def)

lemma assertIO_Inr [simp]: "assertIO b msg t = (Inr u, t') \<longleftrightarrow> b \<and> t' = t"
  by (auto simp: assertIO_def ASSERT_eq_Inr)

lemma sys_eq [simp]: "sys k c t = (Inr a, t') \<longleftrightarrow> a = k t c \<and> t' = t @ [(c, a)]"
  by (auto simp: sys_def)

section \<open>What a created socket has been through\<close>

text \<open>The calls that set up one address, in order: \<open>flags\<close> are the flags the descriptor had, \<open>pending\<close>
  says that the connection was completed by waiting.\<close>

definition nonblock_script :: "int \<Rightarrow> u32 \<Rightarrow> syscall list" where
  "nonblock_script fd flags = Fcntl_Getfl fd # (if flags AND O_NONBLOCK \<noteq> 0 then [] else [Fcntl_Setfl fd (flags OR O_NONBLOCK)])"

definition connect_script :: "int \<Rightarrow> addrinfo \<Rightarrow> bool \<Rightarrow> syscall list" where
  "connect_script fd rp pending = Connect_Call fd (ai_addr rp) # (if pending then [Poll_Writable fd 5000, Getsockopt_Error fd] else [])"

definition bind_script :: "SocketCfg \<Rightarrow> int \<Rightarrow> addrinfo \<Rightarrow> syscall list" where
  "bind_script cfg fd rp = [Setsockopt fd So_Reuseaddr,
     Bind_Call fd (if cfg_isUdp cfg then Any_Address (word_of_int (cfg_port cfg)) else Resolved (ai_addr rp))]"

definition setup_script :: "SocketCfg \<Rightarrow> addrinfo \<Rightarrow> int \<Rightarrow> u32 \<Rightarrow> bool \<Rightarrow> syscall list" where
  "setup_script cfg rp fd flags pending =
     Socket_Call (ai_family rp) (ai_socktype rp) (ai_protocol rp) # nonblock_script fd flags @
     (if cfg_isUdp cfg then [] else [Setsockopt fd Tcp_Nodelay]) @
     (if cfg_isListening cfg then bind_script cfg fd rp else connect_script fd rp pending) @
     (if \<not> cfg_isUdp cfg \<and> cfg_isListening cfg then [Listen_Call fd MaxTCPServerBacklog] else []) @
     (if cfg_needsSoTimestamp cfg then [Setsockopt fd So_Timestamp] else [])"

text \<open>When a call that matters for the set-up did what was asked.\<close>

definition succeeded :: "syscall \<Rightarrow> answer \<Rightarrow> bool" where
  "succeeded c a = (case c of
       Getifaddrs \<Rightarrow> True
     | Getaddrinfo ip port h \<Rightarrow> ret a = 0
     | Fcntl_Getfl fd \<Rightarrow> True
     | Setsockopt fd So_Reuseaddr \<Rightarrow> ret a = 0
     | Poll_Writable fd ms \<Rightarrow> 0 < ret a
     | Getsockopt_Error fd \<Rightarrow> ret a = 0 \<and> so_error a = 0
     | Bind_Call fd ad \<Rightarrow> ret a = 0
     | Listen_Call fd n \<Rightarrow> ret a = 0
     | _ \<Rightarrow> ret a \<noteq> -1)"

text \<open>A run extends the trace by calls that follow a script; \<open>P\<close> holds of each call and its answer.\<close>

definition runs :: "trace \<Rightarrow> trace \<Rightarrow> syscall list \<Rightarrow> (syscall \<Rightarrow> answer \<Rightarrow> bool) \<Rightarrow> bool" where
  "runs t t' script P \<longleftrightarrow> (\<exists>cs. t' = t @ cs \<and> map fst cs = script \<and> (\<forall>(c, a) \<in> set cs. P c a))"

lemma runs_Nil: "runs t t [] P"
  by (simp add: runs_def)

lemma runs_one: "P c a \<Longrightarrow> runs t (t @ [(c, a)]) [c] P"
  by (simp add: runs_def)

lemma runs_append: "runs t t1 as P \<Longrightarrow> runs t1 t2 bs P \<Longrightarrow> runs t t2 (as @ bs) P"
  unfolding runs_def by (elim exE conjE) (rule_tac x = "cs @ csa" in exI, auto)

lemma runs_mono: "runs t t' as P \<Longrightarrow> (\<And>c a. c \<in> set as \<Longrightarrow> P c a \<Longrightarrow> Q c a) \<Longrightarrow> runs t t' as Q"
  unfolding runs_def by (elim exE conjE) (rule_tac x = cs in exI, force)

lemma setNonBlocking_runs:
  assumes "setNonBlocking k fd t = (Inr True, t')"
  shows "\<exists>flags. (\<exists>a. flags = word_of_int (ret a) \<and> a = k t (Fcntl_Getfl fd)) \<and> runs t t' (nonblock_script fd flags) succeeded"
proof -
  define a where "a = k t (Fcntl_Getfl fd)"
  define flags :: u32 where "flags = word_of_int (ret a)"
  have "runs t t' (nonblock_script fd flags) succeeded"
  proof (cases "flags AND O_NONBLOCK = 0")
    case True
    then have "t' = (t @ [(Fcntl_Getfl fd, a)]) @ [(Fcntl_Setfl fd (flags OR O_NONBLOCK), k (t @ [(Fcntl_Getfl fd, a)]) (Fcntl_Setfl fd (flags OR O_NONBLOCK)))] \<and>
        ret (k (t @ [(Fcntl_Getfl fd, a)]) (Fcntl_Setfl fd (flags OR O_NONBLOCK))) \<noteq> -1"
      using assms by (auto simp: setNonBlocking_def bindIO_eq_Inr Let_def a_def flags_def)
    then show ?thesis using True by (auto simp: runs_def nonblock_script_def succeeded_def)
  next
    case False
    then have "t' = t @ [(Fcntl_Getfl fd, a)]"
      using assms by (auto simp: setNonBlocking_def bindIO_eq_Inr Let_def a_def flags_def)
    then show ?thesis using False by (auto simp: runs_def nonblock_script_def succeeded_def)
  qed
  then show ?thesis by (auto simp: a_def flags_def)
qed

lemma option_runs:
  assumes "bindIO (bindIO (sys k (Setsockopt fd opt)) (\<lambda>a. pureIO (Inr (ret a \<noteq> -1)))) (\<lambda>ok. assertIO ok msg) t = (Inr u, t')" and "opt \<noteq> So_Reuseaddr"
  shows "runs t t' [Setsockopt fd opt] succeeded"
  using assms by (cases opt) (auto simp: bindIO_eq_Inr runs_def succeeded_def)

text \<open>A connection that is still in progress is the one call that need not succeed at once.\<close>

definition in_progress :: "bool \<Rightarrow> syscall \<Rightarrow> answer \<Rightarrow> bool" where
  "in_progress pending c a \<longleftrightarrow> succeeded c a \<or> pending \<and> (\<exists>fd ad. c = Connect_Call fd ad) \<and> errno a = EINPROGRESS"

lemma connect_runs:
  assumes "connect_socket k cfg fd rp t = (Inr u, t')"
  shows "\<exists>pending. (pending \<longrightarrow> \<not> cfg_isUdp cfg) \<and> runs t t' (connect_script fd rp pending) (in_progress pending)"
proof -
  define a where "a = k t (Connect_Call fd (ai_addr rp))"
  define pending where "pending \<longleftrightarrow> ret a = -1 \<and> \<not> cfg_isUdp cfg \<and> errno a = EINPROGRESS"
  let ?t1 = "t @ [(Connect_Call fd (ai_addr rp), a)]"
  have "runs t t' (connect_script fd rp pending) (in_progress pending)"
  proof (cases pending)
    case True
    let ?p = "k ?t1 (Poll_Writable fd 5000)" let ?t2 = "?t1 @ [(Poll_Writable fd 5000, ?p)]" let ?g = "k ?t2 (Getsockopt_Error fd)"
    have "0 < ret ?p \<and> ret ?g = 0 \<and> so_error ?g = 0 \<and> t' = ?t2 @ [(Getsockopt_Error fd, ?g)]"
      using assms True by (auto simp: connect_socket_def bindIO_eq_Inr pending_def a_def split: if_splits)
    then show ?thesis using True by (auto simp: runs_def connect_script_def in_progress_def succeeded_def pending_def)
  next
    case False
    then have "ret a \<noteq> -1 \<and> t' = ?t1"
      using assms by (auto simp: connect_socket_def bindIO_eq_Inr pending_def a_def split: if_splits)
    then show ?thesis using False by (auto simp: runs_def connect_script_def in_progress_def succeeded_def)
  qed
  moreover have "pending \<longrightarrow> \<not> cfg_isUdp cfg" by (simp add: pending_def)
  ultimately show ?thesis by blast
qed

lemma bind_runs:
  assumes "bind_socket k cfg fd rp t = (Inr u, t')"
  shows "runs t t' (bind_script cfg fd rp) succeeded"
  using assms by (auto simp: bind_socket_def bindIO_eq_Inr runs_def bind_script_def succeeded_def)

lemma listen_runs:
  assumes "bindIO (sys k (Listen_Call fd n)) (\<lambda>a. assertIO (ret a = 0) msg) t = (Inr u, t')"
  shows "runs t t' [Listen_Call fd n] succeeded"
  using assms by (auto simp: bindIO_eq_Inr runs_def succeeded_def)

lemma weaker: "runs t t' as succeeded \<Longrightarrow> runs t t' as (in_progress pending)"
  by (erule runs_mono) (simp add: in_progress_def)

lemma setup_descriptor_runs:
  assumes "setup_descriptor k cfg rp fd t = (Inr fd', t')"
  shows "fd' = fd \<and> fd \<noteq> -1 \<and> (\<exists>flags pending.
    runs t t' (tl (setup_script cfg rp fd flags pending)) (in_progress pending) \<and>
    (\<exists>a. (Fcntl_Getfl fd, a) \<in> set t' \<and> flags = word_of_int (ret a)))"
proof -
  have same: "fd' = fd" using assms unfolding setup_descriptor_def by (elim bindIO_InrE) simp
  obtain t2 t3 t4 t5 t6 u2 u3 u4 u5 u6 where fd: "fd \<noteq> -1"
    and nb: "setNonBlocking k fd t = (Inr True, t2)"
    and nagle: "(if cfg_isUdp cfg then pureIO (Inr ()) else bindIO (disableNagle k fd) (\<lambda>ok. assertIO ok ''disableNagle() failed.'')) t2 = (Inr u2, t3)"
    and conn: "(if cfg_isListening cfg then pureIO (Inr ()) else connect_socket k cfg fd rp) t3 = (Inr u3, t4)"
    and bnd: "(if cfg_isListening cfg then bind_socket k cfg fd rp else pureIO (Inr ())) t4 = (Inr u4, t5)"
    and lst: "(if \<not> cfg_isUdp cfg \<and> cfg_isListening cfg
             then bindIO (sys k (Listen_Call fd MaxTCPServerBacklog)) (\<lambda>a. assertIO (ret a = 0) ''listen() failed.'')
             else pureIO (Inr ())) t5 = (Inr u5, t6)"
    and ts: "(if cfg_needsSoTimestamp cfg then bindIO (setSOTimestamp k fd) (\<lambda>ok. assertIO ok ''setSOTimestamp() failed.'')
             else pureIO (Inr ())) t6 = (Inr u6, t')"
    using assms unfolding setup_descriptor_def same
    by (elim bindIO_InrE) (simp only: assertIO_Inr pureIO_eq sum.inject simp_thms)
  obtain flags where fl: "flags = word_of_int (ret (k t (Fcntl_Getfl fd)))" "runs t t2 (nonblock_script fd flags) succeeded"
    using setNonBlocking_runs [OF nb] by blast
  have mem: "(Fcntl_Getfl fd, k t (Fcntl_Getfl fd)) \<in> set t2"
    using nb by (auto simp: setNonBlocking_def bindIO_eq_Inr Let_def split: if_splits)
  have r1: "runs t2 t3 (if cfg_isUdp cfg then [] else [Setsockopt fd Tcp_Nodelay]) succeeded"
    using nagle option_runs [of k fd Tcp_Nodelay] by (auto simp: disableNagle_def runs_Nil split: if_splits)
  have r4: "runs t5 t6 (if \<not> cfg_isUdp cfg \<and> cfg_isListening cfg then [Listen_Call fd MaxTCPServerBacklog] else []) succeeded"
    using lst listen_runs by (auto simp: runs_Nil split: if_splits)
  have r5: "runs t6 t' (if cfg_needsSoTimestamp cfg then [Setsockopt fd So_Timestamp] else []) succeeded"
    using ts option_runs [of k fd So_Timestamp] by (auto simp: setSOTimestamp_def runs_Nil split: if_splits)
  obtain pending where r23: "runs t3 t5 (if cfg_isListening cfg then bind_script cfg fd rp else connect_script fd rp pending) (in_progress pending)"
  proof (cases "cfg_isListening cfg")
    case True
    then show ?thesis using that conn bnd bind_runs weaker by auto
  next
    case False
    then show ?thesis using that conn bnd connect_runs [of k cfg fd rp t3 u3 t4] by auto
  qed
  have "runs t t' (tl (setup_script cfg rp fd flags pending)) (in_progress pending)"
    using runs_append [OF weaker [OF fl(2)] runs_append [OF weaker [OF r1] runs_append [OF r23 runs_append [OF weaker [OF r4] weaker [OF r5]]]]]
    by (simp add: setup_script_def)
  moreover have "set t2 \<subseteq> set t'" using r1 r23 r4 r5 by (auto simp: runs_def)
  ultimately show ?thesis using same fd fl(1) mem by blast
qed

lemma setup_address_runs:
  assumes "setup_address k cfg rp t = (Inr fd, t')"
  shows "fd = ret (k t (Socket_Call (ai_family rp) (ai_socktype rp) (ai_protocol rp))) \<and> fd \<noteq> -1 \<and>
    (\<exists>flags pending. runs t t' (setup_script cfg rp fd flags pending) (in_progress pending) \<and>
      (\<exists>a. (Fcntl_Getfl fd, a) \<in> set t' \<and> flags = word_of_int (ret a)))"
proof -
  let ?c = "Socket_Call (ai_family rp) (ai_socktype rp) (ai_protocol rp)"
  have "setup_descriptor k cfg rp (ret (k t ?c)) (t @ [(?c, k t ?c)]) = (Inr fd, t')"
    using assms unfolding setup_address_def by (elim bindIO_InrE) simp
  from setup_descriptor_runs [OF this] obtain flags pending where fd: "fd = ret (k t ?c)" "fd \<noteq> -1"
    and r: "runs (t @ [(?c, k t ?c)]) t' (tl (setup_script cfg rp fd flags pending)) (in_progress pending)"
    and fl: "\<exists>a. (Fcntl_Getfl fd, a) \<in> set t' \<and> flags = word_of_int (ret a)" by blast
  have "in_progress pending ?c (k t ?c)" using fd by (simp add: in_progress_def succeeded_def)
  from runs_append [OF runs_one [of "in_progress pending", OF this] r] have "runs t t' (setup_script cfg rp fd flags pending) (in_progress pending)"
    by (simp add: setup_script_def)
  then show ?thesis using fd fl by blast
qed

text \<open>The resolution before the loop over the addresses.\<close>

definition resolved_ip :: "kernel \<Rightarrow> SocketCfg \<Rightarrow> trace \<Rightarrow> string" where
  "resolved_ip k cfg t = (if cfg_ip cfg \<noteq> [] then cfg_ip cfg
     else let a = k t Getifaddrs in if ret a \<noteq> -1 then first_ipv4 (cfg_iface cfg) (ifaddrs a) else [])"

definition resolve_script :: "kernel \<Rightarrow> SocketCfg \<Rightarrow> trace \<Rightarrow> syscall list" where
  "resolve_script k cfg t = (if cfg_ip cfg = [] then [Getifaddrs] else []) @
     [Getaddrinfo (resolved_ip k cfg t) (decimal_int (cfg_port cfg)) (address_hints cfg)]"

text \<open>The answer of the resolution.\<close>

definition resolution :: "kernel \<Rightarrow> SocketCfg \<Rightarrow> trace \<Rightarrow> answer" where
  "resolution k cfg t = k (if cfg_ip cfg = [] then t @ [(Getifaddrs, k t Getifaddrs)] else t)
     (Getaddrinfo (resolved_ip k cfg t) (decimal_int (cfg_port cfg)) (address_hints cfg))"

lemma createSocket_resolves:
  assumes "createSocket k cfg t = (Inr fd, t')"
  obtains t1 where "runs t t1 (resolve_script k cfg t) succeeded" "setup_addresses k cfg (addrs (resolution k cfg t)) (-1) t1 = (Inr fd, t')"
proof -
  let ?c = "Getaddrinfo (resolved_ip k cfg t) (decimal_int (cfg_port cfg)) (address_hints cfg)"
  define t0 where "t0 = (if cfg_ip cfg = [] then t @ [(Getifaddrs, k t Getifaddrs)] else t)"
  have ip: "(if cfg_ip cfg = [] then getIfaceIP k (cfg_iface cfg) else pureIO (Inr (cfg_ip cfg))) t = (Inr (resolved_ip k cfg t), t0)"
    by (simp add: getIfaceIP_def bindIO_def sys_def pureIO_def resolved_ip_def t0_def Let_def)
  have run: "ret (k t0 ?c) = 0 \<and> setup_addresses k cfg (addrs (k t0 ?c)) (-1) (t0 @ [(?c, k t0 ?c)]) = (Inr fd, t')"
    using assms unfolding createSocket_def by (elim bindIO_InrE) (simp add: ip)
  have "runs t t0 (if cfg_ip cfg = [] then [Getifaddrs] else []) succeeded"
    by (auto simp: t0_def runs_Nil intro!: runs_one simp: succeeded_def)
  moreover have "runs t0 (t0 @ [(?c, k t0 ?c)]) [?c] succeeded" using run by (auto intro!: runs_one simp: succeeded_def)
  ultimately have "runs t (t0 @ [(?c, k t0 ?c)]) (resolve_script k cfg t) succeeded"
    unfolding resolve_script_def by (rule runs_append)
  moreover have "resolution k cfg t = k t0 ?c" by (simp add: resolution_def t0_def)
  ultimately show ?thesis using that run by metis
qed

text \<open>All calls of \<open>createSocket\<close> when the address resolves to one entry.\<close>

lemma createSocket_script:
  assumes "createSocket k cfg t = (Inr fd, t')" and "addrs (resolution k cfg t) = [rp]"
  shows "fd \<noteq> -1 \<and> (\<exists>flags pending.
    runs t t' (resolve_script k cfg t @ setup_script cfg rp fd flags pending) (in_progress pending) \<and>
    (\<exists>a. (Fcntl_Getfl fd, a) \<in> set t' \<and> flags = word_of_int (ret a)))"
proof -
  obtain t1 where r: "runs t t1 (resolve_script k cfg t) succeeded" and s: "setup_addresses k cfg (addrs (resolution k cfg t)) (-1) t1 = (Inr fd, t')"
    using createSocket_resolves [OF assms(1)] by blast
  have "setup_address k cfg rp t1 = (Inr fd, t')" using s assms(2) by (auto simp: bindIO_eq_Inr)
  from setup_address_runs [OF this] obtain flags pending where f: "fd \<noteq> -1"
    "runs t1 t' (setup_script cfg rp fd flags pending) (in_progress pending)" "\<exists>a. (Fcntl_Getfl fd, a) \<in> set t' \<and> flags = word_of_int (ret a)"
    by blast
  then show ?thesis using runs_append [OF weaker [OF r] f(2)] by blast
qed

section \<open>Sockets that stay open\<close>

text \<open>The descriptors a series of calls opened.\<close>

definition is_socket_call :: "syscall \<Rightarrow> bool" where
  "is_socket_call c = (case c of Socket_Call f ty p \<Rightarrow> True | _ \<Rightarrow> False)"

definition is_close_call :: "syscall \<Rightarrow> bool" where
  "is_close_call c = (case c of Close_Call fd \<Rightarrow> True | _ \<Rightarrow> False)"

definition opened :: "trace \<Rightarrow> int list" where
  "opened cs = map (\<lambda>(c, a). ret a) (filter (\<lambda>(c, a). is_socket_call c) cs)"

lemma opened_append: "opened (cs @ ds) = opened cs @ opened ds"
  by (simp add: opened_def)

lemma script_calls: "c \<in> set (tl (setup_script cfg rp fd flags pending)) \<Longrightarrow> \<not> is_socket_call c \<and> \<not> is_close_call c"
  by (auto simp: setup_script_def nonblock_script_def connect_script_def bind_script_def is_socket_call_def is_close_call_def
      split: if_splits)

lemma resolve_calls: "c \<in> set (resolve_script k cfg t) \<Longrightarrow> \<not> is_socket_call c \<and> \<not> is_close_call c"
  by (auto simp: resolve_script_def is_socket_call_def is_close_call_def split: if_splits)

lemma runs_no_socket:
  assumes "runs t t' script P" and "\<And>c. c \<in> set script \<Longrightarrow> \<not> is_socket_call c \<and> \<not> is_close_call c"
  shows "\<exists>cs. t' = t @ cs \<and> opened cs = [] \<and> (\<forall>c \<in> fst ` set cs. \<not> is_close_call c)"
proof -
  obtain cs where cs: "t' = t @ cs" "map fst cs = script" using assms(1) by (auto simp: runs_def)
  have "\<not> is_socket_call c \<and> \<not> is_close_call c" if "c \<in> fst ` set cs" for c using assms(2) that cs(2) by (metis set_map)
  then have "opened cs = []" "\<forall>c \<in> fst ` set cs. \<not> is_close_call c" by (force simp: opened_def filter_empty_conv)+
  then show ?thesis using cs(1) by blast
qed

lemma setup_address_opens:
  assumes "setup_address k cfg rp t = (Inr fd, t')"
  shows "\<exists>cs. t' = t @ cs \<and> opened cs = [fd] \<and> (\<forall>c \<in> fst ` set cs. \<not> is_close_call c)"
proof -
  let ?c = "Socket_Call (ai_family rp) (ai_socktype rp) (ai_protocol rp)"
  have "setup_descriptor k cfg rp (ret (k t ?c)) (t @ [(?c, k t ?c)]) = (Inr fd, t')"
    using assms unfolding setup_address_def by (elim bindIO_InrE) simp
  from setup_descriptor_runs [OF this] obtain flags pending where fd: "fd = ret (k t ?c)"
    and r: "runs (t @ [(?c, k t ?c)]) t' (tl (setup_script cfg rp (ret (k t ?c)) flags pending)) (in_progress pending)" by blast
  have "\<exists>cs. t' = (t @ [(?c, k t ?c)]) @ cs \<and> opened cs = [] \<and> (\<forall>c \<in> fst ` set cs. \<not> is_close_call c)"
    by (rule runs_no_socket [OF r]) (rule script_calls)
  then obtain cs where "t' = (t @ [(?c, k t ?c)]) @ cs" "opened cs = []" "\<forall>c \<in> fst ` set cs. \<not> is_close_call c" by blast
  then show ?thesis
    by (intro exI [of _ "(?c, k t ?c) # cs"]) (simp add: fd opened_def is_socket_call_def is_close_call_def)
qed

lemma setup_addresses_open:
  "setup_addresses k cfg rps fd0 t = (Inr fd, t') \<Longrightarrow>
   \<exists>cs. t' = t @ cs \<and> length (opened cs) = length rps \<and> fd = last (fd0 # opened cs) \<and> (\<forall>c \<in> fst ` set cs. \<not> is_close_call c)"
proof (induction rps arbitrary: fd0 t)
  case Nil
  then show ?case by (simp add: opened_def)
next
  case (Cons rp rps)
  then obtain fd1 t1 where 1: "setup_address k cfg rp t = (Inr fd1, t1)" "setup_addresses k cfg rps fd1 t1 = (Inr fd, t')"
    by (auto simp: bindIO_eq_Inr)
  obtain cs where cs: "t1 = t @ cs" "opened cs = [fd1]" "\<forall>c \<in> fst ` set cs. \<not> is_close_call c"
    using setup_address_opens [OF 1(1)] by blast
  obtain ds where ds: "t' = t1 @ ds" "length (opened ds) = length rps" "fd = last (fd1 # opened ds)" "\<forall>c \<in> fst ` set ds. \<not> is_close_call c"
    using Cons.IH [OF 1(2)] by blast
  show ?case using cs ds by (intro exI [of _ "cs @ ds"]) (auto simp: opened_append)
qed

section \<open>Accepting connections\<close>

definition is_accept :: "int \<Rightarrow> syscall \<times> answer \<Rightarrow> bool" where
  "is_accept l x \<longleftrightarrow> fst x = Accept_Call l \<and> 0 \<le> ret (snd x)"

text \<open>The descriptors accepted so far.\<close>

definition accepted_fds :: "int \<Rightarrow> trace \<Rightarrow> int list" where
  "accepted_fds l t = map (\<lambda>x. ret (snd x)) (filter (is_accept l) t)"

lemma accepted_fds_simps [simp]:
  "accepted_fds l [] = []" "accepted_fds l (t @ u) = accepted_fds l t @ accepted_fds l u"
  "accepted_fds l (x # t) = (if is_accept l x then [ret (snd x)] else []) @ accepted_fds l t"
  by (simp_all add: accepted_fds_def)

text \<open>When a new connection was made ready: no Nagle delay, and not blocking unless its flags could not be read.\<close>

definition connection_ready :: "trace \<Rightarrow> int \<Rightarrow> bool" where
  "connection_ready t fd \<longleftrightarrow> (\<exists>a. (Setsockopt fd Tcp_Nodelay, a) \<in> set t \<and> ret a \<noteq> -1) \<and>
     (\<exists>a. (Fcntl_Getfl fd, a) \<in> set t \<and> (word_of_int (ret a) AND O_NONBLOCK \<noteq> 0 \<or>
        (\<exists>b. (Fcntl_Setfl fd (word_of_int (ret a) OR O_NONBLOCK), b) \<in> set t \<and> ret b \<noteq> -1)))"

lemma prepare_trace:
  assumes "prepare_connection k fd t = (r, t')"
  shows "\<exists>cs. t' = t @ cs \<and> accepted_fds l cs = [] \<and> (r = Inr () \<longrightarrow> connection_ready cs fd)"
proof -
  define a where "a = k t (Fcntl_Getfl fd)"
  define t1 where "t1 = t @ [(Fcntl_Getfl fd, a)]"
  define c where "c = Fcntl_Setfl fd (word_of_int (ret a) OR O_NONBLOCK)"
  define t2 where "t2 = (if word_of_int (ret a) AND O_NONBLOCK \<noteq> 0 then t1 else t1 @ [(c, k t1 c)])"
  define n where "n = k t2 (Setsockopt fd Tcp_Nodelay)"
  let ?ok = "word_of_int (ret a) AND O_NONBLOCK \<noteq> 0 \<or> ret (k t1 c) \<noteq> -1"
  have nb: "setNonBlocking k fd t = (Inr ?ok, t2)"
    by (simp add: setNonBlocking_def bindIO_def sys_def pureIO_def Let_def a_def t1_def t2_def c_def)
  show ?thesis
  proof (cases ?ok)
    case False
    then have "prepare_connection k fd t = (Inl (Assert_Fail (''setNonBlocking() or disableNagle() failed on socket:'' @ decimal_int fd)), t2)"
      by (simp add: prepare_connection_def bindIO_def [of "setNonBlocking k fd"] nb) (simp add: bindIO_def pureIO_def assertIO_def)
    then show ?thesis using assms by (auto simp: t2_def t1_def is_accept_def c_def)
  next
    case True
    then have run: "prepare_connection k fd t = (ASSERT (ret n \<noteq> -1) (''setNonBlocking() or disableNagle() failed on socket:'' @ decimal_int fd),
        t2 @ [(Setsockopt fd Tcp_Nodelay, n)])"
      by (simp add: prepare_connection_def bindIO_def [of "setNonBlocking k fd"] nb)
        (simp add: bindIO_def pureIO_def assertIO_def disableNagle_def sys_def n_def)
    define cs where "cs = (Fcntl_Getfl fd, a) # (if word_of_int (ret a) AND O_NONBLOCK \<noteq> 0 then [] else [(c, k t1 c)])"
    have cs: "t2 = t @ cs" "accepted_fds l cs = []" by (simp_all add: cs_def t2_def t1_def is_accept_def c_def)
    have "connection_ready (cs @ [(Setsockopt fd Tcp_Nodelay, n)]) fd" if "ret n \<noteq> -1"
      using that True by (auto simp: connection_ready_def c_def cs_def)
    then show ?thesis using assms cs(1,2) by (intro exI [of _ "cs @ [(Setsockopt fd Tcp_Nodelay, n)]"]) (auto simp: run is_accept_def ASSERT_eq_Inr)
  qed
qed

lemma connection_ready_mono: "connection_ready t fd \<Longrightarrow> set t \<subseteq> set u \<Longrightarrow> connection_ready u fd"
  unfolding connection_ready_def by blast

text \<open>No more than \<open>N\<close> connections come before \<open>accept\<close> fails.\<close>

definition accept_stops :: "kernel \<Rightarrow> int \<Rightarrow> nat \<Rightarrow> bool" where
  "accept_stops k l N \<longleftrightarrow> (\<forall>t. N \<le> length (accepted_fds l t) \<longrightarrow> ret (k t (Accept_Call l)) < 0)"

text \<open>The loop takes connections until \<open>accept\<close> fails, which it does after at most \<open>N\<close> of them.\<close>

lemma accept_loop_returns:
  assumes limit: "accept_stops k l N" and l: "listener_fd s = l"
  shows "\<exists>r t' cs. accept_loop k s t = Some (r, t') \<and> t' = t @ cs \<and>
    (\<forall>s'. r = Inr s' \<longrightarrow> s' = fold add_connection (accepted_fds l cs) s \<and> (\<forall>fd \<in> set (accepted_fds l cs). connection_ready cs fd) \<and>
      (\<exists>us a. cs = us @ [(Accept_Call l, a)] \<and> ret a < 0))"
  using l
proof (induction "N - length (accepted_fds l t)" arbitrary: s t rule: less_induct)
  case less
  let ?c = "Accept_Call (listener_fd s)" let ?a = "k t ?c" let ?t1 = "t @ [(?c, ?a)]"
  show ?case
  proof (cases "ret ?a < 0")
    case True
    then have "accept_loop k s t = Some (Inr s, ?t1)" by (subst accept_loop.simps) (simp add: Let_def)
    then show ?thesis using True less.prems by (auto simp: is_accept_def)
  next
    case False
    then have acc: "accepted_fds l ?t1 = accepted_fds l t @ [ret ?a]" by (simp add: is_accept_def less.prems)
    obtain r t2 where p: "prepare_connection k (ret ?a) ?t1 = (r, t2)" by fastforce
    from prepare_trace [OF p, of l] obtain cs where cs: "t2 = ?t1 @ cs" "accepted_fds l cs = []" "r = Inr () \<longrightarrow> connection_ready cs (ret ?a)" by blast
    show ?thesis
    proof (cases r)
      case (Inl e)
      then have "accept_loop k s t = Some (Inl e, t2)" using False p by (subst accept_loop.simps) (simp add: Let_def)
      then show ?thesis using cs(1) by auto
    next
      case (Inr u)
      then have step: "accept_loop k s t = accept_loop k (add_connection (ret ?a) s) t2" using False p by (subst accept_loop.simps) (simp add: Let_def)
      have "length (accepted_fds l t) < N" using limit False less.prems unfolding accept_stops_def by force
      then have m: "N - length (accepted_fds l t2) < N - length (accepted_fds l t)" using acc cs(1,2) by simp
      have lf: "listener_fd (add_connection (ret ?a) s) = l" using less.prems by (simp add: add_connection_def Let_def)
      obtain q t' ds where q: "accept_loop k (add_connection (ret ?a) s) t2 = Some (q, t')" "t' = t2 @ ds"
        "\<forall>s'. q = Inr s' \<longrightarrow> s' = fold add_connection (accepted_fds l ds) (add_connection (ret ?a) s) \<and>
          (\<forall>fd \<in> set (accepted_fds l ds). connection_ready ds fd) \<and> (\<exists>us a. ds = us @ [(Accept_Call l, a)] \<and> ret a < 0)"
        using less.hyps [OF m lf] by (elim exE conjE) (rule that, assumption+)
      let ?es = "(?c, ?a) # cs @ ds"
      have es: "t' = t @ ?es" "accepted_fds l ?es = ret ?a # accepted_fds l ds"
        using q(2) cs False less.prems by (simp_all add: is_accept_def)
      have "connection_ready ?es fd" if "q = Inr s'" "fd \<in> set (accepted_fds l ?es)" for s' fd
        using that es(2) q(3) cs(2,3) Inr connection_ready_mono [of ds fd ?es] connection_ready_mono [of cs fd ?es] by auto
      moreover have "\<exists>us a. ?es = us @ [(Accept_Call l, a)] \<and> ret a < 0" if "q = Inr s'" for s'
        using q(3) that by (metis append.assoc append_Cons)
      ultimately show ?thesis using step q(1,3) es by (intro exI [of _ q] exI [of _ t'] exI [of _ ?es]) auto
    qed
  qed
qed

text \<open>The connections become new objects, in the order accepted.\<close>

definition objects_fresh :: "TCPServer \<Rightarrow> bool" where
  "objects_fresh s \<longleftrightarrow> (\<forall>p \<in> set (srv_sockets s). p < next_object s)"

lemma fold_add_connection:
  "objects_fresh s \<Longrightarrow> srv_sockets (fold add_connection fds s) = srv_sockets s @ [next_object s..<next_object s + length fds] \<and>
    map (socket_fd (fold add_connection fds s)) (srv_sockets (fold add_connection fds s)) = map (socket_fd s) (srv_sockets s) @ fds \<and>
    objects_fresh (fold add_connection fds s) \<and> next_object (fold add_connection fds s) = next_object s + length fds"
proof (induction fds arbitrary: s)
  case (Cons fd fds)
  let ?s = "add_connection fd s"
  have new: "next_object s \<notin> set (srv_sockets s)" using Cons.prems by (auto simp: objects_fresh_def)
  have s: "srv_sockets ?s = srv_sockets s @ [next_object s]" "next_object ?s = next_object s + 1"
    "map (socket_fd ?s) (srv_sockets ?s) = map (socket_fd s) (srv_sockets s) @ [fd]"
    using new by (auto simp: add_connection_def Let_def)
  have "objects_fresh ?s" using Cons.prems s by (auto simp: objects_fresh_def less_Suc_eq)
  note IH = Cons.IH [OF this]
  have up: "[next_object s..<next_object s + length (fd # fds)] = next_object s # [next_object ?s..<next_object ?s + length fds]"
    by (simp add: s(2) upt_conv_Cons del: upt_Suc)
  have step: "fold add_connection (fd # fds) s = fold add_connection fds ?s" by simp
  show ?case unfolding step up
  proof (intro conjI)
    show "srv_sockets (fold add_connection fds ?s) = srv_sockets s @ next_object s # [next_object ?s..<next_object ?s + length fds]"
      using IH s(1) by simp
    have "map (socket_fd (fold add_connection fds ?s)) (srv_sockets (fold add_connection fds ?s)) = map (socket_fd ?s) (srv_sockets ?s) @ fds"
      using IH by blast
    then show "map (socket_fd (fold add_connection fds ?s)) (srv_sockets (fold add_connection fds ?s)) = map (socket_fd s) (srv_sockets s) @ fd # fds"
      by (simp only: s(3) append_assoc append_Cons append_Nil)
    show "objects_fresh (fold add_connection fds ?s)" using IH by blast
    show "next_object (fold add_connection fds ?s) = next_object s + length (fd # fds)" using IH s(2) by simp
  qed
qed simp

section \<open>Properties\<close>

text \<open>A kernel that grants every call; connections take a moment, and two clients are waiting.\<close>

definition granted :: answer where
  "granted = \<lparr>ret = 0, errno = 0, ifaddrs = [], addrs = [], so_error = 0, events = []\<rparr>"

definition example_kernel :: "addrinfo list \<Rightarrow> kernel" where
  "example_kernel rps t c = (case c of
       Getifaddrs \<Rightarrow> granted\<lparr>ifaddrs := [\<lparr>ifa_name = ''lo'', ifa_family = Some AF_INET, ifa_text = Some ''127.0.0.1''\<rparr>]\<rparr>
     | Getaddrinfo ip port h \<Rightarrow> granted\<lparr>addrs := rps\<rparr>
     | Socket_Call f ty p \<Rightarrow> granted\<lparr>ret := 7 + int (length (opened t))\<rparr>
     | Connect_Call fd a \<Rightarrow> granted\<lparr>ret := -1, errno := EINPROGRESS\<rparr>
     | Poll_Writable fd ms \<Rightarrow> granted\<lparr>ret := 1\<rparr>
     | Epoll_Create n \<Rightarrow> granted\<lparr>ret := 3\<rparr>
     | Epoll_Wait fd n \<Rightarrow> granted\<lparr>ret := 1, events := [EPOLLIN]\<rparr>
     | Accept_Call fd \<Rightarrow> (let n = length (accepted_fds fd t) in if n < 2 then granted\<lparr>ret := 20 + int n\<rparr> else granted\<lparr>ret := -1\<rparr>)
     | _ \<Rightarrow> granted)"

definition example_address :: addrinfo where
  "example_address = \<lparr>ai_family = AF_INET, ai_socktype = SOCK_STREAM, ai_protocol = IPPROTO_TCP, ai_addr = [127, 0, 0, 1]\<rparr>"

lemmas io_eval = bindIO_def sys_def pureIO_def assertIO_def createSocket_def getIfaceIP_def setup_address_def setup_descriptor_def
  setNonBlocking_def disableNagle_def setSOTimestamp_def connect_socket_def bind_socket_def tcp_connect_def Let_def



text \<open>C39: \<open>createSocket\<close> opens a socket for every entry the address resolves to, returns the last one and
  closes none, so that with several entries the others stay open with nobody to know them.\<close>

theorem sockets_of_earlier_addresses_stay_open:
  assumes "createSocket k cfg t = (Inr fd, t')" and "rps = addrs (resolution k cfg t)" and "rps \<noteq> []"
  shows "\<exists>cs. t' = t @ cs \<and> length (opened cs) = length rps \<and> fd = last (opened cs) \<and> (\<forall>c \<in> fst ` set cs. \<not> is_close_call c)"
proof -
  obtain t1 where r: "runs t t1 (resolve_script k cfg t) succeeded" and s: "setup_addresses k cfg rps (-1) t1 = (Inr fd, t')"
    using createSocket_resolves [OF assms(1)] assms(2) by blast
  obtain ds where d: "t' = t1 @ ds" "length (opened ds) = length rps" "fd = last (-1 # opened ds)"
    "\<forall>c \<in> fst ` set ds. \<not> is_close_call c" using setup_addresses_open [OF s] by blast
  moreover have "opened ds \<noteq> []" using d(2) assms(3) by auto
  ultimately have ds: "t' = t1 @ ds" "length (opened ds) = length rps" "fd = last (opened ds)" "\<forall>c \<in> fst ` set ds. \<not> is_close_call c" by simp_all
  have "\<exists>cs. t1 = t @ cs \<and> opened cs = [] \<and> (\<forall>c \<in> fst ` set cs. \<not> is_close_call c)"
    by (rule runs_no_socket [OF r]) (rule resolve_calls)
  then obtain cs where "t1 = t @ cs" "opened cs = []" "\<forall>c \<in> fst ` set cs. \<not> is_close_call c" by blast
  then show ?thesis using ds by (intro exI [of _ "cs @ ds"]) (auto simp: opened_append)
qed

theorem sockets_of_earlier_addresses_stay_open_witness:
  "\<exists>t'. createSocket (example_kernel [example_address, example_address]) \<lparr>cfg_ip = ''127.0.0.1'', cfg_iface = ''lo'', cfg_port = 12345,
      cfg_isUdp = False, cfg_isListening = True, cfg_needsSoTimestamp = True\<rparr> [] = (Inr 8, t') \<and> length (opened t') = 2"
proof -
  let ?cfg = "\<lparr>cfg_ip = ''127.0.0.1'', cfg_iface = ''lo'', cfg_port = 12345, cfg_isUdp = False, cfg_isListening = True,
    cfg_needsSoTimestamp = True\<rparr>"
  obtain t' where t': "createSocket (example_kernel [example_address, example_address]) ?cfg [] = (Inr 8, t')"
    by (simp add: io_eval example_kernel_def granted_def opened_def is_socket_call_def O_NONBLOCK_def)
  have a: "[example_address, example_address] = addrs (resolution (example_kernel [example_address, example_address]) ?cfg [])"
    by (simp add: resolution_def example_kernel_def)
  have "length (opened t') = 2" using sockets_of_earlier_addresses_stay_open [OF t' a] by simp
  then show ?thesis using t' by blast
qed

text \<open>Reading the flags of a descriptor may fail with -1, whose bits are all set: the check then finds it
  non-blocking and nothing is done.\<close>

theorem failed_getfl_goes_unnoticed:
  assumes "ret (k t (Fcntl_Getfl fd)) = -1"
  shows "setNonBlocking k fd t = (Inr True, t @ [(Fcntl_Getfl fd, k t (Fcntl_Getfl fd))])"
  using assms by (simp add: setNonBlocking_def bindIO_def sys_def pureIO_def O_NONBLOCK_def)

end
