(* ===== verification/Connections.thy ===== *)
theory Connections
  imports Socket_Setup Exchange_Order_Manager
begin

text \<open>
  The server's connections: what \<open>TCPServer::poll\<close> does to the sockets, and that this is the round of
  accepted connections the exchange's order manager is modelled with.
\<close>

text \<open>\<open>epoll_wait\<close> reports that the listening socket is readable.\<close>

definition connection_reported :: "kernel \<Rightarrow> TCPServer \<Rightarrow> trace \<Rightarrow> bool" where
  "connection_reported k s t = (let a = k t (Epoll_Wait (epoll_fd s) 1) in
     \<exists>ev \<in> set (take (nat (ret a)) (events a)). ev AND EPOLLIN \<noteq> 0)"

lemma poll_accepts:
  assumes limit: "accept_stops k (listener_fd s) N" and event: "connection_reported k s t"
  shows "\<exists>r cs. tcp_poll k s t = Some (r, t @ cs) \<and> (\<forall>s'. r = Inr s' \<longrightarrow>
    s' = fold add_connection (accepted_fds (listener_fd s) cs) s \<and> (\<forall>fd \<in> set (accepted_fds (listener_fd s) cs). connection_ready cs fd) \<and>
    (\<exists>us a. cs = us @ [(Accept_Call (listener_fd s), a)] \<and> ret a < 0))"
proof -
  let ?c = "Epoll_Wait (epoll_fd s) 1" let ?x = "(?c, k t ?c)"
  have step: "tcp_poll k s t = accept_loop k s (t @ [?x])" using event by (simp add: tcp_poll_def connection_reported_def Let_def)
  obtain r t' cs where r: "accept_loop k s (t @ [?x]) = Some (r, t')" "t' = (t @ [?x]) @ cs"
    "\<forall>s'. r = Inr s' \<longrightarrow> s' = fold add_connection (accepted_fds (listener_fd s) cs) s \<and>
      (\<forall>fd \<in> set (accepted_fds (listener_fd s) cs). connection_ready cs fd) \<and> (\<exists>us a. cs = us @ [(Accept_Call (listener_fd s), a)] \<and> ret a < 0)"
    using accept_loop_returns [OF limit refl, of "t @ [?x]"] by (elim exE conjE) (rule that, assumption+)
  have fds: "accepted_fds (listener_fd s) (?x # cs) = accepted_fds (listener_fd s) cs" by (simp add: is_accept_def)
  have run: "tcp_poll k s t = Some (r, t @ ?x # cs)" using step r(1,2) by simp
  have "s' = fold add_connection (accepted_fds (listener_fd s) (?x # cs)) s \<and>
      (\<forall>fd \<in> set (accepted_fds (listener_fd s) (?x # cs)). connection_ready (?x # cs) fd) \<and>
      (\<exists>us a. ?x # cs = us @ [(Accept_Call (listener_fd s), a)] \<and> ret a < 0)" if q: "r = Inr s'" for s'
    unfolding fds
  proof (intro conjI ballI)
    show "s' = fold add_connection (accepted_fds (listener_fd s) cs) s" using r(3) q by blast
    show "connection_ready (?x # cs) fd" if "fd \<in> set (accepted_fds (listener_fd s) cs)" for fd
      by (rule connection_ready_mono [of cs]) (use r(3) q that in auto)
    show "\<exists>us a. ?x # cs = us @ [(Accept_Call (listener_fd s), a)] \<and> ret a < 0" using r(3) q by (metis append_Cons)
  qed
  then show ?thesis using run by blast
qed

lemma server_poll_sockets:
  "distinct ps \<Longrightarrow> set ps \<inter> set (recv_sockets m) = {} \<Longrightarrow> recv_sockets (server_poll ps m) = recv_sockets m @ ps"
proof (induction ps arbitrary: m)
  case Nil
  then show ?case by (simp add: server_poll_def)
next
  case (Cons p ps)
  let ?m = "server_poll [p] m"
  have m: "recv_sockets ?m = recv_sockets m @ [p]" using Cons.prems by (simp add: server_poll_def)
  have "server_poll (p # ps) m = server_poll ps ?m" by (simp add: server_poll_def)
  then show ?case using Cons.IH [of ?m] Cons.prems m by auto
qed



end
