(* ===== verification/Start_Up.thy ===== *)
theory Start_Up
  imports Socket_Setup
begin

text \<open>
  How \<open>exchange_main.cpp\<close> and \<open>trading_main.cpp\<close> bring up the connections of the components they
  create: the sockets of the publisher and the synthesizer, the server of the order manager, the
  gateway's connection and the consumer's multicast sockets, at the addresses both programs fix.
\<close>

section \<open>Components\<close>

definition synthesizer_socket :: "kernel \<Rightarrow> string \<Rightarrow> string \<Rightarrow> int \<Rightarrow> int io" where
  "synthesizer_socket k iface snapshot_ip snapshot_port =
     bindIO (mcast_init k snapshot_ip iface snapshot_port False) (\<lambda>fd.
     bindIO (assertIO (0 \<le> fd) ''Unable to create snapshot mcast socket.'') (\<lambda>_. pureIO (Inr fd)))"

definition publisher_sockets :: "kernel \<Rightarrow> string \<Rightarrow> string \<Rightarrow> int \<Rightarrow> string \<Rightarrow> int \<Rightarrow> (int \<times> int) io" where
  "publisher_sockets k iface snapshot_ip snapshot_port incremental_ip incremental_port =
     bindIO (mcast_init k incremental_ip iface incremental_port False) (\<lambda>fd.
     bindIO (assertIO (0 \<le> fd) ''Unable to create incremental mcast socket.'') (\<lambda>_.
     bindIO (synthesizer_socket k iface snapshot_ip snapshot_port) (\<lambda>snap. pureIO (Inr (fd, snap)))))"

definition gateway_connect :: "kernel \<Rightarrow> string \<Rightarrow> string \<Rightarrow> int \<Rightarrow> int io" where
  "gateway_connect k ip iface port =
     bindIO (tcp_connect k ip iface port False) (\<lambda>fd.
     bindIO (assertIO (0 \<le> fd) (''Unable to connect to ip:'' @ ip @ '' port:'' @ decimal_int port @ '' on iface:'' @ iface))
       (\<lambda>_. pureIO (Inr fd)))"

text \<open>The consumer subscribes to the incremental stream when it is created and to the snapshot stream
  when a recovery begins.\<close>

definition subscribe :: "kernel \<Rightarrow> string \<Rightarrow> string \<Rightarrow> string \<Rightarrow> int \<Rightarrow> int io" where
  "subscribe k name ip iface port =
     bindIO (mcast_init k ip iface port True) (\<lambda>fd.
     bindIO (assertIO (0 \<le> fd) (''Unable to create '' @ name @ '' mcast socket.'')) (\<lambda>_.
     bindIO (join_group k fd ip) (\<lambda>ok.
     bindIO (assertIO ok (''Join failed on:'' @ decimal_int fd)) (\<lambda>_. pureIO (Inr fd)))))"

definition consumer_socket :: "kernel \<Rightarrow> string \<Rightarrow> string \<Rightarrow> int \<Rightarrow> int io" where
  "consumer_socket k iface incremental_ip incremental_port = subscribe k ''incremental'' incremental_ip iface incremental_port"

definition recovery_socket :: "kernel \<Rightarrow> string \<Rightarrow> string \<Rightarrow> int \<Rightarrow> int io" where
  "recovery_socket k iface snapshot_ip snapshot_port = subscribe k ''snapshot'' snapshot_ip iface snapshot_port"

section \<open>The two programs\<close>

record ExchangeSockets =
  ex_incremental :: int
  ex_snapshot :: int
  ex_server :: TCPServer

definition exchange_start :: "kernel \<Rightarrow> ExchangeSockets io" where
  "exchange_start k =
     bindIO (publisher_sockets k ''lo'' ''233.252.14.1'' 20000 ''233.252.14.3'' 20001) (\<lambda>(inc, snap).
     bindIO (server_listen k ''lo'' 12345 new_TCPServer) (\<lambda>s.
       pureIO (Inr \<lparr>ex_incremental = inc, ex_snapshot = snap, ex_server = s\<rparr>)))"

definition trading_start :: "kernel \<Rightarrow> (int \<times> int) io" where
  "trading_start k =
     bindIO (gateway_connect k ''127.0.0.1'' ''lo'' 12345) (\<lambda>gw.
     bindIO (consumer_socket k ''lo'' ''233.252.14.3'' 20001) (\<lambda>inc. pureIO (Inr (gw, inc))))"

section \<open>The interface is used only to find an address\<close>

text \<open>Where an address is given the interface has no effect on the socket, and joining a group does not
  take one: the multicast streams go where the system routes them, whatever interface the programs name.\<close>

lemma setup_without_interface: "setup_descriptor k (cfg\<lparr>cfg_iface := iface\<rparr>) = setup_descriptor k cfg"
  by (intro ext) (simp add: setup_descriptor_def connect_socket_def bind_socket_def)

lemma addresses_without_interface: "setup_addresses k (cfg\<lparr>cfg_iface := iface\<rparr>) rps fd = setup_addresses k cfg rps fd"
  by (induction rps arbitrary: fd) (simp_all add: setup_address_def setup_without_interface fun_eq_iff bindIO_def split: prod.splits sum.splits)

lemma interface_is_ignored:
  assumes "cfg_ip cfg \<noteq> []"
  shows "createSocket k (cfg\<lparr>cfg_iface := iface\<rparr>) = createSocket k cfg"
  using assms by (simp add: createSocket_def address_hints_def addresses_without_interface)

theorem market_data_ignores_interface:
  assumes "incremental_ip \<noteq> []" and "snapshot_ip \<noteq> []"
  shows "publisher_sockets k iface snapshot_ip snapshot_port incremental_ip incremental_port =
      publisher_sockets k iface' snapshot_ip snapshot_port incremental_ip incremental_port \<and>
    consumer_socket k iface incremental_ip incremental_port = consumer_socket k iface' incremental_ip incremental_port"
proof -
  have init: "mcast_init k ip iface port l = mcast_init k ip iface' port l" if "ip \<noteq> []" for ip port l
    using interface_is_ignored [of "\<lparr>cfg_ip = ip, cfg_iface = iface', cfg_port = port, cfg_isUdp = True, cfg_isListening = l,
      cfg_needsSoTimestamp = False\<rparr>" k iface] that by (simp add: mcast_init_def)
  show ?thesis
    by (simp add: publisher_sockets_def synthesizer_socket_def consumer_socket_def subscribe_def
        init [OF assms(1)] init [OF assms(2)])
qed

section \<open>Both programs meet\<close>

text \<open>The addresses a series of calls resolves.\<close>

definition resolved_call :: "syscall \<Rightarrow> (string \<times> string \<times> hints) list" where
  "resolved_call c = (case c of Getaddrinfo ip port h \<Rightarrow> [(ip, port, h)] | _ \<Rightarrow> [])"

definition resolved :: "trace \<Rightarrow> (string \<times> string \<times> hints) list" where
  "resolved t = concat (map resolved_call (map fst t))"

lemma resolved_simps [simp]: "resolved [] = []" "resolved (x # t) = resolved_call (fst x) @ resolved t" "resolved (t @ u) = resolved t @ resolved u"
  by (simp_all add: resolved_def)

definition one_address :: "kernel \<Rightarrow> bool" where
  "one_address k \<longleftrightarrow> (\<forall>t ip port h. \<exists>rp. addrs (k t (Getaddrinfo ip port h)) = [rp])"

lemma one_address_resolution: "one_address k \<Longrightarrow> \<exists>rp. addrs (resolution k cfg t) = [rp]"
  by (simp add: one_address_def resolution_def)

lemma setup_resolves_nothing: "concat (map resolved_call (setup_script cfg rp fd flags pending)) = []"
  by (auto simp: setup_script_def nonblock_script_def connect_script_def bind_script_def resolved_call_def)

lemma resolve_script_resolves:
  "concat (map resolved_call (resolve_script k cfg t)) = [(resolved_ip k cfg t, decimal_int (cfg_port cfg), address_hints cfg)]"
  by (simp add: resolve_script_def resolved_call_def)

lemma createSocket_resolved:
  assumes "createSocket k cfg t = (Inr fd, t')" and "one_address k"
  obtains cs where "t' = t @ cs" "resolved cs = [(resolved_ip k cfg t, decimal_int (cfg_port cfg), address_hints cfg)]"
    "cfg_isUdp cfg \<and> cfg_isListening cfg \<longrightarrow> Bind_Call fd (Any_Address (word_of_int (cfg_port cfg))) \<in> fst ` set cs"
proof -
  obtain rp where "addrs (resolution k cfg t) = [rp]" using one_address_resolution [OF assms(2)] by blast
  from createSocket_script [OF assms(1) this] obtain flags pending where
    "runs t t' (resolve_script k cfg t @ setup_script cfg rp fd flags pending) (in_progress pending)" by blast
  then obtain cs where cs: "t' = t @ cs" "map fst cs = resolve_script k cfg t @ setup_script cfg rp fd flags pending"
    by (auto simp: runs_def)
  have "resolved cs = [(resolved_ip k cfg t, decimal_int (cfg_port cfg), address_hints cfg)]"
    unfolding resolved_def cs(2) map_append concat_append setup_resolves_nothing resolve_script_resolves by simp
  moreover have "Bind_Call fd (Any_Address (word_of_int (cfg_port cfg))) \<in> fst ` set cs" if "cfg_isUdp cfg \<and> cfg_isListening cfg"
    using that unfolding set_map [symmetric] cs(2) by (simp add: setup_script_def bind_script_def)
  ultimately show ?thesis using that cs(1) by blast
qed

definition udp_hints :: "bool \<Rightarrow> hints" where
  "udp_hints passive = \<lparr>hint_flags = (if passive then AI_PASSIVE else 0) + AI_NUMERICHOST + AI_NUMERICSERV, hint_family = AF_INET,
     hint_socktype = SOCK_DGRAM, hint_protocol = IPPROTO_UDP\<rparr>"

definition tcp_hints :: "bool \<Rightarrow> hints" where
  "tcp_hints passive = \<lparr>hint_flags = (if passive then AI_PASSIVE else 0) + AI_NUMERICHOST + AI_NUMERICSERV, hint_family = AF_INET,
     hint_socktype = SOCK_STREAM, hint_protocol = IPPROTO_TCP\<rparr>"

lemma mcast_init_resolved:
  assumes "mcast_init k ip iface port listening t = (Inr fd, t')" and "one_address k" and "ip \<noteq> []"
  obtains cs where "t' = t @ cs" "resolved cs = [(ip, decimal_int port, udp_hints listening)]"
    "listening \<longrightarrow> Bind_Call fd (Any_Address (word_of_int port)) \<in> fst ` set cs"
  by (rule createSocket_resolved [OF assms(1) [unfolded mcast_init_def] assms(2)])
    (use that assms(3) in \<open>simp add: resolved_ip_def address_hints_def udp_hints_def\<close>)

lemma tcp_connect_resolved:
  assumes "tcp_connect k ip iface port listening t = (Inr fd, t')" and "one_address k"
  obtains cs host where "t' = t @ cs" "resolved cs = [(host, decimal_int port, tcp_hints listening)]" "ip \<noteq> [] \<longrightarrow> host = ip"
  by (rule createSocket_resolved [OF assms(1) [unfolded tcp_connect_def] assms(2)])
    (rule that, assumption, auto simp: resolved_ip_def address_hints_def tcp_hints_def)

text \<open>Bringing up a subscription or a server.\<close>

lemma subscribe_resolved:
  assumes "subscribe k name ip iface port t = (Inr fd, t')" and "one_address k" and "ip \<noteq> []"
  obtains cs where "t' = t @ cs" "resolved cs = [(ip, decimal_int port, udp_hints True)]"
    "Bind_Call fd (Any_Address (word_of_int port)) \<in> fst ` set cs" "\<exists>a. (Setsockopt fd (Ip_Add_Membership ip), a) \<in> set cs \<and> ret a \<noteq> -1"
proof -
  obtain t1 where t1: "mcast_init k ip iface port True t = (Inr fd, t1)" "join_group k fd ip t1 = (Inr True, t')"
    using assms(1) unfolding subscribe_def by (elim bindIO_InrE) auto
  obtain cs where cs: "t1 = t @ cs" "resolved cs = [(ip, decimal_int port, udp_hints True)]"
    "Bind_Call fd (Any_Address (word_of_int port)) \<in> fst ` set cs"
    by (rule mcast_init_resolved [OF t1(1) assms(2,3)]) simp
  define a where "a = k t1 (Setsockopt fd (Ip_Add_Membership ip))"
  have "t' = t1 @ [(Setsockopt fd (Ip_Add_Membership ip), a)]" "ret a \<noteq> -1"
    using t1(2) by (auto simp: join_group_def bindIO_eq_Inr a_def)
  then show ?thesis using cs by (intro that [of "cs @ [(Setsockopt fd (Ip_Add_Membership ip), a)]"]) (auto simp: resolved_call_def)
qed

lemma server_listen_resolved:
  assumes "server_listen k iface port s t = (Inr s', t')" and "one_address k"
  obtains cs host where "t' = t @ cs" "resolved cs = [(host, decimal_int port, tcp_hints True)]"
proof -
  obtain fd t1 t2 where t: "tcp_connect k [] iface port True t1 = (Inr fd, t2)" "\<exists>a. t1 = t @ [(Epoll_Create 1, a)]"
    "\<exists>c a. t' = t2 @ [(c, a)] \<and> resolved_call c = []"
    using assms(1) unfolding server_listen_def addToEpollList_def by (elim bindIO_InrE) (auto simp: resolved_call_def)
  obtain cs host where "t2 = t1 @ cs" "resolved cs = [(host, decimal_int port, tcp_hints True)]"
    by (rule tcp_connect_resolved [OF t(1) assms(2)])
  then show ?thesis using t(2,3) that by (auto simp: resolved_call_def)
qed

text \<open>The two programs meet: when both have started, the exchange has resolved the group addresses
  233.252.14.3 port 20001 and 233.252.14.1 port 20000 for sending and some address, port 12345, for
  accepting connections, in this order; the client has resolved 127.0.0.1 port 12345 for connecting and
  233.252.14.3 port 20001 for receiving, its socket for the incremental updates is bound to that port and a
  member of that group; and in a recovery it subscribes to the other group and port in the same way.\<close>

theorem programs_meet:
  assumes "exchange_start k [] = (Inr x, t)" and "one_address k"
    and "trading_start k' [] = (Inr (gw, inc), u)" and "one_address k'"
    and "recovery_socket k' ''lo'' ''233.252.14.1'' 20000 v = (Inr snap, v')"
  shows "(\<exists>host. resolved t = [(''233.252.14.3'', ''20001'', udp_hints False), (''233.252.14.1'', ''20000'', udp_hints False),
        (host, ''12345'', tcp_hints True)]) \<and>
    resolved u = [(''127.0.0.1'', ''12345'', tcp_hints False), (''233.252.14.3'', ''20001'', udp_hints True)] \<and>
    Bind_Call inc (Any_Address 20001) \<in> fst ` set u \<and> Setsockopt inc (Ip_Add_Membership ''233.252.14.3'') \<in> fst ` set u \<and>
    (\<exists>cs. v' = v @ cs \<and> resolved cs = [(''233.252.14.1'', ''20000'', udp_hints True)] \<and>
      Bind_Call snap (Any_Address 20000) \<in> fst ` set cs \<and> Setsockopt snap (Ip_Add_Membership ''233.252.14.1'') \<in> fst ` set cs)"
proof -
  have ports: "decimal_int 20001 = ''20001''" "decimal_int 20000 = ''20000''" "decimal_int 12345 = ''12345''" 
    by (simp_all add: decimal_int_def decimal.simps digit_char_def char_of_def bit_simps)
  obtain t1 t2 inc0 snap0 s0 where e: "mcast_init k ''233.252.14.3'' ''lo'' 20001 False [] = (Inr inc0, t1)"
    "mcast_init k ''233.252.14.1'' ''lo'' 20000 False t1 = (Inr snap0, t2)" "server_listen k ''lo'' 12345 new_TCPServer t2 = (Inr s0, t)"
    using assms(1) unfolding exchange_start_def publisher_sockets_def synthesizer_socket_def by (auto elim!: bindIO_InrE)
  obtain c1 where c1: "t1 = [] @ c1" "resolved c1 = [(''233.252.14.3'', decimal_int 20001, udp_hints False)]"
    by (rule mcast_init_resolved [OF e(1) assms(2)]) simp_all
  obtain c2 where c2: "t2 = t1 @ c2" "resolved c2 = [(''233.252.14.1'', decimal_int 20000, udp_hints False)]"
    by (rule mcast_init_resolved [OF e(2) assms(2)]) simp_all
  obtain c3 host where c3: "t = t2 @ c3" "resolved c3 = [(host, decimal_int 12345, tcp_hints True)]"
    by (rule server_listen_resolved [OF e(3) assms(2)])
  obtain u1 where f: "tcp_connect k' ''127.0.0.1'' ''lo'' 12345 False [] = (Inr gw, u1)"
    "subscribe k' ''incremental'' ''233.252.14.3'' ''lo'' 20001 u1 = (Inr inc, u)"
    using assms(3) unfolding trading_start_def gateway_connect_def consumer_socket_def by (auto elim!: bindIO_InrE)
  obtain d1 h where d1: "u1 = [] @ d1" "resolved d1 = [(h, decimal_int 12345, tcp_hints False)]" "h = ''127.0.0.1''"
    by (rule tcp_connect_resolved [OF f(1) assms(4)]) simp
  obtain d2 where d2: "u = u1 @ d2" "resolved d2 = [(''233.252.14.3'', decimal_int 20001, udp_hints True)]"
    "Bind_Call inc (Any_Address (word_of_int 20001)) \<in> fst ` set d2" "\<exists>a. (Setsockopt inc (Ip_Add_Membership ''233.252.14.3''), a) \<in> set d2 \<and> ret a \<noteq> -1"
    by (rule subscribe_resolved [OF f(2) assms(4)]) simp_all
  obtain cs where cs: "v' = v @ cs" "resolved cs = [(''233.252.14.1'', decimal_int 20000, udp_hints True)]"
    "Bind_Call snap (Any_Address (word_of_int 20000)) \<in> fst ` set cs" "\<exists>a. (Setsockopt snap (Ip_Add_Membership ''233.252.14.1''), a) \<in> set cs \<and> ret a \<noteq> -1"
    by (rule subscribe_resolved [OF assms(5) [unfolded recovery_socket_def] assms(4)]) simp_all
  have "Setsockopt inc (Ip_Add_Membership ''233.252.14.3'') \<in> fst ` set d2" "Setsockopt snap (Ip_Add_Membership ''233.252.14.1'') \<in> fst ` set cs"
    using d2(4) cs(4) by force+
  then show ?thesis using c1 c2 c3 d1 d2(1-3) cs(1-3) by (auto simp: ports)
qed

text \<open>A system in which every connection is made at once.\<close>

definition calm_kernel :: kernel where
  "calm_kernel t c = (case c of Connect_Call fd a \<Rightarrow> granted | _ \<Rightarrow> example_kernel [example_address] t c)"

lemmas start_eval = io_eval calm_kernel_def example_kernel_def granted_def opened_def is_socket_call_def O_NONBLOCK_def
  mcast_init_def join_group_def subscribe_def synthesizer_socket_def publisher_sockets_def gateway_connect_def

lemma calm_exchange: "\<exists>x t. exchange_start calm_kernel [] = (Inr x, t)"
  by (simp add: start_eval exchange_start_def server_listen_def addToEpollList_def)

lemma calm_client: "\<exists>gw inc t. trading_start calm_kernel [] = (Inr (gw, inc), t)"
  by (simp add: start_eval trading_start_def consumer_socket_def)

lemma calm_recovery: "\<exists>snap t. recovery_socket calm_kernel ''lo'' ''233.252.14.1'' 20000 [] = (Inr snap, t)"
  by (simp add: start_eval recovery_socket_def)

theorem programs_meet_witness:
  "\<exists>x t u gw inc host. exchange_start calm_kernel [] = (Inr x, t) \<and> trading_start calm_kernel [] = (Inr (gw, inc), u) \<and>
     resolved t ! 2 = (host, ''12345'', tcp_hints True) \<and> resolved u ! 0 = (''127.0.0.1'', ''12345'', tcp_hints False)"
proof -
  obtain x t where e: "exchange_start calm_kernel [] = (Inr x, t)" using calm_exchange by blast
  obtain gw inc u where c: "trading_start calm_kernel [] = (Inr (gw, inc), u)" using calm_client by blast
  obtain snap v where r: "recovery_socket calm_kernel ''lo'' ''233.252.14.1'' 20000 [] = (Inr snap, v)" using calm_recovery by blast
  have one: "one_address calm_kernel" by (simp add: one_address_def calm_kernel_def example_kernel_def)
  from programs_meet [OF e one c one r] show ?thesis using e c by auto
qed

end
