(* ===== verification/Shutdown.thy ===== *)
theory Shutdown
  imports Trading_Requests Trading_Runs Order_Gateway
begin

text \<open>
  The threads of \<open>trading_main\<close> and how they stop: the loops of \<open>TradeEngine::run\<close>,
  \<open>OrderGateway::run\<close> and \<open>MarketDataConsumer::run\<close> with their \<open>run_\<close> flags, and the main thread that
  clears the flags and joins the threads. A thread's next step is a function of the whole client; a run
  is a list of events that says which thread moves and what its socket does. The ring between engine and
  gateway is \<open>om_requests\<close>, the ring back \<open>te_responses\<close>; what the consumer queues is an argument, and
  \<open>taken\<close> and \<open>offered\<close> record the requests the gateway took and the bytes it handed to the kernel.
  A handler of a market update first tests \<open>stopping_\<close> and asks the strategy, and writes the requests
  of the strategy to the ring afterwards, one by one: \<open>writing\<close> holds those not yet written, and other
  threads move in between.
\<close>

section \<open>Threads\<close>

datatype engine_pc = Engine_Head | Engine_Check_Responses | Engine_Check_Updates | Engine_Responses | Engine_Updates | Engine_Exited

datatype gateway_pc = Gateway_Head | Gateway_Check | Gateway_IO | Gateway_Requests | Gateway_Last_IO | Gateway_Exited

datatype consumer_pc = Consumer_Head | Consumer_IO | Consumer_Exited

datatype main_pc = Main_Working | Engine_Off | Join_Engine | Consumer_Off | Join_Consumer | Gateway_Off | Join_Gateway | Main_Done

record Client =
  engine :: TradeEngine
  engine_run :: bool
  engine_at :: engine_pc
  writing :: "MatchingEngineClientRequest list"
  gateway :: OrderGateway
  gateway_at :: gateway_pc
  consumer_run :: bool
  consumer_at :: consumer_pc
  main_at :: main_pc
  taken :: "MatchingEngineClientRequest list"
  offered :: "u8 list"

definition started :: "bool \<Rightarrow> ClientId \<Rightarrow> AlgoType \<Rightarrow> TradeEngineCfgHashMap \<Rightarrow> Client" where
  "started debug client algo cfg = \<lparr>engine = new_TradeEngine debug client algo cfg, engine_run = True, engine_at = Engine_Head, writing = [],
     gateway = new_OrderGateway client, gateway_at = Gateway_Head, consumer_run = True, consumer_at = Consumer_Head,
     main_at = Main_Working, taken = [], offered = []\<rparr>"

text \<open>The engine: \<open>while (run_ || responses || updates)\<close>. A response, which makes no request, is handled in
  one step. A market update takes a step up to the strategy's decision, the test of \<open>stopping_\<close> included,
  and one more for each \<open>sendClientRequest\<close> that follows.\<close>

definition decide :: "MatchingEngineMarketUpdate list \<Rightarrow> TradeEngine \<Rightarrow> Client \<Rightarrow> Client" where
  "decide us te1 c = (let before = om_requests (order_manager (engine c)) in
     c\<lparr>engine := te1\<lparr>te_updates := us, order_manager := (order_manager te1)\<lparr>om_requests := before\<rparr>\<rparr>,
       writing := drop (length before) (om_requests (order_manager te1))\<rparr>)"

definition engine_thread :: "rounding \<Rightarrow> Client \<Rightarrow> Client result" where
  "engine_thread rnd c = (let te = engine c in case engine_at c of
       Engine_Head \<Rightarrow> Inr (c\<lparr>engine_at := (if engine_run c then Engine_Responses else Engine_Check_Responses)\<rparr>)
     | Engine_Check_Responses \<Rightarrow> Inr (c\<lparr>engine_at := (if te_responses te \<noteq> [] then Engine_Responses else Engine_Check_Updates)\<rparr>)
     | Engine_Check_Updates \<Rightarrow> Inr (c\<lparr>engine_at := (if te_updates te \<noteq> [] then Engine_Responses else Engine_Exited)\<rparr>)
     | Engine_Responses \<Rightarrow> (case te_responses te of
           [] \<Rightarrow> Inr (c\<lparr>engine_at := Engine_Updates\<rparr>)
         | r # rs \<Rightarrow> bindE (engine_onOrderUpdate rnd r te) (\<lambda>te1. Inr (c\<lparr>engine := te1\<lparr>te_responses := rs\<rparr>\<rparr>)))
     | Engine_Updates \<Rightarrow> (case writing c of
           q # qs \<Rightarrow> Inr (c\<lparr>engine := te\<lparr>order_manager := sendClientRequest q (order_manager te)\<rparr>, writing := qs\<rparr>)
         | [] \<Rightarrow> (case te_updates te of
             [] \<Rightarrow> Inr (c\<lparr>engine_at := Engine_Head\<rparr>)
           | u # us \<Rightarrow> bindE (engine_onMarketUpdate rnd u te) (\<lambda>te1. Inr (decide us te1 c))))
     | Engine_Exited \<Rightarrow> Inr c)"

text \<open>The gateway: \<open>while (run_ || requests)\<close>, each time one \<open>sendAndRecv\<close> and then all requests, and a
  last \<open>sendAndRecv\<close> after the loop. The responses it queues go to the engine.\<close>

definition gateway_io :: "(u64 \<Rightarrow> bool) \<Rightarrow> u8 list \<Rightarrow> nat \<Rightarrow> Client \<Rightarrow> Client result" where
  "gateway_io full input took c = (let g = gateway c in
     bindE (tcp_sendAndRecv (gw_recvCallback full) input took (og_socket g) g) (\<lambda>(_, _, s, g1).
       Inr (c\<lparr>gateway := g1\<lparr>og_socket := s, incoming_responses := []\<rparr>,
         engine := (engine c)\<lparr>te_responses := te_responses (engine c) @ incoming_responses g1\<rparr>,
         offered := offered c @ outbound (og_socket g)\<rparr>)))"

definition gateway_thread :: "(u64 \<Rightarrow> bool) \<Rightarrow> u8 list \<Rightarrow> nat \<Rightarrow> Client \<Rightarrow> Client result" where
  "gateway_thread full input took c = (let waiting = om_requests (order_manager (engine c)) in case gateway_at c of
       Gateway_Head \<Rightarrow> Inr (c\<lparr>gateway_at := (if og_run (gateway c) then Gateway_IO else Gateway_Check)\<rparr>)
     | Gateway_Check \<Rightarrow> Inr (c\<lparr>gateway_at := (if waiting \<noteq> [] then Gateway_IO else Gateway_Last_IO)\<rparr>)
     | Gateway_IO \<Rightarrow> bindE (gateway_io full input took c) (\<lambda>d. Inr (d\<lparr>gateway_at := Gateway_Requests\<rparr>))
     | Gateway_Requests \<Rightarrow> (case waiting of
           [] \<Rightarrow> Inr (c\<lparr>gateway_at := Gateway_Head\<rparr>)
         | r # rs \<Rightarrow> bindE (gw_send r (gateway c)) (\<lambda>g. Inr (c\<lparr>gateway := g, engine := take_request (engine c), taken := taken c @ [r]\<rparr>)))
     | Gateway_Last_IO \<Rightarrow> bindE (gateway_io full input took c) (\<lambda>d. Inr (d\<lparr>gateway_at := Gateway_Exited\<rparr>))
     | Gateway_Exited \<Rightarrow> Inr c)"

text \<open>The consumer: \<open>while (run_)\<close>, each time reading both sockets, which queues updates.\<close>

definition consumer_thread :: "MatchingEngineMarketUpdate list \<Rightarrow> Client \<Rightarrow> Client" where
  "consumer_thread us c = (case consumer_at c of
       Consumer_Head \<Rightarrow> c\<lparr>consumer_at := (if consumer_run c then Consumer_IO else Consumer_Exited)\<rparr>
     | Consumer_IO \<Rightarrow> c\<lparr>engine := (engine c)\<lparr>te_updates := te_updates (engine c) @ us\<rparr>, consumer_at := Consumer_Head\<rparr>
     | Consumer_Exited \<Rightarrow> c)"

text \<open>The main thread calls the three \<open>stop\<close> functions in turn. Each clears flags and joins its thread,
  which waits until the thread has left.\<close>

definition engine_stop :: "Client \<Rightarrow> Client" where
  "engine_stop c = (case main_at c of
       Main_Working \<Rightarrow> c\<lparr>engine := (engine c)\<lparr>te_stopping := True\<rparr>, main_at := Engine_Off\<rparr>
     | Engine_Off \<Rightarrow> c\<lparr>engine_run := False, main_at := Join_Engine\<rparr>
     | _ \<Rightarrow> if engine_at c = Engine_Exited then c\<lparr>main_at := Consumer_Off\<rparr> else c)"

definition consumer_stop :: "Client \<Rightarrow> Client" where
  "consumer_stop c = (case main_at c of
       Consumer_Off \<Rightarrow> c\<lparr>consumer_run := False, main_at := Join_Consumer\<rparr>
     | _ \<Rightarrow> if consumer_at c = Consumer_Exited then c\<lparr>main_at := Gateway_Off\<rparr> else c)"

definition gateway_stop :: "Client \<Rightarrow> Client" where
  "gateway_stop c = (case main_at c of
       Gateway_Off \<Rightarrow> c\<lparr>gateway := (gateway c)\<lparr>og_run := False\<rparr>, main_at := Join_Gateway\<rparr>
     | _ \<Rightarrow> if gateway_at c = Gateway_Exited then c\<lparr>main_at := Main_Done\<rparr> else c)"

definition main_thread :: "Client \<Rightarrow> Client" where
  "main_thread c =
     (if main_at c \<in> {Main_Working, Engine_Off, Join_Engine} then engine_stop c
      else if main_at c \<in> {Consumer_Off, Join_Consumer} then consumer_stop c
      else if main_at c \<in> {Gateway_Off, Join_Gateway} then gateway_stop c
      else c)"

lemmas main_defs = main_thread_def engine_stop_def consumer_stop_def gateway_stop_def

text \<open>With the random trader the main thread sends requests itself before it stops the threads.\<close>

definition main_sends :: "MatchingEngineClientRequest \<Rightarrow> Client \<Rightarrow> Client" where
  "main_sends r c = (if main_at c = Main_Working
     then c\<lparr>engine := (engine c)\<lparr>order_manager := sendClientRequest r (order_manager (engine c))\<rparr>\<rparr> else c)"

datatype client_event = Engine_Moves | Gateway_Moves "u64 \<Rightarrow> bool" "u8 list" nat | Consumer_Moves "MatchingEngineMarketUpdate list"
  | Main_Moves | Main_Sends MatchingEngineClientRequest

fun client_moves :: "rounding \<Rightarrow> client_event \<Rightarrow> Client \<Rightarrow> Client result" where
  "client_moves rnd Engine_Moves c = engine_thread rnd c"
| "client_moves rnd (Gateway_Moves full input took) c = gateway_thread full input took c"
| "client_moves rnd (Consumer_Moves us) c = Inr (consumer_thread us c)"
| "client_moves rnd Main_Moves c = Inr (main_thread c)"
| "client_moves rnd (Main_Sends r) c = Inr (main_sends r c)"

fun client_run :: "rounding \<Rightarrow> client_event list \<Rightarrow> Client \<Rightarrow> Client result" where
  "client_run rnd [] c = Inr c"
| "client_run rnd (e # es) c = bindE (client_moves rnd e c) (client_run rnd es)"

text \<open>All requests written to the ring so far, and those with the requests the engine is about to write.\<close>

definition written :: "Client \<Rightarrow> MatchingEngineClientRequest list" where
  "written c = taken c @ om_requests (order_manager (engine c))"

definition committed :: "Client \<Rightarrow> MatchingEngineClientRequest list" where
  "committed c = written c @ writing c"

section \<open>Handlers only add requests\<close>

definition appends :: "nat \<Rightarrow> OrderManager \<Rightarrow> OrderManager \<Rightarrow> bool" where
  "appends n m m' \<longleftrightarrow> (\<exists>qs. om_requests m' = om_requests m @ qs \<and> length qs \<le> n)"

lemma appends_none: "om_requests m' = om_requests m \<Longrightarrow> appends n m m'"
  by (simp add: appends_def)

lemma appends_trans: "appends i l m \<Longrightarrow> appends j m n \<Longrightarrow> appends (i + j) l n"
  unfolding appends_def by fastforce

lemma moveOrder_appends: "moveOrder client k rm pl ticker price side qty m = Inr m' \<Longrightarrow> appends 1 m m'"
  by (erule moveOrder_cases) (auto simp: appends_def cancelOrder_def Let_def newOrder_Inr)

lemma moves_appends:
  assumes "moves te m'"
  shows "appends 2 (order_manager te) m'"
  using assms unfolding moves_def
proof (elim disjE exE)
  fix ticker :: SymbolId and bid ask
  let ?clip = "cfg_clip (te_cfg te (unat ticker))"
  assume "moveOrders (te_client_id te) (position_keeper te) (risk_manager te) ticker bid ask ?clip (order_manager te) = Inr m'"
  then obtain m1 where
    "moveOrder (te_client_id te) (position_keeper te) (risk_manager te) (unat ticker, side_index BUY) ticker bid BUY ?clip (order_manager te) = Inr m1"
    "moveOrder (te_client_id te) (position_keeper te) (risk_manager te) (unat ticker, side_index SELL) ticker ask SELL ?clip m1 = Inr m'"
    by (auto simp: moveOrders_def bindE_eq_Inr split: if_splits)
  then show ?thesis using appends_trans [of 1 "order_manager te" m1 1 m'] moveOrder_appends by (simp add: numeral_2_eq_2)
qed (simp add: appends_none)

lemma market_appends: "engine_onMarketUpdate rnd u te = Inr te' \<Longrightarrow> appends 2 (order_manager te) (order_manager te')"
  by (erule market_effect) (auto simp: same_trading_def dest: moves_appends)

text \<open>Once \<open>stopping_\<close> is set the strategy is not asked any more.\<close>

lemma market_keeps_stopping:
  assumes "engine_onMarketUpdate rnd u te = Inr te'"
  shows "te_stopping te' = te_stopping te" "te_stopping te \<Longrightarrow> order_manager te' = order_manager te"
proof -
  obtain notice b where b: "onMarketUpdate u (ticker_order_book te (unat (mu_symbol_id u))) = Inr (notice, b)"
    using assms by (auto simp: engine_onMarketUpdate_def Let_def bindE_eq_Inr)
  define te1 where "te1 = te\<lparr>ticker_order_book := (ticker_order_book te)(unat (mu_symbol_id u) := b)\<rparr>"
  have same: "te_stopping te1 = te_stopping te" "order_manager te1 = order_manager te" by (simp_all add: te1_def)
  have run: "(case notice of No_Notice \<Rightarrow> Inr te1 | Trade_Notice \<Rightarrow> engine_onTradeUpdate rnd u (mb_bbo b) te1
     | Book_Notice \<Rightarrow> engine_onOrderBookUpdate rnd (mu_symbol_id u) (mb_bbo b) te1) = Inr te'"
    using assms b unfolding te1_def by (auto simp: engine_onMarketUpdate_def Let_def bindE_eq_Inr)
  have "te_stopping te' = te_stopping te1 \<and> (te_stopping te1 \<longrightarrow> order_manager te' = order_manager te1)"
  proof (cases notice)
    case No_Notice
    then show ?thesis using run by simp
  next
    case Trade_Notice
    then have "engine_onTradeUpdate rnd u (mb_bbo b) te1 = Inr te'" using run by simp
    then show ?thesis by (cases "te_stopping te1") (auto simp: engine_onTradeUpdate_def Let_def bindE_eq_Inr)
  next
    case Book_Notice
    then have "engine_onOrderBookUpdate rnd (mu_symbol_id u) (mb_bbo b) te1 = Inr te'" using run by simp
    then show ?thesis by (cases "te_stopping te1") (auto simp: engine_onOrderBookUpdate_def Let_def bindE_eq_Inr)
  qed
  then show "te_stopping te' = te_stopping te" "te_stopping te \<Longrightarrow> order_manager te' = order_manager te" using same by simp_all
qed

lemma onOrderUpdate_requests: "onOrderUpdate r m = Inr m' \<Longrightarrow> om_requests m' = om_requests m"
  by (auto dest: onOrderUpdate_effect)

lemma response_keeps_requests:
  assumes "engine_onOrderUpdate rnd r te = Inr te'"
  shows "te_stopping te' = te_stopping te \<and> om_requests (order_manager te') = om_requests (order_manager te)"
  by (rule response_effect [OF assms]) (auto dest: onOrderUpdate_requests)

section \<open>The stop as a state machine\<close>

definition engine_left :: "main_pc set" where
  "engine_left = {Consumer_Off, Join_Consumer, Gateway_Off, Join_Gateway, Main_Done}"

definition gateway_off :: "main_pc set" where
  "gateway_off = {Join_Gateway, Main_Done}"

lemma gateway_off_left: "p \<in> gateway_off \<Longrightarrow> p \<in> engine_left"
  by (auto simp: gateway_off_def engine_left_def)

text \<open>What the positions of the threads say about the flags and the ring.\<close>

definition stop_order :: "Client \<Rightarrow> bool" where
  "stop_order c \<longleftrightarrow>
     (main_at c \<noteq> Main_Working \<longrightarrow> te_stopping (engine c)) \<and>
     (engine_at c \<noteq> Engine_Updates \<longrightarrow> writing c = []) \<and> length (writing c) \<le> 2 \<and>
     (main_at c \<in> engine_left \<longrightarrow> engine_at c = Engine_Exited) \<and>
     (\<not> og_run (gateway c) \<longrightarrow> main_at c \<in> gateway_off) \<and>
     (gateway_at c \<in> {Gateway_Check, Gateway_Last_IO, Gateway_Exited} \<longrightarrow> \<not> og_run (gateway c)) \<and>
     (gateway_at c \<in> {Gateway_Last_IO, Gateway_Exited} \<longrightarrow> om_requests (order_manager (engine c)) = []) \<and>
     (main_at c = Main_Done \<longrightarrow> gateway_at c = Gateway_Exited)"

text \<open>The gateway's accounting: what it took is numbered from 1, and is handed to the kernel or in the
  send buffer, which is empty at the end.\<close>

definition gateway_accounts :: "Client \<Rightarrow> bool" where
  "gateway_accounts c \<longleftrightarrow>
     next_outgoing_seq_num (gateway c) = 1 + of_nat (length (taken c)) \<and>
     offered c @ outbound (og_socket (gateway c)) = concat (map om_request_bytes (number_requests 1 (taken c))) \<and>
     (gateway_at c = Gateway_Exited \<longrightarrow> outbound (og_socket (gateway c)) = [])"

lemma gw_messages_keep: "og_run (fold (gw_message full) ms g) = og_run g \<and>
  next_outgoing_seq_num (fold (gw_message full) ms g) = next_outgoing_seq_num g"
  by (induction ms arbitrary: g) (simp_all add: gw_message_def Let_def)

lemma recvCallback_keeps:
  assumes "gw_recvCallback full s g = Inr (s', g')"
  shows "outbound s' = outbound s \<and> og_run g' = og_run g \<and> next_outgoing_seq_num g' = next_outgoing_seq_num g"
  using assms gw_messages_keep by (auto simp: gw_recvCallback_def Let_def split_def split: if_splits)

lemma gateway_io_effect:
  assumes "gateway_io full input took c = Inr d"
  obtains g rs where "d = c\<lparr>gateway := g, engine := (engine c)\<lparr>te_responses := te_responses (engine c) @ rs\<rparr>,
      offered := offered c @ outbound (og_socket (gateway c))\<rparr>"
    "outbound (og_socket g) = []" "og_run g = og_run (gateway c)" "next_outgoing_seq_num g = next_outgoing_seq_num (gateway c)"
proof -
  let ?g = "gateway c"
  obtain b sent s g1 where io: "tcp_sendAndRecv (gw_recvCallback full) input took (og_socket ?g) ?g = Inr (b, sent, s, g1)"
    and d: "d = c\<lparr>gateway := g1\<lparr>og_socket := s, incoming_responses := []\<rparr>,
         engine := (engine c)\<lparr>te_responses := te_responses (engine c) @ incoming_responses g1\<rparr>, offered := offered c @ outbound (og_socket ?g)\<rparr>"
    using assms by (auto simp: gateway_io_def Let_def bindE_eq_Inr)
  have "outbound s = [] \<and> og_run g1 = og_run ?g \<and> next_outgoing_seq_num g1 = next_outgoing_seq_num ?g"
    using io by (auto simp: tcp_sendAndRecv_def socket_io_def Let_def bindE_eq_Inr dest: recvCallback_keeps split: if_splits)
  then show thesis using that [of "incoming_responses g1" "g1\<lparr>og_socket := s, incoming_responses := []\<rparr>"] d by simp
qed

lemma gw_send_effect:
  assumes "gw_send r g = Inr g'"
  shows "outbound (og_socket g') = outbound (og_socket g) @ om_request_bytes \<lparr>omreq_seqNum = next_outgoing_seq_num g, omreq_request = r\<rparr> \<and>
    next_outgoing_seq_num g' = next_outgoing_seq_num g + 1 \<and> og_run g' = og_run g"
  using assms by (auto simp: gw_send_def tcp_send_def bindE_eq_Inr om_request_bytes_def split: if_splits)

lemma number_requests_snoc: "number_requests n (rs @ [r]) = number_requests n rs @ [\<lparr>omreq_seqNum = n + of_nat (length rs), omreq_request = r\<rparr>]"
  by (induction rs arbitrary: n) (simp_all add: add.assoc)

lemma take_request_simps [simp]:
  "te_stopping (take_request te) = te_stopping te" "om_requests (order_manager (take_request te)) = tl (om_requests (order_manager te))"
  by (simp_all add: take_request_def)

text \<open>A step of each thread keeps both, and commits the engine to no request once it is stopping.\<close>

definition safe_step :: "Client \<Rightarrow> Client \<Rightarrow> bool" where
  "safe_step c d \<longleftrightarrow> stop_order d \<and> gateway_accounts d \<and>
     (main_at c \<noteq> Main_Working \<longrightarrow> main_at d \<noteq> Main_Working \<and> committed d = committed c)"

lemma engine_moves_on:
  assumes "stop_order c" and "gateway_accounts c" and "engine_at c \<noteq> Engine_Exited" and "writing c = []"
  shows "safe_step c (c\<lparr>engine_at := x\<rparr>)"
proof -
  have "main_at c \<notin> engine_left" using assms(1,3) by (auto simp: stop_order_def)
  then show ?thesis using assms by (simp add: safe_step_def stop_order_def gateway_accounts_def written_def committed_def)
qed

lemma engine_step:
  assumes ok: "stop_order c" "gateway_accounts c" and run: "engine_thread rnd c = Inr d"
  shows "safe_step c d"
proof (cases "engine_at c")
  case Engine_Responses
  have idle: "writing c = []" using ok(1) Engine_Responses by (simp add: stop_order_def)
  show ?thesis
  proof (cases "te_responses (engine c)")
    case Nil
    then have "d = c\<lparr>engine_at := Engine_Updates\<rparr>" using run Engine_Responses by (simp add: engine_thread_def)
    then show ?thesis using engine_moves_on [OF ok _ idle] Engine_Responses by simp
  next
    case (Cons r rs)
    then obtain te1 where te1: "engine_onOrderUpdate rnd r (engine c) = Inr te1" "d = c\<lparr>engine := te1\<lparr>te_responses := rs\<rparr>\<rparr>"
      using run Engine_Responses by (auto simp: engine_thread_def bindE_eq_Inr)
    then show ?thesis using ok Engine_Responses response_keeps_requests [OF te1(1)]
      by (simp add: safe_step_def stop_order_def gateway_accounts_def written_def committed_def)
  qed
next
  case Engine_Updates
  have alive: "main_at c \<notin> engine_left" using ok(1) Engine_Updates by (auto simp: stop_order_def)
  then have on: "og_run (gateway c)" "main_at c \<noteq> Main_Done" using ok(1) gateway_off_left by (auto simp: stop_order_def engine_left_def)
  then have gw: "gateway_at c \<noteq> Gateway_Check" "gateway_at c \<noteq> Gateway_Last_IO" "gateway_at c \<noteq> Gateway_Exited"
    using ok(1) by (auto simp: stop_order_def)
  show ?thesis
  proof (cases "writing c")
    case idle: Nil
    show ?thesis
    proof (cases "te_updates (engine c)")
      case Nil
      then have "d = c\<lparr>engine_at := Engine_Head\<rparr>" using run Engine_Updates idle by (simp add: engine_thread_def)
      then show ?thesis using engine_moves_on [OF ok _ idle] Engine_Updates by simp
    next
      case (Cons u us)
      then obtain te1 where te1: "engine_onMarketUpdate rnd u (engine c) = Inr te1" "d = decide us te1 c"
        using run Engine_Updates idle by (auto simp: engine_thread_def bindE_eq_Inr)
      note keep = market_keeps_stopping [OF te1(1)]
      have few: "length (writing d) \<le> 2" using market_appends [OF te1(1)] te1(2) by (auto simp: appends_def decide_def Let_def)
      have "stop_order d" using ok(1) few te1(2) alive on gw keep(1) Engine_Updates by (simp add: stop_order_def decide_def Let_def)
      moreover have "gateway_accounts d" using ok(2) te1(2) by (simp add: gateway_accounts_def decide_def Let_def)
      moreover have "committed d = committed c" if "main_at c \<noteq> Main_Working"
        using ok(1) that te1(2) keep(2) idle by (simp add: stop_order_def written_def committed_def decide_def Let_def)
      ultimately show ?thesis using te1(2) by (simp add: safe_step_def decide_def Let_def)
    qed
  next
    case (Cons q qs)
    then have d: "d = c\<lparr>engine := (engine c)\<lparr>order_manager := sendClientRequest q (order_manager (engine c))\<rparr>, writing := qs\<rparr>"
      using run Engine_Updates by (simp add: engine_thread_def Let_def)
    show ?thesis using ok alive on gw Engine_Updates Cons
      by (simp add: d safe_step_def stop_order_def gateway_accounts_def written_def committed_def)
  qed
next
  case Engine_Exited
  then show ?thesis using run ok by (simp add: engine_thread_def safe_step_def)
qed (use run engine_moves_on [OF ok] ok(1) in \<open>auto simp: engine_thread_def stop_order_def\<close>)

lemma gateway_io_keeps:
  assumes ok: "stop_order c" "gateway_accounts c" and run: "gateway_io full input took c = Inr d"
  shows "stop_order d" "gateway_accounts d" "main_at d = main_at c" "committed d = committed c" "outbound (og_socket (gateway d)) = []"
    "og_run (gateway d) = og_run (gateway c)" "om_requests (order_manager (engine d)) = om_requests (order_manager (engine c))"
proof -
  obtain g rs where g: "d = c\<lparr>gateway := g, engine := (engine c)\<lparr>te_responses := te_responses (engine c) @ rs\<rparr>,
      offered := offered c @ outbound (og_socket (gateway c))\<rparr>"
    "outbound (og_socket g) = []" "og_run g = og_run (gateway c)" "next_outgoing_seq_num g = next_outgoing_seq_num (gateway c)"
    by (rule gateway_io_effect [OF run])
  show "stop_order d" using ok(1) g(1,3) by (simp add: stop_order_def)
  show "gateway_accounts d" using ok(2) g by (simp add: gateway_accounts_def)
  show "main_at d = main_at c" "committed d = committed c" "outbound (og_socket (gateway d)) = []"
    "og_run (gateway d) = og_run (gateway c)" "om_requests (order_manager (engine d)) = om_requests (order_manager (engine c))"
    using g by (simp_all add: written_def committed_def)
qed

lemma gateway_step:
  assumes ok: "stop_order c" "gateway_accounts c" and run: "gateway_thread full input took c = Inr d"
  shows "safe_step c d"
proof (cases "gateway_at c")
  case Gateway_IO
  then obtain e where e: "gateway_io full input took c = Inr e" "d = e\<lparr>gateway_at := Gateway_Requests\<rparr>"
    using run by (auto simp: gateway_thread_def Let_def bindE_eq_Inr)
  note k = gateway_io_keeps [OF ok e(1)]
  have "main_at c \<noteq> Main_Done" using ok(1) Gateway_IO by (auto simp: stop_order_def)
  then show ?thesis using k e(2) by (auto simp: safe_step_def stop_order_def gateway_accounts_def written_def committed_def)
next
  case Gateway_Last_IO
  then obtain e where e: "gateway_io full input took c = Inr e" "d = e\<lparr>gateway_at := Gateway_Exited\<rparr>"
    using run by (auto simp: gateway_thread_def Let_def bindE_eq_Inr)
  note k = gateway_io_keeps [OF ok e(1)]
  have "\<not> og_run (gateway c)" "om_requests (order_manager (engine c)) = []" using ok(1) Gateway_Last_IO by (auto simp: stop_order_def)
  then show ?thesis using k e(2) by (auto simp: safe_step_def stop_order_def gateway_accounts_def written_def committed_def)
next
  case Gateway_Requests
  show ?thesis
  proof (cases "om_requests (order_manager (engine c))")
    case Nil
    then have d: "d = c\<lparr>gateway_at := Gateway_Head\<rparr>" using run Gateway_Requests by (simp add: gateway_thread_def)
    have "main_at c \<noteq> Main_Done" using ok(1) Gateway_Requests by (auto simp: stop_order_def)
    then show ?thesis using ok by (simp add: d safe_step_def stop_order_def gateway_accounts_def written_def committed_def)
  next
    case (Cons r rs)
    then obtain g where g: "gw_send r (gateway c) = Inr g" "d = c\<lparr>gateway := g, engine := take_request (engine c), taken := taken c @ [r]\<rparr>"
      using run Gateway_Requests by (auto simp: gateway_thread_def bindE_eq_Inr)
    note e = gw_send_effect [OF g(1)]
    have "stop_order d" using ok(1) g(2) e Gateway_Requests by (simp add: stop_order_def)
    moreover have "gateway_accounts d"
      using ok(2) g(2) e Gateway_Requests by (simp add: gateway_accounts_def number_requests_snoc flip: append_assoc)
    ultimately show ?thesis using g(2) Cons by (simp add: safe_step_def written_def committed_def)
  qed
next
  case Gateway_Head
  have d: "d = c\<lparr>gateway_at := (if og_run (gateway c) then Gateway_IO else Gateway_Check)\<rparr>"
    using run Gateway_Head by (simp add: gateway_thread_def)
  show ?thesis using ok Gateway_Head
    by (cases "og_run (gateway c)") (simp_all add: d safe_step_def stop_order_def gateway_accounts_def written_def committed_def)
next
  case Gateway_Check
  have d: "d = c\<lparr>gateway_at := (if om_requests (order_manager (engine c)) \<noteq> [] then Gateway_IO else Gateway_Last_IO)\<rparr>"
    using run Gateway_Check by (simp add: gateway_thread_def)
  show ?thesis using ok Gateway_Check
    by (cases "om_requests (order_manager (engine c)) = []") (auto simp: d safe_step_def stop_order_def gateway_accounts_def written_def committed_def)
qed (use run ok in \<open>simp add: gateway_thread_def safe_step_def\<close>)

lemma main_step: "stop_order c \<Longrightarrow> gateway_accounts c \<Longrightarrow> safe_step c (main_thread c)"
  by (cases "main_at c")
    (auto simp: main_defs safe_step_def stop_order_def gateway_accounts_def written_def committed_def engine_left_def gateway_off_def)

lemma consumer_step:
  assumes "stop_order c" and "gateway_accounts c"
  shows "safe_step c (consumer_thread us c)"
  using assms by (cases "consumer_at c") (simp_all add: consumer_thread_def safe_step_def stop_order_def gateway_accounts_def written_def committed_def)

lemma main_sends_step:
  assumes ok: "stop_order c" "gateway_accounts c"
  shows "safe_step c (main_sends r c)"
proof (cases "main_at c = Main_Working")
  case True
  then have "og_run (gateway c)" using ok(1) by (auto simp: stop_order_def gateway_off_def)
  then have "gateway_at c \<noteq> Gateway_Last_IO" "gateway_at c \<noteq> Gateway_Exited" using ok(1) by (auto simp: stop_order_def)
  then show ?thesis using ok True by (simp add: main_sends_def safe_step_def stop_order_def gateway_accounts_def)
next
  case False
  then show ?thesis using ok by (simp add: main_sends_def safe_step_def)
qed

lemma client_step_safe:
  assumes ok: "stop_order c" "gateway_accounts c" and run: "client_moves rnd e c = Inr d"
  shows "safe_step c d"
proof (cases e)
  case Engine_Moves
  then show ?thesis using engine_step [OF ok] run by simp
next
  case (Gateway_Moves full input took)
  then show ?thesis using gateway_step [OF ok] run by simp
next
  case (Consumer_Moves us)
  then have "d = consumer_thread us c" using run by simp
  then show ?thesis using consumer_step [OF ok] by simp
next
  case Main_Moves
  then have "d = main_thread c" using run by simp
  then show ?thesis using main_step [OF ok] by simp
next
  case (Main_Sends r)
  then have "d = main_sends r c" using run by simp
  then show ?thesis using main_sends_step [OF ok] by simp
qed

lemma client_run_safe: "stop_order c \<Longrightarrow> gateway_accounts c \<Longrightarrow> client_run rnd es c = Inr d \<Longrightarrow> safe_step c d"
proof (induction es arbitrary: c)
  case Nil
  then show ?case by (auto simp: safe_step_def)
next
  case (Cons e es)
  then obtain b where b: "client_moves rnd e c = Inr b" "client_run rnd es b = Inr d" by (auto simp: bindE_eq_Inr)
  have "safe_step c b" by (rule client_step_safe [OF Cons.prems(1,2) b(1)])
  moreover from this have "safe_step b d" using Cons.IH [OF _ _ b(2)] by (simp add: safe_step_def)
  ultimately show ?case by (simp add: safe_step_def)
qed

lemma started_safe: "stop_order (started debug client algo cfg)" "gateway_accounts (started debug client algo cfg)"
  by (simp_all add: started_def stop_order_def gateway_accounts_def engine_left_def new_OrderGateway_def new_socket_def)

section \<open>Fair schedules\<close>

text \<open>
  An infinite schedule is fair if every thread moves again and again, and quiet if nothing comes in from
  outside: no bytes for the gateway, no updates for the consumer, no requests of the main thread. How
  much the kernel takes of what is sent is left open.
\<close>

datatype thread = Engine_Thread | Gateway_Thread | Consumer_Thread | Main_Thread

fun thread_of :: "client_event \<Rightarrow> thread" where
  "thread_of Engine_Moves = Engine_Thread"
| "thread_of (Gateway_Moves full input took) = Gateway_Thread"
| "thread_of (Consumer_Moves us) = Consumer_Thread"
| "thread_of Main_Moves = Main_Thread"
| "thread_of (Main_Sends r) = Main_Thread"

fun quiet :: "client_event \<Rightarrow> bool" where
  "quiet (Gateway_Moves full input took) \<longleftrightarrow> input = []"
| "quiet (Consumer_Moves us) \<longleftrightarrow> us = []"
| "quiet (Main_Sends r) \<longleftrightarrow> False"
| "quiet ev \<longleftrightarrow> True"

definition fair :: "(nat \<Rightarrow> client_event) \<Rightarrow> bool" where
  "fair schedule \<longleftrightarrow> (\<forall>t n. \<exists>m\<ge>n. thread_of (schedule m) = t)"

definition after :: "rounding \<Rightarrow> (nat \<Rightarrow> client_event) \<Rightarrow> nat \<Rightarrow> Client \<Rightarrow> Client result" where
  "after rnd schedule n = client_run rnd (map schedule [0..<n])"

lemma client_run_append: "client_run rnd (es @ fs) c = bindE (client_run rnd es c) (client_run rnd fs)"
  by (induction es arbitrary: c) (auto simp: bindE_def split: sum.splits)

lemma after_Suc: "after rnd schedule (Suc n) c = bindE (after rnd schedule n c) (client_moves rnd (schedule n))"
  unfolding after_def by (simp add: client_run_append bindE_def split: sum.splits)

text \<open>What the engine holds can be handled, and the send buffer takes what is to be sent.\<close>

definition can_handle :: "TradeEngine \<Rightarrow> bool" where
  "can_handle te \<longleftrightarrow> books_right te \<and> (\<forall>r \<in> set (te_responses te). response_fits r) \<and>
     (\<forall>u \<in> set (te_updates te). unat (mu_symbol_id u) < kMaxSymbols) \<and>
     (\<forall>i < kMaxSymbols. updates_fit (views te i) (of_symbol i (te_updates te)))"

definition room_to_send :: "Client \<Rightarrow> bool" where
  "room_to_send c \<longleftrightarrow> length (outbound (og_socket (gateway c))) +
     (length (om_requests (order_manager (engine c))) + length (writing c)) * request_size \<le> TCPBufferSize"

section \<open>Progress of each thread\<close>

text \<open>How far a thread is from leaving, once its flag is cleared and nothing more comes in.\<close>

definition engine_left_to_do :: "Client \<Rightarrow> nat" where
  "engine_left_to_do c = length (te_responses (engine c)) + length (te_updates (engine c)) + length (writing c)"

definition engine_rank :: "Client \<Rightarrow> nat" where
  "engine_rank c = (let n = engine_left_to_do c in case engine_at c of
       Engine_Exited \<Rightarrow> 0
     | Engine_Responses \<Rightarrow> 20 * n + (if n = 0 then 5 else 6)
     | Engine_Updates \<Rightarrow> 20 * n + (if n = 0 then 4 else if te_responses (engine c) = [] then 5 else 10)
     | Engine_Head \<Rightarrow> 20 * n + (if n = 0 then 3 else 9)
     | Engine_Check_Responses \<Rightarrow> 20 * n + (if n = 0 then 2 else 8)
     | Engine_Check_Updates \<Rightarrow> 20 * n + (if n = 0 then 1 else 7))"

definition gateway_rank :: "Client \<Rightarrow> nat" where
  "gateway_rank c = (let n = length (om_requests (order_manager (engine c))) in case gateway_at c of
       Gateway_Exited \<Rightarrow> 0
     | Gateway_Last_IO \<Rightarrow> 1
     | Gateway_Check \<Rightarrow> 10 * n + (if n = 0 then 2 else 8)
     | Gateway_Head \<Rightarrow> 10 * n + (if n = 0 then 3 else 9)
     | Gateway_Requests \<Rightarrow> 10 * n + (if n = 0 then 4 else 6)
     | Gateway_IO \<Rightarrow> 10 * n + (if n = 0 then 5 else 7))"

definition consumer_rank :: "Client \<Rightarrow> nat" where
  "consumer_rank c = (case consumer_at c of Consumer_IO \<Rightarrow> 2 | Consumer_Head \<Rightarrow> 1 | Consumer_Exited \<Rightarrow> 0)"

lemmas rank_defs = engine_rank_def engine_left_to_do_def Let_def

text \<open>The engine.\<close>

definition engine_moved :: "Client \<Rightarrow> Client \<Rightarrow> bool" where
  "engine_moved c d \<longleftrightarrow> main_at d = main_at c \<and> engine_run d = engine_run c \<and> gateway d = gateway c \<and>
     gateway_at d = gateway_at c \<and> consumer_run d = consumer_run c \<and> consumer_at d = consumer_at c \<and>
     can_handle (engine d) \<and> room_to_send d \<and>
     (engine_at c = Engine_Exited \<longrightarrow> d = c) \<and>
     (engine_at c \<noteq> Engine_Exited \<and> \<not> engine_run c \<longrightarrow> engine_rank d < engine_rank c)"

lemma engine_jumps:
  assumes "can_handle (engine c)" and "room_to_send c" and "engine_at c \<noteq> Engine_Exited"
    and "\<not> engine_run c \<Longrightarrow> engine_rank (c\<lparr>engine_at := p\<rparr>) < engine_rank c"
  shows "engine_moved c (c\<lparr>engine_at := p\<rparr>)"
  using assms by (simp add: engine_moved_def room_to_send_def)

lemma engine_response_step:
  assumes ok: "can_handle (engine c)" "room_to_send c" and at: "engine_at c = Engine_Responses" and rs: "te_responses (engine c) = r # rs"
  shows "\<exists>d. engine_thread rnd c = Inr d \<and> engine_moved c d"
proof -
  let ?te = "engine c"
  obtain te1 where te1: "engine_onOrderUpdate rnd r ?te = Inr te1" "ticker_order_book te1 = ticker_order_book ?te" "te_updates te1 = te_updates ?te"
    using engine_onOrderUpdate_returns [of r rnd ?te] ok(1) rs by (auto simp: can_handle_def)
  let ?d = "c\<lparr>engine := te1\<lparr>te_responses := rs\<rparr>\<rparr>"
  have "engine_moved c ?d"
    using ok at rs te1(2,3) response_keeps_requests [OF te1(1)]
    by (simp add: engine_moved_def can_handle_def books_right_def room_to_send_def rank_defs)
  then show ?thesis using at rs te1(1) by (simp add: engine_thread_def)
qed

lemma engine_update_step:
  assumes ok: "can_handle (engine c)" "room_to_send c" "te_stopping (engine c)" and at: "engine_at c = Engine_Updates"
    and idle: "writing c = []" and us: "te_updates (engine c) = u # us"
  shows "\<exists>d. engine_thread rnd c = Inr d \<and> engine_moved c d"
proof -
  let ?te = "engine c" and ?i = "unat (mu_symbol_id u)"
  have i: "?i < kMaxSymbols" using ok(1) us by (simp add: can_handle_def)
  have "update_fits (views ?te ?i) u" using ok(1) us i by (auto simp: can_handle_def of_symbol_def)
  then obtain te1 where te1: "engine_onMarketUpdate rnd u ?te = Inr te1" "books_right te1" "te_responses te1 = te_responses ?te"
      "views te1 = (views ?te)(?i := client_step (views ?te ?i) u)"
    using engine_onMarketUpdate_returns [of ?te u rnd] ok i by (auto simp: can_handle_def)
  have same: "order_manager te1 = order_manager ?te" using market_keeps_stopping(2) [OF te1(1) ok(3)] .
  have "\<forall>j < kMaxSymbols. updates_fit (views ?te j) (of_symbol j (u # us))" using ok(1) us by (simp add: can_handle_def)
  from rest_fits [OF this te1(4)] have "\<forall>j < kMaxSymbols. updates_fit (views te1 j) (of_symbol j us)" .
  then have "can_handle (engine (decide us te1 c))"
    using ok(1) us te1(2,3) by (simp add: can_handle_def decide_def books_right_def Let_def)
  moreover have "room_to_send (decide us te1 c)" using ok(2) idle by (simp add: room_to_send_def decide_def same Let_def)
  ultimately have "engine_moved c (decide us te1 c)"
    using at us idle te1(3) by (simp add: engine_moved_def decide_def same rank_defs)
  then show ?thesis using at us idle te1(1) by (simp add: engine_thread_def)
qed

lemma engine_progress:
  assumes ok: "can_handle (engine c)" "room_to_send c" "te_stopping (engine c)" and idle: "engine_at c \<noteq> Engine_Updates \<Longrightarrow> writing c = []"
  shows "\<exists>d. engine_thread rnd c = Inr d \<and> engine_moved c d"
proof (cases "engine_at c")
  case Engine_Head
  show ?thesis using Engine_Head by (simp add: engine_thread_def engine_jumps [OF ok(1,2)] rank_defs)
next
  case Engine_Check_Responses
  show ?thesis using Engine_Check_Responses by (simp add: engine_thread_def engine_jumps [OF ok(1,2)] rank_defs)
next
  case Engine_Check_Updates
  show ?thesis using Engine_Check_Updates by (simp add: engine_thread_def engine_jumps [OF ok(1,2)] rank_defs)
next
  case Engine_Responses
  show ?thesis
  proof (cases "te_responses (engine c)")
    case Nil
    then show ?thesis using Engine_Responses by (simp add: engine_thread_def engine_jumps [OF ok(1,2)] rank_defs)
  qed (rule engine_response_step [OF ok(1,2) Engine_Responses])
next
  case Engine_Updates
  show ?thesis
  proof (cases "writing c")
    case Nil
    show ?thesis
    proof (cases "te_updates (engine c)")
      assume "te_updates (engine c) = []"
      then show ?thesis using Engine_Updates Nil by (simp add: engine_thread_def engine_jumps [OF ok(1,2)] rank_defs)
    qed (rule engine_update_step [OF ok Engine_Updates Nil])
  next
    case (Cons q qs)
    let ?d = "c\<lparr>engine := (engine c)\<lparr>order_manager := sendClientRequest q (order_manager (engine c))\<rparr>, writing := qs\<rparr>"
    have "engine_moved c ?d" using ok(1,2) Engine_Updates Cons
      by (simp add: engine_moved_def can_handle_def books_right_def room_to_send_def rank_defs)
    then show ?thesis using Engine_Updates Cons by (simp add: engine_thread_def Let_def)
  qed
next
  case Engine_Exited
  then show ?thesis using ok(1,2) by (simp add: engine_thread_def engine_moved_def)
qed

text \<open>The gateway.\<close>

definition gateway_moved :: "Client \<Rightarrow> Client \<Rightarrow> bool" where
  "gateway_moved c d \<longleftrightarrow> main_at d = main_at c \<and> engine_run d = engine_run c \<and> engine_at d = engine_at c \<and> writing d = writing c \<and>
     ticker_order_book (engine d) = ticker_order_book (engine c) \<and> te_responses (engine d) = te_responses (engine c) \<and>
     te_updates (engine d) = te_updates (engine c) \<and> consumer_run d = consumer_run c \<and> consumer_at d = consumer_at c \<and>
     og_run (gateway d) = og_run (gateway c) \<and> incoming_responses (gateway d) = [] \<and> room_to_send d \<and>
     (gateway_at c = Gateway_Exited \<longrightarrow> d = c) \<and>
     (gateway_at c \<noteq> Gateway_Exited \<and> \<not> og_run (gateway c) \<longrightarrow> gateway_rank d < gateway_rank c)"

lemma gateway_io_quiet:
  "gateway_io full [] took c = Inr (c\<lparr>gateway := (gateway c)\<lparr>og_socket := (og_socket (gateway c))\<lparr>outbound := []\<rparr>, incoming_responses := []\<rparr>,
     engine := (engine c)\<lparr>te_responses := te_responses (engine c) @ incoming_responses (gateway c)\<rparr>,
     offered := offered c @ outbound (og_socket (gateway c))\<rparr>)"
  by (simp add: gateway_io_def tcp_sendAndRecv_def socket_io_def Let_def)

lemma gw_send_incoming: "gw_send r g = Inr g' \<Longrightarrow> incoming_responses g' = incoming_responses g"
  by (auto simp: gw_send_def bindE_eq_Inr)

lemma gateway_progress:
  assumes room: "room_to_send c" and none: "incoming_responses (gateway c) = []"
    and empty: "gateway_at c = Gateway_Last_IO \<Longrightarrow> om_requests (order_manager (engine c)) = []"
  shows "\<exists>d. gateway_thread full [] took c = Inr d \<and> gateway_moved c d"
proof (cases "gateway_at c")
  case Gateway_Requests
  show ?thesis
  proof (cases "om_requests (order_manager (engine c))")
    case Nil
    then show ?thesis using Gateway_Requests room none
      by (simp add: gateway_thread_def gateway_moved_def room_to_send_def gateway_rank_def Let_def)
  next
    case (Cons r rs)
    let ?g = "gateway c"
    have room': "length (outbound (og_socket ?g)) + request_size + (length rs + length (writing c)) * request_size \<le> TCPBufferSize"
      using Cons room by (simp add: room_to_send_def algebra_simps)
    then obtain g where g: "gw_send r ?g = Inr g"
      by (simp add: gw_send_def tcp_send_def om_request_bytes_def request_size_def)
    note e = gw_send_effect [OF g]
    let ?d = "c\<lparr>gateway := g, engine := take_request (engine c), taken := taken c @ [r]\<rparr>"
    have "room_to_send ?d" using e room' Cons by (simp add: room_to_send_def request_size_def algebra_simps)
    then have "gateway_moved c ?d"
      using Gateway_Requests Cons none e gw_send_incoming [OF g]
      by (simp add: gateway_moved_def gateway_rank_def Let_def take_request_def)
    then show ?thesis using Gateway_Requests Cons g by (simp add: gateway_thread_def)
  qed
qed (use room none empty in \<open>simp_all add: gateway_thread_def gateway_io_quiet gateway_moved_def room_to_send_def gateway_rank_def Let_def\<close>)

text \<open>The consumer.\<close>

definition consumer_moved :: "Client \<Rightarrow> Client \<Rightarrow> bool" where
  "consumer_moved c d \<longleftrightarrow> main_at d = main_at c \<and> engine_run d = engine_run c \<and> engine_at d = engine_at c \<and> writing d = writing c \<and>
     engine d = engine c \<and> gateway d = gateway c \<and> gateway_at d = gateway_at c \<and> consumer_run d = consumer_run c \<and>
     (consumer_at c = Consumer_Exited \<longrightarrow> d = c) \<and>
     (consumer_at c \<noteq> Consumer_Exited \<and> \<not> consumer_run c \<longrightarrow> consumer_rank d < consumer_rank c)"

lemma consumer_progress: "consumer_moved c (consumer_thread [] c)"
  by (cases "consumer_at c") (simp_all add: consumer_thread_def consumer_moved_def consumer_rank_def)

section \<open>The stop makes progress\<close>

text \<open>The invariant of the stop, and the thread it waits for.\<close>

definition stop_state :: "Client \<Rightarrow> bool" where
  "stop_state c \<longleftrightarrow> stop_order c \<and> gateway_accounts c \<and> main_at c \<noteq> Main_Working \<and>
     (main_at c \<noteq> Engine_Off \<longrightarrow> \<not> engine_run c) \<and>
     (main_at c \<in> {Join_Consumer, Gateway_Off, Join_Gateway, Main_Done} \<longrightarrow> \<not> consumer_run c) \<and>
     (main_at c \<in> gateway_off \<longrightarrow> \<not> og_run (gateway c)) \<and>
     incoming_responses (gateway c) = [] \<and> can_handle (engine c) \<and> room_to_send c"

fun main_rank :: "main_pc \<Rightarrow> nat" where
  "main_rank Main_Working = 7" | "main_rank Engine_Off = 6" | "main_rank Join_Engine = 5" | "main_rank Consumer_Off = 4"
| "main_rank Join_Consumer = 3" | "main_rank Gateway_Off = 2" | "main_rank Join_Gateway = 1" | "main_rank Main_Done = 0"

definition joined_rank :: "Client \<Rightarrow> nat" where
  "joined_rank c = (case main_at c of Join_Engine \<Rightarrow> engine_rank c | Join_Consumer \<Rightarrow> consumer_rank c | Join_Gateway \<Rightarrow> gateway_rank c | _ \<Rightarrow> 0)"

definition due :: "Client \<Rightarrow> thread" where
  "due c = (case main_at c of
       Join_Engine \<Rightarrow> if engine_at c = Engine_Exited then Main_Thread else Engine_Thread
     | Join_Consumer \<Rightarrow> if consumer_at c = Consumer_Exited then Main_Thread else Consumer_Thread
     | Join_Gateway \<Rightarrow> if gateway_at c = Gateway_Exited then Main_Thread else Gateway_Thread
     | _ \<Rightarrow> Main_Thread)"

definition nearer :: "Client \<Rightarrow> Client \<Rightarrow> bool" where
  "nearer d c \<longleftrightarrow> main_rank (main_at d) < main_rank (main_at c) \<or> main_at d = main_at c \<and> joined_rank d < joined_rank c"

definition as_near :: "Client \<Rightarrow> Client \<Rightarrow> bool" where
  "as_near d c \<longleftrightarrow> main_at d = main_at c \<and> joined_rank d = joined_rank c \<and> due d = due c"

definition progress :: "thread \<Rightarrow> Client \<Rightarrow> Client \<Rightarrow> bool" where
  "progress t c d \<longleftrightarrow> (main_at c = Main_Done \<longrightarrow> main_at d = Main_Done) \<and>
     (main_at c \<noteq> Main_Done \<longrightarrow> nearer d c \<or> t \<noteq> due c \<and> as_near d c)"

lemmas progress_defs = progress_def nearer_def as_near_def joined_rank_def due_def

lemma stop_phase:
  assumes "stop_state c"
  shows "te_stopping (engine c)" "main_at c \<in> engine_left \<Longrightarrow> engine_at c = Engine_Exited"
    "engine_at c \<noteq> Engine_Updates \<Longrightarrow> writing c = []" "gateway_at c = Gateway_Last_IO \<Longrightarrow> om_requests (order_manager (engine c)) = []"
    "main_at c = Join_Engine \<Longrightarrow> \<not> engine_run c" "main_at c = Join_Consumer \<Longrightarrow> \<not> consumer_run c"
    "main_at c = Join_Gateway \<Longrightarrow> \<not> og_run (gateway c)"
  using assms by (auto simp: stop_state_def stop_order_def gateway_off_def)

lemma engine_advance:
  assumes s: "stop_state c"
  shows "\<exists>d. engine_thread rnd c = Inr d \<and> stop_state d \<and> progress Engine_Thread c d"
proof -
  note ph = stop_phase [OF s]
  obtain d where d: "engine_thread rnd c = Inr d" "engine_moved c d"
    using engine_progress [of c rnd] s ph by (auto simp: stop_state_def)
  have "stop_order d \<and> gateway_accounts d"
    using engine_step [OF _ _ d(1)] s by (simp add: stop_state_def safe_step_def)
  then have "stop_state d" using s d(2) by (simp add: stop_state_def engine_moved_def)
  moreover have "progress Engine_Thread c d"
  proof (cases "engine_at c = Engine_Exited")
    case True
    then show ?thesis using d(2) by (auto simp: engine_moved_def progress_defs split: main_pc.splits)
  next
    case False
    then have "main_at c \<notin> engine_left" using ph(2) by blast
    then show ?thesis using d(2) False ph(5)
      by (cases "main_at c") (simp_all add: engine_moved_def progress_defs engine_left_def)
  qed
  ultimately show ?thesis using d(1) by blast
qed

lemma gateway_advance:
  assumes s: "stop_state c"
  shows "\<exists>d. gateway_thread full [] took c = Inr d \<and> stop_state d \<and> progress Gateway_Thread c d"
proof -
  note ph = stop_phase [OF s]
  obtain d where d: "gateway_thread full [] took c = Inr d" "gateway_moved c d"
    using gateway_progress [of c full took] s ph(4) by (auto simp: stop_state_def)
  have "stop_order d \<and> gateway_accounts d"
    using gateway_step [OF _ _ d(1)] s by (simp add: stop_state_def safe_step_def)
  then have "stop_state d" using s d(2) by (simp add: stop_state_def gateway_moved_def can_handle_def books_right_def)
  moreover have "engine_rank d = engine_rank c" "consumer_rank d = consumer_rank c"
    using d(2) by (simp_all only: gateway_moved_def rank_defs consumer_rank_def)
  then have "progress Gateway_Thread c d"
    using d(2) ph(7) by (cases "main_at c"; cases "gateway_at c = Gateway_Exited") (simp_all add: gateway_moved_def progress_defs)
  ultimately show ?thesis using d(1) by blast
qed

lemma consumer_advance:
  assumes s: "stop_state c"
  shows "stop_state (consumer_thread [] c) \<and> progress Consumer_Thread c (consumer_thread [] c)"
proof -
  let ?d = "consumer_thread [] c"
  note ph = stop_phase [OF s] and m = consumer_progress [of c]
  have "stop_order ?d \<and> gateway_accounts ?d" using consumer_step s by (simp add: stop_state_def safe_step_def)
  then have "stop_state ?d" using s m by (simp add: stop_state_def consumer_moved_def room_to_send_def)
  moreover have "engine_rank ?d = engine_rank c" "gateway_rank ?d = gateway_rank c"
    using m by (simp_all only: consumer_moved_def rank_defs gateway_rank_def)
  then have "progress Consumer_Thread c ?d"
    using m ph(6) by (cases "main_at c"; cases "consumer_at c = Consumer_Exited") (simp_all add: consumer_moved_def progress_defs)
  ultimately show ?thesis by blast
qed

lemma main_advance:
  assumes s: "stop_state c"
  shows "stop_state (main_thread c) \<and> progress Main_Thread c (main_thread c)"
proof -
  let ?d = "main_thread c"
  have "stop_order ?d \<and> gateway_accounts ?d" using main_step s by (simp add: stop_state_def safe_step_def)
  moreover have "main_at ?d \<noteq> Main_Working" "main_at ?d \<noteq> Engine_Off \<longrightarrow> \<not> engine_run ?d"
    "main_at ?d \<in> {Join_Consumer, Gateway_Off, Join_Gateway, Main_Done} \<longrightarrow> \<not> consumer_run ?d"
    "main_at ?d \<in> gateway_off \<longrightarrow> \<not> og_run (gateway ?d)" "incoming_responses (gateway ?d) = []"
    using s by (cases "main_at c"; simp add: main_defs stop_state_def gateway_off_def)+
  moreover have "can_handle (engine ?d)" "room_to_send ?d"
    using s by (cases "main_at c"; simp add: main_defs stop_state_def room_to_send_def)+
  ultimately have "stop_state ?d" by (simp add: stop_state_def)
  moreover have "progress Main_Thread c ?d"
    using s by (cases "main_at c") (simp_all add: main_defs progress_defs stop_state_def)
  ultimately show ?thesis by blast
qed

lemma quiet_advance:
  assumes s: "stop_state c" and "quiet ev"
  shows "\<exists>d. client_moves rnd ev c = Inr d \<and> stop_state d \<and> progress (thread_of ev) c d"
proof (cases ev)
  case Engine_Moves
  then show ?thesis using engine_advance [OF s] by simp
next
  case (Gateway_Moves full input took)
  then show ?thesis using gateway_advance [OF s] assms(2) by simp
next
  case (Consumer_Moves us)
  then show ?thesis using consumer_advance [OF s] assms(2) by simp
next
  case Main_Moves
  then show ?thesis using main_advance [OF s] by simp
qed (use assms(2) in simp)

text \<open>Under a fair schedule the thread that is due moves, and before that nothing is undone.\<close>

lemma fair_progress:
  assumes fair: "fair schedule" and run: "\<And>n. progress (thread_of (schedule n)) (st n) (st (Suc n))"
  shows "\<exists>m\<ge>n. main_at (st m) = Main_Done"
proof -
  define wait where "wait n = (LEAST k. thread_of (schedule (n + k)) = due (st n))" for n
  have waits: "thread_of (schedule (n + wait n)) = due (st n)" for n
  proof -
    obtain m where "n \<le> m" "thread_of (schedule m) = due (st n)" using fair by (auto simp: fair_def)
    then have "thread_of (schedule (n + (m - n))) = due (st n)" by simp
    then show ?thesis unfolding wait_def by (rule LeastI)
  qed
  let ?R = "measures [\<lambda>n. main_rank (main_at (st n)), \<lambda>n. joined_rank (st n), wait]"
  show ?thesis
  proof (induction n rule: wf_induct_rule [OF wf_measures [of "[\<lambda>n. main_rank (main_at (st n)), \<lambda>n. joined_rank (st n), wait]"]])
    case (1 n)
    show ?case
    proof (cases "main_at (st n) = Main_Done")
      case False
      have "(Suc n, n) \<in> ?R"
      proof (cases "nearer (st (Suc n)) (st n)")
        case True
        then show ?thesis by (auto simp: nearer_def)
      next
        case far: False
        then have same: "thread_of (schedule n) \<noteq> due (st n)" "as_near (st (Suc n)) (st n)"
          using run [of n] False by (auto simp: progress_def)
        have "wait n \<noteq> 0" using waits [of n] same(1) by (metis add.right_neutral)
        then obtain k where k: "wait n = Suc k" by (cases "wait n") auto
        then have "thread_of (schedule (Suc n + k)) = due (st (Suc n))" using waits [of n] same(2) by (simp add: as_near_def)
        then have "wait (Suc n) \<le> k" unfolding wait_def by (rule Least_le)
        then show ?thesis using same(2) k by (simp add: as_near_def)
      qed
      from 1 [OF this] show ?thesis using Suc_leD by blast
    qed blast
  qed
qed

lemma stop_comes:
  assumes s: "stop_state c" and quiet: "\<And>n. quiet (schedule n)" and fair: "fair schedule"
  shows "\<exists>N. \<forall>n. \<exists>d. after rnd schedule n c = Inr d \<and> (N \<le> n \<longrightarrow> main_at d = Main_Done)"
proof -
  have runs: "\<exists>d. after rnd schedule n c = Inr d \<and> stop_state d" for n
  proof (induction n)
    case 0
    then show ?case using s by (simp add: after_def)
  next
    case (Suc n)
    then show ?case using quiet_advance quiet by (fastforce simp: after_Suc)
  qed
  then obtain st where st: "after rnd schedule n c = Inr (st n)" "stop_state (st n)" for n by metis
  have step: "progress (thread_of (schedule n)) (st n) (st (Suc n))" for n
  proof -
    obtain d where d: "client_moves rnd (schedule n) (st n) = Inr d" "progress (thread_of (schedule n)) (st n) d"
      using quiet_advance [OF st(2) quiet] by blast
    have "st (Suc n) = d" using st(1) [of n] st(1) [of "Suc n"] d(1) by (simp add: after_Suc)
    then show ?thesis using d(2) by simp
  qed
  obtain N where N: "main_at (st N) = Main_Done" using fair_progress [of schedule st 0] fair step by blast
  have "main_at (st n) = Main_Done" if "N \<le> n" for n
    using that by (induction rule: dec_induct) (use N step in \<open>auto simp: progress_def\<close>)
  then show ?thesis using st(1) by blast
qed

text \<open>The invariant holds when the stop begins.\<close>

definition before_stop :: "Client \<Rightarrow> bool" where
  "before_stop c \<longleftrightarrow>
     (main_at c \<notin> {Main_Working, Engine_Off} \<longrightarrow> \<not> engine_run c) \<and>
     (main_at c \<in> {Join_Consumer, Gateway_Off, Join_Gateway, Main_Done} \<longrightarrow> \<not> consumer_run c) \<and>
     (main_at c \<in> gateway_off \<longrightarrow> \<not> og_run (gateway c)) \<and> incoming_responses (gateway c) = []"

lemma engine_frame:
  assumes "engine_thread rnd c = Inr d"
  shows "main_at d = main_at c \<and> engine_run d = engine_run c \<and> consumer_run d = consumer_run c \<and> gateway d = gateway c"
  using assms
  by (cases "engine_at c") (auto simp: engine_thread_def decide_def Let_def bindE_eq_Inr split: list.splits if_splits)

lemma gateway_io_frame:
  assumes "gateway_io full input took c = Inr d"
  shows "main_at d = main_at c \<and> engine_run d = engine_run c \<and> consumer_run d = consumer_run c \<and>
    og_run (gateway d) = og_run (gateway c) \<and> incoming_responses (gateway d) = []"
proof -
  obtain g rs where "d = c\<lparr>gateway := g, engine := (engine c)\<lparr>te_responses := te_responses (engine c) @ rs\<rparr>,
      offered := offered c @ outbound (og_socket (gateway c))\<rparr>" "og_run g = og_run (gateway c)"
    using gateway_io_effect [OF assms] by metis
  moreover have "incoming_responses (gateway d) = []"
    using assms by (auto simp: gateway_io_def Let_def bindE_eq_Inr)
  ultimately show ?thesis by simp
qed

lemma gateway_frame:
  assumes run: "gateway_thread full input took c = Inr d" and none: "incoming_responses (gateway c) = []"
  shows "main_at d = main_at c \<and> engine_run d = engine_run c \<and> consumer_run d = consumer_run c \<and>
    og_run (gateway d) = og_run (gateway c) \<and> incoming_responses (gateway d) = []"
proof (cases "gateway_at c")
  case Gateway_Requests
  then show ?thesis using run none
    by (cases "om_requests (order_manager (engine c))")
      (auto simp: gateway_thread_def Let_def bindE_eq_Inr dest: gw_send_effect gw_send_incoming)
qed (use run none in \<open>auto simp: gateway_thread_def Let_def bindE_eq_Inr dest: gateway_io_frame\<close>)

lemma before_stop_step:
  assumes b: "before_stop c" and run: "client_moves rnd ev c = Inr d"
  shows "before_stop d"
proof (cases ev)
  case Engine_Moves
  then show ?thesis using engine_frame run b by (simp add: before_stop_def)
next
  case (Gateway_Moves full input took)
  then show ?thesis using gateway_frame [of full input took c d] run b by (simp add: before_stop_def)
next
  case (Consumer_Moves us)
  then have "d = consumer_thread us c" using run by simp
  then show ?thesis using b by (cases "consumer_at c") (simp_all add: consumer_thread_def before_stop_def)
next
  case Main_Moves
  then have "d = main_thread c" using run by simp
  then show ?thesis using b by (cases "main_at c") (auto simp: main_defs before_stop_def gateway_off_def)
next
  case (Main_Sends r)
  then have "d = main_sends r c" using run by simp
  then show ?thesis using b by (simp add: main_sends_def before_stop_def)
qed

lemma client_run_before_stop: "before_stop c \<Longrightarrow> client_run rnd es c = Inr d \<Longrightarrow> before_stop d"
  by (induction es arbitrary: c) (auto simp: bindE_eq_Inr dest: before_stop_step)

lemma started_before_stop: "before_stop (started debug client algo cfg)"
  by (simp add: started_def before_stop_def gateway_off_def new_OrderGateway_def)

lemma stop_begins:
  assumes "client_run rnd es (started debug client algo cfg) = Inr c" and "main_at c \<noteq> Main_Working"
    and "can_handle (engine c)" and "room_to_send c"
  shows "stop_state c"
  using client_run_safe [OF started_safe assms(1)] client_run_before_stop [OF started_before_stop assms(1)] assms(2-4)
  by (auto simp: stop_state_def safe_step_def before_stop_def)

section \<open>A race\<close>

text \<open>The handlers do not look at the queue of updates.\<close>

lemma algo_ignores_queue:
  "algoOnTradeUpdate u bbo (te\<lparr>te_updates := us\<rparr>) = algoOnTradeUpdate u bbo te"
  "algoOnOrderBookUpdate rnd ticker bbo (te\<lparr>te_updates := us\<rparr>) = algoOnOrderBookUpdate rnd ticker bbo te"
  by (simp_all add: algoOnTradeUpdate_def algoOnOrderBookUpdate_def split: AlgoType.split)

lemma trade_ignores_queue:
  assumes "engine_onTradeUpdate rnd u bbo te = Inr te'"
  shows "engine_onTradeUpdate rnd u bbo (te\<lparr>te_updates := us\<rparr>) = Inr (te'\<lparr>te_updates := us\<rparr>)"
proof -
  define te1 where "te1 = te\<lparr>feature_engine := feature_onTradeUpdate rnd u bbo (feature_engine te)\<rparr>"
  have run: "(if te_stopping te1 then Inr te1 else bindE (algoOnTradeUpdate u bbo te1) (\<lambda>m. Inr (te1\<lparr>order_manager := m\<rparr>))) = Inr te'"
    using assms unfolding engine_onTradeUpdate_def te1_def Let_def .
  have swap: "te1\<lparr>te_updates := us\<rparr> = te\<lparr>te_updates := us, feature_engine := feature_onTradeUpdate rnd u bbo (feature_engine te)\<rparr>"
    by (simp add: te1_def)
  have same: "te_stopping te1 = te_stopping te" by (simp add: te1_def)
  have "engine_onTradeUpdate rnd u bbo (te\<lparr>te_updates := us\<rparr>) = (if te_stopping te1 then Inr (te1\<lparr>te_updates := us\<rparr>)
      else bindE (algoOnTradeUpdate u bbo (te1\<lparr>te_updates := us\<rparr>)) (\<lambda>m. Inr (te1\<lparr>te_updates := us, order_manager := m\<rparr>)))"
    unfolding swap same by (simp add: engine_onTradeUpdate_def Let_def)
  then show ?thesis using run by (cases "te_stopping te1") (auto simp: algo_ignores_queue bindE_eq_Inr)
qed

lemma book_ignores_queue:
  assumes "engine_onOrderBookUpdate rnd ticker bbo te = Inr te'"
  shows "engine_onOrderBookUpdate rnd ticker bbo (te\<lparr>te_updates := us\<rparr>) = Inr (te'\<lparr>te_updates := us\<rparr>)"
proof -
  obtain k where k: "keeper_updateBBO rnd ticker bbo (position_keeper te) = Inr k"
    using assms by (auto simp: engine_onOrderBookUpdate_def bindE_eq_Inr)
  define te1 where "te1 = te\<lparr>position_keeper := k, feature_engine := feature_onOrderBookUpdate rnd bbo (feature_engine te)\<rparr>"
  have run: "(if te_stopping te1 then Inr te1 else bindE (algoOnOrderBookUpdate rnd ticker bbo te1) (\<lambda>m. Inr (te1\<lparr>order_manager := m\<rparr>))) = Inr te'"
    using assms by (simp add: engine_onOrderBookUpdate_def te1_def k Let_def split: if_splits)
  have swap: "te1\<lparr>te_updates := us\<rparr> = te\<lparr>te_updates := us, position_keeper := k, feature_engine := feature_onOrderBookUpdate rnd bbo (feature_engine te)\<rparr>"
    by (simp add: te1_def)
  have same: "te_stopping te1 = te_stopping te" by (simp add: te1_def)
  have "engine_onOrderBookUpdate rnd ticker bbo (te\<lparr>te_updates := us\<rparr>) = (if te_stopping te1 then Inr (te1\<lparr>te_updates := us\<rparr>)
      else bindE (algoOnOrderBookUpdate rnd ticker bbo (te1\<lparr>te_updates := us\<rparr>)) (\<lambda>m. Inr (te1\<lparr>te_updates := us, order_manager := m\<rparr>)))"
    unfolding swap same by (simp add: engine_onOrderBookUpdate_def k Let_def)
  then show ?thesis using run by (cases "te_stopping te1") (auto simp: algo_ignores_queue bindE_eq_Inr)
qed

lemma market_ignores_queue:
  assumes "engine_onMarketUpdate rnd u te = Inr te'"
  shows "engine_onMarketUpdate rnd u (te\<lparr>te_updates := us\<rparr>) = Inr (te'\<lparr>te_updates := us\<rparr>)"
proof -
  let ?i = "unat (mu_symbol_id u)"
  obtain notice b where b: "?i < kMaxSymbols" "onMarketUpdate u (ticker_order_book te ?i) = Inr (notice, b)"
    using assms by (auto simp: engine_onMarketUpdate_def Let_def bindE_eq_Inr ASSERT_def split: if_splits)
  define te1 where "te1 = te\<lparr>ticker_order_book := (ticker_order_book te)(?i := b)\<rparr>"
  have run: "(case notice of No_Notice \<Rightarrow> Inr te1 | Trade_Notice \<Rightarrow> engine_onTradeUpdate rnd u (mb_bbo b) te1
     | Book_Notice \<Rightarrow> engine_onOrderBookUpdate rnd (mu_symbol_id u) (mb_bbo b) te1) = Inr te'"
    using assms b unfolding te1_def by (simp add: engine_onMarketUpdate_def Let_def split: book_notice.splits)
  have swap: "te1\<lparr>te_updates := us\<rparr> = te\<lparr>te_updates := us, ticker_order_book := (ticker_order_book te)(?i := b)\<rparr>" by (simp add: te1_def)
  have "engine_onMarketUpdate rnd u (te\<lparr>te_updates := us\<rparr>) = (case notice of No_Notice \<Rightarrow> Inr (te1\<lparr>te_updates := us\<rparr>)
     | Trade_Notice \<Rightarrow> engine_onTradeUpdate rnd u (mb_bbo b) (te1\<lparr>te_updates := us\<rparr>)
     | Book_Notice \<Rightarrow> engine_onOrderBookUpdate rnd (mu_symbol_id u) (mb_bbo b) (te1\<lparr>te_updates := us\<rparr>))"
    unfolding swap using b by (simp add: engine_onMarketUpdate_def Let_def)
  then show ?thesis using run by (cases notice) (simp_all add: trade_ignores_queue book_ignores_queue)
qed

text \<open>A market maker sees two updates and decides on two orders; before it has written the first, the main
  thread begins to stop it.\<close>

definition racing_events :: "client_event list" where
  "racing_events = [Engine_Moves, Engine_Moves, Consumer_Moves [], Consumer_Moves [example_order 7 BUY 100 3, example_order 9 SELL 104 5],
     Engine_Moves, Engine_Moves, Main_Moves]"

lemma racing_run:
  "\<exists>c. client_run Fin racing_events (started True 1 ALGO_MAKER example_cfg) = Inr c \<and> main_at c = Engine_Off \<and> written c = [] \<and>
     writing c = [maker_request 1 BUY 100, maker_request 2 SELL 104] \<and> can_handle (engine c) \<and> room_to_send c"
proof -
  let ?te = "new_TradeEngine True 1 ALGO_MAKER example_cfg" and ?u = "example_order 7 BUY 100 3" and ?w = "example_order 9 SELL 104 5"
  obtain te1 te2 where te: "engine_onMarketUpdate Fin ?u ?te = Inr te1" "engine_onMarketUpdate Fin ?w te1 = Inr te2"
    "order_manager te2 = example_quoted" "te_responses te2 = []" "om_requests (order_manager te1) = []"
    using example_quote_run by blast
  have new: "books_right ?te" "views ?te 2 = (\<lambda>_. None)" "unat (next_order_id (order_manager ?te)) = 1" "te_responses ?te = []"
    "te_updates ?te = []" "om_requests (order_manager ?te) = []"
    using new_books_right by (simp_all add: new_TradeEngine_def new_book_ok new_OrderManager_def)
  have sym: "mu_symbol_id ?u = 2" "mu_symbol_id ?w = 2" by (simp_all add: example_order_def)
  have u: "update_fits (views ?te 2) ?u" and w: "update_fits (client_step (\<lambda>_. None) ?u) ?w"
    unfolding new(2) by (simp_all add: example_order_def update_fits_def can_add_def client_step_def view_update_def view_entry_def capacity_defs)
  have te1: "books_right te1" "views te1 = (views ?te)(2 := client_step (views ?te 2) ?u)" "unat (next_order_id (order_manager te1)) \<le> 3"
    using engine_onMarketUpdate_returns [OF new(1), of ?u Fin] u te(1) new(3) sym by (auto simp: kMaxSymbols_def kMaxOrderIds_def)
  have v1: "views te1 2 = client_step (\<lambda>_. None) ?u" using fun_cong [OF te1(2), of 2] by (simp only: new(2) fun_upd_same)
  have te2: "books_right te2"
    using engine_onMarketUpdate_returns [OF te1(1), of ?w Fin] w te(2) te1(3) v1 sym by (auto simp: kMaxSymbols_def kMaxOrderIds_def)
  define b where "b = (started True 1 ALGO_MAKER example_cfg)\<lparr>engine := ?te\<lparr>te_updates := [?u, ?w]\<rparr>, engine_at := Engine_Updates\<rparr>"
  define b1 where "b1 = b\<lparr>engine := te1\<lparr>te_updates := [?w]\<rparr>\<rparr>"
  define b2 where "b2 = b\<lparr>engine := te2\<lparr>te_updates := [], order_manager := example_quoted\<lparr>om_requests := []\<rparr>\<rparr>,
    writing := om_requests example_quoted\<rparr>"
  have b: "client_run Fin [Engine_Moves, Engine_Moves, Consumer_Moves [], Consumer_Moves [?u, ?w]] (started True 1 ALGO_MAKER example_cfg) = Inr b"
    by (simp add: b_def started_def engine_thread_def consumer_thread_def new(4,5) Let_def)
  have keep: "(order_manager te1)\<lparr>om_requests := []\<rparr> = order_manager te1" using te(5) by simp
  have s1: "engine_thread Fin b = Inr b1"
    using market_ignores_queue [OF te(1), of "[?u, ?w]"] keep
    by (simp add: engine_thread_def b_def b1_def started_def decide_def Let_def new(6) te(5))
  have s2: "engine_thread Fin b1 = Inr b2"
    using market_ignores_queue [OF te(2), of "[?w]"]
    by (simp add: engine_thread_def b_def b1_def b2_def started_def decide_def Let_def te(3,5))
  have "client_run Fin racing_events (started True 1 ALGO_MAKER example_cfg) = Inr (main_thread b2)"
    using b s1 s2 client_run_append [of Fin "[Engine_Moves, Engine_Moves, Consumer_Moves [], Consumer_Moves [?u, ?w]]" "[Engine_Moves, Engine_Moves, Main_Moves]"]
    by (simp add: racing_events_def)
  moreover have "main_at (main_thread b2) = Engine_Off" "written (main_thread b2) = []"
    "writing (main_thread b2) = [maker_request 1 BUY 100, maker_request 2 SELL 104]" "room_to_send (main_thread b2)"
    by (simp_all add: main_defs b2_def b_def started_def written_def example_quoted_simps room_to_send_def new_OrderGateway_def new_socket_def
        request_size_def TCPBufferSize_def)
  moreover have "can_handle (engine (main_thread b2))"
    using te2 by (simp add: main_defs b2_def b_def started_def can_handle_def te(4) books_right_def of_symbol_def)
  ultimately show ?thesis by blast
qed

text \<open>The threads take turns.\<close>

definition in_turn :: "nat \<Rightarrow> client_event" where
  "in_turn n = [Engine_Moves, Gateway_Moves (\<lambda>_. False) [] 0, Consumer_Moves [], Main_Moves] ! (n mod 4)"

lemma in_turn_quiet: "quiet (in_turn n)"
proof -
  have "n mod 4 = 0 \<or> n mod 4 = 1 \<or> n mod 4 = 2 \<or> n mod 4 = 3" by linarith
  then show ?thesis by (auto simp: in_turn_def)
qed

lemma in_turn_fair: "fair in_turn"
proof -
  have turn: "\<exists>i < 4. thread_of ([Engine_Moves, Gateway_Moves (\<lambda>_. False) [] 0, Consumer_Moves [], Main_Moves] ! i) = t" for t
  proof (cases t)
    case Engine_Thread
    then show ?thesis by (intro exI [of _ 0]) simp
  next
    case Gateway_Thread
    then show ?thesis by (intro exI [of _ 1]) simp
  next
    case Consumer_Thread
    then show ?thesis by (intro exI [of _ 2]) simp
  next
    case Main_Thread
    then show ?thesis by (intro exI [of _ 3]) simp
  qed
  have "\<exists>m\<ge>n. thread_of (in_turn m) = t" for t n
  proof -
    obtain i where "i < 4" "thread_of ([Engine_Moves, Gateway_Moves (\<lambda>_. False) [] 0, Consumer_Moves [], Main_Moves] ! i) = t"
      using turn by blast
    then have "thread_of (in_turn (4 * n + i)) = t" by (simp add: in_turn_def)
    moreover have "n \<le> 4 * n + i" by simp
    ultimately show ?thesis by blast
  qed
  then show ?thesis by (simp add: fair_def)
qed

section \<open>Nothing is lost\<close>

text \<open>C12: The stop of the client loses no request. Take any interleaving of its four threads, from the start
  to a state in which the main thread has begun to stop them, and any continuation to the end of the
  stop: the requests written in all are those in the ring or taken by then and at most two more, which
  the engine had decided on before \<open>stopping_\<close> was set and was about to write (the test of the flag and the
  writes are separate steps, so such late requests do occur, as the witness shows). The ring is empty at
  the end, the gateway has taken every one of these requests, and the bytes it handed to the socket are
  all of them, whole, in order and numbered from 1. What the kernel then takes of these bytes is the
  subject of \<open>partial_send_splices_messages\<close>.\<close>

theorem no_request_lost_at_stop:
  assumes "client_run rnd es (started debug client algo cfg) = Inr c" and "main_at c \<noteq> Main_Working"
    and "client_run rnd fs c = Inr d" and "main_at d = Main_Done"
  shows "length (writing c) \<le> 2 \<and> taken d = written c @ writing c \<and>
    om_requests (order_manager (engine d)) = [] \<and> writing d = [] \<and>
    offered d = concat (map om_request_bytes (number_requests 1 (written c @ writing c)))"
proof -
  have c: "stop_order c" "gateway_accounts c" using client_run_safe [OF started_safe assms(1)] by (simp_all add: safe_step_def)
  have d: "stop_order d" "gateway_accounts d" "committed d = committed c"
    using client_run_safe [OF c assms(3)] assms(2) by (simp_all add: safe_step_def)
  have "gateway_at d = Gateway_Exited" "om_requests (order_manager (engine d)) = []" "writing d = []"
    using d(1) assms(4) by (simp_all add: stop_order_def engine_left_def)
  moreover from this have "taken d = committed c" using d(3) by (simp add: committed_def written_def)
  moreover have "length (writing c) \<le> 2" using c(1) by (simp add: stop_order_def)
  ultimately show ?thesis using d(2) by (auto simp: gateway_accounts_def committed_def)
qed

text \<open>The two orders of the race are sent though the stop had begun when the ring was still empty.\<close>

theorem no_request_lost_at_stop_witness:
  "\<exists>c fs d. client_run Fin racing_events (started True 1 ALGO_MAKER example_cfg) = Inr c \<and> te_stopping (engine c) \<and> written c = [] \<and>
     client_run Fin fs c = Inr d \<and> main_at d = Main_Done \<and> taken d = [maker_request 1 BUY 100, maker_request 2 SELL 104] \<and>
     offered d = om_request_bytes \<lparr>omreq_seqNum = 1, omreq_request = maker_request 1 BUY 100\<rparr> @
       om_request_bytes \<lparr>omreq_seqNum = 2, omreq_request = maker_request 2 SELL 104\<rparr>"
proof -
  obtain c where c: "client_run Fin racing_events (started True 1 ALGO_MAKER example_cfg) = Inr c" "main_at c = Engine_Off"
    "written c = []" "writing c = [maker_request 1 BUY 100, maker_request 2 SELL 104]" "can_handle (engine c)" "room_to_send c"
    using racing_run by blast
  have stops: "main_at c \<noteq> Main_Working" by (simp add: c(2))
  have s: "stop_state c" by (rule stop_begins [OF c(1) stops c(5,6)])
  obtain N where "\<forall>n. \<exists>d. after Fin in_turn n c = Inr d \<and> (N \<le> n \<longrightarrow> main_at d = Main_Done)"
    using stop_comes [OF s in_turn_quiet in_turn_fair] by blast
  then obtain d where d: "after Fin in_turn N c = Inr d" "main_at d = Main_Done" by blast
  have run: "client_run Fin (map in_turn [0..<N]) c = Inr d" using d(1) by (simp add: after_def)
  from no_request_lost_at_stop [OF c(1) stops run d(2)]
  have "taken d = [maker_request 1 BUY 100, maker_request 2 SELL 104]"
    "offered d = om_request_bytes \<lparr>omreq_seqNum = 1, omreq_request = maker_request 1 BUY 100\<rparr> @
       om_request_bytes \<lparr>omreq_seqNum = 2, omreq_request = maker_request 2 SELL 104\<rparr>"
    by (simp_all add: c(3,4))
  then show ?thesis using c(1,3) stop_phase(1) [OF s] run d(2) by blast
qed

text \<open>C13: The stop ends. Take any state in which the main thread has begun to stop the client's threads. Then
  under every schedule in which each of the four threads moves again and again no step fails, and from
  some point on the main thread has passed all three joins: every thread has left its loop. This assumes
  that nothing more comes in from the network (else the engine's loop need not end), that what waits in
  the engine's queues can be handled (responses and updates of known symbols, valid fill sides, updates
  that fit the books), and that the send buffer takes what is written and about to be written.\<close>

theorem stop_ends:
  assumes "client_run rnd es (started debug client algo cfg) = Inr c" and "main_at c \<noteq> Main_Working"
    and "can_handle (engine c)" and "room_to_send c" and "\<forall>n. quiet (schedule n)" and "fair schedule"
  shows "\<exists>N. \<forall>n. \<exists>d. after rnd schedule n c = Inr d \<and> (N \<le> n \<longrightarrow> main_at d = Main_Done)"
  by (rule stop_comes [OF stop_begins [OF assms(1-4)] _ assms(6)]) (rule assms(5) [rule_format])

theorem stop_ends_witness:
  "\<exists>c N. client_run Fin racing_events (started True 1 ALGO_MAKER example_cfg) = Inr c \<and> writing c \<noteq> [] \<and>
     (\<forall>n. \<exists>d. after Fin in_turn n c = Inr d \<and> (N \<le> n \<longrightarrow> main_at d = Main_Done))"
proof -
  obtain c where c: "client_run Fin racing_events (started True 1 ALGO_MAKER example_cfg) = Inr c" "main_at c = Engine_Off"
    "writing c = [maker_request 1 BUY 100, maker_request 2 SELL 104]" "can_handle (engine c)" "room_to_send c"
    using racing_run by blast
  have "main_at c \<noteq> Main_Working" by (simp add: c(2))
  from stop_ends [OF c(1) this c(4,5) _ in_turn_fair] in_turn_quiet show ?thesis using c(1,3) by auto
qed

end
