(* ===== verification/Logger_Close.thy ===== *)
theory Logger_Close
  imports Logging
begin

text \<open>
  The two threads of a \<open>common::Logger\<close> to the end: the logging thread writes elements and then runs the
  destructor, which waits until the ring is empty, clears \<open>running_\<close> and joins; the logger thread runs
  \<open>flushQueue\<close>. Every access to the ring is a step of its own, as in \<open>LF_Queue\<close>; the destructor reads
  the two indices of \<open>size()\<close> one after the other.
\<close>

datatype flush_pc = Flush_Head | Flush_Draining | Flush_Exited

datatype close_pc = Still_Logging | Close_Size | Close_Loaded u64 | Close_Off | Close_Join | Close_Done

record Logger =
  log_ring :: "LogElement spsc"
  running :: bool
  flush_at :: flush_pc
  close_at :: close_pc

definition new_Logger :: "LogElement \<Rightarrow> Logger" where
  "new_Logger e = \<lparr>log_ring = spsc_init (new_queue e LOG_QUEUE_SIZE), running = True, flush_at = Flush_Head, close_at = Still_Logging\<rparr>"

inductive logger_step :: "Logger \<Rightarrow> Logger \<Rightarrow> bool" where
  log_push: "close_at s = Still_Logging \<Longrightarrow> spsc_step (log_ring s) r \<Longrightarrow> sc r = sc (log_ring s) \<Longrightarrow> received r = received (log_ring s) \<Longrightarrow>
    logger_step s (s\<lparr>log_ring := r\<rparr>)"
| flush_head: "flush_at s = Flush_Head \<Longrightarrow>
    logger_step s (s\<lparr>flush_at := (if running s then Flush_Draining else Flush_Exited)\<rparr>)"
| flush_read: "flush_at s = Flush_Draining \<Longrightarrow> spsc_step (log_ring s) r \<Longrightarrow> sp r = sp (log_ring s) \<Longrightarrow> sent r = sent (log_ring s) \<Longrightarrow>
    logger_step s (s\<lparr>log_ring := r\<rparr>)"
| flush_empty: "flush_at s = Flush_Draining \<Longrightarrow> sc (log_ring s) = C_Idle \<Longrightarrow> GetNextToRead (sq (log_ring s)) = (None, q) \<Longrightarrow>
    logger_step s (s\<lparr>log_ring := (log_ring s)\<lparr>sq := q\<rparr>, flush_at := Flush_Head\<rparr>)"
| close_begin: "close_at s = Still_Logging \<Longrightarrow> sp (log_ring s) = P_Idle \<Longrightarrow> logger_step s (s\<lparr>close_at := Close_Size\<rparr>)"
| close_load: "close_at s = Close_Size \<Longrightarrow> logger_step s (s\<lparr>close_at := Close_Loaded (next_read_index (sq (log_ring s)))\<rparr>)"
| close_size: "close_at s = Close_Loaded i \<Longrightarrow>
    logger_step s (s\<lparr>close_at := (if next_write_index (sq (log_ring s)) - i \<noteq> 0 then Close_Size else Close_Off)\<rparr>)"
| close_off: "close_at s = Close_Off \<Longrightarrow> logger_step s (s\<lparr>running := False, close_at := Close_Join\<rparr>)"
| close_join: "close_at s = Close_Join \<Longrightarrow> flush_at s = Flush_Exited \<Longrightarrow> logger_step s (s\<lparr>close_at := Close_Done\<rparr>)"

inductive logger_reach :: "LogElement \<Rightarrow> Logger \<Rightarrow> bool" for e where
  logger_start: "logger_reach e (new_Logger e)"
| logger_next: "logger_reach e s \<Longrightarrow> logger_step s t \<Longrightarrow> logger_reach e t"

section \<open>Invariant\<close>

text \<open>Equal indices mean that everything sent was received.\<close>

lemma ring_inv:
  assumes "spsc_reach (new_queue e LOG_QUEUE_SIZE) s"
  obtains k where "spsc_inv k s" "k \<le> 63"
proof -
  have size: "0 < unat LOG_QUEUE_SIZE" "unat LOG_QUEUE_SIZE \<le> 2 ^ 63" by (simp_all add: LOG_QUEUE_SIZE_def)
  obtain k where "spsc_inv k (spsc_init (new_queue e LOG_QUEUE_SIZE))" using new_queue_inv [OF size, of e] by blast
  from spsc_reach_inv [OF assms this] have inv: "spsc_inv k s" .
  then have "k \<le> 63" by (auto simp: spsc_inv_def spsc_at_def indices_ok_def ring_def)
  then show ?thesis using that inv by blast
qed

lemma equal_indices:
  assumes "spsc_reach (new_queue e LOG_QUEUE_SIZE) s" and "next_read_index (sq s) = next_write_index (sq s)"
  shows "received s = sent s"
proof -
  obtain k where k: "spsc_inv k s" "k \<le> 63" by (rule ring_inv [OF assms(1)])
  then obtain CR CW where at: "indices_ok k (sq s) (length (sent s)) (length (received s)) CR CW" "prefix (received s) (sent s)"
    by (auto simp: spsc_inv_def spsc_at_def)
  have le: "length (received s) \<le> length (sent s)" using at(1) by (simp add: indices_ok_def)
  have lt: "length (sent s) - length (received s) < 2 ^ 64"
  proof -
    have "length (sent s) - length (received s) < 2 ^ k" using at(1) by (auto simp: indices_ok_def)
    also have "(2::nat) ^ k \<le> 2 ^ 63" using k(2) by (intro power_increasing) simp_all
    finally show ?thesis by simp
  qed
  have "(of_nat (length (received s)) :: u64) = of_nat (length (sent s))" using assms(2) at(1) by (auto simp: indices_ok_def)
  then have "(of_nat (length (sent s) - length (received s)) :: u64) = 0" using le by (simp add: of_nat_diff)
  then have "(2::nat) ^ 64 dvd length (sent s) - length (received s)" by (simp add: word_of_nat_eq_0_iff)
  then have "length (sent s) - length (received s) = 0" using lt by (meson nat_dvd_not_less not_gr_zero)
  then have "length (received s) = length (sent s)" using le by simp
  then show ?thesis using at(2) by (metis append_Nil2 append_eq_append_conv prefix_def)
qed

lemma step_receives: "spsc_step s t \<Longrightarrow> prefix (received s) (received t)"
  by (induction rule: spsc_step.induct) simp_all

definition all_received :: "Logger \<Rightarrow> bool" where
  "all_received s \<longleftrightarrow> received (log_ring s) = sent (log_ring s)"

definition closing_right :: "LogElement \<Rightarrow> Logger \<Rightarrow> bool" where
  "closing_right e s \<longleftrightarrow> spsc_reach (new_queue e LOG_QUEUE_SIZE) (log_ring s) \<and>
     (\<forall>i. close_at s = Close_Loaded i \<and> i = next_write_index (sq (log_ring s)) \<longrightarrow> all_received s) \<and>
     (close_at s \<in> {Close_Off, Close_Join, Close_Done} \<longrightarrow> all_received s)"

text \<open>A step that leaves the writer alone keeps what was received whole.\<close>

lemma receives_all:
  assumes "spsc_reach (new_queue e LOG_QUEUE_SIZE) t" and "spsc_step s t" and "sent t = sent s" and "received s = sent s"
  shows "received t = sent t"
  using log_received_prefix [OF assms(1)] step_receives [OF assms(2)] assms(3,4) by (metis prefix_order.antisym)

lemma quiet_writer:
  assumes "spsc_step s t" and "sp t = sp s" and "sent t = sent s"
  shows "next_write_index (sq t) = next_write_index (sq s)"
  using assms(1)
proof (cases rule: spsc_step.cases)
  case (p_full q')
  then show ?thesis by (auto simp: TryGetNextToWriteTo_def Let_def split: if_splits)
next
  case (c_get i q')
  then show ?thesis by (auto simp: GetNextToRead_def Let_def split: if_splits)
next
  case (c_empty q')
  then show ?thesis by (auto simp: GetNextToRead_def Let_def split: if_splits)
qed (use assms(2,3) in \<open>auto simp: UpdateReadIndex_def\<close>)

lemma logger_step_right:
  assumes ok: "closing_right e s" and step: "logger_step s t"
  shows "closing_right e t"
proof -
  note reach = ok [unfolded closing_right_def, THEN conjunct1]
  show ?thesis using step
  proof (cases rule: logger_step.cases)
    case (log_push r)
    then show ?thesis using spsc_next [OF reach] by (simp add: closing_right_def)
  next
    case flush_head
    then show ?thesis using ok by (simp add: closing_right_def all_received_def)
  next
    case (flush_read r)
    have r: "spsc_reach (new_queue e LOG_QUEUE_SIZE) r" by (rule spsc_next [OF reach flush_read(3)])
    have keep: "all_received t" if "all_received s"
      using receives_all [OF r flush_read(3,5)] that flush_read(1) by (simp add: all_received_def)
    show ?thesis using ok r keep quiet_writer [OF flush_read(3-5)] by (simp add: closing_right_def flush_read(1))
  next
    case (flush_empty q)
    have "spsc_step (log_ring s) ((log_ring s)\<lparr>sq := q\<rparr>)" by (rule c_empty [OF flush_empty(3,4)])
    then have r: "spsc_reach (new_queue e LOG_QUEUE_SIZE) ((log_ring s)\<lparr>sq := q\<rparr>)"
      and w: "next_write_index q = next_write_index (sq (log_ring s))"
      using spsc_next [OF reach] quiet_writer [of "log_ring s" "(log_ring s)\<lparr>sq := q\<rparr>"] by simp_all
    show ?thesis using ok r w by (simp add: closing_right_def all_received_def flush_empty(1))
  next
    case close_begin
    then show ?thesis using ok by (simp add: closing_right_def all_received_def)
  next
    case close_load
    then show ?thesis using ok equal_indices [OF reach] by (simp add: closing_right_def all_received_def)
  next
    case (close_size i)
    then show ?thesis using ok by (auto simp: closing_right_def all_received_def)
  next
    case close_off
    then show ?thesis using ok by (simp add: closing_right_def all_received_def)
  next
    case close_join
    then show ?thesis using ok by (simp add: closing_right_def all_received_def)
  qed
qed

lemma logger_reach_right: "logger_reach e s \<Longrightarrow> closing_right e s"
proof (induction rule: logger_reach.induct)
  case logger_start
  then show ?case by (simp add: closing_right_def new_Logger_def all_received_def spsc_start)
next
  case (logger_next s t)
  then show ?case using logger_step_right by blast
qed

text \<open>C33: Closing a logger loses nothing: under every interleaving of the two threads, when the destructor
  has returned the file holds the text of all calls, in order. The destructor leaves its loop only when
  the index it read first equals the write index it reads later, which nobody moves any more, so that the
  elements not yet printed at the first read are none.\<close>

theorem closed_log_is_complete:
  assumes "logger_reach e s" and "close_at s = Close_Done"
    and "sent (log_ring s) = calls_pushed calls" and "\<forall>(f, vs) \<in> set calls. holes f = length vs"
  shows "flushed show_fp (received (log_ring s)) = calls_text show_fp calls"
proof -
  have "all_received s" using logger_reach_right [OF assms(1)] assms(2) by (simp add: closing_right_def)
  then show ?thesis using flushed_calls [OF assms(4)] assms(3) by (simp add: all_received_def)
qed

text \<open>Every state of the ring occurs while logging is on.\<close>

lemma logging_reaches:
  assumes "spsc_reach (new_queue e LOG_QUEUE_SIZE) r"
  shows "logger_reach e \<lparr>log_ring = r, running = True, flush_at = Flush_Draining, close_at = Still_Logging\<rparr>"
  using assms
proof (induction rule: spsc_reach.induct)
  case spsc_start
  have "logger_step (new_Logger e) ((new_Logger e)\<lparr>flush_at := Flush_Draining\<rparr>)"
    using flush_head [of "new_Logger e"] by (simp add: new_Logger_def)
  from logger_next [OF logger_start this] show ?case by (simp add: new_Logger_def)
next
  case (spsc_next r r')
  let ?s = "\<lparr>log_ring = r, running = True, flush_at = Flush_Draining, close_at = Still_Logging\<rparr>"
  have "sc r' = sc r \<and> received r' = received r \<or> sp r' = sp r \<and> sent r' = sent r"
    using spsc_next(2) by (cases rule: spsc_step.cases) simp_all
  then have "logger_step ?s (?s\<lparr>log_ring := r'\<rparr>)"
    using log_push [of ?s r'] flush_read [of ?s r'] spsc_next(2) by auto
  from logger_next [OF spsc_next(3) this] show ?case by simp
qed

text \<open>A logger that is closed after one call.\<close>

theorem closed_log_is_complete_witness:
  "\<exists>s. logger_reach (LT_CHAR CHR ''-'') s \<and> close_at s = Close_Done \<and> flushed (\<lambda>_. []) (received (log_ring s)) = ''a''"
proof -
  let ?e = "LT_CHAR CHR ''-''" and ?x = "LT_CHAR CHR ''a''"
  obtain r where r: "spsc_reach (new_queue ?e LOG_QUEUE_SIZE) r" "received r = [?x]" "sent r = [?x]" "sp r = P_Idle" "sc r = C_Idle"
    "fst (GetNextToRead (sq r)) = None" "next_read_index (sq r) = next_write_index (sq r)"
    using log_demo [of ?e ?x] by blast
  obtain q where q: "GetNextToRead (sq r) = (None, q)" using r(6) by (cases "GetNextToRead (sq r)") simp
  define s0 where "s0 = \<lparr>log_ring = r, running = True, flush_at = Flush_Draining, close_at = Still_Logging\<rparr>"
  have s0: "logger_reach ?e s0" using logging_reaches [OF r(1)] by (simp add: s0_def)
  let ?s1 = "s0\<lparr>close_at := Close_Size\<rparr>"
  have s1: "logger_reach ?e ?s1" by (rule logger_next [OF s0 close_begin]) (simp_all add: s0_def r(4))
  let ?s2 = "?s1\<lparr>close_at := Close_Loaded (next_read_index (sq (log_ring ?s1)))\<rparr>"
  have s2: "logger_reach ?e ?s2" by (rule logger_next [OF s1 close_load]) simp
  let ?s3 = "?s2\<lparr>close_at := Close_Off\<rparr>"
  have s3: "logger_reach ?e ?s3"
    using logger_next [OF s2 close_size [of ?s2 "next_read_index (sq r)"]] by (simp add: s0_def r(7))
  let ?s4 = "?s3\<lparr>running := False, close_at := Close_Join\<rparr>"
  have s4: "logger_reach ?e ?s4" by (rule logger_next [OF s3 close_off]) simp
  let ?s5 = "?s4\<lparr>log_ring := (log_ring ?s4)\<lparr>sq := q\<rparr>, flush_at := Flush_Head\<rparr>"
  have s5: "logger_reach ?e ?s5" by (rule logger_next [OF s4 flush_empty]) (simp_all add: s0_def r(5) q)
  let ?s6 = "?s5\<lparr>flush_at := Flush_Exited\<rparr>"
  have s6: "logger_reach ?e ?s6" using logger_next [OF s5 flush_head] by simp
  let ?s7 = "?s6\<lparr>close_at := Close_Done\<rparr>"
  have s7: "logger_reach ?e ?s7" by (rule logger_next [OF s6 close_join]) simp_all
  have "sent (log_ring ?s7) = calls_pushed [(''a'', [])]" by (simp add: s0_def r(3) calls_pushed_def)
  from closed_log_is_complete [OF s7 _ this] have "flushed (\<lambda>_. []) (received (log_ring ?s7)) = calls_text (\<lambda>_. []) [(''a'', [])]"
    by (simp add: holes_simps)
  then show ?thesis using s7 by (intro exI [of _ ?s7]) (simp add: s0_def r(2) print_element_def)
qed

end
