(* ===== verification/Spec2Isabelle.thy ===== *)
theory Spec2Isabelle
  imports Matching_Engine LF_Queue Order_Path Recovery Client_Mirror Market_Safety Trading_Main Book_Printing Trading_Reports Logging
    Feed_Mirror Connections Start_Up Shutdown Logger_Close
begin

text \<open>
  A verification development of the trading system under \<open>src/\<close>: an exchange (\<open>src/exchange\<close>), the
  trading clients that connect to it (\<open>src/trading\<close>) and the building blocks of both
  (\<open>src/common\<close>).

  The system. A client sends requests (new order, cancel) over TCP. The exchange's order manager
  checks that each client numbers its requests without gap on one socket of its own, collects the
  requests of one round of reads in the FIFO sequencer, which sorts them by receive time, and puts
  them into the request queue. The matching engine takes one request at a time to the order book of
  its symbol; the book answers with responses and market updates, which go through two more queues to
  the order manager, back to the client, and to the market data publisher. The publisher numbers the
  updates, multicasts them, and hands them to the snapshot synthesizer, which mirrors the live orders
  and multicasts all of them from time to time. A client's market data consumer follows the updates,
  recovers from gaps with a snapshot, and queues the updates for the trade engine. The trade engine
  keeps an order book per symbol, two features, the positions and a risk check, and runs a market
  maker or a liquidity taker, whose orders go through the order gateway back to the exchange. All
  queues between threads are single-producer single-consumer rings; orders and price levels live in
  object pools.

  Conventions (\<open>Prelude\<close>, \<open>Types\<close>). A structure is a record with the code's fields; a pointer
  into a pool is a slot number, a null pointer \<open>None\<close>. A handler is a function from the state to
  \<open>fault + state\<close>; each assertion, \<open>FATAL\<close>, null dereference, failed \<open>at()\<close> and access to a slot
  that holds no object is a fault. Unsigned integers are words. Prices and positions, which are signed
  64-bit, are integers whose arithmetic wraps by \<open>swrap\<close> wherever the code computes, signed
  overflow, which the language leaves undefined, included. A loop over a linked list gets one more
  step than its pool has slots, and the fault \<open>Diverges\<close> when that is not enough; the theorems show
  it is never reached, so that the loops of the code end. Threads are interleaved in
  \<open>LF_Queue\<close>, \<open>Logger_Close\<close> and \<open>Shutdown\<close>; every other component is sequential between two
  accesses to a ring, as in the code.

  The theories, by part.

  Building blocks. \<open>LF_Queue\<close>: the ring of \<open>common/ringBuffer.h\<close> with its cached indices, the
  rounding of its size, and the interleaved steps of both threads; the locale \<open>fifo_channel\<close> is the
  contract of a bounded queue, interpreted on the ring. \<open>Mem_Pool\<close>: the pool of
  \<open>common/mem_pool.h\<close> with its free list through the slots, bump cursor, debug flags and warm-up; the
  locale \<open>object_pool\<close> is the contract of an allocator, interpreted on it. \<open>Sockets\<close>: the buffers of \<open>common/tcp_socket\<close> and \<open>common/mcast_socket\<close>, with
  what the kernel reads and accepts as arguments. \<open>Socket_Setup\<close>: \<open>common/socket_utils.h\<close>, connecting and
  subscribing sockets and the TCP server, as programs over system calls; the system is a function from
  the calls made so far to the answer of the next, and what the code does is the trace of its calls.
  \<open>Logging\<close>: format strings, values and the logger
  thread of \<open>common/logging.h\<close>, and the time stamps of \<open>common/time_utils.h\<close>; \<open>Logger_Close\<close>: both
  threads of a logger to the end of its destructor. \<open>Messages\<close> and
  \<open>Wire\<close>: the message structures, their printing and their packed bytes; the locale \<open>codec\<close> states
  that a fixed-size message is read back from its bytes and that a byte stream splits into its
  messages however it is cut, and is interpreted for the three message formats. \<open>Doubles\<close>: binary64
  values as rationals, infinities and NaN with the rounding of each operation as an argument; the
  signed zero is not distinguished.

  Exchange. \<open>Occupancy\<close> and \<open>Price_Levels\<close>: the two-level bitmap of the occupied ticks and one
  side of a book (\<open>exchange/matcher/price_levels\<close>). \<open>Book_Core\<close>: the order book
  (\<open>book_core\<close>). \<open>Book_Spec\<close> is the abstract book, queues of orders per tick and the
  price-time matching rule without pointers; \<open>Book_Refine\<close>, \<open>Book_Requests\<close> and
  \<open>Book_Correct\<close> show that the code implements it; \<open>Book_Fills\<close> derives from it what one incoming
  order does (conservation, limit, priority), \<open>Book_Reach\<close> what holds in every reachable book.
  \<open>Matching_Engine\<close>: all books and the dispatch of a request. \<open>FIFO_Sequencer\<close>,
  \<open>Exchange_Order_Manager\<close>: the way in and out of the exchange (\<open>exchange/order_manager\<close>,
  \<open>common/tcp_server.cc\<close>); \<open>Connections\<close> derives the sockets accepted in a round from the server's
  \<open>poll\<close>. \<open>Market_Data_Publisher\<close>, with \<open>Snapshot_Mirror\<close>: publisher and
  synthesizer (\<open>exchange/market_data\<close>) and why a snapshot replays to the market.

  Client. \<open>Order_Gateway\<close> (\<open>trading/order_gw\<close>); \<open>Order_Path\<close> puts both directions of the
  connection together. \<open>Market_Data_Consumer\<close> (\<open>trading/market_data\<close>); \<open>Recovery\<close> proves it
  right against the locale \<open>market_feed\<close>, what a consumer may rely on about updates and snapshots,
  interpreted on the exchange's publisher and synthesizer. \<open>Market_Order\<close> and
  \<open>Market_Order_Book\<close> (\<open>trading/strategy/market_order\<close>, \<open>market_order_book\<close>): the client's
  book, circular lists of levels and of orders; \<open>Ring_List\<close> is the theory of such lists, and
  \<open>Client_Book\<close>, \<open>Client_Levels\<close>, \<open>Client_Orders\<close>, \<open>Client_Updates\<close>, \<open>Client_Changes\<close>
  and \<open>Client_Correct\<close> relate the book to the live orders; \<open>Client_Mirror\<close> connects it to the
  exchange's book. \<open>Session_Feed\<close> shows what a whole session of the engine publishes, and \<open>Feed_Mirror\<close>
  composes engine, lossy network, consumer and client books, in the locale \<open>fitting_feed\<close>, which extends
  \<open>market_feed\<close> and is interpreted on those sessions. \<open>Position_Keeper\<close>, \<open>Risk_Manager\<close>, \<open>Trading_Order_Manager\<close>,
  \<open>Strategies\<close> and \<open>Trade_Engine\<close> model the files of these names under \<open>trading/strategy\<close>;
  \<open>Trading_Safety\<close> is the engine against an exchange that answers in any order its contract allows,
  \<open>Trading_Requests\<close> what its requests look like, \<open>Trading_Runs\<close> the engine's loop and the
  position limit. \<open>Client_Contract\<close> shows that the matching engine keeps that contract, and
  \<open>Market_Safety\<close> puts client and engine together: the engine handles the client's requests in
  the order sent, between those of any other clients. \<open>Engine_Sessions\<close> says which whole sessions
  of requests the engine takes without a fault; \<open>Trading_Main\<close> models the arguments of
  \<open>trading_main.cpp\<close> and its random trader and shows that its sessions are such. \<open>Start_Up\<close> is how both programs open
  their connections, \<open>Shutdown\<close> the interleaved loops of the client's threads and how the main thread
  stops them. \<open>Book_Printing\<close>
  and \<open>Trading_Reports\<close> are the debug output of the client's book, positions and configuration.

  What is shown. The book is a price-time priority book: on valid requests it never stops and
  answers, publishes and keeps exactly what the abstract book does; no quantity is lost, no limit
  violated, the book is never crossed, and its published updates rebuild it. The requests a client's
  gateway sends reach the engine's queue once each, in the order sent when the sort is stable or the
  times of the reads tell them apart, and the responses come back to the client in order. A consumer
  that loses messages is never wrong when it is not recovering, as long as no message of an older snapshot
  cycle arrives after one of a newer, and a whole snapshot ends the recovery. The client's book, fed the
  exchange's updates, shows the exchange's orders and its best prices while the market order ids fit its
  tables, also when the network loses, repeats and reorders messages within that limit.
  Profits are those of a ledger when computed without rounding, and no interleaving takes a position
  beyond its limit; against the engine itself, the client sends only well-formed requests, which the
  engine takes if their price is below 2^31, and with nothing in flight its picture of its orders is what
  rests in the books. The rings deliver what was written, in order; the pools never hand out a slot
  twice, and in a debug build take back live objects only. Sockets are set up as configured and every
  connection offered is taken. The client's stop ends under every fair schedule, and hands to the socket
  every request that was written when it began or that the engine had decided on by then. Errors
  are part of it: what stops the exchange, the synthesizer and the logger, and where the code
  loses information (\<open>same_time_requests_can_swap\<close>, \<open>partial_send_splices_messages\<close>,
  \<open>duplicate_order_id_orphans\<close>, \<open>market_id_overflow_stops_synthesizer\<close>,
  \<open>sockets_of_earlier_addresses_stay_open\<close>), or takes something for what it is not: a price beyond 2^32
  that wraps into the band (\<open>far_price_wraps_into_band\<close>), a late message of an older snapshot
  (\<open>late_snapshot_message_is_taken\<close>).

  Parameters and hypotheses. The sort of the sequencer is any function that meets the documented
  contract of \<open>std::ranges::sort\<close>; reads and writes of the kernel are arguments; the rounding of
  floating point arithmetic is an argument, and where a theorem needs exact arithmetic it takes the
  rounding \<open>Fin\<close>, that is none. How a floating point number is printed or read is an argument, and so
  are the numbers \<open>rand()\<close> returns. What a network may do to the market data is \<open>delivered\<close> in
  \<open>Recovery\<close>; whether a snapshot socket can be joined comes with each message (\<open>consume_joining\<close>), and
  \<open>consume_events\<close> is the case that it always can. A run of client and engine (\<open>market_reach\<close>) takes only
  requests the engine is specified for (\<open>engine_valid\<close>); other requests are the subject of the error
  theorems. A schedule of the client's threads is fair if each of them moves again and again, and the
  stop is shown to end when nothing more comes in from the network.

  Simplifications. A writer that waits for room in a full ring is not modelled: the queues between
  components are lists, except in \<open>LF_Queue\<close> and \<open>Logger_Close\<close>. The synthesizer's datagrams are taken
  whole by the kernel. The consumer's expected sequence number, a \<open>ssize_t\<close>, is an integer without
  wrap-around, which makes no difference below 2^63.

  Not modelled: \<open>src/benchmark\<close> (measurement programs); \<open>thread_utils.h\<close> and \<open>perf_utils.h\<close>
  (creating and pinning a thread, cycle counters); sleeping, the signal handler of
  \<open>exchange_main.cpp\<close> and the destructors both programs run at their end, which stop the threads
  again, release memory and sleep; starting and stopping the exchange's threads, which are never joined; the log lines
  and time measurements inside the components.
\<close>

end
